(* ===== verification/Prelude.thy ===== *)
theory Prelude
  imports Main "HOL-Library.Word"
begin

unbundle bit_operations_syntax

text \<open>
  Shared vocabulary of the development: Go's fixed-width integers as words, byte slices as
  lists of bytes, and the part of Go's standard library the components have in common, the
  base-128 variable-length integers of \<^verbatim>\<open>encoding/binary\<close>.  The locale
  \<open>varint_codec\<close> is the contract between a variable-length integer codec and the
  length-prefixed formats built on it; every codec of the development interprets it.
\<close>

section \<open>Types\<close>

type_synonym byte = "8 word"
type_synonym bytes = "8 word list"
type_synonym u32 = "32 word"
type_synonym u64 = "64 word"

section \<open>Definitions\<close>

text \<open>
  Go's \<^verbatim>\<open>binary.PutUvarint\<close>: seven bits per byte, least significant group
  first, the top bit set on every byte but the last.
\<close>

function PutUvarint :: "u64 \<Rightarrow> bytes" where
  "PutUvarint x =
     (if x < 0x80 then [ucast x]
      else ucast (x AND 0x7f OR 0x80) # PutUvarint (drop_bit 7 x))"
  by pat_completeness auto
termination
proof (relation "measure unat")
  show "wf (measure (unat :: u64 \<Rightarrow> nat))" by simp
next
  fix x :: u64
  assume "\<not> x < 0x80"
  then have "128 \<le> unat x" by (simp add: word_less_nat_alt)
  moreover have "unat (drop_bit 7 x) = unat x div 128"
    unfolding unat_drop_bit_eq by (simp add: drop_bit_eq_div)
  ultimately show "(drop_bit 7 x, x) \<in> measure unat" by simp
qed

declare PutUvarint.simps [simp del]

text \<open>
  Go's \<^verbatim>\<open>binary.ReadUvarint\<close> on a reader that holds the bytes \<open>bs\<close>: the
  value and the unread bytes, or the error.  \<open>i\<close> is the loop counter and \<open>s\<close> the
  shift; \<^verbatim>\<open>io.EOF\<close> is turned into \<^verbatim>\<open>io.ErrUnexpectedEOF\<close> after the first byte.
\<close>

datatype uvarint_error = UvEOF | UvUnexpectedEOF | UvOverflow

fun read_uvarint_loop :: "nat \<Rightarrow> nat \<Rightarrow> u64 \<Rightarrow> bytes \<Rightarrow> uvarint_error + (u64 \<times> bytes)" where
  "read_uvarint_loop i s x [] =
     (if i < 10 then Inl (if 0 < i then UvUnexpectedEOF else UvEOF) else Inl UvOverflow)"
| "read_uvarint_loop i s x (b # bs) =
     (if i < 10 then
        (if b < 0x80 then
           (if i = 9 \<and> 1 < b then Inl UvOverflow
            else Inr (x OR push_bit s (ucast b), bs))
         else read_uvarint_loop (Suc i) (s + 7) (x OR push_bit s (ucast (b AND 0x7f))) bs)
      else Inl UvOverflow)"

definition ReadUvarint :: "bytes \<Rightarrow> uvarint_error + (u64 \<times> bytes)" where
  "ReadUvarint bs = read_uvarint_loop 0 0 0 bs"

text \<open>
  Go's \<^verbatim>\<open>copy(dst[off:], src)\<close>: as many bytes as both slices hold, and the count it returns.
\<close>

definition copy_at :: "bytes \<Rightarrow> nat \<Rightarrow> bytes \<Rightarrow> bytes \<times> nat" where
  "copy_at dst off src =
     (let n = min (length dst - off) (length src)
      in (take off dst @ take n src @ drop (off + n) dst, n))"

text \<open>The overwriting of a region of a list that lies within its bounds.\<close>

definition splice_at :: "'a list \<Rightarrow> nat \<Rightarrow> 'a list \<Rightarrow> 'a list" where
  "splice_at d off xs = take off d @ xs @ drop (off + length xs) d"

text \<open>The number of significant bits, Go's \<^verbatim>\<open>bits.Len64\<close>.\<close>

fun bit_length :: "nat \<Rightarrow> nat" where
  "bit_length n = (if n = 0 then 0 else Suc (bit_length (n div 2)))"

declare bit_length.simps [simp del]

text \<open>A decoder of a value and the number of bytes it took.\<close>

type_synonym 'a consumer = "bytes \<Rightarrow> ('a \<times> nat) option"

definition consume_uvarint :: "u64 consumer" where
  "consume_uvarint bs =
     (case ReadUvarint bs of
        Inl _ \<Rightarrow> None
      | Inr (v, rest) \<Rightarrow> Some (v, length bs - length rest))"

definition consume_prefixed :: "u64 consumer \<Rightarrow> bytes consumer" where
  "consume_prefixed dec bs =
     (case dec bs of
        None \<Rightarrow> None
      | Some (m, n) \<Rightarrow>
          if length (drop n bs) < unat m then None
          else Some (take (unat m) (drop n bs), n + unat m))"

section \<open>Maps\<close>

lemma map_leI: "(\<And>k v. m k = Some v \<Longrightarrow> n k = Some v) \<Longrightarrow> m \<subseteq>\<^sub>m n"
  by (auto simp: map_le_def)

lemma map_leD: "m \<subseteq>\<^sub>m n \<Longrightarrow> m k = Some v \<Longrightarrow> n k = Some v"
  by (metis domI map_le_def)

lemma concat_concat_map: "concat (concat (map f xs)) = concat (map (\<lambda>x. concat (f x)) xs)"
  by (induction xs) simp_all

section \<open>Copying into a slice\<close>

lemma splice_Nil [simp]: "splice_at d off [] = d"
  by (simp add: splice_at_def)

lemma splice_Cons [simp]:
  "off < length d \<Longrightarrow> splice_at d off (x # xs) = splice_at (d[off := x]) (Suc off) xs"
  by (simp add: splice_at_def take_Suc_conv_app_nth)

lemma length_splice [simp]: "off + length xs \<le> length d \<Longrightarrow> length (splice_at d off xs) = length d"
  by (simp add: splice_at_def)

lemma splice_append:
  "off + length xs \<le> length d \<Longrightarrow>
     splice_at (splice_at d off xs) (off + length xs) ys = splice_at d off (xs @ ys)"
  by (simp add: splice_at_def ac_simps)

lemma splice_region:
  "off + length xs \<le> length d \<Longrightarrow>
     take off (splice_at d off xs) = take off d \<and>
     take (length xs) (drop off (splice_at d off xs)) = xs \<and>
     drop (off + length xs) (splice_at d off xs) = drop (off + length xs) d"
  by (simp add: splice_at_def)

lemma copy_at_fits [simp]:
  "off + length src \<le> length dst \<Longrightarrow> copy_at dst off src = (splice_at dst off src, length src)"
proof -
  assume "off + length src \<le> length dst"
  then have "min (length dst - off) (length src) = length src" by simp
  then show ?thesis by (simp add: copy_at_def splice_at_def Let_def)
qed

lemma length_copy_at [simp]: "off \<le> length dst \<Longrightarrow> length (fst (copy_at dst off src)) = length dst"
  by (auto simp: copy_at_def Let_def)

section \<open>Words and naturals\<close>

lemma unat_lt_pow64 [simp]: "unat (x :: u64) < 18446744073709551616"
  using unsigned_less [of x, where ?'a = nat] by simp

lemma unat_lt_pow8 [simp]: "unat (x :: byte) < 256"
  using unsigned_less [of x, where ?'a = nat] by simp

lemma unat_ucast_byte [simp]: "unat (ucast (x :: byte) :: u64) = unat x"
proof -
  have "take_bit 64 (unat x) = unat x"
    by (rule take_bit_nat_eq_self) (rule less_trans [OF unat_lt_pow8], simp)
  then show ?thesis by (simp add: unsigned_ucast_eq)
qed

lemma unat_drop_bit_div: "unat (drop_bit n (x :: 'a :: len word)) = unat x div 2 ^ n"
  unfolding unat_drop_bit_eq by (simp add: drop_bit_eq_div)

lemma unat_exp_word: "n < LENGTH('a) \<Longrightarrow> unat ((2 :: 'a :: len word) ^ n) = 2 ^ n"
proof -
  assume "n < LENGTH('a)"
  then have "(2 :: nat) ^ n < 2 ^ LENGTH('a)" by simp
  then have "unat (word_of_nat (2 ^ n) :: 'a word) = 2 ^ n"
    by (simp only: unat_of_nat mod_less)
  then show ?thesis by simp
qed

lemma drop_bit_7_lt: "x < 2 ^ (n + 7) \<Longrightarrow> x div 2 ^ 7 < (2 :: nat) ^ n"
  by (simp add: power_add less_mult_imp_div_less)

text \<open>The seven low bits of a word and the rest, as a sum: the step of the base-128 codec.\<close>

lemma low7_plus_high: "(x AND 0x7f) + push_bit 7 (drop_bit 7 x) = (x :: u64)"
proof -
  have "x AND 0x7f = take_bit 7 x"
    by (simp add: take_bit_eq_mask mask_eq_exp_minus_1)
  then show ?thesis
    by (metis add.commute bits_ident)
qed

lemma bit_127_int [simp]: "bit (127 :: int) n \<longleftrightarrow> n < 7"
proof -
  have "(127 :: int) = mask 7" by (simp add: mask_eq_exp_minus_1)
  then show ?thesis by (simp only: bit_mask_iff) simp
qed

lemma bit_128_int [simp]: "bit (128 :: int) n \<longleftrightarrow> n = 7"
proof -
  have "(128 :: int) = 2 ^ 7" by simp
  then show ?thesis by (simp only: bit_exp_iff) auto
qed

lemma ucast_continuation:
  "(ucast (ucast (x AND 0x7f OR 0x80) :: byte) :: u64) = (x AND 0x7f) OR 0x80"
  for x :: u64
  by (rule bit_word_eqI) (auto simp: bit_simps)

lemma continuation_plus: "(x AND 0x7f) OR 0x80 = (x AND 0x7f) + (0x80 :: u64)"
proof -
  have "(x AND 0x7f) AND 0x80 = (0 :: u64)"
    by (rule bit_word_eqI) (auto simp: bit_simps)
  then show ?thesis by (simp add: disjunctive_add_eq_or)
qed

lemma ucast_small: "x < 0x80 \<Longrightarrow> (ucast (ucast x :: byte) :: u64) = x"
  for x :: u64
  by (simp add: word_unat_eq_iff unsigned_ucast_eq unsigned_take_bit_eq take_bit_nat_eq_self word_less_nat_alt)

lemma low7_or_high: "(x AND 0x7f) OR push_bit 7 (drop_bit 7 x) = (x :: u64)"
proof (rule bit_word_eqI)
  fix n
  show "bit ((x AND 0x7f) OR push_bit 7 (drop_bit 7 x)) n = bit x n" if "n < LENGTH(64)"
    using that by (cases "n < 7") (auto simp: bit_simps)
qed

lemma continuation_byte:
  "\<not> ucast (x AND 0x7f OR 0x80) < (0x80 :: byte)" (is ?ge)
  "(ucast (ucast (x AND 0x7f OR 0x80) AND (0x7f :: byte)) :: u64) = x AND 0x7f" (is ?low)
  for x :: u64
proof -
  have "unat (ucast (ucast (x AND 0x7f OR 0x80) :: byte) :: u64) = unat ((x AND 0x7f) OR (0x80 :: u64))"
    by (simp only: ucast_continuation)
  also have "\<dots> = unat ((x AND 0x7f) + (0x80 :: u64))"
    by (simp only: continuation_plus)
  also have "\<dots> = unat (x AND 0x7f) + 128"
  proof -
    have "unat (x AND 0x7f) \<le> 127"
      using word_and_le1 [of x "0x7f"] by (simp add: word_le_nat_alt)
    then show ?thesis by (subst unat_plus_if') simp
  qed
  finally show ?ge by (simp add: word_less_nat_alt)
  show ?low by (rule bit_word_eqI) (auto simp: bit_simps)
qed

text \<open>A word is put back together from its bytes, eight bits at a time.\<close>

lemma ucast_ucast_byte: "ucast (ucast x :: byte) = take_bit 8 x" for x :: "'a :: len word"
  by (rule bit_word_eqI) (auto simp: bit_simps)

lemma join_byte:
  "take_bit m v OR push_bit m (take_bit 8 (drop_bit m v)) = take_bit (m + 8) v"
  for v :: "'a :: len word"
proof (rule bit_word_eqI)
  fix n
  show "bit (take_bit m v OR push_bit m (take_bit 8 (drop_bit m v))) n = bit (take_bit (m + 8) v) n"
    if "n < LENGTH('a)"
    using that by (cases "n < m") (auto simp: bit_simps)
qed

lemmas join_bytes = ucast_ucast_byte or.assoc [symmetric]
  take_bit_length_eq [where 'a = 32, simplified] take_bit_length_eq [where 'a = 64, simplified]
  join_byte [of 8, simplified] join_byte [of 16, simplified] join_byte [of 24, simplified]
  join_byte [of 32, simplified] join_byte [of 40, simplified] join_byte [of 48, simplified]
  join_byte [of 56, simplified]

section \<open>The standard library's codec\<close>

lemma bit_length_le_iff: "bit_length n \<le> k \<longleftrightarrow> n < 2 ^ k"
proof (induction n arbitrary: k rule: bit_length.induct)
  case (1 n)
  show ?case
  proof (cases "n = 0")
    case True
    then show ?thesis by (simp add: bit_length.simps [of 0])
  next
    case False
    with "1.IH" [of "k - 1"] show ?thesis
      by (cases k) (auto simp: bit_length.simps [of n] div_less_iff_less_mult mult.commute)
  qed
qed

lemma read_put_uvarint_loop:
  assumes "i < 10" and "unat x < 2 ^ (64 - 7 * i)"
  shows "read_uvarint_loop i (7 * i) acc (PutUvarint x @ rest) =
           Inr (acc OR push_bit (7 * i) x, rest)"
  using assms
proof (induction x arbitrary: i acc rule: PutUvarint.induct)
  case (1 x)
  show ?case
  proof (cases "x < 0x80")
    case True
    have "unat (ucast x :: byte) = unat x"
      using arg_cong [OF ucast_small [OF True], of unat] by simp
    then have "ucast x < (0x80 :: byte)" and "\<not> (i = 9 \<and> 1 < (ucast x :: byte))"
      using True "1.prems" by (auto simp: word_less_nat_alt)
    then show ?thesis
      using True "1.prems" by (subst PutUvarint.simps) (simp add: ucast_small)
  next
    case False
    then have big: "128 \<le> unat x" by (simp add: word_less_nat_alt)
    have i: "Suc i < 10"
    proof (rule ccontr)
      assume "\<not> Suc i < 10"
      with "1.prems" have "i = 9" by simp
      with "1.prems" big show False by simp
    qed
    have "64 - 7 * i = (64 - 7 * Suc i) + 7" using i by simp
    with "1.prems"(2) have lt: "unat (drop_bit 7 x) < 2 ^ (64 - 7 * Suc i)"
      by (simp only: unat_drop_bit_div drop_bit_7_lt)
    have "acc OR push_bit (7 * i) (x AND 0x7f) OR push_bit (7 * Suc i) (drop_bit 7 x) =
            acc OR push_bit (7 * i) ((x AND 0x7f) OR push_bit 7 (drop_bit 7 x))"
      by (simp add: push_bit_or or.assoc push_bit_push_bit add.commute)
    also have "\<dots> = acc OR push_bit (7 * i) x" by (simp only: low7_or_high)
    finally show ?thesis
      using False i "1.IH" [OF False i lt]
      by (subst PutUvarint.simps) (simp add: continuation_byte add.commute or.assoc)
  qed
qed

lemma read_put_uvarint: "ReadUvarint (PutUvarint x @ rest) = Inr (x, rest)"
  using read_put_uvarint_loop [of 0 x 0 rest] by (simp add: ReadUvarint_def)

lemma length_PutUvarint_le: "unat x < 2 ^ (7 * n) \<Longrightarrow> 0 < n \<Longrightarrow> length (PutUvarint x) \<le> n"
proof (induction x arbitrary: n rule: PutUvarint.induct)
  case (1 x)
  show ?case
  proof (cases "x < 0x80")
    case True
    then show ?thesis using "1.prems" by (simp add: PutUvarint.simps)
  next
    case False
    then have "128 \<le> unat x" by (simp add: word_less_nat_alt)
    moreover have "unat x < 128" if "n = 1" using "1.prems"(1) that by simp
    ultimately have "n \<noteq> 1" by linarith
    with "1.prems"(2) have n: "0 < n - 1" "7 * n = 7 * (n - 1) + 7" by simp_all
    from "1.prems"(1) have "unat (drop_bit 7 x) < 2 ^ (7 * (n - 1))"
      unfolding n(2) unat_drop_bit_div by (rule drop_bit_7_lt)
    from "1.IH" [OF False this n(1)] False n(1) show ?thesis
      by (subst PutUvarint.simps) simp
  qed
qed

lemma length_PutUvarint_bounds: "0 < length (PutUvarint x) \<and> length (PutUvarint x) \<le> 10"
proof
  show "0 < length (PutUvarint x)" by (subst PutUvarint.simps) simp
  have "unat x < 2 ^ (7 * 10)"
    by (rule less_trans [OF unat_lt_pow64]) simp
  then show "length (PutUvarint x) \<le> 10" by (rule length_PutUvarint_le) simp
qed

lemma read_uvarint_loop_rest:
  "read_uvarint_loop i s x bs = Inr (v, rest) \<Longrightarrow> \<exists>used. bs = used @ rest \<and> used \<noteq> []"
proof (induction i s x bs rule: read_uvarint_loop.induct)
  case (1 i s x)
  then show ?case by (simp split: if_splits)
next
  case (2 i s x b bs)
  then show ?case
    by (auto split: if_splits)
qed

lemma ReadUvarint_rest: "ReadUvarint bs = Inr (v, rest) \<Longrightarrow> \<exists>used. bs = used @ rest \<and> used \<noteq> []"
  unfolding ReadUvarint_def by (rule read_uvarint_loop_rest)

section \<open>The contract of a variable-length integer codec\<close>

locale varint_codec =
  fixes enc :: "u64 \<Rightarrow> bytes"
    and dec :: "u64 consumer"
  assumes dec_enc: "dec (enc v @ r) = Some (v, length (enc v))"
    and dec_bound: "dec bs = Some (v, n) \<Longrightarrow> 0 < n \<and> n \<le> length bs"
begin

lemma enc_nonempty: "enc v \<noteq> []"
  using dec_enc [of v "[]"] dec_bound [of "enc v @ []" v "length (enc v)"] by auto

lemma prefix_free:
  assumes "enc v @ r = enc w @ s"
  shows "v = w \<and> r = s"
proof -
  have "dec (enc v @ r) = dec (enc w @ s)" using assms by simp
  then have "v = w" by (simp add: dec_enc)
  with assms show ?thesis by simp
qed

lemma prefixed_roundtrip:
  assumes "length d < 2 ^ 64"
  shows "consume_prefixed dec (enc (of_nat (length d)) @ d @ r) =
           Some (d, length (enc (of_nat (length d))) + length d)"
proof -
  have "unat (of_nat (length d) :: u64) = length d"
    using assms by (simp add: unsigned_of_nat take_bit_nat_eq_self)
  then show ?thesis by (simp add: consume_prefixed_def dec_enc)
qed

lemma prefixed_bound:
  assumes "consume_prefixed dec bs = Some (d, n)"
  shows "0 < n \<and> n \<le> length bs"
proof -
  from assms obtain m k where k: "dec bs = Some (m, k)" "n = k + unat m"
    "\<not> length (drop k bs) < unat m"
    by (auto simp: consume_prefixed_def split: option.splits if_splits)
  with dec_bound [OF k(1)] show ?thesis by auto
qed

end

interpretation uvarint: varint_codec PutUvarint consume_uvarint
proof unfold_locales
  show "consume_uvarint (PutUvarint v @ r) = Some (v, length (PutUvarint v))" for v r
    by (simp add: consume_uvarint_def read_put_uvarint)
next
  show "0 < n \<and> n \<le> length bs" if "consume_uvarint bs = Some (v, n)" for bs v n
    using that by (auto simp: consume_uvarint_def split: sum.splits dest!: ReadUvarint_rest)
qed

end
