(* ===== verification/Protowire_Fields.thy ===== *)
theory Protowire_Fields
  imports Protowire
begin

unbundle bit_operations_syntax

text \<open>
  Whole fields and groups of \<^verbatim>\<open>protowire/wire.go\<close>: the recursive value skipper with its
  recursion limit, and the group reader that strips the end marker.  The abstract syntax of a
  field, \<open>field_value\<close>, with its encoder over the package's own append functions, is the
  specification: skipping an encoded value consumes exactly the bytes of that value,
  whatever follows it.
\<close>

section \<open>The field parser\<close>

text \<open>
  \<open>consume_group_loop\<close> is the \<^verbatim>\<open>for\<close> loop of the \<^verbatim>\<open>StartGroupType\<close> case;
  \<open>n0\<close> is the length of the slice at the start of the group.
\<close>

function consumeFieldValueD :: "field_number \<Rightarrow> wire_type \<Rightarrow> bytes \<Rightarrow> int \<Rightarrow> int"
  and consume_group_loop :: "field_number \<Rightarrow> int \<Rightarrow> bytes \<Rightarrow> int \<Rightarrow> int" where
  "consumeFieldValueD num typ b depth =
     (if typ = VarintType then snd (ConsumeVarint b)
      else if typ = Fixed32Type then snd (ConsumeFixed32 b)
      else if typ = Fixed64Type then snd (ConsumeFixed64 b)
      else if typ = BytesType then snd (ConsumeBytes b)
      else if typ = StartGroupType then
        (if depth < 0 then errCodeRecursionDepth
         else consume_group_loop num (int (length b)) b depth)
      else if typ = EndGroupType then errCodeEndGroup
      else errCodeReserved)"
| "consume_group_loop num n0 b depth =
     (case ConsumeTag b of (num2, typ2, n) \<Rightarrow>
        if n < 0 then n
        else let b = drop (nat n) b in
          if typ2 = EndGroupType then
            (if num \<noteq> num2 then errCodeEndGroup else n0 - int (length b))
          else let n = consumeFieldValueD num2 typ2 b (depth - 1) in
            if n < 0 then n else consume_group_loop num n0 (drop (nat n) b) depth)"
  by pat_completeness auto
termination
  by (relation "measure (\<lambda>x. case x of Inl (num, ty, b, d) \<Rightarrow> 2 * length b + 1
                                      | Inr (num, n0, b, d) \<Rightarrow> 2 * length b)")
     (auto dest!: sym [THEN ConsumeTag_bounds])

declare consumeFieldValueD.simps [simp del] consume_group_loop.simps [simp del]

definition ConsumeFieldValue :: "field_number \<Rightarrow> wire_type \<Rightarrow> bytes \<Rightarrow> int" where
  "ConsumeFieldValue num typ b = consumeFieldValueD num typ b DefaultRecursionLimit"

definition ConsumeField :: "bytes \<Rightarrow> field_number \<times> wire_type \<times> int" where
  "ConsumeField b =
     (case ConsumeTag b of (num, typ, n) \<Rightarrow>
        if n < 0 then (0, 0, n)
        else let m = ConsumeFieldValue num typ (drop (nat n) b) in
          if m < 0 then (0, 0, m) else (num, typ, n + m))"

definition AppendGroup :: "bytes \<Rightarrow> field_number \<Rightarrow> bytes \<Rightarrow> bytes" where
  "AppendGroup b num v = AppendVarint (b @ v) (EncodeTag num EndGroupType)"

text \<open>The loop that drops the zero groups of a denormalized end marker.\<close>

function drop_zero_groups :: "bytes \<Rightarrow> bytes" where
  "drop_zero_groups b =
     (if b \<noteq> [] \<and> last b AND 0x7f = 0 then drop_zero_groups (butlast b) else b)"
  by pat_completeness auto
termination
  by (relation "measure length") auto

declare drop_zero_groups.simps [simp del]

text \<open>\<open>None\<close> is the run-time panic of a slice expression with a negative bound.\<close>

definition ConsumeGroup :: "field_number \<Rightarrow> bytes \<Rightarrow> (bytes \<times> int) option" where
  "ConsumeGroup num b =
     (let n = ConsumeFieldValue num StartGroupType b in
      if n < 0 then Some ([], n)
      else let b = drop_zero_groups (take (nat n) b);
               k = int (length b) - SizeTag num
        in if k < 0 then None else Some (take (nat k) b, n))"

section \<open>Specification: fields as trees\<close>

datatype field_value =
    VarintValue u64
  | Fixed32Value u32
  | Fixed64Value u64
  | BytesValue bytes
  | GroupValue "(field_number \<times> field_value) list"

fun wire_type_of :: "field_value \<Rightarrow> wire_type" where
  "wire_type_of (VarintValue _) = VarintType"
| "wire_type_of (Fixed32Value _) = Fixed32Type"
| "wire_type_of (Fixed64Value _) = Fixed64Type"
| "wire_type_of (BytesValue _) = BytesType"
| "wire_type_of (GroupValue _) = StartGroupType"

fun encode_value :: "field_number \<Rightarrow> field_value \<Rightarrow> bytes"
  and encode_fields :: "(field_number \<times> field_value) list \<Rightarrow> bytes" where
  "encode_value num (VarintValue v) = AppendVarint [] v"
| "encode_value num (Fixed32Value v) = AppendFixed32 [] v"
| "encode_value num (Fixed64Value v) = AppendFixed64 [] v"
| "encode_value num (BytesValue v) = AppendBytes [] v"
| "encode_value num (GroupValue fs) = AppendGroup [] num (encode_fields fs)"
| "encode_fields [] = []"
| "encode_fields ((num, v) # fs) =
     AppendTag [] num (wire_type_of v) @ encode_value num v @ encode_fields fs"

fun nesting :: "field_value \<Rightarrow> nat" and nesting_fields :: "(field_number \<times> field_value) list \<Rightarrow> nat" where
  "nesting (GroupValue fs) = Suc (nesting_fields fs)"
| "nesting _ = 0"
| "nesting_fields [] = 0"
| "nesting_fields ((num, v) # fs) = max (nesting v) (nesting_fields fs)"

fun numbered :: "field_value \<Rightarrow> bool" and numbered_fields :: "(field_number \<times> field_value) list \<Rightarrow> bool" where
  "numbered (GroupValue fs) = numbered_fields fs"
| "numbered _ = True"
| "numbered_fields [] = True"
| "numbered_fields ((num, v) # fs) = (positive_number num \<and> numbered v \<and> numbered_fields fs)"

section \<open>Bounds\<close>

lemma skip_bounds:
  "length b < 2 ^ 63 \<Longrightarrow> 0 \<le> consumeFieldValueD num typ b depth \<Longrightarrow>
     consumeFieldValueD num typ b depth \<le> int (length b)"
  "length b < 2 ^ 63 \<Longrightarrow> int (length b) \<le> n0 \<Longrightarrow> 0 \<le> consume_group_loop num n0 b depth \<Longrightarrow>
     n0 - int (length b) < consume_group_loop num n0 b depth \<and> consume_group_loop num n0 b depth \<le> n0"
proof (induction num "typ" b depth and num n0 b depth
    rule: consumeFieldValueD_consume_group_loop.induct)
  case (1 num "typ" b depth)
  then show ?case
    using ConsumeVarint_bounds [of b] ConsumeFixed32_bounds [of b] ConsumeFixed64_bounds [of b]
      ConsumeBytes_bounds [of b]
    by (auto simp: consumeFieldValueD.simps [of num "typ" b depth] err_code_defs prod_eq_iff
        split: if_splits)
next
  case (2 num n0 b depth)
  obtain num2 typ2 n where tag: "ConsumeTag b = (num2, typ2, n)" by (cases "ConsumeTag b") auto
  show ?case
  proof (cases "n < 0")
    case True
    with 2 tag show ?thesis by (simp add: consume_group_loop.simps [of num n0 b])
  next
    case False
    then have n: "1 \<le> n" "n \<le> int (length b)" using ConsumeTag_bounds [OF tag] by auto
    show ?thesis
    proof (cases "typ2 = EndGroupType")
      case True
      with 2 tag False n show ?thesis
        by (auto simp: consume_group_loop.simps [of num n0 b] err_code_defs of_nat_diff split: if_splits)
    next
      case endg: False
      define m where "m = consumeFieldValueD num2 typ2 (drop (nat n) b) (depth - 1)"
      have loop: "consume_group_loop num n0 b depth =
          (if m < 0 then m else consume_group_loop num n0 (drop (nat m) (drop (nat n) b)) depth)"
        using tag False endg by (simp add: consume_group_loop.simps [of num n0 b] m_def Let_def)
      show ?thesis
      proof (cases "m < 0")
        case True
        with loop "2.prems" show ?thesis by simp
      next
        case m: False
        define b2 where "b2 = drop (nat m) (drop (nat n) b)"
        have "m \<le> int (length b) - n"
          using "2.IH"(1) [OF tag [symmetric] refl False refl endg] "2.prems" m n
          by (simp add: m_def of_nat_diff)
        then have b2: "int (length b2) = int (length b) - n - m" "length b2 < 2 ^ 63"
          using m n "2.prems" by (simp_all add: b2_def of_nat_diff)
        have "0 \<le> consume_group_loop num n0 b2 depth"
          using "2.prems" loop m by (simp add: b2_def)
        with "2.IH"(2) [OF tag [symmetric] refl False refl endg refl, folded m_def b2_def, OF m]
        have "n0 - int (length b2) < consume_group_loop num n0 b2 depth"
          "consume_group_loop num n0 b2 depth \<le> n0"
          using b2 m n "2.prems" by auto
        with loop m n b2 show ?thesis by (simp add: b2_def)
      qed
    qed
  qed
qed

section \<open>Skipping an encoded field\<close>

lemma wire_type_of_less: "wire_type_of v < 8"
  by (cases v) (simp_all add: wire_type_defs)

lemma wire_type_of_not_end: "wire_type_of v \<noteq> EndGroupType"
  by (cases v) (simp_all add: wire_type_defs)

lemma AppendGroup_eq: "AppendGroup [] num v = v @ AppendTag [] num EndGroupType"
  by (simp add: AppendGroup_def AppendTag_def AppendVarint_eq)

lemma skip_encoded:
  "numbered v \<Longrightarrow> positive_number num \<Longrightarrow> int (nesting v) \<le> depth + 1 \<Longrightarrow>
     length (encode_value num v @ r) < 2 ^ 63 \<Longrightarrow>
     consumeFieldValueD num (wire_type_of v) (encode_value num v @ r) depth =
       int (length (encode_value num v))"
  "numbered_fields fs \<Longrightarrow> positive_number gnum \<Longrightarrow> int (nesting_fields fs) \<le> gdepth \<Longrightarrow>
     length (encode_fields fs @ AppendTag [] gnum EndGroupType @ gr) < 2 ^ 63 \<Longrightarrow>
     consume_group_loop gnum n0 (encode_fields fs @ AppendTag [] gnum EndGroupType @ gr) gdepth =
       n0 - int (length gr)"
proof (induction num v and fs arbitrary: depth r and gnum gdepth n0 gr
    rule: encode_value_encode_fields.induct)
  case (1 num v)
  then show ?case
    by (simp add: consumeFieldValueD.simps AppendVarint_eq ConsumeVarint_AppendVarint)
next
  case (2 num v)
  then show ?case
    using ConsumeFixed32_AppendFixed32 [of v r]
    by (simp add: consumeFieldValueD.simps AppendFixed32_def wire_type_defs)
next
  case (3 num v)
  then show ?case
    using ConsumeFixed64_AppendFixed64 [of v r]
    by (simp add: consumeFieldValueD.simps AppendFixed64_def wire_type_defs)
next
  case (4 num v)
  then show ?case
    using ConsumeBytes_AppendBytes [of v r]
    by (simp add: consumeFieldValueD.simps wire_type_defs)
next
  case (5 num fs)
  then show ?case
    using "5.IH" [of num depth r "int (length (encode_value num (GroupValue fs) @ r))"]
    by (simp add: consumeFieldValueD.simps wire_type_defs AppendGroup_eq)
next
  case 6
  then show ?case
    using ConsumeTag_AppendTag [of gnum EndGroupType gr]
    by (simp add: consume_group_loop.simps wire_type_defs)
next
  case (7 num v fs)
  let ?rest = "encode_fields fs @ AppendTag [] gnum EndGroupType @ gr"
  have tag: "ConsumeTag (AppendTag [] num (wire_type_of v) @ encode_value num v @ ?rest) =
      (num, wire_type_of v, int (length (AppendTag [] num (wire_type_of v))))"
    using "7.prems"(1) by (intro ConsumeTag_AppendTag) (auto simp: wire_type_of_less)
  have "consumeFieldValueD num (wire_type_of v) (encode_value num v @ ?rest) (gdepth - 1) =
      int (length (encode_value num v))"
    using "7.prems" by (intro "7.IH"(1)) auto
  moreover have "consume_group_loop gnum n0 ?rest gdepth = n0 - int (length gr)"
    using "7.prems" by (intro "7.IH"(2)) auto
  ultimately show ?case
    using tag wire_type_of_not_end [of v] by (simp add: consume_group_loop.simps [of gnum n0 "_ @ _"])
qed

section \<open>Reading a group\<close>

lemma last_PutUvarint: "x \<noteq> 0 \<Longrightarrow> last (PutUvarint x) AND 0x7f \<noteq> 0"
proof (induction x rule: PutUvarint.induct)
  case (1 x)
  show ?case
  proof (cases "x < 0x80")
    case True
    have "ucast (ucast x AND (0x7f :: byte)) = x AND (0x7f :: u64)"
      by (rule bit_word_eqI) (auto simp: bit_simps)
    also have "\<dots> = take_bit 7 x" by (simp add: take_bit_eq_mask mask_eq_exp_minus_1)
    also have "\<dots> = x"
      using True by (simp add: word_unat_eq_iff unsigned_take_bit_eq take_bit_nat_eq_self word_less_nat_alt)
    finally show ?thesis
      using True "1.prems" by (subst PutUvarint.simps) auto
  next
    case False
    then have "unat (drop_bit 7 x) \<noteq> 0"
      by (simp add: unat_drop_bit_div word_less_nat_alt div_eq_0_iff)
    then have "drop_bit 7 x \<noteq> 0" by auto
    moreover have "PutUvarint (drop_bit 7 x) \<noteq> []"
      using length_PutUvarint_bounds [of "drop_bit 7 x"] by auto
    ultimately show ?thesis
      using "1.IH" [OF False] False by (subst PutUvarint.simps) simp
  qed
qed

lemma drop_zero_groups_tag:
  "positive_number num \<Longrightarrow> drop_zero_groups (v @ AppendTag [] num EndGroupType) =
     v @ AppendTag [] num EndGroupType"
proof -
  assume num: "positive_number num"
  have "num \<noteq> 0" using num by (auto simp: positive_number_def)
  then have "unat num \<noteq> 0" by (simp add: unat_0_iff)
  then have "EncodeTag num EndGroupType \<noteq> 0"
    using EncodeTag_fields(1) [OF num, of EndGroupType]
    by (metis drop_bit_of_0 unat_0 unat_ucast_u32)
  then have "last (PutUvarint (EncodeTag num EndGroupType)) AND 0x7f \<noteq> 0"
    by (rule last_PutUvarint)
  moreover have "PutUvarint (EncodeTag num EndGroupType) \<noteq> []"
    using length_PutUvarint_bounds [of "EncodeTag num EndGroupType"] by auto
  ultimately show ?thesis
    by (subst drop_zero_groups.simps) (simp add: AppendTag_def AppendVarint_eq)
qed

text \<open>The comment of \<^verbatim>\<open>SizeTag\<close>: the wire type has no effect on the size.\<close>

lemma SizeTag_eq:
  assumes "positive_number num"
  shows "SizeTag num = int (length (AppendTag [] num ty))"
proof -
  have "unat (EncodeTag num ty) < 2 ^ (7 * m) \<longleftrightarrow> unat num < 2 ^ (7 * m - 3)" if "0 < m" for m ty
  proof -
    have "unat (EncodeTag num ty) div 8 = unat num"
      using EncodeTag_fields(1) [OF assms, of ty] unat_drop_bit_div [of 3 "EncodeTag num ty"] by simp
    moreover have "2 ^ (7 * m) = 2 ^ (7 * m - 3) * (8 :: nat)"
      using that power_add [of "2 :: nat" "7 * m - 3" 3] by simp
    ultimately show ?thesis by (auto simp: div_less_iff_less_mult)
  qed
  then have "length (PutUvarint (EncodeTag num 0)) \<le> m \<longleftrightarrow> length (PutUvarint (EncodeTag num ty)) \<le> m"
    if "0 < m" for m
    using that by (simp add: length_PutUvarint_le_iff)
  from this [of "length (PutUvarint (EncodeTag num 0))"] this [of "length (PutUvarint (EncodeTag num ty))"]
  show ?thesis
    using length_PutUvarint_bounds [of "EncodeTag num 0"] length_PutUvarint_bounds [of "EncodeTag num ty"]
    by (simp add: SizeTag_def SizeVarint_eq AppendTag_def AppendVarint_eq)
qed

section \<open>Properties\<close>

text \<open>
  C18: skipping a field value.  For every tree of fields whose numbers are positive and whose
  groups nest at most one deeper than the recursion limit, \<^verbatim>\<open>ConsumeFieldValue\<close> on its
  encoding, followed by any bytes, returns exactly the length of the encoding: the parser
  finds the matching end marker of every group and never reads into the next field.
\<close>

theorem ConsumeFieldValue_skips_encoding:
  assumes "positive_number num" and "numbered v" and "int (nesting v) \<le> DefaultRecursionLimit + 1"
    and "length (encode_value num v @ r) < 2 ^ 63"
  shows "ConsumeFieldValue num (wire_type_of v) (encode_value num v @ r) =
           int (length (encode_value num v))"
  using assms by (simp add: ConsumeFieldValue_def skip_encoded)

theorem ConsumeFieldValue_skips_encoding_witness:
  "ConsumeFieldValue 1 StartGroupType
     (encode_value 1 (GroupValue [(2, VarintValue 300), (3, GroupValue [(4, BytesValue [7, 8])])]) @ [9]) = 10"
proof -
  let ?v = "GroupValue [(2, VarintValue 300), (3, GroupValue [(4, BytesValue [7, 8])])]"
  have len: "length (encode_value 1 ?v) = 10" by code_simp
  have "ConsumeFieldValue 1 (wire_type_of ?v) (encode_value 1 ?v @ [9]) = int (length (encode_value 1 ?v))"
    by (rule ConsumeFieldValue_skips_encoding)
       (use len in \<open>simp_all add: positive_number_def DefaultRecursionLimit_def\<close>)
  with len show ?thesis by simp
qed

text \<open>
  C36: every length \<^verbatim>\<open>ConsumeField\<close> returns lies within its input, so the slice
  expressions of its callers never panic: on a Go slice, a non-negative length covers the
  tag and at most the bytes there are, and a negative one is an error for \<^verbatim>\<open>ParseError\<close>.
\<close>

theorem ConsumeField_in_bounds:
  assumes "length b < 2 ^ 63" and "ConsumeField b = (num, typ, n)"
  shows "(0 \<le> n \<longrightarrow> 1 \<le> n \<and> n \<le> int (length b)) \<and> (n < 0 \<longleftrightarrow> ParseError n \<noteq> None)"
proof -
  obtain num2 typ2 k where tag: "ConsumeTag b = (num2, typ2, k)" by (cases "ConsumeTag b") auto
  have "1 \<le> n \<and> n \<le> int (length b)" if "0 \<le> n"
  proof -
    define m where "m = ConsumeFieldValue num2 typ2 (drop (nat k) b)"
    have k: "0 \<le> k" and m: "0 \<le> m" and n: "n = k + m"
      using assms(2) tag that by (auto simp: ConsumeField_def m_def Let_def split: if_splits)
    have "m \<le> int (length (drop (nat k) b))"
      using skip_bounds(1) [of "drop (nat k) b"] assms(1) m
      by (simp add: m_def ConsumeFieldValue_def)
    moreover have "int (length (drop (nat k) b)) = int (length b) - k"
      using ConsumeTag_bounds [OF tag k] k by (simp add: of_nat_diff nat_le_iff)
    ultimately show ?thesis using ConsumeTag_bounds [OF tag k] m n by simp
  qed
  then show ?thesis by (auto simp: ParseError_def err_code_defs)
qed

theorem ConsumeField_in_bounds_witness:
  "ConsumeField [8, 5, 6] = (1, 0, 2) \<and> 2 \<le> int (length [8, 5, 6 :: byte]) \<and> ParseError 2 = None"
proof -
  have parsed: "ConsumeField [8, 5, 6] = (1, 0, 2)" by code_simp
  with ConsumeField_in_bounds [OF _ parsed] show ?thesis by simp
qed

text \<open>
  \<^verbatim>\<open>ConsumeGroup\<close> inverts \<^verbatim>\<open>AppendGroup\<close>: it returns the content of the group without
  its end marker and the length with it, and its slice arithmetic does not panic.
\<close>

theorem ConsumeGroup_roundtrip:
  assumes "positive_number num" and "numbered_fields fs"
    and "int (nesting_fields fs) \<le> DefaultRecursionLimit"
    and "length (AppendGroup [] num (encode_fields fs) @ r) < 2 ^ 63"
  shows "ConsumeGroup num (AppendGroup [] num (encode_fields fs) @ r) =
           Some (encode_fields fs, SizeGroup num (int (length (encode_fields fs))))"
proof -
  have "ConsumeFieldValue num StartGroupType (AppendGroup [] num (encode_fields fs) @ r) =
      int (length (AppendGroup [] num (encode_fields fs)))"
    using assms skip_encoded(1) [of "GroupValue fs" num DefaultRecursionLimit r]
    by (simp add: ConsumeFieldValue_def)
  then show ?thesis
    by (simp add: ConsumeGroup_def Let_def AppendGroup_eq drop_zero_groups_tag [OF assms(1)]
        SizeGroup_def SizeTag_eq [OF assms(1), of EndGroupType])
qed

theorem ConsumeGroup_roundtrip_witness:
  "ConsumeGroup 5 (AppendGroup [] 5 (encode_fields [(2, VarintValue 300)]) @ [1, 2]) =
     Some (encode_fields [(2, VarintValue 300)], SizeGroup 5 (int (length (encode_fields [(2, VarintValue 300)]))))"
proof -
  have "length (AppendGroup [] 5 (encode_fields [(2, VarintValue 300)]) @ [1, 2]) = 6" by code_simp
  then show ?thesis
    by (intro ConsumeGroup_roundtrip) (simp_all add: positive_number_def DefaultRecursionLimit_def)
qed

end
