(* ===== verification/Xdr.thy ===== *)
theory Xdr
  imports Prelude
begin

unbundle bit_operations_syntax

text \<open>
  The XDR marshaller of \<^verbatim>\<open>github.com/calmh/xdr\<close> (\<^verbatim>\<open>marshaller.go\<close>, \<^verbatim>\<open>common.go\<close>), which the
  relay and discovery protocols use.  A \<^verbatim>\<open>Marshaller\<close> is a buffer, a write offset and a
  sticky error.  The specification is the XDR encoding of a list of items; the refinement
  theorem says that a run of \<^verbatim>\<open>Marshal...\<close> calls writes exactly that encoding, or stops
  with \<^verbatim>\<open>io.ErrShortBuffer\<close> before the first item that does not fit.
\<close>

section \<open>The marshaller\<close>

datatype xdr_error = ErrShortBuffer

record marshaller =
  Data :: bytes
  Error :: "xdr_error option"
  offset :: nat

definition Padding :: "nat \<Rightarrow> nat" where
  "Padding l = (let d = l mod 4 in if d = 0 then 0 else 4 - d)"

definition padBytes :: bytes where
  "padBytes = [0, 0, 0]"

text \<open>\<open>put m bs\<close> is the statement \<^verbatim>\<open>m.offset += copy(m.Data[m.offset:], bs)\<close>.\<close>

definition put :: "marshaller \<Rightarrow> bytes \<Rightarrow> marshaller" where
  "put m bs = (case copy_at (Data m) (offset m) bs of
     (d, n) \<Rightarrow> m\<lparr>Data := d, offset := offset m + n\<rparr>)"

definition MarshalRaw :: "marshaller \<Rightarrow> bytes \<Rightarrow> marshaller" where
  "MarshalRaw m bs =
     (if Error m \<noteq> None then m
      else if length (Data m) < offset m + length bs then m\<lparr>Error := Some ErrShortBuffer\<rparr>
      else put m bs)"

definition MarshalUint32 :: "marshaller \<Rightarrow> u32 \<Rightarrow> marshaller" where
  "MarshalUint32 m v =
     (if Error m \<noteq> None then m
      else if length (Data m) < offset m + 4 then m\<lparr>Error := Some ErrShortBuffer\<rparr>
      else m\<lparr>Data := (Data m)
               [offset m + 0 := ucast (drop_bit 24 v),
                offset m + 1 := ucast (drop_bit 16 v),
                offset m + 2 := ucast (drop_bit 8 v),
                offset m + 3 := ucast v],
             offset := offset m + 4\<rparr>)"

definition MarshalUint64 :: "marshaller \<Rightarrow> u64 \<Rightarrow> marshaller" where
  "MarshalUint64 m v =
     (if Error m \<noteq> None then m
      else if length (Data m) < offset m + 8 then m\<lparr>Error := Some ErrShortBuffer\<rparr>
      else m\<lparr>Data := (Data m)
               [offset m + 0 := ucast (drop_bit 56 v),
                offset m + 1 := ucast (drop_bit 48 v),
                offset m + 2 := ucast (drop_bit 40 v),
                offset m + 3 := ucast (drop_bit 32 v),
                offset m + 4 := ucast (drop_bit 24 v),
                offset m + 5 := ucast (drop_bit 16 v),
                offset m + 6 := ucast (drop_bit 8 v),
                offset m + 7 := ucast v],
             offset := offset m + 8\<rparr>)"

definition MarshalUint8 :: "marshaller \<Rightarrow> byte \<Rightarrow> marshaller" where
  "MarshalUint8 m v = MarshalUint32 m (ucast v)"

definition MarshalUint16 :: "marshaller \<Rightarrow> 16 word \<Rightarrow> marshaller" where
  "MarshalUint16 m v = MarshalUint32 m (ucast v)"

definition MarshalBool :: "marshaller \<Rightarrow> bool \<Rightarrow> marshaller" where
  "MarshalBool m v = (if v then MarshalUint8 m 1 else MarshalUint8 m 0)"

definition MarshalBytes :: "marshaller \<Rightarrow> bytes \<Rightarrow> marshaller" where
  "MarshalBytes m bs =
     (if Error m \<noteq> None then m
      else if length (Data m) < offset m + 4 + length bs + Padding (length bs)
      then m\<lparr>Error := Some ErrShortBuffer\<rparr>
      else put (put (MarshalUint32 m (of_nat (length bs))) bs) (take (Padding (length bs)) padBytes))"

definition MarshalString :: "marshaller \<Rightarrow> bytes \<Rightarrow> marshaller" where
  "MarshalString m s =
     (if Error m \<noteq> None then m
      else if length (Data m) < offset m + 4 + length s + Padding (length s)
      then m\<lparr>Error := Some ErrShortBuffer\<rparr>
      else put (put (MarshalUint32 m (of_nat (length s))) s) (take (Padding (length s)) padBytes))"

text \<open>
  \<^verbatim>\<open>SizeOfSlice\<close> takes an interface value: a slice of strings, of byte slices, of values
  that implement \<^verbatim>\<open>XDRSizer\<close> (given by the sizes they report), or something else, on which the
  reflection panics (\<open>None\<close>).
\<close>

datatype slice_arg = Strings "bytes list" | ByteSlices "bytes list" | Sizers "int list" | OtherValue

fun add_sizes :: "nat \<Rightarrow> bytes list \<Rightarrow> nat" where
  "add_sizes l [] = l"
| "add_sizes l (s # ss) = add_sizes (l + (4 + length s + Padding (length s))) ss"

fun SizeOfSlice :: "slice_arg \<Rightarrow> int option" where
  "SizeOfSlice (Strings ss) = Some (int (add_sizes 0 ss))"
| "SizeOfSlice (ByteSlices ss) = Some (int (add_sizes 0 ss))"
| "SizeOfSlice (Sizers ns) = Some (fold (\<lambda>n l. l + n) ns 0)"
| "SizeOfSlice OtherValue = None"

section \<open>Specification: the XDR encoding\<close>

datatype xdr_item =
    XRaw bytes | XString bytes | XBytes bytes | XBool bool
  | XUint8 byte | XUint16 "16 word" | XUint32 u32 | XUint64 u64

definition be32 :: "u32 \<Rightarrow> bytes" where
  "be32 v = [ucast (drop_bit 24 v), ucast (drop_bit 16 v), ucast (drop_bit 8 v), ucast v]"

definition be64 :: "u64 \<Rightarrow> bytes" where
  "be64 v = be32 (ucast (drop_bit 32 v)) @ be32 (ucast v)"

definition opaque :: "bytes \<Rightarrow> bytes" where
  "opaque bs = be32 (of_nat (length bs)) @ bs @ replicate (Padding (length bs)) 0"

fun xdr_encode :: "xdr_item \<Rightarrow> bytes" where
  "xdr_encode (XRaw bs) = bs"
| "xdr_encode (XString s) = opaque s"
| "xdr_encode (XBytes bs) = opaque bs"
| "xdr_encode (XBool v) = be32 (if v then 1 else 0)"
| "xdr_encode (XUint8 v) = be32 (ucast v)"
| "xdr_encode (XUint16 v) = be32 (ucast v)"
| "xdr_encode (XUint32 v) = be32 v"
| "xdr_encode (XUint64 v) = be64 v"

fun marshal_item :: "marshaller \<Rightarrow> xdr_item \<Rightarrow> marshaller" where
  "marshal_item m (XRaw bs) = MarshalRaw m bs"
| "marshal_item m (XString s) = MarshalString m s"
| "marshal_item m (XBytes bs) = MarshalBytes m bs"
| "marshal_item m (XBool v) = MarshalBool m v"
| "marshal_item m (XUint8 v) = MarshalUint8 m v"
| "marshal_item m (XUint16 v) = MarshalUint16 m v"
| "marshal_item m (XUint32 v) = MarshalUint32 m v"
| "marshal_item m (XUint64 v) = MarshalUint64 m v"

definition marshal_all :: "marshaller \<Rightarrow> xdr_item list \<Rightarrow> marshaller" where
  "marshal_all m xs = foldl marshal_item m xs"

text \<open>The abstract write: an all-or-nothing append into a bounded buffer.\<close>

definition write_bounded :: "marshaller \<Rightarrow> bytes \<Rightarrow> marshaller" where
  "write_bounded m bs =
     (if Error m \<noteq> None then m
      else if length (Data m) < offset m + length bs then m\<lparr>Error := Some ErrShortBuffer\<rparr>
      else m\<lparr>Data := splice_at (Data m) (offset m) bs,
             offset := offset m + length bs\<rparr>)"

text \<open>The reference reader of an \<^verbatim>\<open>opaque<>\<close> field: size, data, padding to a multiple of four.\<close>

definition read_be32 :: "bytes \<Rightarrow> u32" where
  "read_be32 b = ucast (b ! 3) OR push_bit 8 (ucast (b ! 2)) OR
     push_bit 16 (ucast (b ! 1)) OR push_bit 24 (ucast (b ! 0))"

definition read_opaque :: "bytes \<Rightarrow> (bytes \<times> bytes) option" where
  "read_opaque b =
     (if length b < 4 then None
      else let n = unat (read_be32 b); r = drop 4 b
        in if length r < n + Padding n then None
           else Some (take n r, drop (n + Padding n) r))"

primrec read_opaques :: "nat \<Rightarrow> bytes \<Rightarrow> (bytes list \<times> bytes) option" where
  "read_opaques 0 b = Some ([], b)"
| "read_opaques (Suc n) b =
     (case read_opaque b of
        None \<Rightarrow> None
      | Some (s, r) \<Rightarrow> map_option (\<lambda>(ss, r'). (s # ss, r')) (read_opaques n r))"

text \<open>The longest prefix of a list of items whose encoding fits into \<open>room\<close> bytes.\<close>

fun fitting :: "nat \<Rightarrow> xdr_item list \<Rightarrow> xdr_item list" where
  "fitting room [] = []"
| "fitting room (x # xs) =
     (if length (xdr_encode x) \<le> room then x # fitting (room - length (xdr_encode x)) xs else [])"

definition encode_all :: "xdr_item list \<Rightarrow> bytes" where
  "encode_all xs = concat (map xdr_encode xs)"

section \<open>Lemmas\<close>

lemma Padding_less: "Padding l < 4"
  by (simp add: Padding_def Let_def)

lemma Padding_aligns: "(l + Padding l) mod 4 = 0"
  unfolding Padding_def Let_def by presburger

lemma length_be32 [simp]: "length (be32 v) = 4"
  by (simp add: be32_def)

lemma length_be64 [simp]: "length (be64 v) = 8"
  by (simp add: be64_def)

lemma length_opaque [simp]: "length (opaque bs) = 4 + length bs + Padding (length bs)"
  by (simp add: opaque_def)

lemma take_padBytes: "take (Padding l) padBytes = replicate (Padding l) 0"
proof -
  have "Padding l = 0 \<or> Padding l = 1 \<or> Padding l = 2 \<or> Padding l = 3"
    using Padding_less [of l] by linarith
  then show ?thesis by (auto simp: padBytes_def numeral_eq_Suc)
qed

text \<open>Every operation of the marshaller is the abstract write of the item's encoding.\<close>

lemma length_write_bounded [simp]: "length (Data (write_bounded m bs)) = length (Data m)"
  by (simp add: write_bounded_def)

lemma write_bounded_append:
  assumes "offset m + length xs + length ys \<le> length (Data m)"
  shows "write_bounded (write_bounded m xs) ys = write_bounded m (xs @ ys)"
  using assms by (simp add: write_bounded_def splice_append add.assoc)

lemma put_is_write:
  "Error m = None \<Longrightarrow> offset m + length bs \<le> length (Data m) \<Longrightarrow> put m bs = write_bounded m bs"
  by (simp add: put_def write_bounded_def)

lemma MarshalRaw_is_write: "MarshalRaw m bs = write_bounded m bs"
  by (simp add: MarshalRaw_def put_is_write) (simp add: write_bounded_def)

lemma MarshalUint32_is_write: "MarshalUint32 m v = write_bounded m (be32 v)"
  by (simp add: MarshalUint32_def write_bounded_def be32_def numeral_eq_Suc)

lemma be64_bytes:
  "be64 v = [ucast (drop_bit 56 v), ucast (drop_bit 48 v), ucast (drop_bit 40 v), ucast (drop_bit 32 v),
             ucast (drop_bit 24 v), ucast (drop_bit 16 v), ucast (drop_bit 8 v), ucast v]"
proof -
  have hi: "ucast (drop_bit k (ucast (drop_bit 32 v) :: u32)) = (ucast (drop_bit (k + 32) v) :: byte)"
    if "k \<le> 24" for k
    using that by (intro bit_word_eqI) (auto simp: bit_simps ac_simps)
  have lo: "ucast (drop_bit k (ucast v :: u32)) = (ucast (drop_bit k v) :: byte)" if "k \<le> 24" for k
    using that by (intro bit_word_eqI) (auto simp: bit_simps)
  show ?thesis
    by (simp add: be64_def be32_def hi lo hi [of 0, simplified] lo [of 0, simplified])
qed

lemma MarshalUint64_is_write: "MarshalUint64 m v = write_bounded m (be64 v)"
  by (simp add: MarshalUint64_def write_bounded_def be64_bytes numeral_eq_Suc)

lemma write_bounded_fits:
  "Error m = None \<Longrightarrow> offset m + length bs \<le> length (Data m) \<Longrightarrow>
     Error (write_bounded m bs) = None \<and> offset (write_bounded m bs) = offset m + length bs"
  by (simp add: write_bounded_def)

lemma MarshalBytes_is_write: "MarshalBytes m bs = write_bounded m (opaque bs)"
proof (cases "Error m = None \<and> offset m + 4 + length bs + Padding (length bs) \<le> length (Data m)")
  case True
  then show ?thesis
    by (simp add: MarshalBytes_def MarshalUint32_is_write put_is_write write_bounded_fits
        write_bounded_append take_padBytes opaque_def)
next
  case False
  then show ?thesis
    by (auto simp: MarshalBytes_def write_bounded_def)
qed

lemma MarshalString_is_write: "MarshalString m s = write_bounded m (opaque s)"
  using MarshalBytes_is_write [of m s] by (simp add: MarshalBytes_def MarshalString_def)

lemmas marshal_is_write =
  MarshalRaw_is_write MarshalUint32_is_write MarshalUint64_is_write MarshalBytes_is_write
  MarshalString_is_write MarshalUint8_def MarshalUint16_def MarshalBool_def

lemma marshal_item_is_write: "marshal_item m x = write_bounded m (xdr_encode x)"
  by (cases x) (simp_all add: marshal_is_write)

lemma marshal_all_sticky: "Error m \<noteq> None \<Longrightarrow> marshal_all m xs = m"
  by (induction xs) (auto simp: marshal_all_def marshal_item_is_write write_bounded_def)

lemma encode_all_simps [simp]:
  "encode_all [] = []"
  "encode_all (x # xs) = xdr_encode x @ encode_all xs"
  by (simp_all add: encode_all_def)

lemma fitting_fits: "length (encode_all (fitting room xs)) \<le> room"
  by (induction room xs rule: fitting.induct) auto

lemma fitting_all: "fitting room xs = xs \<longleftrightarrow> length (encode_all xs) \<le> room"
  by (induction room xs rule: fitting.induct) auto

lemma fitting_prefix:
  "\<exists>zs. xs = fitting room xs @ zs \<and>
     (zs \<noteq> [] \<longrightarrow> room < length (encode_all (fitting room xs @ [hd zs])))"
proof (induction room xs rule: fitting.induct)
  case (2 room x xs)
  then show ?case by (cases "length (xdr_encode x) \<le> room") auto
qed simp

lemma marshal_all_run:
  assumes "Error m = None" and "offset m \<le> length (Data m)"
  shows "marshal_all m xs =
     (let ys = fitting (length (Data m) - offset m) xs
      in m\<lparr>Data := splice_at (Data m) (offset m) (encode_all ys),
           offset := offset m + length (encode_all ys),
           Error := (if ys = xs then None else Some ErrShortBuffer)\<rparr>)"
  using assms
proof (induction xs arbitrary: m)
  case Nil
  then show ?case by (simp add: marshal_all_def)
next
  case (Cons x xs)
  let ?e = "xdr_encode x"
  have step: "marshal_all m (x # xs) = marshal_all (write_bounded m ?e) xs"
    by (simp add: marshal_all_def marshal_item_is_write)
  show ?case
  proof (cases "length ?e \<le> length (Data m) - offset m")
    case True
    let ?m = "m\<lparr>Data := splice_at (Data m) (offset m) ?e, offset := offset m + length ?e\<rparr>"
    have m: "write_bounded m ?e = ?m"
      using True Cons.prems by (simp add: write_bounded_def)
    have "Error ?m = None" "offset ?m \<le> length (Data ?m)"
      using True Cons.prems by auto
    from Cons.IH [OF this] show ?thesis
      unfolding step m using True Cons.prems
      by (simp add: Let_def splice_append add.assoc)
  next
    case False
    then have "write_bounded m ?e = m\<lparr>Error := Some ErrShortBuffer\<rparr>"
      using Cons.prems by (simp add: write_bounded_def)
    then show ?thesis
      unfolding step using False by (simp add: marshal_all_sticky Let_def)
  qed
qed

lemma read_be32_be32: "read_be32 (be32 v @ r) = v"
  by (simp add: read_be32_def be32_def join_bytes)

lemma read_opaque_opaque: "length s < 2 ^ 32 \<Longrightarrow> read_opaque (opaque s @ r) = Some (s, r)"
  by (simp add: read_opaque_def opaque_def read_be32_be32 unsigned_of_nat take_bit_nat_eq_self Let_def)

lemma read_opaques_concat:
  "list_all (\<lambda>s. length s < 2 ^ 32) ss \<Longrightarrow>
     read_opaques (length ss) (encode_all (map XString ss) @ r) = Some (ss, r)"
  by (induction ss) (simp_all add: read_opaque_opaque)

lemma add_sizes_acc: "add_sizes l ss = l + length (encode_all (map XString ss))"
  by (induction l ss rule: add_sizes.induct) simp_all

lemma encode_strings_aligned: "length (encode_all (map XString ss)) mod 4 = 0"
proof (induction ss)
  case (Cons s ss)
  have "(4 + (length s + Padding (length s)) + length (encode_all (map XString ss))) mod 4 = 0"
    using Padding_aligns [of "length s"] Cons.IH by presburger
  then show ?case by (simp add: add.assoc)
qed simp

lemma splice_whole: "length xs = length d \<Longrightarrow> splice_at d 0 xs = xs"
  by (simp add: splice_at_def)

section \<open>Properties\<close>

text \<open>
  C17: refinement of the marshaller to the XDR encoding.  From a marshaller without an error, any
  sequence of \<^verbatim>\<open>Marshal...\<close> calls writes at the offset exactly the encodings of the longest prefix
  of the items that fits into the buffer, moves the offset behind them, leaves every other byte
  of the buffer as it was, and has the error set precisely when an item did not fit; from then
  on the later calls change nothing.
\<close>

theorem marshal_all_refines:
  assumes "Error m = None" and "offset m \<le> length (Data m)"
  shows "\<exists>ys zs. xs = ys @ zs \<and>
     marshal_all m xs =
       m\<lparr>Data := take (offset m) (Data m) @ encode_all ys @
                 drop (offset m + length (encode_all ys)) (Data m),
         offset := offset m + length (encode_all ys),
         Error := (if zs = [] then None else Some ErrShortBuffer)\<rparr> \<and>
     (if zs = [] then offset m + length (encode_all xs) \<le> length (Data m)
      else length (Data m) < offset m + length (encode_all (ys @ [hd zs])))"
proof -
  let ?room = "length (Data m) - offset m"
  let ?ys = "fitting ?room xs"
  obtain zs where zs: "xs = ?ys @ zs" and
    first: "zs \<noteq> [] \<Longrightarrow> ?room < length (encode_all (?ys @ [hd zs]))"
    using fitting_prefix [where room = ?room and xs = xs] by blast
  have eq: "?ys = xs \<longleftrightarrow> zs = []" using zs by (metis append_self_conv)
  have "length (encode_all ?ys) \<le> ?room" by (rule fitting_fits)
  then show ?thesis
    using marshal_all_run [OF assms, of xs] zs first eq assms
    by (intro exI [of _ ?ys] exI [of _ zs]) (auto simp: Let_def splice_at_def)
qed

theorem marshal_all_refines_witness:
  "\<exists>ys zs. [XBool True, XString [0x61], XUint64 7] = ys @ zs \<and>
     Data (marshal_all \<lparr>Data = replicate 16 0, Error = None, offset = 0\<rparr>
             [XBool True, XString [0x61], XUint64 7]) =
       encode_all ys @ drop (length (encode_all ys)) (replicate 16 0) \<and>
     (zs \<noteq> [] \<longrightarrow> 16 < length (encode_all (ys @ [hd zs])))"
proof -
  let ?m = "\<lparr>Data = replicate 16 0, Error = None, offset = 0\<rparr>"
  let ?xs = "[XBool True, XString [0x61], XUint64 7]"
  have "Error ?m = None" and "offset ?m \<le> length (Data ?m)" by simp_all
  from marshal_all_refines [OF this, of ?xs] obtain ys zs where
    "?xs = ys @ zs"
    "marshal_all ?m ?xs =
       ?m\<lparr>Data := take (offset ?m) (Data ?m) @ encode_all ys @
                 drop (offset ?m + length (encode_all ys)) (Data ?m),
         offset := offset ?m + length (encode_all ys),
         Error := (if zs = [] then None else Some ErrShortBuffer)\<rparr>"
    "if zs = [] then offset ?m + length (encode_all ?xs) \<le> length (Data ?m)
     else length (Data ?m) < offset ?m + length (encode_all (ys @ [hd zs]))"
    by blast
  then show ?thesis
    by (intro exI [of _ ys] exI [of _ zs]) (simp split: if_splits)
qed

text \<open>
  \<^verbatim>\<open>SizeOfSlice\<close> is the exact buffer size.  Marshalling a list of strings into a fresh buffer
  of the size \<^verbatim>\<open>SizeOfSlice\<close> reports succeeds, fills the buffer to its last byte, and leaves a
  multiple of four bytes from which an XDR reader gets the same strings back, as long as each
  string is shorter than $2^{32}$ bytes, which the size prefix can hold.
\<close>

theorem marshal_strings_roundtrip:
  assumes "SizeOfSlice (Strings ss) = Some (int (length (Data m)))"
    and "Error m = None" and "offset m = 0"
    and "list_all (\<lambda>s. length s < 2 ^ 32) ss"
  shows "Error (marshal_all m (map XString ss)) = None \<and>
         offset (marshal_all m (map XString ss)) = length (Data m) \<and>
         length (Data m) mod 4 = 0 \<and>
         read_opaques (length ss) (Data (marshal_all m (map XString ss))) = Some (ss, [])"
proof -
  let ?xs = "map XString ss"
  have size: "length (encode_all ?xs) = length (Data m)"
    using assms(1) by (simp add: add_sizes_acc)
  then have "fitting (length (Data m) - offset m) ?xs = ?xs"
    using assms(3) by (simp add: fitting_all)
  then have "marshal_all m ?xs = m\<lparr>Data := encode_all ?xs, offset := length (Data m), Error := None\<rparr>"
    using marshal_all_run [OF assms(2), of ?xs] assms(3) size by (simp add: Let_def splice_whole)
  then show ?thesis
    using encode_strings_aligned [of ss] read_opaques_concat [OF assms(4), of "[]"] size by simp
qed

theorem marshal_strings_roundtrip_witness:
  "read_opaques (Suc (Suc 0)) (Data (marshal_all \<lparr>Data = replicate 20 0, Error = None, offset = 0\<rparr>
      [XString [1, 2, 3, 4, 5], XString [6]])) = Some ([[1, 2, 3, 4, 5], [6]], [])"
  using marshal_strings_roundtrip [of "[[1, 2, 3, 4, 5], [6]]"
      "\<lparr>Data = replicate 20 0, Error = None, offset = 0\<rparr>"]
  by (simp add: Padding_def)

end
