(* ===== verification/Simple_Lru.thy ===== *)
theory Simple_Lru
  imports Prelude "HOL-Library.Multiset"
begin

text \<open>
  The contract of the non-thread-safe LRU list, package \<^verbatim>\<open>simplelru\<close>, on which the two caches of
  \<^verbatim>\<open>github.com/hashicorp/golang-lru\<close> are built.  Its source is not part of the repository: its
  operations are a record \<open>lru_ops\<close>, an argument of every definition that uses them, and the
  locale \<open>simplelru\<close> states what the package documents and its test file checks, in terms of the entries from the
  oldest to the newest.  An operation that may evict also returns the entries it handed to the
  eviction callback, in order.  The list implementation at the end satisfies the contract.
\<close>

section \<open>Operations\<close>

record ('k, 'v, 's) lru_ops =
  op_New :: "int \<Rightarrow> 's option"
  op_Add :: "'k \<Rightarrow> 'v \<Rightarrow> 's \<Rightarrow> 's \<times> bool \<times> ('k \<times> 'v) list"
  op_Get :: "'k \<Rightarrow> 's \<Rightarrow> 's \<times> 'v option"
  op_Contains :: "'k \<Rightarrow> 's \<Rightarrow> bool"
  op_Peek :: "'k \<Rightarrow> 's \<Rightarrow> 'v option"
  op_Remove :: "'k \<Rightarrow> 's \<Rightarrow> 's \<times> bool \<times> ('k \<times> 'v) list"
  op_RemoveOldest :: "'s \<Rightarrow> 's \<times> ('k \<times> 'v) option \<times> ('k \<times> 'v) list"
  op_GetOldest :: "'s \<Rightarrow> ('k \<times> 'v) option"
  op_Keys :: "'s \<Rightarrow> 'k list"
  op_Values :: "'s \<Rightarrow> 'v list"
  op_Len :: "'s \<Rightarrow> int"
  op_Purge :: "'s \<Rightarrow> 's \<times> ('k \<times> 'v) list"
  op_Resize :: "int \<Rightarrow> 's \<Rightarrow> 's \<times> int \<times> ('k \<times> 'v) list"

section \<open>Specification on the list of entries\<close>

definition remove_key :: "'k \<Rightarrow> ('k \<times> 'v) list \<Rightarrow> ('k \<times> 'v) list" where
  "remove_key k es = filter (\<lambda>p. fst p \<noteq> k) es"

definition keys_of :: "('k \<times> 'v) list \<Rightarrow> 'k set" where
  "keys_of es = set (map fst es)"

definition add_spec :: "int \<Rightarrow> ('k \<times> 'v) list \<Rightarrow> 'k \<Rightarrow> 'v \<Rightarrow> ('k \<times> 'v) list \<times> bool \<times> ('k \<times> 'v) list" where
  "add_spec c es k v =
     (if k \<in> keys_of es then (remove_key k es @ [(k, v)], False, [])
      else if c < int (length es) + 1 then (tl (es @ [(k, v)]), True, [hd (es @ [(k, v)])])
      else (es @ [(k, v)], False, []))"

definition get_spec :: "('k \<times> 'v) list \<Rightarrow> 'k \<Rightarrow> ('k \<times> 'v) list \<times> 'v option" where
  "get_spec es k =
     (case map_of es k of
        None \<Rightarrow> (es, None)
      | Some v \<Rightarrow> (remove_key k es @ [(k, v)], Some v))"

definition remove_spec :: "('k \<times> 'v) list \<Rightarrow> 'k \<Rightarrow> ('k \<times> 'v) list \<times> bool \<times> ('k \<times> 'v) list" where
  "remove_spec es k =
     (case map_of es k of
        None \<Rightarrow> (es, False, [])
      | Some v \<Rightarrow> (remove_key k es, True, [(k, v)]))"

definition remove_oldest_spec :: "('k \<times> 'v) list \<Rightarrow> ('k \<times> 'v) list \<times> ('k \<times> 'v) option \<times> ('k \<times> 'v) list" where
  "remove_oldest_spec es =
     (case es of [] \<Rightarrow> ([], None, []) | e # es' \<Rightarrow> (es', Some e, [e]))"

definition resize_spec :: "int \<Rightarrow> ('k \<times> 'v) list \<Rightarrow> ('k \<times> 'v) list \<times> int \<times> ('k \<times> 'v) list" where
  "resize_spec n es =
     (let d = nat (int (length es) - n) in (drop d es, int d, take d es))"

section \<open>The contract\<close>

locale simplelru =
  fixes ops :: "('k, 'v, 's) lru_ops"
    and entries :: "'s \<Rightarrow> ('k \<times> 'v) list"
    and cap :: "'s \<Rightarrow> int"
    and ok :: "'s \<Rightarrow> bool"
  assumes distinct_entries: "ok s \<Longrightarrow> distinct (map fst (entries s))"
    and length_entries: "ok s \<Longrightarrow> 0 \<le> cap s \<and> int (length (entries s)) \<le> cap s"
    and new_fails: "n \<le> 0 \<Longrightarrow> op_New ops n = None"
    and new_law: "0 < n \<Longrightarrow> \<exists>s. op_New ops n = Some s \<and> ok s \<and> entries s = [] \<and> cap s = n"
    and add_law: "ok s \<Longrightarrow> case op_Add ops k v s of (s', r) \<Rightarrow>
          ok s' \<and> cap s' = cap s \<and> (entries s', r) = add_spec (cap s) (entries s) k v"
    and get_law: "ok s \<Longrightarrow> case op_Get ops k s of (s', r) \<Rightarrow>
          ok s' \<and> cap s' = cap s \<and> (entries s', r) = get_spec (entries s) k"
    and contains_law: "ok s \<Longrightarrow> op_Contains ops k s \<longleftrightarrow> k \<in> keys_of (entries s)"
    and peek_law: "ok s \<Longrightarrow> op_Peek ops k s = map_of (entries s) k"
    and remove_law: "ok s \<Longrightarrow> case op_Remove ops k s of (s', r) \<Rightarrow>
          ok s' \<and> cap s' = cap s \<and> (entries s', r) = remove_spec (entries s) k"
    and remove_oldest_law: "ok s \<Longrightarrow> case op_RemoveOldest ops s of (s', r) \<Rightarrow>
          ok s' \<and> cap s' = cap s \<and> (entries s', r) = remove_oldest_spec (entries s)"
    and get_oldest_law: "ok s \<Longrightarrow> op_GetOldest ops s = (case entries s of [] \<Rightarrow> None | e # _ \<Rightarrow> Some e)"
    and keys_law: "ok s \<Longrightarrow> op_Keys ops s = map fst (entries s)"
    and values_law: "ok s \<Longrightarrow> op_Values ops s = map snd (entries s)"
    and len_law: "ok s \<Longrightarrow> op_Len ops s = int (length (entries s))"
    and purge_law: "ok s \<Longrightarrow> case op_Purge ops s of (s', calls) \<Rightarrow>
          ok s' \<and> cap s' = cap s \<and> entries s' = [] \<and> mset calls = mset (entries s)"
    and resize_law: "ok s \<Longrightarrow> 0 \<le> n \<Longrightarrow> case op_Resize ops n s of (s', r) \<Rightarrow>
          ok s' \<and> cap s' = n \<and> (entries s', r) = resize_spec n (entries s)"
begin

lemma add_rules [simp]:
  assumes "ok s"
  shows "ok (fst (op_Add ops k v s))" and "cap (fst (op_Add ops k v s)) = cap s"
    and "entries (fst (op_Add ops k v s)) = fst (add_spec (cap s) (entries s) k v)"
    and "snd (op_Add ops k v s) = snd (add_spec (cap s) (entries s) k v)"
  using add_law [OF assms, of k v] by (auto split: prod.splits dest: arg_cong [of _ _ fst] arg_cong [of _ _ snd])

lemma get_rules [simp]:
  assumes "ok s"
  shows "ok (fst (op_Get ops k s))" and "cap (fst (op_Get ops k s)) = cap s"
    and "entries (fst (op_Get ops k s)) = fst (get_spec (entries s) k)"
    and "snd (op_Get ops k s) = snd (get_spec (entries s) k)"
  using get_law [OF assms, of k] by (auto split: prod.splits dest: arg_cong [of _ _ fst] arg_cong [of _ _ snd])

lemma remove_rules [simp]:
  assumes "ok s"
  shows "ok (fst (op_Remove ops k s))" and "cap (fst (op_Remove ops k s)) = cap s"
    and "entries (fst (op_Remove ops k s)) = fst (remove_spec (entries s) k)"
    and "snd (op_Remove ops k s) = snd (remove_spec (entries s) k)"
  using remove_law [OF assms, of k] by (auto split: prod.splits dest: arg_cong [of _ _ fst] arg_cong [of _ _ snd])

lemma remove_oldest_rules [simp]:
  assumes "ok s"
  shows "ok (fst (op_RemoveOldest ops s))" and "cap (fst (op_RemoveOldest ops s)) = cap s"
    and "entries (fst (op_RemoveOldest ops s)) = fst (remove_oldest_spec (entries s))"
    and "snd (op_RemoveOldest ops s) = snd (remove_oldest_spec (entries s))"
  using remove_oldest_law [OF assms] by (auto split: prod.splits dest: arg_cong [of _ _ fst] arg_cong [of _ _ snd])

lemma purge_rules [simp]:
  assumes "ok s"
  shows "ok (fst (op_Purge ops s))" and "cap (fst (op_Purge ops s)) = cap s"
    and "entries (fst (op_Purge ops s)) = []" and "mset (snd (op_Purge ops s)) = mset (entries s)"
  using purge_law [OF assms] by (auto split: prod.splits)

lemma resize_rules [simp]:
  assumes "ok s" and "0 \<le> n"
  shows "ok (fst (op_Resize ops n s))" and "cap (fst (op_Resize ops n s)) = n"
    and "entries (fst (op_Resize ops n s)) = fst (resize_spec n (entries s))"
    and "snd (op_Resize ops n s) = snd (resize_spec n (entries s))"
  using resize_law [OF assms] by (auto split: prod.splits dest: arg_cong [of _ _ fst] arg_cong [of _ _ snd])

lemmas read_laws = contains_law peek_law get_oldest_law keys_law values_law len_law

declare read_laws [simp]

end

section \<open>Lemmas on the specification\<close>

lemma keys_of_simps [simp]:
  "keys_of [] = {}" "keys_of (e # es) = insert (fst e) (keys_of es)" "keys_of (es @ fs) = keys_of es \<union> keys_of fs"
  by (auto simp: keys_of_def)

lemma keys_of_remove_key [simp]: "keys_of (remove_key k es) = keys_of es - {k}"
  by (auto simp: keys_of_def remove_key_def)

lemma map_of_eq_None_keys: "map_of es k = None \<longleftrightarrow> k \<notin> keys_of es"
  by (auto simp: keys_of_def map_of_eq_None_iff)

lemma map_of_absent [simp]: "k \<notin> keys_of es \<Longrightarrow> map_of es k = None"
  by (simp add: map_of_eq_None_keys)

lemma map_of_Some_key: "map_of es k = Some v \<Longrightarrow> k \<in> keys_of es"
  by (metis map_of_eq_None_keys option.distinct(1))

lemma dom_map_of_keys: "dom (map_of es) = keys_of es"
  by (simp add: keys_of_def dom_map_of_conv_image_fst)

lemma map_of_remove_key [simp]: "map_of (remove_key k es) = (map_of es)(k := None)"
  by (induction es) (auto simp: remove_key_def)

lemma remove_key_absent [simp]: "k \<notin> keys_of es \<Longrightarrow> remove_key k es = es"
  by (auto simp: remove_key_def keys_of_def intro!: filter_True)

lemma distinct_remove_key: "distinct (map fst es) \<Longrightarrow> distinct (map fst (remove_key k es))"
  by (simp add: remove_key_def distinct_map_filter)

lemma length_remove_key:
  "distinct (map fst es) \<Longrightarrow> k \<in> keys_of es \<Longrightarrow> Suc (length (remove_key k es)) = length es"
proof (induction es)
  case (Cons e es)
  show ?case
  proof (cases "fst e = k")
    case True
    with Cons.prems have "remove_key k es = es"
      by (intro remove_key_absent) (auto simp: keys_of_def)
    with True show ?thesis by (simp add: remove_key_def)
  next
    case False
    with Cons show ?thesis by (simp add: remove_key_def)
  qed
qed simp

lemma card_keys_of: "distinct (map fst es) \<Longrightarrow> card (keys_of es) = length es"
  by (metis distinct_card keys_of_def length_map)

lemma distinct_move_last:
  "distinct (map fst es) \<Longrightarrow> distinct (map fst (remove_key k es @ [(k, v)]))"
  using keys_of_remove_key [of k es] by (auto simp: distinct_remove_key keys_of_def)

lemma distinct_append_new:
  "distinct (map fst es) \<Longrightarrow> k \<notin> keys_of es \<Longrightarrow> distinct (map fst (es @ [(k, v)]))"
  by (auto simp: keys_of_def)

section \<open>A list implementation\<close>

definition list_lru :: "('k, 'v, int \<times> ('k \<times> 'v) list) lru_ops" where
  "list_lru = \<lparr>
     op_New = (\<lambda>n. if n \<le> 0 then None else Some (n, [])),
     op_Add = (\<lambda>k v (c, es). case add_spec c es k v of (es', r) \<Rightarrow> ((c, es'), r)),
     op_Get = (\<lambda>k (c, es). case get_spec es k of (es', r) \<Rightarrow> ((c, es'), r)),
     op_Contains = (\<lambda>k (c, es). k \<in> keys_of es),
     op_Peek = (\<lambda>k (c, es). map_of es k),
     op_Remove = (\<lambda>k (c, es). case remove_spec es k of (es', r) \<Rightarrow> ((c, es'), r)),
     op_RemoveOldest = (\<lambda>(c, es). case remove_oldest_spec es of (es', r) \<Rightarrow> ((c, es'), r)),
     op_GetOldest = (\<lambda>(c, es). case es of [] \<Rightarrow> None | e # _ \<Rightarrow> Some e),
     op_Keys = (\<lambda>(c, es). map fst es),
     op_Values = (\<lambda>(c, es). map snd es),
     op_Len = (\<lambda>(c, es). int (length es)),
     op_Purge = (\<lambda>(c, es). ((c, []), es)),
     op_Resize = (\<lambda>n (c, es). case resize_spec n es of (es', r) \<Rightarrow> ((n, es'), r)) \<rparr>"

definition list_ok :: "int \<times> ('k \<times> 'v) list \<Rightarrow> bool" where
  "list_ok s \<longleftrightarrow> distinct (map fst (snd s)) \<and> 0 \<le> fst s \<and> int (length (snd s)) \<le> fst s"

lemma list_ok_add:
  assumes "list_ok (c, es)"
  shows "list_ok (c, fst (add_spec c es k v))"
proof (cases "k \<in> keys_of es")
  case True
  then show ?thesis
    using assms distinct_move_last [of es k v] length_remove_key [of es k]
    by (simp add: list_ok_def add_spec_def)
next
  case False
  have d: "distinct (map fst (es @ [(k, v)]))"
    using assms False by (intro distinct_append_new) (simp_all add: list_ok_def)
  then have "distinct (map fst (tl (es @ [(k, v)])))"
    by (simp add: map_tl distinct_tl)
  with d False assms show ?thesis by (simp add: list_ok_def add_spec_def)
qed

lemma length_remove_key_le: "length (remove_key k es) \<le> length es"
  by (simp add: remove_key_def)

lemma list_ok_remove_key: "list_ok (c, es) \<Longrightarrow> list_ok (c, remove_key k es)"
  using length_remove_key_le [of k es] by (simp add: list_ok_def distinct_remove_key)

lemma list_ok_get:
  assumes "list_ok (c, es)"
  shows "list_ok (c, fst (get_spec es k))"
proof (cases "map_of es k")
  case None
  then show ?thesis using assms by (simp add: get_spec_def)
next
  case (Some v)
  then show ?thesis
    using assms distinct_move_last [of es k v] length_remove_key [of es k] map_of_Some_key [OF Some]
    by (simp add: list_ok_def get_spec_def)
qed

interpretation list_lru: simplelru list_lru snd fst list_ok
proof unfold_locales
  fix s :: "int \<times> ('k \<times> 'v) list" and k :: 'k and v :: 'v and n :: int
  assume ok: "list_ok s"
  obtain c es where s [simp]: "s = (c, es)" by (cases s)
  show "case op_Add list_lru k v s of (s', r) \<Rightarrow>
          list_ok s' \<and> fst s' = fst s \<and> (snd s', r) = add_spec (fst s) (snd s) k v"
    using list_ok_add [of c es k v] ok by (auto simp: list_lru_def split: prod.splits)
  show "case op_Get list_lru k s of (s', r) \<Rightarrow>
          list_ok s' \<and> fst s' = fst s \<and> (snd s', r) = get_spec (snd s) k"
    using ok list_ok_get [of c es k] by (auto simp: list_lru_def split: prod.splits)
  show "case op_Remove list_lru k s of (s', r) \<Rightarrow>
          list_ok s' \<and> fst s' = fst s \<and> (snd s', r) = remove_spec (snd s) k"
    using ok list_ok_remove_key [of c es k] by (simp add: list_lru_def remove_spec_def split: option.splits)
  show "case op_RemoveOldest list_lru s of (s', r) \<Rightarrow>
          list_ok s' \<and> fst s' = fst s \<and> (snd s', r) = remove_oldest_spec (snd s)"
    using ok by (cases es) (auto simp: list_lru_def remove_oldest_spec_def list_ok_def)
  show "0 \<le> n \<Longrightarrow> case op_Resize list_lru n s of (s', r) \<Rightarrow>
          list_ok s' \<and> fst s' = n \<and> (snd s', r) = resize_spec n (snd s)"
    using ok by (auto simp: list_lru_def resize_spec_def list_ok_def Let_def drop_map [symmetric])
qed (auto simp: list_lru_def list_ok_def split: list.splits)

end
