(* ===== verification/Lru_Cache.thy ===== *)
theory Lru_Cache
  imports Simple_Lru
begin

text \<open>
  The thread-safe LRU cache of \<^verbatim>\<open>golang-lru/v2/lru.go\<close>.  Each method is one critical section over the
  underlying list followed by calls of the user's eviction callback outside of it; a method is
  therefore one atomic step that returns the new cache, its result and the callback
  invocations in order.  \<open>None\<close> stands for a panic (an index out of range in the eviction
  buffers).  \<open>onEvictedCB\<close> records whether a callback is registered.
\<close>

section \<open>The cache\<close>

record ('k, 'v, 's) cache =
  lru :: 's
  evictedKeys :: "'k list"
  evictedVals :: "'v list"
  onEvictedCB :: bool

type_synonym ('k, 'v, 's, 'r) step_result = "(('k, 'v, 's) cache \<times> 'r \<times> ('k \<times> 'v) list) option"

definition initEvictBuffers :: "('k, 'v, 's) cache \<Rightarrow> ('k, 'v, 's) cache" where
  "initEvictBuffers c = c\<lparr>evictedKeys := [], evictedVals := []\<rparr>"

definition NewWithEvict :: "('k, 'v, 's) lru_ops \<Rightarrow> int \<Rightarrow> bool \<Rightarrow> ('k, 'v, 's) cache option" where
  "NewWithEvict ops n cb =
     map_option (\<lambda>s. \<lparr>lru = s, evictedKeys = [], evictedVals = [], onEvictedCB = cb\<rparr>) (op_New ops n)"

definition New :: "('k, 'v, 's) lru_ops \<Rightarrow> int \<Rightarrow> ('k, 'v, 's) cache option" where
  "New ops n = NewWithEvict ops n False"

definition onEvicted :: "('k, 'v, 's) cache \<Rightarrow> 'k \<times> 'v \<Rightarrow> ('k, 'v, 's) cache" where
  "onEvicted c kv = c\<lparr>evictedKeys := evictedKeys c @ [fst kv], evictedVals := evictedVals c @ [snd kv]\<rparr>"

text \<open>
  The list calls the function it was built with on every entry it drops: \<^verbatim>\<open>c.onEvicted\<close> when a callback is
  registered, nothing otherwise.
\<close>

definition notify :: "('k, 'v, 's) cache \<Rightarrow> ('k \<times> 'v) list \<Rightarrow> ('k, 'v, 's) cache" where
  "notify c calls = (if onEvictedCB c then foldl onEvicted c calls else c)"

text \<open>The statements that take the first buffered entry and truncate the buffers.\<close>

definition take_first :: "('k, 'v, 's) cache \<Rightarrow> (('k, 'v, 's) cache \<times> ('k \<times> 'v)) option" where
  "take_first c =
     (case (evictedKeys c, evictedVals c) of
        (k # _, v # _) \<Rightarrow> Some (c\<lparr>evictedKeys := [], evictedVals := []\<rparr>, (k, v))
      | _ \<Rightarrow> None)"

text \<open>The loop that passes the saved entries to the callback.\<close>

definition invoke_all :: "'k list \<Rightarrow> 'v list \<Rightarrow> ('k \<times> 'v) list option" where
  "invoke_all ks vs = (if length ks \<le> length vs then Some (zip ks vs) else None)"

definition Cache_Purge :: "('k, 'v, 's) lru_ops \<Rightarrow> ('k, 'v, 's) cache \<Rightarrow> ('k, 'v, 's, unit) step_result" where
  "Cache_Purge ops c =
     (let (s, calls) = op_Purge ops (lru c);
          c = notify (c\<lparr>lru := s\<rparr>) calls;
          (ks, vs, c) =
            (if onEvictedCB c \<and> 0 < length (evictedKeys c)
             then (evictedKeys c, evictedVals c, initEvictBuffers c) else ([], [], c))
      in if onEvictedCB c then map_option (\<lambda>out. (c, (), out)) (invoke_all ks vs)
         else Some (c, (), []))"

text \<open>
  The tail that \<^verbatim>\<open>Add\<close>, \<^verbatim>\<open>ContainsOrAdd\<close>, \<^verbatim>\<open>PeekOrAdd\<close>, \<^verbatim>\<open>Remove\<close> and \<^verbatim>\<open>RemoveOldest\<close> share: when \<open>dropped\<close>, the
  first buffered entry is taken under the lock and passed to the callback after it.
\<close>

definition report_one :: "bool \<Rightarrow> 'r \<Rightarrow> ('k, 'v, 's) cache \<Rightarrow> ('k, 'v, 's, 'r) step_result" where
  "report_one dropped r c =
     (if onEvictedCB c \<and> dropped
      then map_option (\<lambda>(c', kv). (c', r, [kv])) (take_first c)
      else Some (c, r, []))"

definition Cache_Add :: "('k, 'v, 's) lru_ops \<Rightarrow> 'k \<Rightarrow> 'v \<Rightarrow> ('k, 'v, 's) cache \<Rightarrow> ('k, 'v, 's, bool) step_result" where
  "Cache_Add ops key val c =
     (let (s, evicted, calls) = op_Add ops key val (lru c)
      in report_one evicted evicted (notify (c\<lparr>lru := s\<rparr>) calls))"

definition Cache_Get :: "('k, 'v, 's) lru_ops \<Rightarrow> 'k \<Rightarrow> ('k, 'v, 's) cache \<Rightarrow> ('k, 'v, 's, 'v option) step_result" where
  "Cache_Get ops key c = (let (s, v) = op_Get ops key (lru c) in Some (c\<lparr>lru := s\<rparr>, v, []))"

definition Cache_Contains :: "('k, 'v, 's) lru_ops \<Rightarrow> 'k \<Rightarrow> ('k, 'v, 's) cache \<Rightarrow> bool" where
  "Cache_Contains ops key c = op_Contains ops key (lru c)"

definition Cache_Peek :: "('k, 'v, 's) lru_ops \<Rightarrow> 'k \<Rightarrow> ('k, 'v, 's) cache \<Rightarrow> 'v option" where
  "Cache_Peek ops key c = op_Peek ops key (lru c)"

definition Cache_ContainsOrAdd :: "('k, 'v, 's) lru_ops \<Rightarrow> 'k \<Rightarrow> 'v \<Rightarrow> ('k, 'v, 's) cache \<Rightarrow> ('k, 'v, 's, bool \<times> bool) step_result" where
  "Cache_ContainsOrAdd ops key val c =
     (if op_Contains ops key (lru c) then Some (c, (True, False), [])
      else let (s, evicted, calls) = op_Add ops key val (lru c)
        in report_one evicted (False, evicted) (notify (c\<lparr>lru := s\<rparr>) calls))"

definition Cache_PeekOrAdd :: "('k, 'v, 's) lru_ops \<Rightarrow> 'k \<Rightarrow> 'v \<Rightarrow> ('k, 'v, 's) cache \<Rightarrow> ('k, 'v, 's, 'v option \<times> bool) step_result" where
  "Cache_PeekOrAdd ops key val c =
     (case op_Peek ops key (lru c) of
        Some previous \<Rightarrow> Some (c, (Some previous, False), [])
      | None \<Rightarrow>
          let (s, evicted, calls) = op_Add ops key val (lru c)
          in report_one evicted (None, evicted) (notify (c\<lparr>lru := s\<rparr>) calls))"

definition Cache_Remove :: "('k, 'v, 's) lru_ops \<Rightarrow> 'k \<Rightarrow> ('k, 'v, 's) cache \<Rightarrow> ('k, 'v, 's, bool) step_result" where
  "Cache_Remove ops key c =
     (let (s, present, calls) = op_Remove ops key (lru c)
      in report_one present present (notify (c\<lparr>lru := s\<rparr>) calls))"

definition Cache_Resize :: "('k, 'v, 's) lru_ops \<Rightarrow> int \<Rightarrow> ('k, 'v, 's) cache \<Rightarrow> ('k, 'v, 's, int) step_result" where
  "Cache_Resize ops n c =
     (let (s, evicted, calls) = op_Resize ops n (lru c);
          c = notify (c\<lparr>lru := s\<rparr>) calls;
          (ks, vs, c) =
            (if onEvictedCB c \<and> 0 < evicted
             then (evictedKeys c, evictedVals c, initEvictBuffers c) else ([], [], c))
      in if onEvictedCB c \<and> 0 < evicted
         then map_option (\<lambda>out. (c, evicted, out)) (invoke_all ks vs)
         else Some (c, evicted, []))"

definition Cache_RemoveOldest :: "('k, 'v, 's) lru_ops \<Rightarrow> ('k, 'v, 's) cache \<Rightarrow> ('k, 'v, 's, ('k \<times> 'v) option) step_result" where
  "Cache_RemoveOldest ops c =
     (let (s, e, calls) = op_RemoveOldest ops (lru c)
      in report_one (e \<noteq> None) e (notify (c\<lparr>lru := s\<rparr>) calls))"

definition Cache_GetOldest :: "('k, 'v, 's) lru_ops \<Rightarrow> ('k, 'v, 's) cache \<Rightarrow> ('k \<times> 'v) option" where
  "Cache_GetOldest ops c = op_GetOldest ops (lru c)"

definition Cache_Keys :: "('k, 'v, 's) lru_ops \<Rightarrow> ('k, 'v, 's) cache \<Rightarrow> 'k list" where
  "Cache_Keys ops c = op_Keys ops (lru c)"

definition Cache_Values :: "('k, 'v, 's) lru_ops \<Rightarrow> ('k, 'v, 's) cache \<Rightarrow> 'v list" where
  "Cache_Values ops c = op_Values ops (lru c)"

definition Cache_Len :: "('k, 'v, 's) lru_ops \<Rightarrow> ('k, 'v, 's) cache \<Rightarrow> int" where
  "Cache_Len ops c = op_Len ops (lru c)"

section \<open>Specification\<close>

datatype ('k, 'v) cache_call =
    CAdd 'k 'v | CGet 'k | CContains 'k | CPeek 'k | CContainsOrAdd 'k 'v | CPeekOrAdd 'k 'v
  | CRemove 'k | CResize int | CRemoveOldest | CGetOldest | CKeys | CValues | CLen | CPurge

datatype ('k, 'v) cache_reply =
    RUnit | RBool bool | RVal "'v option" | RFound "bool \<times> bool" | RPeeked "'v option \<times> bool"
  | RInt int | REntry "('k \<times> 'v) option" | RKeys "'k list" | RVals "'v list"

definition reply :: "('r \<Rightarrow> ('k, 'v) cache_reply) \<Rightarrow> ('k, 'v, 's, 'r) step_result \<Rightarrow> ('k, 'v, 's, ('k, 'v) cache_reply) step_result" where
  "reply f = map_option (\<lambda>(c, r, out). (c, f r, out))"

fun cache_exec :: "('k, 'v, 's) lru_ops \<Rightarrow> ('k, 'v) cache_call \<Rightarrow> ('k, 'v, 's) cache \<Rightarrow> ('k, 'v, 's, ('k, 'v) cache_reply) step_result" where
  "cache_exec ops (CAdd k v) c = reply RBool (Cache_Add ops k v c)"
| "cache_exec ops (CGet k) c = reply RVal (Cache_Get ops k c)"
| "cache_exec ops (CContains k) c = Some (c, RBool (Cache_Contains ops k c), [])"
| "cache_exec ops (CPeek k) c = Some (c, RVal (Cache_Peek ops k c), [])"
| "cache_exec ops (CContainsOrAdd k v) c = reply RFound (Cache_ContainsOrAdd ops k v c)"
| "cache_exec ops (CPeekOrAdd k v) c = reply RPeeked (Cache_PeekOrAdd ops k v c)"
| "cache_exec ops (CRemove k) c = reply RBool (Cache_Remove ops k c)"
| "cache_exec ops (CResize n) c = reply RInt (Cache_Resize ops n c)"
| "cache_exec ops CRemoveOldest c = reply REntry (Cache_RemoveOldest ops c)"
| "cache_exec ops CGetOldest c = Some (c, REntry (Cache_GetOldest ops c), [])"
| "cache_exec ops CKeys c = Some (c, RKeys (Cache_Keys ops c), [])"
| "cache_exec ops CValues c = Some (c, RVals (Cache_Values ops c), [])"
| "cache_exec ops CLen c = Some (c, RInt (Cache_Len ops c), [])"
| "cache_exec ops CPurge c = reply (\<lambda>_. RUnit) (Cache_Purge ops c)"

text \<open>
  The abstract cache: a capacity and the entries from the oldest to the newest.  A call maps
  them to the new entries, the reply, and the entries dropped, in order.
\<close>

type_synonym ('k, 'v) abstract_cache = "int \<times> ('k \<times> 'v) list"

fun cache_spec :: "('k, 'v) cache_call \<Rightarrow> ('k, 'v) abstract_cache \<Rightarrow> ('k, 'v) abstract_cache \<times> ('k, 'v) cache_reply \<times> ('k \<times> 'v) list" where
  "cache_spec (CAdd k v) (n, es) = (case add_spec n es k v of (es', ev, out) \<Rightarrow> ((n, es'), RBool ev, out))"
| "cache_spec (CGet k) (n, es) = (case get_spec es k of (es', r) \<Rightarrow> ((n, es'), RVal r, []))"
| "cache_spec (CContains k) (n, es) = ((n, es), RBool (k \<in> keys_of es), [])"
| "cache_spec (CPeek k) (n, es) = ((n, es), RVal (map_of es k), [])"
| "cache_spec (CContainsOrAdd k v) (n, es) =
     (if k \<in> keys_of es then ((n, es), RFound (True, False), [])
      else case add_spec n es k v of (es', ev, out) \<Rightarrow> ((n, es'), RFound (False, ev), out))"
| "cache_spec (CPeekOrAdd k v) (n, es) =
     (case map_of es k of
        Some w \<Rightarrow> ((n, es), RPeeked (Some w, False), [])
      | None \<Rightarrow> (case add_spec n es k v of (es', ev, out) \<Rightarrow> ((n, es'), RPeeked (None, ev), out)))"
| "cache_spec (CRemove k) (n, es) = (case remove_spec es k of (es', r, out) \<Rightarrow> ((n, es'), RBool r, out))"
| "cache_spec (CResize m) (n, es) = (case resize_spec m es of (es', d, out) \<Rightarrow> ((m, es'), RInt d, out))"
| "cache_spec CRemoveOldest (n, es) =
     (case remove_oldest_spec es of (es', e, out) \<Rightarrow> ((n, es'), REntry e, out))"
| "cache_spec CGetOldest (n, es) = ((n, es), REntry (case es of [] \<Rightarrow> None | e # _ \<Rightarrow> Some e), [])"
| "cache_spec CKeys (n, es) = ((n, es), RKeys (map fst es), [])"
| "cache_spec CValues (n, es) = ((n, es), RVals (map snd es), [])"
| "cache_spec CLen (n, es) = ((n, es), RInt (int (length es)), [])"
| "cache_spec CPurge (n, es) = ((n, []), RUnit, es)"

definition idle :: "('k, 'v, 's) cache \<Rightarrow> bool" where
  "idle c \<longleftrightarrow> evictedKeys c = [] \<and> evictedVals c = []"

section \<open>Lemmas\<close>

lemma foldl_onEvicted:
  "foldl onEvicted c calls =
     c\<lparr>evictedKeys := evictedKeys c @ map fst calls, evictedVals := evictedVals c @ map snd calls\<rparr>"
  by (induction calls arbitrary: c) (simp_all add: onEvicted_def)

lemma report_one_idle:
  assumes "idle c" and "length calls = (if dropped then 1 else 0)"
  shows "report_one dropped r (notify c calls) = Some (c, r, if onEvictedCB c then calls else [])"
proof (cases calls)
  case Nil
  with assms show ?thesis by (simp add: report_one_def notify_def split: if_splits)
next
  case (Cons e es)
  with assms show ?thesis
    by (cases c; cases e)
      (auto simp: report_one_def notify_def onEvicted_def take_first_def idle_def split: if_splits)
qed

lemma one_dropped:
  "length (snd (snd (add_spec n es k v))) = (if fst (snd (add_spec n es k v)) then 1 else 0)"
  "length (snd (snd (remove_spec es k))) = (if fst (snd (remove_spec es k)) then 1 else 0)"
  "length (snd (snd (remove_oldest_spec es))) = (if fst (snd (remove_oldest_spec es)) \<noteq> None then 1 else 0)"
  by (simp_all add: add_spec_def remove_spec_def remove_oldest_spec_def split: option.split list.split)

lemma idle_lru_update [simp]: "idle (c\<lparr>lru := s\<rparr>) = idle c"
  by (simp add: idle_def)

text \<open>
  What a call must do, against the specification: it does not panic, its reply is the specified
  one, and with a callback registered the entries dropped are reported, in the specified order except
  for \<^verbatim>\<open>Purge\<close>, which walks a Go map.
\<close>

definition reported :: "bool \<Rightarrow> ('k, 'v) cache_call \<Rightarrow> ('k \<times> 'v) list \<Rightarrow> ('k \<times> 'v) list \<Rightarrow> bool" where
  "reported cb call out dropped \<longleftrightarrow>
     (if \<not> cb then out = [] else if call = CPurge then mset out = mset dropped else out = dropped)"

definition meets ::
  "('s \<Rightarrow> ('k \<times> 'v) list) \<Rightarrow> ('s \<Rightarrow> int) \<Rightarrow> ('s \<Rightarrow> bool) \<Rightarrow> ('k, 'v) cache_call \<Rightarrow> ('k, 'v, 's) cache \<Rightarrow>
   ('k, 'v, 's, ('k, 'v) cache_reply) step_result \<Rightarrow> bool" where
  "meets entries cap ok call c res \<longleftrightarrow>
     (case cache_spec call (cap (lru c), entries (lru c)) of ((n, es), r, dropped) \<Rightarrow>
        (case res of
           None \<Rightarrow> False
         | Some (c', r', out) \<Rightarrow>
             r' = r \<and> ok (lru c') \<and> idle c' \<and> onEvictedCB c' = onEvictedCB c \<and>
             cap (lru c') = n \<and> entries (lru c') = es \<and> reported (onEvictedCB c) call out dropped))"

lemma reported_rules [simp]:
  "reported cb call [] []" "call \<noteq> CPurge \<Longrightarrow> reported cb call (if cb then out else []) out"
  by (simp_all add: reported_def)

definition valid_call :: "('k, 'v) cache_call \<Rightarrow> bool" where
  "valid_call call = (case call of CResize n \<Rightarrow> 0 \<le> n | _ \<Rightarrow> True)"

text \<open>A sequence of calls, and the capacity it leaves.\<close>

primrec cache_run :: "('k, 'v, 's) lru_ops \<Rightarrow> ('k, 'v) cache_call list \<Rightarrow> ('k, 'v, 's) cache \<Rightarrow> ('k, 'v, 's) cache option" where
  "cache_run ops [] c = Some c"
| "cache_run ops (call # calls) c =
     (case cache_exec ops call c of None \<Rightarrow> None | Some (c', _) \<Rightarrow> cache_run ops calls c')"

fun last_size :: "int \<Rightarrow> ('k, 'v) cache_call list \<Rightarrow> int" where
  "last_size n [] = n"
| "last_size n (CResize m # calls) = last_size m calls"
| "last_size n (_ # calls) = last_size n calls"

lemma cache_spec_size: "fst (fst (cache_spec call (n, es))) = (case call of CResize m \<Rightarrow> m | _ \<Rightarrow> n)"
  by (cases call) (auto split: prod.splits option.splits)

lemma last_size_step: "last_size n (call # calls) = last_size (case call of CResize m \<Rightarrow> m | _ \<Rightarrow> n) calls"
  by (cases call) simp_all

context simplelru
begin

lemma add_cases:
  assumes "ok s"
  obtains s' ev out where "op_Add ops k v s = (s', ev, out)" and "ok s'" and "cap s' = cap s"
    and "add_spec (cap s) (entries s) k v = (entries s', ev, out)"
    and "length out = (if ev then 1 else 0)"
  using add_law [OF assms, of k v] one_dropped(1) [of "cap s" "entries s" k v]
  by (cases "op_Add ops k v s") (metis (mono_tags, lifting) case_prod_conv fst_conv prod.collapse snd_conv)

lemma remove_cases:
  assumes "ok s"
  obtains s' r out where "op_Remove ops k s = (s', r, out)" and "ok s'" and "cap s' = cap s"
    and "remove_spec (entries s) k = (entries s', r, out)"
    and "length out = (if r then 1 else 0)"
  using remove_law [OF assms, of k] one_dropped(2) [of "entries s" k]
  by (cases "op_Remove ops k s") (metis (mono_tags, lifting) case_prod_conv fst_conv prod.collapse snd_conv)

lemma remove_oldest_cases:
  assumes "ok s"
  obtains s' e out where "op_RemoveOldest ops s = (s', e, out)" and "ok s'" and "cap s' = cap s"
    and "remove_oldest_spec (entries s) = (entries s', e, out)"
    and "length out = (if e \<noteq> None then 1 else 0)"
  using remove_oldest_law [OF assms] one_dropped(3) [of "entries s"]
  by (cases "op_RemoveOldest ops s") (metis (mono_tags, lifting) case_prod_conv fst_conv prod.collapse snd_conv)

lemma resize_cases:
  assumes "ok s" and "0 \<le> n"
  obtains s' d out where "op_Resize ops n s = (s', d, out)" and "ok s'" and "cap s' = n"
    and "resize_spec n (entries s) = (entries s', d, out)" and "0 < d \<longleftrightarrow> out \<noteq> []"
proof -
  have "0 < fst (snd (resize_spec n (entries s))) \<longleftrightarrow> snd (snd (resize_spec n (entries s))) \<noteq> []"
    using assms(2) by (auto simp: resize_spec_def Let_def)
  then show thesis
    using that resize_law [OF assms]
    by (cases "op_Resize ops n s") (metis (mono_tags, lifting) case_prod_conv fst_conv prod.collapse snd_conv)
qed

lemma adding_meets:
  assumes "ok (lru c)" and "idle c"
  shows "meets entries cap ok (CAdd k v) c (cache_exec ops (CAdd k v) c)"
    and "meets entries cap ok (CContainsOrAdd k v) c (cache_exec ops (CContainsOrAdd k v) c)"
    and "meets entries cap ok (CPeekOrAdd k v) c (cache_exec ops (CPeekOrAdd k v) c)"
proof -
  obtain s' ev out where add: "op_Add ops k v (lru c) = (s', ev, out)" "ok s'" "cap s' = cap (lru c)"
    "add_spec (cap (lru c)) (entries (lru c)) k v = (entries s', ev, out)"
    "length out = (if ev then 1 else 0)"
    using add_cases [OF assms(1)] by blast
  note report = report_one_idle [of "c\<lparr>lru := s'\<rparr>", simplified, OF assms(2) add(5)]
  show "meets entries cap ok (CAdd k v) c (cache_exec ops (CAdd k v) c)"
    using add(1-4) assms by (simp add: meets_def Cache_Add_def reply_def report)
  show "meets entries cap ok (CContainsOrAdd k v) c (cache_exec ops (CContainsOrAdd k v) c)"
    using add(1-4) assms by (simp add: meets_def Cache_ContainsOrAdd_def reply_def report)
  show "meets entries cap ok (CPeekOrAdd k v) c (cache_exec ops (CPeekOrAdd k v) c)"
    using add(1-4) assms
    by (simp add: meets_def Cache_PeekOrAdd_def reply_def report split: option.split)
qed

lemma removing_meets:
  assumes "ok (lru c)" and "idle c"
  shows "meets entries cap ok (CRemove k) c (cache_exec ops (CRemove k) c)"
    and "meets entries cap ok CRemoveOldest c (cache_exec ops CRemoveOldest c)"
  using assms
  by (cases rule: remove_cases [OF assms(1), of k];
      simp add: meets_def Cache_Remove_def reply_def report_one_idle)
    (cases rule: remove_oldest_cases [OF assms(1)];
      use assms in \<open>simp add: meets_def Cache_RemoveOldest_def reply_def report_one_idle\<close>)

lemma reading_meets:
  assumes "ok (lru c)" and "idle c"
  shows "meets entries cap ok (CContains k) c (cache_exec ops (CContains k) c)"
    and "meets entries cap ok (CPeek k) c (cache_exec ops (CPeek k) c)"
    and "meets entries cap ok CGetOldest c (cache_exec ops CGetOldest c)"
    and "meets entries cap ok CKeys c (cache_exec ops CKeys c)"
    and "meets entries cap ok CValues c (cache_exec ops CValues c)"
    and "meets entries cap ok CLen c (cache_exec ops CLen c)"
  using assms
  by (simp_all add: meets_def Cache_Contains_def Cache_Peek_def Cache_GetOldest_def Cache_Keys_def
      Cache_Values_def Cache_Len_def)

lemma get_meets:
  assumes "ok (lru c)" and "idle c"
  shows "meets entries cap ok (CGet k) c (cache_exec ops (CGet k) c)"
  using get_law [OF assms(1), of k] assms
  by (auto simp: meets_def Cache_Get_def reply_def split: prod.splits)

lemma notify_idle:
  "idle c \<Longrightarrow> notify c calls =
     (if onEvictedCB c then c\<lparr>evictedKeys := map fst calls, evictedVals := map snd calls\<rparr> else c)"
  by (simp add: notify_def foldl_onEvicted idle_def)

lemma invoke_all_map [simp]: "invoke_all (map fst calls) (map snd calls) = Some calls"
  by (simp add: invoke_all_def zip_map_fst_snd)

lemma resize_meets:
  assumes "ok (lru c)" and "idle c" and "0 \<le> n"
  shows "meets entries cap ok (CResize n) c (cache_exec ops (CResize n) c)"
  using assms
  by (cases rule: resize_cases [OF assms(1,3)])
    (auto simp: meets_def Cache_Resize_def reply_def notify_idle initEvictBuffers_def Let_def idle_def
      reported_def)

lemma purge_meets:
  assumes "ok (lru c)" and "idle c"
  shows "meets entries cap ok CPurge c (cache_exec ops CPurge c)"
  using purge_law [OF assms(1)] assms
  by (cases "op_Purge ops (lru c)")
    (auto simp: meets_def Cache_Purge_def reply_def notify_idle initEvictBuffers_def Let_def idle_def
      reported_def invoke_all_def zip_map_fst_snd)

lemma exec_meets:
  assumes "ok (lru c)" and "idle c" and "\<And>n. call = CResize n \<Longrightarrow> 0 \<le> n"
  shows "meets entries cap ok call c (cache_exec ops call c)"
proof (cases call)
  case (CResize n)
  then show ?thesis using resize_meets assms by blast
qed (use adding_meets [OF assms(1,2)] removing_meets [OF assms(1,2)] reading_meets [OF assms(1,2)]
      get_meets [OF assms(1,2)] purge_meets [OF assms(1,2)] in \<open>simp_all only: simp_thms\<close>)

lemma run_invariant:
  assumes "ok (lru c)" and "idle c" and "list_all valid_call calls"
  shows "\<exists>c'. cache_run ops calls c = Some c' \<and> ok (lru c') \<and> cap (lru c') = last_size (cap (lru c)) calls"
  using assms
proof (induction calls arbitrary: c)
  case (Cons call calls)
  have "meets entries cap ok call c (cache_exec ops call c)"
    using Cons.prems by (intro exec_meets) (auto simp: valid_call_def)
  then obtain c' r out where c': "cache_exec ops call c = Some (c', r, out)" "ok (lru c')" "idle c'"
    "cap (lru c') = fst (fst (cache_spec call (cap (lru c), entries (lru c))))"
    by (auto simp: meets_def split: option.splits prod.splits)
  with Cons.IH [OF c'(2,3)] Cons.prems(3) show ?case
    by (simp add: cache_spec_size last_size_step del: last_size.simps)
qed simp

end

lemma NewWithEvict_works:
  assumes "simplelru ops entries cap ok" and "0 < n"
  shows "\<exists>c. NewWithEvict ops n cb = Some c \<and> ok (lru c) \<and> idle c \<and> onEvictedCB c = cb \<and>
           cap (lru c) = n \<and> entries (lru c) = []"
  using simplelru.new_law [OF assms] by (auto simp: NewWithEvict_def idle_def)

section \<open>Properties\<close>

text \<open>
  C16: the LRU cache refines a bounded list of entries, given the documented behaviour of the
  underlying list.  In every state between two calls, every method returns without a panic, gives the
  reply of the specification, leaves the specified entries behind, and passes to a registered callback
  exactly the entries it dropped, each once; afterwards the eviction buffers are empty again, so no
  entry is reported late, twice or to the wrong call.
\<close>

theorem lru_cache_refines:
  assumes "simplelru ops entries cap ok"
    and "ok (lru c)" and "idle c" and "\<forall>n. call = CResize n \<longrightarrow> 0 \<le> n"
    and "cache_spec call (cap (lru c), entries (lru c)) = ((n, es), r, dropped)"
  shows "\<exists>c' out. cache_exec ops call c = Some (c', r, out) \<and>
           ok (lru c') \<and> idle c' \<and> onEvictedCB c' = onEvictedCB c \<and>
           cap (lru c') = n \<and> entries (lru c') = es \<and> reported (onEvictedCB c) call out dropped"
  using simplelru.exec_meets [OF assms(1-3), of call] assms(4,5)
  by (auto simp: meets_def split: option.splits)

theorem lru_cache_refines_witness:
  "\<exists>c' out. cache_exec list_lru (CAdd (3 :: nat) ''c'')
       \<lparr>lru = (2, [(1, ''a''), (2, ''b'')]), evictedKeys = [], evictedVals = [], onEvictedCB = True\<rparr> =
       Some (c', RBool True, out) \<and> snd (lru c') = [(2, ''b''), (3, ''c'')] \<and> out = [(1, ''a'')]"
proof -
  let ?c = "\<lparr>lru = (2 :: int, [(1 :: nat, ''a''), (2, ''b'')]), evictedKeys = [], evictedVals = [], onEvictedCB = True\<rparr>"
  have ok: "list_ok (lru ?c)" and idle: "idle ?c" and call: "\<forall>n. CAdd (3 :: nat) ''c'' = CResize n \<longrightarrow> 0 \<le> n"
    by (simp_all add: list_ok_def idle_def)
  have spec: "cache_spec (CAdd 3 ''c'') (fst (lru ?c), snd (lru ?c)) =
      ((2, [(2, ''b''), (3, ''c'')]), RBool True, [(1, ''a'')])"
    by (simp add: add_spec_def)
  obtain c' out where "cache_exec list_lru (CAdd 3 ''c'') ?c = Some (c', RBool True, out)"
    "snd (lru c') = [(2, ''b''), (3, ''c'')]" "reported True (CAdd 3 ''c'') out [(1, ''a'')]"
    using lru_cache_refines [OF list_lru.simplelru_axioms ok idle call spec] by auto
  then show ?thesis by (intro exI [of _ c'] exI [of _ out]) (simp add: reported_def)
qed

text \<open>
  Constructing a cache fails exactly for a size that is not positive; from a new cache, no
  sequence of calls panics, and in the state it reaches the keys are distinct and at most as many as
  the capacity, which is the size last set.
\<close>

theorem lru_cache_run:
  assumes "simplelru ops entries cap ok" and "list_all valid_call calls"
  shows "if n \<le> 0 then NewWithEvict ops n cb = None
         else \<exists>c c'. NewWithEvict ops n cb = Some c \<and> cache_run ops calls c = Some c' \<and>
           distinct (Cache_Keys ops c') \<and> Cache_Len ops c' = int (length (Cache_Keys ops c')) \<and>
           Cache_Len ops c' \<le> last_size n calls"
proof (cases "n \<le> 0")
  case True
  then show ?thesis using simplelru.new_fails [OF assms(1)] by (simp add: NewWithEvict_def)
next
  case False
  with NewWithEvict_works [OF assms(1)] obtain c where c: "NewWithEvict ops n cb = Some c"
    "ok (lru c)" "idle c" "cap (lru c) = n" by (meson not_le)
  obtain c' where c': "cache_run ops calls c = Some c'" "ok (lru c')" "cap (lru c') = last_size n calls"
    using simplelru.run_invariant [OF assms(1) c(2,3) assms(2)] c(4) by blast
  note laws = simplelru.distinct_entries [OF assms(1) c'(2)] simplelru.length_entries [OF assms(1) c'(2)]
    simplelru.keys_law [OF assms(1) c'(2)] simplelru.len_law [OF assms(1) c'(2)]
  have "distinct (Cache_Keys ops c') \<and> Cache_Len ops c' = int (length (Cache_Keys ops c')) \<and>
      Cache_Len ops c' \<le> last_size n calls"
    using laws c'(3) by (simp add: Cache_Keys_def Cache_Len_def)
  then show ?thesis using False c(1) c'(1) by auto
qed

theorem lru_cache_run_witness:
  "\<exists>c c'. NewWithEvict list_lru 2 True = Some c \<and>
     cache_run list_lru [CAdd (1 :: nat) ''a'', CAdd 2 ''b'', CAdd 3 ''c'', CResize 1, CPurge] c = Some c' \<and>
     Cache_Len list_lru c' \<le> 1"
  using lru_cache_run [OF list_lru.simplelru_axioms,
      of "[CAdd (1 :: nat) ''a'', CAdd 2 ''b'', CAdd 3 ''c'', CResize 1, CPurge]" 2 True]
  by (simp add: valid_call_def) blast

end
