(* ===== verification/Two_Queue.thy ===== *)
theory Two_Queue
  imports Complex_Main Simple_Lru
begin

text \<open>
  The 2Q cache of \<^verbatim>\<open>golang-lru/v2/2q.go\<close>: a list of recent entries, a list of frequent entries and a
  list of ghosts, the keys recently evicted from the recent list.  The three lists are instances of
  the contract \<open>simplelru\<close>.  Every method holds the lock for all of its body, so it is one atomic
  step.  A \<^verbatim>\<open>float64\<close> ratio is the rational number it denotes; \<open>float_scale\<close> is the
  expression \<^verbatim>\<open>int(float64(size) * ratio)\<close> with the rounding of the product to 53 bits.
\<close>

section \<open>The size computation\<close>

text \<open>Rounding to the nearest integer, ties to even.\<close>

definition round_even :: "rat \<Rightarrow> int" where
  "round_even x =
     (let n = \<lfloor>x\<rfloor>; f = x - of_int n
      in if f < 1/2 then n else if 1/2 < f then n + 1 else if even n then n else n + 1)"

text \<open>
  The integer part of \<open>x \<ge> 0\<close> after rounding to 53 significant bits; exact for \<open>x < 2^53\<close>, where one
  unit in the last place is at most one.
\<close>

definition trunc_float :: "rat \<Rightarrow> int" where
  "trunc_float x = (let s = 53 - bit_length (nat \<lfloor>x\<rfloor>) in round_even (x * 2 ^ s) div 2 ^ s)"

definition float_scale :: "int \<Rightarrow> rat \<Rightarrow> int" where
  "float_scale n ratio =
     (if 0 \<le> n then trunc_float (of_int n * ratio) else - trunc_float (of_int (- n) * ratio))"

section \<open>The cache\<close>

definition Default2QRecentRatio :: rat where "Default2QRecentRatio = 1 / 4"
definition Default2QGhostEntries :: rat where "Default2QGhostEntries = 1 / 2"

record ('s, 'g) two_queue_cache =
  cache_size :: int
  recentSize :: int
  recentRatio :: rat
  ghostRatio :: rat
  recent :: 's
  frequent :: 's
  recentEvict :: 'g

datatype new_error = InvalidSize | InvalidRecentRatio | InvalidGhostRatio | LruError

definition New2QParams ::
  "('k, 'v, 's) lru_ops \<Rightarrow> ('k, unit, 'g) lru_ops \<Rightarrow> int \<Rightarrow> rat \<Rightarrow> rat \<Rightarrow> new_error + ('s, 'g) two_queue_cache" where
  "New2QParams ops gops n rRatio gRatio =
     (if n \<le> 0 then Inl InvalidSize
      else if rRatio < 0 \<or> 1 < rRatio then Inl InvalidRecentRatio
      else if gRatio < 0 \<or> 1 < gRatio then Inl InvalidGhostRatio
      else let rSize = float_scale n rRatio; evictSize = float_scale n gRatio
        in case op_New ops n of None \<Rightarrow> Inl LruError | Some r \<Rightarrow>
           (case op_New ops n of None \<Rightarrow> Inl LruError | Some f \<Rightarrow>
           (case op_New gops evictSize of None \<Rightarrow> Inl LruError | Some g \<Rightarrow>
              Inr \<lparr>cache_size = n, recentSize = rSize, recentRatio = rRatio, ghostRatio = gRatio,
                   recent = r, frequent = f, recentEvict = g\<rparr>)))"

definition New2Q ::
  "('k, 'v, 's) lru_ops \<Rightarrow> ('k, unit, 'g) lru_ops \<Rightarrow> int \<Rightarrow> new_error + ('s, 'g) two_queue_cache" where
  "New2Q ops gops n = New2QParams ops gops n Default2QRecentRatio Default2QGhostEntries"

definition TwoQueue_Get ::
  "('k, 'v, 's) lru_ops \<Rightarrow> 'k \<Rightarrow> ('s, 'g) two_queue_cache \<Rightarrow> ('s, 'g) two_queue_cache \<times> 'v option" where
  "TwoQueue_Get ops key c =
     (case op_Get ops key (frequent c) of
        (f, Some val) \<Rightarrow> (c\<lparr>frequent := f\<rparr>, Some val)
      | (f, None) \<Rightarrow>
          (let c = c\<lparr>frequent := f\<rparr> in
           case op_Peek ops key (recent c) of
             Some val \<Rightarrow>
               (c\<lparr>recent := fst (op_Remove ops key (recent c)),
                  frequent := fst (op_Add ops key val (frequent c))\<rparr>, Some val)
           | None \<Rightarrow> (c, None)))"

text \<open>
  \<^verbatim>\<open>RemoveOldest\<close> on the recent list is reached only when that list is not empty, so it yields an entry.
\<close>

definition ensureSpace ::
  "('k, 'v, 's) lru_ops \<Rightarrow> ('k, unit, 'g) lru_ops \<Rightarrow> bool \<Rightarrow> ('s, 'g) two_queue_cache \<Rightarrow> ('s, 'g) two_queue_cache" where
  "ensureSpace ops gops evict c =
     (let recentLen = op_Len ops (recent c); freqLen = op_Len ops (frequent c)
      in if recentLen + freqLen < cache_size c then c
         else if 0 < recentLen \<and> (recentSize c < recentLen \<or> recentLen = recentSize c \<and> \<not> evict)
         then (case op_RemoveOldest ops (recent c) of
                 (r, Some (k, _), _) \<Rightarrow>
                   c\<lparr>recent := r, recentEvict := fst (op_Add gops k () (recentEvict c))\<rparr>
               | (r, None, _) \<Rightarrow> c\<lparr>recent := r\<rparr>)
         else c\<lparr>frequent := fst (op_RemoveOldest ops (frequent c))\<rparr>)"

definition TwoQueue_Add ::
  "('k, 'v, 's) lru_ops \<Rightarrow> ('k, unit, 'g) lru_ops \<Rightarrow> 'k \<Rightarrow> 'v \<Rightarrow> ('s, 'g) two_queue_cache \<Rightarrow> ('s, 'g) two_queue_cache" where
  "TwoQueue_Add ops gops key val c =
     (if op_Contains ops key (frequent c)
      then c\<lparr>frequent := fst (op_Add ops key val (frequent c))\<rparr>
      else if op_Contains ops key (recent c)
      then c\<lparr>recent := fst (op_Remove ops key (recent c)),
             frequent := fst (op_Add ops key val (frequent c))\<rparr>
      else if op_Contains gops key (recentEvict c)
      then let c = ensureSpace ops gops True c
        in c\<lparr>recentEvict := fst (op_Remove gops key (recentEvict c)),
             frequent := fst (op_Add ops key val (frequent c))\<rparr>
      else let c = ensureSpace ops gops False c
        in c\<lparr>recent := fst (op_Add ops key val (recent c))\<rparr>)"

definition TwoQueue_Len :: "('k, 'v, 's) lru_ops \<Rightarrow> ('s, 'g) two_queue_cache \<Rightarrow> int" where
  "TwoQueue_Len ops c = op_Len ops (recent c) + op_Len ops (frequent c)"

definition TwoQueue_Resize ::
  "('k, 'v, 's) lru_ops \<Rightarrow> ('k, unit, 'g) lru_ops \<Rightarrow> int \<Rightarrow> ('s, 'g) two_queue_cache \<Rightarrow> ('s, 'g) two_queue_cache \<times> int" where
  "TwoQueue_Resize ops gops n c =
     (let rSize = float_scale n (recentRatio c);
          evictSize = float_scale n (ghostRatio c);
          c = c\<lparr>cache_size := n, recentSize := rSize\<rparr>;
          diff = op_Len ops (recent c) + op_Len ops (frequent c) - n;
          diff = (if diff < 0 then 0 else diff);
          c = (ensureSpace ops gops True ^^ nat diff) c
      in (c\<lparr>recent := fst (op_Resize ops n (recent c)),
            frequent := fst (op_Resize ops n (frequent c)),
            recentEvict := fst (op_Resize gops evictSize (recentEvict c))\<rparr>, diff))"

definition TwoQueue_Keys :: "('k, 'v, 's) lru_ops \<Rightarrow> ('s, 'g) two_queue_cache \<Rightarrow> 'k list" where
  "TwoQueue_Keys ops c = op_Keys ops (frequent c) @ op_Keys ops (recent c)"

definition TwoQueue_Values :: "('k, 'v, 's) lru_ops \<Rightarrow> ('s, 'g) two_queue_cache \<Rightarrow> 'v list" where
  "TwoQueue_Values ops c = op_Values ops (frequent c) @ op_Values ops (recent c)"

definition TwoQueue_Remove ::
  "('k, 'v, 's) lru_ops \<Rightarrow> ('k, unit, 'g) lru_ops \<Rightarrow> 'k \<Rightarrow> ('s, 'g) two_queue_cache \<Rightarrow> ('s, 'g) two_queue_cache" where
  "TwoQueue_Remove ops gops key c =
     (case op_Remove ops key (frequent c) of
        (f, True, _) \<Rightarrow> c\<lparr>frequent := f\<rparr>
      | (f, False, _) \<Rightarrow>
          (case op_Remove ops key (recent c) of
             (r, True, _) \<Rightarrow> c\<lparr>frequent := f, recent := r\<rparr>
           | (r, False, _) \<Rightarrow>
               c\<lparr>frequent := f, recent := r, recentEvict := fst (op_Remove gops key (recentEvict c))\<rparr>))"

definition TwoQueue_Purge ::
  "('k, 'v, 's) lru_ops \<Rightarrow> ('k, unit, 'g) lru_ops \<Rightarrow> ('s, 'g) two_queue_cache \<Rightarrow> ('s, 'g) two_queue_cache" where
  "TwoQueue_Purge ops gops c =
     c\<lparr>recent := fst (op_Purge ops (recent c)), frequent := fst (op_Purge ops (frequent c)),
       recentEvict := fst (op_Purge gops (recentEvict c))\<rparr>"

definition TwoQueue_Contains :: "('k, 'v, 's) lru_ops \<Rightarrow> 'k \<Rightarrow> ('s, 'g) two_queue_cache \<Rightarrow> bool" where
  "TwoQueue_Contains ops key c \<longleftrightarrow> op_Contains ops key (frequent c) \<or> op_Contains ops key (recent c)"

definition TwoQueue_Peek :: "('k, 'v, 's) lru_ops \<Rightarrow> 'k \<Rightarrow> ('s, 'g) two_queue_cache \<Rightarrow> 'v option" where
  "TwoQueue_Peek ops key c =
     (case op_Peek ops key (frequent c) of
        Some val \<Rightarrow> Some val
      | None \<Rightarrow> op_Peek ops key (recent c))"

section \<open>Abstraction and invariant\<close>

definition lookup :: "('s \<Rightarrow> ('k \<times> 'v) list) \<Rightarrow> ('s, 'g) two_queue_cache \<Rightarrow> 'k \<rightharpoonup> 'v" where
  "lookup entries c = map_of (entries (recent c)) ++ map_of (entries (frequent c))"

definition total_len :: "('s \<Rightarrow> ('k \<times> 'v) list) \<Rightarrow> ('s, 'g) two_queue_cache \<Rightarrow> int" where
  "total_len entries c = int (length (entries (recent c))) + int (length (entries (frequent c)))"

definition well_sized :: "('s, 'g) two_queue_cache \<Rightarrow> bool" where
  "well_sized c \<longleftrightarrow> 0 \<le> recentRatio c \<and> recentRatio c \<le> 1 \<and> 0 \<le> ghostRatio c \<and> ghostRatio c \<le> 1 \<and>
     0 \<le> recentSize c \<and> recentSize c \<le> cache_size c"

definition separate ::
  "('s \<Rightarrow> ('k \<times> 'v) list) \<Rightarrow> ('g \<Rightarrow> ('k \<times> unit) list) \<Rightarrow> ('s, 'g) two_queue_cache \<Rightarrow> bool" where
  "separate entries gentries c \<longleftrightarrow>
     keys_of (entries (recent c)) \<inter> keys_of (entries (frequent c)) = {} \<and>
     (keys_of (entries (recent c)) \<union> keys_of (entries (frequent c))) \<inter> keys_of (gentries (recentEvict c)) = {}"

definition bounded :: "('s \<Rightarrow> ('k \<times> 'v) list) \<Rightarrow> ('s, 'g) two_queue_cache \<Rightarrow> bool" where
  "bounded entries c \<longleftrightarrow>
     total_len entries c \<le> cache_size c + (if recentSize c < cache_size c then 0 else 1)"

section \<open>The scaled sizes\<close>

lemma round_even_of_int [simp]: "round_even (of_int n) = n"
  by (simp add: round_even_def Let_def)

lemma round_even_bounds: "\<lfloor>x\<rfloor> \<le> round_even x" "round_even x \<le> \<lceil>x\<rceil>"
  unfolding round_even_def Let_def by (simp_all add: ceiling_altdef)

lemma trunc_float_bounds:
  assumes "0 \<le> x"
  shows "0 \<le> trunc_float x" and "x \<le> of_int n \<Longrightarrow> trunc_float x \<le> n"
proof -
  define s where "s = 53 - bit_length (nat \<lfloor>x\<rfloor>)"
  have t: "trunc_float x = round_even (x * 2 ^ s) div 2 ^ s"
    by (simp add: trunc_float_def s_def Let_def)
  have "0 \<le> \<lfloor>x * 2 ^ s\<rfloor>" using assms by simp
  then have "0 \<le> round_even (x * 2 ^ s)" using round_even_bounds(1) [of "x * 2 ^ s"] by linarith
  then show "0 \<le> trunc_float x" by (simp add: t pos_imp_zdiv_nonneg_iff)
  assume "x \<le> of_int n"
  then have "x * 2 ^ s \<le> of_int (n * 2 ^ s)" by (simp add: mult_right_mono)
  then have "\<lceil>x * 2 ^ s\<rceil> \<le> n * 2 ^ s" by (simp only: ceiling_le_iff)
  then have "round_even (x * 2 ^ s) \<le> n * 2 ^ s" using round_even_bounds(2) order_trans by blast
  then have "round_even (x * 2 ^ s) div 2 ^ s \<le> n * 2 ^ s div 2 ^ s" by (rule zdiv_mono1) simp
  then show "trunc_float x \<le> n" by (simp add: t)
qed

lemma float_scale_bounds:
  assumes "0 \<le> n" and "0 \<le> r" and "r \<le> 1"
  shows "0 \<le> float_scale n r" and "float_scale n r \<le> n"
proof -
  have "0 \<le> of_int n * r" and "of_int n * r \<le> of_int n"
    using assms by (simp_all add: mult_left_le)
  then show "0 \<le> float_scale n r" and "float_scale n r \<le> n"
    using assms(1) by (simp_all add: float_scale_def trunc_float_bounds)
qed

section \<open>Lists of entries\<close>

lemma map_of_tl_le: "distinct (map fst es) \<Longrightarrow> map_of (tl es) \<subseteq>\<^sub>m map_of es"
  by (cases es) (force simp: map_le_def dom_map_of_conv_image_fst)+

lemma keys_of_tl: "keys_of (tl es) \<subseteq> keys_of es"
  by (cases es) auto

lemma hd_notin_keys_tl: "distinct (map fst es) \<Longrightarrow> es \<noteq> [] \<Longrightarrow> fst (hd es) \<notin> keys_of (tl es)"
  by (cases es) (auto simp: keys_of_def)

lemma add_spec_keys: "keys_of (fst (add_spec n es k v)) \<subseteq> insert k (keys_of es)"
  using keys_of_tl [of "es @ [(k, v)]"] by (auto simp: add_spec_def)

lemma add_spec_length:
  assumes "distinct (map fst es)" and "int (length es) \<le> n"
  shows "int (length (fst (add_spec n es k v))) =
           (if k \<in> keys_of es \<or> int (length es) = n then int (length es) else int (length es) + 1)"
  using assms length_remove_key [OF assms(1), of k] by (auto simp: add_spec_def)

lemma map_of_append_new:
  "k \<notin> keys_of es \<Longrightarrow> map_of (es @ [(k, v)]) = (map_of es)(k \<mapsto> v)"
  by (rule ext) (auto simp: map_add_def split: option.split dest: map_of_Some_key)

lemma map_of_move_last: "map_of (remove_key k es @ [(k, v)]) = (map_of es)(k \<mapsto> v)"
  using map_of_append_new [of k "remove_key k es" v] by simp

lemma add_spec_lookup:
  assumes "distinct (map fst es)" and "int (length es) \<le> n"
  shows "0 < n \<Longrightarrow> map_of (fst (add_spec n es k v)) k = Some v"
    and "map_of (fst (add_spec n es k v)) \<subseteq>\<^sub>m (map_of es)(k \<mapsto> v)"
proof -
  let ?es = "es @ [(k, v)]"
  have new: "map_of ?es = (map_of es)(k \<mapsto> v)" and d: "distinct (map fst ?es)" if "k \<notin> keys_of es"
    using that assms(1) map_of_append_new distinct_append_new by (fast, fast)
  show "map_of (fst (add_spec n es k v)) k = Some v" if pos: "0 < n"
  proof -
    have full: "es \<noteq> []" if "n < int (length es) + 1" using that pos by auto
    have "map_of (tl ?es) k = Some v" if "k \<notin> keys_of es" "es \<noteq> []"
    proof -
      have "k \<notin> keys_of (tl es)" using that(1) keys_of_tl [of es] by blast
      then show ?thesis using that(2) map_of_append_new [of k "tl es" v] by simp
    qed
    then show ?thesis
      using full new map_of_move_last [of k es v] by (auto simp: add_spec_def simp del: map_of_append)
  qed
  show "map_of (fst (add_spec n es k v)) \<subseteq>\<^sub>m (map_of es)(k \<mapsto> v)"
    using new map_of_tl_le [OF d] map_of_move_last [of k es v]
    by (auto simp: add_spec_def simp del: map_of_append)
qed

section \<open>The methods under the invariant\<close>

text \<open>
  The part of the invariant that also holds in the middle of \<^verbatim>\<open>Resize\<close>, when the size is already the
  new one, and the whole of it, which holds between calls.
\<close>

definition two_queue_core ::
  "('s \<Rightarrow> ('k \<times> 'v) list) \<Rightarrow> ('s \<Rightarrow> bool) \<Rightarrow> ('g \<Rightarrow> ('k \<times> unit) list) \<Rightarrow> ('g \<Rightarrow> bool) \<Rightarrow>
   ('s, 'g) two_queue_cache \<Rightarrow> bool" where
  "two_queue_core entries ok gentries gok c \<longleftrightarrow>
     ok (recent c) \<and> ok (frequent c) \<and> gok (recentEvict c) \<and> well_sized c \<and> separate entries gentries c"

definition two_queue_inv ::
  "('s \<Rightarrow> ('k \<times> 'v) list) \<Rightarrow> ('s \<Rightarrow> int) \<Rightarrow> ('s \<Rightarrow> bool) \<Rightarrow> ('g \<Rightarrow> ('k \<times> unit) list) \<Rightarrow> ('g \<Rightarrow> bool) \<Rightarrow>
   ('s, 'g) two_queue_cache \<Rightarrow> bool" where
  "two_queue_inv entries cap ok gentries gok c \<longleftrightarrow>
     two_queue_core entries ok gentries gok c \<and>
     cap (recent c) = cache_size c \<and> cap (frequent c) = cache_size c \<and> bounded entries c"

locale two_queue =
  r: simplelru ops entries cap ok + g: simplelru gops gentries gcap gok
  for ops :: "('k, 'v, 's) lru_ops" and entries cap ok
    and gops :: "('k, unit, 'g) lru_ops" and gentries gcap gok
begin

lemma removed_oldest:
  assumes "ok s"
  shows "entries (fst (op_RemoveOldest ops s)) = tl (entries s)"
    and "fst (snd (op_RemoveOldest ops s)) = (case entries s of [] \<Rightarrow> None | e # _ \<Rightarrow> Some e)"
  using assms by (simp_all add: remove_oldest_spec_def split: list.split)

lemma inv_parts:
  assumes "two_queue_inv entries cap ok gentries gok c"
  shows "ok (recent c)" and "ok (frequent c)" and "gok (recentEvict c)"
    and "cap (recent c) = cache_size c" and "cap (frequent c) = cache_size c"
    and "well_sized c" and "separate entries gentries c" and "bounded entries c"
  using assms by (auto simp: two_queue_inv_def two_queue_core_def)

lemma inv_core: "two_queue_inv entries cap ok gentries gok c \<Longrightarrow> two_queue_core entries ok gentries gok c"
  by (simp add: two_queue_inv_def)

text \<open>The three outcomes of \<^verbatim>\<open>ensureSpace\<close>.\<close>

lemma ensureSpace_cases:
  assumes core: "two_queue_core entries ok gentries gok c"
  obtains
    (room) "ensureSpace ops gops e c = c" and "total_len entries c < cache_size c"
  | (from_recent) r' k v where
      "ensureSpace ops gops e c = c\<lparr>recent := r', recentEvict := fst (op_Add gops k () (recentEvict c))\<rparr>"
      and "ok r'" and "cap r' = cap (recent c)" and "entries (recent c) = (k, v) # entries r'"
      and "cache_size c \<le> total_len entries c"
      and "recentSize c < int (length (entries (recent c))) \<or> int (length (entries (recent c))) = recentSize c \<and> \<not> e"
  | (from_frequent) f' where
      "ensureSpace ops gops e c = c\<lparr>frequent := f'\<rparr>" and "ok f'" and "cap f' = cap (frequent c)"
      and "entries f' = tl (entries (frequent c))" and "cache_size c \<le> total_len entries c"
      and "int (length (entries (recent c))) \<le> recentSize c"
      and "e \<or> entries (recent c) = [] \<or> int (length (entries (recent c))) < recentSize c"
proof -
  have ok: "ok (recent c)" "ok (frequent c)" and "well_sized c"
    using core by (auto simp: two_queue_core_def)
  then have rs: "0 \<le> recentSize c" by (simp add: well_sized_def)
  let ?R = "entries (recent c)"
  consider (A) "total_len entries c < cache_size c"
    | (B) "cache_size c \<le> total_len entries c" "?R \<noteq> []"
        "recentSize c < int (length ?R) \<or> int (length ?R) = recentSize c \<and> \<not> e"
    | (C) "cache_size c \<le> total_len entries c" "int (length ?R) \<le> recentSize c"
        "e \<or> ?R = [] \<or> int (length ?R) < recentSize c"
    using rs by (cases "?R = []") force+
  then show thesis
  proof cases
    case A
    then show thesis using ok by (intro room) (auto simp: ensureSpace_def total_len_def Let_def)
  next
    case B
    obtain r' e' o' where ro: "op_RemoveOldest ops (recent c) = (r', e', o')" by (metis prod_cases3)
    obtain k v es where R: "?R = (k, v) # es" using B(2) by (cases ?R) auto
    have "e' = Some (k, v)" "entries r' = es" "ok r'" "cap r' = cap (recent c)"
      using removed_oldest [OF ok(1)] r.remove_oldest_rules(1,2) [OF ok(1)] R ro by simp_all
    then show thesis using B ok ro R
      by (intro from_recent [where r' = r' and k = k and v = v]) (auto simp: ensureSpace_def total_len_def Let_def)
  next
    case C
    have "ensureSpace ops gops e c = c\<lparr>frequent := fst (op_RemoveOldest ops (frequent c))\<rparr>"
      using C ok by (auto simp: ensureSpace_def total_len_def Let_def)
    then show thesis using C ok removed_oldest(1) [OF ok(2)] by (intro from_frequent [where f' = "fst (op_RemoveOldest ops (frequent c))"]) simp_all
  qed
qed

lemma ghost_add_keys:
  "gok s \<Longrightarrow> keys_of (gentries (fst (op_Add gops k () s))) \<subseteq> insert k (keys_of (gentries s))"
  using add_spec_keys [of "gcap s" "gentries s" k "()"] by simp

text \<open>\<^verbatim>\<open>ensureSpace\<close> keeps the invariant, drops at most one entry, and makes room.\<close>

lemma ensureSpace_core:
  assumes core: "two_queue_core entries ok gentries gok c"
  shows "two_queue_core entries ok gentries gok (ensureSpace ops gops e c)"
  using core
proof (cases rule: ensureSpace_cases [where e = e, consumes 1])
  case (from_recent r' k v)
  have ok: "ok (recent c)" "gok (recentEvict c)" using core by (auto simp: two_queue_core_def)
  have "fst (hd (entries (recent c))) \<notin> keys_of (tl (entries (recent c)))"
    using hd_notin_keys_tl [OF r.distinct_entries [OF ok(1)]] from_recent by simp
  then show ?thesis
    using from_recent core ghost_add_keys [OF ok(2), of k]
    by (auto simp: two_queue_core_def separate_def well_sized_def)
next
  case (from_frequent f')
  then show ?thesis
    using core keys_of_tl [of "entries (frequent c)"]
    by (auto simp: two_queue_core_def separate_def well_sized_def)
qed (simp add: core)

lemma ensureSpace_inv:
  assumes inv: "two_queue_inv entries cap ok gentries gok c"
  shows "two_queue_inv entries cap ok gentries gok (ensureSpace ops gops e c)"
proof -
  have "cap (recent (ensureSpace ops gops e c)) = cache_size (ensureSpace ops gops e c) \<and>
      cap (frequent (ensureSpace ops gops e c)) = cache_size (ensureSpace ops gops e c) \<and>
      bounded entries (ensureSpace ops gops e c)"
  using inv_core [OF inv]
  proof (cases rule: ensureSpace_cases [where e = e, consumes 1])
    case (from_recent r' k v)
    then show ?thesis using inv by (auto simp: two_queue_inv_def bounded_def total_len_def)
  next
    case (from_frequent f')
    then show ?thesis using inv by (auto simp: two_queue_inv_def bounded_def total_len_def)
  qed (use inv in \<open>simp add: two_queue_inv_def\<close>)
  then show ?thesis
    using ensureSpace_core [OF inv_core [OF inv], of e] by (simp add: two_queue_inv_def)
qed

lemma ensureSpace_total:
  assumes inv: "two_queue_inv entries cap ok gentries gok c"
  shows "total_len entries (ensureSpace ops gops e c) < cache_size c \<or>
    total_len entries (ensureSpace ops gops e c) = cache_size c \<and> recentSize c = cache_size c"
  using inv_core [OF inv]
proof (cases rule: ensureSpace_cases [where e = e, consumes 1])
  case from_recent
  then show ?thesis
    using inv_parts(6,8) [OF inv] by (auto simp: bounded_def total_len_def well_sized_def split: if_splits)
next
  case (from_frequent f')
  then show ?thesis
    using inv_parts(6,8) [OF inv]
    by (cases "entries (frequent c)") (auto simp: bounded_def total_len_def well_sized_def split: if_splits)
qed simp

lemma lookup_iff:
  assumes "separate entries gentries c"
  shows "lookup entries c k = Some v \<longleftrightarrow>
    map_of (entries (recent c)) k = Some v \<or> map_of (entries (frequent c)) k = Some v"
proof -
  have "\<not> (map_of (entries (recent c)) k = Some v \<and> map_of (entries (frequent c)) k = Some w)" for w
    using assms map_of_Some_key [of "entries (recent c)" k] map_of_Some_key [of "entries (frequent c)" k]
    by (auto simp: separate_def)
  then show ?thesis
    by (cases "map_of (entries (frequent c)) k") (auto simp: lookup_def map_add_Some_iff)
qed

lemma ensureSpace_fields:
  "cache_size (ensureSpace ops gops e c) = cache_size c"
  "recentSize (ensureSpace ops gops e c) = recentSize c"
  "recentRatio (ensureSpace ops gops e c) = recentRatio c"
  "ghostRatio (ensureSpace ops gops e c) = ghostRatio c"
  by (simp_all add: ensureSpace_def Let_def split: prod.split option.split)

lemma ensureSpace_shrinks:
  assumes core: "two_queue_core entries ok gentries gok c"
  shows "map_of (entries (recent (ensureSpace ops gops e c))) \<subseteq>\<^sub>m map_of (entries (recent c))"
    and "map_of (entries (frequent (ensureSpace ops gops e c))) \<subseteq>\<^sub>m map_of (entries (frequent c))"
    and "keys_of (gentries (recentEvict (ensureSpace ops gops e c))) \<subseteq>
      keys_of (gentries (recentEvict c)) \<union> keys_of (entries (recent c))"
proof -
  have d: "distinct (map fst (entries (recent c)))" "distinct (map fst (entries (frequent c)))"
    using core r.distinct_entries by (auto simp: two_queue_core_def)
  note tl_le = map_of_tl_le [OF d(1)] map_of_tl_le [OF d(2)]
  have "map_of (entries (recent (ensureSpace ops gops e c))) \<subseteq>\<^sub>m map_of (entries (recent c)) \<and>
      map_of (entries (frequent (ensureSpace ops gops e c))) \<subseteq>\<^sub>m map_of (entries (frequent c)) \<and>
      keys_of (gentries (recentEvict (ensureSpace ops gops e c))) \<subseteq>
        keys_of (gentries (recentEvict c)) \<union> keys_of (entries (recent c))"
    using core
  proof (cases rule: ensureSpace_cases [where e = e, consumes 1])
    case (from_recent r' k v)
    then show ?thesis
      using tl_le ghost_add_keys [of "recentEvict c" k] core by (auto simp: two_queue_core_def)
  next
    case (from_frequent f')
    then show ?thesis using tl_le by auto
  qed auto
  then show "map_of (entries (recent (ensureSpace ops gops e c))) \<subseteq>\<^sub>m map_of (entries (recent c))"
    and "map_of (entries (frequent (ensureSpace ops gops e c))) \<subseteq>\<^sub>m map_of (entries (frequent c))"
    and "keys_of (gentries (recentEvict (ensureSpace ops gops e c))) \<subseteq>
      keys_of (gentries (recentEvict c)) \<union> keys_of (entries (recent c))"
    by blast+
qed

text \<open>The list an entry is then added to has room for it.\<close>

lemma ensureSpace_room:
  assumes inv: "two_queue_inv entries cap ok gentries gok c" and "0 < cache_size c"
  shows "int (length (entries (frequent (ensureSpace ops gops True c)))) < cache_size c"
    and "int (length (entries (recent (ensureSpace ops gops False c)))) < cache_size c"
proof -
  have caps: "int (length (entries (recent c))) \<le> cache_size c" "int (length (entries (frequent c))) \<le> cache_size c"
    using inv_parts [OF inv] r.length_entries by metis+
  have rs: "recentSize c \<le> cache_size c" using inv_parts(6) [OF inv] by (simp add: well_sized_def)
  show "int (length (entries (frequent (ensureSpace ops gops True c)))) < cache_size c"
    using inv_core [OF inv]
  proof (cases rule: ensureSpace_cases [where e = True, consumes 1])
    case (from_recent r' k v)
    then show ?thesis
      using inv_parts(8) [OF inv] rs caps by (auto simp: bounded_def total_len_def split: if_splits)
  next
    case (from_frequent f')
    then show ?thesis using caps assms(2) by (cases "entries (frequent c)") auto
  qed (simp add: total_len_def)
  show "int (length (entries (recent (ensureSpace ops gops False c)))) < cache_size c"
    using inv_core [OF inv]
  proof (cases rule: ensureSpace_cases [where e = False, consumes 1])
    case (from_frequent f')
    then show ?thesis using rs assms(2) by auto
  qed (use caps in \<open>auto simp: total_len_def\<close>)
qed

text \<open>Building blocks of the methods: adding to and removing from one of the lists.\<close>

lemma add_keys: "ok s \<Longrightarrow> keys_of (entries (fst (op_Add ops k v s))) \<subseteq> insert k (keys_of (entries s))"
  using add_spec_keys [of "cap s" "entries s" k v] by simp

lemma add_length:
  assumes "ok s"
  shows "int (length (entries (fst (op_Add ops k v s)))) \<le> int (length (entries s)) + 1"
    and "k \<in> keys_of (entries s) \<Longrightarrow> length (entries (fst (op_Add ops k v s))) = length (entries s)"
  using add_spec_length [of "entries s" "cap s" k v] r.distinct_entries [OF assms] r.length_entries [OF assms]
    assms by auto

lemma inv_add_frequent:
  assumes inv: "two_queue_inv entries cap ok gentries gok c"
    and "k \<notin> keys_of (entries (recent c))" and "k \<notin> keys_of (gentries (recentEvict c))"
    and "k \<in> keys_of (entries (frequent c)) \<or>
      total_len entries c < cache_size c + (if recentSize c < cache_size c then 0 else 1)"
  shows "two_queue_inv entries cap ok gentries gok (c\<lparr>frequent := fst (op_Add ops k v (frequent c))\<rparr>)"
  using inv assms(2-4) add_keys [OF inv_parts(2) [OF inv], of k v] add_length [OF inv_parts(2) [OF inv], of k v]
  by (auto simp: two_queue_inv_def two_queue_core_def separate_def bounded_def total_len_def well_sized_def)

lemma inv_add_recent:
  assumes inv: "two_queue_inv entries cap ok gentries gok c"
    and "k \<notin> keys_of (entries (frequent c))" and "k \<notin> keys_of (gentries (recentEvict c))"
    and "total_len entries c < cache_size c + (if recentSize c < cache_size c then 0 else 1)"
  shows "two_queue_inv entries cap ok gentries gok (c\<lparr>recent := fst (op_Add ops k v (recent c))\<rparr>)"
  using inv assms(2-4) add_keys [OF inv_parts(1) [OF inv], of k v] add_length(1) [OF inv_parts(1) [OF inv], of k v]
  by (auto simp: two_queue_inv_def two_queue_core_def separate_def bounded_def total_len_def well_sized_def)

lemma removed_key: "ok s \<Longrightarrow> entries (fst (op_Remove ops k s)) = remove_key k (entries s)"
  by (auto simp: remove_spec_def split: option.split)
    (simp add: map_of_eq_None_keys)

lemma ghost_removed_key: "gok s \<Longrightarrow> gentries (fst (op_Remove gops k s)) = remove_key k (gentries s)"
  by (auto simp: remove_spec_def split: option.split)
    (simp add: map_of_eq_None_keys)

lemma inv_remove_recent:
  assumes inv: "two_queue_inv entries cap ok gentries gok c"
  shows "two_queue_inv entries cap ok gentries gok (c\<lparr>recent := fst (op_Remove ops k (recent c))\<rparr>)"
  using inv removed_key [OF inv_parts(1) [OF inv], of k] length_remove_key_le [of k "entries (recent c)"]
  by (auto simp: two_queue_inv_def two_queue_core_def separate_def bounded_def total_len_def well_sized_def)

lemma inv_remove_frequent:
  assumes inv: "two_queue_inv entries cap ok gentries gok c"
  shows "two_queue_inv entries cap ok gentries gok (c\<lparr>frequent := fst (op_Remove ops k (frequent c))\<rparr>)"
  using inv removed_key [OF inv_parts(2) [OF inv], of k] length_remove_key_le [of k "entries (frequent c)"]
  by (auto simp: two_queue_inv_def two_queue_core_def separate_def bounded_def total_len_def well_sized_def)

lemma inv_remove_ghost:
  assumes inv: "two_queue_inv entries cap ok gentries gok c"
  shows "two_queue_inv entries cap ok gentries gok (c\<lparr>recentEvict := fst (op_Remove gops k (recentEvict c))\<rparr>)"
  using inv ghost_removed_key [OF inv_parts(3) [OF inv], of k]
  by (auto simp: two_queue_inv_def two_queue_core_def separate_def bounded_def total_len_def well_sized_def)

lemma total_remove_recent:
  assumes "ok (recent c)" and "k \<in> keys_of (entries (recent c))"
  shows "total_len entries (c\<lparr>recent := fst (op_Remove ops k (recent c))\<rparr>) = total_len entries c - 1"
  using assms length_remove_key [OF r.distinct_entries [OF assms(1)], of k] removed_key [OF assms(1), of k]
  by (simp add: total_len_def)

lemma ensured_room:
  assumes inv: "two_queue_inv entries cap ok gentries gok c" and c': "c' = ensureSpace ops gops e c"
  shows "total_len entries c' < cache_size c' + (if recentSize c' < cache_size c' then 0 else 1)"
  using ensureSpace_total [OF inv, of e] inv_parts(6) [OF inv]
  by (auto simp: c' ensureSpace_fields well_sized_def)

lemma ensured_keys:
  assumes inv: "two_queue_inv entries cap ok gentries gok c" and c': "c' = ensureSpace ops gops e c"
  shows "keys_of (entries (recent c')) \<subseteq> keys_of (entries (recent c))"
    and "keys_of (entries (frequent c')) \<subseteq> keys_of (entries (frequent c))"
  using ensureSpace_shrinks(1,2) [OF inv_core [OF inv], of e] unfolding c'
  by (metis dom_map_of_keys map_le_implies_dom_le)+

text \<open>The promotion of an entry from the recent to the frequent list.\<close>

lemma promote_inv:
  assumes inv: "two_queue_inv entries cap ok gentries gok c" and k: "k \<in> keys_of (entries (recent c))"
    and c1: "c1 = c\<lparr>recent := fst (op_Remove ops k (recent c))\<rparr>"
  shows "two_queue_inv entries cap ok gentries gok (c1\<lparr>frequent := fst (op_Add ops k v (frequent c1))\<rparr>)"
proof (rule inv_add_frequent)
  show "two_queue_inv entries cap ok gentries gok c1" using inv_remove_recent [OF inv] c1 by simp
  show "k \<notin> keys_of (entries (recent c1))" using removed_key [OF inv_parts(1) [OF inv], of k] c1 by simp
  show "k \<notin> keys_of (gentries (recentEvict c1))" using inv_parts(7) [OF inv] k c1 by (auto simp: separate_def)
  have "total_len entries c1 < cache_size c1 + (if recentSize c1 < cache_size c1 then 0 else 1)"
    using inv_parts(8) [OF inv] total_remove_recent [OF inv_parts(1) [OF inv] k] c1
    by (simp add: bounded_def)
  then show "k \<in> keys_of (entries (frequent c1)) \<or>
      total_len entries c1 < cache_size c1 + (if recentSize c1 < cache_size c1 then 0 else 1)" ..
qed

text \<open>\<^verbatim>\<open>Add\<close>, by the four branches of its body.\<close>

lemma TwoQueue_Add_cases:
  assumes inv: "two_queue_inv entries cap ok gentries gok c"
  obtains
    (in_frequent) "k \<in> keys_of (entries (frequent c))"
      and "TwoQueue_Add ops gops k v c = c\<lparr>frequent := fst (op_Add ops k v (frequent c))\<rparr>"
  | (in_recent) c1 where "k \<notin> keys_of (entries (frequent c))" and "k \<in> keys_of (entries (recent c))"
      and "c1 = c\<lparr>recent := fst (op_Remove ops k (recent c))\<rparr>"
      and "TwoQueue_Add ops gops k v c = c1\<lparr>frequent := fst (op_Add ops k v (frequent c1))\<rparr>"
  | (in_ghosts) c1 c2 where "k \<notin> keys_of (entries (frequent c))" and "k \<notin> keys_of (entries (recent c))"
      and "c1 = ensureSpace ops gops True c"
      and "c2 = c1\<lparr>recentEvict := fst (op_Remove gops k (recentEvict c1))\<rparr>"
      and "TwoQueue_Add ops gops k v c = c2\<lparr>frequent := fst (op_Add ops k v (frequent c2))\<rparr>"
  | (new) c1 where "k \<notin> keys_of (entries (frequent c))" and "k \<notin> keys_of (entries (recent c))"
      and "k \<notin> keys_of (gentries (recentEvict c))"
      and "c1 = ensureSpace ops gops False c"
      and "TwoQueue_Add ops gops k v c = c1\<lparr>recent := fst (op_Add ops k v (recent c1))\<rparr>"
proof -
  note laws = r.contains_law [OF inv_parts(2) [OF inv], of k] r.contains_law [OF inv_parts(1) [OF inv], of k]
    g.contains_law [OF inv_parts(3) [OF inv], of k]
  consider "k \<in> keys_of (entries (frequent c))"
    | "k \<notin> keys_of (entries (frequent c))" "k \<in> keys_of (entries (recent c))"
    | "k \<notin> keys_of (entries (frequent c))" "k \<notin> keys_of (entries (recent c))" "k \<in> keys_of (gentries (recentEvict c))"
    | "k \<notin> keys_of (entries (frequent c))" "k \<notin> keys_of (entries (recent c))" "k \<notin> keys_of (gentries (recentEvict c))"
    by blast
  then show thesis
  proof cases
    case 1
    then show thesis using laws by (intro in_frequent) (simp_all add: TwoQueue_Add_def)
  next
    case 2
    then show thesis using laws by (intro in_recent [OF _ _ refl]) (simp_all add: TwoQueue_Add_def)
  next
    case 3
    then show thesis using laws by (intro in_ghosts [OF _ _ refl refl]) (simp_all add: TwoQueue_Add_def Let_def)
  next
    case 4
    then show thesis using laws by (intro new [OF _ _ _ refl]) (simp_all add: TwoQueue_Add_def Let_def)
  qed
qed

lemma TwoQueue_Add_inv:
  assumes inv: "two_queue_inv entries cap ok gentries gok c"
  shows "two_queue_inv entries cap ok gentries gok (TwoQueue_Add ops gops k v c)"
  using inv
proof (cases rule: TwoQueue_Add_cases [where k = k and v = v, consumes 1])
  case in_frequent
  then show ?thesis
    using inv_add_frequent [OF inv] inv_parts(7) [OF inv] by (auto simp: separate_def)
next
  case (in_recent c1)
  then show ?thesis using promote_inv [OF inv in_recent(2,3)] by simp
next
  case (in_ghosts c1 c2)
  have c1: "two_queue_inv entries cap ok gentries gok c1" using ensureSpace_inv [OF inv] in_ghosts(3) by simp
  then have c2: "two_queue_inv entries cap ok gentries gok c2" using inv_remove_ghost in_ghosts(4) by simp
  have "k \<notin> keys_of (entries (recent c2))"
    using ensured_keys(1) [OF inv in_ghosts(3)] in_ghosts(2,4) by auto
  moreover have "k \<notin> keys_of (gentries (recentEvict c2))"
    using ghost_removed_key [OF inv_parts(3) [OF c1]] in_ghosts(4) by simp
  moreover have "total_len entries c2 < cache_size c2 + (if recentSize c2 < cache_size c2 then 0 else 1)"
    using ensured_room [OF inv in_ghosts(3)] in_ghosts(4) by (simp add: total_len_def)
  ultimately show ?thesis using inv_add_frequent [OF c2] in_ghosts(5) by simp
next
  case (new c1)
  have c1: "two_queue_inv entries cap ok gentries gok c1" using ensureSpace_inv [OF inv] new(4) by simp
  have "k \<notin> keys_of (entries (frequent c1))" "k \<notin> keys_of (gentries (recentEvict c1))"
    using ensured_keys(2) [OF inv new(4)] ensureSpace_shrinks(3) [OF inv_core [OF inv], of False] new by auto
  then show ?thesis
    using inv_add_recent [OF c1] ensured_room [OF inv new(4)] new(5) by simp
qed

lemma add_map:
  assumes "ok s"
  shows "0 < cap s \<Longrightarrow> map_of (entries (fst (op_Add ops k v s))) k = Some v"
    and "map_of (entries (fst (op_Add ops k v s))) \<subseteq>\<^sub>m (map_of (entries s))(k \<mapsto> v)"
  using add_spec_lookup [of "entries s" "cap s" k v] r.distinct_entries [OF assms]
    r.length_entries [OF assms] assms by auto

lemma lookup_le:
  assumes "separate entries gentries c" and "separate entries gentries c'"
    and "map_of (entries (recent c')) \<subseteq>\<^sub>m (map_of (entries (recent c)))(k \<mapsto> v)"
    and "map_of (entries (frequent c')) \<subseteq>\<^sub>m (map_of (entries (frequent c)))(k \<mapsto> v)"
  shows "lookup entries c' \<subseteq>\<^sub>m (lookup entries c)(k \<mapsto> v)"
proof (rule map_leI)
  fix k' w assume "lookup entries c' k' = Some w"
  then have "map_of (entries (recent c')) k' = Some w \<or> map_of (entries (frequent c')) k' = Some w"
    by (simp add: lookup_iff [OF assms(2)])
  then have "((map_of (entries (recent c)))(k \<mapsto> v)) k' = Some w \<or> ((map_of (entries (frequent c)))(k \<mapsto> v)) k' = Some w"
    using map_leD [OF assms(3)] map_leD [OF assms(4)] by blast
  then show "((lookup entries c)(k \<mapsto> v)) k' = Some w"
    by (auto simp: lookup_iff [OF assms(1)] split: if_splits)
qed

lemma fresh_le: "k \<notin> keys_of es \<Longrightarrow> m \<subseteq>\<^sub>m map_of es \<Longrightarrow> m \<subseteq>\<^sub>m (map_of es)(k \<mapsto> v)"
  by (rule map_leI) (auto dest: map_leD map_of_Some_key)

lemma TwoQueue_Add_lookup:
  assumes inv: "two_queue_inv entries cap ok gentries gok c"
  shows "0 < cache_size c \<Longrightarrow> lookup entries (TwoQueue_Add ops gops k v c) k = Some v"
    and "lookup entries (TwoQueue_Add ops gops k v c) \<subseteq>\<^sub>m (lookup entries c)(k \<mapsto> v)"
proof -
  let ?c = "TwoQueue_Add ops gops k v c"
  have inv': "two_queue_inv entries cap ok gentries gok ?c" by (rule TwoQueue_Add_inv [OF inv])
  note sep = inv_parts(7) [OF inv] inv_parts(7) [OF inv']
  note caps = inv_parts(4,5) [OF inv]
  have "(0 < cache_size c \<longrightarrow> map_of (entries (recent ?c)) k = Some v \<or> map_of (entries (frequent ?c)) k = Some v) \<and>
      map_of (entries (recent ?c)) \<subseteq>\<^sub>m (map_of (entries (recent c)))(k \<mapsto> v) \<and>
      map_of (entries (frequent ?c)) \<subseteq>\<^sub>m (map_of (entries (frequent c)))(k \<mapsto> v)"
    using inv
  proof (cases rule: TwoQueue_Add_cases [where k = k and v = v, consumes 1])
    case in_frequent
    then have "k \<notin> keys_of (entries (recent c))" using sep(1) by (auto simp: separate_def)
    then show ?thesis
      using in_frequent caps(2) add_map [OF inv_parts(2) [OF inv], of k v] fresh_le [OF _ map_le_refl] by simp
  next
    case (in_recent c1)
    have "map_of (entries (recent c1)) \<subseteq>\<^sub>m (map_of (entries (recent c)))(k \<mapsto> v)"
      using removed_key [OF inv_parts(1) [OF inv], of k] in_recent(3) by simp
    then show ?thesis
      using in_recent caps(2) add_map [OF inv_parts(2) [OF inv], of k v] by simp
  next
    case (in_ghosts c1 c2)
    have c1: "two_queue_inv entries cap ok gentries gok c1" using ensureSpace_inv [OF inv] in_ghosts(3) by simp
    have cap: "cap (frequent c1) = cache_size c" using inv_parts(5) [OF c1] in_ghosts(3) by (simp add: ensureSpace_fields)
    note le = ensureSpace_shrinks(1,2) [OF inv_core [OF inv], of True, folded in_ghosts(3)]
    have "(map_of (entries (frequent c1)))(k \<mapsto> v) \<subseteq>\<^sub>m (map_of (entries (frequent c)))(k \<mapsto> v)"
      using le(2) by simp
    then show ?thesis
      using in_ghosts cap add_map [OF inv_parts(2) [OF c1], of k v] fresh_le [OF in_ghosts(2) le(1)]
      by (auto intro: map_le_trans)
  next
    case (new c1)
    have c1: "two_queue_inv entries cap ok gentries gok c1" using ensureSpace_inv [OF inv] new(4) by simp
    have cap: "cap (recent c1) = cache_size c" using inv_parts(4) [OF c1] new(4) by (simp add: ensureSpace_fields)
    note le = ensureSpace_shrinks(1,2) [OF inv_core [OF inv], of False, folded new(4)]
    have "(map_of (entries (recent c1)))(k \<mapsto> v) \<subseteq>\<^sub>m (map_of (entries (recent c)))(k \<mapsto> v)"
      using le(1) by simp
    then show ?thesis
      using new cap add_map [OF inv_parts(1) [OF c1], of k v] fresh_le [OF new(1) le(2)]
      by (auto intro: map_le_trans)
  qed
  then show "0 < cache_size c \<Longrightarrow> lookup entries ?c k = Some v" and "lookup entries ?c \<subseteq>\<^sub>m (lookup entries c)(k \<mapsto> v)"
    using lookup_le [OF sep] by (simp_all add: lookup_iff [OF sep(2)])
qed

lemma add_map_room:
  assumes "ok s" and "int (length (entries s)) < cap s \<or> k \<in> keys_of (entries s)"
  shows "map_of (entries (fst (op_Add ops k v s))) = (map_of (entries s))(k \<mapsto> v)"
  using assms map_of_move_last [of k "entries s" v] map_of_append_new [of k "entries s" v]
  by (auto simp: add_spec_def simp del: map_of_append)

lemma lookup_add:
  "map_of (entries r') = map_of (entries (recent c)) \<Longrightarrow> map_of (entries f') = (map_of (entries (frequent c)))(k \<mapsto> v) \<Longrightarrow>
     lookup entries (c\<lparr>recent := r', frequent := f'\<rparr>) = (lookup entries c)(k \<mapsto> v)"
  "map_of (entries r') = (map_of (entries (recent c)))(k := None) \<Longrightarrow> map_of (entries f') = (map_of (entries (frequent c)))(k \<mapsto> v) \<Longrightarrow>
     lookup entries (c\<lparr>recent := r', frequent := f'\<rparr>) = (lookup entries c)(k \<mapsto> v)"
  "map_of (entries r') = (map_of (entries (recent c)))(k \<mapsto> v) \<Longrightarrow> k \<notin> keys_of (entries (frequent c)) \<Longrightarrow>
     lookup entries (c\<lparr>recent := r'\<rparr>) = (lookup entries c)(k \<mapsto> v)"
  by (auto simp: lookup_def map_add_def fun_eq_iff split: option.split)

lemma TwoQueue_Add_room:
  assumes inv: "two_queue_inv entries cap ok gentries gok c" and room: "total_len entries c < cache_size c"
  shows "lookup entries (TwoQueue_Add ops gops k v c) = (lookup entries c)(k \<mapsto> v)"
proof -
  note ok = inv_parts(1,2) [OF inv]
  have len: "int (length (entries (recent c))) < cap (recent c)" "int (length (entries (frequent c))) < cap (frequent c)"
    using room inv_parts(4,5) [OF inv] by (auto simp: total_len_def)
  have noop: "ensureSpace ops gops e c = c" for e using room ok by (simp add: ensureSpace_def total_len_def)
  note R = add_map_room [OF ok(1), of k v] and F = add_map_room [OF ok(2), of k v]
  show ?thesis
    using inv
  proof (cases rule: TwoQueue_Add_cases [where k = k and v = v, consumes 1])
    case in_frequent
    then show ?thesis using lookup_add(1) [of "recent c" c "fst (op_Add ops k v (frequent c))" k v] F len by simp
  next
    case (in_recent c1)
    then show ?thesis
      using lookup_add(2) [of "fst (op_Remove ops k (recent c))" c k "fst (op_Add ops k v (frequent c))" v] F len
        removed_key [OF ok(1), of k] by simp
  next
    case (in_ghosts c1 c2)
    then show ?thesis
      using lookup_add(1) [of "recent c" c "fst (op_Add ops k v (frequent c))" k v] F len noop
      by (simp add: lookup_def)
  next
    case (new c1)
    then show ?thesis using lookup_add(3) [of "fst (op_Add ops k v (recent c))" c k v] R len noop by simp
  qed
qed

text \<open>\<^verbatim>\<open>Get\<close>\<close>

lemma inv_touch_frequent:
  assumes inv: "two_queue_inv entries cap ok gentries gok c" and f: "op_Get ops k (frequent c) = (f, r)"
  shows "two_queue_inv entries cap ok gentries gok (c\<lparr>frequent := f\<rparr>)"
    and "map_of (entries f) = map_of (entries (frequent c))" and "r = map_of (entries (frequent c)) k"
    and "r = None \<Longrightarrow> entries f = entries (frequent c)"
proof -
  have ok: "ok (frequent c)" by (rule inv_parts(2) [OF inv])
  have f': "ok f" "cap f = cap (frequent c)" "entries f = fst (get_spec (entries (frequent c)) k)"
      "r = snd (get_spec (entries (frequent c)) k)"
    using r.get_rules [OF ok, of k] f by simp_all
  have len: "length (entries f) = length (entries (frequent c))" and keys: "keys_of (entries f) = keys_of (entries (frequent c))"
    using f'(3) length_remove_key [OF r.distinct_entries [OF ok], of k]
    by (auto simp: get_spec_def split: option.splits dest: map_of_Some_key)
  show "two_queue_inv entries cap ok gentries gok (c\<lparr>frequent := f\<rparr>)"
    using inv f'(1,2) len keys
    by (simp add: two_queue_inv_def two_queue_core_def separate_def bounded_def total_len_def well_sized_def)
  show "map_of (entries f) = map_of (entries (frequent c))"
    using f'(3) map_of_move_last [of k "entries (frequent c)"]
    by (auto simp: get_spec_def simp del: map_of_append split: option.splits)
  show "r = map_of (entries (frequent c)) k" and "r = None \<Longrightarrow> entries f = entries (frequent c)"
    using f'(3,4) by (auto simp: get_spec_def split: option.splits)
qed

lemma TwoQueue_Get_cases:
  assumes inv: "two_queue_inv entries cap ok gentries gok c"
  obtains
    (in_frequent) f v where "op_Get ops k (frequent c) = (f, Some v)"
      and "TwoQueue_Get ops k c = (c\<lparr>frequent := f\<rparr>, Some v)"
  | (in_recent) f v c0 c1 where "op_Get ops k (frequent c) = (f, None)" and "map_of (entries (recent c)) k = Some v"
      and "c0 = c\<lparr>frequent := f\<rparr>" and "c1 = c0\<lparr>recent := fst (op_Remove ops k (recent c0))\<rparr>"
      and "TwoQueue_Get ops k c = (c1\<lparr>frequent := fst (op_Add ops k v (frequent c1))\<rparr>, Some v)"
  | (absent) f where "op_Get ops k (frequent c) = (f, None)" and "map_of (entries (recent c)) k = None"
      and "TwoQueue_Get ops k c = (c\<lparr>frequent := f\<rparr>, None)"
proof -
  obtain f r where f: "op_Get ops k (frequent c) = (f, r)" by fastforce
  note peek = r.peek_law [OF inv_parts(1) [OF inv], of k]
  show thesis
  proof (cases r)
    case (Some v)
    then show thesis using in_frequent f by (simp add: TwoQueue_Get_def)
  next
    case None
    then show thesis
      using f peek in_recent [OF _ _ refl refl] absent
      by (cases "map_of (entries (recent c)) k") (simp_all add: TwoQueue_Get_def Let_def)
  qed
qed

lemma promote_lookup:
  assumes inv: "two_queue_inv entries cap ok gentries gok c" and v: "map_of (entries (recent c)) k = Some v"
    and c1: "c1 = c\<lparr>recent := fst (op_Remove ops k (recent c))\<rparr>"
    and c': "c' = c1\<lparr>frequent := fst (op_Add ops k v (frequent c1))\<rparr>"
  shows "lookup entries c' \<subseteq>\<^sub>m lookup entries c" and "k \<in> keys_of (entries (frequent c'))"
    and "recentSize c < cache_size c \<Longrightarrow> lookup entries c' = lookup entries c"
proof -
  have k: "k \<in> keys_of (entries (recent c))" by (rule map_of_Some_key [OF v])
  have inv': "two_queue_inv entries cap ok gentries gok c'" using promote_inv [OF inv k c1] c' by simp
  note sep = inv_parts(7) [OF inv] inv_parts(7) [OF inv']
  have fresh: "k \<notin> keys_of (entries (frequent c))" using sep(1) k by (auto simp: separate_def)
  have len: "1 \<le> length (entries (recent c))" using k by (cases "entries (recent c)") auto
  moreover have "int (length (entries (recent c))) \<le> cache_size c"
    using r.length_entries [OF inv_parts(1) [OF inv]] inv_parts(4) [OF inv] by simp
  ultimately have "0 < cap (frequent c)" using inv_parts(5) [OF inv] by linarith
  note add = add_map(1) [OF inv_parts(2) [OF inv] this, of k v] add_map(2) [OF inv_parts(2) [OF inv], of k v]
  have R: "map_of (entries (recent c')) = (map_of (entries (recent c)))(k := None)"
    using c' c1 removed_key [OF inv_parts(1) [OF inv], of k] by simp
  have old: "(lookup entries c)(k \<mapsto> v) = lookup entries c"
    using v lookup_iff [OF sep(1), of k v] by (auto simp: fun_upd_idem)
  show "k \<in> keys_of (entries (frequent c'))" using add(1) c' c1 map_of_Some_key by fastforce
  show "lookup entries c' \<subseteq>\<^sub>m lookup entries c"
    using lookup_le [OF sep, of k v] R add(2) c' c1 unfolding old by simp
  show "lookup entries c' = lookup entries c" if "recentSize c < cache_size c"
  proof -
    have "int (length (entries (frequent c))) < cache_size c"
      using inv_parts(8) [OF inv] that len by (simp add: bounded_def total_len_def)
    then have "entries (frequent c') = entries (frequent c) @ [(k, v)]"
      using fresh inv_parts(2,5) [OF inv] c' c1 by (simp add: add_spec_def)
    then have "map_of (entries (frequent c')) = (map_of (entries (frequent c)))(k \<mapsto> v)"
      by (simp only: map_of_append_new [OF fresh])
    then have "lookup entries c' = (lookup entries c)(k \<mapsto> v)"
      by (auto simp: lookup_def R map_add_def fun_eq_iff split: option.split)
    then show ?thesis by (simp only: old)
  qed
qed

lemma TwoQueue_Get_correct:
  assumes inv: "two_queue_inv entries cap ok gentries gok c" and get: "TwoQueue_Get ops k c = (c', res)"
  shows "two_queue_inv entries cap ok gentries gok c'" and "res = lookup entries c k"
    and "lookup entries c' \<subseteq>\<^sub>m lookup entries c"
    and "res \<noteq> None \<Longrightarrow> 0 < cache_size c \<Longrightarrow> k \<in> keys_of (entries (frequent c'))"
    and "recentSize c < cache_size c \<Longrightarrow> lookup entries c' = lookup entries c"
proof -
  note sep = inv_parts(7) [OF inv]
  have "two_queue_inv entries cap ok gentries gok c' \<and> res = lookup entries c k \<and>
      lookup entries c' \<subseteq>\<^sub>m lookup entries c \<and>
      (res \<noteq> None \<longrightarrow> 0 < cache_size c \<longrightarrow> k \<in> keys_of (entries (frequent c'))) \<and>
      (recentSize c < cache_size c \<longrightarrow> lookup entries c' = lookup entries c)"
    using inv
  proof (cases rule: TwoQueue_Get_cases [where k = k, consumes 1])
    case (in_frequent f v)
    note t = inv_touch_frequent [OF inv in_frequent(1)]
    have "k \<in> keys_of (entries f)" using t(2,3) by (metis map_of_Some_key)
    then show ?thesis
      using in_frequent t get lookup_iff [OF sep, of k v] by (auto simp: lookup_def)
  next
    case (absent f)
    note t = inv_touch_frequent [OF inv absent(1)]
    then show ?thesis using absent get by (auto simp: lookup_def map_add_def)
  next
    case (in_recent f v c0 c1)
    note t = inv_touch_frequent [OF inv in_recent(1)]
    have c0: "two_queue_inv entries cap ok gentries gok c0" using t(1) in_recent(3) by simp
    have k: "k \<in> keys_of (entries (recent c0))" using in_recent(2,3) map_of_Some_key by simp
    have c': "c' = c1\<lparr>frequent := fst (op_Add ops k v (frequent c1))\<rparr>" "res = Some v"
      using get in_recent(5) by simp_all
    have v: "map_of (entries (recent c0)) k = Some v" using in_recent(2,3) by simp
    have "lookup entries c0 = lookup entries c" using t(2) in_recent(3) by (simp add: lookup_def)
    moreover have "lookup entries c k = Some v" using lookup_iff [OF sep] in_recent(2) by blast
    ultimately show ?thesis
      using promote_inv [OF c0 k in_recent(4)] promote_lookup [OF c0 v in_recent(4) c'(1)] c' in_recent(3)
      by simp
  qed
  then show "two_queue_inv entries cap ok gentries gok c'" and "res = lookup entries c k"
    and "lookup entries c' \<subseteq>\<^sub>m lookup entries c"
    and "res \<noteq> None \<Longrightarrow> 0 < cache_size c \<Longrightarrow> k \<in> keys_of (entries (frequent c'))"
    and "recentSize c < cache_size c \<Longrightarrow> lookup entries c' = lookup entries c"
    by blast+
qed

text \<open>\<^verbatim>\<open>Remove\<close>, \<^verbatim>\<open>Purge\<close> and the reading methods\<close>

lemma TwoQueue_Remove_eq:
  assumes inv: "two_queue_inv entries cap ok gentries gok c"
  shows "\<exists>f r g. TwoQueue_Remove ops gops k c = c\<lparr>frequent := f, recent := r, recentEvict := g\<rparr> \<and>
    two_queue_inv entries cap ok gentries gok (c\<lparr>frequent := f, recent := r, recentEvict := g\<rparr>) \<and>
    entries f = remove_key k (entries (frequent c)) \<and> entries r = remove_key k (entries (recent c)) \<and>
    gentries g = remove_key k (gentries (recentEvict c))"
proof -
  note ok = inv_parts(1-3) [OF inv]
  have sep: "k \<in> keys_of (entries (frequent c)) \<Longrightarrow> k \<notin> keys_of (entries (recent c)) \<and> k \<notin> keys_of (gentries (recentEvict c))"
    "k \<in> keys_of (entries (recent c)) \<Longrightarrow> k \<notin> keys_of (gentries (recentEvict c))"
    using inv_parts(7) [OF inv] by (auto simp: separate_def)
  obtain f b1 o1 where f: "op_Remove ops k (frequent c) = (f, b1, o1)" by (metis prod_cases3)
  obtain r b2 o2 where r: "op_Remove ops k (recent c) = (r, b2, o2)" by (metis prod_cases3)
  have b: "b1 \<longleftrightarrow> k \<in> keys_of (entries (frequent c))" "b2 \<longleftrightarrow> k \<in> keys_of (entries (recent c))"
    using r.remove_rules(4) [OF ok(2), of k] r.remove_rules(4) [OF ok(1), of k] f r
    by (auto simp: remove_spec_def map_of_eq_None_keys split: option.splits dest: map_of_Some_key)
  have F: "entries f = remove_key k (entries (frequent c))" and R: "entries r = remove_key k (entries (recent c))"
    using removed_key [OF ok(2), of k] removed_key [OF ok(1), of k] f r by simp_all
  let ?f = "c\<lparr>frequent := f\<rparr>" and ?g = "fst (op_Remove gops k (recentEvict c))"
  have inv_f: "two_queue_inv entries cap ok gentries gok ?f"
    using inv_remove_frequent [OF inv, of k] f by simp
  have inv_r: "two_queue_inv entries cap ok gentries gok (?f\<lparr>recent := r\<rparr>)"
    using inv_remove_recent [OF inv_f, of k] r by simp
  have inv_g: "two_queue_inv entries cap ok gentries gok (?f\<lparr>recent := r, recentEvict := ?g\<rparr>)"
    using inv_remove_ghost [OF inv_r, of k] by simp
  consider (F) b1 | (R) "\<not> b1" b2 | (G) "\<not> b1" "\<not> b2" by blast
  then show ?thesis
  proof cases
    case F
    then show ?thesis
      using f inv_f \<open>entries f = _\<close> sep b
      by (intro exI [of _ f] exI [of _ "recent c"] exI [of _ "recentEvict c"]) (simp add: TwoQueue_Remove_def)
  next
    case R
    then show ?thesis
      using f r inv_r \<open>entries f = _\<close> \<open>entries r = _\<close> sep b
      by (intro exI [of _ f] exI [of _ r] exI [of _ "recentEvict c"]) (simp add: TwoQueue_Remove_def)
  next
    case G
    then show ?thesis
      using f r inv_g \<open>entries f = _\<close> \<open>entries r = _\<close> ghost_removed_key [OF ok(3)] b
      by (intro exI [of _ f] exI [of _ r] exI [of _ ?g]) (simp add: TwoQueue_Remove_def)
  qed
qed

lemma TwoQueue_Purge_correct:
  assumes inv: "two_queue_inv entries cap ok gentries gok c"
  shows "two_queue_inv entries cap ok gentries gok (TwoQueue_Purge ops gops c)"
    and "lookup entries (TwoQueue_Purge ops gops c) = Map.empty"
  using inv
  by (simp_all add: TwoQueue_Purge_def two_queue_inv_def two_queue_core_def separate_def bounded_def
      total_len_def well_sized_def lookup_def)

text \<open>The loop of \<^verbatim>\<open>Resize\<close>\<close>

lemma ensureSpace_step_down:
  assumes core: "two_queue_core entries ok gentries gok c" and "cache_size c < total_len entries c"
  shows "total_len entries (ensureSpace ops gops e c) = total_len entries c - 1"
  using core
proof (cases rule: ensureSpace_cases [where e = e, consumes 1])
  case (from_frequent f')
  have "recentSize c \<le> cache_size c" using core by (simp add: two_queue_core_def well_sized_def)
  then show ?thesis
    using from_frequent assms(2) by (cases "entries (frequent c)") (auto simp: total_len_def)
qed (use assms(2) in \<open>auto simp: total_len_def\<close>)

lemma ensureSpace_loop:
  assumes "two_queue_core entries ok gentries gok c" and "total_len entries c - cache_size c = int d"
  shows "let c' = (ensureSpace ops gops True ^^ d) c
    in two_queue_core entries ok gentries gok c' \<and> total_len entries c' = cache_size c \<and>
       cache_size c' = cache_size c \<and> recentSize c' = recentSize c \<and>
       recentRatio c' = recentRatio c \<and> ghostRatio c' = ghostRatio c \<and>
       map_of (entries (recent c')) \<subseteq>\<^sub>m map_of (entries (recent c)) \<and>
       map_of (entries (frequent c')) \<subseteq>\<^sub>m map_of (entries (frequent c))"
  using assms
proof (induction d arbitrary: c)
  case (Suc d)
  let ?c = "ensureSpace ops gops True c"
  have "total_len entries ?c - cache_size ?c = int d"
    using ensureSpace_step_down [OF Suc.prems(1), of True] Suc.prems(2) by (simp add: ensureSpace_fields)
  from Suc.IH [OF ensureSpace_core [OF Suc.prems(1)] this] ensureSpace_shrinks(1,2) [OF Suc.prems(1), of True]
  show ?case
    by (auto simp: Let_def ensureSpace_fields funpow_Suc_right simp del: funpow.simps intro: map_le_trans)
qed (simp add: Let_def)

lemma shrunk_loop:
  assumes "two_queue_core entries ok gentries gok c" and "d = nat (total_len entries c - cache_size c)"
  shows "let c' = (ensureSpace ops gops True ^^ d) c
    in two_queue_core entries ok gentries gok c' \<and> total_len entries c' \<le> cache_size c \<and>
       cache_size c' = cache_size c \<and> recentSize c' = recentSize c \<and>
       recentRatio c' = recentRatio c \<and> ghostRatio c' = ghostRatio c \<and>
       map_of (entries (recent c')) \<subseteq>\<^sub>m map_of (entries (recent c)) \<and>
       map_of (entries (frequent c')) \<subseteq>\<^sub>m map_of (entries (frequent c))"
proof (cases "total_len entries c \<le> cache_size c")
  case True
  then show ?thesis using assms by (simp add: Let_def)
next
  case False
  then show ?thesis using ensureSpace_loop [OF assms(1), of d] assms(2) by (auto simp: Let_def)
qed

lemma resized:
  assumes "ok s" and "int (length (entries s)) \<le> n"
  shows "ok (fst (op_Resize ops n s))" and "cap (fst (op_Resize ops n s)) = n"
    and "entries (fst (op_Resize ops n s)) = entries s"
  using assms by (auto simp: resize_spec_def)

lemma ghost_resized:
  assumes "gok s" and "0 \<le> n"
  shows "gok (fst (op_Resize gops n s))"
    and "keys_of (gentries (fst (op_Resize gops n s))) \<subseteq> keys_of (gentries s)"
  using assms by (auto simp: resize_spec_def keys_of_def Let_def dest: in_set_dropD)

lemma TwoQueue_Resize_correct:
  assumes inv: "two_queue_inv entries cap ok gentries gok c" and n: "0 \<le> n"
    and res: "TwoQueue_Resize ops gops n c = (c', diff)"
  shows "two_queue_inv entries cap ok gentries gok c'" and "cache_size c' = n"
    and "lookup entries c' \<subseteq>\<^sub>m lookup entries c" and "total_len entries c' \<le> n"
    and "diff = max 0 (total_len entries c - n)"
proof -
  let ?c0 = "c\<lparr>cache_size := n, recentSize := float_scale n (recentRatio c)\<rparr>"
  define d where "d = nat (total_len entries c - n)"
  define c1 where "c1 = (ensureSpace ops gops True ^^ d) ?c0"
  have ws: "well_sized c" and ok: "ok (recent c)" "ok (frequent c)" and sep: "separate entries gentries c"
    using inv_parts [OF inv] by auto
  have core0: "two_queue_core entries ok gentries gok ?c0"
    using inv_core [OF inv] ws float_scale_bounds [OF n, of "recentRatio c"]
    by (simp add: two_queue_core_def separate_def well_sized_def)
  have tl0: "total_len entries ?c0 = total_len entries c" by (simp add: total_len_def)
  have c1: "two_queue_core entries ok gentries gok c1" "total_len entries c1 \<le> n" "cache_size c1 = n"
      "recentSize c1 = float_scale n (recentRatio c)" "recentRatio c1 = recentRatio c" "ghostRatio c1 = ghostRatio c"
      "map_of (entries (recent c1)) \<subseteq>\<^sub>m map_of (entries (recent c))"
      "map_of (entries (frequent c1)) \<subseteq>\<^sub>m map_of (entries (frequent c))"
    using shrunk_loop [OF core0, of d] by (simp_all add: d_def c1_def tl0 Let_def)
  have ok1: "ok (recent c1)" "ok (frequent c1)" "gok (recentEvict c1)"
    using c1(1) by (auto simp: two_queue_core_def)
  have ev: "0 \<le> float_scale n (ghostRatio c)" using float_scale_bounds(1) [OF n] ws by (simp add: well_sized_def)
  have len: "int (length (entries (recent c1))) \<le> n" "int (length (entries (frequent c1))) \<le> n"
    using c1(2) by (auto simp: total_len_def)
  note rr = resized [OF ok1(1) len(1)] resized [OF ok1(2) len(2)] ghost_resized [OF ok1(3) ev]
  have "nat (let x = op_Len ops (recent c) + op_Len ops (frequent c) - n in if x < 0 then 0 else x) = d"
    using ok by (auto simp: d_def total_len_def Let_def)
  then have c': "c' = c1\<lparr>recent := fst (op_Resize ops n (recent c1)), frequent := fst (op_Resize ops n (frequent c1)),
      recentEvict := fst (op_Resize gops (float_scale n (ghostRatio c)) (recentEvict c1))\<rparr>"
    and "diff = max 0 (total_len entries c - n)"
    using res ok by (auto simp: TwoQueue_Resize_def c1_def Let_def total_len_def split: if_splits)
  then show "diff = max 0 (total_len entries c - n)" by simp
  show sz: "cache_size c' = n" using c' c1(3) by simp
  show tot: "total_len entries c' \<le> n" using c' c1(2) rr by (simp add: total_len_def)
  show inv': "two_queue_inv entries cap ok gentries gok c'"
    using c1(1,3) rr tot sz c'
    by (auto simp: two_queue_inv_def two_queue_core_def separate_def bounded_def well_sized_def)
  show "lookup entries c' \<subseteq>\<^sub>m lookup entries c"
    using c1(7,8) rr c' lookup_iff [OF sep] lookup_iff [OF inv_parts(7) [OF inv']]
    by (auto intro!: map_leI dest: map_leD)
qed

end

section \<open>Sequences of calls\<close>

datatype ('k, 'v) two_queue_call = QGet 'k | QAdd 'k 'v | QRemove 'k | QPurge | QResize int

fun two_queue_step ::
  "('k, 'v, 's) lru_ops \<Rightarrow> ('k, unit, 'g) lru_ops \<Rightarrow> ('k, 'v) two_queue_call \<Rightarrow>
   ('s, 'g) two_queue_cache \<Rightarrow> ('s, 'g) two_queue_cache" where
  "two_queue_step ops gops (QGet k) c = fst (TwoQueue_Get ops k c)"
| "two_queue_step ops gops (QAdd k v) c = TwoQueue_Add ops gops k v c"
| "two_queue_step ops gops (QRemove k) c = TwoQueue_Remove ops gops k c"
| "two_queue_step ops gops QPurge c = TwoQueue_Purge ops gops c"
| "two_queue_step ops gops (QResize n) c = fst (TwoQueue_Resize ops gops n c)"

text \<open>The specification: a map that forgets nothing but what it is told to.\<close>

fun map_step :: "('k, 'v) two_queue_call \<Rightarrow> ('k \<rightharpoonup> 'v) \<Rightarrow> ('k \<rightharpoonup> 'v)" where
  "map_step (QAdd k v) m = m(k \<mapsto> v)"
| "map_step (QRemove k) m = m(k := None)"
| "map_step QPurge m = Map.empty"
| "map_step (QGet k) m = m"
| "map_step (QResize n) m = m"

text \<open>Sizes for which the \<^verbatim>\<open>float64\<close> conversion is exact.\<close>

fun exact_size :: "('k, 'v) two_queue_call \<Rightarrow> bool" where
  "exact_size (QResize n) \<longleftrightarrow> 0 \<le> n \<and> n < 2 ^ 53"
| "exact_size _ \<longleftrightarrow> True"

context two_queue
begin

lemma step_refines:
  assumes inv: "two_queue_inv entries cap ok gentries gok c" and "exact_size call"
    and le: "lookup entries c \<subseteq>\<^sub>m m"
  shows "two_queue_inv entries cap ok gentries gok (two_queue_step ops gops call c)"
    and "lookup entries (two_queue_step ops gops call c) \<subseteq>\<^sub>m map_step call m"
proof -
  have "two_queue_inv entries cap ok gentries gok (two_queue_step ops gops call c) \<and>
      lookup entries (two_queue_step ops gops call c) \<subseteq>\<^sub>m map_step call m"
  proof (cases call)
    case (QGet k)
    then show ?thesis
      using TwoQueue_Get_correct(1,3) [OF inv prod.collapse [symmetric]] le by (auto intro: map_le_trans)
  next
    case (QAdd k v)
    have "(lookup entries c)(k \<mapsto> v) \<subseteq>\<^sub>m m(k \<mapsto> v)" using le by simp
    then show ?thesis
      using QAdd TwoQueue_Add_inv [OF inv] TwoQueue_Add_lookup(2) [OF inv, of k v] by (auto intro: map_le_trans)
  next
    case (QRemove k)
    obtain f r g where "TwoQueue_Remove ops gops k c = c\<lparr>frequent := f, recent := r, recentEvict := g\<rparr>"
      and "two_queue_inv entries cap ok gentries gok (c\<lparr>frequent := f, recent := r, recentEvict := g\<rparr>)"
      and "entries f = remove_key k (entries (frequent c))" and "entries r = remove_key k (entries (recent c))"
      using TwoQueue_Remove_eq [OF inv] by blast
    moreover from this have "lookup entries (TwoQueue_Remove ops gops k c) = (lookup entries c)(k := None)"
      by (auto simp: lookup_def map_add_def fun_eq_iff split: option.split)
    ultimately show ?thesis using QRemove le by simp
  next
    case QPurge
    then show ?thesis using TwoQueue_Purge_correct [OF inv] by simp
  next
    case (QResize n)
    then show ?thesis
      using TwoQueue_Resize_correct(1,3) [OF inv _ prod.collapse [symmetric], of n] assms(2) le
      by (auto intro: map_le_trans)
  qed
  then show "two_queue_inv entries cap ok gentries gok (two_queue_step ops gops call c)"
    and "lookup entries (two_queue_step ops gops call c) \<subseteq>\<^sub>m map_step call m" by blast+
qed

lemma reads:
  assumes inv: "two_queue_inv entries cap ok gentries gok c"
  shows "TwoQueue_Len ops c = total_len entries c"
    and "TwoQueue_Peek ops k c = lookup entries c k"
    and "TwoQueue_Contains ops k c \<longleftrightarrow> k \<in> dom (lookup entries c)"
    and "distinct (TwoQueue_Keys ops c)" and "set (TwoQueue_Keys ops c) = dom (lookup entries c)"
    and "total_len entries c = int (length (TwoQueue_Keys ops c))"
    and "map (lookup entries c) (TwoQueue_Keys ops c) = map Some (TwoQueue_Values ops c)"
proof -
  note ok = inv_parts(1,2) [OF inv]
  note sep = inv_parts(7) [OF inv]
  have d: "distinct (map fst (entries (recent c)))" "distinct (map fst (entries (frequent c)))"
    using ok r.distinct_entries by auto
  show "TwoQueue_Len ops c = total_len entries c" using ok by (simp add: TwoQueue_Len_def total_len_def)
  show "TwoQueue_Peek ops k c = lookup entries c k"
    using ok by (simp add: TwoQueue_Peek_def lookup_def map_add_def split: option.split)
  show "TwoQueue_Contains ops k c \<longleftrightarrow> k \<in> dom (lookup entries c)"
    using ok by (auto simp: TwoQueue_Contains_def lookup_def dom_map_of_keys)
  have keys: "TwoQueue_Keys ops c = map fst (entries (frequent c) @ entries (recent c))"
    using ok by (simp add: TwoQueue_Keys_def)
  show dist: "distinct (TwoQueue_Keys ops c)" using d sep by (auto simp: keys separate_def keys_of_def)
  show "set (TwoQueue_Keys ops c) = dom (lookup entries c)"
    by (auto simp: keys lookup_def dom_map_of_keys keys_of_def)
  show "total_len entries c = int (length (TwoQueue_Keys ops c))" by (simp add: keys total_len_def)
  have "lookup entries c (fst e) = Some (snd e)" if "e \<in> set (entries (frequent c) @ entries (recent c))" for e
    using that d lookup_iff [OF sep] by (auto simp: map_of_eq_Some_iff)
  moreover have "TwoQueue_Values ops c = map snd (entries (frequent c) @ entries (recent c))"
    using ok by (simp add: TwoQueue_Values_def)
  ultimately show "map (lookup entries c) (TwoQueue_Keys ops c) = map Some (TwoQueue_Values ops c)"
    by (simp add: keys)
qed

lemma run_refines:
  assumes "two_queue_inv entries cap ok gentries gok c" and "list_all exact_size calls"
    and "lookup entries c \<subseteq>\<^sub>m m"
  shows "two_queue_inv entries cap ok gentries gok (fold (two_queue_step ops gops) calls c) \<and>
    lookup entries (fold (two_queue_step ops gops) calls c) \<subseteq>\<^sub>m fold map_step calls m"
  using assms
proof (induction calls arbitrary: c m)
  case (Cons call calls)
  then show ?case using step_refines [OF Cons.prems(1) _ Cons.prems(3), of call] by simp
qed simp

lemma New2QParams_inv:
  assumes "New2QParams ops gops n rr gr = Inr c"
  shows "two_queue_inv entries cap ok gentries gok c" and "lookup entries c = Map.empty"
    and "cache_size c = n" and "0 < n" and "recentSize c = float_scale n rr"
proof -
  have n: "0 < n" "0 \<le> rr" "rr \<le> 1" "0 \<le> gr" "gr \<le> 1"
    using assms by (auto simp: New2QParams_def split: if_splits)
  obtain s where s: "op_New ops n = Some s" "ok s" "entries s = []" "cap s = n" using r.new_law [OF n(1)] by blast
  have g: "0 < float_scale n gr"
  proof (rule ccontr)
    assume "\<not> 0 < float_scale n gr"
    then have "op_New gops (float_scale n gr) = None" by (intro g.new_fails) simp
    then show False using assms s(1) by (simp add: New2QParams_def Let_def split: if_splits)
  qed
  obtain t where t: "op_New gops (float_scale n gr) = Some t" "gok t" "gentries t = []" using g.new_law [OF g] by blast
  have c: "c = \<lparr>cache_size = n, recentSize = float_scale n rr, recentRatio = rr, ghostRatio = gr,
      recent = s, frequent = s, recentEvict = t\<rparr>"
    using assms n s t by (simp add: New2QParams_def Let_def)
  show "two_queue_inv entries cap ok gentries gok c"
    using s t n float_scale_bounds [of n rr]
    by (simp add: c two_queue_inv_def two_queue_core_def separate_def bounded_def well_sized_def total_len_def)
  show "lookup entries c = Map.empty" "cache_size c = n" "0 < n" "recentSize c = float_scale n rr"
    using s n by (simp_all add: c lookup_def)
qed

end

text \<open>The 2Q cache over the list implementation.\<close>

interpretation list_2q: two_queue list_lru snd fst list_ok list_lru snd fst list_ok
  by (intro two_queue.intro list_lru.simplelru_axioms)

section \<open>Properties\<close>

text \<open>
  C15: the 2Q cache refines a map.  After any sequence of calls on a new cache, whatever it holds for a key is
  the value last added for it and not removed since; the recent, frequent and ghost lists have
  no key in common, the reading methods agree with each other, and the number of entries
  is at most the size, or one more in a cache whose recent list is given the whole size.
\<close>

theorem two_queue_refines_map:
  assumes "simplelru ops entries cap ok" and "simplelru gops gentries gcap gok"
    and "New2QParams ops gops n rr gr = Inr c" and "n < 2 ^ 53" and "list_all exact_size calls"
    and "c' = fold (two_queue_step ops gops) calls c"
  shows "two_queue_inv entries cap ok gentries gok c' \<and>
    lookup entries c' \<subseteq>\<^sub>m fold map_step calls Map.empty \<and> separate entries gentries c' \<and>
    TwoQueue_Len ops c' \<le> cache_size c' + (if recentSize c' < cache_size c' then 0 else 1) \<and>
    TwoQueue_Peek ops k c' = lookup entries c' k \<and>
    TwoQueue_Contains ops k c' = (k \<in> dom (lookup entries c')) \<and>
    distinct (TwoQueue_Keys ops c') \<and> set (TwoQueue_Keys ops c') = dom (lookup entries c') \<and>
    TwoQueue_Len ops c' = int (length (TwoQueue_Keys ops c')) \<and>
    map (lookup entries c') (TwoQueue_Keys ops c') = map Some (TwoQueue_Values ops c')"
proof -
  have q: "two_queue ops entries cap ok gops gentries gcap gok"
    using assms(1,2) by (rule two_queue.intro)
  note new = two_queue.New2QParams_inv(1,2) [OF q assms(3)]
  have inv: "two_queue_inv entries cap ok gentries gok c'"
    and le: "lookup entries c' \<subseteq>\<^sub>m fold map_step calls Map.empty"
    using two_queue.run_refines [OF q new(1) assms(5), where m = Map.empty] new(2) assms(6) by simp_all
  note parts = two_queue.inv_parts [OF q inv]
  show ?thesis
    using inv le parts(7,8) two_queue.reads(1,4-7) [OF q inv] two_queue.reads(2,3) [OF q inv, of k]
    by (auto simp: bounded_def)
qed

theorem two_queue_refines_map_witness:
  "\<exists>c. New2QParams list_lru list_lru 4 (1 / 4) (1 / 2) = Inr c \<and>
     lookup snd (fold (two_queue_step list_lru list_lru)
       [QAdd (1 :: nat) ''a'', QAdd 2 ''b'', QGet 1, QResize 2, QRemove 2] c) \<subseteq>\<^sub>m [1 \<mapsto> ''a'']"
proof -
  let ?calls = "[QAdd (1 :: nat) ''a'', QAdd 2 ''b'', QGet 1, QResize 2, QRemove 2]"
  let ?new = "New2QParams list_lru list_lru 4 (1 / 4) (1 / 2) ::
    new_error + (int \<times> (nat \<times> string) list, int \<times> (nat \<times> unit) list) two_queue_cache"
  obtain c where c: "?new = Inr c"
    by (simp add: New2QParams_def list_lru_def Let_def float_scale_def trunc_float_def round_even_def bit_length.simps)
  have "list_all exact_size ?calls" by simp
  from two_queue_refines_map [OF list_lru.simplelru_axioms list_lru.simplelru_axioms c _ this refl, of 1]
  show ?thesis using c by (auto simp: fun_upd_twist)
qed

text \<open>
  \<^verbatim>\<open>Get\<close> returns exactly what the cache holds for the key and loses nothing: in a cache whose
  recent list is smaller than its size, the mapping is unchanged and a key that was found is in the frequent
  list afterwards.
\<close>

theorem two_queue_get:
  assumes "simplelru ops entries cap ok" and "simplelru gops gentries gcap gok"
    and "two_queue_inv entries cap ok gentries gok c" and "TwoQueue_Get ops k c = (c', r)"
    and "recentSize c < cache_size c"
  shows "r = lookup entries c k \<and> lookup entries c' = lookup entries c \<and>
    (r \<noteq> None \<longrightarrow> k \<in> keys_of (entries (frequent c'))) \<and>
    two_queue_inv entries cap ok gentries gok c'"
proof -
  have q: "two_queue ops entries cap ok gops gentries gcap gok"
    using assms(1,2) by (rule two_queue.intro)
  have "0 < cache_size c" using two_queue.inv_parts(6) [OF q assms(3)] assms(5) by (simp add: well_sized_def)
  then show ?thesis using two_queue.TwoQueue_Get_correct [OF q assms(3,4)] assms(5) by blast
qed

definition sample_cache :: "(int \<times> (nat \<times> string) list, int \<times> (nat \<times> unit) list) two_queue_cache" where
  "sample_cache = \<lparr>cache_size = 2, recentSize = 1, recentRatio = 1 / 2, ghostRatio = 1 / 2,
     recent = (2, [(1, ''a'')]), frequent = (2, [(2, ''b'')]), recentEvict = (1, [(3, ())])\<rparr>"

lemma sample_cache_inv: "two_queue_inv snd fst list_ok snd list_ok sample_cache"
  by (simp add: sample_cache_def two_queue_inv_def two_queue_core_def list_ok_def separate_def bounded_def
      total_len_def well_sized_def)

theorem two_queue_get_witness:
  "snd (TwoQueue_Get list_lru 1 sample_cache) = Some ''a'' \<and>
   lookup snd (fst (TwoQueue_Get list_lru 1 sample_cache)) = lookup snd sample_cache"
proof -
  have "recentSize sample_cache < cache_size sample_cache" by (simp add: sample_cache_def)
  moreover have "lookup snd sample_cache 1 = Some ''a''" by (simp add: sample_cache_def lookup_def)
  ultimately show ?thesis
    using two_queue_get [OF list_lru.simplelru_axioms list_lru.simplelru_axioms sample_cache_inv prod.collapse [symmetric], of 1]
    by simp
qed

text \<open>
  \<^verbatim>\<open>Add\<close> makes the key map to the value and changes the value of no other key; it drops an
  entry only when the cache is full.
\<close>

theorem two_queue_add:
  assumes "simplelru ops entries cap ok" and "simplelru gops gentries gcap gok"
    and "two_queue_inv entries cap ok gentries gok c" and "0 < cache_size c"
    and "c' = TwoQueue_Add ops gops k v c"
  shows "lookup entries c' k = Some v \<and> lookup entries c' \<subseteq>\<^sub>m (lookup entries c)(k \<mapsto> v) \<and>
    (TwoQueue_Len ops c < cache_size c \<longrightarrow> lookup entries c' = (lookup entries c)(k \<mapsto> v)) \<and>
    two_queue_inv entries cap ok gentries gok c'"
proof -
  have q: "two_queue ops entries cap ok gops gentries gcap gok"
    using assms(1,2) by (rule two_queue.intro)
  show ?thesis
    using two_queue.TwoQueue_Add_lookup [OF q assms(3)] two_queue.TwoQueue_Add_inv [OF q assms(3)]
      two_queue.TwoQueue_Add_room [OF q assms(3)] two_queue.reads(1) [OF q assms(3)] assms(4,5) by simp
qed

theorem two_queue_add_witness:
  "lookup snd (TwoQueue_Add list_lru list_lru 3 ''c'' sample_cache) 3 = Some ''c'' \<and>
   lookup snd (TwoQueue_Add list_lru list_lru 3 ''c'' sample_cache) \<subseteq>\<^sub>m (lookup snd sample_cache)(3 \<mapsto> ''c'')"
proof -
  have "0 < cache_size sample_cache" by (simp add: sample_cache_def)
  from two_queue_add [OF list_lru.simplelru_axioms list_lru.simplelru_axioms sample_cache_inv this refl]
  show ?thesis by blast
qed

text \<open>
  \<^verbatim>\<open>Resize\<close> to any size the constructor's arithmetic is exact for leaves at most that many
  entries, all of them from before, and reports how many had to go.
\<close>

theorem two_queue_resize:
  assumes "simplelru ops entries cap ok" and "simplelru gops gentries gcap gok"
    and "two_queue_inv entries cap ok gentries gok c" and "0 \<le> n" and "n < 2 ^ 53"
    and "TwoQueue_Resize ops gops n c = (c', diff)"
  shows "TwoQueue_Len ops c' \<le> n \<and> cache_size c' = n \<and> lookup entries c' \<subseteq>\<^sub>m lookup entries c \<and>
    diff = max 0 (TwoQueue_Len ops c - n) \<and> two_queue_inv entries cap ok gentries gok c'"
proof -
  have q: "two_queue ops entries cap ok gops gentries gcap gok"
    using assms(1,2) by (rule two_queue.intro)
  note res = two_queue.TwoQueue_Resize_correct [OF q assms(3,4,6)]
  show ?thesis using res two_queue.reads(1) [OF q assms(3)] two_queue.reads(1) [OF q res(1)] by simp
qed

theorem two_queue_resize_witness:
  "TwoQueue_Len list_lru (fst (TwoQueue_Resize list_lru list_lru 1 sample_cache)) \<le> 1 \<and>
   snd (TwoQueue_Resize list_lru list_lru 1 sample_cache) = 1"
proof -
  have "TwoQueue_Len list_lru sample_cache = 2" by (simp add: TwoQueue_Len_def sample_cache_def list_lru_def)
  then show ?thesis
    using two_queue_resize [OF list_lru.simplelru_axioms list_lru.simplelru_axioms sample_cache_inv _ _ prod.collapse [symmetric], of 1]
    by simp
qed

text \<open>
  With a recent ratio of one, which the constructor accepts, the cache exceeds its size: in a
  cache of size 2 whose recent list is full, adding a key that is still among the ghosts frees nothing,
  because \<^verbatim>\<open>ensureSpace\<close> turns to the frequent list, which is empty; the cache then holds three entries.
\<close>

theorem two_queue_exceeds_size:
  "case New2QParams list_lru list_lru 2 1 (1 / 2) of
     Inl _ \<Rightarrow> False
   | Inr c \<Rightarrow>
       TwoQueue_Len list_lru (fold (two_queue_step list_lru list_lru)
         [QAdd (1 :: nat) ''a'', QAdd 2 ''b'', QAdd 3 ''c'', QAdd 1 ''a''] c) = 3 \<and> cache_size c = 2"
  by (simp add: New2QParams_def list_lru_def Let_def float_scale_def trunc_float_def round_even_def
      bit_length.simps TwoQueue_Add_def ensureSpace_def TwoQueue_Len_def add_spec_def remove_spec_def
      remove_oldest_spec_def remove_key_def)

end
