(* ===== verification/Ldb_Keys.thy ===== *)
theory Ldb_Keys
  imports Prelude
begin

text \<open>
  The key order of the database: \<^verbatim>\<open>goleveldb/leveldb/comparer/bytes_comparer.go\<close> (the bytewise comparer
  with its separators and successors) and \<^verbatim>\<open>util/range.go\<close> (the range of a prefix).  The locale \<open>comparer\<close>
  is the contract \<^verbatim>\<open>comparer.go\<close> documents for every comparer; the bytewise one interprets it.  A \<^verbatim>\<open>nil\<close>
  result is \<open>None\<close>.
\<close>

section \<open>The bytewise comparer\<close>

fun Compare :: "bytes \<Rightarrow> bytes \<Rightarrow> int" where
  "Compare [] [] = 0"
| "Compare [] (_ # _) = -1"
| "Compare (_ # _) [] = 1"
| "Compare (x # a) (y # b) = (if x < y then -1 else if y < x then 1 else Compare a b)"

text \<open>The loop that finds the first index at which \<open>a\<close> and \<open>b\<close> differ, from \<open>i\<close> up to \<open>n\<close>.\<close>

function first_diff :: "bytes \<Rightarrow> bytes \<Rightarrow> nat \<Rightarrow> nat \<Rightarrow> nat" where
  "first_diff a b n i = (if i < n \<and> a ! i = b ! i then first_diff a b n (Suc i) else i)"
  by pat_completeness auto
termination by (relation "measure (\<lambda>(a, b, n, i). n - i)") auto

declare first_diff.simps [simp del]

definition Separator :: "bytes \<Rightarrow> bytes \<Rightarrow> bytes \<Rightarrow> bytes option" where
  "Separator dst a b =
     (let n = length a;
          n = (if length b < n then length b else n);
          i = first_diff a b n 0
      in if n \<le> i then None
         else let c = a ! i
           in if c < 0xff \<and> c + 1 < b ! i
              then let dst = dst @ take (i + 1) a
                in Some (dst[length dst - 1 := dst ! (length dst - 1) + 1])
              else None)"

fun successor_loop :: "bytes \<Rightarrow> bytes \<Rightarrow> nat \<Rightarrow> bytes \<Rightarrow> bytes option" where
  "successor_loop dst b i [] = None"
| "successor_loop dst b i (c # cs) =
     (if c \<noteq> 0xff
      then let dst = dst @ take (i + 1) b
        in Some (dst[length dst - 1 := dst ! (length dst - 1) + 1])
      else successor_loop dst b (i + 1) cs)"

definition Successor :: "bytes \<Rightarrow> bytes \<Rightarrow> bytes option" where
  "Successor dst b = successor_loop dst b 0 b"

section \<open>Ranges\<close>

record key_range =
  Start :: bytes
  Limit :: "bytes option"

text \<open>The loop of \<^verbatim>\<open>BytesPrefix\<close> at index \<open>i - 1\<close>.\<close>

fun prefix_limit :: "bytes \<Rightarrow> nat \<Rightarrow> bytes option" where
  "prefix_limit prefix 0 = None"
| "prefix_limit prefix (Suc i) =
     (let c = prefix ! i
      in if c < 0xff then Some ((fst (copy_at (replicate (i + 1) 0) 0 prefix))[i := c + 1])
         else prefix_limit prefix i)"

definition BytesPrefix :: "bytes \<Rightarrow> key_range" where
  "BytesPrefix prefix = \<lparr>Start = prefix, Limit = prefix_limit prefix (length prefix)\<rparr>"

definition in_range :: "key_range \<Rightarrow> bytes \<Rightarrow> bool" where
  "in_range r key \<longleftrightarrow> 0 \<le> Compare key (Start r) \<and>
     (case Limit r of None \<Rightarrow> True | Some l \<Rightarrow> Compare key l < 0)"

section \<open>The order\<close>

lemma Compare_eq_0 [simp]: "Compare a b = 0 \<longleftrightarrow> a = b"
  by (induction a b rule: Compare.induct) auto

lemma Compare_refl [simp]: "Compare a a = 0"
  by simp

lemma Compare_values: "Compare a b \<in> {-1, 0, 1}"
  by (induction a b rule: Compare.induct) auto

lemma Compare_swap: "Compare b a = - Compare a b"
  by (induction a b rule: Compare.induct) auto

lemma Compare_trans: "Compare a b < 0 \<Longrightarrow> Compare b c < 0 \<Longrightarrow> Compare a c < 0"
proof (induction a b arbitrary: c rule: Compare.induct)
  case (2 y b)
  then show ?case by (cases c) auto
next
  case (4 x a y b)
  then show ?case
    by (cases c) (auto split: if_splits)
qed auto

lemma Compare_prefix: "Compare (p @ a) (p @ b) = Compare a b"
  by (induction p) auto

lemma Compare_Nil [simp]: "Compare [] b \<le> 0" "0 \<le> Compare b []"
  by (cases b; simp)+

locale comparer =
  fixes cmp :: "bytes \<Rightarrow> bytes \<Rightarrow> int"
    and sep :: "bytes \<Rightarrow> bytes \<Rightarrow> bytes \<Rightarrow> bytes option"
    and succ :: "bytes \<Rightarrow> bytes \<Rightarrow> bytes option"
  assumes cmp_values: "cmp a b \<in> {-1, 0, 1}"
    and cmp_eq: "cmp a b = 0 \<longleftrightarrow> a = b"
    and cmp_swap: "cmp b a = - cmp a b"
    and cmp_trans: "cmp a b < 0 \<Longrightarrow> cmp b c < 0 \<Longrightarrow> cmp a c < 0"
    and cmp_Nil: "a \<noteq> [] \<Longrightarrow> cmp [] a < 0"
    and sep_law: "sep dst a b = Some r \<Longrightarrow> \<exists>x. r = dst @ x \<and> cmp a x \<le> 0 \<and> cmp x b < 0"
    and succ_law: "succ dst b = Some r \<Longrightarrow> \<exists>x. r = dst @ x \<and> cmp b x \<le> 0"
begin

lemma le_trans: "cmp a b \<le> 0 \<Longrightarrow> cmp b c \<le> 0 \<Longrightarrow> cmp a c \<le> 0"
  by (metis cmp_eq cmp_trans order.order_iff_strict)

lemma le_less_trans: "cmp a b \<le> 0 \<Longrightarrow> cmp b c < 0 \<Longrightarrow> cmp a c < 0"
  by (metis cmp_eq cmp_trans order.order_iff_strict)

lemma less_le_trans: "cmp a b < 0 \<Longrightarrow> cmp b c \<le> 0 \<Longrightarrow> cmp a c < 0"
  by (metis cmp_eq cmp_trans order.order_iff_strict)

lemma not_le: "\<not> cmp a b \<le> 0 \<longleftrightarrow> cmp b a < 0"
  using cmp_swap [of a b] by auto

text \<open>A separator tells the keys of one block from those of the next, as an index entry must.\<close>

lemma separates:
  assumes "sep [] a b = Some x" and "cmp k a \<le> 0" and "cmp b l \<le> 0"
  shows "cmp k x \<le> 0" and "cmp x l < 0"
  using sep_law [OF assms(1)] assms(2,3) le_trans less_le_trans by auto

end

section \<open>Separator and successor\<close>

lemma first_diff_le: "i \<le> n \<Longrightarrow> first_diff a b n i \<le> n"
  by (induction a b n i rule: first_diff.induct) (subst first_diff.simps, auto)

lemma first_diff_ge: "i \<le> first_diff a b n i"
  by (induction a b n i rule: first_diff.induct) (subst first_diff.simps, auto)

lemma first_diff_same: "i \<le> j \<Longrightarrow> j < first_diff a b n i \<Longrightarrow> a ! j = b ! j"
proof (induction a b n i rule: first_diff.induct)
  case (1 a b n i)
  show ?case
    using "1.prems" "1.IH" by (subst (asm) first_diff.simps) (cases "i = j", auto split: if_splits)
qed

lemma first_diff_differs: "first_diff a b n i < n \<Longrightarrow> a ! first_diff a b n i \<noteq> b ! first_diff a b n i"
proof (induction a b n i rule: first_diff.induct)
  case (1 a b n i)
  show ?case
  proof (cases "i < n \<and> a ! i = b ! i")
    case True
    then have "first_diff a b n i = first_diff a b n (Suc i)" by (simp add: first_diff.simps [of a b n i])
    with True "1.prems" "1.IH" show ?thesis by simp
  next
    case False
    then have "first_diff a b n i = i" by (subst first_diff.simps) auto
    with False "1.prems" show ?thesis by auto
  qed
qed

lemma byte_Suc_order: "c < (0xff :: byte) \<Longrightarrow> c < c + 1"
  by (simp add: word_less_nat_alt unat_plus_if')

lemma byte_below_max: "c < (0xff :: byte) \<longleftrightarrow> c \<noteq> 0xff"
proof -
  have "(0xff :: byte) = - 1" by simp
  then show ?thesis using word_order.not_eq_extremum [of c] by metis
qed

lemma bump_last:
  assumes "i < length a"
  shows "(dst @ take (i + 1) a)[length (dst @ take (i + 1) a) - 1 :=
           (dst @ take (i + 1) a) ! (length (dst @ take (i + 1) a) - 1) + 1] =
         dst @ take i a @ [a ! i + 1]"
  using assms by (simp add: take_Suc_conv_app_nth list_update_append nth_append)

lemma split_at: "i < length a \<Longrightarrow> a = take i a @ a ! i # drop (Suc i) a"
  by (rule id_take_nth_drop)

lemma Separator_between:
  assumes "Separator dst a b = Some r"
  obtains x where "r = dst @ x" and "Compare a x < 0" and "Compare x b < 0" and "length x \<le> length a"
proof -
  define n where "n = min (length a) (length b)"
  define i where "i = first_diff a b n 0"
  have n: "(if length b < length a then length b else length a) = n" by (simp add: n_def)
  from assms have i: "i < n" and c: "a ! i < 0xff" "a ! i + 1 < b ! i"
    and r: "r = (dst @ take (i + 1) a)[length (dst @ take (i + 1) a) - 1 :=
           (dst @ take (i + 1) a) ! (length (dst @ take (i + 1) a) - 1) + 1]"
    by (auto simp: Separator_def Let_def n i_def [symmetric] not_le split: if_splits)
  have ia: "i < length a" and ib: "i < length b" using i by (simp_all add: n_def)
  have "take i a = take i b"
    using ia ib first_diff_same [of 0 _ a b n] by (intro nth_take_lemma) (simp_all add: i_def)
  then have b: "b = take i a @ b ! i # drop (Suc i) b" using split_at [OF ib] by simp
  let ?x = "take i a @ [a ! i + 1]"
  have "Compare (a ! i # drop (Suc i) a) [a ! i + 1] < 0" using byte_Suc_order [OF c(1)] by simp
  then have "Compare a ?x < 0" by (subst split_at [OF ia]) (simp only: Compare_prefix)
  moreover have "Compare ?x b < 0" by (subst b) (simp only: Compare_prefix, simp add: c(2))
  moreover have "r = dst @ ?x" using r bump_last [OF ia] by simp
  ultimately show thesis using that ia by force
qed

text \<open>There is a separator whenever there is room for one at the first byte that differs.\<close>

lemma first_diff_at:
  assumes "a = p @ c # a'" and "b = p @ d # b'" and "c \<noteq> d" and "length p < n"
  shows "first_diff a b n 0 = length p"
proof (rule linorder_cases [of "first_diff a b n 0" "length p"])
  assume "first_diff a b n 0 < length p"
  then show ?thesis
    using first_diff_differs [of a b n 0] assms by (simp add: nth_append)
next
  assume "length p < first_diff a b n 0"
  then show ?thesis
    using first_diff_same [of 0 "length p" a b n] assms by simp
qed

lemma Separator_None:
  assumes "Separator dst (p @ c # a) (p @ d # b) = None"
  shows "\<not> unat c + 1 < unat d"
proof
  assume room: "unat c + 1 < unat d"
  obtain m where m: "unat d = m" "m < 256"
    using unat_lt_pow8 by blast
  then have "unat c < 255"
    using room by simp
  with room have c: "c < 0xff" "c + 1 < d" "c \<noteq> d"
    by (auto simp: word_less_nat_alt unat_plus_if')
  define n where "n = min (length (p @ c # a)) (length (p @ d # b))"
  have n: "(if length (p @ d # b) < length (p @ c # a) then length (p @ d # b) else length (p @ c # a)) = n"
    by (simp add: n_def)
  have "first_diff (p @ c # a) (p @ d # b) n 0 = length p" "length p < n"
    using c(3) by (auto simp: n_def intro: first_diff_at)
  then show False
    using assms c unfolding Separator_def Let_def n by (simp split: if_splits)
qed

lemma successor_loop_after:
  assumes "successor_loop dst b (length p) cs = Some r" and "b = p @ cs" and "set p \<subseteq> {0xff}"
  shows "\<exists>x. r = dst @ x \<and> Compare b x < 0 \<and> length x \<le> length b"
  using assms
proof (induction cs arbitrary: p)
  case (Cons c cs)
  show ?case
  proof (cases "c = 0xff")
    case True
    then show ?thesis using Cons.IH [of "p @ [c]"] Cons.prems by simp
  next
    case False
    have len: "length p < length b" and nth: "b ! length p = c" using Cons.prems(2) by auto
    have "c < 0xff" using False by (simp only: byte_below_max) simp
    then have "Compare b (p @ [c + 1]) < 0"
      unfolding Cons.prems(2) by (simp only: Compare_prefix) (simp add: byte_Suc_order)
    then show ?thesis
      using Cons.prems(1,2) False bump_last [OF len, of dst] nth
      by (intro exI [of _ "p @ [c + 1]"]) (simp add: Let_def)
  qed
qed simp

lemma successor_loop_None:
  "successor_loop dst b i cs = None \<longleftrightarrow> set cs \<subseteq> {0xff}"
  by (induction dst b i cs rule: successor_loop.induct) (auto simp: Let_def)

interpretation bytewise: comparer Compare Separator Successor
proof unfold_locales
  show "Compare [] a < 0" if "a \<noteq> []" for a using that by (cases a) auto
  show "\<exists>x. r = dst @ x \<and> Compare a x \<le> 0 \<and> Compare x b < 0" if "Separator dst a b = Some r" for dst a b r
    using that by (rule Separator_between) force
  show "\<exists>x. r = dst @ x \<and> Compare b x \<le> 0" if "Successor dst b = Some r" for dst b r
    using successor_loop_after [of dst b "[]" b r] that by (force simp: Successor_def)
  show "Compare a b \<in> {-1, 0, 1}" for a b by (rule Compare_values)
  show "Compare b a = - Compare a b" for a b by (rule Compare_swap)
  show "Compare a c < 0" if "Compare a b < 0" "Compare b c < 0" for a b c
    using that by (rule Compare_trans)
qed simp

section \<open>The range of a prefix\<close>

lemma prefix_limit_None: "i \<le> length p \<Longrightarrow> prefix_limit p i = None \<Longrightarrow> set (take i p) \<subseteq> {0xff}"
proof (induction p i rule: prefix_limit.induct)
  case (2 p i)
  then show ?case by (auto simp: Let_def take_Suc_conv_app_nth byte_below_max split: if_splits)
qed simp

lemma prefix_limit_Some:
  assumes "prefix_limit p i = Some l" and "i \<le> length p"
  shows "\<exists>q c r. take i p = q @ c # r \<and> c < 0xff \<and> l = q @ [c + 1] \<and> set r \<subseteq> {0xff}"
  using assms
proof (induction p i rule: prefix_limit.induct)
  case (2 p i)
  show ?case
  proof (cases "p ! i < 0xff")
    case True
    have "(fst (copy_at (replicate (i + 1) 0) 0 p))[i := p ! i + 1] = take i p @ [p ! i + 1]"
      using 2 by (simp add: copy_at_def Let_def list_update_append take_Suc_conv_app_nth min_def)
    then show ?thesis
      using 2 True
      by (intro exI [of _ "take i p"] exI [of _ "p ! i"] exI [of _ "[]"]) (simp add: Let_def take_Suc_conv_app_nth)
  next
    case False
    then obtain q c r where *: "take i p = q @ c # r" "c < 0xff" "l = q @ [c + 1]" "set r \<subseteq> {0xff}"
      using 2 by (auto simp: Let_def)
    have "p ! i = 0xff" using False by (simp only: byte_below_max) simp
    then show ?thesis
      using * 2(3) by (intro exI [of _ q] exI [of _ c] exI [of _ "r @ [0xff]"]) (simp add: take_Suc_conv_app_nth)
  qed
qed simp

text \<open>Above a run of maximal bytes there are only its extensions.\<close>

lemma max_run_prefix: "set p \<subseteq> {0xff} \<Longrightarrow> 0 \<le> Compare k p \<longleftrightarrow> take (length p) k = p"
proof (induction p arbitrary: k)
  case (Cons c p)
  have c: "c = 0xff" using Cons.prems by simp
  show ?case
  proof (cases k)
    case (Cons x xs)
    have "\<not> 0xff < x" using byte_below_max [of x] by force
    then show ?thesis using Cons Cons.IH [of xs] Cons.prems c byte_below_max [of x] by (auto simp: not_less)
  qed simp
qed simp

lemma range_below_bump:
  assumes "c < 0xff" and "set r \<subseteq> {0xff}"
  shows "0 \<le> Compare k (q @ c # r) \<and> Compare k (q @ [c + 1]) < 0 \<longleftrightarrow> take (length (q @ c # r)) k = q @ c # r"
proof (induction q arbitrary: k)
  case Nil
  show ?case
  proof (cases k)
    case (Cons x xs)
    have "x < c + 1 \<longleftrightarrow> x \<le> c" using assms(1) by (simp add: word_less_nat_alt word_le_nat_alt unat_plus_if' less_Suc_eq_le)
    then show ?thesis using Cons max_run_prefix [OF assms(2), of xs] by (auto simp: not_less)
  qed simp
next
  case (Cons y q)
  then show ?case by (cases k) auto
qed

section \<open>Properties\<close>

text \<open>
  C34: index keys.  When the bytewise comparer shortens a key, the separator it appends to \<open>dst\<close> is strictly between
  the two keys and no longer than the first, so every key up to \<open>a\<close> sorts before it and every key from \<open>b\<close> on
  after it; it refuses only when, at the first byte that differs, there is no byte between the two.  For every key \<open>s\<close>, a successor it appends is strictly above the key
  and no longer, and there is none exactly for a key of bytes 0xff.
\<close>

theorem index_keys:
  assumes "Compare k a \<le> 0" and "Compare b l \<le> 0"
  shows "(case Separator dst a b of
       None \<Rightarrow> \<not> (\<exists>p c d a' b'. a = p @ c # a' \<and> b = p @ d # b' \<and> unat c + 1 < unat d)
     | Some r \<Rightarrow> (\<exists>x. r = dst @ x \<and> Compare k x < 0 \<and> Compare x l < 0 \<and> length x \<le> length a)) \<and>
    (Successor dst s = None \<longleftrightarrow> set s \<subseteq> {0xff}) \<and>
    (case Successor dst s of None \<Rightarrow> True | Some r \<Rightarrow> (\<exists>x. r = dst @ x \<and> Compare s x < 0 \<and> length x \<le> length s))"
proof (intro conjI)
  show "case Separator dst a b of
       None \<Rightarrow> \<not> (\<exists>p c d a' b'. a = p @ c # a' \<and> b = p @ d # b' \<and> unat c + 1 < unat d)
     | Some r \<Rightarrow> (\<exists>x. r = dst @ x \<and> Compare k x < 0 \<and> Compare x l < 0 \<and> length x \<le> length a)"
  proof (cases "Separator dst a b")
    case (Some r)
    then obtain x where "r = dst @ x" "Compare a x < 0" "Compare x b < 0" "length x \<le> length a"
      by (rule Separator_between)
    then show ?thesis
      using Some assms bytewise.le_less_trans bytewise.less_le_trans by auto
  qed (use Separator_None in auto)
  show "Successor dst s = None \<longleftrightarrow> set s \<subseteq> {0xff}"
    by (simp add: Successor_def successor_loop_None)
  show "case Successor dst s of None \<Rightarrow> True | Some r \<Rightarrow> (\<exists>x. r = dst @ x \<and> Compare s x < 0 \<and> length x \<le> length s)"
    using successor_loop_after [of dst s "[]" s] by (simp add: Successor_def split: option.split)
qed

theorem index_keys_witness:
  "(\<exists>x. [9, 1, 3] = [9] @ x \<and> Compare [1, 2, 7] x < 0 \<and> Compare x [1, 8] < 0 \<and> length x \<le> 3) \<and> Successor [9] [0xfe, 1] = Some [9, 0xff] \<and> Compare [0xfe, 1] [0xff] < 0"
proof -
  have "Separator [9] [1, 2, 7] [1, 8] = Some [9, 1, 3]" "Successor [9] [0xfe, 1] = Some [9, 0xff]"
    by (simp_all add: Separator_def Successor_def Let_def first_diff.simps)
  then show ?thesis
    using index_keys [of "[1, 2, 7]" "[1, 2, 7]" "[1, 8]" "[1, 8]" "[9]" "[0xfe, 1]"] by simp
qed

text \<open>
  C35: \<^verbatim>\<open>BytesPrefix\<close> is exact: a key lies in the range it returns if and only if it starts with the
  prefix, also for the empty prefix and for prefixes that end in, or consist of, bytes 0xff.
\<close>

theorem BytesPrefix_exact: "in_range (BytesPrefix p) k \<longleftrightarrow> take (length p) k = p"
proof (cases "prefix_limit p (length p)")
  case None
  then show ?thesis
    using prefix_limit_None [of "length p" p] max_run_prefix [of p k] by (simp add: in_range_def BytesPrefix_def)
next
  case (Some l)
  then obtain q c r where "p = q @ c # r" "c < 0xff" "l = q @ [c + 1]" "set r \<subseteq> {0xff}"
    using prefix_limit_Some [OF Some] by auto
  then show ?thesis
    using range_below_bump [of c r k q] Some by (simp add: in_range_def BytesPrefix_def)
qed

end
