(* ===== verification/Ldb_Bloom.thy ===== *)
theory Ldb_Bloom
  imports Prelude
begin

unbundle bit_operations_syntax

text \<open>
  The bloom filter of the table files: \<^verbatim>\<open>goleveldb/leveldb/filter/bloom.go\<close> over the hash of
  \<^verbatim>\<open>util/hash.go\<close>.  All hash arithmetic is on 32-bit words.  The buffer \<^verbatim>\<open>b\<close> the filter is written to is
  not part of these files: \<^verbatim>\<open>b.Alloc(n)\<close> is the function \<open>alloc\<close>, which need only return \<open>n\<close> bytes,
  of whatever content.  \<open>None\<close> is a panic: a division by zero or an index out of range.
\<close>

section \<open>The hash\<close>

definition hash_m :: u32 where "hash_m = 0xc6a4a793"
definition hash_r :: nat where "hash_r = 24"

definition le32 :: "byte \<Rightarrow> byte \<Rightarrow> byte \<Rightarrow> byte \<Rightarrow> u32" where
  "le32 a b c d = ucast a OR push_bit 8 (ucast b) OR push_bit 16 (ucast c) OR push_bit 24 (ucast d)"

text \<open>The loop over whole groups of four bytes, and the switch on what is left.\<close>

fun hash_loop :: "u32 \<Rightarrow> bytes \<Rightarrow> u32" where
  "hash_loop h (a # b # c # d # rest) =
     (let h = h + le32 a b c d; h = h * hash_m; h = h XOR drop_bit 16 h in hash_loop h rest)"
| "hash_loop h [a, b, c] =
     (let h = h + push_bit 16 (ucast c); h = h + push_bit 8 (ucast b); h = h + ucast a; h = h * hash_m
      in h XOR drop_bit hash_r h)"
| "hash_loop h [a, b] =
     (let h = h + push_bit 8 (ucast b); h = h + ucast a; h = h * hash_m in h XOR drop_bit hash_r h)"
| "hash_loop h [a] = (let h = h + ucast a; h = h * hash_m in h XOR drop_bit hash_r h)"
| "hash_loop h [] = h"

definition Hash :: "bytes \<Rightarrow> u32 \<Rightarrow> u32" where
  "Hash data seed = hash_loop (seed XOR (of_nat (length data) * hash_m)) data"

definition bloomHash :: "bytes \<Rightarrow> u32" where
  "bloomHash key = Hash key 0xbc9f1d34"

section \<open>The filter\<close>

definition bloom_delta :: "u32 \<Rightarrow> u32" where
  "bloom_delta kh = drop_bit 17 kh OR push_bit 15 kh"

text \<open>The probe loop of \<^verbatim>\<open>Contains\<close>, \<open>k\<close> probes left.\<close>

fun contains_loop :: "bytes \<Rightarrow> u32 \<Rightarrow> u32 \<Rightarrow> u32 \<Rightarrow> nat \<Rightarrow> bool option" where
  "contains_loop flt nBits kh delta 0 = Some True"
| "contains_loop flt nBits kh delta (Suc k) =
     (if nBits = 0 then None
      else let bitpos = kh mod nBits; i = unat (bitpos div 8)
        in if length flt \<le> i then None
           else if (ucast (flt ! i) :: u32) AND push_bit (unat (bitpos mod 8)) 1 = 0 then Some False
           else contains_loop flt nBits (kh + delta) delta k)"

definition bloom_Contains :: "bytes \<Rightarrow> bytes \<Rightarrow> bool option" where
  "bloom_Contains flt key =
     (let nBytes = int (length flt) - 1
      in if nBytes < 1 then Some False
         else let nBits = word_of_int (nBytes * 8); k = flt ! nat nBytes
           in if 30 < k then Some True
              else let kh = bloomHash key
                in contains_loop flt nBits kh (bloom_delta kh) (unat k))"

record bloom_generator =
  gen_n :: int
  gen_k :: byte
  keyHashes :: "u32 list"

text \<open>\<open>f * 69 / 100\<close> truncates towards zero, as Go's division does.\<close>

definition NewGenerator :: "int \<Rightarrow> bloom_generator" where
  "NewGenerator f =
     (let q = (if 0 \<le> f * 69 then f * 69 div 100 else - (- (f * 69) div 100));
          k = word_of_int q :: byte;
          k = (if k < 1 then 1 else if 30 < k then 30 else k)
      in \<lparr>gen_n = f, gen_k = k, keyHashes = []\<rparr>)"

definition bloom_Add :: "bytes \<Rightarrow> bloom_generator \<Rightarrow> bloom_generator" where
  "bloom_Add key g = g\<lparr>keyHashes := keyHashes g @ [bloomHash key]\<rparr>"

fun set_bits :: "bytes \<Rightarrow> u32 \<Rightarrow> u32 \<Rightarrow> u32 \<Rightarrow> nat \<Rightarrow> bytes option" where
  "set_bits dest nBits kh delta 0 = Some dest"
| "set_bits dest nBits kh delta (Suc k) =
     (if nBits = 0 then None
      else let bitpos = kh mod nBits; i = unat (bitpos div 8)
        in if length dest \<le> i then None
           else set_bits (dest[i := dest ! i OR push_bit (unat (bitpos mod 8)) 1]) nBits (kh + delta) delta k)"

fun set_all :: "bytes \<Rightarrow> u32 \<Rightarrow> nat \<Rightarrow> u32 list \<Rightarrow> bytes option" where
  "set_all dest nBits k [] = Some dest"
| "set_all dest nBits k (kh # khs) =
     (case set_bits dest nBits kh (bloom_delta kh) k of
        None \<Rightarrow> None
      | Some dest \<Rightarrow> set_all dest nBits k khs)"

definition bloom_Generate :: "(nat \<Rightarrow> bytes) \<Rightarrow> bloom_generator \<Rightarrow> (bytes \<times> bloom_generator) option" where
  "bloom_Generate alloc g =
     (let nBits = word_of_int (int (length (keyHashes g)) * gen_n g) :: u32;
          nBits = (if nBits < 64 then 64 else nBits);
          nBytes = (nBits + 7) div 8;
          nBits = nBytes * 8;
          dest = alloc (unat nBytes + 1)
      in if length dest \<le> unat nBytes then None
         else map_option (\<lambda>dest. (dest, g\<lparr>keyHashes := []\<rparr>))
                (set_all (dest[unat nBytes := gen_k g]) nBits (unat (gen_k g)) (keyHashes g)))"

section \<open>Bits are set and stay set\<close>

text \<open>The bit at position \<open>p\<close> of the filter.\<close>

definition bit_at :: "bytes \<Rightarrow> nat \<Rightarrow> bool" where
  "bit_at f p \<longleftrightarrow> p div 8 < length f \<and> bit (f ! (p div 8)) (p mod 8)"

fun probes :: "u32 \<Rightarrow> u32 \<Rightarrow> u32 \<Rightarrow> nat \<Rightarrow> nat list" where
  "probes nBits kh delta 0 = []"
| "probes nBits kh delta (Suc k) = unat (kh mod nBits) # probes nBits (kh + delta) delta k"

lemma test_bit_of_byte:
  "n < 8 \<Longrightarrow> (ucast (b :: byte) :: u32) AND push_bit n 1 = 0 \<longleftrightarrow> \<not> bit b n"
proof
  assume n: "n < 8" and z: "(ucast b :: u32) AND push_bit n 1 = 0"
  have "\<not> bit ((ucast b :: u32) AND push_bit n 1) n" by (simp only: z) simp
  then show "\<not> bit b n" using n by (simp add: bit_simps)
next
  assume n: "n < 8" and "\<not> bit b n"
  then show "(ucast b :: u32) AND push_bit n 1 = 0"
    by (intro bit_word_eqI) (auto simp: bit_simps)
qed

lemma probe_index: "unat (bitpos div 8 :: u32) = unat bitpos div 8" "unat (bitpos mod 8 :: u32) = unat bitpos mod 8"
  by (simp_all add: unat_div unat_mod)

lemma contains_loop_probes:
  assumes "nBits \<noteq> 0" and "unat nBits \<le> 8 * length f"
  shows "contains_loop f nBits kh delta k = Some (list_all (bit_at f) (probes nBits kh delta k))"
proof (induction k arbitrary: kh)
  case (Suc k)
  have "unat (kh mod nBits) < unat nBits" using assms(1) by (simp add: unat_mod word_gt_0_no unat_gt_0)
  then have "unat (kh mod nBits) div 8 < length f" using assms(2) by linarith
  then show ?case
    using assms(1) Suc by (auto simp: Let_def probe_index test_bit_of_byte [unfolded push_bit_of_1] bit_at_def)
qed simp

lemma probe_bound:
  assumes "nBits \<noteq> 0" and "unat nBits = 8 * nB"
  shows "unat (kh mod nBits) div 8 < nB"
proof -
  have "unat (kh mod nBits) < unat nBits" using assms(1) by (simp add: unat_mod unat_gt_0)
  then show ?thesis using assms(2) by linarith
qed

lemma bit_at_set:
  assumes "q div 8 < length d"
  shows "bit_at (d[q div 8 := d ! (q div 8) OR push_bit (q mod 8) 1]) p \<longleftrightarrow> bit_at d p \<or> p = q"
proof (cases "p div 8 = q div 8")
  case True
  have "p mod 8 = q mod 8 \<longleftrightarrow> p = q" using True by (metis div_mult_mod_eq)
  then show ?thesis
    using assms True by (auto simp: bit_at_def bit_simps)
next
  case False
  then show ?thesis using assms by (auto simp: bit_at_def nth_list_update)
qed

lemma set_bits_correct:
  assumes "nBits \<noteq> 0" and "unat nBits = 8 * nB" and "nB < length d"
  shows "\<exists>d'. set_bits d nBits kh delta k = Some d' \<and> length d' = length d \<and> d' ! nB = d ! nB \<and>
    (\<forall>p. bit_at d' p \<longleftrightarrow> bit_at d p \<or> p \<in> set (probes nBits kh delta k))"
  using assms(3)
proof (induction k arbitrary: kh d)
  case (Suc k)
  let ?p = "unat (kh mod nBits)"
  let ?d = "d[?p div 8 := d ! (?p div 8) OR push_bit (?p mod 8) 1]"
  have b: "?p div 8 < nB" by (rule probe_bound [OF assms(1,2)])
  then have l: "?p div 8 < length d" using Suc.prems by simp
  have "nB < length ?d" using Suc.prems by simp
  from Suc.IH [OF this, of "kh + delta"] obtain d' where
    "set_bits ?d nBits (kh + delta) delta k = Some d'" "length d' = length d" "d' ! nB = d ! nB"
    "\<forall>p. bit_at d' p \<longleftrightarrow> bit_at ?d p \<or> p \<in> set (probes nBits (kh + delta) delta k)"
    using b by auto
  then show ?case
    using assms(1) l by (simp add: Let_def probe_index bit_at_set [OF l] del: push_bit_of_1)
qed simp

lemma set_all_correct:
  assumes "nBits \<noteq> 0" and "unat nBits = 8 * nB" and "nB < length d"
  shows "\<exists>d'. set_all d nBits k khs = Some d' \<and> length d' = length d \<and> d' ! nB = d ! nB \<and>
    (\<forall>p. bit_at d' p \<longleftrightarrow> bit_at d p \<or> (\<exists>kh \<in> set khs. p \<in> set (probes nBits kh (bloom_delta kh) k)))"
  using assms(3)
proof (induction khs arbitrary: d)
  case (Cons kh khs)
  obtain d1 where d1: "set_bits d nBits kh (bloom_delta kh) k = Some d1" "length d1 = length d" "d1 ! nB = d ! nB"
    "\<forall>p. bit_at d1 p \<longleftrightarrow> bit_at d p \<or> p \<in> set (probes nBits kh (bloom_delta kh) k)"
    using set_bits_correct [OF assms(1,2) Cons.prems] by blast
  have "nB < length d1" using Cons.prems d1(2) by simp
  from Cons.IH [OF this] d1 show ?case by auto
qed simp

lemma probes_bound:
  assumes "8 \<le> nB" and "nB * 8 < 2 ^ 32" and "p \<in> set (probes (of_nat (nB * 8)) kh delta k)"
  shows "p div 8 < nB"
  using assms(3)
proof (induction k arbitrary: kh)
  case (Suc k)
  have n: "unat (of_nat (nB * 8) :: u32) = 8 * nB"
    using assms(2) by (simp add: unsigned_of_nat take_bit_nat_eq_self del: of_nat_mult)
  then have "(of_nat (nB * 8) :: u32) \<noteq> 0" using assms(1) by auto
  from probe_bound [OF this n] Suc show ?case by auto
qed simp

lemma bloom_Contains_probes:
  assumes "length f = nB + 1" and "8 \<le> nB" and "nB * 8 < 2 ^ 32"
  shows "bloom_Contains f key =
    Some (30 < f ! nB \<or> list_all (bit_at f) (probes (of_nat (nB * 8)) (bloomHash key) (bloom_delta (bloomHash key)) (unat (f ! nB))))"
proof -
  have n: "unat (of_nat (nB * 8) :: u32) = 8 * nB"
    using assms(3) by (simp add: unsigned_of_nat take_bit_nat_eq_self del: of_nat_mult)
  then have "(of_nat (nB * 8) :: u32) \<noteq> 0" using assms(2) by auto
  moreover have "unat (of_nat (nB * 8) :: u32) \<le> 8 * length f" using n assms(1) by simp
  ultimately have "contains_loop f (of_nat (nB * 8)) kh delta k =
      Some (list_all (bit_at f) (probes (of_nat (nB * 8)) kh delta k))" for kh delta k
    by (rule contains_loop_probes)
  then show ?thesis using assms(1,2) by (simp add: bloom_Contains_def Let_def)
qed

section \<open>The generator\<close>

lemma NewGenerator_k: "1 \<le> unat (gen_k (NewGenerator f))" "unat (gen_k (NewGenerator f)) \<le> 30"
  by (auto simp: NewGenerator_def Let_def word_less_nat_alt)

lemma fold_bloom_Add:
  "fold bloom_Add keys g = g\<lparr>keyHashes := keyHashes g @ map bloomHash keys\<rparr>"
  by (induction keys arbitrary: g) (simp_all add: bloom_Add_def)

lemma filter_size:
  fixes m :: u32
  assumes "unat m \<le> 2 ^ 32 - 8" and "64 \<le> unat m"
  defines "nB \<equiv> (m + 7) div 8"
  shows "8 \<le> unat nB" and "unat (nB * 8) = 8 * unat nB" and "nB * 8 \<noteq> 0" and "unat nB * 8 < 2 ^ 32"
proof -
  have "unat (m + 7) = unat m + 7" using assms(1) by (simp add: unat_plus_if')
  then have nB: "unat nB = (unat m + 7) div 8" by (simp add: nB_def unat_div)
  then show "8 \<le> unat nB" using assms(2) by simp
  show small: "unat nB * 8 < 2 ^ 32" using nB assms(1) div_times_less_eq_dividend [of "unat m + 7" 8] by simp
  then have "unat (nB * 8) = unat nB * 8"
    by (simp add: unat_word_ariths)
  then show "unat (nB * 8) = 8 * unat nB" by simp
  with \<open>8 \<le> unat nB\<close> show "nB * 8 \<noteq> 0" by auto
qed

text \<open>What \<^verbatim>\<open>Generate\<close> writes: the probe count last, and the bits of every added key.\<close>

lemma bloom_Generate_correct:
  assumes alloc: "\<forall>n. length (alloc n) = n" and f: "0 \<le> f" and small: "int (length keys) * f \<le> 2 ^ 32 - 8"
  obtains flt nB where "bloom_Generate alloc (fold bloom_Add keys (NewGenerator f)) = Some (flt, NewGenerator f)"
    and "length flt = nB + 1" and "8 \<le> nB" and "nB * 8 < 2 ^ 32" and "flt ! nB = gen_k (NewGenerator f)"
    and "\<And>p. p div 8 < nB \<Longrightarrow> bit_at flt p \<longleftrightarrow> bit_at (alloc (nB + 1)) p \<or>
           (\<exists>key \<in> set keys. p \<in> set (probes (of_nat (nB * 8)) (bloomHash key) (bloom_delta (bloomHash key)) (unat (gen_k (NewGenerator f)))))"
proof -
  let ?g = "fold bloom_Add keys (NewGenerator f)"
  define b :: u32 where "b = word_of_int (int (length keys) * f)"
  define m where "m = (if b < 64 then 64 else b)"
  define nB where "nB = (m + 7) div 8"
  have g: "gen_n ?g = f" "gen_k ?g = gen_k (NewGenerator f)" "keyHashes ?g = map bloomHash keys"
      "?g\<lparr>keyHashes := []\<rparr> = NewGenerator f"
    by (simp_all add: fold_bloom_Add) (simp_all add: NewGenerator_def Let_def)
  have "0 \<le> int (length keys) * f" using f by simp
  then have "uint b = int (length keys) * f"
    unfolding b_def using small by (simp only: uint_word_of_int) simp
  then have b: "unat b \<le> 2 ^ 32 - 8" using small by (simp add: unat_eq_nat_uint nat_le_iff)
  have m: "unat m \<le> 2 ^ 32 - 8" "64 \<le> unat m"
    using b by (auto simp: m_def word_less_nat_alt)
  note fs = filter_size [OF m, folded nB_def]
  define d where "d = (alloc (unat nB + 1))[unat nB := gen_k (NewGenerator f)]"
  have len: "length (alloc (unat nB + 1)) = unat nB + 1" using alloc by blast
  then have "unat nB < length d" by (simp add: d_def)
  from set_all_correct [OF fs(3) fs(2) this, of "unat (gen_k (NewGenerator f))" "map bloomHash keys"]
  obtain flt where flt: "set_all d (nB * 8) (unat (gen_k (NewGenerator f))) (map bloomHash keys) = Some flt"
    "length flt = length d" "flt ! unat nB = d ! unat nB"
    "\<forall>p. bit_at flt p \<longleftrightarrow> bit_at d p \<or> (\<exists>kh \<in> set (map bloomHash keys).
       p \<in> set (probes (nB * 8) kh (bloom_delta kh) (unat (gen_k (NewGenerator f)))))" by blast
  have gen: "bloom_Generate alloc ?g = Some (flt, NewGenerator f)"
    unfolding bloom_Generate_def Let_def g length_map b_def [symmetric] m_def [symmetric] nB_def [symmetric]
    using flt(1) len by (simp add: d_def)
  have bits: "bit_at d p = bit_at (alloc (unat nB + 1)) p" if "p div 8 < unat nB" for p
    using that len by (simp add: bit_at_def d_def)
  have word: "of_nat (unat nB * 8) = nB * 8" by simp
  show thesis
    using gen flt len fs(1,4) bits word by (intro that [of flt "unat nB"]) (auto simp: d_def)
qed

section \<open>Properties\<close>

text \<open>
  C33: the bloom filter has no false negatives.  Whatever the buffer held before, as long as the filter's size in bits
  does not overflow 32 bits, \<^verbatim>\<open>Generate\<close> succeeds for any keys added, resets the
  generator, and every one of the keys passes \<^verbatim>\<open>Contains\<close> on the filter written.
\<close>

theorem bloom_no_false_negatives:
  assumes "\<forall>n. length (alloc n) = n" and "0 \<le> f" and "int (length keys) * f \<le> 2 ^ 32 - 8"
  shows "\<exists>flt. bloom_Generate alloc (fold bloom_Add keys (NewGenerator f)) = Some (flt, NewGenerator f) \<and>
    (\<forall>key \<in> set keys. bloom_Contains flt key = Some True)"
proof -
  obtain flt nB where flt: "bloom_Generate alloc (fold bloom_Add keys (NewGenerator f)) = Some (flt, NewGenerator f)"
    "length flt = nB + 1" "8 \<le> nB" "nB * 8 < 2 ^ 32" "flt ! nB = gen_k (NewGenerator f)"
    "\<And>p. p div 8 < nB \<Longrightarrow> bit_at flt p \<longleftrightarrow> bit_at (alloc (nB + 1)) p \<or>
       (\<exists>key \<in> set keys. p \<in> set (probes (of_nat (nB * 8)) (bloomHash key) (bloom_delta (bloomHash key)) (unat (gen_k (NewGenerator f)))))"
    using bloom_Generate_correct [OF assms] by metis
  have "bloom_Contains flt key = Some True" if "key \<in> set keys" for key
    using that bloom_Contains_probes [OF flt(2-4)] NewGenerator_k(2) [of f] flt(5,6) probes_bound [OF flt(3,4)]
    by (fastforce simp: list_all_iff word_less_nat_alt)
  then show ?thesis using flt(1) by blast
qed

theorem bloom_no_false_negatives_witness:
  "\<exists>flt. bloom_Generate (\<lambda>n. replicate n 0) (fold bloom_Add [[1], [2, 3]] (NewGenerator 10)) = Some (flt, NewGenerator 10) \<and>
    bloom_Contains flt [2, 3] = Some True"
  using bloom_no_false_negatives [of "\<lambda>n. replicate n 0" 10 "[[1], [2, 3]]"] by auto

end
