(* ===== verification/Ldb_Session_Record.thy ===== *)
theory Ldb_Session_Record
  imports Prelude
begin

unbundle bit_operations_syntax

text \<open>
  The manifest records of the database, \<^verbatim>\<open>goleveldb/leveldb/session_record.go\<close>: setters, encoder and
  decoder.  The writer is a function \<open>write\<close> on a state of its own, which may fail; the
  reader is the list of bytes it will deliver before \<^verbatim>\<open>io.EOF\<close>.  \<open>None\<close> is a panic: a negative number in the encoder, or
  in the decoder a \<^verbatim>\<open>make([]byte, n)\<close> whose length exceeds what the run time can allocate,
  \<open>max_alloc\<close>.  An \<^verbatim>\<open>int64\<close> or \<^verbatim>\<open>int\<close> is an \<open>int\<close>.
\<close>

section \<open>Records\<close>

definition recComparer :: nat where "recComparer = 1"
definition recJournalNum :: nat where "recJournalNum = 2"
definition recNextFileNum :: nat where "recNextFileNum = 3"
definition recSeqNum :: nat where "recSeqNum = 4"
definition recCompPtr :: nat where "recCompPtr = 5"
definition recDelTable :: nat where "recDelTable = 6"
definition recAddTable :: nat where "recAddTable = 7"
definition recPrevJournalNum :: nat where "recPrevJournalNum = 9"

lemmas rec_tags = recComparer_def recJournalNum_def recNextFileNum_def recSeqNum_def recCompPtr_def
  recDelTable_def recAddTable_def recPrevJournalNum_def

type_synonym internal_key = bytes

record cpRecord =
  cp_level :: int
  cp_ikey :: internal_key

record atRecord =
  at_level :: int
  at_num :: int
  at_size :: int
  at_imin :: internal_key
  at_imax :: internal_key

record dtRecord =
  dt_level :: int
  dt_num :: int

datatype reason = ShortRead | VarintOverflow | InvalidNegative

datatype record_error = ManifestCorrupted string reason | RecEOF

record sessionRecord =
  hasRec :: u64
  comparer_name :: bytes
  journalNum :: int
  prevJournalNum :: int
  nextFileNum :: int
  seqNum :: u64
  compPtrs :: "cpRecord list"
  addedTables :: "atRecord list"
  deletedTables :: "dtRecord list"
  rec_err :: "record_error option"

definition has :: "sessionRecord \<Rightarrow> nat \<Rightarrow> bool" where
  "has p rec \<longleftrightarrow> hasRec p AND push_bit rec 1 \<noteq> 0"

definition mark :: "nat \<Rightarrow> sessionRecord \<Rightarrow> sessionRecord" where
  "mark rec p = p\<lparr>hasRec := hasRec p OR push_bit rec 1\<rparr>"

definition unmark :: "nat \<Rightarrow> sessionRecord \<Rightarrow> sessionRecord" where
  "unmark rec p = p\<lparr>hasRec := hasRec p AND NOT (push_bit rec 1)\<rparr>"

definition setComparer :: "bytes \<Rightarrow> sessionRecord \<Rightarrow> sessionRecord" where
  "setComparer name p = (mark recComparer p)\<lparr>comparer_name := name\<rparr>"

definition setJournalNum :: "int \<Rightarrow> sessionRecord \<Rightarrow> sessionRecord" where
  "setJournalNum num p = (mark recJournalNum p)\<lparr>journalNum := num\<rparr>"

definition setPrevJournalNum :: "int \<Rightarrow> sessionRecord \<Rightarrow> sessionRecord" where
  "setPrevJournalNum num p = (mark recPrevJournalNum p)\<lparr>prevJournalNum := num\<rparr>"

definition setNextFileNum :: "int \<Rightarrow> sessionRecord \<Rightarrow> sessionRecord" where
  "setNextFileNum num p = (mark recNextFileNum p)\<lparr>nextFileNum := num\<rparr>"

definition setSeqNum :: "u64 \<Rightarrow> sessionRecord \<Rightarrow> sessionRecord" where
  "setSeqNum num p = (mark recSeqNum p)\<lparr>seqNum := num\<rparr>"

definition addCompPtr :: "int \<Rightarrow> internal_key \<Rightarrow> sessionRecord \<Rightarrow> sessionRecord" where
  "addCompPtr level ikey p =
     (mark recCompPtr p)\<lparr>compPtrs := compPtrs p @ [\<lparr>cp_level = level, cp_ikey = ikey\<rparr>]\<rparr>"

definition resetCompPtrs :: "sessionRecord \<Rightarrow> sessionRecord" where
  "resetCompPtrs p = (unmark recCompPtr p)\<lparr>compPtrs := []\<rparr>"

definition addTable :: "int \<Rightarrow> int \<Rightarrow> int \<Rightarrow> internal_key \<Rightarrow> internal_key \<Rightarrow> sessionRecord \<Rightarrow> sessionRecord" where
  "addTable level num sz imin imax p =
     (mark recAddTable p)\<lparr>addedTables := addedTables p @
        [\<lparr>at_level = level, at_num = num, at_size = sz, at_imin = imin, at_imax = imax\<rparr>]\<rparr>"

definition resetAddedTables :: "sessionRecord \<Rightarrow> sessionRecord" where
  "resetAddedTables p = (unmark recAddTable p)\<lparr>addedTables := []\<rparr>"

definition delTable :: "int \<Rightarrow> int \<Rightarrow> sessionRecord \<Rightarrow> sessionRecord" where
  "delTable level num p =
     (mark recDelTable p)\<lparr>deletedTables := deletedTables p @ [\<lparr>dt_level = level, dt_num = num\<rparr>]\<rparr>"

definition resetDeletedTables :: "sessionRecord \<Rightarrow> sessionRecord" where
  "resetDeletedTables p = (unmark recDelTable p)\<lparr>deletedTables := []\<rparr>"

section \<open>The encoder\<close>

text \<open>The state of the encoder: the writer and the error of its last write.\<close>

type_synonym ('w, 'e) enc = "'w \<times> 'e option"

definition putUvarint :: "('w \<Rightarrow> bytes \<Rightarrow> 'w \<times> 'e option) \<Rightarrow> u64 \<Rightarrow> ('w, 'e) enc \<Rightarrow> ('w, 'e) enc" where
  "putUvarint write x st = (if snd st \<noteq> None then st else write (fst st) (PutUvarint x))"

definition putVarint :: "('w \<Rightarrow> bytes \<Rightarrow> 'w \<times> 'e option) \<Rightarrow> int \<Rightarrow> ('w, 'e) enc \<Rightarrow> ('w, 'e) enc option" where
  "putVarint write x st = (if x < 0 then None else Some (putUvarint write (word_of_int x) st))"

definition putBytes :: "('w \<Rightarrow> bytes \<Rightarrow> 'w \<times> 'e option) \<Rightarrow> bytes \<Rightarrow> ('w, 'e) enc \<Rightarrow> ('w, 'e) enc" where
  "putBytes write x st =
     (if snd st \<noteq> None then st
      else let st = putUvarint write (of_nat (length x)) st
        in if snd st \<noteq> None then st else write (fst st) x)"

definition encode_compPtr :: "('w \<Rightarrow> bytes \<Rightarrow> 'w \<times> 'e option) \<Rightarrow> cpRecord \<Rightarrow> ('w, 'e) enc \<Rightarrow> ('w, 'e) enc option" where
  "encode_compPtr write r st =
     (let st = putUvarint write (of_nat recCompPtr) st;
          st = putUvarint write (word_of_int (cp_level r)) st
      in Some (putBytes write (cp_ikey r) st))"

definition encode_delTable :: "('w \<Rightarrow> bytes \<Rightarrow> 'w \<times> 'e option) \<Rightarrow> dtRecord \<Rightarrow> ('w, 'e) enc \<Rightarrow> ('w, 'e) enc option" where
  "encode_delTable write r st =
     (let st = putUvarint write (of_nat recDelTable) st;
          st = putUvarint write (word_of_int (dt_level r)) st
      in putVarint write (dt_num r) st)"

definition encode_addTable :: "('w \<Rightarrow> bytes \<Rightarrow> 'w \<times> 'e option) \<Rightarrow> atRecord \<Rightarrow> ('w, 'e) enc \<Rightarrow> ('w, 'e) enc option" where
  "encode_addTable write r st =
     (let st = putUvarint write (of_nat recAddTable) st;
          st = putUvarint write (word_of_int (at_level r)) st
      in case putVarint write (at_num r) st of None \<Rightarrow> None | Some st \<Rightarrow>
         (case putVarint write (at_size r) st of None \<Rightarrow> None | Some st \<Rightarrow>
            let st = putBytes write (at_imin r) st
            in Some (putBytes write (at_imax r) st)))"

primrec for_each :: "('r \<Rightarrow> 's \<Rightarrow> 's option) \<Rightarrow> 'r list \<Rightarrow> 's \<Rightarrow> 's option" where
  "for_each f [] st = Some st"
| "for_each f (r # rs) st = (case f r st of None \<Rightarrow> None | Some st \<Rightarrow> for_each f rs st)"

definition encode :: "('w \<Rightarrow> bytes \<Rightarrow> 'w \<times> 'e option) \<Rightarrow> sessionRecord \<Rightarrow> 'w \<Rightarrow> ('w, 'e) enc option" where
  "encode write p w =
     (let st = (w, None);
          st = (if has p recComparer
                then putBytes write (comparer_name p) (putUvarint write (of_nat recComparer) st) else st)
      in case (if has p recJournalNum
               then putVarint write (journalNum p) (putUvarint write (of_nat recJournalNum) st) else Some st) of
        None \<Rightarrow> None | Some st \<Rightarrow>
      (case (if has p recNextFileNum
             then putVarint write (nextFileNum p) (putUvarint write (of_nat recNextFileNum) st) else Some st) of
        None \<Rightarrow> None | Some st \<Rightarrow>
      (let st = (if has p recSeqNum
                 then putUvarint write (seqNum p) (putUvarint write (of_nat recSeqNum) st) else st)
       in case for_each (encode_compPtr write) (compPtrs p) st of
        None \<Rightarrow> None | Some st \<Rightarrow>
      (case for_each (encode_delTable write) (deletedTables p) st of
        None \<Rightarrow> None | Some st \<Rightarrow>
       for_each (encode_addTable write) (addedTables p) st))))"

section \<open>The decoder\<close>

type_synonym dec = "sessionRecord \<times> bytes"

definition set_err :: "record_error \<Rightarrow> sessionRecord \<Rightarrow> sessionRecord" where
  "set_err e p = p\<lparr>rec_err := Some e\<rparr>"

definition readUvarintMayEOF :: "string \<Rightarrow> bool \<Rightarrow> dec \<Rightarrow> u64 \<times> dec" where
  "readUvarintMayEOF field mayEOF st =
     (case st of (p, r) \<Rightarrow>
        if rec_err p \<noteq> None then (0, st)
        else case ReadUvarint r of
            Inr (x, r') \<Rightarrow> (x, (p, r'))
          | Inl UvUnexpectedEOF \<Rightarrow> (0, (set_err (ManifestCorrupted field ShortRead) p, []))
          | Inl UvEOF \<Rightarrow>
              (0, (set_err (if mayEOF then RecEOF else ManifestCorrupted field ShortRead) p, []))
          | Inl UvOverflow \<Rightarrow> (0, (set_err (ManifestCorrupted field VarintOverflow) p, r)))"

definition readUvarint :: "string \<Rightarrow> dec \<Rightarrow> u64 \<times> dec" where
  "readUvarint field st = readUvarintMayEOF field False st"

definition readVarint :: "string \<Rightarrow> dec \<Rightarrow> int \<times> dec" where
  "readVarint field st =
     (case readUvarintMayEOF field False st of (u, (p, r)) \<Rightarrow>
        let x = sint u
        in (x, (if x < 0 then set_err (ManifestCorrupted field InvalidNegative) p else p, r)))"

definition readBytes :: "nat \<Rightarrow> string \<Rightarrow> dec \<Rightarrow> (bytes \<times> dec) option" where
  "readBytes max_alloc field st =
     (if rec_err (fst st) \<noteq> None then Some ([], st)
      else case readUvarint field st of (n, (p, r)) \<Rightarrow>
        if rec_err p \<noteq> None then Some ([], (p, r))
        else if max_alloc < unat n then None
        else if unat n \<le> length r then Some (take (unat n) r, (p, drop (unat n) r))
        else if r = [] then Some ([], (set_err RecEOF p, []))
        else Some ([], (set_err (ManifestCorrupted field ShortRead) p, [])))"

definition readLevel :: "string \<Rightarrow> dec \<Rightarrow> int \<times> dec" where
  "readLevel field st =
     (if rec_err (fst st) \<noteq> None then (0, st)
      else case readUvarint field st of (x, st) \<Rightarrow>
        if rec_err (fst st) \<noteq> None then (0, st) else (sint x, st))"

definition if_ok :: "(sessionRecord \<Rightarrow> sessionRecord) \<Rightarrow> dec \<Rightarrow> dec" where
  "if_ok f st = (if rec_err (fst st) = None then (f (fst st), snd st) else st)"

text \<open>The cases of the switch, and one round of it; a tag it does not know is skipped.\<close>

definition decode_varint_field :: "string \<Rightarrow> (int \<Rightarrow> sessionRecord \<Rightarrow> sessionRecord) \<Rightarrow> dec \<Rightarrow> dec option" where
  "decode_varint_field field set_num st =
     (case readVarint field st of (x, st) \<Rightarrow> Some (if_ok (set_num x) st))"

definition decode_comparer :: "nat \<Rightarrow> dec \<Rightarrow> dec option" where
  "decode_comparer max_alloc st =
     (case readBytes max_alloc ''comparer'' st of
        None \<Rightarrow> None
      | Some (x, st) \<Rightarrow> Some (if_ok (setComparer x) st))"

definition decode_seqNum :: "dec \<Rightarrow> dec option" where
  "decode_seqNum st = (case readUvarint ''seq-num'' st of (x, st) \<Rightarrow> Some (if_ok (setSeqNum x) st))"

definition decode_compPtr :: "nat \<Rightarrow> dec \<Rightarrow> dec option" where
  "decode_compPtr max_alloc st =
     (case readLevel ''comp-ptr.level'' st of (level, st) \<Rightarrow>
      case readBytes max_alloc ''comp-ptr.ikey'' st of
        None \<Rightarrow> None
      | Some (ikey, st) \<Rightarrow> Some (if_ok (addCompPtr level ikey) st))"

definition decode_addTable :: "nat \<Rightarrow> dec \<Rightarrow> dec option" where
  "decode_addTable max_alloc st =
     (case readLevel ''add-table.level'' st of (level, st) \<Rightarrow>
      case readVarint ''add-table.num'' st of (num, st) \<Rightarrow>
      case readVarint ''add-table.size'' st of (sz, st) \<Rightarrow>
      case readBytes max_alloc ''add-table.imin'' st of None \<Rightarrow> None | Some (imin, st) \<Rightarrow>
      case readBytes max_alloc ''add-table.imax'' st of None \<Rightarrow> None | Some (imax, st) \<Rightarrow>
        Some (if_ok (addTable level num sz imin imax) st))"

definition decode_delTable :: "dec \<Rightarrow> dec option" where
  "decode_delTable st =
     (case readLevel ''del-table.level'' st of (level, st) \<Rightarrow>
      case readVarint ''del-table.num'' st of (num, st) \<Rightarrow> Some (if_ok (delTable level num) st))"

definition decode_field :: "nat \<Rightarrow> nat \<Rightarrow> dec \<Rightarrow> dec option" where
  "decode_field max_alloc rec st =
     (if rec = recComparer then decode_comparer max_alloc st
      else if rec = recJournalNum then decode_varint_field ''journal-num'' setJournalNum st
      else if rec = recPrevJournalNum then decode_varint_field ''prev-journal-num'' setPrevJournalNum st
      else if rec = recNextFileNum then decode_varint_field ''next-file-num'' setNextFileNum st
      else if rec = recSeqNum then decode_seqNum st
      else if rec = recCompPtr then decode_compPtr max_alloc st
      else if rec = recAddTable then decode_addTable max_alloc st
      else if rec = recDelTable then decode_delTable st
      else Some st)"

text \<open>Reading never gives bytes back, so the loop of \<^verbatim>\<open>decode\<close> ends.\<close>

lemma readUvarintMayEOF_shrinks:
  assumes "readUvarintMayEOF field e st = (x, st')"
  shows "length (snd st') \<le> length (snd st)"
    and "rec_err (fst st') = None \<Longrightarrow> length (snd st') < length (snd st)"
proof -
  obtain p r where st: "st = (p, r)" by (cases st)
  have "length (snd st') \<le> length r \<and> (rec_err (fst st') = None \<longrightarrow> length (snd st') < length r)"
  proof (cases "rec_err p = None")
    case True
    show ?thesis
    proof (cases "ReadUvarint r")
      case (Inl err)
      then show ?thesis
        using assms True st by (cases err) (auto simp: readUvarintMayEOF_def set_err_def)
    next
      case (Inr xr)
      then show ?thesis
        using assms True st ReadUvarint_rest [of r "fst xr" "snd xr"]
        by (cases xr) (auto simp: readUvarintMayEOF_def)
    qed
  qed (use assms st in \<open>auto simp: readUvarintMayEOF_def\<close>)
  then show "length (snd st') \<le> length (snd st)"
    and "rec_err (fst st') = None \<Longrightarrow> length (snd st') < length (snd st)"
    by (simp_all add: st)
qed

lemma readVarint_shrinks: "readVarint field st = (x, st') \<Longrightarrow> length (snd st') \<le> length (snd st)"
  by (auto simp: readVarint_def Let_def split: prod.splits dest!: readUvarintMayEOF_shrinks(1))

lemma readLevel_shrinks: "readLevel field st = (x, st') \<Longrightarrow> length (snd st') \<le> length (snd st)"
  by (auto simp: readLevel_def readUvarint_def split: prod.splits if_splits dest!: readUvarintMayEOF_shrinks(1))

lemma readBytes_shrinks: "readBytes m field st = Some (x, st') \<Longrightarrow> length (snd st') \<le> length (snd st)"
  by (auto simp: readBytes_def readUvarint_def split: prod.splits if_splits dest!: readUvarintMayEOF_shrinks(1))

lemma if_ok_rest [simp]: "snd (if_ok f st) = snd st"
  by (simp add: if_ok_def)

lemmas read_shrinks = readUvarintMayEOF_shrinks(1) readVarint_shrinks readLevel_shrinks readBytes_shrinks

lemma decode_case_shrinks:
  "decode_varint_field field f st = Some st' \<Longrightarrow> length (snd st') \<le> length (snd st)"
  "decode_comparer m st = Some st' \<Longrightarrow> length (snd st') \<le> length (snd st)"
  "decode_seqNum st = Some st' \<Longrightarrow> length (snd st') \<le> length (snd st)"
  "decode_compPtr m st = Some st' \<Longrightarrow> length (snd st') \<le> length (snd st)"
  "decode_delTable st = Some st' \<Longrightarrow> length (snd st') \<le> length (snd st)"
  by (auto simp: decode_varint_field_def decode_comparer_def decode_seqNum_def decode_compPtr_def decode_delTable_def
      readUvarint_def split: prod.split_asm option.split_asm dest!: read_shrinks)

lemma decode_addTable_shrinks: "decode_addTable m st = Some st' \<Longrightarrow> length (snd st') \<le> length (snd st)"
  by (auto simp: decode_addTable_def split: prod.split_asm option.split_asm dest!: read_shrinks)

lemma decode_field_shrinks: "decode_field m rec st = Some st' \<Longrightarrow> length (snd st') \<le> length (snd st)"
  unfolding decode_field_def
  by (auto split: if_split_asm dest!: decode_case_shrinks decode_addTable_shrinks)

function decode_loop :: "nat \<Rightarrow> sessionRecord \<Rightarrow> bytes \<Rightarrow> (sessionRecord \<times> record_error option) option" where
  "decode_loop max_alloc p r =
     (case readUvarintMayEOF ''field-header'' True (p, r) of (rec, (p, r')) \<Rightarrow>
        if rec_err p \<noteq> None then Some (p, if rec_err p = Some RecEOF then None else rec_err p)
        else case decode_field max_alloc (unat rec) (p, r') of
            None \<Rightarrow> None
          | Some (p, r'') \<Rightarrow>
              if rec_err p = None then decode_loop max_alloc p r'' else Some (p, rec_err p))"
  by pat_completeness auto
termination
proof (relation "measure (\<lambda>(m, p, r). length r)", goal_cases)
  case prems: (2 m p r)
  then show ?case
    by (auto dest!: readUvarintMayEOF_shrinks(2) [OF sym] decode_field_shrinks)
qed simp

declare decode_loop.simps [simp del]

definition decode :: "nat \<Rightarrow> sessionRecord \<Rightarrow> bytes \<Rightarrow> (sessionRecord \<times> record_error option) option" where
  "decode max_alloc p r = decode_loop max_alloc (p\<lparr>rec_err := None\<rparr>) r"

section \<open>Specification\<close>

text \<open>The bytes of a record, and the effect of reading them into a record.\<close>

definition prefixed :: "bytes \<Rightarrow> bytes" where
  "prefixed b = PutUvarint (of_nat (length b)) @ b"

definition tag_bytes :: "nat \<Rightarrow> bytes" where
  "tag_bytes n = PutUvarint (of_nat n)"

definition num_bytes :: "int \<Rightarrow> bytes" where
  "num_bytes x = PutUvarint (word_of_int x)"

definition compPtr_bytes :: "cpRecord \<Rightarrow> bytes" where
  "compPtr_bytes r = tag_bytes recCompPtr @ num_bytes (cp_level r) @ prefixed (cp_ikey r)"

definition delTable_bytes :: "dtRecord \<Rightarrow> bytes" where
  "delTable_bytes r = tag_bytes recDelTable @ num_bytes (dt_level r) @ num_bytes (dt_num r)"

definition addTable_bytes :: "atRecord \<Rightarrow> bytes" where
  "addTable_bytes r = tag_bytes recAddTable @ num_bytes (at_level r) @ num_bytes (at_num r) @ num_bytes (at_size r) @
     prefixed (at_imin r) @ prefixed (at_imax r)"

definition record_bytes :: "sessionRecord \<Rightarrow> bytes" where
  "record_bytes p =
     (if has p recComparer then tag_bytes recComparer @ prefixed (comparer_name p) else []) @
     (if has p recJournalNum then tag_bytes recJournalNum @ num_bytes (journalNum p) else []) @
     (if has p recNextFileNum then tag_bytes recNextFileNum @ num_bytes (nextFileNum p) else []) @
     (if has p recSeqNum then tag_bytes recSeqNum @ PutUvarint (seqNum p) else []) @
     concat (map compPtr_bytes (compPtrs p)) @ concat (map delTable_bytes (deletedTables p)) @
     concat (map addTable_bytes (addedTables p))"

definition replay_compPtr :: "cpRecord \<Rightarrow> sessionRecord \<Rightarrow> sessionRecord" where
  "replay_compPtr r = addCompPtr (cp_level r) (cp_ikey r)"

definition replay_delTable :: "dtRecord \<Rightarrow> sessionRecord \<Rightarrow> sessionRecord" where
  "replay_delTable r = delTable (dt_level r) (dt_num r)"

definition replay_addTable :: "atRecord \<Rightarrow> sessionRecord \<Rightarrow> sessionRecord" where
  "replay_addTable r = addTable (at_level r) (at_num r) (at_size r) (at_imin r) (at_imax r)"

definition replay :: "sessionRecord \<Rightarrow> sessionRecord \<Rightarrow> sessionRecord" where
  "replay p p0 =
     (let p1 = (if has p recComparer then setComparer (comparer_name p) p0 else p0);
          p2 = (if has p recJournalNum then setJournalNum (journalNum p) p1 else p1);
          p3 = (if has p recNextFileNum then setNextFileNum (nextFileNum p) p2 else p2);
          p4 = (if has p recSeqNum then setSeqNum (seqNum p) p3 else p3)
      in fold replay_addTable (addedTables p)
           (fold replay_delTable (deletedTables p) (fold replay_compPtr (compPtrs p) p4)))"

definition nonneg64 :: "int \<Rightarrow> bool" where "nonneg64 x \<longleftrightarrow> 0 \<le> x \<and> x < 2 ^ 63"
definition int64 :: "int \<Rightarrow> bool" where "int64 x \<longleftrightarrow> - (2 ^ 63) \<le> x \<and> x < 2 ^ 63"

text \<open>Records whose numbers are file numbers and sizes, and whose keys can be allocated.\<close>

definition encodable :: "nat \<Rightarrow> sessionRecord \<Rightarrow> bool" where
  "encodable max_alloc p \<longleftrightarrow> max_alloc < 2 ^ 63 \<and> length (comparer_name p) \<le> max_alloc \<and>
     nonneg64 (journalNum p) \<and> nonneg64 (nextFileNum p) \<and>
     list_all (\<lambda>r. int64 (cp_level r) \<and> length (cp_ikey r) \<le> max_alloc) (compPtrs p) \<and>
     list_all (\<lambda>r. int64 (dt_level r) \<and> nonneg64 (dt_num r)) (deletedTables p) \<and>
     list_all (\<lambda>r. int64 (at_level r) \<and> nonneg64 (at_num r) \<and> nonneg64 (at_size r) \<and>
       length (at_imin r) \<le> max_alloc \<and> length (at_imax r) \<le> max_alloc) (addedTables p)"

definition buffer_write :: "bytes \<Rightarrow> bytes \<Rightarrow> bytes \<times> unit option" where
  "buffer_write w b = (w @ b, None)"

section \<open>The encoder writes the specified bytes\<close>

lemma put_buffer [simp]:
  "putUvarint buffer_write x (w, None) = (w @ PutUvarint x, None)"
  "putBytes buffer_write b (w, None) = (w @ prefixed b, None)"
  "0 \<le> y \<Longrightarrow> putVarint buffer_write y (w, None) = Some (w @ num_bytes y, None)"
  by (simp_all add: putUvarint_def putBytes_def putVarint_def buffer_write_def prefixed_def num_bytes_def)

lemma encode_items:
  "list_all (\<lambda>r. int64 (cp_level r) \<and> length (cp_ikey r) \<le> m) cs \<Longrightarrow>
     for_each (encode_compPtr buffer_write) cs (w, None) = Some (w @ concat (map compPtr_bytes cs), None)"
  "list_all (\<lambda>r. int64 (dt_level r) \<and> nonneg64 (dt_num r)) ds \<Longrightarrow>
     for_each (encode_delTable buffer_write) ds (w, None) = Some (w @ concat (map delTable_bytes ds), None)"
  "list_all (\<lambda>r. int64 (at_level r) \<and> nonneg64 (at_num r) \<and> nonneg64 (at_size r) \<and>
       length (at_imin r) \<le> m \<and> length (at_imax r) \<le> m) as \<Longrightarrow>
     for_each (encode_addTable buffer_write) as (w, None) = Some (w @ concat (map addTable_bytes as), None)"
proof -
  show "list_all (\<lambda>r. int64 (cp_level r) \<and> length (cp_ikey r) \<le> m) cs \<Longrightarrow>
     for_each (encode_compPtr buffer_write) cs (w, None) = Some (w @ concat (map compPtr_bytes cs), None)"
    by (induction cs arbitrary: w) (simp_all add: encode_compPtr_def compPtr_bytes_def tag_bytes_def num_bytes_def)
  show "list_all (\<lambda>r. int64 (dt_level r) \<and> nonneg64 (dt_num r)) ds \<Longrightarrow>
     for_each (encode_delTable buffer_write) ds (w, None) = Some (w @ concat (map delTable_bytes ds), None)"
    by (induction ds arbitrary: w) (simp_all add: encode_delTable_def delTable_bytes_def tag_bytes_def nonneg64_def num_bytes_def [of "dt_level _"])
  show "list_all (\<lambda>r. int64 (at_level r) \<and> nonneg64 (at_num r) \<and> nonneg64 (at_size r) \<and>
       length (at_imin r) \<le> m \<and> length (at_imax r) \<le> m) as \<Longrightarrow>
     for_each (encode_addTable buffer_write) as (w, None) = Some (w @ concat (map addTable_bytes as), None)"
    by (induction as arbitrary: w) (simp_all add: encode_addTable_def addTable_bytes_def tag_bytes_def nonneg64_def num_bytes_def [of "at_level _"])
qed

lemma encode_buffer:
  assumes "encodable m p"
  shows "encode buffer_write p w = Some (w @ record_bytes p, None)"
proof -
  have j: "0 \<le> journalNum p" "0 \<le> nextFileNum p"
    and items: "list_all (\<lambda>r. int64 (cp_level r) \<and> length (cp_ikey r) \<le> m) (compPtrs p)"
      "list_all (\<lambda>r. int64 (dt_level r) \<and> nonneg64 (dt_num r)) (deletedTables p)"
      "list_all (\<lambda>r. int64 (at_level r) \<and> nonneg64 (at_num r) \<and> nonneg64 (at_size r) \<and>
         length (at_imin r) \<le> m \<and> length (at_imax r) \<le> m) (addedTables p)"
    using assms by (simp_all add: encodable_def nonneg64_def)
  note [simp] = encode_items(1) [OF items(1)] encode_items(2) [OF items(2)] encode_items(3) [OF items(3)]
  show ?thesis using j by (simp add: encode_def record_bytes_def tag_bytes_def Let_def)
qed

section \<open>The decoder replays them\<close>

lemma read_num:
  assumes "rec_err p = None"
  shows "readUvarintMayEOF f e (p, PutUvarint x @ r) = (x, (p, r))"
    and "nonneg64 y \<Longrightarrow> readVarint f (p, num_bytes y @ r) = (y, (p, r))"
    and "int64 z \<Longrightarrow> readLevel f (p, num_bytes z @ r) = (z, (p, r))"
proof -
  show u: "readUvarintMayEOF f e (p, PutUvarint x @ r) = (x, (p, r))" for f e x
    using assms by (simp add: readUvarintMayEOF_def read_put_uvarint)
  have s: "sint (word_of_int z :: u64) = z" if "int64 z" for z
    using that by (simp add: int64_def sint_sbintrunc' signed_take_bit_int_eq_self)
  show "nonneg64 y \<Longrightarrow> readVarint f (p, num_bytes y @ r) = (y, (p, r))"
    using s [of y] by (simp add: readVarint_def num_bytes_def u nonneg64_def int64_def)
  show "int64 z \<Longrightarrow> readLevel f (p, num_bytes z @ r) = (z, (p, r))"
    using s [of z] assms by (simp add: readLevel_def readUvarint_def num_bytes_def u)
qed

lemma read_prefixed:
  assumes "rec_err p = None" and "length b \<le> m" and "m < 2 ^ 63"
  shows "readBytes m f (p, prefixed b @ r) = Some (b, (p, r))"
proof -
  have "unat (of_nat (length b) :: u64) = length b"
    using assms(2,3) by (simp add: unsigned_of_nat take_bit_nat_eq_self)
  then show ?thesis
    using assms read_num(1) [OF assms(1), of f False "of_nat (length b)" "b @ r"]
    by (simp add: readBytes_def readUvarint_def prefixed_def)
qed

lemma decode_loop_field:
  assumes "rec_err p = None" and "k < 2 ^ 64" and "decode_field m k (p, r) = Some (p', r')" and "rec_err p' = None"
  shows "decode_loop m p (tag_bytes k @ r) = decode_loop m p' r'"
proof -
  have "unat (of_nat k :: u64) = k" using assms(2) by (simp add: unsigned_of_nat take_bit_nat_eq_self)
  then show ?thesis
    using assms by (subst decode_loop.simps) (simp add: tag_bytes_def read_num(1))
qed

lemma setters_err [simp]:
  "rec_err (mark t p) = rec_err p"
  "rec_err (setComparer c p) = rec_err p" "rec_err (setJournalNum n p) = rec_err p"
  "rec_err (setNextFileNum n p) = rec_err p" "rec_err (setSeqNum s p) = rec_err p"
  "rec_err (addCompPtr l k p) = rec_err p" "rec_err (delTable l n p) = rec_err p"
  "rec_err (addTable l n z a b p) = rec_err p"
  by (simp_all add: mark_def setComparer_def setJournalNum_def setNextFileNum_def setSeqNum_def addCompPtr_def
      delTable_def addTable_def)

lemmas decode_cases = decode_field_def decode_comparer_def decode_varint_field_def decode_seqNum_def
  decode_compPtr_def decode_addTable_def decode_delTable_def if_ok_def rec_tags readUvarint_def

lemma decode_scalars:
  assumes p: "rec_err p = None"
  shows "length c \<le> m \<Longrightarrow> m < 2 ^ 63 \<Longrightarrow>
      decode_loop m p (tag_bytes recComparer @ prefixed c @ r) = decode_loop m (setComparer c p) r"
    and "nonneg64 n \<Longrightarrow> decode_loop m p (tag_bytes recJournalNum @ num_bytes n @ r) = decode_loop m (setJournalNum n p) r"
    and "nonneg64 n \<Longrightarrow> decode_loop m p (tag_bytes recNextFileNum @ num_bytes n @ r) = decode_loop m (setNextFileNum n p) r"
    and "decode_loop m p (tag_bytes recSeqNum @ PutUvarint s @ r) = decode_loop m (setSeqNum s p) r"
  using p by (intro decode_loop_field; simp add: decode_cases read_num read_prefixed)+

lemma decode_compPtrs:
  "rec_err p = None \<Longrightarrow> m < 2 ^ 63 \<Longrightarrow> list_all (\<lambda>r. int64 (cp_level r) \<and> length (cp_ikey r) \<le> m) cs \<Longrightarrow>
     decode_loop m p (concat (map compPtr_bytes cs) @ r) = decode_loop m (fold replay_compPtr cs p) r"
proof (induction cs arbitrary: p)
  case (Cons c cs)
  have "decode_loop m p (compPtr_bytes c @ concat (map compPtr_bytes cs) @ r) =
      decode_loop m (replay_compPtr c p) (concat (map compPtr_bytes cs) @ r)"
    unfolding compPtr_bytes_def append_assoc using Cons.prems
    by (intro decode_loop_field) (simp_all add: decode_cases read_num read_prefixed replay_compPtr_def)
  then show ?case using Cons.IH [of "replay_compPtr c p"] Cons.prems by (simp add: replay_compPtr_def)
qed simp

lemma decode_delTables:
  "rec_err p = None \<Longrightarrow> list_all (\<lambda>r. int64 (dt_level r) \<and> nonneg64 (dt_num r)) ds \<Longrightarrow>
     decode_loop m p (concat (map delTable_bytes ds) @ r) = decode_loop m (fold replay_delTable ds p) r"
proof (induction ds arbitrary: p)
  case (Cons d ds)
  have "decode_loop m p (delTable_bytes d @ concat (map delTable_bytes ds) @ r) =
      decode_loop m (replay_delTable d p) (concat (map delTable_bytes ds) @ r)"
    unfolding delTable_bytes_def append_assoc using Cons.prems
    by (intro decode_loop_field) (simp_all add: decode_cases read_num replay_delTable_def)
  then show ?case using Cons.IH [of "replay_delTable d p"] Cons.prems by (simp add: replay_delTable_def)
qed simp

lemma decode_addTables:
  "rec_err p = None \<Longrightarrow> m < 2 ^ 63 \<Longrightarrow>
     list_all (\<lambda>r. int64 (at_level r) \<and> nonneg64 (at_num r) \<and> nonneg64 (at_size r) \<and>
       length (at_imin r) \<le> m \<and> length (at_imax r) \<le> m) as \<Longrightarrow>
     decode_loop m p (concat (map addTable_bytes as) @ r) = decode_loop m (fold replay_addTable as p) r"
proof (induction as arbitrary: p)
  case (Cons a as)
  have "decode_loop m p (addTable_bytes a @ concat (map addTable_bytes as) @ r) =
      decode_loop m (replay_addTable a p) (concat (map addTable_bytes as) @ r)"
    unfolding addTable_bytes_def append_assoc using Cons.prems
    by (intro decode_loop_field) (simp_all add: decode_cases read_num read_prefixed replay_addTable_def)
  then show ?case using Cons.IH [of "replay_addTable a p"] Cons.prems by (simp add: replay_addTable_def)
qed simp

lemma fold_replay_compPtr_err [simp]: "rec_err (fold replay_compPtr cs p) = rec_err p"
  by (induction cs arbitrary: p) (simp_all add: replay_compPtr_def)

lemma fold_replay_delTable_err [simp]: "rec_err (fold replay_delTable ds p) = rec_err p"
  by (induction ds arbitrary: p) (simp_all add: replay_delTable_def)

lemma fold_replay_addTable_err: "rec_err (fold replay_addTable as p) = rec_err p"
  by (induction as arbitrary: p) (simp_all add: replay_addTable_def)

lemma decode_replays:
  assumes "encodable m p" and p0: "rec_err p0 = None"
  shows "decode_loop m p0 (record_bytes p @ r) = decode_loop m (replay p p0) r"
  using assms
  by (simp add: record_bytes_def replay_def encodable_def decode_scalars decode_compPtrs decode_delTables
      decode_addTables Let_def)

section \<open>Failing writers\<close>

text \<open>The writes of an encoding, one by one; the encoder makes them in order until one fails.\<close>

definition run_writes :: "('w \<Rightarrow> bytes \<Rightarrow> 'w \<times> 'e option) \<Rightarrow> bytes list \<Rightarrow> ('w, 'e) enc \<Rightarrow> ('w, 'e) enc" where
  "run_writes write = fold (\<lambda>b st. if snd st \<noteq> None then st else write (fst st) b)"

definition prefixed_writes :: "bytes \<Rightarrow> bytes list" where
  "prefixed_writes b = [PutUvarint (of_nat (length b)), b]"

definition compPtr_writes :: "cpRecord \<Rightarrow> bytes list" where
  "compPtr_writes r = [tag_bytes recCompPtr, num_bytes (cp_level r)] @ prefixed_writes (cp_ikey r)"

definition delTable_writes :: "dtRecord \<Rightarrow> bytes list" where
  "delTable_writes r = [tag_bytes recDelTable, num_bytes (dt_level r), num_bytes (dt_num r)]"

definition addTable_writes :: "atRecord \<Rightarrow> bytes list" where
  "addTable_writes r = [tag_bytes recAddTable, num_bytes (at_level r), num_bytes (at_num r), num_bytes (at_size r)] @
     prefixed_writes (at_imin r) @ prefixed_writes (at_imax r)"

definition record_writes :: "sessionRecord \<Rightarrow> bytes list" where
  "record_writes p =
     (if has p recComparer then tag_bytes recComparer # prefixed_writes (comparer_name p) else []) @
     (if has p recJournalNum then [tag_bytes recJournalNum, num_bytes (journalNum p)] else []) @
     (if has p recNextFileNum then [tag_bytes recNextFileNum, num_bytes (nextFileNum p)] else []) @
     (if has p recSeqNum then [tag_bytes recSeqNum, PutUvarint (seqNum p)] else []) @
     concat (map compPtr_writes (compPtrs p)) @ concat (map delTable_writes (deletedTables p)) @
     concat (map addTable_writes (addedTables p))"

lemma record_writes_bytes: "concat (record_writes p) = record_bytes p"
  by (simp add: record_writes_def record_bytes_def prefixed_writes_def prefixed_def compPtr_writes_def
      compPtr_bytes_def [abs_def] delTable_writes_def delTable_bytes_def [abs_def] addTable_writes_def
      addTable_bytes_def [abs_def] concat_concat_map)

lemma run_writes_simps:
  "run_writes write [] st = st"
  "run_writes write (xs @ ys) st = run_writes write ys (run_writes write xs st)"
  by (simp_all add: run_writes_def)

lemma put_runs:
  "putUvarint write x st = run_writes write [PutUvarint x] st"
  "putBytes write b st = run_writes write (prefixed_writes b) st"
  "0 \<le> y \<Longrightarrow> putVarint write y st = Some (run_writes write [num_bytes y] st)"
  by (auto simp: putUvarint_def putBytes_def putVarint_def run_writes_def prefixed_writes_def num_bytes_def)

lemma run_writes_join:
  "run_writes write ys (run_writes write xs st) = run_writes write (xs @ ys) st"
  by (simp add: run_writes_simps)

lemma encode_items_run:
  "for_each (encode_compPtr write) cs st = Some (run_writes write (concat (map compPtr_writes cs)) st)"
  "list_all (\<lambda>r. 0 \<le> dt_num r) ds \<Longrightarrow>
     for_each (encode_delTable write) ds st = Some (run_writes write (concat (map delTable_writes ds)) st)"
  "list_all (\<lambda>r. 0 \<le> at_num r \<and> 0 \<le> at_size r) as \<Longrightarrow>
     for_each (encode_addTable write) as st = Some (run_writes write (concat (map addTable_writes as)) st)"
proof -
  note runs = put_runs run_writes_join
  show "for_each (encode_compPtr write) cs st = Some (run_writes write (concat (map compPtr_writes cs)) st)"
    by (induction cs arbitrary: st)
      (simp_all add: run_writes_simps(1) encode_compPtr_def runs compPtr_writes_def tag_bytes_def num_bytes_def)
  show "list_all (\<lambda>r. 0 \<le> dt_num r) ds \<Longrightarrow>
     for_each (encode_delTable write) ds st = Some (run_writes write (concat (map delTable_writes ds)) st)"
    by (induction ds arbitrary: st)
      (simp_all add: run_writes_simps(1) encode_delTable_def runs delTable_writes_def tag_bytes_def num_bytes_def [of "dt_level _"])
  show "list_all (\<lambda>r. 0 \<le> at_num r \<and> 0 \<le> at_size r) as \<Longrightarrow>
     for_each (encode_addTable write) as st = Some (run_writes write (concat (map addTable_writes as)) st)"
    by (induction as arbitrary: st)
      (simp_all add: run_writes_simps(1) encode_addTable_def runs addTable_writes_def tag_bytes_def num_bytes_def [of "at_level _"])
qed

definition empty_record :: sessionRecord where
  "empty_record = \<lparr>hasRec = 0, comparer_name = [], journalNum = 0, prevJournalNum = 0, nextFileNum = 0, seqNum = 0,
     compPtrs = [], addedTables = [], deletedTables = [], rec_err = None\<rparr>"

lemma encode_runs:
  assumes "0 \<le> journalNum p" and "0 \<le> nextFileNum p" and "list_all (\<lambda>r. 0 \<le> dt_num r) (deletedTables p)"
    and "list_all (\<lambda>r. 0 \<le> at_num r \<and> 0 \<le> at_size r) (addedTables p)"
  shows "encode write p w = Some (run_writes write (record_writes p) (w, None))"
  using assms
  by (simp add: encode_def put_runs run_writes_join encode_items_run record_writes_def tag_bytes_def Let_def
      run_writes_simps(1))

lemma decode_bytes:
  assumes "encodable m p"
  shows "decode m p0 (record_bytes p) = Some ((replay p (p0\<lparr>rec_err := None\<rparr>))\<lparr>rec_err := Some RecEOF\<rparr>, None)"
proof -
  have "decode_loop m q [] = Some (q\<lparr>rec_err := Some RecEOF\<rparr>, None)" if "rec_err q = None" for q
    using that by (subst decode_loop.simps) (simp add: readUvarintMayEOF_def ReadUvarint_def set_err_def)
  moreover have "rec_err (replay p (p0\<lparr>rec_err := None\<rparr>)) = None"
    by (simp add: replay_def Let_def fold_replay_addTable_err)
  ultimately show ?thesis
    using decode_replays [OF assms, of "p0\<lparr>rec_err := None\<rparr>" "[]"] by (simp add: decode_def)
qed

section \<open>Damaged records\<close>

text \<open>The four places of a record where the length of a string stands, with what comes before it in its field.\<close>

datatype string_place =
    In_comparer
  | In_ikey int
  | In_imin int int int
  | In_imax int int int bytes

fun place_tag :: "string_place \<Rightarrow> nat" where
  "place_tag In_comparer = recComparer"
| "place_tag (In_ikey level) = recCompPtr"
| "place_tag (In_imin level num sz) = recAddTable"
| "place_tag (In_imax level num sz imin) = recAddTable"

fun place_bytes :: "string_place \<Rightarrow> bytes" where
  "place_bytes In_comparer = []"
| "place_bytes (In_ikey level) = num_bytes level"
| "place_bytes (In_imin level num sz) = num_bytes level @ num_bytes num @ num_bytes sz"
| "place_bytes (In_imax level num sz imin) = num_bytes level @ num_bytes num @ num_bytes sz @ prefixed imin"

fun place_name :: "string_place \<Rightarrow> string" where
  "place_name In_comparer = ''comparer''"
| "place_name (In_ikey level) = ''comp-ptr.ikey''"
| "place_name (In_imin level num sz) = ''add-table.imin''"
| "place_name (In_imax level num sz imin) = ''add-table.imax''"

fun place_ok :: "nat \<Rightarrow> string_place \<Rightarrow> bool" where
  "place_ok m In_comparer = True"
| "place_ok m (In_ikey level) = int64 level"
| "place_ok m (In_imin level num sz) = (int64 level \<and> nonneg64 num \<and> nonneg64 sz)"
| "place_ok m (In_imax level num sz imin) = (int64 level \<and> nonneg64 num \<and> nonneg64 sz \<and> length imin \<le> m)"

text \<open>A string of which the record does not hold all bytes.\<close>

lemma read_cut_string:
  assumes "rec_err p = None" and "length rest < unat n"
  shows "readBytes m f (p, PutUvarint n @ rest) =
    (if m < unat n then None
     else Some ([], (set_err (if rest = [] then RecEOF else ManifestCorrupted f ShortRead) p, [])))"
  using assms read_num(1) [OF assms(1)] by (simp add: readBytes_def readUvarint_def)

lemma read_after_error:
  "rec_err p = Some e \<Longrightarrow> readBytes m f (p, r) = Some ([], (p, r))"
  by (simp add: readBytes_def)

lemma decode_cut_field:
  assumes p: "rec_err p = None" and m: "m < 2 ^ 63" and pl: "place_ok m pl" and n: "length rest < unat n"
  defines "e \<equiv> (if rest = [] then RecEOF else ManifestCorrupted (place_name pl) ShortRead)"
  shows "decode_field m (place_tag pl) (p, place_bytes pl @ PutUvarint n @ rest) = (if m < unat n then None else Some (set_err e p, []))"
proof -
  have err: "rec_err (set_err x q) = Some x" for x q
    by (simp add: set_err_def)
  note cut = read_cut_string [OF p n]
  show ?thesis
    using p pl m by (cases pl) (simp_all add: decode_cases read_num read_prefixed cut err e_def read_after_error [OF err])
qed

lemma decode_loop_stops:
  assumes "rec_err p = None" and "k < 2 ^ 64"
  shows "decode_field m k (p, r) = None \<Longrightarrow> decode_loop m p (tag_bytes k @ r) = None"
    and "decode_field m k (p, r) = Some (p', r') \<Longrightarrow> rec_err p' = Some e \<Longrightarrow> decode_loop m p (tag_bytes k @ r) = Some (p', Some e)"
proof -
  have k: "unat (of_nat k :: u64) = k"
    using assms(2) by (simp add: unsigned_of_nat take_bit_nat_eq_self)
  show "decode_field m k (p, r) = None \<Longrightarrow> decode_loop m p (tag_bytes k @ r) = None"
    using assms k by (subst decode_loop.simps) (simp add: tag_bytes_def read_num(1))
  show "decode_field m k (p, r) = Some (p', r') \<Longrightarrow> rec_err p' = Some e \<Longrightarrow> decode_loop m p (tag_bytes k @ r) = Some (p', Some e)"
    using assms k by (subst decode_loop.simps) (simp add: tag_bytes_def read_num(1))
qed

section \<open>Properties\<close>

text \<open>
  C13: manifest records survive a round trip.  Encoding a record into a buffer succeeds, and decoding the buffer into
  any record sets exactly the fields the first record has and appends its compaction pointers, deleted and added
  tables in order; it ends without an error at the end of the buffer.
\<close>

theorem session_record_roundtrip:
  assumes "encodable m p"
  shows "\<exists>b. encode buffer_write p [] = Some (b, None) \<and>
    decode m p0 b = Some ((replay p (p0\<lparr>rec_err := None\<rparr>))\<lparr>rec_err := Some RecEOF\<rparr>, None)"
  using encode_buffer [OF assms, of "[]"] decode_bytes [OF assms] by simp

theorem session_record_roundtrip_witness:
  "\<exists>b. encode buffer_write (addTable 1 7 4096 [1, 2] [3] (setJournalNum 5 empty_record)) [] = Some (b, None) \<and>
    decode 100 empty_record b =
      Some ((addTable 1 7 4096 [1, 2] [3] (setJournalNum 5 empty_record))\<lparr>rec_err := Some RecEOF\<rparr>, None)"
proof -
  let ?p = "addTable 1 7 4096 [1, 2] [3] (setJournalNum 5 empty_record)"
  have "encodable 100 ?p"
    by (simp add: encodable_def nonneg64_def int64_def addTable_def setJournalNum_def mark_def empty_record_def)
  moreover have "replay ?p (empty_record\<lparr>rec_err := None\<rparr>) = ?p" by code_simp
  ultimately show ?thesis using session_record_roundtrip [of 100 ?p empty_record] by simp
qed

text \<open>
  C39: a failing writer.  Whatever the writer does, the encoder hands it the same pieces in the same order, which
  together are the record's bytes, and stops at the first write that fails, whose error it returns.
\<close>

theorem encode_stops_at_error:
  assumes "0 \<le> journalNum p" and "0 \<le> nextFileNum p" and "list_all (\<lambda>r. 0 \<le> dt_num r) (deletedTables p)"
    and "list_all (\<lambda>r. 0 \<le> at_num r \<and> 0 \<le> at_size r) (addedTables p)"
  shows "encode write p w = Some (run_writes write (record_writes p) (w, None)) \<and>
    concat (record_writes p) = record_bytes p"
  by (simp add: encode_runs [OF assms] record_writes_bytes)

theorem encode_stops_at_error_witness:
  "encode (\<lambda>w b. if length w < 2 then (w @ [b], None) else (w, Some ''disk full''))
     (setNextFileNum 9 (setJournalNum 5 empty_record)) [] = Some ([[2], [5]], Some ''disk full'')"
proof -
  let ?p = "setNextFileNum 9 (setJournalNum 5 empty_record)"
  let ?w = "\<lambda>w b. if length w < 2 then (w @ [b], None) else (w, Some ''disk full'')"
  have "encode ?w ?p [] = Some (run_writes ?w (record_writes ?p) ([], None))"
    using encode_stops_at_error [of ?p ?w "[]"]
    by (simp add: setNextFileNum_def setJournalNum_def mark_def empty_record_def)
  moreover have "run_writes ?w (record_writes ?p) ([], None) = ([[2], [5]], Some ''disk full'')"
    by code_simp
  ultimately show ?thesis by simp
qed

text \<open>
  C40: damaged records.  A record is read up to the length of any of its strings (the name of the comparer, the key of a compaction pointer, the smallest or the largest key of a
  table), behind any fields that are sound, and the string is cut.  If the length exceeds what the run time can allocate, \<^verbatim>\<open>decode\<close> panics.  Otherwise, if bytes of the string are there,
  the record is reported as corrupt with the name of the field; but if the record ends right after the length, \<^verbatim>\<open>decode\<close> returns \<^verbatim>\<open>io.EOF\<close> itself,
  because only an unexpected end of file is translated.
\<close>

theorem damaged_record_not_corrupted:
  assumes "encodable m q" and "place_ok m pl" and "length rest < unat n"
  shows "decode m p (record_bytes q @ tag_bytes (place_tag pl) @ place_bytes pl @ PutUvarint n @ rest) =
    (if m < unat n then None
     else let e = (if rest = [] then RecEOF else ManifestCorrupted (place_name pl) ShortRead)
       in Some ((replay q (p\<lparr>rec_err := None\<rparr>))\<lparr>rec_err := Some e\<rparr>, Some e))"
proof -
  define p' where "p' = replay q (p\<lparr>rec_err := None\<rparr>)"
  have p': "rec_err p' = None"
    by (simp add: p'_def replay_def Let_def fold_replay_addTable_err)
  have m: "m < 2 ^ 63"
    using assms(1) by (simp add: encodable_def)
  have k: "place_tag pl < 2 ^ 64"
    by (cases pl) (simp_all add: rec_tags)
  have "decode m p (record_bytes q @ tag_bytes (place_tag pl) @ place_bytes pl @ PutUvarint n @ rest) =
      decode_loop m p' (tag_bytes (place_tag pl) @ place_bytes pl @ PutUvarint n @ rest)"
    using decode_replays [OF assms(1)] by (simp add: decode_def p'_def)
  then show ?thesis
    using decode_cut_field [OF p' m assms(2,3)] decode_loop_stops [OF p' k, where m = m]
    by (simp add: Let_def set_err_def p'_def [symmetric])
qed

theorem damaged_record_not_corrupted_witness:
  "decode (2 ^ 47) empty_record (record_bytes (setJournalNum 5 empty_record) @ tag_bytes recAddTable @ (num_bytes 1 @ num_bytes 7 @ num_bytes 4096 @ prefixed [1, 2]) @ PutUvarint 3 @ []) =
     Some ((setJournalNum 5 empty_record)\<lparr>rec_err := Some RecEOF\<rparr>, Some RecEOF) \<and>
   decode (2 ^ 47) empty_record (record_bytes (setJournalNum 5 empty_record) @ tag_bytes recCompPtr @ num_bytes 2 @ PutUvarint (2 ^ 50) @ [1]) = None"
proof -
  let ?q = "setJournalNum 5 empty_record"
  have q: "encodable (2 ^ 47) ?q"
    by (simp add: encodable_def nonneg64_def int64_def setJournalNum_def mark_def empty_record_def)
  have "place_ok (2 ^ 47) (In_imax 1 7 4096 [1, 2])" "place_ok (2 ^ 47) (In_ikey 2)"
    by (simp_all add: nonneg64_def int64_def)
  moreover have "replay ?q (empty_record\<lparr>rec_err := None\<rparr>) = ?q"
    by code_simp
  ultimately show ?thesis
    using damaged_record_not_corrupted [OF q, of "In_imax 1 7 4096 [1, 2]" "[]" 3 empty_record]
      damaged_record_not_corrupted [OF q, of "In_ikey 2" "[1]" "2 ^ 50" empty_record] by simp
qed

end
