(* ===== verification/Ldb_Tables.thy ===== *)
theory Ldb_Tables
  imports Ldb_Keys Ldb_Session_Record
begin

text \<open>
  The sets of table files of one level, \<^verbatim>\<open>goleveldb/leveldb/table.go\<close>: the key range of a file, the searches
  in a sorted level, and the files that overlap a key range.  Internal keys are defined in files that are not
  part of the repository: the record \<open>key_ops\<close> holds what is used of them (the user key of an internal key, the comparison of
  internal keys, that of user keys, and the smallest internal key of a user key), and the locale \<open>internal_keys\<close> their documented
  order: by user key, and the seek key of a user key before every other internal key with that user key.
  A \<^verbatim>\<open>nil\<close> bound is \<open>None\<close>.
\<close>

section \<open>Keys and files\<close>

record 'ik key_ops =
  k_ukey :: "'ik \<Rightarrow> bytes"
  k_icmp :: "'ik \<Rightarrow> 'ik \<Rightarrow> int"
  k_ucmp :: "bytes \<Rightarrow> bytes \<Rightarrow> int"
  k_seek :: "bytes \<Rightarrow> 'ik"

record 'ik tFile =
  fd_num :: int
  seekLeft :: int
  file_size :: int
  imin :: 'ik
  imax :: 'ik

definition t_after :: "'ik key_ops \<Rightarrow> bytes option \<Rightarrow> 'ik tFile \<Rightarrow> bool" where
  "t_after ks u t = (case u of None \<Rightarrow> False | Some k \<Rightarrow> 0 < k_ucmp ks k (k_ukey ks (imax t)))"

definition t_before :: "'ik key_ops \<Rightarrow> bytes option \<Rightarrow> 'ik tFile \<Rightarrow> bool" where
  "t_before ks u t = (case u of None \<Rightarrow> False | Some k \<Rightarrow> k_ucmp ks k (k_ukey ks (imin t)) < 0)"

definition t_overlaps :: "'ik key_ops \<Rightarrow> bytes option \<Rightarrow> bytes option \<Rightarrow> 'ik tFile \<Rightarrow> bool" where
  "t_overlaps ks umin umax t \<longleftrightarrow> \<not> t_after ks umin t \<and> \<not> t_before ks umax t"

text \<open>\<^verbatim>\<open>consumeSeek\<close> on the 32-bit counter.\<close>

definition consumeSeek :: "'ik tFile \<Rightarrow> 'ik tFile \<times> int" where
  "consumeSeek t = (let n = sint (word_of_int (seekLeft t - 1) :: u32) in (t\<lparr>seekLeft := n\<rparr>, n))"

definition newTableFile :: "int \<Rightarrow> int \<Rightarrow> 'ik \<Rightarrow> 'ik \<Rightarrow> 'ik tFile" where
  "newTableFile fd sz mn mx =
     (let q = (if 0 \<le> sz then sz div 16384 else - (- sz div 16384));
          s = sint (word_of_int q :: u32);
          s = (if s < 100 then 100 else s)
      in \<lparr>fd_num = fd, seekLeft = s, file_size = sz, imin = mn, imax = mx\<rparr>)"

section \<open>Sorting and searching\<close>

definition lessByKey :: "'ik key_ops \<Rightarrow> 'ik tFile \<Rightarrow> 'ik tFile \<Rightarrow> bool" where
  "lessByKey ks a b =
     (let n = k_icmp ks (imin a) (imin b) in if n = 0 then fd_num a < fd_num b else n < 0)"

definition lessByNum :: "'ik tFile \<Rightarrow> 'ik tFile \<Rightarrow> bool" where
  "lessByNum a b \<longleftrightarrow> fd_num b < fd_num a"

text \<open>
  \<^verbatim>\<open>sort.Sort\<close>, as an insertion sort; the two orders are strict and total on files with distinct
  numbers, for which every sorting algorithm gives the same list.
\<close>

primrec insert_by :: "('a \<Rightarrow> 'a \<Rightarrow> bool) \<Rightarrow> 'a \<Rightarrow> 'a list \<Rightarrow> 'a list" where
  "insert_by lt x [] = [x]"
| "insert_by lt x (y # ys) = (if lt y x then y # insert_by lt x ys else x # y # ys)"

definition sort_by :: "('a \<Rightarrow> 'a \<Rightarrow> bool) \<Rightarrow> 'a list \<Rightarrow> 'a list" where
  "sort_by lt xs = foldr (insert_by lt) xs []"

definition sortByKey :: "'ik key_ops \<Rightarrow> 'ik tFile list \<Rightarrow> 'ik tFile list" where
  "sortByKey ks = sort_by (lessByKey ks)"

definition sortByNum :: "'ik tFile list \<Rightarrow> 'ik tFile list" where
  "sortByNum = sort_by lessByNum"

definition tFiles_size :: "'ik tFile list \<Rightarrow> int" where
  "tFiles_size tf = fold (\<lambda>t sum. sum + file_size t) tf 0"

text \<open>\<^verbatim>\<open>sort.Search\<close>: bisection for the smallest index at which \<open>f\<close> holds.\<close>

function bisect :: "(nat \<Rightarrow> bool) \<Rightarrow> nat \<Rightarrow> nat \<Rightarrow> nat" where
  "bisect f i j =
     (if i < j then let h = (i + j) div 2 in if \<not> f h then bisect f (h + 1) j else bisect f i h else i)"
  by pat_completeness auto
termination by (relation "measure (\<lambda>(f, i, j). j - i)") auto

declare bisect.simps [simp del]

definition sort_Search :: "nat \<Rightarrow> (nat \<Rightarrow> bool) \<Rightarrow> nat" where
  "sort_Search n f = bisect f 0 n"

definition searchMin :: "'ik key_ops \<Rightarrow> 'ik \<Rightarrow> 'ik tFile list \<Rightarrow> nat" where
  "searchMin ks ikey tf = sort_Search (length tf) (\<lambda>i. 0 \<le> k_icmp ks (imin (tf ! i)) ikey)"

definition searchMax :: "'ik key_ops \<Rightarrow> 'ik \<Rightarrow> 'ik tFile list \<Rightarrow> nat" where
  "searchMax ks ikey tf = sort_Search (length tf) (\<lambda>i. 0 \<le> k_icmp ks (imax (tf ! i)) ikey)"

definition searchNumLess :: "int \<Rightarrow> 'ik tFile list \<Rightarrow> nat" where
  "searchNumLess n tf = sort_Search (length tf) (\<lambda>i. fd_num (tf ! i) < n)"

definition searchMinUkey :: "'ik key_ops \<Rightarrow> bytes \<Rightarrow> 'ik tFile list \<Rightarrow> nat" where
  "searchMinUkey ks umin tf = sort_Search (length tf) (\<lambda>i. 0 < k_ucmp ks (k_ukey ks (imin (tf ! i))) umin)"

definition searchMaxUkey :: "'ik key_ops \<Rightarrow> bytes \<Rightarrow> 'ik tFile list \<Rightarrow> nat" where
  "searchMaxUkey ks umax tf = sort_Search (length tf) (\<lambda>i. 0 < k_ucmp ks (k_ukey ks (imax (tf ! i))) umax)"

section \<open>Overlapping files\<close>

definition tFiles_overlaps :: "'ik key_ops \<Rightarrow> bytes option \<Rightarrow> bytes option \<Rightarrow> bool \<Rightarrow> 'ik tFile list \<Rightarrow> bool" where
  "tFiles_overlaps ks umin umax unsorted tf =
     (if unsorted then list_ex (t_overlaps ks umin umax) tf
      else let i = (case umin of
                      Some u \<Rightarrow> if 0 < length u then searchMax ks (k_seek ks u) tf else 0
                    | None \<Rightarrow> 0)
        in if length tf \<le> i then False else \<not> t_before ks umax (tf ! i))"

text \<open>
  The search in a level without overlaps; the two comparisons with neighbouring files use \<^verbatim>\<open>bytes.Compare\<close> and
  not the comparer of the database.
\<close>

definition begin_index :: "'ik key_ops \<Rightarrow> bytes option \<Rightarrow> 'ik tFile list \<Rightarrow> nat" where
  "begin_index ks umin tf =
     (case umin of
        None \<Rightarrow> 0
      | Some u \<Rightarrow>
          (let index = searchMinUkey ks u tf
           in if index = 0 then 0
              else if 0 \<le> Compare (k_ukey ks (imax (tf ! (index - 1)))) u then index - 1
              else index))"

definition end_index :: "'ik key_ops \<Rightarrow> bytes option \<Rightarrow> 'ik tFile list \<Rightarrow> nat" where
  "end_index ks umax tf =
     (case umax of
        None \<Rightarrow> length tf
      | Some u \<Rightarrow>
          (let index = searchMaxUkey ks u tf
           in if index = length tf then length tf
              else if Compare (k_ukey ks (imin (tf ! index))) u \<le> 0 then index + 1
              else index))"

definition sorted_overlaps :: "'ik key_ops \<Rightarrow> bytes option \<Rightarrow> bytes option \<Rightarrow> 'ik tFile list \<Rightarrow> 'ik tFile list" where
  "sorted_overlaps ks umin umax tf =
     (let b = begin_index ks umin tf; e = end_index ks umax tf
      in if e \<le> b then [] else take (e - b) (drop b tf))"

text \<open>
  The scan of level 0, whose files may overlap: a file that reaches beyond the range widens it and
  restarts the scan.  Not ending is the value \<open>None\<close>.
\<close>

definition widens_min :: "'ik key_ops \<Rightarrow> bytes option \<Rightarrow> 'ik tFile \<Rightarrow> bool" where
  "widens_min ks umin t = (case umin of None \<Rightarrow> False | Some u \<Rightarrow> k_ucmp ks (k_ukey ks (imin t)) u < 0)"

definition widens_max :: "'ik key_ops \<Rightarrow> bytes option \<Rightarrow> 'ik tFile \<Rightarrow> bool" where
  "widens_max ks umax t = (case umax of None \<Rightarrow> False | Some u \<Rightarrow> 0 < k_ucmp ks (k_ukey ks (imax t)) u)"

partial_function (option) scan_overlaps ::
  "'ik key_ops \<Rightarrow> 'ik tFile list \<Rightarrow> bytes option \<Rightarrow> bytes option \<Rightarrow> nat \<Rightarrow> 'ik tFile list \<Rightarrow> 'ik tFile list option" where
  "scan_overlaps ks tf umin umax i dst =
     (if i < length tf then
        (if t_overlaps ks umin umax (tf ! i) then
           (if widens_min ks umin (tf ! i)
            then scan_overlaps ks tf (Some (k_ukey ks (imin (tf ! i)))) umax 0 []
            else if widens_max ks umax (tf ! i)
            then scan_overlaps ks tf umin (Some (k_ukey ks (imax (tf ! i)))) 0 []
            else scan_overlaps ks tf umin umax (i + 1) (dst @ [tf ! i]))
         else scan_overlaps ks tf umin umax (i + 1) dst)
      else Some dst)"

declare scan_overlaps.simps [code]

definition getOverlaps ::
  "'ik key_ops \<Rightarrow> bytes option \<Rightarrow> bytes option \<Rightarrow> bool \<Rightarrow> 'ik tFile list \<Rightarrow> 'ik tFile list option" where
  "getOverlaps ks umin umax overlapped tf =
     (if length tf = 0 then Some []
      else if \<not> overlapped then Some (sorted_overlaps ks umin umax tf)
      else scan_overlaps ks tf umin umax 0 [])"

text \<open>\<^verbatim>\<open>getRange\<close>: the two keys are unset (\<open>None\<close>) for no files.\<close>

definition range_step :: "'ik key_ops \<Rightarrow> 'ik tFile \<Rightarrow> ('ik \<times> 'ik) option \<Rightarrow> ('ik \<times> 'ik) option" where
  "range_step ks t r =
     (case r of
        None \<Rightarrow> Some (imin t, imax t)
      | Some (mn, mx) \<Rightarrow>
          Some (if k_icmp ks (imin t) mn < 0 then imin t else mn,
                if 0 < k_icmp ks (imax t) mx then imax t else mx))"

definition getRange :: "'ik key_ops \<Rightarrow> 'ik tFile list \<Rightarrow> ('ik \<times> 'ik) option" where
  "getRange ks tf = fold (range_step ks) tf None"

section \<open>The order of internal keys\<close>

locale internal_keys =
  fixes ks :: "'ik key_ops"
  assumes ucmp_values: "k_ucmp ks a b \<in> {-1, 0, 1}"
    and ucmp_eq: "k_ucmp ks a b = 0 \<longleftrightarrow> a = b"
    and ucmp_swap: "k_ucmp ks b a = - k_ucmp ks a b"
    and ucmp_trans: "k_ucmp ks a b < 0 \<Longrightarrow> k_ucmp ks b c < 0 \<Longrightarrow> k_ucmp ks a c < 0"
    and ucmp_Nil: "a \<noteq> [] \<Longrightarrow> k_ucmp ks [] a < 0"
    and icmp_eq: "k_icmp ks x y = 0 \<longleftrightarrow> x = y"
    and icmp_swap: "k_icmp ks y x = - k_icmp ks x y"
    and icmp_trans: "k_icmp ks x y < 0 \<Longrightarrow> k_icmp ks y z < 0 \<Longrightarrow> k_icmp ks x z < 0"
    and icmp_ukey: "k_ucmp ks (k_ukey ks x) (k_ukey ks y) < 0 \<Longrightarrow> k_icmp ks x y < 0"
    and seek_ukey: "k_ukey ks (k_seek ks u) = u"
    and seek_first: "k_ukey ks x = u \<Longrightarrow> k_icmp ks (k_seek ks u) x \<le> 0"
begin

lemma u_le_trans: "k_ucmp ks a b \<le> 0 \<Longrightarrow> k_ucmp ks b c \<le> 0 \<Longrightarrow> k_ucmp ks a c \<le> 0"
  by (metis ucmp_eq ucmp_trans order.order_iff_strict)

lemma u_le_less_trans: "k_ucmp ks a b \<le> 0 \<Longrightarrow> k_ucmp ks b c < 0 \<Longrightarrow> k_ucmp ks a c < 0"
  by (metis ucmp_eq ucmp_trans order.order_iff_strict)

lemma u_less_le_trans: "k_ucmp ks a b < 0 \<Longrightarrow> k_ucmp ks b c \<le> 0 \<Longrightarrow> k_ucmp ks a c < 0"
  by (metis ucmp_eq ucmp_trans order.order_iff_strict)

lemma u_refl [simp]: "k_ucmp ks a a = 0"
  by (simp add: ucmp_eq)

lemma u_Nil [simp]: "k_ucmp ks [] a \<le> 0"
  using ucmp_Nil [of a] by (cases "a = []") auto

lemma u_not_le: "\<not> k_ucmp ks a b \<le> 0 \<longleftrightarrow> k_ucmp ks b a < 0"
  using ucmp_swap [of a b] by auto

lemma u_less_swap: "0 < k_ucmp ks a b \<longleftrightarrow> k_ucmp ks b a < 0"
  using ucmp_swap [of a b] by auto

text \<open>An internal key is not below the seek key of a user key exactly if its user key is not below that.\<close>

lemma icmp_seek: "0 \<le> k_icmp ks x (k_seek ks u) \<longleftrightarrow> k_ucmp ks u (k_ukey ks x) \<le> 0"
proof -
  consider "k_ucmp ks u (k_ukey ks x) < 0" | "k_ukey ks x = u" | "k_ucmp ks (k_ukey ks x) u < 0"
    by (metis ucmp_eq u_not_le order.order_iff_strict)
  then show ?thesis
  proof cases
    case 1
    then have "k_icmp ks (k_seek ks u) x < 0" by (intro icmp_ukey) (simp add: seek_ukey)
    then show ?thesis using 1 icmp_swap [of x "k_seek ks u"] by simp
  next
    case 2
    then show ?thesis using seek_first [OF 2] icmp_swap [of x "k_seek ks u"] ucmp_eq [of u u] by simp
  next
    case 3
    then have "k_icmp ks x (k_seek ks u) < 0" by (intro icmp_ukey) (simp add: seek_ukey)
    then show ?thesis using 3 ucmp_swap [of u "k_ukey ks x"] by simp
  qed
qed

end

section \<open>Bisection\<close>

lemma bisect_spec:
  assumes "\<And>a b. a \<le> b \<Longrightarrow> b < n \<Longrightarrow> f a \<Longrightarrow> f b" and "i \<le> j" and "j \<le> n"
    and "\<forall>k < i. \<not> f k" and "\<forall>k < n. j \<le> k \<longrightarrow> f k"
  shows "bisect f i j \<le> n \<and> (\<forall>k < n. f k \<longleftrightarrow> bisect f i j \<le> k)"
  using assms
proof (induction f i j rule: bisect.induct)
  case (1 f i j)
  define h where "h = (i + j) div 2"
  note mono = "1.prems"(1)
  show ?case
  proof (cases "i < j")
    case True
    then have h: "i \<le> h" "h < j" by (simp_all add: h_def)
    show ?thesis
    proof (cases "f h")
      case f: True
      then have "bisect f i j = bisect f i h" using True by (subst bisect.simps) (simp add: Let_def h_def [symmetric])
      moreover have "\<forall>k < n. h \<le> k \<longrightarrow> f k" using f mono by blast
      moreover have "bisect f i h \<le> n \<and> (\<forall>k < n. f k \<longleftrightarrow> bisect f i h \<le> k)"
        using calculation(2) f h "1.prems"(3,4) by (intro "1.IH"(2) [OF True h_def _ mono]) auto
      ultimately show ?thesis by simp
    next
      case f: False
      then have "bisect f i j = bisect f (h + 1) j" using True by (subst bisect.simps) (simp add: Let_def h_def [symmetric])
      moreover have "\<forall>k < h + 1. \<not> f k" using f mono [of _ h] h "1.prems"(3) by (auto simp: less_Suc_eq_le)
      moreover have "bisect f (h + 1) j \<le> n \<and> (\<forall>k < n. f k \<longleftrightarrow> bisect f (h + 1) j \<le> k)"
        using calculation(2) f h "1.prems"(3,5) by (intro "1.IH"(1) [OF True h_def _ mono]) auto
      ultimately show ?thesis by simp
    qed
  next
    case False
    then show ?thesis using "1.prems" by (subst (1 2) bisect.simps) (auto intro: leI)
  qed
qed

lemma sort_Search_spec:
  assumes "\<And>a b. a \<le> b \<Longrightarrow> b < n \<Longrightarrow> f a \<Longrightarrow> f b"
  shows "sort_Search n f \<le> n" and "k < n \<Longrightarrow> f k \<longleftrightarrow> sort_Search n f \<le> k"
  using bisect_spec [where n = n and f = f and i = 0 and j = n, OF assms] by (auto simp: sort_Search_def)

lemma filter_interval:
  assumes "\<And>j. j < length xs \<Longrightarrow> P (xs ! j) \<longleftrightarrow> b \<le> j \<and> j < e"
  shows "filter P xs = take (e - b) (drop b xs)"
  using assms
proof (induction xs arbitrary: b e)
  case (Cons x xs)
  have tail: "P (xs ! j) \<longleftrightarrow> b \<le> Suc j \<and> Suc j < e" if "j < length xs" for j
    using Cons.prems [of "Suc j"] that by simp
  then have IH: "filter P xs = take (e - 1 - (b - 1)) (drop (b - 1) xs)"
    by (intro Cons.IH) (auto simp: le_diff_conv less_diff_conv)
  show ?case
  proof (cases "b = 0")
    case True
    then show ?thesis using IH Cons.prems [of 0] by (cases e) auto
  next
    case False
    then have "drop b (x # xs) = drop (b - 1) xs" by (cases b) auto
    then show ?thesis using IH Cons.prems [of 0] False by (cases e) auto
  qed
qed simp

section \<open>Levels without overlaps\<close>

definition level_sorted :: "'ik key_ops \<Rightarrow> 'ik tFile list \<Rightarrow> bool" where
  "level_sorted ks tf \<longleftrightarrow>
     sorted_wrt (\<lambda>a b. k_ucmp ks (k_ukey ks (imax a)) (k_ukey ks (imin b)) < 0) tf \<and>
     list_all (\<lambda>t. k_ucmp ks (k_ukey ks (imin t)) (k_ukey ks (imax t)) \<le> 0) tf"

context internal_keys
begin

lemma overlaps_iff:
  "t_overlaps ks umin umax t \<longleftrightarrow>
     (case umin of None \<Rightarrow> True | Some u \<Rightarrow> k_ucmp ks u (k_ukey ks (imax t)) \<le> 0) \<and>
     (case umax of None \<Rightarrow> True | Some u \<Rightarrow> k_ucmp ks (k_ukey ks (imin t)) u \<le> 0)"
  by (auto simp: t_overlaps_def t_after_def t_before_def not_less u_not_le [symmetric] split: option.split)

lemma level_order:
  assumes "level_sorted ks tf" and "b < length tf"
  shows "a < b \<Longrightarrow> k_ucmp ks (k_ukey ks (imax (tf ! a))) (k_ukey ks (imin (tf ! b))) < 0"
    and "k_ucmp ks (k_ukey ks (imin (tf ! b))) (k_ukey ks (imax (tf ! b))) \<le> 0"
    and "a \<le> b \<Longrightarrow> k_ucmp ks (k_ukey ks (imin (tf ! a))) (k_ukey ks (imin (tf ! b))) \<le> 0"
    and "a \<le> b \<Longrightarrow> k_ucmp ks (k_ukey ks (imax (tf ! a))) (k_ukey ks (imax (tf ! b))) \<le> 0"
proof -
  have lt: "k_ucmp ks (k_ukey ks (imax (tf ! a))) (k_ukey ks (imin (tf ! b))) < 0" if "a < b" for a
    using assms that by (simp add: level_sorted_def sorted_wrt_iff_nth_less)
  have le: "k_ucmp ks (k_ukey ks (imin (tf ! c))) (k_ukey ks (imax (tf ! c))) \<le> 0" if "c < length tf" for c
    using assms that by (simp add: level_sorted_def list_all_length)
  show "a < b \<Longrightarrow> k_ucmp ks (k_ukey ks (imax (tf ! a))) (k_ukey ks (imin (tf ! b))) < 0" by (rule lt)
  show "k_ucmp ks (k_ukey ks (imin (tf ! b))) (k_ukey ks (imax (tf ! b))) \<le> 0" by (rule le [OF assms(2)])
  show "k_ucmp ks (k_ukey ks (imin (tf ! a))) (k_ukey ks (imin (tf ! b))) \<le> 0" if "a \<le> b"
  proof (cases "a = b")
    case False
    then have "a < b" "a < length tf" using that assms(2) by simp_all
    then show ?thesis using u_le_less_trans [OF le lt] by fastforce
  qed simp
  show "k_ucmp ks (k_ukey ks (imax (tf ! a))) (k_ukey ks (imax (tf ! b))) \<le> 0" if "a \<le> b"
  proof (cases "a = b")
    case False
    then have "a < b" using that by simp
    then show ?thesis using u_less_le_trans [OF lt le [OF assms(2)]] by fastforce
  qed simp
qed

text \<open>Bisection for the first file that does not end below a key decides the overlap of a level.\<close>

lemma searchMax_seek:
  assumes "level_sorted ks tf"
  shows "searchMax ks (k_seek ks u) tf \<le> length tf"
    and "k < length tf \<Longrightarrow> k_ucmp ks u (k_ukey ks (imax (tf ! k))) \<le> 0 \<longleftrightarrow> searchMax ks (k_seek ks u) tf \<le> k"
proof -
  have mono: "0 \<le> k_icmp ks (imax (tf ! b)) (k_seek ks u)"
    if "a \<le> b" "b < length tf" "0 \<le> k_icmp ks (imax (tf ! a)) (k_seek ks u)" for a b
    using that level_order(4) [OF assms that(2,1)] u_le_trans by (auto simp: icmp_seek)
  show "searchMax ks (k_seek ks u) tf \<le> length tf"
    unfolding searchMax_def by (rule sort_Search_spec(1)) (rule mono)
  show "k_ucmp ks u (k_ukey ks (imax (tf ! k))) \<le> 0 \<longleftrightarrow> searchMax ks (k_seek ks u) tf \<le> k" if "k < length tf"
    using sort_Search_spec(2) [where f = "\<lambda>i. 0 \<le> k_icmp ks (imax (tf ! i)) (k_seek ks u)", OF mono that]
    unfolding searchMax_def icmp_seek by simp
qed

lemma sorted_overlaps_decides:
  assumes "level_sorted ks tf"
  shows "tFiles_overlaps ks umin umax False tf = tFiles_overlaps ks umin umax True tf"
proof -
  define i where "i = (case umin of Some u \<Rightarrow> if 0 < length u then searchMax ks (k_seek ks u) tf else 0 | None \<Rightarrow> 0)"
  have low: "(case umin of None \<Rightarrow> True | Some u \<Rightarrow> k_ucmp ks u (k_ukey ks (imax (tf ! k))) \<le> 0) \<longleftrightarrow> i \<le> k"
    if "k < length tf" for k
  proof (cases umin)
    case (Some u)
    then show ?thesis using searchMax_seek(2) [OF assms that, of u] by (cases "u = []") (simp_all add: i_def)
  qed (simp add: i_def)
  have "(\<exists>k < length tf. t_overlaps ks umin umax (tf ! k)) \<longleftrightarrow> i < length tf \<and> \<not> t_before ks umax (tf ! i)"
  proof
    assume "\<exists>k < length tf. t_overlaps ks umin umax (tf ! k)"
    then obtain k where k: "k < length tf" "t_overlaps ks umin umax (tf ! k)" by blast
    then have ik: "i \<le> k" using low by (simp add: overlaps_iff)
    then have "k_ucmp ks (k_ukey ks (imin (tf ! i))) (k_ukey ks (imin (tf ! k))) \<le> 0"
      using level_order(3) [OF assms k(1)] by simp
    then have "\<not> t_before ks umax (tf ! i)"
      using k(2) u_le_trans u_not_le by (fastforce simp: overlaps_iff t_before_def split: option.splits)
    then show "i < length tf \<and> \<not> t_before ks umax (tf ! i)" using ik k(1) by simp
  next
    assume "i < length tf \<and> \<not> t_before ks umax (tf ! i)"
    then show "\<exists>k < length tf. t_overlaps ks umin umax (tf ! k)"
      using low [of i] u_not_le by (intro exI [of _ i]) (fastforce simp: overlaps_iff t_before_def split: option.splits)
  qed
  then show ?thesis
    by (auto simp: tFiles_overlaps_def i_def [symmetric] list_ex_length Let_def)
qed

lemma begin_index_spec:
  assumes "level_sorted ks tf" and cmp: "k_ucmp ks = Compare" and k: "k < length tf"
  shows "(case umin of None \<Rightarrow> True | Some u \<Rightarrow> k_ucmp ks u (k_ukey ks (imax (tf ! k))) \<le> 0) \<longleftrightarrow>
    begin_index ks umin tf \<le> k"
proof (cases umin)
  case (Some u)
  define s where "s = searchMinUkey ks u tf"
  have mono: "0 < k_ucmp ks (k_ukey ks (imin (tf ! b))) u"
    if "a \<le> b" "b < length tf" "0 < k_ucmp ks (k_ukey ks (imin (tf ! a))) u" for a b
    using that level_order(3) [OF assms(1) that(2,1)] u_less_le_trans by (simp add: u_less_swap)
  have s: "s \<le> length tf" unfolding s_def searchMinUkey_def by (rule sort_Search_spec(1)) (rule mono)
  have found: "0 < k_ucmp ks (k_ukey ks (imin (tf ! j))) u \<longleftrightarrow> s \<le> j" if "j < length tf" for j
    unfolding s_def searchMinUkey_def
    by (rule sort_Search_spec(2) [where f = "\<lambda>i. 0 < k_ucmp ks (k_ukey ks (imin (tf ! i))) u", OF mono that])
  have b: "begin_index ks umin tf =
      (if s = 0 then 0 else if 0 \<le> k_ucmp ks (k_ukey ks (imax (tf ! (s - 1)))) u then s - 1 else s)"
    by (simp add: begin_index_def Some s_def cmp Let_def)
  consider "s \<le> k" | "Suc k = s" | "Suc k < s" by linarith
  then have "k_ucmp ks u (k_ukey ks (imax (tf ! k))) \<le> 0 \<longleftrightarrow> begin_index ks umin tf \<le> k"
  proof cases
    case 1
    then have "k_ucmp ks u (k_ukey ks (imin (tf ! k))) < 0" using found [OF k] u_less_swap by simp
    then have "k_ucmp ks u (k_ukey ks (imax (tf ! k))) < 0"
      using level_order(2) [OF assms(1) k] u_less_le_trans by blast
    then show ?thesis using 1 b by auto
  next
    case 2
    then show ?thesis using b ucmp_swap [of u "k_ukey ks (imax (tf ! k))"] by auto
  next
    case 3
    have "\<not> 0 < k_ucmp ks (k_ukey ks (imin (tf ! (s - 1)))) u" using found [of "s - 1"] s 3 by auto
    moreover have "k_ucmp ks (k_ukey ks (imax (tf ! k))) (k_ukey ks (imin (tf ! (s - 1)))) < 0"
      using level_order(1) [OF assms(1)] s 3 by simp
    ultimately have "k_ucmp ks (k_ukey ks (imax (tf ! k))) u < 0" using u_less_le_trans not_le by blast
    then show ?thesis using 3 b u_not_le by auto
  qed
  then show ?thesis by (simp add: Some)
qed (simp add: begin_index_def)

lemma end_index_spec:
  assumes "level_sorted ks tf" and cmp: "k_ucmp ks = Compare" and k: "k < length tf"
  shows "(case umax of None \<Rightarrow> True | Some u \<Rightarrow> k_ucmp ks (k_ukey ks (imin (tf ! k))) u \<le> 0) \<longleftrightarrow>
    k < end_index ks umax tf"
proof (cases umax)
  case (Some u)
  define s where "s = searchMaxUkey ks u tf"
  have mono: "0 < k_ucmp ks (k_ukey ks (imax (tf ! b))) u"
    if "a \<le> b" "b < length tf" "0 < k_ucmp ks (k_ukey ks (imax (tf ! a))) u" for a b
    using that level_order(4) [OF assms(1) that(2,1)] u_less_le_trans by (simp add: u_less_swap)
  have s: "s \<le> length tf" unfolding s_def searchMaxUkey_def by (rule sort_Search_spec(1)) (rule mono)
  have found: "0 < k_ucmp ks (k_ukey ks (imax (tf ! j))) u \<longleftrightarrow> s \<le> j" if "j < length tf" for j
    unfolding s_def searchMaxUkey_def
    by (rule sort_Search_spec(2) [where f = "\<lambda>i. 0 < k_ucmp ks (k_ukey ks (imax (tf ! i))) u", OF mono that])
  have e: "end_index ks umax tf =
      (if s = length tf then length tf else if k_ucmp ks (k_ukey ks (imin (tf ! s))) u \<le> 0 then s + 1 else s)"
    by (simp add: end_index_def Some s_def cmp Let_def)
  consider "k < s" | "k = s" | "s < k" by linarith
  then have "k_ucmp ks (k_ukey ks (imin (tf ! k))) u \<le> 0 \<longleftrightarrow> k < end_index ks umax tf"
  proof cases
    case 1
    then have "k_ucmp ks (k_ukey ks (imax (tf ! k))) u \<le> 0" using found [OF k] by simp
    then have "k_ucmp ks (k_ukey ks (imin (tf ! k))) u \<le> 0"
      using level_order(2) [OF assms(1) k] u_le_trans by blast
    then show ?thesis using 1 k e by auto
  next
    case 2
    then show ?thesis using e k by auto
  next
    case 3
    have "k_ucmp ks u (k_ukey ks (imax (tf ! s))) < 0" using found [of s] 3 k u_less_swap by simp
    moreover have "k_ucmp ks (k_ukey ks (imax (tf ! s))) (k_ukey ks (imin (tf ! k))) < 0"
      using level_order(1) [OF assms(1) k 3] .
    ultimately have "k_ucmp ks u (k_ukey ks (imin (tf ! k))) < 0" using ucmp_trans by blast
    then show ?thesis using 3 k e u_not_le by auto
  qed
  then show ?thesis by (simp add: Some)
qed (simp add: end_index_def k)

lemma sorted_overlaps_filter:
  assumes "level_sorted ks tf" and "k_ucmp ks = Compare"
  shows "sorted_overlaps ks umin umax tf = filter (t_overlaps ks umin umax) tf"
proof -
  have "t_overlaps ks umin umax (tf ! k) \<longleftrightarrow> begin_index ks umin tf \<le> k \<and> k < end_index ks umax tf"
    if "k < length tf" for k
    using begin_index_spec [OF assms that] end_index_spec [OF assms that] by (simp add: overlaps_iff)
  then show ?thesis by (simp add: sorted_overlaps_def filter_interval Let_def)
qed

end

section \<open>Level 0\<close>

text \<open>\<open>wider\<close>: the range \<open>(a', b')\<close> contains \<open>(a, b)\<close>, with the same ends unbounded.\<close>

definition wider :: "'ik key_ops \<Rightarrow> bytes option \<Rightarrow> bytes option \<Rightarrow> bytes option \<Rightarrow> bytes option \<Rightarrow> bool" where
  "wider ks a' b' a b \<longleftrightarrow>
     (case (a', a) of (None, None) \<Rightarrow> True | (Some x, Some y) \<Rightarrow> k_ucmp ks x y \<le> 0 | _ \<Rightarrow> False) \<and>
     (case (b', b) of (None, None) \<Rightarrow> True | (Some x, Some y) \<Rightarrow> k_ucmp ks y x \<le> 0 | _ \<Rightarrow> False)"

definition within_range :: "'ik key_ops \<Rightarrow> bytes option \<Rightarrow> bytes option \<Rightarrow> 'ik tFile \<Rightarrow> bool" where
  "within_range ks a b t \<longleftrightarrow> \<not> widens_min ks a t \<and> \<not> widens_max ks b t"

definition pending :: "'ik key_ops \<Rightarrow> 'ik tFile list \<Rightarrow> bytes option \<Rightarrow> bytes option \<Rightarrow> nat" where
  "pending ks tf a b = length (filter (widens_min ks a) tf) + length (filter (widens_max ks b) tf)"

lemma filter_shrinks:
  assumes "t \<in> set tf" and "P t" and "\<not> Q t" and "\<And>x. Q x \<Longrightarrow> P x"
  shows "length (filter Q tf) < length (filter P tf)"
  using assms(1)
proof (induction tf)
  case (Cons x tf)
  have le: "length (filter Q tf) \<le> length (filter P tf)"
    using assms(4) by (induction tf) auto
  show ?case
  proof (cases "x = t")
    case True
    then show ?thesis using assms(2,3) le by simp
  next
    case False
    then show ?thesis using Cons assms(4) by auto
  qed
qed simp

context internal_keys
begin

lemma wider_refl: "wider ks a b a b"
  by (auto simp: wider_def split: option.split)

lemma wider_trans: "wider ks a2 b2 a1 b1 \<Longrightarrow> wider ks a1 b1 a b \<Longrightarrow> wider ks a2 b2 a b"
  by (auto simp: wider_def split: option.splits dest: u_le_trans)

lemma widen_min:
  assumes "widens_min ks a t" and "t \<in> set tf"
  shows "pending ks tf (Some (k_ukey ks (imin t))) b < pending ks tf a b"
    and "wider ks (Some (k_ukey ks (imin t))) b a b"
proof -
  obtain u where u: "a = Some u" "k_ucmp ks (k_ukey ks (imin t)) u < 0"
    using assms(1) by (auto simp: widens_min_def split: option.splits)
  have "length (filter (widens_min ks (Some (k_ukey ks (imin t)))) tf) < length (filter (widens_min ks a) tf)"
    using assms u ucmp_trans by (intro filter_shrinks [of t]) (auto simp: widens_min_def)
  then show "pending ks tf (Some (k_ukey ks (imin t))) b < pending ks tf a b" by (simp add: pending_def)
  show "wider ks (Some (k_ukey ks (imin t))) b a b" using u by (auto simp: wider_def split: option.split)
qed

lemma widen_max:
  assumes "widens_max ks b t" and "t \<in> set tf"
  shows "pending ks tf a (Some (k_ukey ks (imax t))) < pending ks tf a b"
    and "wider ks a (Some (k_ukey ks (imax t))) a b"
proof -
  obtain u where u: "b = Some u" "k_ucmp ks u (k_ukey ks (imax t)) < 0"
    using assms(1) by (auto simp: widens_max_def u_less_swap split: option.splits)
  have "length (filter (widens_max ks (Some (k_ukey ks (imax t)))) tf) < length (filter (widens_max ks b) tf)"
    using assms u ucmp_trans by (intro filter_shrinks [of t]) (auto simp: widens_max_def u_less_swap)
  then show "pending ks tf a (Some (k_ukey ks (imax t))) < pending ks tf a b" by (simp add: pending_def)
  show "wider ks a (Some (k_ukey ks (imax t))) a b" using u by (auto simp: wider_def split: option.split)
qed

lemma scan_overlaps_spec:
  assumes "dst = filter (t_overlaps ks a b) (take i tf)"
    and "\<forall>t \<in> set dst. within_range ks a b t" and "i \<le> length tf"
  shows "\<exists>a' b'. scan_overlaps ks tf a b i dst = Some (filter (t_overlaps ks a' b') tf) \<and> wider ks a' b' a b \<and>
    (\<forall>t \<in> set tf. t_overlaps ks a' b' t \<longrightarrow> within_range ks a' b' t)"
  using assms
proof (induction "pending ks tf a b * (length tf + 1) + (length tf - i)" arbitrary: a b i dst rule: less_induct)
  case less
  have restart: "pending ks tf a1 b1 * (length tf + 1) + (length tf - 0) <
      pending ks tf a b * (length tf + 1) + (length tf - i)" if "pending ks tf a1 b1 < pending ks tf a b" for a1 b1
  proof -
    have "(pending ks tf a1 b1 + 1) * (length tf + 1) \<le> pending ks tf a b * (length tf + 1)"
      using that by (intro mult_right_mono) auto
    then show ?thesis by simp
  qed
  show ?case
  proof (cases "i < length tf")
    case False
    then show ?thesis
      using less.prems wider_refl [of a b]
      by (subst scan_overlaps.simps) (intro exI [of _ a] exI [of _ b], auto)
  next
    case i: True
    let ?t = "tf ! i"
    have t: "?t \<in> set tf" using i by simp
    have tk: "take (i + 1) tf = take i tf @ [?t]" using i by (simp add: take_Suc_conv_app_nth)
    have next_step: "pending ks tf a b * (length tf + 1) + (length tf - (i + 1)) <
        pending ks tf a b * (length tf + 1) + (length tf - i)" using i by simp
    consider (skip) "\<not> t_overlaps ks a b ?t"
      | (low) "t_overlaps ks a b ?t" "widens_min ks a ?t"
      | (high) "t_overlaps ks a b ?t" "\<not> widens_min ks a ?t" "widens_max ks b ?t"
      | (keep) "t_overlaps ks a b ?t" "within_range ks a b ?t"
      by (auto simp: within_range_def)
    then show ?thesis
    proof cases
      case skip
      have "dst = filter (t_overlaps ks a b) (take (i + 1) tf)" using less.prems(1) tk skip by simp
      from less.hyps [OF next_step this less.prems(2)] i skip show ?thesis
        by (subst scan_overlaps.simps) simp
    next
      case low
      note w = widen_min [OF low(2) t, of b]
      from less.hyps [OF restart [OF w(1)], of "[]"] i low w(2) show ?thesis
        by (subst scan_overlaps.simps) (auto intro: wider_trans)
    next
      case high
      note w = widen_max [OF high(3) t, of a]
      from less.hyps [OF restart [OF w(1)], of "[]"] i high w(2) show ?thesis
        by (subst scan_overlaps.simps) (auto intro: wider_trans)
    next
      case keep
      have "dst @ [?t] = filter (t_overlaps ks a b) (take (i + 1) tf)" using less.prems(1) tk keep by simp
      moreover have "\<forall>t \<in> set (dst @ [?t]). within_range ks a b t" using less.prems(2) keep by simp
      ultimately show ?thesis
        using less.hyps [OF next_step] i keep by (subst scan_overlaps.simps) (simp add: within_range_def)
    qed
  qed
qed

end

section \<open>Instances\<close>

text \<open>
  The internal keys of the bytewise order: a user key and a sequence number, newer first; the seek key
  carries the largest sequence number.
\<close>

definition bytewise_keys :: "(bytes \<times> u64) key_ops" where
  "bytewise_keys = \<lparr>
     k_ukey = fst,
     k_icmp = (\<lambda>(a, m) (b, n). if Compare a b \<noteq> 0 then Compare a b else if n < m then -1 else if m < n then 1 else 0),
     k_ucmp = Compare,
     k_seek = (\<lambda>u. (u, - 1)) \<rparr>"

interpretation bytewise_keys: internal_keys bytewise_keys
proof unfold_locales
  show "k_icmp bytewise_keys y x = - k_icmp bytewise_keys x y" for x y
    using Compare_swap [of "fst y" "fst x"]
    by (auto simp: bytewise_keys_def split: prod.splits)
  show "k_icmp bytewise_keys x z < 0" if "k_icmp bytewise_keys x y < 0" "k_icmp bytewise_keys y z < 0" for x y z
    using that Compare_trans [of "fst x" "fst y" "fst z"]
    by (auto simp: bytewise_keys_def split: prod.splits if_splits)
  show "k_icmp bytewise_keys (k_seek bytewise_keys u) x \<le> 0" if "k_ukey bytewise_keys x = u" for x u
    using that word_order.extremum_strict [of "snd x"] by (auto simp: bytewise_keys_def split: prod.splits)
  show "k_ucmp bytewise_keys b a = - k_ucmp bytewise_keys a b" for a b
    using Compare_swap [of b a] by (simp add: bytewise_keys_def)
  show "k_ucmp bytewise_keys a c < 0" if "k_ucmp bytewise_keys a b < 0" "k_ucmp bytewise_keys b c < 0" for a b c
    using that Compare_trans [of a b c] by (simp add: bytewise_keys_def)
  show "k_ucmp bytewise_keys [] a < 0" if "a \<noteq> []" for a
    using that bytewise.cmp_Nil by (simp add: bytewise_keys_def)
  show "k_ucmp bytewise_keys a b \<in> {-1, 0, 1}" for a b
    using Compare_values [of a b] by (simp add: bytewise_keys_def)
qed (auto simp: bytewise_keys_def split: prod.splits if_splits)

text \<open>A comparer that orders non-empty keys downwards, as a user of the database may supply.\<close>

definition down_compare :: "bytes \<Rightarrow> bytes \<Rightarrow> int" where
  "down_compare a b = (if a = [] \<or> b = [] then Compare a b else Compare b a)"

definition down_keys :: "bytes key_ops" where
  "down_keys = \<lparr>k_ukey = id, k_icmp = down_compare, k_ucmp = down_compare, k_seek = id\<rparr>"

lemma down_compare_laws:
  "down_compare a b \<in> {-1, 0, 1}" "down_compare a b = 0 \<longleftrightarrow> a = b" "down_compare b a = - down_compare a b"
  "down_compare a b < 0 \<Longrightarrow> down_compare b c < 0 \<Longrightarrow> down_compare a c < 0" "a \<noteq> [] \<Longrightarrow> down_compare [] a < 0"
proof -
  show "down_compare a b \<in> {-1, 0, 1}" using Compare_values [of a b] Compare_values [of b a] by (simp add: down_compare_def)
  show "down_compare a b = 0 \<longleftrightarrow> a = b" by (auto simp: down_compare_def)
  show "down_compare b a = - down_compare a b" using Compare_swap [of a b] by (auto simp: down_compare_def)
  show "a \<noteq> [] \<Longrightarrow> down_compare [] a < 0" using bytewise.cmp_Nil by (simp add: down_compare_def)
  have nil: "\<not> Compare x [] < 0" for x using Compare_Nil(2) [of x] by (simp only: not_less)
  show "down_compare a b < 0 \<Longrightarrow> down_compare b c < 0 \<Longrightarrow> down_compare a c < 0"
    using Compare_trans [of c b a] nil bytewise.cmp_Nil [of c]
    by (cases "a = []"; cases "b = []"; cases "c = []") (auto simp: down_compare_def)
qed

lemma down_compare_refl [simp]: "down_compare a a = 0"
  by (simp add: down_compare_laws(2))

interpretation down_keys: internal_keys down_keys
proof unfold_locales
  show "k_ucmp down_keys b a = - k_ucmp down_keys a b" "k_icmp down_keys b a = - k_icmp down_keys a b" for a b
    using down_compare_laws(3) [of b a] by (simp_all add: down_keys_def)
  show "k_ucmp down_keys a c < 0" if "k_ucmp down_keys a b < 0" "k_ucmp down_keys b c < 0" for a b c
    using that down_compare_laws(4) [of a b c] by (simp add: down_keys_def)
  show "k_icmp down_keys a c < 0" if "k_icmp down_keys a b < 0" "k_icmp down_keys b c < 0" for a b c
    using that down_compare_laws(4) [of a b c] by (simp add: down_keys_def)
  show "k_ucmp down_keys a b \<in> {-1, 0, 1}" for a b
    using down_compare_laws(1) [of a b] by (simp add: down_keys_def)
qed (use down_compare_laws(2) in \<open>simp_all add: down_keys_def down_compare_laws(5)\<close>)

section \<open>Properties\<close>

text \<open>
  C30: searching a level without overlaps.  With keys in order, bisection finds whether a key range overlaps the
  level exactly when comparing with every file does, and with the bytewise comparer \<^verbatim>\<open>getOverlaps\<close> returns exactly
  the files that overlap the range, in order.
\<close>

theorem level_overlaps_exact:
  assumes "internal_keys ks" and "level_sorted ks tf"
  shows "tFiles_overlaps ks umin umax False tf = list_ex (t_overlaps ks umin umax) tf \<and>
    (k_ucmp ks = Compare \<longrightarrow> getOverlaps ks umin umax False tf = Some (filter (t_overlaps ks umin umax) tf))"
  using internal_keys.sorted_overlaps_decides [OF assms] internal_keys.sorted_overlaps_filter [OF assms]
  by (auto simp: tFiles_overlaps_def getOverlaps_def)

theorem level_overlaps_exact_witness:
  "getOverlaps bytewise_keys (Some [2]) (Some [5]) False
     [newTableFile 1 10 ([1], 9) ([3], 1), newTableFile 2 10 ([4], 8) ([4], 2), newTableFile 3 10 ([6], 3) ([9], 1)] =
   Some [newTableFile 1 10 ([1], 9) ([3], 1), newTableFile 2 10 ([4], 8) ([4], 2)]"
proof -
  let ?tf = "[newTableFile 1 10 ([1], 9) ([3], 1), newTableFile 2 10 ([4], 8) ([4], 2), newTableFile 3 10 ([6], 3) ([9], 1)]"
  have "level_sorted bytewise_keys ?tf"
    by (simp add: level_sorted_def bytewise_keys_def newTableFile_def)
  from level_overlaps_exact [OF bytewise_keys.internal_keys_axioms this, of "Some [2]" "Some [5]"]
  show ?thesis
    by (simp add: bytewise_keys_def t_overlaps_def t_after_def t_before_def newTableFile_def)
qed

text \<open>
  C31: the overlaps of level 0.  The scan with restarts always ends; its result is all files that overlap a
  range which contains the given one, is unbounded at the same ends, and into which every one of these files fits: no file
  of the level reaches across the boundary of what is returned.
\<close>

theorem level0_overlaps_closed:
  assumes "internal_keys ks"
  shows "\<exists>a b. getOverlaps ks umin umax True tf = Some (filter (t_overlaps ks a b) tf) \<and>
    wider ks a b umin umax \<and> (\<forall>t \<in> set tf. t_overlaps ks a b t \<longrightarrow> within_range ks a b t)"
proof (cases tf)
  case Nil
  then show ?thesis
    using internal_keys.wider_refl [OF assms, of umin umax] by (auto simp: getOverlaps_def)
next
  case (Cons t ts)
  then show ?thesis
    using internal_keys.scan_overlaps_spec [OF assms, of "[]" umin umax 0 tf] by (simp add: getOverlaps_def)
qed

theorem level0_overlaps_closed_witness:
  "\<exists>a b. getOverlaps bytewise_keys (Some [4]) (Some [5]) True
     [newTableFile 1 10 ([3], 9) ([4], 1), newTableFile 2 10 ([1], 8) ([3], 2)] =
   Some (filter (t_overlaps bytewise_keys a b) [newTableFile 1 10 ([3], 9) ([4], 1), newTableFile 2 10 ([1], 8) ([3], 2)])"
  using level0_overlaps_closed [OF bytewise_keys.internal_keys_axioms, of "Some [4]" "Some [5]"
      "[newTableFile 1 10 ([3], 9) ([4], 1), newTableFile 2 10 ([1], 8) ([3], 2)]"] by blast

text \<open>
  With a comparer of the user's own, \<^verbatim>\<open>getOverlaps\<close> can miss a file: it compares with the neighbouring file by
  \<^verbatim>\<open>bytes.Compare\<close>.  With keys ordered downwards, a file that holds the keys from 5 down to 2 is not returned for the range
  from 3, although the ordering obeys every law of a comparer and the level is in order.
\<close>

theorem getOverlaps_misses_file:
  "internal_keys down_keys \<and>
   level_sorted down_keys [newTableFile 1 10 [5] [2]] \<and>
   t_overlaps down_keys (Some [3]) None (newTableFile 1 10 [5] [2]) \<and>
   getOverlaps down_keys (Some [3]) None False [newTableFile 1 10 [5] [2]] = Some []"
  using down_keys.internal_keys_axioms
  by (simp add: level_sorted_def down_keys_def down_compare_def newTableFile_def t_overlaps_def t_after_def
      t_before_def getOverlaps_def sorted_overlaps_def begin_index_def end_index_def searchMinUkey_def
      sort_Search_def bisect.simps)

end
