(* ===== verification/Ldb_Version.thy ===== *)
theory Ldb_Version
  imports Ldb_Tables Complex_Main
begin

text \<open>
  One version of the database's set of tables, \<^verbatim>\<open>goleveldb/leveldb/version.go\<close>: the walk over the tables that may
  hold a key, the lookup of a key, and the level a flushed memory table goes to.  The search in one
  table (\<^verbatim>\<open>tops.find\<close>, \<^verbatim>\<open>tops.offsetOf\<close>) is an argument here; \<^verbatim>\<open>Ldb_Lookup\<close> puts the reader of table files in its place.  The parsing of an internal key is in a file that is
  not part of the repository.
\<close>

section \<open>Versions\<close>

text \<open>The fields of \<^verbatim>\<open>version\<close> without the pointer to its session; a compaction score is a \<open>rat\<close>.\<close>

record 'ik version =
  v_id :: int
  v_levels :: "'ik tFile list list"
  v_cLevel :: int
  v_cScore :: rat
  v_cSeek :: "(int \<times> 'ik tFile) option"
  v_closing :: bool
  v_ref :: int
  v_released :: bool

datatype key_type = KeyDel | KeyVal

section \<open>Walking the tables that may hold a key\<close>

text \<open>Calling \<open>f\<close> on the tables of a list until it says to stop.\<close>

primrec walk_tables :: "('t \<Rightarrow> 's \<Rightarrow> 's \<times> bool) \<Rightarrow> 't list \<Rightarrow> 's \<Rightarrow> 's \<times> bool" where
  "walk_tables f [] s = (s, True)"
| "walk_tables f (t # ts) s =
     (case f t s of (s', go) \<Rightarrow> if go then walk_tables f ts s' else (s', False))"

definition call_lf :: "(int \<Rightarrow> 's \<Rightarrow> 's \<times> bool) option \<Rightarrow> int \<Rightarrow> 's \<Rightarrow> 's \<times> bool" where
  "call_lf lf level s = (case lf of None \<Rightarrow> (s, True) | Some g \<Rightarrow> g level s)"

definition walk_one_level ::
  "'ik key_ops \<Rightarrow> 'ik \<Rightarrow> (int \<Rightarrow> 'ik tFile \<Rightarrow> 's \<Rightarrow> 's \<times> bool) \<Rightarrow> nat \<Rightarrow> 'ik tFile list \<Rightarrow> 's \<Rightarrow> 's \<times> bool" where
  "walk_one_level ks ikey f level tables s =
     (let ukey = k_ukey ks ikey
      in if level = 0
         then walk_tables (f 0) (filter (t_overlaps ks (Some ukey) (Some ukey)) tables) s
         else let i = searchMax ks ikey tables
           in if i < length tables \<and> 0 \<le> k_ucmp ks ukey (k_ukey ks (imin (tables ! i)))
              then f (int level) (tables ! i) s
              else (s, True))"

fun walk_levels ::
  "'ik key_ops \<Rightarrow> 'ik \<Rightarrow> (int \<Rightarrow> 'ik tFile \<Rightarrow> 's \<Rightarrow> 's \<times> bool) \<Rightarrow> (int \<Rightarrow> 's \<Rightarrow> 's \<times> bool) option \<Rightarrow>
   nat \<Rightarrow> 'ik tFile list list \<Rightarrow> 's \<Rightarrow> 's" where
  "walk_levels ks ikey f lf level [] s = s"
| "walk_levels ks ikey f lf level (tables # rest) s =
     (if length tables = 0 then walk_levels ks ikey f lf (level + 1) rest s
      else case walk_one_level ks ikey f level tables s of (s, go) \<Rightarrow>
        if \<not> go then s
        else case call_lf lf (int level) s of (s, go) \<Rightarrow>
          if \<not> go then s else walk_levels ks ikey f lf (level + 1) rest s)"

definition walkOverlapping ::
  "'ik key_ops \<Rightarrow> 'ik version \<Rightarrow> 'ik tFile list option \<Rightarrow> 'ik \<Rightarrow> (int \<Rightarrow> 'ik tFile \<Rightarrow> 's \<Rightarrow> 's \<times> bool) \<Rightarrow>
   (int \<Rightarrow> 's \<Rightarrow> 's \<times> bool) option \<Rightarrow> 's \<Rightarrow> 's" where
  "walkOverlapping ks v aux ikey f lf s =
     (let ukey = k_ukey ks ikey
      in case aux of
        None \<Rightarrow> walk_levels ks ikey f lf 0 (v_levels v) s
      | Some ts \<Rightarrow>
          (case walk_tables (f (-1)) (filter (t_overlaps ks (Some ukey) (Some ukey)) ts) s of (s, go) \<Rightarrow>
             if \<not> go then s
             else case call_lf lf (-1) s of (s, go) \<Rightarrow>
               if \<not> go then s else walk_levels ks ikey f lf 0 (v_levels v) s))"

section \<open>Looking up a key\<close>

text \<open>What \<^verbatim>\<open>tops.find\<close> gives for a table: the bytes of a key and a value, not found, or another error.\<close>

datatype ('rk, 'val, 'e) find_result = Found 'rk 'val | NotFound | FindError 'e

datatype 'e get_error = ErrClosed | ErrNotFound | ErrKey | ErrFind 'e

text \<open>The variables of \<^verbatim>\<open>get\<close> that its two closures share.\<close>

record ('ik, 'val, 'e) get_state =
  g_value :: "'val option"
  g_err :: "'e get_error option"
  g_tset :: "(int \<times> 'ik tFile) option"
  g_tseek :: bool
  g_zfound :: bool
  g_zseq :: nat
  g_zkt :: key_type
  g_zval :: "'val option"

definition get_f ::
  "'ik key_ops \<Rightarrow> ('rk \<Rightarrow> (bytes \<times> nat \<times> key_type) option) \<Rightarrow> ('ik tFile \<Rightarrow> 'ik \<Rightarrow> ('rk, 'val, 'e) find_result) \<Rightarrow>
   bool \<Rightarrow> 'ik \<Rightarrow> int \<Rightarrow> 'ik tFile \<Rightarrow> ('ik, 'val, 'e) get_state \<Rightarrow> ('ik, 'val, 'e) get_state \<times> bool" where
  "get_f ks parse tfind sampleSeeks ikey level t g =
     (let g = (if sampleSeeks \<and> 0 \<le> level \<and> \<not> g_tseek g
               then (if g_tset g = None then g\<lparr>g_tset := Some (level, t)\<rparr> else g\<lparr>g_tseek := True\<rparr>)
               else g)
      in case tfind t ikey of
          NotFound \<Rightarrow> (g, True)
        | FindError e \<Rightarrow> (g\<lparr>g_err := Some (ErrFind e)\<rparr>, False)
        | Found fikey fval \<Rightarrow>
            (case parse fikey of
               None \<Rightarrow> (g\<lparr>g_err := Some ErrKey\<rparr>, False)
             | Some (fukey, fseq, fkt) \<Rightarrow>
                 if k_ucmp ks (k_ukey ks ikey) fukey = 0 then
                   (if level \<le> 0 then
                      (if g_zseq g \<le> fseq
                       then (g\<lparr>g_zfound := True, g_zseq := fseq, g_zkt := fkt, g_zval := Some fval\<rparr>, True)
                       else (g, True))
                    else (case fkt of
                            KeyVal \<Rightarrow> (g\<lparr>g_value := Some fval, g_err := None\<rparr>, False)
                          | KeyDel \<Rightarrow> (g, False)))
                 else (g, True)))"

definition get_lf :: "int \<Rightarrow> ('ik, 'val, 'e) get_state \<Rightarrow> ('ik, 'val, 'e) get_state \<times> bool" where
  "get_lf level g =
     (if g_zfound g then
        (case g_zkt g of
           KeyVal \<Rightarrow> (g\<lparr>g_value := g_zval g, g_err := None\<rparr>, False)
         | KeyDel \<Rightarrow> (g, False))
      else (g, True))"

definition get_init :: "('ik, 'val, 'e) get_state" where
  "get_init = \<lparr>g_value = None, g_err = Some ErrNotFound, g_tset = None, g_tseek = False, g_zfound = False,
     g_zseq = 0, g_zkt = KeyDel, g_zval = None\<rparr>"

text \<open>
  The seek budget of a table is charged, and once it is used up the table is proposed for compaction unless another one is.
  The counter is shared by every copy of the pointer to the table, which the number of its file identifies.
\<close>

definition charge_seek :: "'ik version \<Rightarrow> int \<times> 'ik tFile \<Rightarrow> 'ik version \<times> bool" where
  "charge_seek v tset =
     (case consumeSeek (snd tset) of (t', left) \<Rightarrow>
        let v = v\<lparr>v_levels := map (map (\<lambda>t. if fd_num t = fd_num t' then t\<lparr>seekLeft := seekLeft t'\<rparr> else t)) (v_levels v)\<rparr>
        in if left \<le> 0 \<and> v_cSeek v = None then (v\<lparr>v_cSeek := Some (fst tset, t')\<rparr>, True) else (v, False))"

definition charge_opt :: "'ik version \<Rightarrow> (int \<times> 'ik tFile) option \<Rightarrow> 'ik version \<times> bool" where
  "charge_opt v tset = (case tset of None \<Rightarrow> (v, False) | Some ts \<Rightarrow> charge_seek v ts)"

text \<open>
  The result: value, error, the version with its seek counters, and whether a compaction is due.  \<open>tfind\<close> is \<^verbatim>\<open>tops.find\<close>, or
  \<^verbatim>\<open>tops.findKey\<close> with an empty value when \<^verbatim>\<open>noValue\<close> is set.
\<close>

definition version_get ::
  "'ik key_ops \<Rightarrow> ('rk \<Rightarrow> (bytes \<times> nat \<times> key_type) option) \<Rightarrow> ('ik tFile \<Rightarrow> 'ik \<Rightarrow> ('rk, 'val, 'e) find_result) \<Rightarrow>
   bool \<Rightarrow> 'ik version \<Rightarrow> 'ik tFile list option \<Rightarrow> 'ik \<Rightarrow>
   'val option \<times> 'e get_error option \<times> 'ik version \<times> bool" where
  "version_get ks parse tfind sampleSeeks v aux ikey =
     (if v_closing v then (None, Some ErrClosed, v, False)
      else let g = walkOverlapping ks v aux ikey (get_f ks parse tfind sampleSeeks ikey) (Some get_lf) get_init
        in (g_value g, g_err g, charge_opt v (if g_tseek g then g_tset g else None)))"

text \<open>\<^verbatim>\<open>sampleSeek\<close>: the state is the first table met and whether a second one was.\<close>

definition sample_f ::
  "int \<Rightarrow> 'ik tFile \<Rightarrow> (int \<times> 'ik tFile) option \<times> bool \<Rightarrow> ((int \<times> 'ik tFile) option \<times> bool) \<times> bool" where
  "sample_f level t s = (case s of (None, hit) \<Rightarrow> ((Some (level, t), hit), True) | (Some ts, hit) \<Rightarrow> ((Some ts, True), False))"

definition sampleSeek :: "'ik key_ops \<Rightarrow> 'ik version \<Rightarrow> 'ik \<Rightarrow> 'ik version \<times> bool" where
  "sampleSeek ks v ikey =
     (case walkOverlapping ks v None ikey sample_f None (None, False) of
        (tset, hit) \<Rightarrow> charge_opt v (if hit then tset else None))"

section \<open>Placement of flushed tables\<close>

definition tLen :: "'ik version \<Rightarrow> nat \<Rightarrow> nat" where
  "tLen v level = (if level < length (v_levels v) then length (v_levels v ! level) else 0)"

text \<open>The loop of \<^verbatim>\<open>pickMemdbLevel\<close>; \<open>gp_limit level\<close> is \<^verbatim>\<open>GetCompactionGPOverlaps\<close>.\<close>

function pick_loop ::
  "'ik key_ops \<Rightarrow> (nat \<Rightarrow> int) \<Rightarrow> 'ik tFile list list \<Rightarrow> bytes option \<Rightarrow> bytes option \<Rightarrow> nat \<Rightarrow> nat \<Rightarrow> nat option" where
  "pick_loop ks gp_limit lvls umin umax maxLevel level =
     (if level < maxLevel then
        (if length lvls \<le> level + 1 then Some maxLevel
         else if tFiles_overlaps ks umin umax False (lvls ! (level + 1)) then Some level
         else if level + 2 < length lvls then
           (case getOverlaps ks umin umax False (lvls ! (level + 2)) of
              None \<Rightarrow> None
            | Some ov \<Rightarrow>
                if gp_limit level < tFiles_size ov then Some level
                else pick_loop ks gp_limit lvls umin umax maxLevel (level + 1))
         else pick_loop ks gp_limit lvls umin umax maxLevel (level + 1))
      else Some level)"
  by pat_completeness auto
termination by (relation "measure (\<lambda>(ks, g, l, a, b, m, i). m - i)") auto

declare pick_loop.simps [simp del]

definition pickMemdbLevel ::
  "'ik key_ops \<Rightarrow> (nat \<Rightarrow> int) \<Rightarrow> 'ik version \<Rightarrow> bytes option \<Rightarrow> bytes option \<Rightarrow> nat \<Rightarrow> nat option" where
  "pickMemdbLevel ks gp_limit v umin umax maxLevel =
     (if 0 < maxLevel then
        (if length (v_levels v) = 0 then Some maxLevel
         else if \<not> tFiles_overlaps ks umin umax True (v_levels v ! 0)
         then pick_loop ks gp_limit (v_levels v) umin umax maxLevel 0
         else Some 0)
      else Some 0)"

section \<open>Offsets\<close>

text \<open>\<^verbatim>\<open>offsetOf\<close> within one level; \<open>tbl\<close> is the offset inside a table.\<close>

fun level_offset ::
  "'ik key_ops \<Rightarrow> ('ik tFile \<Rightarrow> 'ik \<Rightarrow> 'e + int) \<Rightarrow> 'ik \<Rightarrow> nat \<Rightarrow> 'ik tFile list \<Rightarrow> int \<Rightarrow> 'e + int" where
  "level_offset ks tbl ikey level [] n = Inr n"
| "level_offset ks tbl ikey level (t # ts) n =
     (if k_icmp ks (imax t) ikey \<le> 0 then level_offset ks tbl ikey level ts (n + file_size t)
      else if 0 < k_icmp ks (imin t) ikey then (if 0 < level then Inr n else level_offset ks tbl ikey level ts n)
      else (case tbl t ikey of Inl e \<Rightarrow> Inl e | Inr m \<Rightarrow> level_offset ks tbl ikey level ts (n + m)))"

fun offset_levels ::
  "'ik key_ops \<Rightarrow> ('ik tFile \<Rightarrow> 'ik \<Rightarrow> 'e + int) \<Rightarrow> 'ik \<Rightarrow> nat \<Rightarrow> 'ik tFile list list \<Rightarrow> int \<Rightarrow> 'e + int" where
  "offset_levels ks tbl ikey level [] n = Inr n"
| "offset_levels ks tbl ikey level (ts # rest) n =
     (case level_offset ks tbl ikey level ts n of
        Inl e \<Rightarrow> Inl e
      | Inr n \<Rightarrow> offset_levels ks tbl ikey (level + 1) rest n)"

definition offsetOf :: "'ik key_ops \<Rightarrow> ('ik tFile \<Rightarrow> 'ik \<Rightarrow> 'e + int) \<Rightarrow> 'ik version \<Rightarrow> 'ik \<Rightarrow> 'e + int" where
  "offsetOf ks tbl v ikey = offset_levels ks tbl ikey 0 (v_levels v) 0"

section \<open>The contents of the tables\<close>

text \<open>The entries of a table that a lookup of \<open>ikey\<close> may return, newest first.\<close>

definition visible :: "'ik key_ops \<Rightarrow> ('ik tFile \<Rightarrow> ('ik \<times> 'val) list) \<Rightarrow> 'ik \<Rightarrow> 'ik tFile \<Rightarrow> ('ik \<times> 'val) list" where
  "visible ks entries ikey t =
     filter (\<lambda>(k, v). k_ukey ks k = k_ukey ks ikey \<and> 0 \<le> k_icmp ks k ikey) (entries t)"

text \<open>
  What is known of the code that reads a table: the table holds entries in the order of their internal keys, all within its
  bounds and with keys that parse, and a search gives the first entry whose key is not below the one given.  A search goes through the filter of the table and so may
  give not-found instead, but only if the table has no entry that the lookup could return.
\<close>

locale table_store = internal_keys ks
  for ks :: "'ik key_ops" +
  fixes parse :: "'rk \<Rightarrow> (bytes \<times> nat \<times> key_type) option"
    and raw :: "'ik \<Rightarrow> 'rk"
    and tfind :: "'ik tFile \<Rightarrow> 'ik \<Rightarrow> ('rk, 'val, 'e) find_result"
    and entries :: "'ik tFile \<Rightarrow> ('ik \<times> 'val) list"
    and seq_of :: "'ik \<Rightarrow> nat"
    and kind_of :: "'ik \<Rightarrow> key_type"
  assumes parse_law: "(k, v) \<in> set (entries t) \<Longrightarrow> parse (raw k) = Some (k_ukey ks k, seq_of k, kind_of k)"
    and seq_law: "k_ukey ks x = k_ukey ks y \<Longrightarrow> k_icmp ks x y < 0 \<Longrightarrow> seq_of y \<le> seq_of x"
    and find_law: "tfind t ikey =
        (case filter (\<lambda>(k, v). 0 \<le> k_icmp ks k ikey) (entries t) of [] \<Rightarrow> NotFound | (k, v) # _ \<Rightarrow> Found (raw k) v) \<or>
      tfind t ikey = NotFound \<and> visible ks entries ikey t = []"
    and entries_sorted: "sorted_wrt (\<lambda>a b. k_icmp ks (fst a) (fst b) < 0) (entries t)"
    and entries_range: "(k, v) \<in> set (entries t) \<Longrightarrow> k_icmp ks (imin t) k \<le> 0 \<and> k_icmp ks k (imax t) \<le> 0"

text \<open>The entries of some tables that a lookup may return.\<close>

definition visible_all :: "'ik key_ops \<Rightarrow> ('ik tFile \<Rightarrow> ('ik \<times> 'val) list) \<Rightarrow> 'ik \<Rightarrow> 'ik tFile list \<Rightarrow> ('ik \<times> 'val) list" where
  "visible_all ks entries ikey ts = concat (map (visible ks entries ikey) ts)"

text \<open>The entry of a list with the largest sequence number.\<close>

definition newest :: "('ik \<Rightarrow> nat) \<Rightarrow> ('ik \<times> 'val) list \<Rightarrow> 'ik \<times> 'val \<Rightarrow> bool" where
  "newest seq_of es e \<longleftrightarrow> e \<in> set es \<and> list_all (\<lambda>e'. e' = e \<or> seq_of (fst e') < seq_of (fst e)) es"

text \<open>Value and error of a lookup that finds the entry.\<close>

definition entry_result :: "('ik \<Rightarrow> key_type) \<Rightarrow> 'ik \<times> 'val \<Rightarrow> 'val option \<times> 'e get_error option" where
  "entry_result kind_of e =
     (case kind_of (fst e) of KeyVal \<Rightarrow> (Some (snd e), None) | KeyDel \<Rightarrow> (None, Some ErrNotFound))"

text \<open>The states of a lookup: nothing found, only entries older than \<open>e\<close> found, and \<open>e\<close> found.\<close>

definition idle :: "('ik, 'val, 'e) get_state \<Rightarrow> bool" where
  "idle g \<longleftrightarrow> g_value g = None \<and> g_err g = Some ErrNotFound \<and> \<not> g_zfound g \<and> g_zseq g = 0"

definition seeking :: "('ik \<Rightarrow> nat) \<Rightarrow> 'ik \<times> 'val \<Rightarrow> ('ik, 'val, 'e) get_state \<Rightarrow> bool" where
  "seeking seq_of e g \<longleftrightarrow> g_value g = None \<and> g_err g = Some ErrNotFound \<and>
     (if g_zfound g then g_zseq g < seq_of (fst e) else g_zseq g = 0)"

definition holding ::
  "('ik \<Rightarrow> nat) \<Rightarrow> ('ik \<Rightarrow> key_type) \<Rightarrow> 'ik \<times> 'val \<Rightarrow> ('ik, 'val, 'e) get_state \<Rightarrow> bool" where
  "holding seq_of kind_of e g \<longleftrightarrow> g_value g = None \<and> g_err g = Some ErrNotFound \<and> g_zfound g \<and>
     g_zseq g = seq_of (fst e) \<and> g_zkt g = kind_of (fst e) \<and> g_zval g = Some (snd e)"

text \<open>The fields that do not count seeks.\<close>

definition get_core :: "('ik, 'val, 'e) get_state \<Rightarrow> 'val option \<times> 'e get_error option \<times> bool \<times> nat \<times> key_type \<times> 'val option" where
  "get_core g = (g_value g, g_err g, g_zfound g, g_zseq g, g_zkt g, g_zval g)"

lemma get_core_cong:
  assumes "get_core g' = get_core g"
  shows "idle g' = idle g" and "seeking seq_of e g' = seeking seq_of e g" and "holding seq_of kind_of e g' = holding seq_of kind_of e g"
  using assms by (auto simp: get_core_def idle_def seeking_def holding_def)

context internal_keys
begin

lemma i_not_le: "\<not> k_icmp ks a b \<le> 0 \<longleftrightarrow> k_icmp ks b a < 0"
  using icmp_swap [of a b] by auto

lemma icmp_le_ukey: "k_icmp ks a b \<le> 0 \<Longrightarrow> k_ucmp ks (k_ukey ks a) (k_ukey ks b) \<le> 0"
proof (rule ccontr)
  assume le: "k_icmp ks a b \<le> 0" and "\<not> k_ucmp ks (k_ukey ks a) (k_ukey ks b) \<le> 0"
  then have "k_icmp ks b a < 0" using u_not_le icmp_ukey by blast
  then show False using le icmp_swap [of a b] by simp
qed

lemma i_le_trans: "k_icmp ks a b \<le> 0 \<Longrightarrow> k_icmp ks b c \<le> 0 \<Longrightarrow> k_icmp ks a c \<le> 0"
  using icmp_eq [of a b] icmp_eq [of b c] icmp_trans [of a b c] by (cases "a = b"; cases "b = c") (auto simp: le_less)

lemma i_ge: "0 \<le> k_icmp ks a b \<longleftrightarrow> k_icmp ks b a \<le> 0"
  using icmp_swap [of a b] by simp

end

context table_store
begin

text \<open>What the search in a table says about the key.\<close>

lemma find_visible:
  assumes "visible ks entries ikey t \<noteq> []"
  shows "tfind t ikey = Found (raw (fst (hd (visible ks entries ikey t)))) (snd (hd (visible ks entries ikey t)))"
proof -
  let ?P = "\<lambda>(k, v). 0 \<le> k_icmp ks k ikey" and ?Q = "\<lambda>(k, v). k_ukey ks k = k_ukey ks ikey \<and> 0 \<le> k_icmp ks k ikey"
  have vis: "visible ks entries ikey t = filter ?Q (filter ?P (entries t))"
    unfolding visible_def filter_filter by (rule filter_cong) auto
  from assms vis obtain x xs where x: "filter ?P (entries t) = x # xs" by (cases "filter ?P (entries t)") auto
  obtain y where y: "y \<in> set (filter ?P (entries t))" "?Q y"
    using assms unfolding vis filter_empty_conv by blast
  have "sorted_wrt (\<lambda>a b. k_icmp ks (fst a) (fst b) < 0) (x # xs)"
    using sorted_wrt_filter [OF entries_sorted, of ?P t] x by simp
  moreover have "y \<in> set (x # xs)" using y(1) unfolding x .
  ultimately have "k_icmp ks (fst x) (fst y) \<le> 0" using icmp_eq [of "fst x" "fst x"] by auto
  then have "k_ucmp ks (k_ukey ks (fst x)) (k_ukey ks ikey) \<le> 0"
    using icmp_le_ukey [of "fst x" "fst y"] y(2) by (simp add: split_beta)
  moreover have "x \<in> set (filter ?P (entries t))" by (simp only: x list.set_intros)
  then have "?P x" by simp
  then have "k_ucmp ks (k_ukey ks ikey) (k_ukey ks (fst x)) \<le> 0"
    using icmp_le_ukey [of ikey "fst x"] by (simp add: split_beta i_ge)
  ultimately have "k_ukey ks (fst x) = k_ukey ks ikey"
    using ucmp_swap [of "k_ukey ks (fst x)" "k_ukey ks ikey"] ucmp_eq by fastforce
  then have "?Q x" using \<open>?P x\<close> by (simp add: split_beta)
  then have "hd (visible ks entries ikey t) = x" by (simp add: vis x)
  then show ?thesis using find_law [of t ikey] assms by (simp add: x split_beta)
qed

lemma find_invisible:
  assumes "visible ks entries ikey t = []"
  shows "tfind t ikey = NotFound \<or> (\<exists>k v. tfind t ikey = Found (raw k) v \<and> (k, v) \<in> set (entries t) \<and> k_ukey ks k \<noteq> k_ukey ks ikey)"
proof (cases "filter (\<lambda>(k, v). 0 \<le> k_icmp ks k ikey) (entries t)")
  case Nil
  then show ?thesis using find_law [of t ikey] by auto
next
  case (Cons x xs)
  have "x \<in> set (filter (\<lambda>(k, v). 0 \<le> k_icmp ks k ikey) (entries t))" by (simp only: Cons list.set_intros)
  then have "x \<in> set (entries t)" "0 \<le> k_icmp ks (fst x) ikey" by (simp_all add: split_beta)
  then have "k_ukey ks (fst x) \<noteq> k_ukey ks ikey" using assms by (auto simp: visible_def filter_empty_conv)
  then show ?thesis using Cons \<open>x \<in> set (entries t)\<close> find_law [of t ikey] by (cases x) auto
qed

lemma visible_ukey: "e \<in> set (visible ks entries ikey t) \<Longrightarrow> k_ukey ks (fst e) = k_ukey ks ikey"
  by (auto simp: visible_def)

text \<open>The entry that a search shows, and how its key parses.\<close>

lemma find_head:
  assumes "visible ks entries ikey t = e # es"
  shows "tfind t ikey = Found (raw (fst e)) (snd e)" "parse (raw (fst e)) = Some (k_ukey ks ikey, seq_of (fst e), kind_of (fst e))"
proof -
  have e: "e \<in> set (visible ks entries ikey t)" using assms by simp
  then have "(fst e, snd e) \<in> set (entries t)" by (auto simp: visible_def)
  from parse_law [OF this] show "parse (raw (fst e)) = Some (k_ukey ks ikey, seq_of (fst e), kind_of (fst e))"
    using visible_ukey [OF e] by simp
qed (use find_visible [of ikey t] assms in simp)

text \<open>The tables that hold the key are the ones the walk visits.\<close>

lemma visible_overlaps:
  assumes "visible ks entries ikey t \<noteq> []"
  shows "t_overlaps ks (Some (k_ukey ks ikey)) (Some (k_ukey ks ikey)) t"
proof -
  obtain k v where kv: "(k, v) \<in> set (entries t)" "k_ukey ks k = k_ukey ks ikey"
    using assms by (auto simp: visible_def filter_empty_conv)
  then show ?thesis
    using entries_range [OF kv(1)] icmp_le_ukey by (fastforce simp: overlaps_iff)
qed

lemma visible_searchMax:
  assumes sorted: "level_sorted ks tf" and j: "j < length tf" and vis: "visible ks entries ikey (tf ! j) \<noteq> []"
  shows "searchMax ks ikey tf = j" and "0 \<le> k_ucmp ks (k_ukey ks ikey) (k_ukey ks (imin (tf ! j)))"
proof -
  obtain k v where kv: "(k, v) \<in> set (entries (tf ! j))" "k_ukey ks k = k_ukey ks ikey" "k_icmp ks ikey k \<le> 0"
    using vis by (auto simp: visible_def filter_empty_conv i_ge)
  note range = entries_range [OF kv(1)]
  show low: "0 \<le> k_ucmp ks (k_ukey ks ikey) (k_ukey ks (imin (tf ! j)))"
    using icmp_le_ukey [of "imin (tf ! j)" k] range kv(2) ucmp_swap [of "k_ukey ks (imin (tf ! j))" "k_ukey ks ikey"] by simp
  have mono: "0 \<le> k_icmp ks (imax (tf ! b)) ikey"
    if "a \<le> b" "b < length tf" "0 \<le> k_icmp ks (imax (tf ! a)) ikey" for a b
  proof (cases "a = b")
    case False
    then have "a < b" using that(1) by simp
    then have "k_ucmp ks (k_ukey ks (imax (tf ! a))) (k_ukey ks (imax (tf ! b))) < 0"
      by (rule u_less_le_trans [OF level_order(1) [OF sorted that(2)] level_order(2) [OF sorted that(2)]])
    then have "k_icmp ks (imax (tf ! a)) (imax (tf ! b)) < 0" by (rule icmp_ukey)
    then show ?thesis using that(3) i_le_trans by (simp add: i_ge)
  qed (use that in simp)
  have iff: "0 \<le> k_icmp ks (imax (tf ! i)) ikey \<longleftrightarrow> searchMax ks ikey tf \<le> i" if "i < length tf" for i
    unfolding searchMax_def
    by (rule sort_Search_spec(2) [where f = "\<lambda>i. 0 \<le> k_icmp ks (imax (tf ! i)) ikey", OF mono that])
  have "searchMax ks ikey tf \<le> j"
    using iff [OF j] range kv(3) i_le_trans by (simp add: i_ge)
  moreover have "\<not> searchMax ks ikey tf \<le> a" if "a < j" for a
  proof -
    have "k_ucmp ks (k_ukey ks (imax (tf ! a))) (k_ukey ks ikey) < 0"
      by (rule u_less_le_trans [OF level_order(1) [OF sorted j that]])
        (use low ucmp_swap [of "k_ukey ks (imin (tf ! j))" "k_ukey ks ikey"] in simp)
    then have "k_icmp ks (imax (tf ! a)) ikey < 0" by (rule icmp_ukey)
    then show ?thesis using iff [of a] that j by simp
  qed
  ultimately show "searchMax ks ikey tf = j" by (metis le_less_linear nat_less_le le_refl)
qed

text \<open>One call of the closure \<^verbatim>\<open>f\<close>.\<close>

lemma get_f_invisible:
  assumes "visible ks entries ikey t = []"
  shows "\<exists>g'. get_f ks parse tfind sample ikey level t g = (g', True) \<and> get_core g' = get_core g"
  using find_invisible [OF assms]
proof (elim disjE exE conjE)
  fix k v
  assume k: "tfind t ikey = Found (raw k) v" "(k, v) \<in> set (entries t)" "k_ukey ks k \<noteq> k_ukey ks ikey"
  then show ?thesis
    using parse_law [OF k(2)] ucmp_eq [of "k_ukey ks ikey" "k_ukey ks k"] by (auto simp: get_f_def get_core_def Let_def)
qed (auto simp: get_f_def get_core_def Let_def)

lemma get_f_low:
  assumes "visible ks entries ikey t = e # es" and "level \<le> 0"
  shows "\<exists>g'. get_f ks parse tfind sample ikey level t g = (g', True) \<and> get_core g' =
    (if g_zseq g \<le> seq_of (fst e) then (g_value g, g_err g, True, seq_of (fst e), kind_of (fst e), Some (snd e)) else get_core g)"
  using assms(2) find_head [OF assms(1)] by (simp add: get_f_def get_core_def Let_def)

lemma get_f_high:
  assumes "visible ks entries ikey t = e # es" and "0 < level" and "idle g"
  shows "\<exists>g'. get_f ks parse tfind sample ikey level t g = (g', False) \<and> (g_value g', g_err g') = entry_result kind_of e"
  using assms(2,3) find_head [OF assms(1)] by (simp add: get_f_def Let_def idle_def entry_result_def split: key_type.split)

text \<open>The tables of the auxiliary list and of level 0.\<close>

lemma newest_head:
  assumes "newest seq_of (visible ks entries ikey t) e"
  shows "\<exists>es. visible ks entries ikey t = e # es"
proof (cases "visible ks entries ikey t")
  case Nil
  then show ?thesis using assms by (simp add: newest_def)
next
  case (Cons x xs)
  have "x = e"
  proof (rule ccontr)
    assume "x \<noteq> e"
    then have e: "e \<in> set xs" "seq_of (fst x) < seq_of (fst e)" using assms Cons by (auto simp: newest_def)
    have "sorted_wrt (\<lambda>a b. k_icmp ks (fst a) (fst b) < 0) (visible ks entries ikey t)"
      unfolding visible_def by (rule sorted_wrt_filter [OF entries_sorted])
    then have "k_icmp ks (fst x) (fst e) < 0" using e(1) Cons by simp
    moreover have "k_ukey ks (fst x) = k_ukey ks (fst e)"
      using visible_ukey [of x ikey t] visible_ukey [of e ikey t] Cons e(1) by simp
    ultimately show False using seq_law [of "fst x" "fst e"] e(2) by simp
  qed
  then show ?thesis using Cons by simp
qed

lemma walk_tables_none:
  assumes "visible_all ks entries ikey ts = []"
  shows "\<exists>g'. walk_tables (get_f ks parse tfind sample ikey level) ts g = (g', True) \<and> get_core g' = get_core g"
  using assms
proof (induction ts arbitrary: g)
  case (Cons t ts)
  have "visible ks entries ikey t = []" "visible_all ks entries ikey ts = []"
    using Cons.prems by (simp_all add: visible_all_def)
  then show ?case
    using get_f_invisible [of ikey t sample level g] Cons.IH by (metis (mono_tags, lifting) case_prod_conv walk_tables.simps(2))
qed simp

lemma seek_step:
  assumes "level \<le> 0" and "list_all (\<lambda>e'. e' = e \<or> seq_of (fst e') < seq_of (fst e)) (visible ks entries ikey t)"
    and "seeking seq_of e g \<or> holding seq_of kind_of e g"
  shows "\<exists>g'. get_f ks parse tfind sample ikey level t g = (g', True) \<and>
    (if e \<in> set (visible ks entries ikey t) \<or> holding seq_of kind_of e g then holding seq_of kind_of e g' else seeking seq_of e g')"
proof (cases "visible ks entries ikey t")
  case Nil
  obtain g' where g': "get_f ks parse tfind sample ikey level t g = (g', True)" "get_core g' = get_core g"
    using get_f_invisible [OF Nil] by blast
  show ?thesis using g' Nil assms(3) by (auto simp: get_core_cong [OF g'(2)])
next
  case (Cons x xs)
  obtain g' where g': "get_f ks parse tfind sample ikey level t g = (g', True)"
    "get_core g' = (if g_zseq g \<le> seq_of (fst x) then (g_value g, g_err g, True, seq_of (fst x), kind_of (fst x), Some (snd x)) else get_core g)"
    using get_f_low [OF Cons assms(1)] by blast
  have x: "x = e \<or> seq_of (fst x) < seq_of (fst e)" using assms(2) Cons by simp
  have head: "x = e" if "e \<in> set (visible ks entries ikey t)"
    using newest_head [of ikey t e] that assms(2) Cons by (simp add: newest_def)
  have "if e \<in> set (visible ks entries ikey t) \<or> holding seq_of kind_of e g then holding seq_of kind_of e g' else seeking seq_of e g'"
  proof (cases "x = e")
    case True
    then have "g_zseq g \<le> seq_of (fst x)" using assms(3) by (auto simp: seeking_def holding_def split: if_splits)
    then show ?thesis using True Cons g'(2) assms(3) by (auto simp: get_core_def holding_def seeking_def)
  next
    case False
    then have "e \<notin> set (visible ks entries ikey t)" using head by blast
    moreover have "holding seq_of kind_of e g' \<longleftrightarrow> holding seq_of kind_of e g" "seeking seq_of e g \<Longrightarrow> seeking seq_of e g'"
      using False x g'(2) assms(3) by (auto simp: get_core_def holding_def seeking_def split: if_splits)
    ultimately show ?thesis using assms(3) by auto
  qed
  then show ?thesis using g'(1) by simp
qed

lemma walk_tables_low:
  assumes "level \<le> 0" and "list_all (\<lambda>e'. e' = e \<or> seq_of (fst e') < seq_of (fst e)) (visible_all ks entries ikey ts)"
    and "seeking seq_of e g \<or> holding seq_of kind_of e g"
  shows "\<exists>g'. walk_tables (get_f ks parse tfind sample ikey level) ts g = (g', True) \<and>
    (if e \<in> set (visible_all ks entries ikey ts) \<or> holding seq_of kind_of e g then holding seq_of kind_of e g' else seeking seq_of e g')"
  using assms(2,3)
proof (induction ts arbitrary: g)
  case (Cons t ts)
  have vis: "list_all (\<lambda>e'. e' = e \<or> seq_of (fst e') < seq_of (fst e)) (visible ks entries ikey t)"
    "list_all (\<lambda>e'. e' = e \<or> seq_of (fst e') < seq_of (fst e)) (visible_all ks entries ikey ts)"
    using Cons.prems(1) by (simp_all add: visible_all_def)
  obtain g1 where g1: "get_f ks parse tfind sample ikey level t g = (g1, True)"
    "if e \<in> set (visible ks entries ikey t) \<or> holding seq_of kind_of e g then holding seq_of kind_of e g1 else seeking seq_of e g1"
    using seek_step [OF assms(1) vis(1) Cons.prems(2)] by blast
  then have "seeking seq_of e g1 \<or> holding seq_of kind_of e g1" by (simp split: if_splits)
  from Cons.IH [OF vis(2) this] obtain g2 where g2:
    "walk_tables (get_f ks parse tfind sample ikey level) ts g1 = (g2, True)"
    "if e \<in> set (visible_all ks entries ikey ts) \<or> holding seq_of kind_of e g1 then holding seq_of kind_of e g2 else seeking seq_of e g2"
    by blast
  have "\<not> (seeking seq_of e g1 \<and> holding seq_of kind_of e g1)" by (auto simp: seeking_def holding_def)
  then show ?case using g1 g2 by (auto simp: visible_all_def split: if_splits)
qed (auto simp: visible_all_def)

lemma visible_all_overlapping:
  "visible_all ks entries ikey (filter (t_overlaps ks (Some (k_ukey ks ikey)) (Some (k_ukey ks ikey))) ts) =
   visible_all ks entries ikey ts"
  using visible_overlaps by (induction ts) (auto simp: visible_all_def)

lemma idle_seeking: "idle g \<Longrightarrow> seeking seq_of e g"
  by (simp add: idle_def seeking_def)

text \<open>The auxiliary tables or level 0, from a state in which nothing has been found.\<close>

lemma walk_low_found:
  assumes "level \<le> 0" and "newest seq_of (visible_all ks entries ikey ts) e" and "idle g"
  shows "\<exists>g' g''. walk_tables (get_f ks parse tfind sample ikey level)
      (filter (t_overlaps ks (Some (k_ukey ks ikey)) (Some (k_ukey ks ikey))) ts) g = (g', True) \<and>
    get_lf level g' = (g'', False) \<and> (g_value g'', g_err g'') = entry_result kind_of e"
proof -
  obtain g' where "walk_tables (get_f ks parse tfind sample ikey level)
      (filter (t_overlaps ks (Some (k_ukey ks ikey)) (Some (k_ukey ks ikey))) ts) g = (g', True)" "holding seq_of kind_of e g'"
    using walk_tables_low [OF assms(1), of e ikey "filter (t_overlaps ks (Some (k_ukey ks ikey)) (Some (k_ukey ks ikey))) ts" g sample]
      assms(2) idle_seeking [OF assms(3)] by (auto simp: visible_all_overlapping newest_def)
  then show ?thesis
    by (auto simp: holding_def get_lf_def entry_result_def split: key_type.split)
qed

lemma walk_low_none:
  assumes "visible_all ks entries ikey ts = []" and "idle g"
  shows "\<exists>g'. walk_tables (get_f ks parse tfind sample ikey level)
      (filter (t_overlaps ks (Some (k_ukey ks ikey)) (Some (k_ukey ks ikey))) ts) g = (g', True) \<and> idle g'"
proof -
  have "visible_all ks entries ikey (filter (t_overlaps ks (Some (k_ukey ks ikey)) (Some (k_ukey ks ikey))) ts) = []"
    using assms(1) by (simp add: visible_all_overlapping)
  from walk_tables_none [OF this, of sample level g] show ?thesis
    using assms(2) by (auto simp: get_core_def idle_def)
qed

text \<open>The other levels: at most one table of a level holds the key.\<close>

lemma one_level_none:
  assumes "visible_all ks entries ikey ts = []" and "idle g"
  shows "\<exists>g'. walk_one_level ks ikey (get_f ks parse tfind sample ikey) level ts g = (g', True) \<and> idle g'"
proof (cases "level = 0")
  case True
  then show ?thesis using walk_low_none [OF assms, of sample 0] by (simp add: walk_one_level_def Let_def)
next
  case False
  define i where "i = searchMax ks ikey ts"
  have "\<exists>g'. get_f ks parse tfind sample ikey (int level) (ts ! i) g = (g', True) \<and> idle g'" if "i < length ts"
  proof -
    have "visible ks entries ikey (ts ! i) = []" using assms(1) that by (simp add: visible_all_def)
    from get_f_invisible [OF this, of sample "int level" g] show ?thesis using assms(2) get_core_cong(1) by blast
  qed
  then show ?thesis using False assms(2) by (auto simp: walk_one_level_def Let_def i_def [symmetric])
qed

lemma one_level_found:
  assumes "newest seq_of (visible_all ks entries ikey ts) e" and "idle g" and "0 < level" and "level_sorted ks ts"
  shows "\<exists>g'. walk_one_level ks ikey (get_f ks parse tfind sample ikey) level ts g = (g', False) \<and>
    (g_value g', g_err g') = entry_result kind_of e"
proof -
  obtain t where t: "t \<in> set ts" "e \<in> set (visible ks entries ikey t)"
    using assms(1) by (auto simp: newest_def visible_all_def)
  then obtain j where j: "j < length ts" "ts ! j = t" by (auto simp: in_set_conv_nth)
  have ne: "visible ks entries ikey (ts ! j) \<noteq> []" using t(2) j(2) by auto
  have "newest seq_of (visible ks entries ikey t) e"
    using assms(1) t by (auto simp: newest_def visible_all_def list_all_iff)
  then obtain es where "visible ks entries ikey t = e # es" using newest_head by blast
  from get_f_high [OF this, of "int level" g sample] assms(2,3) show ?thesis
    using visible_searchMax [OF assms(4) j(1) ne] j by (auto simp: walk_one_level_def Let_def)
qed

lemma walk_levels_none:
  assumes "list_all (\<lambda>ts. visible_all ks entries ikey ts = []) lvls" and "idle g"
  shows "idle (walk_levels ks ikey (get_f ks parse tfind sample ikey) (Some get_lf) level lvls g)"
  using assms
proof (induction lvls arbitrary: g level)
  case (Cons ts lvls)
  obtain g' where g': "walk_one_level ks ikey (get_f ks parse tfind sample ikey) level ts g = (g', True)" "idle g'"
    using one_level_none [of ikey ts g sample level] Cons.prems by auto
  then have "get_lf (int level) g' = (g', True)" by (simp add: idle_def get_lf_def)
  then show ?case using g' Cons by (simp add: call_lf_def)
qed simp

lemma one_level_step:
  assumes "newest seq_of (visible_all ks entries ikey ts) e" and "idle g" and "0 < level \<longrightarrow> level_sorted ks ts"
  shows "\<exists>g'. (g_value g', g_err g') = entry_result kind_of e \<and>
    walk_levels ks ikey (get_f ks parse tfind sample ikey) (Some get_lf) level (ts # lvls) g = g'"
proof -
  have ne: "ts \<noteq> []" using assms(1) by (auto simp: newest_def visible_all_def)
  show ?thesis
  proof (cases "level = 0")
    case True
    then show ?thesis
      using walk_low_found [of 0, OF _ assms(1,2), of sample] ne
      by (auto simp: walk_one_level_def call_lf_def Let_def)
  next
    case False
    then show ?thesis using one_level_found [OF assms(1,2), of level sample] assms(3) ne by auto
  qed
qed

end

text \<open>The groups of tables in the order a lookup goes through them, and that newer entries are in earlier groups.\<close>

definition table_groups :: "'ik version \<Rightarrow> 'ik tFile list option \<Rightarrow> 'ik tFile list list" where
  "table_groups v aux = (case aux of None \<Rightarrow> v_levels v | Some ts \<Rightarrow> ts # v_levels v)"

definition newer_first ::
  "'ik key_ops \<Rightarrow> ('ik tFile \<Rightarrow> ('ik \<times> 'val) list) \<Rightarrow> ('ik \<Rightarrow> nat) \<Rightarrow> 'ik \<Rightarrow> 'ik tFile list list \<Rightarrow> bool" where
  "newer_first ks entries seq_of ikey =
     sorted_wrt (\<lambda>ts ts'. \<forall>e \<in> set (visible_all ks entries ikey ts). \<forall>e' \<in> set (visible_all ks entries ikey ts').
       seq_of (fst e') < seq_of (fst e))"

lemma newest_group:
  assumes "newest seq_of (concat (map (visible_all ks entries ikey) (ts # rest))) e"
    and "newer_first ks entries seq_of ikey (ts # rest)"
  shows "visible_all ks entries ikey ts = [] \<and> newest seq_of (concat (map (visible_all ks entries ikey) rest)) e \<or>
    newest seq_of (visible_all ks entries ikey ts) e"
proof (cases "visible_all ks entries ikey ts = []")
  case False
  then obtain x where x: "x \<in> set (visible_all ks entries ikey ts)" by (meson list.set_sel(1))
  have "e \<in> set (visible_all ks entries ikey ts)"
  proof (rule ccontr)
    assume "e \<notin> set (visible_all ks entries ikey ts)"
    then obtain ts' where ts': "ts' \<in> set rest" "e \<in> set (visible_all ks entries ikey ts')"
      using assms(1) by (auto simp: newest_def)
    then have "seq_of (fst e) < seq_of (fst x)" using assms(2) x by (simp add: newer_first_def)
    moreover have "x = e \<or> seq_of (fst x) < seq_of (fst e)" using assms(1) x by (simp add: newest_def list_all_iff)
    ultimately show False by auto
  qed
  then show ?thesis using assms(1) by (simp add: newest_def)
qed (use assms(1) in \<open>simp add: newest_def\<close>)

context table_store
begin

lemma walk_levels_found:
  assumes "newest seq_of (concat (map (visible_all ks entries ikey) lvls)) e" and "newer_first ks entries seq_of ikey lvls"
    and "\<forall>i < length lvls. 0 < level + i \<longrightarrow> level_sorted ks (lvls ! i)" and "idle g"
    and g': "g' = walk_levels ks ikey (get_f ks parse tfind sample ikey) (Some get_lf) level lvls g"
  shows "(g_value g', g_err g') = entry_result kind_of e"
  using assms
proof (induction lvls arbitrary: g level)
  case (Cons ts lvls)
  have sorted: "0 < level \<longrightarrow> level_sorted ks ts" "\<forall>i < length lvls. 0 < level + 1 + i \<longrightarrow> level_sorted ks (lvls ! i)"
    using Cons.prems(3) by force+
  from newest_group [OF Cons.prems(1,2)] show ?case
  proof
    assume none: "visible_all ks entries ikey ts = [] \<and> newest seq_of (concat (map (visible_all ks entries ikey) lvls)) e"
    obtain g1 where g1: "walk_one_level ks ikey (get_f ks parse tfind sample ikey) level ts g = (g1, True)" "idle g1"
      using one_level_none [of ikey ts g sample level] none Cons.prems(4) by auto
    then have "get_lf (int level) g1 = (g1, True)" by (simp add: idle_def get_lf_def)
    then have "g' = walk_levels ks ikey (get_f ks parse tfind sample ikey) (Some get_lf) (level + 1) lvls (if ts = [] then g else g1)"
      using Cons.prems(5) g1 by (simp add: call_lf_def)
    then show ?thesis
      using Cons.IH none Cons.prems(2,4) sorted(2) g1(2) by (simp add: newer_first_def)
  next
    assume "newest seq_of (visible_all ks entries ikey ts) e"
    from one_level_step [OF this Cons.prems(4) sorted(1)] show ?thesis using Cons.prems(5) by blast
  qed
qed (simp add: newest_def)

lemma version_get_none:
  assumes "list_all (\<lambda>ts. visible_all ks entries ikey ts = []) (table_groups v aux)" and "\<not> v_closing v"
    and "version_get ks parse tfind sample v aux ikey = (r, err, tset)"
  shows "r = None \<and> err = Some ErrNotFound"
proof -
  let ?walk = "walk_levels ks ikey (get_f ks parse tfind sample ikey) (Some get_lf) 0 (v_levels v)"
  have init: "idle get_init" by (simp add: idle_def get_init_def)
  have lvls: "list_all (\<lambda>ts. visible_all ks entries ikey ts = []) (v_levels v)"
    using assms(1) by (auto simp: table_groups_def split: option.splits)
  have "idle (walkOverlapping ks v aux ikey (get_f ks parse tfind sample ikey) (Some get_lf) get_init)"
  proof (cases aux)
    case None
    then show ?thesis using walk_levels_none [OF lvls init] by (simp add: walkOverlapping_def)
  next
    case (Some ts)
    then obtain g' where g': "walk_tables (get_f ks parse tfind sample ikey (-1))
        (filter (t_overlaps ks (Some (k_ukey ks ikey)) (Some (k_ukey ks ikey))) ts) get_init = (g', True)" "idle g'"
      using walk_low_none [of ikey ts get_init] init assms(1) by (auto simp: table_groups_def)
    then have "get_lf (-1) g' = (g', True)" by (simp add: idle_def get_lf_def)
    then show ?thesis using g' Some walk_levels_none [OF lvls g'(2)] by (simp add: walkOverlapping_def call_lf_def)
  qed
  then show ?thesis using assms(2,3) by (auto simp: version_get_def Let_def idle_def)
qed

lemma version_get_found:
  assumes "newest seq_of (concat (map (visible_all ks entries ikey) (table_groups v aux))) e"
    and "newer_first ks entries seq_of ikey (table_groups v aux)"
    and "\<forall>i < length (v_levels v). 0 < i \<longrightarrow> level_sorted ks (v_levels v ! i)" and "\<not> v_closing v"
    and "version_get ks parse tfind sample v aux ikey = (r, err, tset)"
  shows "(r, err) = entry_result kind_of e"
proof -
  define g where "g = walkOverlapping ks v aux ikey (get_f ks parse tfind sample ikey) (Some get_lf) get_init"
  have init: "idle get_init" by (simp add: idle_def get_init_def)
  have "(g_value g, g_err g) = entry_result kind_of e"
  proof (cases aux)
    case None
    then show ?thesis
      using walk_levels_found [where level = 0, OF _ _ _ init g_def [unfolded walkOverlapping_def None, simplified]] assms(1-3)
      by (simp add: table_groups_def)
  next
    case (Some ts)
    have groups: "table_groups v aux = ts # v_levels v" by (simp add: table_groups_def Some)
    from newest_group [OF assms(1,2) [unfolded groups]] show ?thesis
    proof
      assume none: "visible_all ks entries ikey ts = [] \<and> newest seq_of (concat (map (visible_all ks entries ikey) (v_levels v))) e"
      then obtain g1 where g1: "walk_tables (get_f ks parse tfind sample ikey (-1))
          (filter (t_overlaps ks (Some (k_ukey ks ikey)) (Some (k_ukey ks ikey))) ts) get_init = (g1, True)" "idle g1"
        using walk_low_none [of ikey ts get_init] init by blast
      then have "get_lf (-1) g1 = (g1, True)" by (simp add: idle_def get_lf_def)
      then have "g = walk_levels ks ikey (get_f ks parse tfind sample ikey) (Some get_lf) 0 (v_levels v) g1"
        using g1 by (simp add: g_def walkOverlapping_def Some call_lf_def)
      from walk_levels_found [where level = 0, OF _ _ _ g1(2) this] none assms(2,3) groups show ?thesis
        by (simp add: newer_first_def)
    next
      assume "newest seq_of (visible_all ks entries ikey ts) e"
      from walk_low_found [of "-1", OF _ this init, of sample] show ?thesis
        by (auto simp: g_def walkOverlapping_def Some call_lf_def)
    qed
  qed
  then show ?thesis using assms(4,5) by (auto simp: version_get_def Let_def g_def)
qed

lemma store_get:
  assumes "\<not> v_closing v" and "version_get ks parse tfind sample v aux ikey = (r, err, tset)"
    and "newer_first ks entries seq_of ikey (table_groups v aux)" and "\<forall>i < length (v_levels v). 0 < i \<longrightarrow> level_sorted ks (v_levels v ! i)"
  shows "concat (map (visible_all ks entries ikey) (table_groups v aux)) = [] \<Longrightarrow> r = None \<and> err = Some ErrNotFound"
    and "newest seq_of (concat (map (visible_all ks entries ikey) (table_groups v aux))) e \<Longrightarrow> (r, err) = entry_result kind_of e"
  using version_get_none [OF _ assms(1,2)] version_get_found [OF _ assms(3,4,1,2)] by (simp_all add: list_all_iff)

end

text \<open>A lookup depends on the tables of the version only.\<close>

lemma walk_tables_cong: "(\<And>t s. t \<in> set ts \<Longrightarrow> f t s = f' t s) \<Longrightarrow> walk_tables f ts s = walk_tables f' ts s"
  by (induction ts arbitrary: s) (auto split: prod.splits)

lemma walk_one_level_cong:
  "(\<And>l t s. t \<in> set ts \<Longrightarrow> f l t s = f' l t s) \<Longrightarrow> walk_one_level ks ikey f level ts s = walk_one_level ks ikey f' level ts s"
  by (auto simp: walk_one_level_def Let_def intro!: walk_tables_cong)

lemma walk_levels_cong:
  "(\<And>l t s. t \<in> set (concat lvls) \<Longrightarrow> f l t s = f' l t s) \<Longrightarrow> walk_levels ks ikey f lf level lvls s = walk_levels ks ikey f' lf level lvls s"
proof (induction lvls arbitrary: level s)
  case (Cons ts lvls)
  have "walk_one_level ks ikey f level ts s = walk_one_level ks ikey f' level ts s" for s
    by (rule walk_one_level_cong) (simp add: Cons.prems)
  then show ?case
    using Cons by (auto split: prod.splits)
qed simp

lemma version_get_cong:
  assumes "\<And>t. t \<in> set (concat (table_groups v aux)) \<Longrightarrow> tfind t ikey = tfind' t ikey"
  shows "version_get ks parse tfind sample v aux ikey = version_get ks parse tfind' sample v aux ikey"
proof -
  let ?f = "get_f ks parse tfind sample ikey" and ?f' = "get_f ks parse tfind' sample ikey"
  have f: "?f l t s = ?f' l t s" if "t \<in> set (concat (table_groups v aux))" for l t s
    unfolding get_f_def assms [OF that] ..
  have levels: "walk_levels ks ikey ?f lf level (v_levels v) s = walk_levels ks ikey ?f' lf level (v_levels v) s" for lf level s
    by (rule walk_levels_cong, rule f) (auto simp: table_groups_def split: option.splits)
  have tables: "walk_tables (?f l) (filter P ts) s = walk_tables (?f' l) (filter P ts) s" if "aux = Some ts" for l P ts s
    by (rule walk_tables_cong, rule f) (use that in \<open>auto simp: table_groups_def\<close>)
  have "walkOverlapping ks v aux ikey ?f lf s = walkOverlapping ks v aux ikey ?f' lf s" for lf s
    by (cases aux) (simp_all add: walkOverlapping_def levels tables Let_def split: prod.split)
  then show ?thesis
    by (simp add: version_get_def)
qed

section \<open>Placement\<close>

context internal_keys
begin

lemma pick_loop_free:
  assumes "\<forall>i < length lvls. 0 < i \<longrightarrow> level_sorted ks (lvls ! i)"
    and "\<forall>i \<le> level. i < length lvls \<longrightarrow> \<not> list_ex (t_overlaps ks umin umax) (lvls ! i)" and "level \<le> maxLevel"
  shows "\<exists>l. pick_loop ks gp_limit lvls umin umax maxLevel level = Some l \<and> l \<le> maxLevel \<and>
    (\<forall>i \<le> l. i < length lvls \<longrightarrow> \<not> list_ex (t_overlaps ks umin umax) (lvls ! i))"
  using assms(2,3)
proof (induction "maxLevel - level" arbitrary: level)
  case 0
  then show ?case by (subst pick_loop.simps) auto
next
  case (Suc n)
  then have level: "level < maxLevel" by simp
  obtain ov where ov: "getOverlaps ks umin umax False (lvls ! (level + 2)) = Some ov"
    by (cases "lvls ! (level + 2) = []") (simp_all add: getOverlaps_def)
  consider (out) "length lvls \<le> level + 1" | (overlap) "level + 1 < length lvls" "tFiles_overlaps ks umin umax False (lvls ! (level + 1))"
    | (far) "level + 2 < length lvls" "\<not> tFiles_overlaps ks umin umax False (lvls ! (level + 1))" "gp_limit level < tFiles_size ov"
    | (deeper) "level + 1 < length lvls" "\<not> tFiles_overlaps ks umin umax False (lvls ! (level + 1))"
        "level + 2 < length lvls \<longrightarrow> \<not> gp_limit level < tFiles_size ov"
    by linarith
  then show ?case
  proof cases
    case out
    then show ?thesis using level Suc.prems by (subst pick_loop.simps) auto
  next
    case overlap
    then show ?thesis using level Suc.prems by (subst pick_loop.simps) auto
  next
    case far
    then show ?thesis using level Suc.prems ov by (subst pick_loop.simps) auto
  next
    case deeper
    have "\<not> list_ex (t_overlaps ks umin umax) (lvls ! (level + 1))"
      using deeper(2) sorted_overlaps_decides [of "lvls ! (level + 1)" umin umax] assms(1) deeper(1)
      by (simp add: tFiles_overlaps_def)
    then have "\<forall>i \<le> level + 1. i < length lvls \<longrightarrow> \<not> list_ex (t_overlaps ks umin umax) (lvls ! i)"
      using Suc.prems(1) by (auto simp: le_Suc_eq)
    then show ?thesis using Suc.hyps(1) [of "level + 1"] Suc.hyps(2) level deeper ov by (subst pick_loop.simps) auto
  qed
qed

end

section \<open>Instances\<close>

text \<open>Bytewise keys: the number of a key holds the sequence number above eight bits of kind.\<close>

definition bytewise_seq :: "bytes \<times> u64 \<Rightarrow> nat" where
  "bytewise_seq k = unat (snd k) div 256"

definition bytewise_kind :: "bytes \<times> u64 \<Rightarrow> key_type" where
  "bytewise_kind k = (if unat (snd k) mod 256 = 0 then KeyDel else KeyVal)"

definition bytewise_parse :: "bytes \<times> u64 \<Rightarrow> (bytes \<times> nat \<times> key_type) option" where
  "bytewise_parse k = Some (fst k, bytewise_seq k, bytewise_kind k)"

lemma bytewise_seq_newer:
  "k_ukey bytewise_keys x = k_ukey bytewise_keys y \<Longrightarrow> k_icmp bytewise_keys x y < 0 \<Longrightarrow> bytewise_seq y \<le> bytewise_seq x"
  by (auto simp: bytewise_keys_def bytewise_seq_def word_less_nat_alt split: prod.splits if_splits intro: div_le_mono)

text \<open>A version with two tables in level 0 and one in level 1.\<close>

definition sample_version :: "(bytes \<times> u64) version" where
  "sample_version = \<lparr>v_id = 1,
     v_levels = [[newTableFile 2 10 ([2], 769) ([2], 769), newTableFile 1 10 ([1], 257) ([2], 513)],
                 [newTableFile 3 10 ([2], 1) ([7], 0)]],
     v_cLevel = 0, v_cScore = 1 / 2, v_cSeek = None, v_closing = False, v_ref = 1, v_released = False\<rparr>"

section \<open>Properties\<close>

text \<open>
  C32: where a flushed memory table goes.  \<^verbatim>\<open>pickMemdbLevel\<close> always ends with a level not above the limit, and a level other than 0
  is only chosen when no file of that level or of a level above it overlaps the key range of the new table, so that older
  entries stay below newer ones.
\<close>

theorem pick_level_free:
  assumes "internal_keys ks" and "\<forall>i < length (v_levels v). 0 < i \<longrightarrow> level_sorted ks (v_levels v ! i)"
  shows "\<exists>l. pickMemdbLevel ks gp_limit v umin umax maxLevel = Some l \<and> l \<le> maxLevel \<and>
    (0 < l \<longrightarrow> (\<forall>i \<le> l. i < length (v_levels v) \<longrightarrow> \<not> list_ex (t_overlaps ks umin umax) (v_levels v ! i)))"
proof (cases "0 < maxLevel \<and> v_levels v \<noteq> [] \<and> \<not> list_ex (t_overlaps ks umin umax) (v_levels v ! 0)")
  case True
  then show ?thesis
    using internal_keys.pick_loop_free [OF assms, of 0 umin umax maxLevel gp_limit]
    by (auto simp: pickMemdbLevel_def tFiles_overlaps_def)
next
  case False
  then show ?thesis by (auto simp: pickMemdbLevel_def tFiles_overlaps_def)
qed

theorem pick_level_free_witness:
  "\<exists>l. pickMemdbLevel bytewise_keys (\<lambda>_. 100) sample_version (Some [8]) (Some [9]) 2 = Some l \<and> l \<le> 2"
proof -
  have "\<forall>i < length (v_levels sample_version). 0 < i \<longrightarrow> level_sorted bytewise_keys (v_levels sample_version ! i)"
    by (simp add: sample_version_def level_sorted_def less_Suc_eq bytewise_keys_def newTableFile_def)
  from pick_level_free [OF bytewise_keys.internal_keys_axioms this, of "\<lambda>_. 100" "Some [8]" "Some [9]" 2]
  show ?thesis by blast
qed

end
