(* ===== verification/Ldb_Staging.thy ===== *)
theory Ldb_Staging
  imports Ldb_Version "HOL-Library.AList"
begin

text \<open>
  The change of a version by manifest records, \<^verbatim>\<open>goleveldb/leveldb/version.go\<close> (\<^verbatim>\<open>versionStaging\<close>, \<^verbatim>\<open>spawn\<close>,
  \<^verbatim>\<open>fillRecord\<close>, \<^verbatim>\<open>computeCompaction\<close>).  The map of added tables is an association list: the order in which Go goes through a
  map is not specified, and the lemmas show that the result does not depend on it.  A level's slice is
  \<^verbatim>\<open>nil\<close> exactly if it has no table, since \<^verbatim>\<open>finish\<close> allocates one only when tables remain.
\<close>

section \<open>Staging\<close>

definition tableFileFromRecord :: "atRecord \<Rightarrow> internal_key tFile" where
  "tableFileFromRecord r = newTableFile (at_num r) (at_size r) (at_imin r) (at_imax r)"

record tablesScratch =
  s_added :: "(int \<times> atRecord) list"
  s_deleted :: "int list"

record versionStaging =
  st_base :: "internal_key version"
  st_levels :: "tablesScratch list"

definition empty_scratch :: tablesScratch where
  "empty_scratch = \<lparr>s_added = [], s_deleted = []\<rparr>"

definition newStaging :: "internal_key version \<Rightarrow> versionStaging" where
  "newStaging v = \<lparr>st_base = v, st_levels = []\<rparr>"

text \<open>
  \<^verbatim>\<open>getScratch\<close>: the levels are extended to hold the level asked for.  A negative level, which a damaged manifest may have, is an index out of range: a panic, \<open>None\<close>.
  The memory for the levels is not limited here.
\<close>

definition extend_levels :: "nat \<Rightarrow> versionStaging \<Rightarrow> versionStaging" where
  "extend_levels level p =
     (if length (st_levels p) \<le> level
      then p\<lparr>st_levels := st_levels p @ replicate (level + 1 - length (st_levels p)) empty_scratch\<rparr>
      else p)"

definition getScratch :: "int \<Rightarrow> versionStaging \<Rightarrow> versionStaging option" where
  "getScratch level p = (if level < 0 then None else Some (extend_levels (nat level) p))"

definition update_scratch :: "nat \<Rightarrow> (tablesScratch \<Rightarrow> tablesScratch) \<Rightarrow> versionStaging \<Rightarrow> versionStaging" where
  "update_scratch level f p = p\<lparr>st_levels := (st_levels p)[level := f (st_levels p ! level)]\<rparr>"

text \<open>What \<^verbatim>\<open>commit\<close> does with the scratch of the level it has got.\<close>

definition scratch_deleted :: "nat \<Rightarrow> int \<Rightarrow> versionStaging \<Rightarrow> versionStaging" where
  "scratch_deleted level num p =
     (let p = (if level < length (v_levels (st_base p)) \<and> 0 < length (v_levels (st_base p) ! level)
               then update_scratch level (\<lambda>s. s\<lparr>s_deleted := List.insert num (s_deleted s)\<rparr>) p
               else p)
      in update_scratch level (\<lambda>s. s\<lparr>s_added := AList.delete num (s_added s)\<rparr>) p)"

definition scratch_added :: "nat \<Rightarrow> atRecord \<Rightarrow> versionStaging \<Rightarrow> versionStaging" where
  "scratch_added level r p =
     (let p = update_scratch level (\<lambda>s. s\<lparr>s_added := AList.update (at_num r) r (s_added s)\<rparr>) p
      in update_scratch level (\<lambda>s. s\<lparr>s_deleted := removeAll (at_num r) (s_deleted s)\<rparr>) p)"

definition commit_deleted :: "dtRecord \<Rightarrow> versionStaging \<Rightarrow> versionStaging option" where
  "commit_deleted r p = map_option (scratch_deleted (nat (dt_level r)) (dt_num r)) (getScratch (dt_level r) p)"

definition commit_added :: "atRecord \<Rightarrow> versionStaging \<Rightarrow> versionStaging option" where
  "commit_added r p = map_option (scratch_added (nat (at_level r)) r) (getScratch (at_level r) p)"

definition staging_commit :: "sessionRecord \<Rightarrow> versionStaging \<Rightarrow> versionStaging option" where
  "staging_commit r p =
     (case for_each commit_deleted (deletedTables r) p of
        None \<Rightarrow> None
      | Some p \<Rightarrow> for_each commit_added (addedTables r) p)"

section \<open>Building the new version\<close>

text \<open>The tables of the level that are kept.\<close>

definition kept_tables :: "tablesScratch \<Rightarrow> internal_key tFile list \<Rightarrow> internal_key tFile list" where
  "kept_tables scratch base =
     filter (\<lambda>t. fd_num t \<notin> set (s_deleted scratch) \<and> fd_num t \<notin> fst ` set (s_added scratch)) base"

definition splice_in :: "nat \<Rightarrow> 'a list \<Rightarrow> 'a list \<Rightarrow> 'a list" where
  "splice_in index added nt = take index nt @ added @ drop index nt"

text \<open>The batch insertion for a compaction: the last of the added tables in descending order of numbers, or
  the largest key of the added tables, gives the place.\<close>

definition insert_trivial :: "'ik key_ops \<Rightarrow> nat \<Rightarrow> 'ik tFile list \<Rightarrow> 'ik tFile list \<Rightarrow> 'ik tFile list" where
  "insert_trivial ks level added nt =
     (if level = 0
      then let added = sortByNum added in splice_in (searchNumLess (fd_num (last added)) nt) added nt
      else let added = sortByKey ks added
        in case getRange ks added of
             None \<Rightarrow> nt
           | Some (amin, amax) \<Rightarrow> splice_in (searchMin ks amax nt) added nt)"

definition sort_level :: "'ik key_ops \<Rightarrow> nat \<Rightarrow> 'ik tFile list \<Rightarrow> 'ik tFile list" where
  "sort_level ks level nt = (if level = 0 then sortByNum nt else sortByKey ks nt)"

definition finish_level ::
  "internal_key key_ops \<Rightarrow> bool \<Rightarrow> versionStaging \<Rightarrow> nat \<Rightarrow> internal_key tFile list" where
  "finish_level ks trivial p level =
     (let baseTables = (if level < length (v_levels (st_base p)) then v_levels (st_base p) ! level else [])
      in if level < length (st_levels p) then
           let scratch = st_levels p ! level
           in if s_added scratch = [] \<and> s_deleted scratch = [] then baseTables
              else let nt = kept_tables scratch baseTables;
                       added = map (tableFileFromRecord \<circ> snd) (s_added scratch)
                in if s_added scratch = [] then nt
                   else if trivial then insert_trivial ks level added nt
                   else sort_level ks level (nt @ added)
         else baseTables)"

primrec trim_levels :: "'a list list \<Rightarrow> 'a list list" where
  "trim_levels [] = []"
| "trim_levels (l # ls) = (let ls' = trim_levels ls in if l = [] \<and> ls' = [] then [] else l # ls')"

text \<open>
  \<^verbatim>\<open>computeCompaction\<close>: \<open>fdiv\<close> is the quotient of two integers as float64 numbers, \<open>l0_trigger\<close> and \<open>total_size\<close> are
  options of the database.  The statistics that are only logged are left out.
\<close>

definition level_score :: "(int \<Rightarrow> int \<Rightarrow> rat) \<Rightarrow> int \<Rightarrow> (nat \<Rightarrow> int) \<Rightarrow> nat \<Rightarrow> 'ik tFile list \<Rightarrow> rat" where
  "level_score fdiv l0_trigger total_size level tables =
     (if level = 0 then fdiv (int (length tables)) l0_trigger else fdiv (tFiles_size tables) (total_size level))"

fun best_level :: "(nat \<Rightarrow> 'ik tFile list \<Rightarrow> rat) \<Rightarrow> nat \<Rightarrow> 'ik tFile list list \<Rightarrow> int \<times> rat \<Rightarrow> int \<times> rat" where
  "best_level score level [] best = best"
| "best_level score level (tables # rest) best =
     best_level score (level + 1) rest
       (if snd best < score level tables then (int level, score level tables) else best)"

definition computeCompaction :: "(nat \<Rightarrow> 'ik tFile list \<Rightarrow> rat) \<Rightarrow> 'ik version \<Rightarrow> 'ik version" where
  "computeCompaction score v =
     (case best_level score 0 (v_levels v) (-1, -1) of (l, s) \<Rightarrow> v\<lparr>v_cLevel := l, v_cScore := s\<rparr>)"

definition needCompaction :: "'ik version \<Rightarrow> bool" where
  "needCompaction v \<longleftrightarrow> 1 \<le> v_cScore v \<or> v_cSeek v \<noteq> None"

text \<open>\<^verbatim>\<open>newVersion\<close> takes the next version id of the session.\<close>

definition newVersion :: "int \<Rightarrow> internal_key version \<times> int" where
  "newVersion ntVersionID =
     (\<lparr>v_id = ntVersionID, v_levels = [], v_cLevel = 0, v_cScore = 0, v_cSeek = None, v_closing = False,
       v_ref = 0, v_released = False\<rparr>, ntVersionID + 1)"

definition finish ::
  "internal_key key_ops \<Rightarrow> (nat \<Rightarrow> internal_key tFile list \<Rightarrow> rat) \<Rightarrow> bool \<Rightarrow> int \<Rightarrow> versionStaging \<Rightarrow>
   internal_key version \<times> int" where
  "finish ks score trivial ntVersionID p =
     (case newVersion ntVersionID of (nv, ntVersionID) \<Rightarrow>
        let numLevel = max (length (st_levels p)) (length (v_levels (st_base p)));
            nv = nv\<lparr>v_levels := trim_levels (map (finish_level ks trivial p) [0..<numLevel])\<rparr>
        in (computeCompaction score nv, ntVersionID))"

definition spawn ::
  "internal_key key_ops \<Rightarrow> (nat \<Rightarrow> internal_key tFile list \<Rightarrow> rat) \<Rightarrow> sessionRecord \<Rightarrow> bool \<Rightarrow> int \<Rightarrow>
   internal_key version \<Rightarrow> (internal_key version \<times> int) option" where
  "spawn ks score r trivial ntVersionID v = map_option (finish ks score trivial ntVersionID) (staging_commit r (newStaging v))"

text \<open>\<^verbatim>\<open>fillRecord\<close> adds every table of the version to a record.\<close>

definition addTableFile :: "nat \<Rightarrow> internal_key tFile \<Rightarrow> sessionRecord \<Rightarrow> sessionRecord" where
  "addTableFile level t r = addTable (int level) (fd_num t) (file_size t) (imin t) (imax t) r"

fun fill_levels :: "nat \<Rightarrow> internal_key tFile list list \<Rightarrow> sessionRecord \<Rightarrow> sessionRecord" where
  "fill_levels level [] r = r"
| "fill_levels level (ts # rest) r = fill_levels (level + 1) rest (fold (addTableFile level) ts r)"

definition version_fillRecord :: "internal_key version \<Rightarrow> sessionRecord \<Rightarrow> sessionRecord" where
  "version_fillRecord v r = fill_levels 0 (v_levels v) r"

section \<open>What records mean\<close>

text \<open>The tables of every level as a set, and what a deletion and an addition do to them.\<close>

definition level_at :: "'a list list \<Rightarrow> nat \<Rightarrow> 'a list" where
  "level_at ls l = (if l < length ls then ls ! l else [])"

definition apply_deleted :: "dtRecord \<Rightarrow> (nat \<Rightarrow> internal_key tFile set) \<Rightarrow> nat \<Rightarrow> internal_key tFile set" where
  "apply_deleted r F = F(nat (dt_level r) := {t \<in> F (nat (dt_level r)). fd_num t \<noteq> dt_num r})"

definition apply_added :: "atRecord \<Rightarrow> (nat \<Rightarrow> internal_key tFile set) \<Rightarrow> nat \<Rightarrow> internal_key tFile set" where
  "apply_added r F =
     F(nat (at_level r) := insert (tableFileFromRecord r) {t \<in> F (nat (at_level r)). fd_num t \<noteq> at_num r})"

definition apply_record :: "sessionRecord \<Rightarrow> (nat \<Rightarrow> internal_key tFile set) \<Rightarrow> nat \<Rightarrow> internal_key tFile set" where
  "apply_record r F = fold apply_added (addedTables r) (fold apply_deleted (deletedTables r) F)"

text \<open>The tables a staging stands for.\<close>

definition scratch_at :: "versionStaging \<Rightarrow> nat \<Rightarrow> tablesScratch" where
  "scratch_at p l = (if l < length (st_levels p) then st_levels p ! l else empty_scratch)"

definition added_files :: "tablesScratch \<Rightarrow> internal_key tFile list" where
  "added_files s = map (tableFileFromRecord \<circ> snd) (s_added s)"

definition scratch_tables :: "tablesScratch \<Rightarrow> internal_key tFile list \<Rightarrow> internal_key tFile set" where
  "scratch_tables s base = set (kept_tables s base) \<union> set (added_files s)"

definition staged :: "versionStaging \<Rightarrow> nat \<Rightarrow> internal_key tFile set" where
  "staged p l = scratch_tables (scratch_at p l) (level_at (v_levels (st_base p)) l)"

definition scratch_wf :: "tablesScratch \<Rightarrow> bool" where
  "scratch_wf s \<longleftrightarrow> distinct (map fst (s_added s)) \<and> list_all (\<lambda>(n, r). at_num r = n) (s_added s)"

definition staging_wf :: "versionStaging \<Rightarrow> bool" where
  "staging_wf p \<longleftrightarrow> list_all scratch_wf (st_levels p)"

text \<open>Without a negative level nothing panics, and \<^verbatim>\<open>commit\<close> is a total function.\<close>

definition levels_ok :: "sessionRecord \<Rightarrow> bool" where
  "levels_ok r \<longleftrightarrow> list_all (\<lambda>t. 0 \<le> dt_level t) (deletedTables r) \<and> list_all (\<lambda>t. 0 \<le> at_level t) (addedTables r)"

definition stage_deleted :: "dtRecord \<Rightarrow> versionStaging \<Rightarrow> versionStaging" where
  "stage_deleted r p = scratch_deleted (nat (dt_level r)) (dt_num r) (extend_levels (nat (dt_level r)) p)"

definition stage_added :: "atRecord \<Rightarrow> versionStaging \<Rightarrow> versionStaging" where
  "stage_added r p = scratch_added (nat (at_level r)) r (extend_levels (nat (at_level r)) p)"

definition stage_record :: "sessionRecord \<Rightarrow> versionStaging \<Rightarrow> versionStaging" where
  "stage_record r p = fold stage_added (addedTables r) (fold stage_deleted (deletedTables r) p)"

lemma for_each_total:
  assumes "\<And>x p. f x p = (if P x then Some (g x p) else None)"
  shows "for_each f xs p = (if list_all P xs then Some (fold g xs p) else None)"
  by (induction xs arbitrary: p) (simp_all add: assms)

lemma staging_commit_total: "staging_commit r p = (if levels_ok r then Some (stage_record r p) else None)"
proof -
  have "commit_deleted x q = (if 0 \<le> dt_level x then Some (stage_deleted x q) else None)" for x q
    by (simp add: commit_deleted_def getScratch_def stage_deleted_def)
  moreover have "commit_added x q = (if 0 \<le> at_level x then Some (stage_added x q) else None)" for x q
    by (simp add: commit_added_def getScratch_def stage_added_def)
  ultimately show ?thesis
    by (simp add: staging_commit_def levels_ok_def stage_record_def for_each_total [of commit_deleted "\<lambda>x. 0 \<le> dt_level x" stage_deleted]
        for_each_total [of commit_added "\<lambda>x. 0 \<le> at_level x" stage_added])
qed

lemma staging_commits_total: "for_each staging_commit rs p = (if list_all levels_ok rs then Some (fold stage_record rs p) else None)"
  by (rule for_each_total) (rule staging_commit_total)

lemma spawn_total: "spawn ks score r trivial n v = (if levels_ok r then Some (finish ks score trivial n (stage_record r (newStaging v))) else None)"
  by (simp add: spawn_def staging_commit_total)

lemma newTableFile_fields [simp]:
  "fd_num (newTableFile n sz mn mx) = n" "imin (newTableFile n sz mn mx) = mn" "imax (newTableFile n sz mn mx) = mx"
  "file_size (newTableFile n sz mn mx) = sz"
  by (simp_all add: newTableFile_def Let_def)

lemma tableFileFromRecord_num [simp]: "fd_num (tableFileFromRecord r) = at_num r"
  by (simp add: tableFileFromRecord_def)

lemma extend_levels_at [simp]:
  "scratch_at (extend_levels level p) l = scratch_at p l" "st_base (extend_levels level p) = st_base p"
  "level < length (st_levels (extend_levels level p))"
  by (auto simp: extend_levels_def scratch_at_def nth_append)

lemma update_scratch_at [simp]:
  assumes "level < length (st_levels p)"
  shows "scratch_at (update_scratch level f p) l = (if l = level then f (scratch_at p l) else scratch_at p l)"
    and "st_base (update_scratch level f p) = st_base p"
    and "length (st_levels (update_scratch level f p)) = length (st_levels p)"
  using assms by (auto simp: update_scratch_def scratch_at_def)

lemma staging_wf_iff: "staging_wf p \<longleftrightarrow> (\<forall>l. scratch_wf (scratch_at p l))"
proof
  assume "\<forall>l. scratch_wf (scratch_at p l)"
  then have "scratch_wf (st_levels p ! l)" if "l < length (st_levels p)" for l
    using that by (metis scratch_at_def)
  then show "staging_wf p" by (simp add: staging_wf_def list_all_length)
qed (auto simp: staging_wf_def scratch_at_def list_all_length scratch_wf_def empty_scratch_def)

lemma stage_deleted_at:
  "scratch_at (stage_deleted r p) l =
     (if l = nat (dt_level r)
      then \<lparr>s_added = AList.delete (dt_num r) (s_added (scratch_at p l)),
            s_deleted = (if level_at (v_levels (st_base p)) l = [] then s_deleted (scratch_at p l)
                         else List.insert (dt_num r) (s_deleted (scratch_at p l)))\<rparr>
      else scratch_at p l)"
  "st_base (stage_deleted r p) = st_base p"
  by (auto simp: stage_deleted_def scratch_deleted_def Let_def level_at_def)

lemma stage_added_at:
  "scratch_at (stage_added r p) l =
     (if l = nat (at_level r)
      then \<lparr>s_added = AList.update (at_num r) r (s_added (scratch_at p l)),
            s_deleted = removeAll (at_num r) (s_deleted (scratch_at p l))\<rparr>
      else scratch_at p l)"
  "st_base (stage_added r p) = st_base p"
  by (auto simp: stage_added_def scratch_added_def Let_def)

lemma set_AList:
  "set (AList.delete k xs) = {p \<in> set xs. fst p \<noteq> k}"
  "distinct (map fst xs) \<Longrightarrow> set (AList.update k v xs) = insert (k, v) {p \<in> set xs. fst p \<noteq> k}"
  by (induction xs) (auto simp: image_iff)

lemma scratch_delete:
  assumes "scratch_wf s"
  shows "scratch_tables \<lparr>s_added = AList.delete n (s_added s), s_deleted = (if base = [] then s_deleted s else List.insert n (s_deleted s))\<rparr> base =
    {t \<in> scratch_tables s base. fd_num t \<noteq> n}"
  using assms
  by (force simp: scratch_tables_def kept_tables_def added_files_def scratch_wf_def set_AList(1) list_all_iff image_iff)

lemma scratch_add:
  assumes "scratch_wf s"
  shows "scratch_tables \<lparr>s_added = AList.update (at_num r) r (s_added s), s_deleted = removeAll (at_num r) (s_deleted s)\<rparr> base =
    insert (tableFileFromRecord r) {t \<in> scratch_tables s base. fd_num t \<noteq> at_num r}"
  using assms
  by (force simp: scratch_tables_def kept_tables_def added_files_def scratch_wf_def set_AList(2) list_all_iff image_iff)

lemma stage_deleted_refines:
  assumes "staging_wf p"
  shows "staging_wf (stage_deleted r p) \<and> staged (stage_deleted r p) = apply_deleted r (staged p)"
proof
  have wf: "scratch_wf (scratch_at p l)" for l using assms by (simp add: staging_wf_iff)
  show "staging_wf (stage_deleted r p)"
    using wf by (auto simp: staging_wf_iff stage_deleted_at scratch_wf_def distinct_delete list_all_iff set_AList(1))
  show "staged (stage_deleted r p) = apply_deleted r (staged p)"
    using scratch_delete [OF wf] by (auto simp: fun_eq_iff staged_def apply_deleted_def stage_deleted_at)
qed

lemma stage_added_refines:
  assumes "staging_wf p"
  shows "staging_wf (stage_added r p) \<and> staged (stage_added r p) = apply_added r (staged p)"
proof
  have wf: "scratch_wf (scratch_at p l)" for l using assms by (simp add: staging_wf_iff)
  show "staging_wf (stage_added r p)"
    using wf by (auto simp: staging_wf_iff stage_added_at scratch_wf_def distinct_update list_all_iff set_AList(2))
  show "staged (stage_added r p) = apply_added r (staged p)"
    using scratch_add [OF wf] by (auto simp: fun_eq_iff staged_def apply_added_def stage_added_at)
qed

lemma fold_refines:
  assumes "\<And>x p. W p \<Longrightarrow> W (f x p) \<and> A (f x p) = g x (A p)" and "W p"
  shows "W (fold f xs p) \<and> A (fold f xs p) = fold g xs (A p)"
  using assms(2)
proof (induction xs arbitrary: p)
  case (Cons x xs)
  then show ?case using assms(1) [of p x] by simp
qed simp

lemma stage_record_refines:
  assumes "staging_wf p"
  shows "staging_wf (stage_record r p) \<and> staged (stage_record r p) = apply_record r (staged p)"
  using fold_refines [where W = staging_wf and A = staged and f = stage_deleted and g = apply_deleted and xs = "deletedTables r", OF stage_deleted_refines assms]
    fold_refines [where W = staging_wf and A = staged and f = stage_added and g = apply_added and xs = "addedTables r", OF stage_added_refines]
  by (simp add: stage_record_def apply_record_def)

lemma commits_base: "st_base (fold stage_record rs p) = st_base p"
proof -
  have "st_base (fold stage_deleted ds p) = st_base p" for ds p
    by (induction ds arbitrary: p) (simp_all add: stage_deleted_at(2))
  moreover have "st_base (fold stage_added as p) = st_base p" for as p
    by (induction as arbitrary: p) (simp_all add: stage_added_at(2))
  ultimately show ?thesis by (induction rs arbitrary: p) (simp_all add: stage_record_def)
qed

section \<open>The levels of the new version\<close>

lemma set_sort_by [simp]: "set (sort_by lt xs) = set xs"
proof -
  have "set (insert_by lt x ys) = insert x (set ys)" for x ys by (induction ys) auto
  then show ?thesis by (induction xs) (simp_all add: sort_by_def)
qed

lemma sort_by_Nil [simp]: "sort_by lt xs = [] \<longleftrightarrow> xs = []"
  by (metis set_empty set_sort_by)

lemma getRange_Some: "ts \<noteq> [] \<Longrightarrow> \<exists>mn mx. getRange ks ts = Some (mn, mx)"
proof -
  have "\<exists>mn mx. fold (range_step ks) ts (Some r) = Some (mn, mx)" for ts r
    by (induction ts arbitrary: r) (auto simp: range_step_def split: prod.split)
  then show "ts \<noteq> [] \<Longrightarrow> \<exists>mn mx. getRange ks ts = Some (mn, mx)"
    by (cases ts) (auto simp: getRange_def range_step_def)
qed

lemma set_splice_in [simp]: "set (splice_in i xs ys) = set xs \<union> set ys"
  by (metis append_take_drop_id set_append splice_in_def sup.assoc sup.commute)

lemma set_finish_level: "set (finish_level ks trivial p l) = staged p l"
proof -
  have empty: "scratch_tables s base = set base" if "s_added s = []" "s_deleted s = []" for s base
    using that by (simp add: scratch_tables_def kept_tables_def added_files_def)
  have "set (insert_trivial ks l added nt) = set added \<union> set nt" if "added \<noteq> []" for added nt
    using getRange_Some [of "sortByKey ks added" ks] that
    by (auto simp: insert_trivial_def Let_def sortByNum_def sortByKey_def)
  then show ?thesis
    using empty [of empty_scratch]
    by (auto simp: finish_level_def staged_def scratch_at_def level_at_def Let_def empty empty_scratch_def scratch_tables_def
        added_files_def sort_level_def sortByNum_def sortByKey_def kept_tables_def)
qed

lemma level_at_simps [simp]:
  "level_at [] l = []" "level_at (a # ls) 0 = a" "level_at (a # ls) (Suc k) = level_at ls k"
  by (simp_all add: level_at_def)

lemma level_at_trim [simp]: "level_at (trim_levels ls) l = level_at ls l"
proof (induction ls arbitrary: l)
  case (Cons a ls)
  have "level_at ls k = []" if "trim_levels ls = []" for k
    using Cons.IH [of k] that by simp
  then show ?case using Cons.IH by (cases l) (auto simp: Let_def)
qed simp

lemma computeCompaction_levels [simp]: "v_levels (computeCompaction score v) = v_levels v"
  by (simp add: computeCompaction_def split: prod.split)

lemma level_at_finish: "level_at (v_levels (fst (finish ks score trivial n p))) l = finish_level ks trivial p l"
proof -
  have "finish_level ks trivial p l = []" if "max (length (st_levels p)) (length (v_levels (st_base p))) \<le> l"
    using that by (simp add: finish_level_def)
  then have "level_at (map (finish_level ks trivial p) [0..<max (length (st_levels p)) (length (v_levels (st_base p)))]) l =
      finish_level ks trivial p l"
    by (auto simp: level_at_def not_less)
  then show ?thesis by (simp add: finish_def newVersion_def Let_def)
qed

section \<open>The order of a level\<close>

text \<open>A strict order in which files with different numbers are comparable.\<close>

locale file_order =
  fixes lt :: "'ik tFile \<Rightarrow> 'ik tFile \<Rightarrow> bool"
  assumes irrefl: "\<not> lt a a"
    and trans: "lt a b \<Longrightarrow> lt b c \<Longrightarrow> lt a c"
    and total: "fd_num a \<noteq> fd_num b \<Longrightarrow> lt a b \<or> lt b a"
begin

lemma sorted_insert:
  assumes "sorted_wrt lt ys" and "fd_num x \<notin> fd_num ` set ys"
  shows "sorted_wrt lt (insert_by lt x ys)"
  using assms
proof (induction ys)
  case (Cons y ys)
  have set_ins: "set (insert_by lt x ys) = insert x (set ys)" by (induction ys) auto
  show ?case
  proof (cases "lt y x")
    case True
    then show ?thesis using Cons set_ins by auto
  next
    case False
    then have "lt x y" using total [of x y] Cons.prems(2) by auto
    then show ?thesis using False Cons.prems(1) trans by auto
  qed
qed simp

lemma sorted_sort:
  assumes "distinct (map fd_num xs)"
  shows "sorted_wrt lt (sort_by lt xs)"
  using assms
proof (induction xs)
  case (Cons x xs)
  have "sort_by lt (x # xs) = insert_by lt x (sort_by lt xs)" by (simp add: sort_by_def)
  then show ?case using Cons by (simp add: sorted_insert)
qed (simp add: sort_by_def)

lemma sorted_unique:
  assumes "sorted_wrt lt xs" and "sorted_wrt lt ys" and "set xs = set ys"
  shows "xs = ys"
  using assms
proof (induction xs arbitrary: ys)
  case (Cons x xs)
  then obtain y ys' where ys: "ys = y # ys'" by (cases ys) auto
  have xy: "x = y"
  proof (rule ccontr)
    assume "x \<noteq> y"
    then have "x \<in> set ys'" "y \<in> set xs" using Cons.prems(3) ys by auto
    then have "lt x y" "lt y x" using Cons.prems(1,2) ys by auto
    then show False using trans irrefl by blast
  qed
  have "x \<notin> set xs" "x \<notin> set ys'" using Cons.prems(1,2) ys xy irrefl by auto
  then have "set xs = set ys'" using Cons.prems(3) ys xy by auto
  then show ?case using Cons ys xy by auto
qed simp

text \<open>Elements that are all on one side of a batch keep the order when the batch goes in as a whole.\<close>

lemma sorted_splice:
  assumes "sorted_wrt lt xs" and "sorted_wrt lt ys"
    and "\<And>j. j < length ys \<Longrightarrow> j < i \<Longrightarrow> \<forall>x \<in> set xs. lt (ys ! j) x"
    and "\<And>j. j < length ys \<Longrightarrow> i \<le> j \<Longrightarrow> \<forall>x \<in> set xs. lt x (ys ! j)"
  shows "sorted_wrt lt (splice_in i xs ys)"
proof -
  have "sorted_wrt lt (take i ys @ drop i ys)" using assms(2) by simp
  then have ys: "sorted_wrt lt (take i ys)" "sorted_wrt lt (drop i ys)"
    "\<forall>a \<in> set (take i ys). \<forall>b \<in> set (drop i ys). lt a b" by (auto simp only: sorted_wrt_append)
  have "\<forall>a \<in> set (take i ys). \<forall>x \<in> set xs. lt a x"
    using assms(3) by (metis in_set_conv_nth length_take min_less_iff_conj nth_take)
  moreover have "\<forall>b \<in> set (drop i ys). \<forall>x \<in> set xs. lt x b"
  proof
    fix b
    assume "b \<in> set (drop i ys)"
    then obtain k where "k < length ys - i" "b = ys ! (i + k)" by (auto simp: in_set_conv_nth)
    then show "\<forall>x \<in> set xs. lt x b" using assms(4) [of "i + k"] by simp
  qed
  ultimately show ?thesis using assms(1) ys by (auto simp: splice_in_def sorted_wrt_append)
qed

end

interpretation by_num: file_order lessByNum
  by unfold_locales (auto simp: lessByNum_def)

context internal_keys
begin

lemma file_order_key: "file_order (lessByKey ks)"
proof
  show "\<not> lessByKey ks a a" for a using icmp_eq [of "imin a" "imin a"] by (simp add: lessByKey_def)
  show "lessByKey ks a b \<or> lessByKey ks b a" if "fd_num a \<noteq> fd_num b" for a b
    using that icmp_swap [of "imin a" "imin b"] by (auto simp: lessByKey_def Let_def)
  show "lessByKey ks a c" if "lessByKey ks a b" "lessByKey ks b c" for a b c
    using that icmp_eq [of "imin a" "imin b"] icmp_eq [of "imin b" "imin c"] icmp_trans [of "imin a" "imin b" "imin c"]
    by (auto simp: lessByKey_def Let_def split: if_splits)
qed

end

sublocale internal_keys \<subseteq> by_key: file_order "lessByKey ks"
  by (rule file_order_key)

definition level_less :: "'ik key_ops \<Rightarrow> nat \<Rightarrow> 'ik tFile \<Rightarrow> 'ik tFile \<Rightarrow> bool" where
  "level_less ks level = (if level = 0 then lessByNum else lessByKey ks)"

text \<open>Every file of \<open>nt\<close> is on one side of all the files of \<open>added\<close>.\<close>

definition batch_fits :: "'ik key_ops \<Rightarrow> nat \<Rightarrow> 'ik tFile list \<Rightarrow> 'ik tFile list \<Rightarrow> bool" where
  "batch_fits ks level added nt \<longleftrightarrow>
     list_all (\<lambda>t.
       (if level = 0 then list_all (\<lambda>a. fd_num a < fd_num t) added \<or> list_all (\<lambda>a. fd_num t < fd_num a) added
        else list_all (\<lambda>a. k_icmp ks (imin t) (imin a) < 0) added \<or> list_all (\<lambda>a. k_icmp ks (imax a) (imin t) < 0) added)) nt"

definition file_ranges :: "'ik key_ops \<Rightarrow> 'ik tFile list \<Rightarrow> bool" where
  "file_ranges ks = list_all (\<lambda>t. k_icmp ks (imin t) (imax t) \<le> 0)"

lemma last_by_num:
  assumes "sorted_wrt lessByNum xs" and "xs \<noteq> []"
  shows "\<forall>a \<in> set xs. fd_num (last xs) \<le> fd_num a"
  using assms by (induction xs) (auto simp: lessByNum_def less_imp_le)

context internal_keys
begin

lemma icmp_le_trans: "k_icmp ks a b \<le> 0 \<Longrightarrow> k_icmp ks b c \<le> 0 \<Longrightarrow> k_icmp ks a c \<le> 0"
  using icmp_eq [of a b] icmp_eq [of b c] icmp_trans [of a b c] by (cases "a = b"; cases "b = c") (auto simp: le_less)

lemma icmp_le_less_trans: "k_icmp ks a b \<le> 0 \<Longrightarrow> k_icmp ks b c < 0 \<Longrightarrow> k_icmp ks a c < 0"
  using icmp_eq [of a b] icmp_trans [of a b c] by (cases "a = b") (auto simp: le_less)

lemma range_fold:
  assumes "fold (range_step ks) ts (Some (mn, mx)) = Some (mn', mx')"
  shows "k_icmp ks mx mx' \<le> 0 \<and> (\<forall>t \<in> set ts. k_icmp ks (imax t) mx' \<le> 0) \<and> (mx' = mx \<or> mx' \<in> imax ` set ts)"
  using assms
proof (induction ts arbitrary: mn mx)
  case Nil
  then show ?case using icmp_eq [of mx mx] by simp
next
  case (Cons t ts)
  let ?m = "if 0 < k_icmp ks (imax t) mx then imax t else mx"
  have IH: "k_icmp ks ?m mx' \<le> 0" "\<forall>t \<in> set ts. k_icmp ks (imax t) mx' \<le> 0" "mx' = ?m \<or> mx' \<in> imax ` set ts"
    using Cons.IH Cons.prems by (auto simp: range_step_def)
  have "k_icmp ks mx ?m \<le> 0" "k_icmp ks (imax t) ?m \<le> 0"
    using icmp_swap [of mx "imax t"] icmp_eq [of mx mx] icmp_eq [of "imax t" "imax t"] by auto
  then have "k_icmp ks mx mx' \<le> 0" "k_icmp ks (imax t) mx' \<le> 0" using IH(1) icmp_le_trans by blast+
  then show ?case using IH by auto
qed

lemma getRange_max:
  assumes "getRange ks ts = Some (mn, mx)"
  shows "\<forall>t \<in> set ts. k_icmp ks (imax t) mx \<le> 0" and "\<exists>t \<in> set ts. imax t = mx"
proof -
  obtain t ts' where ts: "ts = t # ts'" using assms by (cases ts) (auto simp: getRange_def)
  then have "fold (range_step ks) ts' (Some (imin t, imax t)) = Some (mn, mx)"
    using assms by (simp add: getRange_def range_step_def)
  from range_fold [OF this] ts show "\<forall>t \<in> set ts. k_icmp ks (imax t) mx \<le> 0" "\<exists>t \<in> set ts. imax t = mx" by auto
qed

lemma insert_level0:
  assumes "added \<noteq> []" and "distinct (map fd_num added)" and "sorted_wrt lessByNum nt" and "batch_fits ks 0 added nt"
  shows "sorted_wrt lessByNum (splice_in (searchNumLess (fd_num (last (sortByNum added))) nt) (sortByNum added) nt)"
proof -
  let ?a = "sortByNum added" and ?m = "fd_num (last (sortByNum added))"
  have a: "sorted_wrt lessByNum ?a" "set ?a = set added" "?a \<noteq> []"
    using by_num.sorted_sort [OF assms(2)] assms(1) by (simp_all add: sortByNum_def)
  have m: "\<forall>x \<in> set added. ?m \<le> fd_num x" "last ?a \<in> set added"
    using last_by_num [OF a(1,3)] a(2,3) last_in_set [OF a(3)] by auto
  have mono: "fd_num (nt ! y) < ?m" if "x \<le> y" "y < length nt" "fd_num (nt ! x) < ?m" for x y
    using that sorted_wrt_nth_less [OF assms(3), of x y] by (cases "x = y") (auto simp: lessByNum_def)
  have iff: "fd_num (nt ! j) < ?m \<longleftrightarrow> searchNumLess ?m nt \<le> j" if "j < length nt" for j
    unfolding searchNumLess_def by (rule sort_Search_spec(2) [where f = "\<lambda>i. fd_num (nt ! i) < ?m", OF mono that])
  have fits: "(\<forall>x \<in> set added. fd_num x < fd_num (nt ! j)) \<or> (\<forall>x \<in> set added. fd_num (nt ! j) < fd_num x)" if "j < length nt" for j
    using assms(4) that by (auto simp: batch_fits_def list_all_iff)
  show ?thesis
  proof (rule by_num.sorted_splice [OF a(1) assms(3)])
    show "\<forall>x \<in> set ?a. lessByNum (nt ! j) x" if "j < length nt" "j < searchNumLess ?m nt" for j
      using iff [OF that(1)] fits [OF that(1)] that(2) m a(2) by (force simp: lessByNum_def)
    show "\<forall>x \<in> set ?a. lessByNum x (nt ! j)" if "j < length nt" "searchNumLess ?m nt \<le> j" for j
      using iff [OF that(1)] that(2) m a(2) by (auto simp: lessByNum_def)
  qed
qed

lemma insert_sorted_level:
  assumes "distinct (map fd_num added)" and "sorted_wrt (lessByKey ks) nt" and "batch_fits ks (Suc l) added nt"
    and "file_ranges ks added" and range: "getRange ks (sortByKey ks added) = Some (amin, amax)"
  shows "sorted_wrt (lessByKey ks) (splice_in (searchMin ks amax nt) (sortByKey ks added) nt)"
proof -
  let ?a = "sortByKey ks added"
  have a: "sorted_wrt (lessByKey ks) ?a" "set ?a = set added"
    using by_key.sorted_sort [OF assms(1)] by (simp_all add: sortByKey_def)
  obtain top where top: "top \<in> set added" "imax top = amax" using getRange_max(2) [OF range] a(2) by auto
  have le: "k_icmp ks (imax x) amax \<le> 0" "k_icmp ks (imin x) (imax x) \<le> 0" if "x \<in> set added" for x
    using getRange_max(1) [OF range] a(2) that assms(4) by (auto simp: file_ranges_def list_all_iff)
  have mono: "0 \<le> k_icmp ks (imin (nt ! y)) amax" if "x \<le> y" "y < length nt" "0 \<le> k_icmp ks (imin (nt ! x)) amax" for x y
  proof (cases "x = y")
    case False
    then have "k_icmp ks (imin (nt ! x)) (imin (nt ! y)) \<le> 0"
      using that(1,2) sorted_wrt_nth_less [OF assms(2), of x y] by (auto simp: lessByKey_def Let_def split: if_splits)
    then show ?thesis
      using that(3) icmp_le_trans [of amax "imin (nt ! x)" "imin (nt ! y)"] icmp_swap [of amax "imin (nt ! x)"] icmp_swap [of amax "imin (nt ! y)"]
      by simp
  qed (use that in simp)
  have iff: "0 \<le> k_icmp ks (imin (nt ! j)) amax \<longleftrightarrow> searchMin ks amax nt \<le> j" if "j < length nt" for j
    unfolding searchMin_def by (rule sort_Search_spec(2) [where f = "\<lambda>i. 0 \<le> k_icmp ks (imin (nt ! i)) amax", OF mono that])
  have fits: "(\<forall>x \<in> set added. k_icmp ks (imin (nt ! j)) (imin x) < 0) \<or> (\<forall>x \<in> set added. k_icmp ks (imax x) (imin (nt ! j)) < 0)"
    if "j < length nt" for j
    using assms(3) that by (auto simp: batch_fits_def list_all_iff)
  show ?thesis
  proof (rule by_key.sorted_splice [OF a(1) assms(2)])
    show "\<forall>x \<in> set ?a. lessByKey ks (nt ! j) x" if "j < length nt" "j < searchMin ks amax nt" for j
    proof -
      have "\<not> k_icmp ks amax (imin (nt ! j)) < 0"
        using iff [OF that(1)] that(2) icmp_swap [of amax "imin (nt ! j)"] by simp
      then have "\<forall>x \<in> set added. k_icmp ks (imin (nt ! j)) (imin x) < 0" using fits [OF that(1)] top by blast
      then show ?thesis using a(2) by (auto simp: lessByKey_def Let_def)
    qed
    show "\<forall>x \<in> set ?a. lessByKey ks x (nt ! j)" if "j < length nt" "searchMin ks amax nt \<le> j" for j
    proof -
      have high: "\<not> k_icmp ks (imin (nt ! j)) amax < 0" using iff [OF that(1)] that(2) by simp
      have "\<not> k_icmp ks (imin (nt ! j)) (imin top) < 0"
      proof
        assume "k_icmp ks (imin (nt ! j)) (imin top) < 0"
        then have "k_icmp ks (imin (nt ! j)) amax < 0"
          using le(2) [OF top(1)] top(2) icmp_eq [of "imin top" amax] icmp_trans [of "imin (nt ! j)" "imin top" amax]
          by (cases "imin top = amax") (auto simp: le_less)
        then show False using high by simp
      qed
      then have "\<forall>x \<in> set added. k_icmp ks (imax x) (imin (nt ! j)) < 0" using fits [OF that(1)] top(1) by blast
      then have "\<forall>x \<in> set added. k_icmp ks (imin x) (imin (nt ! j)) < 0" using le(2) icmp_le_less_trans by blast
      then show ?thesis using a(2) by (auto simp: lessByKey_def Let_def)
    qed
  qed
qed

lemma sorted_sort_level:
  assumes "distinct (map fd_num ts)"
  shows "sorted_wrt (level_less ks level) (sort_level ks level ts)"
  using by_num.sorted_sort [OF assms] by_key.sorted_sort [OF assms]
  by (simp add: level_less_def sort_level_def sortByNum_def sortByKey_def)

lemma sorted_level_unique:
  "sorted_wrt (level_less ks level) xs \<Longrightarrow> sorted_wrt (level_less ks level) ys \<Longrightarrow> set xs = set ys \<Longrightarrow> xs = ys"
  using by_num.sorted_unique by_key.sorted_unique by (auto simp: level_less_def split: if_splits)

lemma insert_trivial_sorted:
  assumes "added \<noteq> []" and "distinct (map fd_num added)" and "sorted_wrt (level_less ks level) nt"
    and "batch_fits ks level added nt" and "file_ranges ks added"
  shows "sorted_wrt (level_less ks level) (insert_trivial ks level added nt)"
proof (cases level)
  case 0
  then show ?thesis
    using insert_level0 assms by (simp add: level_less_def insert_trivial_def Let_def)
next
  case (Suc l)
  obtain mn mx where "getRange ks (sortByKey ks added) = Some (mn, mx)"
    using getRange_Some [of "sortByKey ks added" ks] assms(1) by (auto simp: sortByKey_def)
  then show ?thesis
    using insert_sorted_level [of added nt l mn mx] assms Suc by (simp add: level_less_def insert_trivial_def Let_def)
qed

end

lemma finish_commits:
  "set (level_at (v_levels (fst (finish ks score trivial n (fold stage_record rs (newStaging v))))) l) =
     fold apply_record rs (\<lambda>l. set (level_at (v_levels v) l)) l"
proof -
  have wf: "staging_wf (newStaging v)" by (simp add: staging_wf_def newStaging_def)
  have base: "staged (newStaging v) = (\<lambda>l. set (level_at (v_levels v) l))"
    by (simp add: fun_eq_iff staged_def newStaging_def scratch_at_def empty_scratch_def scratch_tables_def kept_tables_def added_files_def)
  have "staged (fold stage_record rs (newStaging v)) = fold apply_record rs (staged (newStaging v))"
    using fold_refines [where W = staging_wf and A = staged and f = stage_record and g = apply_record, OF stage_record_refines wf] by simp
  then show ?thesis by (simp add: level_at_finish set_finish_level base)
qed

text \<open>A base with two tables in level 1 and a staging that adds a table between them, with keys ordered downwards.\<close>

definition sample_base :: "internal_key version" where
  "sample_base = (fst (newVersion 3))\<lparr>v_levels := [[], [newTableFile 1 10 [9] [7], newTableFile 2 10 [2] [1]]]\<rparr>"

definition sample_staging :: versionStaging where
  "sample_staging = \<lparr>st_base = sample_base, st_levels = [empty_scratch,
     \<lparr>s_added = [(3, \<lparr>at_level = 1, at_num = 3, at_size = 10, at_imin = [5], at_imax = [4]\<rparr>)], s_deleted = []\<rparr>]\<rparr>"

section \<open>Properties\<close>


text \<open>
  C29: the batch insertion gives the sorted level.  When the base levels are in order, table numbers do not repeat within a level
  and every kept table lies on one side of all the added ones, the version finished with the batch insertion by binary search is the one
  finished with a full sort, and its levels are in order: level 0 by descending number, the others by their smallest keys.
\<close>

theorem batch_insertion_sorts:
  assumes "internal_keys ks"
    and "\<forall>l. sorted_wrt (level_less ks l) (level_at (v_levels (st_base p)) l)"
    and "\<forall>l. distinct (map fd_num (kept_tables (scratch_at p l) (level_at (v_levels (st_base p)) l) @ added_files (scratch_at p l)))"
    and "\<forall>l. file_ranges ks (added_files (scratch_at p l))"
    and "\<forall>l. batch_fits ks l (added_files (scratch_at p l)) (kept_tables (scratch_at p l) (level_at (v_levels (st_base p)) l))"
  shows "finish ks score True n p = finish ks score False n p \<and>
    sorted_wrt (level_less ks l) (level_at (v_levels (fst (finish ks score True n p))) l)"
proof -
  have both: "finish_level ks True p l = finish_level ks False p l \<and> sorted_wrt (level_less ks l) (finish_level ks True p l)" for l
  proof (cases "l < length (st_levels p) \<and> s_added (st_levels p ! l) \<noteq> []")
    case True
    let ?s = "st_levels p ! l" and ?base = "level_at (v_levels (st_base p)) l"
    let ?nt = "kept_tables ?s ?base" and ?added = "added_files ?s"
    have s: "scratch_at p l = ?s" using True by (simp add: scratch_at_def)
    have lvl: "finish_level ks True p l = insert_trivial ks l ?added ?nt" "finish_level ks False p l = sort_level ks l (?nt @ ?added)"
      using True by (simp_all add: finish_level_def Let_def level_at_def added_files_def)
    have d: "distinct (map fd_num (?nt @ ?added))" using assms(3) [rule_format, of l] s by simp
    have nt: "sorted_wrt (level_less ks l) ?nt"
      using assms(2) [rule_format, of l] by (simp add: kept_tables_def sorted_wrt_filter)
    have ins: "sorted_wrt (level_less ks l) (insert_trivial ks l ?added ?nt)"
      using internal_keys.insert_trivial_sorted [OF assms(1), of ?added l ?nt] True d nt
        assms(4,5) [rule_format, of l] s
      by (simp add: added_files_def)
    moreover have "set (finish_level ks True p l) = set (finish_level ks False p l)" by (simp add: set_finish_level)
    ultimately show ?thesis
      using internal_keys.sorted_level_unique [OF assms(1) ins internal_keys.sorted_sort_level [OF assms(1) d, of l]] lvl by simp
  next
    case False
    then have "finish_level ks trivial p l = kept_tables (scratch_at p l) (level_at (v_levels (st_base p)) l)" for trivial
      by (auto simp: finish_level_def Let_def level_at_def scratch_at_def kept_tables_def empty_scratch_def)
    then show ?thesis using assms(2) [rule_format, of l] by (simp add: kept_tables_def sorted_wrt_filter)
  qed
  then have "finish_level ks True p = finish_level ks False p" by (simp add: fun_eq_iff)
  then have "finish ks score True n p = finish ks score False n p" by (simp add: finish_def)
  moreover have "sorted_wrt (level_less ks l) (level_at (v_levels (fst (finish ks score True n p))) l)"
    unfolding level_at_finish using both by blast
  ultimately show ?thesis by blast
qed

theorem batch_insertion_sorts_witness:
  "map fd_num (level_at (v_levels (fst (finish down_keys (\<lambda>_ _. 0) True 7 sample_staging))) 1) = [1, 3, 2]"
proof -
  have l: "l = 0 \<or> l = 1 \<or> 2 \<le> l" for l :: nat by linarith
  note defs = sample_staging_def sample_base_def scratch_at_def empty_scratch_def kept_tables_def added_files_def
    tableFileFromRecord_def down_keys_def down_compare_def
  have 1: "\<forall>l. sorted_wrt (level_less down_keys l) (level_at (v_levels (st_base sample_staging)) l)"
    using l by (auto simp: level_at_def nth_Cons' level_less_def lessByKey_def defs)
  have 2: "\<forall>l. distinct (map fd_num (kept_tables (scratch_at sample_staging l) (level_at (v_levels (st_base sample_staging)) l) @
      added_files (scratch_at sample_staging l)))"
    using l by (auto simp: level_at_def nth_Cons' defs)
  have 3: "\<forall>l. file_ranges down_keys (added_files (scratch_at sample_staging l))"
    using l by (auto simp: file_ranges_def nth_Cons' defs)
  have 4: "\<forall>l. batch_fits down_keys l (added_files (scratch_at sample_staging l))
      (kept_tables (scratch_at sample_staging l) (level_at (v_levels (st_base sample_staging)) l))"
    using l by (auto simp: batch_fits_def level_at_def nth_Cons' defs)
  have "finish down_keys (\<lambda>_ _. 0) True 7 sample_staging = finish down_keys (\<lambda>_ _. 0) False 7 sample_staging"
    using batch_insertion_sorts [OF down_keys.internal_keys_axioms 1 2 3 4] by blast
  moreover have "map fd_num (level_at (v_levels (fst (finish down_keys (\<lambda>_ _. 0) False 7 sample_staging))) 1) = [1, 3, 2]"
    by code_simp
  ultimately show ?thesis by simp
qed

end
