(* ===== verification/Ldb_Refs.thy ===== *)
theory Ldb_Refs
  imports Ldb_Staging
begin

text \<open>
  Which table files are still in use, \<^verbatim>\<open>goleveldb/leveldb/session_util.go\<close> (\<^verbatim>\<open>refLoop\<close>): a goroutine receives a message
  when a version is first referenced, when the next version is set (with the change of the tables), when a version is released and when
  a version id is given up, and removes a table file once nothing counts it.  The state is the variables of \<^verbatim>\<open>refLoop\<close>; a
  panic is \<open>None\<close>; the files handed to \<^verbatim>\<open>tops.remove\<close> are logged in \<open>removed\<close>.
\<close>

section \<open>State\<close>

record vDelta =
  d_vid :: int
  d_added :: "int list"
  d_deleted :: "int list"

record 'ik vTask =
  t_vid :: int
  t_files :: "'ik tFile list list"

record 'ik ref_loop =
  fileRef :: "int \<rightharpoonup> int"
  refs :: "(int \<times> 'ik vTask) list"
  deltas :: "int \<rightharpoonup> vDelta"
  referenced :: "int list"
  released :: "(int \<times> vDelta option) list"
  abandoned :: "int list"
  next_id :: int
  last_id :: int
  removed :: "int list"

definition maxCachedNumber :: int where
  "maxCachedNumber = 256"

definition loop_init :: "'ik ref_loop" where
  "loop_init = \<lparr>fileRef = Map.empty, refs = [], deltas = Map.empty, referenced = [], released = [], abandoned = [],
     next_id = 0, last_id = 0, removed = []\<rparr>"

text \<open>The file numbers of a task, in the order the nested loops go through them.\<close>

definition task_nums :: "'ik vTask \<Rightarrow> int list" where
  "task_nums t = map fd_num (concat (t_files t))"

section \<open>Counting\<close>

definition count_of :: "'ik ref_loop \<Rightarrow> int \<Rightarrow> int" where
  "count_of s f = (case fileRef s f of None \<Rightarrow> 0 | Some n \<Rightarrow> n)"

definition addFileRef :: "int \<Rightarrow> int \<Rightarrow> 'ik ref_loop \<Rightarrow> ('ik ref_loop \<times> int) option" where
  "addFileRef fnum r s =
     (let r = r + count_of s fnum
      in if 0 < r then Some (s\<lparr>fileRef := (fileRef s)(fnum \<mapsto> r)\<rparr>, r)
         else if r = 0 then Some (s\<lparr>fileRef := (fileRef s)(fnum := None)\<rparr>, r)
         else None)"

primrec add_files :: "int list \<Rightarrow> 'ik ref_loop \<Rightarrow> 'ik ref_loop option" where
  "add_files [] s = Some s"
| "add_files (f # fs) s = (case addFileRef f 1 s of None \<Rightarrow> None | Some (s, _) \<Rightarrow> add_files fs s)"

primrec drop_files :: "int list \<Rightarrow> 'ik ref_loop \<Rightarrow> 'ik ref_loop option" where
  "drop_files [] s = Some s"
| "drop_files (f # fs) s =
     (case addFileRef f (-1) s of
        None \<Rightarrow> None
      | Some (s, r) \<Rightarrow> drop_files fs (if r = 0 then s\<lparr>removed := removed s @ [f]\<rparr> else s))"

definition applyDelta :: "vDelta \<Rightarrow> 'ik ref_loop \<Rightarrow> 'ik ref_loop option" where
  "applyDelta d s = (case add_files (d_added d) s of None \<Rightarrow> None | Some s \<Rightarrow> drop_files (d_deleted d) s)"

section \<open>Processing the tasks\<close>

text \<open>One version turned into full file references.\<close>

definition convert_one :: "'ik vTask \<Rightarrow> 'ik ref_loop \<Rightarrow> 'ik ref_loop option" where
  "convert_one t s =
     (case add_files (task_nums t) s of
        None \<Rightarrow> None
      | Some s \<Rightarrow>
          (case (case deltas s (next_id s) of None \<Rightarrow> Some s | Some d \<Rightarrow> applyDelta d s) of
             None \<Rightarrow> None
           | Some s \<Rightarrow> Some (s\<lparr>referenced := List.insert (next_id s) (referenced s),
                               refs := AList.delete (next_id s) (refs s),
                               deltas := (deltas s)(next_id s := None),
                               next_id := next_id s + 1\<rparr>)))"

lemma frame_refl: "\<exists>fr rm. s = s\<lparr>fileRef := fr, removed := rm\<rparr>"
  by (intro exI [of _ "fileRef s"] exI [of _ "removed s"]) simp

lemma addFileRef_frame:
  "addFileRef f r s = Some (s', n) \<Longrightarrow> \<exists>fr. s' = s\<lparr>fileRef := fr\<rparr>"
  by (auto simp: addFileRef_def Let_def split: if_splits)

lemma add_files_frame: "add_files fs s = Some s' \<Longrightarrow> \<exists>fr. s' = s\<lparr>fileRef := fr\<rparr>"
proof (induction fs arbitrary: s)
  case Nil
  then show ?case by (auto intro: exI [of _ "fileRef s"])
next
  case (Cons f fs)
  then show ?case by (fastforce split: option.splits dest: addFileRef_frame)
qed

lemma drop_files_frame: "drop_files fs s = Some s' \<Longrightarrow> \<exists>fr rm. s' = s\<lparr>fileRef := fr, removed := rm\<rparr>"
proof (induction fs arbitrary: s)
  case Nil
  then show ?case by (intro exI [of _ "fileRef s"] exI [of _ "removed s"]) simp
next
  case (Cons f fs)
  then show ?case by (fastforce split: option.splits if_splits dest: addFileRef_frame)
qed

lemma applyDelta_frame: "applyDelta d s = Some s' \<Longrightarrow> \<exists>fr rm. s' = s\<lparr>fileRef := fr, removed := rm\<rparr>"
  by (fastforce simp: applyDelta_def split: option.splits dest: add_files_frame drop_files_frame)

lemma convert_one_frame:
  assumes "convert_one t s = Some s'"
  shows "\<exists>fr rm. s' = s\<lparr>fileRef := fr, removed := rm, referenced := List.insert (next_id s) (referenced s),
    refs := AList.delete (next_id s) (refs s), deltas := (deltas s)(next_id s := None), next_id := next_id s + 1\<rparr>"
proof -
  obtain s1 where s1: "add_files (task_nums t) s = Some s1" using assms by (auto simp: convert_one_def split: option.splits)
  then obtain fr where fr: "s1 = s\<lparr>fileRef := fr\<rparr>" using add_files_frame by blast
  obtain s2 where s2: "(case deltas s1 (next_id s1) of None \<Rightarrow> Some s1 | Some d \<Rightarrow> applyDelta d s1) = Some s2"
    using assms s1 by (auto simp: convert_one_def split: option.splits)
  then have "\<exists>fr rm. s2 = s1\<lparr>fileRef := fr, removed := rm\<rparr>"
    by (cases "deltas s1 (next_id s1)") (auto dest: applyDelta_frame intro: frame_refl)
  then obtain fr' rm where s2': "s2 = s\<lparr>fileRef := fr', removed := rm\<rparr>" using fr by auto
  show ?thesis using assms s1 s2 by (intro exI [of _ fr'] exI [of _ rm]) (simp add: convert_one_def s2')
qed

lemma shorter_delete: "map_of xs k = Some v \<Longrightarrow> length (AList.delete k xs) < length xs"
  by (induction xs) (auto simp: less_Suc_eq_le length_delete_le split: if_splits)

text \<open>The first loop of \<^verbatim>\<open>processTasks\<close>; \<open>old v\<close> says that the task of version \<open>v\<close> is older than five minutes.\<close>

function convert_tasks :: "(int \<Rightarrow> bool) \<Rightarrow> 'ik ref_loop \<Rightarrow> 'ik ref_loop option" where
  "convert_tasks old s =
     (if next_id s \<in> set (abandoned s)
      then convert_tasks old (s\<lparr>abandoned := removeAll (next_id s) (abandoned s), next_id := next_id s + 1\<rparr>)
      else if map_of (released s) (next_id s) \<noteq> None then Some s
      else case map_of (refs s) (next_id s) of
        None \<Rightarrow> Some s
      | Some t \<Rightarrow>
          if last_id s - next_id s < maxCachedNumber \<and> \<not> old (next_id s) then Some s
          else case convert_one t s of None \<Rightarrow> None | Some s' \<Rightarrow> convert_tasks old s')"
  by pat_completeness auto
termination
  by (relation "measure (\<lambda>(old, s). length (abandoned s) + length (refs s))")
    (auto simp: length_removeAll_less dest!: convert_one_frame intro: shorter_delete)

text \<open>The second loop: released versions, by their deltas.\<close>

function process_released :: "'ik ref_loop \<Rightarrow> 'ik ref_loop option" where
  "process_released s =
     (if next_id s \<in> set (abandoned s)
      then process_released (s\<lparr>abandoned := removeAll (next_id s) (abandoned s), next_id := next_id s + 1\<rparr>)
      else case map_of (released s) (next_id s) of
        None \<Rightarrow> Some s
      | Some d \<Rightarrow>
          (case (case d of None \<Rightarrow> Some s | Some d \<Rightarrow> applyDelta d s) of
             None \<Rightarrow> None
           | Some s' \<Rightarrow> process_released (s'\<lparr>released := AList.delete (next_id s') (released s'), next_id := next_id s' + 1\<rparr>)))"
  by pat_completeness auto
termination
  by (relation "measure (\<lambda>s. length (abandoned s) + length (released s))")
    (auto simp: length_removeAll_less split: option.splits dest!: applyDelta_frame intro: shorter_delete)

declare convert_tasks.simps [simp del] process_released.simps [simp del]

definition processTasks :: "(int \<Rightarrow> bool) \<Rightarrow> 'ik ref_loop \<Rightarrow> 'ik ref_loop option" where
  "processTasks old s = (case convert_tasks old s of None \<Rightarrow> None | Some s \<Rightarrow> process_released s)"

section \<open>Messages\<close>

datatype 'ik message =
    RefMsg "'ik vTask"
  | DeltaMsg vDelta
  | RelMsg "'ik vTask"
  | AbandonMsg int
  | TimerMsg
  | FileRefMsg

definition on_ref :: "'ik vTask \<Rightarrow> 'ik ref_loop \<Rightarrow> 'ik ref_loop option" where
  "on_ref t s =
     (if map_of (refs s) (t_vid t) \<noteq> None then None
      else let s = s\<lparr>refs := AList.update (t_vid t) t (refs s)\<rparr>
        in Some (if last_id s < t_vid t then s\<lparr>last_id := t_vid t\<rparr> else s))"

definition on_delta :: "vDelta \<Rightarrow> 'ik ref_loop \<Rightarrow> 'ik ref_loop option" where
  "on_delta d s =
     (if map_of (refs s) (d_vid d) = None
      then (if d_vid d \<notin> set (referenced s) then None else applyDelta d s)
      else Some (s\<lparr>deltas := (deltas s)(d_vid d \<mapsto> d)\<rparr>))"

definition on_release :: "'ik vTask \<Rightarrow> 'ik ref_loop \<Rightarrow> 'ik ref_loop option" where
  "on_release t s =
     (if t_vid t \<in> set (referenced s)
      then (case drop_files (task_nums t) s of
              None \<Rightarrow> None
            | Some s \<Rightarrow> Some (s\<lparr>referenced := removeAll (t_vid t) (referenced s)\<rparr>))
      else if map_of (refs s) (t_vid t) = None then None
      else Some (s\<lparr>released := AList.update (t_vid t) (deltas s (t_vid t)) (released s),
                   deltas := (deltas s)(t_vid t := None),
                   refs := AList.delete (t_vid t) (refs s)\<rparr>))"

definition on_message :: "'ik message \<Rightarrow> 'ik ref_loop \<Rightarrow> 'ik ref_loop option" where
  "on_message m s =
     (case m of
        RefMsg t \<Rightarrow> on_ref t s
      | DeltaMsg d \<Rightarrow> on_delta d s
      | RelMsg t \<Rightarrow> on_release t s
      | AbandonMsg vid \<Rightarrow> Some (if next_id s \<le> vid then s\<lparr>abandoned := List.insert vid (abandoned s)\<rparr> else s)
      | TimerMsg \<Rightarrow> Some s
      | FileRefMsg \<Rightarrow> Some s)"

text \<open>One turn of the loop: a message, and the processing at the head of the next turn.\<close>

definition loop_turn :: "(int \<Rightarrow> bool) \<Rightarrow> 'ik message \<Rightarrow> 'ik ref_loop \<Rightarrow> 'ik ref_loop option" where
  "loop_turn old m s = (case on_message m s of None \<Rightarrow> None | Some s \<Rightarrow> processTasks old s)"

section \<open>References to versions\<close>

text \<open>
  \<^verbatim>\<open>incref\<close> and \<^verbatim>\<open>releaseNB\<close> of a version, with the messages they send to the loop while the session is open; a panic is \<open>None\<close>.
\<close>

definition version_task :: "'ik version \<Rightarrow> 'ik vTask" where
  "version_task v = \<lparr>t_vid = v_id v, t_files = v_levels v\<rparr>"

definition incref :: "'ik version \<Rightarrow> ('ik version \<times> 'ik message list) option" where
  "incref v =
     (if v_released v then None
      else let v = v\<lparr>v_ref := v_ref v + 1\<rparr>
        in Some (v, if v_ref v = 1 then [RefMsg (version_task v)] else []))"

definition releaseNB :: "'ik version \<Rightarrow> ('ik version \<times> 'ik message list) option" where
  "releaseNB v =
     (let v = v\<lparr>v_ref := v_ref v - 1\<rparr>
      in if 0 < v_ref v then Some (v, [])
         else if v_ref v < 0 then None
         else Some (v\<lparr>v_released := True\<rparr>, [RelMsg (version_task v)]))"

text \<open>
  \<^verbatim>\<open>setVersion\<close>: the new version is referenced, then the change of the current one is sent if there is a record, then the
  current one is released.  The result is the new version, the old one and the messages.
\<close>

definition record_delta :: "int \<Rightarrow> sessionRecord \<Rightarrow> vDelta" where
  "record_delta vid r = \<lparr>d_vid = vid, d_added = map at_num (addedTables r), d_deleted = map dt_num (deletedTables r)\<rparr>"

definition setVersion ::
  "sessionRecord option \<Rightarrow> 'ik version \<Rightarrow> 'ik version option \<Rightarrow>
   ('ik version \<times> 'ik version option \<times> 'ik message list) option" where
  "setVersion r v cur =
     (case incref v of
        None \<Rightarrow> None
      | Some (v, ms) \<Rightarrow>
          (case cur of
             None \<Rightarrow> Some (v, None, ms)
           | Some c \<Rightarrow>
               (let ds = (case r of None \<Rightarrow> [] | Some r \<Rightarrow> [DeltaMsg (record_delta (v_id c) r)])
                in case releaseNB c of
                     None \<Rightarrow> None
                   | Some (c, rs) \<Rightarrow> Some (v, Some c, ms @ ds @ rs))))"

text \<open>A series of references (\<open>True\<close>) and releases of one version.\<close>

definition ref_op :: "bool \<Rightarrow> 'ik version \<times> 'ik message list \<Rightarrow> ('ik version \<times> 'ik message list) option" where
  "ref_op take_it st =
     (case st of (v, ms) \<Rightarrow>
        (case (if take_it then incref v else releaseNB v) of None \<Rightarrow> None | Some (v, ms') \<Rightarrow> Some (v, ms @ ms')))"

primrec ref_ops :: "bool list \<Rightarrow> 'ik version \<times> 'ik message list \<Rightarrow> ('ik version \<times> 'ik message list) option" where
  "ref_ops [] st = Some st"
| "ref_ops (b # bs) st = (case ref_op b st of None \<Rightarrow> None | Some st \<Rightarrow> ref_ops bs st)"

section \<open>What the counting does\<close>

definition nonneg :: "'ik ref_loop \<Rightarrow> bool" where
  "nonneg s \<longleftrightarrow> (\<forall>f. 0 \<le> count_of s f)"

lemma addFileRef_count:
  assumes "0 \<le> count_of s f + r"
  shows "\<exists>s'. addFileRef f r s = Some (s', count_of s f + r) \<and> removed s' = removed s \<and>
    (\<forall>g. count_of s' g = (if g = f then count_of s f + r else count_of s g))"
  using assms by (auto simp: addFileRef_def count_of_def Let_def)

lemma add_files_count:
  assumes "nonneg s"
  shows "\<exists>s'. add_files fs s = Some s' \<and> nonneg s' \<and> (\<forall>f. count_of s' f = count_of s f + int (count_list fs f))"
  using assms
proof (induction fs arbitrary: s)
  case (Cons f fs)
  obtain s1 where s1: "addFileRef f 1 s = Some (s1, count_of s f + 1)"
    "\<forall>g. count_of s1 g = (if g = f then count_of s f + 1 else count_of s g)"
    using addFileRef_count [of s f 1] Cons.prems by (force simp: nonneg_def)
  have "nonneg s1" using s1(2) Cons.prems by (simp add: nonneg_def add_nonneg_nonneg)
  from Cons.IH [OF this] s1 show ?case by auto
qed simp

lemma drop_files_count:
  assumes "nonneg s" and "\<forall>f. int (count_list fs f) \<le> count_of s f"
  shows "\<exists>s'. drop_files fs s = Some s' \<and> nonneg s' \<and> (\<forall>f. count_of s' f = count_of s f - int (count_list fs f)) \<and>
    set (removed s') = set (removed s) \<union> {f \<in> set fs. count_of s' f = 0}"
  using assms
proof (induction fs arbitrary: s)
  case (Cons f fs)
  have "0 \<le> count_of s f + - 1" using Cons.prems(2) [rule_format, of f] by simp
  from addFileRef_count [OF this] obtain s1 where s1: "addFileRef f (-1) s = Some (s1, count_of s f - 1)" "removed s1 = removed s"
    "\<forall>g. count_of s1 g = (if g = f then count_of s f - 1 else count_of s g)" by auto
  define s2 where "s2 = (if count_of s f - 1 = 0 then s1\<lparr>removed := removed s1 @ [f]\<rparr> else s1)"
  have c2: "count_of s2 g = (if g = f then count_of s f - 1 else count_of s g)" for g
    using s1(3) by (simp add: s2_def count_of_def)
  have "int (count_list fs g) \<le> count_of s2 g" for g
    using Cons.prems(2) [rule_format, of g] c2 by (simp split: if_splits)
  moreover have "0 \<le> count_of s2 g" for g using calculation [of g] by linarith
  then have "nonneg s2" by (simp add: nonneg_def)
  ultimately obtain s' where s': "drop_files fs s2 = Some s'" "nonneg s'" "\<forall>g. count_of s' g = count_of s2 g - int (count_list fs g)"
    "set (removed s') = set (removed s2) \<union> {g \<in> set fs. count_of s' g = 0}" using Cons.IH [of s2] by blast
  have "drop_files (f # fs) s = Some s'" using s1(1) s'(1) by (simp add: s2_def)
  moreover have "\<forall>g. count_of s' g = count_of s g - int (count_list (f # fs) g)" using s'(3) c2 by simp
  moreover have "set (removed s') = set (removed s) \<union> {g \<in> set (f # fs). count_of s' g = 0}"
  proof -
    have f: "count_of s' f = count_of s f - 1 - int (count_list fs f)" using s'(3) c2 [of f] by simp
    have "f \<in> set fs" if "count_of s' f = 0" "count_of s f - 1 \<noteq> 0"
    proof (rule ccontr)
      assume "f \<notin> set fs"
      then have "count_list fs f = 0" by (simp add: count_list_0_iff)
      then show False using that f by simp
    qed
    moreover have "0 \<le> count_of s' f" using s'(2) by (simp add: nonneg_def)
    then have "count_of s' f = 0" if "count_of s f - 1 = 0" using that f by linarith
    ultimately show ?thesis using s'(4) s1(2) by (auto simp: s2_def)
  qed
  ultimately show ?case using s'(2) by blast
qed simp

lemma applyDelta_count:
  assumes "nonneg s" and "\<forall>f. int (count_list (d_deleted d) f) \<le> count_of s f + int (count_list (d_added d) f)"
  shows "\<exists>fr rm. applyDelta d s = Some (s\<lparr>fileRef := fr, removed := rm\<rparr>) \<and>
    (\<forall>f. count_of (s\<lparr>fileRef := fr, removed := rm\<rparr>) f =
       count_of s f + int (count_list (d_added d) f) - int (count_list (d_deleted d) f)) \<and>
    set rm = set (removed s) \<union> {f \<in> set (d_deleted d). count_of (s\<lparr>fileRef := fr, removed := rm\<rparr>) f = 0}"
proof -
  obtain s1 where s1: "add_files (d_added d) s = Some s1" "nonneg s1"
    "\<forall>f. count_of s1 f = count_of s f + int (count_list (d_added d) f)" using add_files_count [OF assms(1)] by blast
  obtain s2 where s2: "drop_files (d_deleted d) s1 = Some s2" "\<forall>f. count_of s2 f = count_of s1 f - int (count_list (d_deleted d) f)"
    "set (removed s2) = set (removed s1) \<union> {f \<in> set (d_deleted d). count_of s2 f = 0}"
    using drop_files_count [OF s1(2), of "d_deleted d"] assms(2) s1(3) by auto
  have ap: "applyDelta d s = Some s2" using s1 s2 by (simp add: applyDelta_def)
  obtain fr rm where fr: "s2 = s\<lparr>fileRef := fr, removed := rm\<rparr>" using applyDelta_frame [OF ap] by blast
  moreover have "removed s1 = removed s" using add_files_frame [OF s1(1)] by auto
  ultimately show ?thesis using ap s1(3) s2 by (intro exI [of _ fr] exI [of _ rm]) auto
qed

section \<open>The messages a session sends\<close>

text \<open>
  The versions that have been set, in order, with the numbers of their table files; the changes from each to the next as the
  lists of added and deleted numbers that \<^verbatim>\<open>setVersion\<close> sends; how many of the changes have been sent; which versions have been
  released; and the largest version id taken so far.
\<close>

record history =
  h_ids :: "int list"
  h_files :: "int list list"
  h_changes :: "(int list \<times> int list) list"
  h_sent :: nat
  h_gone :: "nat set"
  h_top :: int

definition h_init :: history where
  "h_init = \<lparr>h_ids = [], h_files = [], h_changes = [], h_sent = 0, h_gone = {}, h_top = -1\<rparr>"

definition change_at :: "history \<Rightarrow> nat \<Rightarrow> vDelta" where
  "change_at h k = \<lparr>d_vid = h_ids h ! k, d_added = fst (h_changes h ! k), d_deleted = snd (h_changes h ! k)\<rparr>"

text \<open>How often a file is counted after the first \<open>k\<close> changes.\<close>

definition base_count :: "history \<Rightarrow> nat \<Rightarrow> int \<Rightarrow> int" where
  "base_count h k f = sum_list (map (\<lambda>(a, d). int (count_list a f) - int (count_list d f)) (take k (h_changes h)))"

text \<open>
  What the next version and its change owe to the earlier ones: no file is deleted more often than it is counted; every file of the version is
  counted (only the version recovered from a manifest, which follows the empty first version with an empty list of
  deletions, is not); and a file that was not in the version before is a new one.
\<close>

definition accounts :: "history \<Rightarrow> int list \<Rightarrow> int list \<Rightarrow> int list \<Rightarrow> bool" where
  "accounts h fs a d \<longleftrightarrow>
     (\<forall>f. int (count_list d f) \<le> base_count h (length (h_changes h)) f + int (count_list a f)) \<and>
     (length (h_ids h) = 1 \<and> d = [] \<or>
      (\<forall>f \<in> set fs. 1 \<le> base_count h (length (h_changes h)) f + int (count_list a f) - int (count_list d f))) \<and>
     (\<forall>f \<in> set fs. f \<in> set (last (h_files h)) \<or>
        (\<forall>g \<in> set (h_files h). f \<notin> set g) \<and> (\<forall>c \<in> set (h_changes h). f \<notin> set (fst c)))"

text \<open>
  The order of the messages: \<^verbatim>\<open>setVersion\<close> references the new version, sends the change of the current one and then releases it; a version
  is released once, when its last user is done, and not while it is the current one; version ids grow.
\<close>

inductive sends :: "history \<Rightarrow> 'ik message \<Rightarrow> history \<Rightarrow> bool" where
  first: "h_ids h = [] \<Longrightarrow> task_nums t = [] \<Longrightarrow> h_top h < t_vid t \<Longrightarrow>
    sends h (RefMsg t) (h\<lparr>h_ids := [t_vid t], h_files := [[]], h_top := t_vid t\<rparr>)"
| set_version: "h_ids h \<noteq> [] \<Longrightarrow> h_sent h = length (h_changes h) \<Longrightarrow> h_top h < t_vid t \<Longrightarrow> accounts h (task_nums t) a d \<Longrightarrow>
    sends h (RefMsg t) (h\<lparr>h_ids := h_ids h @ [t_vid t], h_files := h_files h @ [task_nums t],
      h_changes := h_changes h @ [(a, d)], h_top := t_vid t\<rparr>)"
| change: "h_sent h < length (h_changes h) \<Longrightarrow>
    sends h (DeltaMsg (change_at h (h_sent h))) (h\<lparr>h_sent := h_sent h + 1\<rparr>)"
| release: "i < h_sent h \<Longrightarrow> i \<notin> h_gone h \<Longrightarrow> t_vid t = h_ids h ! i \<Longrightarrow> task_nums t = h_files h ! i \<Longrightarrow>
    sends h (RelMsg t) (h\<lparr>h_gone := insert i (h_gone h)\<rparr>)"
| abandon: "h_top h < vid \<Longrightarrow> sends h (AbandonMsg vid) (h\<lparr>h_top := vid\<rparr>)"
| timer: "sends h TimerMsg h"
| file_refs: "sends h FileRefMsg h"

text \<open>The session and the loop together; \<open>old\<close> is arbitrary in each turn.  A panic of the loop is the state \<open>None\<close>.\<close>

inductive runs :: "history \<Rightarrow> 'ik ref_loop option \<Rightarrow> bool" where
  start: "runs h_init (processTasks old loop_init)"
| turn: "runs h (Some s) \<Longrightarrow> sends h m h' \<Longrightarrow> runs h' (loop_turn old m s)"

section \<open>Properties of histories\<close>

definition hist_shape :: "history \<Rightarrow> bool" where
  "hist_shape h \<longleftrightarrow>
     length (h_files h) = length (h_ids h) \<and> length (h_changes h) = length (h_ids h) - 1 \<and>
     h_sent h \<le> length (h_changes h) \<and> length (h_changes h) \<le> h_sent h + 1 \<and>
     sorted_wrt (<) (h_ids h) \<and> list_all (\<lambda>v. v \<le> h_top h) (h_ids h) \<and> h_gone h \<subseteq> {..<h_sent h} \<and>
     (h_ids h \<noteq> [] \<longrightarrow> h_files h ! 0 = [])"

definition hist_counted :: "history \<Rightarrow> bool" where
  "hist_counted h \<longleftrightarrow>
     (\<forall>k f. 0 \<le> base_count h k f) \<and>
     (\<forall>k < length (h_ids h). 1 \<le> k \<longrightarrow>
        k = 1 \<and> snd (h_changes h ! 0) = [] \<or> (\<forall>f \<in> set (h_files h ! k). 1 \<le> base_count h k f))"

definition hist_contiguous :: "history \<Rightarrow> bool" where
  "hist_contiguous h \<longleftrightarrow>
     (\<forall>i j k f. i \<le> k \<longrightarrow> k \<le> j \<longrightarrow> j < length (h_ids h) \<longrightarrow>
        f \<in> set (h_files h ! i) \<longrightarrow> f \<in> set (h_files h ! j) \<longrightarrow> f \<in> set (h_files h ! k))"

definition hist_fresh :: "history \<Rightarrow> bool" where
  "hist_fresh h \<longleftrightarrow>
     (\<forall>j < length (h_ids h). \<forall>k < j. \<forall>f \<in> set (h_files h ! j).
        f \<in> set (h_files h ! (k + 1)) \<or> f \<notin> set (snd (h_changes h ! k)))"

definition history_ok :: "history \<Rightarrow> bool" where
  "history_ok h \<longleftrightarrow> hist_shape h \<and> hist_counted h \<and> hist_contiguous h \<and> hist_fresh h"

definition used :: "history \<Rightarrow> int \<Rightarrow> bool" where
  "used h f \<longleftrightarrow> (\<exists>g \<in> set (h_files h). f \<in> set g) \<or> (\<exists>c \<in> set (h_changes h). f \<in> set (fst c))"

lemma base_count_Suc:
  "k < length (h_changes h) \<Longrightarrow>
     base_count h (Suc k) f = base_count h k f + int (count_list (fst (h_changes h ! k)) f) - int (count_list (snd (h_changes h ! k)) f)"
  by (simp add: base_count_def take_Suc_conv_app_nth split_beta)

lemma base_count_beyond: "length (h_changes h) \<le> k \<Longrightarrow> base_count h k f = base_count h (length (h_changes h)) f"
  by (simp add: base_count_def)

lemma base_count_unused:
  assumes "\<forall>k f. 0 \<le> base_count h k f" and "\<forall>c \<in> set (h_changes h). f \<notin> set (fst c)" and "k \<le> length (h_changes h)"
  shows "base_count h k f = 0" and "j < k \<Longrightarrow> f \<notin> set (snd (h_changes h ! j))"
proof -
  have "base_count h k f = 0 \<and> (\<forall>j < k. f \<notin> set (snd (h_changes h ! j)))"
    using assms(3)
  proof (induction k)
    case 0
    then show ?case by (simp add: base_count_def)
  next
    case (Suc k)
    then have IH: "base_count h k f = 0" "\<forall>j < k. f \<notin> set (snd (h_changes h ! j))" by simp_all
    have "count_list (fst (h_changes h ! k)) f = 0" using assms(2) Suc.prems by (simp add: count_list_0_iff)
    then have b: "base_count h (Suc k) f = - int (count_list (snd (h_changes h ! k)) f)"
      using base_count_Suc [of k h f] Suc.prems IH(1) by simp
    moreover have "0 \<le> base_count h (Suc k) f" using assms(1) by blast
    ultimately have "count_list (snd (h_changes h ! k)) f = 0" by linarith
    then show ?case using IH b by (auto simp: count_list_0_iff less_Suc_eq)
  qed
  then show "base_count h k f = 0" "j < k \<Longrightarrow> f \<notin> set (snd (h_changes h ! j))" by blast+
qed

lemma history_shapeD:
  assumes "history_ok h"
  shows "length (h_files h) = length (h_ids h)" and "length (h_changes h) = length (h_ids h) - 1"
    and "h_sent h \<le> length (h_changes h)" and "length (h_changes h) \<le> h_sent h + 1"
    and "sorted_wrt (<) (h_ids h)" and "v \<in> set (h_ids h) \<Longrightarrow> v \<le> h_top h" and "h_gone h \<subseteq> {..<h_sent h}"
    and "h_ids h \<noteq> [] \<Longrightarrow> h_files h ! 0 = []"
  using assms by (simp_all add: history_ok_def hist_shape_def list_all_iff)

lemma history_countedD:
  assumes "history_ok h"
  shows "0 \<le> base_count h k f"
    and "k < length (h_ids h) \<Longrightarrow> 1 \<le> k \<Longrightarrow> k = 1 \<and> snd (h_changes h ! 0) = [] \<or> (\<forall>f \<in> set (h_files h ! k). 1 \<le> base_count h k f)"
  using assms by (simp_all add: history_ok_def hist_counted_def)

lemma history_contiguousD:
  "history_ok h \<Longrightarrow> i \<le> k \<Longrightarrow> k \<le> j \<Longrightarrow> j < length (h_ids h) \<Longrightarrow>
     f \<in> set (h_files h ! i) \<Longrightarrow> f \<in> set (h_files h ! j) \<Longrightarrow> f \<in> set (h_files h ! k)"
  by (simp only: history_ok_def hist_contiguous_def)

lemma history_freshD:
  "history_ok h \<Longrightarrow> j < length (h_ids h) \<Longrightarrow> k < j \<Longrightarrow> f \<in> set (h_files h ! j) \<Longrightarrow>
     f \<in> set (h_files h ! (k + 1)) \<or> f \<notin> set (snd (h_changes h ! k))"
  by (simp add: history_ok_def hist_fresh_def)

lemma history_ok_init: "history_ok h_init"
  by (simp add: history_ok_def hist_shape_def hist_counted_def hist_contiguous_def hist_fresh_def h_init_def base_count_def)

text \<open>A file whose count a change brings to zero is in no later version.\<close>

lemma deleted_not_later:
  assumes "history_ok h" and "k < length (h_changes h)" and "f \<in> set (snd (h_changes h ! k))" and "base_count h (Suc k) f \<le> 0"
    and "Suc k \<le> j" and "j < length (h_ids h)"
  shows "f \<notin> set (h_files h ! j)"
proof
  assume f: "f \<in> set (h_files h ! j)"
  have "f \<in> set (h_files h ! (k + 1))"
    using history_freshD [OF assms(1,6) _ f, of k] assms(3,5) by simp
  moreover have "Suc k = 1 \<and> snd (h_changes h ! 0) = [] \<or> (\<forall>f \<in> set (h_files h ! Suc k). 1 \<le> base_count h (Suc k) f)"
    using history_countedD(2) [OF assms(1), of "Suc k"] assms(5,6) by simp
  ultimately show False using assms(3,4) by auto
qed

text \<open>A file of two versions is counted in between.\<close>

lemma shared_counted:
  assumes "history_ok h" and "i < a" and "a \<le> j" and "j < length (h_ids h)"
    and "f \<in> set (h_files h ! i)" and "f \<in> set (h_files h ! j)"
  shows "1 \<le> base_count h a f"
proof -
  have "f \<in> set (h_files h ! a)" using history_contiguousD [OF assms(1) _ assms(3,4,5,6)] assms(2) by simp
  moreover have "a = 1 \<and> snd (h_changes h ! 0) = [] \<or> (\<forall>f \<in> set (h_files h ! a). 1 \<le> base_count h a f)"
    using history_countedD(2) [OF assms(1), of a] assms(2,3,4) by simp
  moreover have "a \<noteq> 1"
  proof
    assume "a = 1"
    then have "i = 0" using assms(2) by simp
    then have "f \<in> set (h_files h ! 0)" using assms(5) by simp
    moreover have "h_files h ! 0 = []" using history_shapeD(8) [OF assms(1)] assms(4) by (cases "h_ids h") auto
    ultimately show False by simp
  qed
  ultimately show ?thesis by blast
qed

lemma change_used:
  assumes "history_ok h" and "k < length (h_changes h)" and "f \<in> set (snd (h_changes h ! k))"
  shows "used h f"
proof (rule ccontr)
  assume "\<not> used h f"
  then have "\<forall>c \<in> set (h_changes h). f \<notin> set (fst c)" by (auto simp: used_def)
  moreover have "\<forall>k f. 0 \<le> base_count h k f" using history_countedD(1) [OF assms(1)] by blast
  ultimately show False using base_count_unused(2) [of h f "length (h_changes h)" k] assms(2,3) by blast
qed

lemma base_count_append:
  "h_changes h' = h_changes h @ [c] \<Longrightarrow>
     base_count h' k f = (if k \<le> length (h_changes h) then base_count h k f
       else base_count h (length (h_changes h)) f + int (count_list (fst c) f) - int (count_list (snd c) f))"
  by (auto simp: base_count_def split_beta)

lemma base_count_cong: "h_changes h' = h_changes h \<Longrightarrow> base_count h' = base_count h"
  by (simp add: base_count_def fun_eq_iff)

lemma last_file: "history_ok h \<Longrightarrow> h_ids h \<noteq> [] \<Longrightarrow> last (h_files h) = h_files h ! (length (h_ids h) - 1)"
  using history_shapeD(1) [of h] by (metis last_conv_nth length_0_conv)

lemma set_version_ok:
  assumes ok: "history_ok h" and ne: "h_ids h \<noteq> []" and sent: "h_sent h = length (h_changes h)" and top: "h_top h < v"
    and acc: "accounts h fs a d"
    and h': "h' = h\<lparr>h_ids := h_ids h @ [v], h_files := h_files h @ [fs], h_changes := h_changes h @ [(a, d)], h_top := v\<rparr>"
  shows "history_ok h'"
proof -
  let ?n = "length (h_ids h)"
  note shape = history_shapeD [OF ok]
  have n: "?n = Suc (length (h_changes h))" "0 < ?n" using shape(2) ne by (cases "h_ids h"; simp)+
  have bc: "base_count h' k f = (if k \<le> length (h_changes h) then base_count h k f
      else base_count h (length (h_changes h)) f + int (count_list a f) - int (count_list d f))" for k f
    using base_count_append [of h' h "(a, d)"] by (simp add: h')
  have files: "h_files h' ! k = (if k < ?n then h_files h ! k else fs)" if "k \<le> ?n" for k
    using that shape(1) by (auto simp: h' nth_append)
  have changes: "h_changes h' ! k = (if k < length (h_changes h) then h_changes h ! k else (a, d))" if "k < ?n" for k
    using that n by (auto simp: h' nth_append)
  have fs: "f \<in> set (h_files h ! (?n - 1)) \<or> (\<forall>i < ?n. f \<notin> set (h_files h ! i)) \<and> (\<forall>c \<in> set (h_changes h). f \<notin> set (fst c))"
    if "f \<in> set fs" for f
  proof -
    have "f \<in> set (last (h_files h)) \<or> (\<forall>g \<in> set (h_files h). f \<notin> set g) \<and> (\<forall>c \<in> set (h_changes h). f \<notin> set (fst c))"
      using acc that by (simp add: accounts_def)
    then show ?thesis unfolding last_file [OF ok ne] by (auto simp: shape(1))
  qed
  have lt: "\<forall>x \<in> set (h_ids h). x < v" using shape(6) top by fastforce
  have "hist_shape h'"
    unfolding hist_shape_def
  proof (intro conjI)
    show "length (h_files h') = length (h_ids h')" using shape(1) by (simp add: h')
    show "length (h_changes h') = length (h_ids h') - 1" using n by (simp add: h')
    show "h_sent h' \<le> length (h_changes h')" "length (h_changes h') \<le> h_sent h' + 1" using sent by (simp_all add: h')
    show "sorted_wrt (<) (h_ids h')" using shape(5) lt by (simp add: h' sorted_wrt_append)
    show "list_all (\<lambda>v. v \<le> h_top h') (h_ids h')" using lt by (auto simp: h' list_all_iff)
    show "h_gone h' \<subseteq> {..<h_sent h'}" using shape(7) by (simp add: h')
    show "h_ids h' \<noteq> [] \<longrightarrow> h_files h' ! 0 = []" using shape(8) [OF ne] n files [of 0] by simp
  qed
  moreover have "hist_counted h'"
    unfolding hist_counted_def
  proof (intro conjI allI impI)
    show "0 \<le> base_count h' k f" for k f
      using history_countedD(1) [OF ok] acc by (auto simp: bc accounts_def algebra_simps)
    show "k = 1 \<and> snd (h_changes h' ! 0) = [] \<or> (\<forall>f \<in> set (h_files h' ! k). 1 \<le> base_count h' k f)"
      if "k < length (h_ids h')" "1 \<le> k" for k
    proof (cases "k < ?n")
      case True
      then have "0 < length (h_changes h)" using that(2) n by linarith
      then show ?thesis using history_countedD(2) [OF ok True that(2)] True that n by (simp add: files changes bc)
    next
      case False
      then have "k = ?n" using that(1) by (simp add: h')
      then show ?thesis using acc n by (auto simp: accounts_def files changes bc)
    qed
  qed
  moreover have "hist_contiguous h'"
    unfolding hist_contiguous_def
  proof (intro allI impI)
    fix i j k f
    assume *: "i \<le> k" "k \<le> j" "j < length (h_ids h')" "f \<in> set (h_files h' ! i)" "f \<in> set (h_files h' ! j)"
    have jn: "j \<le> ?n" using *(3) by (simp add: h')
    show "f \<in> set (h_files h' ! k)"
    proof (cases "k < ?n \<and> j = ?n")
      case True
      then have "f \<in> set fs" "f \<in> set (h_files h ! i)" using * by (simp_all add: files)
      then have "f \<in> set (h_files h ! (?n - 1))" using fs [of f] True *(1) by auto
      then show ?thesis
        using history_contiguousD [OF ok *(1), of "?n - 1" f] \<open>f \<in> set (h_files h ! i)\<close> True n by (simp add: files)
    next
      case False
      then consider "k = ?n" "j = ?n" | "j < ?n" using jn *(2) by linarith
      then show ?thesis
      proof cases
        case 2
        then show ?thesis using history_contiguousD [OF ok *(1,2)] * by (simp add: files)
      qed (use *(5) in simp)
    qed
  qed
  moreover have "hist_fresh h'"
    unfolding hist_fresh_def
  proof (intro allI impI ballI)
    fix j k f
    assume *: "j < length (h_ids h')" "k < j" "f \<in> set (h_files h' ! j)"
    show "f \<in> set (h_files h' ! (k + 1)) \<or> f \<notin> set (snd (h_changes h' ! k))"
    proof (cases "j < ?n")
      case True
      then show ?thesis using history_freshD [OF ok True *(2)] * n by (simp add: files changes)
    next
      case False
      then have j: "j = ?n" using *(1) by (simp add: h')
      then have f: "f \<in> set fs" using *(3) by (simp add: files)
      show ?thesis
      proof (cases "k + 1 = ?n")
        case True
        then show ?thesis using f by (simp add: files)
      next
        case False
        then have k: "k + 1 < ?n" "k < length (h_changes h)" using *(2) j n by simp_all
        from fs [OF f] show ?thesis
        proof
          assume "f \<in> set (h_files h ! (?n - 1))"
          then show ?thesis using history_freshD [OF ok, of "?n - 1" k f] k n by (simp add: files changes)
        next
          assume "(\<forall>i < ?n. f \<notin> set (h_files h ! i)) \<and> (\<forall>c \<in> set (h_changes h). f \<notin> set (fst c))"
          then have "f \<notin> set (snd (h_changes h ! k))"
            using base_count_unused(2) [of h f "length (h_changes h)" k] history_countedD(1) [OF ok] k by blast
          then show ?thesis using k n by (simp add: changes)
        qed
      qed
    qed
  qed
  ultimately show ?thesis by (simp add: history_ok_def)
qed

lemma history_ok_cong:
  assumes "history_ok h" and "h_ids h' = h_ids h" and "h_files h' = h_files h" and "h_changes h' = h_changes h" and "hist_shape h'"
  shows "history_ok h'"
  using assms base_count_cong [of h' h]
  by (simp add: history_ok_def hist_counted_def hist_contiguous_def hist_fresh_def)

lemma sends_ok: "sends h m h' \<Longrightarrow> history_ok h \<Longrightarrow> history_ok h'"
proof (induction rule: sends.induct)
  case (first h t)
  have "h_changes h = []" using history_shapeD(2) [OF first(4)] first(1) by simp
  then show ?case
    using history_shapeD [OF first(4)] first(1)
    by (auto simp: history_ok_def hist_shape_def hist_counted_def hist_contiguous_def hist_fresh_def base_count_def)
next
  case (set_version h t a d)
  from set_version_ok [OF set_version(5,1,2,3,4) refl] show ?case .
next
  case (change h)
  show ?case
    by (rule history_ok_cong [OF change(2)]) (use change in \<open>auto simp: history_ok_def hist_shape_def\<close>)
next
  case (release i h t)
  show ?case
    by (rule history_ok_cong [OF release(5)]) (use release in \<open>auto simp: history_ok_def hist_shape_def\<close>)
next
  case (abandon h vid)
  show ?case
    by (rule history_ok_cong [OF abandon(2)])
      (use abandon in \<open>auto simp: history_ok_def hist_shape_def list_all_iff intro: order_trans [OF _ less_imp_le]\<close>)
qed simp_all

section \<open>The invariant of the loop\<close>

text \<open>The versions with index below \<open>b\<close> have been processed; the next id lies between theirs and the others'.\<close>

definition at_index :: "history \<Rightarrow> nat \<Rightarrow> 'ik ref_loop \<Rightarrow> bool" where
  "at_index h b s \<longleftrightarrow> b \<le> length (h_ids h) \<and> (\<forall>i < length (h_ids h). h_ids h ! i < next_id s \<longleftrightarrow> i < b) \<and> next_id s \<le> h_top h + 1"

text \<open>Unprocessed versions wait in \<^verbatim>\<open>ref\<close> with their delta, or in \<^verbatim>\<open>released\<close> with it; processed ones in use are \<^verbatim>\<open>referenced\<close>.\<close>

definition refs_ok :: "history \<Rightarrow> nat \<Rightarrow> 'ik ref_loop \<Rightarrow> bool" where
  "refs_ok h b s \<longleftrightarrow>
     (\<forall>i. b \<le> i \<longrightarrow> i < length (h_ids h) \<longrightarrow> i \<notin> h_gone h \<longrightarrow>
        (\<exists>t. map_of (refs s) (h_ids h ! i) = Some t \<and> task_nums t = h_files h ! i) \<and>
        deltas s (h_ids h ! i) = (if i < h_sent h then Some (change_at h i) else None)) \<and>
     (\<forall>v. map_of (refs s) v \<noteq> None \<longrightarrow> (\<exists>i. b \<le> i \<and> i < length (h_ids h) \<and> i \<notin> h_gone h \<and> h_ids h ! i = v)) \<and>
     (\<forall>v. deltas s v \<noteq> None \<longrightarrow> v \<in> set (h_ids h))"

definition released_ok :: "history \<Rightarrow> nat \<Rightarrow> 'ik ref_loop \<Rightarrow> bool" where
  "released_ok h b s \<longleftrightarrow>
     (\<forall>i. b \<le> i \<longrightarrow> i \<in> h_gone h \<longrightarrow> map_of (released s) (h_ids h ! i) = Some (Some (change_at h i))) \<and>
     (\<forall>v. map_of (released s) v \<noteq> None \<longrightarrow> (\<exists>i. b \<le> i \<and> i \<in> h_gone h \<and> h_ids h ! i = v))"

definition referenced_ok :: "history \<Rightarrow> nat \<Rightarrow> 'ik ref_loop \<Rightarrow> bool" where
  "referenced_ok h b s \<longleftrightarrow> set (referenced s) = {h_ids h ! i |i. i < b \<and> i \<notin> h_gone h}"

definition abandoned_ok :: "history \<Rightarrow> 'ik ref_loop \<Rightarrow> bool" where
  "abandoned_ok h s \<longleftrightarrow> (\<forall>v \<in> set (abandoned s). v \<notin> set (h_ids h) \<and> v \<le> h_top h)"

definition full_count :: "history \<Rightarrow> nat \<Rightarrow> int \<Rightarrow> int" where
  "full_count h b f = (\<Sum>i \<in> {i. i < b \<and> i \<notin> h_gone h}. int (count_list (h_files h ! i) f))"

definition counts_ok :: "history \<Rightarrow> nat \<Rightarrow> 'ik ref_loop \<Rightarrow> bool" where
  "counts_ok h b s \<longleftrightarrow> (\<forall>f. count_of s f = base_count h (min b (h_sent h)) f + full_count h b f)"

text \<open>No removed file belongs to a version that is not released.\<close>

definition files_kept :: "history \<Rightarrow> 'ik ref_loop \<Rightarrow> bool" where
  "files_kept h s \<longleftrightarrow>
     (\<forall>f \<in> set (removed s). used h f \<and> (\<forall>i < length (h_ids h). i \<notin> h_gone h \<longrightarrow> f \<notin> set (h_files h ! i)))"

definition loop_inv :: "history \<Rightarrow> nat \<Rightarrow> 'ik ref_loop \<Rightarrow> bool" where
  "loop_inv h b s \<longleftrightarrow> at_index h b s \<and> refs_ok h b s \<and> released_ok h b s \<and> referenced_ok h b s \<and> abandoned_ok h s \<and>
     counts_ok h b s \<and> files_kept h s"

lemmas loop_inv_parts = loop_inv_def at_index_def refs_ok_def released_ok_def referenced_ok_def abandoned_ok_def counts_ok_def files_kept_def

lemma refs_okD:
  assumes "refs_ok h b s"
  shows "b \<le> i \<Longrightarrow> i < length (h_ids h) \<Longrightarrow> i \<notin> h_gone h \<Longrightarrow>
      \<exists>t. map_of (refs s) (h_ids h ! i) = Some t \<and> task_nums t = h_files h ! i"
    and "b \<le> i \<Longrightarrow> i < length (h_ids h) \<Longrightarrow> i \<notin> h_gone h \<Longrightarrow>
      deltas s (h_ids h ! i) = (if i < h_sent h then Some (change_at h i) else None)"
    and "map_of (refs s) v = Some t \<Longrightarrow> \<exists>i. b \<le> i \<and> i < length (h_ids h) \<and> i \<notin> h_gone h \<and> h_ids h ! i = v"
    and "deltas s v = Some d \<Longrightarrow> v \<in> set (h_ids h)"
  using assms by (simp_all add: refs_ok_def)

lemma refs_okI:
  assumes "\<And>i. b \<le> i \<Longrightarrow> i < length (h_ids h) \<Longrightarrow> i \<notin> h_gone h \<Longrightarrow>
      \<exists>t. map_of (refs s) (h_ids h ! i) = Some t \<and> task_nums t = h_files h ! i"
    and "\<And>i. b \<le> i \<Longrightarrow> i < length (h_ids h) \<Longrightarrow> i \<notin> h_gone h \<Longrightarrow>
      deltas s (h_ids h ! i) = (if i < h_sent h then Some (change_at h i) else None)"
    and "\<And>v t. map_of (refs s) v = Some t \<Longrightarrow> \<exists>i. b \<le> i \<and> i < length (h_ids h) \<and> i \<notin> h_gone h \<and> h_ids h ! i = v"
    and "\<And>v d. deltas s v = Some d \<Longrightarrow> v \<in> set (h_ids h)"
  shows "refs_ok h b s"
  unfolding refs_ok_def not_None_eq using assms by blast

lemma released_okD:
  assumes "released_ok h b s"
  shows "b \<le> i \<Longrightarrow> i \<in> h_gone h \<Longrightarrow> map_of (released s) (h_ids h ! i) = Some (Some (change_at h i))"
    and "map_of (released s) v = Some d \<Longrightarrow> \<exists>i. b \<le> i \<and> i \<in> h_gone h \<and> h_ids h ! i = v"
  using assms by (simp_all add: released_ok_def)

lemma released_okI:
  assumes "\<And>i. b \<le> i \<Longrightarrow> i \<in> h_gone h \<Longrightarrow> map_of (released s) (h_ids h ! i) = Some (Some (change_at h i))"
    and "\<And>v d. map_of (released s) v = Some d \<Longrightarrow> \<exists>i. b \<le> i \<and> i \<in> h_gone h \<and> h_ids h ! i = v"
  shows "released_ok h b s"
  unfolding released_ok_def not_None_eq using assms by blast

lemma full_count_Suc:
  "full_count h (Suc b) f = full_count h b f + (if b \<in> h_gone h then 0 else int (count_list (h_files h ! b) f))"
proof -
  have "{i. i < Suc b \<and> i \<notin> h_gone h} = (if b \<in> h_gone h then {} else {b}) \<union> {i. i < b \<and> i \<notin> h_gone h}" by (auto simp: less_Suc_eq)
  then show ?thesis by (simp add: full_count_def)
qed

lemma full_count_gone:
  assumes "i < b" and "i \<notin> h_gone h"
  shows "full_count h b f = int (count_list (h_files h ! i) f) + full_count (h\<lparr>h_gone := insert i (h_gone h)\<rparr>) b f"
proof -
  have "{j. j < b \<and> j \<notin> h_gone h} = insert i {j. j < b \<and> j \<notin> insert i (h_gone h)}" using assms by auto
  then show ?thesis by (simp add: full_count_def)
qed

lemma full_count_nonneg: "0 \<le> full_count h b f"
  by (simp add: full_count_def sum_nonneg)

lemma full_count_pos:
  assumes "i < b" and "i \<notin> h_gone h" and "f \<in> set (h_files h ! i)"
  shows "1 \<le> full_count h b f"
proof -
  have "1 \<le> int (count_list (h_files h ! i) f)" using assms(3) count_list_0_iff [of "h_files h ! i" f] by simp
  then show ?thesis using full_count_gone [OF assms(1,2), of f] full_count_nonneg [of "h\<lparr>h_gone := insert i (h_gone h)\<rparr>" b f] by linarith
qed

lemma inv_nonneg:
  assumes "history_ok h" and "counts_ok h b s"
  shows "nonneg s"
  using assms history_countedD(1) [OF assms(1)] by (simp add: nonneg_def counts_ok_def full_count_nonneg add_nonneg_nonneg)

lemma ids_inj:
  assumes "history_ok h" and "i < length (h_ids h)" and "j < length (h_ids h)" and "h_ids h ! i = h_ids h ! j"
  shows "i = j"
  using history_shapeD(5) [OF assms(1)] assms(2-4)
  by (metis distinct_conv_nth strict_sorted_iff)

lemma gone_less: "history_ok h \<Longrightarrow> i \<in> h_gone h \<Longrightarrow> i < h_sent h \<and> i < length (h_ids h)"
  using history_shapeD(2,3,7) [of h] by fastforce

text \<open>The next id belongs to version \<open>b\<close> if it belongs to an unprocessed one.\<close>

lemma next_is_b:
  assumes "history_ok h" and "at_index h b s" and "b \<le> i" and "i < length (h_ids h)" and "h_ids h ! i = next_id s"
  shows "i = b"
proof (rule ccontr)
  assume "i \<noteq> b"
  then have "b < i" using assms(3) by simp
  then have "h_ids h ! b < next_id s"
    using sorted_wrt_nth_less [OF history_shapeD(5) [OF assms(1)] _ assms(4), of b] assms(5) by simp
  then show False using assms(2,4) \<open>b < i\<close> by (simp add: at_index_def)
qed

lemma skip_inv:
  assumes "history_ok h" and "loop_inv h b s" and "next_id s \<in> set (abandoned s)"
  shows "loop_inv h b (s\<lparr>abandoned := removeAll (next_id s) (abandoned s), next_id := next_id s + 1\<rparr>)"
proof -
  have "next_id s \<notin> set (h_ids h)" "next_id s \<le> h_top h" using assms(2,3) by (auto simp: loop_inv_def abandoned_ok_def)
  then have "h_ids h ! i < next_id s + 1 \<longleftrightarrow> h_ids h ! i < next_id s" if "i < length (h_ids h)" for i
    using nth_mem [OF that] by (metis zless_add1_eq)
  then show ?thesis using assms(2) \<open>next_id s \<le> h_top h\<close>
    by (auto simp: loop_inv_parts count_of_def)
qed

lemma at_index_Suc:
  assumes "history_ok h" and "at_index h b s" and "b < length (h_ids h)" and "h_ids h ! b = next_id s" and "next_id s' = next_id s + 1"
  shows "at_index h (Suc b) s'"
proof -
  have "h_ids h ! i < next_id s + 1 \<longleftrightarrow> i < Suc b" if "i < length (h_ids h)" for i
    using assms(2,4) ids_inj [OF assms(1) that assms(3)] that by (auto simp: at_index_def less_Suc_eq zless_add1_eq)
  moreover have "next_id s \<le> h_top h" using history_shapeD(6) [OF assms(1) nth_mem [OF assms(3)]] assms(4) by simp
  ultimately show ?thesis using assms(3,5) by (simp add: at_index_def)
qed

text \<open>Applying the change of version \<open>k\<close>.\<close>

lemma apply_change:
  assumes "history_ok h" and "k < length (h_changes h)" and "\<forall>f. base_count h k f \<le> count_of s f" and "nonneg s"
  shows "\<exists>fr rm. applyDelta (change_at h k) s = Some (s\<lparr>fileRef := fr, removed := rm\<rparr>) \<and>
    (\<forall>f. count_of (s\<lparr>fileRef := fr, removed := rm\<rparr>) f = count_of s f + base_count h (Suc k) f - base_count h k f) \<and>
    set rm = set (removed s) \<union> {f \<in> set (snd (h_changes h ! k)). count_of (s\<lparr>fileRef := fr, removed := rm\<rparr>) f = 0}"
proof -
  have "int (count_list (d_deleted (change_at h k)) f) \<le> count_of s f + int (count_list (d_added (change_at h k)) f)" for f
    using base_count_Suc [OF assms(2), of f] history_countedD(1) [OF assms(1), of "Suc k" f] assms(3) [rule_format, of f]
    by (simp add: change_at_def)
  from applyDelta_count [OF assms(4), of "change_at h k"] this obtain fr rm where
    r: "applyDelta (change_at h k) s = Some (s\<lparr>fileRef := fr, removed := rm\<rparr>)"
    "\<forall>f. count_of (s\<lparr>fileRef := fr, removed := rm\<rparr>) f =
       count_of s f + int (count_list (d_added (change_at h k)) f) - int (count_list (d_deleted (change_at h k)) f)"
    "set rm = set (removed s) \<union> {f \<in> set (d_deleted (change_at h k)). count_of (s\<lparr>fileRef := fr, removed := rm\<rparr>) f = 0}"
    by blast
  then show ?thesis
    using base_count_Suc [OF assms(2)] by (intro exI [of _ fr] exI [of _ rm]) (simp add: change_at_def)
qed

lemma kept_after_change:
  assumes "history_ok h" and "files_kept h s" and "k < length (h_changes h)" and "Suc k \<le> b"
    and "\<forall>f. count_of s' f = base_count h (Suc k) f + full_count h b f"
    and "set (removed s') = set (removed s) \<union> {f \<in> set (snd (h_changes h ! k)). count_of s' f = 0}"
  shows "files_kept h s'"
proof -
  have "used h f \<and> (\<forall>i < length (h_ids h). i \<notin> h_gone h \<longrightarrow> f \<notin> set (h_files h ! i))"
    if f: "f \<in> set (snd (h_changes h ! k))" "count_of s' f = 0" for f
  proof (intro conjI allI impI)
    show "used h f" by (rule change_used [OF assms(1,3) f(1)])
    fix i
    assume i: "i < length (h_ids h)" "i \<notin> h_gone h"
    have zero: "base_count h (Suc k) f \<le> 0" "full_count h b f \<le> 0"
      using assms(5) [rule_format, of f] f(2) history_countedD(1) [OF assms(1), of "Suc k" f] full_count_nonneg [of h b f] by linarith+
    show "f \<notin> set (h_files h ! i)"
    proof (cases "i < b")
      case True
      then show ?thesis using full_count_pos [OF True i(2)] zero(2) by fastforce
    next
      case False
      then show ?thesis using deleted_not_later [OF assms(1,3) f(1) zero(1) _ i(1)] assms(4) by simp
    qed
  qed
  then show ?thesis using assms(2,6) by (auto simp: files_kept_def)
qed

lemma convert_counts:
  assumes "history_ok h" and inv: "loop_inv h b s" and t: "map_of (refs s) (next_id s) = Some t"
  shows "\<exists>s'. convert_one t s = Some s' \<and> b < length (h_ids h) \<and> b \<notin> h_gone h \<and> h_ids h ! b = next_id s \<and>
    counts_ok h (Suc b) s' \<and> files_kept h s'"
proof -
  obtain i where "b \<le> i" "i < length (h_ids h)" "i \<notin> h_gone h" "h_ids h ! i = next_id s"
    using inv refs_okD(3) [OF _ t] by (auto simp: loop_inv_def)
  then have b: "b < length (h_ids h)" "b \<notin> h_gone h" "h_ids h ! b = next_id s"
    using next_is_b [OF assms(1)] inv by (auto simp: loop_inv_def)
  have files: "task_nums t = h_files h ! b" and delta: "deltas s (next_id s) = (if b < h_sent h then Some (change_at h b) else None)"
    using refs_okD(1,2) [of h b s b] inv b t by (auto simp: loop_inv_def)
  have cnt: "count_of s f = base_count h (min b (h_sent h)) f + full_count h b f" for f
    using inv by (simp add: loop_inv_def counts_ok_def)
  have "nonneg s" using inv inv_nonneg [OF assms(1), of b s] by (simp add: loop_inv_def)
  from add_files_count [OF this, of "task_nums t"] obtain s1 where s1: "add_files (task_nums t) s = Some s1" "nonneg s1"
    "\<forall>f. count_of s1 f = count_of s f + int (count_list (h_files h ! b) f)" by (auto simp: files)
  then obtain fr where fr: "s1 = s\<lparr>fileRef := fr\<rparr>" using add_files_frame by blast
  have full: "count_of s1 f = base_count h (min b (h_sent h)) f + full_count h (Suc b) f" for f
    using s1(3) cnt b(2) by (simp add: full_count_Suc)
  have kept: "files_kept h s" using inv by (simp add: loop_inv_def)
  show ?thesis
  proof (cases "b < h_sent h")
    case True
    then have k: "b < length (h_changes h)" using history_shapeD(3) [OF assms(1)] by simp
    have "\<forall>f. base_count h b f \<le> count_of s1 f" using full True full_count_nonneg by (simp add: min_absorb1)
    from apply_change [OF assms(1) k this s1(2)] obtain fr' rm where
      s2: "applyDelta (change_at h b) s1 = Some (s1\<lparr>fileRef := fr', removed := rm\<rparr>)"
      "\<forall>f. count_of (s1\<lparr>fileRef := fr', removed := rm\<rparr>) f = count_of s1 f + base_count h (Suc b) f - base_count h b f"
      "set rm = set (removed s1) \<union> {f \<in> set (snd (h_changes h ! b)). count_of (s1\<lparr>fileRef := fr', removed := rm\<rparr>) f = 0}"
      by blast
    define s2' where "s2' = s1\<lparr>fileRef := fr', removed := rm\<rparr>"
    have c2: "\<forall>f. count_of s2' f = base_count h (Suc b) f + full_count h (Suc b) f"
      using s2(2) full True by (simp add: s2'_def min_absorb1)
    have "files_kept h s2'"
      using kept_after_change [OF assms(1) kept k, of "Suc b" s2'] c2 s2(3) fr by (simp add: s2'_def)
    then show ?thesis
      using s1(1) s2(1) c2 b delta True fr
      by (auto simp: convert_one_def s2'_def [symmetric] counts_ok_def files_kept_def count_of_def s2'_def Suc_leI min_absorb1)
  next
    case False
    then show ?thesis
      using s1(1) full b delta fr kept by (auto simp: convert_one_def counts_ok_def files_kept_def count_of_def min_absorb2)
  qed
qed

lemma convert_inv:
  assumes "history_ok h" and inv: "loop_inv h b s" and t: "map_of (refs s) (next_id s) = Some t"
  shows "\<exists>s'. convert_one t s = Some s' \<and> loop_inv h (Suc b) s'"
proof -
  obtain s' where s': "convert_one t s = Some s'" "counts_ok h (Suc b) s'" "files_kept h s'"
    and b: "b < length (h_ids h)" "b \<notin> h_gone h" "h_ids h ! b = next_id s"
    using convert_counts [OF assms] by blast
  obtain fr rm where fr: "s' = s\<lparr>fileRef := fr, removed := rm, referenced := List.insert (next_id s) (referenced s),
      refs := AList.delete (next_id s) (refs s), deltas := (deltas s)(next_id s := None), next_id := next_id s + 1\<rparr>"
    using convert_one_frame [OF s'(1)] by blast
  have parts: "at_index h b s" "refs_ok h b s" "released_ok h b s" "referenced_ok h b s" "abandoned_ok h s"
    using inv by (simp_all add: loop_inv_def)
  have other: "h_ids h ! i \<noteq> next_id s" if "Suc b \<le> i" "i < length (h_ids h)" for i
    using ids_inj [OF assms(1) that(2) b(1)] that(1) b(3) by auto
  have "refs_ok h (Suc b) s'"
  proof (rule refs_okI)
    show "\<exists>t. map_of (refs s') (h_ids h ! i) = Some t \<and> task_nums t = h_files h ! i"
      "deltas s' (h_ids h ! i) = (if i < h_sent h then Some (change_at h i) else None)"
      if "Suc b \<le> i" "i < length (h_ids h)" "i \<notin> h_gone h" for i
      using refs_okD(1,2) [OF parts(2), of i] other [OF that(1,2)] that by (simp_all add: fr)
    show "\<exists>i. Suc b \<le> i \<and> i < length (h_ids h) \<and> i \<notin> h_gone h \<and> h_ids h ! i = v" if "map_of (refs s') v = Some t" for v t
    proof -
      have v: "v \<noteq> next_id s" "map_of (refs s) v = Some t" using that by (auto simp: fr delete_conv' split: if_splits)
      then obtain i where "b \<le> i" "i < length (h_ids h)" "i \<notin> h_gone h" "h_ids h ! i = v" using refs_okD(3) [OF parts(2)] by blast
      moreover have "i \<noteq> b" using v(1) b(3) \<open>h_ids h ! i = v\<close> by auto
      ultimately show ?thesis by (auto intro!: exI [of _ i])
    qed
    show "v \<in> set (h_ids h)" if "deltas s' v = Some d" for v d
      using refs_okD(4) [OF parts(2)] that by (auto simp: fr split: if_splits)
  qed
  moreover have "released_ok h (Suc b) s'"
  proof (rule released_okI)
    show "map_of (released s') (h_ids h ! i) = Some (Some (change_at h i))" if "Suc b \<le> i" "i \<in> h_gone h" for i
      using released_okD(1) [OF parts(3), of i] that by (simp add: fr)
    show "\<exists>i. Suc b \<le> i \<and> i \<in> h_gone h \<and> h_ids h ! i = v" if m: "map_of (released s') v = Some d" for v d
    proof -
      obtain i where "b \<le> i" "i \<in> h_gone h" "h_ids h ! i = v" using released_okD(2) [OF parts(3), of v d] m by (auto simp: fr)
      moreover have "i \<noteq> b" using b(2) \<open>i \<in> h_gone h\<close> by auto
      ultimately show ?thesis by (auto intro!: exI [of _ i])
    qed
  qed
  moreover have "{h_ids h ! i |i. i < Suc b \<and> i \<notin> h_gone h} = insert (h_ids h ! b) {h_ids h ! i |i. i < b \<and> i \<notin> h_gone h}"
    using b(2) by (auto simp: less_Suc_eq)
  then have "referenced_ok h (Suc b) s'" using parts(4) b(3) by (simp add: fr referenced_ok_def)
  moreover have "at_index h (Suc b) s'" by (rule at_index_Suc [OF assms(1) parts(1) b(1,3)]) (simp add: fr)
  moreover have "abandoned_ok h s'" using parts(5) by (simp add: abandoned_ok_def fr)
  ultimately show ?thesis using s' by (auto simp: loop_inv_def)
qed

lemma convert_tasks_inv:
  assumes "history_ok h" and "loop_inv h b s"
  shows "\<exists>s' b'. convert_tasks old s = Some s' \<and> loop_inv h b' s'"
  using assms(2)
proof (induction old s arbitrary: b rule: convert_tasks.induct)
  case (1 old s)
  consider (skip) "next_id s \<in> set (abandoned s)"
    | (stop) "next_id s \<notin> set (abandoned s)" "map_of (released s) (next_id s) \<noteq> None \<or> map_of (refs s) (next_id s) = None \<or>
        last_id s - next_id s < maxCachedNumber \<and> \<not> old (next_id s)"
    | (convert) t where "next_id s \<notin> set (abandoned s)" "map_of (released s) (next_id s) = None" "map_of (refs s) (next_id s) = Some t"
        "\<not> (last_id s - next_id s < maxCachedNumber \<and> \<not> old (next_id s))"
    by (cases "map_of (refs s) (next_id s)") auto
  then show ?case
  proof cases
    case skip
    then show ?thesis using "1.IH"(1) [OF skip skip_inv [OF assms(1) "1.prems" skip]] by (subst convert_tasks.simps) simp
  next
    case stop
    then have "convert_tasks old s = Some s" by (subst convert_tasks.simps) (auto split: option.split)
    then show ?thesis using "1.prems" by blast
  next
    case (convert t)
    obtain s' where s': "convert_one t s = Some s'" "loop_inv h (Suc b) s'"
      using convert_inv [OF assms(1) "1.prems" convert(3)] by blast
    have "\<not> map_of (released s) (next_id s) \<noteq> None" using convert(2) by simp
    from "1.IH"(2) [OF convert(1) this convert(3,4) s'] show ?thesis
      using convert s'(1) by (subst convert_tasks.simps) auto
  qed
qed

lemma release_counts:
  assumes "history_ok h" and inv: "loop_inv h b s" and d: "map_of (released s) (next_id s) = Some d"
  shows "\<exists>fr rm. d = Some (change_at h b) \<and> applyDelta (change_at h b) s = Some (s\<lparr>fileRef := fr, removed := rm\<rparr>) \<and>
    b \<in> h_gone h \<and> h_ids h ! b = next_id s \<and>
    counts_ok h (Suc b) (s\<lparr>fileRef := fr, removed := rm\<rparr>) \<and> files_kept h (s\<lparr>fileRef := fr, removed := rm\<rparr>)"
proof -
  have parts: "at_index h b s" "released_ok h b s" "counts_ok h b s" "files_kept h s" using inv by (simp_all add: loop_inv_def)
  obtain i where i: "b \<le> i" "i \<in> h_gone h" "h_ids h ! i = next_id s" using released_okD(2) [OF parts(2) d] by blast
  then have "i = b" using next_is_b [OF assms(1) parts(1) i(1)] gone_less [OF assms(1) i(2)] by blast
  then have b: "b \<in> h_gone h" "h_ids h ! b = next_id s" "b < h_sent h" using i gone_less [OF assms(1) i(2)] by auto
  then have k: "b < length (h_changes h)" using history_shapeD(3) [OF assms(1)] by simp
  have cnt: "count_of s f = base_count h b f + full_count h b f" for f
    using parts(3) b(3) by (simp add: counts_ok_def min_absorb1)
  then have "\<forall>f. base_count h b f \<le> count_of s f" using full_count_nonneg by simp
  from apply_change [OF assms(1) k this inv_nonneg [OF assms(1) parts(3)]] obtain fr rm where
    s2: "applyDelta (change_at h b) s = Some (s\<lparr>fileRef := fr, removed := rm\<rparr>)"
    "\<forall>f. count_of (s\<lparr>fileRef := fr, removed := rm\<rparr>) f = count_of s f + base_count h (Suc b) f - base_count h b f"
    "set rm = set (removed s) \<union> {f \<in> set (snd (h_changes h ! b)). count_of (s\<lparr>fileRef := fr, removed := rm\<rparr>) f = 0}"
    by blast
  have c2: "\<forall>f. count_of (s\<lparr>fileRef := fr, removed := rm\<rparr>) f = base_count h (Suc b) f + full_count h (Suc b) f"
    using s2(2) cnt b(1) by (simp add: full_count_Suc)
  then have "files_kept h (s\<lparr>fileRef := fr, removed := rm\<rparr>)"
    using kept_after_change [OF assms(1) parts(4) k, of "Suc b" "s\<lparr>fileRef := fr, removed := rm\<rparr>"] s2(3) by simp
  moreover have "d = Some (change_at h b)" using released_okD(1) [OF parts(2), of b] b d by simp
  moreover have "min (Suc b) (h_sent h) = Suc b" using b(3) by simp
  ultimately show ?thesis using s2(1) b c2 by (intro exI [of _ fr] exI [of _ rm]) (simp add: counts_ok_def)
qed

lemma release_inv:
  assumes "history_ok h" and inv: "loop_inv h b s" and d: "map_of (released s) (next_id s) = Some d"
  shows "\<exists>s'. d = Some (change_at h b) \<and> applyDelta (change_at h b) s = Some s' \<and>
    loop_inv h (Suc b) (s'\<lparr>released := AList.delete (next_id s') (released s'), next_id := next_id s' + 1\<rparr>)"
proof -
  obtain fr rm where r: "d = Some (change_at h b)" "applyDelta (change_at h b) s = Some (s\<lparr>fileRef := fr, removed := rm\<rparr>)"
    and b: "b \<in> h_gone h" "h_ids h ! b = next_id s"
    and ok: "counts_ok h (Suc b) (s\<lparr>fileRef := fr, removed := rm\<rparr>)" "files_kept h (s\<lparr>fileRef := fr, removed := rm\<rparr>)"
    using release_counts [OF assms] by blast
  define s' where "s' = s\<lparr>fileRef := fr, removed := rm, released := AList.delete (next_id s) (released s), next_id := next_id s + 1\<rparr>"
  have parts: "at_index h b s" "refs_ok h b s" "released_ok h b s" "referenced_ok h b s" "abandoned_ok h s"
    using inv by (simp_all add: loop_inv_def)
  have bn: "b < length (h_ids h)" using gone_less [OF assms(1) b(1)] by simp
  have "refs_ok h (Suc b) s'"
  proof (rule refs_okI)
    show "\<exists>t. map_of (refs s') (h_ids h ! i) = Some t \<and> task_nums t = h_files h ! i"
      "deltas s' (h_ids h ! i) = (if i < h_sent h then Some (change_at h i) else None)"
      if "Suc b \<le> i" "i < length (h_ids h)" "i \<notin> h_gone h" for i
      using refs_okD(1,2) [OF parts(2), of i] that by (simp_all add: s'_def)
    show "\<exists>i. Suc b \<le> i \<and> i < length (h_ids h) \<and> i \<notin> h_gone h \<and> h_ids h ! i = v" if m: "map_of (refs s') v = Some t" for v t
    proof -
      obtain i where "b \<le> i" "i < length (h_ids h)" "i \<notin> h_gone h" "h_ids h ! i = v"
        using refs_okD(3) [OF parts(2), of v t] m by (auto simp: s'_def)
      moreover have "i \<noteq> b" using b(1) \<open>i \<notin> h_gone h\<close> by auto
      ultimately show ?thesis by (auto intro!: exI [of _ i])
    qed
    show "v \<in> set (h_ids h)" if "deltas s' v = Some d" for v d
      using refs_okD(4) [OF parts(2)] that by (simp add: s'_def)
  qed
  moreover have "released_ok h (Suc b) s'"
  proof (rule released_okI)
    show "map_of (released s') (h_ids h ! i) = Some (Some (change_at h i))" if "Suc b \<le> i" "i \<in> h_gone h" for i
      using released_okD(1) [OF parts(3), of i] ids_inj [OF assms(1) _ bn, of i] gone_less [OF assms(1) that(2)] that b(2)
      by (auto simp: s'_def delete_conv')
    show "\<exists>i. Suc b \<le> i \<and> i \<in> h_gone h \<and> h_ids h ! i = v" if "map_of (released s') v = Some d" for v d
    proof -
      have v: "v \<noteq> next_id s" "map_of (released s) v = Some d" using that by (auto simp: s'_def delete_conv' split: if_splits)
      then obtain i where "b \<le> i" "i \<in> h_gone h" "h_ids h ! i = v" using released_okD(2) [OF parts(3)] by blast
      moreover have "i \<noteq> b" using v(1) b(2) \<open>h_ids h ! i = v\<close> by auto
      ultimately show ?thesis by (auto intro!: exI [of _ i])
    qed
  qed
  moreover have "referenced_ok h (Suc b) s'" using parts(4) b by (auto simp: s'_def referenced_ok_def less_Suc_eq)
  moreover have "at_index h (Suc b) s'" by (rule at_index_Suc [OF assms(1) parts(1) bn b(2)]) (simp add: s'_def)
  moreover have "abandoned_ok h s'" using parts(5) by (simp add: abandoned_ok_def s'_def)
  moreover have "counts_ok h (Suc b) s'" "files_kept h s'"
    using ok by (simp_all add: s'_def counts_ok_def files_kept_def count_of_def)
  ultimately show ?thesis using r by (auto simp: loop_inv_def s'_def)
qed

lemma process_released_inv:
  assumes "history_ok h" and "loop_inv h b s"
  shows "\<exists>s' b'. process_released s = Some s' \<and> loop_inv h b' s'"
  using assms(2)
proof (induction s arbitrary: b rule: process_released.induct)
  case (1 s)
  show ?case
  proof (cases "next_id s \<in> set (abandoned s)")
    case True
    then show ?thesis using "1.IH"(1) [OF True skip_inv [OF assms(1) "1.prems" True]] by (subst process_released.simps) simp
  next
    case False
    show ?thesis
    proof (cases "map_of (released s) (next_id s)")
      case None
      then show ?thesis using False "1.prems" by (subst process_released.simps) auto
    next
      case (Some d)
      obtain s' where s': "d = Some (change_at h b)" "applyDelta (change_at h b) s = Some s'"
        "loop_inv h (Suc b) (s'\<lparr>released := AList.delete (next_id s') (released s'), next_id := next_id s' + 1\<rparr>)"
        using release_inv [OF assms(1) "1.prems" Some] by blast
      then have "(case d of None \<Rightarrow> Some s | Some d \<Rightarrow> applyDelta d s) = Some s'" by simp
      from "1.IH"(2) [OF False Some this s'(3)] show ?thesis
        using False Some s' by (subst process_released.simps) simp
    qed
  qed
qed

lemma processTasks_inv:
  assumes "history_ok h" and "loop_inv h b s"
  shows "\<exists>s' b'. processTasks old s = Some s' \<and> loop_inv h b' s'"
  using convert_tasks_inv [OF assms, of old] process_released_inv [OF assms(1)] by (fastforce simp: processTasks_def)

section \<open>Messages keep the invariant\<close>

lemma full_count_cong:
  assumes "h_gone h' = h_gone h" and "\<And>i. i < b \<Longrightarrow> h_files h' ! i = h_files h ! i"
  shows "full_count h' b = full_count h b"
  using assms by (auto simp: full_count_def fun_eq_iff intro!: sum.cong)

lemma ref_inv:
  assumes ok: "history_ok h" and inv: "loop_inv h b s" and top: "h_top h < t_vid t"
    and h': "h' = h\<lparr>h_ids := h_ids h @ [t_vid t], h_files := h_files h @ [task_nums t], h_changes := h_changes h @ cs, h_top := t_vid t\<rparr>"
    and new: "\<forall>f \<in> set (task_nums t). f \<notin> set (removed s)"
  shows "\<exists>s'. on_ref t s = Some s' \<and> loop_inv h' b s'"
proof -
  let ?v = "t_vid t" and ?n = "length (h_ids h)"
  have parts: "at_index h b s" "refs_ok h b s" "released_ok h b s" "referenced_ok h b s" "abandoned_ok h s" "counts_ok h b s" "files_kept h s"
    using inv by (simp_all add: loop_inv_def)
  note shape = history_shapeD [OF ok]
  have v: "?v \<notin> set (h_ids h)" using shape(6) top by fastforce
  have b: "b \<le> ?n" "next_id s \<le> ?v" using parts(1) top by (auto simp: at_index_def)
  have none: "map_of (refs s) ?v = None" "deltas s ?v = None"
    using refs_okD(3,4) [OF parts(2), of ?v] v by (force simp: in_set_conv_nth)+
  define s' where "s' = s\<lparr>refs := AList.update ?v t (refs s), last_id := (if last_id s < ?v then ?v else last_id s)\<rparr>"
  have on: "on_ref t s = Some s'" using none(1) by (auto simp: on_ref_def s'_def Let_def intro!: ref_loop.equality)
  have ids: "h_ids h' ! i = (if i < ?n then h_ids h ! i else ?v)" if "i \<le> ?n" for i using that by (auto simp: h' nth_append)
  have files: "h_files h' ! i = (if i < ?n then h_files h ! i else task_nums t)" if "i \<le> ?n" for i
    using that shape(1) by (auto simp: h' nth_append)
  have sent: "i < ?n" "i < length (h_changes h)" if "i < h_sent h" for i using that shape(2,3) by auto
  have change: "change_at h' i = change_at h i" if "i < h_sent h" for i
    using sent [OF that] by (simp add: change_at_def h' nth_append)
  have neq: "h_ids h ! i \<noteq> ?v" if "i < ?n" for i using v nth_mem [OF that] by metis
  have "at_index h' b s'"
    using parts(1) b by (auto simp: at_index_def h' s'_def nth_append less_Suc_eq)
  moreover have "refs_ok h' b s'"
  proof (rule refs_okI)
    fix i
    assume "b \<le> i" "i < length (h_ids h')" "i \<notin> h_gone h'"
    then have i: "b \<le> i" "i \<le> ?n" "i \<notin> h_gone h" by (simp_all add: h')
    show "\<exists>t. map_of (refs s') (h_ids h' ! i) = Some t \<and> task_nums t = h_files h' ! i"
      using refs_okD(1) [OF parts(2) i(1) _ i(3)] i(2) neq [of i] by (cases "i < ?n") (auto simp: ids files s'_def update_conv')
    show "deltas s' (h_ids h' ! i) = (if i < h_sent h' then Some (change_at h' i) else None)"
      using refs_okD(2) [OF parts(2) i(1) _ i(3)] i(2) none(2) sent(1) [of i] change [of i]
      by (cases "i < ?n") (auto simp: s'_def h' nth_append)
  next
    show "\<exists>i. b \<le> i \<and> i < length (h_ids h') \<and> i \<notin> h_gone h' \<and> h_ids h' ! i = u" if m: "map_of (refs s') u = Some t'" for u t'
    proof (cases "u = ?v")
      case True
      have "?n \<notin> h_gone h" using gone_less [OF ok] by blast
      then show ?thesis using b(1) True by (intro exI [of _ ?n]) (simp add: h')
    next
      case False
      then have "map_of (refs s) u = Some t'" using m by (simp add: s'_def update_conv')
      then obtain i where "b \<le> i" "i < ?n" "i \<notin> h_gone h" "h_ids h ! i = u" using refs_okD(3) [OF parts(2)] by blast
      then show ?thesis by (intro exI [of _ i]) (simp add: h' nth_append)
    qed
    show "u \<in> set (h_ids h')" if "deltas s' u = Some d" for u d
      using refs_okD(4) [OF parts(2)] that by (simp add: s'_def h')
  qed
  moreover have "released_ok h' b s'"
  proof (rule released_okI)
    show "map_of (released s') (h_ids h' ! i) = Some (Some (change_at h' i))" if "b \<le> i" "i \<in> h_gone h'" for i
      using released_okD(1) [OF parts(3) that(1)] gone_less [OF ok, of i] that(2) change [of i] ids [of i] by (simp add: h' s'_def)
    show "\<exists>i. b \<le> i \<and> i \<in> h_gone h' \<and> h_ids h' ! i = u" if m: "map_of (released s') u = Some d" for u d
    proof -
      obtain i where "b \<le> i" "i \<in> h_gone h" "h_ids h ! i = u" using released_okD(2) [OF parts(3), of u d] m by (auto simp: s'_def)
      then show ?thesis using gone_less [OF ok, of i] by (intro exI [of _ i]) (simp add: h' nth_append)
    qed
  qed
  moreover have "{h_ids h' ! i |i. i < b \<and> i \<notin> h_gone h'} = {h_ids h ! i |i. i < b \<and> i \<notin> h_gone h}"
    using b(1) by (force simp: h' nth_append)
  then have "referenced_ok h' b s'" using parts(4) by (simp add: referenced_ok_def s'_def)
  moreover have "abandoned_ok h' s'" using parts(5) top by (force simp: abandoned_ok_def s'_def h')
  moreover have "base_count h' (min b (h_sent h)) = base_count h (min b (h_sent h))"
    using shape(3) by (simp add: base_count_def fun_eq_iff h')
  then have "counts_ok h' b s'"
    using parts(6) full_count_cong [of h' h b] files b(1) by (simp add: counts_ok_def s'_def h' count_of_def)
  moreover have "files_kept h' s'"
    using parts(7) new shape(1)
    by (auto simp: files_kept_def s'_def h' used_def nth_append less_Suc_eq)
  ultimately show ?thesis using on by (simp add: loop_inv_def)
qed

lemma change_inv:
  assumes ok: "history_ok h" and inv: "loop_inv h b s" and sent: "h_sent h < length (h_changes h)"
    and h': "h' = h\<lparr>h_sent := h_sent h + 1\<rparr>"
  shows "\<exists>s'. on_delta (change_at h (h_sent h)) s = Some s' \<and> loop_inv h' b s'"
proof -
  let ?k = "h_sent h"
  have parts: "at_index h b s" "refs_ok h b s" "released_ok h b s" "referenced_ok h b s" "abandoned_ok h s" "counts_ok h b s" "files_kept h s"
    using inv by (simp_all add: loop_inv_def)
  note shape = history_shapeD [OF ok]
  have k: "?k < length (h_ids h)" "?k \<notin> h_gone h" using sent shape(2,7) by auto
  have vid: "d_vid (change_at h ?k) = h_ids h ! ?k" by (simp add: change_at_def)
  have same: "change_at h' = change_at h" "base_count h' = base_count h" "full_count h' = full_count h" "used h' = used h"
    by (simp_all add: h' change_at_def base_count_def full_count_def used_def fun_eq_iff)
  have uniq: "i = ?k" if "h_ids h ! i = h_ids h ! ?k" "i < length (h_ids h)" for i using ids_inj [OF ok that(2) k(1) that(1)] .
  have rest: "at_index h' b s'" "released_ok h' b s'" "referenced_ok h' b s'" "abandoned_ok h' s'"
    if "next_id s' = next_id s" "released s' = released s" "referenced s' = referenced s" "abandoned s' = abandoned s" for s' :: "'a ref_loop"
    using parts(1,3-5) that same(1) by (auto simp: at_index_def released_ok_def referenced_ok_def abandoned_ok_def h')
  show ?thesis
  proof (cases "b \<le> ?k")
    case True
    then obtain t where t: "map_of (refs s) (h_ids h ! ?k) = Some t" using refs_okD(1) [OF parts(2) True k] by blast
    define s' where "s' = s\<lparr>deltas := (deltas s)(h_ids h ! ?k \<mapsto> change_at h ?k)\<rparr>"
    have "refs_ok h' b s'"
    proof (rule refs_okI)
      fix i
      assume "b \<le> i" "i < length (h_ids h')" "i \<notin> h_gone h'"
      then have i: "b \<le> i" "i < length (h_ids h)" "i \<notin> h_gone h" by (simp_all add: h')
      show "\<exists>t. map_of (refs s') (h_ids h' ! i) = Some t \<and> task_nums t = h_files h' ! i"
        using refs_okD(1) [OF parts(2) i] by (simp add: s'_def h')
      show "deltas s' (h_ids h' ! i) = (if i < h_sent h' then Some (change_at h' i) else None)"
        using refs_okD(2) [OF parts(2) i] uniq [OF _ i(2)] same(1) by (cases "i = ?k") (auto simp: s'_def h' less_Suc_eq)
    next
      show "\<exists>i. b \<le> i \<and> i < length (h_ids h') \<and> i \<notin> h_gone h' \<and> h_ids h' ! i = v" if "map_of (refs s') v = Some t" for v t
        using refs_okD(3) [OF parts(2)] that by (simp add: s'_def h')
      show "v \<in> set (h_ids h')" if "deltas s' v = Some d" for v d
        using refs_okD(4) [OF parts(2), of v] that k(1) by (auto simp: s'_def h' split: if_splits)
    qed
    moreover have "counts_ok h' b s'"
      using parts(6) True unfolding counts_ok_def same by (simp add: s'_def count_of_def h' min_absorb1)
    moreover have "files_kept h' s'" using parts(7) unfolding files_kept_def same by (simp add: s'_def h')
    ultimately show ?thesis
      using t vid rest [of s'] by (simp add: on_delta_def loop_inv_def s'_def)
  next
    case False
    then have none: "map_of (refs s) (h_ids h ! ?k) = None"
      using refs_okD(3) [OF parts(2), of "h_ids h ! ?k"] uniq by (cases "map_of (refs s) (h_ids h ! ?k)") fastforce+
    have isref: "h_ids h ! ?k \<in> set (referenced s)" using parts(4) False k(2) by (auto simp: referenced_ok_def)
    have cnt: "count_of s f = base_count h ?k f + full_count h b f" for f using parts(6) False by (simp add: counts_ok_def min_absorb2)
    then have "\<forall>f. base_count h ?k f \<le> count_of s f" using full_count_nonneg by simp
    from apply_change [OF ok sent this inv_nonneg [OF ok parts(6)]] obtain fr rm where
      s2: "applyDelta (change_at h ?k) s = Some (s\<lparr>fileRef := fr, removed := rm\<rparr>)"
      "\<forall>f. count_of (s\<lparr>fileRef := fr, removed := rm\<rparr>) f = count_of s f + base_count h (Suc ?k) f - base_count h ?k f"
      "set rm = set (removed s) \<union> {f \<in> set (snd (h_changes h ! ?k)). count_of (s\<lparr>fileRef := fr, removed := rm\<rparr>) f = 0}"
      by blast
    define s' where "s' = s\<lparr>fileRef := fr, removed := rm\<rparr>"
    have c2: "\<forall>f. count_of s' f = base_count h (Suc ?k) f + full_count h b f" using s2(2) cnt by (simp add: s'_def)
    have "files_kept h s'"
      using kept_after_change [OF ok parts(7) sent, of b s'] c2 s2(3) False by (simp add: s'_def)
    then have "files_kept h' s'" unfolding files_kept_def same by (simp add: h')
    moreover have "counts_ok h' b s'" using c2 False unfolding counts_ok_def same by (simp add: h' min_absorb2)
    moreover have "refs_ok h' b s'"
    proof (rule refs_okI)
      fix i
      assume "b \<le> i" "i < length (h_ids h')" "i \<notin> h_gone h'"
      then have i: "b \<le> i" "i < length (h_ids h)" "i \<notin> h_gone h" by (simp_all add: h')
      show "\<exists>t. map_of (refs s') (h_ids h' ! i) = Some t \<and> task_nums t = h_files h' ! i"
        using refs_okD(1) [OF parts(2) i] by (simp add: s'_def h')
      show "deltas s' (h_ids h' ! i) = (if i < h_sent h' then Some (change_at h' i) else None)"
        using refs_okD(2) [OF parts(2) i] i(1) False same(1) by (simp add: s'_def h')
    qed (use refs_okD(3,4) [OF parts(2)] in \<open>simp_all add: s'_def h'\<close>)
    ultimately show ?thesis
      using none isref s2(1) vid rest [of s'] by (simp add: on_delta_def loop_inv_def s'_def)
  qed
qed

lemma rel_inv:
  assumes ok: "history_ok h" and inv: "loop_inv h b s" and i: "i < h_sent h" "i \<notin> h_gone h"
    and t: "t_vid t = h_ids h ! i" "task_nums t = h_files h ! i"
    and h': "h' = h\<lparr>h_gone := insert i (h_gone h)\<rparr>"
  shows "\<exists>s'. on_release t s = Some s' \<and> loop_inv h' b s'"
proof -
  have parts: "at_index h b s" "refs_ok h b s" "released_ok h b s" "referenced_ok h b s" "abandoned_ok h s" "counts_ok h b s" "files_kept h s"
    using inv by (simp_all add: loop_inv_def)
  note shape = history_shapeD [OF ok]
  have n: "i < length (h_ids h)" using i(1) shape(2,3) by simp
  have same: "change_at h' = change_at h" "base_count h' = base_count h" "used h' = used h"
    by (simp_all add: h' change_at_def base_count_def used_def fun_eq_iff)
  have uniq: "j = i" if "h_ids h ! j = h_ids h ! i" "j < length (h_ids h)" for j using ids_inj [OF ok that(2) n that(1)] .
  have bn: "b \<le> length (h_ids h)" using parts(1) by (simp add: at_index_def)
  show ?thesis
  proof (cases "i < b")
    case True
    then have isref: "t_vid t \<in> set (referenced s)" using parts(4) i(2) t(1) by (auto simp: referenced_ok_def)
    have cnt: "count_of s f = base_count h (min b (h_sent h)) f + int (count_list (h_files h ! i) f) + full_count h' b f" for f
      using parts(6) full_count_gone [OF True i(2), of f] by (simp add: counts_ok_def h')
    have "\<forall>f. int (count_list (task_nums t) f) \<le> count_of s f"
      using cnt history_countedD(1) [OF ok] full_count_nonneg [of h' b] by (simp add: t(2) add_nonneg_nonneg)
    from drop_files_count [OF inv_nonneg [OF ok parts(6)] this] obtain s1 where
      s1: "drop_files (task_nums t) s = Some s1" "\<forall>f. count_of s1 f = count_of s f - int (count_list (task_nums t) f)"
      "set (removed s1) = set (removed s) \<union> {f \<in> set (task_nums t). count_of s1 f = 0}" by blast
    obtain fr rm where fr: "s1 = s\<lparr>fileRef := fr, removed := rm\<rparr>" using drop_files_frame [OF s1(1)] by blast
    define s' where "s' = s1\<lparr>referenced := removeAll (t_vid t) (referenced s1)\<rparr>"
    have c1: "count_of s1 f = base_count h (min b (h_sent h)) f + full_count h' b f" for f using s1(2) cnt by (simp add: t(2))
    have gone: "f \<notin> set (h_files h ! j)" if f: "f \<in> set (h_files h ! i)" "count_of s1 f = 0" and j: "j < length (h_ids h)" "j \<notin> h_gone h'" for f j
    proof
      assume fj: "f \<in> set (h_files h ! j)"
      have zero: "base_count h (min b (h_sent h)) f \<le> 0" "full_count h' b f \<le> 0"
        using c1 [of f] f(2) history_countedD(1) [OF ok, of "min b (h_sent h)" f] full_count_nonneg [of h' b f] by linarith+
      show False
      proof (cases "j < b")
        case True
        then show ?thesis using full_count_pos [of j b h' f] j(2) fj zero(2) by (simp add: h')
      next
        case False
        then show ?thesis
          using shared_counted [OF ok, of i "min b (h_sent h)" j f] \<open>i < b\<close> i(1) j(1) f(1) fj zero(1) by (simp add: min_le_iff_disj)
      qed
    qed
    have "used h f" if "f \<in> set (h_files h ! i)" for f using that n shape(1) by (auto simp: used_def)
    then have "files_kept h' s'"
      using parts(7) s1(3) gone same(3) by (auto simp: files_kept_def s'_def h' t(2))
    moreover have "counts_ok h' b s'" using c1 same(2) by (simp add: counts_ok_def s'_def count_of_def h')
    moreover have "set (referenced s') = {h_ids h ! j |j. j < b \<and> j \<notin> h_gone h'}"
    proof -
      have "set (referenced s') = {h_ids h ! j |j. j < b \<and> j \<notin> h_gone h} - {h_ids h ! i}"
        using parts(4) by (simp add: s'_def fr t(1) referenced_ok_def)
      also have "\<dots> = {h_ids h ! j |j. j < b \<and> j \<notin> h_gone h'}"
        using uniq bn by (auto simp: h')
      finally show ?thesis .
    qed
    then have "referenced_ok h' b s'" by (simp add: referenced_ok_def h')
    moreover have "at_index h' b s'" "released_ok h' b s'" "abandoned_ok h' s'"
      using parts(1,3,5) True same(1)
      by (auto simp: s'_def fr h' at_index_def released_ok_def abandoned_ok_def)
    moreover have "refs_ok h' b s'"
    proof (rule refs_okI)
      show "\<exists>j. b \<le> j \<and> j < length (h_ids h') \<and> j \<notin> h_gone h' \<and> h_ids h' ! j = v" if m: "map_of (refs s') v = Some u" for v u
      proof -
        obtain j where "b \<le> j" "j < length (h_ids h)" "j \<notin> h_gone h" "h_ids h ! j = v"
          using refs_okD(3) [OF parts(2), of v u] m by (auto simp: s'_def fr)
        then show ?thesis using True by (intro exI [of _ j]) (simp add: h')
      qed
    qed (use refs_okD(1,2,4) [OF parts(2)] same(1) in \<open>simp_all add: s'_def fr h'\<close>)
    ultimately show ?thesis
      using s1(1) isref by (simp add: on_release_def loop_inv_def s'_def)
  next
    case False
    then have bi: "b \<le> i" by simp
    obtain t' where t': "map_of (refs s) (h_ids h ! i) = Some t'" using refs_okD(1) [OF parts(2) bi n i(2)] by blast
    have delta: "deltas s (h_ids h ! i) = Some (change_at h i)" using refs_okD(2) [OF parts(2) bi n i(2)] i(1) by simp
    have notref: "h_ids h ! i \<notin> set (referenced s)" using parts(4) bn uniq False by (auto simp: referenced_ok_def)
    define s' where "s' = s\<lparr>released := AList.update (h_ids h ! i) (Some (change_at h i)) (released s),
      deltas := (deltas s)(h_ids h ! i := None), refs := AList.delete (h_ids h ! i) (refs s)\<rparr>"
    have on: "on_release t s = Some s'" using notref t' delta by (simp add: on_release_def t(1) s'_def)
    have "refs_ok h' b s'"
    proof (rule refs_okI)
      fix j
      assume "b \<le> j" "j < length (h_ids h')" "j \<notin> h_gone h'"
      then have j: "b \<le> j" "j < length (h_ids h)" "j \<notin> h_gone h" "j \<noteq> i" by (simp_all add: h')
      then have "h_ids h ! j \<noteq> h_ids h ! i" using uniq by blast
      then show "\<exists>t. map_of (refs s') (h_ids h' ! j) = Some t \<and> task_nums t = h_files h' ! j"
        "deltas s' (h_ids h' ! j) = (if j < h_sent h' then Some (change_at h' j) else None)"
        using refs_okD(1,2) [OF parts(2) j(1,2,3)] same(1) by (simp_all add: s'_def h' delete_conv')
    next
      show "\<exists>j. b \<le> j \<and> j < length (h_ids h') \<and> j \<notin> h_gone h' \<and> h_ids h' ! j = v" if m: "map_of (refs s') v = Some u" for v u
      proof -
        have v: "v \<noteq> h_ids h ! i" "map_of (refs s) v = Some u" using m by (auto simp: s'_def delete_conv' split: if_splits)
        then obtain j where "b \<le> j" "j < length (h_ids h)" "j \<notin> h_gone h" "h_ids h ! j = v" using refs_okD(3) [OF parts(2)] by blast
        moreover have "j \<noteq> i" using v(1) \<open>h_ids h ! j = v\<close> by auto
        ultimately show ?thesis by (intro exI [of _ j]) (simp add: h')
      qed
      show "v \<in> set (h_ids h')" if "deltas s' v = Some d" for v d
        using refs_okD(4) [OF parts(2), of v] that by (auto simp: s'_def h' split: if_splits)
    qed
    moreover have "released_ok h' b s'"
    proof (rule released_okI)
      show "map_of (released s') (h_ids h' ! j) = Some (Some (change_at h' j))" if j: "b \<le> j" "j \<in> h_gone h'" for j
      proof (cases "j = i")
        case True
        then show ?thesis by (simp add: s'_def h' update_conv' same(1) [unfolded h'])
      next
        case False
        then have "j \<in> h_gone h" using j(2) by (simp add: h')
        moreover have "h_ids h ! j \<noteq> h_ids h ! i" using uniq False gone_less [OF ok \<open>j \<in> h_gone h\<close>] by blast
        ultimately show ?thesis using released_okD(1) [OF parts(3) j(1)] same(1) by (simp add: s'_def h' update_conv')
      qed
      show "\<exists>j. b \<le> j \<and> j \<in> h_gone h' \<and> h_ids h' ! j = v" if m: "map_of (released s') v = Some d" for v d
      proof (cases "v = h_ids h ! i")
        case True
        then show ?thesis using bi by (intro exI [of _ i]) (simp add: h')
      next
        case False
        then have "map_of (released s) v = Some d" using m by (simp add: s'_def update_conv')
        then obtain j where "b \<le> j" "j \<in> h_gone h" "h_ids h ! j = v" using released_okD(2) [OF parts(3)] by blast
        then show ?thesis by (intro exI [of _ j]) (simp add: h')
      qed
    qed
    moreover have "{h_ids h ! j |j. j < b \<and> j \<notin> insert i (h_gone h)} = {h_ids h ! j |j. j < b \<and> j \<notin> h_gone h}" using bi by fastforce
    then have "referenced_ok h' b s'" using parts(4) by (simp add: referenced_ok_def h' s'_def)
    moreover have "{j. j < b \<and> j \<notin> insert i (h_gone h)} = {j. j < b \<and> j \<notin> h_gone h}" using bi by auto
    then have "full_count h' b = full_count h b" by (simp add: full_count_def fun_eq_iff h')
    then have "counts_ok h' b s'" using parts(6) same(2) by (simp add: counts_ok_def s'_def count_of_def h')
    moreover have "at_index h' b s'" "abandoned_ok h' s'" "files_kept h' s'"
      using parts(1,5,7) same(3) by (auto simp: at_index_def abandoned_ok_def files_kept_def s'_def h')
    ultimately show ?thesis using on by (simp add: loop_inv_def)
  qed
qed

lemma abandon_inv:
  assumes "history_ok h" and inv: "loop_inv h b s" and top: "h_top h < vid" and h': "h' = h\<lparr>h_top := vid\<rparr>"
  shows "\<exists>s'. on_message (AbandonMsg vid) s = Some s' \<and> loop_inv h' b s'"
proof -
  have same: "change_at h' = change_at h" "base_count h' = base_count h" "full_count h' = full_count h" "used h' = used h"
    by (simp_all add: h' change_at_def base_count_def full_count_def used_def fun_eq_iff)
  have new: "vid \<notin> set (h_ids h)" using history_shapeD(6) [OF assms(1)] top by fastforce
  show ?thesis
    using inv top new same unfolding loop_inv_def at_index_def refs_ok_def released_ok_def referenced_ok_def abandoned_ok_def
      counts_ok_def files_kept_def
    by (auto simp: on_message_def h' count_of_def)
qed

lemma message_inv:
  assumes "sends h m h'" and "history_ok h" and "loop_inv h b s"
  shows "\<exists>s'. on_message m s = Some s' \<and> loop_inv h' b s'"
  using assms
proof (induction rule: sends.induct)
  case (first h t)
  have "h_changes h = []" "h_files h = []" using history_shapeD(1,2) [OF first(4)] first(1) by simp_all
  then show ?case
    using ref_inv [OF first(4,5,3), where cs = "[]"] first(1,2) by (cases h) (simp add: on_message_def)
next
  case (set_version h t a d)
  have kept: "files_kept h s" using set_version(6) by (simp add: loop_inv_def)
  have "f \<notin> set (removed s)" if "f \<in> set (task_nums t)" for f
  proof
    assume f: "f \<in> set (removed s)"
    let ?i = "length (h_ids h) - 1"
    have "?i < length (h_ids h)" using set_version(1) by (cases "h_ids h") auto
    moreover have "?i \<notin> h_gone h" using history_shapeD(2,7) [OF set_version(5)] set_version(2) by auto
    ultimately have "f \<notin> set (last (h_files h))" using kept f last_file [OF set_version(5,1)] by (auto simp: files_kept_def)
    moreover have "used h f" using kept f by (simp add: files_kept_def)
    ultimately show False using set_version(4) that by (auto simp: accounts_def used_def)
  qed
  then show ?case
    using ref_inv [OF set_version(5,6,3), where cs = "[(a, d)]"] by (simp add: on_message_def)
next
  case (change h)
  then show ?case using change_inv [OF change(2,3,1) refl] by (simp add: on_message_def)
next
  case (release i h t)
  then show ?case using rel_inv [OF release(5,6,1-4) refl] by (simp add: on_message_def)
next
  case (abandon h vid)
  then show ?case using abandon_inv by blast
qed (auto simp: on_message_def)

lemma runs_inv: "runs h r \<Longrightarrow> history_ok h \<and> (\<exists>s b. r = Some s \<and> loop_inv h b s)"
proof (induction rule: runs.induct)
  case (start old)
  have "loop_inv h_init 0 loop_init"
    by (simp add: loop_inv_parts h_init_def loop_init_def base_count_def full_count_def count_of_def)
  then show ?case using processTasks_inv [OF history_ok_init] history_ok_init by blast
next
  case (turn h s m h' old)
  then obtain b where inv: "history_ok h" "loop_inv h b s" by blast
  obtain s' where "on_message m s = Some s'" "loop_inv h' b s'" using message_inv [OF turn(2) inv] by blast
  then show ?case
    using sends_ok [OF turn(2) inv(1)] processTasks_inv [of h' b s' old] by (auto simp: loop_turn_def)
qed

lemma runs_turn:
  fixes s :: "'ik ref_loop" and m :: "'ik message"
  assumes "runs h (Some s)" and "sends h m h'"
  shows "\<exists>s' :: 'ik ref_loop. runs h' (Some s')"
  using runs.turn [OF assms] runs_inv by metis

lemma ref_ops_snoc: "ref_ops (bs @ [b]) st = (case ref_ops bs st of None \<Rightarrow> None | Some st \<Rightarrow> ref_op b st)"
  by (induction bs arbitrary: st) (auto split: option.split)

section \<open>Properties\<close>

text \<open>
  C8: table files in use are never removed.  However the messages of a session are timed, and whichever versions are turned into full
  references, the loop does not panic, and no file that it has removed belongs to a version that has been set and not yet released;
  the count of a file is the number of times the changes applied so far and the versions held in full count it.
\<close>

theorem live_files_kept:
  assumes "runs h r"
  shows "\<exists>s. r = Some s \<and>
    (\<forall>i < length (h_ids h). i \<notin> h_gone h \<longrightarrow> set (h_files h ! i) \<inter> set (removed s) = {}) \<and>
    (\<exists>b. \<forall>f. count_of s f = base_count h (min b (h_sent h)) f + full_count h b f)"
  using runs_inv [OF assms] by (fastforce simp: loop_inv_def files_kept_def counts_ok_def)

theorem live_files_kept_witness:
  "\<exists>h (s :: unit ref_loop). runs h (Some s) \<and> h_ids h = [0, 1, 2] \<and> h_files h = [[], [4, 5], [5]] \<and> h_gone h = {0, 1} \<and> 5 \<notin> set (removed s)"
proof -
  define t :: "int \<Rightarrow> int list \<Rightarrow> unit vTask" where
    "t v fs = \<lparr>t_vid = v, t_files = [map (\<lambda>f. newTableFile f 0 () ()) fs]\<rparr>" for v fs
  have t [simp]: "t_vid (t v fs) = v" "task_nums (t v fs) = fs" for v fs
    by (simp_all add: t_def task_nums_def comp_def)
  define H where "H ids fs cs n gone tp = \<lparr>h_ids = ids, h_files = fs, h_changes = cs, h_sent = n, h_gone = gone, h_top = tp\<rparr>"
    for ids :: "int list" and fs :: "int list list" and cs :: "(int list \<times> int list) list" and n :: nat and gone :: "nat set" and tp :: int
  let ?h1 = "H [0] [[]] [] 0 {} 0" and ?h2 = "H [0, 1] [[], [4, 5]] [([4, 5], [])] 0 {} 1"
  let ?h3 = "H [0, 1] [[], [4, 5]] [([4, 5], [])] 1 {} 1" and ?h4 = "H [0, 1] [[], [4, 5]] [([4, 5], [])] 1 {0} 1"
  let ?h5 = "H [0, 1, 2] [[], [4, 5], [5]] [([4, 5], []), ([], [4])] 1 {0} 2"
  let ?h6 = "H [0, 1, 2] [[], [4, 5], [5]] [([4, 5], []), ([], [4])] 2 {0} 2"
  let ?h7 = "H [0, 1, 2] [[], [4, 5], [5]] [([4, 5], []), ([], [4])] 2 {1, 0} 2"
  obtain s0 :: "unit ref_loop" where s0: "runs h_init (Some s0)" using runs.start runs_inv by metis
  have "sends h_init (RefMsg (t 0 [])) ?h1" using sends.first [of h_init "t 0 []"] by (simp add: h_init_def H_def)
  from runs_turn [OF s0 this] obtain s1 :: "unit ref_loop" where s1: "runs ?h1 (Some s1)" by blast
  have "accounts ?h1 [4, 5] [4, 5] []" by (simp add: accounts_def base_count_def H_def)
  then have "sends ?h1 (RefMsg (t 1 [4, 5])) ?h2"
    using sends.set_version [of ?h1 "t 1 [4, 5]" "[4, 5]" "[]"] by (simp add: H_def)
  from runs_turn [OF s1 this] obtain s2 :: "unit ref_loop" where s2: "runs ?h2 (Some s2)" by blast
  have "sends ?h2 (DeltaMsg (change_at ?h2 0)) ?h3" using sends.change [of ?h2] by (simp add: H_def)
  from runs_turn [OF s2 this] obtain s3 :: "unit ref_loop" where s3: "runs ?h3 (Some s3)" by blast
  have "sends ?h3 (RelMsg (t 0 [])) ?h4" using sends.release [of 0 ?h3 "t 0 []"] by (simp add: H_def)
  from runs_turn [OF s3 this] obtain s4 :: "unit ref_loop" where s4: "runs ?h4 (Some s4)" by blast
  have "accounts ?h4 [5] [] [4]" by (simp add: accounts_def base_count_def H_def)
  then have "sends ?h4 (RefMsg (t 2 [5])) ?h5"
    using sends.set_version [of ?h4 "t 2 [5]" "[]" "[4]"] by (simp add: H_def)
  from runs_turn [OF s4 this] obtain s5 :: "unit ref_loop" where s5: "runs ?h5 (Some s5)" by blast
  have "sends ?h5 (DeltaMsg (change_at ?h5 1)) ?h6" using sends.change [of ?h5] by (simp add: H_def numeral_2_eq_2)
  from runs_turn [OF s5 this] obtain s6 :: "unit ref_loop" where s6: "runs ?h6 (Some s6)" by blast
  have "sends ?h6 (RelMsg (t 1 [4, 5])) ?h7" using sends.release [of 1 ?h6 "t 1 [4, 5]"] by (simp add: H_def)
  from runs_turn [OF s6 this] obtain s7 :: "unit ref_loop" where s7: "runs ?h7 (Some s7)" by blast
  have files: "h_files ?h7 = [[], [4, 5], [5]]" "2 < length (h_ids ?h7)" "2 \<notin> h_gone ?h7" by (simp_all add: H_def)
  from live_files_kept [OF s7] files have "set (h_files ?h7 ! 2) \<inter> set (removed s7) = {}" by fastforce
  then have "5 \<notin> set (removed s7)" unfolding files(1) by simp
  then show ?thesis using s7 by (intro exI [of _ ?h7] exI [of _ s7]) (simp add: H_def insert_commute)
qed

text \<open>
  A version is announced once and released once.  Through any series of references and releases that does not panic, the count of a new version is
  the number of references less the number of releases; the loop is told of the version at its first reference, and of its
  release exactly when the count has come back to zero, after which every further reference or release panics.
\<close>

theorem version_references:
  assumes "v_ref v = 0" and "\<not> v_released v" and "ref_ops ops (v, []) = Some (v', ms)"
  shows "v_ref v' = int (count_list ops True) - int (count_list ops False) \<and> 0 \<le> v_ref v' \<and>
    (v_released v' \<longleftrightarrow> ops \<noteq> [] \<and> v_ref v' = 0) \<and>
    ms = (if ops = [] then [] else RefMsg (version_task v) # (if v_ref v' = 0 then [RelMsg (version_task v)] else [])) \<and>
    (v_released v' \<longrightarrow> incref v' = None \<and> releaseNB v' = None)"
proof -
  have "v_ref v' = int (count_list ops True) - int (count_list ops False) \<and> 0 \<le> v_ref v' \<and> version_task v' = version_task v \<and>
    (v_released v' \<longleftrightarrow> ops \<noteq> [] \<and> v_ref v' = 0) \<and>
    ms = (if ops = [] then [] else RefMsg (version_task v) # (if v_ref v' = 0 then [RelMsg (version_task v)] else []))"
    using assms(3)
  proof (induction ops arbitrary: v' ms rule: rev_induct)
    case Nil
    then show ?case using assms(1,2) by simp
  next
    case (snoc b bs)
    obtain v1 ms1 where 1: "ref_ops bs (v, []) = Some (v1, ms1)" "ref_op b (v1, ms1) = Some (v', ms)"
      using snoc.prems by (auto simp: ref_ops_snoc split: option.splits)
    note IH = snoc.IH [OF 1(1)]
    show ?case
    proof (cases b)
      case True
      then have "\<not> v_released v1" "v' = v1\<lparr>v_ref := v_ref v1 + 1\<rparr>"
        "ms = ms1 @ (if v_ref v1 = 0 then [RefMsg (version_task v1)] else [])"
        using 1(2) by (auto simp: ref_op_def incref_def version_task_def Let_def split: if_splits)
      then show ?thesis using IH True by (auto simp: version_task_def)
    next
      case False
      then have "1 \<le> v_ref v1"
        "v' = (if v_ref v1 = 1 then v1\<lparr>v_ref := 0, v_released := True\<rparr> else v1\<lparr>v_ref := v_ref v1 - 1\<rparr>)"
        "ms = ms1 @ (if v_ref v1 = 1 then [RelMsg (version_task v1)] else [])"
        using 1(2) by (auto simp: ref_op_def releaseNB_def version_task_def Let_def split: if_splits)
      moreover have "bs \<noteq> []" using 1(1) \<open>1 \<le> v_ref v1\<close> assms(1) by auto
      ultimately show ?thesis using IH False by (auto simp: version_task_def)
    qed
  qed
  then show ?thesis by (simp add: incref_def releaseNB_def)
qed

theorem version_references_witness:
  "snd (the (ref_ops [True, True, False, False] (sample_base, []))) = [RefMsg (version_task sample_base), RelMsg (version_task sample_base)]"
proof -
  have fresh: "v_ref sample_base = 0" "\<not> v_released sample_base" by (simp_all add: sample_base_def newVersion_def)
  obtain v' ms where r: "ref_ops [True, True, False, False] (sample_base, []) = Some (v', ms)"
    by (auto simp: ref_op_def incref_def releaseNB_def fresh Let_def)
  from version_references [OF fresh r] r show ?thesis by simp
qed

end
