(* ===== verification/Ldb_Session.thy ===== *)
theory Ldb_Session
  imports Ldb_Refs
begin

text \<open>
  The persistent session of the database, \<^verbatim>\<open>goleveldb/leveldb/session.go\<close> and the part of \<^verbatim>\<open>session_util.go\<close> that keeps its numbers and
  writes the manifest: creating, committing and recovering.  The storage and the journal format are not part of the repository: the record
  \<open>session_env\<close> holds the methods used, on a state \<open>'w\<close> of the outside world, with the options of the database.  A manifest
  is named by its file number.  A panic is \<open>None\<close>; the
  messages to the reference loop are logged in \<open>s_messages\<close>, the versions that are no longer the current one, and belong to whoever still holds
  them, in \<open>s_retired\<close>.  64-bit counters are integers.
\<close>

section \<open>Environment and state\<close>

record ('w, 'e) session_env =
  so_Lock :: "'w \<Rightarrow> 'w \<times> 'e option"
  so_Create :: "int \<Rightarrow> 'w \<Rightarrow> 'w \<times> 'e option"
  so_Next :: "int \<Rightarrow> 'w \<Rightarrow> 'w \<times> 'e option"
  so_Write :: "int \<Rightarrow> 'w \<Rightarrow> bytes \<Rightarrow> 'w \<times> 'e option"
  so_Flush :: "int \<Rightarrow> 'w \<Rightarrow> 'w \<times> 'e option"
  so_Sync :: "int \<Rightarrow> 'w \<Rightarrow> 'w \<times> 'e option"
  so_Size :: "int \<Rightarrow> 'w \<Rightarrow> int"
  so_CloseJournal :: "int \<Rightarrow> 'w \<Rightarrow> 'w"
  so_CloseWriter :: "int \<Rightarrow> 'w \<Rightarrow> 'w"
  so_Remove :: "int \<Rightarrow> 'w \<Rightarrow> 'w \<times> 'e option"
  so_SetMeta :: "int \<Rightarrow> 'w \<Rightarrow> 'w \<times> 'e option"
  so_GetMeta :: "'w \<Rightarrow> 'w \<times> ('e + int)"
  so_Open :: "int \<Rightarrow> 'w \<Rightarrow> 'w \<times> ('e + bytes list \<times> 'e option)"
  so_List :: "'w \<Rightarrow> int list"
  so_IsNotExist :: "'e \<Rightarrow> bool"
  o_ks :: "internal_key key_ops"
  o_score :: "nat \<Rightarrow> internal_key tFile list \<Rightarrow> rat"
  o_uName :: bytes
  o_strict :: bool
  o_noSync :: bool
  o_maxManifest :: int
  o_maxAlloc :: nat

record session =
  s_nextFileNum :: int
  s_journalNum :: int
  s_prevJournalNum :: int
  s_seqNum :: u64
  s_manifest :: "int option"
  s_manifestFd :: "int option"
  s_compPtrs :: "internal_key option list"
  s_version :: "internal_key version"
  s_ntVersionID :: int
  s_messages :: "internal_key message list"
  s_retired :: "internal_key version list"

datatype field_reason = FieldMissing | FieldMismatch bytes bytes

text \<open>The errors, with the call that gave them.\<close>

datatype 'e session_error =
    ErrInvalid | ErrLock 'e | ErrCreate 'e | ErrNewManifest 'e "'e option" | ErrRemoveOld 'e | ErrFlush 'e
  | ErrRead 'e | ErrEntryPoint | ErrRecord record_error | ErrField string field_reason

section \<open>File numbers and compaction pointers\<close>

definition session_setNextFileNum :: "int \<Rightarrow> session \<Rightarrow> session" where
  "session_setNextFileNum num s = s\<lparr>s_nextFileNum := num\<rparr>"

definition markFileNum :: "int \<Rightarrow> session \<Rightarrow> session" where
  "markFileNum num s =
     (let old = s_nextFileNum s; x = num + 1; x = (if x < old then old else x) in s\<lparr>s_nextFileNum := x\<rparr>)"

definition allocFileNum :: "session \<Rightarrow> int \<times> session" where
  "allocFileNum s = (let s = s\<lparr>s_nextFileNum := s_nextFileNum s + 1\<rparr> in (s_nextFileNum s - 1, s))"

definition reuseFileNum :: "int \<Rightarrow> session \<Rightarrow> session" where
  "reuseFileNum num s =
     (let old = s_nextFileNum s; x = num; x = (if old \<noteq> x + 1 then old else x) in s\<lparr>s_nextFileNum := x\<rparr>)"

definition setCompPtr :: "int \<Rightarrow> internal_key \<Rightarrow> session \<Rightarrow> session option" where
  "setCompPtr level ik s =
     (if level < 0 then None
      else let l = nat level;
               ps = s_compPtrs s;
               ps = (if length ps \<le> l then ps @ replicate (l + 1 - length ps) None else ps)
        in Some (s\<lparr>s_compPtrs := ps[l := Some ik]\<rparr>))"

definition getCompPtr :: "int \<Rightarrow> session \<Rightarrow> internal_key option option" where
  "getCompPtr level s =
     (if int (length (s_compPtrs s)) \<le> level then Some None
      else if level < 0 then None
      else Some (s_compPtrs s ! nat level))"

section \<open>The current version\<close>

definition session_version :: "session \<Rightarrow> (internal_key version \<times> session) option" where
  "session_version s =
     (case incref (s_version s) of
        None \<Rightarrow> None
      | Some (v, ms) \<Rightarrow> Some (v, s\<lparr>s_version := v, s_messages := s_messages s @ ms\<rparr>))"

definition session_release :: "session \<Rightarrow> session option" where
  "session_release s =
     (case releaseNB (s_version s) of
        None \<Rightarrow> None
      | Some (v, ms) \<Rightarrow> Some (s\<lparr>s_version := v, s_messages := s_messages s @ ms\<rparr>))"

definition session_setVersion :: "sessionRecord option \<Rightarrow> internal_key version \<Rightarrow> session \<Rightarrow> (session \<times> internal_key version) option" where
  "session_setVersion r v s =
     (case setVersion r v (Some (s_version s)) of
        Some (v, Some c, ms) \<Rightarrow> Some (s\<lparr>s_version := v, s_messages := s_messages s @ ms\<rparr>, c)
      | _ \<Rightarrow> None)"

text \<open>\<^verbatim>\<open>release\<close> of a version that has been replaced by then.\<close>

definition release_retired :: "internal_key version \<Rightarrow> session \<Rightarrow> session option" where
  "release_retired v s =
     (case releaseNB v of
        None \<Rightarrow> None
      | Some (v, ms) \<Rightarrow> Some (s\<lparr>s_retired := s_retired s @ [v], s_messages := s_messages s @ ms\<rparr>))"

section \<open>Records\<close>

fun fill_compPtrs :: "nat \<Rightarrow> internal_key option list \<Rightarrow> sessionRecord \<Rightarrow> sessionRecord" where
  "fill_compPtrs level [] r = r"
| "fill_compPtrs level (p # ps) r =
     fill_compPtrs (level + 1) ps (case p of None \<Rightarrow> r | Some ik \<Rightarrow> addCompPtr (int level) ik r)"

definition session_fillRecord :: "('w, 'e) session_env \<Rightarrow> session \<Rightarrow> bool \<Rightarrow> sessionRecord \<Rightarrow> sessionRecord" where
  "session_fillRecord E s snapshot r =
     (let r = setNextFileNum (s_nextFileNum s) r
      in if snapshot
         then let r = (if has r recJournalNum then r else setJournalNum (s_journalNum s) r);
                  r = (if has r recSeqNum then r else setSeqNum (s_seqNum s) r);
                  r = fill_compPtrs 0 (s_compPtrs s) r
           in setComparer (o_uName E) r
         else r)"

definition save_compPtrs :: "cpRecord list \<Rightarrow> session \<Rightarrow> session option" where
  "save_compPtrs = for_each (\<lambda>r. setCompPtr (cp_level r) (cp_ikey r))"

definition recordCommited :: "sessionRecord \<Rightarrow> session \<Rightarrow> session option" where
  "recordCommited rec s =
     (let s = (if has rec recJournalNum then s\<lparr>s_journalNum := journalNum rec\<rparr> else s);
          s = (if has rec recPrevJournalNum then s\<lparr>s_prevJournalNum := prevJournalNum rec\<rparr> else s);
          s = (if has rec recSeqNum then s\<lparr>s_seqNum := seqNum rec\<rparr> else s)
      in save_compPtrs (compPtrs rec) s)"

section \<open>Writing the manifest\<close>

text \<open>The steps that \<^verbatim>\<open>newManifest\<close> and \<^verbatim>\<open>flushManifest\<close> share: a record written to the journal, flushed and synced.\<close>

definition write_record :: "('w, 'e) session_env \<Rightarrow> int \<Rightarrow> sessionRecord \<Rightarrow> 'w \<Rightarrow> ('w \<times> 'e option) option" where
  "write_record E n rec w =
     (case so_Next E n w of
        (w, Some e) \<Rightarrow> Some (w, Some e)
      | (w, None) \<Rightarrow>
          (case encode (so_Write E n) rec w of
             None \<Rightarrow> None
           | Some (w, Some e) \<Rightarrow> Some (w, Some e)
           | Some (w, None) \<Rightarrow>
               (case so_Flush E n w of
                  (w, Some e) \<Rightarrow> Some (w, Some e)
                | (w, None) \<Rightarrow> Some (if o_noSync E then (w, None) else so_Sync E n w))))"

text \<open>The deferred function of \<^verbatim>\<open>newManifest\<close>.\<close>

definition install_manifest ::
  "('w, 'e) session_env \<Rightarrow> int \<Rightarrow> sessionRecord \<Rightarrow> 'e option \<Rightarrow> 'w \<Rightarrow> session \<Rightarrow> ('w \<times> session \<times> 'e session_error option) option" where
  "install_manifest E n rec err w s =
     (case err of
        None \<Rightarrow>
          (case recordCommited rec s of
             None \<Rightarrow> None
           | Some s \<Rightarrow>
               (let w = (case s_manifest s of None \<Rightarrow> w | Some m \<Rightarrow> so_CloseWriter E m (so_CloseJournal E m w))
                in case (case s_manifestFd s of None \<Rightarrow> (w, None) | Some fd \<Rightarrow> so_Remove E fd w) of
                     (w, err) \<Rightarrow> Some (w, s\<lparr>s_manifestFd := Some n, s_manifest := Some n\<rparr>, map_option ErrRemoveOld err)))
      | Some e \<Rightarrow>
          (case so_Remove E n (so_CloseWriter E n w) of
             (w, rerr) \<Rightarrow> Some (w, reuseFileNum n s, Some (ErrNewManifest e rerr))))"

text \<open>\<^verbatim>\<open>newManifest\<close>; the record is returned as well, since the caller's record is the one that is filled.\<close>

definition newManifest ::
  "('w, 'e) session_env \<Rightarrow> sessionRecord option \<Rightarrow> internal_key version option \<Rightarrow> 'w \<Rightarrow> session \<Rightarrow>
   ('w \<times> session \<times> sessionRecord \<times> 'e session_error option) option" where
  "newManifest E rec v w s =
     (let r = (case rec of None \<Rightarrow> empty_record | Some r \<Rightarrow> r)
      in case allocFileNum s of (n, s) \<Rightarrow>
         case so_Create E n w of
           (w, Some e) \<Rightarrow> Some (w, s, r, Some (ErrCreate e))
         | (w, None) \<Rightarrow>
             (case (case v of Some v \<Rightarrow> Some (v, s) | None \<Rightarrow> session_version s) of
                None \<Rightarrow> None
              | Some (u, s) \<Rightarrow>
                  (let r = version_fillRecord u (session_fillRecord E s True r)
                   in case write_record E n r w of
                        None \<Rightarrow> None
                      | Some (w, err) \<Rightarrow>
                          (case (if err = None then so_SetMeta E n w else (w, err)) of (w, err) \<Rightarrow>
                           case install_manifest E n r err w s of
                             None \<Rightarrow> None
                           | Some (w, s, err) \<Rightarrow>
                               (case (if v = None then session_release s else Some s) of
                                  None \<Rightarrow> None
                                | Some s \<Rightarrow> Some (w, s, r, err))))))"

definition flushManifest ::
  "('w, 'e) session_env \<Rightarrow> sessionRecord \<Rightarrow> int \<Rightarrow> 'w \<Rightarrow> session \<Rightarrow> ('w \<times> session \<times> sessionRecord \<times> 'e session_error option) option" where
  "flushManifest E r m w s =
     (let r = session_fillRecord E s False r
      in case write_record E m r w of
           None \<Rightarrow> None
         | Some (w, Some e) \<Rightarrow> Some (w, s, r, Some (ErrFlush e))
         | Some (w, None) \<Rightarrow>
             (case recordCommited r s of None \<Rightarrow> None | Some s \<Rightarrow> Some (w, s, r, None)))"

section \<open>The session\<close>

definition newSession :: "('w, 'e) session_env option \<Rightarrow> 'w \<Rightarrow> ('w \<times> ('e session_error + session)) option" where
  "newSession stor w =
     (case stor of
        None \<Rightarrow> Some (w, Inl ErrInvalid)
      | Some E \<Rightarrow>
          (case so_Lock E w of
             (w, Some e) \<Rightarrow> Some (w, Inl (ErrLock e))
           | (w, None) \<Rightarrow>
               (case newVersion 0 of (v, nt) \<Rightarrow>
                case setVersion None v None of
                  Some (v, None, ms) \<Rightarrow>
                    Some (w, Inr \<lparr>s_nextFileNum = 0, s_journalNum = 0, s_prevJournalNum = 0, s_seqNum = 0, s_manifest = None,
                      s_manifestFd = None, s_compPtrs = [], s_version = v, s_ntVersionID = nt, s_messages = ms, s_retired = []\<rparr>)
                | _ \<Rightarrow> None)))"

definition session_create :: "('w, 'e) session_env \<Rightarrow> 'w \<Rightarrow> session \<Rightarrow> ('w \<times> session \<times> 'e session_error option) option" where
  "session_create E w s = map_option (\<lambda>(w, s, r, err). (w, s, err)) (newManifest E None None w s)"

text \<open>\<^verbatim>\<open>close\<close>: the manifest is closed, and a closing version without tables replaces the current one.\<close>

definition session_close :: "('w, 'e) session_env \<Rightarrow> 'w \<Rightarrow> session \<Rightarrow> ('w \<times> session) option" where
  "session_close E w s =
     (let w = (case s_manifest s of None \<Rightarrow> w | Some m \<Rightarrow> so_CloseWriter E m (so_CloseJournal E m w));
          s = s\<lparr>s_manifest := None\<rparr>
      in case session_setVersion None ((fst (newVersion (s_ntVersionID s)))\<lparr>v_closing := True\<rparr>) s of
           None \<Rightarrow> None
         | Some (s, c) \<Rightarrow> Some (w, s\<lparr>s_retired := s_retired s @ [c]\<rparr>))"

definition reset_record :: "sessionRecord \<Rightarrow> sessionRecord" where
  "reset_record rec = resetDeletedTables (resetAddedTables (resetCompPtrs rec))"

definition IsCorrupted :: "record_error \<Rightarrow> bool" where
  "IsCorrupted e = (case e of ManifestCorrupted _ _ \<Rightarrow> True | RecEOF \<Rightarrow> False)"

text \<open>The loop of \<^verbatim>\<open>recover\<close> over the records of the journal.\<close>

primrec recover_records ::
  "('w, 'e) session_env \<Rightarrow> bytes list \<Rightarrow> sessionRecord \<Rightarrow> versionStaging \<Rightarrow> session \<Rightarrow>
   (session \<times> ('e session_error + sessionRecord \<times> versionStaging)) option" where
  "recover_records E [] rec p s = Some (s, Inr (rec, p))"
| "recover_records E (b # bs) rec p s =
     (case decode (o_maxAlloc E) rec b of
        None \<Rightarrow> None
      | Some (rec, None) \<Rightarrow>
          (case save_compPtrs (compPtrs rec) s of
             None \<Rightarrow> None
           | Some s \<Rightarrow>
               (case staging_commit rec p of
                  None \<Rightarrow> None
                | Some p \<Rightarrow> recover_records E bs (reset_record rec) p s))
      | Some (rec, Some e) \<Rightarrow>
          if o_strict E \<or> \<not> IsCorrupted e then Some (s, Inl (ErrRecord e))
          else recover_records E bs (reset_record rec) p s)"

text \<open>The fields that the records together must have set.\<close>

definition check_record :: "('w, 'e) session_env \<Rightarrow> sessionRecord \<Rightarrow> 'e session_error option" where
  "check_record E rec =
     (if \<not> has rec recComparer then Some (ErrField ''comparer'' FieldMissing)
      else if comparer_name rec \<noteq> o_uName E then Some (ErrField ''comparer'' (FieldMismatch (o_uName E) (comparer_name rec)))
      else if \<not> has rec recNextFileNum then Some (ErrField ''next-file-num'' FieldMissing)
      else if \<not> has rec recJournalNum then Some (ErrField ''journal-file-num'' FieldMissing)
      else if \<not> has rec recSeqNum then Some (ErrField ''seq-num'' FieldMissing)
      else None)"

text \<open>The deferred translation of a missing entry point.\<close>

definition recover_error :: "('w, 'e) session_env \<Rightarrow> 'w \<Rightarrow> 'e \<Rightarrow> 'e session_error" where
  "recover_error E w e = (if so_IsNotExist E e \<and> so_List E w \<noteq> [] then ErrEntryPoint else ErrRead e)"

definition session_recover :: "('w, 'e) session_env \<Rightarrow> 'w \<Rightarrow> session \<Rightarrow> ('w \<times> session \<times> 'e session_error option) option" where
  "session_recover E w s =
     (case so_GetMeta E w of
        (w, Inl e) \<Rightarrow> Some (w, s, Some (recover_error E w e))
      | (w, Inr fd) \<Rightarrow>
          (case so_Open E fd w of
             (w, Inl e) \<Rightarrow> Some (w, s, Some (recover_error E w e))
           | (w, Inr (bs, stop)) \<Rightarrow>
               (case recover_records E bs empty_record (newStaging (s_version s)) s of
                  None \<Rightarrow> None
                | Some (s, Inl err) \<Rightarrow> Some (w, s, Some err)
                | Some (s, Inr (rec, p)) \<Rightarrow>
                    (case stop of
                       Some e \<Rightarrow> Some (w, s, Some (recover_error E w e))
                     | None \<Rightarrow>
                         (case check_record E rec of
                            Some err \<Rightarrow> Some (w, s, Some err)
                          | None \<Rightarrow>
                              (case finish (o_ks E) (o_score E) False (s_ntVersionID s) p of (nv, nt) \<Rightarrow>
                               case session_setVersion (Some rec) nv (s\<lparr>s_manifestFd := Some fd, s_ntVersionID := nt\<rparr>) of
                                 None \<Rightarrow> None
                               | Some (s, c) \<Rightarrow>
                                   (case recordCommited rec (session_setNextFileNum (nextFileNum rec) s) of
                                      None \<Rightarrow> None
                                    | Some s \<Rightarrow> Some (w, s\<lparr>s_retired := s_retired s @ [c]\<rparr>, None))))))))"

text \<open>\<^verbatim>\<open>commit\<close>, with the messages in the order of its deferred calls.\<close>

definition session_commit ::
  "('w, 'e) session_env \<Rightarrow> sessionRecord \<Rightarrow> bool \<Rightarrow> 'w \<Rightarrow> session \<Rightarrow> ('w \<times> session \<times> 'e session_error option) option" where
  "session_commit E r trivial w s =
     (case session_version s of
        None \<Rightarrow> None
      | Some (v, s) \<Rightarrow>
          (case spawn (o_ks E) (o_score E) r trivial (s_ntVersionID s) v of None \<Rightarrow> None | Some (nv, nt) \<Rightarrow>
            let s = s\<lparr>s_ntVersionID := nt\<rparr>
            in case (case s_manifest s of
                       None \<Rightarrow> newManifest E (Some r) (Some nv) w s
                     | Some m \<Rightarrow>
                         if o_maxManifest E \<le> so_Size E m w
                         then map_option (\<lambda>(w, s, _, err). (w, s, r, err)) (newManifest E None (Some nv) w s)
                         else flushManifest E r m w s) of
                 None \<Rightarrow> None
               | Some (w, s, r, None) \<Rightarrow>
                   (case session_setVersion (Some r) nv s of
                      None \<Rightarrow> None
                    | Some (s, c) \<Rightarrow> map_option (\<lambda>s. (w, s, None)) (release_retired c s))
               | Some (w, s, r, Some err) \<Rightarrow>
                   map_option (\<lambda>s. (w, s, Some err)) (session_release (s\<lparr>s_messages := s_messages s @ [AbandonMsg (v_id nv)]\<rparr>))))"

end
