(* ===== verification/Ldb_Compaction.thy ===== *)
theory Ldb_Compaction
  imports Ldb_Session
begin

text \<open>
  Table compaction: the table writer of \<^verbatim>\<open>goleveldb/leveldb/table.go\<close> and, from \<^verbatim>\<open>db_compaction.go\<close>, the builder that merges the entries of
  some tables into new ones, dropping what no reader can see any more, with the transaction around it, which runs the builder until it
  succeeds and lets every attempt resume at the last table that is complete.  The state is the session with the outside world \<open>'w\<close>.
  The record \<open>compact_env\<close> holds what is called and not part of the repository: the storage, the writer \<open>'x\<close> of the table format, \<^verbatim>\<open>parseInternalKey\<close>,
  \<^verbatim>\<open>errors.IsCorrupted\<close>, and the methods of \<^verbatim>\<open>compaction\<close> on its state \<open>'c\<close>; also the channels of the database.  What an iterator delivers is the list of
  its entries and the error at the end.  A pointer that is nil is \<open>None\<close>, its use a panic.  The time and byte counts that are only reported are left out.
\<close>

section \<open>Environment and errors\<close>

text \<open>Which case of the \<^verbatim>\<open>select\<close> that reports the error is taken.\<close>

datatype signal = SigSent | SigPersistent | SigClosed

type_synonym entry = "internal_key \<times> bytes"

record ('w, 'c, 'x, 'e) compact_env =
  ce_Create :: "int \<Rightarrow> 'w \<Rightarrow> 'w \<times> 'e option"
  ce_Sync :: "int \<Rightarrow> 'w \<Rightarrow> 'w \<times> 'e option"
  ce_CloseFile :: "int \<Rightarrow> 'w \<Rightarrow> 'w \<times> 'e option"
  ce_Remove :: "int \<Rightarrow> 'w \<Rightarrow> 'w \<times> 'e option"
  ce_NewWriter :: "int \<Rightarrow> int \<Rightarrow> 'x"
  ce_Append :: "internal_key \<Rightarrow> bytes \<Rightarrow> 'x \<Rightarrow> 'w \<Rightarrow> 'w \<times> 'x \<times> 'e option"
  ce_CloseTable :: "'x \<Rightarrow> 'w \<Rightarrow> 'w \<times> 'x \<times> 'e option"
  ce_BytesLen :: "'x \<Rightarrow> int"
  ce_EntriesLen :: "'x \<Rightarrow> int"
  ce_noSync :: bool
  ce_parse :: "internal_key \<Rightarrow> 'e + bytes \<times> nat \<times> key_type"
  ce_ucmp :: "bytes \<Rightarrow> bytes \<Rightarrow> int"
  ce_keyMaxSeq :: nat
  ce_IsCorrupted :: "'e \<Rightarrow> bool"
  ce_newIterator :: "'w \<Rightarrow> 'w \<times> entry list \<times> 'e option"
  ce_shouldStopBefore :: "internal_key \<Rightarrow> 'c \<Rightarrow> 'c \<times> bool"
  ce_baseLevelForKey :: "bytes \<Rightarrow> 'c \<Rightarrow> 'c \<times> bool"
  ce_save :: "'c \<Rightarrow> 'c"
  ce_restore :: "'c \<Rightarrow> 'c"
  ce_pause :: "'w \<Rightarrow> 'w \<times> bool"
  ce_isClosed :: "'w \<Rightarrow> 'w \<times> bool"
  ce_setError :: "bool \<Rightarrow> 'w \<Rightarrow> 'w \<times> signal"
  ce_backoff :: "'w \<Rightarrow> 'w \<times> bool"

text \<open>An error, and the message \<^verbatim>\<open>fmt.Errorf\<close> makes of two.\<close>

datatype 'e comp_error = OpErr 'e | BothErr "'e comp_error" 'e

text \<open>How a call ends: well, with an error, with the panic \<^verbatim>\<open>errCompactionTransactExiting\<close>, or with any other panic.\<close>

datatype 'e outcome = Ok | Failed "'e comp_error" | Exiting | Panicked

fun result :: "'e option \<Rightarrow> 'e outcome" where
  "result None = Ok"
| "result (Some e) = Failed (OpErr e)"

text \<open>A deferred function that adds its own error.\<close>

fun also_error :: "'e outcome \<Rightarrow> 'e option \<Rightarrow> 'e outcome" where
  "also_error Ok (Some c) = Failed (OpErr c)"
| "also_error (Failed e) (Some c) = Failed (BothErr e c)"
| "also_error o' c = o'"

text \<open>A message of \<^verbatim>\<open>fmt.Errorf\<close> is not an error that reports a corruption.\<close>

fun error_corrupted :: "('w, 'c, 'x, 'e) compact_env \<Rightarrow> 'e outcome \<Rightarrow> bool" where
  "error_corrupted E (Failed (OpErr e)) = ce_IsCorrupted E e"
| "error_corrupted E o' = False"

type_synonym 'w cstate = "session \<times> 'w"

definition io :: "('w \<Rightarrow> 'w \<times> 'r) \<Rightarrow> 'w cstate \<Rightarrow> 'w cstate \<times> 'r" where
  "io f st = (case f (snd st) of (w, r) \<Rightarrow> ((fst st, w), r))"

section \<open>The table writer\<close>

text \<open>
  The storage writer is named by the file number and is nil when \<open>w_open\<close> is false.  A copy of an empty slice is nil, so that \<open>w_first\<close> is nil exactly
  if it is empty.
\<close>

record 'x tWriter =
  w_fd :: int
  w_open :: bool
  w_tw :: "'x option"
  w_first :: bytes
  w_last :: bytes

definition tOps_create :: "('w, 'c, 'x, 'e) compact_env \<Rightarrow> int \<Rightarrow> 'w cstate \<Rightarrow> 'w cstate \<times> ('e + 'x tWriter)" where
  "tOps_create E tSize st =
     (case allocFileNum (fst st) of (n, s) \<Rightarrow>
      case io (ce_Create E n) (s, snd st) of
        (st, Some e) \<Rightarrow> (st, Inl e)
      | (st, None) \<Rightarrow> (st, Inr \<lparr>w_fd = n, w_open = True, w_tw = Some (ce_NewWriter E n tSize), w_first = [], w_last = []\<rparr>))"

definition tWriter_append ::
  "('w, 'c, 'x, 'e) compact_env \<Rightarrow> internal_key \<Rightarrow> bytes \<Rightarrow> 'x tWriter \<Rightarrow> 'w cstate \<Rightarrow> 'w cstate \<times> 'x tWriter \<times> 'e outcome" where
  "tWriter_append E key val t st =
     (let t = t\<lparr>w_first := (if w_first t = [] then key else w_first t), w_last := key\<rparr>
      in case w_tw t of
           None \<Rightarrow> (st, t, Panicked)
         | Some x \<Rightarrow> (case io (ce_Append E key val x) st of (st, x, err) \<Rightarrow> (st, t\<lparr>w_tw := Some x\<rparr>, result err)))"

definition tWriter_empty :: "'x tWriter \<Rightarrow> bool" where
  "tWriter_empty t \<longleftrightarrow> w_first t = []"

definition tWriter_close :: "('w, 'c, 'x, 'e) compact_env \<Rightarrow> 'x tWriter \<Rightarrow> 'w cstate \<Rightarrow> 'w cstate \<times> 'x tWriter \<times> 'e option" where
  "tWriter_close E t st =
     (if w_open t
      then case io (ce_CloseFile E (w_fd t)) st of
             (st, Some e) \<Rightarrow> (st, t, Some e)
           | (st, None) \<Rightarrow> (st, t\<lparr>w_open := False\<rparr>, None)
      else (st, t, None))"

text \<open>\<^verbatim>\<open>finish\<close> without its deferred function.\<close>

definition finish_table :: "('w, 'c, 'x, 'e) compact_env \<Rightarrow> 'x tWriter \<Rightarrow> 'w cstate \<Rightarrow> 'w cstate \<times> 'x tWriter \<times> 'e outcome" where
  "finish_table E t st =
     (case w_tw t of
        None \<Rightarrow> (st, t, Panicked)
      | Some x \<Rightarrow>
          (case io (ce_CloseTable E x) st of
             (st, x, Some e) \<Rightarrow> (st, t\<lparr>w_tw := Some x\<rparr>, Failed (OpErr e))
           | (st, x, None) \<Rightarrow>
               (let t = t\<lparr>w_tw := Some x\<rparr>
                in if ce_noSync E then (st, t, Ok)
                   else if \<not> w_open t then (st, t, Panicked)
                   else case io (ce_Sync E (w_fd t)) st of (st, err) \<Rightarrow> (st, t, result err))))"

definition written_size :: "('w, 'c, 'x, 'e) compact_env \<Rightarrow> 'x tWriter \<Rightarrow> int" where
  "written_size E t = (case w_tw t of None \<Rightarrow> 0 | Some x \<Rightarrow> ce_BytesLen E x)"

definition tWriter_finish ::
  "('w, 'c, 'x, 'e) compact_env \<Rightarrow> 'x tWriter \<Rightarrow> 'w cstate \<Rightarrow> 'w cstate \<times> 'x tWriter \<times> internal_key tFile \<times> 'e outcome" where
  "tWriter_finish E t st =
     (case finish_table E t st of (st, t, o') \<Rightarrow>
      case tWriter_close E t st of (st, t, cerr) \<Rightarrow>
        (st, t, newTableFile (w_fd t) (written_size E t) (w_first t) (w_last t), also_error o' cerr))"

definition tWriter_drop :: "('w, 'c, 'x, 'e) compact_env \<Rightarrow> 'x tWriter \<Rightarrow> 'w cstate \<Rightarrow> 'w cstate \<times> 'x tWriter \<times> 'e option" where
  "tWriter_drop E t st =
     (case tWriter_close E t st of
        (st, t, Some e) \<Rightarrow> (st, t, Some e)
      | (st, t, None) \<Rightarrow>
          (let t = t\<lparr>w_tw := None, w_first := [], w_last := []\<rparr>
           in case io (ce_Remove E (w_fd t)) st of
                (st, Some e) \<Rightarrow> (st, t, Some e)
              | (st, None) \<Rightarrow> ((reuseFileNum (w_fd t) (fst st), snd st), t, None)))"

primrec append_all ::
  "('w, 'c, 'x, 'e) compact_env \<Rightarrow> entry list \<Rightarrow> 'x tWriter \<Rightarrow> 'w cstate \<Rightarrow> 'w cstate \<times> 'x tWriter \<times> 'e outcome" where
  "append_all E [] t st = (st, t, Ok)"
| "append_all E (x # xs) t st =
     (case tWriter_append E (fst x) (snd x) t st of
        (st, t, Ok) \<Rightarrow> append_all E xs t st
      | (st, t, o') \<Rightarrow> (st, t, o'))"

text \<open>\<^verbatim>\<open>createFrom\<close>, on the entries and the error of the source; the table and the number of entries count only when it ends well.\<close>

definition tOps_createFrom ::
  "('w, 'c, 'x, 'e) compact_env \<Rightarrow> entry list \<times> 'e option \<Rightarrow> 'w cstate \<Rightarrow> 'w cstate \<times> (internal_key tFile \<times> int) option \<times> 'e outcome" where
  "tOps_createFrom E src st =
     (case tOps_create E 0 st of
        (st, Inl e) \<Rightarrow> (st, None, Failed (OpErr e))
      | (st, Inr t) \<Rightarrow>
          (case (case append_all E (fst src) t st of
                   (st, t, Ok) \<Rightarrow>
                     (case snd src of
                        Some e \<Rightarrow> (st, t, None, Failed (OpErr e))
                      | None \<Rightarrow>
                          let n = (case w_tw t of None \<Rightarrow> 0 | Some x \<Rightarrow> ce_EntriesLen E x)
                          in case tWriter_finish E t st of (st, t, f, o') \<Rightarrow> (st, t, Some (f, n), o'))
                 | (st, t, o') \<Rightarrow> (st, t, None, o')) of
             (st, t, r, Failed e) \<Rightarrow>
               (case tWriter_drop E t st of (st, t, derr) \<Rightarrow> (st, None, also_error (Failed e) derr))
           | (st, t, r, o') \<Rightarrow> (st, r, o')))"

section \<open>The builder\<close>

record ('c, 'x) tableCompactionBuilder =
  b_c :: 'c
  b_sourceLevel :: nat
  b_rec :: sessionRecord
  b_snapHasLastUkey :: bool
  b_snapLastUkey :: bytes
  b_snapLastSeq :: nat
  b_snapIter :: nat
  b_snapKerrCnt :: nat
  b_snapDropCnt :: nat
  b_kerrCnt :: nat
  b_dropCnt :: nat
  b_minSeq :: nat
  b_strict :: bool
  b_tableSize :: int
  b_tw :: "'x tWriter option"

text \<open>The variables of \<^verbatim>\<open>run\<close>.\<close>

record run_vars =
  l_snapResumed :: bool
  l_hasLastUkey :: bool
  l_lastUkey :: bytes
  l_lastSeq :: nat

definition need_writer ::
  "('w, 'c, 'x, 'e) compact_env \<Rightarrow> ('c, 'x) tableCompactionBuilder \<Rightarrow> 'w cstate \<Rightarrow> 'w cstate \<times> ('e outcome + 'x tWriter)" where
  "need_writer E b st =
     (case b_tw b of
        Some t \<Rightarrow> (st, Inr t)
      | None \<Rightarrow>
          (case io (ce_pause E) st of (st, exiting) \<Rightarrow>
             if exiting then (st, Inl Exiting)
             else case tOps_create E (b_tableSize b) st of
               (st, Inl e) \<Rightarrow> (st, Inl (Failed (OpErr e)))
             | (st, Inr t) \<Rightarrow> (st, Inr t)))"

definition appendKV ::
  "('w, 'c, 'x, 'e) compact_env \<Rightarrow> internal_key \<Rightarrow> bytes \<Rightarrow> ('c, 'x) tableCompactionBuilder \<Rightarrow> 'w cstate \<Rightarrow>
   'w cstate \<times> ('c, 'x) tableCompactionBuilder \<times> 'e outcome" where
  "appendKV E key val b st =
     (case need_writer E b st of
        (st, Inl o') \<Rightarrow> (st, b, o')
      | (st, Inr t) \<Rightarrow> (case tWriter_append E key val t st of (st, t, o') \<Rightarrow> (st, b\<lparr>b_tw := Some t\<rparr>, o')))"

text \<open>\<^verbatim>\<open>needFlush\<close>; \<open>None\<close> when the table writer has been dropped.\<close>

definition needFlush :: "('w, 'c, 'x, 'e) compact_env \<Rightarrow> 'x tWriter \<Rightarrow> ('c, 'x) tableCompactionBuilder \<Rightarrow> bool option" where
  "needFlush E t b = map_option (\<lambda>x. b_tableSize b \<le> ce_BytesLen E x) (w_tw t)"

definition builder_flush ::
  "('w, 'c, 'x, 'e) compact_env \<Rightarrow> 'x tWriter \<Rightarrow> ('c, 'x) tableCompactionBuilder \<Rightarrow> 'w cstate \<Rightarrow> 'w cstate \<times> ('c, 'x) tableCompactionBuilder \<times> 'e outcome" where
  "builder_flush E t b st =
     (case tWriter_finish E t st of
        (st, t, f, Ok) \<Rightarrow> (st, b\<lparr>b_rec := addTableFile (b_sourceLevel b + 1) f (b_rec b), b_tw := None\<rparr>, Ok)
      | (st, t, f, o') \<Rightarrow> (st, b\<lparr>b_tw := Some t\<rparr>, o'))"

definition builder_cleanup ::
  "('w, 'c, 'x, 'e) compact_env \<Rightarrow> ('c, 'x) tableCompactionBuilder \<Rightarrow> 'w cstate \<Rightarrow> 'w cstate \<times> ('c, 'x) tableCompactionBuilder \<times> 'e option" where
  "builder_cleanup E b st =
     (case b_tw b of
        None \<Rightarrow> (st, b, None)
      | Some t \<Rightarrow>
          (case tWriter_drop E t st of
             (st, t, Some e) \<Rightarrow> (st, b\<lparr>b_tw := Some t\<rparr>, Some e)
           | (st, t, None) \<Rightarrow> (st, b\<lparr>b_tw := None\<rparr>, None)))"

text \<open>The state at the beginning of a table, which the next attempt starts from.\<close>

definition take_snapshot :: "('w, 'c, 'x, 'e) compact_env \<Rightarrow> nat \<Rightarrow> run_vars \<Rightarrow> ('c, 'x) tableCompactionBuilder \<Rightarrow> ('c, 'x) tableCompactionBuilder" where
  "take_snapshot E i l b =
     b\<lparr>b_c := ce_save E (b_c b), b_snapHasLastUkey := l_hasLastUkey l, b_snapLastUkey := l_lastUkey l, b_snapLastSeq := l_lastSeq l,
       b_snapIter := i, b_snapKerrCnt := b_kerrCnt b, b_snapDropCnt := b_dropCnt b\<rparr>"

text \<open>The first entry of a user key: a table that is large enough ends before it.\<close>

definition rotate ::
  "('w, 'c, 'x, 'e) compact_env \<Rightarrow> nat \<Rightarrow> bool \<Rightarrow> run_vars \<Rightarrow> ('c, 'x) tableCompactionBuilder \<Rightarrow> 'w cstate \<Rightarrow>
   'w cstate \<times> ('c, 'x) tableCompactionBuilder \<times> 'e outcome" where
  "rotate E i shouldStop l b st =
     (case b_tw b of
        None \<Rightarrow> (st, b, Ok)
      | Some t \<Rightarrow>
          (case (if shouldStop then Some True else needFlush E t b) of
             None \<Rightarrow> (st, b, Panicked)
           | Some False \<Rightarrow> (st, b, Ok)
           | Some True \<Rightarrow>
               (case builder_flush E t b st of
                  (st, b, Ok) \<Rightarrow> (st, take_snapshot E i l b, Ok)
                | (st, b, o') \<Rightarrow> (st, b, o'))))"

definition first_occurrence ::
  "('w, 'c, 'x, 'e) compact_env \<Rightarrow> nat \<Rightarrow> bool \<Rightarrow> bytes \<Rightarrow> run_vars \<Rightarrow> ('c, 'x) tableCompactionBuilder \<Rightarrow> 'w cstate \<Rightarrow>
   'w cstate \<times> ('c, 'x) tableCompactionBuilder \<times> run_vars \<times> 'e outcome" where
  "first_occurrence E i shouldStop ukey l b st =
     (if \<not> l_hasLastUkey l \<or> ce_ucmp E (l_lastUkey l) ukey \<noteq> 0
      then case rotate E i shouldStop l b st of
             (st, b, Ok) \<Rightarrow> (st, b, l\<lparr>l_hasLastUkey := True, l_lastUkey := ukey, l_lastSeq := ce_keyMaxSeq E\<rparr>, Ok)
           | (st, b, o') \<Rightarrow> (st, b, l, o')
      else (st, b, l, Ok))"

text \<open>The \<^verbatim>\<open>switch\<close> of \<^verbatim>\<open>run\<close>: whether the entry is dropped.\<close>

definition drops_entry ::
  "('w, 'c, 'x, 'e) compact_env \<Rightarrow> nat \<Rightarrow> key_type \<Rightarrow> run_vars \<Rightarrow> ('c, 'x) tableCompactionBuilder \<Rightarrow> ('c, 'x) tableCompactionBuilder \<times> bool" where
  "drops_entry E seq kt l b =
     (if l_lastSeq l \<le> b_minSeq b then (b, True)
      else if kt = KeyDel \<and> seq \<le> b_minSeq b
      then (case ce_baseLevelForKey E (l_lastUkey l) (b_c b) of (c, base) \<Rightarrow> (b\<lparr>b_c := c\<rparr>, base))
      else (b, False))"

text \<open>One entry that is not skipped.\<close>

definition run_entry ::
  "('w, 'c, 'x, 'e) compact_env \<Rightarrow> nat \<Rightarrow> internal_key \<Rightarrow> bytes \<Rightarrow> run_vars \<Rightarrow> ('c, 'x) tableCompactionBuilder \<Rightarrow> 'w cstate \<Rightarrow>
   'w cstate \<times> ('c, 'x) tableCompactionBuilder \<times> run_vars \<times> 'e outcome" where
  "run_entry E i ikey val l b st =
     (let resumed = l_snapResumed l; l = l\<lparr>l_snapResumed := False\<rparr>
      in case ce_parse E ikey of
           Inr (ukey, seq, kt) \<Rightarrow>
             (case (if resumed then (b_c b, False) else ce_shouldStopBefore E ikey (b_c b)) of (c, shouldStop) \<Rightarrow>
              case first_occurrence E i shouldStop ukey l (b\<lparr>b_c := c\<rparr>) st of
                (st, b, l, Ok) \<Rightarrow>
                  (case drops_entry E seq kt l b of (b, dropped) \<Rightarrow>
                     if dropped then (st, b\<lparr>b_dropCnt := b_dropCnt b + 1\<rparr>, l\<lparr>l_lastSeq := seq\<rparr>, Ok)
                     else case appendKV E ikey val b st of (st, b, o') \<Rightarrow> (st, b, l\<lparr>l_lastSeq := seq\<rparr>, o'))
              | (st, b, l, o') \<Rightarrow> (st, b, l, o'))
         | Inl kerr \<Rightarrow>
             if b_strict b then (st, b, l, Failed (OpErr kerr))
             else case appendKV E ikey val (b\<lparr>b_kerrCnt := b_kerrCnt b + 1\<rparr>) st of
               (st, b, o') \<Rightarrow> (st, b, l\<lparr>l_hasLastUkey := False, l_lastUkey := [], l_lastSeq := ce_keyMaxSeq E\<rparr>, o'))"

primrec run_entries ::
  "('w, 'c, 'x, 'e) compact_env \<Rightarrow> entry list \<Rightarrow> nat \<Rightarrow> run_vars \<Rightarrow> ('c, 'x) tableCompactionBuilder \<Rightarrow> 'w cstate \<Rightarrow>
   'w cstate \<times> ('c, 'x) tableCompactionBuilder \<times> 'e outcome" where
  "run_entries E [] i l b st = (st, b, Ok)"
| "run_entries E (x # xs) i l b st =
     (if i < b_snapIter b then run_entries E xs (i + 1) l b st
      else case run_entry E i (fst x) (snd x) l b st of
        (st, b, l, Ok) \<Rightarrow> run_entries E xs (i + 1) l b st
      | (st, b, l, o') \<Rightarrow> (st, b, o'))"

text \<open>The last table, when the iterator has not ended with an error.\<close>

definition finish_last ::
  "('w, 'c, 'x, 'e) compact_env \<Rightarrow> 'e option \<Rightarrow> ('c, 'x) tableCompactionBuilder \<Rightarrow> 'w cstate \<Rightarrow> 'w cstate \<times> ('c, 'x) tableCompactionBuilder \<times> 'e outcome" where
  "finish_last E ierr b st =
     (case ierr of
        Some e \<Rightarrow> (st, b, Failed (OpErr e))
      | None \<Rightarrow>
          (case b_tw b of
             None \<Rightarrow> (st, b, Ok)
           | Some t \<Rightarrow> if tWriter_empty t then (st, b, Ok) else builder_flush E t b st))"

text \<open>\<^verbatim>\<open>run\<close>, its beginning and then the rest with the deferred cleanup.\<close>

definition start_vars :: "('c, 'x) tableCompactionBuilder \<Rightarrow> run_vars" where
  "start_vars b =
     \<lparr>l_snapResumed = (0 < b_snapIter b), l_hasLastUkey = b_snapHasLastUkey b, l_lastUkey = b_snapLastUkey b, l_lastSeq = b_snapLastSeq b\<rparr>"

definition start_builder :: "('w, 'c, 'x, 'e) compact_env \<Rightarrow> ('c, 'x) tableCompactionBuilder \<Rightarrow> ('c, 'x) tableCompactionBuilder" where
  "start_builder E b = b\<lparr>b_kerrCnt := b_snapKerrCnt b, b_dropCnt := b_snapDropCnt b, b_c := ce_restore E (b_c b)\<rparr>"

definition builder_run ::
  "('w, 'c, 'x, 'e) compact_env \<Rightarrow> ('c, 'x) tableCompactionBuilder \<Rightarrow> 'w cstate \<Rightarrow> 'w cstate \<times> ('c, 'x) tableCompactionBuilder \<times> 'e outcome" where
  "builder_run E b st =
     (case io (ce_newIterator E) st of (st, xs, ierr) \<Rightarrow>
      case run_entries E xs 0 (start_vars b) (start_builder E b) st of (st, b, o') \<Rightarrow>
      case (if o' = Ok then finish_last E ierr b st else (st, b, o')) of (st, b, o') \<Rightarrow>
      case builder_cleanup E b st of (st, b, cerr) \<Rightarrow> (st, b, also_error o' cerr))"

text \<open>\<^verbatim>\<open>revert\<close> stops at the first file it cannot remove.\<close>

primrec remove_tables :: "('w, 'c, 'x, 'e) compact_env \<Rightarrow> atRecord list \<Rightarrow> 'w cstate \<Rightarrow> 'w cstate \<times> 'e option" where
  "remove_tables E [] st = (st, None)"
| "remove_tables E (t # ts) st =
     (case io (ce_Remove E (at_num t)) st of (st, Some e) \<Rightarrow> (st, Some e) | (st, None) \<Rightarrow> remove_tables E ts st)"

definition builder_revert :: "('w, 'c, 'x, 'e) compact_env \<Rightarrow> ('c, 'x) tableCompactionBuilder \<Rightarrow> 'w cstate \<Rightarrow> 'w cstate \<times> 'e option" where
  "builder_revert E b st = remove_tables E (addedTables (b_rec b)) st"

section \<open>The transaction\<close>

text \<open>
  One round of the loop of \<^verbatim>\<open>compactionTransact\<close>, on the methods \<open>run\<close> and \<open>revert\<close> of the transaction: how it ends, or that there is another round.
\<close>

definition transact_round ::
  "('w, 'c, 'x, 'e) compact_env \<Rightarrow> ('b \<Rightarrow> 'w cstate \<Rightarrow> 'w cstate \<times> 'b \<times> 'e outcome) \<Rightarrow> 'b \<Rightarrow> 'w cstate \<Rightarrow> 'w cstate \<times> 'b \<times> 'e outcome option" where
  "transact_round E run b st =
     (case io (ce_isClosed E) st of (st, isClosed) \<Rightarrow>
        if isClosed then (st, b, Some Exiting)
        else case run b st of (st, b, err) \<Rightarrow>
          if err = Exiting \<or> err = Panicked then (st, b, Some err)
          else case io (ce_setError E (err \<noteq> Ok)) st of (st, sig) \<Rightarrow>
            if sig = SigClosed \<or> sig = SigPersistent \<and> err \<noteq> Ok then (st, b, Some Exiting)
            else if err = Ok then (st, b, Some Ok)
            else if error_corrupted E err then (st, b, Some Exiting)
            else case io (ce_backoff E) st of (st, isClosed) \<Rightarrow> (st, b, if isClosed then Some Exiting else None))"

text \<open>
  \<^verbatim>\<open>compactionTransact\<close> ends well, or with a panic; at \<^verbatim>\<open>errCompactionTransactExiting\<close> the work is reverted.  A transaction that is retried for
  ever is \<open>None\<close>.
\<close>

partial_function (option) compactionTransact ::
  "('w, 'c, 'x, 'e) compact_env \<Rightarrow> ('b \<Rightarrow> 'w cstate \<Rightarrow> 'w cstate \<times> 'b \<times> 'e outcome) \<Rightarrow> ('b \<Rightarrow> 'w cstate \<Rightarrow> 'w cstate \<times> 'e option) \<Rightarrow>
   'b \<Rightarrow> 'w cstate \<Rightarrow> ('w cstate \<times> 'b \<times> 'e outcome) option" where
  "compactionTransact E run revert b st =
     (case transact_round E run b st of (st, b, res) \<Rightarrow>
        case res of
          None \<Rightarrow> compactionTransact E run revert b st
        | Some o' \<Rightarrow> Some (if o' = Exiting then fst (revert b st) else st, b, o'))"

declare compactionTransact.simps [code]

section \<open>The compaction\<close>

text \<open>What \<^verbatim>\<open>tableCompaction\<close> writes into the record of a table that is only moved, and of the tables that are merged.\<close>

definition move_record :: "nat \<Rightarrow> internal_key \<Rightarrow> internal_key tFile \<Rightarrow> sessionRecord" where
  "move_record sourceLevel cmax t =
     addTableFile (sourceLevel + 1) t (delTable (int sourceLevel) (fd_num t) (addCompPtr (int sourceLevel) cmax empty_record))"

definition merge_record :: "nat \<Rightarrow> internal_key \<Rightarrow> internal_key tFile list \<Rightarrow> internal_key tFile list \<Rightarrow> sessionRecord" where
  "merge_record sourceLevel cmax ts0 ts1 =
     fold (\<lambda>t. delTable (int sourceLevel + 1) (fd_num t)) ts1
       (fold (\<lambda>t. delTable (int sourceLevel) (fd_num t)) ts0 (addCompPtr (int sourceLevel) cmax empty_record))"

definition new_builder :: "'c \<Rightarrow> nat \<Rightarrow> sessionRecord \<Rightarrow> nat \<Rightarrow> bool \<Rightarrow> int \<Rightarrow> ('c, 'x) tableCompactionBuilder" where
  "new_builder c sourceLevel rec minSeq strict tableSize =
     \<lparr>b_c = c, b_sourceLevel = sourceLevel, b_rec = rec, b_snapHasLastUkey = False, b_snapLastUkey = [], b_snapLastSeq = 0, b_snapIter = 0,
       b_snapKerrCnt = 0, b_snapDropCnt = 0, b_kerrCnt = 0, b_dropCnt = 0, b_minSeq = minSeq, b_strict = strict, b_tableSize = tableSize, b_tw = None\<rparr>"

text \<open>The part of \<^verbatim>\<open>tableCompaction\<close> that merges, up to the commit of the record.\<close>

definition merge_tables ::
  "('w, 'c, 'x, 'e) compact_env \<Rightarrow> 'c \<Rightarrow> nat \<Rightarrow> internal_key \<Rightarrow> internal_key tFile list \<Rightarrow> internal_key tFile list \<Rightarrow> nat \<Rightarrow> bool \<Rightarrow> int \<Rightarrow>
   'w cstate \<Rightarrow> ('w cstate \<times> ('c, 'x) tableCompactionBuilder \<times> 'e outcome) option" where
  "merge_tables E c sourceLevel cmax ts0 ts1 minSeq strict tableSize st =
     compactionTransact E (builder_run E) (builder_revert E)
       (new_builder c sourceLevel (merge_record sourceLevel cmax ts0 ts1) minSeq strict tableSize) st"

end
