(* ===== verification/Ldb_Merge.thy ===== *)
theory Ldb_Merge
  imports Ldb_Compaction
begin

text \<open>
  What a compaction does to the data.  The survivors of a list of entries are defined without tables, attempts or failures; reading at a snapshot
  that may still be read gives the same in them as in the entries.  The locale \<open>compaction_store\<close> is the contract of the storage, of the table format
  and of the methods of \<^verbatim>\<open>compaction\<close>: under it every attempt keeps the invariant \<open>between\<close>, whichever calls fail, so that a transaction
  that ends well leaves exactly the survivors in its tables.  The locale \<open>steady_store\<close> adds that only finitely many calls fail: then the
  transaction ends well.  Both are interpreted on tables in memory with a list of failures.
\<close>

section \<open>The entries that survive\<close>

text \<open>
  The state between two entries is the last user key with its last sequence number, or \<open>None\<close> at the beginning and after a key that cannot be parsed.
\<close>

definition entry_step ::
  "('w, 'c, 'x, 'e) compact_env \<Rightarrow> nat \<Rightarrow> (bytes \<Rightarrow> bool) \<Rightarrow> (bytes \<times> nat) option \<Rightarrow> entry \<Rightarrow> (bytes \<times> nat) option \<times> bool" where
  "entry_step E m base p x =
     (case ce_parse E (fst x) of
        Inl _ \<Rightarrow> (None, True)
      | Inr (u, q, kt) \<Rightarrow>
          (let lq = (case p of Some (lu, lq) \<Rightarrow> if lu = u then lq else ce_keyMaxSeq E | None \<Rightarrow> ce_keyMaxSeq E)
           in (Some (u, q), \<not> (lq \<le> m \<or> kt = KeyDel \<and> q \<le> m \<and> base u))))"

primrec survivors ::
  "('w, 'c, 'x, 'e) compact_env \<Rightarrow> nat \<Rightarrow> (bytes \<Rightarrow> bool) \<Rightarrow> (bytes \<times> nat) option \<Rightarrow> entry list \<Rightarrow> entry list" where
  "survivors E m base p [] = []"
| "survivors E m base p (x # xs) =
     (let (p', keep) = entry_step E m base p x in (if keep then [x] else []) @ survivors E m base p' xs)"

definition after :: "('w, 'c, 'x, 'e) compact_env \<Rightarrow> nat \<Rightarrow> (bytes \<Rightarrow> bool) \<Rightarrow> (bytes \<times> nat) option \<Rightarrow> entry list \<Rightarrow> (bytes \<times> nat) option" where
  "after E m base p xs = fold (\<lambda>x p. fst (entry_step E m base p x)) xs p"

text \<open>Entries in the order of an internal key: by user key, and newest first.\<close>

definition entry_le :: "('w, 'c, 'x, 'e) compact_env \<Rightarrow> entry \<Rightarrow> entry \<Rightarrow> bool" where
  "entry_le E x y =
     (case (ce_parse E (fst x), ce_parse E (fst y)) of
        (Inr (u, q, _), Inr (u', q', _)) \<Rightarrow> ce_ucmp E u u' < 0 \<or> u = u' \<and> q' \<le> q
      | _ \<Rightarrow> True)"

definition ordered :: "('w, 'c, 'x, 'e) compact_env \<Rightarrow> entry list \<Rightarrow> bool" where
  "ordered E es = sorted_wrt (entry_le E) es"

definition parses :: "('w, 'c, 'x, 'e) compact_env \<Rightarrow> entry list \<Rightarrow> bool" where
  "parses E es = list_all (\<lambda>x. \<not> isl (ce_parse E (fst x))) es"

text \<open>The user key of an entry, and whether it is an entry of \<open>u\<close> that is visible at the sequence number \<open>q\<close>.\<close>

definition entry_ukey :: "('w, 'c, 'x, 'e) compact_env \<Rightarrow> entry \<Rightarrow> bytes option" where
  "entry_ukey E x = (case ce_parse E (fst x) of Inl _ \<Rightarrow> None | Inr (u, q, kt) \<Rightarrow> Some u)"

definition seen_at :: "('w, 'c, 'x, 'e) compact_env \<Rightarrow> nat \<Rightarrow> bytes \<Rightarrow> entry \<Rightarrow> bool" where
  "seen_at E q u x = (case ce_parse E (fst x) of Inl _ \<Rightarrow> False | Inr (u', q', kt) \<Rightarrow> u' = u \<and> q' \<le> q)"

text \<open>Reading a user key at a sequence number: the first visible entry decides, else the levels below.\<close>

definition read_at :: "('w, 'c, 'x, 'e) compact_env \<Rightarrow> (bytes \<Rightarrow> bytes option) \<Rightarrow> nat \<Rightarrow> bytes \<Rightarrow> entry list \<Rightarrow> bytes option" where
  "read_at E deeper q u es =
     (case find (seen_at E q u) es of
        None \<Rightarrow> deeper u
      | Some x \<Rightarrow> (case ce_parse E (fst x) of Inr (_, _, KeyVal) \<Rightarrow> Some (snd x) | _ \<Rightarrow> None))"

lemma survivors_append: "survivors E m base p (xs @ ys) = survivors E m base p xs @ survivors E m base (after E m base p xs) ys"
  by (induction xs arbitrary: p) (auto simp: after_def split: prod.split)

lemma after_append [simp]: "after E m base p (xs @ ys) = after E m base (after E m base p xs) ys" "after E m base p [] = p"
  "after E m base p (x # xs) = after E m base (fst (entry_step E m base p x)) xs"
  by (simp_all add: after_def)

lemma survivors_subset: "set (survivors E m base p es) \<subseteq> set es"
  by (induction es arbitrary: p) (auto split: prod.splits if_splits)

lemma find_none_subset: "set ys \<subseteq> set xs \<Longrightarrow> find P xs = None \<Longrightarrow> find P ys = None"
  by (auto simp: find_None_iff)

lemma seen_ukey: "seen_at E q u x \<Longrightarrow> entry_ukey E x = Some u"
  by (auto simp: seen_at_def entry_ukey_def split: sum.splits)

text \<open>After an entry of \<open>u\<close> that every reader sees, all others of \<open>u\<close> are dropped.\<close>

lemma older_dropped:
  assumes "ordered E (y # es)" and "parses E es" and "ce_parse E (fst y) = Inr (u, lq, kt)" and "lq \<le> m"
    and irrefl: "\<And>a. \<not> ce_ucmp E a a < 0" and trans: "\<And>a b c. ce_ucmp E a b < 0 \<Longrightarrow> ce_ucmp E b c < 0 \<Longrightarrow> ce_ucmp E a c < 0"
  shows "find (seen_at E q u) (survivors E m base (Some (u, lq)) es) = None"
  using assms(1-4)
proof (induction es arbitrary: y lq kt)
  case (Cons x es)
  obtain u1 q1 k1 where x: "ce_parse E (fst x) = Inr (u1, q1, k1)"
    using Cons.prems(2) by (cases "ce_parse E (fst x)") (auto simp: parses_def)
  show ?case
  proof (cases "u1 = u")
    case True
    have "q1 \<le> lq"
      using Cons.prems(1,3) x True irrefl by (auto simp: ordered_def entry_le_def)
    then show ?thesis
      using Cons.IH [of x q1 k1] Cons.prems x True by (auto simp: ordered_def parses_def entry_step_def)
  next
    case False
    then have less: "ce_ucmp E u u1 < 0"
      using Cons.prems(1,3) x by (auto simp: ordered_def entry_le_def)
    have "entry_ukey E z \<noteq> Some u" if "z \<in> set (x # es)" for z
    proof
      assume z: "entry_ukey E z = Some u"
      then obtain qz kz where "ce_parse E (fst z) = Inr (u, qz, kz)"
        by (auto simp: entry_ukey_def split: sum.splits prod.splits)
      moreover have "z = x \<or> entry_le E x z"
        using that Cons.prems(1) by (auto simp: ordered_def)
      ultimately show False
        using x False less irrefl [of u] trans [of u u1 u] by (auto simp: entry_le_def)
    qed
    then have "\<not> seen_at E q u z" if "z \<in> set (survivors E m base (Some (u, lq)) (x # es))" for z
      using that survivors_subset [of E m base "Some (u, lq)" "x # es"] seen_ukey by blast
    then show ?thesis
      by (auto simp: find_None_iff)
  qed
qed simp

lemma read_seen:
  "seen_at E q u x \<Longrightarrow> read_at E deeper q u (x # xs) = (case ce_parse E (fst x) of Inr (_, _, KeyVal) \<Rightarrow> Some (snd x) | _ \<Rightarrow> None)"
  "\<not> seen_at E q u x \<Longrightarrow> read_at E deeper q u (x # xs) = read_at E deeper q u xs"
  by (simp_all add: read_at_def)

lemma survivors_read_from:
  assumes "ordered E es" and "parses E es" and "case p of None \<Rightarrow> True | Some (lu, lq) \<Rightarrow> lu = u \<longrightarrow> m < lq"
    and "m \<le> q" and "m < ce_keyMaxSeq E" and "base u \<Longrightarrow> deeper u = None"
    and irrefl: "\<And>a. \<not> ce_ucmp E a a < 0" and trans: "\<And>a b c. ce_ucmp E a b < 0 \<Longrightarrow> ce_ucmp E b c < 0 \<Longrightarrow> ce_ucmp E a c < 0"
  shows "read_at E deeper q u (survivors E m base p es) = read_at E deeper q u es"
  using assms(1-3)
proof (induction es arbitrary: p)
  case (Cons x es)
  obtain u1 q1 k1 where x: "ce_parse E (fst x) = Inr (u1, q1, k1)"
    using Cons.prems(2) by (cases "ce_parse E (fst x)") (auto simp: parses_def)
  have IH: "read_at E deeper q u (survivors E m base (Some (u1, q1)) es) = read_at E deeper q u es" if "u1 = u \<longrightarrow> m < q1"
    using Cons.IH [of "Some (u1, q1)"] Cons.prems that by (simp add: ordered_def parses_def)
  have next_p: "fst (entry_step E m base p x) = Some (u1, q1)"
    by (simp add: entry_step_def x Let_def)
  have keep: "snd (entry_step E m base p x) \<longleftrightarrow> \<not> (k1 = KeyDel \<and> q1 \<le> m \<and> base u)" if "u1 = u"
    using Cons.prems(3) assms(5) that by (auto simp: entry_step_def x Let_def split: option.splits)
  show ?case
  proof (cases "seen_at E q u x")
    case False
    then have "u1 = u \<longrightarrow> m < q1"
      using assms(4) by (auto simp: seen_at_def x)
    then show ?thesis
      using IH next_p False by (auto simp: read_seen split: prod.split)
  next
    case True
    then have u: "u1 = u"
      by (simp add: seen_at_def x)
    show ?thesis
    proof (cases "snd (entry_step E m base p x)")
      case True
      then show ?thesis
        using \<open>seen_at E q u x\<close> by (auto simp: read_seen split: prod.split)
    next
      case False
      then have gone: "k1 = KeyDel" "q1 \<le> m" "base u"
        using keep u by auto
      then have "find (seen_at E q u) (survivors E m base (Some (u, q1)) es) = None"
        using older_dropped [of E x es u q1 k1 m q base] Cons.prems x u irrefl trans by (simp add: parses_def)
      then show ?thesis
        using \<open>seen_at E q u x\<close> gone assms(6) x u next_p False by (auto simp: read_seen read_at_def split: prod.split)
    qed
  qed
qed (simp add: read_at_def)


section \<open>The contract of what a compaction calls\<close>

text \<open>
  A step of the outside world that leaves alone the contents of all tables but those of \<open>A\<close>, and does not repair the writers of files that could not be
  closed, but perhaps those of \<open>B\<close>.
\<close>

definition keeps ::
  "('w \<Rightarrow> int \<Rightarrow> entry list) \<Rightarrow> ('w \<Rightarrow> int \<Rightarrow> bool) \<Rightarrow> int set \<Rightarrow> int set \<Rightarrow> 'w \<Rightarrow> 'w \<Rightarrow> bool" where
  "keeps content broken A B w w' \<longleftrightarrow>
     (\<forall>n. n \<notin> A \<longrightarrow> content w' n = content w n) \<and> (\<forall>n. n \<notin> B \<longrightarrow> broken w n \<longrightarrow> broken w' n)"

lemma keeps_refl [simp, intro]: "keeps content broken A B w w"
  by (simp add: keeps_def)

lemma keeps_trans: "keeps content broken A B w w' \<Longrightarrow> keeps content broken A B w' w'' \<Longrightarrow> keeps content broken A B w w''"
  by (simp add: keeps_def)

lemma keeps_mono: "keeps content broken A B w w' \<Longrightarrow> A \<subseteq> A' \<Longrightarrow> B \<subseteq> B' \<Longrightarrow> keeps content broken A' B' w w'"
  by (auto simp: keeps_def)

lemma keeps_then: "keeps content broken A B w w' \<Longrightarrow> keeps content broken {} {} w' w'' \<Longrightarrow> keeps content broken A B w w''"
  by (auto simp: keeps_def)

lemma keeps_content: "keeps content broken {} B w w' \<Longrightarrow> content w' n = content w n"
  by (simp add: keeps_def)

text \<open>A table of a record and its entries; lists of entries that share no user key.\<close>

definition holds_table :: "('w \<Rightarrow> int \<Rightarrow> entry list) \<Rightarrow> nat \<Rightarrow> 'w \<Rightarrow> atRecord \<Rightarrow> entry list \<Rightarrow> bool" where
  "holds_table content lv w t xs \<longleftrightarrow>
     xs \<noteq> [] \<and> content w (at_num t) = xs \<and> at_imin t = fst (hd xs) \<and> at_imax t = fst (last xs) \<and> at_level t = int lv"

definition separate :: "('w, 'c, 'x, 'e) compact_env \<Rightarrow> entry list \<Rightarrow> entry list \<Rightarrow> bool" where
  "separate E xs ys \<longleftrightarrow> (\<forall>x \<in> set xs. \<forall>y \<in> set ys. entry_ukey E x \<noteq> entry_ukey E y)"

definition ukeys_of :: "('w, 'c, 'x, 'e) compact_env \<Rightarrow> entry list \<Rightarrow> bytes list" where
  "ukeys_of E xs = List.map_filter (entry_ukey E) xs"

text \<open>
  The tables hold what the writers were given once they are closed, and a writer that could not be closed cannot be closed later either.  The iterator delivers
  \<open>es\<close>, or an initial part of it and an error.  \<open>base u\<close> says that no level below holds \<open>u\<close>; \<^verbatim>\<open>baseLevelForKey\<close> finds it as long as it is
  asked in the order of the keys (\<open>ready\<close>), which \<^verbatim>\<open>restore\<close> sets back to what \<^verbatim>\<open>save\<close> saw (\<open>saved\<close>).
\<close>

locale compaction_store =
  fixes E :: "('w, 'c, 'x, 'e) compact_env"
    and es :: "entry list"
    and base :: "bytes \<Rightarrow> bool"
    and buf :: "'x \<Rightarrow> entry list"
    and wfd :: "'x \<Rightarrow> int"
    and content :: "'w \<Rightarrow> int \<Rightarrow> entry list"
    and broken :: "'w \<Rightarrow> int \<Rightarrow> bool"
    and ready :: "'c \<Rightarrow> bytes list \<Rightarrow> bool"
    and saved :: "'c \<Rightarrow> bytes list \<Rightarrow> bool"
  assumes ucmp_eq: "ce_ucmp E u v = 0 \<longleftrightarrow> u = v"
    and ucmp_irrefl: "\<not> ce_ucmp E u u < 0"
    and ucmp_trans: "ce_ucmp E u v < 0 \<Longrightarrow> ce_ucmp E v u' < 0 \<Longrightarrow> ce_ucmp E u u' < 0"
    and keys: "y \<in> set es \<Longrightarrow> fst y \<noteq> []"
    and NewWriter: "buf (ce_NewWriter E n z) = [] \<and> wfd (ce_NewWriter E n z) = n"
    and Create: "ce_Create E n w = (w', r) \<Longrightarrow> keeps content broken {n} {n} w w'"
    and Append: "ce_Append E k v x w = (w', x', r) \<Longrightarrow>
      keeps content broken {wfd x} {} w w' \<and> wfd x' = wfd x \<and> (r = None \<longrightarrow> buf x' = buf x @ [(k, v)])"
    and CloseTable: "ce_CloseTable E x w = (w', x', r) \<Longrightarrow>
      keeps content broken {wfd x} {} w w' \<and> wfd x' = wfd x \<and> (r = None \<longrightarrow> content w' (wfd x) = buf x)"
    and Sync: "ce_Sync E n w = (w', r) \<Longrightarrow> keeps content broken {} {} w w'"
    and CloseFile: "ce_CloseFile E n w = (w', r) \<Longrightarrow>
      keeps content broken {} {} w w' \<and> (r \<noteq> None \<longrightarrow> broken w' n) \<and> (broken w n \<longrightarrow> r \<noteq> None)"
    and Remove: "ce_Remove E n w = (w', r) \<Longrightarrow> keeps content broken {n} {n} w w'"
    and newIterator: "ce_newIterator E w = (w', xs, r) \<Longrightarrow>
      keeps content broken {} {} w w' \<and> (\<exists>ys. es = xs @ ys) \<and> (r = None \<longrightarrow> xs = es)"
    and channels: "ce_pause E w = (w', b) \<Longrightarrow> keeps content broken {} {} w w'"
      "ce_isClosed E w = (w', b) \<Longrightarrow> keeps content broken {} {} w w'"
      "ce_setError E b w = (w', sig) \<Longrightarrow> keeps content broken {} {} w w'"
      "ce_backoff E w = (w', b) \<Longrightarrow> keeps content broken {} {} w w'"
    and baseLevelForKey: "ready c (u # us) \<Longrightarrow> ce_baseLevelForKey E u c = (c', b) \<Longrightarrow>
      b = base u \<and> ready c' (u # us) \<and> (\<forall>vs. saved c vs \<longrightarrow> saved c' vs)"
    and shouldStopBefore: "ce_shouldStopBefore E k c = (c', b) \<Longrightarrow> (ready c us \<longrightarrow> ready c' us) \<and> (saved c us \<longrightarrow> saved c' us)"
    and ready_next: "ready c (u # us) \<Longrightarrow> ready c us"
    and save: "ready c us \<Longrightarrow> saved (ce_save E c) us \<and> ready (ce_save E c) us"
    and restore: "saved c us \<Longrightarrow> ready (ce_restore E c) us \<and> saved (ce_restore E c) us"
begin

text \<open>What the steps of the table writer do; the session changes only in its file number.\<close>

lemma io_eq: "io f (s, w) = (st', r) \<longleftrightarrow> (\<exists>w'. f w = (w', r) \<and> st' = (s, w'))"
  by (auto simp: io_def split: prod.splits)

lemma close_cases:
  assumes "tWriter_close E t (s, w) = (st', t', r)"
  obtains w' where "st' = (s, w')" "keeps content broken {} {} w w'" "r = None" "t' = t\<lparr>w_open := False\<rparr>" "\<not> (w_open t \<and> broken w (w_fd t))"
  | w' where "st' = (s, w')" "keeps content broken {} {} w w'" "r \<noteq> None" "t' = t" "w_open t" "broken w' (w_fd t)"
proof (cases "w_open t")
  case True
  then obtain w' e where c: "ce_CloseFile E (w_fd t) w = (w', e)" "st' = (s, w')" "r = e" "t' = (if e = None then t\<lparr>w_open := False\<rparr> else t)"
    using assms by (auto simp: tWriter_close_def io_eq split: prod.splits option.splits)
  show ?thesis
    using that c True CloseFile [OF c(1)] by (cases e) auto
next
  case False
  then have "t\<lparr>w_open := False\<rparr> = t"
    by (cases t) auto
  then show ?thesis
    using that assms False by (auto simp: tWriter_close_def)
qed

text \<open>What is left of the writer when it was not possible to drop it: nothing but the file, or a file that cannot be closed.\<close>

definition stale :: "'w \<Rightarrow> 'x tWriter \<Rightarrow> bool" where
  "stale w t \<longleftrightarrow> w_open t \<and> broken w (w_fd t) \<or> \<not> w_open t \<and> w_tw t = None \<and> w_first t = []"

definition own_fd :: "'x tWriter \<Rightarrow> bool" where
  "own_fd t \<longleftrightarrow> (\<forall>x. w_tw t = Some x \<longrightarrow> wfd x = w_fd t)"

lemma drop_cases:
  assumes "tWriter_drop E t (s, w) = (st', t', r)" and "own_fd t"
  obtains w' where "st' = (reuseFileNum (w_fd t) s, w')" "keeps content broken {w_fd t} {w_fd t} w w'" "r = None"
  | w' where "st' = (s, w')" "keeps content broken {w_fd t} {w_fd t} w w'" "r \<noteq> None" "w_fd t' = w_fd t" "stale w' t'" "own_fd t'"
proof -
  obtain st1 t1 r1 where c: "tWriter_close E t (s, w) = (st1, t1, r1)"
    by (cases "tWriter_close E t (s, w)") auto
  show ?thesis
  proof (rule close_cases [OF c])
    fix w1 assume 1: "st1 = (s, w1)" "keeps content broken {} {} w w1" "r1 = None" "t1 = t\<lparr>w_open := False\<rparr>"
    obtain w2 e where 2: "ce_Remove E (w_fd t) w1 = (w2, e)"
      by (cases "ce_Remove E (w_fd t) w1") auto
    have k: "keeps content broken {w_fd t} {w_fd t} w w2"
      using keeps_mono [OF 1(2)] Remove [OF 2] by (blast intro: keeps_trans)
    show ?thesis
      using that assms c 1 2 k by (cases e) (auto simp: tWriter_drop_def io_def stale_def own_fd_def)
  next
    fix w1 assume "st1 = (s, w1)" "keeps content broken {} {} w w1" "r1 \<noteq> None" "t1 = t" "w_open t" "broken w1 (w_fd t)"
    then show ?thesis
      using that(2) [of w1] assms c keeps_mono [of content broken "{}" "{}" w w1] by (auto simp: tWriter_drop_def stale_def)
  qed
qed

lemma finish_cases:
  assumes "tWriter_finish E t (s, w) = (st', t', f, o')" and "own_fd t"
  obtains w' x where "st' = (s, w')" "keeps content broken {w_fd t} {} w w'" "o' = Ok" "w_tw t = Some x" "content w' (w_fd t) = buf x"
      "fd_num f = w_fd t" "imin f = w_first t" "imax f = w_last t" "\<not> (w_open t \<and> broken w (w_fd t))"
  | w' where "st' = (s, w')" "keeps content broken {w_fd t} {} w w'" "o' \<noteq> Ok" "w_fd t' = w_fd t" "own_fd t'"
proof -
  obtain st1 t1 o1 st2 r where f: "finish_table E t (s, w) = (st1, t1, o1)" and c: "tWriter_close E t1 st1 = (st2, t', r)"
    and st': "st' = st2" and f': "f = newTableFile (w_fd t') (written_size E t') (w_first t') (w_last t')" and o': "o' = also_error o1 r"
    using assms(1) by (auto simp: tWriter_finish_def split: prod.splits)
  obtain w1 where 1: "st1 = (s, w1)" "keeps content broken {w_fd t} {} w w1" "w_fd t1 = w_fd t" "own_fd t1" "w_open t1 = w_open t"
      "w_first t1 = w_first t" "w_last t1 = w_last t" "o1 = Ok \<longrightarrow> (\<exists>x. w_tw t = Some x \<and> content w1 (w_fd t) = buf x)"
  proof (cases "w_tw t")
    case None
    then show ?thesis
      using that [of w] f assms(2) by (auto simp: finish_table_def)
  next
    case (Some x)
    obtain w2 x2 e where a: "ce_CloseTable E x w = (w2, x2, e)"
      by (cases "ce_CloseTable E x w") auto
    obtain w3 e3 where b: "ce_Sync E (w_fd t) w2 = (w3, e3)"
      by (cases "ce_Sync E (w_fd t) w2") auto
    have k2: "keeps content broken {w_fd t} {} w w2"
      using CloseTable [OF a] Some assms(2) by (auto simp: own_fd_def)
    then have "keeps content broken {w_fd t} {} w w3"
      using keeps_then [OF _ Sync [OF b]] by blast
    moreover have "content w3 (w_fd t) = content w2 (w_fd t)"
      using keeps_content [OF Sync [OF b]] by simp
    ultimately show ?thesis
      using that [of w2] that [of w3] k2 f Some a b CloseTable [OF a] assms(2)
      by (auto simp: finish_table_def io_def own_fd_def Let_def split: option.splits if_splits)
  qed
  have fd: "fd_num (newTableFile n z i j) = n" "imin (newTableFile n z i j) = i" "imax (newTableFile n z i j) = j" for n z and i j :: internal_key
    by (simp_all add: newTableFile_def Let_def)
  show ?thesis
  proof (rule close_cases [OF c [unfolded 1(1)]])
    fix w2 assume 2: "st2 = (s, w2)" "keeps content broken {} {} w1 w2" "r = None" "t' = t1\<lparr>w_open := False\<rparr>" "\<not> (w_open t1 \<and> broken w1 (w_fd t1))"
    have k: "keeps content broken {w_fd t} {} w w2" "content w2 (w_fd t) = content w1 (w_fd t)"
      using keeps_then [OF 1(2) 2(2)] keeps_content [OF 2(2)] by auto
    show ?thesis
    proof (cases "o1 = Ok")
      case True
      then obtain x where "w_tw t = Some x" "content w1 (w_fd t) = buf x"
        using 1 by blast
      moreover have "\<not> (w_open t \<and> broken w (w_fd t))"
        using 1 2(5) by (auto simp: keeps_def)
      ultimately show ?thesis
        using that(1) [of w2 x] st' f' o' 1 2 k True fd by simp
    next
      case False
      then show ?thesis
        using that(2) [of w2] st' o' 1 2 k by (cases o1) (auto simp: own_fd_def)
    qed
  next
    fix w2 assume 2: "st2 = (s, w2)" "keeps content broken {} {} w1 w2" "r \<noteq> None" "t' = t1" "w_open t1" "broken w2 (w_fd t1)"
    have k: "keeps content broken {w_fd t} {} w w2"
      by (rule keeps_then [OF 1(2) 2(2)])
    show ?thesis
      using that(2) [of w2] st' o' 1 2 k by (cases o1; cases r) auto
  qed
qed

text \<open>The entries between two positions that survive.\<close>

definition state_at :: "nat \<Rightarrow> nat \<Rightarrow> (bytes \<times> nat) option" where
  "state_at m i = after E m base None (take i es)"

definition kept :: "nat \<Rightarrow> nat \<Rightarrow> nat \<Rightarrow> entry list" where
  "kept m i j = survivors E m base (state_at m i) (drop i (take j es))"

definition tidy :: bool where
  "tidy \<longleftrightarrow> ordered E es \<and> parses E es"

lemma state_at_Suc: "i < length es \<Longrightarrow> state_at m (Suc i) = fst (entry_step E m base (state_at m i) (es ! i))"
  by (simp add: state_at_def take_Suc_conv_app_nth)

lemma kept_Suc:
  assumes "k \<le> i" and "i < length es"
  shows "kept m k (Suc i) = kept m k i @ (if snd (entry_step E m base (state_at m i) (es ! i)) then [es ! i] else [])"
proof -
  have "take i es = take k es @ drop k (take i es)"
    using assms(1) by (metis append_take_drop_id min.absorb1 take_take)
  then have "after E m base (state_at m k) (drop k (take i es)) = state_at m i"
    unfolding state_at_def by (metis after_append(1))
  then show ?thesis
    using assms by (auto simp: kept_def take_Suc_conv_app_nth survivors_append split: prod.splits)
qed

lemma kept_same [simp]: "kept m k k = []"
  by (simp add: kept_def)

lemma kept_append: "i \<le> j \<Longrightarrow> survivors E m base None (take j es) = survivors E m base None (take i es) @ kept m i j"
  unfolding kept_def state_at_def survivors_append [symmetric] by (metis append_take_drop_id min.absorb1 take_take)

lemma kept_subset: "set (kept m i j) \<subseteq> set (drop i es)"
  using survivors_subset [of E m base "state_at m i" "drop i (take j es)"] by (auto simp: kept_def drop_take dest: in_set_takeD)

text \<open>The builder owns its tables and its writer.\<close>

definition owns :: "nat \<Rightarrow> ('c, 'x) tableCompactionBuilder \<Rightarrow> session \<Rightarrow> 'w \<Rightarrow> entry list list \<Rightarrow> bool" where
  "owns lv b s w outs \<longleftrightarrow>
     b_sourceLevel b + 1 = lv \<and> list_all2 (holds_table content lv w) (addedTables (b_rec b)) outs \<and> distinct (map at_num (addedTables (b_rec b))) \<and>
     (\<forall>t \<in> set (addedTables (b_rec b)). at_num t < s_nextFileNum s) \<and> (tidy \<longrightarrow> sorted_wrt (separate E) outs) \<and>
     (case b_tw b of None \<Rightarrow> True | Some t \<Rightarrow> own_fd t \<and> w_fd t < s_nextFileNum s \<and> w_fd t \<notin> at_num ` set (addedTables (b_rec b)))"

text \<open>The writer holds what survived since the last complete table, unless it is stale.\<close>

definition live :: "'x tWriter \<Rightarrow> entry list \<Rightarrow> bool" where
  "live t xs \<longleftrightarrow> w_open t \<and> (\<exists>x. w_tw t = Some x \<and> buf x = xs) \<and> w_first t = (case xs of [] \<Rightarrow> [] | x # _ \<Rightarrow> fst x) \<and> 
     (xs \<noteq> [] \<longrightarrow> w_first t \<noteq> [] \<and> w_last t = fst (last xs))"

definition writes :: "'w \<Rightarrow> 'x tWriter option \<Rightarrow> entry list \<Rightarrow> bool" where
  "writes w tw xs =
     (case tw of
        None \<Rightarrow> xs = []
      | Some t \<Rightarrow> stale w t \<and> (w_open t \<or> xs = []) \<or> live t xs \<and> xs \<noteq> [])"

lemma list_all2_holds_keeps:
  "list_all2 (holds_table content lv w) ts outs \<Longrightarrow> keeps content broken A B w w' \<Longrightarrow> A \<inter> at_num ` set ts = {} \<Longrightarrow>
   list_all2 (holds_table content lv w') ts outs"
  by (erule list.rel_mono_strong) (auto simp: holds_table_def keeps_def)

lemma owns_step:
  assumes "owns lv b s w outs" and "keeps content broken A B w w'" and "A \<inter> at_num ` set (addedTables (b_rec b)) = {}"
    and "s_nextFileNum s \<le> s_nextFileNum s'"
    and "case tw of None \<Rightarrow> True | Some t \<Rightarrow> own_fd t \<and> w_fd t < s_nextFileNum s' \<and> w_fd t \<notin> at_num ` set (addedTables (b_rec b))"
  shows "owns lv (b\<lparr>b_tw := tw\<rparr>) s' w' outs"
proof -
  have "list_all2 (holds_table content lv w') (addedTables (b_rec b)) outs"
    using assms(1) list_all2_holds_keeps [OF _ assms(2,3)] by (simp add: owns_def)
  moreover have "at_num t < s_nextFileNum s'" if "t \<in> set (addedTables (b_rec b))" for t
    using assms(1,4) that by (force simp: owns_def)
  ultimately show ?thesis
    using assms(1,5) by (simp add: owns_def split: option.splits)
qed

lemma append_step:
  assumes "tWriter_append E k v t (s, w) = (st', t', o')" and "own_fd t" and "k \<noteq> []"
  obtains w' where "st' = (s, w')" "keeps content broken {w_fd t} {} w w'" "w_fd t' = w_fd t" "own_fd t'"
    "\<And>xs. o' = Ok \<Longrightarrow> writes w (Some t) xs \<or> live t [] \<and> xs = [] \<Longrightarrow> writes w' (Some t') (xs @ [(k, v)])"
proof (cases "w_tw t")
  case None
  then show ?thesis
    using assms that [of w] by (auto simp: tWriter_append_def own_fd_def)
next
  case (Some x)
  obtain w' x' r where a: "ce_Append E k v x w = (w', x', r)"
    by (cases "ce_Append E k v x w") auto
  have t': "t' = t\<lparr>w_first := (if w_first t = [] then k else w_first t), w_last := k, w_tw := Some x'\<rparr>" "st' = (s, w')" "o' = result r"
    using assms(1) a Some by (auto simp: tWriter_append_def io_def Let_def)
  have k: "keeps content broken {w_fd t} {} w w'" "wfd x' = w_fd t" "r = None \<Longrightarrow> buf x' = buf x @ [(k, v)]"
    using Append [OF a] Some assms(2) by (auto simp: own_fd_def)
  have "writes w' (Some t') (xs @ [(k, v)])" if "o' = Ok" "writes w (Some t) xs \<or> live t [] \<and> xs = []" for xs
  proof -
    have "r = None"
      using that(1) t'(3) by (cases r) auto
    then show ?thesis
      using that(2) k t'(1) Some assms(3)
      by (auto simp: writes_def stale_def live_def keeps_def neq_Nil_conv split: list.splits)
  qed
  then show ?thesis
    using that [of w'] t' k by (simp add: own_fd_def)
qed

lemma create_cases:
  assumes "tOps_create E z (s, w) = (st', r)"
  obtains w' e where "st' = (s\<lparr>s_nextFileNum := s_nextFileNum s + 1\<rparr>, w')" "keeps content broken {s_nextFileNum s} {s_nextFileNum s} w w'" "r = Inl e"
  | w' t where "st' = (s\<lparr>s_nextFileNum := s_nextFileNum s + 1\<rparr>, w')" "keeps content broken {s_nextFileNum s} {s_nextFileNum s} w w'" "r = Inr t"
      "w_fd t = s_nextFileNum s" "own_fd t" "live t []"
proof -
  obtain w' e where c: "ce_Create E (s_nextFileNum s) w = (w', e)"
    by (cases "ce_Create E (s_nextFileNum s) w") auto
  show ?thesis
    using that assms c Create [OF c] NewWriter
    by (cases e) (auto simp: tOps_create_def allocFileNum_def io_def own_fd_def live_def)
qed

lemma nums_below: "owns lv b s w outs \<Longrightarrow> {s_nextFileNum s} \<inter> at_num ` set (addedTables (b_rec b)) = {}"
  by (auto simp: owns_def)

lemma owned_writer:
  "owns lv b s w outs \<Longrightarrow> b_tw b = Some t \<Longrightarrow> own_fd t \<and> w_fd t < s_nextFileNum s \<and> {w_fd t} \<inter> at_num ` set (addedTables (b_rec b)) = {}"
  by (auto simp: owns_def)

lemma tw_same: "b_tw b = tw \<Longrightarrow> b\<lparr>b_tw := tw\<rparr> = b"
  by (cases b) simp

lemma need_writer_step:
  assumes "need_writer E b (s, w) = (st', r)" and own: "owns lv b s w outs"
  obtains s' w' o' where "st' = (s', w')" "r = Inl o'" "o' \<noteq> Ok" "owns lv b s' w' outs"
  | s' w' t where "st' = (s', w')" "r = Inr t" "owns lv (b\<lparr>b_tw := Some t\<rparr>) s' w' outs"
      "\<And>xs. writes w (b_tw b) xs \<Longrightarrow> writes w' (Some t) xs \<or> live t [] \<and> xs = []"
proof (cases "b_tw b")
  case (Some t)
  then show ?thesis
    using that(2) [of s w t] assms by (simp add: need_writer_def tw_same)
next
  case None
  obtain w1 ex where p: "ce_pause E w = (w1, ex)"
    by (cases "ce_pause E w") auto
  have own1: "owns lv b s w1 outs"
    using owns_step [OF own channels(1) [OF p], of s None] None by (simp add: tw_same)
  obtain st2 r2 where c: "tOps_create E (b_tableSize b) (s, w1) = (st2, r2)"
    by (cases "tOps_create E (b_tableSize b) (s, w1)") auto
  have out: "(st', r) = (if ex then ((s, w1), Inl Exiting) else case r2 of Inl e \<Rightarrow> (st2, Inl (Failed (OpErr e))) | Inr t \<Rightarrow> (st2, Inr t))"
    using assms(1) None p c by (auto simp: need_writer_def io_def split: if_splits sum.splits prod.splits)
  show ?thesis
  proof (cases ex)
    case True
    then show ?thesis
      using that(1) [of s w1 Exiting] out own1 by simp
  next
    case False
    let ?s = "s\<lparr>s_nextFileNum := s_nextFileNum s + 1\<rparr>"
    show ?thesis
    proof (rule create_cases [OF c])
      fix w2 e assume 2: "st2 = (?s, w2)" "keeps content broken {s_nextFileNum s} {s_nextFileNum s} w1 w2" "r2 = Inl e"
      then show ?thesis
        using that(1) [of ?s w2 "Failed (OpErr e)"] owns_step [OF own1 2(2) nums_below [OF own1], of ?s None] out False None by (simp add: tw_same)
    next
      fix w2 t assume 2: "st2 = (?s, w2)" "keeps content broken {s_nextFileNum s} {s_nextFileNum s} w1 w2" "r2 = Inr t"
        "w_fd t = s_nextFileNum s" "own_fd t" "live t []"
      have "owns lv (b\<lparr>b_tw := Some t\<rparr>) ?s w2 outs"
        by (rule owns_step [OF own1 2(2) nums_below [OF own1]]) (use own1 2 in \<open>auto simp: owns_def\<close>)
      then show ?thesis
        using that(2) [of ?s w2 t] out False 2 None by (simp add: writes_def)
    qed
  qed
qed

lemma appendKV_step:
  assumes "appendKV E k v b (s, w) = (st', b', o')" and own: "owns lv b s w outs" and "k \<noteq> []"
  obtains s' w' tw where "st' = (s', w')" "b' = b\<lparr>b_tw := tw\<rparr>" "owns lv b' s' w' outs"
    "\<And>xs. o' = Ok \<Longrightarrow> writes w (b_tw b) xs \<Longrightarrow> writes w' tw (xs @ [(k, v)])"
proof -
  obtain st1 r where n: "need_writer E b (s, w) = (st1, r)"
    by (cases "need_writer E b (s, w)") auto
  show ?thesis
  proof (rule need_writer_step [OF n own])
    fix s1 w1 o1 assume "st1 = (s1, w1)" "r = Inl o1" "o1 \<noteq> Ok" "owns lv b s1 w1 outs"
    then show ?thesis
      using that [of s1 w1 "b_tw b"] assms(1) n by (simp add: appendKV_def tw_same)
  next
    fix s1 w1 t assume 1: "st1 = (s1, w1)" "r = Inr t" "owns lv (b\<lparr>b_tw := Some t\<rparr>) s1 w1 outs"
      "\<And>xs. writes w (b_tw b) xs \<Longrightarrow> writes w1 (Some t) xs \<or> live t [] \<and> xs = []"
    obtain st2 t2 o2 where a: "tWriter_append E k v t (s1, w1) = (st2, t2, o2)"
      by (cases "tWriter_append E k v t (s1, w1)") auto
    have t: "own_fd t" "w_fd t < s_nextFileNum s1" "{w_fd t} \<inter> at_num ` set (addedTables (b_rec b)) = {}"
      using owned_writer [OF 1(3)] by auto
    obtain w2 where 2: "st2 = (s1, w2)" "keeps content broken {w_fd t} {} w1 w2" "w_fd t2 = w_fd t" "own_fd t2"
      "\<And>xs. o2 = Ok \<Longrightarrow> writes w1 (Some t) xs \<or> live t [] \<and> xs = [] \<Longrightarrow> writes w2 (Some t2) (xs @ [(k, v)])"
      by (rule append_step [OF a t(1) assms(3)]) blast
    have "owns lv (b\<lparr>b_tw := Some t\<rparr>\<lparr>b_tw := Some t2\<rparr>) s1 w2 outs"
      by (rule owns_step [OF 1(3) 2(2)]) (use 2 t in auto)
    then show ?thesis
      using that [of s1 w2 "Some t2"] assms(1) n 1 2 a by (simp add: appendKV_def)
  qed
qed

lemma added_addTableFile: "addedTables (addTableFile l f r) = addedTables r @
    [\<lparr>at_level = int l, at_num = fd_num f, at_size = file_size f, at_imin = imin f, at_imax = imax f\<rparr>]"
  by (simp add: addTableFile_def addTable_def)

lemma builder_flush_step:
  assumes "builder_flush E t b (s, w) = (st', b', o')" and own: "owns lv b s w outs" and tw: "b_tw b = Some t" and "writes w (Some t) xs"
    and "tidy \<Longrightarrow> \<forall>ys \<in> set outs. separate E ys xs"
  obtains w' r where "o' = Ok" "st' = (s, w')" "b' = b\<lparr>b_rec := r, b_tw := None\<rparr>" "owns lv b' s w' (outs @ [xs])"
  | w' t' where "o' \<noteq> Ok" "st' = (s, w')" "b' = b\<lparr>b_tw := Some t'\<rparr>" "owns lv b' s w' outs"
proof -
  obtain st1 t1 f o1 where f: "tWriter_finish E t (s, w) = (st1, t1, f, o1)"
    by (cases "tWriter_finish E t (s, w)") auto
  have t: "own_fd t" "w_fd t < s_nextFileNum s" "{w_fd t} \<inter> at_num ` set (addedTables (b_rec b)) = {}"
    using owned_writer [OF own tw] by auto
  show ?thesis
  proof (rule finish_cases [OF f t(1)])
    fix w1 x assume 1: "st1 = (s, w1)" "keeps content broken {w_fd t} {} w w1" "o1 = Ok" "w_tw t = Some x" "content w1 (w_fd t) = buf x"
      "fd_num f = w_fd t" "imin f = w_first t" "imax f = w_last t" "\<not> (w_open t \<and> broken w (w_fd t))"
    then have live: "live t xs" "xs \<noteq> []"
      using assms(4) by (auto simp: writes_def stale_def)
    let ?r = "addTableFile (b_sourceLevel b + 1) f (b_rec b)"
    have "list_all2 (holds_table content lv w1) (addedTables (b_rec b)) outs"
      using list_all2_holds_keeps [OF _ 1(2) t(3)] own by (simp add: owns_def)
    moreover have "holds_table content lv w1 \<lparr>at_level = int lv, at_num = fd_num f, at_size = file_size f, at_imin = imin f, at_imax = imax f\<rparr> xs"
      using 1 live by (auto simp: holds_table_def live_def split: list.splits)
    ultimately have "owns lv (b\<lparr>b_rec := ?r, b_tw := None\<rparr>) s w1 (outs @ [xs])"
      using own t assms(5) 1(6) by (auto simp: owns_def added_addTableFile sorted_wrt_append intro!: list_all2_appendI)
    then show ?thesis
      using that(1) [of w1 ?r] assms(1) f 1 by (simp add: builder_flush_def)
  next
    fix w1 assume 1: "st1 = (s, w1)" "keeps content broken {w_fd t} {} w w1" "o1 \<noteq> Ok" "w_fd t1 = w_fd t" "own_fd t1"
    have "owns lv (b\<lparr>b_tw := Some t1\<rparr>) s w1 outs"
      by (rule owns_step [OF own 1(2) t(3)]) (use 1 t in auto)
    then show ?thesis
      using that(2) [of w1 t1] assms(1) f 1 by (cases o1) (auto simp: builder_flush_def)
  qed
qed

lemma nextFileNum_reuse: "s_nextFileNum (reuseFileNum n s) = (if s_nextFileNum s = n + 1 then n else s_nextFileNum s)"
  by (simp add: reuseFileNum_def Let_def)

text \<open>Afterwards there is no writer, or one that is stale.\<close>

lemma cleanup_step:
  assumes "builder_cleanup E b (s, w) = (st', b', cerr)" and own: "owns lv b s w outs"
  obtains s' w' tw where "st' = (s', w')" "b' = b\<lparr>b_tw := tw\<rparr>" "owns lv b' s' w' outs" "writes w' tw []"
    "b_tw b = None \<Longrightarrow> cerr = None" "\<And>t. b_tw b = Some t \<Longrightarrow> w_open t \<Longrightarrow> broken w (w_fd t) \<Longrightarrow> cerr \<noteq> None"
proof (cases "b_tw b")
  case None
  then show ?thesis
    using that [of s w None] assms by (simp add: builder_cleanup_def writes_def tw_same)
next
  case (Some t)
  obtain st1 t1 r where d: "tWriter_drop E t (s, w) = (st1, t1, r)"
    by (cases "tWriter_drop E t (s, w)") auto
  have t: "own_fd t" "w_fd t < s_nextFileNum s" "{w_fd t} \<inter> at_num ` set (addedTables (b_rec b)) = {}"
    using owned_writer [OF own Some] by auto
  have broken: "r \<noteq> None" if "w_open t" "broken w (w_fd t)"
    using d that CloseFile [of "w_fd t" w] by (auto simp: tWriter_drop_def tWriter_close_def io_def split: prod.splits option.splits)
  show ?thesis
  proof (rule drop_cases [OF d t(1)])
    fix w1 assume 1: "st1 = (reuseFileNum (w_fd t) s, w1)" "keeps content broken {w_fd t} {w_fd t} w w1" "r = None"
    have "list_all2 (holds_table content lv w1) (addedTables (b_rec b)) outs"
      using list_all2_holds_keeps [OF _ 1(2) t(3)] own by (simp add: owns_def)
    moreover have "at_num y < s_nextFileNum (reuseFileNum (w_fd t) s)" if "y \<in> set (addedTables (b_rec b))" for y
    proof -
      have "at_num y < s_nextFileNum s"
        using own that by (auto simp: owns_def)
      moreover have "at_num y \<noteq> w_fd t"
        using t(3) that by (metis IntI empty_iff imageI insertI1)
      ultimately show ?thesis
        by (simp add: nextFileNum_reuse)
    qed
    ultimately have "owns lv (b\<lparr>b_tw := None\<rparr>) (reuseFileNum (w_fd t) s) w1 outs"
      using own by (simp add: owns_def)
    then show ?thesis
      using that [of "reuseFileNum (w_fd t) s" w1 None] assms(1) d 1 Some broken by (auto simp: builder_cleanup_def writes_def)
  next
    fix w1 assume 1: "st1 = (s, w1)" "keeps content broken {w_fd t} {w_fd t} w w1" "r \<noteq> None" "w_fd t1 = w_fd t" "stale w1 t1" "own_fd t1"
    have "owns lv (b\<lparr>b_tw := Some t1\<rparr>) s w1 outs"
      by (rule owns_step [OF own 1(2) t(3)]) (use 1 t in auto)
    then show ?thesis
      using that [of s w1 "Some t1"] assms(1) d 1 Some by (auto simp: builder_cleanup_def writes_def)
  qed
qed

section \<open>An attempt\<close>

text \<open>The state of the last table that is complete, from which an attempt starts.\<close>

definition cut :: "nat \<Rightarrow> bool" where
  "cut k \<longleftrightarrow> (tidy \<longrightarrow> separate E (take k es) (drop k es))"

definition vars_at :: "(bytes \<times> nat) option \<Rightarrow> bool \<Rightarrow> bytes \<Rightarrow> nat \<Rightarrow> bool" where
  "vars_at p h u q = (case p of None \<Rightarrow> \<not> h | Some (u', q') \<Rightarrow> h \<and> u = u' \<and> q = q')"

definition snap :: "nat \<Rightarrow> ('c, 'x) tableCompactionBuilder \<Rightarrow> entry list list \<Rightarrow> bool" where
  "snap m b outs \<longleftrightarrow>
     b_minSeq b = m \<and> b_snapIter b \<le> length es \<and> cut (b_snapIter b) \<and> concat outs = survivors E m base None (take (b_snapIter b) es) \<and>
     vars_at (state_at m (b_snapIter b)) (b_snapHasLastUkey b) (b_snapLastUkey b) (b_snapLastSeq b) \<and> saved (b_c b) (ukeys_of E (drop (b_snapIter b) es))"

definition between :: "nat \<Rightarrow> nat \<Rightarrow> ('c, 'x) tableCompactionBuilder \<Rightarrow> session \<Rightarrow> 'w \<Rightarrow> bool" where
  "between m lv b s w \<longleftrightarrow> (\<exists>outs. owns lv b s w outs \<and> snap m b outs \<and> writes w (b_tw b) [])"

definition halted :: "nat \<Rightarrow> nat \<Rightarrow> ('c, 'x) tableCompactionBuilder \<Rightarrow> session \<Rightarrow> 'w \<Rightarrow> bool" where
  "halted m lv b s w \<longleftrightarrow> (\<exists>outs. owns lv b s w outs \<and> snap m b outs)"

definition running :: "nat \<Rightarrow> nat \<Rightarrow> nat \<Rightarrow> run_vars \<Rightarrow> ('c, 'x) tableCompactionBuilder \<Rightarrow> session \<Rightarrow> 'w \<Rightarrow> bool" where
  "running m lv i l b s w \<longleftrightarrow>
     b_snapIter b \<le> i \<and> i \<le> length es \<and> vars_at (state_at m i) (l_hasLastUkey l) (l_lastUkey l) (l_lastSeq l) \<and> ready (b_c b) (ukeys_of E (drop i es)) \<and>
     writes w (b_tw b) (kept m (b_snapIter b) i) \<and> (\<exists>outs. owns lv b s w outs \<and> snap m b outs)"

definition complete :: "nat \<Rightarrow> nat \<Rightarrow> ('c, 'x) tableCompactionBuilder \<Rightarrow> 'w \<Rightarrow> bool" where
  "complete m lv b w \<longleftrightarrow>
     (\<exists>outs. list_all2 (holds_table content lv w) (addedTables (b_rec b)) outs \<and> distinct (map at_num (addedTables (b_rec b))) \<and>
        concat outs = survivors E m base None es \<and> (tidy \<longrightarrow> sorted_wrt (separate E) outs))"

definition finished :: "nat \<Rightarrow> nat \<Rightarrow> ('c, 'x) tableCompactionBuilder \<Rightarrow> session \<Rightarrow> 'w \<Rightarrow> bool" where
  "finished m lv b s w \<longleftrightarrow> (\<exists>outs. owns lv b s w outs \<and> concat outs = survivors E m base None es)"

lemma finished_complete: "finished m lv b s w \<Longrightarrow> complete m lv b w"
  by (auto simp: finished_def complete_def owns_def)

lemma owns_fields [simp]:
  "owns lv (b\<lparr>b_c := c\<rparr>) s w outs = owns lv b s w outs" "owns lv (b\<lparr>b_kerrCnt := n\<rparr>) s w outs = owns lv b s w outs"
  "owns lv (b\<lparr>b_dropCnt := n\<rparr>) s w outs = owns lv b s w outs"
  by (simp_all add: owns_def split: option.split)

lemma snap_fields [simp]:
  "snap m (b\<lparr>b_tw := tw\<rparr>) outs = snap m b outs" "snap m (b\<lparr>b_kerrCnt := n\<rparr>) outs = snap m b outs" "snap m (b\<lparr>b_dropCnt := n\<rparr>) outs = snap m b outs"
  by (simp_all add: snap_def)

lemma snap_c: "snap m b outs \<Longrightarrow> (\<And>us. saved (b_c b) us \<Longrightarrow> saved c us) \<Longrightarrow> snap m (b\<lparr>b_c := c\<rparr>) outs"
  by (simp add: snap_def)

lemma running_fields [simp]: "running m lv i l (b\<lparr>b_kerrCnt := n\<rparr>) s w = running m lv i l b s w" "running m lv i l (b\<lparr>b_dropCnt := n\<rparr>) s w = running m lv i l b s w"
  by (simp_all add: running_def)

text \<open>A table ends only where a new user key begins.\<close>

lemma last_ukey: "state_at m i = Some (u, q) \<Longrightarrow> i \<le> length es \<Longrightarrow> 0 < i \<and> entry_ukey E (es ! (i - 1)) = Some u"
  by (cases i) (auto simp: state_at_Suc entry_step_def entry_ukey_def Let_def split: sum.splits prod.splits, simp add: state_at_def)

lemma ordered_ukeys:
  assumes "tidy" and "i \<le> j" and "j < length es" and "entry_ukey E (es ! i) = Some u" and "entry_ukey E (es ! j) = Some v"
  shows "u = v \<or> ce_ucmp E u v < 0"
proof (cases "i = j")
  case False
  then have "entry_le E (es ! i) (es ! j)"
    using assms by (auto simp: tidy_def ordered_def sorted_wrt_iff_nth_less)
  then show ?thesis
    using assms by (auto simp: entry_le_def entry_ukey_def split: sum.splits)
qed (use assms in simp)

lemma cut_at:
  assumes "i < length es" and "entry_ukey E (es ! i) = Some u" and "vars_at (state_at m i) h lu lq" and "\<not> h \<or> ce_ucmp E lu u \<noteq> 0"
  shows "cut i"
  unfolding cut_def separate_def
proof (intro impI ballI notI)
  fix x y assume t: tidy and x: "x \<in> set (take i es)" and y: "y \<in> set (drop i es)" and eq: "entry_ukey E x = entry_ukey E y"
  obtain j where j: "j < i" "x = es ! j"
    using x assms(1) by (auto simp: in_set_conv_nth)
  obtain k where k: "i \<le> k" "k < length es" "y = es ! k"
    using y assms(1) by (auto simp: in_set_conv_nth) (metis add.commute le_add1 less_diff_conv)
  have parse: "\<exists>u q kt. ce_parse E (fst (es ! n)) = Inr (u, q, kt)" if "n < length es" for n
    using t that by (cases "ce_parse E (fst (es ! n))") (auto simp: tidy_def parses_def list_all_length)
  obtain v where v: "entry_ukey E (es ! j) = Some v"
    using parse [of j] j assms(1) by (auto simp: entry_ukey_def)
  obtain u1 q k1 where "ce_parse E (fst (es ! (i - 1))) = Inr (u1, q, k1)"
    using parse less_imp_diff_less [OF assms(1)] by blast
  then have "state_at m i = Some (u1, q)" "entry_ukey E (es ! (i - 1)) = Some u1"
    using j assms(1) state_at_Suc [of "i - 1" m] by (auto simp: entry_step_def entry_ukey_def Let_def)
  then have l: "h" "entry_ukey E (es ! (i - 1)) = Some lu"
    using assms(3) by (auto simp: vars_at_def)
  have "v = lu \<or> ce_ucmp E v lu < 0" "lu = u \<or> ce_ucmp E lu u < 0" "u = v \<or> ce_ucmp E u v < 0"
    using ordered_ukeys [OF t, of j "i - 1" v lu] ordered_ukeys [OF t, of "i - 1" i lu u] ordered_ukeys [OF t, of i k u v]
      j k l v eq assms(1,2) by auto
  then show False
    using assms(4) l(1) ucmp_eq ucmp_irrefl ucmp_trans by metis
qed

lemma separate_subset: "separate E xs ys \<Longrightarrow> set xs' \<subseteq> set xs \<Longrightarrow> set ys' \<subseteq> set ys \<Longrightarrow> separate E xs' ys'"
  by (auto simp: separate_def)

lemma kept_separate:
  assumes "snap m b outs" and tidy and "ys \<in> set outs"
  shows "separate E ys (kept m (b_snapIter b) i)"
proof -
  have "set ys \<subseteq> set (concat outs)"
    using assms(3) by auto
  then have "set ys \<subseteq> set (take (b_snapIter b) es)"
    using assms(1) survivors_subset by (fastforce simp: snap_def)
  then show ?thesis
    using assms(1,2) kept_subset separate_subset by (auto simp: snap_def cut_def)
qed

lemma rotate_step:
  assumes r: "rotate E i stop l b (s, w) = (st', b', o')" and run: "running m lv i l b s w" and i: "i < length es"
    and new: "entry_ukey E (es ! i) = Some u" "\<not> l_hasLastUkey l \<or> ce_ucmp E (l_lastUkey l) u \<noteq> 0"
  obtains w' where "st' = (s, w')" "o' = Ok" "running m lv i l b' s w'" "b_strict b' = b_strict b"
  | w' where "st' = (s, w')" "o' \<noteq> Ok" "halted m lv b' s w'" "b_strict b' = b_strict b"
proof -
  obtain outs where own: "owns lv b s w outs" "snap m b outs" and wr: "writes w (b_tw b) (kept m (b_snapIter b) i)"
    and vars: "vars_at (state_at m i) (l_hasLastUkey l) (l_lastUkey l) (l_lastSeq l)" and rdy: "ready (b_c b) (ukeys_of E (drop i es))"
    and le: "b_snapIter b \<le> i"
    using run by (auto simp: running_def)
  consider "st' = (s, w)" "b' = b" "o' = Ok \<or> o' = Panicked" | t st1 b1 o1 where "b_tw b = Some t" "builder_flush E t b (s, w) = (st1, b1, o1)"
      "st' = st1" "o' = o1" "b' = (if o1 = Ok then take_snapshot E i l b1 else b1)"
    using r by (cases "b_tw b"; cases st') (auto simp: rotate_def split: option.splits if_splits bool.splits prod.splits outcome.splits)
  then show ?thesis
  proof cases
    case 1
    then show ?thesis
      using that run own by (auto simp: halted_def)
  next
    case (2 t st1 b1 o1)
    have w: "writes w (Some t) (kept m (b_snapIter b) i)"
      using wr 2(1) by simp
    show ?thesis
    proof (rule builder_flush_step [OF 2(2) own(1) 2(1) w])
      show "\<forall>ys \<in> set outs. separate E ys (kept m (b_snapIter b) i)" if tidy
        using kept_separate [OF own(2) that] by blast
    next
      fix w' r assume 3: "o1 = Ok" "st1 = (s, w')" "b1 = b\<lparr>b_rec := r, b_tw := None\<rparr>" "owns lv b1 s w' (outs @ [kept m (b_snapIter b) i])"
      have "snap m b' (outs @ [kept m (b_snapIter b) i])"
        using own(2) 2(5) 3 i vars rdy save kept_append [OF le, of m] cut_at [OF i new(1) vars new(2)]
        by (auto simp: snap_def take_snapshot_def)
      moreover have "owns lv b' s w' (outs @ [kept m (b_snapIter b) i])"
        using 3 2(5) by (simp add: owns_def take_snapshot_def)
      ultimately have "running m lv i l b' s w'"
        using 2(5) 3 i vars rdy save by (auto simp: running_def take_snapshot_def writes_def)
      then show ?thesis
        using that(1) [of w'] 2 3 by (simp add: take_snapshot_def)
    next
      fix w' t' assume 3: "o1 \<noteq> Ok" "st1 = (s, w')" "b1 = b\<lparr>b_tw := Some t'\<rparr>" "owns lv b1 s w' outs"
      then show ?thesis
        using that(2) [of w'] 2 own(2) by (auto simp: halted_def snap_def)
    qed
  qed
qed

lemma first_step:
  assumes f: "first_occurrence E i stop u l b (s, w) = (st', b', l', o')" and run: "running m lv i l b s w" and i: "i < length es"
    and u: "ce_parse E (fst (es ! i)) = Inr (u, q, kt)"
  obtains w' where "st' = (s, w')" "o' = Ok" "running m lv i l b' s w'" "b_strict b' = b_strict b" "l_snapResumed l' = l_snapResumed l"
      "l_hasLastUkey l'" "l_lastUkey l' = u" "l_lastSeq l' = (case state_at m i of Some (lu, lq) \<Rightarrow> if lu = u then lq else ce_keyMaxSeq E | None \<Rightarrow> ce_keyMaxSeq E)"
  | w' where "st' = (s, w')" "o' \<noteq> Ok" "halted m lv b' s w'" "b_strict b' = b_strict b"
proof (cases "\<not> l_hasLastUkey l \<or> ce_ucmp E (l_lastUkey l) u \<noteq> 0")
  case True
  obtain st1 b1 o1 where r: "rotate E i stop l b (s, w) = (st1, b1, o1)"
    by (cases "rotate E i stop l b (s, w)") auto
  have out: "st' = st1" "b' = b1" "o' = o1" "l' = (if o1 = Ok then l\<lparr>l_hasLastUkey := True, l_lastUkey := u, l_lastSeq := ce_keyMaxSeq E\<rparr> else l)"
    using f r True by (cases o1; auto simp: first_occurrence_def)+
  have k: "entry_ukey E (es ! i) = Some u"
    using u by (simp add: entry_ukey_def)
  show ?thesis
  proof (rule rotate_step [OF r run i k True])
    fix w' assume 1: "st1 = (s, w')" "o1 = Ok" "running m lv i l b1 s w'" "b_strict b1 = b_strict b"
    then show ?thesis
      using that(1) [of w'] out True run ucmp_eq by (auto simp: running_def vars_at_def split: option.splits)
  qed (use that(2) out in auto)
next
  case False
  then show ?thesis
    using that(1) [of w] f run ucmp_eq by (auto simp: first_occurrence_def running_def vars_at_def split: option.splits)
qed

lemma ukeys_step: "i < length es \<Longrightarrow> entry_ukey E (es ! i) = Some u \<Longrightarrow> ukeys_of E (drop i es) = u # ukeys_of E (drop (Suc i) es)"
  "i < length es \<Longrightarrow> entry_ukey E (es ! i) = None \<Longrightarrow> ukeys_of E (drop i es) = ukeys_of E (drop (Suc i) es)"
  by (simp_all add: ukeys_of_def Cons_nth_drop_Suc [symmetric] map_filter_simps)

lemma drops_step:
  assumes d: "drops_entry E q kt l b = (b', dropped)" and run: "running m lv i l0 b s w" and i: "i < length es"
    and u: "ce_parse E (fst (es ! i)) = Inr (u, q, kt)" and l: "l_lastUkey l = u"
    "l_lastSeq l = (case state_at m i of Some (lu, lq) \<Rightarrow> if lu = u then lq else ce_keyMaxSeq E | None \<Rightarrow> ce_keyMaxSeq E)"
  shows "dropped \<longleftrightarrow> \<not> snd (entry_step E m base (state_at m i) (es ! i))" and "running m lv i l0 b' s w" and "\<exists>c. b' = b\<lparr>b_c := c\<rparr>"
proof -
  obtain c r where c: "ce_baseLevelForKey E u (b_c b) = (c, r)"
    by (cases "ce_baseLevelForKey E u (b_c b)") auto
  have "ready (b_c b) (u # ukeys_of E (drop (Suc i) es))" and m: "b_minSeq b = m"
    using run ukeys_step(1) [OF i, of u] u by (auto simp: running_def entry_ukey_def snap_def)
  note bc = baseLevelForKey [OF this(1) c]
  have b': "b' = b \<or> b' = b\<lparr>b_c := c\<rparr>"
    using d c l(1) by (auto simp: drops_entry_def split: if_splits)
  then show "\<exists>c. b' = b\<lparr>b_c := c\<rparr>"
    by (metis tableCompactionBuilder.surjective tableCompactionBuilder.update_convs(1))
  show "dropped \<longleftrightarrow> \<not> snd (entry_step E m base (state_at m i) (es ! i))"
    using d c l u m bc by (auto simp: drops_entry_def entry_step_def Let_def split: if_splits)
  have "running m lv i l0 (b\<lparr>b_c := c\<rparr>) s w"
    using run bc snap_c ukeys_step(1) [OF i, of u] u by (fastforce simp: running_def entry_ukey_def)
  then show "running m lv i l0 b' s w"
    using b' run by auto
qed

lemma ready_Suc: "i < length es \<Longrightarrow> ready c (ukeys_of E (drop i es)) \<Longrightarrow> ready c (ukeys_of E (drop (Suc i) es))"
  using ukeys_step ready_next by (cases "entry_ukey E (es ! i)") metis+

text \<open>The entry is dropped, or appended.\<close>

lemma running_dropped:
  assumes "running m lv i l b s w" and "i < length es" and "\<not> snd (entry_step E m base (state_at m i) (es ! i))"
    and "vars_at (state_at m (Suc i)) (l_hasLastUkey l') (l_lastUkey l') (l_lastSeq l')"
  shows "running m lv (Suc i) l' b s w"
  using assms kept_Suc [of "b_snapIter b" i m] ready_Suc by (auto simp: running_def)

lemma running_append:
  assumes run: "running m lv i l b s w" and i: "i < length es" and keep: "snd (entry_step E m base (state_at m i) (es ! i))"
    and vars: "vars_at (state_at m (Suc i)) (l_hasLastUkey l') (l_lastUkey l') (l_lastSeq l')"
    and a: "appendKV E (fst (es ! i)) (snd (es ! i)) b (s, w) = (st', b', o')"
  obtains s' w' where "st' = (s', w')" "o' = Ok" "running m lv (Suc i) l' b' s' w'"
  | s' w' where "st' = (s', w')" "o' \<noteq> Ok" "halted m lv b' s' w'"
proof -
  obtain outs where o: "owns lv b s w outs" "snap m b outs"
    using run by (auto simp: running_def)
  have k: "fst (es ! i) \<noteq> []"
    using keys i by simp
  obtain s' w' tw where 1: "st' = (s', w')" "b' = b\<lparr>b_tw := tw\<rparr>" "owns lv b' s' w' outs"
    and wr: "\<And>xs. o' = Ok \<Longrightarrow> writes w (b_tw b) xs \<Longrightarrow> writes w' tw (xs @ [es ! i])"
    by (rule appendKV_step [OF a o(1) k]) auto
  show ?thesis
  proof (cases "o' = Ok")
    case True
    then have "running m lv (Suc i) l' b' s' w'"
      using run i keep vars 1 o(2) wr [of "kept m (b_snapIter b) i"] kept_Suc [of "b_snapIter b" i m] ready_Suc by (auto simp: running_def)
    then show ?thesis
      using that(1) 1 True by blast
  next
    case False
    then show ?thesis
      using that(2) [of s' w'] 1 o(2) by (auto simp: halted_def)
  qed
qed

lemma running_vars: "running m lv i l b s w \<Longrightarrow> running m lv i (l\<lparr>l_snapResumed := r\<rparr>) b s w"
  by (simp add: running_def)

lemma run_entry_unparsed:
  assumes r: "run_entry E i (fst (es ! i)) (snd (es ! i)) l b (s, w) = (st', b', l', o')" and run: "running m lv i l b s w" and i: "i < length es"
    and Inl: "ce_parse E (fst (es ! i)) = Inl e"
  obtains s' w' where "st' = (s', w')" "o' = Ok" "running m lv (Suc i) l' b' s' w'"
  | s' w' where "st' = (s', w')" "o' \<noteq> Ok" "halted m lv b' s' w'"
proof -
  define l1 where "l1 = l\<lparr>l_snapResumed := False, l_hasLastUkey := False, l_lastUkey := [], l_lastSeq := ce_keyMaxSeq E\<rparr>"
  define b1 where "b1 = b\<lparr>b_kerrCnt := b_kerrCnt b + 1\<rparr>"
  have run1: "running m lv i l b1 s w"
    using run by (simp add: b1_def)
  have step: "snd (entry_step E m base (state_at m i) (es ! i))" "vars_at (state_at m (Suc i)) (l_hasLastUkey l1) (l_lastUkey l1) (l_lastSeq l1)"
    using Inl i by (simp_all add: entry_step_def state_at_Suc vars_at_def l1_def)
  obtain st2 b2 o2 where a: "appendKV E (fst (es ! i)) (snd (es ! i)) b1 (s, w) = (st2, b2, o2)"
    by (cases "appendKV E (fst (es ! i)) (snd (es ! i)) b1 (s, w)") auto
  show ?thesis
  proof (cases "b_strict b")
    case True
    then show ?thesis
      using that(2) [of s w] r Inl run by (auto simp: run_entry_def halted_def running_def)
  next
    case False
    then have "st' = st2" "b' = b2" "l' = l1" "o' = o2"
      using r Inl a by (auto simp: run_entry_def b1_def l1_def)
    then show ?thesis
      using running_append [OF run1 i step a] that by metis
  qed
qed

lemma run_entry_parsed:
  assumes r: "run_entry E i (fst (es ! i)) (snd (es ! i)) l b (s, w) = (st', b', l', o')" and run: "running m lv i l b s w" and i: "i < length es"
    and p: "ce_parse E (fst (es ! i)) = Inr (u, q, kt)"
  obtains s' w' where "st' = (s', w')" "o' = Ok" "running m lv (Suc i) l' b' s' w'"
  | s' w' where "st' = (s', w')" "o' \<noteq> Ok" "halted m lv b' s' w'"
proof -
  obtain c stop where c: "(if l_snapResumed l then (b_c b, False) else ce_shouldStopBefore E (fst (es ! i)) (b_c b)) = (c, stop)"
    by (cases "if l_snapResumed l then (b_c b, False) else ce_shouldStopBefore E (fst (es ! i)) (b_c b)") auto
  define l0 where "l0 = l\<lparr>l_snapResumed := False\<rparr>"
  have "(\<forall>us. ready (b_c b) us \<longrightarrow> ready c us) \<and> (\<forall>us. saved (b_c b) us \<longrightarrow> saved c us)"
    using c shouldStopBefore by (auto split: if_splits)
  then have run0: "running m lv i l0 (b\<lparr>b_c := c\<rparr>) s w"
    using run snap_c unfolding l0_def by (fastforce simp: running_def)
  obtain st1 b1 l1 o1 where f: "first_occurrence E i stop u l0 (b\<lparr>b_c := c\<rparr>) (s, w) = (st1, b1, l1, o1)"
    by (cases "first_occurrence E i stop u l0 (b\<lparr>b_c := c\<rparr>) (s, w)") auto
  show ?thesis
  proof (rule first_step [OF f run0 i p])
    fix w1 assume 1: "st1 = (s, w1)" "o1 = Ok" "running m lv i l0 b1 s w1" "l_hasLastUkey l1" "l_lastUkey l1 = u"
      "l_lastSeq l1 = (case state_at m i of Some (lu, lq) \<Rightarrow> if lu = u then lq else ce_keyMaxSeq E | None \<Rightarrow> ce_keyMaxSeq E)"
    obtain b2 dr where d: "drops_entry E q kt l1 b1 = (b2, dr)"
      by (cases "drops_entry E q kt l1 b1") auto
    note dstep = drops_step [OF d 1(3) i p 1(5,6)]
    obtain st3 b3 o3 where a: "appendKV E (fst (es ! i)) (snd (es ! i)) b2 (s, w1) = (st3, b3, o3)"
      by (cases "appendKV E (fst (es ! i)) (snd (es ! i)) b2 (s, w1)") auto
    have vars: "vars_at (state_at m (Suc i)) (l_hasLastUkey (l1\<lparr>l_lastSeq := q\<rparr>)) (l_lastUkey (l1\<lparr>l_lastSeq := q\<rparr>)) (l_lastSeq (l1\<lparr>l_lastSeq := q\<rparr>))"
      using 1 p i by (simp add: state_at_Suc entry_step_def Let_def vars_at_def)
    have out: "(st', b', l', o') = (if dr then ((s, w1), b2\<lparr>b_dropCnt := b_dropCnt b2 + 1\<rparr>, l1\<lparr>l_lastSeq := q\<rparr>, Ok) else (st3, b3, l1\<lparr>l_lastSeq := q\<rparr>, o3))"
      using r c f d a p 1 by (cases dr) (auto simp: run_entry_def l0_def Let_def)
    show ?thesis
    proof (cases dr)
      case True
      then show ?thesis
        using that(1) [of s w1] out running_dropped [OF dstep(2) i _ vars] dstep(1) by simp
    next
      case False
      then have keep: "snd (entry_step E m base (state_at m i) (es ! i))"
        using dstep(1) by simp
      show ?thesis
        by (rule running_append [OF dstep(2) i keep vars a]) (use that out False in auto)
    qed
  next
    fix w1 assume "st1 = (s, w1)" "o1 \<noteq> Ok" "halted m lv b1 s w1"
    then show ?thesis
      using that(2) [of s w1] r c f p by (cases o1) (auto simp: run_entry_def l0_def Let_def)
  qed
qed

lemma run_entry_step:
  assumes "run_entry E i (fst (es ! i)) (snd (es ! i)) l b (s, w) = (st', b', l', o')" and "running m lv i l b s w" and "i < length es"
  obtains s' w' where "st' = (s', w')" "o' = Ok" "running m lv (Suc i) l' b' s' w'"
  | s' w' where "st' = (s', w')" "o' \<noteq> Ok" "halted m lv b' s' w'"
proof (cases "ce_parse E (fst (es ! i))")
  case (Inl e)
  show ?thesis
    by (rule run_entry_unparsed [OF assms Inl]) (fact that)+
next
  case (Inr x)
  then have p: "ce_parse E (fst (es ! i)) = Inr (fst x, fst (snd x), snd (snd x))"
    by simp
  show ?thesis
    by (rule run_entry_parsed [OF assms p]) (fact that)+
qed

lemma run_entries_step:
  assumes "run_entries E xs i l b (s, w) = (st', b', o')" and "running m lv i l b s w" and "drop i es = xs @ ys"
  obtains s' w' l' where "st' = (s', w')" "o' = Ok" "running m lv (i + length xs) l' b' s' w'"
  | s' w' where "st' = (s', w')" "o' \<noteq> Ok" "halted m lv b' s' w'"
  using assms
proof (induction xs arbitrary: i l b s w thesis)
  case Nil
  then show ?case
    by auto
next
  case (Cons x xs)
  have i: "i < length es"
    using Cons.prems(5) by (cases "i < length es") auto
  have x: "x = es ! i" "drop (Suc i) es = xs @ ys"
    using Cons.prems(5) i by (simp_all add: Cons_nth_drop_Suc [symmetric])
  have ge: "\<not> i < b_snapIter b"
    using Cons.prems(4) by (simp add: running_def)
  obtain st1 b1 l1 o1 where r: "run_entry E i (fst (es ! i)) (snd (es ! i)) l b (s, w) = (st1, b1, l1, o1)"
    by (cases "run_entry E i (fst (es ! i)) (snd (es ! i)) l b (s, w)") auto
  show ?case
  proof (rule run_entry_step [OF r Cons.prems(4) i])
    fix s1 w1 assume 1: "st1 = (s1, w1)" "o1 = Ok" "running m lv (Suc i) l1 b1 s1 w1"
    then have rest: "run_entries E xs (Suc i) l1 b1 (s1, w1) = (st', b', o')"
      using Cons.prems(3) r ge x(1) by simp
    show ?case
      by (rule Cons.IH [OF _ _ rest 1(3) x(2)]) (use Cons.prems(1,2) in auto)
  next
    fix s1 w1 assume "st1 = (s1, w1)" "o1 \<noteq> Ok" "halted m lv b1 s1 w1"
    then show ?case
      using Cons.prems(2) [of s1 w1] Cons.prems(3) r ge x(1) by (cases o1) auto
  qed
qed

text \<open>The entries before the last complete table are skipped.\<close>

lemma run_entries_skip:
  "i \<le> b_snapIter b \<Longrightarrow> run_entries E xs i l b st =
     (if length xs < b_snapIter b - i then (st, b, Ok) else run_entries E (drop (b_snapIter b - i) xs) (b_snapIter b) l b st)"
proof (induction xs arbitrary: i)
  case (Cons x xs)
  show ?case
  proof (cases "i < b_snapIter b")
    case True
    then obtain d where "b_snapIter b - i = Suc d" "b_snapIter b - Suc i = d"
      by (metis Suc_diff_Suc)
    then show ?thesis
      using Cons.IH [of "Suc i"] True by simp
  next
    case False
    then show ?thesis
      using Cons.prems by simp
  qed
qed simp

lemma start_running:
  assumes "between m lv b s w" and "keeps content broken {} {} w w'"
  shows "running m lv (b_snapIter b) (start_vars b) (start_builder E b) s w'"
proof -
  obtain outs where o: "owns lv b s w outs" "snap m b outs" "writes w (b_tw b) []"
    using assms(1) by (auto simp: between_def)
  have "owns lv b s w' outs"
    using owns_step [OF o(1) assms(2), of s "b_tw b"] o(1) by (auto simp: tw_same owns_def split: option.splits)
  moreover have "writes w' (b_tw b) []"
    using o(3) assms(2) by (auto simp: writes_def stale_def keeps_def split: option.splits)
  ultimately show ?thesis
    using o(2) restore by (auto simp: running_def start_vars_def start_builder_def snap_def)
qed

text \<open>The last table: everything that survives is in the tables then, unless the writer is stale.\<close>

lemma finish_last_step:
  assumes f: "finish_last E None b (s, w) = (st', b', o')" and run: "running m lv (length es) l b s w"
  obtains w' where "st' = (s, w')" "halted m lv b' s w'" "o' = Ok \<Longrightarrow> finished m lv b' s w' \<or> (\<exists>t. b_tw b' = Some t \<and> w_open t \<and> broken w' (w_fd t))"
  | w' where "st' = (s, w')" "o' = Ok" "finished m lv b' s w'" "b_tw b' = None"
proof -
  obtain outs where o: "owns lv b s w outs" "snap m b outs" and wr: "writes w (b_tw b) (kept m (b_snapIter b) (length es))" and le: "b_snapIter b \<le> length es"
    using run by (auto simp: running_def)
  have all: "survivors E m base None es = concat outs @ kept m (b_snapIter b) (length es)"
    using kept_append [OF le, of m] o(2) by (simp add: snap_def)
  show ?thesis
  proof (cases "\<exists>t. b_tw b = Some t \<and> w_first t \<noteq> []")
    case False
    then have "st' = (s, w)" "b' = b" "o' = Ok"
      using f by (auto simp: finish_last_def tWriter_empty_def split: option.splits)
    moreover have "kept m (b_snapIter b) (length es) = [] \<or> (\<exists>t. b_tw b = Some t \<and> w_open t \<and> broken w (w_fd t))"
      using wr False by (auto simp: writes_def stale_def live_def split: option.splits)
    ultimately show ?thesis
      using that(1) [of w] o all by (auto simp: halted_def finished_def)
  next
    case True
    then obtain t where t: "b_tw b = Some t" "builder_flush E t b (s, w) = (st', b', o')"
      using f by (auto simp: finish_last_def tWriter_empty_def)
    show ?thesis
    proof (rule builder_flush_step [OF t(2) o(1) t(1)])
      show "writes w (Some t) (kept m (b_snapIter b) (length es))"
        using wr t(1) by simp
      show "\<forall>ys \<in> set outs. separate E ys (kept m (b_snapIter b) (length es))" if tidy
        using kept_separate [OF o(2) that] by blast
    next
      fix w' r assume "o' = Ok" "st' = (s, w')" "b' = b\<lparr>b_rec := r, b_tw := None\<rparr>" "owns lv b' s w' (outs @ [kept m (b_snapIter b) (length es)])"
      then show ?thesis
        using that(2) [of w'] all unfolding finished_def by fastforce
    next
      fix w' t' assume "o' \<noteq> Ok" "st' = (s, w')" "b' = b\<lparr>b_tw := Some t'\<rparr>" "owns lv b' s w' outs"
      then show ?thesis
        using that(1) [of w'] o(2) by (auto simp: halted_def)
    qed
  qed
qed

text \<open>The cleanup turns an attempt that failed into one that may follow.\<close>

lemma cleanup_between:
  assumes "builder_cleanup E b (s, w) = (st', b', cerr)" and "halted m lv b s w"
  obtains s' w' where "st' = (s', w')" "between m lv b' s' w'" "finished m lv b s w \<Longrightarrow> finished m lv b' s' w'"
    "\<And>t. b_tw b = Some t \<Longrightarrow> w_open t \<Longrightarrow> broken w (w_fd t) \<Longrightarrow> cerr \<noteq> None"
proof -
  obtain outs where o: "owns lv b s w outs" "snap m b outs"
    using assms(2) by (auto simp: halted_def)
  obtain s' w' tw where 1: "st' = (s', w')" "b' = b\<lparr>b_tw := tw\<rparr>" "owns lv b' s' w' outs" "writes w' tw []"
    "\<And>t. b_tw b = Some t \<Longrightarrow> w_open t \<Longrightarrow> broken w (w_fd t) \<Longrightarrow> cerr \<noteq> None"
    by (rule cleanup_step [OF assms(1) o(1)]) blast
  have "finished m lv b' s' w'" if "finished m lv b s w"
  proof -
    obtain outs' where o': "owns lv b s w outs'" "concat outs' = survivors E m base None es"
      using \<open>finished m lv b s w\<close> by (auto simp: finished_def)
    show ?thesis
      by (rule cleanup_step [OF assms(1) o'(1)]) (use 1(1) o'(2) in \<open>auto simp: finished_def\<close>)
  qed
  then show ?thesis
    using that [of s' w'] 1 o(2) by (auto simp: between_def)
qed

lemma also_error_Ok: "also_error o' c = Ok \<longleftrightarrow> o' = Ok \<and> c = None"
  by (cases o'; cases c) auto

lemma run_entries_all:
  assumes r: "run_entries E xs 0 (start_vars b) (start_builder E b) (s, w') = (st', b', o')" and b: "between m lv b s w"
    and k: "keeps content broken {} {} w w'" and es: "es = xs @ ys"
  obtains s' w2 l' where "st' = (s', w2)" "o' = Ok" "running m lv (length es) l' b' s' w2"
  | s' w2 where "st' = (s', w2)" "halted m lv b' s' w2" "o' = Ok \<Longrightarrow> ys \<noteq> []"
proof -
  let ?k = "b_snapIter b" and ?b = "start_builder E b"
  have run: "running m lv ?k (start_vars b) ?b s w'"
    by (rule start_running [OF b k])
  have k: "b_snapIter ?b = ?k" "?k \<le> length es"
    using run by (simp_all add: start_builder_def running_def)
  show ?thesis
  proof (cases "length xs < ?k")
    case True
    then have "st' = (s, w')" "b' = ?b" "ys \<noteq> []"
      using r run_entries_skip [of 0 ?b xs "start_vars b" "(s, w')"] k es by auto
    then show ?thesis
      using that(2) [of s w'] run by (auto simp: running_def halted_def)
  next
    case False
    have r': "run_entries E (drop ?k xs) ?k (start_vars b) ?b (s, w') = (st', b', o')"
      using r run_entries_skip [of 0 ?b xs "start_vars b" "(s, w')"] k False by simp
    have d: "drop ?k es = drop ?k xs @ ys" and len: "length es = length xs + length ys"
      using False es by simp_all
    show ?thesis
    proof (rule run_entries_step [OF r' run d])
      fix s' w2 l' assume 1: "st' = (s', w2)" "o' = Ok" "running m lv (?k + length (drop ?k xs)) l' b' s' w2"
      then have "running m lv (length xs) l' b' s' w2"
        using False by simp
      then show ?thesis
        using that(1) [of s' w2 l'] that(2) [of s' w2] 1(1,2) len by (cases "ys = []") (auto simp: running_def halted_def)
    qed (use that(2) in auto)
  qed
qed

text \<open>One attempt, whichever calls fail.\<close>

lemma run_step:
  assumes r: "builder_run E b (s, w) = (st', b', o')" and b: "between m lv b s w"
  obtains s' w' where "st' = (s', w')" "o' = Ok" "complete m lv b' w'"
  | s' w' where "st' = (s', w')" "o' \<noteq> Ok" "between m lv b' s' w'"
proof -
  note result = that
  obtain w1 xs ierr where it: "ce_newIterator E w = (w1, xs, ierr)"
    by (cases "ce_newIterator E w") auto
  obtain ys where ys: "keeps content broken {} {} w w1" "es = xs @ ys" "ierr = None \<Longrightarrow> ys = []"
    using newIterator [OF it] by auto
  obtain st2 b2 o2 where e: "run_entries E xs 0 (start_vars b) (start_builder E b) (s, w1) = (st2, b2, o2)"
    by (cases "run_entries E xs 0 (start_vars b) (start_builder E b) (s, w1)") auto
  obtain st3 b3 o3 where f: "(if o2 = Ok then finish_last E ierr b2 st2 else (st2, b2, o2)) = (st3, b3, o3)"
    by (cases "if o2 = Ok then finish_last E ierr b2 st2 else (st2, b2, o2)") auto
  obtain st4 b4 c where cl: "builder_cleanup E b3 st3 = (st4, b4, c)"
    by (cases "builder_cleanup E b3 st3") auto
  have out: "st' = st4" "b' = b4" "o' = also_error o3 c"
    using r it e f cl by (simp_all add: builder_run_def io_def)
  have end_run: thesis if 3: "st3 = (s3, w3)" "halted m lv b3 s3 w3" and ok: "o3 = Ok \<Longrightarrow> finished m lv b3 s3 w3 \<or> (\<exists>t. b_tw b3 = Some t \<and> w_open t \<and> broken w3 (w_fd t))" for s3 w3
  proof (rule cleanup_between [OF cl [unfolded 3(1)] 3(2)])
    fix s4 w4 assume 4: "st4 = (s4, w4)" "between m lv b4 s4 w4" "finished m lv b3 s3 w3 \<Longrightarrow> finished m lv b4 s4 w4"
      "\<And>t. b_tw b3 = Some t \<Longrightarrow> w_open t \<Longrightarrow> broken w3 (w_fd t) \<Longrightarrow> c \<noteq> None"
    show thesis
    proof (cases "o' = Ok")
      case True
      then have "finished m lv b4 s4 w4"
        using out(3) ok 4 by (auto simp: also_error_Ok)
      then show ?thesis
        using result(1) [of s4 w4] True out 4(1) finished_complete by blast
    qed (use result(2) [of s4 w4] out 4 in blast)
  qed
  show ?thesis
  proof (rule run_entries_all [OF e b ys(1,2)])
    fix s2 w2 l2 assume 2: "st2 = (s2, w2)" "o2 = Ok" "running m lv (length es) l2 b2 s2 w2"
    show ?thesis
    proof (cases ierr)
      case None
      have "finish_last E None b2 (s2, w2) = (st3, b3, o3)"
        using f 2 None by simp
      then show ?thesis
      proof (rule finish_last_step [OF _ 2(3)])
        fix w3 assume "st3 = (s2, w3)" "o3 = Ok" "finished m lv b3 s2 w3" "b_tw b3 = None"
        then show ?thesis
          using that(1) [of s2 w3] cl out finished_complete by (auto simp: builder_cleanup_def)
      qed (rule end_run)
    next
      case (Some err)
      then show ?thesis
        using f 2 by (intro end_run [of s2 w2]) (auto simp: finish_last_def running_def halted_def)
    qed
  next
    fix s2 w2 assume 2: "st2 = (s2, w2)" "halted m lv b2 s2 w2" "o2 = Ok \<Longrightarrow> ys \<noteq> []"
    then show ?thesis
      using f ys(3) by (intro end_run [of s2 w2]) (auto simp: finish_last_def split: if_splits option.splits)
  qed
qed

section \<open>The transaction\<close>

lemma keeps_complete: "keeps content broken {} {} w w' \<Longrightarrow> complete m lv b w \<Longrightarrow> complete m lv b w'"
  using list_all2_holds_keeps [of lv w "addedTables (b_rec b)" _ "{}" "{}" w'] by (auto simp: complete_def)

lemma keeps_between:
  assumes "keeps content broken {} {} w w'" and "between m lv b s w"
  shows "between m lv b s w'"
proof -
  obtain outs where o: "owns lv b s w outs" "snap m b outs" "writes w (b_tw b) []"
    using assms(2) by (auto simp: between_def)
  have "owns lv b s w' outs"
    using owns_step [OF o(1) assms(1), of s "b_tw b"] o(1) by (auto simp: tw_same owns_def split: option.splits)
  moreover have "writes w' (b_tw b) []"
    using o(3) assms(1) by (auto simp: writes_def stale_def keeps_def split: option.splits)
  ultimately show ?thesis
    using o(2) by (auto simp: between_def)
qed

lemma round_step:
  assumes r: "transact_round E (builder_run E) b (s, w) = (st', b', res)" and b: "between m lv b s w"
  obtains s' w' where "st' = (s', w')" "res = None" "between m lv b' s' w'"
  | s' w' where "st' = (s', w')" "res = Some Ok" "complete m lv b' w'"
  | o' where "res = Some o'" "o' \<noteq> Ok"
proof -
  obtain w1 cl where c: "ce_isClosed E w = (w1, cl)"
    by (cases "ce_isClosed E w") auto
  obtain st2 b2 o2 where run: "builder_run E b (s, w1) = (st2, b2, o2)"
    by (cases "builder_run E b (s, w1)") auto
  obtain s2 w2 where st2: "st2 = (s2, w2)"
    by (cases st2)
  obtain w3 sig where e: "ce_setError E (o2 \<noteq> Ok) w2 = (w3, sig)"
    by (cases "ce_setError E (o2 \<noteq> Ok) w2") auto
  obtain w4 bo where bo: "ce_backoff E w3 = (w4, bo)"
    by (cases "ce_backoff E w3") auto
  have k: "keeps content broken {} {} w2 w3" "keeps content broken {} {} w2 w4"
    using channels(3) [OF e] keeps_then [OF channels(3) [OF e] channels(4) [OF bo]] by auto
  note defs = r c run st2 e bo
  show ?thesis
  proof (rule run_step [OF run keeps_between [OF channels(2) [OF c] b]])
    fix s' w' assume "st2 = (s', w')" "o2 = Ok" "complete m lv b2 w'"
    then show ?thesis
      using that(2) [of s2 w3] that(3) [of Exiting] defs keeps_complete [OF k(1)]
      by (auto simp: transact_round_def io_def split: if_splits)
  next
    fix s' w' assume "st2 = (s', w')" "o2 \<noteq> Ok" "between m lv b2 s' w'"
    then show ?thesis
      using that(1) [of s2 w4] that(3) defs keeps_between [OF k(2)]
      by (auto simp: transact_round_def io_def split: if_splits)
  qed
qed

lemma transact_complete:
  assumes "compactionTransact E (builder_run E) (builder_revert E) b st = Some out" and "between m lv b (fst st) (snd st)" and "snd (snd out) = Ok"
  shows "complete m lv (fst (snd out)) (snd (fst out))"
proof -
  let ?P = "\<lambda>E' run revert b st out. E' = E \<longrightarrow> run = builder_run E \<longrightarrow> between m lv b (fst st) (snd st) \<longrightarrow>
    snd (snd out) = Ok \<longrightarrow> complete m lv (fst (snd out)) (snd (fst out))"
  have "?P E (builder_run E) (builder_revert E) b st out"
  proof (rule compactionTransact.raw_induct [where P = ?P, OF _ assms(1)], intro impI)
    fix f E' run revert b st out
    assume IH: "\<And>E' run revert b st out. f E' run revert b st = Some out \<Longrightarrow> ?P E' run revert b st out"
      and step: "(case transact_round E' run b st of (st, b, None) \<Rightarrow> f E' run revert b st
        | (st, b, Some o') \<Rightarrow> Some (if o' = Exiting then fst (revert b st) else st, b, o')) = Some out"
      and eq: "E' = E" "run = builder_run E" and b: "between m lv b (fst st) (snd st)" and ok: "snd (snd out) = Ok"
    obtain st1 b1 res where r: "transact_round E (builder_run E) b (fst st, snd st) = (st1, b1, res)"
      by (cases "transact_round E (builder_run E) b (fst st, snd st)") auto
    have out: "(case res of None \<Rightarrow> f E (builder_run E) revert b1 st1
        | Some o' \<Rightarrow> Some (if o' = Exiting then fst (revert b1 st1) else st1, b1, o')) = Some out"
      using step r eq by simp
    show "complete m lv (fst (snd out)) (snd (fst out))"
      by (rule round_step [OF r b]) (use out IH ok in auto)
  qed
  then show ?thesis
    using assms by blast
qed

end

section \<open>A transaction that ends\<close>

text \<open>The failures that are still to come are counted by \<open>patience\<close>; none of them is a corruption.\<close>

definition spends :: "('w, 'c, 'x, 'e) compact_env \<Rightarrow> ('w \<Rightarrow> nat) \<Rightarrow> 'w \<Rightarrow> 'w \<Rightarrow> 'e option \<Rightarrow> bool" where
  "spends E patience w w' r \<longleftrightarrow> patience w' \<le> patience w \<and> (\<forall>e. r = Some e \<longrightarrow> patience w' < patience w \<and> \<not> ce_IsCorrupted E e)"

text \<open>
  Creating and writing a table, reading the input and syncing may fail, as often as \<open>patience\<close> says; files can be closed and removed, and the database is not closed.
\<close>

locale steady_store = compaction_store E es base buf wfd content broken ready saved
  for E :: "('w, 'c, 'x, 'e) compact_env" and es base buf wfd content broken ready saved +
  fixes patience :: "'w \<Rightarrow> nat"
  assumes Create_spends: "ce_Create E n w = (w', r) \<Longrightarrow> spends E patience w w' r"
    and Append_spends: "ce_Append E k v x w = (w', x', r) \<Longrightarrow> spends E patience w w' r"
    and CloseTable_spends: "ce_CloseTable E x w = (w', x', r) \<Longrightarrow> spends E patience w w' r"
    and Sync_spends: "ce_Sync E n w = (w', r) \<Longrightarrow> spends E patience w w' r"
    and newIterator_spends: "ce_newIterator E w = (w', xs, r) \<Longrightarrow> spends E patience w w' r"
    and CloseFile_works: "ce_CloseFile E n w = (w', r) \<Longrightarrow> patience w' \<le> patience w \<and> r = None"
    and Remove_works: "ce_Remove E n w = (w', r) \<Longrightarrow> patience w' \<le> patience w \<and> r = None"
    and open_channels: "ce_pause E w = (w', b) \<Longrightarrow> patience w' \<le> patience w \<and> \<not> b"
      "ce_isClosed E w = (w', b) \<Longrightarrow> patience w' \<le> patience w \<and> \<not> b"
      "ce_setError E b w = (w', sig) \<Longrightarrow> patience w' \<le> patience w \<and> sig = SigSent"
      "ce_backoff E w = (w', b) \<Longrightarrow> patience w' \<le> patience w \<and> \<not> b"
begin

definition fares :: "'w \<Rightarrow> 'w \<Rightarrow> 'e outcome \<Rightarrow> bool" where
  "fares w w' o' \<longleftrightarrow> patience w' \<le> patience w \<and> (o' = Ok \<or> (\<exists>e. o' = Failed e \<and> \<not> error_corrupted E o' \<and> patience w' < patience w))"

definition usable :: "'x tWriter option \<Rightarrow> bool" where
  "usable tw = (case tw of None \<Rightarrow> True | Some t \<Rightarrow> w_open t \<and> w_tw t \<noteq> None)"

lemma fares_Ok [simp]: "fares w w' Ok \<longleftrightarrow> patience w' \<le> patience w"
  by (simp add: fares_def)

lemma fares_result: "spends E patience w w' r \<Longrightarrow> fares w w' (result r)"
  by (cases r) (auto simp: spends_def fares_def)

lemma fares_trans: "patience w' \<le> patience w \<Longrightarrow> fares w' w'' o' \<Longrightarrow> fares w w'' o'"
  by (auto simp: fares_def)

lemma fares_then: "fares w w' o' \<Longrightarrow> patience w'' \<le> patience w' \<Longrightarrow> fares w w'' o'"
  by (auto simp: fares_def)

lemma fares_le: "fares w w' o' \<Longrightarrow> patience w' \<le> patience w"
  by (simp add: fares_def)

lemma close_works: "tWriter_close E t (s, w) = (st', t', r) \<Longrightarrow> \<exists>w'. st' = (s, w') \<and> patience w' \<le> patience w \<and> r = None"
  using CloseFile_works [of "w_fd t" w] by (cases "ce_CloseFile E (w_fd t) w") (auto simp: tWriter_close_def io_def split: if_splits)

lemma drop_works: "tWriter_drop E t (s, w) = (st', t', r) \<Longrightarrow> patience (snd st') \<le> patience w \<and> r = None"
proof -
  assume d: "tWriter_drop E t (s, w) = (st', t', r)"
  obtain st1 t1 r1 where c: "tWriter_close E t (s, w) = (st1, t1, r1)"
    by (cases "tWriter_close E t (s, w)") auto
  obtain w1 where 1: "st1 = (s, w1)" "patience w1 \<le> patience w" "r1 = None"
    using close_works [OF c] by auto
  show ?thesis
    using d c 1 Remove_works [of "w_fd t1" w1] by (cases "ce_Remove E (w_fd t1) w1") (auto simp: tWriter_drop_def io_def Let_def)
qed

lemma cleanup_works:
  "builder_cleanup E b (s, w) = (st', b', r) \<Longrightarrow> patience (snd st') \<le> patience w \<and> r = None \<and> b' = b\<lparr>b_tw := None\<rparr>"
  using drop_works by (cases "b_tw b"; cases "tWriter_drop E (the (b_tw b)) (s, w)") (fastforce simp: builder_cleanup_def tw_same)+

lemma append_fares:
  assumes "tWriter_append E k v t (s, w) = (st', t', o')" and "usable (Some t)"
  shows "fares w (snd st') o' \<and> usable (Some t')"
proof -
  obtain x where x: "w_tw t = Some x"
    using assms(2) by (auto simp: usable_def)
  show ?thesis
    using assms x Append_spends [of k v x w] fares_result
    by (cases "ce_Append E k v x w") (auto simp: tWriter_append_def io_def Let_def usable_def)
qed

lemma finish_fares:
  assumes "tWriter_finish E t (s, w) = (st', t', f, o')" and "usable (Some t)"
  shows "fares w (snd st') o'"
proof -
  obtain x where x: "w_tw t = Some x" "w_open t"
    using assms(2) by (auto simp: usable_def)
  obtain st1 t1 o1 where f: "finish_table E t (s, w) = (st1, t1, o1)"
    by (cases "finish_table E t (s, w)") auto
  obtain w1 x1 r1 where a: "ce_CloseTable E x w = (w1, x1, r1)"
    by (cases "ce_CloseTable E x w") auto
  obtain w2 r2 where b: "ce_Sync E (w_fd t) w1 = (w2, r2)"
    by (cases "ce_Sync E (w_fd t) w1") auto
  have "fares w w1 (result r1)" "fares w1 w2 (result r2)"
    using fares_result [OF CloseTable_spends [OF a]] fares_result [OF Sync_spends [OF b]] by auto
  then have 1: "fares w (snd st1) o1" "fst st1 = s"
    using f x a b fares_trans by (auto simp: finish_table_def io_def Let_def split: option.splits if_splits dest: fares_le)
  obtain st2 t2 r3 where c: "tWriter_close E t1 st1 = (st2, t2, r3)"
    by (cases "tWriter_close E t1 st1") auto
  then show ?thesis
    using assms(1) f 1 close_works [of t1 s "snd st1"] fares_then by (cases st1) (auto simp: tWriter_finish_def also_error_Ok)
qed

text \<open>A step of the builder that fares well, after which it can go on if there was no failure.\<close>

definition goes_on :: "('c, 'x) tableCompactionBuilder \<Rightarrow> 'w \<Rightarrow> 'w cstate \<times> ('c, 'x) tableCompactionBuilder \<times> 'e outcome \<Rightarrow> bool" where
  "goes_on b w res = (case res of (st', b', o') \<Rightarrow> fares w (snd st') o' \<and> (o' = Ok \<longrightarrow> usable (b_tw b')) \<and> b_strict b' = b_strict b)"

lemma appendKV_goes_on:
  assumes "usable (b_tw b)"
  shows "goes_on b w (appendKV E k v b (s, w))"
proof (cases "b_tw b")
  case (Some t)
  then show ?thesis
    using append_fares [of k v t s w] assms
    by (cases "tWriter_append E k v t (s, w)") (auto simp: appendKV_def need_writer_def goes_on_def)
next
  case None
  obtain w1 ex where p: "ce_pause E w = (w1, ex)"
    by (cases "ce_pause E w") auto
  have 1: "patience w1 \<le> patience w" "\<not> ex"
    using open_channels(1) [OF p] by auto
  let ?s = "s\<lparr>s_nextFileNum := s_nextFileNum s + 1\<rparr>" and ?n = "s_nextFileNum s"
  obtain w2 r where c: "ce_Create E ?n w1 = (w2, r)"
    by (cases "ce_Create E ?n w1") auto
  have 2: "fares w w2 (result r)"
    using fares_trans [OF 1(1) fares_result [OF Create_spends [OF c]]] .
  let ?t = "\<lparr>w_fd = ?n, w_open = True, w_tw = Some (ce_NewWriter E ?n (b_tableSize b)), w_first = [], w_last = []\<rparr>"
  obtain st3 t3 o3 where a: "tWriter_append E k v ?t (?s, w2) = (st3, t3, o3)"
    by (cases "tWriter_append E k v ?t (?s, w2)") auto
  have 3: "fares w2 (snd st3) o3" "usable (Some t3)"
    using append_fares [OF a] by (auto simp: usable_def)
  have out: "appendKV E k v b (s, w) = (case r of None \<Rightarrow> (st3, b\<lparr>b_tw := Some t3\<rparr>, o3) | Some e \<Rightarrow> ((?s, w2), b, Failed (OpErr e)))"
    using None p 1(2) c a by (cases r) (simp_all add: appendKV_def need_writer_def tOps_create_def allocFileNum_def io_def)
  show ?thesis
    using out 2 3 fares_trans [OF fares_le [OF 2] 3(1)] by (cases r) (auto simp: goes_on_def)
qed

lemma flush_goes_on:
  assumes "usable (Some t)"
  shows "goes_on b w (builder_flush E t b (s, w))"
  using finish_fares [of t s w] assms
  by (cases "tWriter_finish E t (s, w)") (auto simp: builder_flush_def goes_on_def usable_def split: outcome.splits)

lemma rotate_goes_on:
  assumes "usable (b_tw b)"
  shows "goes_on b w (rotate E i stop l b (s, w))"
proof (cases "b_tw b")
  case (Some t)
  obtain st1 b1 o1 where f: "builder_flush E t b (s, w) = (st1, b1, o1)"
    by (cases "builder_flush E t b (s, w)") auto
  obtain x where x: "w_tw t = Some x"
    using assms Some by (auto simp: usable_def)
  have "goes_on b w (st1, b1, o1)"
    using flush_goes_on [of t b w s] assms Some f by simp
  then show ?thesis
    using assms Some f x by (auto simp: rotate_def needFlush_def goes_on_def take_snapshot_def split: outcome.splits bool.splits)
qed (use assms in \<open>simp add: rotate_def goes_on_def\<close>)

lemma run_entry_goes_on:
  assumes "usable (b_tw b)" and "b_strict b \<longrightarrow> \<not> isl (ce_parse E k)" and "run_entry E i k v l b (s, w) = (st', b', l', o')"
  shows "goes_on b w (st', b', o')"
proof (cases "ce_parse E k")
  case (Inl e)
  then show ?thesis
    using assms appendKV_goes_on [of "b\<lparr>b_kerrCnt := b_kerrCnt b + 1\<rparr>" w k v s]
    by (cases "appendKV E k v (b\<lparr>b_kerrCnt := b_kerrCnt b + 1\<rparr>) (s, w)") (auto simp: run_entry_def goes_on_def)
next
  case (Inr x)
  obtain u q kt where x: "x = (u, q, kt)"
    by (cases x) auto
  define l0 where "l0 = l\<lparr>l_snapResumed := False\<rparr>"
  obtain c stop where c: "(if l_snapResumed l then (b_c b, False) else ce_shouldStopBefore E k (b_c b)) = (c, stop)"
    by (cases "if l_snapResumed l then (b_c b, False) else ce_shouldStopBefore E k (b_c b)") auto
  obtain st1 b1 l1 o1 where f: "first_occurrence E i stop u l0 (b\<lparr>b_c := c\<rparr>) (s, w) = (st1, b1, l1, o1)"
    by (cases "first_occurrence E i stop u l0 (b\<lparr>b_c := c\<rparr>) (s, w)") auto
  have "goes_on (b\<lparr>b_c := c\<rparr>) w (rotate E i stop l0 (b\<lparr>b_c := c\<rparr>) (s, w))"
    using rotate_goes_on [of "b\<lparr>b_c := c\<rparr>"] assms(1) by simp
  then have 1: "goes_on b w (st1, b1, o1)"
    using f assms(1) by (auto simp: first_occurrence_def goes_on_def split: if_splits prod.splits outcome.splits)
  obtain b2 dr where d: "drops_entry E q kt l1 b1 = (b2, dr)"
    by (cases "drops_entry E q kt l1 b1") auto
  have 2: "b_tw b2 = b_tw b1" "b_strict b2 = b_strict b1"
    using d by (auto simp: drops_entry_def split: if_splits prod.splits)
  obtain st3 b3 o3 where a: "appendKV E k v b2 st1 = (st3, b3, o3)"
    by (cases "appendKV E k v b2 st1") auto
  have 3: "goes_on b2 (snd st1) (st3, b3, o3)" if "o1 = Ok"
    using appendKV_goes_on [of b2 "snd st1" k v "fst st1"] 1 2 a that by (simp add: goes_on_def)
  have out: "(st', b', o') = (if o1 = Ok then if dr then (st1, b2\<lparr>b_dropCnt := b_dropCnt b2 + 1\<rparr>, Ok) else (st3, b3, o3) else (st1, b1, o1))"
    using assms(3) Inr x c f d a by (cases o1; cases dr) (auto simp: run_entry_def l0_def Let_def)
  show ?thesis
    using out 1 2 3 fares_trans by (auto simp: goes_on_def split: if_splits dest: fares_le)
qed

lemma run_entries_goes_on:
  assumes "usable (b_tw b)" and "b_strict b \<longrightarrow> parses E xs"
  shows "goes_on b w (run_entries E xs i l b (s, w))"
  using assms
proof (induction xs arbitrary: i l b s w)
  case Nil
  then show ?case
    by (simp add: goes_on_def)
next
  case (Cons x xs)
  obtain st1 b1 l1 o1 where r: "run_entry E i (fst x) (snd x) l b (s, w) = (st1, b1, l1, o1)"
    by (cases "run_entry E i (fst x) (snd x) l b (s, w)") auto
  have 1: "goes_on b w (st1, b1, o1)"
    using run_entry_goes_on [OF _ _ r] Cons.prems by (simp add: parses_def)
  have 2: "goes_on b w (run_entries E xs (i + 1) l b (s, w))"
    using Cons by (simp add: parses_def)
  have 3: "goes_on b w (run_entries E xs (i + 1) l1 b1 st1)" if "o1 = Ok"
    using Cons.IH [of b1 "snd st1" "i + 1" l1 "fst st1"] Cons.prems 1 that fares_trans
    by (auto simp: goes_on_def parses_def split: prod.splits)
  show ?case
    using r 1 2 3 by (auto simp: goes_on_def split: outcome.splits)
qed

lemma finish_last_fares:
  assumes f: "finish_last E ierr b st = (st', b', o')" and "usable (b_tw b)" and le: "patience (snd st) \<le> patience w1" and w1: "fares w w1 (result ierr)"
  shows "fares w (snd st') o' \<and> b_strict b' = b_strict b"
proof (cases ierr)
  case (Some err)
  then show ?thesis
    using f fares_then [OF w1 le] by (auto simp: finish_last_def)
next
  case None
  have "goes_on b (snd st) (builder_flush E t b st)" if "b_tw b = Some t" for t
    using flush_goes_on [of t b "snd st" "fst st"] assms(2) that by simp
  then have "fares (snd st) (snd st') o' \<and> b_strict b' = b_strict b"
    using f None by (auto simp: finish_last_def goes_on_def split: option.splits if_splits)
  then show ?thesis
    using fares_trans [of "snd st" w "snd st'" o'] le fares_le [OF w1] by auto
qed

lemma run_fares:
  assumes r: "builder_run E b (s, w) = (st', b', o')" and b: "b_tw b = None" "b_strict b \<longrightarrow> parses E es"
  shows "fares w (snd st') o' \<and> b_tw b' = None \<and> b_strict b' = b_strict b"
proof -
  obtain w1 xs ierr where it: "ce_newIterator E w = (w1, xs, ierr)"
    by (cases "ce_newIterator E w") auto
  obtain ys where ys: "es = xs @ ys"
    using newIterator [OF it] by auto
  have 1: "fares w w1 (result ierr)"
    by (rule fares_result [OF newIterator_spends [OF it]])
  obtain st2 b2 o2 where e: "run_entries E xs 0 (start_vars b) (start_builder E b) (s, w1) = (st2, b2, o2)"
    by (cases "run_entries E xs 0 (start_vars b) (start_builder E b) (s, w1)") auto
  have 2: "goes_on b w1 (st2, b2, o2)"
    using run_entries_goes_on [of "start_builder E b" xs w1 0 "start_vars b" s] e b ys
    by (auto simp: start_builder_def goes_on_def usable_def parses_def)
  obtain st3 b3 o3 where f: "(if o2 = Ok then finish_last E ierr b2 st2 else (st2, b2, o2)) = (st3, b3, o3)"
    by (cases "if o2 = Ok then finish_last E ierr b2 st2 else (st2, b2, o2)") auto
  have 3: "fares w (snd st3) o3 \<and> b_strict b3 = b_strict b"
    using finish_last_fares [of ierr b2 st2 st3 b3 o3 w1 w] fares_trans [OF fares_le [OF 1]] f 1 2
    by (cases "o2 = Ok") (auto simp: goes_on_def)
  obtain st4 b4 c where cl: "builder_cleanup E b3 st3 = (st4, b4, c)"
    by (cases "builder_cleanup E b3 st3") auto
  have out: "st' = st4" "b' = b4" "o' = also_error o3 c"
    using r it e f cl by (simp_all add: builder_run_def io_def)
  have "patience (snd st4) \<le> patience (snd st3) \<and> c = None \<and> b4 = b3\<lparr>b_tw := None\<rparr>"
    using cleanup_works [of b3 "fst st3" "snd st3"] cl by simp
  moreover have "also_error o3 None = o3"
    by (cases o3) auto
  ultimately show ?thesis
    using 3 out fares_then by auto
qed

lemma transact_ends:
  assumes "b_tw b = None" and "b_strict b \<longrightarrow> parses E es"
  shows "\<exists>st' b'. compactionTransact E (builder_run E) revert b (s, w) = Some (st', b', Ok)"
  using assms
proof (induction "patience w" arbitrary: b s w rule: less_induct)
  case less
  obtain w1 cl where c: "ce_isClosed E w = (w1, cl)"
    by (cases "ce_isClosed E w") auto
  obtain st2 b2 o2 where run: "builder_run E b (s, w1) = (st2, b2, o2)"
    by (cases "builder_run E b (s, w1)") auto
  obtain s2 w2 where st2: "st2 = (s2, w2)"
    by (cases st2)
  obtain w3 sig where e: "ce_setError E (o2 \<noteq> Ok) w2 = (w3, sig)"
    by (cases "ce_setError E (o2 \<noteq> Ok) w2") auto
  obtain w4 bo where bo: "ce_backoff E w3 = (w4, bo)"
    by (cases "ce_backoff E w3") auto
  have ch: "patience w1 \<le> patience w" "\<not> cl" "patience w3 \<le> patience w2" "sig = SigSent" "patience w4 \<le> patience w3" "\<not> bo"
    using open_channels(2) [OF c] open_channels(3) [OF e] open_channels(4) [OF bo] by auto
  have 2: "fares w1 w2 o2" "b_tw b2 = None" "b_strict b2 = b_strict b"
    using run_fares [OF run less.prems] st2 by auto
  show ?case
  proof (cases "o2 = Ok")
    case True
    then have "transact_round E (builder_run E) b (s, w) = ((s2, w3), b2, Some Ok)"
      using c run st2 e ch by (simp add: transact_round_def io_def)
    then show ?thesis
      by (subst compactionTransact.simps) simp
  next
    case False
    then obtain err where err: "o2 = Failed err" "\<not> error_corrupted E o2" "patience w2 < patience w1"
      using 2(1) by (auto simp: fares_def)
    then have "transact_round E (builder_run E) b (s, w) = ((s2, w4), b2, None)"
      using c run st2 e bo ch by (simp add: transact_round_def io_def)
    moreover have "\<exists>st' b'. compactionTransact E (builder_run E) revert b2 (s2, w4) = Some (st', b', Ok)"
      using less.hyps [of w4 b2 s2] less.prems 2 err ch by simp
    ultimately show ?thesis
      by (subst compactionTransact.simps) simp
  qed
qed

end

section \<open>Tables in memory\<close>

text \<open>
  A world to run a compaction in: every call takes one element from a list that says which calls fail.  A writer that could not be closed is remembered.  With
  \<open>sturdy\<close>, files can always be closed and removed, and the database is open.  \<open>D\<close> are the user keys of the levels below, in order.
\<close>

record mem_tables =
  mt_files :: "(int \<times> entry list) list"
  mt_broken :: "int list"
  mt_faults :: "bool list"

definition fault :: "mem_tables \<Rightarrow> mem_tables \<times> bool" where
  "fault w = (case mt_faults w of [] \<Rightarrow> (w, False) | f # fs \<Rightarrow> (w\<lparr>mt_faults := fs\<rparr>, f))"

definition may_fail :: "(mem_tables \<Rightarrow> mem_tables) \<Rightarrow> mem_tables \<Rightarrow> mem_tables \<times> bool option" where
  "may_fail f w = (case fault w of (w, failed) \<Rightarrow> if failed then (w, Some False) else (f w, None))"

definition put_file :: "int \<Rightarrow> entry list \<Rightarrow> mem_tables \<Rightarrow> mem_tables" where
  "put_file n xs w = w\<lparr>mt_files := AList.update n xs (mt_files w)\<rparr>"

definition file_content :: "mem_tables \<Rightarrow> int \<Rightarrow> entry list" where
  "file_content w n = (case map_of (mt_files w) n of None \<Rightarrow> [] | Some xs \<Rightarrow> xs)"

definition mem_close :: "bool \<Rightarrow> int \<Rightarrow> mem_tables \<Rightarrow> mem_tables \<times> bool option" where
  "mem_close sturdy n w =
     (if sturdy then (w, None)
      else if n \<in> set (mt_broken w) then (w, Some False)
      else case fault w of (w, failed) \<Rightarrow> if failed then (w\<lparr>mt_broken := n # mt_broken w\<rparr>, Some False) else (w, None))"

definition mem_channel :: "bool \<Rightarrow> mem_tables \<Rightarrow> mem_tables \<times> bool" where
  "mem_channel sturdy w = (if sturdy then (w, False) else fault w)"

fun mem_parse :: "internal_key \<Rightarrow> bool + bytes \<times> nat \<times> key_type" where
  "mem_parse (t # q # u) = Inr (u, unat q, if t = 0 then KeyDel else KeyVal)"
| "mem_parse _ = Inl True"

definition mem_base :: "bytes \<Rightarrow> bytes list \<times> bytes list \<Rightarrow> (bytes list \<times> bytes list) \<times> bool" where
  "mem_base u c = (let r = dropWhile (\<lambda>d. Compare d u < 0) (fst c) in ((r, snd c), r = [] \<or> hd r \<noteq> u))"

definition with_keys :: "entry list \<Rightarrow> entry list" where
  "with_keys es = filter (\<lambda>x. fst x \<noteq> []) es"

definition mem_tables_env ::
  "bool \<Rightarrow> entry list \<Rightarrow> (mem_tables, bytes list \<times> bytes list, int \<times> entry list, bool) compact_env" where
  "mem_tables_env sturdy es =
     \<lparr>ce_Create = (\<lambda>n. may_fail (put_file n [])),
      ce_Sync = (\<lambda>n. may_fail id),
      ce_CloseFile = mem_close sturdy,
      ce_Remove = (\<lambda>n. if sturdy then (\<lambda>w. (put_file n [] w, None)) else may_fail (put_file n [])),
      ce_NewWriter = (\<lambda>n z. (n, [])),
      ce_Append = (\<lambda>k v x w. case may_fail id w of (w, r) \<Rightarrow> (w, if r = None then (fst x, snd x @ [(k, v)]) else x, r)),
      ce_CloseTable = (\<lambda>x w. case may_fail (put_file (fst x) (snd x)) w of (w, r) \<Rightarrow> (w, x, r)),
      ce_BytesLen = (\<lambda>x. int (length (snd x))),
      ce_EntriesLen = (\<lambda>x. int (length (snd x))),
      ce_noSync = False,
      ce_parse = mem_parse,
      ce_ucmp = Compare,
      ce_keyMaxSeq = 256,
      ce_IsCorrupted = (\<lambda>e. e),
      ce_newIterator = (\<lambda>w. case may_fail id w of (w, r) \<Rightarrow>
        (w, if r = None then with_keys es else take (length (with_keys es) - 1) (with_keys es), r)),
      ce_shouldStopBefore = (\<lambda>k c. (c, False)),
      ce_baseLevelForKey = mem_base,
      ce_save = (\<lambda>c. (fst c, fst c)),
      ce_restore = (\<lambda>c. (snd c, snd c)),
      ce_pause = mem_channel sturdy,
      ce_isClosed = mem_channel sturdy,
      ce_setError = (\<lambda>e w. case mem_channel sturdy w of (w, cl) \<Rightarrow> (w, if cl then SigClosed else SigSent)),
      ce_backoff = mem_channel sturdy\<rparr>"

definition mem_ready :: "bytes list \<Rightarrow> bytes list \<times> bytes list \<Rightarrow> bytes list \<Rightarrow> bool" where
  "mem_ready D c us \<longleftrightarrow>
     sorted_wrt (\<lambda>a b. Compare a b < 0) D \<and> sorted_wrt (\<lambda>a b. Compare a b \<le> 0) us \<and>
     (\<exists>ds. D = ds @ fst c \<and> (\<forall>d \<in> set ds. \<forall>u \<in> set us. Compare d u < 0))"

definition mem_patience :: "mem_tables \<Rightarrow> nat" where
  "mem_patience w = length (filter id (mt_faults w))"

definition mem_broken :: "bool \<Rightarrow> mem_tables \<Rightarrow> int \<Rightarrow> bool" where
  "mem_broken sturdy w n \<longleftrightarrow> \<not> sturdy \<and> n \<in> set (mt_broken w)"

lemma fault_cases:
  assumes "fault w = (w', f)"
  shows "mt_files w' = mt_files w" and "mt_broken w' = mt_broken w" and "mem_patience w' \<le> mem_patience w" and "f \<Longrightarrow> mem_patience w' < mem_patience w"
  using assms by (auto simp: fault_def mem_patience_def split: list.splits)

lemma may_fail_cases:
  assumes "may_fail f w = (w', r)"
  obtains w1 where "mt_files w1 = mt_files w" "mt_broken w1 = mt_broken w" "mem_patience w1 \<le> mem_patience w" "r = None" "w' = f w1"
  | "mt_files w' = mt_files w" "mt_broken w' = mt_broken w" "mem_patience w' < mem_patience w" "r = Some False"
proof -
  obtain w1 failed where f: "fault w = (w1, failed)"
    by (cases "fault w") auto
  show ?thesis
  proof (cases failed)
    case True
    then have "w' = w1" "r = Some False"
      using assms f by (simp_all add: may_fail_def)
    then show ?thesis
      using fault_cases [OF f] True by (intro that(2)) simp_all
  next
    case False
    then have "w' = f w1" "r = None"
      using assms f by (simp_all add: may_fail_def)
    then show ?thesis
      by (intro that(1) [of w1] fault_cases [OF f])
  qed
qed

lemma keeps_same: "mt_files w' = mt_files w \<Longrightarrow> mt_broken w' = mt_broken w \<Longrightarrow> keeps file_content (mem_broken sturdy) A B w w'"
  by (simp add: keeps_def file_content_def mem_broken_def)

lemma keeps_put: "mt_files w1 = mt_files w \<Longrightarrow> mt_broken w1 = mt_broken w \<Longrightarrow> keeps file_content (mem_broken sturdy) {n} B w (put_file n xs w1)"
  by (simp add: keeps_def file_content_def mem_broken_def put_file_def update_conv')

lemma patience_put [simp]: "mem_patience (put_file n xs w) = mem_patience w"
  by (simp add: mem_patience_def put_file_def)

lemma content_put [simp]: "file_content (put_file n xs w) n = xs"
  by (simp add: file_content_def put_file_def update_conv')

lemma channel_keeps: "mem_channel sturdy w = (w', b) \<Longrightarrow> keeps file_content (mem_broken sturdy) {} {} w w'"
  by (cases sturdy) (auto simp: mem_channel_def intro: keeps_same [OF fault_cases(1,2)])

lemma may_fail_id: "may_fail id w = (w', r) \<Longrightarrow> mt_files w' = mt_files w \<and> mt_broken w' = mt_broken w"
  by (erule may_fail_cases) auto

lemma may_fail_put: "may_fail (put_file n xs) w = (w', r) \<Longrightarrow> keeps file_content (mem_broken sturdy) {n} B w w' \<and> (r = None \<longrightarrow> file_content w' n = xs)"
  by (erule may_fail_cases) (auto simp: keeps_put keeps_same)

lemma mem_close_law:
  "mem_close sturdy n w = (w', r) \<Longrightarrow>
   keeps file_content (mem_broken sturdy) {} {} w w' \<and> (r \<noteq> None \<longrightarrow> mem_broken sturdy w' n) \<and> (mem_broken sturdy w n \<longrightarrow> r \<noteq> None)"
  by (cases "fault w") (auto simp: mem_close_def mem_broken_def keeps_def file_content_def dest: fault_cases split: if_splits)

text \<open>The pointer into the levels below only moves forward, past keys that are not asked for any more.\<close>

lemma mem_base_law:
  assumes "mem_ready D c (u # us)" and "mem_base u c = (c', b)"
  shows "b \<longleftrightarrow> u \<notin> set D" and "mem_ready D c' (u # us)" and "snd c' = snd c"
proof -
  obtain ds where D: "D = ds @ fst c" and ds: "\<forall>d \<in> set ds. \<forall>v \<in> set (u # us). Compare d v < 0"
    and sD: "sorted_wrt (\<lambda>a b. Compare a b < 0) D" and us: "sorted_wrt (\<lambda>a b. Compare a b \<le> 0) (u # us)"
    using assms(1) by (auto simp: mem_ready_def)
  define r where "r = dropWhile (\<lambda>d. Compare d u < 0) (fst c)"
  define ts where "ts = takeWhile (\<lambda>d. Compare d u < 0) (fst c)"
  have c: "fst c = ts @ r" and c': "c' = (r, snd c)" "b \<longleftrightarrow> r = [] \<or> hd r \<noteq> u"
    using assms(2) by (auto simp: r_def ts_def mem_base_def Let_def)
  have ts: "\<forall>d \<in> set ts. Compare d u < 0"
    using set_takeWhileD by (fastforce simp: ts_def)
  have hd: "r \<noteq> [] \<Longrightarrow> \<not> Compare (hd r) u < 0"
    unfolding r_def by (rule hd_dropWhile)
  have notin: "u \<notin> set ds" "u \<notin> set ts"
    using ds ts by force+
  have tl: "Compare (hd r) v < 0" if "v \<in> set (tl r)" for v
    using sD D c that by (cases r) (auto simp: sorted_wrt_append)
  have "u \<in> set r \<longleftrightarrow> r \<noteq> [] \<and> hd r = u"
    using hd tl by (cases r) auto
  then show "b \<longleftrightarrow> u \<notin> set D"
    using c' D c notin by auto
  have "Compare d v < 0" if "d \<in> set ts" "v \<in> set (u # us)" for d v
    using ts us that bytewise.less_le_trans by fastforce
  then show "mem_ready D c' (u # us)"
    using sD us D c ds c' by (auto simp: mem_ready_def intro!: exI [of _ "ds @ ts"])
  show "snd c' = snd c"
    using c' by simp
qed

interpretation mem_store: compaction_store "mem_tables_env sturdy es" "with_keys es" "\<lambda>u. u \<notin> set D" snd fst file_content "mem_broken sturdy"
  "mem_ready D" "\<lambda>c. mem_ready D (snd c, snd c)"
proof (unfold_locales, goal_cases)
  case (7 k v x w w' x' r)
  then show ?case
    by (auto simp: mem_tables_env_def keeps_same dest!: may_fail_id split: prod.splits)
next
  case (8 x w w' x' r)
  then show ?case
    using may_fail_put by (auto simp: mem_tables_env_def split: prod.splits)
next
  case (10 n w w' r)
  then show ?case
    using mem_close_law by (simp add: mem_tables_env_def)
next
  case (11 n w w' r)
  then show ?case
    by (cases sturdy) (auto simp: mem_tables_env_def keeps_put dest: may_fail_put)
next
  case (12 w w' xs r)
  then show ?case
    by (auto simp: mem_tables_env_def keeps_same dest!: may_fail_id split: prod.splits if_splits) (metis append_take_drop_id)
next
  case (17 c u us c' b)
  then show ?case
    using mem_base_law [of D c u us c' b] by (simp add: mem_tables_env_def)
qed (auto simp: mem_tables_env_def with_keys_def mem_ready_def bytewise.cmp_eq keeps_same
  dest!: may_fail_id dest: may_fail_put channel_keeps intro: bytewise.cmp_trans split: prod.splits)

lemma may_fail_spends:
  "may_fail f w = (w', r) \<Longrightarrow> (\<And>w. mem_patience (f w) = mem_patience w) \<Longrightarrow> spends (mem_tables_env sturdy es) mem_patience w w' r"
  by (erule may_fail_cases) (auto simp: spends_def mem_tables_env_def)

interpretation mem_steady: steady_store "mem_tables_env True es" "with_keys es" "\<lambda>u. u \<notin> set D" snd fst file_content "mem_broken True"
  "mem_ready D" "\<lambda>c. mem_ready D (snd c, snd c)" mem_patience
proof (unfold_locales, goal_cases)
  case (1 n w w' r)
  then show ?case
    by (intro may_fail_spends [of "put_file n []"]) (simp_all add: mem_tables_env_def)
next
  case (2 k v x w w' x' r)
  then show ?case
    by (intro may_fail_spends [of id]) (auto simp: mem_tables_env_def split: prod.splits)
next
  case (3 x w w' x' r)
  then show ?case
    by (intro may_fail_spends [of "put_file (fst x) (snd x)"]) (auto simp: mem_tables_env_def split: prod.splits)
next
  case (4 n w w' r)
  then show ?case
    by (intro may_fail_spends [of id]) (simp_all add: mem_tables_env_def)
next
  case (5 w w' xs r)
  then show ?case
    by (intro may_fail_spends [of id]) (auto simp: mem_tables_env_def split: prod.splits)
qed (auto simp: mem_tables_env_def mem_close_def mem_channel_def)

section \<open>What a compaction does to the data\<close>

lemma merge_record_added: "addedTables (merge_record lv cmax ts0 ts1) = []"
proof -
  have "addedTables (fold (\<lambda>t. delTable l (fd_num t)) ts r) = addedTables r" for l :: int and ts :: "internal_key tFile list" and r
    by (induction ts arbitrary: r) (simp_all add: delTable_def mark_def)
  then show ?thesis
    by (simp add: merge_record_def addCompPtr_def empty_record_def mark_def)
qed

context compaction_store
begin

lemma new_builder_between:
  assumes "saved c (ukeys_of E es)" and "addedTables r = []"
  shows "between m (lv + 1) (new_builder c lv r m strict sz) s w"
proof -
  have "owns (lv + 1) (new_builder c lv r m strict sz) s w []"
    using assms by (simp add: owns_def new_builder_def)
  moreover have "snap m (new_builder c lv r m strict sz) []"
    using assms by (simp add: snap_def new_builder_def cut_def vars_at_def state_at_def separate_def)
  moreover have "writes w (b_tw (new_builder c lv r m strict sz)) []"
    by (simp add: writes_def new_builder_def)
  ultimately show ?thesis
    by (auto simp: between_def)
qed

lemma merge_complete:
  assumes "saved c (ukeys_of E es)" and "merge_tables E c lv cmax ts0 ts1 m strict sz (s, w) = Some ((s', w'), b, Ok)"
  shows "\<exists>outs. list_all2 (holds_table content (lv + 1) w') (addedTables (b_rec b)) outs \<and> distinct (map at_num (addedTables (b_rec b))) \<and>
    concat outs = survivors E m base None es \<and> (ordered E es \<and> parses E es \<longrightarrow> sorted_wrt (separate E) outs)"
proof -
  have "complete m (lv + 1) b w'"
    using transact_complete [OF assms(2) [unfolded merge_tables_def], of m "lv + 1"] new_builder_between [OF assms(1) merge_record_added] by simp
  then show ?thesis
    by (simp add: complete_def tidy_def)
qed

lemma merge_reads:
  assumes "saved c (ukeys_of E es)" and "merge_tables E c lv cmax ts0 ts1 m strict sz (s, w) = Some ((s', w'), b, Ok)"
    and "ordered E es" and "parses E es" and "m \<le> q" and "m < ce_keyMaxSeq E" and "base u \<Longrightarrow> deeper u = None"
  shows "read_at E deeper q u (concat (map (\<lambda>t. content w' (at_num t)) (addedTables (b_rec b)))) = read_at E deeper q u es"
proof -
  obtain outs where o: "list_all2 (holds_table content (lv + 1) w') (addedTables (b_rec b)) outs" "concat outs = survivors E m base None es"
    using merge_complete [OF assms(1,2)] by blast
  then have "map (\<lambda>t. content w' (at_num t)) (addedTables (b_rec b)) = outs"
    by (auto simp: list_all2_conv_all_nth holds_table_def intro: nth_equalityI)
  then show ?thesis
    using survivors_read_from [OF assms(3,4), where p = None and u = u and m = m and q = q and base = base and deeper = deeper] assms(5-7) o(2) ucmp_irrefl ucmp_trans by simp
qed

text \<open>\<^verbatim>\<open>createFrom\<close>, which writes one table: it holds the entries of the source.\<close>

lemma append_all_step:
  assumes "append_all E xs t (s, w) = (st', t', o')" and "own_fd t" and "\<forall>x \<in> set xs. fst x \<noteq> []"
    and "writes w (Some t) ys \<or> live t [] \<and> ys = []"
  obtains w' where "st' = (s, w')" "own_fd t'" "o' = Ok \<Longrightarrow> writes w' (Some t') (ys @ xs) \<or> live t' [] \<and> ys @ xs = []"
  using assms
proof (induction xs arbitrary: t w ys thesis)
  case Nil
  then show ?case
    by auto
next
  case (Cons x xs)
  obtain st1 t1 o1 where a: "tWriter_append E (fst x) (snd x) t (s, w) = (st1, t1, o1)"
    by (cases "tWriter_append E (fst x) (snd x) t (s, w)") auto
  obtain w1 where 1: "st1 = (s, w1)" "own_fd t1"
    "\<And>ys. o1 = Ok \<Longrightarrow> writes w (Some t) ys \<or> live t [] \<and> ys = [] \<Longrightarrow> writes w1 (Some t1) (ys @ [x])"
    by (rule append_step [OF a Cons.prems(3)]) (use Cons.prems(4) in auto)
  show ?case
  proof (cases "o1 = Ok")
    case True
    then have rest: "append_all E xs t1 (s, w1) = (st', t', o')"
      using Cons.prems(2) a 1 by simp
    have "writes w1 (Some t1) (ys @ [x]) \<or> live t1 [] \<and> ys @ [x] = []"
      using 1(3) [OF True Cons.prems(5)] by simp
    then show ?thesis
      by (rule Cons.IH [OF _ rest 1(2), rotated 2]) (use Cons.prems(1,4) in auto)
  next
    case False
    then show ?thesis
      using Cons.prems(1) [of w1] Cons.prems(2) a 1 by (cases o1) auto
  qed
qed

lemma createFrom_content:
  assumes "tOps_createFrom E (xs, None) (s, w) = ((s', w'), Some (f, n), Ok)" and "\<forall>x \<in> set xs. fst x \<noteq> []"
  shows "content w' (fd_num f) = xs \<and> (xs \<noteq> [] \<longrightarrow> imin f = fst (hd xs) \<and> imax f = fst (last xs))"
proof -
  obtain st1 r1 where c: "tOps_create E 0 (s, w) = (st1, r1)"
    by (cases "tOps_create E 0 (s, w)") auto
  then obtain t w1 where t: "r1 = Inr t" "live t []" "own_fd t" "st1 = (fst st1, w1)"
    by (rule create_cases) (use assms(1) c in \<open>auto simp: tOps_createFrom_def\<close>)
  obtain st2 t2 o2 where a: "append_all E xs t (fst st1, w1) = (st2, t2, o2)"
    by (cases "append_all E xs t (fst st1, w1)") auto
  obtain w2 where 2: "st2 = (fst st1, w2)" "own_fd t2" "o2 = Ok \<Longrightarrow> writes w2 (Some t2) ([] @ xs) \<or> live t2 [] \<and> [] @ xs = []"
    by (rule append_all_step [OF a t(3) assms(2), of "[]"]) (use t(2) in auto)
  obtain st3 t3 f3 o3 where f: "tWriter_finish E t2 (fst st1, w2) = (st3, t3, f3, o3)"
    by (cases "tWriter_finish E t2 (fst st1, w2)") auto
  have ok: "o2 = Ok" "o3 = Ok" "f3 = f" "st3 = (s', w')"
    using assms(1) c t a 2 f by (auto simp: tOps_createFrom_def Let_def split: outcome.splits prod.splits)
  show ?thesis
    by (rule finish_cases [OF f 2(2)])
      (use 2(3) ok in \<open>auto simp: writes_def live_def stale_def split: list.splits\<close>)
qed

end

text \<open>
  C7: When the transaction that merges the tables of a compaction ends well, the tables it added hold, one after the other, exactly the entries that survive, each
  of them between its smallest and its largest key and under a number of its own, however many attempts it took and whichever calls failed on the way: entries of a
  finished table are neither lost nor written twice.  If the entries are ordered, no two tables share a user key.
\<close>

theorem compaction_writes_survivors:
  assumes "compaction_store E es base buf wfd content broken ready saved" and "saved c (ukeys_of E es)"
    and "merge_tables E c lv cmax ts0 ts1 m strict sz (s, w) = Some ((s', w'), b, Ok)"
  shows "\<exists>outs. list_all2 (holds_table content (lv + 1) w') (addedTables (b_rec b)) outs \<and> distinct (map at_num (addedTables (b_rec b))) \<and>
    concat outs = survivors E m base None es \<and> (ordered E es \<and> parses E es \<longrightarrow> sorted_wrt (separate E) outs)"
  by (rule compaction_store.merge_complete [OF assms])

text \<open>
  C6: A compaction does not change what is read: at every sequence number that is not below the oldest snapshot, a user key has the same value in the tables that were
  written (with the levels below) as in those that were merged, although older entries and deletion markers are gone.
\<close>

theorem compaction_preserves_reads:
  assumes "compaction_store E es base buf wfd content broken ready saved" and "saved c (ukeys_of E es)"
    and "merge_tables E c lv cmax ts0 ts1 m strict sz (s, w) = Some ((s', w'), b, Ok)"
    and "ordered E es" and "parses E es" and "m \<le> q" and "m < ce_keyMaxSeq E" and "base u \<longrightarrow> deeper u = None"
  shows "read_at E deeper q u (concat (map (\<lambda>t. content w' (at_num t)) (addedTables (b_rec b)))) = read_at E deeper q u es"
  using compaction_store.merge_reads [OF assms(1-7)] assms(8) by blast

text \<open>
  C37: Suppose that only finitely many calls fail (\<open>patience\<close> bounds how many), that closing and removing a file never fail, that no failure reports a corruption, that
  the database is not closed in the meantime, and that under the strict option every key parses.  Then the transaction ends well.  The condition on removals is needed: see
  \<open>failed_drop_panics\<close> below.
\<close>

theorem compaction_ends:
  assumes "steady_store E es base buf wfd content broken ready saved patience" and "strict \<longrightarrow> parses E es"
  shows "\<exists>st' b. merge_tables E c lv cmax ts0 ts1 m strict sz (s, w) = Some (st', b, Ok)"
  using steady_store.transact_ends [OF assms(1), of "new_builder c lv (merge_record lv cmax ts0 ts1) m strict sz"] assms(2)
  by (simp add: merge_tables_def new_builder_def)

section \<open>A compaction in memory\<close>

definition demo_session :: session where
  "demo_session = \<lparr>s_nextFileNum = 20, s_journalNum = 0, s_prevJournalNum = 0, s_seqNum = 0, s_manifest = None, s_manifestFd = None,
    s_compPtrs = [], s_version = fst (newVersion 0), s_ntVersionID = 1, s_messages = [], s_retired = []\<rparr>"

text \<open>The user key 1 is overwritten, 2 deleted, 3 deleted but present below, and 4 written once.\<close>

definition demo_entries :: "entry list" where
  "demo_entries = [([1, 9, 1], [91]), ([1, 4, 1], [41]), ([1, 2, 1], [21]), ([0, 5, 2], []), ([1, 3, 2], [32]), ([0, 3, 3], []), ([1, 1, 4], [14])]"

definition demo_below :: "bytes list" where
  "demo_below = [[0], [3], [5]]"

definition demo_view ::
  "((session \<times> mem_tables) \<times> (bytes list \<times> bytes list, int \<times> entry list) tableCompactionBuilder \<times> bool outcome) option \<Rightarrow>
   (int \<times> (int \<times> entry list) list \<times> int list \<times> bool outcome) option" where
  "demo_view = map_option (\<lambda>((s, w), b, o'). (s_nextFileNum s, mt_files w, map at_num (addedTables (b_rec b)), o'))"

text \<open>At most \<open>n\<close> rounds of a transaction.\<close>

primrec transact_within ::
  "nat \<Rightarrow> ('w, 'c, 'x, 'e) compact_env \<Rightarrow> ('b \<Rightarrow> 'w cstate \<Rightarrow> 'w cstate \<times> 'b \<times> 'e outcome) \<Rightarrow> ('b \<Rightarrow> 'w cstate \<Rightarrow> 'w cstate \<times> 'e option) \<Rightarrow>
   'b \<Rightarrow> 'w cstate \<Rightarrow> ('w cstate \<times> 'b \<times> 'e outcome) option" where
  "transact_within 0 E run revert b st = None"
| "transact_within (Suc n) E run revert b st =
     (case transact_round E run b st of (st, b, res) \<Rightarrow>
        case res of
          None \<Rightarrow> transact_within n E run revert b st
        | Some o' \<Rightarrow> Some (if o' = Exiting then fst (revert b st) else st, b, o'))"

definition demo_within :: "bool \<Rightarrow> bool list \<Rightarrow>
   ((session \<times> mem_tables) \<times> (bytes list \<times> bytes list, int \<times> entry list) tableCompactionBuilder \<times> bool outcome) option" where
  "demo_within sturdy fs =
     transact_within 3 (mem_tables_env sturdy demo_entries) (builder_run (mem_tables_env sturdy demo_entries)) (builder_revert (mem_tables_env sturdy demo_entries))
       (new_builder (demo_below, demo_below) 1 (merge_record 1 [] [] []) 6 False 2) (demo_session, \<lparr>mt_files = [], mt_broken = [], mt_faults = fs\<rparr>)"

definition demo_merge :: "bool \<Rightarrow> bool list \<Rightarrow>
   ((session \<times> mem_tables) \<times> (bytes list \<times> bytes list, int \<times> entry list) tableCompactionBuilder \<times> bool outcome) option" where
  "demo_merge sturdy fs = merge_tables (mem_tables_env sturdy demo_entries) (demo_below, demo_below) 1 [] [] [] 6 False 2
     (demo_session, \<lparr>mt_files = [], mt_broken = [], mt_faults = fs\<rparr>)"

lemma transact_within_Some: "transact_within n E run revert b st = Some out \<Longrightarrow> compactionTransact E run revert b st = Some out"
proof (induction n arbitrary: b st)
  case (Suc n)
  then show ?case
    by (subst compactionTransact.simps) (auto split: prod.splits option.splits)
qed simp

lemma demo_merge_within: "demo_view (demo_within sturdy fs) = Some v \<Longrightarrow> demo_view (demo_merge sturdy fs) = Some v"
  by (auto simp: demo_view_def demo_within_def demo_merge_def merge_tables_def dest!: transact_within_Some)

text \<open>
  One failure while the second table is written: the first one is kept, and the second one written from its beginning.  The last line is what the code does when
  it cannot remove a table that it has to give up: the writer is kept without its contents, and the next attempt uses it.
\<close>

lemma demo_values:
  "demo_view (demo_within True (replicate 7 False @ [True])) =
     Some (22, [(20, [([1, 9, 1], [91]), ([1, 4, 1], [41])]), (21, [([0, 3, 3], []), ([1, 1, 4], [14])])], [20, 21], Ok)"
  "demo_view (demo_within False [False, False, False, False, True, False, True]) = Some (20, [(20, [])], [], Panicked)"
  by code_simp+

text \<open>The demonstration satisfies the hypotheses of the properties above.\<close>

lemma demo_entries_values:
  "ordered (mem_tables_env True demo_entries) (with_keys demo_entries)" "parses (mem_tables_env True demo_entries) (with_keys demo_entries)"
  "ukeys_of (mem_tables_env True demo_entries) (with_keys demo_entries) = [[1], [1], [1], [2], [2], [3], [4]]"
  "ce_keyMaxSeq (mem_tables_env True demo_entries) = 256"
  by code_simp+

lemma demo_saved: "mem_ready demo_below (snd (demo_below, demo_below), snd (demo_below, demo_below)) (ukeys_of (mem_tables_env True demo_entries) (with_keys demo_entries))"
proof -
  have "sorted_wrt (\<lambda>a b. Compare a b < 0) demo_below" "sorted_wrt (\<lambda>a b. Compare a b \<le> 0) [[1], [1], [1], [2], [2], [3], [4 :: 8 word]]"
    by code_simp+
  then show ?thesis
    unfolding demo_entries_values(3) by (simp add: mem_ready_def)
qed

lemma demo_ends_well:
  obtains s w b where "demo_merge True (replicate 7 False @ [True]) = Some ((s, w), b, Ok)" "map at_num (addedTables (b_rec b)) = [20, 21]"
  using demo_merge_within [OF demo_values(1)] by (auto simp: demo_view_def)

theorem compaction_writes_survivors_witness:
  "\<exists>s w b outs. demo_merge True (replicate 7 False @ [True]) = Some ((s, w), b, Ok) \<and> length outs = 2 \<and>
     list_all2 (holds_table file_content 2 w) (addedTables (b_rec b)) outs \<and> sorted_wrt (separate (mem_tables_env True demo_entries)) outs \<and>
     concat outs = [([1, 9, 1], [91]), ([1, 4, 1], [41]), ([0, 3, 3], []), ([1, 1, 4], [14])]"
proof -
  obtain s w b where r: "demo_merge True (replicate 7 False @ [True]) = Some ((s, w), b, Ok)" and n: "map at_num (addedTables (b_rec b)) = [20, 21]"
    by (rule demo_ends_well)
  obtain outs where o: "list_all2 (holds_table file_content (1 + 1) w) (addedTables (b_rec b)) outs" "sorted_wrt (separate (mem_tables_env True demo_entries)) outs"
    "concat outs = survivors (mem_tables_env True demo_entries) 6 (\<lambda>u. u \<notin> set demo_below) None (with_keys demo_entries)"
    using compaction_writes_survivors [OF mem_store.compaction_store_axioms demo_saved r [unfolded demo_merge_def]] demo_entries_values(1,2) by blast
  have "survivors (mem_tables_env True demo_entries) 6 (\<lambda>u. u \<notin> set demo_below) None (with_keys demo_entries) =
      [([1, 9, 1], [91]), ([1, 4, 1], [41]), ([0, 3, 3], []), ([1, 1, 4], [14])]"
    by code_simp
  moreover have "length outs = 2"
    using list_all2_lengthD [OF o(1)] arg_cong [OF n, of length] by simp
  ultimately show ?thesis
    using r o by (intro exI [of _ s] exI [of _ w] exI [of _ b] exI [of _ outs]) (simp add: numeral_2_eq_2)
qed

theorem compaction_preserves_reads_witness:
  "\<exists>s w b. demo_merge True (replicate 7 False @ [True]) = Some ((s, w), b, Ok) \<and>
     read_at (mem_tables_env True demo_entries) (\<lambda>u. if u = [3] then Some [99] else None) 7 [1]
       (concat (map (\<lambda>t. file_content w (at_num t)) (addedTables (b_rec b)))) = Some [41] \<and>
     read_at (mem_tables_env True demo_entries) (\<lambda>u. if u = [3] then Some [99] else None) 7 [3]
       (concat (map (\<lambda>t. file_content w (at_num t)) (addedTables (b_rec b)))) = None"
proof -
  let ?E = "mem_tables_env True demo_entries" and ?d = "\<lambda>u :: bytes. if u = [3] then Some [99 :: 8 word] else None"
  obtain s w b where r: "demo_merge True (replicate 7 False @ [True]) = Some ((s, w), b, Ok)"
    by (rule demo_ends_well)
  have below: "u \<notin> set demo_below \<longrightarrow> ?d u = None" for u
    by (simp add: demo_below_def)
  have "read_at ?E ?d 7 u (concat (map (\<lambda>t. file_content w (at_num t)) (addedTables (b_rec b)))) = read_at ?E ?d 7 u (with_keys demo_entries)" for u
    using compaction_preserves_reads [OF mem_store.compaction_store_axioms demo_saved r [unfolded demo_merge_def] demo_entries_values(1,2),
        where q = 7 and u = u and deeper = ?d] below demo_entries_values(4) by simp
  moreover have "read_at ?E ?d 7 [1] (with_keys demo_entries) = Some [41]" "read_at ?E ?d 7 [3] (with_keys demo_entries) = None"
    by code_simp+
  ultimately show ?thesis
    using r by auto
qed

theorem compaction_ends_witness: "\<exists>st b. demo_merge True [True, False, True, False, False, True] = Some (st, b, Ok)"
  unfolding demo_merge_def by (rule compaction_ends [OF mem_steady.steady_store_axioms]) simp

text \<open>A table that cannot be removed after an attempt has failed makes the next attempt panic.\<close>

lemma failed_drop_panics: "demo_view (demo_merge False [False, False, False, False, True, False, True]) = Some (20, [(20, [])], [], Panicked)"
  by (rule demo_merge_within [OF demo_values(2)])

end
