(* ===== verification/Ldb_Recovery.thy ===== *)
theory Ldb_Recovery
  imports Ldb_Session
begin

text \<open>
  Recovery of the session of \<open>Ldb_Session\<close>: the manifest at the entry point of the storage always stands for the session.  The record fields as the decoder
  accumulates them, compaction pointers and tables as functions of the level, the contract of the storage (locale \<open>manifest_store\<close>), the
  invariant \<open>mirrors\<close> with its preservation by every operation, and a storage in memory with faults that keeps the contract.
\<close>

section \<open>Fields of records\<close>

lemma has_bit: "has p k \<longleftrightarrow> bit (hasRec p) k"
  by (simp add: has_def bit_iff_and_push_bit_not_eq_0)

lemma has_mark: "k < 64 \<Longrightarrow> has (mark i p) k \<longleftrightarrow> i = k \<or> has p k"
  by (auto simp: has_bit mark_def bit_simps)

lemma has_unmark: "i \<noteq> k \<Longrightarrow> has (unmark i p) k \<longleftrightarrow> has p k"
  by (auto simp: has_bit unmark_def bit_simps dest: bit_imp_possible_bit)

lemma has_empty [simp]: "\<not> has empty_record k"
  by (simp add: has_def empty_record_def)

lemma has_update [simp]:
  "has (p\<lparr>rec_err := x\<rparr>) k = has p k" "has (p\<lparr>comparer_name := y\<rparr>) k = has p k" "has (p\<lparr>journalNum := n\<rparr>) k = has p k"
  "has (p\<lparr>nextFileNum := n\<rparr>) k = has p k" "has (p\<lparr>seqNum := q\<rparr>) k = has p k" "has (p\<lparr>compPtrs := cs\<rparr>) k = has p k"
  "has (p\<lparr>addedTables := ads\<rparr>) k = has p k" "has (p\<lparr>deletedTables := ds\<rparr>) k = has p k"
  by (simp_all add: has_def)

text \<open>The part of a record that the decoder carries from one record of the journal to the next.\<close>

definition scalars :: "sessionRecord \<Rightarrow> (bytes option \<times> int option) \<times> (int option \<times> u64 option)" where
  "scalars p =
     ((if has p recComparer then Some (comparer_name p) else None, if has p recNextFileNum then Some (nextFileNum p) else None),
      (if has p recJournalNum then Some (journalNum p) else None, if has p recSeqNum then Some (seqNum p) else None))"

definition or_else :: "'a option \<Rightarrow> 'a option \<Rightarrow> 'a option" where
  "or_else x y = (case x of None \<Rightarrow> y | Some a \<Rightarrow> Some a)"

fun over :: "('a option \<times> 'b option) \<times> ('c option \<times> 'd option) \<Rightarrow> ('a option \<times> 'b option) \<times> ('c option \<times> 'd option) \<Rightarrow>
    ('a option \<times> 'b option) \<times> ('c option \<times> 'd option)" where
  "over ((a, b), (c, d)) ((a', b'), (c', d')) = ((or_else a a', or_else b b'), (or_else c c', or_else d d'))"

lemma or_else_simps [simp]: "or_else None y = y" "or_else (Some a) y = Some a" "or_else x None = x"
  by (simp_all add: or_else_def split: option.split)

lemma mark_fields [simp]:
  "comparer_name (mark i p) = comparer_name p" "journalNum (mark i p) = journalNum p" "nextFileNum (mark i p) = nextFileNum p"
  "seqNum (mark i p) = seqNum p" "compPtrs (mark i p) = compPtrs p" "addedTables (mark i p) = addedTables p"
  "deletedTables (mark i p) = deletedTables p"
  by (simp_all add: mark_def)

lemma unmark_fields [simp]:
  "comparer_name (unmark i p) = comparer_name p" "journalNum (unmark i p) = journalNum p" "nextFileNum (unmark i p) = nextFileNum p"
  "seqNum (unmark i p) = seqNum p" "compPtrs (unmark i p) = compPtrs p" "addedTables (unmark i p) = addedTables p"
  "deletedTables (unmark i p) = deletedTables p"
  by (simp_all add: unmark_def)

lemmas setter_defs = setComparer_def setJournalNum_def setNextFileNum_def setSeqNum_def addCompPtr_def addTable_def delTable_def
  resetCompPtrs_def resetAddedTables_def resetDeletedTables_def

lemma scalars_set [simp]:
  "scalars (setComparer c p) = over ((Some c, None), (None, None)) (scalars p)"
  "scalars (setNextFileNum n p) = over ((None, Some n), (None, None)) (scalars p)"
  "scalars (setJournalNum n p) = over ((None, None), (Some n, None)) (scalars p)"
  "scalars (setSeqNum q p) = over ((None, None), (None, Some q)) (scalars p)"
  "scalars (addCompPtr l k p) = scalars p" "scalars (addTable l n z a b p) = scalars p" "scalars (delTable l n p) = scalars p"
  "scalars (resetCompPtrs p) = scalars p" "scalars (resetAddedTables p) = scalars p" "scalars (resetDeletedTables p) = scalars p"
  "scalars (p\<lparr>rec_err := x\<rparr>) = scalars p"
  by (simp_all add: scalars_def setter_defs has_mark has_unmark rec_tags)

lemma lists_set [simp]:
  "compPtrs (setComparer c p) = compPtrs p" "compPtrs (setNextFileNum n p) = compPtrs p" "compPtrs (setJournalNum n p) = compPtrs p"
  "compPtrs (setSeqNum q p) = compPtrs p" "compPtrs (addTable l n z a b p) = compPtrs p" "compPtrs (delTable l n p) = compPtrs p"
  "addedTables (setComparer c p) = addedTables p" "addedTables (setNextFileNum n p) = addedTables p"
  "addedTables (setJournalNum n p) = addedTables p" "addedTables (setSeqNum q p) = addedTables p"
  "addedTables (addCompPtr l k p) = addedTables p" "addedTables (delTable l n p) = addedTables p"
  "deletedTables (setComparer c p) = deletedTables p" "deletedTables (setNextFileNum n p) = deletedTables p"
  "deletedTables (setJournalNum n p) = deletedTables p" "deletedTables (setSeqNum q p) = deletedTables p"
  "deletedTables (addCompPtr l k p) = deletedTables p" "deletedTables (addTable l n z a b p) = deletedTables p"
  by (simp_all add: setter_defs)

lemma lists_add [simp]:
  "compPtrs (addCompPtr l k p) = compPtrs p @ [\<lparr>cp_level = l, cp_ikey = k\<rparr>]"
  "addedTables (addTable l n z a b p) = addedTables p @ [\<lparr>at_level = l, at_num = n, at_size = z, at_imin = a, at_imax = b\<rparr>]"
  "deletedTables (delTable l n p) = deletedTables p @ [\<lparr>dt_level = l, dt_num = n\<rparr>]"
  by (simp_all add: setter_defs)

lemma fold_replay_compPtr [simp]:
  "scalars (fold replay_compPtr cs p) = scalars p" "compPtrs (fold replay_compPtr cs p) = compPtrs p @ cs"
  "deletedTables (fold replay_compPtr cs p) = deletedTables p" "addedTables (fold replay_compPtr cs p) = addedTables p"
  by (induction cs arbitrary: p; simp add: replay_compPtr_def)+

lemma fold_replay_delTable [simp]:
  "scalars (fold replay_delTable ds p) = scalars p" "compPtrs (fold replay_delTable ds p) = compPtrs p"
  "deletedTables (fold replay_delTable ds p) = deletedTables p @ ds" "addedTables (fold replay_delTable ds p) = addedTables p"
  by (induction ds arbitrary: p; simp add: replay_delTable_def)+

lemma fold_replay_addTable [simp]:
  "scalars (fold replay_addTable ads p) = scalars p" "compPtrs (fold replay_addTable ads p) = compPtrs p"
  "deletedTables (fold replay_addTable ads p) = deletedTables p" "addedTables (fold replay_addTable ads p) = addedTables p @ ads"
  by (induction ads arbitrary: p; simp add: replay_addTable_def)+

lemma scalars_cases: obtains a b c d where "scalars p = ((a, b), (c, d))"
  by (cases "scalars p"; cases "fst (scalars p)"; cases "snd (scalars p)") auto

lemma over_None [simp]: "over ((None, None), (None, None)) x = x" "over x ((None, None), (None, None)) = x"
proof -
  obtain a b c d where "x = ((a, b), (c, d))" by (cases x; cases "fst x"; cases "snd x") auto
  then show "over ((None, None), (None, None)) x = x" "over x ((None, None), (None, None)) = x" by simp_all
qed

lemma over_assoc: "over x (over y z) = over (over x y) z"
proof -
  obtain a b c d a' b' c' d' e f g h where "x = ((a, b), (c, d))" "y = ((a', b'), (c', d'))" "z = ((e, f), (g, h))"
    by (cases x; cases "fst x"; cases "snd x"; cases y; cases "fst y"; cases "snd y"; cases z; cases "fst z"; cases "snd z") auto
  then show ?thesis by (simp add: or_else_def split: option.split)
qed

lemma replay_fields:
  "scalars (replay r p) = over (scalars r) (scalars p)"
  "compPtrs (replay r p) = compPtrs p @ compPtrs r" "deletedTables (replay r p) = deletedTables p @ deletedTables r"
  "addedTables (replay r p) = addedTables p @ addedTables r"
proof -
  obtain a b c d where "scalars p = ((a, b), (c, d))" by (rule scalars_cases)
  then show "scalars (replay r p) = over (scalars r) (scalars p)" by (simp add: replay_def Let_def scalars_def [of r])
qed (simp_all add: replay_def Let_def)

lemma reset_record_fields [simp]:
  "scalars (reset_record p) = scalars p" "compPtrs (reset_record p) = []" "deletedTables (reset_record p) = []"
  "addedTables (reset_record p) = []" "compPtrs empty_record = []" "deletedTables empty_record = []" "addedTables empty_record = []"
  "scalars empty_record = ((None, None), (None, None))"
  by (simp add: reset_record_def) (simp_all add: reset_record_def setter_defs empty_record_def scalars_def has_def)

section \<open>Compaction pointers\<close>

text \<open>Setting a pointer, on the list of pointers and as a function of the level.\<close>

definition put_ptr :: "cpRecord \<Rightarrow> internal_key option list \<Rightarrow> internal_key option list" where
  "put_ptr c ps =
     (let l = nat (cp_level c)
      in (if length ps \<le> l then ps @ replicate (l + 1 - length ps) None else ps)[l := Some (cp_ikey c)])"

definition ptr_at :: "internal_key option list \<Rightarrow> nat \<Rightarrow> internal_key option" where
  "ptr_at ps l = (if l < length ps then ps ! l else None)"

definition set_ptr :: "cpRecord \<Rightarrow> (nat \<Rightarrow> internal_key option) \<Rightarrow> nat \<Rightarrow> internal_key option" where
  "set_ptr c f = f(nat (cp_level c) := Some (cp_ikey c))"

definition ptrs_ok :: "sessionRecord \<Rightarrow> bool" where
  "ptrs_ok r \<longleftrightarrow> list_all (\<lambda>c. 0 \<le> cp_level c) (compPtrs r)"

lemma ptr_at_Nil: "ptr_at [] = (\<lambda>_. None)"
  by (simp add: fun_eq_iff ptr_at_def)

lemma ptr_at_put: "ptr_at (put_ptr c ps) = set_ptr c (ptr_at ps)"
  by (auto simp: fun_eq_iff ptr_at_def put_ptr_def set_ptr_def Let_def nth_append nth_list_update)

lemma ptr_at_fold: "ptr_at (fold put_ptr cs ps) = fold set_ptr cs (ptr_at ps)"
  by (induction cs arbitrary: ps) (simp_all add: ptr_at_put)

lemma save_compPtrs_ok:
  "list_all (\<lambda>c. 0 \<le> cp_level c) cs \<Longrightarrow> save_compPtrs cs s = Some (s\<lparr>s_compPtrs := fold put_ptr cs (s_compPtrs s)\<rparr>)"
  unfolding save_compPtrs_def
  by (induction cs arbitrary: s) (simp_all add: setCompPtr_def put_ptr_def Let_def)

lemma fold_set_ptr_cases:
  "fold set_ptr cs f l = Some k \<Longrightarrow> f l = Some k \<or> (\<exists>c \<in> set cs. nat (cp_level c) = l \<and> cp_ikey c = k)"
proof (induction cs arbitrary: f)
  case (Cons c cs)
  from Cons.prems have "fold set_ptr cs (set_ptr c f) l = Some k" by simp
  from Cons.IH [OF this] show ?case by (auto simp: set_ptr_def split: if_splits)
qed simp

lemma fold_set_ptr_over:
  "fold set_ptr cs f l = (case fold set_ptr cs (\<lambda>_. None) l of None \<Rightarrow> f l | Some k \<Rightarrow> Some k)"
proof (induction cs arbitrary: f rule: rev_induct)
  case (snoc c cs)
  have "fold set_ptr (cs @ [c]) g l = (if l = nat (cp_level c) then Some (cp_ikey c) else fold set_ptr cs g l)" for g
    by (simp add: set_ptr_def)
  then show ?case using snoc [of f] by (cases "l = nat (cp_level c)") (simp_all only: simp_thms if_True if_False option.case)
qed simp

fun snapshot_ptrs :: "nat \<Rightarrow> internal_key option list \<Rightarrow> cpRecord list" where
  "snapshot_ptrs level [] = []"
| "snapshot_ptrs level (p # ps) =
     (case p of None \<Rightarrow> [] | Some ik \<Rightarrow> [\<lparr>cp_level = int level, cp_ikey = ik\<rparr>]) @ snapshot_ptrs (level + 1) ps"

lemma fill_compPtrs_fields [simp]:
  "scalars (fill_compPtrs level ps r) = scalars r" "compPtrs (fill_compPtrs level ps r) = compPtrs r @ snapshot_ptrs level ps"
  "deletedTables (fill_compPtrs level ps r) = deletedTables r" "addedTables (fill_compPtrs level ps r) = addedTables r"
  by (induction level ps r rule: fill_compPtrs.induct; simp split: option.split)+

lemma snapshot_ptrs_set: "c \<in> set (snapshot_ptrs level ps) \<Longrightarrow> \<exists>i < length ps. cp_level c = int (level + i) \<and> ps ! i = Some (cp_ikey c)"
proof (induction level ps rule: snapshot_ptrs.induct)
  case (2 level p ps)
  show ?case
  proof (cases "c \<in> set (snapshot_ptrs (level + 1) ps)")
    case True
    then obtain i where "i < length ps" "cp_level c = int (level + 1 + i)" "ps ! i = Some (cp_ikey c)" using 2 by blast
    then show ?thesis by (intro exI [of _ "Suc i"]) simp
  next
    case False
    then show ?thesis using "2.prems" by (intro exI [of _ 0]) (auto split: option.splits)
  qed
qed simp

lemma fold_snapshot_ptrs:
  "fold set_ptr (snapshot_ptrs level ps) f l = (if level \<le> l \<and> ptr_at ps (l - level) \<noteq> None then ptr_at ps (l - level) else f l)"
proof (induction level ps arbitrary: f rule: snapshot_ptrs.induct)
  case (2 level p ps)
  let ?f = "case p of None \<Rightarrow> f | Some k \<Rightarrow> f(level := Some k)"
  have "fold set_ptr (snapshot_ptrs level (p # ps)) f = fold set_ptr (snapshot_ptrs (level + 1) ps) ?f"
    by (cases p) (simp_all add: set_ptr_def)
  then have *: "fold set_ptr (snapshot_ptrs level (p # ps)) f l =
      (if level + 1 \<le> l \<and> ptr_at ps (l - (level + 1)) \<noteq> None then ptr_at ps (l - (level + 1)) else ?f l)"
    using 2 [of ?f] by simp
  consider "l < level" | "l = level" | "level + 1 \<le> l" by linarith
  then show ?case
  proof cases
    case 3
    then have "l - level = Suc (l - (level + 1))" by simp
    then have "ptr_at (p # ps) (l - level) = ptr_at ps (l - (level + 1))" by (simp only: ptr_at_def) simp
    then show ?thesis using 3 unfolding * by (cases p) simp_all
  qed (unfold *, cases p, auto simp: ptr_at_def)
qed (simp add: ptr_at_def)

text \<open>Pointers from a record and then those of the session: both orders of starting points agree.\<close>

lemma snapshot_restores:
  "fold set_ptr (cs @ snapshot_ptrs 0 ps) (\<lambda>_. None) = fold set_ptr (cs @ snapshot_ptrs 0 ps) (ptr_at ps)"
proof
  fix l
  show "fold set_ptr (cs @ snapshot_ptrs 0 ps) (\<lambda>_. None) l = fold set_ptr (cs @ snapshot_ptrs 0 ps) (ptr_at ps) l"
    using fold_set_ptr_over [of cs "ptr_at ps" l] by (simp add: fold_snapshot_ptrs split: option.splits)
qed

section \<open>Reading the records back\<close>

text \<open>Records that the journal may hold: they can be encoded, and no level is negative.\<close>

definition storable :: "nat \<Rightarrow> sessionRecord \<Rightarrow> bool" where
  "storable m r \<longleftrightarrow> encodable m r \<and> levels_ok r \<and> ptrs_ok r"

definition next_record :: "sessionRecord \<Rightarrow> sessionRecord \<Rightarrow> sessionRecord" where
  "next_record r rec = reset_record ((replay r (rec\<lparr>rec_err := None\<rparr>))\<lparr>rec_err := Some RecEOF\<rparr>)"

definition cleared :: "sessionRecord \<Rightarrow> bool" where
  "cleared rec \<longleftrightarrow> compPtrs rec = [] \<and> deletedTables rec = [] \<and> addedTables rec = []"

lemma next_record_fields [simp]: "scalars (next_record r rec) = over (scalars r) (scalars rec)" "cleared (next_record r rec)"
  by (simp_all add: next_record_def cleared_def replay_fields)

lemma commit_cong:
  "deletedTables r = deletedTables r' \<Longrightarrow> addedTables r = addedTables r' \<Longrightarrow> stage_record r p = stage_record r' p"
  "deletedTables r = deletedTables r' \<Longrightarrow> addedTables r = addedTables r' \<Longrightarrow> apply_record r F = apply_record r' F"
  "deletedTables r = deletedTables r' \<Longrightarrow> addedTables r = addedTables r' \<Longrightarrow> levels_ok r = levels_ok r'"
  by (simp_all add: stage_record_def apply_record_def levels_ok_def)

lemma recover_records_ok:
  assumes "list_all (storable (o_maxAlloc E)) rs" and "cleared rec"
  shows "recover_records E (map record_bytes rs) rec p s =
    Some (s\<lparr>s_compPtrs := fold put_ptr (concat (map compPtrs rs)) (s_compPtrs s)\<rparr>, Inr (fold next_record rs rec, fold stage_record rs p))"
  using assms
proof (induction rs arbitrary: rec p s)
  case (Cons r rs)
  let ?q = "(replay r (rec\<lparr>rec_err := None\<rparr>))\<lparr>rec_err := Some RecEOF\<rparr>"
  have r: "encodable (o_maxAlloc E) r" "levels_ok r" "ptrs_ok r" using Cons.prems by (simp_all add: storable_def)
  have q: "compPtrs ?q = compPtrs r" "deletedTables ?q = deletedTables r" "addedTables ?q = addedTables r"
    using Cons.prems by (simp_all add: replay_fields cleared_def)
  have s: "save_compPtrs (compPtrs r) s = Some (s\<lparr>s_compPtrs := fold put_ptr (compPtrs r) (s_compPtrs s)\<rparr>)"
    using r(3) by (simp add: save_compPtrs_ok ptrs_ok_def)
  show ?case
    using Cons.IH [of "next_record r rec" "stage_record r p" "s\<lparr>s_compPtrs := fold put_ptr (compPtrs r) (s_compPtrs s)\<rparr>"] Cons.prems r
    by (simp add: decode_bytes [OF r(1)] q s staging_commit_total commit_cong(1) [OF q(2,3)] commit_cong(3) [OF q(2,3)] next_record_def [symmetric])
qed simp

lemma fold_next_record:
  "scalars (fold next_record rs rec) = over (fold over (map scalars rs) ((None, None), (None, None))) (scalars rec)"
  "cleared rec \<Longrightarrow> cleared (fold next_record rs rec)"
proof -
  have "scalars (fold next_record rs rec) = fold over (map scalars rs) (scalars rec)" for rec
    by (induction rs arbitrary: rec) simp_all
  moreover have "fold over xs y = over (fold over xs ((None, None), (None, None))) y" for xs :: "_ list" and y
  proof (induction xs arbitrary: y)
    case (Cons x xs)
    then show ?case by (metis (no_types, lifting) fold_simps(2) over_assoc over_None(2))
  qed simp
  ultimately show "scalars (fold next_record rs rec) = over (fold over (map scalars rs) ((None, None), (None, None))) (scalars rec)" by simp
  show "cleared rec \<Longrightarrow> cleared (fold next_record rs rec)" by (induction rs arbitrary: rec) simp_all
qed

section \<open>Tables\<close>

text \<open>The tables that records have put into the levels: each has the fields of a record, and numbers do not repeat in a level.\<close>

definition tables_of :: "sessionRecord list \<Rightarrow> nat \<Rightarrow> internal_key tFile set" where
  "tables_of rs = fold apply_record rs (\<lambda>_. {})"

definition table_fits :: "nat \<Rightarrow> nat \<Rightarrow> internal_key tFile \<Rightarrow> bool" where
  "table_fits m l t \<longleftrightarrow> int64 (int l) \<and> t = newTableFile (fd_num t) (file_size t) (imin t) (imax t) \<and>
     nonneg64 (fd_num t) \<and> nonneg64 (file_size t) \<and> length (imin t) \<le> m \<and> length (imax t) \<le> m"

definition tables_fit :: "nat \<Rightarrow> (nat \<Rightarrow> internal_key tFile set) \<Rightarrow> bool" where
  "tables_fit m F \<longleftrightarrow> (\<forall>l. inj_on fd_num (F l) \<and> (\<forall>t \<in> F l. table_fits m l t))"

lemma tables_fit_deleted: "tables_fit m F \<Longrightarrow> tables_fit m (apply_deleted r F)"
  by (auto simp: tables_fit_def apply_deleted_def inj_on_def)

lemma tables_fit_added:
  assumes "tables_fit m F" and "0 \<le> at_level r" and "int64 (at_level r) \<and> nonneg64 (at_num r) \<and> nonneg64 (at_size r) \<and>
     length (at_imin r) \<le> m \<and> length (at_imax r) \<le> m"
  shows "tables_fit m (apply_added r F)"
proof -
  have "table_fits m (nat (at_level r)) (tableFileFromRecord r)" using assms(2,3) by (simp add: table_fits_def tableFileFromRecord_def)
  then show ?thesis using assms(1) by (auto simp: tables_fit_def apply_added_def inj_on_def)
qed

lemma tables_fit_record:
  assumes "storable m r" and "tables_fit m F"
  shows "tables_fit m (apply_record r F)"
proof -
  have d: "tables_fit m (fold apply_deleted ds F)" for ds
    using assms(2) by (induction ds arbitrary: F) (simp_all add: tables_fit_deleted)
  have "tables_fit m (fold apply_added ads G)"
    if "tables_fit m G" "list_all (\<lambda>t. 0 \<le> at_level t) ads" "list_all (\<lambda>r. int64 (at_level r) \<and> nonneg64 (at_num r) \<and> nonneg64 (at_size r) \<and>
       length (at_imin r) \<le> m \<and> length (at_imax r) \<le> m) ads" for ads G
    using that by (induction ads arbitrary: G) (simp_all add: tables_fit_added)
  then show ?thesis using d assms(1) by (simp add: apply_record_def storable_def levels_ok_def encodable_def)
qed

lemma tables_of_fit: "list_all (storable m) rs \<Longrightarrow> tables_fit m (tables_of rs)"
proof (induction rs rule: rev_induct)
  case (snoc r rs)
  then show ?case by (simp add: tables_of_def tables_fit_record)
qed (simp add: tables_of_def tables_fit_def)

lemma spawn_tables:
  "spawn ks score r trivial n v = Some (nv, nt) \<Longrightarrow> set (level_at (v_levels nv) l) = apply_record r (\<lambda>l. set (level_at (v_levels v) l)) l"
  using finish_commits [of ks score trivial n "[r]" v l] by (simp add: spawn_total split: if_splits)

text \<open>What \<^verbatim>\<open>fillRecord\<close> adds for a version.\<close>

definition table_record :: "nat \<Rightarrow> internal_key tFile \<Rightarrow> atRecord" where
  "table_record level t = \<lparr>at_level = int level, at_num = fd_num t, at_size = file_size t, at_imin = imin t, at_imax = imax t\<rparr>"

fun snapshot_tables :: "nat \<Rightarrow> internal_key tFile list list \<Rightarrow> atRecord list" where
  "snapshot_tables level [] = []"
| "snapshot_tables level (ts # rest) = map (table_record level) ts @ snapshot_tables (level + 1) rest"

lemma fold_addTableFile [simp]:
  "scalars (fold (addTableFile level) ts r) = scalars r" "compPtrs (fold (addTableFile level) ts r) = compPtrs r"
  "deletedTables (fold (addTableFile level) ts r) = deletedTables r"
  "addedTables (fold (addTableFile level) ts r) = addedTables r @ map (table_record level) ts"
  by (induction ts arbitrary: r; simp add: addTableFile_def table_record_def)+

lemma fill_levels_fields [simp]:
  "scalars (fill_levels level ls r) = scalars r" "compPtrs (fill_levels level ls r) = compPtrs r"
  "deletedTables (fill_levels level ls r) = deletedTables r"
  "addedTables (fill_levels level ls r) = addedTables r @ snapshot_tables level ls"
  by (induction level ls r rule: fill_levels.induct; simp)+

lemma snapshot_tables_set: "a \<in> set (snapshot_tables level ls) \<Longrightarrow> \<exists>i t. i < length ls \<and> t \<in> set (ls ! i) \<and> a = table_record (level + i) t"
proof (induction level ls rule: snapshot_tables.induct)
  case (2 level ts rest)
  show ?case
  proof (cases "a \<in> set (snapshot_tables (level + 1) rest)")
    case True
    then obtain i t where "i < length rest" "t \<in> set (rest ! i)" "a = table_record (level + 1 + i) t" using 2 by blast
    then show ?thesis by (intro exI [of _ "Suc i"] exI [of _ t]) simp
  next
    case False
    then obtain t where "t \<in> set ts" "a = table_record level t" using "2.prems" by auto
    then show ?thesis by (intro exI [of _ 0] exI [of _ t]) simp
  qed
qed simp

lemma apply_table_record:
  assumes "table_fits m l t"
  shows "apply_added (table_record l t) F = F(l := insert t {u \<in> F l. fd_num u \<noteq> fd_num t})"
proof -
  have "tableFileFromRecord (table_record l t) = t" using assms by (simp add: tableFileFromRecord_def table_record_def table_fits_def)
  then show ?thesis by (simp add: apply_added_def table_record_def)
qed

lemma apply_level:
  assumes "list_all (table_fits m l) ts" and "inj_on fd_num (set ts)"
  shows "fold apply_added (map (table_record l) ts) F = F(l := set ts \<union> {u \<in> F l. fd_num u \<notin> fd_num ` set ts})"
  using assms
proof (induction ts arbitrary: F rule: rev_induct)
  case (snoc t ts)
  have "inj_on fd_num (set ts)" "list_all (table_fits m l) ts" using snoc.prems by (auto simp: inj_on_def)
  from snoc.IH [OF this(2,1), of F]
  have "fold apply_added (map (table_record l) (ts @ [t])) F =
      apply_added (table_record l t) (F(l := set ts \<union> {u \<in> F l. fd_num u \<notin> fd_num ` set ts}))"
    by (simp only: map_append fold_append list.map fold_simps comp_apply)
  also have "\<dots> = F(l := insert t {u \<in> set ts \<union> {u \<in> F l. fd_num u \<notin> fd_num ` set ts}. fd_num u \<noteq> fd_num t})"
    using apply_table_record [of m l t] snoc.prems by (subst apply_table_record [of m l t]) simp_all
  also have "insert t {u \<in> set ts \<union> {u \<in> F l. fd_num u \<notin> fd_num ` set ts}. fd_num u \<noteq> fd_num t} =
      set (ts @ [t]) \<union> {u \<in> F l. fd_num u \<notin> fd_num ` set (ts @ [t])}"
    using snoc.prems by (auto simp: inj_on_def)
  finally show ?case .
qed simp

lemma apply_levels:
  assumes "\<And>i. i < length ls \<Longrightarrow> list_all (table_fits m (level + i)) (ls ! i) \<and> inj_on fd_num (set (ls ! i))"
  shows "fold apply_added (snapshot_tables level ls) F l =
    (if level \<le> l then set (level_at ls (l - level)) \<union> {u \<in> F l. fd_num u \<notin> fd_num ` set (level_at ls (l - level))} else F l)"
  using assms
proof (induction level ls arbitrary: F rule: snapshot_tables.induct)
  case (2 level ts rest)
  have ts: "list_all (table_fits m level) ts" "inj_on fd_num (set ts)" using "2.prems" [of 0] by simp_all
  have rest: "list_all (table_fits m (level + 1 + i)) (rest ! i) \<and> inj_on fd_num (set (rest ! i))" if "i < length rest" for i
    using "2.prems" [of "Suc i"] that by simp
  let ?F = "F(level := set ts \<union> {u \<in> F level. fd_num u \<notin> fd_num ` set ts})"
  have *: "fold apply_added (snapshot_tables level (ts # rest)) F l =
      (if level + 1 \<le> l then set (level_at rest (l - (level + 1))) \<union> {u \<in> ?F l. fd_num u \<notin> fd_num ` set (level_at rest (l - (level + 1)))} else ?F l)"
    using "2.IH" [OF rest] apply_level [OF ts] by simp
  consider "l < level" | "l = level" | "level + 1 \<le> l" by linarith
  then show ?case
  proof cases
    case 3
    then have "l - level = Suc (l - (level + 1))" by simp
    then have "level_at (ts # rest) (l - level) = level_at rest (l - (level + 1))" by (simp only: level_at_def) simp
    then show ?thesis using 3 unfolding * by simp
  qed (unfold *, auto simp: level_at_def)
qed (simp add: level_at_def)

lemma apply_added_mono: "(\<And>l. F l \<subseteq> G l) \<Longrightarrow> fold apply_added ads F l \<subseteq> fold apply_added ads G l"
proof (induction ads arbitrary: F G)
  case (Cons a ads)
  show ?case by (simp, rule Cons.IH) (use Cons.prems in \<open>auto simp: apply_added_def\<close>)
qed simp

lemma apply_deleted_empty: "fold apply_deleted ds (\<lambda>_. {}) = (\<lambda>_. {})"
proof (induction ds)
  case (Cons d ds)
  have "apply_deleted d (\<lambda>_. {}) = (\<lambda>_. {})" by (auto simp: apply_deleted_def)
  then show ?case using Cons by simp
qed simp

text \<open>A snapshot of a version, with whatever the record held before, stands for the tables of the version.\<close>

lemma snapshot_record:
  assumes "tables_fit m (\<lambda>l. set (level_at (v_levels v) l))"
    and "\<And>l. fold apply_added (addedTables r) (\<lambda>_. {}) l \<subseteq> set (level_at (v_levels v) l)"
  shows "apply_record (version_fillRecord v r) (\<lambda>_. {}) = (\<lambda>l. set (level_at (v_levels v) l))"
proof
  fix l
  have "list_all (table_fits m (0 + i)) (v_levels v ! i) \<and> inj_on fd_num (set (v_levels v ! i))" if "i < length (v_levels v)" for i
    using assms(1) [unfolded tables_fit_def, rule_format, of i] that by (simp add: level_at_def list_all_iff)
  from apply_levels [OF this] assms(2) [of l]
  show "apply_record (version_fillRecord v r) (\<lambda>_. {}) l = set (level_at (v_levels v) l)"
    by (auto simp: apply_record_def version_fillRecord_def apply_deleted_empty)
qed

section \<open>Filled records\<close>

lemma raw_fields [simp]:
  "comparer_name (setNextFileNum n r) = comparer_name r" "comparer_name (setJournalNum n r) = comparer_name r"
  "comparer_name (setSeqNum q r) = comparer_name r" "comparer_name (setComparer c r) = c"
  "journalNum (setNextFileNum n r) = journalNum r" "journalNum (setJournalNum n r) = n" "journalNum (setSeqNum q r) = journalNum r"
  "journalNum (setComparer c r) = journalNum r" "nextFileNum (setNextFileNum n r) = n" "nextFileNum (setJournalNum n r) = nextFileNum r"
  "nextFileNum (setSeqNum q r) = nextFileNum r" "nextFileNum (setComparer c r) = nextFileNum r"
  "comparer_name (addCompPtr l k r) = comparer_name r" "journalNum (addCompPtr l k r) = journalNum r" "nextFileNum (addCompPtr l k r) = nextFileNum r"
  "comparer_name (addTable l n z a b r) = comparer_name r" "journalNum (addTable l n z a b r) = journalNum r"
  "nextFileNum (addTable l n z a b r) = nextFileNum r"
  by (simp_all add: setter_defs)

lemma raw_fill [simp]:
  "comparer_name (fill_compPtrs level ps r) = comparer_name r" "journalNum (fill_compPtrs level ps r) = journalNum r"
  "nextFileNum (fill_compPtrs level ps r) = nextFileNum r"
  "comparer_name (fold (addTableFile level) ts r) = comparer_name r" "journalNum (fold (addTableFile level) ts r) = journalNum r"
  "nextFileNum (fold (addTableFile level) ts r) = nextFileNum r"
proof -
  show "comparer_name (fill_compPtrs level ps r) = comparer_name r" "journalNum (fill_compPtrs level ps r) = journalNum r"
    "nextFileNum (fill_compPtrs level ps r) = nextFileNum r"
    by (induction level ps r rule: fill_compPtrs.induct; simp split: option.split)+
  show "comparer_name (fold (addTableFile level) ts r) = comparer_name r" "journalNum (fold (addTableFile level) ts r) = journalNum r"
    "nextFileNum (fold (addTableFile level) ts r) = nextFileNum r"
    by (induction ts arbitrary: r; simp add: addTableFile_def)+
qed

lemma raw_fill_levels [simp]:
  "comparer_name (fill_levels level ls r) = comparer_name r" "journalNum (fill_levels level ls r) = journalNum r"
  "nextFileNum (fill_levels level ls r) = nextFileNum r"
  by (induction level ls r rule: fill_levels.induct; simp)+

lemma fillRecord_flush:
  "scalars (session_fillRecord E s False r) = over ((None, Some (s_nextFileNum s)), (None, None)) (scalars r)"
  "compPtrs (session_fillRecord E s False r) = compPtrs r" "deletedTables (session_fillRecord E s False r) = deletedTables r"
  "addedTables (session_fillRecord E s False r) = addedTables r"
  by (simp_all add: session_fillRecord_def)

lemma has_set:
  "has (setNextFileNum n r) recJournalNum = has r recJournalNum" "has (setNextFileNum n r) recSeqNum = has r recSeqNum"
  "has (setJournalNum n r) recSeqNum = has r recSeqNum"
  by (simp_all add: setter_defs has_mark rec_tags)

lemma fillRecord_snapshot:
  "scalars (session_fillRecord E s True r) =
     over ((Some (o_uName E), Some (s_nextFileNum s)), (None, None)) (over (scalars r) ((None, None), (Some (s_journalNum s), Some (s_seqNum s))))"
  "compPtrs (session_fillRecord E s True r) = compPtrs r @ snapshot_ptrs 0 (s_compPtrs s)"
  "deletedTables (session_fillRecord E s True r) = deletedTables r" "addedTables (session_fillRecord E s True r) = addedTables r"
  "comparer_name (session_fillRecord E s True r) = o_uName E" "nextFileNum (session_fillRecord E s True r) = s_nextFileNum s"
  "journalNum (session_fillRecord E s True r) \<in> {journalNum r, s_journalNum s}"
  by (simp_all add: session_fillRecord_def Let_def has_set) (simp add: scalars_def)

lemma storable_flush:
  "storable m r \<Longrightarrow> nonneg64 (s_nextFileNum s) \<Longrightarrow> storable m (session_fillRecord E s False r)"
  by (simp add: storable_def encodable_def levels_ok_def ptrs_ok_def session_fillRecord_def)

lemma storable_snapshot:
  assumes "storable m r" and "nonneg64 (s_nextFileNum s)" and "nonneg64 (s_journalNum s)" and "length (o_uName E) \<le> m"
    and ptrs: "\<And>l k. ptr_at (s_compPtrs s) l = Some k \<Longrightarrow> int64 (int l) \<and> length k \<le> m"
    and tables: "tables_fit m (\<lambda>l. set (level_at (v_levels v) l))"
  shows "storable m (version_fillRecord v (session_fillRecord E s True r))"
proof -
  have p: "0 \<le> cp_level c \<and> int64 (cp_level c) \<and> length (cp_ikey c) \<le> m" if c: "c \<in> set (snapshot_ptrs 0 (s_compPtrs s))" for c
  proof -
    obtain i where "i < length (s_compPtrs s)" "cp_level c = int i" "s_compPtrs s ! i = Some (cp_ikey c)"
      using snapshot_ptrs_set [OF c] by auto
    then show ?thesis using ptrs [of i "cp_ikey c"] by (simp add: ptr_at_def)
  qed
  have t: "0 \<le> at_level a \<and> int64 (at_level a) \<and> nonneg64 (at_num a) \<and> nonneg64 (at_size a) \<and> length (at_imin a) \<le> m \<and> length (at_imax a) \<le> m"
    if a: "a \<in> set (snapshot_tables 0 (v_levels v))" for a
  proof -
    obtain i t where "i < length (v_levels v)" "t \<in> set (v_levels v ! i)" "a = table_record i t" using snapshot_tables_set [OF a] by auto
    moreover from this have "table_fits m i t" using tables by (auto simp: tables_fit_def level_at_def)
    ultimately show ?thesis by (simp add: table_fits_def table_record_def)
  qed
  show ?thesis
    using assms(1-4) p t fillRecord_snapshot(7) [of E s r]
    by (auto simp: storable_def encodable_def levels_ok_def ptrs_ok_def version_fillRecord_def fillRecord_snapshot(2-6) list_all_iff)
qed

lemma recordCommited_ok:
  assumes "ptrs_ok r"
  shows "\<exists>j pj q. recordCommited r s = Some (s\<lparr>s_journalNum := j, s_prevJournalNum := pj, s_seqNum := q,
      s_compPtrs := fold put_ptr (compPtrs r) (s_compPtrs s)\<rparr>) \<and>
    over (scalars r) ((None, None), (Some (s_journalNum s), Some (s_seqNum s))) = over (scalars r) ((None, None), (Some j, Some q)) \<and>
    snd (over (scalars r) ((None, None), (Some (s_journalNum s), Some (s_seqNum s)))) = (Some j, Some q)"
proof -
  let ?j = "if has r recJournalNum then journalNum r else s_journalNum s"
  let ?pj = "if has r recPrevJournalNum then prevJournalNum r else s_prevJournalNum s"
  let ?q = "if has r recSeqNum then seqNum r else s_seqNum s"
  have "recordCommited r s = Some (s\<lparr>s_journalNum := ?j, s_prevJournalNum := ?pj, s_seqNum := ?q,
      s_compPtrs := fold put_ptr (compPtrs r) (s_compPtrs s)\<rparr>)"
    using assms by (simp add: recordCommited_def Let_def ptrs_ok_def save_compPtrs_ok)
  then show ?thesis by (intro exI conjI, assumption) (simp_all add: scalars_def)
qed

section \<open>Storage\<close>

text \<open>
  What the storage and the journal promise: \<open>recs w n\<close> are the complete records of the manifest with the number \<open>n\<close>,
  \<open>pend w n\<close> the bytes of the record being written, \<open>meta w\<close> the manifest the entry point names.  An operation on one file leaves the other files and the
  entry point alone, whether or not it fails; setting the entry point is atomic; reading returns what is stored.  Of a file on which an
  operation has failed nothing is promised.
\<close>

definition same_but :: "('w \<Rightarrow> int \<Rightarrow> bytes list) \<Rightarrow> ('w \<Rightarrow> int option) \<Rightarrow> int \<Rightarrow> 'w \<Rightarrow> 'w \<Rightarrow> bool" where
  "same_but recs meta n w w' \<longleftrightarrow> meta w' = meta w \<and> (\<forall>m. m \<noteq> n \<longrightarrow> recs w' m = recs w m)"

lemma same_but_trans: "same_but recs meta n w w' \<Longrightarrow> same_but recs meta n w' w'' \<Longrightarrow> same_but recs meta n w w''"
  by (simp add: same_but_def)

lemma same_but_refl [simp]: "same_but recs meta n w w"
  by (simp add: same_but_def)

text \<open>The tables of the current version.\<close>

definition session_tables :: "session \<Rightarrow> nat \<Rightarrow> internal_key tFile set" where
  "session_tables s = (\<lambda>l. set (level_at (v_levels (s_version s)) l))"

text \<open>
  The invariant between session and storage: the entry point names the session's manifest, whose records, one after the other, give the numbers and the
  compaction pointers of the session, the tables \<open>F\<close>, and the next file number \<open>n\<close>.
\<close>

definition mirrors ::
  "('w, 'e) session_env \<Rightarrow> ('w \<Rightarrow> int \<Rightarrow> bytes list) \<Rightarrow> ('w \<Rightarrow> int option) \<Rightarrow> int \<Rightarrow> (nat \<Rightarrow> internal_key tFile set) \<Rightarrow> 'w \<Rightarrow> session \<Rightarrow> bool" where
  "mirrors E recs meta n F w s \<longleftrightarrow>
     (\<exists>fd rs. meta w = Some fd \<and> s_manifestFd s = Some fd \<and> s_manifest s \<in> {None, Some fd} \<and>
        0 \<le> fd \<and> fd < s_nextFileNum s \<and> fd < n \<and> nonneg64 (s_journalNum s) \<and>
        recs w fd = map record_bytes rs \<and> list_all (storable (o_maxAlloc E)) rs \<and>
        fold over (map scalars rs) ((None, None), (None, None)) = ((Some (o_uName E), Some n), (Some (s_journalNum s), Some (s_seqNum s))) \<and>
        fold set_ptr (concat (map compPtrs rs)) (\<lambda>_. None) = ptr_at (s_compPtrs s) \<and>
        tables_of rs = F)"

text \<open>A record that a client may commit.\<close>

definition committable :: "('w, 'e) session_env \<Rightarrow> sessionRecord \<Rightarrow> bool" where
  "committable E r \<longleftrightarrow> storable (o_maxAlloc E) r \<and> (has r recComparer \<longrightarrow> comparer_name r = o_uName E)"

lemma mirrors_cong:
  assumes "mirrors E recs meta n F w s" and "s_nextFileNum s' = s_nextFileNum s" and "s_journalNum s' = s_journalNum s" and "s_seqNum s' = s_seqNum s"
    and "s_manifest s' = s_manifest s" and "s_manifestFd s' = s_manifestFd s" and "s_compPtrs s' = s_compPtrs s"
  shows "mirrors E recs meta n F w s'"
  using assms(1) unfolding mirrors_def assms(2-7) .

lemma mirrors_facts:
  assumes "mirrors E recs meta n F w s"
  obtains fd where "s_manifestFd s = Some fd" "s_manifest s \<in> {None, Some fd}" "0 \<le> fd" "fd < s_nextFileNum s" "meta w = Some fd"
    "nonneg64 (s_journalNum s)" "tables_fit (o_maxAlloc E) F"
    "\<And>l k. ptr_at (s_compPtrs s) l = Some k \<Longrightarrow> int64 (int l) \<and> length k \<le> o_maxAlloc E"
proof -
  obtain fd rs where m: "meta w = Some fd" "s_manifestFd s = Some fd" "s_manifest s \<in> {None, Some fd}" "0 \<le> fd" "fd < s_nextFileNum s"
      "nonneg64 (s_journalNum s)" and rs: "list_all (storable (o_maxAlloc E)) rs" and tables: "tables_of rs = F"
    and ptrs: "fold set_ptr (concat (map compPtrs rs)) (\<lambda>_. None) = ptr_at (s_compPtrs s)"
    using assms unfolding mirrors_def by blast
  have "int64 (int l) \<and> length k \<le> o_maxAlloc E" if k: "ptr_at (s_compPtrs s) l = Some k" for l k
  proof -
    obtain c r where "r \<in> set rs" "c \<in> set (compPtrs r)" "nat (cp_level c) = l" "cp_ikey c = k"
      using fold_set_ptr_cases [of "concat (map compPtrs rs)" "\<lambda>_. None" l k] ptrs k by auto
    moreover from this rs have "0 \<le> cp_level c" "int64 (cp_level c)" "length (cp_ikey c) \<le> o_maxAlloc E"
      by (auto simp: list_all_iff storable_def encodable_def ptrs_ok_def)
    ultimately show ?thesis by auto
  qed
  with m tables_of_fit [OF rs] tables show ?thesis using that by blast
qed

text \<open>
  What a client does with a session, crashes and restarts included: create it, allocate, mark and give back file numbers (but not the
  manifest's), commit records, and open it again.  A commit may fail as long as it was a new manifest that could not be written; \<open>n\<close> is the
  next file number when the last commit succeeded.
\<close>

inductive session_runs :: "('w, 'e) session_env \<Rightarrow> int \<Rightarrow> 'w \<Rightarrow> session \<Rightarrow> bool" for E where
  create: "newSession (Some E) w0 = Some (w, Inr s) \<Longrightarrow> session_create E w s = Some (w', s', None) \<Longrightarrow> session_runs E (s_nextFileNum s') w' s'"
| alloc: "session_runs E n w s \<Longrightarrow> session_runs E n w (snd (allocFileNum s))"
| mark: "session_runs E n w s \<Longrightarrow> session_runs E n w (markFileNum num s)"
| reuse: "session_runs E n w s \<Longrightarrow> s_manifestFd s \<noteq> Some num \<Longrightarrow> session_runs E n w (reuseFileNum num s)"
| commit: "session_runs E n w s \<Longrightarrow> committable E r \<Longrightarrow> s_nextFileNum s + 1 < 2 ^ 63 \<Longrightarrow>
    session_commit E r trivial w s = Some (w', s', None) \<Longrightarrow> session_runs E (s_nextFileNum s') w' s'"
| commit_fails: "session_runs E n w s \<Longrightarrow> committable E r \<Longrightarrow> s_nextFileNum s + 1 < 2 ^ 63 \<Longrightarrow>
    session_commit E r trivial w s = Some (w', s', Some err) \<Longrightarrow> (\<exists>e. err = ErrCreate e) \<or> (\<exists>e re. err = ErrNewManifest e re) \<Longrightarrow>
    session_runs E n w' s'"
| reopen: "session_runs E n w s \<Longrightarrow> newSession (Some E) w = Some (w1, Inr s1) \<Longrightarrow> session_recover E w1 s1 = Some (w', s', None) \<Longrightarrow>
    session_runs E n w' s'"

locale manifest_store =
  fixes E :: "('w, 'e) session_env"
    and recs :: "'w \<Rightarrow> int \<Rightarrow> bytes list"
    and pend :: "'w \<Rightarrow> int \<Rightarrow> bytes option"
    and meta :: "'w \<Rightarrow> int option"
  assumes Lock: "so_Lock E w = (w', r) \<Longrightarrow> recs w' = recs w \<and> meta w' = meta w"
    and Create: "so_Create E n w = (w', r) \<Longrightarrow> same_but recs meta n w w' \<and> (r = None \<longrightarrow> recs w' n = [])"
    and Next: "so_Next E n w = (w', r) \<Longrightarrow> same_but recs meta n w w' \<and> (r = None \<longrightarrow> recs w' n = recs w n \<and> pend w' n = Some [])"
    and Write: "so_Write E n w b = (w', r) \<Longrightarrow>
      same_but recs meta n w w' \<and> (r = None \<longrightarrow> pend w n = Some p \<longrightarrow> recs w' n = recs w n \<and> pend w' n = Some (p @ b))"
    and Flush: "so_Flush E n w = (w', r) \<Longrightarrow>
      same_but recs meta n w w' \<and> (r = None \<longrightarrow> pend w n = Some p \<longrightarrow> recs w' n = recs w n @ [p])"
    and Sync: "so_Sync E n w = (w', r) \<Longrightarrow> same_but recs meta n w w' \<and> (r = None \<longrightarrow> recs w' n = recs w n)"
    and Close: "same_but recs meta n w (so_CloseJournal E n w)" "same_but recs meta n w (so_CloseWriter E n w)"
    and Remove: "so_Remove E n w = (w', r) \<Longrightarrow> same_but recs meta n w w'"
    and SetMeta: "so_SetMeta E n w = (w', r) \<Longrightarrow> recs w' = recs w \<and> meta w' = (if r = None then Some n else meta w)"
    and GetMeta: "meta w = Some n \<Longrightarrow> recs w n \<noteq> [] \<Longrightarrow> \<exists>w'. so_GetMeta E w = (w', Inr n) \<and> recs w' = recs w \<and> meta w' = meta w"
    and Open: "meta w = Some n \<Longrightarrow> recs w n \<noteq> [] \<Longrightarrow> \<exists>w'. so_Open E n w = (w', Inr (recs w n, None)) \<and> recs w' = recs w \<and> meta w' = meta w"
    and Options: "length (o_uName E) \<le> o_maxAlloc E" "o_maxAlloc E < 2 ^ 63"
begin

lemma run_writes_effect:
  "run_writes (so_Write E n) bs (w, None) = (w', err) \<Longrightarrow>
     same_but recs meta n w w' \<and> (err = None \<longrightarrow> pend w n = Some p \<longrightarrow> recs w' n = recs w n \<and> pend w' n = Some (p @ concat bs))"
proof (induction bs arbitrary: w p)
  case (Cons b bs)
  obtain w1 e where w1: "so_Write E n w b = (w1, e)" by (cases "so_Write E n w b")
  note step = Write [OF w1, of p]
  show ?case
  proof (cases e)
    case None
    then have "run_writes (so_Write E n) bs (w1, None) = (w', err)" using Cons.prems w1 by (simp add: run_writes_def)
    from Cons.IH [OF this, of "p @ b"] step None show ?thesis by (auto intro: same_but_trans)
  next
    case (Some x)
    have "fold (\<lambda>b st. if snd st \<noteq> None then st else so_Write E n (fst st) b) bs (w1, Some x) = (w1, Some x)" by (induction bs) simp_all
    then show ?thesis using Cons.prems w1 Some step by (auto simp: run_writes_def)
  qed
qed (simp add: run_writes_def)

lemma write_record_effect:
  assumes "write_record E n rec w = Some (w', err)" and "encodable m rec"
  shows "same_but recs meta n w w' \<and> (err = None \<longrightarrow> recs w' n = recs w n @ [record_bytes rec])"
proof -
  obtain w1 e1 where 1: "so_Next E n w = (w1, e1)" by (cases "so_Next E n w")
  show ?thesis
  proof (cases e1)
    case (Some x)
    then show ?thesis using assms(1) 1 Next [OF 1] by (auto simp: write_record_def)
  next
    case None
    have nonneg: "list_all (\<lambda>r. 0 \<le> dt_num r) (deletedTables rec)" "list_all (\<lambda>r. 0 \<le> at_num r \<and> 0 \<le> at_size r) (addedTables rec)"
      "0 \<le> journalNum rec" "0 \<le> nextFileNum rec"
      using assms(2) by (auto simp: encodable_def nonneg64_def list_all_iff)
    obtain w2 e2 where 2: "run_writes (so_Write E n) (record_writes rec) (w1, None) = (w2, e2)"
      by (cases "run_writes (so_Write E n) (record_writes rec) (w1, None)")
    have enc: "encode (so_Write E n) rec w1 = Some (w2, e2)" by (simp add: encode_runs [OF nonneg(3,4,1,2)] 2)
    note n1 = Next [OF 1] and w2 = run_writes_effect [OF 2, of "[]", unfolded record_writes_bytes append_Nil]
    show ?thesis
    proof (cases e2)
      case (Some x)
      then show ?thesis using assms(1) 1 None enc n1 w2 by (auto simp: write_record_def intro: same_but_trans)
    next
      case e2: None
      obtain w3 e3 where 3: "so_Flush E n w2 = (w3, e3)" by (cases "so_Flush E n w2")
      note f = Flush [OF 3, of "record_bytes rec"]
      have s3: "same_but recs meta n w w3" "e3 = None \<longrightarrow> recs w3 n = recs w n @ [record_bytes rec]"
        using n1 w2 f None e2 by (auto intro: same_but_trans)
      have "w' = w3 \<and> err = e3 \<or> e3 = None \<and> so_Sync E n w3 = (w', err)"
        using assms(1) 1 None enc e2 3 by (cases e3) (auto simp: write_record_def split: if_splits)
      then show ?thesis using s3 Sync [of n w3 w' err] same_but_trans [OF s3(1)] by auto
    qed
  qed
qed

text \<open>Appending a record to the manifest.\<close>

lemma flush_mirrors:
  assumes m: "mirrors E recs meta n F w s" and r: "committable E r" and open_m: "s_manifest s = Some fd"
    and num: "s_nextFileNum s < 2 ^ 63" and fl: "flushManifest E r fd w s = Some (w', s', r', None)"
  shows "mirrors E recs meta (s_nextFileNum s') (apply_record r F) w' s' \<and> s_version s' = s_version s \<and> s_ntVersionID s' = s_ntVersionID s"
proof -
  let ?r = "session_fillRecord E s False r"
  obtain rs where fd: "meta w = Some fd" "s_manifestFd s = Some fd" "0 \<le> fd" "fd < s_nextFileNum s" "fd < n" "nonneg64 (s_journalNum s)"
    and rs: "recs w fd = map record_bytes rs" "list_all (storable (o_maxAlloc E)) rs"
    and sc: "fold over (map scalars rs) ((None, None), (None, None)) = ((Some (o_uName E), Some n), (Some (s_journalNum s), Some (s_seqNum s)))"
    and ptrs: "fold set_ptr (concat (map compPtrs rs)) (\<lambda>_. None) = ptr_at (s_compPtrs s)" and F: "tables_of rs = F"
    using m open_m unfolding mirrors_def by auto
  have st: "storable (o_maxAlloc E) ?r" using r num fd(3,4) by (intro storable_flush) (simp_all add: committable_def nonneg64_def)
  obtain w1 where w1: "write_record E fd ?r w = Some (w1, None)"
    using fl by (auto simp: flushManifest_def Let_def split: option.splits)
  from recordCommited_ok [of ?r s] st obtain j pj q where
    rc: "recordCommited ?r s = Some (s\<lparr>s_journalNum := j, s_prevJournalNum := pj, s_seqNum := q, s_compPtrs := fold put_ptr (compPtrs ?r) (s_compPtrs s)\<rparr>)"
    and jq: "snd (over (scalars ?r) ((None, None), (Some (s_journalNum s), Some (s_seqNum s)))) = (Some j, Some q)"
    unfolding storable_def by blast
  have s': "s' = s\<lparr>s_journalNum := j, s_prevJournalNum := pj, s_seqNum := q, s_compPtrs := fold put_ptr (compPtrs ?r) (s_compPtrs s)\<rparr>" "w' = w1"
    using fl w1 rc by (auto simp: flushManifest_def Let_def)
  have w': "meta w' = Some fd" "recs w' fd = map record_bytes (rs @ [?r])"
    using write_record_effect [OF w1, of "o_maxAlloc E"] st rs(1) fd(1) s'(2) by (auto simp: storable_def same_but_def)
  obtain a b c d where ab: "scalars r = ((a, b), (c, d))" by (rule scalars_cases)
  have name: "or_else a (Some (o_uName E)) = Some (o_uName E)" using r ab by (auto simp: committable_def scalars_def split: if_splits)
  have j: "or_else c (Some (s_journalNum s)) = Some j" "or_else d (Some (s_seqNum s)) = Some q" using jq ab by (simp_all add: fillRecord_flush)
  have jn: "nonneg64 j" using j(1) ab r fd(6) by (auto simp: committable_def storable_def encodable_def scalars_def or_else_def split: if_splits)
  have sc': "fold over (map scalars (rs @ [?r])) ((None, None), (None, None)) = ((Some (o_uName E), Some (s_nextFileNum s)), (Some j, Some q))"
    using sc ab name j by (simp add: fillRecord_flush)
  have ptrs': "fold set_ptr (concat (map compPtrs (rs @ [?r]))) (\<lambda>_. None) = ptr_at (fold put_ptr (compPtrs ?r) (s_compPtrs s))"
    using ptrs by (simp add: ptr_at_fold)
  have F': "tables_of (rs @ [?r]) = apply_record r F"
    using F commit_cong(2) [of ?r r] by (simp add: tables_of_def fillRecord_flush)
  show ?thesis
    using w' fd rs(2) st sc' ptrs' F' jn open_m s'(1) unfolding mirrors_def
    by (intro conjI exI [of _ fd] exI [of _ "rs @ [?r]"]) (simp_all add: fillRecord_flush)
qed

text \<open>Creating a manifest: what happens between the start and a success.\<close>

lemma newManifest_success:
  assumes "newManifest E rec v w s = Some (w', s', r', None)"
  obtains w1 u s2 w2 w3 s3 where
    "so_Create E (s_nextFileNum s) w = (w1, None)"
    "(case v of Some v \<Rightarrow> Some (v, s\<lparr>s_nextFileNum := s_nextFileNum s + 1\<rparr>) | None \<Rightarrow> session_version (s\<lparr>s_nextFileNum := s_nextFileNum s + 1\<rparr>)) = Some (u, s2)"
    "r' = version_fillRecord u (session_fillRecord E s2 True (case rec of None \<Rightarrow> empty_record | Some r \<Rightarrow> r))"
    "write_record E (s_nextFileNum s) r' w1 = Some (w2, None)" "so_SetMeta E (s_nextFileNum s) w2 = (w3, None)"
    "install_manifest E (s_nextFileNum s) r' None w3 s2 = Some (w', s3, None)"
    "(if v = None then session_release s3 else Some s3) = Some s'"
proof -
  let ?s1 = "s\<lparr>s_nextFileNum := s_nextFileNum s + 1\<rparr>" and ?n = "s_nextFileNum s"
  let ?r0 = "case rec of None \<Rightarrow> empty_record | Some r \<Rightarrow> r"
  obtain w1 where c: "so_Create E ?n w = (w1, None)"
    using assms by (auto simp: newManifest_def allocFileNum_def Let_def split: prod.splits option.splits)
  obtain u s2 where u: "(case v of Some v \<Rightarrow> Some (v, ?s1) | None \<Rightarrow> session_version ?s1) = Some (u, s2)"
    using assms c by (cases "case v of Some v \<Rightarrow> Some (v, ?s1) | None \<Rightarrow> session_version ?s1") (auto simp: newManifest_def allocFileNum_def)
  define r where "r = version_fillRecord u (session_fillRecord E s2 True ?r0)"
  obtain w2 e2 where w2: "write_record E ?n r w1 = Some (w2, e2)"
    using assms c u by (cases "write_record E ?n r w1") (auto simp: newManifest_def allocFileNum_def r_def)
  obtain w3 e3 where w3: "(if e2 = None then so_SetMeta E ?n w2 else (w2, e2)) = (w3, e3)"
    by (cases "if e2 = None then so_SetMeta E ?n w2 else (w2, e2)")
  obtain w4 s3 e4 where i: "install_manifest E ?n r e3 w3 s2 = Some (w4, s3, e4)"
    using assms c u w2 w3 by (cases "install_manifest E ?n r e3 w3 s2") (auto simp: newManifest_def allocFileNum_def r_def [symmetric])
  have f: "(if v = None then session_release s3 else Some s3) = Some s'" "w4 = w'" "r = r'" "e4 = None"
    using assms c u w2 w3 i by (auto simp: newManifest_def allocFileNum_def r_def [symmetric] split: option.splits)
  have "e3 = None" using i f(4) by (cases e3) (auto simp: install_manifest_def split: prod.splits)
  moreover from this have "e2 = None" using w3 by (auto split: if_splits)
  ultimately show ?thesis using that [OF c u] w2 w3 i f r_def by auto
qed

lemma install_effect:
  assumes "install_manifest E n r None w s = Some (w', s', None)" and "ptrs_ok r" and "s_manifestFd s \<noteq> Some n" and "s_manifest s \<noteq> Some n"
  shows "recs w' n = recs w n \<and> meta w' = meta w \<and> recordCommited r s = Some (s'\<lparr>s_manifestFd := s_manifestFd s, s_manifest := s_manifest s\<rparr>) \<and>
    s_manifestFd s' = Some n \<and> s_manifest s' = Some n"
proof -
  obtain j pj q where rc: "recordCommited r s = Some (s\<lparr>s_journalNum := j, s_prevJournalNum := pj, s_seqNum := q,
      s_compPtrs := fold put_ptr (compPtrs r) (s_compPtrs s)\<rparr>)"
    using recordCommited_ok [OF assms(2), of s] by blast
  let ?w1 = "case s_manifest s of None \<Rightarrow> w | Some m \<Rightarrow> so_CloseWriter E m (so_CloseJournal E m w)"
  have w1: "recs ?w1 n = recs w n" "meta ?w1 = meta w"
  proof -
    have "same_but recs meta m w (so_CloseWriter E m (so_CloseJournal E m w))" for m by (rule same_but_trans [OF Close(1,2)])
    then show "recs ?w1 n = recs w n" "meta ?w1 = meta w"
      using assms(4) by (auto simp: same_but_def split: option.splits)
  qed
  obtain w2 e2 where w2: "(case s_manifestFd s of None \<Rightarrow> (?w1, None) | Some fd \<Rightarrow> so_Remove E fd ?w1) = (w2, e2)"
    by (cases "case s_manifestFd s of None \<Rightarrow> (?w1, None) | Some fd \<Rightarrow> so_Remove E fd ?w1")
  have "recs w2 n = recs ?w1 n" "meta w2 = meta ?w1"
    using w2 assms(3) Remove [of _ ?w1 w2 e2] by (auto simp: same_but_def split: option.splits)
  moreover have "w' = w2" "s' = s\<lparr>s_journalNum := j, s_prevJournalNum := pj, s_seqNum := q,
      s_compPtrs := fold put_ptr (compPtrs r) (s_compPtrs s), s_manifestFd := Some n, s_manifest := Some n\<rparr>"
    using assms(1) w2 by (simp_all add: install_manifest_def rc)
  ultimately show ?thesis using w1 rc by (cases s) simp
qed

text \<open>The references to versions do not touch what is mirrored.\<close>

lemma version_core:
  "session_version s = Some (v, s') \<Longrightarrow> \<exists>ms. s' = s\<lparr>s_version := v, s_messages := ms\<rparr> \<and> v_levels v = v_levels (s_version s)"
  "session_release s = Some s'' \<Longrightarrow> \<exists>v ms. s'' = s\<lparr>s_version := v, s_messages := ms\<rparr> \<and> v_levels v = v_levels (s_version s)"
proof -
  have i: "v_levels u = v_levels (s_version s)" if "incref (s_version s) = Some (u, ms)" for u ms
    using that by (auto simp: incref_def Let_def split: if_splits)
  have r: "v_levels u = v_levels (s_version s)" if "releaseNB (s_version s) = Some (u, ms)" for u ms
    using that by (auto simp: releaseNB_def Let_def split: if_splits)
  show "session_version s = Some (v, s') \<Longrightarrow> \<exists>ms. s' = s\<lparr>s_version := v, s_messages := ms\<rparr> \<and> v_levels v = v_levels (s_version s)"
    using i by (auto simp: session_version_def split: option.splits)
  show "session_release s = Some s'' \<Longrightarrow> \<exists>v ms. s'' = s\<lparr>s_version := v, s_messages := ms\<rparr> \<and> v_levels v = v_levels (s_version s)"
    using r by (fastforce simp: session_release_def split: option.splits)
qed

lemma new_mirrors:
  assumes nm: "newManifest E rec v w s = Some (w', s', r', None)" and r: "committable E r"
    and r_def: "r = (case rec of None \<Rightarrow> empty_record | Some r \<Rightarrow> r)" and lv: "lv = v_levels (case v of None \<Rightarrow> s_version s | Some v \<Rightarrow> v)"
    and fit: "tables_fit (o_maxAlloc E) (\<lambda>l. set (level_at lv l))" and added: "\<And>l. fold apply_added (addedTables r) (\<lambda>_. {}) l \<subseteq> set (level_at lv l)"
    and ptrs: "\<And>l k. ptr_at (s_compPtrs s) l = Some k \<Longrightarrow> int64 (int l) \<and> length k \<le> o_maxAlloc E" and jn: "nonneg64 (s_journalNum s)"
    and num: "0 \<le> s_nextFileNum s" "s_nextFileNum s + 1 < 2 ^ 63"
    and fresh: "s_manifestFd s \<noteq> Some (s_nextFileNum s)" "s_manifest s \<noteq> Some (s_nextFileNum s)"
  shows "mirrors E recs meta (s_nextFileNum s') (\<lambda>l. set (level_at lv l)) w' s' \<and> s_nextFileNum s' = s_nextFileNum s + 1 \<and>
    v_levels (s_version s') = v_levels (s_version s) \<and> (v \<noteq> None \<longrightarrow> s_version s' = s_version s \<and> s_ntVersionID s' = s_ntVersionID s)"
proof -
  let ?n = "s_nextFileNum s" and ?s1 = "s\<lparr>s_nextFileNum := s_nextFileNum s + 1\<rparr>"
  from nm obtain w1 u s2 w2 w3 s3 where c: "so_Create E ?n w = (w1, None)"
    and u: "(case v of Some v \<Rightarrow> Some (v, ?s1) | None \<Rightarrow> session_version ?s1) = Some (u, s2)"
    and r': "r' = version_fillRecord u (session_fillRecord E s2 True r)"
    and wr: "write_record E ?n r' w1 = Some (w2, None)" and sm: "so_SetMeta E ?n w2 = (w3, None)"
    and ins: "install_manifest E ?n r' None w3 s2 = Some (w', s3, None)" and rel: "(if v = None then session_release s3 else Some s3) = Some s'"
    unfolding r_def by (rule newManifest_success)
  have ul: "v_levels u = lv" using u lv version_core(1) [of ?s1 u s2] by (auto split: option.splits)
  obtain x ms where s2: "s2 = ?s1\<lparr>s_version := x, s_messages := ms\<rparr>" "v_levels x = v_levels (s_version s)" "v \<noteq> None \<longrightarrow> x = s_version s"
  proof (cases v)
    case None
    then show ?thesis using u version_core(1) [of ?s1 u s2] that by auto
  next
    case (Some y)
    then have "s2 = ?s1" using u by simp
    then have "s2 = ?s1\<lparr>s_version := s_version s, s_messages := s_messages s\<rparr>" by (cases s) simp
    then show ?thesis using that by blast
  qed
  have st: "storable (o_maxAlloc E) r'" unfolding r'
    using r num jn Options(1) ptrs fit s2 ul by (intro storable_snapshot) (simp_all add: committable_def nonneg64_def)
  have recs: "recs w3 ?n = [record_bytes r']" "meta w3 = Some ?n"
    using write_record_effect [OF wr, of "o_maxAlloc E"] st Create [OF c] SetMeta [OF sm] by (auto simp: storable_def)
  have i: "recs w' ?n = recs w3 ?n" "meta w' = meta w3" "s_manifestFd s3 = Some ?n" "s_manifest s3 = Some ?n"
    and rc: "recordCommited r' s2 = Some (s3\<lparr>s_manifestFd := s_manifestFd s2, s_manifest := s_manifest s2\<rparr>)"
    using install_effect [OF ins] st fresh s2(1) by (simp_all add: storable_def)
  from recordCommited_ok [of r' s2] st obtain j pj q where
    rc': "recordCommited r' s2 = Some (s2\<lparr>s_journalNum := j, s_prevJournalNum := pj, s_seqNum := q, s_compPtrs := fold put_ptr (compPtrs r') (s_compPtrs s2)\<rparr>)"
    and jq: "snd (over (scalars r') ((None, None), (Some (s_journalNum s2), Some (s_seqNum s2)))) = (Some j, Some q)"
    unfolding storable_def by blast
  have s3: "s3 = s2\<lparr>s_journalNum := j, s_prevJournalNum := pj, s_seqNum := q, s_compPtrs := fold put_ptr (compPtrs r') (s_compPtrs s2),
      s_manifestFd := Some ?n, s_manifest := Some ?n\<rparr>"
    using rc rc' i(3,4) by (cases s3; cases s2) simp
  obtain a b c d where ab: "scalars r = ((a, b), (c, d))" by (rule scalars_cases)
  have sc: "scalars r' = ((Some (o_uName E), Some (?n + 1)), (or_else c (Some (s_journalNum s)), or_else d (Some (s_seqNum s))))"
    using ab s2(1) by (simp add: r' version_fillRecord_def fillRecord_snapshot(1))
  have j: "or_else c (Some (s_journalNum s)) = Some j" "or_else d (Some (s_seqNum s)) = Some q"
    using jq sc s2(1) by (cases c; cases d; simp)+
  have jn': "nonneg64 j" using j(1) ab r jn by (auto simp: committable_def storable_def encodable_def scalars_def or_else_def split: if_splits)
  have cp: "fold set_ptr (compPtrs r') (\<lambda>_. None) = ptr_at (s_compPtrs s3)"
    unfolding s3 using s2(1) snapshot_restores [of "compPtrs r" "s_compPtrs s"]
    by (simp add: r' version_fillRecord_def fillRecord_snapshot(2) ptr_at_fold)
  have F: "tables_of [r'] = (\<lambda>l. set (level_at lv l))"
    using snapshot_record [of "o_maxAlloc E" u "session_fillRecord E s2 True r"] fit added ul
    by (simp add: tables_of_def r' fillRecord_snapshot(4))
  have m3: "mirrors E recs meta (s_nextFileNum s3) (\<lambda>l. set (level_at lv l)) w' s3"
    using recs i st sc j cp F jn' num s2(1) s3 unfolding mirrors_def
    by (intro exI [of _ ?n] exI [of _ "[r']"]) simp
  have n3: "s_nextFileNum s3 = ?n + 1" "v_levels (s_version s3) = v_levels (s_version s)" "v \<noteq> None \<longrightarrow> s_version s3 = s_version s"
    "s_ntVersionID s3 = s_ntVersionID s"
    using s3 s2 by simp_all
  show ?thesis
  proof (cases v)
    case None
    then obtain y ms' where "s' = s3\<lparr>s_version := y, s_messages := ms'\<rparr>" "v_levels y = v_levels (s_version s3)"
      using rel version_core(2) [of s3 s'] by auto
    then show ?thesis using m3 n3 None by (auto intro: mirrors_cong)
  next
    case (Some y)
    then have "s' = s3" using rel by simp
    then show ?thesis using m3 n3 Some by simp
  qed
qed

text \<open>A manifest that cannot be created, or not be completed and is given up, changes nothing.\<close>

lemma new_failed:
  assumes nm: "newManifest E rec (Some v) w s = Some (w', s', r', Some err)" and err: "\<forall>e. err \<noteq> ErrRemoveOld e"
    and m: "mirrors E recs meta n F w s" and st: "storable (o_maxAlloc E)
      (version_fillRecord v (session_fillRecord E (s\<lparr>s_nextFileNum := s_nextFileNum s + 1\<rparr>) True (case rec of None \<Rightarrow> empty_record | Some r \<Rightarrow> r)))"
  shows "mirrors E recs meta n F w' s' \<and> s_version s' = s_version s \<and> s_ntVersionID s' = s_ntVersionID s"
proof -
  let ?n = "s_nextFileNum s" and ?s1 = "s\<lparr>s_nextFileNum := s_nextFileNum s + 1\<rparr>"
  define r where "r = version_fillRecord v (session_fillRecord E ?s1 True (case rec of None \<Rightarrow> empty_record | Some r \<Rightarrow> r))"
  have keep: "mirrors E recs meta n F w2 s2" if w2: "same_but recs meta ?n w w2" and s2: "s2 = ?s1 \<or> s2 = s" for w2 s2
  proof -
    from m obtain fd rs where fd: "meta w = Some fd" "fd < ?n"
      and rest: "s_manifestFd s = Some fd \<and> s_manifest s \<in> {None, Some fd} \<and> 0 \<le> fd \<and> fd < s_nextFileNum s \<and> fd < n \<and> nonneg64 (s_journalNum s) \<and>
        recs w fd = map record_bytes rs \<and> list_all (storable (o_maxAlloc E)) rs \<and>
        fold over (map scalars rs) ((None, None), (None, None)) = ((Some (o_uName E), Some n), (Some (s_journalNum s), Some (s_seqNum s))) \<and>
        fold set_ptr (concat (map compPtrs rs)) (\<lambda>_. None) = ptr_at (s_compPtrs s) \<and> tables_of rs = F"
      unfolding mirrors_def by blast
    have "recs w2 fd = recs w fd" "meta w2 = Some fd" using w2 fd by (auto simp: same_but_def)
    then show ?thesis using rest s2 fd unfolding mirrors_def by (intro exI [of _ fd] exI [of _ rs]) auto
  qed
  obtain w1 e1 where c: "so_Create E ?n w = (w1, e1)" by (cases "so_Create E ?n w")
  note w1 = conjunct1 [OF Create [OF c]]
  show ?thesis
  proof (cases e1)
    case (Some e)
    then have "w' = w1" "s' = ?s1" using nm c by (auto simp: newManifest_def allocFileNum_def)
    then show ?thesis using keep [OF w1, of ?s1] by simp
  next
    case None
    obtain w2 e2 where w2: "write_record E ?n r w1 = Some (w2, e2)"
      using nm c None by (cases "write_record E ?n r w1") (auto simp: newManifest_def allocFileNum_def r_def)
    have s2: "same_but recs meta ?n w w2"
      using write_record_effect [OF w2, of "o_maxAlloc E"] st w1 by (auto simp: storable_def r_def [symmetric] intro: same_but_trans)
    obtain w3 e3 where w3: "(if e2 = None then so_SetMeta E ?n w2 else (w2, e2)) = (w3, e3)"
      by (cases "if e2 = None then so_SetMeta E ?n w2 else (w2, e2)")
    have ins: "install_manifest E ?n r e3 w3 ?s1 = Some (w', s', Some err)"
      using nm c None w2 w3 by (cases "install_manifest E ?n r e3 w3 ?s1") (auto simp: newManifest_def allocFileNum_def r_def [symmetric])
    obtain x where e3: "e3 = Some x"
      using ins err by (cases e3) (auto simp: install_manifest_def Let_def split: option.splits prod.splits)
    have s3: "same_but recs meta ?n w w3"
      using w3 e3 s2 SetMeta [of ?n w2 w3 e3] by (auto simp: same_but_def split: if_splits)
    obtain w4 re where w4: "so_Remove E ?n (so_CloseWriter E ?n w3) = (w4, re)" by (cases "so_Remove E ?n (so_CloseWriter E ?n w3)")
    have "w' = w4" "s' = reuseFileNum ?n ?s1" using ins e3 w4 by (auto simp: install_manifest_def)
    moreover have "reuseFileNum ?n ?s1 = s" by (simp add: reuseFileNum_def)
    moreover have "same_but recs meta ?n w w4" using s3 Close(2) Remove [OF w4] same_but_trans by metis
    ultimately show ?thesis using keep [of w4 s] by simp
  qed
qed

lemma setVersion_core:
  assumes "session_setVersion r v s = Some (s', c)"
  shows "\<exists>u ms. s' = s\<lparr>s_version := u, s_messages := ms\<rparr> \<and> v_levels u = v_levels v"
proof -
  obtain u ms where "setVersion r v (Some (s_version s)) = Some (u, Some c, ms)" "s' = s\<lparr>s_version := u, s_messages := s_messages s @ ms\<rparr>"
    using assms by (auto simp: session_setVersion_def split: option.splits prod.splits)
  moreover from this have "v_levels u = v_levels v" by (auto simp: setVersion_def incref_def Let_def split: option.splits prod.splits if_splits)
  ultimately show ?thesis by blast
qed

lemma committable_empty: "committable E empty_record"
  using Options by (simp add: committable_def storable_def encodable_def levels_ok_def ptrs_ok_def) (simp add: empty_record_def nonneg64_def)

text \<open>A commit is the writing of the manifest between two steps that only count references.\<close>

lemma commit_steps:
  assumes "session_commit E r trivial w s = Some (w', s', err)"
  obtains v s1 nv nt s3 r3 where "session_version s = Some (v, s1)" "spawn (o_ks E) (o_score E) r trivial (s_ntVersionID s1) v = Some (nv, nt)"
    "(case s_manifest s1 of
        None \<Rightarrow> newManifest E (Some r) (Some nv) w (s1\<lparr>s_ntVersionID := nt\<rparr>)
      | Some m \<Rightarrow>
          if o_maxManifest E \<le> so_Size E m w
          then map_option (\<lambda>(w, s, _, err). (w, s, r, err)) (newManifest E None (Some nv) w (s1\<lparr>s_ntVersionID := nt\<rparr>))
          else flushManifest E r m w (s1\<lparr>s_ntVersionID := nt\<rparr>)) = Some (w', s3, r3, err)"
    "err = None \<Longrightarrow> \<exists>s4 c. session_setVersion (Some r3) nv s3 = Some (s4, c) \<and> release_retired c s4 = Some s'"
    "err \<noteq> None \<Longrightarrow> session_release (s3\<lparr>s_messages := s_messages s3 @ [AbandonMsg (v_id nv)]\<rparr>) = Some s'"
proof -
  obtain v s1 where v: "session_version s = Some (v, s1)" using assms by (cases "session_version s") (auto simp: session_commit_def)
  obtain nv nt where nv: "spawn (o_ks E) (o_score E) r trivial (s_ntVersionID s1) v = Some (nv, nt)"
    using assms v by (cases "spawn (o_ks E) (o_score E) r trivial (s_ntVersionID s1) v") (auto simp: session_commit_def)
  let ?M = "case s_manifest s1 of
        None \<Rightarrow> newManifest E (Some r) (Some nv) w (s1\<lparr>s_ntVersionID := nt\<rparr>)
      | Some m \<Rightarrow>
          if o_maxManifest E \<le> so_Size E m w
          then map_option (\<lambda>(w, s, _, err). (w, s, r, err)) (newManifest E None (Some nv) w (s1\<lparr>s_ntVersionID := nt\<rparr>))
          else flushManifest E r m w (s1\<lparr>s_ntVersionID := nt\<rparr>)"
  have c: "session_commit E r trivial w s = (case ?M of
        None \<Rightarrow> None
      | Some (w, s, r, None) \<Rightarrow>
          (case session_setVersion (Some r) nv s of None \<Rightarrow> None | Some (s, c) \<Rightarrow> map_option (\<lambda>s. (w, s, None)) (release_retired c s))
      | Some (w, s, r, Some err) \<Rightarrow>
          map_option (\<lambda>s. (w, s, Some err)) (session_release (s\<lparr>s_messages := s_messages s @ [AbandonMsg (v_id nv)]\<rparr>)))"
    using v nv by (simp add: session_commit_def Let_def)
  obtain w3 s3 r3 e3 where M: "?M = Some (w3, s3, r3, e3)" using assms c by (cases ?M) auto
  have f: "w3 = w'" "e3 = err" "err = None \<Longrightarrow> \<exists>s4 c. session_setVersion (Some r3) nv s3 = Some (s4, c) \<and> release_retired c s4 = Some s'"
    "err \<noteq> None \<Longrightarrow> session_release (s3\<lparr>s_messages := s_messages s3 @ [AbandonMsg (v_id nv)]\<rparr>) = Some s'"
    using assms unfolding c M by (cases e3; auto split: option.splits)+
  show ?thesis using that [OF v nv M [unfolded f(1,2)] f(3,4)] by blast
qed

lemma commit_mirrors:
  assumes co: "session_commit E r trivial w s = Some (w', s', None)" and m: "mirrors E recs meta n (session_tables s) w s"
    and r: "committable E r" and num: "s_nextFileNum s + 1 < 2 ^ 63"
  shows "mirrors E recs meta (s_nextFileNum s') (session_tables s') w' s' \<and> session_tables s' = apply_record r (session_tables s)"
proof -
  from co obtain v s1 nv nt s3 r3 where v: "session_version s = Some (v, s1)"
    and nv: "spawn (o_ks E) (o_score E) r trivial (s_ntVersionID s1) v = Some (nv, nt)"
    and M: "(case s_manifest s1 of
        None \<Rightarrow> newManifest E (Some r) (Some nv) w (s1\<lparr>s_ntVersionID := nt\<rparr>)
      | Some m \<Rightarrow>
          if o_maxManifest E \<le> so_Size E m w
          then map_option (\<lambda>(w, s, _, err). (w, s, r, err)) (newManifest E None (Some nv) w (s1\<lparr>s_ntVersionID := nt\<rparr>))
          else flushManifest E r m w (s1\<lparr>s_ntVersionID := nt\<rparr>)) = Some (w', s3, r3, None)"
    and fin: "\<exists>s4 c. session_setVersion (Some r3) nv s3 = Some (s4, c) \<and> release_retired c s4 = Some s'"
    by (rule commit_steps) auto
  define s2 where "s2 = s1\<lparr>s_ntVersionID := nt\<rparr>"
  obtain ms where s1: "s1 = s\<lparr>s_version := v, s_messages := ms\<rparr>" "v_levels v = v_levels (s_version s)" using version_core(1) [OF v] by blast
  have m2: "mirrors E recs meta n (session_tables s) w s2" using m by (rule mirrors_cong) (simp_all add: s2_def s1)
  have F: "(\<lambda>l. set (level_at (v_levels nv) l)) = apply_record r (session_tables s)"
    using spawn_tables [OF nv] s1(2) by (simp add: session_tables_def fun_eq_iff)
  from mirrors_facts [OF m2] obtain fd where fd: "s_manifestFd s2 = Some fd" "s_manifest s2 \<in> {None, Some fd}" "0 \<le> fd" "fd < s_nextFileNum s2"
      "nonneg64 (s_journalNum s2)" "tables_fit (o_maxAlloc E) (session_tables s)"
    and ptrs: "\<And>l k. ptr_at (s_compPtrs s2) l = Some k \<Longrightarrow> int64 (int l) \<and> length k \<le> o_maxAlloc E" by metis
  have num2: "0 \<le> s_nextFileNum s2" "s_nextFileNum s2 + 1 < 2 ^ 63" using fd num by (simp_all add: s2_def s1)
  have fresh: "s_manifestFd s2 \<noteq> Some (s_nextFileNum s2)" "s_manifest s2 \<noteq> Some (s_nextFileNum s2)" using fd by auto
  have fit: "tables_fit (o_maxAlloc E) (\<lambda>l. set (level_at (v_levels nv) l))"
    unfolding F using tables_fit_record r fd(6) by (simp add: committable_def)
  have added: "fold apply_added (addedTables r) (\<lambda>_. {}) l \<subseteq> set (level_at (v_levels nv) l)" for l
    using apply_added_mono [of "\<lambda>_. {}" "fold apply_deleted (deletedTables r) (session_tables s)" "addedTables r" l] fun_cong [OF F, of l]
    by (simp add: apply_record_def)
  have m3: "mirrors E recs meta (s_nextFileNum s3) (\<lambda>l. set (level_at (v_levels nv) l)) w' s3"
  proof (cases "s_manifest s2")
    case None
    then have nm: "newManifest E (Some r) (Some nv) w s2 = Some (w', s3, r3, None)" using M by (simp add: s2_def)
    show ?thesis by (rule conjunct1 [OF new_mirrors [OF nm r _ _ fit added ptrs fd(5) num2 fresh]]) simp_all
  next
    case (Some k)
    then have k: "k = fd" using fd(2) by simp
    show ?thesis
    proof (cases "o_maxManifest E \<le> so_Size E k w")
      case True
      then obtain r4 where nm: "newManifest E None (Some nv) w s2 = Some (w', s3, r4, None)"
        using M Some by (auto simp: s2_def)
      show ?thesis by (rule conjunct1 [OF new_mirrors [OF nm committable_empty _ _ fit _ ptrs fd(5) num2 fresh]]) simp_all
    next
      case False
      then have fl: "flushManifest E r fd w s2 = Some (w', s3, r3, None)" using M Some k by (simp add: s2_def)
      show ?thesis unfolding F by (rule conjunct1 [OF flush_mirrors [OF m2 r _ _ fl]]) (use Some k num2 in simp_all)
    qed
  qed
  obtain s4 c where "session_setVersion (Some r3) nv s3 = Some (s4, c)" and rel: "release_retired c s4 = Some s'" using fin by blast
  from setVersion_core [OF this(1)] obtain u ms' where s4: "s4 = s3\<lparr>s_version := u, s_messages := ms'\<rparr>" "v_levels u = v_levels nv" by blast
  obtain ms'' rt where s': "s' = s4\<lparr>s_retired := rt, s_messages := ms''\<rparr>" using rel by (auto simp: release_retired_def split: option.splits)
  have t: "session_tables s' = (\<lambda>l. set (level_at (v_levels nv) l))" using s' s4 by (simp add: session_tables_def)
  have n: "s_nextFileNum s' = s_nextFileNum s3" using s' s4 by simp
  have "mirrors E recs meta (s_nextFileNum s') (session_tables s') w' s'"
    unfolding t n using m3 by (rule mirrors_cong) (simp_all add: s' s4(1))
  then show ?thesis using t F by simp
qed

lemma commit_failed:
  assumes co: "session_commit E r trivial w s = Some (w', s', Some err)" and err: "(\<exists>e. err = ErrCreate e) \<or> (\<exists>e re. err = ErrNewManifest e re)"
    and m: "mirrors E recs meta n (session_tables s) w s" and r: "committable E r" and num: "s_nextFileNum s + 1 < 2 ^ 63"
  shows "mirrors E recs meta n (session_tables s') w' s' \<and> session_tables s' = session_tables s"
proof -
  from co obtain v s1 nv nt s3 r3 where v: "session_version s = Some (v, s1)"
    and nv: "spawn (o_ks E) (o_score E) r trivial (s_ntVersionID s1) v = Some (nv, nt)"
    and M: "(case s_manifest s1 of
        None \<Rightarrow> newManifest E (Some r) (Some nv) w (s1\<lparr>s_ntVersionID := nt\<rparr>)
      | Some m \<Rightarrow>
          if o_maxManifest E \<le> so_Size E m w
          then map_option (\<lambda>(w, s, _, err). (w, s, r, err)) (newManifest E None (Some nv) w (s1\<lparr>s_ntVersionID := nt\<rparr>))
          else flushManifest E r m w (s1\<lparr>s_ntVersionID := nt\<rparr>)) = Some (w', s3, r3, Some err)"
    and fin: "session_release (s3\<lparr>s_messages := s_messages s3 @ [AbandonMsg (v_id nv)]\<rparr>) = Some s'"
    by (rule commit_steps) auto
  define s2 where "s2 = s1\<lparr>s_ntVersionID := nt\<rparr>"
  obtain ms where s1: "s1 = s\<lparr>s_version := v, s_messages := ms\<rparr>" "v_levels v = v_levels (s_version s)" using version_core(1) [OF v] by blast
  have m2: "mirrors E recs meta n (session_tables s) w s2" using m by (rule mirrors_cong) (simp_all add: s2_def s1)
  from mirrors_facts [OF m2] obtain fd where fd: "0 \<le> fd" "fd < s_nextFileNum s2" "nonneg64 (s_journalNum s2)"
      "tables_fit (o_maxAlloc E) (session_tables s)"
    and ptrs: "\<And>l k. ptr_at (s_compPtrs s2) l = Some k \<Longrightarrow> int64 (int l) \<and> length k \<le> o_maxAlloc E" by metis
  have fit: "tables_fit (o_maxAlloc E) (\<lambda>l. set (level_at (v_levels nv) l))"
    using spawn_tables [OF nv] s1(2) tables_fit_record [of "o_maxAlloc E" r, OF _ fd(4)] r
    by (simp add: session_tables_def committable_def)
  have st: "storable (o_maxAlloc E) (version_fillRecord nv (session_fillRecord E (s2\<lparr>s_nextFileNum := s_nextFileNum s2 + 1\<rparr>) True q))"
    if "committable E q" for q
    using that fd(1-3) num ptrs fit Options(1) by (intro storable_snapshot) (simp_all add: committable_def nonneg64_def s2_def s1)
  have "\<exists>rec r4. newManifest E rec (Some nv) w s2 = Some (w', s3, r4, Some err) \<and> committable E (case rec of None \<Rightarrow> empty_record | Some r \<Rightarrow> r)"
  proof (cases "s_manifest s1")
    case None
    then show ?thesis using M r by (intro exI [of _ "Some r"] exI [of _ r3]) (simp add: s2_def)
  next
    case (Some k)
    have "o_maxManifest E \<le> so_Size E k w"
      using M Some err by (auto simp: flushManifest_def Let_def split: if_splits option.splits prod.splits)
    then show ?thesis using M Some committable_empty by (intro exI [of _ None]) (auto simp: s2_def)
  qed
  then obtain rec r4 where nm: "newManifest E rec (Some nv) w s2 = Some (w', s3, r4, Some err)"
    and q: "committable E (case rec of None \<Rightarrow> empty_record | Some r \<Rightarrow> r)" by blast
  have m3: "mirrors E recs meta n (session_tables s) w' s3" "s_version s3 = s_version s2"
    using new_failed [OF nm _ m2 st [OF q]] err by auto
  obtain u ms' where s': "s' = s3\<lparr>s_version := u, s_messages := ms'\<rparr>" "v_levels u = v_levels (s_version s3)"
    using version_core(2) [OF fin] by auto
  have t: "session_tables s' = session_tables s" using s' m3(2) s1 by (simp add: session_tables_def s2_def)
  have "mirrors E recs meta n (session_tables s') w' s'" unfolding t using m3(1) by (rule mirrors_cong) (simp_all add: s')
  then show ?thesis using t by simp
qed

text \<open>A session as \<^verbatim>\<open>newSession\<close> makes it.\<close>

lemma newSession_fresh:
  assumes "newSession (Some E) w = Some (w', Inr s)"
  shows "recs w' = recs w \<and> meta w' = meta w \<and> s_nextFileNum s = 0 \<and> s_journalNum s = 0 \<and> s_manifest s = None \<and> s_manifestFd s = None \<and>
    s_compPtrs s = [] \<and> v_levels (s_version s) = [] \<and> v_ref (s_version s) = 1"
  using assms Lock [of w w' None]
  by (auto simp: newSession_def newVersion_def setVersion_def incref_def Let_def split: prod.splits option.splits)

lemma recover_mirrors:
  assumes m: "mirrors E recs meta n F w s" and s0: "s_manifest s0 = None" "s_compPtrs s0 = []" "v_levels (s_version s0) = []" "v_ref (s_version s0) = 1"
  shows "\<exists>w' s'. session_recover E w s0 = Some (w', s', None) \<and> mirrors E recs meta n (session_tables s') w' s' \<and> session_tables s' = F \<and>
    s_nextFileNum s' = n \<and> s_journalNum s' = s_journalNum s \<and> s_seqNum s' = s_seqNum s \<and> ptr_at (s_compPtrs s') = ptr_at (s_compPtrs s)"
proof -
  obtain fd rs where fd: "meta w = Some fd" "0 \<le> fd" "fd < n" "nonneg64 (s_journalNum s)"
    and rs: "recs w fd = map record_bytes rs" "list_all (storable (o_maxAlloc E)) rs"
    and sc: "fold over (map scalars rs) ((None, None), (None, None)) = ((Some (o_uName E), Some n), (Some (s_journalNum s), Some (s_seqNum s)))"
    and ptrs: "fold set_ptr (concat (map compPtrs rs)) (\<lambda>_. None) = ptr_at (s_compPtrs s)" and F: "tables_of rs = F"
    using m unfolding mirrors_def by auto
  have ne: "recs w fd \<noteq> []" using sc rs(1) by auto
  obtain w1 where w1: "so_GetMeta E w = (w1, Inr fd)" "recs w1 = recs w" "meta w1 = meta w" using GetMeta [OF fd(1) ne] by blast
  obtain w2 where w2: "so_Open E fd w1 = (w2, Inr (map record_bytes rs, None))" "recs w2 = recs w" "meta w2 = meta w"
    using Open [of w1 fd] w1 fd(1) rs(1) ne by auto
  let ?rec = "fold next_record rs empty_record" and ?p = "fold stage_record rs (newStaging (s_version s0))"
  let ?s1 = "s0\<lparr>s_compPtrs := fold put_ptr (concat (map compPtrs rs)) (s_compPtrs s0)\<rparr>"
  have cl: "cleared empty_record" by (simp add: cleared_def)
  note rr = recover_records_ok [OF rs(2) cl, of "newStaging (s_version s0)" s0]
  have scr: "scalars ?rec = ((Some (o_uName E), Some n), (Some (s_journalNum s), Some (s_seqNum s)))" using sc by (simp add: fold_next_record(1))
  then have has: "has ?rec recComparer" "has ?rec recNextFileNum" "has ?rec recJournalNum" "has ?rec recSeqNum"
    and val: "comparer_name ?rec = o_uName E" "nextFileNum ?rec = n" "journalNum ?rec = s_journalNum s" "seqNum ?rec = s_seqNum s"
    by (auto simp: scalars_def split: if_splits)
  have check: "check_record E ?rec = None" using has val by (simp add: check_record_def)
  obtain nv nt where nv: "finish (o_ks E) (o_score E) False (s_ntVersionID s0) ?p = (nv, nt)"
    by (cases "finish (o_ks E) (o_score E) False (s_ntVersionID s0) ?p")
  have t: "set (level_at (v_levels nv) l) = F l" for l
    using finish_commits [of "o_ks E" "o_score E" False "s_ntVersionID s0" rs "s_version s0" l] nv s0(3) F by (simp add: tables_of_def level_at_def)
  have nv0: "\<not> v_released nv" using nv by (auto simp: finish_def newVersion_def computeCompaction_def Let_def split: prod.splits)
  let ?s2 = "?s1\<lparr>s_manifestFd := Some fd, s_ntVersionID := nt\<rparr>"
  obtain s3 c where s3: "session_setVersion (Some ?rec) nv ?s2 = Some (s3, c)"
    using nv0 s0(4) by (auto simp: session_setVersion_def setVersion_def incref_def releaseNB_def Let_def)
  from setVersion_core [OF s3] obtain u ms where s3': "s3 = ?s2\<lparr>s_version := u, s_messages := ms\<rparr>" "v_levels u = v_levels nv" by blast
  have ok: "ptrs_ok ?rec" using fold_next_record(2) [OF cl, of rs] by (simp add: ptrs_ok_def cleared_def)
  let ?s4 = "session_setNextFileNum (nextFileNum ?rec) s3"
  from recordCommited_ok [OF ok, of ?s4] obtain j pj q where
    s5: "recordCommited ?rec ?s4 = Some (?s4\<lparr>s_journalNum := j, s_prevJournalNum := pj, s_seqNum := q, s_compPtrs := fold put_ptr (compPtrs ?rec) (s_compPtrs ?s4)\<rparr>)"
    and jq: "snd (over (scalars ?rec) ((None, None), (Some (s_journalNum ?s4), Some (s_seqNum ?s4)))) = (Some j, Some q)" by blast
  have jq': "j = s_journalNum s" "q = s_seqNum s" using jq scr by simp_all
  have cp: "compPtrs ?rec = []" using fold_next_record(2) [OF cl, of rs] by (simp add: cleared_def)
  let ?s5 = "?s4\<lparr>s_journalNum := j, s_prevJournalNum := pj, s_seqNum := q, s_compPtrs := fold put_ptr (compPtrs ?rec) (s_compPtrs ?s4)\<rparr>"
  let ?s6 = "?s5\<lparr>s_retired := s_retired ?s5 @ [c]\<rparr>"
  have rec: "session_recover E w s0 = Some (w2, ?s6, None)"
    using w1(1) w2(1) rr check nv s3 s5 by (simp add: session_recover_def)
  have p6: "ptr_at (s_compPtrs ?s6) = ptr_at (s_compPtrs s)"
    using cp s3'(1) s0(2) ptrs by (simp add: session_setNextFileNum_def ptr_at_fold ptr_at_Nil)
  have t6: "session_tables ?s6 = F" using s3' t by (simp add: session_tables_def session_setNextFileNum_def fun_eq_iff)
  have f6: "s_nextFileNum ?s6 = n" "s_journalNum ?s6 = s_journalNum s" "s_seqNum ?s6 = s_seqNum s" "s_manifestFd ?s6 = Some fd" "s_manifest ?s6 = None"
    using val(2) jq' s3'(1) s0(1) by (simp_all add: session_setNextFileNum_def)
  have "mirrors E recs meta n (session_tables ?s6) w2 ?s6"
    unfolding mirrors_def f6 p6 t6 using fd w2 rs sc ptrs F by (intro exI [of _ fd] exI [of _ rs]) simp
  with rec t6 f6(1-3) p6 show ?thesis by (intro exI [of _ w2] exI [of _ ?s6] conjI)
qed

lemma mirrors_world: "mirrors E recs meta n F w s \<Longrightarrow> recs w' = recs w \<Longrightarrow> meta w' = meta w \<Longrightarrow> mirrors E recs meta n F w' s"
  by (simp add: mirrors_def)

lemma mirrors_next:
  assumes "mirrors E recs meta n F w s" and "\<And>fd. s_manifestFd s = Some fd \<Longrightarrow> fd < s_nextFileNum s \<Longrightarrow> fd < k"
  shows "mirrors E recs meta n F w (s\<lparr>s_nextFileNum := k\<rparr>)"
proof -
  obtain fd rs where fd: "meta w = Some fd" "s_manifestFd s = Some fd" "s_manifest s \<in> {None, Some fd}" "0 \<le> fd" "fd < n" "nonneg64 (s_journalNum s)"
      "fd < s_nextFileNum s"
    and rs: "recs w fd = map record_bytes rs" "list_all (storable (o_maxAlloc E)) rs"
    and sc: "fold over (map scalars rs) ((None, None), (None, None)) = ((Some (o_uName E), Some n), (Some (s_journalNum s), Some (s_seqNum s)))"
    and ptrs: "fold set_ptr (concat (map compPtrs rs)) (\<lambda>_. None) = ptr_at (s_compPtrs s)" and F: "tables_of rs = F"
    using assms(1) unfolding mirrors_def by auto
  then show ?thesis using assms(2) [OF fd(2,7)] unfolding mirrors_def by (intro exI [of _ fd] exI [of _ rs]) simp
qed

lemma runs_mirror: "session_runs E n w s \<Longrightarrow> mirrors E recs meta n (session_tables s) w s"
proof (induction rule: session_runs.induct)
  case (create w0 w s w' s')
  obtain r' where nm: "newManifest E None None w s = Some (w', s', r', None)" using create(2) by (auto simp: session_create_def)
  note f = newSession_fresh [OF create(1)]
  have fit: "tables_fit (o_maxAlloc E) (\<lambda>l. set (level_at [] l))" by (simp add: tables_fit_def level_at_def)
  have "mirrors E recs meta (s_nextFileNum s') (\<lambda>l. set (level_at [] l)) w' s' \<and> v_levels (s_version s') = v_levels (s_version s)"
    using new_mirrors [OF nm committable_empty _ _ fit] f by (auto simp: ptr_at_Nil nonneg64_def)
  then show ?case using f by (simp add: session_tables_def)
next
  case (alloc n w s)
  then show ?case using mirrors_next [of n "session_tables s" w s "s_nextFileNum s + 1"] by (simp add: allocFileNum_def session_tables_def)
next
  case (mark n w s num)
  then show ?case by (auto simp: markFileNum_def session_tables_def Let_def intro!: mirrors_next)
next
  case (reuse n w s num)
  then show ?case by (auto simp: reuseFileNum_def session_tables_def Let_def intro!: mirrors_next)
next
  case (commit n w s r trivial w' s')
  then show ?case using commit_mirrors by blast
next
  case (commit_fails n w s r trivial w' s' err)
  then show ?case using commit_failed by blast
next
  case (reopen n w s w1 s1 w' s')
  note f = newSession_fresh [OF reopen(2)]
  have "mirrors E recs meta n (session_tables s) w1 s" using mirrors_world [OF reopen.IH] f by simp
  from recover_mirrors [OF this, of s1] f reopen(3) show ?case by auto
qed

lemma runs_recover:
  assumes "session_runs E n w s" and "newSession (Some E) w = Some (w1, Inr s1)"
  shows "\<exists>w' s'. session_recover E w1 s1 = Some (w', s', None) \<and> session_tables s' = session_tables s \<and>
    s_nextFileNum s' = n \<and> s_journalNum s' = s_journalNum s \<and> s_seqNum s' = s_seqNum s \<and> ptr_at (s_compPtrs s') = ptr_at (s_compPtrs s)"
proof -
  note f = newSession_fresh [OF assms(2)]
  have "mirrors E recs meta n (session_tables s) w1 s" using mirrors_world [OF runs_mirror [OF assms(1)]] f by simp
  from recover_mirrors [OF this, of s1] f show ?thesis by (elim conjE) blast
qed

end

section \<open>A storage in memory\<close>

text \<open>
  A storage that keeps its files in memory, and in which any call that writes may fail: the list \<open>ms_faults\<close> says which of the next calls do.
\<close>

record mem_store =
  ms_files :: "(int \<times> bytes list) list"
  ms_pend :: "(int \<times> bytes) list"
  ms_meta :: "int option"
  ms_faults :: "bool list"

definition attempt :: "(mem_store \<Rightarrow> mem_store) \<Rightarrow> mem_store \<Rightarrow> mem_store \<times> string option" where
  "attempt f w =
     (case ms_faults w of
        [] \<Rightarrow> (f w, None)
      | fault # fs \<Rightarrow> if fault then (w\<lparr>ms_faults := fs\<rparr>, Some ''fault'') else (f (w\<lparr>ms_faults := fs\<rparr>), None))"

definition mem_recs :: "mem_store \<Rightarrow> int \<Rightarrow> bytes list" where
  "mem_recs w n = (case map_of (ms_files w) n of None \<Rightarrow> [] | Some bs \<Rightarrow> bs)"

definition mem_pend :: "mem_store \<Rightarrow> int \<Rightarrow> bytes option" where
  "mem_pend w n = map_of (ms_pend w) n"

definition mem_env :: "bool \<Rightarrow> bool \<Rightarrow> int \<Rightarrow> (mem_store, string) session_env" where
  "mem_env strict noSync maxManifest = \<lparr>
     so_Lock = (\<lambda>w. (w, None)),
     so_Create = (\<lambda>n. attempt (\<lambda>w. w\<lparr>ms_files := AList.update n [] (ms_files w)\<rparr>)),
     so_Next = (\<lambda>n. attempt (\<lambda>w. w\<lparr>ms_pend := AList.update n [] (ms_pend w)\<rparr>)),
     so_Write = (\<lambda>n w b. attempt (\<lambda>w. w\<lparr>ms_pend := AList.update n (case mem_pend w n of None \<Rightarrow> b | Some p \<Rightarrow> p @ b) (ms_pend w)\<rparr>) w),
     so_Flush = (\<lambda>n. attempt (\<lambda>w. w\<lparr>ms_files := AList.update n (mem_recs w n @ (case mem_pend w n of None \<Rightarrow> [] | Some p \<Rightarrow> [p])) (ms_files w)\<rparr>)),
     so_Sync = (\<lambda>n. attempt id),
     so_Size = (\<lambda>n w. int (length (concat (mem_recs w n)))),
     so_CloseJournal = (\<lambda>n w. w),
     so_CloseWriter = (\<lambda>n w. w),
     so_Remove = (\<lambda>n. attempt (\<lambda>w. w\<lparr>ms_files := AList.delete n (ms_files w)\<rparr>)),
     so_SetMeta = (\<lambda>n. attempt (\<lambda>w. w\<lparr>ms_meta := Some n\<rparr>)),
     so_GetMeta = (\<lambda>w. (w, case ms_meta w of None \<Rightarrow> Inl ''not found'' | Some n \<Rightarrow> if map_of (ms_files w) n = None then Inl ''not found'' else Inr n)),
     so_Open = (\<lambda>n w. (w, case map_of (ms_files w) n of None \<Rightarrow> Inl ''not found'' | Some bs \<Rightarrow> Inr (bs, None))),
     so_List = (\<lambda>w. map fst (ms_files w)),
     so_IsNotExist = (\<lambda>e. e = ''not found''),
     o_ks = down_keys, o_score = (\<lambda>_ _. 0), o_uName = [98, 121, 116, 101, 119, 105, 115, 101], o_strict = strict, o_noSync = noSync,
     o_maxManifest = maxManifest, o_maxAlloc = 64\<rparr>"

lemma attempt_cases:
  assumes "attempt f w = (w', r)"
  obtains fs where "w' = f (w\<lparr>ms_faults := fs\<rparr>)" "r = None" | fs where "w' = w\<lparr>ms_faults := fs\<rparr>" "r = Some ''fault''"
proof (cases "ms_faults w")
  case Nil
  then have e: "w\<lparr>ms_faults := []\<rparr> = w" by (cases w) simp
  have "w' = f (w\<lparr>ms_faults := []\<rparr>)" "r = None" unfolding e using assms Nil by (auto simp: attempt_def)
  then show ?thesis using that(1) by blast
next
  case (Cons fault fs)
  then show ?thesis using assms that by (auto simp: attempt_def split: if_splits)
qed

lemmas mem_simps = mem_recs_def mem_pend_def update_conv' delete_conv'

lemma mem_manifest_laws: "manifest_store (mem_env strict noSync maxManifest) mem_recs mem_pend ms_meta"
proof (unfold_locales, goal_cases)
  case (2 n w w' r)
  then show ?case by (auto simp: mem_env_def same_but_def mem_simps elim!: attempt_cases)
next
  case (3 n w w' r)
  then show ?case by (auto simp: mem_env_def same_but_def mem_simps elim!: attempt_cases)
next
  case (4 n w b w' r p)
  then show ?case by (auto simp: mem_env_def same_but_def mem_simps elim!: attempt_cases)
next
  case (5 n w w' r p)
  then show ?case by (auto simp: mem_env_def same_but_def mem_simps elim!: attempt_cases)
next
  case (6 n w w' r)
  then show ?case by (auto simp: mem_env_def same_but_def mem_simps elim!: attempt_cases)
next
  case (9 n w w' r)
  then show ?case by (auto simp: mem_env_def same_but_def mem_simps elim!: attempt_cases)
next
  case (10 n w w' r)
  then show ?case by (auto simp: mem_env_def mem_simps elim!: attempt_cases)
next
  case (11 w n)
  then show ?case by (auto simp: mem_env_def mem_recs_def split: option.splits)
next
  case (12 w n)
  then show ?case by (auto simp: mem_env_def mem_recs_def split: option.splits)
qed (simp_all add: mem_env_def)

interpretation mem_manifest: manifest_store "mem_env strict noSync maxManifest" mem_recs mem_pend ms_meta
  for strict noSync maxManifest
  by (rule mem_manifest_laws)

text \<open>Records and sessions for the examples below.\<close>

definition flush_record :: sessionRecord where
  "flush_record = setSeqNum 9 (setJournalNum 5 (addTable 1 7 4096 [2] [1] empty_record))"

definition mem_created :: "bool \<Rightarrow> int \<Rightarrow> bool list \<Rightarrow> (mem_store \<times> session \<times> string session_error option) option" where
  "mem_created noSync maxManifest faults =
     (case newSession (Some (mem_env False noSync maxManifest)) \<lparr>ms_files = [], ms_pend = [], ms_meta = None, ms_faults = faults\<rparr> of
        Some (w, Inr s) \<Rightarrow> session_create (mem_env False noSync maxManifest) w s
      | _ \<Rightarrow> None)"

definition mem_committed :: "bool \<Rightarrow> int \<Rightarrow> bool list \<Rightarrow> (mem_store \<times> session \<times> string session_error option) option" where
  "mem_committed noSync maxManifest faults =
     (case mem_created noSync maxManifest [] of
        Some (w, s, None) \<Rightarrow> session_commit (mem_env False noSync maxManifest) flush_record False (w\<lparr>ms_faults := faults\<rparr>) s
      | _ \<Rightarrow> None)"

definition mem_reopened :: "(mem_store \<times> session \<times> string session_error option) option \<Rightarrow> (mem_store \<times> session \<times> string session_error option) option" where
  "mem_reopened r =
     (case r of
        None \<Rightarrow> None
      | Some (w, _) \<Rightarrow>
          (case newSession (Some (mem_env False True 0)) w of
             Some (w, Inr s) \<Rightarrow> session_recover (mem_env False True 0) w s
           | _ \<Rightarrow> None))"

definition mem_summary :: "(mem_store \<times> session \<times> string session_error option) option \<Rightarrow>
    (int option \<times> int \<times> int \<times> string session_error option \<times> int list list) option" where
  "mem_summary = map_option (\<lambda>(w, s, e). (ms_meta w, s_nextFileNum s, s_journalNum s, e, map (map fd_num) (v_levels (s_version s))))"

lemma mem_committed_values:
  "mem_summary (mem_committed True 1000 []) = Some (Some 0, 1, 5, None, [[], [7]])"
  "mem_summary (mem_committed True 0 []) = Some (Some 1, 2, 0, None, [[], [7]])"
  "mem_summary (mem_committed True 0 (replicate 20 False @ [True])) = Some (Some 0, 1, 0, Some (ErrNewManifest ''fault'' None), [])"
  by code_simp+

lemma flush_record_committable: "committable (mem_env strict noSync maxManifest) flush_record"
  by (simp add: committable_def storable_def encodable_def levels_ok_def ptrs_ok_def flush_record_def empty_record_def mem_env_def
      setter_defs mark_def nonneg64_def int64_def has_def rec_tags)

lemma mem_created_runs:
  assumes "mem_created noSync maxManifest faults = Some (w, s, None)"
  shows "session_runs (mem_env False noSync maxManifest) (s_nextFileNum s) w s"
  using assms by (auto simp: mem_created_def split: option.splits sum.splits prod.splits intro: session_runs.create)

section \<open>Properties\<close>

text \<open>
  C3: a session survives a crash.  Over any storage that keeps the contract, whatever commits, failed rotations of the manifest, restarts and
  allocations of file numbers came before: a new session that recovers from the storage succeeds and has the same tables in every level, the same
  journal and sequence numbers and compaction pointers as the one that is gone, and the file number of its last successful commit.
\<close>

theorem session_recovers:
  assumes "manifest_store E recs pend meta" and "session_runs E n w s" and "newSession (Some E) w = Some (w1, Inr s1)"
  shows "\<exists>w' s'. session_recover E w1 s1 = Some (w', s', None) \<and>
    (\<forall>l. set (level_at (v_levels (s_version s')) l) = set (level_at (v_levels (s_version s)) l)) \<and>
    s_nextFileNum s' = n \<and> s_journalNum s' = s_journalNum s \<and> s_seqNum s' = s_seqNum s \<and>
    (\<forall>l. getCompPtr (int l) s' = getCompPtr (int l) s)"
proof -
  obtain w' s' where r: "session_recover E w1 s1 = Some (w', s', None)" "session_tables s' = session_tables s" "s_nextFileNum s' = n"
      "s_journalNum s' = s_journalNum s" "s_seqNum s' = s_seqNum s" and p: "ptr_at (s_compPtrs s') = ptr_at (s_compPtrs s)"
    using manifest_store.runs_recover [OF assms] by blast
  have "getCompPtr (int l) t = Some (ptr_at (s_compPtrs t) l)" for t l by (simp add: getCompPtr_def ptr_at_def)
  then show ?thesis using r p by (intro exI [of _ w'] exI [of _ s'] conjI) (simp_all add: session_tables_def fun_eq_iff)
qed

theorem session_recovers_witness:
  "\<exists>w s w1 s1 w' s'. session_runs (mem_env False True 1000) 1 w s \<and> newSession (Some (mem_env False True 1000)) w = Some (w1, Inr s1) \<and>
    session_recover (mem_env False True 1000) w1 s1 = Some (w', s', None) \<and> s_journalNum s' = 5 \<and>
    fd_num ` set (level_at (v_levels (s_version s')) 1) = {7}"
proof -
  let ?E = "mem_env False True 1000"
  obtain w s where c: "mem_committed True 1000 [] = Some (w, s, None)" and s: "s_nextFileNum s = 1" "s_journalNum s = 5"
    "map (map fd_num) (v_levels (s_version s)) = [[], [7]]"
    using mem_committed_values(1) by (auto simp: mem_summary_def)
  then obtain w0 s0 where c0: "mem_created True 1000 [] = Some (w0, s0, None)"
    and c1: "session_commit ?E flush_record False (w0\<lparr>ms_faults := []\<rparr>) s0 = Some (w, s, None)"
    by (auto simp: mem_committed_def split: option.splits prod.splits)
  have "mem_summary (mem_created True 1000 []) = Some (Some 0, 1, 0, None, [])" "map_option (ms_faults \<circ> fst) (mem_created True 1000 []) = Some []"
    by code_simp+
  then have n0: "s_nextFileNum s0 = 1" "w0\<lparr>ms_faults := []\<rparr> = w0" using c0 by (auto simp: mem_summary_def)
  have runs: "session_runs ?E 1 w s"
    using session_runs.commit [OF mem_created_runs [OF c0] flush_record_committable _ c1 [unfolded n0(2)]] n0(1) s(1) by simp
  obtain w1 s1 where new: "newSession (Some ?E) w = Some (w1, Inr s1)"
    by (simp add: newSession_def mem_env_def newVersion_def setVersion_def incref_def Let_def)
  have l: "fd_num ` set (level_at (v_levels (s_version s)) 1) = {7}"
    using s(3) by (auto simp: level_at_def map_eq_Cons_conv)
  from session_recovers [OF mem_manifest_laws runs new] runs new s(2) l show ?thesis by (metis (no_types, lifting))
qed

section \<open>Two ways in which a commit and the manifest disagree\<close>

text \<open>
  A commit that starts a new manifest because the old one has grown too large passes no record to \<^verbatim>\<open>newManifest\<close>: the tables are in
  the snapshot, but the record's journal and sequence numbers are neither written nor taken over, though the commit succeeds.
\<close>

lemma rotation_forgets_numbers:
  "has flush_record recJournalNum \<and> journalNum flush_record = 5 \<and> mem_summary (mem_committed True 0 []) = Some (Some 1, 2, 0, None, [[], [7]])"
  by code_simp

text \<open>
  When the entry point already names the new manifest and only the removal of the old one fails, the commit returns the error and keeps the old
  version, while a recovery finds the new one.
\<close>

lemma failed_removal_diverges:
  "mem_summary (mem_committed True 0 (replicate 21 False @ [True])) = Some (Some 1, 2, 0, Some (ErrRemoveOld ''fault''), [])"
  "mem_summary (mem_reopened (mem_committed True 0 (replicate 21 False @ [True]))) = Some (Some 1, 2, 0, None, [[], [7]])"
  by code_simp+

end
