(* ===== verification/Ldb_Iterator.thy ===== *)
theory Ldb_Iterator
  imports Ldb_Version
begin

text \<open>
  Iterators, \<^verbatim>\<open>goleveldb/leveldb/iterator/iter.go\<close> and \<^verbatim>\<open>array_iter.go\<close>.  The record \<open>iter_ops\<close> holds the methods of the interface
  \<^verbatim>\<open>Iterator\<close> and the locale \<open>iterator\<close> its contract: a position in a list of entries, before the first and
  behind the last included.  Arrays and the empty iterator provide it.  \<^verbatim>\<open>nil\<close> keys and values are \<open>None\<close>; the flag that
  \<^verbatim>\<open>Release\<close> sets comes from \<^verbatim>\<open>util.BasicReleaser\<close>.
\<close>

section \<open>The interface\<close>

record ('i, 'ik, 'val, 'e) iter_ops =
  it_First :: "'i \<Rightarrow> 'i \<times> bool"
  it_Last :: "'i \<Rightarrow> 'i \<times> bool"
  it_Seek :: "'ik \<Rightarrow> 'i \<Rightarrow> 'i \<times> bool"
  it_Next :: "'i \<Rightarrow> 'i \<times> bool"
  it_Prev :: "'i \<Rightarrow> 'i \<times> bool"
  it_Valid :: "'i \<Rightarrow> bool"
  it_Key :: "'i \<Rightarrow> 'i \<times> 'ik option"
  it_Value :: "'i \<Rightarrow> 'i \<times> 'val option"
  it_Error :: "'i \<Rightarrow> 'e option"

section \<open>Array iterators\<close>

text \<open>The interface \<^verbatim>\<open>Array\<close>: length, search for the first key not below the one given, and access by index.\<close>

record ('ik, 'val) arr =
  arr_Len :: nat
  arr_Search :: "'ik \<Rightarrow> nat"
  arr_Index :: "nat \<Rightarrow> 'ik \<times> 'val"

datatype iter_error = ErrIterReleased

record ('ik, 'val) basicArrayIterator =
  ba_released :: bool
  ba_array :: "('ik, 'val) arr"
  ba_pos :: int
  ba_err :: "iter_error option"

definition ba_Valid :: "('ik, 'val) basicArrayIterator \<Rightarrow> bool" where
  "ba_Valid i \<longleftrightarrow> 0 \<le> ba_pos i \<and> ba_pos i < int (arr_Len (ba_array i)) \<and> \<not> ba_released i"

definition ba_First :: "('ik, 'val) basicArrayIterator \<Rightarrow> ('ik, 'val) basicArrayIterator \<times> bool" where
  "ba_First i =
     (if ba_released i then (i\<lparr>ba_err := Some ErrIterReleased\<rparr>, False)
      else if arr_Len (ba_array i) = 0 then (i\<lparr>ba_pos := -1\<rparr>, False)
      else (i\<lparr>ba_pos := 0\<rparr>, True))"

definition ba_Last :: "('ik, 'val) basicArrayIterator \<Rightarrow> ('ik, 'val) basicArrayIterator \<times> bool" where
  "ba_Last i =
     (if ba_released i then (i\<lparr>ba_err := Some ErrIterReleased\<rparr>, False)
      else let n = arr_Len (ba_array i)
        in if n = 0 then (i\<lparr>ba_pos := 0\<rparr>, False) else (i\<lparr>ba_pos := int n - 1\<rparr>, True))"

definition ba_Seek :: "'ik \<Rightarrow> ('ik, 'val) basicArrayIterator \<Rightarrow> ('ik, 'val) basicArrayIterator \<times> bool" where
  "ba_Seek key i =
     (if ba_released i then (i\<lparr>ba_err := Some ErrIterReleased\<rparr>, False)
      else let n = arr_Len (ba_array i)
        in if n = 0 then (i\<lparr>ba_pos := 0\<rparr>, False)
           else let p = int (arr_Search (ba_array i) key) in (i\<lparr>ba_pos := p\<rparr>, p < int n))"

definition ba_Next :: "('ik, 'val) basicArrayIterator \<Rightarrow> ('ik, 'val) basicArrayIterator \<times> bool" where
  "ba_Next i =
     (if ba_released i then (i\<lparr>ba_err := Some ErrIterReleased\<rparr>, False)
      else let p = ba_pos i + 1; n = int (arr_Len (ba_array i))
        in if n \<le> p then (i\<lparr>ba_pos := n\<rparr>, False) else (i\<lparr>ba_pos := p\<rparr>, True))"

definition ba_Prev :: "('ik, 'val) basicArrayIterator \<Rightarrow> ('ik, 'val) basicArrayIterator \<times> bool" where
  "ba_Prev i =
     (if ba_released i then (i\<lparr>ba_err := Some ErrIterReleased\<rparr>, False)
      else let p = ba_pos i - 1
        in if p < 0 then (i\<lparr>ba_pos := -1\<rparr>, False) else (i\<lparr>ba_pos := p\<rparr>, True))"

definition ba_Release :: "('ik, 'val) basicArrayIterator \<Rightarrow> ('ik, 'val) basicArrayIterator" where
  "ba_Release i = i\<lparr>ba_released := True\<rparr>"

text \<open>The iterator with the key and value of the position they were last asked for.\<close>

record ('ik, 'val) arrayIterator =
  ai_base :: "('ik, 'val) basicArrayIterator"
  ai_pos :: int
  ai_key :: "'ik option"
  ai_value :: "'val option"

definition updateKV :: "('ik, 'val) arrayIterator \<Rightarrow> ('ik, 'val) arrayIterator" where
  "updateKV i =
     (if ai_pos i = ba_pos (ai_base i) then i
      else let i = i\<lparr>ai_pos := ba_pos (ai_base i)\<rparr>
        in if ba_Valid (ai_base i)
           then (case arr_Index (ba_array (ai_base i)) (nat (ai_pos i)) of (k, v) \<Rightarrow> i\<lparr>ai_key := Some k, ai_value := Some v\<rparr>)
           else i\<lparr>ai_key := None, ai_value := None\<rparr>)"

definition ai_Key :: "('ik, 'val) arrayIterator \<Rightarrow> ('ik, 'val) arrayIterator \<times> 'ik option" where
  "ai_Key i = (let i = updateKV i in (i, ai_key i))"

definition ai_Value :: "('ik, 'val) arrayIterator \<Rightarrow> ('ik, 'val) arrayIterator \<times> 'val option" where
  "ai_Value i = (let i = updateKV i in (i, ai_value i))"

definition NewArrayIterator :: "('ik, 'val) arr \<Rightarrow> ('ik, 'val) arrayIterator" where
  "NewArrayIterator a =
     \<lparr>ai_base = \<lparr>ba_released = False, ba_array = a, ba_pos = -1, ba_err = None\<rparr>, ai_pos = -1, ai_key = None, ai_value = None\<rparr>"

text \<open>The index iterator, whose entries are iterators themselves.\<close>

definition indexer_Get :: "('ik, 'it) basicArrayIterator \<Rightarrow> 'it option" where
  "indexer_Get i = (if ba_Valid i then Some (snd (arr_Index (ba_array i) (nat (ba_pos i)))) else None)"

definition NewArrayIndexer :: "('ik, 'it) arr \<Rightarrow> ('ik, 'it) basicArrayIterator" where
  "NewArrayIndexer a = \<lparr>ba_released = False, ba_array = a, ba_pos = -1, ba_err = None\<rparr>"

text \<open>The methods that the embedded \<^verbatim>\<open>basicArrayIterator\<close> lends to the iterator.\<close>

definition lift_base ::
  "(('ik, 'val) basicArrayIterator \<Rightarrow> ('ik, 'val) basicArrayIterator \<times> bool) \<Rightarrow>
   ('ik, 'val) arrayIterator \<Rightarrow> ('ik, 'val) arrayIterator \<times> bool" where
  "lift_base f i = (case f (ai_base i) of (b, r) \<Rightarrow> (i\<lparr>ai_base := b\<rparr>, r))"

definition array_ops :: "(('ik, 'val) arrayIterator, 'ik, 'val, iter_error) iter_ops" where
  "array_ops = \<lparr>
     it_First = lift_base ba_First, it_Last = lift_base ba_Last, it_Seek = (\<lambda>k. lift_base (ba_Seek k)),
     it_Next = lift_base ba_Next, it_Prev = lift_base ba_Prev, it_Valid = (\<lambda>i. ba_Valid (ai_base i)),
     it_Key = ai_Key, it_Value = ai_Value, it_Error = (\<lambda>i. ba_err (ai_base i))\<rparr>"

section \<open>The empty iterator\<close>

record emptyIterator =
  ei_released :: bool
  ei_err :: "iter_error option"

definition ei_rErr :: "emptyIterator \<Rightarrow> emptyIterator" where
  "ei_rErr i = (if ei_err i = None \<and> ei_released i then i\<lparr>ei_err := Some ErrIterReleased\<rparr> else i)"

definition NewEmptyIterator :: "iter_error option \<Rightarrow> emptyIterator" where
  "NewEmptyIterator err = \<lparr>ei_released = False, ei_err = err\<rparr>"

definition empty_ops :: "(emptyIterator, 'ik, 'val, iter_error) iter_ops" where
  "empty_ops = \<lparr>
     it_First = (\<lambda>i. (ei_rErr i, False)), it_Last = (\<lambda>i. (ei_rErr i, False)), it_Seek = (\<lambda>k i. (ei_rErr i, False)),
     it_Next = (\<lambda>i. (ei_rErr i, False)), it_Prev = (\<lambda>i. (ei_rErr i, False)), it_Valid = (\<lambda>i. False),
     it_Key = (\<lambda>i. (i, None)), it_Value = (\<lambda>i. (i, None)), it_Error = ei_err\<rparr>"

section \<open>The contract\<close>

text \<open>The number of entries whose key is below the given one.\<close>

definition below_count :: "('ik \<Rightarrow> 'ik \<Rightarrow> int) \<Rightarrow> 'ik \<Rightarrow> ('ik \<times> 'val) list \<Rightarrow> nat" where
  "below_count cmp k es = length (takeWhile (\<lambda>e. cmp (fst e) k < 0) es)"

locale iterator =
  fixes ops :: "('i, 'ik, 'val, 'e) iter_ops"
    and ok :: "'i \<Rightarrow> bool"
    and content :: "'i \<Rightarrow> ('ik \<times> 'val) list"
    and pos :: "'i \<Rightarrow> int"
    and cmp :: "'ik \<Rightarrow> 'ik \<Rightarrow> int"
  assumes pos_range: "ok i \<Longrightarrow> -1 \<le> pos i \<and> pos i \<le> int (length (content i))"
    and First_law: "ok i \<Longrightarrow> it_First ops i = (i', b) \<Longrightarrow>
      ok i' \<and> content i' = content i \<and> b = (content i \<noteq> []) \<and> (b \<longrightarrow> pos i' = 0)"
    and Last_law: "ok i \<Longrightarrow> it_Last ops i = (i', b) \<Longrightarrow>
      ok i' \<and> content i' = content i \<and> b = (content i \<noteq> []) \<and> (b \<longrightarrow> pos i' = int (length (content i)) - 1)"
    and Seek_law: "ok i \<Longrightarrow> it_Seek ops k i = (i', b) \<Longrightarrow>
      ok i' \<and> content i' = content i \<and> b = (below_count cmp k (content i) < length (content i)) \<and>
      (b \<longrightarrow> pos i' = int (below_count cmp k (content i)))"
    and Next_law: "ok i \<Longrightarrow> it_Next ops i = (i', b) \<Longrightarrow>
      ok i' \<and> content i' = content i \<and> b = (pos i + 1 < int (length (content i))) \<and> (b \<longrightarrow> pos i' = pos i + 1)"
    and Prev_law: "ok i \<Longrightarrow> it_Prev ops i = (i', b) \<Longrightarrow>
      ok i' \<and> content i' = content i \<and> b = (1 \<le> pos i \<and> content i \<noteq> []) \<and>
      (content i \<noteq> [] \<longrightarrow> pos i' = (if b then pos i - 1 else -1))"
    and Valid_law: "ok i \<Longrightarrow> it_Valid ops i \<longleftrightarrow> 0 \<le> pos i \<and> pos i < int (length (content i))"
    and Key_law: "ok i \<Longrightarrow> it_Key ops i = (i', r) \<Longrightarrow>
      ok i' \<and> content i' = content i \<and> pos i' = pos i \<and>
      r = (if 0 \<le> pos i \<and> pos i < int (length (content i)) then Some (fst (content i ! nat (pos i))) else None)"
    and Value_law: "ok i \<Longrightarrow> it_Value ops i = (i', v) \<Longrightarrow>
      ok i' \<and> content i' = content i \<and> pos i' = pos i \<and>
      v = (if 0 \<le> pos i \<and> pos i < int (length (content i)) then Some (snd (content i ! nat (pos i))) else None)"
    and Error_law: "ok i \<Longrightarrow> it_Error ops i = None"

text \<open>The array iterator keeps the contract on arrays that hold a list of entries.\<close>

definition arr_list :: "('ik, 'val) arr \<Rightarrow> ('ik \<times> 'val) list" where
  "arr_list a = map (arr_Index a) [0..<arr_Len a]"

definition arr_ok :: "('ik \<Rightarrow> 'ik \<Rightarrow> int) \<Rightarrow> ('ik, 'val) arr \<Rightarrow> bool" where
  "arr_ok cmp a \<longleftrightarrow> (\<forall>k. arr_Search a k = below_count cmp k (arr_list a))"

definition ai_ok :: "('ik \<Rightarrow> 'ik \<Rightarrow> int) \<Rightarrow> ('ik, 'val) arrayIterator \<Rightarrow> bool" where
  "ai_ok cmp i \<longleftrightarrow>
     (let b = ai_base i; n = int (arr_Len (ba_array b))
      in arr_ok cmp (ba_array b) \<and> \<not> ba_released b \<and> ba_err b = None \<and> -1 \<le> ba_pos b \<and> ba_pos b \<le> n \<and>
         (if 0 \<le> ai_pos i \<and> ai_pos i < n
          then ai_key i = Some (fst (arr_Index (ba_array b) (nat (ai_pos i)))) \<and>
               ai_value i = Some (snd (arr_Index (ba_array b) (nat (ai_pos i))))
          else ai_key i = None \<and> ai_value i = None))"

definition ai_content :: "('ik, 'val) arrayIterator \<Rightarrow> ('ik \<times> 'val) list" where
  "ai_content i = arr_list (ba_array (ai_base i))"

definition ai_at :: "('ik, 'val) arrayIterator \<Rightarrow> int" where
  "ai_at i = ba_pos (ai_base i)"

lemma below_count_le: "below_count cmp k es \<le> length es"
  by (simp add: below_count_def length_takeWhile_le)

lemma length_arr_list [simp]: "length (arr_list a) = arr_Len a" "arr_list a = [] \<longleftrightarrow> arr_Len a = 0"
  by (simp_all add: arr_list_def)

lemma updateKV_ok:
  assumes "ai_ok cmp i"
  shows "ai_ok cmp (updateKV i)" "ai_base (updateKV i) = ai_base i" "ai_pos (updateKV i) = ba_pos (ai_base i)"
  using assms by (auto simp: updateKV_def ai_ok_def ba_Valid_def Let_def split: prod.split if_splits)

interpretation array_iterator: iterator array_ops "ai_ok cmp" ai_content ai_at cmp for cmp
proof unfold_locales
  fix i :: "('a, 'b) arrayIterator"
  assume ok: "ai_ok cmp i"
  show "-1 \<le> ai_at i \<and> ai_at i \<le> int (length (ai_content i))"
    using ok by (simp add: ai_ok_def Let_def ai_at_def ai_content_def)
  show "ai_ok cmp i' \<and> ai_content i' = ai_content i \<and> b = (ai_content i \<noteq> []) \<and> (b \<longrightarrow> ai_at i' = 0)"
    if "it_First array_ops i = (i', b)" for i' b
    using ok that by (auto simp: array_ops_def lift_base_def ba_First_def ai_ok_def ai_content_def ai_at_def Let_def split: if_splits)
  show "ai_ok cmp i' \<and> ai_content i' = ai_content i \<and> b = (ai_content i \<noteq> []) \<and> (b \<longrightarrow> ai_at i' = int (length (ai_content i)) - 1)"
    if "it_Last array_ops i = (i', b)" for i' b
    using ok that by (auto simp: array_ops_def lift_base_def ba_Last_def ai_ok_def ai_content_def ai_at_def Let_def split: if_splits)
  show "ai_ok cmp i' \<and> ai_content i' = ai_content i \<and> b = (below_count cmp k (ai_content i) < length (ai_content i)) \<and>
      (b \<longrightarrow> ai_at i' = int (below_count cmp k (ai_content i)))"
    if "it_Seek array_ops k i = (i', b)" for k i' b
    using ok that below_count_le [of cmp k "arr_list (ba_array (ai_base i))"]
    by (auto simp: array_ops_def lift_base_def ba_Seek_def ai_ok_def ai_content_def ai_at_def arr_ok_def Let_def split: if_splits)
  show "ai_ok cmp i' \<and> ai_content i' = ai_content i \<and> b = (ai_at i + 1 < int (length (ai_content i))) \<and> (b \<longrightarrow> ai_at i' = ai_at i + 1)"
    if "it_Next array_ops i = (i', b)" for i' b
    using ok that by (auto simp: array_ops_def lift_base_def ba_Next_def ai_ok_def ai_content_def ai_at_def Let_def split: if_splits)
  show "ai_ok cmp i' \<and> ai_content i' = ai_content i \<and> b = (1 \<le> ai_at i \<and> ai_content i \<noteq> []) \<and>
      (ai_content i \<noteq> [] \<longrightarrow> ai_at i' = (if b then ai_at i - 1 else -1))"
    if "it_Prev array_ops i = (i', b)" for i' b
    using ok that by (auto simp: array_ops_def lift_base_def ba_Prev_def ai_ok_def ai_content_def ai_at_def Let_def split: if_splits)
  show "it_Valid array_ops i \<longleftrightarrow> 0 \<le> ai_at i \<and> ai_at i < int (length (ai_content i))"
    using ok by (auto simp: array_ops_def ba_Valid_def ai_ok_def ai_content_def ai_at_def Let_def)
  show "ai_ok cmp i' \<and> ai_content i' = ai_content i \<and> ai_at i' = ai_at i \<and>
      k = (if 0 \<le> ai_at i \<and> ai_at i < int (length (ai_content i)) then Some (fst (ai_content i ! nat (ai_at i))) else None)"
    if "it_Key array_ops i = (i', k)" for i' k
    using updateKV_ok [OF ok] that
    by (auto simp: array_ops_def ai_Key_def ai_content_def ai_at_def arr_list_def Let_def ai_ok_def [of _ "updateKV i"])
  show "ai_ok cmp i' \<and> ai_content i' = ai_content i \<and> ai_at i' = ai_at i \<and>
      v = (if 0 \<le> ai_at i \<and> ai_at i < int (length (ai_content i)) then Some (snd (ai_content i ! nat (ai_at i))) else None)"
    if "it_Value array_ops i = (i', v)" for i' v
    using updateKV_ok [OF ok] that
    by (auto simp: array_ops_def ai_Value_def ai_content_def ai_at_def arr_list_def Let_def ai_ok_def [of _ "updateKV i"])
  show "it_Error array_ops i = None" using ok by (simp add: array_ops_def ai_ok_def Let_def)
qed

interpretation empty_iterator: iterator empty_ops "\<lambda>i. \<not> ei_released i \<and> ei_err i = None" "\<lambda>i. []" "\<lambda>i. -1" cmp for cmp
  by unfold_locales (auto simp: empty_ops_def ei_rErr_def below_count_def)

end
