(* ===== verification/Ldb_Db_Iter.thy ===== *)
theory Ldb_Db_Iter
  imports Ldb_Iterator
begin

text \<open>
  The iterator a user of the database gets, \<^verbatim>\<open>goleveldb/leveldb/db_iter.go\<close>: it moves over an iterator of internal
  keys and shows, for each user key, the newest entry that its snapshot may see, unless that is a deletion mark.  The record
  \<open>db_env\<close> holds what it calls: the raw iterator's methods, the key order, \<^verbatim>\<open>parseInternalKey\<close>, \<^verbatim>\<open>makeInternalKey\<close> and the
  sampling of reads, which depends on random numbers and the database.  The loops need not end for an arbitrary raw iterator:
  not ending is \<open>None\<close>, and the lemmas show that they end under the iterator contract.
\<close>

section \<open>State\<close>

record ('i, 'ik, 'e, 'smp) db_env =
  e_ops :: "('i, 'ik, bytes, 'e) iter_ops"
  e_ks :: "'ik key_ops"
  e_parse :: "'ik \<Rightarrow> (bytes \<times> nat \<times> key_type) option"
  e_make :: "bytes \<Rightarrow> nat \<Rightarrow> 'ik"
  e_sample :: "'ik option \<Rightarrow> bytes option \<Rightarrow> 'smp \<Rightarrow> 'smp"

datatype dir = dirReleased | dirSOI | dirEOI | dirBackward | dirForward

datatype 'e db_error = DbIterReleased | DbKeyError | DbRawError 'e

record ('i, 'e, 'smp) dbIter =
  di_iter :: 'i
  di_seq :: nat
  di_strict :: bool
  di_disableSampling :: bool
  di_sampling :: 'smp
  di_dir :: dir
  di_key :: bytes
  di_value :: bytes
  di_err :: "'e db_error option"
  di_releaser :: "nat option"

definition parse_key :: "('i, 'ik, 'e, 'smp) db_env \<Rightarrow> 'ik option \<Rightarrow> (bytes \<times> nat \<times> key_type) option" where
  "parse_key E k = (case k of None \<Rightarrow> None | Some k \<Rightarrow> e_parse E k)"

definition db_newIterator :: "'i \<Rightarrow> nat \<Rightarrow> bool \<Rightarrow> bool \<Rightarrow> 'smp \<Rightarrow> ('i, 'e, 'smp) dbIter" where
  "db_newIterator it seq strict nosample smp =
     \<lparr>di_iter = it, di_seq = seq, di_strict = strict, di_disableSampling = nosample, di_sampling = smp, di_dir = dirSOI,
      di_key = [], di_value = [], di_err = None, di_releaser = None\<rparr>"

definition di_setErr :: "'e db_error \<Rightarrow> ('i, 'e, 'smp) dbIter \<Rightarrow> ('i, 'e, 'smp) dbIter" where
  "di_setErr e i = i\<lparr>di_err := Some e, di_key := [], di_value := []\<rparr>"

definition di_iterErr :: "('i, 'ik, 'e, 'smp) db_env \<Rightarrow> ('i, 'e, 'smp) dbIter \<Rightarrow> ('i, 'e, 'smp) dbIter" where
  "di_iterErr E i = (case it_Error (e_ops E) (di_iter i) of None \<Rightarrow> i | Some e \<Rightarrow> di_setErr (DbRawError e) i)"

definition di_sampleSeek :: "('i, 'ik, 'e, 'smp) db_env \<Rightarrow> ('i, 'e, 'smp) dbIter \<Rightarrow> ('i, 'e, 'smp) dbIter" where
  "di_sampleSeek E i =
     (if di_disableSampling i then i
      else case it_Key (e_ops E) (di_iter i) of (it, k) \<Rightarrow>
        (case it_Value (e_ops E) it of (it, v) \<Rightarrow>
           i\<lparr>di_iter := it, di_sampling := e_sample E k v (di_sampling i)\<rparr>))"

text \<open>Copying the raw iterator's value and the user key.\<close>

definition di_load :: "('i, 'ik, 'e, 'smp) db_env \<Rightarrow> bytes \<Rightarrow> ('i, 'e, 'smp) dbIter \<Rightarrow> ('i, 'e, 'smp) dbIter" where
  "di_load E ukey i =
     (case it_Value (e_ops E) (di_iter i) of (it, v) \<Rightarrow>
        i\<lparr>di_iter := it, di_key := ukey, di_value := (case v of None \<Rightarrow> [] | Some v \<Rightarrow> v)\<rparr>)"

definition di_Valid :: "('i, 'e, 'smp) dbIter \<Rightarrow> bool" where
  "di_Valid i \<longleftrightarrow> di_err i = None \<and> di_dir i \<in> {dirBackward, dirForward}"

definition di_Key :: "('i, 'e, 'smp) dbIter \<Rightarrow> bytes option" where
  "di_Key i = (if di_Valid i then Some (di_key i) else None)"

definition di_Value :: "('i, 'e, 'smp) dbIter \<Rightarrow> bytes option" where
  "di_Value i = (if di_Valid i then Some (di_value i) else None)"

section \<open>Forward\<close>

text \<open>The end of a turn of the loop of \<^verbatim>\<open>next\<close>: the raw iterator moves on.  \<open>None\<close> in the result says that the loop goes on.\<close>

definition next_advance :: "('i, 'ik, 'e, 'smp) db_env \<Rightarrow> ('i, 'e, 'smp) dbIter \<Rightarrow> ('i, 'e, 'smp) dbIter \<times> bool option" where
  "next_advance E i =
     (case it_Next (e_ops E) (di_iter i) of (it, r) \<Rightarrow>
        if r then (i\<lparr>di_iter := it\<rparr>, None)
        else (di_iterErr E (i\<lparr>di_iter := it, di_dir := dirEOI\<rparr>), Some False))"

definition next_turn :: "('i, 'ik, 'e, 'smp) db_env \<Rightarrow> ('i, 'e, 'smp) dbIter \<Rightarrow> ('i, 'e, 'smp) dbIter \<times> bool option" where
  "next_turn E i =
     (case it_Key (e_ops E) (di_iter i) of (it, k) \<Rightarrow>
        let i = i\<lparr>di_iter := it\<rparr>
        in case parse_key E k of
             None \<Rightarrow> if di_strict i then (di_setErr DbKeyError i, Some False) else next_advance E i
           | Some (ukey, seq, kt) \<Rightarrow>
               (let i = di_sampleSeek E i
                in if seq \<le> di_seq i then
                     (case kt of
                        KeyDel \<Rightarrow> next_advance E (i\<lparr>di_key := ukey, di_dir := dirForward\<rparr>)
                      | KeyVal \<Rightarrow>
                          if di_dir i = dirSOI \<or> 0 < k_ucmp (e_ks E) ukey (di_key i)
                          then ((di_load E ukey i)\<lparr>di_dir := dirForward\<rparr>, Some True)
                          else next_advance E i)
                   else next_advance E i))"

partial_function (option) db_next ::
  "('i, 'ik, 'e, 'smp) db_env \<Rightarrow> ('i, 'e, 'smp) dbIter \<Rightarrow> (('i, 'e, 'smp) dbIter \<times> bool) option" where
  "db_next E i =
     (case next_turn E i of
        (i, Some r) \<Rightarrow> Some (i, r)
      | (i, None) \<Rightarrow> db_next E i)"

section \<open>Backward\<close>

text \<open>The end of \<^verbatim>\<open>prev\<close>.\<close>

definition prev_finish :: "('i, 'ik, 'e, 'smp) db_env \<Rightarrow> bool \<Rightarrow> ('i, 'e, 'smp) dbIter \<Rightarrow> ('i, 'e, 'smp) dbIter \<times> bool" where
  "prev_finish E del i = (if del then (di_iterErr E (i\<lparr>di_dir := dirSOI\<rparr>), False) else (i, True))"

definition prev_back ::
  "('i, 'ik, 'e, 'smp) db_env \<Rightarrow> bool \<Rightarrow> ('i, 'e, 'smp) dbIter \<Rightarrow>
   (('i, 'e, 'smp) dbIter \<times> bool) + (('i, 'e, 'smp) dbIter \<times> bool)" where
  "prev_back E del i =
     (case it_Prev (e_ops E) (di_iter i) of (it, r) \<Rightarrow>
        if r then Inr (i\<lparr>di_iter := it\<rparr>, del) else Inl (prev_finish E del (i\<lparr>di_iter := it\<rparr>)))"

text \<open>A turn of the loop of \<^verbatim>\<open>prev\<close>: the result of the function (\<open>Inl\<close>), or the state of the next turn (\<open>Inr\<close>).\<close>

definition prev_turn ::
  "('i, 'ik, 'e, 'smp) db_env \<Rightarrow> bool \<Rightarrow> ('i, 'e, 'smp) dbIter \<Rightarrow>
   (('i, 'e, 'smp) dbIter \<times> bool) + (('i, 'e, 'smp) dbIter \<times> bool)" where
  "prev_turn E del i =
     (case it_Key (e_ops E) (di_iter i) of (it, k) \<Rightarrow>
        let i = i\<lparr>di_iter := it\<rparr>
        in case parse_key E k of
             None \<Rightarrow> if di_strict i then Inl (di_setErr DbKeyError i, False) else prev_back E del i
           | Some (ukey, seq, kt) \<Rightarrow>
               (let i = di_sampleSeek E i
                in if seq \<le> di_seq i then
                     (if \<not> del \<and> k_ucmp (e_ks E) ukey (di_key i) < 0 then Inl (i, True)
                      else let del = (kt = KeyDel); i = (if \<not> del then di_load E ukey i else i)
                        in prev_back E del i)
                   else prev_back E del i))"

partial_function (option) prev_loop ::
  "('i, 'ik, 'e, 'smp) db_env \<Rightarrow> bool \<Rightarrow> ('i, 'e, 'smp) dbIter \<Rightarrow> (('i, 'e, 'smp) dbIter \<times> bool) option" where
  "prev_loop E del i =
     (case prev_turn E del i of
        Inl r \<Rightarrow> Some r
      | Inr (i, del) \<Rightarrow> prev_loop E del i)"

definition db_prev :: "('i, 'ik, 'e, 'smp) db_env \<Rightarrow> ('i, 'e, 'smp) dbIter \<Rightarrow> (('i, 'e, 'smp) dbIter \<times> bool) option" where
  "db_prev E i =
     (let i = i\<lparr>di_dir := dirBackward\<rparr>
      in if it_Valid (e_ops E) (di_iter i) then prev_loop E True i else Some (prev_finish E True i))"

section \<open>The methods\<close>

text \<open>The checks at the head of the moves.\<close>

definition di_First :: "('i, 'ik, 'e, 'smp) db_env \<Rightarrow> ('i, 'e, 'smp) dbIter \<Rightarrow> (('i, 'e, 'smp) dbIter \<times> bool) option" where
  "di_First E i =
     (if di_err i \<noteq> None then Some (i, False)
      else if di_dir i = dirReleased then Some (i\<lparr>di_err := Some DbIterReleased\<rparr>, False)
      else case it_First (e_ops E) (di_iter i) of (it, r) \<Rightarrow>
        if r then db_next E (i\<lparr>di_iter := it, di_dir := dirSOI\<rparr>)
        else Some (di_iterErr E (i\<lparr>di_iter := it, di_dir := dirEOI\<rparr>), False))"

definition di_Last :: "('i, 'ik, 'e, 'smp) db_env \<Rightarrow> ('i, 'e, 'smp) dbIter \<Rightarrow> (('i, 'e, 'smp) dbIter \<times> bool) option" where
  "di_Last E i =
     (if di_err i \<noteq> None then Some (i, False)
      else if di_dir i = dirReleased then Some (i\<lparr>di_err := Some DbIterReleased\<rparr>, False)
      else case it_Last (e_ops E) (di_iter i) of (it, r) \<Rightarrow>
        if r then db_prev E (i\<lparr>di_iter := it\<rparr>)
        else Some (di_iterErr E (i\<lparr>di_iter := it, di_dir := dirSOI\<rparr>), False))"

definition di_Seek :: "('i, 'ik, 'e, 'smp) db_env \<Rightarrow> bytes \<Rightarrow> ('i, 'e, 'smp) dbIter \<Rightarrow> (('i, 'e, 'smp) dbIter \<times> bool) option" where
  "di_Seek E key i =
     (if di_err i \<noteq> None then Some (i, False)
      else if di_dir i = dirReleased then Some (i\<lparr>di_err := Some DbIterReleased\<rparr>, False)
      else case it_Seek (e_ops E) (e_make E key (di_seq i)) (di_iter i) of (it, r) \<Rightarrow>
        if r then db_next E (i\<lparr>di_iter := it, di_dir := dirSOI\<rparr>)
        else Some (di_iterErr E (i\<lparr>di_iter := it, di_dir := dirEOI\<rparr>), False))"

text \<open>\<^verbatim>\<open>!i.iter.Next() || (i.dir == dirBackward && !i.iter.Next())\<close>: whether the raw iterator could move.\<close>

definition raw_next :: "('i, 'ik, 'e, 'smp) db_env \<Rightarrow> ('i, 'e, 'smp) dbIter \<Rightarrow> 'i \<times> bool" where
  "raw_next E i =
     (case it_Next (e_ops E) (di_iter i) of (it, r) \<Rightarrow>
        if r \<and> di_dir i = dirBackward then it_Next (e_ops E) it else (it, r))"

definition di_Next :: "('i, 'ik, 'e, 'smp) db_env \<Rightarrow> ('i, 'e, 'smp) dbIter \<Rightarrow> (('i, 'e, 'smp) dbIter \<times> bool) option" where
  "di_Next E i =
     (if di_dir i = dirEOI \<or> di_err i \<noteq> None then Some (i, False)
      else if di_dir i = dirReleased then Some (i\<lparr>di_err := Some DbIterReleased\<rparr>, False)
      else case raw_next E i of (it, r) \<Rightarrow>
        if \<not> r then Some (di_iterErr E (i\<lparr>di_iter := it, di_dir := dirEOI\<rparr>), False)
        else db_next E (i\<lparr>di_iter := it\<rparr>))"

text \<open>The loop of \<^verbatim>\<open>Prev\<close> that leaves the entries of the current key; \<open>None\<close> in the second component is the jump to \<^verbatim>\<open>cont\<close>.\<close>

definition leave_turn ::
  "('i, 'ik, 'e, 'smp) db_env \<Rightarrow> ('i, 'e, 'smp) dbIter \<Rightarrow> (('i, 'e, 'smp) dbIter \<times> bool option) + ('i, 'e, 'smp) dbIter" where
  "leave_turn E i =
     (case it_Prev (e_ops E) (di_iter i) of (it, r) \<Rightarrow>
        if \<not> r then Inl (di_iterErr E (i\<lparr>di_iter := it, di_dir := dirSOI\<rparr>), Some False)
        else case it_Key (e_ops E) it of (it, k) \<Rightarrow>
          (let i = i\<lparr>di_iter := it\<rparr>
           in case parse_key E k of
                None \<Rightarrow> if di_strict i then Inl (di_setErr DbKeyError i, Some False) else Inr i
              | Some (ukey, _, _) \<Rightarrow>
                  (let i = di_sampleSeek E i
                   in if k_ucmp (e_ks E) ukey (di_key i) < 0 then Inl (i, None) else Inr i)))"

partial_function (option) leave_key ::
  "('i, 'ik, 'e, 'smp) db_env \<Rightarrow> ('i, 'e, 'smp) dbIter \<Rightarrow> (('i, 'e, 'smp) dbIter \<times> bool option) option" where
  "leave_key E i =
     (case leave_turn E i of
        Inl r \<Rightarrow> Some r
      | Inr i \<Rightarrow> leave_key E i)"

definition di_Prev :: "('i, 'ik, 'e, 'smp) db_env \<Rightarrow> ('i, 'e, 'smp) dbIter \<Rightarrow> (('i, 'e, 'smp) dbIter \<times> bool) option" where
  "di_Prev E i =
     (if di_dir i = dirSOI \<or> di_err i \<noteq> None then Some (i, False)
      else if di_dir i = dirReleased then Some (i\<lparr>di_err := Some DbIterReleased\<rparr>, False)
      else case di_dir i of
        dirEOI \<Rightarrow> di_Last E i
      | dirForward \<Rightarrow>
          (case leave_key E i of
             None \<Rightarrow> None
           | Some (i, Some r) \<Rightarrow> Some (i, r)
           | Some (i, None) \<Rightarrow> db_prev E i)
      | _ \<Rightarrow> db_prev E i)"

text \<open>
  \<^verbatim>\<open>Release\<close>: \<open>raw_release\<close> is the raw iterator's, \<open>alive\<close> the count of live iterators of the database; the last result is the releaser that is
  called.  Releasers are named by numbers.
\<close>

definition di_Release :: "('i \<Rightarrow> 'i) \<Rightarrow> int \<Rightarrow> ('i, 'e, 'smp) dbIter \<Rightarrow> ('i, 'e, 'smp) dbIter \<times> int \<times> nat option" where
  "di_Release raw_release alive i =
     (if di_dir i \<noteq> dirReleased
      then (i\<lparr>di_releaser := None, di_dir := dirReleased, di_key := [], di_value := [], di_iter := raw_release (di_iter i)\<rparr>,
            alive - 1, di_releaser i)
      else (i, alive, None))"

datatype releaser_panic = PanicReleased | PanicHasReleaser

definition di_SetReleaser :: "nat option \<Rightarrow> ('i, 'e, 'smp) dbIter \<Rightarrow> releaser_panic + ('i, 'e, 'smp) dbIter" where
  "di_SetReleaser rel i =
     (if di_dir i = dirReleased then Inl PanicReleased
      else if di_releaser i \<noteq> None \<and> rel \<noteq> None then Inl PanicHasReleaser
      else Inr (i\<lparr>di_releaser := rel\<rparr>))"

declare db_next.simps [code] prev_loop.simps [code] leave_key.simps [code]

section \<open>What the user sees\<close>

text \<open>
  Among the entries in the order of their internal keys: the visible ones, the newest visible ones of their user key, and of these the ones that
  hold a value.  The view is the list of the latter with their user keys.
\<close>

definition visible_at :: "('ik \<Rightarrow> nat) \<Rightarrow> nat \<Rightarrow> ('ik \<times> 'val) list \<Rightarrow> nat \<Rightarrow> bool" where
  "visible_at seq_of s es j \<longleftrightarrow> seq_of (fst (es ! j)) \<le> s"

definition ukey_at :: "'ik key_ops \<Rightarrow> ('ik \<times> 'val) list \<Rightarrow> nat \<Rightarrow> bytes" where
  "ukey_at ks es j = k_ukey ks (fst (es ! j))"

definition newest_at :: "'ik key_ops \<Rightarrow> ('ik \<Rightarrow> nat) \<Rightarrow> nat \<Rightarrow> ('ik \<times> 'val) list \<Rightarrow> nat \<Rightarrow> bool" where
  "newest_at ks seq_of s es j \<longleftrightarrow> visible_at seq_of s es j \<and> list_all (\<lambda>i. visible_at seq_of s es i \<longrightarrow> ukey_at ks es i \<noteq> ukey_at ks es j) [0..<j]"

definition live_at ::
  "'ik key_ops \<Rightarrow> ('ik \<Rightarrow> nat) \<Rightarrow> ('ik \<Rightarrow> key_type) \<Rightarrow> nat \<Rightarrow> ('ik \<times> 'val) list \<Rightarrow> nat \<Rightarrow> bool" where
  "live_at ks seq_of kind_of s es j \<longleftrightarrow> newest_at ks seq_of s es j \<and> kind_of (fst (es ! j)) = KeyVal"

definition user_view ::
  "'ik key_ops \<Rightarrow> ('ik \<Rightarrow> nat) \<Rightarrow> ('ik \<Rightarrow> key_type) \<Rightarrow> nat \<Rightarrow> ('ik \<times> bytes) list \<Rightarrow> (bytes \<times> bytes) list" where
  "user_view ks seq_of kind_of s es =
     map (\<lambda>j. (ukey_at ks es j, snd (es ! j))) (filter (live_at ks seq_of kind_of s es) [0..<length es])"

text \<open>Moving over a list of keys in order.\<close>

datatype cursor = Soi | At "bytes \<times> bytes" | Eoi

datatype move = MFirst | MLast | MSeek bytes | MNext | MPrev

definition to_first :: "(bytes \<times> bytes) list \<Rightarrow> cursor \<times> bool" where
  "to_first xs = (case xs of [] \<Rightarrow> (Eoi, False) | e # _ \<Rightarrow> (At e, True))"

definition to_last :: "(bytes \<times> bytes) list \<Rightarrow> cursor \<times> bool" where
  "to_last xs = (if xs = [] then (Soi, False) else (At (last xs), True))"

definition view_move :: "'ik key_ops \<Rightarrow> (bytes \<times> bytes) list \<Rightarrow> move \<Rightarrow> cursor \<Rightarrow> cursor \<times> bool" where
  "view_move ks view m c =
     (case m of
        MFirst \<Rightarrow> to_first view
      | MLast \<Rightarrow> to_last view
      | MSeek u \<Rightarrow> to_first (filter (\<lambda>e. k_ucmp ks u (fst e) \<le> 0) view)
      | MNext \<Rightarrow> (case c of Soi \<Rightarrow> to_first view | Eoi \<Rightarrow> (Eoi, False) | At e \<Rightarrow> to_first (filter (\<lambda>x. k_ucmp ks (fst e) (fst x) < 0) view))
      | MPrev \<Rightarrow> (case c of Soi \<Rightarrow> (Soi, False) | Eoi \<Rightarrow> to_last view | At e \<Rightarrow> to_last (filter (\<lambda>x. k_ucmp ks (fst x) (fst e) < 0) view)))"

definition db_move ::
  "('i, 'ik, 'e, 'smp) db_env \<Rightarrow> move \<Rightarrow> ('i, 'e, 'smp) dbIter \<Rightarrow> (('i, 'e, 'smp) dbIter \<times> bool) option" where
  "db_move E m i =
     (case m of MFirst \<Rightarrow> di_First E i | MLast \<Rightarrow> di_Last E i | MSeek u \<Rightarrow> di_Seek E u i | MNext \<Rightarrow> di_Next E i | MPrev \<Rightarrow> di_Prev E i)"

text \<open>A series of moves, with the result, the key and the value after each.\<close>

fun db_moves ::
  "('i, 'ik, 'e, 'smp) db_env \<Rightarrow> move list \<Rightarrow> ('i, 'e, 'smp) dbIter \<Rightarrow> (bool \<times> bytes option \<times> bytes option) list option" where
  "db_moves E [] i = Some []"
| "db_moves E (m # ms) i =
     (case db_move E m i of
        None \<Rightarrow> None
      | Some (i, r) \<Rightarrow>
          (case db_moves E ms i of None \<Rightarrow> None | Some rs \<Rightarrow> Some ((r, di_Key i, di_Value i) # rs)))"

definition cursor_entry :: "cursor \<Rightarrow> bytes option \<times> bytes option" where
  "cursor_entry c = (case c of At e \<Rightarrow> (Some (fst e), Some (snd e)) | _ \<Rightarrow> (None, None))"

fun view_moves :: "'ik key_ops \<Rightarrow> (bytes \<times> bytes) list \<Rightarrow> move list \<Rightarrow> cursor \<Rightarrow> (bool \<times> bytes option \<times> bytes option) list" where
  "view_moves ks view [] c = []"
| "view_moves ks view (m # ms) c =
     (case view_move ks view m c of (c, r) \<Rightarrow> (r, cursor_entry c) # view_moves ks view ms c)"

section \<open>Released iterators\<close>

text \<open>A released iterator refuses every move; releasing it again does nothing.\<close>

lemma released_refuses:
  assumes "di_dir i = dirReleased" and "di_err i = None"
  shows "db_move E m i = Some (i\<lparr>di_err := Some DbIterReleased\<rparr>, False)" "di_Key i = None" "di_Value i = None"
    "di_SetReleaser rel i = Inl PanicReleased"
  using assms
  by (simp_all add: db_move_def di_First_def di_Last_def di_Seek_def di_Next_def di_Prev_def di_Key_def di_Value_def di_Valid_def
      di_SetReleaser_def split: move.split)

lemma Release_once:
  assumes "di_Release f n i = (i', n', c)"
  shows "di_Release f n' i' = (i', n', None)"
  using assms by (auto simp: di_Release_def split: if_splits)

section \<open>Under the iterator contract\<close>

text \<open>
  The raw iterator keeps its contract over entries in strictly ascending order of internal keys, every key parses, and the key made for a seek
  comes before exactly the entries of later user keys and those of the same user key that the snapshot may see.
\<close>

locale db_iteration = iterator "e_ops E" ok content pos "k_icmp (e_ks E)" + internal_keys "e_ks E"
  for E :: "('i, 'ik, 'e, 'smp) db_env" and ok :: "'i \<Rightarrow> bool" and content :: "'i \<Rightarrow> ('ik \<times> bytes) list" and pos :: "'i \<Rightarrow> int" +
  fixes seq_of :: "'ik \<Rightarrow> nat" and kind_of :: "'ik \<Rightarrow> key_type" and es :: "('ik \<times> bytes) list" and snap :: nat
  assumes parse_law: "e_parse E k = Some (k_ukey (e_ks E) k, seq_of k, kind_of k)"
    and make_law: "0 \<le> k_icmp (e_ks E) k (e_make E u snap) \<longleftrightarrow>
      k_ucmp (e_ks E) u (k_ukey (e_ks E) k) < 0 \<or> k_ukey (e_ks E) k = u \<and> seq_of k \<le> snap"
    and es_sorted: "sorted_wrt (\<lambda>a b. k_icmp (e_ks E) (fst a) (fst b) < 0) es"
begin

abbreviation vis :: "nat \<Rightarrow> bool" where
  "vis \<equiv> visible_at seq_of snap es"

abbreviation uk :: "nat \<Rightarrow> bytes" where
  "uk \<equiv> ukey_at (e_ks E) es"

abbreviation kind :: "nat \<Rightarrow> key_type" where
  "kind j \<equiv> kind_of (fst (es ! j))"

abbreviation live :: "nat \<Rightarrow> bool" where
  "live \<equiv> live_at (e_ks E) seq_of kind_of snap es"

abbreviation ucmp :: "bytes \<Rightarrow> bytes \<Rightarrow> int" where
  "ucmp \<equiv> k_ucmp (e_ks E)"

definition raw_at :: "'i \<Rightarrow> int \<Rightarrow> bool" where
  "raw_at it a \<longleftrightarrow> ok it \<and> content it = es \<and> pos it = a"

definition base_ok :: "('i, 'e, 'smp) dbIter \<Rightarrow> bool" where
  "base_ok i \<longleftrightarrow> di_err i = None \<and> di_seq i = snap \<and> ok (di_iter i) \<and> content (di_iter i) = es"

definition fwd :: "('i, 'e, 'smp) dbIter \<Rightarrow> nat \<Rightarrow> bool" where
  "fwd i c \<longleftrightarrow> base_ok i \<and> pos (di_iter i) = int c \<and> di_dir i = dirForward \<and> di_key i = uk c \<and> di_value i = snd (es ! c)"

definition bwd :: "('i, 'e, 'smp) dbIter \<Rightarrow> nat \<Rightarrow> bool" where
  "bwd i c \<longleftrightarrow> base_ok i \<and> di_dir i = dirBackward \<and> di_key i = uk c \<and> di_value i = snd (es ! c) \<and>
     pos (di_iter i) < int c \<and> (0 \<le> pos (di_iter i) \<longrightarrow> vis (nat (pos (di_iter i))) \<and> ucmp (uk (nat (pos (di_iter i)))) (uk c) < 0) \<and>
     (\<forall>j. pos (di_iter i) < int j \<longrightarrow> j < c \<longrightarrow> \<not> vis j)"

lemma uk_mono:
  assumes "i \<le> j" and "j < length es"
  shows "ucmp (uk i) (uk j) \<le> 0"
proof (cases "i = j")
  case False
  then have "k_icmp (e_ks E) (fst (es ! i)) (fst (es ! j)) < 0"
    using sorted_wrt_nth_less [OF es_sorted, of i j] assms by simp
  then have "\<not> k_icmp (e_ks E) (fst (es ! j)) (fst (es ! i)) < 0"
    using icmp_swap [of "fst (es ! i)" "fst (es ! j)"] by simp
  then show ?thesis using icmp_ukey [of "fst (es ! j)" "fst (es ! i)"] u_not_le by (auto simp: ukey_at_def)
qed simp

lemma uk_eqI: "i \<le> j \<Longrightarrow> j < length es \<Longrightarrow> \<not> ucmp (uk i) (uk j) < 0 \<Longrightarrow> uk i = uk j"
  using uk_mono [of i j] ucmp_eq [of "uk i" "uk j"] by auto

lemma live_iff: "live j \<longleftrightarrow> vis j \<and> kind j = KeyVal \<and> (\<forall>i < j. vis i \<longrightarrow> uk i \<noteq> uk j)"
  by (auto simp: live_at_def newest_at_def list_all_iff)

lemma raw_key:
  assumes "raw_at it (int a)" and "a < length es"
  shows "\<exists>it'. it_Key (e_ops E) it = (it', Some (fst (es ! a))) \<and> raw_at it' (int a)"
  using assms Key_law [of it] by (cases "it_Key (e_ops E) it") (auto simp: raw_at_def)

lemma raw_value:
  assumes "raw_at it (int a)" and "a < length es"
  shows "\<exists>it'. it_Value (e_ops E) it = (it', Some (snd (es ! a))) \<and> raw_at it' (int a)"
  using assms Value_law [of it] by (cases "it_Value (e_ops E) it") (auto simp: raw_at_def)

lemma sample_frame:
  assumes "raw_at (di_iter i) (int a)" and "a < length es"
  shows "\<exists>it smp. di_sampleSeek E i = i\<lparr>di_iter := it, di_sampling := smp\<rparr> \<and> raw_at it (int a)"
proof (cases "di_disableSampling i")
  case True
  then show ?thesis using assms by (intro exI [of _ "di_iter i"] exI [of _ "di_sampling i"]) (simp add: di_sampleSeek_def)
next
  case False
  obtain it where it: "it_Key (e_ops E) (di_iter i) = (it, Some (fst (es ! a)))" "raw_at it (int a)" using raw_key [OF assms] by blast
  obtain it' where it': "it_Value (e_ops E) it = (it', Some (snd (es ! a)))" "raw_at it' (int a)" using raw_value [OF it(2) assms(2)] by blast
  show ?thesis using False it it' by (auto simp: di_sampleSeek_def)
qed

lemma load_frame:
  assumes "raw_at (di_iter i) (int a)" and "a < length es"
  shows "\<exists>it. di_load E u i = i\<lparr>di_iter := it, di_key := u, di_value := snd (es ! a)\<rparr> \<and> raw_at it (int a)"
  using raw_value [OF assms] by (auto simp: di_load_def)

lemma iterErr_id [simp]: "ok (di_iter i) \<Longrightarrow> di_iterErr E i = i"
  using Error_law by (simp add: di_iterErr_def)

lemma advance_frame:
  assumes "raw_at (di_iter i) (int a)" and "a < length es"
  shows "\<exists>it. ok it \<and> content it = es \<and>
    (if a + 1 < length es then next_advance E i = (i\<lparr>di_iter := it\<rparr>, None) \<and> pos it = int (a + 1)
     else next_advance E i = (i\<lparr>di_iter := it, di_dir := dirEOI\<rparr>, Some False))"
proof -
  obtain it r where it: "it_Next (e_ops E) (di_iter i) = (it, r)" by (cases "it_Next (e_ops E) (di_iter i)")
  from Next_law [OF _ it] assms have "ok it \<and> content it = es \<and> r = (int a + 1 < int (length es)) \<and> (r \<longrightarrow> pos it = int a + 1)"
    by (auto simp: raw_at_def)
  then show ?thesis using it by (intro exI [of _ it]) (auto simp: next_advance_def)
qed

lemma next_turn_frame:
  assumes "raw_at (di_iter i) (int a)" and "a < length es" and "di_seq i = snap"
  shows "\<exists>it smp j. j = i\<lparr>di_iter := it, di_sampling := smp\<rparr> \<and> raw_at it (int a) \<and>
    next_turn E i =
      (if vis a then
         (case kind a of
            KeyDel \<Rightarrow> next_advance E (j\<lparr>di_key := uk a, di_dir := dirForward\<rparr>)
          | KeyVal \<Rightarrow> if di_dir i = dirSOI \<or> 0 < ucmp (uk a) (di_key i)
              then ((di_load E (uk a) j)\<lparr>di_dir := dirForward\<rparr>, Some True) else next_advance E j)
       else next_advance E j)"
proof -
  obtain it where it: "it_Key (e_ops E) (di_iter i) = (it, Some (fst (es ! a)))" "raw_at it (int a)" using raw_key [OF assms(1,2)] by blast
  then obtain it' smp where s: "di_sampleSeek E (i\<lparr>di_iter := it\<rparr>) = i\<lparr>di_iter := it', di_sampling := smp\<rparr>" "raw_at it' (int a)"
    using sample_frame [of "i\<lparr>di_iter := it\<rparr>" a] assms(2) by auto
  show ?thesis
    using it s assms(3)
    by (intro exI [of _ it'] exI [of _ smp] exI [of _ "i\<lparr>di_iter := it', di_sampling := smp\<rparr>"])
      (simp add: next_turn_def parse_key_def parse_law visible_at_def ukey_at_def Let_def split: key_type.split)
qed

text \<open>The loop of \<^verbatim>\<open>next\<close>: the first entry from \<open>a\<close> on that is a hit.\<close>

definition scan_ok :: "(nat \<Rightarrow> bool) \<Rightarrow> dir \<Rightarrow> bytes \<Rightarrow> nat \<Rightarrow> bool" where
  "scan_ok T d key a \<longleftrightarrow> (\<forall>j. a \<le> j \<longrightarrow> j < length es \<longrightarrow> vis j \<longrightarrow>
     (T j \<longleftrightarrow> (\<forall>k. a \<le> k \<longrightarrow> k < j \<longrightarrow> vis k \<longrightarrow> uk k \<noteq> uk j) \<and> (d = dirSOI \<or> ucmp key (uk j) < 0)) \<and>
     (d \<noteq> dirSOI \<longrightarrow> ucmp key (uk j) \<le> 0))"

definition hit :: "(nat \<Rightarrow> bool) \<Rightarrow> nat \<Rightarrow> bool" where
  "hit T j \<longleftrightarrow> vis j \<and> T j \<and> kind j = KeyVal"

definition next_result :: "(nat \<Rightarrow> bool) \<Rightarrow> nat \<Rightarrow> ('i, 'e, 'smp) dbIter \<Rightarrow> bool \<Rightarrow> bool" where
  "next_result T a i r \<longleftrightarrow>
     (if r then \<exists>c. a \<le> c \<and> c < length es \<and> hit T c \<and> (\<forall>j. a \<le> j \<longrightarrow> j < c \<longrightarrow> \<not> hit T j) \<and> fwd i c
      else base_ok i \<and> di_dir i = dirEOI \<and> (\<forall>j. a \<le> j \<longrightarrow> j < length es \<longrightarrow> \<not> hit T j))"

lemma scanD:
  assumes "scan_ok T d key a" and "a \<le> j" and "j < length es" and "vis j"
  shows "T j \<longleftrightarrow> (\<forall>k. a \<le> k \<longrightarrow> k < j \<longrightarrow> vis k \<longrightarrow> uk k \<noteq> uk j) \<and> (d = dirSOI \<or> ucmp key (uk j) < 0)"
    and "d \<noteq> dirSOI \<Longrightarrow> ucmp key (uk j) \<le> 0"
  using assms unfolding scan_ok_def by blast+

lemma scanI:
  assumes "\<And>j. a \<le> j \<Longrightarrow> j < length es \<Longrightarrow> vis j \<Longrightarrow>
      T j \<longleftrightarrow> (\<forall>k. a \<le> k \<longrightarrow> k < j \<longrightarrow> vis k \<longrightarrow> uk k \<noteq> uk j) \<and> (d = dirSOI \<or> ucmp key (uk j) < 0)"
    and "\<And>j. d \<noteq> dirSOI \<Longrightarrow> a \<le> j \<Longrightarrow> j < length es \<Longrightarrow> vis j \<Longrightarrow> ucmp key (uk j) \<le> 0"
  shows "scan_ok T d key a"
  using assms unfolding scan_ok_def by blast

text \<open>One entry less to look at.\<close>

lemma all_from: "a < j \<Longrightarrow> (\<forall>k. a \<le> k \<longrightarrow> k < j \<longrightarrow> P k) \<longleftrightarrow> P a \<and> (\<forall>k. Suc a \<le> k \<longrightarrow> k < j \<longrightarrow> P k)" for P :: "nat \<Rightarrow> bool"
  by (metis Suc_leD Suc_leI le_neq_implies_less le_refl)

lemma next_result_Suc:
  assumes res: "next_result T (Suc a) i r" and miss: "\<not> hit T a"
  shows "next_result T a i r"
proof -
  have le: "a \<le> j \<Longrightarrow> j = a \<or> Suc a \<le> j" for j by auto
  show ?thesis
  proof (cases r)
    case True
    then obtain c where c: "Suc a \<le> c" "c < length es" "hit T c" "\<And>j. Suc a \<le> j \<Longrightarrow> j < c \<Longrightarrow> \<not> hit T j" "fwd i c"
      using res unfolding next_result_def by auto
    have "\<not> hit T j" if "a \<le> j" "j < c" for j using le [OF that(1)] c(4) that(2) miss by blast
    then show ?thesis using True c(2,3,5) Suc_leD [OF c(1)] unfolding next_result_def by (auto intro!: exI [of _ c])
  next
    case False
    then have c: "base_ok i" "di_dir i = dirEOI" "\<And>j. Suc a \<le> j \<Longrightarrow> j < length es \<Longrightarrow> \<not> hit T j"
      using res unfolding next_result_def by auto
    have "\<not> hit T j" if "a \<le> j" "j < length es" for j using le [OF that(1)] c(3) that(2) miss by blast
    then show ?thesis using False c unfolding next_result_def by auto
  qed
qed

lemma next_result_end:
  assumes "base_ok i" and "di_dir i = dirEOI" and "\<not> hit T a" and "length es \<le> Suc a"
  shows "next_result T a i False"
proof -
  have "\<not> hit T j" if "a \<le> j" "j < length es" for j
  proof -
    have "j = a" using that assms(4) by linarith
    then show ?thesis using assms(3) by simp
  qed
  then show ?thesis using assms unfolding next_result_def by auto
qed

lemma scan_hidden:
  assumes sc: "scan_ok T d key a" and hid: "\<not> vis a"
  shows "scan_ok T d key (Suc a)" "\<not> hit T a"
proof -
  show "\<not> hit T a" using hid by (simp add: hit_def)
  show "scan_ok T d key (Suc a)"
  proof (rule scanI)
    fix j
    assume j: "Suc a \<le> j" "j < length es" "vis j"
    then have aj: "a < j" "a \<le> j" by auto
    show "T j \<longleftrightarrow> (\<forall>k. Suc a \<le> k \<longrightarrow> k < j \<longrightarrow> vis k \<longrightarrow> uk k \<noteq> uk j) \<and> (d = dirSOI \<or> ucmp key (uk j) < 0)"
      using scanD(1) [OF sc aj(2) j(2,3)] all_from [OF aj(1), of "\<lambda>k. vis k \<longrightarrow> uk k \<noteq> uk j"] hid by simp
    show "ucmp key (uk j) \<le> 0" if "d \<noteq> dirSOI" using scanD(2) [OF sc aj(2) j(2,3) that] .
  qed
qed

lemma scan_seen:
  assumes sc: "scan_ok T d key a" and a: "a < length es" and v: "vis a"
    and old: "d' = dirForward \<and> key' = uk a \<or> d' = d \<and> key' = key \<and> d \<noteq> dirSOI \<and> \<not> ucmp key (uk a) < 0"
    and d': "d' \<noteq> dirSOI"
  shows "scan_ok T d' key' (Suc a)"
proof (rule scanI)
  have key': "key' = uk a"
    using old scanD(2) [OF sc le_refl a v] ucmp_eq [of key "uk a"] by auto
  fix j
  assume j: "Suc a \<le> j" "j < length es" "vis j"
  then have aj: "a < j" "a \<le> j" by auto
  have mono: "ucmp (uk a) (uk j) \<le> 0" by (rule uk_mono [OF aj(2) j(2)])
  then show "ucmp key' (uk j) \<le> 0" using key' by simp
  have less: "uk a \<noteq> uk j \<longleftrightarrow> ucmp (uk a) (uk j) < 0" using mono ucmp_eq [of "uk a" "uk j"] by auto
  have low: "d = dirSOI \<or> ucmp key (uk j) < 0" if "ucmp (uk a) (uk j) < 0"
    using scanD(2) [OF sc le_refl a v] that u_le_less_trans by blast
  show "T j \<longleftrightarrow> (\<forall>k. Suc a \<le> k \<longrightarrow> k < j \<longrightarrow> vis k \<longrightarrow> uk k \<noteq> uk j) \<and> (d' = dirSOI \<or> ucmp key' (uk j) < 0)"
    unfolding scanD(1) [OF sc aj(2) j(2,3)] all_from [OF aj(1), of "\<lambda>k. vis k \<longrightarrow> uk k \<noteq> uk j"]
    using less low d' v key' by auto
qed

lemma scan_first:
  assumes "scan_ok T d key a" and "a < length es" and "vis a"
  shows "T a \<longleftrightarrow> d = dirSOI \<or> ucmp key (uk a) < 0"
  using scanD(1) [OF assms(1) le_refl assms(2,3)] by auto

lemma db_next_scan:
  assumes "base_ok i" and "pos (di_iter i) = int a" and "a < length es"
    and "scan_ok T (di_dir i) (di_key i) a"
  shows "\<exists>i' r. db_next E i = Some (i', r) \<and> next_result T a i' r"
  using assms
proof (induction "length es - a" arbitrary: i a)
  case 0
  then show ?case by simp
next
  case (Suc m)
  note base = Suc.prems(1)
  note a = Suc.prems(3)
  note sc = Suc.prems(4)
  have raw: "raw_at (di_iter i) (int a)" using base Suc.prems(2) by (simp add: raw_at_def base_ok_def)
  obtain it smp j where j: "j = i\<lparr>di_iter := it, di_sampling := smp\<rparr>" and it: "raw_at it (int a)"
    and turn: "next_turn E i =
      (if vis a then
         (case kind a of
            KeyDel \<Rightarrow> next_advance E (j\<lparr>di_key := uk a, di_dir := dirForward\<rparr>)
          | KeyVal \<Rightarrow> if di_dir i = dirSOI \<or> 0 < ucmp (uk a) (di_key i)
              then ((di_load E (uk a) j)\<lparr>di_dir := dirForward\<rparr>, Some True) else next_advance E j)
       else next_advance E j)"
    using next_turn_frame [OF raw a] base by (auto simp: base_ok_def)
  have go_on: ?case
    if adv: "next_turn E i = next_advance E (j\<lparr>di_key := key, di_dir := d\<rparr>)" and miss: "\<not> hit T a"
      and sc': "scan_ok T d key (Suc a)" for key d
  proof -
    obtain it' where it': "ok it'" "content it' = es"
      and next_eq: "if a + 1 < length es
         then next_turn E i = (j\<lparr>di_key := key, di_dir := d, di_iter := it'\<rparr>, None) \<and> pos it' = int (a + 1)
         else next_turn E i = (j\<lparr>di_key := key, di_dir := d, di_iter := it', di_dir := dirEOI\<rparr>, Some False)"
      using advance_frame [of "j\<lparr>di_key := key, di_dir := d\<rparr>" a] it a adv j by auto
    show ?case
    proof (cases "a + 1 < length es")
      case True
      let ?i = "j\<lparr>di_key := key, di_dir := d, di_iter := it'\<rparr>"
      have "base_ok ?i" using base it' j by (simp add: base_ok_def)
      moreover have "m = length es - Suc a" using Suc.hyps(2) by simp
      ultimately obtain i' r where "db_next E ?i = Some (i', r)" "next_result T (Suc a) i' r"
        using Suc.hyps(1) [of "Suc a" ?i] True next_eq sc' by auto
      then show ?thesis using True next_eq next_result_Suc [OF _ miss] by (subst db_next.simps) auto
    next
      case False
      let ?i = "j\<lparr>di_key := key, di_dir := d, di_iter := it', di_dir := dirEOI\<rparr>"
      have "next_result T a ?i False"
        by (rule next_result_end) (use base it' j miss False in \<open>auto simp: base_ok_def\<close>)
      then show ?thesis using False next_eq by (subst db_next.simps) auto
    qed
  qed
  have same: "j = j\<lparr>di_key := di_key i, di_dir := di_dir i\<rparr>" using j by simp
  show ?case
  proof (cases "vis a")
    case False
    then show ?thesis using go_on [of "di_dir i" "di_key i"] turn same scan_hidden [OF sc False] by simp
  next
    case v: True
    show ?thesis
    proof (cases "kind a")
      case KeyDel
      then have "\<not> hit T a" by (simp add: hit_def)
      then show ?thesis using go_on [of dirForward "uk a"] turn KeyDel v scan_seen [OF sc a v, of dirForward "uk a"] by simp
    next
      case KeyVal
      have cmp: "0 < ucmp (uk a) (di_key i) \<longleftrightarrow> ucmp (di_key i) (uk a) < 0"
        using ucmp_swap [of "uk a" "di_key i"] by simp
      show ?thesis
      proof (cases "di_dir i = dirSOI \<or> ucmp (di_key i) (uk a) < 0")
        case True
        have "raw_at (di_iter j) (int a)" using it j by simp
        then obtain it' where ld: "di_load E (uk a) j = j\<lparr>di_iter := it', di_key := uk a, di_value := snd (es ! a)\<rparr>" "raw_at it' (int a)"
          using load_frame [OF _ a] by blast
        let ?i = "(j\<lparr>di_iter := it', di_key := uk a, di_value := snd (es ! a)\<rparr>)\<lparr>di_dir := dirForward\<rparr>"
        have "fwd ?i a" using base ld(2) j by (simp add: fwd_def base_ok_def raw_at_def)
        moreover have "hit T a" using v KeyVal True scan_first [OF sc a v] by (simp add: hit_def)
        ultimately have "next_result T a ?i True" using a unfolding next_result_def by auto
        then show ?thesis using True turn v KeyVal cmp ld(1) by (subst db_next.simps) auto
      next
        case False
        then have "\<not> hit T a" using scan_first [OF sc a v] by (simp add: hit_def)
        then show ?thesis
          using go_on [of "di_dir i" "di_key i"] turn same v KeyVal cmp False scan_seen [OF sc a v, of "di_dir i" "di_key i"] by simp
      qed
    qed
  qed
qed

text \<open>The first and the last live entry whose user key satisfies \<open>Q\<close>, and the heads of the view they stand for.\<close>

abbreviation view :: "(bytes \<times> bytes) list" where
  "view \<equiv> user_view (e_ks E) seq_of kind_of snap es"

abbreviation sel :: "(bytes \<Rightarrow> bool) \<Rightarrow> nat \<Rightarrow> bool" where
  "sel Q j \<equiv> j < length es \<and> live j \<and> Q (uk j)"

definition at_entry :: "('i, 'e, 'smp) dbIter \<Rightarrow> cursor \<Rightarrow> bool" where
  "at_entry i cu \<longleftrightarrow> (\<exists>c < length es. live c \<and> cu = At (uk c, snd (es ! c)) \<and> (fwd i c \<or> bwd i c))"

definition shows_cursor :: "('i, 'e, 'smp) dbIter \<Rightarrow> cursor \<Rightarrow> bool" where
  "shows_cursor i cu \<longleftrightarrow>
     (case cu of
        Soi \<Rightarrow> base_ok i \<and> di_dir i = dirSOI \<and> (es = [] \<or> pos (di_iter i) = -1)
      | Eoi \<Rightarrow> base_ok i \<and> di_dir i = dirEOI
      | At e \<Rightarrow> at_entry i cu)"

lemma filter_view: "filter (\<lambda>e. Q (fst e)) view = map (\<lambda>j. (uk j, snd (es ! j))) (filter (\<lambda>j. live j \<and> Q (uk j)) [0..<length es])"
  by (simp add: user_view_def filter_map o_def filter_filter conj_commute)

lemma upt_split: "c < n \<Longrightarrow> [0..<n] = [0..<c] @ c # [Suc c..<n]"
  using upt_add_eq_append [of 0 c "n - c"] upt_conv_Cons [of c n] by simp

lemma to_first_hit:
  assumes "sel Q c" and "\<And>j. j < c \<Longrightarrow> \<not> sel Q j"
  shows "to_first (filter (\<lambda>e. Q (fst e)) view) = (At (uk c, snd (es ! c)), True)"
proof -
  have "filter (\<lambda>j. live j \<and> Q (uk j)) [0..<c] = []" using assms by (auto simp: filter_empty_conv)
  then show ?thesis using assms(1) upt_split [of c "length es"] unfolding filter_view to_first_def by simp
qed

lemma to_last_hit:
  assumes "sel Q c" and "\<And>j. c < j \<Longrightarrow> \<not> sel Q j"
  shows "to_last (filter (\<lambda>e. Q (fst e)) view) = (At (uk c, snd (es ! c)), True)"
proof -
  have "filter (\<lambda>j. live j \<and> Q (uk j)) [Suc c..<length es] = []" using assms(2) by (auto simp: filter_empty_conv)
  then show ?thesis using assms(1) upt_split [of c "length es"] unfolding filter_view to_last_def by simp
qed

lemma no_hit:
  assumes "\<And>j. \<not> sel Q j"
  shows "to_first (filter (\<lambda>e. Q (fst e)) view) = (Eoi, False)" "to_last (filter (\<lambda>e. Q (fst e)) view) = (Soi, False)"
  using assms unfolding filter_view to_first_def to_last_def by (auto simp: filter_empty_conv)

lemma hit_live: "hit (\<lambda>j. newest_at (e_ks E) seq_of snap es j \<and> Q (uk j)) j \<longleftrightarrow> live j \<and> Q (uk j)"
  by (auto simp: hit_def live_at_def newest_at_def)

lemma db_next_first:
  assumes "base_ok i" and "pos (di_iter i) = int a" and "a < length es"
    and "scan_ok (\<lambda>j. newest_at (e_ks E) seq_of snap es j \<and> Q (uk j)) (di_dir i) (di_key i) a"
    and low: "\<And>j. j < a \<Longrightarrow> \<not> sel Q j"
  shows "\<exists>i' cu r. db_next E i = Some (i', r) \<and> to_first (filter (\<lambda>e. Q (fst e)) view) = (cu, r) \<and> shows_cursor i' cu"
proof -
  obtain i' r where n: "db_next E i = Some (i', r)"
    and res: "next_result (\<lambda>j. newest_at (e_ks E) seq_of snap es j \<and> Q (uk j)) a i' r"
    using db_next_scan [OF assms(1-4)] by blast
  show ?thesis
  proof (cases r)
    case True
    then obtain c where c: "a \<le> c" "sel Q c" "\<And>j. a \<le> j \<Longrightarrow> j < c \<Longrightarrow> \<not> sel Q j" "fwd i' c"
      using res unfolding next_result_def hit_live by auto
    have "\<not> sel Q j" if "j < c" for j using low [of j] c(3) [of j] that by (cases "j < a") auto
    from to_first_hit [OF c(2) this] c n True show ?thesis by (auto simp: shows_cursor_def at_entry_def)
  next
    case False
    then have c: "base_ok i'" "di_dir i' = dirEOI" "\<And>j. a \<le> j \<Longrightarrow> \<not> sel Q j" using res unfolding next_result_def hit_live by auto
    have "\<not> sel Q j" for j using low [of j] c(3) [of j] by (cases "j < a") auto
    from no_hit(1) [OF this] c n False show ?thesis by (auto simp: shows_cursor_def)
  qed
qed

lemma newest_iff: "newest_at (e_ks E) seq_of snap es j \<longleftrightarrow> vis j \<and> (\<forall>k < j. vis k \<longrightarrow> uk k \<noteq> uk j)"
  by (auto simp: newest_at_def list_all_iff)

lemma scan_all: "scan_ok (\<lambda>j. newest_at (e_ks E) seq_of snap es j \<and> True) dirSOI key 0"
  by (rule scanI) (auto simp: newest_iff)

lemma scan_above:
  assumes "c < length es" and "a \<le> Suc c" and "\<And>j. a \<le> j \<Longrightarrow> j < c \<Longrightarrow> \<not> vis j" and "d \<noteq> dirSOI"
  shows "scan_ok (\<lambda>j. newest_at (e_ks E) seq_of snap es j \<and> ucmp (uk c) (uk j) < 0) d (uk c) a"
proof (rule scanI)
  fix j
  assume j: "a \<le> j" "j < length es" "vis j"
  then have "c \<le> j" using assms(2,3) by (meson not_le)
  then show "ucmp (uk c) (uk j) \<le> 0" using uk_mono j(2) by blast
  have "uk k \<noteq> uk j" if "k < a" "ucmp (uk c) (uk j) < 0" for k
    using uk_mono [of k c] assms(1,2) that ucmp_eq [of "uk c" "uk c"] u_le_less_trans [of "uk k" "uk c" "uk j"] by auto
  then show "newest_at (e_ks E) seq_of snap es j \<and> ucmp (uk c) (uk j) < 0 \<longleftrightarrow>
      (\<forall>k. a \<le> k \<longrightarrow> k < j \<longrightarrow> vis k \<longrightarrow> uk k \<noteq> uk j) \<and> (d = dirSOI \<or> ucmp (uk c) (uk j) < 0)"
    using assms(4) j(3) by (auto simp: newest_iff) (meson not_le)
qed

lemma seek_split:
  assumes "j < length es"
  shows "j < below_count (k_icmp (e_ks E)) (e_make E u snap) es \<longleftrightarrow> k_icmp (e_ks E) (fst (es ! j)) (e_make E u snap) < 0"
proof
  let ?P = "\<lambda>e. k_icmp (e_ks E) (fst e) (e_make E u snap) < 0"
  show "k_icmp (e_ks E) (fst (es ! j)) (e_make E u snap) < 0" if "j < below_count (k_icmp (e_ks E)) (e_make E u snap) es"
    using that nth_length_takeWhile takeWhile_nth [of j ?P es] set_takeWhileD [of _ ?P es] nth_mem unfolding below_count_def by metis
  show "j < below_count (k_icmp (e_ks E)) (e_make E u snap) es" if low: "k_icmp (e_ks E) (fst (es ! j)) (e_make E u snap) < 0"
  proof (rule ccontr)
    let ?b = "length (takeWhile ?P es)"
    assume "\<not> ?thesis"
    then have b: "?b \<le> j" by (simp add: below_count_def)
    have "\<not> ?P (es ! ?b)" using nth_length_takeWhile [of ?P es] b assms by simp
    moreover have "?P (es ! ?b)"
    proof (cases "?b = j")
      case False
      then have "k_icmp (e_ks E) (fst (es ! ?b)) (fst (es ! j)) < 0" using sorted_wrt_nth_less [OF es_sorted, of ?b j] b assms by simp
      then show ?thesis using low icmp_trans by blast
    qed (use low in simp)
    ultimately show False by blast
  qed
qed

lemma scan_seek:
  assumes "a = below_count (k_icmp (e_ks E)) (e_make E u snap) es"
  shows "scan_ok (\<lambda>j. newest_at (e_ks E) seq_of snap es j \<and> ucmp u (uk j) \<le> 0) dirSOI key a"
    and "\<And>j. j < a \<Longrightarrow> \<not> sel (\<lambda>k. ucmp u k \<le> 0) j"
proof -
  have low: "\<not> ucmp u (uk j) \<le> 0" if "j < a" "j < length es" "vis j" for j
  proof -
    have "k_icmp (e_ks E) (fst (es ! j)) (e_make E u snap) < 0" using seek_split [OF that(2), of u] that(1) assms by simp
    then have n: "\<not> (ucmp u (uk j) < 0 \<or> uk j = u)" using make_law [of "fst (es ! j)" u] that(3) by (auto simp: ukey_at_def visible_at_def)
    then show ?thesis using ucmp_eq [of u "uk j"] by auto
  qed
  show "\<not> sel (\<lambda>k. ucmp u k \<le> 0) j" if "j < a" for j using low [OF that] by (auto simp: live_iff)
  show "scan_ok (\<lambda>j. newest_at (e_ks E) seq_of snap es j \<and> ucmp u (uk j) \<le> 0) dirSOI key a"
  proof (rule scanI)
    fix j
    assume j: "a \<le> j" "j < length es" "vis j"
    then have "0 \<le> k_icmp (e_ks E) (fst (es ! j)) (e_make E u snap)" using seek_split [OF j(2), of u] assms by simp
    then have le: "ucmp u (uk j) \<le> 0" using make_law [of "fst (es ! j)" u] by (auto simp: ukey_at_def)
    have "uk k \<noteq> uk j" if "k < a" "vis k" for k using low [OF that(1) _ that(2)] that(1) j le by auto
    then show "newest_at (e_ks E) seq_of snap es j \<and> ucmp u (uk j) \<le> 0 \<longleftrightarrow>
        (\<forall>k. a \<le> k \<longrightarrow> k < j \<longrightarrow> vis k \<longrightarrow> uk k \<noteq> uk j) \<and> (dirSOI = dirSOI \<or> ucmp key (uk j) < 0)"
      using j(3) le by (auto simp: newest_iff) (meson not_le)
  qed simp
qed

text \<open>
  The loop of \<^verbatim>\<open>prev\<close>, at the raw entry \<open>a\<close> with the entries above it up to \<open>a0\<close> seen: what \<^verbatim>\<open>del\<close> says of them.
\<close>

definition held :: "nat \<Rightarrow> int \<Rightarrow> nat \<Rightarrow> ('i, 'e, 'smp) dbIter \<Rightarrow> bool" where
  "held a0 a c i \<longleftrightarrow> a < int c \<and> c \<le> a0 \<and> vis c \<and> kind c = KeyVal \<and> di_key i = uk c \<and> di_value i = snd (es ! c) \<and>
     (\<forall>j. a < int j \<longrightarrow> j < c \<longrightarrow> \<not> vis j) \<and> (\<forall>j. a < int j \<longrightarrow> j \<le> a0 \<longrightarrow> live j \<longrightarrow> j = c)"

definition seen_ok :: "nat \<Rightarrow> int \<Rightarrow> bool \<Rightarrow> ('i, 'e, 'smp) dbIter \<Rightarrow> bool" where
  "seen_ok a0 a del i \<longleftrightarrow>
     (if del then \<forall>j. a < int j \<longrightarrow> j \<le> a0 \<longrightarrow> \<not> live j else \<exists>c. held a0 a c i)"

lemma heldD:
  assumes "held a0 a c i"
  shows "a < int c" "c \<le> a0" "vis c" "kind c = KeyVal" "di_key i = uk c" "di_value i = snd (es ! c)"
    and "\<And>j. a < int j \<Longrightarrow> j < c \<Longrightarrow> \<not> vis j" and "\<And>j. a < int j \<Longrightarrow> j \<le> a0 \<Longrightarrow> live j \<Longrightarrow> j = c"
  using assms by (simp_all add: held_def)

lemma seen_frame: "di_key i' = di_key i \<Longrightarrow> di_value i' = di_value i \<Longrightarrow> seen_ok a0 a del i' = seen_ok a0 a del i"
  by (simp add: seen_ok_def held_def)

definition prev_result :: "nat \<Rightarrow> ('i, 'e, 'smp) dbIter \<Rightarrow> bool \<Rightarrow> bool" where
  "prev_result a0 i r \<longleftrightarrow>
     (if r then \<exists>c \<le> a0. live c \<and> bwd i c \<and> (\<forall>j. c < j \<longrightarrow> j \<le> a0 \<longrightarrow> \<not> live j)
      else base_ok i \<and> di_dir i = dirSOI \<and> pos (di_iter i) = -1 \<and> (\<forall>j \<le> a0. \<not> live j))"

text \<open>The loop ends with the entry it holds: it is live, because no visible entry below has its key.\<close>

lemma prev_result_found:
  assumes seen: "seen_ok a0 a False i" and a0: "a0 < length es" and base: "base_ok i" "di_dir i = dirBackward" "pos (di_iter i) = a"
    and below: "0 \<le> a \<Longrightarrow> vis (nat a) \<and> ucmp (uk (nat a)) (di_key i) < 0"
  shows "prev_result a0 i True"
proof -
  from seen obtain c where h: "held a0 a c i" by (auto simp: seen_ok_def)
  note c = heldD(1-6) [OF h]
  note gap = heldD(7) [OF h]
  note only = heldD(8) [OF h]
  have "uk k \<noteq> uk c" if k: "k < c" "vis k" for k
  proof
    assume eq: "uk k = uk c"
    have "int k \<le> a" using gap [of k] k by (meson not_le)
    then have "k \<le> nat a" "0 \<le> a" by simp_all
    moreover have "nat a < length es" using c(1,2) a0 \<open>0 \<le> a\<close> by linarith
    ultimately have "ucmp (uk k) (uk (nat a)) \<le> 0" by (intro uk_mono)
    then have "ucmp (uk k) (uk c) < 0" using below [OF \<open>0 \<le> a\<close>] c(5) u_le_less_trans by metis
    then show False using eq by simp
  qed
  then have "live c" using c by (simp add: live_iff)
  moreover have "bwd i c" using base c below gap by (auto simp: bwd_def)
  moreover have "\<not> live j" if "c < j" "j \<le> a0" for j using only [of j] that c(1) by linarith
  ultimately show ?thesis using c(2) unfolding prev_result_def by auto
qed

lemma seen_step:
  assumes seen: "seen_ok a0 (int a) del i" and a: "a \<le> a0" "a0 < length es"
    and same: "\<not> del \<Longrightarrow> vis a \<Longrightarrow> \<not> ucmp (uk a) (di_key i) < 0"
    and step: "if \<not> vis a then del' = del \<and> di_key i' = di_key i \<and> di_value i' = di_value i
      else del' = (kind a = KeyDel) \<and> (\<not> del' \<longrightarrow> di_key i' = uk a \<and> di_value i' = snd (es ! a))"
  shows "seen_ok a0 (int a - 1) del' i'"
proof -
  have split: "int a - 1 < int j \<longleftrightarrow> j = a \<or> int a < int j" for j by linarith
  show ?thesis
  proof (cases "vis a")
    case False
    then have na: "\<not> live a" by (simp add: live_iff)
    have frame: "del' = del" "di_key i' = di_key i" "di_value i' = di_value i" using step False by simp_all
    show ?thesis
    proof (cases del)
      case True
      then show ?thesis using seen na frame by (auto simp: seen_ok_def split)
    next
      case held: False
      then obtain c where h: "held a0 (int a) c i" using seen by (auto simp: seen_ok_def)
      have gap: "\<not> vis j" if "int a - 1 < int j" "j < c" for j
        using heldD(7) [OF h, of j] that False by (cases "j = a") auto
      have only: "j = c" if "int a - 1 < int j" "j \<le> a0" "live j" for j
        using heldD(8) [OF h, of j] that na by (cases "j = a") auto
      have "held a0 (int a - 1) c i'"
        unfolding held_def frame(2,3) using heldD(1-6) [OF h] gap only by (intro conjI allI impI) simp_all
      then show ?thesis using held frame(1) by (auto simp: seen_ok_def)
    qed
  next
    case v: True
    have none: "\<not> live j" if j: "int a < int j" "j \<le> a0" for j
    proof (cases del)
      case True
      then show ?thesis using seen j by (simp add: seen_ok_def)
    next
      case False
      then obtain c where h: "held a0 (int a) c i" using seen by (auto simp: seen_ok_def)
      have "uk a = uk c" using uk_eqI [of a c] same [OF False v] heldD(1,2,5) [OF h] a by simp
      then have "\<not> live c" using v heldD(1) [OF h] by (auto simp: live_iff)
      then show ?thesis using heldD(8) [OF h, of j] j by blast
    qed
    show ?thesis
    proof (cases del')
      case True
      then have "\<not> live a" using step v by (simp add: live_iff)
      then show ?thesis using True none unfolding seen_ok_def split by auto
    next
      case False
      then have "kind a = KeyVal" using step v by (cases "kind a") auto
      then have "held a0 (int a - 1) a i'" using False step v none a by (auto simp: held_def split)
      then show ?thesis using False by (auto simp: seen_ok_def)
    qed
  qed
qed

lemma back_frame:
  assumes "raw_at (di_iter i) (int a)" and "a < length es"
  shows "\<exists>it. raw_at it (int a - 1) \<and>
    prev_back E del i = (if a = 0 then Inl (prev_finish E del (i\<lparr>di_iter := it\<rparr>)) else Inr (i\<lparr>di_iter := it\<rparr>, del))"
proof -
  obtain it r where it: "it_Prev (e_ops E) (di_iter i) = (it, r)" by (cases "it_Prev (e_ops E) (di_iter i)")
  have ne: "es \<noteq> []" using assms(2) by auto
  from Prev_law [OF _ it] assms(1) ne have "ok it" "content it = es" "r = (1 \<le> int a)" "pos it = (if r then int a - 1 else -1)"
    by (simp_all add: raw_at_def)
  then show ?thesis using it by (intro exI [of _ it]) (auto simp: prev_back_def raw_at_def)
qed

lemma prev_turn_frame:
  assumes "raw_at (di_iter i) (int a)" and "a < length es" and "di_seq i = snap"
  shows "\<exists>it smp. raw_at it (int a) \<and>
    prev_turn E del i =
      (let j = i\<lparr>di_iter := it, di_sampling := smp\<rparr>
       in if \<not> vis a then prev_back E del j
          else if \<not> del \<and> ucmp (uk a) (di_key i) < 0 then Inl (j, True)
          else prev_back E (kind a = KeyDel) (if kind a = KeyDel then j else di_load E (uk a) j))"
proof -
  obtain it where it: "it_Key (e_ops E) (di_iter i) = (it, Some (fst (es ! a)))" "raw_at it (int a)" using raw_key [OF assms(1,2)] by blast
  then obtain it' smp where s: "di_sampleSeek E (i\<lparr>di_iter := it\<rparr>) = i\<lparr>di_iter := it', di_sampling := smp\<rparr>" "raw_at it' (int a)"
    using sample_frame [of "i\<lparr>di_iter := it\<rparr>" a] assms(2) by auto
  show ?thesis
    using it s assms(3)
    by (intro exI [of _ it'] exI [of _ smp]) (simp add: prev_turn_def parse_key_def parse_law visible_at_def ukey_at_def Let_def)
qed

lemma prev_loop_result:
  assumes "base_ok i" and "di_dir i = dirBackward" and "pos (di_iter i) = int a" and "a \<le> a0" and "a0 < length es"
    and "seen_ok a0 (int a) del i"
  shows "\<exists>i' r. prev_loop E del i = Some (i', r) \<and> prev_result a0 i' r"
  using assms
proof (induction a arbitrary: i del rule: less_induct)
  case (less a)
  note base = less.prems(1,2)
  have a: "a < length es" using less.prems(4,5) by simp
  have raw: "raw_at (di_iter i) (int a)" using base less.prems(3) by (simp add: raw_at_def base_ok_def)
  obtain it smp where it: "raw_at it (int a)" and turn: "prev_turn E del i =
      (let j = i\<lparr>di_iter := it, di_sampling := smp\<rparr>
       in if \<not> vis a then prev_back E del j
          else if \<not> del \<and> ucmp (uk a) (di_key i) < 0 then Inl (j, True)
          else prev_back E (kind a = KeyDel) (if kind a = KeyDel then j else di_load E (uk a) j))"
    using prev_turn_frame [OF raw a, of del] base by (auto simp: base_ok_def)
  let ?j = "i\<lparr>di_iter := it, di_sampling := smp\<rparr>"
  have go_on: ?case
    if bk: "prev_turn E del i = prev_back E del' j'" and j': "base_ok j'" "di_dir j' = dirBackward" "pos (di_iter j') = int a"
      and seen: "seen_ok a0 (int a - 1) del' j'" for del' j'
  proof -
    have "raw_at (di_iter j') (int a)" using j' by (simp add: raw_at_def base_ok_def)
    then obtain it' where it': "raw_at it' (int a - 1)"
      and b: "prev_back E del' j' = (if a = 0 then Inl (prev_finish E del' (j'\<lparr>di_iter := it'\<rparr>)) else Inr (j'\<lparr>di_iter := it'\<rparr>, del'))"
      using back_frame [OF _ a, of j' del'] by blast
    let ?k = "j'\<lparr>di_iter := it'\<rparr>"
    have k: "base_ok ?k" "di_dir ?k = dirBackward" "pos (di_iter ?k) = int a - 1" "seen_ok a0 (int a - 1) del' ?k"
      using j' it' seen seen_frame [of ?k j'] by (auto simp: base_ok_def raw_at_def)
    show ?case
    proof (cases "a = 0")
      case True
      have "\<exists>i' r. prev_finish E del' ?k = (i', r) \<and> prev_result a0 i' r"
      proof (cases del')
        case del: True
        then have "\<forall>j \<le> a0. \<not> live j" using k(4) True by (simp add: seen_ok_def)
        then show ?thesis using k del True by (auto simp: prev_finish_def prev_result_def base_ok_def)
      next
        case del: False
        then have "prev_result a0 ?k True" using prev_result_found [OF _ less.prems(5) k(1,2,3)] k(4) True by simp
        then show ?thesis using del by (intro exI [of _ ?k] exI [of _ True]) (simp add: prev_finish_def)
      qed
      then show ?thesis using True bk b by (subst prev_loop.simps) auto
    next
      case False
      then have "int a - 1 = int (a - 1)" "a - 1 < a" "a - 1 \<le> a0" using less.prems(4) by auto
      then obtain i' r where "prev_loop E del' ?k = Some (i', r)" "prev_result a0 i' r"
        using less.IH [of "a - 1" ?k del'] k less.prems(5) by auto
      then show ?thesis using False bk b by (subst prev_loop.simps) auto
    qed
  qed
  have j: "base_ok ?j" "di_dir ?j = dirBackward" "pos (di_iter ?j) = int a" using base it by (auto simp: base_ok_def raw_at_def)
  show ?case
  proof (cases "vis a \<and> \<not> del \<and> ucmp (uk a) (di_key i) < 0")
    case True
    then have "seen_ok a0 (int a) False ?j" using less.prems(6) seen_frame [of ?j i] by simp
    then have "prev_result a0 ?j True" using prev_result_found [OF _ less.prems(5) j] True by simp
    then show ?thesis using turn True by (subst prev_loop.simps) auto
  next
    case False
    note step = seen_step [OF less.prems(6,4,5)]
    show ?thesis
    proof (cases "vis a \<and> kind a \<noteq> KeyDel")
      case True
      obtain it' where ld: "di_load E (uk a) ?j = ?j\<lparr>di_iter := it', di_key := uk a, di_value := snd (es ! a)\<rparr>" "raw_at it' (int a)"
        using load_frame [OF _ a, of ?j] it by auto
      have "seen_ok a0 (int a - 1) False (di_load E (uk a) ?j)" by (rule step) (use True False ld in auto)
      then show ?thesis using go_on [of False "di_load E (uk a) ?j"] turn True False base ld by (auto simp: base_ok_def raw_at_def Let_def)
    next
      case hid: False
      let ?del = "if vis a then True else del"
      have "seen_ok a0 (int a - 1) ?del ?j" by (rule step) (use False hid in auto)
      then show ?thesis using go_on [of ?del ?j] turn hid False j by (cases "vis a") (auto simp: Let_def)
    qed
  qed
qed

lemma db_prev_last:
  assumes "base_ok i" and "pos (di_iter i) = int a" and "a < length es"
    and sel: "\<And>j. j < length es \<Longrightarrow> live j \<Longrightarrow> Q (uk j) \<longleftrightarrow> j \<le> a"
  shows "\<exists>i' cu r. db_prev E i = Some (i', r) \<and> to_last (filter (\<lambda>e. Q (fst e)) view) = (cu, r) \<and> shows_cursor i' cu"
proof -
  let ?i = "i\<lparr>di_dir := dirBackward\<rparr>"
  have "it_Valid (e_ops E) (di_iter i)" using Valid_law [of "di_iter i"] assms(1-3) by (simp add: base_ok_def)
  moreover have "\<exists>i' r. prev_loop E True ?i = Some (i', r) \<and> prev_result a i' r"
    by (rule prev_loop_result) (use assms(1-3) in \<open>auto simp: base_ok_def seen_ok_def\<close>)
  ultimately obtain i' r where p: "db_prev E i = Some (i', r)" "prev_result a i' r" by (auto simp: db_prev_def)
  show ?thesis
  proof (cases r)
    case True
    then obtain c where c: "c \<le> a" "live c" "bwd i' c" "\<And>j. c < j \<Longrightarrow> j \<le> a \<Longrightarrow> \<not> live j"
      using p(2) unfolding prev_result_def by auto
    have "sel Q c" using c sel [of c] assms(3) by simp
    moreover have "\<not> sel Q j" if "c < j" for j using c(4) [OF that] sel [of j] by blast
    ultimately have "to_last (filter (\<lambda>e. Q (fst e)) view) = (At (uk c, snd (es ! c)), True)" by (rule to_last_hit)
    then show ?thesis using p(1) True c assms(3) by (auto simp: shows_cursor_def at_entry_def intro!: exI [of _ c])
  next
    case False
    then have c: "base_ok i'" "di_dir i' = dirSOI" "pos (di_iter i') = -1" "\<And>j. j \<le> a \<Longrightarrow> \<not> live j"
      using p(2) unfolding prev_result_def by auto
    have "\<not> sel Q j" for j using c(4) [of j] sel [of j] by blast
    from no_hit(2) [OF this] show ?thesis using p(1) False c by (auto simp: shows_cursor_def)
  qed
qed

text \<open>\<^verbatim>\<open>Prev\<close> after a forward move leaves the entries of the current key.\<close>

definition leave_result :: "bytes \<Rightarrow> nat \<Rightarrow> ('i, 'e, 'smp) dbIter \<Rightarrow> bool option \<Rightarrow> bool" where
  "leave_result key a i r \<longleftrightarrow>
     (if r = None then base_ok i \<and> (\<exists>b < a. pos (di_iter i) = int b \<and> ucmp (uk b) key < 0 \<and> (\<forall>j. b < j \<longrightarrow> j < a \<longrightarrow> \<not> ucmp (uk j) key < 0))
      else r = Some False \<and> base_ok i \<and> di_dir i = dirSOI \<and> pos (di_iter i) = -1 \<and> (\<forall>j < a. \<not> ucmp (uk j) key < 0))"

lemma leave_result_Suc:
  assumes "leave_result key a i r" and "\<not> ucmp (uk a) key < 0"
  shows "leave_result key (Suc a) i r"
proof (cases "r = None")
  case True
  then obtain b where b: "b < a" "pos (di_iter i) = int b" "ucmp (uk b) key < 0" "\<And>j. b < j \<Longrightarrow> j < a \<Longrightarrow> \<not> ucmp (uk j) key < 0"
    and base: "base_ok i"
    using assms(1) unfolding leave_result_def by auto
  have "\<not> ucmp (uk j) key < 0" if "b < j" "j < Suc a" for j using b(4) [of j] that assms(2) by (cases "j = a") auto
  then show ?thesis using True b(1-3) base unfolding leave_result_def by (auto intro!: exI [of _ b])
next
  case False
  then show ?thesis using assms unfolding leave_result_def by (auto simp: less_Suc_eq)
qed

lemma leave_turn_frame:
  assumes "base_ok i" and "pos (di_iter i) = int a" and "a < length es"
  shows "\<exists>i'. base_ok i' \<and> di_key i' = di_key i \<and> pos (di_iter i') = int a - 1 \<and>
    leave_turn E i = (if a = 0 then Inl (i'\<lparr>di_dir := dirSOI\<rparr>, Some False)
      else if ucmp (uk (a - 1)) (di_key i) < 0 then Inl (i', None) else Inr i')"
proof -
  obtain it r where it: "it_Prev (e_ops E) (di_iter i) = (it, r)" by (cases "it_Prev (e_ops E) (di_iter i)")
  have ne: "es \<noteq> []" using assms(3) by auto
  from Prev_law [OF _ it] assms ne have p: "ok it" "content it = es" "r = (1 \<le> int a)" "pos it = (if r then int a - 1 else -1)"
    by (simp_all add: base_ok_def)
  show ?thesis
  proof (cases "a = 0")
    case True
    then show ?thesis using p it assms(1) by (intro exI [of _ "i\<lparr>di_iter := it\<rparr>"]) (auto simp: leave_turn_def base_ok_def)
  next
    case False
    then have raw: "raw_at it (int (a - 1))" and lt: "a - 1 < length es" using p assms(3) by (auto simp: raw_at_def)
    obtain it' where k: "it_Key (e_ops E) it = (it', Some (fst (es ! (a - 1))))" "raw_at it' (int (a - 1))" using raw_key [OF raw lt] by blast
    then obtain it'' smp where s: "di_sampleSeek E (i\<lparr>di_iter := it'\<rparr>) = i\<lparr>di_iter := it'', di_sampling := smp\<rparr>" "raw_at it'' (int (a - 1))"
      using sample_frame [of "i\<lparr>di_iter := it'\<rparr>" "a - 1"] lt by auto
    show ?thesis
      using False it p k s assms(1)
      by (intro exI [of _ "i\<lparr>di_iter := it'', di_sampling := smp\<rparr>"])
        (auto simp: leave_turn_def parse_key_def parse_law ukey_at_def Let_def base_ok_def raw_at_def)
  qed
qed

lemma leave_key_result:
  assumes "base_ok i" and "pos (di_iter i) = int a" and "a < length es"
  shows "\<exists>i' r. leave_key E i = Some (i', r) \<and> leave_result (di_key i) a i' r"
  using assms
proof (induction a arbitrary: i)
  case 0
  obtain i' where i': "base_ok i'" "pos (di_iter i') = -1" "leave_turn E i = Inl (i'\<lparr>di_dir := dirSOI\<rparr>, Some False)"
    using leave_turn_frame [OF 0] by auto
  then have "leave_result (di_key i) 0 (i'\<lparr>di_dir := dirSOI\<rparr>) (Some False)" by (simp add: leave_result_def base_ok_def)
  then show ?case using i'(3) by (subst leave_key.simps) auto
next
  case (Suc a)
  obtain i' where i': "base_ok i'" "di_key i' = di_key i" "pos (di_iter i') = int a"
    and turn: "leave_turn E i = (if ucmp (uk a) (di_key i) < 0 then Inl (i', None) else Inr i')"
    using leave_turn_frame [OF Suc.prems] by auto
  show ?case
  proof (cases "ucmp (uk a) (di_key i) < 0")
    case True
    then have "leave_result (di_key i) (Suc a) i' None" using i' by (auto simp: leave_result_def intro!: exI [of _ a])
    then show ?thesis using turn True by (subst leave_key.simps) auto
  next
    case False
    obtain i'' r where "leave_key E i' = Some (i'', r)" "leave_result (di_key i) a i'' r"
      using Suc.IH [OF i'(1,3)] Suc.prems(3) i'(2) by auto
    then show ?thesis using turn False leave_result_Suc [OF _ False] by (subst leave_key.simps) auto
  qed
qed

text \<open>The moves.\<close>

definition simulates ::
  "(('i, 'e, 'smp) dbIter \<times> bool) option \<Rightarrow> cursor \<times> bool \<Rightarrow> bool" where
  "simulates res cr \<longleftrightarrow> (\<exists>i r. res = Some (i, r) \<and> r = snd cr \<and> shows_cursor i (fst cr))"

lemma simulatesI: "\<exists>i' cu r. res = Some (i', r) \<and> cr = (cu, r) \<and> shows_cursor i' cu \<Longrightarrow> simulates res cr"
  by (auto simp: simulates_def)

lemma simulates_endI: "res = Some (i, False) \<Longrightarrow> shows_cursor i cu \<Longrightarrow> simulates res (cu, False)"
  unfolding simulates_def by force

lemma shows_base: "shows_cursor i cu \<Longrightarrow> base_ok i \<and> di_dir i \<noteq> dirReleased"
  by (auto simp: shows_cursor_def at_entry_def fwd_def bwd_def split: cursor.splits)

lemma at_end: "base_ok i \<Longrightarrow> ok it \<Longrightarrow> content it = es \<Longrightarrow> shows_cursor (di_iterErr E (i\<lparr>di_iter := it, di_dir := dirEOI\<rparr>)) Eoi"
  by (simp add: shows_cursor_def base_ok_def)

lemma empty_view: "es = [] \<Longrightarrow> to_first view = (Eoi, False)" "es = [] \<Longrightarrow> to_last view = (Soi, False)"
  using no_hit [of "\<lambda>_. True"] by simp_all

lemma First_simulates:
  assumes "base_ok i" and "di_dir i \<noteq> dirReleased"
  shows "simulates (di_First E i) (to_first view)"
proof -
  obtain it r where it: "it_First (e_ops E) (di_iter i) = (it, r)" by (cases "it_First (e_ops E) (di_iter i)")
  from First_law [OF _ it] assms(1) have p: "ok it" "content it = es" "r = (es \<noteq> [])" "r \<longrightarrow> pos it = 0" by (auto simp: base_ok_def)
  have guard: "di_err i = None" using assms(1) by (simp add: base_ok_def)
  show ?thesis
  proof (cases "es = []")
    case True
    have "r = False" using p(3) True by simp
    then show ?thesis
      unfolding empty_view(1) [OF True]
      by (intro simulates_endI [OF _ at_end [OF assms(1) p(1,2)]]) (use guard assms it in \<open>simp add: di_First_def\<close>)
  next
    case False
    have "\<exists>i' cu r. db_next E (i\<lparr>di_iter := it, di_dir := dirSOI\<rparr>) = Some (i', r) \<and>
        to_first (filter (\<lambda>e. True) view) = (cu, r) \<and> shows_cursor i' cu"
      by (rule db_next_first [where a = 0 and Q = "\<lambda>_. True"]) (use assms(1) p False scan_all in \<open>auto simp: base_ok_def\<close>)
    then show ?thesis using guard assms p it False by (intro simulatesI) (simp add: di_First_def)
  qed
qed

lemma Last_simulates:
  assumes "base_ok i" and "di_dir i \<noteq> dirReleased"
  shows "simulates (di_Last E i) (to_last view)"
proof -
  obtain it r where it: "it_Last (e_ops E) (di_iter i) = (it, r)" by (cases "it_Last (e_ops E) (di_iter i)")
  from Last_law [OF _ it] assms(1) have p: "ok it" "content it = es" "r = (es \<noteq> [])" "r \<longrightarrow> pos it = int (length es) - 1"
    by (auto simp: base_ok_def)
  have guard: "di_err i = None" using assms(1) by (simp add: base_ok_def)
  show ?thesis
  proof (cases "es = []")
    case True
    have "r = False" using p(3) True by simp
    moreover have "shows_cursor (di_iterErr E (i\<lparr>di_iter := it, di_dir := dirSOI\<rparr>)) Soi"
      using assms(1) p(1,2) disjI1 [OF True] by (simp add: shows_cursor_def base_ok_def)
    ultimately show ?thesis
      unfolding empty_view(2) [OF True]
      by (intro simulates_endI [of _ "di_iterErr E (i\<lparr>di_iter := it, di_dir := dirSOI\<rparr>)"]) (use guard assms it in \<open>simp_all add: di_Last_def\<close>)
  next
    case False
    have "\<exists>i' cu r. db_prev E (i\<lparr>di_iter := it\<rparr>) = Some (i', r) \<and>
        to_last (filter (\<lambda>e. True) view) = (cu, r) \<and> shows_cursor i' cu"
      by (rule db_prev_last [where a = "length es - 1" and Q = "\<lambda>_. True"])
        (use assms(1) p False in \<open>auto simp: base_ok_def Suc_le_eq of_nat_diff\<close>)
    then show ?thesis using guard assms p it False by (intro simulatesI) (simp add: di_Last_def)
  qed
qed

lemma Seek_simulates:
  assumes "base_ok i" and "di_dir i \<noteq> dirReleased"
  shows "simulates (di_Seek E u i) (to_first (filter (\<lambda>e. ucmp u (fst e) \<le> 0) view))"
proof -
  let ?b = "below_count (k_icmp (e_ks E)) (e_make E u snap) es"
  have guard: "di_err i = None" "di_seq i = snap" using assms(1) by (simp_all add: base_ok_def)
  obtain it r where it: "it_Seek (e_ops E) (e_make E u snap) (di_iter i) = (it, r)"
    by (cases "it_Seek (e_ops E) (e_make E u snap) (di_iter i)")
  from Seek_law [OF _ it] assms(1) have p: "ok it" "content it = es" "r = (?b < length es)" "r \<longrightarrow> pos it = int ?b" by (auto simp: base_ok_def)
  note low = scan_seek(2) [of ?b u, OF refl]
  show ?thesis
  proof (cases r)
    case False
    then have "\<not> sel (\<lambda>k. ucmp u k \<le> 0) j" for j using low [of j] p(3) by auto
    from no_hit(1) [OF this] show ?thesis
      by (simp only:) (intro simulates_endI [OF _ at_end [OF assms(1) p(1,2)]], use guard assms it False in \<open>simp add: di_Seek_def\<close>)
  next
    case True
    have "\<exists>i' cu r. db_next E (i\<lparr>di_iter := it, di_dir := dirSOI\<rparr>) = Some (i', r) \<and>
        to_first (filter (\<lambda>e. ucmp u (fst e) \<le> 0) view) = (cu, r) \<and> shows_cursor i' cu"
      by (rule db_next_first [where a = ?b and Q = "\<lambda>k. ucmp u k \<le> 0"])
        (use assms(1) p True low scan_seek(1) [of ?b u, OF refl] in \<open>auto simp: base_ok_def\<close>)
    then show ?thesis using guard assms p it True by (intro simulatesI) (simp add: di_Seek_def)
  qed
qed

lemma raw_next_law:
  assumes "base_ok i" and "raw_next E i = (it, r)"
  shows "ok it \<and> content it = es \<and>
    (let p = pos (di_iter i) + (if di_dir i = dirBackward then 2 else 1) in r = (p < int (length es)) \<and> (r \<longrightarrow> pos it = p))"
proof -
  obtain it1 r1 where 1: "it_Next (e_ops E) (di_iter i) = (it1, r1)" by (cases "it_Next (e_ops E) (di_iter i)")
  from Next_law [OF _ 1] assms(1) have p1: "ok it1" "content it1 = es" "r1 = (pos (di_iter i) + 1 < int (length es))"
    "r1 \<longrightarrow> pos it1 = pos (di_iter i) + 1"
    by (auto simp: base_ok_def)
  show ?thesis
  proof (cases "r1 \<and> di_dir i = dirBackward")
    case True
    then have "it_Next (e_ops E) it1 = (it, r)" using 1 assms(2) by (simp add: raw_next_def)
    from Next_law [OF p1(1) this] True p1 show ?thesis by auto
  next
    case False
    then have "it = it1" "r = r1" using 1 assms(2) by (auto simp: raw_next_def)
    then show ?thesis using p1 False by auto
  qed
qed

lemma Next_from_entry:
  assumes base: "base_ok i" "di_dir i \<in> {dirForward, dirBackward}" "di_key i = uk c" and c: "c < length es"
    and a: "a = pos (di_iter i) + (if di_dir i = dirBackward then 2 else 1)" "0 \<le> a" "a \<le> int c + 1"
    and gap: "\<And>j. a \<le> int j \<Longrightarrow> j < c \<Longrightarrow> \<not> vis j"
  shows "simulates (di_Next E i) (to_first (filter (\<lambda>e. ucmp (uk c) (fst e) < 0) view))"
proof -
  obtain it r where it: "raw_next E i = (it, r)" by (cases "raw_next E i")
  from raw_next_law [OF base(1) it] a(1) have p: "ok it" "content it = es" "r = (a < int (length es))" "r \<longrightarrow> pos it = a"
    by (simp_all add: Let_def)
  have low: "\<not> sel (\<lambda>k. ucmp (uk c) k < 0) j" if "int j < a" for j
    using uk_mono [of j c] ucmp_swap [of "uk c" "uk j"] that a(3) c by auto
  have guard: "di_dir i \<noteq> dirEOI" "di_err i = None" "di_dir i \<noteq> dirReleased" "di_dir i \<noteq> dirSOI" using base by (auto simp: base_ok_def)
  show ?thesis
  proof (cases r)
    case False
    then have "\<not> sel (\<lambda>k. ucmp (uk c) k < 0) j" for j using low [of j] p(3) by auto
    from no_hit(1) [OF this] show ?thesis
      by (simp only:) (intro simulates_endI [OF _ at_end [OF base(1) p(1,2)]], use guard it False in \<open>simp add: di_Next_def\<close>)
  next
    case True
    have "\<exists>i' cu r. db_next E (i\<lparr>di_iter := it\<rparr>) = Some (i', r) \<and>
        to_first (filter (\<lambda>e. ucmp (uk c) (fst e) < 0) view) = (cu, r) \<and> shows_cursor i' cu"
    proof (rule db_next_first [where a = "nat a" and Q = "\<lambda>k. ucmp (uk c) k < 0"])
      show "scan_ok (\<lambda>j. newest_at (e_ks E) seq_of snap es j \<and> ucmp (uk c) (uk j) < 0)
          (di_dir (i\<lparr>di_iter := it\<rparr>)) (di_key (i\<lparr>di_iter := it\<rparr>)) (nat a)"
        using scan_above [OF c, of "nat a" "di_dir i"] gap guard(4) a base(3) by (auto simp: nat_le_iff)
    qed (use p True a low base in \<open>auto simp: base_ok_def\<close>)
    then show ?thesis using guard it True by (intro simulatesI) (simp add: di_Next_def)
  qed
qed

lemma Next_simulates:
  assumes sh: "shows_cursor i cu"
  shows "simulates (di_Next E i) (view_move (e_ks E) view MNext cu)"
proof (cases cu)
  case Soi
  then have i: "base_ok i" "di_dir i = dirSOI" "es = [] \<or> pos (di_iter i) = -1" using sh by (auto simp: shows_cursor_def)
  obtain it r where it: "raw_next E i = (it, r)" by (cases "raw_next E i")
  have range: "-1 \<le> pos (di_iter i)" using pos_range [of "di_iter i"] i(1) by (simp add: base_ok_def)
  from raw_next_law [OF i(1) it] i(2) have p: "ok it" "content it = es" "r = (pos (di_iter i) + 1 < int (length es))"
    "r \<longrightarrow> pos it = pos (di_iter i) + 1"
    by (simp_all add: Let_def)
  have guard: "di_err i = None" using i(1) by (simp add: base_ok_def)
  show ?thesis
  proof (cases "es = []")
    case True
    then have "r = False" using p(3) range by simp
    then show ?thesis
      unfolding Soi view_move_def move.case cursor.case empty_view(1) [OF True]
      by (intro simulates_endI [OF _ at_end [OF i(1) p(1,2)]]) (use guard i(2) it in \<open>simp add: di_Next_def\<close>)
  next
    case False
    then have r: "r" "pos it = 0" using p i(3) by auto
    have "\<exists>i' cu r. db_next E (i\<lparr>di_iter := it\<rparr>) = Some (i', r) \<and> to_first (filter (\<lambda>e. True) view) = (cu, r) \<and> shows_cursor i' cu"
      by (rule db_next_first [where a = 0 and Q = "\<lambda>_. True"]) (use i p r False scan_all in \<open>auto simp: base_ok_def\<close>)
    then show ?thesis using guard i(2) it r by (intro simulatesI) (simp add: Soi view_move_def di_Next_def)
  qed
next
  case (At e)
  then obtain c where c: "c < length es" "e = (uk c, snd (es ! c))" "fwd i c \<or> bwd i c"
    using sh by (auto simp: shows_cursor_def at_entry_def)
  have goal: "view_move (e_ks E) view MNext cu = to_first (filter (\<lambda>x. ucmp (uk c) (fst x) < 0) view)" by (simp add: At c(2) view_move_def)
  from c(3) show ?thesis
  proof
    assume "fwd i c"
    then show ?thesis unfolding goal using Next_from_entry [of i c "int c + 1"] c(1) by (auto simp: fwd_def)
  next
    assume b: "bwd i c"
    then have "-1 \<le> pos (di_iter i)" using pos_range [of "di_iter i"] by (simp add: bwd_def base_ok_def)
    then show ?thesis unfolding goal using Next_from_entry [of i c "pos (di_iter i) + 2"] c(1) b by (auto simp: bwd_def)
  qed
next
  case Eoi
  then have "di_Next E i = Some (i, False)" using sh by (simp add: shows_cursor_def di_Next_def)
  then show ?thesis unfolding Eoi view_move_def move.case cursor.case by (rule simulates_endI) (use sh Eoi in simp)
qed

lemma prev_hits:
  assumes "a < c" and "c < length es" and "ucmp (uk a) (uk c) < 0"
    and gap: "\<And>j. a < j \<Longrightarrow> j < c \<Longrightarrow> live j \<Longrightarrow> \<not> ucmp (uk j) (uk c) < 0"
    and j: "j < length es" "live j"
  shows "ucmp (uk j) (uk c) < 0 \<longleftrightarrow> j \<le> a"
proof
  assume less: "ucmp (uk j) (uk c) < 0"
  have "j < c" using less uk_mono [of c j] j(1) ucmp_swap [of "uk c" "uk j"] by (cases "c \<le> j") auto
  then show "j \<le> a" using gap [of j] less j(2) by (meson not_le)
next
  assume "j \<le> a"
  then show "ucmp (uk j) (uk c) < 0" using uk_mono [of j a] assms(1-3) u_le_less_trans by (meson less_trans)
qed

lemma no_prev:
  assumes "c < length es" and gap: "\<And>j. j < c \<Longrightarrow> live j \<Longrightarrow> \<not> ucmp (uk j) (uk c) < 0"
  shows "to_last (filter (\<lambda>e. ucmp (fst e) (uk c) < 0) view) = (Soi, False)"
proof (rule no_hit(2))
  fix j
  show "\<not> sel (\<lambda>k. ucmp k (uk c) < 0) j"
  proof (cases "j < c")
    case False
    then show ?thesis using uk_mono [of c j] ucmp_swap [of "uk c" "uk j"] by auto
  qed (use gap in blast)
qed

lemma Prev_simulates:
  assumes sh: "shows_cursor i cu"
  shows "simulates (di_Prev E i) (view_move (e_ks E) view MPrev cu)"
proof (cases cu)
  case Soi
  then have "di_Prev E i = Some (i, False)" using sh by (simp add: shows_cursor_def di_Prev_def)
  then show ?thesis unfolding Soi view_move_def move.case cursor.case by (rule simulates_endI) (use sh Soi in simp)
next
  case Eoi
  then have "base_ok i" "di_dir i = dirEOI" using sh by (auto simp: shows_cursor_def)
  then show ?thesis using Last_simulates [of i] by (simp add: Eoi view_move_def di_Prev_def base_ok_def)
next
  case (At e)
  then obtain c where c: "c < length es" "live c" "e = (uk c, snd (es ! c))" "fwd i c \<or> bwd i c"
    using sh by (auto simp: shows_cursor_def at_entry_def)
  have goal: "view_move (e_ks E) view MPrev cu = to_last (filter (\<lambda>x. ucmp (fst x) (uk c) < 0) view)" by (simp add: At c(3) view_move_def)
  from c(4) show ?thesis
  proof
    assume f: "fwd i c"
    then have i: "base_ok i" "pos (di_iter i) = int c" "di_key i = uk c" "di_dir i = dirForward" "di_err i = None"
      by (simp_all add: fwd_def base_ok_def)
    obtain i' r where l: "leave_key E i = Some (i', r)" "leave_result (uk c) c i' r" using leave_key_result [OF i(1,2) c(1)] i(3) by auto
    show ?thesis
    proof (cases r)
      case None
      then obtain a where a: "base_ok i'" "a < c" "pos (di_iter i') = int a" "ucmp (uk a) (uk c) < 0"
        "\<And>j. a < j \<Longrightarrow> j < c \<Longrightarrow> \<not> ucmp (uk j) (uk c) < 0"
        using l(2) by (auto simp: leave_result_def)
      have "\<exists>i'' cu r. db_prev E i' = Some (i'', r) \<and>
          to_last (filter (\<lambda>e. ucmp (fst e) (uk c) < 0) view) = (cu, r) \<and> shows_cursor i'' cu"
        by (rule db_prev_last [where a = a and Q = "\<lambda>k. ucmp k (uk c) < 0"]) (use a c(1) prev_hits [of a c] in auto)
      then show ?thesis using l(1) None i unfolding goal by (intro simulatesI) (simp add: di_Prev_def)
    next
      case (Some b)
      then have a: "b = False" "base_ok i'" "di_dir i' = dirSOI" "pos (di_iter i') = -1" "\<And>j. j < c \<Longrightarrow> \<not> ucmp (uk j) (uk c) < 0"
        using l(2) by (auto simp: leave_result_def)
      have "di_Prev E i = Some (i', False)" using l(1) Some a(1) i by (simp add: di_Prev_def)
      moreover have "shows_cursor i' Soi" using a by (simp add: shows_cursor_def)
      ultimately have "simulates (di_Prev E i) (Soi, False)" by (rule simulates_endI)
      then show ?thesis unfolding goal using no_prev [OF c(1)] a(5) by simp
    qed
  next
    assume b: "bwd i c"
    then have i: "base_ok i" "di_dir i = dirBackward" "di_err i = None" by (simp_all add: bwd_def base_ok_def)
    have gap: "\<not> live j" if "pos (di_iter i) < int j" "j < c" for j using b that by (auto simp: bwd_def live_iff)
    have eq: "di_Prev E i = db_prev E i" using i by (simp add: di_Prev_def)
    show ?thesis
    proof (cases "0 \<le> pos (di_iter i)")
      case True
      define a where "a = nat (pos (di_iter i))"
      have a: "pos (di_iter i) = int a" using True by (simp add: a_def)
      have ac: "a < c" "ucmp (uk a) (uk c) < 0" using b a by (auto simp: bwd_def)
      have "\<exists>i'' cu r. db_prev E i = Some (i'', r) \<and>
          to_last (filter (\<lambda>e. ucmp (fst e) (uk c) < 0) view) = (cu, r) \<and> shows_cursor i'' cu"
        by (rule db_prev_last [where a = a and Q = "\<lambda>k. ucmp k (uk c) < 0"]) (use a ac c(1) i gap prev_hits [of a c] in auto)
      then show ?thesis unfolding goal eq by (rule simulatesI)
    next
      case False
      then have m: "pos (di_iter i) = -1" using pos_range [of "di_iter i"] i(1) by (simp add: base_ok_def)
      have "\<not> it_Valid (e_ops E) (di_iter i)" using Valid_law [of "di_iter i"] i(1) m by (simp add: base_ok_def)
      then have p: "di_Prev E i = Some (i\<lparr>di_dir := dirSOI\<rparr>, False)" using eq i(1) by (simp add: db_prev_def prev_finish_def base_ok_def)
      have "shows_cursor (i\<lparr>di_dir := dirSOI\<rparr>) Soi" using i(1) m by (simp add: shows_cursor_def base_ok_def)
      from simulates_endI [OF p this] show ?thesis unfolding goal using no_prev [OF c(1)] gap m by auto
    qed
  qed
qed

lemma move_simulates:
  assumes "shows_cursor i cu"
  shows "simulates (db_move E m i) (view_move (e_ks E) view m cu)"
proof (cases m)
  case MFirst then show ?thesis using First_simulates shows_base [OF assms] by (simp add: db_move_def view_move_def)
next
  case MLast then show ?thesis using Last_simulates shows_base [OF assms] by (simp add: db_move_def view_move_def)
next
  case MSeek then show ?thesis using Seek_simulates shows_base [OF assms] by (simp add: db_move_def view_move_def)
next
  case MNext then show ?thesis using Next_simulates [OF assms] by (simp add: db_move_def)
next
  case MPrev then show ?thesis using Prev_simulates [OF assms] by (simp add: db_move_def)
qed

lemma shows_entry: "shows_cursor i cu \<Longrightarrow> (di_Key i, di_Value i) = cursor_entry cu"
  by (auto simp: shows_cursor_def at_entry_def fwd_def bwd_def base_ok_def di_Key_def di_Value_def di_Valid_def cursor_entry_def split: cursor.splits)

lemma moves_simulate: "shows_cursor i cu \<Longrightarrow> db_moves E ms i = Some (view_moves (e_ks E) view ms cu)"
proof (induction ms arbitrary: i cu)
  case (Cons m ms)
  obtain cu' r where v: "view_move (e_ks E) view m cu = (cu', r)" by (cases "view_move (e_ks E) view m cu")
  then obtain i' where "db_move E m i = Some (i', r)" "shows_cursor i' cu'"
    using move_simulates [OF Cons.prems, of m] by (auto simp: simulates_def)
  then show ?case using Cons.IH v shows_entry by simp
qed simp

lemma new_shows: "ok it \<Longrightarrow> content it = es \<Longrightarrow> pos it = -1 \<Longrightarrow> shows_cursor (db_newIterator it snap strict nosample smp) Soi"
  by (simp add: shows_cursor_def base_ok_def db_newIterator_def)

end

section \<open>Arrays as raw iterators\<close>

text \<open>
  The environment of an iterator over an array with bytewise keys: the key of a seek is the largest one the snapshot may see.
  Arrays of entries that are out of order do not occur; they read as empty.
\<close>

definition bytewise_make :: "bytes \<Rightarrow> nat \<Rightarrow> bytes \<times> u64" where
  "bytewise_make u n = (u, if n < 2 ^ 56 then of_nat (n * 256 + 255) else - 1)"

definition array_env ::
  "((bytes \<times> u64) option \<Rightarrow> bytes option \<Rightarrow> 'smp \<Rightarrow> 'smp) \<Rightarrow>
   ((bytes \<times> u64, bytes) arrayIterator, bytes \<times> u64, iter_error, 'smp) db_env" where
  "array_env sample =
     \<lparr>e_ops = array_ops, e_ks = bytewise_keys, e_parse = bytewise_parse, e_make = bytewise_make, e_sample = sample\<rparr>"

definition in_order :: "((bytes \<times> u64) \<times> bytes) list \<Rightarrow> ((bytes \<times> u64) \<times> bytes) list" where
  "in_order es = (if sorted_wrt (\<lambda>a b. k_icmp bytewise_keys (fst a) (fst b) < 0) es then es else [])"

definition list_arr :: "('ik \<Rightarrow> 'ik \<Rightarrow> int) \<Rightarrow> ('ik \<times> 'val) list \<Rightarrow> ('ik, 'val) arr" where
  "list_arr cmp es = \<lparr>arr_Len = length es, arr_Search = (\<lambda>k. below_count cmp k es), arr_Index = (!) es\<rparr>"

definition sample_entries :: "((bytes \<times> u64) \<times> bytes) list" where
  "sample_entries =
     [(([1], 0x201), [10]), (([2], 0x901), [99]), (([2], 0x301), [20]), (([2], 0x101), [21]), (([3], 0x400), []), (([3], 0x201), [30]),
      (([4], 0x501), [40])]"

lemma make_word: "m \<le> snd (bytewise_make u n) \<longleftrightarrow> unat m div 256 \<le> n" for m :: u64
proof (cases "n < 2 ^ 56")
  case True
  then have "n * 256 + 255 < 2 ^ 64" by simp
  then have "unat (of_nat (n * 256 + 255) :: u64) = n * 256 + 255" by (simp only: unsigned_of_nat) (simp add: take_bit_nat_eq_self)
  then have "m \<le> snd (bytewise_make u n) \<longleftrightarrow> unat m \<le> n * 256 + 255" using True by (simp add: bytewise_make_def word_le_nat_alt)
  also have "\<dots> \<longleftrightarrow> unat m div 256 \<le> n" by linarith
  finally show ?thesis .
next
  case False
  have "unat m < 18446744073709551616" using unsigned_less [of m] by simp
  then have "unat m div 256 < 72057594037927936" by linarith
  then have "unat m div 256 \<le> n" using False by (simp add: not_less)
  then show ?thesis using False by (simp add: bytewise_make_def)
qed

interpretation array_db: db_iteration "array_env sample" "ai_ok (k_icmp bytewise_keys)" ai_content ai_at bytewise_seq bytewise_kind "in_order es" snap
  for sample es snap
proof (intro db_iteration.intro db_iteration_axioms.intro)
  have E: "e_ops (array_env sample) = array_ops" "e_ks (array_env sample) = bytewise_keys" "e_parse (array_env sample) = bytewise_parse"
    "e_make (array_env sample) = bytewise_make"
    by (simp_all add: array_env_def)
  show "iterator (e_ops (array_env sample)) (ai_ok (k_icmp bytewise_keys)) ai_content ai_at (k_icmp (e_ks (array_env sample)))"
    unfolding E by (rule array_iterator.iterator_axioms)
  show "internal_keys (e_ks (array_env sample))" unfolding E by (rule bytewise_keys.internal_keys_axioms)
  show "e_parse (array_env sample) k = Some (k_ukey (e_ks (array_env sample)) k, bytewise_seq k, bytewise_kind k)" for k
    unfolding E by (simp add: bytewise_parse_def bytewise_keys_def)
  show "0 \<le> k_icmp (e_ks (array_env sample)) k (e_make (array_env sample) u snap) \<longleftrightarrow>
      k_ucmp (e_ks (array_env sample)) u (k_ukey (e_ks (array_env sample)) k) < 0 \<or>
      k_ukey (e_ks (array_env sample)) k = u \<and> bytewise_seq k \<le> snap" for k u
  proof -
    obtain a m where k: "k = (a, m)" by (cases k)
    have "fst (bytewise_make u snap) = u" by (simp add: bytewise_make_def)
    moreover have "a = u \<or> Compare a u < 0 \<or> 0 < Compare a u" using Compare_values [of a u] Compare_eq_0 [of a u] by force
    ultimately show ?thesis
      unfolding E bytewise_seq_def k using make_word [of m u snap] Compare_swap [of u a]
      by (cases "bytewise_make u snap") (auto simp: bytewise_keys_def)
  qed
  show "sorted_wrt (\<lambda>a b. k_icmp (e_ks (array_env sample)) (fst a) (fst b) < 0) (in_order es)"
    unfolding E by (simp add: in_order_def)
qed

lemma list_arr_ok: "ai_ok cmp (NewArrayIterator (list_arr cmp es))" "ai_content (NewArrayIterator (list_arr cmp es)) = es"
  "ai_at (NewArrayIterator (list_arr cmp es)) = -1"
proof -
  have "arr_list (list_arr cmp es) = es" by (simp add: arr_list_def list_arr_def map_nth)
  then show "ai_content (NewArrayIterator (list_arr cmp es)) = es" by (simp add: ai_content_def NewArrayIterator_def)
  show "ai_at (NewArrayIterator (list_arr cmp es)) = -1" by (simp add: ai_at_def NewArrayIterator_def)
  show "ai_ok cmp (NewArrayIterator (list_arr cmp es))"
    using \<open>arr_list (list_arr cmp es) = es\<close> by (auto simp: ai_ok_def NewArrayIterator_def arr_ok_def list_arr_def Let_def)
qed

section \<open>Properties\<close>

text \<open>
  C2: the database iterator shows the snapshot.  Let the raw iterator keep the iterator contract over entries in the order of
  their internal keys.  Then every series of moves (first, last, seek, next, previous, in any order) ends, reports no error, and gives
  the results, keys and values of the same moves over the list of the user keys whose newest entry visible at the
  snapshot is a value, in order.
\<close>

theorem iterator_refines_view:
  assumes "db_iteration E ok content pos seq_of kind_of es snap"
    and "ok it" and "content it = es" and "pos it = -1"
  shows "db_moves E ms (db_newIterator it snap strict nosample smp) =
    Some (view_moves (e_ks E) (user_view (e_ks E) seq_of kind_of snap es) ms Soi)"
  using db_iteration.moves_simulate [OF assms(1)] db_iteration.new_shows [OF assms] by blast

theorem iterator_refines_view_witness:
  "db_moves (array_env (\<lambda>k v s. s)) [MNext, MNext, MPrev, MNext, MNext, MNext, MPrev, MSeek [3], MPrev, MPrev, MPrev]
     (db_newIterator (NewArrayIterator (list_arr (k_icmp bytewise_keys) sample_entries)) 6 False False ()) =
   Some [(True, Some [1], Some [10]), (True, Some [2], Some [20]), (True, Some [1], Some [10]), (True, Some [2], Some [20]),
     (True, Some [4], Some [40]), (False, None, None), (True, Some [4], Some [40]), (True, Some [4], Some [40]),
     (True, Some [2], Some [20]), (True, Some [1], Some [10]), (False, None, None)]"
proof -
  have sorted: "in_order sample_entries = sample_entries" by code_simp
  have view: "user_view (e_ks (array_env (\<lambda>k v s. s))) bytewise_seq bytewise_kind 6 (in_order sample_entries) = [([1], [10]), ([2], [20]), ([4], [40])]"
    unfolding sorted by code_simp
  show ?thesis
    unfolding iterator_refines_view [OF array_db.db_iteration_axioms [of _ sample_entries], OF list_arr_ok(1) _ list_arr_ok(3), unfolded list_arr_ok(2) sorted, OF refl] by code_simp
qed

end
