(* ===== verification/Ldb_Block.thy ===== *)
theory Ldb_Block
  imports Ldb_Iterator "HOL-Library.Monad_Syntax"
begin

text \<open>
  The blocks of a table file, \<^verbatim>\<open>goleveldb/leveldb/table/reader.go\<close>: entries one behind the other, each key sharing a prefix with the one
  before, and at the end the offsets of the restart points, whose keys are complete; with the iterator over a block or a range of it, which reads
  backwards from a cache of the entries since the last restart point.  A panic, and a loop that does not end, is \<open>None\<close>.  A slice has no
  room behind its length: what \<^verbatim>\<open>key[:n]\<close> shows there depends on the memory allocator.  \<^verbatim>\<open>value\<close> is \<open>None\<close> when it is nil.  The handle of
  the block, which only goes into error messages, and the releasers are left out.
\<close>

section \<open>Slices and numbers\<close>

definition slice_from :: "bytes \<Rightarrow> int \<Rightarrow> bytes option" where
  "slice_from xs i = (if 0 \<le> i \<and> i \<le> int (length xs) then Some (drop (nat i) xs) else None)"

definition slice :: "bytes \<Rightarrow> int \<Rightarrow> int \<Rightarrow> bytes option" where
  "slice xs i j = (if 0 \<le> i \<and> i \<le> j \<and> j \<le> int (length xs) then Some (take (nat (j - i)) (drop (nat i) xs)) else None)"

text \<open>\<^verbatim>\<open>binary.LittleEndian.Uint32\<close> and \<^verbatim>\<open>binary.Uvarint\<close>; the number of bytes is 0 when the slice ends too early, negative on overflow.\<close>

definition Uint32 :: "bytes \<Rightarrow> int option" where
  "Uint32 xs =
     (case xs of
        a # b # c # d # _ \<Rightarrow> Some (uint a + 256 * uint b + 65536 * uint c + 16777216 * uint d)
      | _ \<Rightarrow> None)"

fun uvarint_loop :: "nat \<Rightarrow> nat \<Rightarrow> u64 \<Rightarrow> bytes \<Rightarrow> u64 \<times> int" where
  "uvarint_loop i s x [] = (0, 0)"
| "uvarint_loop i s x (b # bs) =
     (if i = 10 then (0, - (int i + 1))
      else if b < 0x80
      then if i = 9 \<and> 1 < b then (0, - (int i + 1)) else (x OR push_bit s (ucast b), int i + 1)
      else uvarint_loop (i + 1) (s + 7) (x OR push_bit s (ucast (b AND 0x7f))) bs)"

definition Uvarint :: "bytes \<Rightarrow> u64 \<times> int" where
  "Uvarint buf = uvarint_loop 0 0 0 buf"

text \<open>\<^verbatim>\<open>sort.Search\<close> with a predicate that may panic.\<close>

function bisect_opt :: "(nat \<Rightarrow> bool option) \<Rightarrow> nat \<Rightarrow> nat \<Rightarrow> nat option" where
  "bisect_opt f i j =
     (if i < j
      then let h = (i + j) div 2
        in case f h of
             None \<Rightarrow> None
           | Some False \<Rightarrow> bisect_opt f (h + 1) j
           | Some True \<Rightarrow> bisect_opt f i h
      else Some i)"

  by pat_completeness auto

termination
  by (relation "measure (\<lambda>(f, i, j). j - i)") auto

declare bisect_opt.simps [simp del]

definition search_opt :: "int \<Rightarrow> (nat \<Rightarrow> bool option) \<Rightarrow> int option" where
  "search_opt n f = map_option int (bisect_opt f 0 (nat n))"

section \<open>Blocks\<close>

record block =
  bl_data :: bytes
  bl_restartsLen :: int
  bl_restartsOffset :: int

datatype block_error = BlockCorrupted string | BlockIterReleased | BlockRange

definition restartOffset :: "block \<Rightarrow> int \<Rightarrow> int option" where
  "restartOffset b index = Option.bind (slice_from (bl_data b) (bl_restartsOffset b + 4 * index)) Uint32"

text \<open>The key of a restart point, as \<^verbatim>\<open>seek\<close> reads it: the shared length is taken to be the one byte 0.\<close>

definition restart_key :: "block \<Rightarrow> int \<Rightarrow> bytes option" where
  "restart_key b index =
     do { o1 \<leftarrow> restartOffset b index;
          let o2 = o1 + 1;
          d1 \<leftarrow> slice_from (bl_data b) o2;
          let (v1, n1) = Uvarint d1;
          d2 \<leftarrow> slice_from (bl_data b) (o2 + n1);
          let (v2, n2) = Uvarint d2;
          let m = o2 + n1 + n2;
          slice (bl_data b) m (m + sint v1) }"

definition block_seek :: "(bytes \<Rightarrow> bytes \<Rightarrow> int) \<Rightarrow> block \<Rightarrow> int \<Rightarrow> int \<Rightarrow> bytes \<Rightarrow> (int \<times> int) option" where
  "block_seek cmp b rstart rlimit key =
     do { n \<leftarrow> search_opt (bl_restartsLen b - rstart - (bl_restartsLen b - rlimit))
            (\<lambda>i. map_option (\<lambda>k. 0 < cmp k key) (restart_key b (rstart + int i)));
          let index = n + rstart - 1;
          let index = (if index < rstart then rstart else index);
          off \<leftarrow> restartOffset b index;
          Some (index, off) }"

definition restartIndex :: "block \<Rightarrow> int \<Rightarrow> int \<Rightarrow> int \<Rightarrow> int option" where
  "restartIndex b rstart rlimit offset =
     do { n \<leftarrow> search_opt (bl_restartsLen b - rstart - (bl_restartsLen b - rlimit))
            (\<lambda>i. map_option (\<lambda>v. offset < v) (restartOffset b (rstart + int i)));
          Some (n + rstart - 1) }"

text \<open>
  \<^verbatim>\<open>entry\<close>: the key without its shared prefix, the value, the length of the prefix and that of the entry.  The sums are those of \<open>int\<close>; in Go two lengths near \<open>2 ^ 63\<close> wrap around,
  which no block that \<open>block_ok\<close> admits has.
\<close>

definition block_entry :: "block \<Rightarrow> int \<Rightarrow> (block_error + bytes \<times> bytes option \<times> int \<times> int) option" where
  "block_entry b offset =
     (if bl_restartsOffset b \<le> offset
      then if offset \<noteq> bl_restartsOffset b then Some (Inl (BlockCorrupted ''entries offset not aligned'')) else Some (Inr ([], None, 0, 0))
      else do {
        d0 \<leftarrow> slice_from (bl_data b) offset;
        let (v0, n0) = Uvarint d0;
        d1 \<leftarrow> slice_from (bl_data b) (offset + n0);
        let (v1, n1) = Uvarint d1;
        d2 \<leftarrow> slice_from (bl_data b) (offset + n0 + n1);
        let (v2, n2) = Uvarint d2;
        let m = n0 + n1 + n2;
        let n = m + sint v1 + sint v2;
        if n0 \<le> 0 \<or> n1 \<le> 0 \<or> n2 \<le> 0 \<or> bl_restartsOffset b < offset + n
        then Some (Inl (BlockCorrupted ''entries corrupted''))
        else do {
          key \<leftarrow> slice (bl_data b) (offset + m) (offset + m + sint v1);
          value \<leftarrow> slice (bl_data b) (offset + m + sint v1) (offset + n);
          Some (Inr (key, Some value, sint v0, n)) } })"

section \<open>The iterator over a block\<close>

datatype block_dir = BReleased | BSOI | BEOI | BBackward | BForward

record blockIter =
  bi_cmp :: "bytes \<Rightarrow> bytes \<Rightarrow> int"
  bi_block :: block
  bi_key :: bytes
  bi_value :: "bytes option"
  bi_offset :: int
  bi_prevOffset :: int
  bi_prevNode :: "int list"
  bi_prevKeys :: bytes
  bi_restartIndex :: int
  bi_dir :: block_dir
  bi_riStart :: int
  bi_riLimit :: int
  bi_offsetStart :: int
  bi_offsetRealStart :: int
  bi_offsetLimit :: int
  bi_err :: "block_error option"

definition bi_sErr :: "block_error \<Rightarrow> blockIter \<Rightarrow> blockIter" where
  "bi_sErr err i = i\<lparr>bi_err := Some err, bi_key := [], bi_value := None, bi_prevNode := [], bi_prevKeys := []\<rparr>"

definition clear_prev :: "blockIter \<Rightarrow> blockIter" where
  "clear_prev i = (if bi_dir i = BBackward then i\<lparr>bi_prevNode := [], bi_prevKeys := []\<rparr> else i)"

definition bi_reset :: "blockIter \<Rightarrow> blockIter" where
  "bi_reset i =
     (clear_prev i)\<lparr>bi_restartIndex := bi_riStart i, bi_offset := bi_offsetStart i, bi_dir := BSOI, bi_key := [], bi_value := None\<rparr>"

definition bi_isFirst :: "blockIter \<Rightarrow> bool" where
  "bi_isFirst i =
     (case bi_dir i of
        BForward \<Rightarrow> bi_prevOffset i = bi_offsetRealStart i
      | BBackward \<Rightarrow> length (bi_prevNode i) = 1 \<and> bi_restartIndex i = bi_riStart i
      | _ \<Rightarrow> False)"

definition bi_isLast :: "blockIter \<Rightarrow> bool" where
  "bi_isLast i = (case bi_dir i of BForward \<Rightarrow> bi_offset i = bi_offsetLimit i | BBackward \<Rightarrow> bi_offset i = bi_offsetLimit i | _ \<Rightarrow> False)"

text \<open>\<^verbatim>\<open>append(i.key[:nShared], key...)\<close>.\<close>

definition join_key :: "bytes \<Rightarrow> int \<Rightarrow> bytes \<Rightarrow> bytes option" where
  "join_key old nShared key = map_option (\<lambda>p. p @ key) (slice old 0 nShared)"

text \<open>The loop of \<^verbatim>\<open>Next\<close> up to the start of the range; the flag says that \<^verbatim>\<open>Next\<close> goes on.\<close>

partial_function (option) skip_to_start :: "blockIter \<Rightarrow> (blockIter \<times> bool) option" where
  "skip_to_start i =
     (if bi_offset i < bi_offsetRealStart i
      then case block_entry (bi_block i) (bi_offset i) of
             None \<Rightarrow> None
           | Some (Inl e) \<Rightarrow> Some (bi_sErr e i, False)
           | Some (Inr (key, value, nShared, n)) \<Rightarrow>
               if n = 0 then Some (i\<lparr>bi_dir := BEOI\<rparr>, False)
               else case join_key (bi_key i) nShared key of
                 None \<Rightarrow> None
               | Some k \<Rightarrow> skip_to_start (i\<lparr>bi_key := k, bi_value := value, bi_offset := bi_offset i + n\<rparr>)
      else Some (i, True))"

declare skip_to_start.simps [code]

text \<open>The rest of \<^verbatim>\<open>Next\<close>, which reads the entry.\<close>

definition next_entry :: "blockIter \<Rightarrow> (blockIter \<times> bool) option" where
  "next_entry i =
     (if bi_offsetLimit i \<le> bi_offset i
      then let i = i\<lparr>bi_dir := BEOI\<rparr>
        in Some (if bi_offset i \<noteq> bi_offsetLimit i then bi_sErr (BlockCorrupted ''entries offset not aligned'') i else i, False)
      else case block_entry (bi_block i) (bi_offset i) of
             None \<Rightarrow> None
           | Some (Inl e) \<Rightarrow> Some (bi_sErr e i, False)
           | Some (Inr (key, value, nShared, n)) \<Rightarrow>
               if n = 0 then Some (i\<lparr>bi_dir := BEOI\<rparr>, False)
               else case join_key (bi_key i) nShared key of
                 None \<Rightarrow> None
               | Some k \<Rightarrow>
                   Some (i\<lparr>bi_key := k, bi_value := value, bi_prevOffset := bi_offset i, bi_offset := bi_offset i + n, bi_dir := BForward\<rparr>, True))"

definition bi_Next :: "blockIter \<Rightarrow> (blockIter \<times> bool) option" where
  "bi_Next i =
     (if bi_dir i = BEOI \<or> bi_err i \<noteq> None then Some (i, False)
      else if bi_dir i = BReleased then Some (i\<lparr>bi_err := Some BlockIterReleased\<rparr>, False)
      else let i = (if bi_dir i = BSOI then i\<lparr>bi_restartIndex := bi_riStart i, bi_offset := bi_offsetStart i\<rparr> else clear_prev i)
        in case skip_to_start i of
             None \<Rightarrow> None
           | Some (i, False) \<Rightarrow> Some (i, False)
           | Some (i, True) \<Rightarrow> next_entry i)"

text \<open>A node of the cache: the offset of the key in \<^verbatim>\<open>prevKeys\<close>, that of the value in the block, and its length.\<close>

definition push_node :: "int \<Rightarrow> bytes option \<Rightarrow> blockIter \<Rightarrow> blockIter" where
  "push_node offset value i =
     (case bi_value i of
        None \<Rightarrow> i
      | Some v \<Rightarrow> i\<lparr>bi_prevNode := bi_prevNode i @ [int (length (bi_prevKeys i)), offset - int (length v), int (length v)],
                  bi_prevKeys := bi_prevKeys i @ bi_key i\<rparr>)\<lparr>bi_value := value\<rparr>"

text \<open>The loop of \<^verbatim>\<open>Prev\<close> that fills the cache with the entries from \<^verbatim>\<open>offset\<close> up to the current one.\<close>

partial_function (option) build_cache :: "int \<Rightarrow> int \<Rightarrow> blockIter \<Rightarrow> (blockIter \<times> bool) option" where
  "build_cache ri offset i =
     (case block_entry (bi_block i) offset of
        None \<Rightarrow> None
      | Some (Inl e) \<Rightarrow> Some (bi_sErr e i, False)
      | Some (Inr (key, value, nShared, n)) \<Rightarrow>
          let i = (if bi_offsetRealStart i \<le> offset then push_node offset value i else i)
          in case join_key (bi_key i) nShared key of
               None \<Rightarrow> None
             | Some k \<Rightarrow>
                 let i = i\<lparr>bi_key := k\<rparr>; offset = offset + n
                 in if bi_offset i \<le> offset
                    then if offset \<noteq> bi_offset i then Some (bi_sErr (BlockCorrupted ''entries offset not aligned'') i, False)
                      else Some (i\<lparr>bi_restartIndex := ri, bi_offset := offset\<rparr>, True)
                    else build_cache ri offset i)"

declare build_cache.simps [code]

text \<open>The part of \<^verbatim>\<open>Prev\<close> that looks for the restart point to begin at.\<close>

definition prev_range :: "int \<Rightarrow> blockIter \<Rightarrow> (blockIter \<times> bool) option" where
  "prev_range ri i =
     (let i = i\<lparr>bi_key := [], bi_value := None\<rparr>
      in case restartOffset (bi_block i) ri of
           None \<Rightarrow> None
         | Some offset \<Rightarrow>
             if offset = bi_offset i
             then if ri - 1 < 0 then Some (i\<lparr>bi_dir := BSOI\<rparr>, False)
               else case restartOffset (bi_block i) (ri - 1) of
                 None \<Rightarrow> None
               | Some offset \<Rightarrow> build_cache (ri - 1) offset (i\<lparr>bi_prevNode := bi_prevNode i @ [offset]\<rparr>)
             else build_cache ri offset (i\<lparr>bi_prevNode := bi_prevNode i @ [offset]\<rparr>))"

text \<open>The entry before the current one, from the cache: the last three elements of \<^verbatim>\<open>prevNode\<close>.\<close>

definition prev_cached :: "blockIter \<Rightarrow> (blockIter \<times> bool) option" where
  "prev_cached i =
     (let n = int (length (bi_prevNode i)) - 3
      in if n < 0 then None
         else let node = drop (nat n) (bi_prevNode i); ko = node ! 0; vo = node ! 1; vl = vo + node ! 2
           in do { k \<leftarrow> slice_from (bi_prevKeys i) ko;
                   ks \<leftarrow> slice (bi_prevKeys i) 0 ko;
                   v \<leftarrow> slice (bl_data (bi_block i)) vo vl;
                   Some (i\<lparr>bi_prevNode := take (nat n) (bi_prevNode i), bi_key := k, bi_prevKeys := ks, bi_value := Some v, bi_offset := vl\<rparr>, True) })"

definition bi_Prev :: "blockIter \<Rightarrow> (blockIter \<times> bool) option" where
  "bi_Prev i =
     (if bi_dir i = BSOI \<or> bi_err i \<noteq> None then Some (i, False)
      else if bi_dir i = BReleased then Some (i\<lparr>bi_err := Some BlockIterReleased\<rparr>, False)
      else if bi_dir i = BForward
      then let i = i\<lparr>bi_offset := bi_prevOffset i\<rparr>
        in if bi_offset i = bi_offsetRealStart i then Some (i\<lparr>bi_dir := BSOI\<rparr>, False)
           else case restartIndex (bi_block i) (bi_restartIndex i) (bi_riLimit i) (bi_offset i) of
             None \<Rightarrow> None
           | Some ri \<Rightarrow> prev_range ri (i\<lparr>bi_dir := BBackward\<rparr>)
      else if bi_dir i = BEOI
      then let i = i\<lparr>bi_restartIndex := bi_riLimit i, bi_offset := bi_offsetLimit i\<rparr>
        in if bi_offset i = bi_offsetRealStart i then Some (i\<lparr>bi_dir := BSOI\<rparr>, False)
           else prev_range (bi_riLimit i - 1) (i\<lparr>bi_dir := BBackward\<rparr>)
      else if length (bi_prevNode i) = 1
      then let i = i\<lparr>bi_offset := bi_prevNode i ! 0, bi_prevNode := []\<rparr>
        in if bi_restartIndex i = bi_riStart i then Some (i\<lparr>bi_dir := BSOI\<rparr>, False)
           else let i = i\<lparr>bi_restartIndex := bi_restartIndex i - 1\<rparr> in prev_range (bi_restartIndex i) i
      else prev_cached i)"

text \<open>The check that the methods begin with.\<close>

definition refused :: "blockIter \<Rightarrow> blockIter option" where
  "refused i =
     (if bi_err i \<noteq> None then Some i
      else if bi_dir i = BReleased then Some (i\<lparr>bi_err := Some BlockIterReleased\<rparr>)
      else None)"

definition bi_First :: "blockIter \<Rightarrow> (blockIter \<times> bool) option" where
  "bi_First i = (case refused i of Some i \<Rightarrow> Some (i, False) | None \<Rightarrow> bi_Next ((clear_prev i)\<lparr>bi_dir := BSOI\<rparr>))"

definition bi_Last :: "blockIter \<Rightarrow> (blockIter \<times> bool) option" where
  "bi_Last i = (case refused i of Some i \<Rightarrow> Some (i, False) | None \<Rightarrow> bi_Prev ((clear_prev i)\<lparr>bi_dir := BEOI\<rparr>))"

partial_function (option) seek_next :: "bytes \<Rightarrow> blockIter \<Rightarrow> (blockIter \<times> bool) option" where
  "seek_next key i =
     (case bi_Next i of
        None \<Rightarrow> None
      | Some (i, found) \<Rightarrow>
          if \<not> found then Some (i, False)
          else if 0 \<le> bi_cmp i (bi_key i) key then Some (i, True)
          else seek_next key i)"

declare seek_next.simps [code]

definition bi_Seek :: "bytes \<Rightarrow> blockIter \<Rightarrow> (blockIter \<times> bool) option" where
  "bi_Seek key i =
     (case refused i of
        Some i \<Rightarrow> Some (i, False)
      | None \<Rightarrow>
          (case block_seek (bi_cmp i) (bi_block i) (bi_riStart i) (bi_riLimit i) key of
             None \<Rightarrow> None
           | Some (ri, offset) \<Rightarrow>
               seek_next key (i\<lparr>bi_restartIndex := ri, bi_offset := max (bi_offsetStart i) offset,
                 bi_dir := (if bi_dir i = BSOI \<or> bi_dir i = BEOI then BForward else bi_dir i)\<rparr>)))"

definition bi_Key :: "blockIter \<Rightarrow> bytes option" where
  "bi_Key i = (if bi_err i \<noteq> None \<or> bi_dir i \<in> {BReleased, BSOI, BEOI} then None else Some (bi_key i))"

definition bi_Value :: "blockIter \<Rightarrow> bytes option" where
  "bi_Value i = (if bi_err i \<noteq> None \<or> bi_dir i \<in> {BReleased, BSOI, BEOI} then None else bi_value i)"

definition bi_Valid :: "blockIter \<Rightarrow> bool" where
  "bi_Valid i \<longleftrightarrow> bi_err i = None \<and> (bi_dir i = BBackward \<or> bi_dir i = BForward)"

definition bi_Release :: "blockIter \<Rightarrow> blockIter" where
  "bi_Release i =
     (if bi_dir i = BReleased then i
      else i\<lparr>bi_block := \<lparr>bl_data = [], bl_restartsLen = 0, bl_restartsOffset = 0\<rparr>, bi_prevNode := [], bi_prevKeys := [], bi_key := [], bi_value := None,
             bi_dir := BReleased\<rparr>)"

section \<open>Ranges\<close>

definition whole_block :: "(bytes \<Rightarrow> bytes \<Rightarrow> int) \<Rightarrow> block \<Rightarrow> blockIter" where
  "whole_block cmp b =
     \<lparr>bi_cmp = cmp, bi_block = b, bi_key = [], bi_value = None, bi_offset = 0, bi_prevOffset = 0, bi_prevNode = [], bi_prevKeys = [], bi_restartIndex = 0,
      bi_dir = BSOI, bi_riStart = 0, bi_riLimit = bl_restartsLen b, bi_offsetStart = 0, bi_offsetRealStart = 0, bi_offsetLimit = bl_restartsOffset b, bi_err = None\<rparr>"

definition range_start :: "bytes \<Rightarrow> blockIter \<Rightarrow> blockIter option" where
  "range_start start bi =
     do { (bi, found) \<leftarrow> bi_Seek start bi;
          if found
          then do { r \<leftarrow> restartIndex (bi_block bi) (bi_restartIndex bi) (bl_restartsLen (bi_block bi)) (bi_prevOffset bi);
                    off \<leftarrow> restartOffset (bi_block bi) r;
                    Some (bi\<lparr>bi_riStart := r, bi_offsetStart := off, bi_offsetRealStart := bi_prevOffset bi\<rparr>) }
          else Some (bi\<lparr>bi_riStart := bl_restartsLen (bi_block bi), bi_offsetStart := bl_restartsOffset (bi_block bi),
                 bi_offsetRealStart := bl_restartsOffset (bi_block bi)\<rparr>) }"

definition range_limit :: "bytes \<Rightarrow> bool \<Rightarrow> blockIter \<Rightarrow> blockIter option" where
  "range_limit limit inclLimit bi =
     do { (bi, found) \<leftarrow> bi_Seek limit bi;
          (bi, found) \<leftarrow> (if found \<and> inclLimit then bi_Next bi else Some (bi, found));
          Some (if found then bi\<lparr>bi_offsetLimit := bi_prevOffset bi, bi_riLimit := bi_restartIndex bi + 1\<rparr> else bi) }"

text \<open>\<^verbatim>\<open>newBlockIter\<close>; the range is its start and its limit.\<close>

definition newBlockIter :: "(bytes \<Rightarrow> bytes \<Rightarrow> int) \<Rightarrow> block \<Rightarrow> (bytes option \<times> bytes option) option \<Rightarrow> bool \<Rightarrow> blockIter option" where
  "newBlockIter cmp b rng inclLimit =
     (case rng of
        None \<Rightarrow> Some (whole_block cmp b)
      | Some (start, limit) \<Rightarrow>
          do { bi \<leftarrow> (case start of None \<Rightarrow> Some (whole_block cmp b) | Some s \<Rightarrow> range_start s (whole_block cmp b));
               bi \<leftarrow> (case limit of None \<Rightarrow> Some bi | Some l \<Rightarrow> range_limit l inclLimit bi);
               let bi = bi_reset bi;
               Some (if bi_offsetLimit bi < bi_offsetStart bi then bi_sErr BlockRange bi else bi) })"

end
