(* ===== verification/Ldb_Block_Iter.thy ===== *)
theory Ldb_Block_Iter
  imports Ldb_Block
begin

text \<open>
  The iterator of a block keeps the contract of an iterator.  The locale \<open>block_layout\<close> says that a block holds a list of entries in the order of their keys: where each
  entry begins, how much of the key before it shares, and which entries are restart points.  The states of the iterator are described by the entry it stands at;
  going backwards, the cache holds the entries between the restart point and the current one.
\<close>

section \<open>Searching\<close>

lemma bisect_opt_total:
  assumes "\<And>k. k < n \<Longrightarrow> f k = Some (g k)" and "j \<le> n"
  shows "bisect_opt f i j = Some (bisect g i j)"
  using assms(2)
proof (induction "j - i" arbitrary: i j rule: less_induct)
  case less
  show ?case
  proof (cases "i < j")
    case True
    then have h: "(i + j) div 2 < n" "j - Suc ((i + j) div 2) < j - i" "(i + j) div 2 - i < j - i"
      using less.prems by auto
    have hi: "bisect_opt f (Suc ((i + j) div 2)) j = Some (bisect g (Suc ((i + j) div 2)) j)"
      using less.hyps [of j "Suc ((i + j) div 2)"] h less.prems by auto
    have lo: "bisect_opt f i ((i + j) div 2) = Some (bisect g i ((i + j) div 2))"
      using less.hyps [of "(i + j) div 2" i] h less.prems by auto
    show ?thesis
      using hi lo assms(1) [OF h(1)] True
      by (subst bisect_opt.simps, subst bisect.simps) (auto simp: Let_def split: option.splits bool.splits)
  next
    case False
    then show ?thesis
      by (subst bisect_opt.simps, subst bisect.simps) simp
  qed
qed

lemma search_opt_total: "(\<And>k. int k < n \<Longrightarrow> f k = Some (g k)) \<Longrightarrow> search_opt n f = Some (int (sort_Search (nat n) g))"
  using bisect_opt_total [of "nat n" f g "nat n" 0] by (auto simp: search_opt_def sort_Search_def)

text \<open>The last index below \<open>n\<close> at which a monotone predicate is still false.\<close>

lemma search_last:
  assumes "\<And>a b. a \<le> b \<Longrightarrow> b < n \<Longrightarrow> g a \<Longrightarrow> g b" and "\<And>k. k < n \<Longrightarrow> f k = Some (g k)"
  obtains k where "search_opt (int n) f = Some (int k)" "k \<le> n" "\<And>j. j < k \<Longrightarrow> \<not> g j" "k < n \<Longrightarrow> g k"
proof -
  have "search_opt (int n) f = Some (int (sort_Search n g))"
    using search_opt_total [of "int n" f g] assms(2) by simp
  moreover have le: "sort_Search n g \<le> n"
    by (rule sort_Search_spec(1)) (rule assms(1))
  moreover have iff: "g k \<longleftrightarrow> sort_Search n g \<le> k" if "k < n" for k
    by (rule sort_Search_spec(2) [OF _ that]) (rule assms(1))
  moreover have "\<not> g j" if "j < sort_Search n g" for j
    using iff [of j] le that by simp
  ultimately show ?thesis
    using that [of "sort_Search n g"] by simp
qed

section \<open>A block that holds entries\<close>

lemma slice_Some: "0 \<le> i \<Longrightarrow> i \<le> j \<Longrightarrow> j \<le> int (length xs) \<Longrightarrow> slice xs i j = Some (take (nat (j - i)) (drop (nat i) xs))"
  by (simp add: slice_def)

lemma slice_shift: "slice xs i j = Some v \<Longrightarrow> slice xs (j - int (length v)) j = Some v"
  by (auto simp: slice_def split: if_splits)

lemma entry_value:
  assumes "block_entry b offset = Some (Inr (k, Some v, s, n))"
  shows "slice (bl_data b) (offset + n - int (length v)) (offset + n) = Some v"
  using assms slice_shift by (auto simp: block_entry_def Let_def split: if_splits prod.splits bind_splits)

text \<open>The entries in a range: from the first that is not below the start to the last below the limit, or to the one behind it.\<close>

definition entries_between :: "(bytes \<Rightarrow> bytes \<Rightarrow> int) \<Rightarrow> (bytes option \<times> bytes option) option \<Rightarrow> bool \<Rightarrow> (bytes \<times> bytes) list \<Rightarrow> (bytes \<times> bytes) list" where
  "entries_between cmp rng inclLimit es =
     (case rng of
        None \<Rightarrow> es
      | Some (start, limit) \<Rightarrow>
          let d = (case start of None \<Rightarrow> es | Some s \<Rightarrow> dropWhile (\<lambda>e. cmp (fst e) s < 0) es)
          in case limit of
               None \<Rightarrow> d
             | Some l \<Rightarrow> take (length (takeWhile (\<lambda>e. cmp (fst e) l < 0) d) + (if inclLimit then 1 else 0)) d)"

text \<open>Calls of an iterator with what they show: the result, the key, the value and the error afterwards.  The cursor is the position in a list.\<close>

datatype iter_call = CallFirst | CallLast | CallSeek bytes | CallNext | CallPrev

definition block_call :: "iter_call \<Rightarrow> blockIter \<Rightarrow> (blockIter \<times> bool) option" where
  "block_call c =
     (case c of CallFirst \<Rightarrow> bi_First | CallLast \<Rightarrow> bi_Last | CallSeek k \<Rightarrow> bi_Seek k | CallNext \<Rightarrow> bi_Next | CallPrev \<Rightarrow> bi_Prev)"

type_synonym shown = "bool \<times> bytes option \<times> bytes option \<times> block_error option"

primrec block_run :: "iter_call list \<Rightarrow> blockIter \<Rightarrow> shown list option" where
  "block_run [] i = Some []"
| "block_run (c # cs) i =
     (case block_call c i of
        None \<Rightarrow> None
      | Some (i', ok) \<Rightarrow> map_option (\<lambda>rest. (ok, bi_Key i', bi_Value i', bi_err i') # rest) (block_run cs i'))"

definition cursor_call :: "(bytes \<Rightarrow> bytes \<Rightarrow> int) \<Rightarrow> (bytes \<times> bytes) list \<Rightarrow> iter_call \<Rightarrow> int \<Rightarrow> int \<times> bool" where
  "cursor_call cmp es c p =
     (let n = int (length es)
      in case c of
           CallFirst \<Rightarrow> (0, 0 < n)
         | CallLast \<Rightarrow> (n - 1, 0 < n)
         | CallSeek k \<Rightarrow> (int (below_count cmp k es), int (below_count cmp k es) < n)
         | CallNext \<Rightarrow> (min (p + 1) n, p + 1 < n)
         | CallPrev \<Rightarrow> (max (p - 1) (-1), 0 \<le> p - 1))"

primrec cursor_run :: "(bytes \<Rightarrow> bytes \<Rightarrow> int) \<Rightarrow> (bytes \<times> bytes) list \<Rightarrow> iter_call list \<Rightarrow> int \<Rightarrow> shown list" where
  "cursor_run cmp es [] p = []"
| "cursor_run cmp es (c # cs) p =
     (let (p', ok) = cursor_call cmp es c p; here = (0 \<le> p' \<and> p' < int (length es))
      in (ok, if here then Some (fst (es ! nat p')) else None, if here then Some (snd (es ! nat p')) else None, None) # cursor_run cmp es cs p')"

locale block_layout =
  fixes cmp :: "bytes \<Rightarrow> bytes \<Rightarrow> int"
    and b :: block
    and es :: "(bytes \<times> bytes) list"
    and off :: "nat \<Rightarrow> int"
    and suf :: "nat \<Rightarrow> bytes"
    and sh :: "nat \<Rightarrow> nat"
    and rs :: "nat \<Rightarrow> nat"
    and R :: nat
  assumes cmp_trans: "cmp k k' < 0 \<Longrightarrow> cmp k' l \<le> 0 \<Longrightarrow> cmp k l < 0"
    and sorted_keys: "i < j \<Longrightarrow> j < length es \<Longrightarrow> cmp (fst (es ! i)) (fst (es ! j)) < 0"
    and nonempty: "es \<noteq> []"
    and off_first: "off 0 = 0"
    and off_less: "j < length es \<Longrightarrow> off j < off (Suc j)"
    and off_end: "off (length es) = bl_restartsOffset b"
    and entry: "j < length es \<Longrightarrow> block_entry b (off j) = Some (Inr (suf j, Some (snd (es ! j)), int (sh j), off (Suc j) - off j))"
    and prefixed: "j < length es \<Longrightarrow> 0 < sh j \<Longrightarrow> 0 < j \<and> sh j \<le> length (fst (es ! (j - 1)))"
    and joined: "j < length es \<Longrightarrow> fst (es ! j) = take (sh j) (if j = 0 then [] else fst (es ! (j - 1))) @ suf j"
    and restarts: "bl_restartsLen b = int R" "0 < R" "rs 0 = 0" "r < R \<Longrightarrow> rs r < length es" "r < r' \<Longrightarrow> r' < R \<Longrightarrow> rs r < rs r'"
    and restart_offset: "r < R \<Longrightarrow> restartOffset b (int r) = Some (off (rs r))" "restartOffset b (int R) = Some (int R)"
    and restart: "r < R \<Longrightarrow> restart_key b (int r) = Some (fst (es ! rs r))" "r < R \<Longrightarrow> sh (rs r) = 0"
begin

lemma off_mono: "i \<le> j \<Longrightarrow> j \<le> length es \<Longrightarrow> off i \<le> off j"
proof (induction j)
  case (Suc j)
  then show ?case
    using off_less [of j] by (cases "i = Suc j") auto
qed simp

lemma off_strict: "i < j \<Longrightarrow> j \<le> length es \<Longrightarrow> off i < off j"
  using off_less [of i] off_mono [of "Suc i" j] by simp

lemma off_eq: "i \<le> length es \<Longrightarrow> j \<le> length es \<Longrightarrow> off i = off j \<longleftrightarrow> i = j"
  using off_strict by (metis less_irrefl nat_neq_iff)

lemma off_le: "i \<le> length es \<Longrightarrow> j \<le> length es \<Longrightarrow> off i \<le> off j \<longleftrightarrow> i \<le> j"
  using off_strict off_mono by (metis leD leI nat_le_linear)

lemma off_lt: "i \<le> length es \<Longrightarrow> j \<le> length es \<Longrightarrow> off i < off j \<longleftrightarrow> i < j"
  using off_le [of j i] by linarith

lemma rs_mono: "r \<le> r' \<Longrightarrow> r' < R \<Longrightarrow> rs r \<le> rs r'"
  using restarts(5) by (cases "r = r'") (auto intro: less_imp_le)

lemma off_ge: "j \<le> length es \<Longrightarrow> int j \<le> off j"
proof (induction j)
  case (Suc j)
  then show ?case
    using off_less [of j] by simp
qed (simp add: off_first)

lemma rs_ge: "r < R \<Longrightarrow> r \<le> rs r"
proof (induction r)
  case (Suc r)
  then show ?case
    using restarts(5) [of r "Suc r"] by simp
qed simp

lemma restarts_below: "int R \<le> off (length es)"
  using rs_ge [of "R - 1"] restarts(2) restarts(4) [of "R - 1"] off_ge [of "length es"] by linarith

section \<open>The states of the iterator\<close>

text \<open>The range of the iterator: the entries from \<open>lo\<close> below \<open>hi\<close>, with the restart points \<open>r0\<close> and \<open>r1\<close> around them.\<close>

definition ranged :: "nat \<Rightarrow> nat \<Rightarrow> nat \<Rightarrow> nat \<Rightarrow> blockIter \<Rightarrow> bool" where
  "ranged lo hi r0 r1 i \<longleftrightarrow>
     bi_cmp i = cmp \<and> bi_block i = b \<and> bi_err i = None \<and> lo \<le> hi \<and> hi \<le> length es \<and> bi_offsetRealStart i = off lo \<and> bi_offsetLimit i = off hi \<and>
     bi_riStart i = int r0 \<and> bi_riLimit i = int r1 \<and> r1 \<le> R \<and>
     (if r0 < R then rs r0 \<le> lo \<and> bi_offsetStart i = off (rs r0) \<and> (\<forall>r. r0 < r \<longrightarrow> r < R \<longrightarrow> lo < rs r)
      else r0 = R \<and> lo = length es \<and> bi_offsetStart i = off (length es)) \<and>
     (lo < hi \<longrightarrow> r0 < r1) \<and> (r0 < r1 \<longrightarrow> rs (r1 - 1) \<le> hi)"

text \<open>The iterator may read the entry \<open>q\<close>: the part of the key that the entry shares is in place.\<close>

definition prepared :: "nat \<Rightarrow> blockIter \<Rightarrow> bool" where
  "prepared q i \<longleftrightarrow> q \<le> length es \<and> bi_offset i = off q \<and>
     (q < length es \<longrightarrow> sh q \<le> length (bi_key i) \<and> take (sh q) (bi_key i) = take (sh q) (if q = 0 then [] else fst (es ! (q - 1))))"

definition cache_keys :: "nat \<Rightarrow> nat \<Rightarrow> bytes" where
  "cache_keys m j = concat (map (\<lambda>t. fst (es ! t)) [m..<j])"

definition cache_nodes :: "nat \<Rightarrow> nat \<Rightarrow> int list" where
  "cache_nodes m j = concat (map (\<lambda>t. [int (length (cache_keys m t)), off (Suc t) - int (length (snd (es ! t))), int (length (snd (es ! t)))]) [m..<j])"

definition forward :: "nat \<Rightarrow> nat \<Rightarrow> nat \<Rightarrow> blockIter \<Rightarrow> bool" where
  "forward r0 r1 j i \<longleftrightarrow>
     bi_dir i = BForward \<and> bi_prevOffset i = off j \<and> bi_offset i = off (Suc j) \<and> bi_key i = fst (es ! j) \<and> bi_value i = Some (snd (es ! j)) \<and>
     bi_prevNode i = [] \<and> bi_prevKeys i = [] \<and> (\<exists>r. bi_restartIndex i = int r \<and> r0 \<le> r \<and> r < r1 \<and> rs r \<le> j)"

definition backward :: "nat \<Rightarrow> nat \<Rightarrow> nat \<Rightarrow> nat \<Rightarrow> blockIter \<Rightarrow> bool" where
  "backward lo r0 r1 j i \<longleftrightarrow>
     bi_dir i = BBackward \<and> bi_offset i = off (Suc j) \<and> bi_key i = fst (es ! j) \<and> bi_value i = Some (snd (es ! j)) \<and>
     (\<exists>r. bi_restartIndex i = int r \<and> r0 \<le> r \<and> r < r1 \<and> rs r \<le> j \<and>
        bi_prevNode i = off (rs r) # cache_nodes (max lo (rs r)) j \<and> bi_prevKeys i = cache_keys (max lo (rs r)) j)"

definition idle_cache :: "blockIter \<Rightarrow> bool" where
  "idle_cache i \<longleftrightarrow> bi_prevNode i = [] \<and> bi_prevKeys i = []"

text \<open>The position in the range, from -1 to its length.\<close>

definition stands :: "nat \<Rightarrow> nat \<Rightarrow> nat \<Rightarrow> nat \<Rightarrow> int \<Rightarrow> blockIter \<Rightarrow> bool" where
  "stands lo hi r0 r1 p i \<longleftrightarrow>
     ranged lo hi r0 r1 i \<and>
     (if p = -1 then bi_dir i = BSOI \<and> idle_cache i
      else if p = int (hi - lo) then bi_dir i = BEOI \<and> idle_cache i
      else 0 \<le> p \<and> p < int (hi - lo) \<and> (forward r0 r1 (lo + nat p) i \<or> backward lo r0 r1 (lo + nat p) i))"

section \<open>Next\<close>

lemma join_step:
  "prepared q i \<Longrightarrow> q < length es \<Longrightarrow> join_key (bi_key i) (int (sh q)) (suf q) = Some (fst (es ! q))"
  using joined [of q] by (simp add: prepared_def join_key_def slice_Some)

lemma prepared_after: "bi_offset i = off (Suc q) \<Longrightarrow> bi_key i = fst (es ! q) \<Longrightarrow> q < length es \<Longrightarrow> prepared (Suc q) i"
  using prefixed [of "Suc q"] by (cases "sh (Suc q) = 0") (auto simp: prepared_def)

lemma ranged_fields:
  "ranged lo hi r0 r1 i \<Longrightarrow> bi_cmp i' = bi_cmp i \<Longrightarrow> bi_block i' = bi_block i \<Longrightarrow> bi_err i' = bi_err i \<Longrightarrow> bi_offsetRealStart i' = bi_offsetRealStart i \<Longrightarrow>
   bi_offsetLimit i' = bi_offsetLimit i \<Longrightarrow> bi_riStart i' = bi_riStart i \<Longrightarrow> bi_riLimit i' = bi_riLimit i \<Longrightarrow> bi_offsetStart i' = bi_offsetStart i \<Longrightarrow>
   ranged lo hi r0 r1 i'"
  by (simp add: ranged_def)

lemma skip_step:
  assumes "ranged lo hi r0 r1 i" and "prepared q i" and "q \<le> length es"
  obtains k v where "skip_to_start i = Some (i\<lparr>bi_key := k, bi_value := v, bi_offset := off (max q lo)\<rparr>, True)"
    "prepared (max q lo) (i\<lparr>bi_key := k, bi_value := v, bi_offset := off (max q lo)\<rparr>)"
  using assms
proof (induction "lo - q" arbitrary: q i thesis)
  case 0
  have "skip_to_start i = Some (i, True)"
    using 0 off_le [of lo q] by (subst skip_to_start.simps) (auto simp: ranged_def prepared_def)
  moreover have "i\<lparr>bi_key := bi_key i, bi_value := bi_value i, bi_offset := off (max q lo)\<rparr> = i"
    using 0 by (cases i) (simp add: prepared_def max_def)
  ultimately show ?case
    using 0(2) [of "bi_value i" "bi_key i"] 0 by (simp add: max_def)
next
  case (Suc d)
  have q: "q < lo" "q < length es" and i: "bi_offset i = off q" "bi_block i = b" "bi_offsetRealStart i = off lo"
    using Suc.hyps(2) Suc.prems by (auto simp: ranged_def prepared_def)
  let ?i = "i\<lparr>bi_key := fst (es ! q), bi_value := Some (snd (es ! q)), bi_offset := off (Suc q)\<rparr>"
  have step: "skip_to_start i = skip_to_start ?i"
    using i q off_lt [of q lo] off_less [of q] entry [OF q(2)] join_step [OF Suc.prems(3) q(2)] Suc.prems(2)
    by (subst skip_to_start.simps) (auto simp: ranged_def)
  obtain k v where "skip_to_start ?i = Some (?i\<lparr>bi_key := k, bi_value := v, bi_offset := off (max (Suc q) lo)\<rparr>, True)"
    "prepared (max (Suc q) lo) (?i\<lparr>bi_key := k, bi_value := v, bi_offset := off (max (Suc q) lo)\<rparr>)"
    by (rule Suc.hyps(1) [of "Suc q" ?i]) (use Suc.hyps(2) Suc.prems(2) q prepared_after [of ?i q] in \<open>auto intro: ranged_fields\<close>)
  moreover have "max (Suc q) lo = max q lo"
    using q by simp
  ultimately show ?case
    using Suc.prems(1) [of v k] step by simp
qed

lemma stands_at:
  "ranged lo hi r0 r1 i \<Longrightarrow> lo \<le> j \<Longrightarrow> j < hi \<Longrightarrow> forward r0 r1 j i \<or> backward lo r0 r1 j i \<Longrightarrow> stands lo hi r0 r1 (int (j - lo)) i"
proof -
  assume "lo \<le> j" "j < hi" "ranged lo hi r0 r1 i" "forward r0 r1 j i \<or> backward lo r0 r1 j i"
  moreover from this have "lo + nat (int (j - lo)) = j"
    by simp
  ultimately show ?thesis
    unfolding stands_def by (simp only:) simp
qed

lemma next_entry_step:
  assumes "ranged lo hi r0 r1 i" and "prepared q i"
  shows "q < hi \<Longrightarrow> next_entry i = Some (i\<lparr>bi_key := fst (es ! q), bi_value := Some (snd (es ! q)), bi_prevOffset := off q, bi_offset := off (Suc q),
      bi_dir := BForward\<rparr>, True)"
    and "q = hi \<Longrightarrow> next_entry i = Some (i\<lparr>bi_dir := BEOI\<rparr>, False)"
proof -
  have i: "bi_offset i = off q" "bi_block i = b" "bi_offsetLimit i = off hi" "hi \<le> length es"
    using assms by (auto simp: ranged_def prepared_def)
  show "next_entry i = Some (i\<lparr>bi_key := fst (es ! q), bi_value := Some (snd (es ! q)), bi_prevOffset := off q, bi_offset := off (Suc q), bi_dir := BForward\<rparr>, True)"
    if "q < hi"
    using that i off_lt [of q hi] off_less [of q] entry [of q] join_step [OF assms(2)] by (simp add: next_entry_def)
  show "next_entry i = Some (i\<lparr>bi_dir := BEOI\<rparr>, False)" if "q = hi"
    using that i by (simp add: next_entry_def)
qed

lemma advance:
  assumes r: "ranged lo hi r0 r1 i" and p: "prepared q i" and "idle_cache i" and j: "j = max q lo" "j \<le> hi"
    and ri: "bi_restartIndex i = int r" "j < hi \<Longrightarrow> r0 \<le> r \<and> r < r1 \<and> rs r \<le> j"
  obtains i' where "(case skip_to_start i of None \<Rightarrow> None | Some (i, False) \<Rightarrow> Some (i, False) | Some (i, True) \<Rightarrow> next_entry i) = Some (i', j < hi)"
    "stands lo hi r0 r1 (int (j - lo)) i'" "j < hi \<Longrightarrow> forward r0 r1 j i'"
proof -
  have q: "q \<le> length es"
    using p by (simp add: prepared_def)
  obtain k v where s: "skip_to_start i = Some (i\<lparr>bi_key := k, bi_value := v, bi_offset := off j\<rparr>, True)"
    "prepared j (i\<lparr>bi_key := k, bi_value := v, bi_offset := off j\<rparr>)"
    unfolding j(1) by (rule skip_step [OF r p q])
  let ?i = "i\<lparr>bi_key := k, bi_value := v, bi_offset := off j\<rparr>"
  have r': "ranged lo hi r0 r1 ?i"
    by (rule ranged_fields [OF r]) simp_all
  show ?thesis
  proof (cases "j < hi")
    case True
    let ?i' = "?i\<lparr>bi_key := fst (es ! j), bi_value := Some (snd (es ! j)), bi_prevOffset := off j, bi_offset := off (Suc j), bi_dir := BForward\<rparr>"
    have f: "forward r0 r1 j ?i'"
      using True ri assms(3) by (auto simp: forward_def idle_cache_def)
    have "ranged lo hi r0 r1 ?i'"
      by (rule ranged_fields [OF r']) simp_all
    then have "stands lo hi r0 r1 (int (j - lo)) ?i'"
      using f True j(1) by (intro stands_at) auto
    then show ?thesis
      using that [of ?i'] s next_entry_step(1) [OF r' s(2) True] f True by simp
  next
    case False
    then have jh: "j = hi"
      using j(2) by simp
    have "ranged lo hi r0 r1 (?i\<lparr>bi_dir := BEOI\<rparr>)"
      by (rule ranged_fields [OF r']) simp_all
    then have "stands lo hi r0 r1 (int (j - lo)) (?i\<lparr>bi_dir := BEOI\<rparr>)"
      using assms(3) jh by (simp add: stands_def idle_cache_def)
    then show ?thesis
      using that [of "?i\<lparr>bi_dir := BEOI\<rparr>"] s next_entry_step(2) [OF r' s(2) jh] False by simp
  qed
qed

lemma standsE:
  assumes "stands lo hi r0 r1 p i"
  obtains "p = -1" "bi_dir i = BSOI" "idle_cache i"
  | "p = int (hi - lo)" "bi_dir i = BEOI" "idle_cache i"
  | j where "p = int (j - lo)" "lo \<le> j" "j < hi" "forward r0 r1 j i"
  | j where "p = int (j - lo)" "lo \<le> j" "j < hi" "backward lo r0 r1 j i"
  using assms that(1,2) that(3) [of "lo + nat p"] that(4) [of "lo + nat p"] by (auto simp: stands_def split: if_splits)

lemma start_prepared:
  assumes "ranged lo hi r0 r1 i" and "bi_offset i = bi_offsetStart i"
  obtains q where "prepared q i" "max q lo = lo"
proof (cases "r0 < R")
  case True
  then show ?thesis
    using that [of "rs r0"] assms restarts(4) [of r0] restart(2) [of r0] by (auto simp: ranged_def prepared_def)
next
  case False
  then show ?thesis
    using that [of "length es"] assms by (auto simp: ranged_def prepared_def)
qed

lemma Next_read:
  assumes st: "stands lo hi r0 r1 p i" and d: "bi_dir i \<in> {BSOI, BForward, BBackward}"
    and i1: "i1 = (if bi_dir i = BSOI then i\<lparr>bi_restartIndex := bi_riStart i, bi_offset := bi_offsetStart i\<rparr> else clear_prev i)"
    and p: "prepared q i1" and c: "idle_cache i1" and j: "j = max q lo" "j \<le> hi" "p + 1 = int (j - lo)"
    and rr: "bi_restartIndex i1 = int rr" "j < hi \<Longrightarrow> r0 \<le> rr \<and> rr < r1 \<and> rs rr \<le> j"
  obtains i' where "bi_Next i = Some (i', p + 1 < int (hi - lo))" "stands lo hi r0 r1 (min (p + 1) (int (hi - lo))) i'"
    "p + 1 < int (hi - lo) \<Longrightarrow> forward r0 r1 (lo + nat (p + 1)) i'"
proof -
  have r: "ranged lo hi r0 r1 i" and e: "bi_err i = None"
    using st by (auto simp: stands_def ranged_def)
  have r1: "ranged lo hi r0 r1 i1"
    unfolding i1 by (rule ranged_fields [OF r]) (simp_all add: clear_prev_def)
  obtain i' where "(case skip_to_start i1 of None \<Rightarrow> None | Some (i, False) \<Rightarrow> Some (i, False) | Some (i, True) \<Rightarrow> next_entry i) = Some (i', j < hi)"
    "stands lo hi r0 r1 (int (j - lo)) i'" "j < hi \<Longrightarrow> forward r0 r1 j i'"
    by (rule advance [OF r1 p c j(1,2) rr]) auto
  moreover have "bi_Next i = (case skip_to_start i1 of None \<Rightarrow> None | Some (i, False) \<Rightarrow> Some (i, False) | Some (i, True) \<Rightarrow> next_entry i)"
    using d e unfolding i1 by (auto simp: bi_Next_def Let_def)
  moreover have "min (p + 1) (int (hi - lo)) = int (j - lo)" "p + 1 < int (hi - lo) \<longleftrightarrow> j < hi" "lo + nat (p + 1) = j"
    using j by auto
  ultimately show ?thesis
    using that [of i'] by simp
qed

lemma Next_step:
  assumes st: "stands lo hi r0 r1 p i"
  obtains i' where "bi_Next i = Some (i', p + 1 < int (hi - lo))" "stands lo hi r0 r1 (min (p + 1) (int (hi - lo))) i'"
    "p + 1 < int (hi - lo) \<Longrightarrow> forward r0 r1 (lo + nat (p + 1)) i'"
proof -
  have r: "ranged lo hi r0 r1 i" and le: "lo \<le> hi" "hi \<le> length es"
    using st by (auto simp: stands_def ranged_def)
  show ?thesis
  proof (rule standsE [OF st])
    assume 1: "p = -1" "bi_dir i = BSOI" "idle_cache i"
    let ?i = "i\<lparr>bi_restartIndex := bi_riStart i, bi_offset := bi_offsetStart i\<rparr>"
    have "ranged lo hi r0 r1 ?i"
      by (rule ranged_fields [OF r]) simp_all
    then obtain q where q: "prepared q ?i" "max q lo = lo"
      by (rule start_prepared) simp
    show ?thesis
      by (rule Next_read [OF st, of ?i q lo r0]) (use that q 1 r le in \<open>auto simp: ranged_def idle_cache_def\<close>)
  next
    assume "p = int (hi - lo)" "bi_dir i = BEOI" "idle_cache i"
    then show ?thesis
      using that [of i] st by (simp add: bi_Next_def)
  next
    fix j assume 1: "p = int (j - lo)" "lo \<le> j" "j < hi" "forward r0 r1 j i"
    then obtain rr where rr: "bi_restartIndex i = int rr" "r0 \<le> rr" "rr < r1" "rs rr \<le> j"
      by (auto simp: forward_def)
    have q: "prepared (Suc j) i"
      using 1 le by (intro prepared_after) (auto simp: forward_def)
    show ?thesis
      by (rule Next_read [OF st, of i "Suc j" "Suc j" rr]) (use that q 1 rr in \<open>auto simp: forward_def clear_prev_def idle_cache_def\<close>)
  next
    fix j assume 1: "p = int (j - lo)" "lo \<le> j" "j < hi" "backward lo r0 r1 j i"
    then obtain rr where rr: "bi_restartIndex i = int rr" "r0 \<le> rr" "rr < r1" "rs rr \<le> j"
      by (auto simp: backward_def)
    have q: "prepared (Suc j) (clear_prev i)"
      using 1 le by (intro prepared_after) (auto simp: backward_def clear_prev_def)
    show ?thesis
      by (rule Next_read [OF st, of "clear_prev i" "Suc j" "Suc j" rr]) (use that q 1 rr in \<open>auto simp: backward_def clear_prev_def idle_cache_def\<close>)
  qed
qed

section \<open>Prev\<close>

lemma cache_Suc:
  "m \<le> j \<Longrightarrow> cache_keys m (Suc j) = cache_keys m j @ fst (es ! j)"
  "m \<le> j \<Longrightarrow> cache_nodes m (Suc j) = cache_nodes m j @
     [int (length (cache_keys m j)), off (Suc j) - int (length (snd (es ! j))), int (length (snd (es ! j)))]"
  "cache_keys m m = []" "cache_nodes m m = []"
  by (simp_all add: cache_keys_def cache_nodes_def)

lemma length_cache_nodes: "m \<le> j \<Longrightarrow> length (cache_nodes m j) = 3 * (j - m)"
proof (induction j)
  case (Suc j)
  then show ?case
    by (cases "m = Suc j") (simp_all add: cache_Suc)
qed (simp add: cache_Suc)

text \<open>Before the entry \<open>t\<close> is read, the cache holds what comes before the last entry of the range that was read.\<close>

definition building :: "nat \<Rightarrow> nat \<Rightarrow> nat \<Rightarrow> blockIter \<Rightarrow> bool" where
  "building m s t i \<longleftrightarrow> bi_key i = (if t = s then [] else fst (es ! (t - 1))) \<and>
     (if t \<le> m then bi_value i = None \<and> bi_prevNode i = [off s] \<and> bi_prevKeys i = []
      else bi_value i = Some (snd (es ! (t - 1))) \<and> bi_prevNode i = off s # cache_nodes m (t - 1) \<and> bi_prevKeys i = cache_keys m (t - 1))"

lemma join_next:
  assumes "t < length es" and "r < R" and "rs r \<le> t"
  shows "join_key (if t = rs r then [] else fst (es ! (t - 1))) (int (sh t)) (suf t) = Some (fst (es ! t))"
  using assms joined [of t] prefixed [of t] restart(2) [of r] by (cases "t = rs r"; cases "sh t = 0") (auto simp: join_key_def slice_Some)

definition cached :: "nat \<Rightarrow> nat \<Rightarrow> nat \<Rightarrow> blockIter \<Rightarrow> blockIter" where
  "cached m s t i =
     i\<lparr>bi_key := fst (es ! t), bi_value := (if m \<le> t then Some (snd (es ! t)) else None), bi_prevNode := off s # (if m \<le> t then cache_nodes m t else []),
       bi_prevKeys := (if m \<le> t then cache_keys m t else [])\<rparr>"

lemma building_cached: "s \<le> t \<Longrightarrow> building m s (Suc t) (cached m s t i)"
  by (simp add: building_def cached_def)

lemma cached_fields [simp]:
  "bi_block (cached m s t i) = bi_block i" "bi_offset (cached m s t i) = bi_offset i" "bi_offsetRealStart (cached m s t i) = bi_offsetRealStart i"
  "bi_key (cached m s t i) = fst (es ! t)" "cached m s t (cached m s t' i) = cached m s t i" "(cached m s t i)\<lparr>bi_key := fst (es ! t)\<rparr> = cached m s t i"
  by (cases i; simp add: cached_def)+

lemma cache_fill:
  assumes "building m s t i" and "m \<le> t" and "s \<le> m"
  shows "push_node (off t) (Some (snd (es ! t))) i = (cached m s t i)\<lparr>bi_key := bi_key i\<rparr>"
proof (cases "t = m")
  case True
  then show ?thesis
    using assms by (cases i) (simp add: building_def cached_def cache_Suc push_node_def)
next
  case False
  then obtain u where "t = Suc u" "m \<le> u"
    using assms by (cases t) auto
  then show ?thesis
    using assms by (cases i) (auto simp: building_def cached_def cache_Suc push_node_def)
qed

lemma build_once:
  assumes "ranged lo hi r0 r1 i" and "r < R" and "rs r \<le> t" and "t < hi" and "m = max lo (rs r)" and "building m (rs r) t i"
  shows "build_cache (int r) (off t) i =
    (let i = cached m (rs r) t i
     in if bi_offset i \<le> off (Suc t)
        then if off (Suc t) \<noteq> bi_offset i then Some (bi_sErr (BlockCorrupted ''entries offset not aligned'') i, False)
          else Some (i\<lparr>bi_restartIndex := int r, bi_offset := off (Suc t)\<rparr>, True)
        else build_cache (int r) (off (Suc t)) i)"
proof -
  have t: "t < length es" and i: "bi_block i = b" "bi_offsetRealStart i = off lo" and lo: "off lo \<le> off t \<longleftrightarrow> m \<le> t"
    using assms off_le [of lo t] by (auto simp: ranged_def)
  have key: "join_key (bi_key i) (int (sh t)) (suf t) = Some (fst (es ! t))"
    using assms t join_next [of t r] by (simp add: building_def)
  show ?thesis
  proof (cases "m \<le> t")
    case True
    have fill: "push_node (off t) (Some (snd (es ! t))) i = (cached m (rs r) t i)\<lparr>bi_key := bi_key i\<rparr>"
      using cache_fill [OF assms(6) True] assms(5) by simp
    show ?thesis
      by (subst build_cache.simps) (simp add: i entry [OF t] lo True fill key Let_def)
  next
    case False
    then have "i\<lparr>bi_key := fst (es ! t)\<rparr> = cached m (rs r) t i"
      using assms(6) by (cases i) (simp add: building_def cached_def)
    then show ?thesis
      by (subst build_cache.simps) (simp add: i entry [OF t] lo False key Let_def)
  qed
qed

lemma build_step:
  assumes "ranged lo hi r0 r1 i" and "r < R" and "rs r \<le> t" and "t \<le> j" and "lo \<le> j" and "j < hi" and "bi_offset i = off (Suc j)"
    and m: "m = max lo (rs r)" and "building m (rs r) t i"
  shows "build_cache (int r) (off t) i = Some ((cached m (rs r) j i)\<lparr>bi_restartIndex := int r, bi_offset := off (Suc j)\<rparr>, True)"
  using assms(1,3-7,9)
proof (induction "j - t" arbitrary: t i)
  case 0
  then have "t = j"
    by simp
  then show ?case
    using build_once [OF 0(2) assms(2) 0(3) _ m 0(8)] 0 by (simp add: Let_def)
next
  case (Suc d)
  then have t: "t < hi" "t < j" "hi \<le> length es"
    by (auto simp: ranged_def)
  let ?i = "cached m (rs r) t i"
  have "build_cache (int r) (off t) i = build_cache (int r) (off (Suc t)) ?i"
    using build_once [OF Suc.prems(1) assms(2) Suc.prems(2) t(1) m Suc.prems(7)] Suc.prems(6) off_lt [of "Suc t" "Suc j"] t Suc.prems(5) by (simp add: Let_def)
  also have "\<dots> = Some ((cached m (rs r) j ?i)\<lparr>bi_restartIndex := int r, bi_offset := off (Suc j)\<rparr>, True)"
  proof (rule Suc.hyps(1))
    show "ranged lo hi r0 r1 ?i"
      by (rule ranged_fields [OF Suc.prems(1)]) (simp_all add: cached_def)
  qed (use Suc t building_cached [of "rs r" t m i] in auto)
  finally show ?case
    by simp
qed

text \<open>\<^verbatim>\<open>Prev\<close> builds the cache for the entry before \<open>j\<close>, from a restart point at or before \<open>j\<close>.\<close>

lemma prev_range_step:
  assumes r: "ranged lo hi r0 r1 i" and j: "lo < j" "j \<le> hi" "bi_offset i = off j"
    and ri: "r0 \<le> r" "r < r1" "rs r \<le> j" and idle: "bi_prevNode i = []" "bi_prevKeys i = []" and d: "bi_dir i = BBackward"
  obtains i' where "prev_range (int r) i = Some (i', True)" "ranged lo hi r0 r1 i'" "backward lo r0 r1 (j - 1) i'"
proof -
  have n: "hi \<le> length es" "r1 \<le> R" and b: "bi_block i = b"
    using r by (auto simp: ranged_def)
  define s where "s = (if rs r = j then r - 1 else r)"
  have r0: "r0 < R" "rs r0 \<le> lo"
    using r ri n by (auto simp: ranged_def split: if_splits)
  have before: "r0 < r" if "rs r = j"
    using that r0 ri j by (cases "r0 = r") auto
  have "rs (r - 1) < rs r" if "r0 < r"
    using restarts(5) [of "r - 1" r] that ri n by simp
  then have s: "r0 \<le> s" "s < r1" "s < R" "rs s \<le> j - 1"
    using before ri n j by (auto simp: s_def)
  let ?i = "i\<lparr>bi_key := [], bi_value := None, bi_prevNode := [off (rs s)]\<rparr>"
  let ?m = "max lo (rs s)"
  have "prev_range (int r) i = build_cache (int s) (off (rs s)) ?i"
    using b restart_offset(1) [of r] restart_offset(1) [of s] ri s n j idle off_eq [of "rs r" j] before
    by (auto simp: prev_range_def s_def of_nat_diff)
  also have "\<dots> = Some ((cached ?m (rs s) (j - 1) ?i)\<lparr>bi_restartIndex := int s, bi_offset := off (Suc (j - 1))\<rparr>, True)"
  proof (rule build_step)
    show "ranged lo hi r0 r1 ?i"
      by (rule ranged_fields [OF r]) simp_all
  qed (use s j idle in \<open>auto simp: building_def\<close>)
  finally have "prev_range (int r) i = \<dots>" .
  then show ?thesis
  proof (rule that)
    let ?i' = "(cached ?m (rs s) (j - 1) ?i)\<lparr>bi_restartIndex := int s, bi_offset := off (Suc (j - 1))\<rparr>"
    show "ranged lo hi r0 r1 ?i'"
      by (rule ranged_fields [OF r]) (simp_all add: cached_def)
    show "backward lo r0 r1 (j - 1) ?i'"
      using s j d by (auto simp: backward_def cached_def)
  qed
qed

lemma prev_cached_step:
  assumes r: "ranged lo hi r0 r1 i" and b: "backward lo r0 r1 (Suc u) i" and u: "Suc u < hi" "lo \<le> u" and c: "length (bi_prevNode i) \<noteq> 1"
  obtains i' where "prev_cached i = Some (i', True)" "ranged lo hi r0 r1 i'" "backward lo r0 r1 u i'"
proof -
  obtain s where s: "bi_restartIndex i = int s" "r0 \<le> s" "s < r1" "rs s \<le> Suc u"
    and cache: "bi_prevNode i = off (rs s) # cache_nodes (max lo (rs s)) (Suc u)" "bi_prevKeys i = cache_keys (max lo (rs s)) (Suc u)"
    using b by (auto simp: backward_def)
  define m where "m = max lo (rs s)"
  have m: "m \<le> u"
    using c cache s(4) u length_cache_nodes [of m "Suc u"] by (cases "m = Suc u") (auto simp: m_def max_def cache_Suc split: if_splits)
  define N where "N = off (rs s) # cache_nodes m u"
  have node: "bi_prevNode i = N @ [int (length (cache_keys m u)), off (Suc u) - int (length (snd (es ! u))), int (length (snd (es ! u)))]"
    "bi_prevKeys i = cache_keys m u @ fst (es ! u)"
    using cache cache_Suc(1,2) [OF m] by (simp_all add: m_def N_def)
  have v: "slice (bl_data b) (off (Suc u) - int (length (snd (es ! u)))) (off (Suc u)) = Some (snd (es ! u))" and blk: "bi_block i = b"
    using entry_value [OF entry [of u]] u r by (auto simp: ranged_def)
  let ?i = "i\<lparr>bi_prevNode := N, bi_key := fst (es ! u), bi_prevKeys := cache_keys m u, bi_value := Some (snd (es ! u)),
    bi_offset := off (Suc u)\<rparr>"
  have n: "int (length (bi_prevNode i)) - 3 = int (length N)"
    by (simp add: node)
  have "prev_cached i = Some (?i, True)"
    unfolding prev_cached_def n by (simp add: node v blk slice_from_def slice_Some Let_def)
  moreover have "ranged lo hi r0 r1 ?i"
    by (rule ranged_fields [OF r]) simp_all
  moreover have "backward lo r0 r1 u ?i"
    using b s m by (auto simp: backward_def m_def N_def intro!: exI [of _ s])
  ultimately show ?thesis
    by (rule that)
qed

lemma restartIndex_step:
  assumes "r < r1" "r1 \<le> R" "rs r \<le> j" "j \<le> length es"
  obtains s where "restartIndex b (int r) (int r1) (off j) = Some (int s)" "r \<le> s" "s < r1" "rs s \<le> j" "\<And>t. s < t \<Longrightarrow> t < r1 \<Longrightarrow> j < rs t"
proof -
  define n g f where "n = r1 - r" and "g = (\<lambda>k. j < rs (r + k))"
    and "f = (\<lambda>k. map_option (\<lambda>v. off j < v) (restartOffset b (int r + int k)))"
  have f: "f k = Some (g k)" if "k < n" for k
  proof -
    have "r + k < R"
      using that assms by (simp add: n_def)
    then show ?thesis
      using restart_offset(1) [of "r + k"] restarts(4) [of "r + k"] off_lt [of j "rs (r + k)"] assms(4) by (simp add: f_def g_def)
  qed
  have mono: "g a \<Longrightarrow> g c" if "a \<le> c" "c < n" for a c
    using that rs_mono [of "r + a" "r + c"] assms(2) unfolding g_def n_def by linarith
  obtain k where k: "search_opt (int n) f = Some (int k)" "k \<le> n" "\<And>j. j < k \<Longrightarrow> \<not> g j" "k < n \<Longrightarrow> g k"
    using search_last [of n g f] mono f by blast
  have "0 < k"
    using k(4) assms by (cases k) (auto simp: g_def n_def)
  moreover have "restartIndex b (int r) (int r1) (off j) = Some (int k + int r - 1)"
    using k(1) assms by (simp add: restartIndex_def f_def n_def of_nat_diff)
  moreover have "j < rs t" if "r + k - 1 < t" "t < r1" for t
    using that k(4) mono [of k "t - r"] \<open>0 < k\<close> by (auto simp: g_def n_def)
  ultimately show ?thesis
    using that [of "r + k - 1"] k(2) k(3) [of "k - 1"] assms by (auto simp: g_def n_def)
qed

lemma ranged_start: "ranged lo hi r0 r1 i \<Longrightarrow> r0 < r1 \<Longrightarrow> r0 < r \<Longrightarrow> r < r1 \<Longrightarrow> lo < rs r"
  by (auto simp: ranged_def split: if_splits)

lemma stands_start: "ranged lo hi r0 r1 i \<Longrightarrow> idle_cache i \<Longrightarrow> stands lo hi r0 r1 (-1) (i\<lparr>bi_dir := BSOI\<rparr>)"
  by (auto simp: stands_def idle_cache_def intro: ranged_fields)

lemma ranged_at:
  assumes "ranged lo hi r0 r1 i"
  shows "bi_err i = None" "bi_block i = b" "bi_cmp i = cmp" "lo \<le> hi" "hi \<le> length es" "bi_offsetRealStart i = off lo" "bi_offsetLimit i = off hi"
    "bi_riStart i = int r0" "bi_riLimit i = int r1" "r1 \<le> R" "lo < hi \<Longrightarrow> r0 < r1" "r0 < r1 \<Longrightarrow> rs (r1 - 1) \<le> hi"
  using assms by (auto simp: ranged_def)

lemma Prev_back:
  assumes "bi_Prev i = prev_range (int s) i1" and r: "ranged lo hi r0 r1 i1" and j: "lo < j" "j \<le> hi" "bi_offset i1 = off j"
    and ri: "r0 \<le> s" "s < r1" "rs s \<le> j" and idle: "idle_cache i1" and d: "bi_dir i1 = BBackward" and p: "p = int j - int lo"
  obtains i' where "bi_Prev i = Some (i', 0 \<le> p - 1)" "stands lo hi r0 r1 (max (p - 1) (-1)) i'"
proof -
  obtain i' where i': "prev_range (int s) i1 = Some (i', True)" "ranged lo hi r0 r1 i'" "backward lo r0 r1 (j - 1) i'"
    by (rule prev_range_step [OF r j ri]) (use idle d in \<open>auto simp: idle_cache_def\<close>)
  moreover have "stands lo hi r0 r1 (int (j - 1 - lo)) i'"
    using i' j by (intro stands_at) auto
  moreover have "int (j - 1 - lo) = max (p - 1) (-1)" "0 \<le> p - 1"
    using j p by auto
  ultimately show ?thesis
    using that [of i'] assms(1) by (simp only:)
qed

lemma Prev_stop:
  assumes "bi_Prev i = Some (i1\<lparr>bi_dir := BSOI\<rparr>, False)" and "ranged lo hi r0 r1 i1" and "idle_cache i1" and "p \<le> 0"
  shows "bi_Prev i = Some (i1\<lparr>bi_dir := BSOI\<rparr>, 0 \<le> p - 1)" "stands lo hi r0 r1 (max (p - 1) (-1)) (i1\<lparr>bi_dir := BSOI\<rparr>)"
  using assms stands_start [of lo hi r0 r1 i1] by (simp_all add: max_def)

lemma Prev_end:
  assumes r: "ranged lo hi r0 r1 i" and d: "bi_dir i = BEOI" and c: "idle_cache i" and p: "p = int hi - int lo"
  obtains i' where "bi_Prev i = Some (i', 0 \<le> p - 1)" "stands lo hi r0 r1 (max (p - 1) (-1)) i'"
proof -
  note at = ranged_at [OF r]
  let ?i = "i\<lparr>bi_restartIndex := bi_riLimit i, bi_offset := bi_offsetLimit i\<rparr>"
  have r': "ranged lo hi r0 r1 ?i" "ranged lo hi r0 r1 (?i\<lparr>bi_dir := BBackward\<rparr>)"
    by (rule ranged_fields [OF r]; simp)+
  show ?thesis
  proof (cases "lo = hi")
    case True
    then have eq: "bi_Prev i = Some (?i\<lparr>bi_dir := BSOI\<rparr>, False)"
      using d at by (simp add: bi_Prev_def)
    show ?thesis
      by (rule that [OF Prev_stop [OF eq r'(1)]]) (use c p True in \<open>auto simp: idle_cache_def\<close>)
  next
    case False
    then have eq: "bi_Prev i = prev_range (int (r1 - 1)) (?i\<lparr>bi_dir := BBackward\<rparr>)"
      using d at off_eq [of hi lo] by (auto simp: bi_Prev_def of_nat_diff)
    show ?thesis
      by (rule Prev_back [OF eq r'(2), of hi]) (use that c p at False in \<open>auto simp: idle_cache_def\<close>)
  qed
qed

lemma Prev_turn:
  assumes r: "ranged lo hi r0 r1 i" and j: "lo \<le> j" "j < hi" and f: "forward r0 r1 j i" and p: "p = int j - int lo"
  obtains i' where "bi_Prev i = Some (i', 0 \<le> p - 1)" "stands lo hi r0 r1 (max (p - 1) (-1)) i'"
proof -
  note at = ranged_at [OF r]
  obtain rr where rr: "bi_restartIndex i = int rr" "r0 \<le> rr" "rr < r1" "rs rr \<le> j" and d: "bi_prevOffset i = off j" "bi_dir i = BForward" "idle_cache i"
    using f by (auto simp: forward_def idle_cache_def)
  obtain s where s: "restartIndex b (int rr) (int r1) (off j) = Some (int s)" "rr \<le> s" "s < r1" "rs s \<le> j"
    by (rule restartIndex_step [of rr r1 j]) (use rr at j in auto)
  let ?i = "i\<lparr>bi_offset := bi_prevOffset i\<rparr>"
  have r': "ranged lo hi r0 r1 ?i" "ranged lo hi r0 r1 (?i\<lparr>bi_dir := BBackward\<rparr>)"
    by (rule ranged_fields [OF r]; simp)+
  show ?thesis
  proof (cases "lo = j")
    case True
    then have eq: "bi_Prev i = Some (?i\<lparr>bi_dir := BSOI\<rparr>, False)"
      using d at by (simp add: bi_Prev_def)
    show ?thesis
      by (rule that [OF Prev_stop [OF eq r'(1)]]) (use d p True in \<open>auto simp: idle_cache_def\<close>)
  next
    case False
    then have eq: "bi_Prev i = prev_range (int s) (?i\<lparr>bi_dir := BBackward\<rparr>)"
      using d at rr s j off_eq [of j lo] by (auto simp: bi_Prev_def)
    show ?thesis
      by (rule Prev_back [OF eq r'(2), of j]) (use that d p s rr j False in \<open>auto simp: idle_cache_def\<close>)
  qed
qed

lemma Prev_before:
  assumes r: "ranged lo hi r0 r1 i" and j: "lo \<le> j" "j < hi" and bw: "backward lo r0 r1 j i" and p: "p = int j - int lo"
    and one: "length (bi_prevNode i) = 1"
  obtains i' where "bi_Prev i = Some (i', 0 \<le> p - 1)" "stands lo hi r0 r1 (max (p - 1) (-1)) i'"
proof -
  note at = ranged_at [OF r]
  obtain s where s: "bi_restartIndex i = int s" "r0 \<le> s" "s < r1" "rs s \<le> j" and d: "bi_dir i = BBackward"
    and cache: "bi_prevNode i = off (rs s) # cache_nodes (max lo (rs s)) j" "bi_prevKeys i = cache_keys (max lo (rs s)) j"
    using bw by (auto simp: backward_def)
  have js: "j = max lo (rs s)"
    using cache one j s length_cache_nodes [of "max lo (rs s)" j] by simp
  then have keys: "bi_prevKeys i = []" and head: "bi_prevNode i ! 0 = off (rs s)"
    using cache by (simp_all add: cache_Suc)
  let ?i = "i\<lparr>bi_offset := off (rs s), bi_prevNode := []\<rparr>"
  have r': "ranged lo hi r0 r1 ?i" "ranged lo hi r0 r1 (?i\<lparr>bi_restartIndex := int (s - 1)\<rparr>)"
    by (rule ranged_fields [OF r]; simp)+
  show ?thesis
  proof (cases "s = r0")
    case True
    then have "j = lo" and eq: "bi_Prev i = Some (?i\<lparr>bi_dir := BSOI\<rparr>, False)"
      using js r s d at one head by (auto simp: bi_Prev_def ranged_def split: if_splits)
    then show ?thesis
      by (intro that [OF Prev_stop [OF eq r'(1)]]) (use keys p in \<open>auto simp: idle_cache_def\<close>)
  next
    case False
    then have js': "j = rs s" "lo < j" "rs (s - 1) < j"
      using js ranged_start [OF r, of s] s at restarts(5) [of "s - 1" s] by auto
    have eq: "bi_Prev i = prev_range (int (s - 1)) (?i\<lparr>bi_restartIndex := int (s - 1)\<rparr>)"
      using False d s at one head by (auto simp: bi_Prev_def of_nat_diff)
    show ?thesis
      by (rule Prev_back [OF eq r'(2), of j]) (use that d p s j js' False keys in \<open>auto simp: idle_cache_def\<close>)
  qed
qed

lemma Prev_cache:
  assumes r: "ranged lo hi r0 r1 i" and j: "lo \<le> j" "j < hi" and bw: "backward lo r0 r1 j i" and p: "p = int j - int lo"
    and more: "length (bi_prevNode i) \<noteq> 1"
  obtains i' where "bi_Prev i = Some (i', 0 \<le> p - 1)" "stands lo hi r0 r1 (max (p - 1) (-1)) i'"
proof -
  have "lo \<noteq> j"
    using bw more length_cache_nodes [of j j] by (auto simp: backward_def)
  then obtain u where u: "j = Suc u" "lo \<le> u"
    using j by (cases j) auto
  obtain i' where i': "prev_cached i = Some (i', True)" "ranged lo hi r0 r1 i'" "backward lo r0 r1 u i'"
    by (rule prev_cached_step [OF r, of u]) (use bw j u more in auto)
  have "stands lo hi r0 r1 (int (u - lo)) i'"
    using i' j u by (intro stands_at) auto
  moreover have "int (u - lo) = max (p - 1) (-1)" "0 \<le> p - 1"
    using p u by auto
  moreover have "bi_Prev i = prev_cached i"
    using bw more ranged_at(1) [OF r] by (simp add: bi_Prev_def backward_def)
  ultimately show ?thesis
    using that [of i'] i' by (simp only:)
qed

lemma Prev_step:
  assumes st: "stands lo hi r0 r1 p i"
  obtains i' where "bi_Prev i = Some (i', 0 \<le> p - 1)" "stands lo hi r0 r1 (max (p - 1) (-1)) i'"
proof -
  have r: "ranged lo hi r0 r1 i"
    using st by (simp add: stands_def)
  note result = that
  show ?thesis
  proof (rule standsE [OF st])
    assume "p = -1" "bi_dir i = BSOI" "idle_cache i"
    then show ?thesis
      using result [of i] st by (simp add: bi_Prev_def)
  next
    assume "p = int (hi - lo)" "bi_dir i = BEOI" "idle_cache i"
    then show ?thesis
      using ranged_at(4) [OF r] by (intro Prev_end [OF r _ _ _ result]) auto
  next
    fix j assume "p = int (j - lo)" "lo \<le> j" "j < hi" "forward r0 r1 j i"
    then show ?thesis
      by (intro Prev_turn [OF r _ _ _ _ result]) auto
  next
    fix j assume "p = int (j - lo)" "lo \<le> j" "j < hi" "backward lo r0 r1 j i"
    then show ?thesis
      by (cases "length (bi_prevNode i) = 1") (auto intro: Prev_before [OF r _ _ _ _ _ result] Prev_cache [OF r _ _ _ _ _ result])
  qed
qed

section \<open>Seek\<close>

definition content :: "nat \<Rightarrow> nat \<Rightarrow> (bytes \<times> bytes) list" where
  "content lo hi = take (hi - lo) (drop lo es)"

lemma content_nth: "t < hi - lo \<Longrightarrow> hi \<le> length es \<Longrightarrow> content lo hi ! t = es ! (lo + t)"
  by (simp add: content_def)

lemma length_content [simp]: "hi \<le> length es \<Longrightarrow> length (content lo hi) = hi - lo"
  by (simp add: content_def)

lemma below_iff:
  assumes "hi \<le> length es" and "t < hi - lo"
  shows "t < below_count cmp key (content lo hi) \<longleftrightarrow> cmp (fst (es ! (lo + t))) key < 0"
proof
  let ?P = "\<lambda>e. cmp (fst e) key < 0"
  assume "t < below_count cmp key (content lo hi)"
  then have "?P (content lo hi ! t)"
    using nth_mem [of t "takeWhile ?P (content lo hi)"] takeWhile_nth [of t ?P "content lo hi"] set_takeWhileD
    by (fastforce simp: below_count_def)
  then show "?P (es ! (lo + t))"
    using assms by (simp add: content_nth)
next
  let ?P = "\<lambda>e. cmp (fst e) key < 0"
  assume t: "?P (es ! (lo + t))"
  have "?P (content lo hi ! u)" if "u \<le> t" for u
    using that assms t cmp_trans [OF sorted_keys [of "lo + u" "lo + t"], of key] by (cases "u = t") (auto simp: content_nth)
  then show "t < below_count cmp key (content lo hi)"
    using nth_length_takeWhile [of ?P "content lo hi"] assms unfolding below_count_def
    by (metis (no_types, lifting) length_content linorder_not_le order_le_less_trans)
qed

lemma seek_scan:
  assumes "hi \<le> length es" and "bi_Next i = Some (i', t < hi - lo)" and "stands lo hi r0 r1 (int t) i'" and "t < hi - lo \<Longrightarrow> forward r0 r1 (lo + t) i'"
    and "t \<le> below_count cmp key (content lo hi)" and "t \<le> hi - lo"
  obtains i'' where "seek_next key i = Some (i'', below_count cmp key (content lo hi) < hi - lo)"
    "stands lo hi r0 r1 (int (below_count cmp key (content lo hi))) i''"
    "below_count cmp key (content lo hi) < hi - lo \<Longrightarrow> forward r0 r1 (lo + below_count cmp key (content lo hi)) i''"
  using assms
proof (induction "hi - lo - t" arbitrary: t i i' thesis rule: less_induct)
  case less
  let ?c = "below_count cmp key (content lo hi)"
  have c: "?c \<le> hi - lo"
    using below_count_le [of cmp key "content lo hi"] less.prems(2) by simp
  have k: "bi_cmp i' = cmp" "t < hi - lo \<Longrightarrow> bi_key i' = fst (es ! (lo + t))"
    using less.prems(4,5) by (auto simp: stands_def ranged_def forward_def)
  show ?case
  proof (cases "t = ?c")
    case True
    have "seek_next key i = Some (i', t < hi - lo)"
      using less.prems(3) k below_iff [of hi t lo key] less.prems(2) True by (subst seek_next.simps) auto
    then show ?thesis
      using less.prems(1) [of i'] less.prems(4,5) True by simp
  next
    case False
    then have t: "t < hi - lo" "t < ?c" "Suc t \<le> ?c"
      using less.prems(6) c by auto
    obtain j where "bi_Next i' = Some (j, int t + 1 < int (hi - lo))" "stands lo hi r0 r1 (min (int t + 1) (int (hi - lo))) j"
      "int t + 1 < int (hi - lo) \<Longrightarrow> forward r0 r1 (lo + nat (int t + 1)) j"
      by (rule Next_step [OF less.prems(4)]) blast
    moreover have "min (int t + 1) (int (hi - lo)) = int (Suc t)" "int t + 1 < int (hi - lo) \<longleftrightarrow> Suc t < hi - lo" "nat (int t + 1) = Suc t"
      using t by auto
    ultimately have j: "bi_Next i' = Some (j, Suc t < hi - lo)" "stands lo hi r0 r1 (int (Suc t)) j" "Suc t < hi - lo \<Longrightarrow> forward r0 r1 (lo + Suc t) j"
      by (simp_all add: add.commute)
    obtain i'' where "seek_next key i' = Some (i'', ?c < hi - lo)" "stands lo hi r0 r1 (int ?c) i''" "?c < hi - lo \<Longrightarrow> forward r0 r1 (lo + ?c) i''"
      by (rule less.hyps [OF _ _ less.prems(2) j(1,2)]) (use t j(3) in auto)
    moreover have "seek_next key i = seek_next key i'"
      using less.prems(3) k t below_iff [of hi t lo key] less.prems(2) by (subst seek_next.simps) auto
    ultimately show ?thesis
      using less.prems(1) [of i''] by simp
  qed
qed

lemma block_seek_last:
  assumes "r0 < r1" and "r1 \<le> R"
  obtains ri where "block_seek cmp b (int r0) (int r1) key = Some (int ri, off (rs ri))" "r0 \<le> ri" "ri < r1" "r0 < ri \<Longrightarrow> cmp (fst (es ! rs ri)) key \<le> 0"
proof -
  define n g f where "n = r1 - r0" and "g = (\<lambda>k. 0 < cmp (fst (es ! rs (r0 + k))) key)"
    and "f = (\<lambda>k. map_option (\<lambda>k. 0 < cmp k key) (restart_key b (int r0 + int k)))"
  have f: "f k = Some (g k)" if "k < n" for k
    using that assms restart(1) [of "r0 + k"] by (simp add: f_def g_def n_def)
  have mono: "g a \<Longrightarrow> g c" if "a \<le> c" "c < n" for a c
  proof (cases "a = c")
    case False
    then have "rs (r0 + a) < rs (r0 + c)" "rs (r0 + c) < length es"
      using that assms restarts(4) [of "r0 + c"] restarts(5) [of "r0 + a" "r0 + c"] by (auto simp: n_def)
    then show "g a \<Longrightarrow> g c"
      using cmp_trans [OF sorted_keys [of "rs (r0 + a)" "rs (r0 + c)"], of key] unfolding g_def by linarith
  qed auto
  obtain k where k: "search_opt (int n) f = Some (int k)" "k \<le> n" "\<And>j. j < k \<Longrightarrow> \<not> g j"
    by (rule search_last [of n g f, OF mono f]) auto
  define ri where "ri = (if k = 0 then r0 else r0 + k - 1)"
  have ri: "r0 \<le> ri" "ri < r1" "r0 < ri \<Longrightarrow> cmp (fst (es ! rs ri)) key \<le> 0"
    using k(2) k(3) [of "k - 1"] assms(1) by (auto simp: ri_def n_def g_def)
  have "block_seek cmp b (int r0) (int r1) key = Some (int ri, off (rs ri))"
    using k(1) restart_offset(1) [of ri] ri(2) assms by (auto simp: block_seek_def f_def n_def ri_def of_nat_diff Let_def add.commute)
  then show ?thesis
    using that ri by blast
qed

text \<open>Where the scan of \<^verbatim>\<open>Seek\<close> begins: at an entry of which all before it, in the range, are below the key.\<close>

lemma block_seek_step:
  assumes r: "ranged lo hi r0 r1 i"
  obtains ri o' q where "block_seek cmp b (int r0) (int r1) key = Some (int ri, o')" "max (bi_offsetStart i) o' = off q" "q \<le> length es"
    "q < length es \<Longrightarrow> sh q = 0" "max q lo \<le> hi" "max q lo - lo \<le> below_count cmp key (content lo hi)"
    "max q lo < hi \<Longrightarrow> r0 \<le> ri \<and> ri < r1 \<and> rs ri \<le> max q lo"
proof (cases "r0 < r1")
  case True
  note at = ranged_at [OF r]
  obtain ri where ri: "block_seek cmp b (int r0) (int r1) key = Some (int ri, off (rs ri))" "r0 \<le> ri" "ri < r1"
    "r0 < ri \<Longrightarrow> cmp (fst (es ! rs ri)) key \<le> 0"
    using block_seek_last [OF True at(10)] by blast
  have R: "ri < R" "r0 < R" "rs r0 \<le> lo" "bi_offsetStart i = off (rs r0)" and q: "rs ri < length es" "rs r0 \<le> rs ri"
    using r ri True restarts(4) [of ri] rs_mono [of r0 ri] by (auto simp: ranged_def split: if_splits)
  have "rs ri \<le> rs (r1 - 1)"
    using ri at(10) by (intro rs_mono) auto
  then have hi: "rs ri \<le> hi"
    using at(12) True by simp
  have "rs ri - lo \<le> below_count cmp key (content lo hi)"
  proof (cases "lo < rs ri")
    case True
    then have "r0 < ri"
      using R ri by (cases "r0 = ri") auto
    then have "cmp (fst (es ! (lo + (rs ri - 1 - lo)))) key < 0"
      using True cmp_trans [OF sorted_keys [of "rs ri - 1" "rs ri"] ri(4)] q by simp
    moreover have "rs ri - 1 - lo < hi - lo"
      using True hi by linarith
    ultimately have "rs ri - 1 - lo < below_count cmp key (content lo hi)"
      using below_iff [of hi "rs ri - 1 - lo" lo key] at(5) by simp
    then show ?thesis
      using True by linarith
  qed simp
  then show ?thesis
    using that [of ri "off (rs ri)" "rs ri"] ri R q hi at restart(2) [of ri] off_mono [of "rs r0" "rs ri"] by (auto simp: max_def)
next
  case False
  note at = ranged_at [OF r]
  have n: "search_opt (int r1 - int r0) f = Some 0" for f
    using False by (simp add: search_opt_def bisect_opt.simps)
  have lh: "lo = hi"
    using False at(4,11) by linarith
  show ?thesis
  proof (cases "r0 < R")
    case True
    then show ?thesis
      using that [of r0 "off (rs r0)" "rs r0"] n restart_offset(1) [of r0] restart(2) [of r0] restarts(4) [of r0] r lh
      by (auto simp: block_seek_def ranged_def Let_def)
  next
    case False
    then have "r0 = R" "lo = length es" "bi_offsetStart i = off (length es)"
      using r by (auto simp: ranged_def)
    then show ?thesis
      using that [of R "int R" "length es"] n restart_offset(2) restarts_below lh by (auto simp: block_seek_def Let_def)
  qed
qed

definition live :: "blockIter \<Rightarrow> bool" where
  "live i \<longleftrightarrow> bi_dir i \<noteq> BReleased \<and> (bi_dir i \<noteq> BBackward \<longrightarrow> idle_cache i)"

lemma stands_live: "stands lo hi r0 r1 p i \<Longrightarrow> ranged lo hi r0 r1 i \<and> live i"
  by (auto simp: live_def stands_def forward_def backward_def idle_cache_def split: if_splits)

lemma Seek_step:
  assumes r: "ranged lo hi r0 r1 i" and live: "live i"
  obtains i' where "bi_Seek key i = Some (i', below_count cmp key (content lo hi) < hi - lo)"
    "stands lo hi r0 r1 (int (below_count cmp key (content lo hi))) i'"
    "below_count cmp key (content lo hi) < hi - lo \<Longrightarrow> forward r0 r1 (lo + below_count cmp key (content lo hi)) i'"
proof -
  note at = ranged_at [OF r]
  have d: "bi_dir i \<noteq> BReleased" "bi_dir i \<noteq> BBackward \<Longrightarrow> idle_cache i"
    using live by (auto simp: live_def)
  obtain ri o' q where q: "block_seek cmp b (int r0) (int r1) key = Some (int ri, o')" "max (bi_offsetStart i) o' = off q" "q \<le> length es"
    "q < length es \<Longrightarrow> sh q = 0" "max q lo \<le> hi" "max q lo - lo \<le> below_count cmp key (content lo hi)"
    "max q lo < hi \<Longrightarrow> r0 \<le> ri \<and> ri < r1 \<and> rs ri \<le> max q lo"
    using block_seek_step [OF r] by blast
  define i1 where "i1 = i\<lparr>bi_restartIndex := int ri, bi_offset := off q, bi_dir := (if bi_dir i = BSOI \<or> bi_dir i = BEOI then BForward else bi_dir i)\<rparr>"
  have r1: "ranged lo hi r0 r1 (clear_prev i1)" and p1: "prepared q (clear_prev i1)" and c1: "idle_cache (clear_prev i1)"
    using q d by (auto simp: i1_def clear_prev_def prepared_def idle_cache_def intro: ranged_fields [OF r])
  have ri1: "bi_restartIndex (clear_prev i1) = int ri"
    by (simp add: i1_def clear_prev_def)
  obtain i' where i': "(case skip_to_start (clear_prev i1) of None \<Rightarrow> None | Some (i, False) \<Rightarrow> Some (i, False) | Some (i, True) \<Rightarrow> next_entry i) = Some (i', max q lo < hi)"
    "stands lo hi r0 r1 (int (max q lo - lo)) i'" "max q lo < hi \<Longrightarrow> forward r0 r1 (max q lo) i'"
    by (rule advance [OF r1 p1 c1 refl q(5) ri1 q(7)]) blast+
  have "bi_Seek key i = seek_next key i1"
    using q(1,2) at d by (simp add: bi_Seek_def refused_def i1_def)
  moreover have "bi_Next i1 = Some (i', max q lo - lo < hi - lo)"
    using i'(1) d at(1) q(5) by (auto simp: bi_Next_def i1_def less_diff_iff)
  moreover have "forward r0 r1 (lo + (max q lo - lo)) i'" if "max q lo - lo < hi - lo"
    using i'(3) that by (metis less_diff_iff linorder_not_less max.cobounded2 le_add_diff_inverse diff_is_0_eq less_nat_zero_code less_imp_le)
  moreover have "max q lo - lo \<le> hi - lo"
    using q(5) by (rule diff_le_mono)
  ultimately show ?thesis
    using seek_scan [OF at(5) _ i'(2), of i1 key thesis] q(6) that by simp
qed

section \<open>First and Last\<close>

lemma First_step:
  assumes r: "ranged lo hi r0 r1 i" and live: "live i"
  obtains i' where "bi_First i = Some (i', lo < hi)" "stands lo hi r0 r1 0 i'"
proof -
  have "stands lo hi r0 r1 (-1) ((clear_prev i)\<lparr>bi_dir := BSOI\<rparr>)"
    using live by (intro stands_start) (auto simp: live_def clear_prev_def idle_cache_def intro: ranged_fields [OF r])
  then obtain i' where "bi_Next ((clear_prev i)\<lparr>bi_dir := BSOI\<rparr>) = Some (i', -1 + 1 < int (hi - lo))" "stands lo hi r0 r1 (min (-1 + 1) (int (hi - lo))) i'"
    by (rule Next_step)
  then show ?thesis
    using that [of i'] live ranged_at(1,4) [OF r] by (auto simp: bi_First_def refused_def live_def)
qed

lemma Last_step:
  assumes r: "ranged lo hi r0 r1 i" and live: "live i"
  obtains i' where "bi_Last i = Some (i', lo < hi)" "stands lo hi r0 r1 (int (hi - lo) - 1) i'"
proof -
  have "stands lo hi r0 r1 (int (hi - lo)) ((clear_prev i)\<lparr>bi_dir := BEOI\<rparr>)"
    using live by (auto simp: stands_def live_def clear_prev_def idle_cache_def intro: ranged_fields [OF r])
  then obtain i' where "bi_Prev ((clear_prev i)\<lparr>bi_dir := BEOI\<rparr>) = Some (i', 0 \<le> int (hi - lo) - 1)"
    "stands lo hi r0 r1 (max (int (hi - lo) - 1) (-1)) i'"
    by (rule Prev_step)
  moreover have "max (int (hi - lo) - 1) (-1) = int (hi - lo) - 1" "0 \<le> int (hi - lo) - 1 \<longleftrightarrow> lo < hi"
    by auto
  ultimately show ?thesis
    using that [of i'] live ranged_at(1) [OF r] by (simp add: bi_Last_def refused_def live_def)
qed

lemma stands_shows:
  assumes "stands lo hi r0 r1 p i"
  shows "bi_Valid i \<longleftrightarrow> 0 \<le> p \<and> p < int (hi - lo)"
    "bi_Key i = (if 0 \<le> p \<and> p < int (hi - lo) then Some (fst (content lo hi ! nat p)) else None)"
    "bi_Value i = (if 0 \<le> p \<and> p < int (hi - lo) then Some (snd (content lo hi ! nat p)) else None)"
proof -
  have at: "bi_err i = None" "hi \<le> length es"
    using assms by (auto simp: stands_def ranged_def)
  have "(bi_Valid i \<longleftrightarrow> 0 \<le> p \<and> p < int (hi - lo)) \<and>
    bi_Key i = (if 0 \<le> p \<and> p < int (hi - lo) then Some (fst (content lo hi ! nat p)) else None) \<and>
    bi_Value i = (if 0 \<le> p \<and> p < int (hi - lo) then Some (snd (content lo hi ! nat p)) else None)"
  proof (cases "0 \<le> p \<and> p < int (hi - lo)")
    case True
    then have "bi_dir i \<in> {BForward, BBackward}" "bi_key i = fst (content lo hi ! nat p)" "bi_value i = Some (snd (content lo hi ! nat p))"
      using assms at content_nth [of "nat p" hi lo] by (auto simp: stands_def forward_def backward_def)
    then show ?thesis
      using at True by (auto simp: bi_Valid_def bi_Key_def bi_Value_def)
  next
    case False
    then have "bi_dir i \<in> {BSOI, BEOI}"
      using assms by (auto simp: stands_def split: if_splits)
    then show ?thesis
      using False by (auto simp: bi_Valid_def bi_Key_def bi_Value_def)
  qed
  then show "bi_Valid i \<longleftrightarrow> 0 \<le> p \<and> p < int (hi - lo)"
    "bi_Key i = (if 0 \<le> p \<and> p < int (hi - lo) then Some (fst (content lo hi ! nat p)) else None)"
    "bi_Value i = (if 0 \<le> p \<and> p < int (hi - lo) then Some (snd (content lo hi ! nat p)) else None)"
    by blast+
qed

section \<open>Ranges\<close>

lemma whole_ranged: "stands 0 (length es) 0 R (-1) (whole_block cmp b)"
  using restarts(2,3) restarts(4) [of "R - 1"] restarts(5) [of 0] off_first off_end restarts(1)
  by (auto simp: stands_def ranged_def whole_block_def idle_cache_def)

lemma range_start_step:
  obtains i r0 where "range_start start (whole_block cmp b) = Some i" "live i"
    "ranged (below_count cmp start es) (length es) r0 R i"
proof -
  let ?c = "below_count cmp start es"
  have es: "content 0 (length es) = es"
    by (simp add: content_def)
  obtain i where i: "bi_Seek start (whole_block cmp b) = Some (i, ?c < length es)" "stands 0 (length es) 0 R (int ?c) i"
    "?c < length es \<Longrightarrow> forward 0 R ?c i"
    using Seek_step [of 0 "length es" 0 R "whole_block cmp b" start] stands_live [OF whole_ranged] unfolding es by auto
  have r: "ranged 0 (length es) 0 R i" "live i"
    using stands_live [OF i(2)] by auto
  note at = ranged_at [OF r(1)]
  show ?thesis
  proof (cases "?c < length es")
    case True
    then obtain ri where ri: "bi_restartIndex i = int ri" "ri < R" "rs ri \<le> ?c" and f: "bi_prevOffset i = off ?c"
      using i(3) by (auto simp: forward_def)
    obtain s where s: "restartIndex b (int ri) (int R) (off ?c) = Some (int s)" "ri \<le> s" "s < R" "rs s \<le> ?c" "\<And>t. s < t \<Longrightarrow> t < R \<Longrightarrow> ?c < rs t"
      using restartIndex_step [of ri R ?c] ri True by auto
    let ?i = "i\<lparr>bi_riStart := int s, bi_offsetStart := off (rs s), bi_offsetRealStart := off ?c\<rparr>"
    have "range_start start (whole_block cmp b) = Some ?i"
      using i(1) True at ri f s(1) restarts(1) restart_offset(1) [OF s(3)] by (simp add: range_start_def)
    moreover have "ranged ?c (length es) s R ?i"
      using r(1) s True restarts(4) [of "R - 1"] by (auto simp: ranged_def)
    moreover have "live ?i"
      using r(2) by (simp add: live_def idle_cache_def)
    ultimately show ?thesis
      using that by blast
  next
    case False
    then have c: "?c = length es"
      using below_count_le [of cmp start es] by simp
    let ?i = "i\<lparr>bi_riStart := int R, bi_offsetStart := off (length es), bi_offsetRealStart := off (length es)\<rparr>"
    have "range_start start (whole_block cmp b) = Some ?i"
      using i(1) False at restarts(1) off_end by (simp add: range_start_def)
    moreover have "ranged ?c (length es) R R ?i"
      using r(1) c by (auto simp: ranged_def)
    moreover have "live ?i"
      using r(2) by (simp add: live_def idle_cache_def)
    ultimately show ?thesis
      using that by blast
  qed
qed

lemma take_cut: "take (min (length xs) (k + m) - k) (drop k xs) = take m (drop k xs)"
  by (cases "length xs \<le> k + m") (auto simp: min_def)

text \<open>The end of the range: the first entry that is not below the limit, or the one behind it.\<close>

definition limit_at :: "bytes \<Rightarrow> bool \<Rightarrow> nat \<Rightarrow> nat" where
  "limit_at limit inclLimit lo = min (length es) (lo + below_count cmp limit (drop lo es) + (if inclLimit then 1 else 0))"

lemma range_limit_set:
  assumes r: "ranged lo (length es) r0 R i" and f: "forward r0 R hi i" and hi: "lo \<le> hi" "hi < length es"
  obtains r1 i' where "i\<lparr>bi_offsetLimit := bi_prevOffset i, bi_riLimit := bi_restartIndex i + 1\<rparr> = i'" "live i'" "ranged lo hi r0 r1 i'"
proof -
  obtain s where s: "bi_restartIndex i = int s" "r0 \<le> s" "s < R" "rs s \<le> hi" and d: "bi_prevOffset i = off hi" "live i"
    using f by (auto simp: forward_def live_def idle_cache_def)
  let ?i = "i\<lparr>bi_offsetLimit := bi_prevOffset i, bi_riLimit := bi_restartIndex i + 1\<rparr>"
  have "ranged lo hi r0 (Suc s) ?i"
    using r s d hi by (auto simp: ranged_def)
  moreover have "live ?i"
    using d by (simp add: live_def idle_cache_def)
  ultimately show ?thesis
    using that by blast
qed

lemma range_limit_step:
  assumes r: "ranged lo (length es) r0 R i" and live: "live i"
  obtains i' r1 where "range_limit limit inclLimit i = Some i'" "live i'" "ranged lo (limit_at limit inclLimit lo) r0 r1 i'"
proof -
  define c where "c = below_count cmp limit (drop lo es)"
  have le: "lo \<le> length es" and es: "content lo (length es) = drop lo es"
    using ranged_at(4) [OF r] by (auto simp: content_def)
  have c: "c \<le> length es - lo"
    using below_count_le [of cmp limit "drop lo es"] by (simp add: c_def)
  obtain i1 where i1: "bi_Seek limit i = Some (i1, c < length es - lo)" "stands lo (length es) r0 R (int c) i1"
    "c < length es - lo \<Longrightarrow> forward r0 R (lo + c) i1"
    using Seek_step [OF r live, of limit] unfolding es c_def by auto
  obtain i2 where i2: "bi_Next i1 = Some (i2, int c + 1 < int (length es - lo))" "stands lo (length es) r0 R (min (int c + 1) (int (length es - lo))) i2"
    "int c + 1 < int (length es - lo) \<Longrightarrow> forward r0 R (lo + nat (int c + 1)) i2"
    by (rule Next_step [OF i1(2)]) blast
  have r1: "ranged lo (length es) r0 R i1" "live i1" and r2: "ranged lo (length es) r0 R i2" "live i2"
    using stands_live [OF i1(2)] stands_live [OF i2(2)] by auto
  define found where "found \<longleftrightarrow> limit_at limit inclLimit lo < length es"
  define i3 where "i3 = (if c < length es - lo \<and> inclLimit then i2 else i1)"
  have eq: "range_limit limit inclLimit i = Some (if found then i3\<lparr>bi_offsetLimit := bi_prevOffset i3, bi_riLimit := bi_restartIndex i3 + 1\<rparr> else i3)"
    using i1(1) i2(1) c le unfolding range_limit_def i3_def found_def limit_at_def c_def [symmetric] by auto
  have r3: "ranged lo (length es) r0 R i3" "live i3"
    using r1 r2 by (auto simp: i3_def)
  show ?thesis
  proof (cases found)
    case True
    have f: "forward r0 R (limit_at limit inclLimit lo) i3" "lo \<le> limit_at limit inclLimit lo"
      using True i1(3) i2(3) c le unfolding found_def i3_def limit_at_def c_def [symmetric] by (auto simp: nat_add_distrib)
    obtain r1 i' where "i3\<lparr>bi_offsetLimit := bi_prevOffset i3, bi_riLimit := bi_restartIndex i3 + 1\<rparr> = i'" "live i'"
      "ranged lo (limit_at limit inclLimit lo) r0 r1 i'"
      by (rule range_limit_set [OF r3(1) f]) (use True in \<open>auto simp: found_def\<close>)
    then show ?thesis
      using that [of i' r1] True eq by simp
  next
    case False
    then show ?thesis
      using eq r3 that [of i3 R] by (simp add: found_def limit_at_def)
  qed
qed

lemma reset_stands:
  assumes r: "ranged lo hi r0 r1 i" and live: "live i"
  shows "stands lo hi r0 r1 (-1) (bi_reset i)" "\<not> bi_offsetLimit (bi_reset i) < bi_offsetStart (bi_reset i)"
proof -
  show "stands lo hi r0 r1 (-1) (bi_reset i)"
    using live by (auto simp: stands_def bi_reset_def clear_prev_def idle_cache_def live_def intro: ranged_fields [OF r])
  show "\<not> bi_offsetLimit (bi_reset i) < bi_offsetStart (bi_reset i)"
    using ranged_at(4,5,7) [OF r] r restarts(4) [of r0] off_mono [of "rs r0" hi]
    by (auto simp: bi_reset_def clear_prev_def ranged_def not_less split: if_splits)
qed

lemma newBlockIter_step:
  obtains i lo hi r0 r1 where "newBlockIter cmp b rng inclLimit = Some i" "stands lo hi r0 r1 (-1) i" "content lo hi = entries_between cmp rng inclLimit es"
proof (cases rng)
  case None
  then show ?thesis
    using that [of "whole_block cmp b", OF _ whole_ranged] by (simp add: newBlockIter_def entries_between_def content_def)
next
  case (Some rr)
  obtain start limit where rng: "rng = Some (start, limit)"
    using Some by (cases rr) auto
  define lo where "lo = (case start of None \<Rightarrow> 0 | Some s \<Rightarrow> below_count cmp s es)"
  obtain i1 r0 where i1: "(case start of None \<Rightarrow> Some (whole_block cmp b) | Some s \<Rightarrow> range_start s (whole_block cmp b)) = Some i1" "live i1" "ranged lo (length es) r0 R i1"
  proof (cases start)
    case None
    then show thesis
      using that [of "whole_block cmp b" 0] stands_live [OF whole_ranged] by (simp add: lo_def)
  next
    case (Some s)
    then show thesis
      using range_start_step [of s thesis] that by (simp add: lo_def)
  qed
  define hi where "hi = (case limit of None \<Rightarrow> length es | Some l \<Rightarrow> limit_at l inclLimit lo)"
  obtain i2 r1 where i2: "(case limit of None \<Rightarrow> Some i1 | Some l \<Rightarrow> range_limit l inclLimit i1) = Some i2" "live i2" "ranged lo hi r0 r1 i2"
  proof (cases limit)
    case None
    then show thesis
      using that [of i1 R] i1 by (simp add: hi_def)
  next
    case (Some l)
    then show thesis
      using range_limit_step [OF i1(3,2), of l inclLimit thesis] that by (simp add: hi_def)
  qed
  have "newBlockIter cmp b rng inclLimit = Some (bi_reset i2)"
    using i1(1) i2(1) reset_stands(2) [OF i2(3,2)] by (simp add: newBlockIter_def rng)
  moreover have d: "(case start of None \<Rightarrow> es | Some s \<Rightarrow> dropWhile (\<lambda>e. cmp (fst e) s < 0) es) = drop lo es"
    by (cases start) (auto simp: lo_def below_count_def dropWhile_eq_drop)
  have "content lo hi = entries_between cmp rng inclLimit es"
    by (cases limit) (simp_all add: rng entries_between_def d content_def hi_def limit_at_def below_count_def take_cut add.assoc Let_def)
  ultimately show ?thesis
    using that reset_stands(1) [OF i2(3,2)] by blast
qed

lemma call_step:
  assumes st: "stands lo hi r0 r1 p i"
  obtains i' p' ok where "block_call c i = Some (i', ok)" "stands lo hi r0 r1 p' i'" "cursor_call cmp (content lo hi) c p = (p', ok)"
proof -
  have r: "ranged lo hi r0 r1 i" and live: "live i" and n: "length (content lo hi) = hi - lo"
    using stands_live [OF st] ranged_at(5) [of lo hi r0 r1 i] by auto
  show ?thesis
  proof (cases c)
    case CallFirst
    show ?thesis
      by (rule First_step [OF r live], rule that [of _ "lo < hi" 0]) (auto simp: block_call_def cursor_call_def n CallFirst)
  next
    case CallLast
    show ?thesis
      by (rule Last_step [OF r live], rule that [of _ "lo < hi" "int (hi - lo) - 1"]) (auto simp: block_call_def cursor_call_def n CallLast)
  next
    case (CallSeek key)
    let ?c = "below_count cmp key (content lo hi)"
    show ?thesis
      by (rule Seek_step [OF r live, of key], rule that [of _ "?c < hi - lo" "int ?c"]) (auto simp: block_call_def cursor_call_def n CallSeek)
  next
    case CallNext
    show ?thesis
      by (rule Next_step [OF st], rule that [of _ "p + 1 < int (hi - lo)" "min (p + 1) (int (hi - lo))"])
        (auto simp: block_call_def cursor_call_def n CallNext Let_def)
  next
    case CallPrev
    show ?thesis
      by (rule Prev_step [OF st], rule that [of _ "0 \<le> p - 1" "max (p - 1) (-1)"]) (auto simp: block_call_def cursor_call_def CallPrev)
  qed
qed

lemma run_step: "stands lo hi r0 r1 p i \<Longrightarrow> block_run cs i = Some (cursor_run cmp (content lo hi) cs p)"
proof (induction cs arbitrary: p i)
  case (Cons c cs)
  obtain i' p' ok where "block_call c i = Some (i', ok)" "stands lo hi r0 r1 p' i'" "cursor_call cmp (content lo hi) c p = (p', ok)"
    by (rule call_step [OF Cons.prems])
  moreover have "bi_err i' = None" "length (content lo hi) = hi - lo"
    using stands_live [OF calculation(2)] ranged_at(1,5) [of lo hi r0 r1 i'] by auto
  ultimately show ?case
    using Cons.IH [of p' i'] stands_shows [of lo hi r0 r1 p' i'] by (simp add: Let_def)
qed simp

end

end
