(* ===== verification/Ldb_Block_Format.thy ===== *)
theory Ldb_Block_Format
  imports Ldb_Block_Iter
begin

text \<open>
  Which blocks are well-formed, as a predicate on the bytes that the methods of \<^verbatim>\<open>goleveldb/leveldb/table/reader.go\<close> decide, and that on such a block every
  sequence of calls of the iterator shows what the same calls show on a cursor over the entries of the block in the range.
\<close>

section \<open>Well-formed blocks\<close>

text \<open>What the comparison of keys must have.\<close>

definition comparison :: "(bytes \<Rightarrow> bytes \<Rightarrow> int) \<Rightarrow> bool" where
  "comparison cmp \<longleftrightarrow>
     (\<forall>k k' l. (cmp k k' < 0 \<longrightarrow> cmp k' l \<le> 0 \<longrightarrow> cmp k l < 0) \<and> (cmp k k' \<le> 0 \<longrightarrow> cmp k' l < 0 \<longrightarrow> cmp k l < 0))"

lemma comparison_bytewise: "comparison Compare"
  using bytewise.less_le_trans bytewise.le_less_trans unfolding comparison_def by blast

text \<open>The entries of a block, read from its beginning: offset, length of the shared prefix, rest of the key, key and value.\<close>

record scanned =
  s_off :: int
  s_shared :: int
  s_suf :: bytes
  s_key :: bytes
  s_value :: bytes

primrec scan :: "nat \<Rightarrow> block \<Rightarrow> int \<Rightarrow> bytes \<Rightarrow> scanned list option" where
  "scan 0 b offset key = None"
| "scan (Suc n) b offset key =
     (if offset = bl_restartsOffset b then Some []
      else case block_entry b offset of
             Some (Inr (suf, Some v, sh, len)) \<Rightarrow>
               if 0 < len \<and> 0 \<le> sh \<and> sh \<le> int (length key)
               then let k = take (nat sh) key @ suf
                 in map_option (\<lambda>l. \<lparr>s_off = offset, s_shared = sh, s_suf = suf, s_key = k, s_value = v\<rparr> # l) (scan n b (offset + len) k)
               else None
           | _ \<Rightarrow> None)"

definition block_scan :: "block \<Rightarrow> scanned list option" where
  "block_scan b = scan (length (bl_data b) + 1) b 0 []"

text \<open>The entries at which the restart points are.\<close>

definition restart_at :: "block \<Rightarrow> scanned list \<Rightarrow> nat \<Rightarrow> nat" where
  "restart_at b l r = (case restartOffset b (int r) of None \<Rightarrow> length l | Some o' \<Rightarrow> length (takeWhile (\<lambda>e. s_off e < o') l))"

definition restart_ok :: "block \<Rightarrow> scanned list \<Rightarrow> nat \<Rightarrow> bool" where
  "restart_ok b l r \<longleftrightarrow>
     (let j = restart_at b l r
      in j < length l \<and> restartOffset b (int r) = Some (s_off (l ! j)) \<and> s_shared (l ! j) = 0 \<and> restart_key b (int r) = Some (s_key (l ! j)))"

text \<open>
  A block is well-formed if its entries fill it up to the restart points, with ascending keys, and the restart points are among them, the first entry being one; behind them
  stands their number.
\<close>

definition block_ok :: "(bytes \<Rightarrow> bytes \<Rightarrow> int) \<Rightarrow> block \<Rightarrow> bool" where
  "block_ok cmp b \<longleftrightarrow>
     (case block_scan b of
        None \<Rightarrow> False
      | Some l \<Rightarrow>
          let rs = map (restart_at b l) [0..<nat (bl_restartsLen b)]
          in l \<noteq> [] \<and> sorted_wrt (\<lambda>e e'. cmp (s_key e) (s_key e') < 0) l \<and> 0 < bl_restartsLen b \<and>
             list_all (restart_ok b l) [0..<nat (bl_restartsLen b)] \<and> hd rs = 0 \<and> sorted_wrt (<) rs \<and>
             restartOffset b (bl_restartsLen b) = Some (bl_restartsLen b))"

definition block_entries :: "block \<Rightarrow> (bytes \<times> bytes) list" where
  "block_entries b = (case block_scan b of None \<Rightarrow> [] | Some l \<Rightarrow> map (\<lambda>e. (s_key e, s_value e)) l)"

lemma scan_nth:
  "scan n b offset key = Some l \<Longrightarrow> j < length l \<Longrightarrow>
   (let e = l ! j; nxt = (if Suc j < length l then s_off (l ! Suc j) else bl_restartsOffset b); before = (if j = 0 then key else s_key (l ! (j - 1)))
    in block_entry b (s_off e) = Some (Inr (s_suf e, Some (s_value e), s_shared e, nxt - s_off e)) \<and> s_off e < nxt \<and>
       0 \<le> s_shared e \<and> s_shared e \<le> int (length before) \<and> s_key e = take (nat (s_shared e)) before @ s_suf e \<and> (j = 0 \<longrightarrow> s_off e = offset))"
proof (induction n arbitrary: offset key l j)
  case (Suc n)
  then obtain suf v sh len l' where e: "block_entry b offset = Some (Inr (suf, Some v, sh, len))" "0 < len" "0 \<le> sh" "sh \<le> int (length key)"
    and l': "scan n b (offset + len) (take (nat sh) key @ suf) = Some l'"
    and l: "l = \<lparr>s_off = offset, s_shared = sh, s_suf = suf, s_key = take (nat sh) key @ suf, s_value = v\<rparr> # l'"
    by (auto simp: Let_def split: if_splits option.splits sum.splits prod.splits)
  show ?case
  proof (cases j)
    case 0
    have "(if l' \<noteq> [] then s_off (l' ! 0) else bl_restartsOffset b) = offset + len"
    proof (cases "l' = []")
      case True
      then show ?thesis
        using l' by (cases n) (auto simp: Let_def split: if_splits option.splits sum.splits prod.splits)
    next
      case False
      then show ?thesis
        using Suc.IH [OF l', of 0] by (simp add: Let_def)
    qed
    then show ?thesis
      using 0 l e by (cases l') (auto simp: Let_def)
  next
    case (Suc i)
    then show ?thesis
      using Suc.IH [OF l', of i] l Suc.prems(2) by (cases i) (auto simp: Let_def)
  qed
qed simp

text \<open>Where an entry begins; behind the last, where the restart points begin.\<close>

definition scan_off :: "block \<Rightarrow> scanned list \<Rightarrow> nat \<Rightarrow> int" where
  "scan_off b l j = (if j < length l then s_off (l ! j) else bl_restartsOffset b)"

lemma block_ok_layout:
  assumes cmp: "comparison cmp" and ok: "block_ok cmp b" and l: "block_scan b = Some l"
  shows "block_layout cmp b (block_entries b) (scan_off b l) (\<lambda>j. s_suf (l ! j)) (\<lambda>j. nat (s_shared (l ! j))) (restart_at b l) (nat (bl_restartsLen b))"
proof -
  define R where "R = nat (bl_restartsLen b)"
  have es: "block_entries b = map (\<lambda>e. (s_key e, s_value e)) l"
    by (simp add: block_entries_def l)
  have ok': "l \<noteq> []" "sorted_wrt (\<lambda>e e'. cmp (s_key e) (s_key e') < 0) l" "0 < R" "bl_restartsLen b = int R"
    "\<And>r. r < R \<Longrightarrow> restart_ok b l r" "restart_at b l 0 = 0" "sorted_wrt (<) (map (restart_at b l) [0..<R])" "restartOffset b (int R) = Some (int R)"
    using ok by (auto simp: block_ok_def l R_def Let_def list_all_iff hd_map)
  have step: "block_entry b (s_off (l ! j)) = Some (Inr (s_suf (l ! j), Some (s_value (l ! j)), s_shared (l ! j), scan_off b l (Suc j) - s_off (l ! j)))"
    "s_off (l ! j) < scan_off b l (Suc j)" "0 \<le> s_shared (l ! j)" "s_shared (l ! j) \<le> int (length (if j = 0 then [] else s_key (l ! (j - 1))))"
    "s_key (l ! j) = take (nat (s_shared (l ! j))) (if j = 0 then [] else s_key (l ! (j - 1))) @ s_suf (l ! j)" "j = 0 \<longrightarrow> s_off (l ! j) = 0"
    if "j < length l" for j
    using scan_nth [OF l [unfolded block_scan_def] that] by (simp_all add: Let_def scan_off_def)
  show ?thesis
    unfolding R_def [symmetric]
  proof (unfold_locales, goal_cases)
    case (1 k k' k'')
    then show ?case
      using cmp unfolding comparison_def by blast
  next
    case (2 i j)
    then show ?case
      using ok'(2) by (simp add: es sorted_wrt_iff_nth_less)
  next
    case 3
    show ?case
      using ok'(1) by (simp add: es)
  next
    case 4
    show ?case
      using ok'(1) step(6) [of 0] by (simp add: scan_off_def)
  next
    case (5 j)
    then show ?case
      using step(2) [of j] by (simp add: es scan_off_def)
  next
    case 6
    show ?case
      by (simp add: es scan_off_def)
  next
    case (7 j)
    then show ?case
      using step(1,3) [of j] by (simp add: es) (simp add: scan_off_def)
  next
    case (8 j)
    then show ?case
      using step(3,4) [of j] by (cases "j = 0") (auto simp: es)
  next
    case (9 j)
    then show ?case
      using step(5) [of j] by (cases "j = 0") (simp_all add: es)
  next
    case (13 r)
    then show ?case
      using ok'(5) [of r] by (simp add: es restart_ok_def Let_def)
  next
    case (14 r r')
    then show ?case
      using ok'(7) by (simp add: sorted_wrt_iff_nth_less)
  next
    case (15 r)
    then show ?case
      using ok'(5) [of r] by (simp add: restart_ok_def scan_off_def Let_def)
  next
    case (17 r)
    then show ?case
      using ok'(5) [of r] by (simp add: es restart_ok_def Let_def)
  next
    case (18 r)
    then show ?case
      using ok'(5) [of r] by (simp add: restart_ok_def Let_def)
  qed (fact ok')+
qed

section \<open>The iterator of a well-formed block\<close>

lemma block_runs:
  assumes "comparison cmp" and "block_ok cmp b"
  obtains i where "newBlockIter cmp b rng inclLimit = Some i"
    "\<And>calls. block_run calls i = Some (cursor_run cmp (entries_between cmp rng inclLimit (block_entries b)) calls (-1))"
proof -
  obtain l where l: "block_scan b = Some l"
    using assms(2) by (auto simp: block_ok_def split: option.splits)
  note layout = block_ok_layout [OF assms l]
  obtain i lo hi r0 r1 where i: "newBlockIter cmp b rng inclLimit = Some i"
    "block_layout.stands cmp b (block_entries b) (scan_off b l) (restart_at b l) (nat (bl_restartsLen b)) lo hi r0 r1 (-1) i"
    "block_layout.content (block_entries b) lo hi = entries_between cmp rng inclLimit (block_entries b)"
    by (rule block_layout.newBlockIter_step [OF layout])
  then show ?thesis
    using that [of i] block_layout.run_step [OF layout i(2)] by simp
qed

text \<open>
  C4: on a well-formed block, \<^verbatim>\<open>newBlockIter\<close> returns an iterator for any range, and every sequence of its calls ends without panic or error and shows
  what the same calls show on a cursor over the entries of the block in the range: the results, the keys and the values, forwards and backwards.
\<close>

theorem block_iterator_is_cursor:
  assumes "comparison cmp" and "block_ok cmp b"
  shows "\<exists>i. newBlockIter cmp b rng inclLimit = Some i \<and>
    (\<forall>calls. block_run calls i = Some (cursor_run cmp (entries_between cmp rng inclLimit (block_entries b)) calls (-1)))"
  by (rule block_runs [OF assms, of rng inclLimit]) blast

definition sample_block :: block where
  "sample_block = \<lparr>
     bl_data = [0, 2, 1, 97, 98, 49,  2, 1, 2, 99, 50, 50,  0, 1, 0, 98,  1, 1, 1, 122, 51,  0, 0, 0, 0, 12, 0, 0, 0, 2, 0, 0, 0],
     bl_restartsLen = 2, bl_restartsOffset = 21\<rparr>"

lemma sample_block_ok: "block_ok Compare sample_block"
  by code_simp

lemma sample_entries: "block_entries sample_block = [([97, 98], [49]), ([97, 98, 99], [50, 50]), ([98], []), ([98, 122], [51])]"
  by code_simp

text \<open>
  The sample has two restart points.  The range from \<^verbatim>\<open>abc\<close> to \<^verbatim>\<open>bz\<close> leaves out the first and the last entry; going back from the end crosses a restart point.
\<close>

theorem block_iterator_is_cursor_witness:
  "comparison Compare \<and> block_ok Compare sample_block \<and>
   (\<exists>i. newBlockIter Compare sample_block (Some (Some [97, 98, 99], Some [98, 122])) False = Some i \<and>
     block_run [CallLast, CallPrev, CallPrev, CallSeek [97], CallNext, CallNext] i =
       Some [(True, Some [98], Some [], None), (True, Some [97, 98, 99], Some [50, 50], None), (False, None, None, None),
         (True, Some [97, 98, 99], Some [50, 50], None), (True, Some [98], Some [], None), (False, None, None, None)])"
proof -
  have "cursor_run Compare (entries_between Compare (Some (Some [97, 98, 99], Some [98, 122])) False (block_entries sample_block))
      [CallLast, CallPrev, CallPrev, CallSeek [97], CallNext, CallNext] (-1) =
    [(True, Some [98], Some [], None), (True, Some [97, 98, 99], Some [50, 50], None), (False, None, None, None),
      (True, Some [97, 98, 99], Some [50, 50], None), (True, Some [98], Some [], None), (False, None, None, None)]"
    unfolding sample_entries by code_simp
  moreover obtain i where "newBlockIter Compare sample_block (Some (Some [97, 98, 99], Some [98, 122])) False = Some i"
    "block_run calls i = Some (cursor_run Compare (entries_between Compare (Some (Some [97, 98, 99], Some [98, 122])) False (block_entries sample_block)) calls (-1))" for calls
    using block_iterator_is_cursor [of Compare sample_block "Some (Some [97, 98, 99], Some [98, 122])" False] comparison_bytewise sample_block_ok by blast
  ultimately show ?thesis
    using sample_block_ok comparison_bytewise by (simp del: block_run.simps cursor_run.simps)
qed

text \<open>The layout of any well-formed block; the sample stands for the others.\<close>

definition checked_block :: "block \<Rightarrow> block" where
  "checked_block b = (if block_ok Compare b then b else sample_block)"

definition checked_scan :: "block \<Rightarrow> scanned list" where
  "checked_scan b = (case block_scan (checked_block b) of None \<Rightarrow> [] | Some l \<Rightarrow> l)"

interpretation checked: block_layout Compare "checked_block b" "block_entries (checked_block b)" "scan_off (checked_block b) (checked_scan b)"
  "\<lambda>j. s_suf (checked_scan b ! j)" "\<lambda>j. nat (s_shared (checked_scan b ! j))" "restart_at (checked_block b) (checked_scan b)"
  "nat (bl_restartsLen (checked_block b))" for b
proof -
  have ok: "block_ok Compare (checked_block b)"
    using sample_block_ok by (simp add: checked_block_def)
  then obtain l where "block_scan (checked_block b) = Some l"
    by (auto simp: block_ok_def split: option.splits)
  then show "block_layout Compare (checked_block b) (block_entries (checked_block b)) (scan_off (checked_block b) (checked_scan b))
      (\<lambda>j. s_suf (checked_scan b ! j)) (\<lambda>j. nat (s_shared (checked_scan b ! j))) (restart_at (checked_block b) (checked_scan b))
      (nat (bl_restartsLen (checked_block b)))"
    using block_ok_layout [OF comparison_bytewise ok] by (simp add: checked_scan_def)
qed

section \<open>Damaged blocks\<close>

text \<open>
  A length of \<open>2 ^ 63\<close> or more becomes negative when it is converted, passes the check of \<^verbatim>\<open>entry\<close> and makes the slice panic; so does a shared length that does
  not fit 64 bits, before the check.
\<close>

lemma entry_panics:
  "block_entry \<lparr>bl_data = [0, 0x80, 0x80, 0x80, 0x80, 0x80, 0x80, 0x80, 0x80, 0x80, 1, 0, 0, 0, 0, 0, 1, 0, 0, 0], bl_restartsLen = 1, bl_restartsOffset = 12\<rparr> 0 = None"
  "block_entry \<lparr>bl_data = [0x80, 0x80, 0x80, 0x80, 0x80, 0x80, 0x80, 0x80, 0x80, 2, 0, 0, 0, 0, 0, 1, 0, 0, 0], bl_restartsLen = 1, bl_restartsOffset = 11\<rparr> 0 = None"
  by code_simp+

text \<open>An empty block has one restart point.  With a range that has both ends, the iterator over it reports a corruption.\<close>

definition empty_block :: block where
  "empty_block = \<lparr>bl_data = [0, 0, 0, 0, 1, 0, 0, 0], bl_restartsLen = 1, bl_restartsOffset = 0\<rparr>"

lemma empty_restarts: "restartOffset empty_block 0 = Some 0" "restartOffset empty_block 1 = Some 1" "restart_key empty_block 0 = Some []"
  by code_simp+

lemma empty_block_seek: "block_seek cmp empty_block 0 1 key = Some (0, 0)" "block_seek cmp empty_block 1 1 key = Some (1, 1)"
  using empty_restarts by (auto simp: block_seek_def search_opt_def bisect_opt.simps Let_def empty_block_def split: if_splits bool.splits)

lemma past_end:
  assumes "bi_offsetRealStart i \<le> bi_offset i" and "bi_offsetLimit i \<le> bi_offset i" and "bi_dir i = BForward" and "bi_err i = None"
  shows "bi_Next i = Some (if bi_offset i = bi_offsetLimit i then i\<lparr>bi_dir := BEOI\<rparr>
    else bi_sErr (BlockCorrupted ''entries offset not aligned'') (i\<lparr>bi_dir := BEOI\<rparr>), False)"
  using assms skip_to_start.simps [of i] by (auto simp: bi_Next_def clear_prev_def next_entry_def Let_def)

lemma empty_block_corrupted:
  "map_option bi_err (newBlockIter cmp empty_block (Some (Some start, Some limit)) inclLimit) = Some (Some (BlockCorrupted ''entries offset not aligned''))"
proof -
  let ?i = "(whole_block cmp empty_block)\<lparr>bi_dir := BEOI\<rparr>"
  have "range_start start (whole_block cmp empty_block) = Some (?i\<lparr>bi_riStart := 1\<rparr>)"
    by (simp add: range_start_def bi_Seek_def refused_def whole_block_def empty_block_seek [unfolded empty_block_def] empty_block_def seek_next.simps past_end)
  moreover have "\<exists>z. range_limit limit inclLimit (?i\<lparr>bi_riStart := 1\<rparr>) = Some z \<and> bi_err z = Some (BlockCorrupted ''entries offset not aligned'') \<and>
      bi_offsetLimit z = bi_offsetStart z"
    by (simp add: range_limit_def bi_Seek_def refused_def whole_block_def empty_block_seek [unfolded empty_block_def] empty_block_def seek_next.simps past_end bi_sErr_def)
  ultimately show ?thesis
    by (auto simp: newBlockIter_def bi_reset_def clear_prev_def Let_def)
qed

end
