(* ===== verification/Ldb_Reader.thy ===== *)
theory Ldb_Reader
  imports Ldb_Block_Format
begin

text \<open>
  The reader of a table file, \<^verbatim>\<open>goleveldb/leveldb/table/reader.go\<close>: raw blocks with their checksum and compression, the blocks of data, index and
  filter with the block cache, opening a table, and the searches \<^verbatim>\<open>Find\<close>, \<^verbatim>\<open>Get\<close> and \<^verbatim>\<open>OffsetOf\<close>.  The constants of the format, the block handles, the
  checksum, the decompression and the file are the record \<open>table_env\<close>, the cache of blocks with its state the record \<open>block_cache\<close>.  \<open>te_ReadAt\<close> gives the
  buffer of the given length after the call, and the error unless it is \<^verbatim>\<open>io.EOF\<close>.  A panic is \<open>None\<close>.  Buffers, releasers and the lock are left out.
\<close>

section \<open>What the reader uses\<close>

record blockHandle =
  bh_offset :: u64
  bh_length :: u64

record filter_ops =
  fl_name :: bytes
  fl_Contains :: "bytes \<Rightarrow> bytes \<Rightarrow> bool"

datatype table_error =
    TableCorrupted int int string string
  | TableIO bytes
  | TableNotFound
  | TableReleased
  | TableInconsistent
  | TableIter block_error

record table_env =
  te_blockTrailerLen :: u64
  te_footerLen :: nat
  te_magic :: bytes
  te_noCompression :: byte
  te_snappyCompression :: byte
  te_decodeBlockHandle :: "bytes \<Rightarrow> blockHandle \<times> int"
  te_crc :: "bytes \<Rightarrow> int"
  te_snappy :: "bytes \<Rightarrow> string + bytes"
  te_ReadAt :: "nat \<Rightarrow> int \<Rightarrow> bytes \<times> bytes option"

record filterBlock =
  fb_data :: bytes
  fb_oOffset :: int
  fb_baseLg :: nat
  fb_filtersNum :: int

datatype cached = CachedBlock block | CachedFilter filterBlock

text \<open>The cache of one table: what it holds at an offset, and the state after a value was added.\<close>

record 'c block_cache =
  bc_lookup :: "'c \<Rightarrow> u64 \<Rightarrow> cached option"
  bc_add :: "u64 \<Rightarrow> cached \<Rightarrow> 'c \<Rightarrow> 'c"

record reader =
  rd_err :: "table_error option"
  rd_useCache :: bool
  rd_cmp :: "bytes \<Rightarrow> bytes \<Rightarrow> int"
  rd_filter :: "filter_ops option"
  rd_verifyChecksum :: bool
  rd_dataEnd :: int
  rd_metaBH :: blockHandle
  rd_indexBH :: blockHandle
  rd_filterBH :: blockHandle
  rd_indexBlock :: "block option"
  rd_filterBlock :: "filterBlock option"

section \<open>Errors\<close>

definition blockKind :: "reader \<Rightarrow> blockHandle \<Rightarrow> string" where
  "blockKind r bh =
     (if bh_offset bh = bh_offset (rd_metaBH r) then ''meta-block''
      else if bh_offset bh = bh_offset (rd_indexBH r) then ''index-block''
      else if bh_offset bh = bh_offset (rd_filterBH r) \<and> 0 < bh_length (rd_filterBH r) then ''filter-block''
      else ''data-block'')"

definition newErrCorruptedBH :: "reader \<Rightarrow> blockHandle \<Rightarrow> string \<Rightarrow> table_error" where
  "newErrCorruptedBH r bh reason = TableCorrupted (sint (bh_offset bh)) (sint (bh_length bh)) (blockKind r bh) reason"

definition fixErrCorruptedBH :: "reader \<Rightarrow> blockHandle \<Rightarrow> block_error \<Rightarrow> table_error" where
  "fixErrCorruptedBH r bh err = (case err of BlockCorrupted reason \<Rightarrow> newErrCorruptedBH r bh reason | _ \<Rightarrow> TableIter err)"

text \<open>\<^verbatim>\<open>errors.IsCorrupted\<close>: the errors that \<^verbatim>\<open>newErrCorrupted\<close> makes.\<close>

definition IsCorrupted :: "table_error \<Rightarrow> bool" where
  "IsCorrupted err = (case err of TableCorrupted _ _ _ _ \<Rightarrow> True | _ \<Rightarrow> False)"

section \<open>Reading blocks\<close>

definition readRawBlock :: "table_env \<Rightarrow> reader \<Rightarrow> blockHandle \<Rightarrow> bool \<Rightarrow> (table_error + bytes) option" where
  "readRawBlock E r bh verifyChecksum =
     (let size = sint (bh_length bh + te_blockTrailerLen E)
      in if size < 0 then None
         else case te_ReadAt E (nat size) (sint (bh_offset bh)) of
           (data, Some err) \<Rightarrow> Some (Inl (TableIO err))
         | (data, None) \<Rightarrow>
             do { checked \<leftarrow> (if verifyChecksum
                              then do { tail \<leftarrow> slice_from data (uint (bh_length bh + 1));
                                        checksum0 \<leftarrow> Uint32 tail;
                                        body \<leftarrow> slice data 0 (uint (bh_length bh + 1));
                                        Some (checksum0 = te_crc E body) }
                              else Some True);
                  if \<not> checked then Some (Inl (newErrCorruptedBH r bh ''checksum mismatch''))
                  else if length data \<le> unat (bh_length bh) then None
                  else let t = data ! unat (bh_length bh); body = take (unat (bh_length bh)) data
                    in Some (if t = te_noCompression E then Inr body
                             else if t = te_snappyCompression E
                             then (case te_snappy E body of Inl reason \<Rightarrow> Inl (newErrCorruptedBH r bh reason) | Inr dec \<Rightarrow> Inr dec)
                             else Inl (newErrCorruptedBH r bh ''unknown compression type'')) })"

definition parse_block :: "bytes \<Rightarrow> block option" where
  "parse_block data =
     do { tail \<leftarrow> slice_from data (int (length data) - 4);
          restartsLen \<leftarrow> Uint32 tail;
          Some \<lparr>bl_data = data, bl_restartsLen = restartsLen, bl_restartsOffset = int (length data) - (restartsLen + 1) * 4\<rparr> }"

definition readBlock :: "table_env \<Rightarrow> reader \<Rightarrow> blockHandle \<Rightarrow> bool \<Rightarrow> (table_error + block) option" where
  "readBlock E r bh verifyChecksum =
     (case readRawBlock E r bh verifyChecksum of
        None \<Rightarrow> None
      | Some (Inl err) \<Rightarrow> Some (Inl err)
      | Some (Inr data) \<Rightarrow> map_option Inr (parse_block data))"

definition readFilterBlock :: "table_env \<Rightarrow> reader \<Rightarrow> blockHandle \<Rightarrow> (table_error + filterBlock) option" where
  "readFilterBlock E r bh =
     (case readRawBlock E r bh True of
        None \<Rightarrow> None
      | Some (Inl err) \<Rightarrow> Some (Inl err)
      | Some (Inr data) \<Rightarrow>
          let n = int (length data); m = n - 5
          in if n < 5 then Some (Inl (newErrCorruptedBH r bh ''too short''))
             else do { tail \<leftarrow> slice_from data m;
                       oOffset \<leftarrow> Uint32 tail;
                       Some (if m < oOffset then Inl (newErrCorruptedBH r bh ''invalid data-offsets offset'')
                             else Inr \<lparr>fb_data = data, fb_oOffset = oOffset, fb_baseLg = unat (data ! (length data - 1)), fb_filtersNum = (m - oOffset) div 4\<rparr>) })"

text \<open>
  Reading through the cache: \<open>part\<close> takes the value of a handle apart, and \<open>value\<close> is what \<^verbatim>\<open>setFunc\<close> stores.  An error of \<^verbatim>\<open>setFunc\<close> stores nothing.
\<close>

definition through_cache ::
  "'c block_cache \<Rightarrow> (cached \<Rightarrow> 'a option) \<Rightarrow> ('a \<Rightarrow> cached) \<Rightarrow> reader \<Rightarrow> u64 \<Rightarrow> bool \<Rightarrow> (table_error + 'a) option \<Rightarrow> 'c \<Rightarrow>
   ('c \<times> (table_error + 'a)) option" where
  "through_cache C part value r offset fillCache read c =
     (if \<not> rd_useCache r then map_option (Pair c) read
      else case bc_lookup C c offset of
             Some v \<Rightarrow> Some (c, case part v of None \<Rightarrow> Inl TableInconsistent | Some b \<Rightarrow> Inr b)
           | None \<Rightarrow>
               if fillCache
               then (case read of
                       None \<Rightarrow> None
                     | Some (Inl err) \<Rightarrow> Some (c, Inl err)
                     | Some (Inr b) \<Rightarrow> Some (bc_add C offset (value b) c, Inr b))
               else map_option (Pair c) read)"

definition readBlockCached ::
  "table_env \<Rightarrow> 'c block_cache \<Rightarrow> reader \<Rightarrow> blockHandle \<Rightarrow> bool \<Rightarrow> bool \<Rightarrow> 'c \<Rightarrow> ('c \<times> (table_error + block)) option" where
  "readBlockCached E C r bh verifyChecksum fillCache =
     through_cache C (\<lambda>v. case v of CachedBlock b \<Rightarrow> Some b | CachedFilter f \<Rightarrow> None) CachedBlock r (bh_offset bh) fillCache (readBlock E r bh verifyChecksum)"

definition readFilterBlockCached ::
  "table_env \<Rightarrow> 'c block_cache \<Rightarrow> reader \<Rightarrow> blockHandle \<Rightarrow> bool \<Rightarrow> 'c \<Rightarrow> ('c \<times> (table_error + filterBlock)) option" where
  "readFilterBlockCached E C r bh fillCache =
     through_cache C (\<lambda>v. case v of CachedBlock b \<Rightarrow> None | CachedFilter f \<Rightarrow> Some f) CachedFilter r (bh_offset bh) fillCache (readFilterBlock E r bh)"

definition getIndexBlock :: "table_env \<Rightarrow> 'c block_cache \<Rightarrow> reader \<Rightarrow> bool \<Rightarrow> 'c \<Rightarrow> ('c \<times> (table_error + block)) option" where
  "getIndexBlock E C r fillCache c =
     (case rd_indexBlock r of None \<Rightarrow> readBlockCached E C r (rd_indexBH r) True fillCache c | Some b \<Rightarrow> Some (c, Inr b))"

definition getFilterBlock :: "table_env \<Rightarrow> 'c block_cache \<Rightarrow> reader \<Rightarrow> bool \<Rightarrow> 'c \<Rightarrow> ('c \<times> (table_error + filterBlock)) option" where
  "getFilterBlock E C r fillCache c =
     (case rd_filterBlock r of None \<Rightarrow> readFilterBlockCached E C r (rd_filterBH r) fillCache c | Some b \<Rightarrow> Some (c, Inr b))"

definition contains :: "filterBlock \<Rightarrow> filter_ops \<Rightarrow> u64 \<Rightarrow> bytes \<Rightarrow> bool option" where
  "contains b fl offset key =
     (let i = sint (drop_bit (fb_baseLg b) offset)
      in if i < fb_filtersNum b
         then do { o1 \<leftarrow> slice_from (fb_data b) (fb_oOffset b + i * 4);
                   n \<leftarrow> Uint32 o1;
                   o2 \<leftarrow> slice_from o1 4;
                   m \<leftarrow> Uint32 o2;
                   if n < m \<and> m \<le> fb_oOffset b
                   then do { data \<leftarrow> slice (fb_data b) n m; Some (fl_Contains fl data key) }
                   else Some (n \<noteq> m) }
         else Some True)"

section \<open>Searching\<close>

text \<open>\<^verbatim>\<open>getDataIter\<close>: an empty iterator with the error, or the iterator of the block.\<close>

definition getDataIter ::
  "table_env \<Rightarrow> 'c block_cache \<Rightarrow> reader \<Rightarrow> blockHandle \<Rightarrow> (bytes option \<times> bytes option) option \<Rightarrow> bool \<Rightarrow> bool \<Rightarrow> 'c \<Rightarrow>
   ('c \<times> (table_error + blockIter)) option" where
  "getDataIter E C r dataBH rng verifyChecksum fillCache c =
     (case readBlockCached E C r dataBH verifyChecksum fillCache c of
        None \<Rightarrow> None
      | Some (c, Inl err) \<Rightarrow> Some (c, Inl err)
      | Some (c, Inr b) \<Rightarrow> map_option (\<lambda>i. (c, Inr i)) (newBlockIter (rd_cmp r) b rng False))"

text \<open>A move of such an iterator: the empty one answers false.\<close>

definition move :: "(blockIter \<Rightarrow> (blockIter \<times> bool) option) \<Rightarrow> table_error + blockIter \<Rightarrow> ((table_error + blockIter) \<times> bool) option" where
  "move f it = (case it of Inl err \<Rightarrow> Some (Inl err, False) | Inr i \<Rightarrow> map_option (\<lambda>(i, ok). (Inr i, ok)) (f i))"

text \<open>The error of an iterator over the block of the handle.\<close>

definition block_iter_error :: "reader \<Rightarrow> blockHandle \<Rightarrow> blockIter \<Rightarrow> table_error option" where
  "block_iter_error r bh i = map_option (fixErrCorruptedBH r bh) (bi_err i)"

definition move_error :: "reader \<Rightarrow> blockHandle \<Rightarrow> table_error + blockIter \<Rightarrow> table_error option" where
  "move_error r bh it = (case it of Inl err \<Rightarrow> Some err | Inr i \<Rightarrow> block_iter_error r bh i)"

text \<open>What a move that failed makes of the search: the error of the iterator, or not found.\<close>

definition failed :: "table_error option \<Rightarrow> table_error" where
  "failed err = (case err of None \<Rightarrow> TableNotFound | Some e \<Rightarrow> e)"

text \<open>The handle in a value of the index; \<^verbatim>\<open>decodeBlockHandle\<close> gives length 0 for a bad one.\<close>

definition index_handle :: "table_env \<Rightarrow> reader \<Rightarrow> blockIter \<Rightarrow> reader \<times> (table_error + blockHandle)" where
  "index_handle E r index =
     (let (dataBH, n) = te_decodeBlockHandle E (case bi_Value index of None \<Rightarrow> [] | Some v \<Rightarrow> v); bad = newErrCorruptedBH r (rd_indexBH r) ''bad data block handle''
      in if n = 0 then (r\<lparr>rd_err := Some bad\<rparr>, Inl bad) else (r, Inr dataBH))"

type_synonym ('c, 'a) search = "(reader \<times> 'c \<times> (table_error + 'a)) option"

text \<open>The key and the value at the iterator; the copy of an empty value is nil in Go when there is a buffer pool.\<close>

definition found_entry :: "bool \<Rightarrow> table_error + blockIter \<Rightarrow> bytes option \<times> bytes option" where
  "found_entry noValue data = (case data of Inl err \<Rightarrow> (None, None) | Inr i \<Rightarrow> (bi_Key i, if noValue then None else bi_Value i))"

text \<open>The rest of \<^verbatim>\<open>find\<close> when the block has no such key: the first key of the next block.\<close>

definition find_next :: "table_env \<Rightarrow> 'c block_cache \<Rightarrow> bool \<Rightarrow> bool \<Rightarrow> blockIter \<Rightarrow> reader \<Rightarrow> 'c \<Rightarrow> ('c, bytes option \<times> bytes option) search" where
  "find_next E C fillCache noValue index r c =
     (case bi_Next index of
        None \<Rightarrow> None
      | Some (index, False) \<Rightarrow> Some (r, c, Inl (failed (block_iter_error r (rd_indexBH r) index)))
      | Some (index, True) \<Rightarrow>
          (case index_handle E r index of
             (r, Inl err) \<Rightarrow> Some (r, c, Inl err)
           | (r, Inr dataBH) \<Rightarrow>
               (case getDataIter E C r dataBH None (rd_verifyChecksum r) fillCache c of
                  None \<Rightarrow> None
                | Some (c, data) \<Rightarrow>
                    (case move bi_Next data of
                       None \<Rightarrow> None
                     | Some (data, False) \<Rightarrow> Some (r, c, Inl (failed (move_error r dataBH data)))
                     | Some (data, True) \<Rightarrow> Some (r, c, Inr (found_entry noValue data))))))"

text \<open>The search in the block of the index entry.\<close>

definition find_block ::
  "table_env \<Rightarrow> 'c block_cache \<Rightarrow> bytes \<Rightarrow> bool \<Rightarrow> bool \<Rightarrow> blockIter \<Rightarrow> blockHandle \<Rightarrow> reader \<Rightarrow> 'c \<Rightarrow> ('c, bytes option \<times> bytes option) search" where
  "find_block E C key fillCache noValue index dataBH r c =
     (case getDataIter E C r dataBH None (rd_verifyChecksum r) fillCache c of
        None \<Rightarrow> None
      | Some (c, data) \<Rightarrow>
          (case move (bi_Seek key) data of
             None \<Rightarrow> None
           | Some (data, True) \<Rightarrow> Some (r, c, Inr (found_entry noValue data))
           | Some (data, False) \<Rightarrow>
               (case move_error r dataBH data of
                  Some err \<Rightarrow> Some (r, c, Inl err)
                | None \<Rightarrow> find_next E C fillCache noValue index r c)))"

text \<open>The test of the filter: \<^verbatim>\<open>Inl\<close> an error that ends the search.\<close>

definition filter_test :: "table_env \<Rightarrow> 'c block_cache \<Rightarrow> bool \<Rightarrow> reader \<Rightarrow> u64 \<Rightarrow> bytes \<Rightarrow> 'c \<Rightarrow> ('c \<times> (table_error + unit)) option" where
  "filter_test E C filtered r offset key c =
     (case rd_filter r of
        Some fl \<Rightarrow>
          if filtered
          then (case getFilterBlock E C r True c of
                  None \<Rightarrow> None
                | Some (c, Inr fb) \<Rightarrow> map_option (\<lambda>b. (c, if b then Inr () else Inl TableNotFound)) (contains fb fl offset key)
                | Some (c, Inl ferr) \<Rightarrow> Some (c, if IsCorrupted ferr then Inr () else Inl ferr))
          else Some (c, Inr ())
      | None \<Rightarrow> Some (c, Inr ()))"

definition find_table ::
  "table_env \<Rightarrow> 'c block_cache \<Rightarrow> bytes \<Rightarrow> bool \<Rightarrow> bool \<Rightarrow> bool \<Rightarrow> reader \<Rightarrow> 'c \<Rightarrow> ('c, bytes option \<times> bytes option) search" where
  "find_table E C key filtered fillCache noValue r c =
     (case rd_err r of
        Some err \<Rightarrow> Some (r, c, Inl err)
      | None \<Rightarrow>
          (case getIndexBlock E C r True c of
             None \<Rightarrow> None
           | Some (c, Inl err) \<Rightarrow> Some (r, c, Inl err)
           | Some (c, Inr indexBlock) \<Rightarrow>
               do { index \<leftarrow> newBlockIter (rd_cmp r) indexBlock None True;
                    (index, ok) \<leftarrow> bi_Seek key index;
                    if \<not> ok then Some (r, c, Inl (failed (block_iter_error r (rd_indexBH r) index)))
                    else case index_handle E r index of
                      (r, Inl err) \<Rightarrow> Some (r, c, Inl err)
                    | (r, Inr dataBH) \<Rightarrow>
                        (case filter_test E C filtered r (bh_offset dataBH) key c of
                           None \<Rightarrow> None
                         | Some (c, Inl err) \<Rightarrow> Some (r, c, Inl err)
                         | Some (c, Inr _) \<Rightarrow> find_block E C key fillCache noValue index dataBH r c) }))"

definition reader_Find :: "table_env \<Rightarrow> 'c block_cache \<Rightarrow> bytes \<Rightarrow> bool \<Rightarrow> bool \<Rightarrow> reader \<Rightarrow> 'c \<Rightarrow> ('c, bytes option \<times> bytes option) search" where
  "reader_Find E C key filtered fillCache = find_table E C key filtered fillCache False"

definition reader_FindKey :: "table_env \<Rightarrow> 'c block_cache \<Rightarrow> bytes \<Rightarrow> bool \<Rightarrow> bool \<Rightarrow> reader \<Rightarrow> 'c \<Rightarrow> ('c, bytes option) search" where
  "reader_FindKey E C key filtered fillCache r c =
     map_option (\<lambda>(r, c, res). (r, c, map_sum id fst res)) (find_table E C key filtered fillCache True r c)"

definition reader_Get :: "table_env \<Rightarrow> 'c block_cache \<Rightarrow> bytes \<Rightarrow> bool \<Rightarrow> reader \<Rightarrow> 'c \<Rightarrow> ('c, bytes option) search" where
  "reader_Get E C key fillCache r c =
     (case rd_err r of
        Some err \<Rightarrow> Some (r, c, Inl err)
      | None \<Rightarrow>
          (case find_table E C key False fillCache False r c of
             None \<Rightarrow> None
           | Some (r, c, Inl err) \<Rightarrow> Some (r, c, Inl err)
           | Some (r, c, Inr (rkey, value)) \<Rightarrow>
               Some (r, c, if rd_cmp r (case rkey of None \<Rightarrow> [] | Some k \<Rightarrow> k) key \<noteq> 0 then Inl TableNotFound else Inr value)))"

definition reader_OffsetOf :: "table_env \<Rightarrow> 'c block_cache \<Rightarrow> bytes \<Rightarrow> reader \<Rightarrow> 'c \<Rightarrow> ('c, int) search" where
  "reader_OffsetOf E C key r c =
     (case rd_err r of
        Some err \<Rightarrow> Some (r, c, Inl err)
      | None \<Rightarrow>
          (case readBlockCached E C r (rd_indexBH r) True True c of
             None \<Rightarrow> None
           | Some (c, Inl err) \<Rightarrow> Some (r, c, Inl err)
           | Some (c, Inr indexBlock) \<Rightarrow>
               do { index \<leftarrow> newBlockIter (rd_cmp r) indexBlock None True;
                    (index, ok) \<leftarrow> bi_Seek key index;
                    Some (if ok
                          then case index_handle E r index of
                                 (r, Inl err) \<Rightarrow> (r, c, Inr 0)
                               | (r, Inr dataBH) \<Rightarrow> (r, c, Inr (sint (bh_offset dataBH)))
                          else (r, c, case block_iter_error r (rd_indexBH r) index of None \<Rightarrow> Inr (rd_dataEnd r) | Some err \<Rightarrow> Inl err)) }))"

definition reader_Release :: "reader \<Rightarrow> reader" where
  "reader_Release r = r\<lparr>rd_indexBlock := None, rd_filterBlock := None, rd_useCache := False, rd_err := Some TableReleased\<rparr>"

section \<open>Opening a table\<close>

record table_options =
  op_comparer :: "bytes \<Rightarrow> bytes \<Rightarrow> int"
  op_strictChecksum :: bool
  op_filter :: "filter_ops option"
  op_altFilters :: "filter_ops list"

definition choose_filter :: "table_options \<Rightarrow> bytes \<Rightarrow> filter_ops option \<Rightarrow> filter_ops option" where
  "choose_filter opts fn old =
     (case op_filter opts of
        Some f0 \<Rightarrow> if fl_name f0 = fn then Some f0
          else (case find (\<lambda>f. fl_name f = fn) (op_altFilters opts) of Some f \<Rightarrow> Some f | None \<Rightarrow> old)
      | None \<Rightarrow> (case find (\<lambda>f. fl_name f = fn) (op_altFilters opts) of Some f \<Rightarrow> Some f | None \<Rightarrow> old))"

definition filter_prefix :: bytes where
  "filter_prefix = [0x66, 0x69, 0x6c, 0x74, 0x65, 0x72, 0x2e]"

text \<open>One entry of the meta index; the flag says that the loop ends.\<close>

definition meta_entry :: "table_env \<Rightarrow> table_options \<Rightarrow> bytes \<Rightarrow> bytes \<Rightarrow> reader \<Rightarrow> reader \<times> bool" where
  "meta_entry E opts key value r =
     (if take (length filter_prefix) key \<noteq> filter_prefix then (r, False)
      else let r = r\<lparr>rd_filter := choose_filter opts (drop 7 key) (rd_filter r)\<rparr>
        in if rd_filter r = None then (r, False)
           else let (filterBH, n) = te_decodeBlockHandle E value
             in if n = 0 then (r, False) else (r\<lparr>rd_filterBH := filterBH, rd_dataEnd := sint (bh_offset filterBH)\<rparr>, True))"

partial_function (option) read_meta :: "table_env \<Rightarrow> table_options \<Rightarrow> blockIter \<Rightarrow> reader \<Rightarrow> reader option" where
  "read_meta E opts i r =
     (case bi_Next i of
        None \<Rightarrow> None
      | Some (i, ok) \<Rightarrow>
          if \<not> ok then Some r
          else let (r, stop) = meta_entry E opts (case bi_Key i of None \<Rightarrow> [] | Some k \<Rightarrow> k) (case bi_Value i of None \<Rightarrow> [] | Some v \<Rightarrow> v) r
            in if stop then Some r else read_meta E opts i r)"

declare read_meta.simps [code]

text \<open>An error of opening: a corruption stays in the reader, others are returned.\<close>

definition open_error :: "reader \<Rightarrow> table_error \<Rightarrow> table_error + reader" where
  "open_error r err = (if IsCorrupted err then Inr (r\<lparr>rd_err := Some err\<rparr>) else Inl err)"

text \<open>The last part of \<^verbatim>\<open>NewReader\<close>: without a cache the index and the filter are read now.\<close>

definition open_local :: "table_env \<Rightarrow> reader \<Rightarrow> (table_error + reader) option" where
  "open_local E r =
     (if rd_useCache r then Some (Inr r)
      else case readBlock E r (rd_indexBH r) True of
             None \<Rightarrow> None
           | Some (Inl err) \<Rightarrow> Some (open_error r err)
           | Some (Inr b) \<Rightarrow>
               let r = r\<lparr>rd_indexBlock := Some b\<rparr>
               in if rd_filter r = None then Some (Inr r)
                  else case readFilterBlock E r (rd_filterBH r) of
                    None \<Rightarrow> None
                  | Some (Inl err) \<Rightarrow> Some (if IsCorrupted err then Inr (r\<lparr>rd_filter := None\<rparr>) else Inl err)
                  | Some (Inr fb) \<Rightarrow> Some (Inr (r\<lparr>rd_filterBlock := Some fb\<rparr>)))"

definition open_blocks :: "table_env \<Rightarrow> table_options \<Rightarrow> reader \<Rightarrow> (table_error + reader) option" where
  "open_blocks E opts r =
     (case readBlock E r (rd_metaBH r) True of
        None \<Rightarrow> None
      | Some (Inl err) \<Rightarrow> Some (open_error r err)
      | Some (Inr metaBlock) \<Rightarrow>
          do { metaIter \<leftarrow> newBlockIter (rd_cmp r) metaBlock None True;
               r \<leftarrow> read_meta E opts metaIter (r\<lparr>rd_dataEnd := sint (bh_offset (rd_metaBH r))\<rparr>);
               open_local E r })"

definition no_handle :: blockHandle where
  "no_handle = \<lparr>bh_offset = 0, bh_length = 0\<rparr>"

definition new_reader :: "table_options \<Rightarrow> bool \<Rightarrow> reader" where
  "new_reader opts useCache =
     \<lparr>rd_err = None, rd_useCache = useCache, rd_cmp = op_comparer opts, rd_filter = None, rd_verifyChecksum = op_strictChecksum opts, rd_dataEnd = 0,
      rd_metaBH = no_handle, rd_indexBH = no_handle, rd_filterBH = no_handle, rd_indexBlock = None, rd_filterBlock = None\<rparr>"

text \<open>\<^verbatim>\<open>NewReader\<close> on a file of the given size.\<close>

definition NewReader :: "table_env \<Rightarrow> table_options \<Rightarrow> bool \<Rightarrow> int \<Rightarrow> (table_error + reader) option" where
  "NewReader E opts useCache fsize =
     (let r = new_reader opts useCache; footerPos = fsize - int (te_footerLen E);
          bad = (\<lambda>reason. Some (Inr (r\<lparr>rd_err := Some (TableCorrupted footerPos (int (te_footerLen E)) ''table-footer'' reason)\<rparr>)))
      in if fsize < int (te_footerLen E) then Some (Inr (r\<lparr>rd_err := Some (TableCorrupted 0 fsize ''table'' ''too small'')\<rparr>))
         else case te_ReadAt E (te_footerLen E) footerPos of
           (footer, Some err) \<Rightarrow> Some (Inl (TableIO err))
         | (footer, None) \<Rightarrow>
             if drop (te_footerLen E - length (te_magic E)) footer \<noteq> te_magic E then bad ''bad magic number''
             else let (metaBH, n) = te_decodeBlockHandle E footer
               in if n = 0 then bad ''bad metaindex block handle''
                  else do { rest \<leftarrow> slice_from footer n;
                            let (indexBH, n') = te_decodeBlockHandle E rest;
                            if n' = 0 then Some (Inr (r\<lparr>rd_metaBH := metaBH, rd_indexBH := indexBH,
                              rd_err := Some (TableCorrupted footerPos (int (te_footerLen E)) ''table-footer'' ''bad index block handle'')\<rparr>))
                            else open_blocks E opts (r\<lparr>rd_metaBH := metaBH, rd_indexBH := indexBH\<rparr>) })"

section \<open>The iterator over the index\<close>

record indexIter =
  ii_iter :: blockIter
  ii_slice :: "(bytes option \<times> bytes option) option"
  ii_fillCache :: bool

text \<open>\<^verbatim>\<open>Get\<close>: the iterator of the data block, within the range only in the first and the last block; \<open>None\<close> inside for nil.\<close>

definition indexIter_Get :: "table_env \<Rightarrow> 'c block_cache \<Rightarrow> reader \<Rightarrow> indexIter \<Rightarrow> 'c \<Rightarrow> ('c \<times> (table_error + blockIter) option) option" where
  "indexIter_Get E C r i c =
     (case bi_Value (ii_iter i) of
        None \<Rightarrow> Some (c, None)
      | Some value \<Rightarrow>
          let (dataBH, n) = te_decodeBlockHandle E value
          in if n = 0 then Some (c, Some (Inl (newErrCorruptedBH r (rd_indexBH r) ''bad data block handle'')))
             else case rd_err r of
               Some err \<Rightarrow> Some (c, Some (Inl err))
             | None \<Rightarrow> map_option (map_prod id Some)
                 (getDataIter E C r dataBH (if bi_isFirst (ii_iter i) \<or> bi_isLast (ii_iter i) then ii_slice i else None) (rd_verifyChecksum r) (ii_fillCache i) c))"

text \<open>The part of \<^verbatim>\<open>NewIterator\<close> before the indexed iterator.\<close>

definition new_index_iter ::
  "table_env \<Rightarrow> 'c block_cache \<Rightarrow> reader \<Rightarrow> (bytes option \<times> bytes option) option \<Rightarrow> bool \<Rightarrow> 'c \<Rightarrow> ('c \<times> (table_error + indexIter)) option" where
  "new_index_iter E C r rng fillCache c =
     (case rd_err r of
        Some err \<Rightarrow> Some (c, Inl err)
      | None \<Rightarrow>
          (case getIndexBlock E C r fillCache c of
             None \<Rightarrow> None
           | Some (c, Inl err) \<Rightarrow> Some (c, Inl err)
           | Some (c, Inr b) \<Rightarrow>
               map_option (\<lambda>i. (c, Inr \<lparr>ii_iter = i, ii_slice = rng, ii_fillCache = fillCache\<rparr>)) (newBlockIter (rd_cmp r) b rng True)))"

end
