(* ===== verification/Ldb_Table_Find.thy ===== *)
theory Ldb_Table_Find
  imports Ldb_Reader
begin

text \<open>
  A search in a well-formed table finds the first entry whose key is not below the one given.  Well-formed is: the index block and the data blocks are, the key of
  an index entry is not below the keys of its block and below those of the next; blocks in the cache are those of the file.
\<close>

section \<open>Blocks\<close>

lemma block_ok_entries:
  assumes "block_ok cmp b"
  shows "block_entries b \<noteq> []" "sorted_wrt (\<lambda>e e'. cmp (fst e) (fst e') < 0) (block_entries b)"
  using assms by (auto simp: block_ok_def block_entries_def sorted_wrt_map Let_def split: option.splits)

lemma at_least_drop:
  assumes "comparison cmp" and "sorted_wrt (\<lambda>e e'. cmp (fst e) (fst e') < 0) es"
  shows "filter (\<lambda>e. 0 \<le> cmp (fst e) key) es = drop (below_count cmp key es) es"
  using assms(2)
proof (induction es)
  case (Cons e es)
  have "0 \<le> cmp (fst e') key" if "e' \<in> set es" "\<not> cmp (fst e) key < 0" for e'
  proof -
    have "cmp (fst e) (fst e') < 0"
      using that(1) Cons.prems by simp
    then show ?thesis
      using that(2) assms(1) unfolding comparison_def by (meson not_le_imp_less not_less order_less_imp_le)
  qed
  then have "\<not> cmp (fst e) key < 0 \<Longrightarrow> filter (\<lambda>e. 0 \<le> cmp (fst e) key) es = es"
    by (simp add: filter_id_conv)
  then show ?case
    using Cons by (cases "cmp (fst e) key < 0") (simp_all add: below_count_def)
qed (simp add: below_count_def)

lemma seek_block:
  assumes "comparison cmp" and "block_ok cmp b"
  obtains i i1 i2 c where "newBlockIter cmp b None inclLimit = Some i" "c = below_count cmp key (block_entries b)"
    "bi_Seek key i = Some (i1, c < length (block_entries b))" "bi_err i1 = None"
    "c < length (block_entries b) \<Longrightarrow> bi_Key i1 = Some (fst (block_entries b ! c)) \<and> bi_Value i1 = Some (snd (block_entries b ! c))"
    "bi_Next i1 = Some (i2, Suc c < length (block_entries b))" "bi_err i2 = None"
    "Suc c < length (block_entries b) \<Longrightarrow> bi_Value i2 = Some (snd (block_entries b ! Suc c))"
proof -
  define es c where "es = block_entries b" and "c = below_count cmp key es"
  obtain i where i: "newBlockIter cmp b None inclLimit = Some i" "\<And>calls. block_run calls i = Some (cursor_run cmp es calls (-1))"
    using block_runs [OF assms, of None inclLimit] unfolding es_def by (auto simp: entries_between_def)
  obtain i1 ok where i1: "bi_Seek key i = Some (i1, ok)"
    using i(2) [of "[CallSeek key]"] by (auto simp: block_call_def Let_def split: option.splits)
  obtain i2 ok' where i2: "bi_Next i1 = Some (i2, ok')"
    using i(2) [of "[CallSeek key, CallNext]"] by (auto simp: block_call_def i1 Let_def split: option.splits)
  have n: "nat (int c + 1) = Suc c"
    by simp
  have run: "block_run [CallSeek key, CallNext] i = Some [(ok, bi_Key i1, bi_Value i1, bi_err i1), (ok', bi_Key i2, bi_Value i2, bi_err i2)]"
    by (simp add: block_call_def i1 i2)
  have "ok = (c < length es)" "bi_err i1 = None" "c < length es \<Longrightarrow> bi_Key i1 = Some (fst (es ! c)) \<and> bi_Value i1 = Some (snd (es ! c))"
    "ok' = (Suc c < length es)" "bi_err i2 = None" "Suc c < length es \<Longrightarrow> bi_Value i2 = Some (snd (es ! Suc c))"
    using run i(2) [of "[CallSeek key, CallNext]"] n by (auto simp: cursor_call_def Let_def c_def [symmetric])
  then show ?thesis
    using that [of i c i1 i2] i(1) i1 i2 unfolding es_def c_def by simp
qed

lemma first_of_block:
  assumes "comparison cmp" and "block_ok cmp b"
  obtains i i1 where "newBlockIter cmp b None inclLimit = Some i" "bi_Next i = Some (i1, True)"
    "bi_Key i1 = Some (fst (block_entries b ! 0))" "bi_Value i1 = Some (snd (block_entries b ! 0))"
proof -
  define es where "es = block_entries b"
  have "es \<noteq> []"
    using block_ok_entries(1) [OF assms(2)] by (simp add: es_def)
  obtain i where i: "newBlockIter cmp b None inclLimit = Some i" "\<And>calls. block_run calls i = Some (cursor_run cmp es calls (-1))"
    using block_runs [OF assms, of None inclLimit] unfolding es_def by (auto simp: entries_between_def)
  obtain i1 ok where i1: "bi_Next i = Some (i1, ok)"
    using i(2) [of "[CallNext]"] by (auto simp: block_call_def Let_def split: option.splits)
  then have "block_run [CallNext] i = Some [(ok, bi_Key i1, bi_Value i1, bi_err i1)]"
    by (simp add: block_call_def)
  then have "ok" "bi_Key i1 = Some (fst (es ! 0))" "bi_Value i1 = Some (snd (es ! 0))"
    using i(2) [of "[CallNext]"] \<open>es \<noteq> []\<close> by (auto simp: cursor_call_def Let_def)
  then show ?thesis
    using that [of i i1] i(1) i1 unfolding es_def by simp
qed

section \<open>Tables\<close>

text \<open>The handle and the block of an index entry.\<close>

definition block_of :: "table_env \<Rightarrow> reader \<Rightarrow> bytes \<times> bytes \<Rightarrow> (blockHandle \<times> block) option" where
  "block_of E r e =
     (case te_decodeBlockHandle E (snd e) of
        (bh, n) \<Rightarrow> if n = 0 then None else (case readBlock E r bh (rd_verifyChecksum r) of Some (Inr b) \<Rightarrow> Some (bh, b) | _ \<Rightarrow> None))"

definition data_entries :: "table_env \<Rightarrow> reader \<Rightarrow> bytes \<times> bytes \<Rightarrow> (bytes \<times> bytes) list" where
  "data_entries E r e = (case block_of E r e of None \<Rightarrow> [] | Some (bh, b) \<Rightarrow> block_entries b)"

definition table_entries :: "table_env \<Rightarrow> reader \<Rightarrow> block \<Rightarrow> (bytes \<times> bytes) list" where
  "table_entries E r I = concat (map (data_entries E r) (block_entries I))"

definition data_ok :: "table_env \<Rightarrow> reader \<Rightarrow> bytes \<times> bytes \<Rightarrow> bool" where
  "data_ok E r e =
     (case block_of E r e of
        None \<Rightarrow> False
      | Some (bh, b) \<Rightarrow> block_ok (rd_cmp r) b \<and> list_all (\<lambda>d. rd_cmp r (fst d) (fst e) \<le> 0) (block_entries b))"

definition table_ok :: "table_env \<Rightarrow> reader \<Rightarrow> block \<Rightarrow> bool" where
  "table_ok E r I \<longleftrightarrow>
     (let es = block_entries I
      in rd_err r = None \<and> (case rd_indexBlock r of Some b \<Rightarrow> b = I | None \<Rightarrow> readBlock E r (rd_indexBH r) True = Some (Inr I)) \<and>
         block_ok (rd_cmp r) I \<and> list_all (data_ok E r) es \<and>
         list_all (\<lambda>(e, e'). list_all (\<lambda>d. rd_cmp r (fst e) (fst d) < 0) (data_entries E r e')) (zip es (tl es)))"

text \<open>The filter of the table, if it has one.\<close>

definition entry_offset :: "table_env \<Rightarrow> bytes \<times> bytes \<Rightarrow> u64" where
  "entry_offset E e = bh_offset (fst (te_decodeBlockHandle E (snd e)))"

definition filter_ok :: "table_env \<Rightarrow> reader \<Rightarrow> block \<Rightarrow> filterBlock \<Rightarrow> bool" where
  "filter_ok E r I fb =
     (case rd_filter r of
        None \<Rightarrow> True
      | Some fl \<Rightarrow>
          (case rd_filterBlock r of Some b \<Rightarrow> b = fb | None \<Rightarrow> readFilterBlock E r (rd_filterBH r) = Some (Inr fb)) \<and>
          list_all (\<lambda>e. contains fb fl (entry_offset E e) [] \<noteq> None) (block_entries I))"

text \<open>What the blocks of the table are in the cache.\<close>

definition stored_blocks :: "table_env \<Rightarrow> reader \<Rightarrow> block \<Rightarrow> filterBlock \<Rightarrow> (u64 \<times> cached) list" where
  "stored_blocks E r I fb =
     (if rd_indexBlock r = None then [(bh_offset (rd_indexBH r), CachedBlock I)] else []) @
     (if rd_filter r \<noteq> None \<and> rd_filterBlock r = None then [(bh_offset (rd_filterBH r), CachedFilter fb)] else []) @
     concat (map (\<lambda>e. case block_of E r e of None \<Rightarrow> [] | Some (bh, b) \<Rightarrow> [(bh_offset bh, CachedBlock b)]) (block_entries I))"

text \<open>Different blocks are at different offsets, and the cache holds nothing else at them.  A cache may forget blocks but not change them.\<close>

definition apart :: "(u64 \<times> cached) list \<Rightarrow> bool" where
  "apart bs \<longleftrightarrow> list_all (\<lambda>(off, v). list_all (\<lambda>(off', v'). off = off' \<longrightarrow> v = v') bs) bs"

definition cache_ok :: "'c block_cache \<Rightarrow> (u64 \<times> cached) list \<Rightarrow> 'c \<Rightarrow> bool" where
  "cache_ok C bs c \<longleftrightarrow> list_all (\<lambda>(off, v). bc_lookup C c off \<in> {None, Some v}) bs"

definition cache_law :: "'c block_cache \<Rightarrow> bool" where
  "cache_law C \<longleftrightarrow> (\<forall>c off v off'. bc_lookup C (bc_add C off v c) off' \<in> {None, bc_lookup C c off', if off' = off then Some v else None})"

lemma through_cache_step:
  assumes "cache_law C" and "cache_ok C bs c" and "apart bs" and "(off, v b) \<in> set bs" and "part (v b) = Some b" and "read = Some (Inr b)"
  obtains c' where "through_cache C part v r off fill read c = Some (c', Inr b)" "cache_ok C bs c'"
proof -
  have look: "bc_lookup C c off \<in> {None, Some (v b)}"
    using assms(2,4) by (auto simp: cache_ok_def list_all_iff)
  have "cache_ok C bs (bc_add C off (v b) c)"
  proof -
    have "bc_lookup C (bc_add C off (v b) c) off' \<in> {None, Some v'}" if "(off', v') \<in> set bs" for off' v'
    proof -
      have "bc_lookup C c off' \<in> {None, Some v'}" "off' = off \<longrightarrow> v' = v b"
        using that assms(2-4) by (auto simp: cache_ok_def apart_def list_all_iff)
      then show ?thesis
        using assms(1) [unfolded cache_law_def, rule_format, of off "v b" c off'] by auto
    qed
    then show ?thesis
      by (auto simp: cache_ok_def list_all_iff)
  qed
  then show ?thesis
    using that [of "if rd_useCache r \<and> bc_lookup C c off = None \<and> fill then bc_add C off (v b) c else c"] look assms(2,5,6)
    by (auto simp: through_cache_def split: if_splits)
qed

section \<open>Searching a table\<close>

text \<open>The tables and caches that the search is about.\<close>

definition searchable :: "table_env \<Rightarrow> 'c block_cache \<Rightarrow> reader \<Rightarrow> block \<Rightarrow> filterBlock \<Rightarrow> 'c \<Rightarrow> bool" where
  "searchable E C r I fb c \<longleftrightarrow>
     comparison (rd_cmp r) \<and> cache_law C \<and> table_ok E r I \<and> filter_ok E r I fb \<and> apart (stored_blocks E r I fb) \<and> cache_ok C (stored_blocks E r I fb) c"

lemma data_block:
  assumes "table_ok E r I" and "e \<in> set (block_entries I)"
  obtains bh n b where "te_decodeBlockHandle E (snd e) = (bh, n)" "n \<noteq> 0" "readBlock E r bh (rd_verifyChecksum r) = Some (Inr b)"
    "block_of E r e = Some (bh, b)" "data_entries E r e = block_entries b" "block_ok (rd_cmp r) b" "\<And>d. d \<in> set (block_entries b) \<Longrightarrow> rd_cmp r (fst d) (fst e) \<le> 0"
proof -
  have "data_ok E r e"
    using assms by (simp add: table_ok_def Let_def list_all_iff)
  then show ?thesis
    using that by (auto simp: data_ok_def data_entries_def block_of_def list_all_iff split: option.splits prod.splits if_splits sum.splits)
qed

lemma data_iter:
  assumes s: "searchable E C r I fb c" and e: "e \<in> set (block_entries I)" "block_of E r e = Some (bh, b)"
  obtains c' where "getDataIter E C r bh None (rd_verifyChecksum r) fill c = map_option (\<lambda>i. (c', Inr i)) (newBlockIter (rd_cmp r) b None False)"
    "searchable E C r I fb c'"
proof -
  have "(bh_offset bh, CachedBlock b) \<in> set (stored_blocks E r I fb)"
    using e by (force simp: stored_blocks_def)
  moreover have "readBlock E r bh (rd_verifyChecksum r) = Some (Inr b)"
    using e(2) by (auto simp: block_of_def split: option.splits prod.splits if_splits sum.splits)
  ultimately obtain c' where "readBlockCached E C r bh (rd_verifyChecksum r) fill c = Some (c', Inr b)" "cache_ok C (stored_blocks E r I fb) c'"
    using through_cache_step [of C "stored_blocks E r I fb" c "bh_offset bh" CachedBlock b "\<lambda>v. case v of CachedBlock b \<Rightarrow> Some b | CachedFilter f \<Rightarrow> None"] s
    unfolding searchable_def readBlockCached_def by (metis cached.simps(5))
  then show ?thesis
    using that [of c'] s by (simp add: getDataIter_def searchable_def)
qed

lemma index_block:
  assumes s: "searchable E C r I fb c"
  obtains c' where "getIndexBlock E C r fill c = Some (c', Inr I)" "searchable E C r I fb c'"
proof (cases "rd_indexBlock r")
  case None
  then have "(bh_offset (rd_indexBH r), CachedBlock I) \<in> set (stored_blocks E r I fb)" "readBlock E r (rd_indexBH r) True = Some (Inr I)"
    using s by (simp_all add: stored_blocks_def searchable_def table_ok_def Let_def)
  then obtain c' where "readBlockCached E C r (rd_indexBH r) True fill c = Some (c', Inr I)" "cache_ok C (stored_blocks E r I fb) c'"
    using through_cache_step [of C "stored_blocks E r I fb" c "bh_offset (rd_indexBH r)" CachedBlock I "\<lambda>v. case v of CachedBlock b \<Rightarrow> Some b | CachedFilter f \<Rightarrow> None"] s
    unfolding searchable_def readBlockCached_def by (metis cached.simps(5))
  then show ?thesis
    using that [of c'] s None by (simp add: getIndexBlock_def searchable_def)
next
  case (Some b)
  then show ?thesis
    using that [of c] s by (simp add: getIndexBlock_def searchable_def table_ok_def Let_def)
qed

lemma filter_block:
  assumes s: "searchable E C r I fb c" and "rd_filter r \<noteq> None"
  obtains c' where "getFilterBlock E C r fill c = Some (c', Inr fb)" "searchable E C r I fb c'"
proof (cases "rd_filterBlock r")
  case None
  then have "(bh_offset (rd_filterBH r), CachedFilter fb) \<in> set (stored_blocks E r I fb)" "readFilterBlock E r (rd_filterBH r) = Some (Inr fb)"
    using s assms(2) by (auto simp: stored_blocks_def searchable_def filter_ok_def split: option.splits)
  then obtain c' where "readFilterBlockCached E C r (rd_filterBH r) fill c = Some (c', Inr fb)" "cache_ok C (stored_blocks E r I fb) c'"
    using through_cache_step [of C "stored_blocks E r I fb" c "bh_offset (rd_filterBH r)" CachedFilter fb "\<lambda>v. case v of CachedBlock b \<Rightarrow> None | CachedFilter f \<Rightarrow> Some f"] s
    unfolding searchable_def readFilterBlockCached_def by (metis cached.simps(6))
  then show ?thesis
    using that [of c'] s None by (simp add: getFilterBlock_def searchable_def)
next
  case (Some b)
  then show ?thesis
    using that [of c] s assms(2) by (auto simp: getFilterBlock_def searchable_def filter_ok_def split: option.splits)
qed

text \<open>What a search shows of an entry.\<close>

definition shown_entry :: "bool \<Rightarrow> bytes \<times> bytes \<Rightarrow> bytes option \<times> bytes option" where
  "shown_entry noValue e = (Some (fst e), if noValue then None else Some (snd e))"

lemma index_handle_step:
  assumes "table_ok E r I" and "e \<in> set (block_entries I)" and "bi_Value i = Some (snd e)" and "block_of E r e = Some (bh, b)"
  shows "index_handle E r i = (r, Inr bh)"
  using assms by (auto simp: index_handle_def block_of_def Let_def split: prod.splits if_splits option.splits sum.splits)

lemma find_next_step:
  assumes s: "searchable E C r I fb c" and next': "bi_Next i = Some (i', Suc j < length (block_entries I))" and err: "bi_err i' = None"
    and val: "Suc j < length (block_entries I) \<Longrightarrow> bi_Value i' = Some (snd (block_entries I ! Suc j))"
  obtains c' where "find_next E C fill noValue i r c = Some (r, c',
    if Suc j < length (block_entries I) then Inr (shown_entry noValue (data_entries E r (block_entries I ! Suc j) ! 0)) else Inl TableNotFound)" "searchable E C r I fb c'"
proof (cases "Suc j < length (block_entries I)")
  case True
  define e where "e = block_entries I ! Suc j"
  have ok: "table_ok E r I" "e \<in> set (block_entries I)" and cmp: "comparison (rd_cmp r)"
    using s True by (auto simp: searchable_def e_def)
  obtain bh b where b: "block_of E r e = Some (bh, b)" "data_entries E r e = block_entries b" "block_ok (rd_cmp r) b"
    by (rule data_block [OF ok])
  obtain c' where c': "getDataIter E C r bh None (rd_verifyChecksum r) fill c = map_option (\<lambda>i. (c', Inr i)) (newBlockIter (rd_cmp r) b None False)" "searchable E C r I fb c'"
    by (rule data_iter [OF s ok(2) b(1)])
  obtain d d' where d: "newBlockIter (rd_cmp r) b None False = Some d" "bi_Next d = Some (d', True)"
    "bi_Key d' = Some (fst (block_entries b ! 0))" "bi_Value d' = Some (snd (block_entries b ! 0))"
    by (rule first_of_block [OF cmp b(3)])
  have "find_next E C fill noValue i r c = Some (r, c', Inr (shown_entry noValue (block_entries b ! 0)))"
    using next' True val index_handle_step [OF ok _ b(1), of i'] c'(1) d
    by (simp add: find_next_def e_def move_def found_entry_def shown_entry_def)
  then show ?thesis
    using that [of c'] c'(2) True b(2) by (simp add: e_def)
next
  case False
  then show ?thesis
    using that [of c] s next' err by (simp add: find_next_def failed_def block_iter_error_def)
qed

lemma find_block_step:
  assumes s: "searchable E C r I fb c" and e: "j < length (block_entries I)" "block_of E r (block_entries I ! j) = Some (bh, b)"
    and next': "bi_Next i = Some (i', Suc j < length (block_entries I))" "bi_err i' = None"
      "Suc j < length (block_entries I) \<Longrightarrow> bi_Value i' = Some (snd (block_entries I ! Suc j))"
  obtains c' where "find_block E C key fill noValue i bh r c = Some (r, c',
    let m = below_count (rd_cmp r) key (block_entries b)
    in if m < length (block_entries b) then Inr (shown_entry noValue (block_entries b ! m))
       else if Suc j < length (block_entries I) then Inr (shown_entry noValue (data_entries E r (block_entries I ! Suc j) ! 0)) else Inl TableNotFound)"
    "searchable E C r I fb c'"
proof -
  have e': "block_entries I ! j \<in> set (block_entries I)" and ok: "table_ok E r I" and cmp: "comparison (rd_cmp r)"
    using s e by (auto simp: searchable_def)
  have b: "block_ok (rd_cmp r) b"
    using data_block [OF ok e'] e(2) by (metis option.inject prod.inject)
  obtain c1 where c1: "getDataIter E C r bh None (rd_verifyChecksum r) fill c = map_option (\<lambda>i. (c1, Inr i)) (newBlockIter (rd_cmp r) b None False)" "searchable E C r I fb c1"
    by (rule data_iter [OF s e' e(2)])
  obtain d d1 m where d: "newBlockIter (rd_cmp r) b None False = Some d" "m = below_count (rd_cmp r) key (block_entries b)"
    "bi_Seek key d = Some (d1, m < length (block_entries b))" "bi_err d1 = None"
    "m < length (block_entries b) \<Longrightarrow> bi_Key d1 = Some (fst (block_entries b ! m)) \<and> bi_Value d1 = Some (snd (block_entries b ! m))"
    using seek_block [OF cmp b, of False key] by metis
  show ?thesis
  proof (cases "m < length (block_entries b)")
    case True
    then show ?thesis
      using that [of c1] c1 d by (simp add: find_block_def move_def found_entry_def shown_entry_def Let_def)
  next
    case False
    obtain c' where "find_next E C fill noValue i r c1 = Some (r, c',
      if Suc j < length (block_entries I) then Inr (shown_entry noValue (data_entries E r (block_entries I ! Suc j) ! 0)) else Inl TableNotFound)" "searchable E C r I fb c'"
      by (rule find_next_step [OF c1(2) next'])
    then show ?thesis
      using that [of c'] False c1(1) d by (simp add: find_block_def move_def move_error_def block_iter_error_def Let_def)
  qed
qed

text \<open>The first entry of the table that is not below the key.\<close>

definition answer :: "(bytes \<Rightarrow> bytes \<Rightarrow> int) \<Rightarrow> bytes \<Rightarrow> bool \<Rightarrow> (bytes \<times> bytes) list \<Rightarrow> table_error + bytes option \<times> bytes option" where
  "answer cmp key noValue es =
     (case filter (\<lambda>e. 0 \<le> cmp (fst e) key) es of [] \<Rightarrow> Inl TableNotFound | e # _ \<Rightarrow> Inr (shown_entry noValue e))"

text \<open>Blocks whose index key is below the key have nothing for it; the block behind an index key that is not below it has only such entries.\<close>

lemma blocks_below:
  assumes "comparison (rd_cmp r)" and "table_ok E r I" and "e \<in> set (block_entries I)" and "rd_cmp r (fst e) key < 0"
  shows "filter (\<lambda>e. 0 \<le> rd_cmp r (fst e) key) (data_entries E r e) = []"
proof -
  obtain b where b: "data_entries E r e = block_entries b" "\<And>d. d \<in> set (block_entries b) \<Longrightarrow> rd_cmp r (fst d) (fst e) \<le> 0"
    using data_block [OF assms(2,3)] by metis
  have "rd_cmp r (fst d) key < 0" if "d \<in> set (block_entries b)" for d
    using assms(1,4) b(2) [OF that] unfolding comparison_def by blast
  then show ?thesis
    by (auto simp: b(1) filter_empty_conv not_le)
qed

lemma block_behind:
  assumes "comparison (rd_cmp r)" and "table_ok E r I" and "Suc j < length (block_entries I)" and "0 \<le> rd_cmp r (fst (block_entries I ! j)) key"
  obtains d ds where "data_entries E r (block_entries I ! Suc j) = d # ds" "0 \<le> rd_cmp r (fst d) key"
proof -
  let ?es = "block_entries I"
  obtain b where b: "data_entries E r (?es ! Suc j) = block_entries b" "block_ok (rd_cmp r) b"
    using data_block [OF assms(2) nth_mem [OF assms(3)]] by metis
  then obtain d ds where d: "data_entries E r (?es ! Suc j) = d # ds"
    using block_ok_entries(1) [OF b(2)] by (cases "block_entries b") auto
  have "zip ?es (tl ?es) ! j \<in> set (zip ?es (tl ?es))"
    using assms(3) by (intro nth_mem) simp
  then have "(?es ! j, ?es ! Suc j) \<in> set (zip ?es (tl ?es))"
    using assms(3) by (simp add: nth_tl)
  then have "rd_cmp r (fst (?es ! j)) (fst d) < 0"
    using assms(2) d by (auto simp: table_ok_def Let_def list_all_iff)
  then have "0 \<le> rd_cmp r (fst d) key"
    using assms(1,4) unfolding comparison_def by (meson linorder_not_le order_less_imp_le)
  then show ?thesis
    using that d by blast
qed

lemma nothing_before:
  assumes "comparison (rd_cmp r)" and "table_ok E r I"
  shows "filter (\<lambda>e. 0 \<le> rd_cmp r (fst e) key) (concat (map (data_entries E r) (take (below_count (rd_cmp r) key (block_entries I)) (block_entries I)))) = []"
proof -
  have "take (below_count (rd_cmp r) key (block_entries I)) (block_entries I) = takeWhile (\<lambda>e. rd_cmp r (fst e) key < 0) (block_entries I)"
    unfolding below_count_def by (rule takeWhile_eq_take [symmetric])
  moreover have "filter (\<lambda>e. 0 \<le> rd_cmp r (fst e) key) (data_entries E r e) = []" if "e \<in> set (takeWhile (\<lambda>e. rd_cmp r (fst e) key < 0) (block_entries I))" for e
    using blocks_below [OF assms] set_takeWhileD [OF that] by blast
  ultimately show ?thesis
    by (simp add: filter_concat)
qed

lemma table_split:
  assumes cmp: "comparison (rd_cmp r)" and ok: "table_ok E r I" and j: "j = below_count (rd_cmp r) key (block_entries I)" "j < length (block_entries I)"
    and b: "block_of E r (block_entries I ! j) = Some (bh, b)"
  shows "filter (\<lambda>e. 0 \<le> rd_cmp r (fst e) key) (table_entries E r I) =
    drop (below_count (rd_cmp r) key (block_entries b)) (block_entries b) @
    filter (\<lambda>e. 0 \<le> rd_cmp r (fst e) key) (concat (map (data_entries E r) (drop (Suc j) (block_entries I))))"
proof -
  let ?es = "block_entries I"
  have es: "?es = take j ?es @ ?es ! j # drop (Suc j) ?es"
    using j(2) by (simp add: id_take_nth_drop)
  have here: "data_entries E r (?es ! j) = block_entries b" "block_ok (rd_cmp r) b"
    using b data_block [OF ok nth_mem [OF j(2)]] by (auto simp: data_entries_def)
  show ?thesis
    unfolding table_entries_def
    by (subst es) (simp add: nothing_before [OF cmp ok, of key, folded j(1)] here(1) at_least_drop [OF cmp block_ok_entries(2) [OF here(2)]])
qed

lemma answer_missing:
  assumes "comparison (rd_cmp r)" and "table_ok E r I" and "below_count (rd_cmp r) key (block_entries I) = length (block_entries I)"
  shows "answer (rd_cmp r) key noValue (table_entries E r I) = Inl TableNotFound"
  using nothing_before [OF assms(1,2), of key] assms(3) by (simp add: answer_def table_entries_def)

lemma answer_found:
  assumes cmp: "comparison (rd_cmp r)" and ok: "table_ok E r I" and j: "j = below_count (rd_cmp r) key (block_entries I)" "j < length (block_entries I)"
    and b: "block_of E r (block_entries I ! j) = Some (bh, b)" and m: "m = below_count (rd_cmp r) key (block_entries b)"
  shows "answer (rd_cmp r) key noValue (table_entries E r I) =
    (if m < length (block_entries b) then Inr (shown_entry noValue (block_entries b ! m))
     else if Suc j < length (block_entries I) then Inr (shown_entry noValue (data_entries E r (block_entries I ! Suc j) ! 0)) else Inl TableNotFound)"
proof -
  let ?es = "block_entries I"
  note split = table_split [OF cmp ok j b, folded m]
  have "0 \<le> rd_cmp r (fst (?es ! j)) key"
    using j nth_length_takeWhile [of "\<lambda>e. rd_cmp r (fst e) key < 0" ?es] by (simp add: below_count_def)
  note behind = block_behind [OF cmp ok _ this]
  consider "m < length (block_entries b)" | "\<not> m < length (block_entries b)" "Suc j < length ?es" | "\<not> m < length (block_entries b)" "\<not> Suc j < length ?es"
    by blast
  then show ?thesis
  proof cases
    case 1
    then show ?thesis
      using split by (simp add: answer_def Cons_nth_drop_Suc [symmetric])
  next
    case 2
    then obtain d ds where "data_entries E r (?es ! Suc j) = d # ds" "0 \<le> rd_cmp r (fst d) key"
      using behind by blast
    then show ?thesis
      using split 2 by (simp add: answer_def Cons_nth_drop_Suc [symmetric])
  next
    case 3
    then show ?thesis
      using split by (simp add: answer_def)
  qed
qed

text \<open>The test of the filter, and whether it turns the search down.\<close>

definition rejected :: "table_env \<Rightarrow> reader \<Rightarrow> block \<Rightarrow> filterBlock \<Rightarrow> bytes \<Rightarrow> bool" where
  "rejected E r I fb key =
     (case (rd_filter r, drop (below_count (rd_cmp r) key (block_entries I)) (block_entries I)) of
        (Some fl, e # _) \<Rightarrow> contains fb fl (entry_offset E e) key = Some False
      | _ \<Rightarrow> False)"

lemma contains_total: "contains fb fl off key = None \<longleftrightarrow> contains fb fl off key' = None"
  by (auto simp: contains_def Let_def split: bind_splits if_splits)

lemma filter_test_step:
  assumes s: "searchable E C r I fb c" and j: "j = below_count (rd_cmp r) key (block_entries I)" "j < length (block_entries I)"
    and bh: "bh_offset bh = entry_offset E (block_entries I ! j)"
  obtains c' where "filter_test E C filtered r (bh_offset bh) key c = Some (c', if filtered \<and> rejected E r I fb key then Inl TableNotFound else Inr ())"
    "searchable E C r I fb c'"
proof (cases "filtered \<and> rd_filter r \<noteq> None")
  case True
  then obtain fl where fl: "rd_filter r = Some fl" "filtered"
    by auto
  obtain c' where c': "getFilterBlock E C r True c = Some (c', Inr fb)" "searchable E C r I fb c'"
    using filter_block [OF s] fl by auto
  have "contains fb fl (bh_offset bh) [] \<noteq> None"
    using s fl j(2) bh nth_mem [of j "block_entries I"] by (auto simp: searchable_def filter_ok_def list_all_iff)
  then obtain ok where ok: "contains fb fl (bh_offset bh) key = Some ok"
    using contains_total [of fb fl "bh_offset bh" key "[]"] by auto
  have "rejected E r I fb key \<longleftrightarrow> \<not> ok"
    using fl j bh ok by (simp add: rejected_def Cons_nth_drop_Suc [symmetric])
  then show ?thesis
    using that [of c'] c' fl ok by (simp add: filter_test_def)
next
  case False
  then show ?thesis
    using that [of c] s by (auto simp: filter_test_def rejected_def split: option.splits)
qed

lemma find_table_step:
  assumes s: "searchable E C r I fb c"
  obtains c' where "find_table E C key filtered fill noValue r c =
      Some (r, c', if filtered \<and> rejected E r I fb key then Inl TableNotFound else answer (rd_cmp r) key noValue (table_entries E r I))"
    "searchable E C r I fb c'"
proof -
  have ok: "table_ok E r I" "comparison (rd_cmp r)" "block_ok (rd_cmp r) I" "rd_err r = None"
    using s by (auto simp: searchable_def table_ok_def Let_def)
  obtain c1 where c1: "getIndexBlock E C r True c = Some (c1, Inr I)" "searchable E C r I fb c1"
    by (rule index_block [OF s])
  obtain i i1 i2 j where i: "newBlockIter (rd_cmp r) I None True = Some i" "j = below_count (rd_cmp r) key (block_entries I)"
    "bi_Seek key i = Some (i1, j < length (block_entries I))" "bi_err i1 = None"
    "j < length (block_entries I) \<Longrightarrow> bi_Key i1 = Some (fst (block_entries I ! j)) \<and> bi_Value i1 = Some (snd (block_entries I ! j))"
    "bi_Next i1 = Some (i2, Suc j < length (block_entries I))" "bi_err i2 = None"
    "Suc j < length (block_entries I) \<Longrightarrow> bi_Value i2 = Some (snd (block_entries I ! Suc j))"
    using seek_block [OF ok(2,3), of True key] by metis
  show ?thesis
  proof (cases "j < length (block_entries I)")
    case True
    define e where "e = block_entries I ! j"
    have e: "e \<in> set (block_entries I)"
      using True by (simp add: e_def)
    obtain bh n b where b: "te_decodeBlockHandle E (snd e) = (bh, n)" "block_of E r e = Some (bh, b)"
      using data_block [OF ok(1) e] by metis
    obtain c2 where c2: "filter_test E C filtered r (bh_offset bh) key c1 = Some (c2, if filtered \<and> rejected E r I fb key then Inl TableNotFound else Inr ())"
      "searchable E C r I fb c2"
      by (rule filter_test_step [OF c1(2) i(2) True, of bh]) (use b in \<open>auto simp: entry_offset_def e_def\<close>)
    note be = b(2) [unfolded e_def]
    obtain c3 where c3: "find_block E C key fill noValue i1 bh r c2 = Some (r, c3, answer (rd_cmp r) key noValue (table_entries E r I))" "searchable E C r I fb c3"
      using find_block_step [OF c2(2) True be i(6-8), of key fill noValue thesis] that answer_found [OF ok(2,1) i(2) True be refl] by (simp add: Let_def)
    have h: "index_handle E r i1 = (r, Inr bh)"
      using index_handle_step [OF ok(1) e _ b(2), of i1] i(5) True by (simp add: e_def)
    show ?thesis
    proof (cases "filtered \<and> rejected E r I fb key")
      case True
      then show ?thesis
        using that [of c2] ok(4) c1(1) i(1,3) \<open>j < _\<close> h c2 by (simp add: find_table_def)
    next
      case False
      then show ?thesis
        using that [of c3] ok(4) c1(1) i(1,3) \<open>j < _\<close> h c2(1) c3 by (cases filtered) (simp_all add: find_table_def)
    qed
  next
    case False
    then have "j = length (block_entries I)"
      using i(2) below_count_le [of "rd_cmp r" key "block_entries I"] by simp
    then show ?thesis
      using that [of c1] ok(4) c1 i answer_missing [OF ok(2,1), of key] by (auto simp: find_table_def failed_def block_iter_error_def rejected_def split: option.splits)
  qed
qed

section \<open>The entries of a table are sorted\<close>

lemma sorted_blocks:
  assumes cmp: "comparison cmp" and "sorted_wrt (\<lambda>e e'. cmp (fst e) (fst e') < 0) es"
    and "\<And>e. e \<in> set es \<Longrightarrow> sorted_wrt (\<lambda>d d'. cmp (fst d) (fst d') < 0) (D e) \<and> (\<forall>d \<in> set (D e). cmp (fst d) (fst e) \<le> 0)"
    and "\<And>e e'. (e, e') \<in> set (zip es (tl es)) \<Longrightarrow> \<forall>d \<in> set (D e'). cmp (fst e) (fst d) < 0"
  shows "sorted_wrt (\<lambda>d d'. cmp (fst d) (fst d') < 0) (concat (map D es)) \<and>
    (case es of [] \<Rightarrow> True | e # es' \<Rightarrow> \<forall>d \<in> set (concat (map D es')). cmp (fst e) (fst d) < 0)"
  using assms(2-4)
proof (induction es)
  case (Cons e es)
  have le: "cmp a x \<le> 0 \<Longrightarrow> cmp x y < 0 \<Longrightarrow> cmp a y < 0" and lt: "cmp a x < 0 \<Longrightarrow> cmp x y < 0 \<Longrightarrow> cmp a y < 0" for a x y
    using cmp unfolding comparison_def by (blast, meson order_less_imp_le)
  have IH: "sorted_wrt (\<lambda>d d'. cmp (fst d) (fst d') < 0) (concat (map D es))"
    "\<And>e' es'. es = e' # es' \<Longrightarrow> \<forall>d \<in> set (concat (map D es')). cmp (fst e') (fst d) < 0"
  proof -
    have "sorted_wrt (\<lambda>d d'. cmp (fst d) (fst d') < 0) (concat (map D es)) \<and>
      (case es of [] \<Rightarrow> True | e # es' \<Rightarrow> \<forall>d \<in> set (concat (map D es')). cmp (fst e) (fst d) < 0)"
    proof (rule Cons.IH)
      show "\<forall>d \<in> set (D e'). cmp (fst e) (fst d) < 0" if "(e, e') \<in> set (zip es (tl es))" for e e'
        using that Cons.prems(3) [of e e'] by (cases es) auto
    qed (use Cons.prems(1,2) in simp_all)
    then show "sorted_wrt (\<lambda>d d'. cmp (fst d) (fst d') < 0) (concat (map D es))"
      "\<And>e' es'. es = e' # es' \<Longrightarrow> \<forall>d \<in> set (concat (map D es')). cmp (fst e') (fst d) < 0"
      by auto
  qed
  have after: "cmp (fst e) (fst d) < 0" if "d \<in> set (concat (map D es))" for d
  proof (cases es)
    case (Cons e' es')
    then have "cmp (fst e) (fst e') < 0" "\<forall>d \<in> set (D e'). cmp (fst e) (fst d) < 0"
      using Cons.prems(1) Cons.prems(3) [of e e'] by auto
    then show ?thesis
      using that IH(2) [OF Cons] lt Cons by auto
  qed (use that in simp)
  have "cmp (fst d) (fst d') < 0" if "d \<in> set (D e)" "d' \<in> set (concat (map D es))" for d d'
    using le [of "fst d" "fst e" "fst d'"] after [OF that(2)] that(1) Cons.prems(2) [of e] by simp
  then show ?case
    using IH(1) Cons.prems(2) [of e] after by (simp add: sorted_wrt_append) blast
qed simp

lemma table_sorted:
  assumes "comparison (rd_cmp r)" and ok: "table_ok E r I"
  shows "sorted_wrt (\<lambda>d d'. rd_cmp r (fst d) (fst d') < 0) (table_entries E r I)"
proof -
  have "block_ok (rd_cmp r) I"
    using ok by (simp add: table_ok_def Let_def)
  then have "sorted_wrt (\<lambda>e e'. rd_cmp r (fst e) (fst e') < 0) (block_entries I)"
    by (rule block_ok_entries(2))
  moreover have "sorted_wrt (\<lambda>d d'. rd_cmp r (fst d) (fst d') < 0) (data_entries E r e) \<and> (\<forall>d \<in> set (data_entries E r e). rd_cmp r (fst d) (fst e) \<le> 0)"
    if e: "e \<in> set (block_entries I)" for e
    using data_block [OF ok e] block_ok_entries(2) by metis
  moreover have "\<forall>d \<in> set (data_entries E r e'). rd_cmp r (fst e) (fst d) < 0" if "(e, e') \<in> set (zip (block_entries I) (tl (block_entries I)))" for e e'
    using ok that by (auto simp: table_ok_def Let_def list_all_iff)
  ultimately show ?thesis
    using sorted_blocks [OF assms(1), of "block_entries I" "data_entries E r"] by (simp add: table_entries_def)
qed

lemma first_equal:
  assumes cmp: "comparison cmp" and sorted: "sorted_wrt (\<lambda>d d'. cmp (fst d) (fst d') < 0) es"
  shows "find (\<lambda>e. cmp (fst e) key = 0) es =
    (case filter (\<lambda>e. 0 \<le> cmp (fst e) key) es of [] \<Rightarrow> None | e # _ \<Rightarrow> if cmp (fst e) key = 0 then Some e else None)"
  using sorted
proof (induction es)
  case (Cons e es)
  consider "cmp (fst e) key < 0" | "cmp (fst e) key = 0" | "0 < cmp (fst e) key"
    by linarith
  then show ?case
  proof cases
    case 3
    have "cmp (fst d) key \<noteq> 0" if "d \<in> set es" for d
    proof -
      have "cmp (fst e) (fst d) < 0"
        using that Cons.prems by simp
      then have "cmp (fst d) key \<le> 0 \<Longrightarrow> cmp (fst e) key < 0"
        using cmp unfolding comparison_def by blast
      then show ?thesis
        using 3 by linarith
    qed
    then have "find (\<lambda>e. cmp (fst e) key = 0) es = None"
      unfolding find_None_iff by blast
    then show ?thesis
      using 3 by simp
  qed (use Cons in auto)
qed simp

section \<open>A table with two blocks\<close>

text \<open>
  A file of two data blocks and the index, read through a cache that holds everything.  Handles are two bytes, the checksum is 0 and nothing is compressed.  The key
  of the first index entry, \<^verbatim>\<open>bzz\<close>, lies between the last key of its block, \<^verbatim>\<open>bz\<close>, and the key \<^verbatim>\<open>c\<close> of the next.
\<close>

definition sample_file :: bytes where
  "sample_file = bl_data sample_block @ [0, 0, 0, 0, 0] @ [0, 1, 1, 99, 52, 0, 0, 0, 0, 1, 0, 0, 0] @ [0, 0, 0, 0, 0] @
     [0, 3, 2, 98, 122, 122, 0, 33, 0, 1, 2, 99, 38, 13, 0, 0, 0, 0, 8, 0, 0, 0, 2, 0, 0, 0] @ [0, 0, 0, 0, 0]"

definition sample_env :: table_env where
  "sample_env = \<lparr>te_blockTrailerLen = 5, te_footerLen = 48, te_magic = [], te_noCompression = 0, te_snappyCompression = 1,
     te_decodeBlockHandle = (\<lambda>xs. case xs of o' # l # _ \<Rightarrow> (\<lparr>bh_offset = ucast o', bh_length = ucast l\<rparr>, 2) | _ \<Rightarrow> (no_handle, 0)),
     te_crc = (\<lambda>xs. 0), te_snappy = (\<lambda>xs. Inl ''no decompression''), te_ReadAt = (\<lambda>n off. (take n (drop (nat off) sample_file), None))\<rparr>"

definition map_cache :: "(u64 \<Rightarrow> cached option) block_cache" where
  "map_cache = \<lparr>bc_lookup = (\<lambda>c. c), bc_add = (\<lambda>off v c. c(off \<mapsto> v))\<rparr>"

definition sample_reader :: reader where
  "sample_reader = \<lparr>rd_err = None, rd_useCache = True, rd_cmp = Compare, rd_filter = None, rd_verifyChecksum = True, rd_dataEnd = 56,
     rd_metaBH = no_handle, rd_indexBH = \<lparr>bh_offset = 56, bh_length = 26\<rparr>, rd_filterBH = no_handle, rd_indexBlock = None, rd_filterBlock = None\<rparr>"

definition sample_index :: block where
  "sample_index = \<lparr>bl_data = [0, 3, 2, 98, 122, 122, 0, 33, 0, 1, 2, 99, 38, 13, 0, 0, 0, 0, 8, 0, 0, 0, 2, 0, 0, 0], bl_restartsLen = 2, bl_restartsOffset = 14\<rparr>"

definition no_filter :: filterBlock where
  "no_filter = \<lparr>fb_data = [], fb_oOffset = 0, fb_baseLg = 0, fb_filtersNum = 0\<rparr>"

lemma sample_fields: "rd_cmp sample_reader = Compare" "rd_filter sample_reader = None"
  by (simp_all add: sample_reader_def)

lemma sample_table_ok: "table_ok sample_env sample_reader sample_index"
  by code_simp

lemma sample_apart: "apart (stored_blocks sample_env sample_reader sample_index no_filter)"
  by code_simp

lemma sample_searchable: "searchable sample_env map_cache sample_reader sample_index no_filter Map.empty"
proof -
  have "comparison (rd_cmp sample_reader)" "cache_law map_cache" "filter_ok sample_env sample_reader sample_index no_filter"
    "cache_ok map_cache bs Map.empty" for bs
    using comparison_bytewise by (auto simp: sample_reader_def map_cache_def cache_law_def filter_ok_def cache_ok_def list_all_iff)
  then show ?thesis
    using sample_table_ok sample_apart by (simp add: searchable_def)
qed

lemma sample_table_entries:
  "table_entries sample_env sample_reader sample_index = [([97, 98], [49]), ([97, 98, 99], [50, 50]), ([98], []), ([98, 122], [51]), ([99], [52])]"
  by code_simp

section \<open>What the searches return\<close>

text \<open>
  C5: a search in a well-formed table returns the first entry of the table, over all data blocks, whose key is not below the one given, and not found if there is
  none; with the filter, not found if the filter turns the key down.  It does not panic, neither the reader nor what the cache may hold changes, and the
  blocks may come from the file or the cache.
\<close>

theorem find_first_entry:
  assumes "searchable E C r I fb c"
  shows "\<exists>c'. find_table E C key filtered fillCache noValue r c =
      Some (r, c', if filtered \<and> rejected E r I fb key then Inl TableNotFound else answer (rd_cmp r) key noValue (table_entries E r I)) \<and>
    searchable E C r I fb c'"
  using find_table_step [OF assms, of key filtered fillCache noValue] by metis

theorem find_first_entry_witness:
  "searchable sample_env map_cache sample_reader sample_index no_filter Map.empty \<and>
   (\<exists>c'. find_table sample_env map_cache [98, 122, 48] True True False sample_reader Map.empty = Some (sample_reader, c', Inr (Some [99], Some [52])))"
  using find_first_entry [OF sample_searchable, of "[98, 122, 48]" True True False] sample_searchable
  by (auto simp: sample_table_entries answer_def shown_entry_def rejected_def sample_fields)

text \<open>
  C28: \<^verbatim>\<open>Get\<close> returns the value of the entry of the table whose key equals the one given, and not found if there is none.
\<close>

theorem get_exact_entry:
  assumes "searchable E C r I fb c"
  shows "\<exists>c'. reader_Get E C key fillCache r c =
      Some (r, c', case find (\<lambda>e. rd_cmp r (fst e) key = 0) (table_entries E r I) of None \<Rightarrow> Inl TableNotFound | Some e \<Rightarrow> Inr (Some (snd e))) \<and>
    searchable E C r I fb c'"
proof -
  have ok: "comparison (rd_cmp r)" "table_ok E r I" "rd_err r = None"
    using assms by (auto simp: searchable_def table_ok_def Let_def)
  obtain c' where c': "find_table E C key False fillCache False r c = Some (r, c', answer (rd_cmp r) key False (table_entries E r I))" "searchable E C r I fb c'"
    using find_table_step [OF assms, of key False fillCache False] by auto
  show ?thesis
    using c' ok(3) unfolding first_equal [OF ok(1) table_sorted [OF ok(1,2)]]
    by (cases "filter (\<lambda>e. 0 \<le> rd_cmp r (fst e) key) (table_entries E r I)") (auto simp: reader_Get_def answer_def shown_entry_def)
qed

theorem get_exact_entry_witness:
  "searchable sample_env map_cache sample_reader sample_index no_filter Map.empty \<and>
   (\<exists>c'. reader_Get sample_env map_cache [98, 122] True sample_reader Map.empty = Some (sample_reader, c', Inr (Some [51]))) \<and>
   (\<exists>c'. reader_Get sample_env map_cache [98, 122, 48] True sample_reader Map.empty = Some (sample_reader, c', Inl TableNotFound))"
  using get_exact_entry [OF sample_searchable, of "[98, 122]" True] get_exact_entry [OF sample_searchable, of "[98, 122, 48]" True] sample_searchable
  by (auto simp: sample_table_entries sample_fields)

section \<open>A damaged index\<close>

text \<open>When the handle of an index entry is bad, \<^verbatim>\<open>OffsetOf\<close> sets the error of the reader but returns offset 0 without an error.\<close>

lemma offset_of_bad_handle:
  assumes "rd_err r = None" and "readBlockCached E C r (rd_indexBH r) True True c = Some (c', Inr I)" and "comparison (rd_cmp r)" and "block_ok (rd_cmp r) I"
    and j: "j = below_count (rd_cmp r) key (block_entries I)" "j < length (block_entries I)" and "te_decodeBlockHandle E (snd (block_entries I ! j)) = (bh, 0)"
  shows "reader_OffsetOf E C key r c = Some (r\<lparr>rd_err := Some (newErrCorruptedBH r (rd_indexBH r) ''bad data block handle'')\<rparr>, c', Inr 0)"
proof -
  obtain i i1 where "newBlockIter (rd_cmp r) I None True = Some i" "bi_Seek key i = Some (i1, True)" "bi_Value i1 = Some (snd (block_entries I ! j))"
    using seek_block [OF assms(3,4), of True key] j by metis
  then show ?thesis
    using assms by (simp add: reader_OffsetOf_def index_handle_def Let_def)
qed

end
