(* ===== verification/Ldb_Lookup.thy ===== *)
theory Ldb_Lookup
  imports Ldb_Version Ldb_Table_Find
begin

text \<open>
  The lookup of a key in the table files of a version: \<^verbatim>\<open>tOps.open\<close>, \<^verbatim>\<open>tOps.find\<close> and \<^verbatim>\<open>tOps.findKey\<close> of \<^verbatim>\<open>goleveldb/leveldb/table.go\<close> join \<^verbatim>\<open>version.get\<close> to the reader of table files
  with its block cache and its filter.  Internal keys are byte strings in the files; how they are formed and parsed is in a file that is not part of the repository, and
  is the record \<open>key_coding\<close>.  The blocks of a file have a namespace of their own in the cache and a lookup searches a file at most once, so the state of the cache of a file, \<open>cst\<close>,
  is that before the lookup.
\<close>

section \<open>Searching a table file\<close>

record 'ik key_coding =
  kc_bytes :: "'ik \<Rightarrow> bytes"
  kc_key :: "bytes \<Rightarrow> 'ik"
  kc_parse :: "bytes \<Rightarrow> (bytes \<times> nat \<times> key_type) option"
  kc_seq :: "'ik \<Rightarrow> nat"
  kc_kind :: "'ik \<Rightarrow> key_type"

text \<open>
  The fields of \<^verbatim>\<open>tOps\<close> by the number of a file: the tables that the file cache holds open, none once it is closed, and the files of the storage; a block cache may be missing.
\<close>

record table_ops =
  to_closed :: bool
  to_opened :: "int \<Rightarrow> (table_env \<times> reader) option"
  to_storage :: "int \<Rightarrow> bytes + table_env"
  to_options :: table_options
  to_blockCache :: bool

datatype tops_error = OpsClosed | OpsStorage bytes | OpsTable table_error | OpsPanic

definition tops_open :: "table_ops \<Rightarrow> 'ik tFile \<Rightarrow> (tops_error + table_env \<times> reader) option" where
  "tops_open T f =
     (if to_closed T then Some (Inl OpsClosed)
      else case to_opened T (fd_num f) of
             Some tr \<Rightarrow> Some (Inr tr)
           | None \<Rightarrow>
               (case to_storage T (fd_num f) of
                  Inl err \<Rightarrow> Some (Inl (OpsStorage err))
                | Inr E \<Rightarrow> map_option (map_sum OpsTable (Pair E)) (NewReader E (to_options T) (to_blockCache T) (file_size f))))"

text \<open>What a search in a table is to its caller.\<close>

definition search_result :: "('c, bytes option \<times> bytes option) search \<Rightarrow> (bytes, bytes option, tops_error) find_result" where
  "search_result s =
     (case s of
        None \<Rightarrow> FindError OpsPanic
      | Some (_, _, Inl TableNotFound) \<Rightarrow> NotFound
      | Some (_, _, Inl err) \<Rightarrow> FindError (OpsTable err)
      | Some (_, _, Inr (k, v)) \<Rightarrow> Found (case k of None \<Rightarrow> [] | Some k \<Rightarrow> k) v)"

definition with_table ::
  "table_ops \<Rightarrow> 'ik tFile \<Rightarrow> (table_env \<Rightarrow> reader \<Rightarrow> ('c, bytes option \<times> bytes option) search) \<Rightarrow> (bytes, bytes option, tops_error) find_result" where
  "with_table T f g =
     (case tops_open T f of
        None \<Rightarrow> FindError OpsPanic
      | Some (Inl err) \<Rightarrow> FindError err
      | Some (Inr (E, r)) \<Rightarrow> search_result (g E r))"

text \<open>\<^verbatim>\<open>find\<close> and \<^verbatim>\<open>findKey\<close>; both pass \<^verbatim>\<open>filtered\<close>.\<close>

definition tops_find ::
  "('ik \<Rightarrow> bytes) \<Rightarrow> table_ops \<Rightarrow> 'c block_cache \<Rightarrow> (int \<Rightarrow> 'c) \<Rightarrow> bool \<Rightarrow> 'ik tFile \<Rightarrow> 'ik \<Rightarrow> (bytes, bytes option, tops_error) find_result" where
  "tops_find enc T C cst fillCache f key = with_table T f (\<lambda>E r. reader_Find E C (enc key) True fillCache r (cst (fd_num f)))"

definition tops_findKey ::
  "('ik \<Rightarrow> bytes) \<Rightarrow> table_ops \<Rightarrow> 'c block_cache \<Rightarrow> (int \<Rightarrow> 'c) \<Rightarrow> bool \<Rightarrow> 'ik tFile \<Rightarrow> 'ik \<Rightarrow> (bytes, bytes option, tops_error) find_result" where
  "tops_findKey enc T C cst fillCache f key =
     with_table T f (\<lambda>E r. map_option (\<lambda>(r, c, res). (r, c, map_sum id (\<lambda>k. (k, None)) res)) (reader_FindKey E C (enc key) True fillCache r (cst (fd_num f))))"

text \<open>The search that \<^verbatim>\<open>version.get\<close> chooses.\<close>

definition find_in ::
  "('ik \<Rightarrow> bytes) \<Rightarrow> table_ops \<Rightarrow> 'c block_cache \<Rightarrow> (int \<Rightarrow> 'c) \<Rightarrow> bool \<Rightarrow> bool \<Rightarrow> 'ik tFile \<Rightarrow> 'ik \<Rightarrow> (bytes, bytes option, tops_error) find_result" where
  "find_in enc T C cst fillCache noValue = (if noValue then tops_findKey enc T C cst fillCache else tops_find enc T C cst fillCache)"

lemma find_in_table:
  assumes "tops_open T f = Some (Inr (E, r))" and "searchable E C r I fb (cst (fd_num f))"
  shows "find_in enc T C cst fillCache noValue f key =
    (if rejected E r I fb (enc key) then NotFound
     else case filter (\<lambda>d. 0 \<le> rd_cmp r (fst d) (enc key)) (table_entries E r I) of
            [] \<Rightarrow> NotFound
          | d # _ \<Rightarrow> Found (fst d) (snd (shown_entry noValue d)))"
proof -
  obtain c' where "find_table E C (enc key) True fillCache noValue r (cst (fd_num f)) =
      Some (r, c', if rejected E r I fb (enc key) then Inl TableNotFound else answer (rd_cmp r) (enc key) noValue (table_entries E r I))"
    by (rule find_table_step [OF assms(2), of "enc key" True fillCache noValue]) simp
  then show ?thesis
    using assms(1)
    by (cases noValue)
      (simp_all add: find_in_def tops_find_def tops_findKey_def with_table_def reader_Find_def reader_FindKey_def search_result_def answer_def shown_entry_def split: list.split)
qed

section \<open>Table files\<close>

text \<open>The index and the filter of an open table.\<close>

definition table_index :: "table_env \<Rightarrow> reader \<Rightarrow> block" where
  "table_index E r =
     (case rd_indexBlock r of
        Some b \<Rightarrow> b
      | None \<Rightarrow> (case readBlock E r (rd_indexBH r) True of Some (Inr b) \<Rightarrow> b | _ \<Rightarrow> \<lparr>bl_data = [], bl_restartsLen = 0, bl_restartsOffset = 0\<rparr>))"

definition table_filter :: "table_env \<Rightarrow> reader \<Rightarrow> filterBlock" where
  "table_filter E r =
     (case rd_filterBlock r of
        Some b \<Rightarrow> b
      | None \<Rightarrow> (case readFilterBlock E r (rd_filterBH r) of Some (Inr b) \<Rightarrow> b | _ \<Rightarrow> no_filter))"

text \<open>The entries of a file as a lookup shows them.\<close>

definition file_entries :: "'ik key_coding \<Rightarrow> table_ops \<Rightarrow> bool \<Rightarrow> 'ik tFile \<Rightarrow> ('ik \<times> bytes option) list" where
  "file_entries K T noValue t =
     (case tops_open T t of
        Some (Inr (E, r)) \<Rightarrow> map (\<lambda>d. (kc_key K (fst d), snd (shown_entry noValue d))) (table_entries E r (table_index E r))
      | _ \<Rightarrow> [])"

text \<open>The key of an index entry is a key of its block unless it belongs to another user key than the entries of the next block.\<close>

definition index_separates :: "'ik key_ops \<Rightarrow> 'ik key_coding \<Rightarrow> table_env \<Rightarrow> reader \<Rightarrow> (bytes \<times> bytes) list \<Rightarrow> bool" where
  "index_separates ks K E r es \<longleftrightarrow>
     list_all (\<lambda>(e, e'). list_ex (\<lambda>d. fst d = fst e) (data_entries E r e) \<or>
         list_all (\<lambda>d. k_ukey ks (kc_key K (fst d)) \<noteq> k_ukey ks (kc_key K (fst e))) (data_entries E r e'))
       (zip es (tl es))"

text \<open>The filter of a block turns no user key down that is in the block.\<close>

definition filter_covers :: "'ik key_ops \<Rightarrow> 'ik key_coding \<Rightarrow> table_env \<Rightarrow> reader \<Rightarrow> filterBlock \<Rightarrow> (bytes \<times> bytes) list \<Rightarrow> bool" where
  "filter_covers ks K E r fb es \<longleftrightarrow>
     (case rd_filter r of
        None \<Rightarrow> True
      | Some fl \<Rightarrow> \<forall>e \<in> set es. \<forall>d \<in> set (data_entries E r e). \<forall>k. k_ukey ks k = k_ukey ks (kc_key K (fst d)) \<longrightarrow> contains fb fl (entry_offset E e) (kc_bytes K k) = Some True)"

definition keys_formed :: "'ik key_ops \<Rightarrow> 'ik key_coding \<Rightarrow> table_env \<Rightarrow> reader \<Rightarrow> 'ik tFile \<Rightarrow> bool" where
  "keys_formed ks K E r t \<longleftrightarrow>
     (\<forall>a b. rd_cmp r (kc_bytes K a) (kc_bytes K b) = k_icmp ks a b) \<and>
     list_all (\<lambda>e. kc_bytes K (kc_key K (fst e)) = fst e) (block_entries (table_index E r)) \<and>
     list_all (\<lambda>d. let k = kc_key K (fst d)
         in kc_bytes K k = fst d \<and> kc_parse K (fst d) = Some (k_ukey ks k, kc_seq K k, kc_kind K k) \<and> k_icmp ks (imin t) k \<le> 0 \<and> k_icmp ks k (imax t) \<le> 0)
       (table_entries E r (table_index E r))"

text \<open>A table file in order.\<close>

definition file_sound :: "'ik key_ops \<Rightarrow> 'ik key_coding \<Rightarrow> 'c block_cache \<Rightarrow> table_env \<Rightarrow> reader \<Rightarrow> 'c \<Rightarrow> 'ik tFile \<Rightarrow> bool" where
  "file_sound ks K C E r c t \<longleftrightarrow>
     searchable E C r (table_index E r) (table_filter E r) c \<and> keys_formed ks K E r t \<and>
     index_separates ks K E r (block_entries (table_index E r)) \<and> filter_covers ks K E r (table_filter E r) (block_entries (table_index E r))"

definition table_sound :: "'ik key_ops \<Rightarrow> 'ik key_coding \<Rightarrow> table_ops \<Rightarrow> 'c block_cache \<Rightarrow> (int \<Rightarrow> 'c) \<Rightarrow> 'ik tFile \<Rightarrow> bool" where
  "table_sound ks K T C cst t = (case tops_open T t of Some (Inr (E, r)) \<Rightarrow> file_sound ks K C E r (cst (fd_num t)) t | _ \<Rightarrow> False)"

section \<open>The filter\<close>

lemma index_before:
  assumes cmp: "comparison (rd_cmp r)" and ok: "table_ok E r I" and ji: "j < i" "i < length (block_entries I)" and d: "d \<in> set (data_entries E r (block_entries I ! i))"
  shows "rd_cmp r (fst (block_entries I ! j)) (fst d) < 0"
proof -
  let ?es = "block_entries I"
  have "(?es ! (i - 1), ?es ! i) \<in> set (zip ?es (tl ?es))"
    using ji by (force simp: set_zip nth_tl)
  then have last: "rd_cmp r (fst (?es ! (i - 1))) (fst d) < 0"
    using ok d by (fastforce simp: table_ok_def Let_def list_all_iff)
  show ?thesis
  proof (cases "j = i - 1")
    case False
    have "sorted_wrt (\<lambda>e e'. rd_cmp r (fst e) (fst e') < 0) ?es"
      using ok block_ok_entries(2) by (auto simp: table_ok_def Let_def)
    then have "rd_cmp r (fst (?es ! j)) (fst (?es ! (i - 1))) < 0"
      by (rule sorted_wrt_nth_less) (use ji False in simp_all)
    then show ?thesis
      using last cmp unfolding comparison_def by (meson order_less_imp_le)
  qed (use last in simp)
qed

text \<open>A filter that covers the blocks lets every lookup through that has an entry to return.\<close>

context internal_keys
begin

lemma between_ukey: "k_icmp ks a b \<le> 0 \<Longrightarrow> k_icmp ks b c \<le> 0 \<Longrightarrow> k_ukey ks a = k_ukey ks c \<Longrightarrow> k_ukey ks b = k_ukey ks a"
  using icmp_le_ukey [of a b] icmp_le_ukey [of b c] ucmp_swap [of "k_ukey ks a" "k_ukey ks b"] ucmp_eq [of "k_ukey ks a" "k_ukey ks b"] by auto

lemma file_soundD:
  assumes "file_sound ks K C E r c t"
  shows "comparison (rd_cmp r)" "table_ok E r (table_index E r)" "rd_cmp r (kc_bytes K a) (kc_bytes K b) = k_icmp ks a b"
    "e \<in> set (block_entries (table_index E r)) \<Longrightarrow> kc_bytes K (kc_key K (fst e)) = fst e"
    "e \<in> set (block_entries (table_index E r)) \<Longrightarrow> d \<in> set (data_entries E r e) \<Longrightarrow> kc_bytes K (kc_key K (fst d)) = fst d"
    "d \<in> set (table_entries E r (table_index E r)) \<Longrightarrow> kc_bytes K (kc_key K (fst d)) = fst d"
  using assms by (auto simp: file_sound_def searchable_def keys_formed_def list_all_iff table_entries_def Let_def)

text \<open>An index key of an earlier block is below the entry; if it belongs to the same user key, it is a key of its own block.\<close>

lemma index_key_below:
  assumes sound: "file_sound ks K C E r c t" and es: "es = block_entries (table_index E r)" and ji: "j < i" "i < length es" and d: "d \<in> set (data_entries E r (es ! i))"
  shows "k_icmp ks (kc_key K (fst (es ! j))) (kc_key K (fst d)) < 0"
proof -
  have "rd_cmp r (fst (es ! j)) (fst d) < 0"
    using index_before [OF file_soundD(1,2) [OF sound] ji(1)] ji(2) d by (simp add: es)
  then show ?thesis
    using file_soundD(3) [OF sound, of "kc_key K (fst (es ! j))" "kc_key K (fst d)"] file_soundD(4) [OF sound, of "es ! j"] file_soundD(5) [OF sound, of "es ! i" d] ji d by (simp add: es)
qed

lemma index_key_stored:
  assumes sound: "file_sound ks K C E r c t" and es: "es = block_entries (table_index E r)" and ji: "j < i" "i < length es" and x: "x \<in> set (data_entries E r (es ! i))"
    and u: "k_ukey ks (kc_key K (fst (es ! j))) = k_ukey ks (kc_key K (fst x))"
  shows "\<exists>d \<in> set (data_entries E r (es ! j)). fst d = fst (es ! j)"
proof -
  have "\<exists>d \<in> set (data_entries E r (es ! Suc j)). k_ukey ks (kc_key K (fst d)) = k_ukey ks (kc_key K (fst (es ! j)))"
  proof (cases "i = Suc j")
    case True
    then show ?thesis
      using x u by auto
  next
    case False
    then have sj: "Suc j < i" "es ! Suc j \<in> set es"
      using ji by simp_all
    obtain b where b: "data_entries E r (es ! Suc j) = block_entries b" "block_ok (rd_cmp r) b" "\<And>d. d \<in> set (block_entries b) \<Longrightarrow> rd_cmp r (fst d) (fst (es ! Suc j)) \<le> 0"
      using data_block [OF file_soundD(2) [OF sound], of "es ! Suc j"] sj(2) unfolding es by metis
    obtain d where d: "d \<in> set (data_entries E r (es ! Suc j))"
      using block_ok_entries(1) [OF b(2)] b(1) by (metis last_in_set)
    have "k_icmp ks (kc_key K (fst d)) (kc_key K (fst (es ! Suc j))) \<le> 0"
      using b(3) [of d] d b(1) file_soundD(3) [OF sound, of "kc_key K (fst d)" "kc_key K (fst (es ! Suc j))"] file_soundD(4) [OF sound, of "es ! Suc j"]
        file_soundD(5) [OF sound, of "es ! Suc j" d] sj(2) by (simp add: es)
    then have "k_icmp ks (kc_key K (fst d)) (kc_key K (fst x)) \<le> 0"
      using i_le_trans index_key_below [OF sound es sj(1) ji(2) x] order_less_imp_le by blast
    moreover have "k_icmp ks (kc_key K (fst (es ! j))) (kc_key K (fst d)) < 0"
      by (rule index_key_below [OF sound es, of j "Suc j"]) (use sj(1) ji(2) d in simp_all)
    ultimately show ?thesis
      using between_ukey [of "kc_key K (fst (es ! j))" "kc_key K (fst d)" "kc_key K (fst x)"] u d by auto
  qed
  moreover have "(es ! j, es ! Suc j) \<in> set (zip es (tl es))"
    using ji by (force simp: set_zip nth_tl)
  moreover have "list_ex (\<lambda>d. fst d = fst e) (data_entries E r e) \<or> list_all (\<lambda>d. k_ukey ks (kc_key K (fst d)) \<noteq> k_ukey ks (kc_key K (fst e))) (data_entries E r e')"
    if "(e, e') \<in> set (zip es (tl es))" for e e'
    using sound that unfolding file_sound_def index_separates_def list_all_iff es by fastforce
  ultimately show ?thesis
    unfolding list_ex_iff list_all_iff by blast
qed

lemma filter_passes:
  assumes sound: "file_sound ks K C E r c t" and x: "x \<in> set (table_entries E r (table_index E r))"
    and vis: "k_ukey ks (kc_key K (fst x)) = k_ukey ks ikey" "0 \<le> k_icmp ks (kc_key K (fst x)) ikey"
  shows "\<not> rejected E r (table_index E r) (table_filter E r) (kc_bytes K ikey)"
proof -
  define es where "es = block_entries (table_index E r)"
  define j where "j = below_count (rd_cmp r) (kc_bytes K ikey) es"
  obtain e' where "e' \<in> set es" "x \<in> set (data_entries E r e')"
    using x by (auto simp: table_entries_def es_def)
  then obtain i where i: "i < length es" "x \<in> set (data_entries E r (es ! i))"
    by (metis in_set_conv_nth)
  have "rd_cmp r (fst x) (kc_bytes K ikey) = k_icmp ks (kc_key K (fst x)) ikey"
    using file_soundD(3) [OF sound, of "kc_key K (fst x)" ikey] file_soundD(5) [OF sound, of "es ! i" x] i by (simp add: es_def)
  then have "x \<in> set (filter (\<lambda>e. 0 \<le> rd_cmp r (fst e) (kc_bytes K ikey)) (data_entries E r (es ! i)))"
    using i(2) vis(2) by simp
  then have "\<not> rd_cmp r (fst (es ! i)) (kc_bytes K ikey) < 0"
    using blocks_below [OF file_soundD(1,2) [OF sound], of "es ! i" "kc_bytes K ikey"] i(1) by (auto simp only: es_def nth_mem list.set empty_iff)
  then have ij: "j \<le> i"
    unfolding j_def below_count_def by (metis (mono_tags, lifting) not_le_imp_less nth_mem set_takeWhileD takeWhile_nth)
  have e: "es ! j \<in> set es" "j < length es"
    using ij i(1) by simp_all
  have "\<not> rd_cmp r (fst (es ! j)) (kc_bytes K ikey) < 0"
    using nth_length_takeWhile [of "\<lambda>e. rd_cmp r (fst e) (kc_bytes K ikey) < 0" es] e(2) by (simp add: j_def below_count_def)
  then have "0 \<le> k_icmp ks (kc_key K (fst (es ! j))) ikey"
    using file_soundD(3) [OF sound, of "kc_key K (fst (es ! j))" ikey] file_soundD(4) [OF sound, of "es ! j"] e(1) by (simp add: es_def)
  then have low: "k_icmp ks ikey (kc_key K (fst (es ! j))) \<le> 0"
    by (simp only: i_ge)
  have "\<exists>d \<in> set (data_entries E r (es ! j)). k_ukey ks (kc_key K (fst d)) = k_ukey ks ikey"
  proof (cases "i = j")
    case True
    then show ?thesis
      using i(2) vis(1) by auto
  next
    case False
    then have ji: "j < i"
      using ij by simp
    have "k_ukey ks (kc_key K (fst (es ! j))) = k_ukey ks ikey"
      using between_ukey [OF low, of "kc_key K (fst x)"] index_key_below [OF sound es_def ji i] vis(1) by simp
    then show ?thesis
      using index_key_stored [OF sound es_def ji i] vis(1) by metis
  qed
  then have "contains (table_filter E r) fl (entry_offset E (es ! j)) (kc_bytes K ikey) = Some True" if "rd_filter r = Some fl" for fl
    using sound that e(1) by (fastforce simp: file_sound_def filter_covers_def es_def)
  then show ?thesis
    using e(2) by (auto simp: rejected_def es_def [symmetric] j_def [symmetric] Cons_nth_drop_Suc [symmetric] split: option.splits)
qed

end

section \<open>Files as a store of tables\<close>

text \<open>What is relied on of the internal keys as bytes: they can be read back, and the newer of two keys of a user key comes first.\<close>

locale key_bytes = internal_keys ks
  for ks :: "'ik key_ops" +
  fixes K :: "'ik key_coding"
  assumes key_of_bytes: "kc_key K (kc_bytes K k) = k"
    and seq_newer: "k_ukey ks x = k_ukey ks y \<Longrightarrow> k_icmp ks x y < 0 \<Longrightarrow> kc_seq K y \<le> kc_seq K x"

text \<open>The files that are in order; others read as empty, so that the laws of a store hold of every file.\<close>

definition checked_entries ::
  "'ik key_ops \<Rightarrow> 'ik key_coding \<Rightarrow> table_ops \<Rightarrow> 'c block_cache \<Rightarrow> (int \<Rightarrow> 'c) \<Rightarrow> bool \<Rightarrow> 'ik tFile \<Rightarrow> ('ik \<times> bytes option) list" where
  "checked_entries ks K T C cst noValue t = (if table_sound ks K T C cst t then file_entries K T noValue t else [])"

definition checked_find ::
  "'ik key_ops \<Rightarrow> 'ik key_coding \<Rightarrow> table_ops \<Rightarrow> 'c block_cache \<Rightarrow> (int \<Rightarrow> 'c) \<Rightarrow> bool \<Rightarrow> bool \<Rightarrow> 'ik tFile \<Rightarrow> 'ik \<Rightarrow> (bytes, bytes option, tops_error) find_result" where
  "checked_find ks K T C cst fillCache noValue t key =
     (if table_sound ks K T C cst t then find_in (kc_bytes K) T C cst fillCache noValue t key else NotFound)"

context key_bytes
begin

lemma checked_cases:
  obtains "checked_entries ks K T C cst noValue t = []" "checked_find ks K T C cst fillCache noValue t key = NotFound"
  | E r where "tops_open T t = Some (Inr (E, r))" "file_sound ks K C E r (cst (fd_num t)) t"
      "checked_entries ks K T C cst noValue t = map (\<lambda>d. (kc_key K (fst d), snd (shown_entry noValue d))) (table_entries E r (table_index E r))"
      "checked_find ks K T C cst fillCache noValue t key = find_in (kc_bytes K) T C cst fillCache noValue t key"
proof (cases "table_sound ks K T C cst t")
  case True
  then obtain E r where "tops_open T t = Some (Inr (E, r))" "file_sound ks K C E r (cst (fd_num t)) t"
    by (auto simp: table_sound_def split: option.splits sum.splits)
  then show ?thesis
    using that(2) True by (simp add: checked_entries_def checked_find_def file_entries_def)
qed (use that(1) in \<open>simp add: checked_entries_def checked_find_def\<close>)

lemma checked_find_law:
  "checked_find ks K T C cst fillCache noValue t ikey =
     (case filter (\<lambda>(k, v). 0 \<le> k_icmp ks k ikey) (checked_entries ks K T C cst noValue t) of [] \<Rightarrow> NotFound | (k, v) # _ \<Rightarrow> Found (kc_bytes K k) v) \<or>
   checked_find ks K T C cst fillCache noValue t ikey = NotFound \<and> visible ks (checked_entries ks K T C cst noValue) ikey t = []"
proof (cases rule: checked_cases [of T C cst noValue t fillCache ikey])
  case 1
  then show ?thesis
    by simp
next
  case (2 E r)
  let ?I = "table_index E r" and ?shown = "\<lambda>d. (kc_key K (fst d), snd (shown_entry noValue d))"
  have find: "checked_find ks K T C cst fillCache noValue t ikey =
      (if rejected E r ?I (table_filter E r) (kc_bytes K ikey) then NotFound
       else case filter (\<lambda>d. 0 \<le> rd_cmp r (fst d) (kc_bytes K ikey)) (table_entries E r ?I) of [] \<Rightarrow> NotFound | d # _ \<Rightarrow> Found (fst d) (snd (shown_entry noValue d)))"
    unfolding 2(4) by (rule find_in_table [OF 2(1)]) (use 2(2) in \<open>simp add: file_sound_def\<close>)
  note key = file_soundD(6) [OF 2(2)]
  have cmp: "rd_cmp r (fst d) (kc_bytes K ikey) = k_icmp ks (kc_key K (fst d)) ikey" if "d \<in> set (table_entries E r ?I)" for d
    using file_soundD(3) [OF 2(2), of "kc_key K (fst d)" ikey] by (simp add: key [OF that])
  have "filter (\<lambda>(k, v). 0 \<le> k_icmp ks k ikey) (map ?shown (table_entries E r ?I)) =
      map ?shown (filter (\<lambda>d. 0 \<le> rd_cmp r (fst d) (kc_bytes K ikey)) (table_entries E r ?I))"
    unfolding filter_map by (rule arg_cong [where f = "map _"], rule filter_cong) (use cmp in auto)
  moreover have "visible ks (checked_entries ks K T C cst noValue) ikey t = []" if "rejected E r ?I (table_filter E r) (kc_bytes K ikey)"
    using filter_passes [OF 2(2)] that by (auto simp: visible_def filter_empty_conv 2(3))
  moreover have "d # ds = filter (\<lambda>d. 0 \<le> rd_cmp r (fst d) (kc_bytes K ikey)) (table_entries E r ?I) \<Longrightarrow> kc_bytes K (kc_key K (fst d)) = fst d" for d ds
    by (rule key) (metis filter_is_subset list.set_intros(1) subsetD)
  ultimately show ?thesis
    unfolding find 2(3) by (auto split: list.split)
qed

lemma checked_store:
  "table_store ks (kc_parse K) (kc_bytes K) (checked_find ks K T C cst fillCache noValue) (checked_entries ks K T C cst noValue) (kc_seq K) (kc_kind K)"
proof unfold_locales
  show "sorted_wrt (\<lambda>a b. k_icmp ks (fst a) (fst b) < 0) (checked_entries ks K T C cst noValue t)" for t
  proof (cases rule: checked_cases [of T C cst noValue t fillCache "imin t"])
    case (2 E r)
    have "rd_cmp r (fst d) (fst d') = k_icmp ks (kc_key K (fst d)) (kc_key K (fst d'))"
      if "d \<in> set (table_entries E r (table_index E r))" "d' \<in> set (table_entries E r (table_index E r))" for d d'
      using file_soundD(3) [OF 2(2), of "kc_key K (fst d)" "kc_key K (fst d')"] file_soundD(6) [OF 2(2)] that by simp
    then show ?thesis
      using table_sorted [OF file_soundD(1,2) [OF 2(2)]] unfolding 2(3) sorted_wrt_map by (auto elim!: sorted_wrt_mono_rel [rotated])
  qed simp
  fix t k v
  assume "(k, v) \<in> set (checked_entries ks K T C cst noValue t)"
  then have "kc_parse K (kc_bytes K k) = Some (k_ukey ks k, kc_seq K k, kc_kind K k) \<and> k_icmp ks (imin t) k \<le> 0 \<and> k_icmp ks k (imax t) \<le> 0"
    by (cases rule: checked_cases [of T C cst noValue t fillCache "imin t"]) (auto simp: file_sound_def keys_formed_def list_all_iff Let_def)
  then show "kc_parse K (kc_bytes K k) = Some (k_ukey ks k, kc_seq K k, kc_kind K k)" "k_icmp ks (imin t) k \<le> 0 \<and> k_icmp ks k (imax t) \<le> 0"
    by simp_all
qed (use seq_newer checked_find_law in blast)+

text \<open>A lookup in a version all of whose files are in order.\<close>

lemma lookup_newest:
  assumes sound: "list_all (table_sound ks K T C cst) (concat (table_groups v aux))" and "\<not> v_closing v"
    and get: "version_get ks (kc_parse K) (find_in (kc_bytes K) T C cst fillCache noValue) sample v aux ikey = (r, err, tset)"
    and newer: "newer_first ks (file_entries K T noValue) (kc_seq K) ikey (table_groups v aux)"
    and "\<forall>i < length (v_levels v). 0 < i \<longrightarrow> level_sorted ks (v_levels v ! i)"
  shows "concat (map (visible_all ks (file_entries K T noValue) ikey) (table_groups v aux)) = [] \<Longrightarrow> r = None \<and> err = Some ErrNotFound"
    and "newest (kc_seq K) (concat (map (visible_all ks (file_entries K T noValue) ikey) (table_groups v aux))) e \<Longrightarrow> (r, err) = entry_result (kc_kind K) e"
proof -
  have ok: "table_sound ks K T C cst t" if "t \<in> set (concat (table_groups v aux))" for t
    using sound that unfolding list_all_iff by blast
  have "visible ks (checked_entries ks K T C cst noValue) ikey t = visible ks (file_entries K T noValue) ikey t" if "t \<in> set (concat (table_groups v aux))" for t
    using ok [OF that] by (simp add: visible_def checked_entries_def)
  then have vis: "visible_all ks (checked_entries ks K T C cst noValue) ikey ts = visible_all ks (file_entries K T noValue) ikey ts" if "ts \<in> set (table_groups v aux)" for ts
    unfolding visible_all_def using that by (intro arg_cong [where f = concat] map_cong) auto
  have all: "map (visible_all ks (checked_entries ks K T C cst noValue) ikey) (table_groups v aux) = map (visible_all ks (file_entries K T noValue) ikey) (table_groups v aux)"
    using vis by simp
  have first: "newer_first ks (checked_entries ks K T C cst noValue) (kc_seq K) ikey (table_groups v aux)"
    using newer unfolding newer_first_def by (rule sorted_wrt_mono_rel [rotated]) (use vis in simp)
  have "version_get ks (kc_parse K) (find_in (kc_bytes K) T C cst fillCache noValue) sample v aux ikey =
      version_get ks (kc_parse K) (checked_find ks K T C cst fillCache noValue) sample v aux ikey"
    by (rule version_get_cong) (use ok in \<open>simp add: checked_find_def\<close>)
  then have "version_get ks (kc_parse K) (checked_find ks K T C cst fillCache noValue) sample v aux ikey = (r, err, tset)"
    using get by simp
  note store = table_store.store_get [OF checked_store assms(2) this first assms(5)]
  show "concat (map (visible_all ks (file_entries K T noValue) ikey) (table_groups v aux)) = [] \<Longrightarrow> r = None \<and> err = Some ErrNotFound"
    by (rule store(1)) (simp only: all)
  show "newest (kc_seq K) (concat (map (visible_all ks (file_entries K T noValue) ikey) (table_groups v aux))) e \<Longrightarrow> (r, err) = entry_result (kc_kind K) e"
    by (rule store(2)) (simp only: all)
qed

end

section \<open>Bytewise keys in files\<close>

text \<open>The bytes of an internal key: the user key and the number, eight bytes with the lowest first.  Shorter strings and other kinds do not parse.\<close>

primrec le_digits :: "nat \<Rightarrow> int \<Rightarrow> bytes" where
  "le_digits 0 n = []"
| "le_digits (Suc k) n = of_int (n mod 256) # le_digits k (n div 256)"

primrec le_number :: "bytes \<Rightarrow> int" where
  "le_number [] = 0"
| "le_number (b # bs) = uint b + 256 * le_number bs"

lemma le_digits_number: "le_number (le_digits k n) = n mod 256 ^ k"
proof (induction k arbitrary: n)
  case (Suc k)
  have "uint (of_int (n mod 256) :: byte) = n mod 256"
    by (simp add: unsigned_of_int take_bit_eq_mod)
  then show ?case
    using Suc [of "n div 256"] by (simp add: zmod_zmult2_eq)
qed simp

lemma length_le_digits [simp]: "length (le_digits k n) = k"
  by (induction k arbitrary: n) simp_all

definition bytewise_bytes :: "bytes \<times> u64 \<Rightarrow> bytes" where
  "bytewise_bytes k = fst k @ le_digits 8 (uint (snd k))"

definition bytewise_key :: "bytes \<Rightarrow> bytes \<times> u64" where
  "bytewise_key bs = (take (length bs - 8) bs, of_int (le_number (drop (length bs - 8) bs)))"

definition bytewise_parse_bytes :: "bytes \<Rightarrow> (bytes \<times> nat \<times> key_type) option" where
  "bytewise_parse_bytes bs =
     (let k = bytewise_key bs in if length bs < 8 \<or> 1 < uint (snd k) mod 256 then None else Some (fst k, bytewise_seq k, bytewise_kind k))"

definition bytewise_coding :: "(bytes \<times> u64) key_coding" where
  "bytewise_coding = \<lparr>kc_bytes = bytewise_bytes, kc_key = bytewise_key, kc_parse = bytewise_parse_bytes, kc_seq = bytewise_seq, kc_kind = bytewise_kind\<rparr>"

lemma bytewise_key_bytes: "bytewise_key (bytewise_bytes k) = k"
proof -
  have "uint (snd k) mod 256 ^ 8 = uint (snd k)"
    using uint_lt2p [of "snd k"] by (simp add: mod_pos_pos_trivial)
  then show ?thesis
    by (simp add: bytewise_key_def bytewise_bytes_def le_digits_number)
qed

interpretation bytewise_files: key_bytes bytewise_keys bytewise_coding
  by unfold_locales (simp_all add: bytewise_coding_def bytewise_key_bytes bytewise_seq_newer)

interpretation bytewise_store: table_store bytewise_keys "kc_parse bytewise_coding" "kc_bytes bytewise_coding" "checked_find bytewise_keys bytewise_coding T C cst fillCache noValue"
  "checked_entries bytewise_keys bytewise_coding T C cst noValue" "kc_seq bytewise_coding" "kc_kind bytewise_coding" for T C cst fillCache noValue
  by (rule bytewise_files.checked_store)

section \<open>Three files\<close>

text \<open>
  The tables of the version with two tables in level 0 and one in level 1, as files with a filter; the first has two blocks.  The filter of a block lists the single bytes that are its
  user keys, and turns every other key down.  Handles are two bytes, the checksum is 0 and nothing is compressed.
\<close>

definition lookup_file :: "int \<Rightarrow> bytes" where
  "lookup_file n =
     (if n = 1 then [0, 9, 1, 1, 1, 1, 0, 0, 0, 0, 0, 0, 10, 0, 0, 0, 0, 1, 0, 0, 0, 0, 0, 0, 0, 0,
        0, 9, 1, 2, 1, 2, 0, 0, 0, 0, 0, 0, 20, 0, 0, 0, 0, 1, 0, 0, 0, 0, 0, 0, 0, 0,
        0, 9, 2, 1, 1, 1, 0, 0, 0, 0, 0, 0, 0, 21, 0, 9, 2, 2, 1, 2, 0, 0, 0, 0, 0, 0, 26, 21, 0, 0, 0, 0, 1, 0, 0, 0, 0, 0, 0, 0, 0,
        1, 2, 0, 0, 0, 0, 1, 0, 0, 0, 2, 0, 0, 0, 4, 0, 0, 0, 0, 0]
      else if n = 2 then [0, 9, 1, 2, 1, 3, 0, 0, 0, 0, 0, 0, 30, 0, 0, 0, 0, 1, 0, 0, 0, 0, 0, 0, 0, 0,
        0, 9, 2, 2, 1, 3, 0, 0, 0, 0, 0, 0, 0, 21, 0, 0, 0, 0, 1, 0, 0, 0, 0, 0, 0, 0, 0,
        2, 0, 0, 0, 0, 1, 0, 0, 0, 4, 0, 0, 0, 0, 0]
      else [0, 9, 1, 2, 1, 0, 0, 0, 0, 0, 0, 0, 5, 0, 9, 0, 7, 0, 0, 0, 0, 0, 0, 0, 0, 0, 0, 0, 0, 1, 0, 0, 0, 0, 0, 0, 0, 0,
        0, 9, 2, 7, 0, 0, 0, 0, 0, 0, 0, 0, 0, 33, 0, 0, 0, 0, 1, 0, 0, 0, 0, 0, 0, 0, 0,
        2, 7, 0, 0, 0, 0, 2, 0, 0, 0, 4, 0, 0, 0, 0, 0])"

definition lookup_env :: "int \<Rightarrow> table_env" where
  "lookup_env n = sample_env\<lparr>te_ReadAt := (\<lambda>m off. (take m (drop (nat off) (lookup_file n)), None))\<rparr>"

definition byte_filter :: filter_ops where
  "byte_filter = \<lparr>fl_name = [], fl_Contains = (\<lambda>data key. length key = 9 \<and> hd key \<in> set data)\<rparr>"

definition lookup_reader :: "int \<Rightarrow> reader" where
  "lookup_reader n =
     \<lparr>rd_err = None, rd_useCache = True, rd_cmp = (\<lambda>a b. k_icmp bytewise_keys (bytewise_key a) (bytewise_key b)), rd_filter = Some byte_filter,
      rd_verifyChecksum = True, rd_dataEnd = 0, rd_metaBH = no_handle,
      rd_indexBH = (if n = 1 then \<lparr>bh_offset = 52, bh_length = 36\<rparr> else if n = 2 then \<lparr>bh_offset = 26, bh_length = 22\<rparr> else \<lparr>bh_offset = 38, bh_length = 22\<rparr>),
      rd_filterBH = (if n = 1 then \<lparr>bh_offset = 93, bh_length = 15\<rparr> else if n = 2 then \<lparr>bh_offset = 53, bh_length = 10\<rparr> else \<lparr>bh_offset = 65, bh_length = 11\<rparr>),
      rd_indexBlock = None, rd_filterBlock = None\<rparr>"

definition lookup_tables :: table_ops where
  "lookup_tables =
     \<lparr>to_closed = False, to_opened = (\<lambda>n. Some (lookup_env n, lookup_reader n)), to_storage = (\<lambda>n. Inl []),
      to_options = \<lparr>op_comparer = Compare, op_strictChecksum = True, op_filter = None, op_altFilters = []\<rparr>, to_blockCache = True\<rparr>"

lemma lookup_table_ok:
  "table_ok (lookup_env n) (lookup_reader n) (table_index (lookup_env n) (lookup_reader n))" if "n \<in> {1, 2, 3}"
  using that by (elim insertE emptyE; hypsubst; code_simp)

lemma lookup_filter_ok:
  "filter_ok (lookup_env n) (lookup_reader n) (table_index (lookup_env n) (lookup_reader n)) (table_filter (lookup_env n) (lookup_reader n))" if "n \<in> {1, 2, 3}"
  using that by (elim insertE emptyE; hypsubst; code_simp)

lemma lookup_apart:
  "apart (stored_blocks (lookup_env n) (lookup_reader n) (table_index (lookup_env n) (lookup_reader n)) (table_filter (lookup_env n) (lookup_reader n)))" if "n \<in> {1, 2, 3}"
  using that by (elim insertE emptyE; hypsubst; code_simp)

lemma lookup_separates:
  "index_separates bytewise_keys bytewise_coding (lookup_env n) (lookup_reader n) (block_entries (table_index (lookup_env n) (lookup_reader n)))" if "n \<in> {1, 2, 3}"
  using that by (elim insertE emptyE; hypsubst; code_simp)

lemma lookup_index_keys:
  "list_all (\<lambda>e. bytewise_bytes (bytewise_key (fst e)) = fst e) (block_entries (table_index (lookup_env n) (lookup_reader n)))" if "n \<in> {1, 2, 3}"
  using that by (elim insertE emptyE; hypsubst; code_simp)

lemma lookup_data_keys:
  "list_all (\<lambda>d. let k = bytewise_key (fst d)
     in bytewise_bytes k = fst d \<and> bytewise_parse_bytes (fst d) = Some (k_ukey bytewise_keys k, bytewise_seq k, bytewise_kind k) \<and>
        k_icmp bytewise_keys (imin t) k \<le> 0 \<and> k_icmp bytewise_keys k (imax t) \<le> 0)
     (table_entries (lookup_env (fd_num t)) (lookup_reader (fd_num t)) (table_index (lookup_env (fd_num t)) (lookup_reader (fd_num t))))"
  if "t \<in> set (concat (v_levels sample_version))"
  using that unfolding sample_version_def by (simp, elim disjE; hypsubst; code_simp)

lemma lookup_covers:
  "filter_covers bytewise_keys bytewise_coding (lookup_env n) (lookup_reader n) (table_filter (lookup_env n) (lookup_reader n)) (block_entries (table_index (lookup_env n) (lookup_reader n)))"
  if "n \<in> {1, 2, 3}"
proof -
  let ?E = "lookup_env n" and ?r = "lookup_reader n"
  have one: "list_all (\<lambda>e. list_all (\<lambda>d. length (fst (bytewise_key (fst d))) = 1 \<and>
      contains (table_filter ?E ?r) byte_filter (entry_offset ?E e) (fst (bytewise_key (fst d)) @ replicate 8 0) = Some True) (data_entries ?E ?r e)) (block_entries (table_index ?E ?r))"
    using that by (elim insertE emptyE; hypsubst; code_simp)
  have same: "contains fb byte_filter off (u @ xs) = contains fb byte_filter off (u @ ys)" if "length u = 1" "length xs = length ys" for fb off u xs ys
    using that by (cases u) (simp_all add: contains_def byte_filter_def Let_def cong: if_cong)
  have "contains (table_filter ?E ?r) byte_filter (entry_offset ?E e) (bytewise_bytes k) = Some True"
    if "e \<in> set (block_entries (table_index ?E ?r))" "d \<in> set (data_entries ?E ?r e)" "fst k = fst (bytewise_key (fst d))" for e d k
    using one that same [of "fst k" "le_digits 8 (uint (snd k))" "replicate 8 0"] by (fastforce simp: list_all_iff bytewise_bytes_def)
  then show ?thesis
    by (simp add: filter_covers_def lookup_reader_def [of n] bytewise_coding_def bytewise_keys_def)
qed

lemma bytewise_comparison: "comparison (\<lambda>a b. k_icmp bytewise_keys (bytewise_key a) (bytewise_key b))"
  unfolding comparison_def
  using bytewise_keys.icmp_trans bytewise_keys.icmp_eq by (metis order_le_less)

lemma lookup_sound:
  assumes "t \<in> set (concat (v_levels sample_version))"
  shows "table_sound bytewise_keys bytewise_coding lookup_tables map_cache (\<lambda>n. Map.empty) t"
proof -
  have n: "fd_num t \<in> {1, 2, 3}"
    using assms by (auto simp: sample_version_def newTableFile_def)
  have "comparison (rd_cmp (lookup_reader n))" "cache_law map_cache" "cache_ok map_cache bs Map.empty" for bs n
    using bytewise_comparison by (auto simp: lookup_reader_def map_cache_def cache_law_def cache_ok_def list_all_iff)
  moreover have "rd_cmp (lookup_reader n) (bytewise_bytes a) (bytewise_bytes b) = k_icmp bytewise_keys a b" for n a b
    by (simp add: lookup_reader_def bytewise_key_bytes)
  ultimately show ?thesis
    using lookup_table_ok [OF n] lookup_filter_ok [OF n] lookup_apart [OF n] lookup_separates [OF n] lookup_covers [OF n] lookup_index_keys [OF n] lookup_data_keys [OF assms]
    by (simp add: table_sound_def tops_open_def lookup_tables_def file_sound_def searchable_def keys_formed_def bytewise_coding_def)
qed

section \<open>Properties\<close>

text \<open>
  C1: a lookup in a version returns the newest visible entry of its table files.  The files are searched by \<^verbatim>\<open>tOps.find\<close> (or \<^verbatim>\<open>findKey\<close>) and the reader of tables, through index, filter, data blocks
  and block cache.  When the files are in order, the auxiliary tables come before level 0 and each level
  before the next with newer entries first, and the levels from 1 on have no overlaps, \<^verbatim>\<open>get\<close> gives the value
  of the entry with the largest sequence number among all entries of the key that the lookup may see, not-found if that entry is a deletion
  mark, and not-found if there is none: the walk, which visits at most one table of a level and stops early, and the filters, which turn searches down,
  miss nothing.  A file in order has well-formed blocks whose keys parse and lie in the range of the table, a filter per block that has the user keys of the block, and index keys
  that separate the user keys of two blocks or are the last key of a block.
\<close>

theorem get_newest:
  assumes "key_bytes ks K" and "list_all (table_sound ks K T C cst) (concat (table_groups v aux))" and "\<not> v_closing v"
    and "version_get ks (kc_parse K) (find_in (kc_bytes K) T C cst fillCache noValue) sample v aux ikey = (r, err, tset)"
    and "newer_first ks (file_entries K T noValue) (kc_seq K) ikey (table_groups v aux)"
    and "\<forall>i < length (v_levels v). 0 < i \<longrightarrow> level_sorted ks (v_levels v ! i)"
  shows "(concat (map (visible_all ks (file_entries K T noValue) ikey) (table_groups v aux)) = [] \<longrightarrow> r = None \<and> err = Some ErrNotFound) \<and>
    (newest (kc_seq K) (concat (map (visible_all ks (file_entries K T noValue) ikey) (table_groups v aux))) e \<longrightarrow> (r, err) = entry_result (kc_kind K) e)"
  using key_bytes.lookup_newest [OF assms] by blast

theorem get_newest_witness:
  "fst (version_get bytewise_keys bytewise_parse_bytes (find_in bytewise_bytes lookup_tables map_cache (\<lambda>n. Map.empty) True False) True sample_version None ([2], 1025)) = Some (Some [30]) \<and>
   fst (version_get bytewise_keys bytewise_parse_bytes (find_in bytewise_bytes lookup_tables map_cache (\<lambda>n. Map.empty) True False) True sample_version None ([7], 1025)) = None \<and>
   fst (version_get bytewise_keys bytewise_parse_bytes (find_in bytewise_bytes lookup_tables map_cache (\<lambda>n. Map.empty) True False) True sample_version None ([1, 5], 1025)) = None"
proof -
  let ?get = "\<lambda>k. version_get bytewise_keys (kc_parse bytewise_coding) (find_in (kc_bytes bytewise_coding) lookup_tables map_cache (\<lambda>n. Map.empty) True False) True sample_version None k"
  let ?entries = "file_entries bytewise_coding lookup_tables False"
  let ?visible = "\<lambda>k. concat (map (visible_all bytewise_keys ?entries k) (table_groups sample_version None))"
  have open_v: "\<not> v_closing sample_version" by (simp add: sample_version_def)
  have sound: "list_all (table_sound bytewise_keys bytewise_coding lookup_tables map_cache (\<lambda>n. Map.empty)) (concat (table_groups sample_version None))"
    using lookup_sound by (simp add: list_all_iff table_groups_def)
  have sorted: "\<forall>i < length (v_levels sample_version). 0 < i \<longrightarrow> level_sorted bytewise_keys (v_levels sample_version ! i)"
    by (simp add: sample_version_def level_sorted_def less_Suc_eq bytewise_keys_def newTableFile_def)
  have nf: "newer_first bytewise_keys ?entries (kc_seq bytewise_coding) k (table_groups sample_version None)"
    if "k \<in> {([2], 1025), ([7], 1025), ([1, 5], 1025)}" for k
    using that by (elim insertE emptyE; hypsubst; code_simp)
  have get: "(?visible k = [] \<longrightarrow> fst (?get k) = None \<and> fst (snd (?get k)) = Some ErrNotFound) \<and>
      (newest (kc_seq bytewise_coding) (?visible k) e \<longrightarrow> (fst (?get k), fst (snd (?get k))) = entry_result (kc_kind bytewise_coding) e)"
    if "k \<in> {([2], 1025), ([7], 1025), ([1, 5], 1025)}" for k e
    by (rule get_newest [OF bytewise_files.key_bytes_axioms sound open_v _ nf [OF that] sorted, where fillCache = True and sample = True and tset = "snd (snd (?get k))"]) simp
  have "newest (kc_seq bytewise_coding) (?visible ([2], 1025)) (([2], 769), Some [30])"
    by code_simp
  moreover have "newest (kc_seq bytewise_coding) (?visible ([7], 1025)) (([7], 0), Some [])"
    by code_simp
  moreover have "?visible ([1, 5], 1025) = []"
    by code_simp
  ultimately show ?thesis
    using get [of "([2], 1025)" "(([2], 769), Some [30])"] get [of "([7], 1025)" "(([7], 0), Some [])"] get [of "([1, 5], 1025)"]
    by (simp add: entry_result_def bytewise_coding_def bytewise_kind_def)
qed

end
