(* ===== verification/Snappy.thy ===== *)
theory Snappy
  imports Prelude "HOL-Library.Monad_Syntax"
begin

unbundle bit_operations_syntax

text \<open>
  The portable decoder of the Snappy block format, \<^verbatim>\<open>golang/snappy/decode_other.go\<close>, which decompresses the blocks of tables.  The tags and error codes are constants of a
  file that is not in the repository, the record \<open>snappy_env\<close>; \<open>format_tags\<close> is what the format says of the tags.  The destination is passed and returned; an index
  out of range is \<open>None\<close>.  \<^verbatim>\<open>int\<close> has 64 bits, so that positions do not overflow.
\<close>

section \<open>The code\<close>

record snappy_env =
  sn_tagLiteral :: byte
  sn_tagCopy1 :: byte
  sn_tagCopy2 :: byte
  sn_tagCopy4 :: byte
  sn_corrupt :: int
  sn_unsupported :: int

definition byte_at :: "bytes \<Rightarrow> int \<Rightarrow> byte option" where
  "byte_at xs i = (if 0 \<le> i \<and> i < int (length xs) then Some (xs ! nat i) else None)"

definition u32_at :: "bytes \<Rightarrow> int \<Rightarrow> u32 option" where
  "u32_at xs i = map_option ucast (byte_at xs i)"

text \<open>The length of a literal, before 1 is added, with the position behind it.\<close>

definition literal_length :: "snappy_env \<Rightarrow> bytes \<Rightarrow> int \<Rightarrow> (int + u32 \<times> int) option" where
  "literal_length E src s =
     do { b \<leftarrow> byte_at src s;
          let x = ucast (drop_bit 2 b);
          if x < 60 then Some (Inr (x, s + 1))
          else if x = 60 then
            (if int (length src) < s + 2 then Some (Inl (sn_corrupt E))
             else do { x0 \<leftarrow> u32_at src (s + 1); Some (Inr (x0, s + 2)) })
          else if x = 61 then
            (if int (length src) < s + 3 then Some (Inl (sn_corrupt E))
             else do { x0 \<leftarrow> u32_at src (s + 1); x1 \<leftarrow> u32_at src (s + 2); Some (Inr (x0 OR push_bit 8 x1, s + 3)) })
          else if x = 62 then
            (if int (length src) < s + 4 then Some (Inl (sn_corrupt E))
             else do { x0 \<leftarrow> u32_at src (s + 1); x1 \<leftarrow> u32_at src (s + 2); x2 \<leftarrow> u32_at src (s + 3);
                       Some (Inr (x0 OR push_bit 8 x1 OR push_bit 16 x2, s + 4)) })
          else
            (if int (length src) < s + 5 then Some (Inl (sn_corrupt E))
             else do { x0 \<leftarrow> u32_at src (s + 1); x1 \<leftarrow> u32_at src (s + 2); x2 \<leftarrow> u32_at src (s + 3); x3 \<leftarrow> u32_at src (s + 4);
                       Some (Inr (x0 OR push_bit 8 x1 OR push_bit 16 x2 OR push_bit 24 x3, s + 5)) }) }"

text \<open>\<^verbatim>\<open>copy(dst[d:], xs)\<close> within the destination.\<close>

definition overwrite :: "bytes \<Rightarrow> int \<Rightarrow> bytes \<Rightarrow> bytes" where
  "overwrite dst d xs = take (nat d) dst @ xs @ drop (nat d + length xs) dst"

type_synonym decode_state = "bytes \<times> int \<times> int \<times> int \<times> int"

text \<open>One literal; the state is the destination, \<^verbatim>\<open>d\<close>, \<^verbatim>\<open>s\<close>, \<^verbatim>\<open>offset\<close> and \<^verbatim>\<open>length\<close>.\<close>

definition decode_literal :: "snappy_env \<Rightarrow> bytes \<Rightarrow> decode_state \<Rightarrow> ((bytes \<times> int) + decode_state) option" where
  "decode_literal E src st =
     (case st of (dst, d, s, offset, len) \<Rightarrow>
        (case literal_length E src s of
           None \<Rightarrow> None
         | Some (Inl code) \<Rightarrow> Some (Inl (dst, code))
         | Some (Inr (x, s)) \<Rightarrow>
             let len = uint x + 1
             in if len \<le> 0 then Some (Inl (dst, sn_unsupported E))
                else if int (length dst) - d < len \<or> int (length src) - s < len then Some (Inl (dst, sn_corrupt E))
                else Some (Inr (overwrite dst d (take (nat len) (drop (nat s) src)), d + len, s + len, offset, len))))"

text \<open>The operands of a copy: the position behind it, the offset and the length.\<close>

definition copy_operands :: "snappy_env \<Rightarrow> bytes \<Rightarrow> decode_state \<Rightarrow> (int + int \<times> int \<times> int) option" where
  "copy_operands E src st =
     (case st of (dst, d, s, offset, len) \<Rightarrow>
        do { b \<leftarrow> byte_at src s;
             if b AND 3 = sn_tagCopy1 E then
               (if int (length src) < s + 2 then Some (Inl (sn_corrupt E))
                else do { b0 \<leftarrow> u32_at src s; b1 \<leftarrow> u32_at src (s + 1);
                          Some (Inr (s + 2, uint (push_bit 3 (b0 AND 0xe0) OR b1), 4 + uint (drop_bit 2 b0 AND 7))) })
             else if b AND 3 = sn_tagCopy2 E then
               (if int (length src) < s + 3 then Some (Inl (sn_corrupt E))
                else do { b0 \<leftarrow> u32_at src s; b1 \<leftarrow> u32_at src (s + 1); b2 \<leftarrow> u32_at src (s + 2);
                          Some (Inr (s + 3, uint (b1 OR push_bit 8 b2), 1 + uint (drop_bit 2 b0))) })
             else if b AND 3 = sn_tagCopy4 E then
               (if int (length src) < s + 5 then Some (Inl (sn_corrupt E))
                else do { b0 \<leftarrow> u32_at src s; b1 \<leftarrow> u32_at src (s + 1); b2 \<leftarrow> u32_at src (s + 2); b3 \<leftarrow> u32_at src (s + 3); b4 \<leftarrow> u32_at src (s + 4);
                          Some (Inr (s + 5, uint (b1 OR push_bit 8 b2 OR push_bit 16 b3 OR push_bit 24 b4), 1 + uint (drop_bit 2 b0))) })
             else Some (Inr (s, offset, len)) })"

text \<open>The copy byte by byte, forwards.\<close>

primrec forward_copy :: "nat \<Rightarrow> nat \<Rightarrow> nat \<Rightarrow> bytes \<Rightarrow> bytes" where
  "forward_copy 0 d offset dst = dst"
| "forward_copy (Suc n) d offset dst = forward_copy n (d + 1) offset (dst[d := dst ! (d - offset)])"

definition decode_copy :: "snappy_env \<Rightarrow> bytes \<Rightarrow> decode_state \<Rightarrow> ((bytes \<times> int) + decode_state) option" where
  "decode_copy E src st =
     (case st of (dst, d, s, offset, len) \<Rightarrow>
        (case copy_operands E src st of
           None \<Rightarrow> None
         | Some (Inl code) \<Rightarrow> Some (Inl (dst, code))
         | Some (Inr (s, offset, len)) \<Rightarrow>
             if offset \<le> 0 \<or> d < offset \<or> int (length dst) - d < len then Some (Inl (dst, sn_corrupt E))
             else if len \<le> offset then Some (Inr (overwrite dst d (take (nat len) (drop (nat (d - offset)) dst)), d + len, s, offset, len))
             else Some (Inr (forward_copy (nat len) (nat d) (nat offset) dst, d + len, s, offset, len))))"

partial_function (option) snappy_loop :: "snappy_env \<Rightarrow> bytes \<Rightarrow> decode_state \<Rightarrow> (bytes \<times> int) option" where
  "snappy_loop E src st =
     (case st of (dst, d, s, offset, len) \<Rightarrow>
        if s < int (length src)
        then (case byte_at src s of
                None \<Rightarrow> None
              | Some b \<Rightarrow>
                  (case if b AND 3 = sn_tagLiteral E then decode_literal E src st else decode_copy E src st of
                     None \<Rightarrow> None
                   | Some (Inl res) \<Rightarrow> Some res
                   | Some (Inr st) \<Rightarrow> snappy_loop E src st))
        else Some (dst, if d \<noteq> int (length dst) then sn_corrupt E else 0))"

declare snappy_loop.simps [code]

definition snappy_decode :: "snappy_env \<Rightarrow> bytes \<Rightarrow> bytes \<Rightarrow> (bytes \<times> int) option" where
  "snappy_decode E dst src = snappy_loop E src (dst, 0, 0, 0, 0)"

section \<open>Numbers\<close>

definition format_tags :: "snappy_env \<Rightarrow> bool" where
  "format_tags E \<longleftrightarrow> sn_tagLiteral E = 0 \<and> sn_tagCopy1 E = 1 \<and> sn_tagCopy2 E = 2 \<and> sn_tagCopy4 E = 3 \<and> sn_corrupt E \<noteq> 0 \<and> sn_unsupported E \<noteq> 0"

primrec le_val :: "bytes \<Rightarrow> int" where
  "le_val [] = 0"
| "le_val (b # bs) = uint b + 256 * le_val bs"

primrec le_bytes :: "nat \<Rightarrow> int \<Rightarrow> bytes" where
  "le_bytes 0 v = []"
| "le_bytes (Suc n) v = of_int v # le_bytes n (v div 256)"

lemma uint_byte: "0 \<le> uint (b :: byte)" "uint b < 256"
  using uint_lt2p [of b] by simp_all

lemma uint_of_byte: "uint (of_int v :: byte) = v mod 256"
  by (simp add: uint_word_of_int)

lemma length_le_bytes [simp]: "length (le_bytes n v) = n"
  by (induction n arbitrary: v) simp_all

lemma le_val_bytes: "0 \<le> v \<Longrightarrow> v < 256 ^ n \<Longrightarrow> le_val (le_bytes n v) = v"
proof (induction n arbitrary: v)
  case (Suc n)
  have "le_val (le_bytes n (v div 256)) = v div 256"
    using Suc.prems by (intro Suc.IH) (auto simp: div_less_iff_less_mult mult.commute)
  then show ?case
    by (simp add: uint_of_byte)
qed simp

lemma le_bytes_val: "length xs = n \<Longrightarrow> le_bytes n (le_val xs) = xs"
proof (induction xs arbitrary: n)
  case (Cons b xs)
  have "(uint b + 256 * le_val xs) div 256 = le_val xs" "of_int (uint b + 256 * le_val xs) = b"
    using uint_byte [of b] by (simp_all add: word_uint_eq_iff uint_of_byte del: of_int_add)
  then show ?case
    using Cons by auto
qed simp

lemma le_val_bound: "0 \<le> le_val xs \<and> le_val xs < 256 ^ length xs"
proof (induction xs)
  case (Cons b xs)
  then have "uint b + 256 * le_val xs < 256 + 256 * (256 ^ length xs - 1)"
    using uint_byte [of b] by (intro add_less_le_mono) auto
  then show ?case
    using Cons uint_byte [of b] by (simp add: algebra_simps)
qed simp

lemma or_shift: "0 \<le> x \<Longrightarrow> x < 2 ^ n \<Longrightarrow> x OR push_bit n y = x + 2 ^ n * (y :: int)"
proof -
  assume "0 \<le> x" "x < 2 ^ n"
  then have "take_bit n x = x"
    by (simp add: take_bit_int_eq_self)
  then have "\<not> bit x k \<or> \<not> bit (push_bit n y) k" for k
    by (metis bit_push_bit_iff_int bit_take_bit_iff not_le)
  then have "x + push_bit n y = x OR push_bit n y"
    by (rule disjunctive_add)
  then show ?thesis
    by (simp add: push_bit_eq_mult mult.commute)
qed

lemma uint_ucast_byte: "uint (ucast (b :: byte) :: u32) = uint b"
  using uint_byte [of b] by (simp add: unsigned_ucast_eq take_bit_int_eq_self)

lemma uint_push_byte: "n \<le> 24 \<Longrightarrow> uint (push_bit n (ucast (b :: byte) :: u32)) = push_bit n (uint b)"
proof -
  assume "n \<le> 24"
  then have "(2::int) ^ n \<le> 2 ^ 24"
    by (intro power_increasing) simp_all
  then have "uint b * 2 ^ n < 256 * 2 ^ 24"
    using uint_byte [of b] by (intro mult_less_le_imp_less) auto
  then show ?thesis
    unfolding unsigned_push_bit_eq uint_ucast_byte using uint_byte [of b] by (simp add: push_bit_eq_mult take_bit_int_eq_self)
qed

lemma or_le_val: "uint b OR push_bit 8 (le_val bs) = le_val (b # bs)"
  using uint_byte [of b] by (simp add: or_shift)

lemma uint_le:
  fixes x0 x1 x2 x3 :: byte
  shows "uint (ucast x0 :: u32) = le_val [x0]"
    "uint (ucast x0 OR push_bit 8 (ucast x1) :: u32) = le_val [x0, x1]"
    "uint (ucast x0 OR push_bit 8 (ucast x1) OR push_bit 16 (ucast x2) :: u32) = le_val [x0, x1, x2]"
    "uint (ucast x0 OR push_bit 8 (ucast x1) OR push_bit 16 (ucast x2) OR push_bit 24 (ucast x3) :: u32) = le_val [x0, x1, x2, x3]"
proof -
  have z: "uint x = le_val [x]" for x :: byte
    by simp
  show "uint (ucast x0 :: u32) = le_val [x0]"
    by (simp add: uint_ucast_byte)
  have "uint (ucast x0 OR push_bit 8 (ucast x1) :: u32) = uint x0 OR push_bit 8 (uint x1)"
    by (simp only: unsigned_or_eq uint_push_byte uint_ucast_byte)
  then show "uint (ucast x0 OR push_bit 8 (ucast x1) :: u32) = le_val [x0, x1]"
    by (simp only: z [of x1] or_le_val)
  have "uint (ucast x0 OR push_bit 8 (ucast x1) OR push_bit 16 (ucast x2) :: u32) = uint x0 OR push_bit 8 (uint x1 OR push_bit 8 (uint x2))"
    by (simp add: unsigned_or_eq uint_push_byte uint_ucast_byte push_bit_or)
  then show "uint (ucast x0 OR push_bit 8 (ucast x1) OR push_bit 16 (ucast x2) :: u32) = le_val [x0, x1, x2]"
    by (simp only: z [of x2] or_le_val)
  have "uint (ucast x0 OR push_bit 8 (ucast x1) OR push_bit 16 (ucast x2) OR push_bit 24 (ucast x3) :: u32) =
      uint x0 OR push_bit 8 (uint x1 OR push_bit 8 (uint x2 OR push_bit 8 (uint x3)))"
    by (simp add: unsigned_or_eq uint_push_byte uint_ucast_byte push_bit_or)
  then show "uint (ucast x0 OR push_bit 8 (ucast x1) OR push_bit 16 (ucast x2) OR push_bit 24 (ucast x3) :: u32) = le_val [x0, x1, x2, x3]"
    by (simp only: z [of x3] or_le_val)
qed

lemma tag_bits: "uint ((b :: byte) AND 3) = uint b mod 4"
  using take_bit_eq_mask [of 2 "uint b"] by (simp add: unsigned_and_eq take_bit_eq_mod mask_eq_exp_minus_1)

lemma uint_shift2: "uint (drop_bit 2 (b :: byte)) = uint b div 4" "uint (drop_bit 2 (ucast b :: u32)) = uint b div 4"
  unfolding unsigned_drop_bit_eq uint_ucast_byte using uint_byte [of b] by (simp_all add: drop_bit_eq_div take_bit_int_eq_self)

lemma and_e0: "0 \<le> x \<Longrightarrow> x < 256 \<Longrightarrow> x AND 0xe0 = 32 * (x div 32 :: int)"
proof -
  have "list_all (\<lambda>x::int. x AND 0xe0 = 32 * (x div 32)) [0..255]"
    by code_simp
  then show "0 \<le> x \<Longrightarrow> x < 256 \<Longrightarrow> x AND 0xe0 = 32 * (x div 32)"
    by (simp only: list_all_iff set_upto) auto
qed

lemma copy1_offset: "uint (push_bit 3 (ucast (b :: byte) AND 0xe0) OR ucast (b1 :: byte) :: u32) = 256 * (uint b div 32) + uint b1"
proof -
  have e: "uint (ucast b AND 0xe0 :: u32) = 32 * (uint b div 32)"
    using and_e0 [of "uint b"] uint_byte [of b] by (simp add: unsigned_and_eq uint_ucast_byte)
  have q: "0 \<le> uint b div 32" "uint b div 32 < 8"
    using uint_byte [of b] by (simp_all add: div_less_iff_less_mult pos_imp_zdiv_nonneg_iff)
  have "uint (push_bit 3 (ucast b AND 0xe0) :: u32) = push_bit 8 (uint b div 32)"
    unfolding unsigned_push_bit_eq e using q take_bit_int_eq_self [of "256 * (uint b div 32)" 32] by (simp add: push_bit_eq_mult)
  then show ?thesis
    using or_shift [of "uint b1" 8 "uint b div 32"] uint_byte [of b1] by (simp add: unsigned_or_eq uint_ucast_byte or.commute)
qed

lemma copy1_length: "uint (drop_bit 2 (ucast (b :: byte)) AND 7 :: u32) = uint b div 4 mod 8"
  using take_bit_eq_mask [of 3 "uint b div 4"] by (simp add: unsigned_and_eq uint_shift2 take_bit_eq_mod mask_eq_exp_minus_1)

section \<open>The format\<close>

text \<open>
  A compressed block is a sequence of elements: a literal, whose length is in the tag byte or in \<open>k\<close> bytes behind it, or a copy of bytes that were written before, with an
  offset of 11, 16 or 32 bits.
\<close>

datatype element = Literal nat bytes | Copy1 nat nat | Copy2 nat nat | Copy4 nat nat

fun encode_element :: "element \<Rightarrow> bytes" where
  "encode_element (Literal k bs) =
     of_int (4 * (if k = 0 then int (length bs) - 1 else 59 + int k)) # le_bytes k (int (length bs) - 1) @ bs"
| "encode_element (Copy1 offset len) = [of_int (1 + 4 * (int len - 4) + 32 * (int offset div 256)), of_int (int offset)]"
| "encode_element (Copy2 offset len) = of_int (2 + 4 * (int len - 1)) # le_bytes 2 (int offset)"
| "encode_element (Copy4 offset len) = of_int (3 + 4 * (int len - 1)) # le_bytes 4 (int offset)"

fun wf_element :: "element \<Rightarrow> bool" where
  "wf_element (Literal k bs) \<longleftrightarrow> k \<le> 4 \<and> bs \<noteq> [] \<and> (if k = 0 then length bs \<le> 60 else length bs \<le> 256 ^ k)"
| "wf_element (Copy1 offset len) \<longleftrightarrow> 4 \<le> len \<and> len < 12 \<and> offset < 2048"
| "wf_element (Copy2 offset len) \<longleftrightarrow> 1 \<le> len \<and> len \<le> 64 \<and> offset < 256 ^ 2"
| "wf_element (Copy4 offset len) \<longleftrightarrow> 1 \<le> len \<and> len \<le> 64 \<and> offset < 256 ^ 4"

text \<open>A copy may run into what it writes.\<close>

primrec copy_back :: "nat \<Rightarrow> nat \<Rightarrow> bytes \<Rightarrow> bytes" where
  "copy_back 0 offset out = out"
| "copy_back (Suc n) offset out = copy_back n offset (out @ [out ! (length out - offset)])"

fun expand_element :: "bytes \<Rightarrow> element \<Rightarrow> bytes" where
  "expand_element out (Literal k bs) = out @ bs"
| "expand_element out (Copy1 offset len) = copy_back len offset out"
| "expand_element out (Copy2 offset len) = copy_back len offset out"
| "expand_element out (Copy4 offset len) = copy_back len offset out"

fun reaches_back :: "nat \<Rightarrow> element \<Rightarrow> bool" where
  "reaches_back n (Literal k bs) \<longleftrightarrow> True"
| "reaches_back n (Copy1 offset len) \<longleftrightarrow> 0 < offset \<and> offset \<le> n"
| "reaches_back n (Copy2 offset len) \<longleftrightarrow> 0 < offset \<and> offset \<le> n"
| "reaches_back n (Copy4 offset len) \<longleftrightarrow> 0 < offset \<and> offset \<le> n"

primrec wf_elements :: "bytes \<Rightarrow> element list \<Rightarrow> bool" where
  "wf_elements out [] \<longleftrightarrow> True"
| "wf_elements out (e # es) \<longleftrightarrow> wf_element e \<and> reaches_back (length out) e \<and> wf_elements (expand_element out e) es"

definition encode_elements :: "element list \<Rightarrow> bytes" where
  "encode_elements es = concat (map encode_element es)"

definition expand_elements :: "bytes \<Rightarrow> element list \<Rightarrow> bytes" where
  "expand_elements out es = foldl expand_element out es"

section \<open>Reading an element\<close>

text \<open>The number of length bytes of a literal, and its length.\<close>

definition extra_bytes :: "byte \<Rightarrow> nat" where
  "extra_bytes b = nat (uint b div 4 - 59)"

definition literal_size :: "byte \<Rightarrow> bytes \<Rightarrow> nat" where
  "literal_size b xs = nat (if uint b div 4 < 60 then uint b div 4 + 1 else le_val (take (extra_bytes b) xs) + 1)"

definition read_copy :: "nat \<Rightarrow> (nat \<Rightarrow> nat \<Rightarrow> element) \<Rightarrow> byte \<Rightarrow> bytes \<Rightarrow> (element \<times> bytes) option" where
  "read_copy k C b xs = (if length xs < k then None else Some (C (nat (le_val (take k xs))) (nat (uint b div 4 + 1)), drop k xs))"

fun read_element :: "bytes \<Rightarrow> (element \<times> bytes) option" where
  "read_element [] = None"
| "read_element (b # xs) =
     (if uint b mod 4 = 0 then
        (if length xs < extra_bytes b + literal_size b xs then None
         else Some (Literal (extra_bytes b) (take (literal_size b xs) (drop (extra_bytes b) xs)), drop (extra_bytes b + literal_size b xs) xs))
      else if uint b mod 4 = 1 then
        (if xs = [] then None else Some (Copy1 (nat (256 * (uint b div 32) + uint (xs ! 0))) (nat (4 + uint b div 4 mod 8)), tl xs))
      else if uint b mod 4 = 2 then read_copy 2 Copy2 b xs
      else read_copy 4 Copy4 b xs)"

lemma byte_eqI: "uint (b :: byte) = v mod 256 \<Longrightarrow> of_int v = b"
  by (simp add: word_uint_eq_iff uint_of_byte)

lemma read_copy_encoding:
  assumes "1 \<le> len" and "len \<le> 64" and "offset < 256 ^ k" and "0 \<le> t" and "t < 4"
  shows "uint (of_int (t + 4 * (int len - 1)) :: byte) mod 4 = t"
    "read_copy k C (of_int (t + 4 * (int len - 1))) (le_bytes k (int offset) @ xs) = Some (C offset len, xs)"
proof -
  have b: "uint (of_int (t + 4 * (int len - 1)) :: byte) = t + 4 * (int len - 1)"
    using assms unfolding uint_of_byte by simp
  show "uint (of_int (t + 4 * (int len - 1)) :: byte) mod 4 = t"
    unfolding b mod_mult_self2 using assms by simp
  have "(t + 4 * (int len - 1)) div 4 = int len - 1"
    using assms by presburger
  then have b: "uint (of_int (t + 4 * (int len - 1)) :: byte) div 4 + 1 = int len"
    unfolding b by simp
  have "int offset < int (256 ^ k)"
    unfolding of_nat_less_iff by (rule assms)
  then have "le_val (le_bytes k (int offset)) = int offset"
    by (intro le_val_bytes) simp_all
  then show "read_copy k C (of_int (t + 4 * (int len - 1))) (le_bytes k (int offset) @ xs) = Some (C offset len, xs)"
    unfolding read_copy_def b by simp
qed

lemma read_encoding:
  assumes "wf_element e"
  shows "read_element (encode_element e @ xs) = Some (e, xs)"
proof (cases e)
  case (Literal k bs)
  define n where "n = int (length bs) - 1"
  define m where "m = (if k = 0 then n else 59 + int k)"
  have m: "0 \<le> m" "m < 64" "m < 60 \<longleftrightarrow> k = 0"
    using assms by (auto simp: Literal m_def n_def Suc_le_eq split: if_splits)
  define b :: byte where "b = of_int (4 * m)"
  have b: "uint b = 4 * m"
    using m unfolding b_def uint_of_byte by simp
  have k: "extra_bytes b = k"
    using m by (auto simp: extra_bytes_def b m_def)
  have "n < 256 ^ k" if "k \<noteq> 0"
  proof -
    have "int (length bs) \<le> int (256 ^ k)"
      unfolding of_nat_le_iff using assms that by (simp add: Literal)
    then show ?thesis
      unfolding n_def of_nat_power of_nat_numeral by linarith
  qed
  moreover have "0 \<le> n"
    using assms by (auto simp: n_def Literal Suc_le_eq)
  ultimately have "le_val (le_bytes k n) = n" if "k \<noteq> 0"
    using that by (intro le_val_bytes) auto
  then have s: "literal_size b (le_bytes k n @ bs @ xs) = length bs"
    using m by (auto simp: literal_size_def b k n_def) (auto simp: m_def n_def)
  have "encode_element e = b # le_bytes k n @ bs"
    by (simp only: Literal encode_element.simps b_def m_def n_def)
  then show ?thesis
    using k s b by (simp add: Literal)
next
  case (Copy1 offset len)
  define x q v where "x = int len - 4" and "q = int offset div 256" and "v = 1 + 4 * x + 32 * q"
  have x: "0 \<le> x" "x < 8" and q: "0 \<le> q" "q < 8"
    using assms by (auto simp: Copy1 x_def q_def div_less_iff_less_mult)
  have v: "v mod 256 = v" "v mod 4 = 1" "v div 32 = q"
    using x q by (simp_all add: v_def) presburger
  have "v div 4 = x + 8 * q"
    unfolding v_def by presburger
  then have len: "nat (4 + v div 4 mod 8) = len"
    using x by (simp add: x_def)
  have "256 * q + int offset mod 256 = int offset"
    unfolding q_def by simp
  then have offset: "nat (256 * (v div 32) + int offset mod 256) = offset"
    unfolding v(3) by simp
  have "encode_element e = [of_int v, of_int (int offset)]"
    by (simp only: Copy1 encode_element.simps v_def x_def q_def)
  then show ?thesis
    by (simp add: uint_of_byte v(1,2) len offset Copy1 del: of_int_of_nat_eq)
next
  case (Copy2 offset len)
  then show ?thesis
    using assms read_copy_encoding(1) [of len offset 2 2] read_copy_encoding(2) [of len offset 2 2 Copy2 xs] by (simp del: of_int_add of_int_mult of_int_diff le_bytes.simps)
next
  case (Copy4 offset len)
  then show ?thesis
    using assms read_copy_encoding(1) [of len offset 4 3] read_copy_encoding(2) [of len offset 4 3 Copy4 xs] by (simp del: of_int_add of_int_mult of_int_diff le_bytes.simps)
qed

lemma read_element_encoded:
  assumes "read_element ys = Some (e, r)"
  shows "ys = encode_element e @ r" "wf_element e"
proof -
  obtain b xs where ys: "ys = b # xs"
    using assms by (cases ys) auto
  have m: "0 \<le> uint b div 4" "uint b div 4 < 64"
    using uint_byte [of b] by (simp_all add: div_less_iff_less_mult pos_imp_zdiv_nonneg_iff)
  have pick: "uint b mod 4 = 0 \<or> uint b mod 4 = 1 \<or> uint b mod 4 = 2 \<or> uint b mod 4 = 3"
    by presburger
  have copy: "ys = encode_element e @ r \<and> wf_element e"
    if "read_copy k C b xs = Some (e, r)" and "uint b mod 4 = t"
      and "\<And>f n. encode_element (C f n) = of_int (t + 4 * (int n - 1)) # le_bytes k (int f)"
      and "\<And>f n. wf_element (C f n) \<longleftrightarrow> 1 \<le> n \<and> n \<le> 64 \<and> f < 256 ^ k" for k C t
  proof -
    have c: "k \<le> length xs" "e = C (nat (le_val (take k xs))) (nat (uint b div 4 + 1))" "r = drop k xs"
      using that(1) by (auto simp: read_copy_def split: if_splits)
    have "of_int (t + 4 * (uint b div 4)) = b"
      using that(2) uint_byte [of b] by (intro byte_eqI) auto
    moreover have "le_val (take k xs) < 256 ^ k"
      using le_val_bound [of "take k xs"] c(1) by (auto simp: min_def split: if_splits)
    ultimately show ?thesis
      using c m le_val_bound [of "take k xs"] by (simp add: ys that(3,4) le_bytes_val nat_less_iff) linarith
  qed
  have literal: "ys = encode_element e @ r \<and> wf_element e" if "uint b mod 4 = 0"
  proof -
    define k where "k = extra_bytes b"
    define n where "n = literal_size b xs"
    have c: "k + n \<le> length xs" "e = Literal k (take n (drop k xs))" "r = drop (k + n) xs"
      using assms that by (auto simp: ys k_def n_def split: if_splits)
    have len: "length (take n (drop k xs)) = n"
      using c(1) by simp
    have k: "k \<le> 4" "k = 0 \<longleftrightarrow> uint b div 4 < 60"
      using m by (auto simp: k_def extra_bytes_def)
    have bnd: "0 \<le> le_val (take k xs)" "le_val (take k xs) < 256 ^ k"
      using le_val_bound [of "take k xs"] c(1) by (auto simp: min_absorb2)
    have n: "int n = (if k = 0 then uint b div 4 + 1 else le_val (take k xs) + 1)"
      using k(2) m bnd by (simp add: n_def literal_size_def flip: k_def)
    have "of_int (4 * (if k = 0 then int n - 1 else 59 + int k)) = b"
      using that m uint_byte [of b] k n by (intro byte_eqI) (auto simp: k_def extra_bytes_def)
    moreover have "le_bytes k (int n - 1) = take k xs"
      using n c(1) by (cases "k = 0") (auto intro: le_bytes_val)
    moreover have "take k xs @ take n (drop k xs) @ drop (k + n) xs = xs"
      by (metis append_assoc append_take_drop_id take_add)
    moreover have "0 < n \<and> (if k = 0 then n \<le> 60 else n \<le> 256 ^ k)"
      using n k(2) m bnd by (auto simp: nat_less_iff split: if_splits) (metis (mono_tags) add1_zle_eq of_nat_le_iff of_nat_numeral of_nat_power)
    ultimately show ?thesis
      using len k(1) by (auto simp: ys c(2,3))
  qed
  have "ys = encode_element e @ r \<and> wf_element e" if one: "uint b mod 4 = 1"
  proof -
    have c: "xs \<noteq> []" "e = Copy1 (nat (256 * (uint b div 32) + uint (xs ! 0))) (nat (4 + uint b div 4 mod 8))" "r = tl xs"
      using assms one by (auto simp: ys split: if_splits)
    have q: "0 \<le> uint b div 32" "uint b div 32 < 8"
      using uint_byte [of b] by (simp_all add: div_less_iff_less_mult pos_imp_zdiv_nonneg_iff)
    have "of_int (1 + 4 * (uint b div 4 mod 8) + 32 * (uint b div 32)) = b"
    proof (rule byte_eqI)
      have "uint b div 32 = uint b div 4 div 8"
        using zdiv_zmult2_eq [of 8 "uint b" 4] by simp
      then have "1 + 4 * (uint b div 4 mod 8) + 32 * (uint b div 32) = uint b"
        using one div_mult_mod_eq [of "uint b div 4" 8] div_mult_mod_eq [of "uint b" 4] by linarith
      then show "uint b = (1 + 4 * (uint b div 4 mod 8) + 32 * (uint b div 32)) mod 256"
        using uint_byte [of b] by simp
    qed
    moreover have "of_int (256 * (uint b div 32) + uint (xs ! 0)) = xs ! 0"
      using uint_byte [of "xs ! 0"] by (intro byte_eqI) simp
    moreover have "(256 * (uint b div 32) + uint (xs ! 0)) div 256 = uint b div 32"
      using uint_byte [of "xs ! 0"] by simp
    ultimately show ?thesis
      using c q uint_byte [of "xs ! 0"] by (cases xs) (auto simp: ys nat_less_iff)
  qed
  then show "ys = encode_element e @ r" "wf_element e"
    using pick literal copy [of 2 Copy2 2] copy [of 4 Copy4 3] assms by (auto simp: ys)
qed

section \<open>One turn of the loop\<close>

lemma byte_at_append: "0 \<le> j \<Longrightarrow> byte_at (p @ xs) (int (length p) + j) = (if nat j < length xs then Some (xs ! nat j) else None)"
  by (auto simp: byte_at_def nth_append nat_add_distrib nat_less_iff)

lemma byte_at_here: "byte_at (p @ b # xs) (int (length p)) = Some b"
  by (simp add: byte_at_def)

lemmas byte_at_simps = byte_at_append byte_at_here u32_at_def uint_le

lemmas literal_simps = literal_length_def byte_at_simps extra_bytes_def literal_size_def Let_def

lemma list_at_least:
  "2 \<le> length xs \<Longrightarrow> \<exists>a b r. xs = a # b # r"
  "3 \<le> length xs \<Longrightarrow> \<exists>a b c r. xs = a # b # c # r"
  "4 \<le> length xs \<Longrightarrow> \<exists>a b c d r. xs = a # b # c # d # r"
  by (auto simp: numeral_eq_Suc Suc_le_length_iff)

lemma literal_length_read:
  assumes "src = p @ b # xs"
  shows "length xs < extra_bytes b \<Longrightarrow> literal_length E src (int (length p)) = Some (Inl (sn_corrupt E))"
    "extra_bytes b \<le> length xs \<Longrightarrow>
      \<exists>x. literal_length E src (int (length p)) = Some (Inr (x, int (length p) + 1 + int (extra_bytes b))) \<and> uint x + 1 = int (literal_size b xs)"
proof -
  define x :: u32 where "x = ucast (drop_bit 2 b)"
  have m: "0 \<le> uint b div 4" "uint b div 4 < 64"
    using uint_byte [of b] by (simp_all add: div_less_iff_less_mult pos_imp_zdiv_nonneg_iff)
  have x: "uint x = uint b div 4"
    by (simp only: x_def uint_ucast_byte uint_shift2)
  then have cmp: "x < 60 \<longleftrightarrow> uint b div 4 < 60" "x = 60 \<longleftrightarrow> uint b div 4 = 60" "x = 61 \<longleftrightarrow> uint b div 4 = 61" "x = 62 \<longleftrightarrow> uint b div 4 = 62"
    by (simp_all add: word_less_def word_uint_eq_iff)
  consider "uint b div 4 < 60" | "uint b div 4 = 60" | "uint b div 4 = 61" | "uint b div 4 = 62" | "uint b div 4 = 63"
    using m by linarith
  note c = this
  show "length xs < extra_bytes b \<Longrightarrow> literal_length E src (int (length p)) = Some (Inl (sn_corrupt E))"
    using c by cases (simp_all add: assms cmp literal_simps flip: x_def)
  show "\<exists>x. literal_length E src (int (length p)) = Some (Inr (x, int (length p) + 1 + int (extra_bytes b))) \<and> uint x + 1 = int (literal_size b xs)"
    if "extra_bytes b \<le> length xs"
    using c
  proof cases
    case 1
    then show ?thesis
      using m x by (simp add: assms cmp literal_simps flip: x_def)
  next
    case 2
    then obtain x0 r where "xs = x0 # r"
      using \<open>extra_bytes b \<le> length xs\<close> by (cases xs) (auto simp: extra_bytes_def)
    then show ?thesis
      using 2 le_val_bound [of "[x0]"] by (simp add: assms cmp literal_simps flip: x_def)
  next
    case 3
    then obtain x0 x1 r where "xs = x0 # x1 # r"
      using list_at_least(1) [of xs] \<open>extra_bytes b \<le> length xs\<close> by (auto simp: extra_bytes_def)
    then show ?thesis
      using 3 le_val_bound [of "[x0, x1]"] by (simp add: assms cmp literal_simps flip: x_def)
  next
    case 4
    then obtain x0 x1 x2 r where "xs = x0 # x1 # x2 # r"
      using list_at_least(2) [of xs] \<open>extra_bytes b \<le> length xs\<close> by (auto simp: extra_bytes_def)
    then show ?thesis
      using 4 le_val_bound [of "[x0, x1, x2]"] by (simp add: assms cmp literal_simps flip: x_def)
  next
    case 5
    then obtain x0 x1 x2 x3 r where "xs = x0 # x1 # x2 # x3 # r"
      using list_at_least(3) [of xs] \<open>extra_bytes b \<le> length xs\<close> by (auto simp: extra_bytes_def)
    then show ?thesis
      using 5 le_val_bound [of "[x0, x1, x2, x3]"] by (simp add: assms cmp literal_simps flip: x_def)
  qed
qed

text \<open>What a turn does with the element it reads: it writes what the element stands for, or it stops with an error.\<close>

definition turn_ok :: "bytes \<Rightarrow> bytes \<Rightarrow> nat \<Rightarrow> bytes \<Rightarrow> ((bytes \<times> int) + decode_state) option \<Rightarrow> bool" where
  "turn_ok src dst d ys res \<longleftrightarrow>
     (case read_element ys of
        None \<Rightarrow> \<exists>code. res = Some (Inl (dst, code)) \<and> code \<noteq> 0
      | Some (e, r) \<Rightarrow>
          (let out = expand_element (take d dst) e
           in if reaches_back d e \<and> length out \<le> length dst
              then \<exists>dst' o' l'. res = Some (Inr (dst', int (length out), int (length src) - int (length r), o', l')) \<and> length dst' = length dst \<and> take (length out) dst' = out
              else \<exists>code. res = Some (Inl (dst, code)) \<and> code \<noteq> 0))"

lemma overwrite_props:
  assumes "d + length xs \<le> length dst"
  shows "length (overwrite dst (int d) xs) = length dst" "take (d + length xs) (overwrite dst (int d) xs) = take d dst @ xs"
  using assms by (simp_all add: overwrite_def)

lemma literal_turn:
  assumes E: "format_tags E" and src: "src = p @ b # xs" and d: "d \<le> length dst" and tag: "uint b mod 4 = 0"
  shows "turn_ok src dst d (b # xs) (decode_literal E src (dst, int d, int (length p), offset, len))"
proof (cases "length xs < extra_bytes b")
  case True
  then show ?thesis
    using literal_length_read(1) [OF src True, of E] E tag by (simp add: turn_ok_def decode_literal_def format_tags_def)
next
  case False
  define k n where "k = extra_bytes b" and "n = literal_size b xs"
  obtain x where x: "literal_length E src (int (length p)) = Some (Inr (x, int (length p) + 1 + int k))" "uint x + 1 = int n"
    using literal_length_read(2) [OF src, of E] False by (auto simp: k_def n_def)
  have n: "0 < n"
    using x(2) uint_ge_0 [of x] by linarith
  have "drop (nat (int (length p) + 1 + int k)) src = drop k xs" "int (length src) = int (length p) + 1 + int (length xs)"
    by (simp_all add: src nat_add_distrib)
  then have res: "decode_literal E src (dst, int d, int (length p), offset, len) =
      (if length dst < d + n \<or> length xs < k + n then Some (Inl (dst, sn_corrupt E))
       else Some (Inr (overwrite dst (int d) (take n (drop k xs)), int (d + n), int (length src) - int (length xs - (k + n)), offset, int n)))"
    using n by (auto simp: decode_literal_def x Let_def of_nat_diff)
  show ?thesis
    unfolding res using E tag d overwrite_props [of d "take n (drop k xs)" dst]
    by (auto simp: turn_ok_def format_tags_def Let_def min_absorb2 simp flip: k_def n_def)
qed

lemma length_copy_back [simp]: "length (copy_back n offset out) = length out + n"
  by (induction n arbitrary: out) simp_all

lemma copy_back_snoc: "copy_back (Suc n) offset out = (let o' = copy_back n offset out in o' @ [o' ! (length o' - offset)])"
proof (induction n arbitrary: out)
  case (Suc n)
  show ?case
    by (subst copy_back.simps(2), subst Suc.IH) (simp only: copy_back.simps(2) [symmetric])
qed simp

lemma copy_back_apart:
  assumes "n \<le> offset" and "offset \<le> length out"
  shows "copy_back n offset out = out @ take n (drop (length out - offset) out)"
  using assms(1)
proof (induction n)
  case (Suc n)
  then show ?case
    using assms(2) by (simp add: copy_back_snoc Let_def nth_append take_Suc_conv_app_nth del: copy_back.simps(2))
qed simp

lemma forward_copy_back:
  assumes "0 < offset" and "offset \<le> d" and "d + n \<le> length dst"
  shows "length (forward_copy n d offset dst) = length dst \<and> take (d + n) (forward_copy n d offset dst) = copy_back n offset (take d dst)"
  using assms(2,3)
proof (induction n arbitrary: d dst)
  case (Suc n)
  have "take (Suc d) (dst[d := dst ! (d - offset)]) = take d dst @ [dst ! (d - offset)]"
    using Suc.prems by (simp add: take_Suc_conv_app_nth)
  then show ?case
    using Suc.IH [of "Suc d" "dst[d := dst ! (d - offset)]"] Suc.prems assms(1) by simp
qed simp

lemma tag_cases:
  assumes "format_tags E"
  shows "b AND 3 = sn_tagLiteral E \<longleftrightarrow> uint b mod 4 = 0" "b AND 3 = sn_tagCopy1 E \<longleftrightarrow> uint b mod 4 = 1"
    "b AND 3 = sn_tagCopy2 E \<longleftrightarrow> uint b mod 4 = 2" "b AND 3 = sn_tagCopy4 E \<longleftrightarrow> uint b mod 4 = 3"
  using assms by (simp_all add: format_tags_def word_uint_eq_iff tag_bits)

lemma copy_operands_read:
  assumes E: "format_tags E" and src: "src = p @ b # xs"
  shows "uint b mod 4 = 1 \<Longrightarrow> copy_operands E src (dst, d, int (length p), offset, len) =
      (if xs = [] then Some (Inl (sn_corrupt E)) else Some (Inr (int (length p) + 2, 256 * (uint b div 32) + uint (xs ! 0), 4 + uint b div 4 mod 8)))"
    "uint b mod 4 = 2 \<Longrightarrow> copy_operands E src (dst, d, int (length p), offset, len) =
      (if length xs < 2 then Some (Inl (sn_corrupt E)) else Some (Inr (int (length p) + 3, le_val (take 2 xs), 1 + uint b div 4)))"
    "uint b mod 4 = 3 \<Longrightarrow> copy_operands E src (dst, d, int (length p), offset, len) =
      (if length xs < 4 then Some (Inl (sn_corrupt E)) else Some (Inr (int (length p) + 5, le_val (take 4 xs), 1 + uint b div 4)))"
proof -
  note simps = copy_operands_def byte_at_simps tag_cases [OF E] copy1_offset [simplified] copy1_length uint_shift2
  show "uint b mod 4 = 1 \<Longrightarrow> copy_operands E src (dst, d, int (length p), offset, len) =
      (if xs = [] then Some (Inl (sn_corrupt E)) else Some (Inr (int (length p) + 2, 256 * (uint b div 32) + uint (xs ! 0), 4 + uint b div 4 mod 8)))"
    by (cases xs) (simp_all only: src, simp_all add: simps)
  show "copy_operands E src (dst, d, int (length p), offset, len) =
      (if length xs < 2 then Some (Inl (sn_corrupt E)) else Some (Inr (int (length p) + 3, le_val (take 2 xs), 1 + uint b div 4)))" if "uint b mod 4 = 2"
  proof (cases "length xs < 2")
    case False
    then obtain x0 x1 r where "xs = x0 # x1 # r"
      using list_at_least(1) [of xs] by auto
    then show ?thesis
      using that by (simp add: src simps)
  qed (use that in \<open>simp add: src simps\<close>)
  show "copy_operands E src (dst, d, int (length p), offset, len) =
      (if length xs < 4 then Some (Inl (sn_corrupt E)) else Some (Inr (int (length p) + 5, le_val (take 4 xs), 1 + uint b div 4)))" if "uint b mod 4 = 3"
  proof (cases "length xs < 4")
    case False
    then obtain x0 x1 x2 x3 r where "xs = x0 # x1 # x2 # x3 # r"
      using list_at_least(3) [of xs] by auto
    then show ?thesis
      using that by (simp add: src simps)
  qed (use that in \<open>simp add: src simps\<close>)
qed

lemma copy_turn:
  assumes E: "format_tags E" and d: "d \<le> length dst"
    and operands: "copy_operands E src (dst, int d, s, offset, len) = Some (Inr (int (length src) - int (length r), int f, int n))"
    and e: "read_element ys = Some (e, r)" "\<And>out. expand_element out e = copy_back n f out" "reaches_back d e \<longleftrightarrow> 0 < f \<and> f \<le> d"
  shows "turn_ok src dst d ys (decode_copy E src (dst, int d, s, offset, len))"
proof (cases "0 < f \<and> f \<le> d \<and> d + n \<le> length dst")
  case True
  have "take n (drop (d - f) dst) = take n (drop (d - f) (take d dst))" if "n \<le> f"
    using True that by (simp add: drop_take)
  then have "take (d + n) (overwrite dst (int d) (take n (drop (d - f) dst))) = copy_back n f (take d dst)" if "n \<le> f"
    using True that overwrite_props(2) [of d "take n (drop (d - f) dst)" dst] by (simp add: copy_back_apart min_absorb2)
  moreover have "length (overwrite dst (int d) (take n (drop (d - f) dst))) = length dst" if "n \<le> f"
    using True that by (intro overwrite_props(1)) (auto simp: min_def)
  moreover have "nat (int d - int f) = d - f"
    by simp
  ultimately show ?thesis
    using True forward_copy_back [of f d n dst] by (auto simp: turn_ok_def e decode_copy_def operands Let_def min_absorb2)
next
  case False
  then show ?thesis
    using E d by (auto simp: turn_ok_def e decode_copy_def operands Let_def format_tags_def)
qed

lemma short_copy_turn:
  assumes E: "format_tags E" and src: "src = p @ b # xs" and d: "d \<le> length dst" and tag: "uint b mod 4 = 1"
  shows "turn_ok src dst d (b # xs) (decode_copy E src (dst, int d, int (length p), offset, len))"
proof (cases xs)
  case Nil
  then show ?thesis
    using copy_operands_read(1) [OF E src tag] E tag by (simp add: turn_ok_def decode_copy_def format_tags_def)
next
  case (Cons x0 r)
  define f n where "f = nat (256 * (uint b div 32) + uint x0)" and "n = nat (4 + uint b div 4 mod 8)"
  have f: "256 * (uint b div 32) + uint x0 = int f" "4 + uint b div 4 mod 8 = int n"
    using uint_byte [of b] uint_byte [of x0] by (simp_all add: f_def n_def pos_imp_zdiv_nonneg_iff)
  show ?thesis
    by (rule copy_turn [OF E d, where r = r and f = f and n = n and e = "Copy1 f n"]) (simp_all add: copy_operands_read(1) [OF E src tag] tag Cons f, simp add: src Cons)
qed

lemma long_copy_turn:
  assumes E: "format_tags E" and src: "src = p @ b # xs" and d: "d \<le> length dst"
    and operands: "copy_operands E src (dst, int d, int (length p), offset, len) =
      (if length xs < k then Some (Inl (sn_corrupt E)) else Some (Inr (int (length p) + 1 + int k, le_val (take k xs), 1 + uint b div 4)))"
    and read: "read_element (b # xs) = read_copy k C b xs"
    and C: "\<And>f n out. expand_element out (C f n) = copy_back n f out" "\<And>f n. reaches_back d (C f n) \<longleftrightarrow> 0 < f \<and> f \<le> d"
  shows "turn_ok src dst d (b # xs) (decode_copy E src (dst, int d, int (length p), offset, len))"
proof (cases "length xs < k")
  case True
  then show ?thesis
    using operands E read by (simp add: turn_ok_def decode_copy_def format_tags_def read_copy_def)
next
  case False
  define f n where "f = nat (le_val (take k xs))" and "n = nat (uint b div 4 + 1)"
  have f: "le_val (take k xs) = int f" "1 + uint b div 4 = int n"
    using uint_byte [of b] le_val_bound [of "take k xs"] by (simp_all add: f_def n_def pos_imp_zdiv_nonneg_iff)
  have "read_element (b # xs) = Some (C f n, drop k xs)"
    using False read by (simp add: read_copy_def f_def n_def)
  then show ?thesis
    using False operands C by (intro copy_turn [OF E d, where r = "drop k xs" and f = f and n = n]) (auto simp: f src of_nat_diff)
qed

lemma turn:
  assumes E: "format_tags E" and src: "src = p @ b # xs" and d: "d \<le> length dst"
  shows "turn_ok src dst d (b # xs)
    (if b AND 3 = sn_tagLiteral E then decode_literal E src (dst, int d, int (length p), offset, len) else decode_copy E src (dst, int d, int (length p), offset, len))"
proof -
  consider "uint b mod 4 = 0" | "uint b mod 4 = 1" | "uint b mod 4 = 2" | "uint b mod 4 = 3"
    using pos_mod_bound [of 4 "uint b"] pos_mod_sign [of 4 "uint b"] by linarith
  then show ?thesis
  proof cases
    case 1
    then show ?thesis
      using literal_turn [OF E src d] by (simp add: tag_cases [OF E])
  next
    case 2
    then show ?thesis
      using short_copy_turn [OF E src d] by (simp add: tag_cases [OF E])
  next
    case 3
    then show ?thesis
      using long_copy_turn [OF E src d, of offset len 2 Copy2] copy_operands_read(2) [OF E src 3] by (simp add: tag_cases [OF E])
  next
    case 4
    then show ?thesis
      using long_copy_turn [OF E src d, of offset len 4 Copy4] copy_operands_read(3) [OF E src 4] by (simp add: tag_cases [OF E])
  qed
qed

section \<open>The whole block\<close>

text \<open>What the elements of the rest of a block stand for.\<close>

definition stands_for :: "bytes \<Rightarrow> bytes \<Rightarrow> nat \<Rightarrow> bytes \<Rightarrow> bool" where
  "stands_for out ys n res \<longleftrightarrow> (\<exists>es. wf_elements out es \<and> ys = encode_elements es \<and> res = expand_elements out es \<and> length res = n)"

lemma expand_longer: "length out \<le> length (expand_element out e)"
  by (cases e) simp_all

lemma expand_elements_longer: "length out \<le> length (expand_elements out es)"
  unfolding expand_elements_def
proof (induction es arbitrary: out)
  case (Cons e es)
  then show ?case
    using expand_longer [of out e] by (auto intro: order_trans)
qed simp

lemma encode_nonempty: "encode_element e \<noteq> []"
  by (cases e) simp_all

lemma stands_for_nil: "stands_for out [] n res \<longleftrightarrow> res = out \<and> length out = n"
proof
  assume "stands_for out [] n res"
  then obtain es where "[] = encode_elements es" "res = expand_elements out es" "length res = n"
    by (auto simp: stands_for_def)
  moreover have "es = []"
    using \<open>[] = encode_elements es\<close> encode_nonempty by (cases es) (auto simp: encode_elements_def)
  ultimately show "res = out \<and> length out = n"
    by (simp add: expand_elements_def)
next
  assume "res = out \<and> length out = n"
  then show "stands_for out [] n res"
    by (auto simp: stands_for_def encode_elements_def expand_elements_def intro: exI [of _ "[]"])
qed

lemma stands_for_cons:
  assumes "ys \<noteq> []"
  shows "stands_for out ys n res \<longleftrightarrow>
    (\<exists>e r. read_element ys = Some (e, r) \<and> reaches_back (length out) e \<and> length (expand_element out e) \<le> n \<and> stands_for (expand_element out e) r n res)"
proof
  assume "stands_for out ys n res"
  then obtain es where es: "wf_elements out es" "ys = encode_elements es" "res = expand_elements out es" "length res = n"
    by (auto simp: stands_for_def)
  then obtain e es' where e: "es = e # es'"
    using assms by (cases es) (auto simp: encode_elements_def)
  have "read_element ys = Some (e, encode_elements es')"
    using es read_encoding [of e] by (simp add: e encode_elements_def)
  moreover have "length (expand_element out e) \<le> n"
    using es(3,4) expand_elements_longer [of "expand_element out e" es'] by (simp add: e expand_elements_def)
  ultimately show "\<exists>e r. read_element ys = Some (e, r) \<and> reaches_back (length out) e \<and> length (expand_element out e) \<le> n \<and> stands_for (expand_element out e) r n res"
    using es by (auto simp: e stands_for_def expand_elements_def)
next
  assume "\<exists>e r. read_element ys = Some (e, r) \<and> reaches_back (length out) e \<and> length (expand_element out e) \<le> n \<and> stands_for (expand_element out e) r n res"
  then obtain e r es where e: "read_element ys = Some (e, r)" "reaches_back (length out) e" "wf_elements (expand_element out e) es" "r = encode_elements es"
      "res = expand_elements (expand_element out e) es" "length res = n"
    by (auto simp: stands_for_def)
  then show "stands_for out ys n res"
    using read_element_encoded [OF e(1)] by (auto simp: stands_for_def encode_elements_def expand_elements_def intro!: exI [of _ "e # es"])
qed

lemma turn_outcome:
  assumes ok: "turn_ok src dst d ys res" and ne: "ys \<noteq> []" and d: "d \<le> length dst"
  obtains (element) e r dst' o' l' where "ys = encode_element e @ r"
      "res = Some (Inr (dst', int (length (expand_element (take d dst) e)), int (length src) - int (length r), o', l'))"
      "length (expand_element (take d dst) e) \<le> length dst" "length dst' = length dst"
      "take (length (expand_element (take d dst) e)) dst' = expand_element (take d dst) e"
      "\<And>x. stands_for (take d dst) ys (length dst) x \<longleftrightarrow> stands_for (expand_element (take d dst) e) r (length dst) x"
    | (error) code where "res = Some (Inl (dst, code))" "code \<noteq> 0" "\<And>x. \<not> stands_for (take d dst) ys (length dst) x"
proof (cases "\<exists>e r. read_element ys = Some (e, r) \<and> reaches_back d e \<and> length (expand_element (take d dst) e) \<le> length dst")
  case True
  then obtain e r where e: "read_element ys = Some (e, r)" "reaches_back d e" "length (expand_element (take d dst) e) \<le> length dst"
    by blast
  moreover have "stands_for (take d dst) ys (length dst) x \<longleftrightarrow> stands_for (expand_element (take d dst) e) r (length dst) x" for x
    unfolding stands_for_cons [OF ne] using e d by (auto simp: min_absorb2)
  ultimately show ?thesis
    using ok read_element_encoded(1) [OF e(1)] by (auto simp: turn_ok_def Let_def intro: element)
next
  case False
  then have no: "\<not> stands_for (take d dst) ys (length dst) x" for x
    unfolding stands_for_cons [OF ne] using d by (auto simp: min_absorb2)
  show ?thesis
  proof (cases "read_element ys")
    case None
    then show ?thesis
      using ok no by (auto simp: turn_ok_def intro: error)
  next
    case (Some er)
    obtain e r where er: "er = (e, r)"
      by (cases er)
    then have "\<not> (reaches_back d e \<and> length (expand_element (take d dst) e) \<le> length dst)"
      using False Some by blast
    then have "\<exists>code. res = Some (Inl (dst, code)) \<and> code \<noteq> 0"
      using ok by (simp only: turn_ok_def Some er Let_def option.case prod.case if_False)
    then show ?thesis
      using no by (auto intro: error)
  qed
qed

lemma snappy_loop_exact:
  assumes E: "format_tags E" and src: "src = p @ ys" and d: "d \<le> length dst"
  shows "\<exists>dst' code. snappy_loop E src (dst, int d, int (length p), offset, len) = Some (dst', code) \<and> length dst' = length dst \<and>
    (\<forall>res. code = 0 \<and> dst' = res \<longleftrightarrow> stands_for (take d dst) ys (length dst) res)"
  using src d
proof (induction "length ys" arbitrary: p ys dst d offset len rule: less_induct)
  case less
  show ?case
  proof (cases ys)
    case Nil
    then show ?thesis
      using less.prems E by (subst snappy_loop.simps) (auto simp: stands_for_nil format_tags_def)
  next
    case (Cons b xs)
    define res where "res = (if b AND 3 = sn_tagLiteral E then decode_literal E src (dst, int d, int (length p), offset, len)
      else decode_copy E src (dst, int d, int (length p), offset, len))"
    have loop: "snappy_loop E src (dst, int d, int (length p), offset, len) =
        (case res of None \<Rightarrow> None | Some (Inl res) \<Rightarrow> Some res | Some (Inr st) \<Rightarrow> snappy_loop E src st)"
      by (subst snappy_loop.simps) (simp add: less.prems(1) Cons byte_at_here res_def)
    have ok: "turn_ok src dst d ys res" and ne: "ys \<noteq> []"
      using turn [OF E, of src p b xs d dst offset len] less.prems by (simp_all add: Cons res_def)
    show ?thesis
      using ok ne less.prems(2)
    proof (cases rule: turn_outcome)
      case (element e r dst' o' l')
      define out where "out = expand_element (take d dst) e"
      have "int (length src) - int (length r) = int (length (p @ encode_element e))"
        by (simp add: less.prems(1) element(1))
      then have "snappy_loop E src (dst, int d, int (length p), offset, len) = snappy_loop E src (dst', int (length out), int (length (p @ encode_element e)), o', l')"
        using element(2) by (simp add: loop out_def)
      moreover have "length r < length ys" "src = (p @ encode_element e) @ r" "length out \<le> length dst'" "take (length out) dst' = out"
        using element less.prems(1) encode_nonempty [of e] by (simp_all add: out_def)
      ultimately show ?thesis
        using less.hyps [of r "p @ encode_element e" "length out" dst' o' l'] element(4,6) by (simp only: out_def)
    next
      case (error code)
      then show ?thesis
        by (auto simp: loop)
    qed
  qed
qed

text \<open>
  C14: the decoder never panics and always ends, with a destination of the same length; it reports success, with a given content of the destination, exactly when
  the source is the encoding of well-formed elements, each copy within what was written before it, that expand to this content.
\<close>

theorem snappy_decode_exact:
  assumes "format_tags E"
  shows "\<exists>out code. snappy_decode E dst src = Some (out, code) \<and> length out = length dst \<and>
    (\<forall>res. code = 0 \<and> out = res \<longleftrightarrow>
      (\<exists>es. wf_elements [] es \<and> src = encode_elements es \<and> res = expand_elements [] es \<and> length res = length dst))"
  using snappy_loop_exact [OF assms, of src "[]" src 0 dst 0 0] by (simp add: snappy_decode_def stands_for_def)

theorem snappy_decode_exact_witness:
  "snappy_decode \<lparr>sn_tagLiteral = 0, sn_tagCopy1 = 1, sn_tagCopy2 = 2, sn_tagCopy4 = 3, sn_corrupt = 1, sn_unsupported = 2\<rparr> (replicate 9 0) [4, 97, 98, 13, 2] =
     Some ([97, 98, 97, 98, 97, 98, 97, 98, 97], 0)"
proof -
  define E where "E = \<lparr>sn_tagLiteral = 0, sn_tagCopy1 = 1, sn_tagCopy2 = 2, sn_tagCopy4 = 3, sn_corrupt = 1, sn_unsupported = 2\<rparr>"
  define res :: bytes where "res = [97, 98, 97, 98, 97, 98, 97, 98, 97]"
  let ?src = "[4, 97, 98, 13, 2]"
  have E: "format_tags E"
    by (simp add: format_tags_def E_def)
  have "wf_elements [] [Literal 0 [97, 98], Copy1 2 7]" "?src = encode_elements [Literal 0 [97, 98], Copy1 2 7]" "res = expand_elements [] [Literal 0 [97, 98], Copy1 2 7]"
    "length res = 9"
    unfolding res_def by code_simp+
  then have "\<exists>es. wf_elements [] es \<and> ?src = encode_elements es \<and> res = expand_elements [] es \<and> length res = length (replicate 9 (0 :: byte))"
    unfolding length_replicate by blast
  then have "snappy_decode E (replicate 9 0) ?src = Some (res, 0)"
    using snappy_decode_exact [OF E, of "replicate 9 0" ?src] by metis
  then show ?thesis
    by (simp only: E_def res_def)
qed

end
