(* ===== verification/Siv_Block.thy ===== *)
theory Siv_Block
  imports Prelude "HOL-Library.Monad_Syntax"
begin

text \<open>
  Blocks of the authenticated encryption of \<^verbatim>\<open>miscreant.go\<close>: \<^verbatim>\<open>block/block.go\<close> and the function \<^verbatim>\<open>xor\<close> that the packages
  repeat.  A block is a list of 16 bytes; a panic is \<open>None\<close>.  Two interfaces are locales here: \<open>block_buffer\<close> is what the
  two message authentication codes do with their buffers, \<open>mac_hash\<close> what the cipher needs of the \<^verbatim>\<open>hash.Hash\<close> it is given.  The block cipher
  (AES, of Go's standard library) is a parameter of all.
\<close>

section \<open>Blocks\<close>

definition block_Size :: nat where
  "block_Size = 16"

definition block_R :: byte where
  "block_R = 0x87"

text \<open>Go's \<^verbatim>\<open>cipher.Block\<close>.\<close>

record block_cipher =
  bc_BlockSize :: nat
  bc_Encrypt :: "bytes \<Rightarrow> bytes"

definition Clear :: "bytes \<Rightarrow> bytes" where
  "Clear b = replicate (length b) 0"

definition zero_block :: bytes where
  "zero_block = replicate block_Size 0"

text \<open>\<^verbatim>\<open>subtle.ConstantTimeSelect\<close>.\<close>

definition ConstantTimeSelect :: "byte \<Rightarrow> byte \<Rightarrow> byte \<Rightarrow> byte" where
  "ConstantTimeSelect v x y = (if v = 1 then x else y)"

text \<open>The loop of \<^verbatim>\<open>Dbl\<close>, from index \<open>i - 1\<close> down to 0, with the carry.\<close>

fun dbl_loop :: "nat \<Rightarrow> bytes \<Rightarrow> byte \<Rightarrow> bytes \<times> byte" where
  "dbl_loop 0 b z = (b, z)"
| "dbl_loop (Suc i) b z = dbl_loop i (b[i := push_bit 1 (b ! i) OR z]) (drop_bit 7 (b ! i))"

definition Dbl :: "bytes \<Rightarrow> bytes" where
  "Dbl b = (case dbl_loop block_Size b 0 of (b, z) \<Rightarrow>
     b[block_Size - 1 := b ! (block_Size - 1) XOR ConstantTimeSelect z block_R 0])"

definition block_Encrypt :: "block_cipher \<Rightarrow> bytes \<Rightarrow> bytes" where
  "block_Encrypt c b = bc_Encrypt c b"

text \<open>\<^verbatim>\<open>xor(a, b)\<close>; \<open>b\<close> is never longer than \<open>a\<close> (Go would panic).\<close>

fun xor_into :: "bytes \<Rightarrow> bytes \<Rightarrow> bytes" where
  "xor_into (x # a) (y # b) = (x XOR y) # xor_into a b"
| "xor_into a [] = a"
| "xor_into [] (y # b) = []"

text \<open>\<^verbatim>\<open>xor(a[p:], b)\<close>.\<close>

definition xor_at :: "nat \<Rightarrow> bytes \<Rightarrow> bytes \<Rightarrow> bytes" where
  "xor_at p a b = take p a @ xor_into (drop p a) b"

text \<open>The interface \<^verbatim>\<open>hash.Hash\<close>: \<^verbatim>\<open>Write\<close> and \<^verbatim>\<open>Sum\<close> may panic.\<close>

record 'h hash_ops =
  h_Reset :: "'h \<Rightarrow> 'h"
  h_Write :: "'h \<Rightarrow> bytes \<Rightarrow> 'h option"
  h_Sum :: "'h \<Rightarrow> bytes \<Rightarrow> ('h \<times> bytes) option"
  h_Size :: "'h \<Rightarrow> nat"
  h_BlockSize :: "'h \<Rightarrow> nat"

text \<open>A message as blocks of 16 bytes; the last may be shorter, and is empty only for the empty message.\<close>

function chunks :: "bytes \<Rightarrow> bytes list" where
  "chunks m = (if 16 < length m then take 16 m # chunks (drop 16 m) else [m])"
  by auto
termination by (relation "measure length") auto

declare chunks.simps [simp del]

text \<open>
  The doubling of the standards, apart from the code: a block as a number with the first byte on top, times two, reduced by the polynomial \<open>x^128 + x^7 + x^2 + x + 1\<close>.
\<close>

definition block_nat :: "bytes \<Rightarrow> nat" where
  "block_nat b = foldl (\<lambda>n x. 256 * n + unat x) 0 b"

definition gf_double :: "bytes \<Rightarrow> bytes" where
  "gf_double b =
     (let n = 2 * block_nat b; n = (if 2 ^ 128 \<le> n then (n - 2 ^ 128) XOR 0x87 else n)
      in map (\<lambda>j. of_nat (n div 256 ^ (15 - j))) [0..<16])"

text \<open>What is needed of the block cipher: the size of its blocks.\<close>

definition cipher_ok :: "block_cipher \<Rightarrow> bool" where
  "cipher_ok c \<longleftrightarrow> bc_BlockSize c = 16 \<and> (\<forall>b. length b = 16 \<longrightarrow> length (bc_Encrypt c b) = 16)"

text \<open>A block cipher to evaluate with: the bytes rotated by one place and masked with a key.\<close>

definition rotate_cipher :: "bytes \<Rightarrow> block_cipher" where
  "rotate_cipher key = \<lparr>bc_BlockSize = 16, bc_Encrypt = (\<lambda>b. map2 (+) (rotate1 b) (take 16 (key @ replicate 16 1)))\<rparr>"

section \<open>Facts\<close>

lemma cipher_length: "cipher_ok c \<Longrightarrow> length b = 16 \<Longrightarrow> length (bc_Encrypt c b) = 16"
  by (simp add: cipher_ok_def)

lemma rotate_cipher_ok: "cipher_ok (rotate_cipher key)"
  by (simp add: cipher_ok_def rotate_cipher_def)

lemma length_xor_into [simp]: "length (xor_into a b) = length a"
  by (induction a b rule: xor_into.induct) auto

lemma xor_into_Nil [simp]: "xor_into a [] = a"
  by (cases a) auto

lemma xor_into_append: "length p \<le> length a \<Longrightarrow> xor_into a (p @ q) = xor_into (take (length p) a) p @ xor_into (drop (length p) a) q"
  by (induction a p rule: xor_into.induct) auto

lemma xor_into_take: "length b \<le> length a \<Longrightarrow> xor_into a b = xor_into (take (length b) a) b @ drop (length b) a"
  using xor_into_append [of b a "[]"] by simp

lemma nth_xor_into: "i < length b \<Longrightarrow> i < length a \<Longrightarrow> xor_into a b ! i = a ! i XOR b ! i"
  by (induction a b arbitrary: i rule: xor_into.induct) (auto simp: nth_Cons split: nat.split)

lemma xor_into_commute: "length a = length b \<Longrightarrow> xor_into a b = xor_into b a"
  by (rule nth_equalityI) (simp_all add: nth_xor_into xor.commute)

lemma xor_into_assoc: "length a = length b \<Longrightarrow> length b = length c \<Longrightarrow> xor_into (xor_into a b) c = xor_into a (xor_into b c)"
  by (rule nth_equalityI) (simp_all add: nth_xor_into xor.assoc)

lemma xor_into_cancel: "length b \<le> length a \<Longrightarrow> xor_into (xor_into a b) b = a"
  by (induction a b rule: xor_into.induct) (auto simp: xor.assoc)

lemma zero_block [simp]: "length zero_block = 16" "i < 16 \<Longrightarrow> zero_block ! i = 0"
  by (simp_all add: zero_block_def block_Size_def)

lemma Clear_zero: "length b = 16 \<Longrightarrow> Clear b = zero_block"
  by (simp add: Clear_def zero_block_def block_Size_def)

lemma xor_zero: "length a = 16 \<Longrightarrow> xor_into zero_block a = a" "length a = 16 \<Longrightarrow> xor_into a zero_block = a"
  by (rule nth_equalityI; simp add: nth_xor_into)+

lemma length_xor_at [simp]: "p \<le> length a \<Longrightarrow> length (xor_at p a b) = length a"
  by (simp add: xor_at_def)

lemma xor_at_Nil [simp]: "xor_at p a [] = a"
  by (simp add: xor_at_def)

lemma xor_at_0 [simp]: "xor_at 0 a b = xor_into a b"
  by (simp add: xor_at_def)

lemma xor_at_append:
  assumes "p + length x \<le> length a"
  shows "xor_at (p + length x) (xor_at p a x) y = xor_at p a (x @ y)"
proof -
  have "xor_at p a x = take p a @ xor_into (take (length x) (drop p a)) x @ drop (p + length x) a"
    using xor_into_take [of x "drop p a"] assms by (simp add: xor_at_def add.commute)
  moreover have "xor_at p a (x @ y) = take p a @ xor_into (take (length x) (drop p a)) x @ xor_into (drop (p + length x) a) y"
    using xor_into_append [of x "drop p a" y] assms by (simp add: xor_at_def add.commute)
  ultimately show ?thesis using assms by (simp add: xor_at_def)
qed

lemma length_dbl_loop [simp]: "length (fst (dbl_loop i b z)) = length b"
  by (induction i arbitrary: b z) auto

lemma length_Dbl [simp]: "length (Dbl b) = length b"
  by (simp add: Dbl_def case_prod_unfold)

lemma dbl_loop_above: "i \<le> j \<Longrightarrow> fst (dbl_loop i b z) ! j = b ! j"
  by (induction i arbitrary: b z) auto

lemma dbl_loop_carry: "0 < i \<Longrightarrow> snd (dbl_loop i b z) = drop_bit 7 (b ! 0)"
proof (induction i arbitrary: b z)
  case (Suc i)
  show ?case
  proof (cases "i = 0")
    case False
    then show ?thesis using Suc.IH [of "b[i := push_bit 1 (b ! i) OR z]" "drop_bit 7 (b ! i)"] by simp
  qed simp
qed simp

lemma dbl_loop_nth:
  "i \<le> length b \<Longrightarrow> j < i \<Longrightarrow> fst (dbl_loop i b z) ! j = push_bit 1 (b ! j) OR (if Suc j < i then drop_bit 7 (b ! Suc j) else z)"
proof (induction i arbitrary: b z)
  case (Suc i)
  let ?b = "b[i := push_bit 1 (b ! i) OR z]"
  from Suc.prems(1) have le: "i \<le> length ?b" "i < length b" by simp_all
  show ?case
  proof (cases "j = i")
    case True
    then show ?thesis using dbl_loop_above [of i j ?b "drop_bit 7 (b ! i)"] le by simp
  next
    case False
    then have "j < i" using Suc.prems(2) by simp
    from Suc.IH [of ?b "drop_bit 7 (b ! i)", OF le(1) this] this show ?thesis by (auto simp: nth_list_update less_Suc_eq)
  qed
qed simp

lemma Dbl_nth:
  assumes "length b = 16" and "j < 16"
  shows "Dbl b ! j =
    (if j < 15 then push_bit 1 (b ! j) OR drop_bit 7 (b ! Suc j)
     else push_bit 1 (b ! 15) XOR (if drop_bit 7 (b ! 0) = 1 then 0x87 else 0))"
proof -
  obtain c z where l: "dbl_loop 16 b 0 = (c, z)" by (cases "dbl_loop 16 b 0")
  have c: "c ! j = push_bit 1 (b ! j) OR (if Suc j < 16 then drop_bit 7 (b ! Suc j) else 0)"
    if "j < 16" for j using dbl_loop_nth [of 16 b j 0] l assms(1) that by simp
  moreover have "z = drop_bit 7 (b ! 0)" "length c = 16" using dbl_loop_carry [of 16 b 0] length_dbl_loop [of 16 b 0] l assms(1) by simp_all
  ultimately show ?thesis
    using l assms(2) by (auto simp: Dbl_def block_Size_def block_R_def ConstantTimeSelect_def nth_list_update)
qed

text \<open>The code doubles as the standards do.\<close>

lemma bit_byte_append: "bit (256 * a + u) m \<longleftrightarrow> (if m < 8 then bit u m else bit a (m - 8))" if u: "u < 256" for a u :: nat
proof (cases "m < 8")
  case True
  have "take_bit 8 (256 * a + u) = u"
    using u by (simp add: take_bit_eq_mod)
  then show ?thesis
    using True bit_take_bit_iff [of 8 "256 * a + u" m] by simp
next
  case False
  have "drop_bit 8 (256 * a + u) = a"
    using u by (simp add: drop_bit_eq_div)
  then show ?thesis
    using False bit_drop_bit_eq [of 8 "256 * a + u"] by (metis (no_types) comp_apply le_add_diff_inverse not_le)
qed

lemma bit_block_nat: "bit (block_nat b) m \<longleftrightarrow> m < 8 * length b \<and> bit (b ! (length b - 1 - m div 8)) (m mod 8)"
proof (induction b arbitrary: m rule: rev_induct)
  case (snoc x b)
  have eq: "block_nat (b @ [x]) = 256 * block_nat b + unat x"
    by (simp add: block_nat_def)
  show ?case
  proof (cases "m < 8")
    case True
    then show ?thesis
      by (simp add: eq bit_byte_append bit_unsigned_iff nth_append)
  next
    case False
    then obtain k where k: "m = k + 8"
      by (metis add.commute le_add_diff_inverse not_le)
    have "(k + 8) div 8 = Suc (k div 8)"
      by simp
    then show ?thesis
      using snoc.IH [of k] by (auto simp: k eq bit_byte_append nth_append simp del: div_add_self2)
  qed
qed (simp add: block_nat_def)

lemma length_gf_double [simp]: "length (gf_double b) = 16"
  by (simp add: gf_double_def Let_def)

lemma block_nat_less: "block_nat b < 256 ^ length b"
proof (induction b rule: rev_induct)
  case (snoc x b)
  have "256 * block_nat b + unat x < 256 * (block_nat b + 1)"
    by simp
  also have "\<dots> \<le> 256 * 256 ^ length b"
    using snoc by simp
  finally show ?case
    by (simp add: block_nat_def)
qed (simp add: block_nat_def)

lemma gf_double_nth:
  assumes "length b = 16" and "j < 16" and "k < 8"
  shows "bit (gf_double b ! j) k \<longleftrightarrow>
    (if k = 0 then j < 15 \<and> bit (b ! Suc j) 7 else bit (b ! j) (k - 1)) \<noteq> (j = 15 \<and> bit (b ! 0) 7 \<and> bit (0x87 :: nat) k)"
proof -
  define n where "n = 2 * block_nat b"
  define m where "m = (if 2 ^ 128 \<le> n then (n - 2 ^ 128) XOR 0x87 else n)"
  have n: "n < 2 * 2 ^ 128"
    using block_nat_less [of b] assms(1) by (simp add: n_def)
  have top: "2 ^ 128 \<le> n \<longleftrightarrow> bit (b ! 0) 7"
  proof -
    have "bit (b ! 0) 7 \<longleftrightarrow> bit (block_nat b) 127"
      by (simp add: bit_block_nat assms(1))
    also have "\<dots> \<longleftrightarrow> 2 ^ 127 \<le> block_nat b"
      unfolding bit_iff_odd
    proof -
      have "block_nat b div 2 ^ 127 < 2"
        using n by (simp add: n_def less_mult_imp_div_less)
      then have "odd (block_nat b div 2 ^ 127) \<longleftrightarrow> block_nat b div 2 ^ 127 \<noteq> 0"
        by (cases "block_nat b div 2 ^ 127") auto
      then show "odd (block_nat b div 2 ^ 127) \<longleftrightarrow> 2 ^ 127 \<le> block_nat b"
        by (simp add: div_eq_0_iff not_less)
    qed
    finally show ?thesis
      by (simp add: n_def)
  qed
  have low: "take_bit 128 n = (if 2 ^ 128 \<le> n then n - 2 ^ 128 else n)"
    using n mod_if [of n "2 ^ 128"] mod_less [of "n - 2 ^ 128" "2 ^ 128"] unfolding take_bit_eq_mod by (simp add: not_less)
  define i where "i = 8 * (15 - j) + k"
  have i: "i < 128"
    using assms by (simp add: i_def)
  have "bit m i \<longleftrightarrow> bit n i \<noteq> (2 ^ 128 \<le> n \<and> bit (0x87 :: nat) i)"
    using i bit_take_bit_iff [of 128 n i] low by (auto simp: m_def bit_xor_iff)
  moreover have "bit (gf_double b ! j) k \<longleftrightarrow> bit m i"
  proof -
    have "gf_double b ! j = of_nat (drop_bit (8 * (15 - j)) m)"
      using assms(2) unfolding gf_double_def Let_def n_def [symmetric] m_def [symmetric] by (simp add: drop_bit_eq_div power_mult)
    then show ?thesis
      using assms(3) by (simp add: bit_of_nat_iff bit_drop_bit_eq i_def)
  qed
  moreover have "bit n i \<longleftrightarrow> (if k = 0 then j < 15 \<and> bit (b ! Suc j) 7 else bit (b ! j) (k - 1))"
  proof -
    have two: "bit n i \<longleftrightarrow> i \<noteq> 0 \<and> bit (block_nat b) (i - 1)"
      by (simp add: n_def bit_double_iff)
    show ?thesis
    proof (cases k)
      case 0
      show ?thesis
      proof (cases "j = 15")
        case False
        then have "i - 1 = 8 * (14 - j) + 7" "i \<noteq> 0" "j < 15" "15 - (14 - j) = Suc j"
          using 0 assms(2) by (auto simp: i_def)
        moreover have "8 * (14 - j) + 7 < (128 :: nat)"
          by simp
        ultimately show ?thesis
          using 0 unfolding two bit_block_nat assms(1) by simp
      qed (use two in \<open>simp add: 0 i_def\<close>)
    next
      case (Suc k')
      then have "i - 1 = 8 * (15 - j) + k'" "i \<noteq> 0" "k' < 8" "15 - (15 - j) = j"
        using assms(2,3) by (auto simp: i_def)
      moreover from this have "8 * (15 - j) + k' < 128"
        by simp
      ultimately show ?thesis
        using Suc assms(2) unfolding two bit_block_nat assms(1) by simp
    qed
  qed
  moreover have "bit (0x87 :: nat) i \<longleftrightarrow> j = 15 \<and> bit (0x87 :: nat) k"
  proof -
    have "\<not> bit (0x87 :: nat) i" if "8 \<le> i"
      using that bit_take_bit_iff [of 8 "0x87 :: nat" i] by (simp add: take_bit_eq_mod)
    then show ?thesis
      using assms(2) by (cases "j = 15") (auto simp: i_def)
  qed
  ultimately show ?thesis
    using top by (simp only:) blast
qed

lemma drop_bit_7:
  fixes x :: byte
  shows "bit (drop_bit 7 x) k \<longleftrightarrow> k = 0 \<and> bit x 7" "drop_bit 7 x = 1 \<longleftrightarrow> bit x 7"
proof -
  show top: "bit (drop_bit 7 x) k \<longleftrightarrow> k = 0 \<and> bit x 7" for k
    using bit_imp_le_length [of x "7 + k"] by (cases k) (auto simp: bit_drop_bit_eq)
  have "drop_bit 7 x = (if bit x 7 then 1 else 0)"
    by (rule bit_word_eqI) (simp add: top bit_1_iff)
  then show "drop_bit 7 x = 1 \<longleftrightarrow> bit x 7"
    by simp
qed

lemma Dbl_gf_double:
  assumes "length b = 16"
  shows "Dbl b = gf_double b"
proof (rule nth_equalityI)
  fix j
  assume "j < length (Dbl b)"
  then have j: "j < 16"
    using assms by simp
  show "Dbl b ! j = gf_double b ! j"
  proof (rule bit_word_eqI)
    fix k
    assume "k < LENGTH(8)"
    then have k: "k < 8"
      by simp
    have up: "bit (push_bit 1 (b ! i)) k \<longleftrightarrow> k \<noteq> 0 \<and> bit (b ! i) (k - 1)" for i
      using k by (auto simp: bit_push_bit_iff simp del: push_bit_Suc)
    have R: "bit (0x87 :: byte) k \<longleftrightarrow> bit (0x87 :: nat) k"
      using k bit_of_nat_iff [of "0x87" k, where ?'a = "8 word"] by simp
    show "bit (Dbl b ! j) k \<longleftrightarrow> bit (gf_double b ! j) k"
    proof (cases "j < 15")
      case True
      then show ?thesis
        using gf_double_nth [OF assms j k] Dbl_nth [OF assms j] up [of j] drop_bit_7(1) [of "b ! Suc j" k] by (auto simp: bit_or_iff)
    next
      case False
      then have "j = 15"
        using j by simp
      then show ?thesis
        using gf_double_nth [OF assms j k] Dbl_nth [OF assms j] up [of 15] drop_bit_7(2) [of "b ! 0"] R by (auto simp: bit_xor_iff)
    qed
  qed
qed (simp add: assms)

text \<open>Completing a short last block in place.\<close>

lemma last_short:
  assumes "length buf = 16" and "length k = 16" and "length m < 16"
  shows "(xor_into (xor_into buf m) k)[length m := xor_into (xor_into buf m) k ! length m XOR 0x80] =
    xor_into buf (xor_into (m @ 0x80 # replicate (15 - length m) 0) k)"
proof (rule nth_equalityI)
  let ?r = "m @ 0x80 # replicate (15 - length m) 0 :: bytes"
  have r: "length ?r = 16" using assms(3) by simp
  fix i
  assume "i < length ((xor_into (xor_into buf m) k)[length m := xor_into (xor_into buf m) k ! length m XOR 0x80])"
  then have i: "i < 16" using assms by simp
  have buf: "xor_into buf m ! i = (if i < length m then buf ! i XOR m ! i else buf ! i)"
    using i assms xor_into_take [of m buf] nth_xor_into [of i m buf] by (auto simp: nth_append)
  have "?r ! i = (if i < length m then m ! i else if i = length m then 0x80 else 0)"
    using i by (auto simp: nth_append nth_Cons split: nat.split)
  then show "(xor_into (xor_into buf m) k)[length m := xor_into (xor_into buf m) k ! length m XOR 0x80] ! i = xor_into buf (xor_into ?r k) ! i"
    using i assms r buf by (auto simp: nth_list_update nth_xor_into ac_simps)
qed (use assms in simp)

section \<open>Block buffers\<close>

text \<open>
  Both codes keep a buffer of one block with a position: \<open>fill\<close> adds bytes that fit, \<open>flush\<close> takes a full buffer in.  Writing a message in
  any pieces is the same as feeding it byte by byte, where a full buffer is flushed only when another byte comes.
\<close>

locale block_buffer =
  fixes bpos :: "'s \<Rightarrow> nat"
    and fill :: "'s \<Rightarrow> bytes \<Rightarrow> 's"
    and flush :: "'s \<Rightarrow> 's option"
    and inv :: "'s \<Rightarrow> bool"
  assumes bpos_le: "inv s \<Longrightarrow> bpos s \<le> 16"
    and fill_Nil: "inv s \<Longrightarrow> fill s [] = s"
    and fill_append: "inv s \<Longrightarrow> bpos s + length (p @ q) \<le> 16 \<Longrightarrow> fill (fill s p) q = fill s (p @ q)"
    and bpos_fill: "inv s \<Longrightarrow> bpos s + length p \<le> 16 \<Longrightarrow> bpos (fill s p) = bpos s + length p \<and> inv (fill s p)"
    and bpos_flush: "inv s \<Longrightarrow> bpos s = 16 \<Longrightarrow> flush s = Some s' \<Longrightarrow> bpos s' = 0 \<and> inv s'"
begin

fun feed :: "'s \<Rightarrow> bytes \<Rightarrow> 's option" where
  "feed s [] = Some s"
| "feed s (x # p) = do { s \<leftarrow> (if bpos s = 16 then flush s else Some s); feed (fill s [x]) p }"

lemma feed_append: "feed s (p @ q) = do { s \<leftarrow> feed s p; feed s q }"
  by (induction p arbitrary: s) (auto simp: bind_assoc)

lemma feed_inv: "inv s \<Longrightarrow> feed s p = Some s' \<Longrightarrow> inv s'"
proof (induction p arbitrary: s)
  case (Cons x p)
  from Cons.prems obtain t where t: "(if bpos s = 16 then flush s else Some s) = Some t" "feed (fill t [x]) p = Some s'"
    by (auto simp: Option.bind_eq_Some_conv)
  have "inv t \<and> bpos t < 16"
    using t(1) Cons.prems(1) bpos_le [of s] bpos_flush [of s t] by (auto split: if_splits)
  then show ?case using Cons.IH [OF _ t(2)] bpos_fill [of t "[x]"] by simp
qed simp

lemma feed_fits: "inv s \<Longrightarrow> bpos s + length p \<le> 16 \<Longrightarrow> feed s p = Some (fill s p)"
proof (induction p arbitrary: s)
  case (Cons x p)
  then show ?case
    using Cons.IH [of "fill s [x]"] bpos_fill [of s "[x]"] fill_append [of s "[x]" p] by simp
qed (simp add: fill_Nil)

lemma feed_full:
  assumes "inv s" and "bpos s = 16" and "p \<noteq> []"
  shows "feed s p = do { s \<leftarrow> flush s; feed s p }"
proof -
  obtain x q where p: "p = x # q" using assms(3) by (cases p) auto
  show ?thesis
  proof (cases "flush s")
    case (Some t)
    then have "bpos t = 0" using bpos_flush [OF assms(1,2)] by blast
    then show ?thesis using Some assms p by simp
  qed (use assms p in simp)
qed

lemma feed_over:
  assumes "inv s" and "bpos s + length p = 16" and "q \<noteq> []"
  shows "feed s (p @ q) = do { s \<leftarrow> flush (fill s p); feed s q }"
  using feed_append [of s p q] feed_fits [of s p] feed_full [of "fill s p" q] bpos_fill [of s p] assms by simp

text \<open>
  Any function that first completes the buffer, then takes whole blocks and then keeps the rest is \<open>feed\<close>.  \<open>blocks\<close> is the middle loop.
\<close>

lemma blocks_feed:
  assumes more: "\<And>s p. inv s \<Longrightarrow> bpos s = 0 \<Longrightarrow> 16 < length p \<Longrightarrow>
      blocks s p = do { s \<leftarrow> flush (fill s (take 16 p)); blocks s (drop 16 p) }"
    and rest: "\<And>s p. length p \<le> 16 \<Longrightarrow> blocks s p = Some (s, p)"
    and "inv s" and "bpos s = 0" and "p \<noteq> []"
  shows "do { (s, p) \<leftarrow> blocks s p; Some (fill s p) } = feed s p"
  using assms(3-)
proof (induction "length p" arbitrary: s p rule: less_induct)
  case less
  show ?case
  proof (cases "16 < length p")
    case False
    then show ?thesis using less.prems feed_fits [of s p] rest [of p s] by simp
  next
    case True
    have fits: "bpos s + length (take 16 p) = 16" using less.prems True by simp
    have step: "feed s p = do { s \<leftarrow> flush (fill s (take 16 p)); feed s (drop 16 p) }"
      using feed_over [OF less.prems(1) fits, of "drop 16 p"] True by simp
    show ?thesis
    proof (cases "flush (fill s (take 16 p))")
      case None
      then show ?thesis using True step more [OF less.prems(1,2)] by simp
    next
      case (Some t)
      have "inv t" "bpos t = 0" using bpos_flush [OF _ _ Some] bpos_fill [OF less.prems(1), of "take 16 p"] fits by auto
      from less.hyps [OF _ this, of "drop 16 p"] True Some step more [OF less.prems(1,2)] show ?thesis by simp
    qed
  qed
qed

lemma write_feed:
  assumes more: "\<And>s p. inv s \<Longrightarrow> bpos s = 0 \<Longrightarrow> 16 < length p \<Longrightarrow>
      blocks s p = do { s \<leftarrow> flush (fill s (take 16 p)); blocks s (drop 16 p) }"
    and rest: "\<And>s p. length p \<le> 16 \<Longrightarrow> blocks s p = Some (s, p)"
    and s: "inv s"
  shows "(if 16 - bpos s < length p
      then do { t \<leftarrow> flush (fill s (take (16 - bpos s) p)); (s, p) \<leftarrow> blocks t (drop (16 - bpos s) p); Some (fill s p) }
      else do { (s, p) \<leftarrow> blocks s p; Some (fill s p) }) = feed s p"
proof (cases "16 - bpos s < length p")
  case False
  moreover have "blocks s p = Some (s, p)" using False rest [of p s] by simp
  ultimately show ?thesis using feed_fits [OF s, of p] bpos_le [OF s] by simp
next
  case True
  let ?p = "take (16 - bpos s) p" and ?q = "drop (16 - bpos s) p"
  have fits: "bpos s + length ?p = 16" and ne: "?q \<noteq> []" using True bpos_le [OF s] by auto
  have step: "feed s p = do { s \<leftarrow> flush (fill s ?p); feed s ?q }" using feed_over [OF s fits ne] by simp
  show ?thesis
  proof (cases "flush (fill s ?p)")
    case (Some t)
    have "inv t" "bpos t = 0" using bpos_flush [OF _ _ Some] bpos_fill [OF s, of ?p] fits by auto
    from blocks_feed [of blocks, OF more rest this ne] True Some step show ?thesis by simp
  qed (use True step in simp)
qed

text \<open>Feeding a message to an empty buffer, by blocks.\<close>

lemma feed_chunks:
  assumes "inv s" and "bpos s = 0" and "16 < length m"
  shows "feed s m = do { s \<leftarrow> flush (fill s (take 16 m)); feed s (drop 16 m) }"
  using feed_over [OF assms(1), of "take 16 m" "drop 16 m"] assms by simp

end

section \<open>Hashes\<close>

text \<open>
  The contract of a message authentication code as a \<^verbatim>\<open>hash.Hash\<close>: from a reset on the state stands for the message written so far, and
  \<^verbatim>\<open>Sum\<close> appends its code.  \<open>fits\<close> bounds the length of the messages the code accepts.
\<close>

locale mac_hash =
  fixes ops :: "'h hash_ops"
    and good :: "'h \<Rightarrow> bool"
    and absorbed :: "'h \<Rightarrow> bytes \<Rightarrow> bool"
    and mac :: "bytes \<Rightarrow> bytes"
    and fits :: "nat \<Rightarrow> bool"
  assumes Reset_law: "good h \<Longrightarrow> absorbed (h_Reset ops h) []"
    and Write_law: "absorbed h m \<Longrightarrow> fits (length (m @ p)) \<Longrightarrow> \<exists>h'. h_Write ops h p = Some h' \<and> absorbed h' (m @ p)"
    and Sum_law: "absorbed h m \<Longrightarrow> \<exists>h'. h_Sum ops h pre = Some (h', pre @ mac m) \<and> good h'"
    and mac_length: "good h \<Longrightarrow> length (mac m) = 16"
    and Size_law: "h_Size ops h = 16" "good h \<Longrightarrow> h_BlockSize ops h = 16" "absorbed h m \<Longrightarrow> good h"
    and fits_mono: "fits n \<Longrightarrow> k \<le> n \<Longrightarrow> fits k"
    and fits_block: "fits 16"

end
