(* ===== verification/Siv_Cmac.thy ===== *)
theory Siv_Cmac
  imports Siv_Block
begin

text \<open>
  The message authentication code CMAC, \<^verbatim>\<open>miscreant.go/cmac/cmac.go\<close>: the incremental digest, and the one-shot definition of NIST SP
  800-38B that it computes however the message is split into writes.
\<close>

section \<open>The digest\<close>

record cmac =
  cm_c :: block_cipher
  cm_k1 :: bytes
  cm_k2 :: bytes
  cm_digest :: bytes
  cm_buf :: bytes
  cm_pos :: nat

definition cmac_New :: "block_cipher \<Rightarrow> cmac option" where
  "cmac_New c =
     (if bc_BlockSize c \<noteq> block_Size then None
      else let k1 = Dbl (block_Encrypt c zero_block); k2 = Dbl k1
        in Some \<lparr>cm_c = c, cm_k1 = k1, cm_k2 = k2, cm_digest = zero_block, cm_buf = zero_block, cm_pos = 0\<rparr>)"

definition cmac_Reset :: "cmac \<Rightarrow> cmac" where
  "cmac_Reset d = d\<lparr>cm_digest := Clear (cm_digest d), cm_buf := Clear (cm_buf d), cm_pos := 0\<rparr>"

text \<open>The loop of \<^verbatim>\<open>Write\<close> over whole blocks.\<close>

function cmac_blocks :: "cmac \<Rightarrow> bytes \<Rightarrow> cmac \<times> bytes" where
  "cmac_blocks d p =
     (if block_Size < length p
      then cmac_blocks (d\<lparr>cm_buf := block_Encrypt (cm_c d) (xor_into (cm_buf d) (take block_Size p))\<rparr>) (drop block_Size p)
      else (d, p))"
  by pat_completeness auto
termination by (relation "measure (length \<circ> snd)") (auto simp: block_Size_def)

declare cmac_blocks.simps [simp del]

definition cmac_Write :: "cmac \<Rightarrow> bytes \<Rightarrow> cmac" where
  "cmac_Write d p =
     (let left = block_Size - cm_pos d;
          (d, p) = (if left < length p
            then (d\<lparr>cm_buf := block_Encrypt (cm_c d) (xor_at (cm_pos d) (cm_buf d) (take left p)), cm_pos := 0\<rparr>, drop left p)
            else (d, p));
          (d, p) = cmac_blocks d p
      in if 0 < length p then d\<lparr>cm_buf := xor_at (cm_pos d) (cm_buf d) p, cm_pos := cm_pos d + length p\<rparr> else d)"

definition cmac_Sum :: "cmac \<Rightarrow> bytes \<Rightarrow> cmac \<times> bytes" where
  "cmac_Sum d pre =
     (let k = (if cm_pos d < length (cm_digest d) then cm_k2 d else cm_k1 d);
          dg = xor_into (cm_buf d) k;
          dg = (if cm_pos d < length (cm_digest d) then dg[cm_pos d := dg ! cm_pos d XOR 0x80] else dg);
          dg = block_Encrypt (cm_c d) dg
      in (d\<lparr>cm_digest := dg\<rparr>, pre @ dg))"

definition cmac_Size :: "cmac \<Rightarrow> nat" where
  "cmac_Size d = block_Size"

definition cmac_BlockSize :: "cmac \<Rightarrow> nat" where
  "cmac_BlockSize d = bc_BlockSize (cm_c d)"

definition cmac_ops :: "cmac hash_ops" where
  "cmac_ops = \<lparr>h_Reset = cmac_Reset, h_Write = (\<lambda>d p. Some (cmac_Write d p)), h_Sum = (\<lambda>d pre. Some (cmac_Sum d pre)),
     h_Size = cmac_Size, h_BlockSize = cmac_BlockSize\<rparr>"

section \<open>The code\<close>

text \<open>
  CMAC as the standard defines it: the last block is completed by a one and zeros when it is short, and masked with one of two subkeys
  that depend on it.
\<close>

definition cmac_last :: "bytes \<Rightarrow> bytes \<Rightarrow> bytes \<Rightarrow> bytes" where
  "cmac_last k1 k2 r =
     (if length r = 16 then xor_into r k1 else xor_into (r @ 0x80 # replicate (15 - length r) 0) k2)"

definition cmac_spec :: "block_cipher \<Rightarrow> bytes \<Rightarrow> bytes" where
  "cmac_spec c m =
     (let k1 = gf_double (bc_Encrypt c zero_block); k2 = gf_double k1; bs = chunks m;
          x = foldl (\<lambda>x b. bc_Encrypt c (xor_into x b)) zero_block (butlast bs)
      in bc_Encrypt c (xor_into x (cmac_last k1 k2 (last bs))))"

definition cmac_good :: "block_cipher \<Rightarrow> cmac \<Rightarrow> bool" where
  "cmac_good c d \<longleftrightarrow> cipher_ok c \<and> cm_c d = c \<and> cm_k1 d = Dbl (bc_Encrypt c zero_block) \<and> cm_k2 d = Dbl (cm_k1 d) \<and>
     length (cm_digest d) = 16 \<and> length (cm_buf d) = 16 \<and> cm_pos d \<le> 16"

definition cmac_fill :: "cmac \<Rightarrow> bytes \<Rightarrow> cmac" where
  "cmac_fill d p = d\<lparr>cm_buf := xor_at (cm_pos d) (cm_buf d) p, cm_pos := cm_pos d + length p\<rparr>"

definition cmac_flush :: "cmac \<Rightarrow> cmac option" where
  "cmac_flush d = Some (d\<lparr>cm_buf := bc_Encrypt (cm_c d) (cm_buf d), cm_pos := 0\<rparr>)"

section \<open>Writing\<close>

interpretation cmac_buffer: block_buffer cm_pos cmac_fill cmac_flush "cmac_good c" for c
proof unfold_locales
  fix s s' p q
  assume good: "cmac_good c s"
  show "cm_pos s \<le> 16" using good by (simp add: cmac_good_def)
  show "cmac_fill s [] = s" by (simp add: cmac_fill_def)
  show "cmac_fill (cmac_fill s p) q = cmac_fill s (p @ q)" if "cm_pos s + length (p @ q) \<le> 16"
    using good that xor_at_append [of "cm_pos s" p "cm_buf s" q] by (simp add: cmac_fill_def cmac_good_def add.assoc)
  show "cm_pos (cmac_fill s p) = cm_pos s + length p \<and> cmac_good c (cmac_fill s p)" if "cm_pos s + length p \<le> 16"
    using good that by (simp add: cmac_fill_def cmac_good_def)
  show "cm_pos s' = 0 \<and> cmac_good c s'" if "cmac_flush s = Some s'"
  proof -
    have "s' = s\<lparr>cm_buf := bc_Encrypt c (cm_buf s), cm_pos := 0\<rparr>" using good that by (simp add: cmac_flush_def cmac_good_def)
    then show ?thesis using good cipher_length [of c "cm_buf s"] by (simp add: cmac_good_def)
  qed
qed

lemma cmac_Write_feed:
  assumes good: "cmac_good c d"
  shows "Some (cmac_Write d p) = cmac_buffer.feed d p"
proof -
  let ?blocks = "\<lambda>d p. Some (cmac_blocks d p)"
  have more: "?blocks d p = do { d \<leftarrow> cmac_flush (cmac_fill d (take 16 p)); ?blocks d (drop 16 p) }"
    if "cm_pos d = 0" "16 < length p" for d p
  proof -
    have "d = d\<lparr>cm_pos := 0\<rparr>" using that(1) by (cases d) simp
    then show ?thesis using that
      by (subst cmac_blocks.simps) (cases d, simp add: block_Size_def cmac_fill_def cmac_flush_def block_Encrypt_def)
  qed
  have rest: "?blocks d p = Some (d, p)" if "length p \<le> 16" for d p
    using that by (subst cmac_blocks.simps) (simp add: block_Size_def)
  have keep: "(if 0 < length p then d\<lparr>cm_buf := xor_at (cm_pos d) (cm_buf d) p, cm_pos := cm_pos d + length p\<rparr> else d) = cmac_fill d p" for d p
    by (auto simp: cmac_fill_def)
  have le: "cm_pos d \<le> 16" using good by (simp add: cmac_good_def)
  note feed = cmac_buffer.write_feed [of c ?blocks, OF more rest good, of p]
  show ?thesis
  proof (cases "16 - cm_pos d < length p")
    case True
    let ?d = "d\<lparr>cm_buf := bc_Encrypt (cm_c d) (xor_at (cm_pos d) (cm_buf d) (take (16 - cm_pos d) p)), cm_pos := 0\<rparr>"
    have "cmac_flush (cmac_fill d (take (16 - cm_pos d) p)) = Some ?d" by (simp add: cmac_flush_def cmac_fill_def)
    then have "cmac_buffer.feed d p = Some (case cmac_blocks ?d (drop (16 - cm_pos d) p) of (d, p) \<Rightarrow> cmac_fill d p)"
      using feed True by (simp add: case_prod_unfold)
    moreover have "cmac_Write d p = (case cmac_blocks ?d (drop (16 - cm_pos d) p) of (d, p) \<Rightarrow> cmac_fill d p)"
      using True unfolding cmac_Write_def keep Let_def by (simp add: block_Size_def block_Encrypt_def)
    ultimately show ?thesis by simp
  next
    case False
    then have "cmac_buffer.feed d p = Some (cmac_fill d p)" using feed rest [of p d] by simp
    moreover have "cmac_Write d p = cmac_fill d p"
      using False rest [of p d] unfolding cmac_Write_def keep Let_def by (simp add: block_Size_def)
    ultimately show ?thesis by simp
  qed
qed

section \<open>The sum\<close>

lemma cmac_Sum_feed:
  assumes "cmac_good c d" and "cm_pos d = 0" and "cmac_buffer.feed d m = Some d'"
  shows "cmac_good c d'" and "cmac_good c (fst (cmac_Sum d' pre))"
    and "snd (cmac_Sum d' pre) = pre @ bc_Encrypt c (xor_into (foldl (\<lambda>x b. bc_Encrypt c (xor_into x b)) (cm_buf d) (butlast (chunks m)))
      (cmac_last (cm_k1 d) (cm_k2 d) (last (chunks m))))"
proof -
  show good': "cmac_good c d'" by (rule cmac_buffer.feed_inv [OF assms(1,3)])
  show "cmac_good c (fst (cmac_Sum d' pre))"
    using good' cipher_length by (auto simp: cmac_Sum_def cmac_good_def Let_def block_Encrypt_def)
  show "snd (cmac_Sum d' pre) = pre @ bc_Encrypt c (xor_into (foldl (\<lambda>x b. bc_Encrypt c (xor_into x b)) (cm_buf d) (butlast (chunks m)))
      (cmac_last (cm_k1 d) (cm_k2 d) (last (chunks m))))"
    using assms
  proof (induction "length m" arbitrary: d m rule: less_induct)
    case less
    have len: "length (cm_buf d) = 16" "length (cm_k1 d) = 16" "length (cm_k2 d) = 16" "cm_c d = c" "length (cm_digest d) = 16"
      using less.prems(1) cipher_length [of c zero_block] by (auto simp: cmac_good_def)
    show ?case
    proof (cases "16 < length m")
      case False
      then have "d' = cmac_fill d m" using cmac_buffer.feed_fits [OF less.prems(1), of m] less.prems(2,3) by simp
      then show ?thesis
        using False less.prems(2) len last_short [of "cm_buf d" "cm_k2 d" m] xor_into_assoc [of "cm_buf d" m "cm_k1 d"]
        by (subst chunks.simps, subst chunks.simps)
          (cases "length m = 16"; simp add: cmac_Sum_def Let_def cmac_fill_def block_Encrypt_def cmac_last_def)
    next
      case True
      let ?d = "d\<lparr>cm_buf := bc_Encrypt c (xor_into (cm_buf d) (take 16 m)), cm_pos := 0\<rparr>"
      have fl: "cmac_flush (cmac_fill d (take 16 m)) = Some ?d" using less.prems(2) len by (simp add: cmac_flush_def cmac_fill_def)
      then have "cmac_buffer.feed ?d (drop 16 m) = Some d'"
        using cmac_buffer.feed_chunks [OF less.prems(1,2) True] less.prems(3) by simp
      moreover have "cmac_good c ?d" using less.prems(1) cipher_length [of c "xor_into (cm_buf d) (take 16 m)"] by (simp add: cmac_good_def)
      ultimately have "snd (cmac_Sum d' pre) = pre @ bc_Encrypt c (xor_into (foldl (\<lambda>x b. bc_Encrypt c (xor_into x b)) (cm_buf ?d) (butlast (chunks (drop 16 m))))
          (cmac_last (cm_k1 ?d) (cm_k2 ?d) (last (chunks (drop 16 m)))))"
        using less.hyps [of "drop 16 m" ?d] True by simp
      moreover have "chunks m = take 16 m # chunks (drop 16 m)" "chunks (drop 16 m) \<noteq> []"
        using True by (subst chunks.simps, simp) (subst chunks.simps, simp)
      ultimately show ?thesis by simp
    qed
  qed
qed

definition cmac_absorbed :: "block_cipher \<Rightarrow> cmac \<Rightarrow> bytes \<Rightarrow> bool" where
  "cmac_absorbed c d m \<longleftrightarrow> (\<exists>d0. cmac_good c d0 \<and> cm_buf d0 = zero_block \<and> cm_pos d0 = 0 \<and> cmac_buffer.feed d0 m = Some d)"

lemma cmac_absorbed_good: "cmac_absorbed c d m \<Longrightarrow> cmac_good c d"
  by (auto simp: cmac_absorbed_def dest: cmac_buffer.feed_inv)

lemma cmac_Reset_absorbed: "cmac_good c d \<Longrightarrow> cmac_absorbed c (cmac_Reset d) []"
  by (auto simp: cmac_absorbed_def cmac_Reset_def cmac_good_def Clear_zero)

lemma cmac_Write_absorbed: "cmac_absorbed c d m \<Longrightarrow> cmac_absorbed c (cmac_Write d p) (m @ p)"
  using cmac_Write_feed [OF cmac_absorbed_good, of c d m p] by (auto simp: cmac_absorbed_def cmac_buffer.feed_append)

lemma cmac_Writes_absorbed: "cmac_absorbed c d m \<Longrightarrow> cmac_absorbed c (foldl cmac_Write d ps) (m @ concat ps)"
proof (induction ps arbitrary: d m)
  case (Cons p ps)
  then show ?case using Cons.IH [of "cmac_Write d p" "m @ p"] cmac_Write_absorbed by simp
qed simp

lemma cmac_Sum_absorbed:
  assumes "cmac_absorbed c d m"
  shows "snd (cmac_Sum d pre) = pre @ cmac_spec c m \<and> cmac_good c (fst (cmac_Sum d pre))"
proof -
  from assms obtain d0 where d0: "cmac_good c d0" "cm_buf d0 = zero_block" "cm_pos d0 = 0" "cmac_buffer.feed d0 m = Some d"
    by (auto simp: cmac_absorbed_def)
  from cmac_Sum_feed(2,3) [OF d0(1,3,4), of pre] d0(1,2) show ?thesis by (simp add: cmac_spec_def Let_def cmac_good_def Dbl_gf_double cipher_length)
qed

lemma cmac_spec_length: "cipher_ok c \<Longrightarrow> length (cmac_spec c m) = 16"
proof -
  assume c: "cipher_ok c"
  have "length (foldl (\<lambda>x b. bc_Encrypt c (xor_into x b)) x bs) = 16" if "length x = 16" for x bs
    using that c by (induction bs arbitrary: x) (simp_all add: cipher_length)
  then show ?thesis using c by (simp add: cmac_spec_def Let_def cipher_length)
qed

interpretation cmac_hash: mac_hash cmac_ops "cmac_good c" "cmac_absorbed c" "cmac_spec c" "\<lambda>n. True" for c
proof unfold_locales
  fix h m p pre
  show "cmac_good c h \<Longrightarrow> cmac_absorbed c (h_Reset cmac_ops h) []" by (simp add: cmac_ops_def cmac_Reset_absorbed)
  show "cmac_absorbed c h m \<Longrightarrow> \<exists>h'. h_Write cmac_ops h p = Some h' \<and> cmac_absorbed c h' (m @ p)"
    by (simp add: cmac_ops_def cmac_Write_absorbed)
  show "cmac_absorbed c h m \<Longrightarrow> \<exists>h'. h_Sum cmac_ops h pre = Some (h', pre @ cmac_spec c m) \<and> cmac_good c h'"
    using cmac_Sum_absorbed [of c h m pre] by (cases "cmac_Sum h pre") (simp add: cmac_ops_def)
  show "cmac_good c h \<Longrightarrow> length (cmac_spec c m) = 16" using cmac_spec_length by (simp add: cmac_good_def)
  show "h_Size cmac_ops h = 16" by (simp add: cmac_ops_def cmac_Size_def block_Size_def)
  show "cmac_good c h \<Longrightarrow> h_BlockSize cmac_ops h = 16" by (simp add: cmac_ops_def cmac_BlockSize_def cmac_good_def cipher_ok_def)
  show "cmac_absorbed c h m \<Longrightarrow> cmac_good c h" by (rule cmac_absorbed_good)
qed simp_all

lemma cmac_New_absorbed: "cipher_ok c \<Longrightarrow> \<exists>d. cmac_New c = Some d \<and> cmac_absorbed c d []"
  by (auto simp: cmac_New_def cmac_absorbed_def cmac_good_def Let_def block_Encrypt_def cipher_ok_def block_Size_def)

section \<open>Properties\<close>

text \<open>
  C25: streaming CMAC.  A new digest over a block cipher never panics, and after any series of writes, and after any
  earlier use followed by a reset, \<^verbatim>\<open>Sum\<close> appends the code that the one-shot definition of the standard gives to the concatenation of what was
  written.
\<close>

theorem cmac_streaming:
  assumes "cipher_ok c"
  shows "\<exists>d. cmac_New c = Some d \<and>
    snd (cmac_Sum (foldl cmac_Write d ps) pre) = pre @ cmac_spec c (concat ps) \<and>
    snd (cmac_Sum (foldl cmac_Write (cmac_Reset (fst (cmac_Sum (foldl cmac_Write d qs) pre'))) ps) pre) = pre @ cmac_spec c (concat ps)"
proof -
  note writes = cmac_Writes_absorbed [of c]
  obtain d where d: "cmac_New c = Some d" "cmac_absorbed c d []" using cmac_New_absorbed [OF assms] by blast
  have "cmac_absorbed c (cmac_Reset (fst (cmac_Sum (foldl cmac_Write d qs) pre'))) []"
    using cmac_Reset_absorbed cmac_Sum_absorbed [OF writes [OF d(2)]] by blast
  then show ?thesis using d(1) cmac_Sum_absorbed [OF writes [OF d(2)]] cmac_Sum_absorbed [OF writes] by fastforce
qed

theorem cmac_streaming_witness:
  "snd (cmac_Sum (foldl cmac_Write (the (cmac_New (rotate_cipher [7]))) [replicate 10 1, replicate 6 2, [], [3]]) []) =
   cmac_spec (rotate_cipher [7]) (replicate 10 1 @ replicate 6 2 @ [3]) \<and>
   length (cmac_spec (rotate_cipher [7]) (replicate 10 1 @ replicate 6 2 @ [3])) = 16"
  using cmac_streaming [OF rotate_cipher_ok [of "[7]"], of "[replicate 10 1, replicate 6 2, [], [3]]" "[]" "[]" "[]"]
    cmac_spec_length [OF rotate_cipher_ok] by auto

end
