(* ===== verification/Siv_Pmac.thy ===== *)
theory Siv_Pmac
  imports Siv_Block
begin

text \<open>
  The message authentication code PMAC, \<^verbatim>\<open>miscreant.go/pmac/pmac.go\<close>: the incremental digest and the one-shot definition of its authors, in
  which every block is encrypted on its own under an offset.  The table of offsets has 31 entries, so that the code
  panics at block \<open>2 ^ 31\<close>; up to there it is total.
\<close>

section \<open>The digest\<close>

definition precomputedBlocks :: nat where
  "precomputedBlocks = 31"

record pmac =
  pm_c :: block_cipher
  pm_l :: "bytes list"
  pm_lInv :: bytes
  pm_digest :: bytes
  pm_offset :: bytes
  pm_buf :: bytes
  pm_pos :: nat
  pm_ctr :: u64
  pm_finished :: bool

text \<open>\<^verbatim>\<open>bits.TrailingZeros\<close> of a 64-bit number.\<close>

fun ntz :: "nat \<Rightarrow> nat" where
  "ntz n = (if n = 0 then 64 else if even n then Suc (ntz (n div 2)) else 0)"

declare ntz.simps [simp del]

definition TrailingZeros :: "u64 \<Rightarrow> nat" where
  "TrailingZeros w = ntz (unat w)"

text \<open>The loop of \<^verbatim>\<open>New\<close> that fills the table.\<close>

fun l_table :: "nat \<Rightarrow> bytes \<Rightarrow> bytes list" where
  "l_table 0 tmp = []"
| "l_table (Suc n) tmp = tmp # l_table n (Dbl tmp)"

text \<open>The loop of \<^verbatim>\<open>New\<close> that shifts right, from index \<open>i\<close> down to 1, and the whole division by \<open>x\<close>.\<close>

fun halve_loop :: "nat \<Rightarrow> bytes \<Rightarrow> bytes" where
  "halve_loop 0 b = b"
| "halve_loop (Suc i) b =
     halve_loop i (b[Suc i := drop_bit 1 (b ! Suc i) OR ConstantTimeSelect (b ! i AND 1) 0x80 0])"

definition halve :: "bytes \<Rightarrow> bytes" where
  "halve tmp =
     (let lastBit = tmp ! (block_Size - 1) AND 1;
          tmp = halve_loop (block_Size - 1) tmp;
          tmp = tmp[0 := drop_bit 1 (tmp ! 0) XOR ConstantTimeSelect lastBit 0x80 0]
      in tmp[block_Size - 1 := tmp ! (block_Size - 1) XOR ConstantTimeSelect lastBit (drop_bit 1 block_R) 0])"

definition pmac_New :: "block_cipher \<Rightarrow> pmac option" where
  "pmac_New c =
     (if bc_BlockSize c \<noteq> block_Size then None
      else let l = l_table precomputedBlocks (block_Encrypt c zero_block)
        in Some \<lparr>pm_c = c, pm_l = l, pm_lInv = halve (l ! 0), pm_digest = zero_block, pm_offset = zero_block, pm_buf = zero_block,
             pm_pos = 0, pm_ctr = 0, pm_finished = False\<rparr>)"

definition pmac_Reset :: "pmac \<Rightarrow> pmac" where
  "pmac_Reset d = d\<lparr>pm_digest := Clear (pm_digest d), pm_offset := Clear (pm_offset d), pm_buf := Clear (pm_buf d), pm_pos := 0,
     pm_ctr := 0, pm_finished := False\<rparr>"

text \<open>\<^verbatim>\<open>processBuffer\<close>; an index beyond the table panics.\<close>

definition processBuffer :: "pmac \<Rightarrow> pmac option" where
  "processBuffer d =
     (let z = TrailingZeros (pm_ctr d + 1)
      in if z < length (pm_l d)
         then let off = xor_into (pm_offset d) (pm_l d ! z);
                  buf = block_Encrypt (pm_c d) (xor_into (pm_buf d) off)
              in Some (d\<lparr>pm_offset := off, pm_buf := buf, pm_ctr := pm_ctr d + 1, pm_digest := xor_into (pm_digest d) buf, pm_pos := 0\<rparr>)
         else None)"

text \<open>The loop of \<^verbatim>\<open>Write\<close> over whole blocks, on what is left of the message.\<close>

function pmac_blocks :: "pmac \<Rightarrow> bytes \<Rightarrow> (pmac \<times> bytes) option" where
  "pmac_blocks d p =
     (if block_Size < length p
      then case processBuffer (d\<lparr>pm_buf := fst (copy_at (pm_buf d) 0 (take block_Size p))\<rparr>) of
             None \<Rightarrow> None
           | Some d \<Rightarrow> pmac_blocks d (drop block_Size p)
      else Some (d, p))"
  by pat_completeness auto
termination by (relation "measure (length \<circ> snd)") (auto simp: block_Size_def)

declare pmac_blocks.simps [simp del]

definition pmac_Write :: "pmac \<Rightarrow> bytes \<Rightarrow> pmac option" where
  "pmac_Write d msg =
     (if pm_finished d then None
      else let remaining = block_Size - pm_pos d
        in do {
          (d, p) \<leftarrow> (if remaining < length msg
            then do { d \<leftarrow> processBuffer (d\<lparr>pm_buf := fst (copy_at (pm_buf d) (pm_pos d) (take remaining msg))\<rparr>); Some (d, drop remaining msg) }
            else Some (d, msg));
          (d, p) \<leftarrow> pmac_blocks d p;
          Some (if 0 < length p then d\<lparr>pm_buf := fst (copy_at (pm_buf d) (pm_pos d) p), pm_pos := pm_pos d + length p\<rparr> else d) })"

definition pmac_Sum :: "pmac \<Rightarrow> bytes \<Rightarrow> (pmac \<times> bytes) option" where
  "pmac_Sum d pre =
     (if pm_finished d then None
      else let dg = (if pm_pos d = block_Size then xor_into (xor_into (pm_digest d) (pm_buf d)) (pm_lInv d)
                     else let dg = xor_into (pm_digest d) (take (pm_pos d) (pm_buf d)) in dg[pm_pos d := dg ! pm_pos d XOR 0x80]);
               dg = block_Encrypt (pm_c d) dg
        in Some (d\<lparr>pm_digest := dg, pm_finished := True\<rparr>, pre @ dg))"

definition pmac_Size :: "pmac \<Rightarrow> nat" where
  "pmac_Size d = block_Size"

definition pmac_BlockSize :: "pmac \<Rightarrow> nat" where
  "pmac_BlockSize d = block_Size"

definition pmac_ops :: "pmac hash_ops" where
  "pmac_ops = \<lparr>h_Reset = pmac_Reset, h_Write = pmac_Write, h_Sum = pmac_Sum, h_Size = pmac_Size, h_BlockSize = pmac_BlockSize\<rparr>"

text \<open>A series of writes.\<close>

fun pmac_Writes :: "pmac \<Rightarrow> bytes list \<Rightarrow> pmac option" where
  "pmac_Writes d [] = Some d"
| "pmac_Writes d (p # ps) = (case pmac_Write d p of None \<Rightarrow> None | Some d \<Rightarrow> pmac_Writes d ps)"

section \<open>The code\<close>

text \<open>
  PMAC as its authors define it: \<open>L(i)\<close> is the encryption of zero times \<open>x ^ i\<close>, the offset of a block the sum of the \<open>L\<close> at the number of trailing zeros
  of the block numbers so far, and the code the encryption of the sum of the encrypted blocks with the last one added in the clear.
\<close>

definition pmac_L :: "block_cipher \<Rightarrow> nat \<Rightarrow> bytes" where
  "pmac_L c i = (gf_double ^^ i) (bc_Encrypt c zero_block)"

definition pmac_offset :: "block_cipher \<Rightarrow> nat \<Rightarrow> bytes" where
  "pmac_offset c i = foldl xor_into zero_block (map (\<lambda>j. pmac_L c (ntz j)) [1..<Suc i])"

definition pmac_sum :: "block_cipher \<Rightarrow> nat \<Rightarrow> bytes list \<Rightarrow> bytes list" where
  "pmac_sum c k bs = map (\<lambda>i. bc_Encrypt c (xor_into (bs ! i) (pmac_offset c (Suc (k + i))))) [0..<length bs]"

definition pmac_last :: "block_cipher \<Rightarrow> bytes \<Rightarrow> bytes \<Rightarrow> bytes" where
  "pmac_last c s r =
     (if length r = 16 then xor_into (xor_into s r) (halve (pmac_L c 0)) else xor_into s (r @ 0x80 # replicate (15 - length r) 0))"

definition pmac_spec :: "block_cipher \<Rightarrow> bytes \<Rightarrow> bytes" where
  "pmac_spec c m =
     (let bs = chunks m in bc_Encrypt c (pmac_last c (foldl xor_into zero_block (pmac_sum c 0 (butlast bs))) (last bs)))"

text \<open>The messages for which the table suffices.\<close>

definition pmac_fits :: "nat \<Rightarrow> bool" where
  "pmac_fits n \<longleftrightarrow> n \<le> 16 * 2 ^ 31"

definition pmac_good :: "block_cipher \<Rightarrow> pmac \<Rightarrow> bool" where
  "pmac_good c d \<longleftrightarrow> cipher_ok c \<and> pm_c d = c \<and> pm_l d = map (pmac_L c) [0..<31] \<and> pm_lInv d = halve (pmac_L c 0) \<and>
     length (pm_digest d) = 16 \<and> length (pm_offset d) = 16 \<and> length (pm_buf d) = 16 \<and> pm_pos d \<le> 16"

definition pmac_open :: "block_cipher \<Rightarrow> pmac \<Rightarrow> bool" where
  "pmac_open c d \<longleftrightarrow> pmac_good c d \<and> \<not> pm_finished d"

definition pmac_fill :: "pmac \<Rightarrow> bytes \<Rightarrow> pmac" where
  "pmac_fill d p = d\<lparr>pm_buf := fst (copy_at (pm_buf d) (pm_pos d) p), pm_pos := pm_pos d + length p\<rparr>"

section \<open>Division by \<open>x\<close>\<close>

lemma length_halve_loop [simp]: "length (halve_loop i b) = length b"
  by (induction i arbitrary: b) auto

lemma length_halve [simp]: "length (halve b) = length b"
  by (simp add: halve_def Let_def)

lemma halve_loop_above: "i < j \<Longrightarrow> halve_loop i b ! j = b ! j"
  by (induction i arbitrary: b) auto

lemma halve_loop_0: "halve_loop i b ! 0 = b ! 0"
  by (induction i arbitrary: b) auto

lemma halve_loop_nth:
  "i < length b \<Longrightarrow> Suc j \<le> i \<Longrightarrow> halve_loop i b ! Suc j = drop_bit 1 (b ! Suc j) OR ConstantTimeSelect (b ! j AND 1) 0x80 0"
proof (induction i arbitrary: b)
  case (Suc i)
  let ?b = "b[Suc i := drop_bit 1 (b ! Suc i) OR ConstantTimeSelect (b ! i AND 1) 0x80 0]"
  show ?case
  proof (cases "j = i")
    case True
    then show ?thesis using halve_loop_above [of i "Suc i" ?b] Suc.prems by simp
  next
    case False
    then have "Suc j \<le> i" using Suc.prems by simp
    from Suc.IH [of ?b, OF _ this] this Suc.prems show ?thesis by simp
  qed
qed simp

lemma bit_80: "bit (0x80 :: byte) n \<longleftrightarrow> n = 7"
proof -
  have "(0x80 :: byte) = 2 ^ 7" by simp
  then show ?thesis by (simp only: bit_exp_iff) auto
qed

lemma bit_43: "bit (0x43 :: byte) n \<longleftrightarrow> n = 0 \<or> n = 1 \<or> n = 6"
proof -
  have "(0x43 :: byte) = 2 ^ 6 OR 2 ^ 1 OR 2 ^ 0" by simp
  then show ?thesis by (simp only: bit_or_iff bit_exp_iff) auto
qed

lemma bit_87: "bit (0x87 :: byte) n \<longleftrightarrow> n = 0 \<or> n = 1 \<or> n = 2 \<or> n = 7"
proof -
  have "(0x87 :: byte) = 2 ^ 7 OR 2 ^ 2 OR 2 ^ 1 OR 2 ^ 0" by simp
  then show ?thesis by (simp only: bit_or_iff bit_exp_iff) auto
qed

lemma bit_push1: "bit (push_bit 1 x) n \<longleftrightarrow> 0 < n \<and> n < 8 \<and> bit x (n - 1)" for x :: byte
  by (auto simp: bit_push_bit_iff simp del: push_bit_Suc)

lemma bit_high: "bit x n \<Longrightarrow> n < 8" for x :: byte
  using bit_imp_le_length [of x n] by simp


lemma bit_high8 [simp]: "\<not> bit x (8 + n)" "\<not> bit x (Suc (Suc (Suc (Suc (Suc (Suc (Suc (Suc n))))))))" for x :: byte
  using bit_high [of x "8 + n"] bit_high [of x "Suc (Suc (Suc (Suc (Suc (Suc (Suc (Suc n)))))))"] by auto

lemma bit_up: "bit (push_bit 1 x) 0 = False" "bit (push_bit 1 x) (Suc n) \<longleftrightarrow> n < 7 \<and> bit x n" for x :: byte
  using bit_push1 [of x 0] bit_push1 [of x "Suc n"] by auto

lemma bit_down: "bit (drop_bit 1 x) n = bit x (Suc n)" "bit (drop_bit 7 x) n \<longleftrightarrow> n = 0 \<and> bit x 7" for x :: byte
  using bit_high [of x "7 + n"] by (cases n; simp add: bit_drop_bit_eq comp_def)+

lemma bit_unit: "bit (1 :: byte) n \<longleftrightarrow> n = 0" "bit (0 :: byte) n = False"
  by (simp_all add: bit_1_iff)

lemmas byte_bits = bit_or_iff bit_xor_iff bit_up bit_down bit_80 bit_43 bit_87 bit_unit

lemma shift_pair:
  fixes x :: byte
  shows "push_bit 1 (drop_bit 1 x OR (if p then 0x80 else 0)) OR (if bit x 0 then 1 else 0) = x" (is ?a)
    and "drop_bit 7 (drop_bit 1 x OR (if p then 0x80 else 0)) = (if p then 1 else 0)" (is ?b)
    and "drop_bit 7 ((drop_bit 1 x OR (if p then 0x80 else 0)) XOR (if q then 0x43 else 0)) = (if p then 1 else 0)" (is ?c)
    and "push_bit 1 ((drop_bit 1 x OR (if p then 0x80 else 0)) XOR (if bit x 0 then 0x43 else 0)) XOR (if bit x 0 then 0x87 else 0) = x" (is ?d)
    and "drop_bit 1 x XOR (if p then 0x80 else 0) = drop_bit 1 x OR (if p then 0x80 else 0)" (is ?e)
proof -
  have top: "\<not> bit x 8" "\<not> bit x (Suc 7)" using bit_high [of x 8] by auto
  show ?b by (rule bit_word_eqI) (simp only: byte_bits split: if_split, use top in auto)
  show ?c by (rule bit_word_eqI) (simp only: byte_bits split: if_split, use top in auto)
  show ?e by (rule bit_word_eqI) (simp only: byte_bits split: if_split, use top in auto)
  show ?a
  proof (rule bit_word_eqI)
    fix n
    assume "n < LENGTH(8)"
    then show "bit (push_bit 1 (drop_bit 1 x OR (if p then 0x80 else 0)) OR (if bit x 0 then 1 else 0)) n = bit x n"
      by (cases n) (simp_all only: byte_bits split: if_split, auto)
  qed
  show ?d
  proof (rule bit_word_eqI)
    fix n
    assume "n < LENGTH(8)"
    then show "bit (push_bit 1 ((drop_bit 1 x OR (if p then 0x80 else 0)) XOR (if bit x 0 then 0x43 else 0)) XOR (if bit x 0 then 0x87 else 0)) n = bit x n"
      by (cases n) (simp_all only: byte_bits split: if_split, auto)
  qed
qed

lemma select_low: "ConstantTimeSelect (x AND 1) y 0 = (if bit x 0 then y else 0)"
proof -
  have "x AND 1 = 1 \<longleftrightarrow> bit x 0"
    by (simp add: and_one_eq bit_0 odd_iff_mod_2_eq_one)
  then show ?thesis by (simp add: ConstantTimeSelect_def)
qed

lemma halve_nth:
  assumes "length b = 16" and "j < 16"
  shows "halve b ! j =
    (if j = 0 then drop_bit 1 (b ! 0) OR (if bit (b ! 15) 0 then 0x80 else 0)
     else if j < 15 then drop_bit 1 (b ! j) OR (if bit (b ! (j - 1)) 0 then 0x80 else 0)
     else (drop_bit 1 (b ! 15) OR (if bit (b ! 14) 0 then 0x80 else 0)) XOR (if bit (b ! 15) 0 then 0x43 else 0))"
proof (cases j)
  case 0
  then show ?thesis
    using assms halve_loop_0 [of 15 b] shift_pair(5) [of "b ! 0"]
    by (simp add: halve_def Let_def block_Size_def nth_list_update select_low)
next
  case (Suc k)
  have "drop_bit 1 block_R = 0x43" by (simp add: block_R_def)
  then show ?thesis
    using Suc assms halve_loop_nth [of 15 b k]
    by (cases "k = 14") (auto simp: halve_def Let_def block_Size_def nth_list_update select_low)
qed

lemma Dbl_halve:
  assumes "length b = 16"
  shows "Dbl (halve b) = b"
proof (rule nth_equalityI)
  fix j
  assume "j < length (Dbl (halve b))"
  then have j: "j < 16" using assms by simp
  have h: "length (halve b) = 16" using assms by simp
  have top: "drop_bit 7 (halve b ! 0) = (if bit (b ! 15) 0 then 1 else 0)"
    using halve_nth [OF assms, of 0] shift_pair(2) by simp
  show "Dbl (halve b) ! j = b ! j"
  proof (cases "j < 15")
    case False
    then have "j = 15" using j by simp
    have "Dbl (halve b) ! 15 = push_bit 1 (halve b ! 15) XOR (if bit (b ! 15) 0 then 0x87 else 0)"
      using Dbl_nth [OF h, of 15] top by simp
    moreover have "halve b ! 15 = (drop_bit 1 (b ! 15) OR (if bit (b ! 14) 0 then 0x80 else 0)) XOR (if bit (b ! 15) 0 then 0x43 else 0)"
      using halve_nth [OF assms, of 15] by simp
    ultimately show ?thesis unfolding \<open>j = 15\<close> using shift_pair(4) [of "b ! 15" "bit (b ! 14) 0"] by (simp only:)
  next
    case True
    have next_top: "drop_bit 7 (halve b ! Suc j) = (if bit (b ! j) 0 then 1 else 0)"
    proof (cases "Suc j = 15")
      case True
      then have "j = 14" by simp
      then show ?thesis using halve_nth [OF assms, of 15] shift_pair(3) [of "b ! 15"] by simp
    next
      case False
      then show ?thesis using \<open>j < 15\<close> halve_nth [OF assms, of "Suc j"] shift_pair(2) by simp
    qed
    have "halve b ! j = drop_bit 1 (b ! j) OR (if (if j = 0 then bit (b ! 15) 0 else bit (b ! (j - 1)) 0) then 0x80 else 0)"
      using halve_nth [OF assms j] True by simp
    then show ?thesis
      using True Dbl_nth [OF h j] next_top shift_pair(1) [of "b ! j" "if j = 0 then bit (b ! 15) 0 else bit (b ! (j - 1)) 0"] by simp
  qed
qed (use assms in simp)

section \<open>The table\<close>

lemma ntz_bound: "0 < n \<Longrightarrow> n < 2 ^ k \<Longrightarrow> ntz n < k"
proof (induction n arbitrary: k rule: ntz.induct)
  case (1 n)
  then obtain k' where k: "k = Suc k'" by (cases k) auto
  show ?case
  proof (cases "even n")
    case True
    then have "0 < n div 2" "n div 2 < 2 ^ k'" using 1(2,3) k by auto
    then show ?thesis using 1(1) [of k'] 1(2) True k by (subst ntz.simps) simp
  next
    case False
    then show ?thesis using 1(2) k by (subst ntz.simps) simp
  qed
qed

lemma l_table_nth: "l_table n tmp = map (\<lambda>i. (Dbl ^^ i) tmp) [0..<n]"
proof (induction n arbitrary: tmp)
  case (Suc n)
  have "map (\<lambda>i. (Dbl ^^ i) tmp) [0..<Suc n] = tmp # map (\<lambda>i. (Dbl ^^ i) (Dbl tmp)) [0..<n]"
    by (simp add: upt_conv_Cons map_Suc_upt [symmetric] funpow_swap1 del: upt_Suc)
  then show ?case using Suc by simp
qed simp

lemma length_pmac_L: "cipher_ok c \<Longrightarrow> length (pmac_L c i) = 16"
  by (induction i) (simp_all add: pmac_L_def cipher_length)

lemma pmac_L_Dbl: "cipher_ok c \<Longrightarrow> pmac_L c i = (Dbl ^^ i) (bc_Encrypt c zero_block)"
proof (induction i)
  case (Suc i)
  then show ?case
    using Dbl_gf_double [OF length_pmac_L [OF Suc.prems, of i]] by (simp add: pmac_L_def)
qed (simp add: pmac_L_def)

lemma length_foldl_xor: "length x = 16 \<Longrightarrow> length (foldl xor_into x ys) = 16"
  by (induction ys arbitrary: x) auto

lemma length_pmac_offset [simp]: "length (pmac_offset c i) = 16"
  by (simp add: pmac_offset_def length_foldl_xor)

lemma pmac_offset_Suc: "pmac_offset c (Suc i) = xor_into (pmac_offset c i) (pmac_L c (ntz (Suc i)))"
  by (simp add: pmac_offset_def)

section \<open>Writing\<close>

lemma processBuffer_good:
  assumes "pmac_open c d" and "processBuffer d = Some d'"
  shows "pm_pos d' = 0 \<and> pmac_open c d'"
proof -
  obtain off buf where "d' = d\<lparr>pm_offset := off, pm_buf := buf, pm_ctr := pm_ctr d + 1, pm_digest := xor_into (pm_digest d) buf, pm_pos := 0\<rparr>"
    and "length off = length (pm_offset d)" and "buf = bc_Encrypt (pm_c d) (xor_into (pm_buf d) off)"
    using assms(2) by (auto simp: processBuffer_def Let_def block_Encrypt_def split: if_splits)
  then show ?thesis using assms(1) cipher_length [of c "xor_into (pm_buf d) off"] by (auto simp: pmac_open_def pmac_good_def)
qed

lemma processBuffer_pos: "processBuffer (d\<lparr>pm_pos := n\<rparr>) = processBuffer d"
  by (simp add: processBuffer_def Let_def)

interpretation pmac_buffer: block_buffer pm_pos pmac_fill processBuffer "pmac_open c" for c
proof unfold_locales
  fix s s' p q
  assume good: "pmac_open c s"
  show "pm_pos s \<le> 16" using good by (simp add: pmac_open_def pmac_good_def)
  show "pmac_fill s [] = s" using good by (cases s) (simp add: pmac_fill_def pmac_open_def pmac_good_def)
  show "pmac_fill (pmac_fill s p) q = pmac_fill s (p @ q)" if "pm_pos s + length (p @ q) \<le> 16"
    using good that splice_append [of "pm_pos s" p "pm_buf s" q] by (simp add: pmac_fill_def pmac_open_def pmac_good_def add.assoc)
  show "pm_pos (pmac_fill s p) = pm_pos s + length p \<and> pmac_open c (pmac_fill s p)" if "pm_pos s + length p \<le> 16"
    using good that by (simp add: pmac_fill_def pmac_open_def pmac_good_def)
  show "pm_pos s' = 0 \<and> pmac_open c s'" if "processBuffer s = Some s'"
    by (rule processBuffer_good [OF good that])
qed

lemma pmac_Write_feed:
  assumes good: "pmac_open c d"
  shows "pmac_Write d p = pmac_buffer.feed d p"
proof -
  have full: "processBuffer (d\<lparr>pm_buf := fst (copy_at (pm_buf d) (pm_pos d) q)\<rparr>) = processBuffer (pmac_fill d q)" for d q
    using processBuffer_pos [of "pm_pos d + length q" "d\<lparr>pm_buf := fst (copy_at (pm_buf d) (pm_pos d) q)\<rparr>"] by (simp add: pmac_fill_def)
  have more: "pmac_blocks d p = do { d \<leftarrow> processBuffer (pmac_fill d (take 16 p)); pmac_blocks d (drop 16 p) }"
    if "pm_pos d = 0" "16 < length p" for d p
    using that full [of d "take 16 p"] by (subst pmac_blocks.simps) (auto simp: block_Size_def split: option.split)
  have rest: "pmac_blocks d p = Some (d, p)" if "length p \<le> 16" for d p
    using that by (subst pmac_blocks.simps) (simp add: block_Size_def)
  have keep: "(if 0 < length p then d\<lparr>pm_buf := fst (copy_at (pm_buf d) (pm_pos d) p), pm_pos := pm_pos d + length p\<rparr> else d) = pmac_fill d p" for d p
    by (cases d) (auto simp: pmac_fill_def copy_at_def)
  note feed = pmac_buffer.write_feed [of c pmac_blocks, OF more rest good, of p]
  have fin: "\<not> pm_finished d" using good by (simp add: pmac_open_def)
  show ?thesis
  proof (cases "16 - pm_pos d < length p")
    case True
    then show ?thesis
      using fin feed full [of d "take (16 - pm_pos d) p"] unfolding pmac_Write_def keep Let_def
      by (simp add: block_Size_def bind_assoc)
  next
    case False
    then show ?thesis using fin feed unfolding pmac_Write_def keep Let_def by (simp add: block_Size_def)
  qed
qed

section \<open>The sum\<close>

definition at_block :: "block_cipher \<Rightarrow> nat \<Rightarrow> pmac \<Rightarrow> bool" where
  "at_block c k d \<longleftrightarrow> pmac_open c d \<and> pm_pos d = 0 \<and> pm_ctr d = of_nat k \<and> pm_offset d = pmac_offset c k"

lemma splice_all: "length buf = length p \<Longrightarrow> splice_at buf 0 p = p"
  by (simp add: splice_at_def)

lemma flush_step:
  assumes d: "at_block c k d" and p: "length p = 16" and k: "Suc k < 2 ^ 31"
  shows "\<exists>d'. processBuffer (pmac_fill d p) = Some d' \<and> at_block c (Suc k) d' \<and>
    pm_digest d' = xor_into (pm_digest d) (bc_Encrypt c (xor_into p (pmac_offset c (Suc k))))"
proof -
  have good: "pmac_good c d" "\<not> pm_finished d" "pm_pos d = 0" using d by (auto simp: at_block_def pmac_open_def)
  have "pm_ctr d + 1 = of_nat (Suc k)" using d by (simp add: at_block_def add.commute)
  then have "unat (pm_ctr d + 1) = Suc k" using k by (simp only: unsigned_of_nat) (simp add: take_bit_nat_eq_self)
  then have z: "TrailingZeros (pm_ctr d + 1) = ntz (Suc k)" by (simp add: TrailingZeros_def)
  have lt: "ntz (Suc k) < 31" using ntz_bound [of "Suc k" 31] k by simp
  have off: "xor_into (pm_offset d) (pmac_L c (ntz (Suc k))) = pmac_offset c (Suc k)" using d by (simp add: at_block_def pmac_offset_Suc)
  have buf: "pm_buf (pmac_fill d p) = p" using good p splice_all [of "pm_buf d" p] by (simp add: pmac_fill_def pmac_good_def)
  have l: "pm_l d = map (pmac_L c) [0..<31]" "pm_c d = c" using good by (simp_all add: pmac_good_def)
  let ?buf = "bc_Encrypt c (xor_into p (pmac_offset c (Suc k)))"
  let ?d = "(pmac_fill d p)\<lparr>pm_offset := pmac_offset c (Suc k), pm_buf := ?buf, pm_ctr := of_nat (Suc k), pm_digest := xor_into (pm_digest d) ?buf, pm_pos := 0\<rparr>"
  have eq: "processBuffer (pmac_fill d p) = Some ?d"
    using z lt off buf l \<open>pm_ctr d + 1 = of_nat (Suc k)\<close> by (simp add: processBuffer_def Let_def block_Encrypt_def pmac_fill_def add.commute [of _ 1])
  moreover have "length (xor_into p (pmac_offset c (Suc k))) = 16" using p by simp
  then have "at_block c (Suc k) ?d"
    using good cipher_length [of c "xor_into p (pmac_offset c (Suc k))"] by (simp add: at_block_def pmac_open_def pmac_good_def pmac_fill_def)
  ultimately show ?thesis by (intro exI [of _ ?d]) simp
qed

lemma short_pad:
  assumes "length a = 16" and "length m < 16"
  shows "(xor_into a m)[length m := xor_into a m ! length m XOR 0x80] = xor_into a (m @ 0x80 # replicate (15 - length m) 0)"
  using last_short [of a zero_block m] xor_zero assms by simp

lemma pmac_sum_Cons: "pmac_sum c k (b # bs) = bc_Encrypt c (xor_into b (pmac_offset c (Suc k))) # pmac_sum c (Suc k) bs"
  by (simp add: pmac_sum_def upt_conv_Cons map_Suc_upt [symmetric] del: upt_Suc)

lemma pmac_Sum_last:
  assumes d: "at_block c k d" and m: "length m \<le> 16"
  shows "\<exists>d'. pmac_Sum (pmac_fill d m) pre = Some (d', pre @ bc_Encrypt c (pmac_last c (pm_digest d) m)) \<and> pmac_good c d' \<and> pm_finished d'"
proof -
  have good: "pmac_good c d" "\<not> pm_finished d" "pm_pos d = 0" using d by (auto simp: at_block_def pmac_open_def)
  have len: "length (pm_digest d) = 16" "length (pm_buf d) = 16" "pm_c d = c" "pm_lInv d = halve (pmac_L c 0)" "cipher_ok c"
    using good by (auto simp: pmac_good_def)
  have buf: "pm_buf (pmac_fill d m) = splice_at (pm_buf d) 0 m" "pm_pos (pmac_fill d m) = length m" using good len m by (simp_all add: pmac_fill_def)
  have dg: "(if length m = 16 then xor_into (xor_into (pm_digest d) (splice_at (pm_buf d) 0 m)) (halve (pmac_L c 0))
      else let dg = xor_into (pm_digest d) (take (length m) (splice_at (pm_buf d) 0 m)) in dg[length m := dg ! length m XOR 0x80]) =
    pmac_last c (pm_digest d) m"
  proof (cases "length m = 16")
    case True
    then show ?thesis using splice_all [of "pm_buf d" m] len by (simp add: pmac_last_def)
  next
    case False
    have "take (length m) (splice_at (pm_buf d) 0 m) = m" by (simp add: splice_at_def)
    then show ?thesis using False m len short_pad [of "pm_digest d" m] by (simp add: pmac_last_def)
  qed
  let ?r = "bc_Encrypt c (pmac_last c (pm_digest d) m)"
  let ?d = "(pmac_fill d m)\<lparr>pm_digest := ?r, pm_finished := True\<rparr>"
  have "length (pmac_last c (pm_digest d) m) = 16" using len by (simp add: pmac_last_def)
  then have "pmac_good c ?d" using good m len cipher_length [of c "pmac_last c (pm_digest d) m"] by (simp add: pmac_good_def pmac_fill_def)
  moreover have "pmac_Sum (pmac_fill d m) pre = Some (?d, pre @ ?r)"
  proof -
    have f: "\<not> pm_finished (pmac_fill d m)" "pm_digest (pmac_fill d m) = pm_digest d" "pm_lInv (pmac_fill d m) = halve (pmac_L c 0)"
      "pm_c (pmac_fill d m) = c"
      using good len by (simp_all add: pmac_fill_def)
    show ?thesis
      unfolding pmac_Sum_def f buf block_Size_def block_Encrypt_def using f(1) dg by (cases "length m = 16") (simp_all add: Let_def)
  qed
  ultimately show ?thesis by (intro exI [of _ ?d]) simp
qed

lemma pmac_feed_Sum:
  assumes "at_block c k d" and "16 * k + length m \<le> 16 * 2 ^ 31"
  shows "\<exists>d' d''. pmac_buffer.feed d m = Some d' \<and> pmac_Sum d' pre =
    Some (d'', pre @ bc_Encrypt c (pmac_last c (foldl xor_into (pm_digest d) (pmac_sum c k (butlast (chunks m)))) (last (chunks m)))) \<and>
    pmac_good c d'' \<and> pm_finished d''"
  using assms
proof (induction "length m" arbitrary: d m k rule: less_induct)
  case less
  have d: "pmac_open c d" "pm_pos d = 0" using less.prems(1) by (simp_all add: at_block_def)
  show ?case
  proof (cases "16 < length m")
    case False
    then have "chunks m = [m]" by (subst chunks.simps) simp
    moreover have "pmac_buffer.feed d m = Some (pmac_fill d m)" using pmac_buffer.feed_fits [OF d(1), of m] d(2) False by simp
    ultimately show ?thesis using pmac_Sum_last [OF less.prems(1), of m pre] False by (simp add: pmac_sum_def)
  next
    case True
    obtain d' where d': "processBuffer (pmac_fill d (take 16 m)) = Some d'" "at_block c (Suc k) d'"
      "pm_digest d' = xor_into (pm_digest d) (bc_Encrypt c (xor_into (take 16 m) (pmac_offset c (Suc k))))"
      using flush_step [OF less.prems(1), of "take 16 m"] True less.prems(2) by auto
    have "pmac_buffer.feed d m = pmac_buffer.feed d' (drop 16 m)" using pmac_buffer.feed_chunks [OF d True] d'(1) by simp
    moreover have "chunks m = take 16 m # chunks (drop 16 m)" "chunks (drop 16 m) \<noteq> []"
      using True by (subst chunks.simps, simp) (subst chunks.simps, simp)
    ultimately show ?thesis using less.hyps [OF _ d'(2), of "drop 16 m"] True less.prems(2) d'(3) by (simp add: pmac_sum_Cons)
  qed
qed

section \<open>As a hash\<close>

definition pmac_absorbed :: "block_cipher \<Rightarrow> pmac \<Rightarrow> bytes \<Rightarrow> bool" where
  "pmac_absorbed c d m \<longleftrightarrow>
     pmac_fits (length m) \<and> (\<exists>d0. at_block c 0 d0 \<and> pm_digest d0 = zero_block \<and> pmac_buffer.feed d0 m = Some d)"

lemma pmac_absorbed_open: "pmac_absorbed c d m \<Longrightarrow> pmac_open c d"
  by (auto simp: pmac_absorbed_def at_block_def dest: pmac_buffer.feed_inv)

lemma pmac_Reset_absorbed:
  assumes "pmac_good c d"
  shows "pmac_absorbed c (pmac_Reset d) []"
proof -
  have "at_block c 0 (pmac_Reset d) \<and> pm_digest (pmac_Reset d) = zero_block"
    using assms by (auto simp: at_block_def pmac_Reset_def pmac_open_def pmac_good_def Clear_zero pmac_offset_def)
  then show ?thesis by (auto simp: pmac_absorbed_def pmac_fits_def)
qed

lemma pmac_Write_absorbed:
  assumes "pmac_absorbed c d m" and "pmac_fits (length (m @ p))"
  shows "\<exists>d'. pmac_Write d p = Some d' \<and> pmac_absorbed c d' (m @ p)"
proof -
  obtain d0 where d0: "at_block c 0 d0" "pm_digest d0 = zero_block" "pmac_buffer.feed d0 m = Some d"
    using assms(1) by (auto simp: pmac_absorbed_def)
  obtain d' where "pmac_buffer.feed d0 (m @ p) = Some d'" using pmac_feed_Sum [OF d0(1), of "m @ p"] assms(2) by (auto simp: pmac_fits_def)
  then show ?thesis
    using d0 assms(2) pmac_Write_feed [OF pmac_absorbed_open [OF assms(1)], of p] by (auto simp: pmac_buffer.feed_append pmac_absorbed_def)
qed

lemma pmac_Sum_absorbed:
  assumes "pmac_absorbed c d m"
  shows "\<exists>d'. pmac_Sum d pre = Some (d', pre @ pmac_spec c m) \<and> pmac_good c d' \<and> pm_finished d'"
proof -
  obtain d0 where d0: "at_block c 0 d0" "pm_digest d0 = zero_block" "pmac_buffer.feed d0 m = Some d" "16 * 0 + length m \<le> 16 * 2 ^ 31"
    using assms by (auto simp: pmac_absorbed_def pmac_fits_def)
  from pmac_feed_Sum [OF d0(1,4), of pre] d0(2,3) show ?thesis by (auto simp: pmac_spec_def Let_def)
qed

lemma pmac_spec_length: "cipher_ok c \<Longrightarrow> length (pmac_spec c m) = 16"
  by (auto simp: pmac_spec_def Let_def pmac_last_def length_foldl_xor intro!: cipher_length)

interpretation pmac_hash: mac_hash pmac_ops "pmac_good c" "pmac_absorbed c" "pmac_spec c" pmac_fits for c
proof unfold_locales
  fix h m p pre n k
  show "pmac_good c h \<Longrightarrow> pmac_absorbed c (h_Reset pmac_ops h) []" by (simp add: pmac_ops_def pmac_Reset_absorbed)
  show "pmac_absorbed c h m \<Longrightarrow> pmac_fits (length (m @ p)) \<Longrightarrow> \<exists>h'. h_Write pmac_ops h p = Some h' \<and> pmac_absorbed c h' (m @ p)"
    using pmac_Write_absorbed by (simp add: pmac_ops_def)
  show "pmac_absorbed c h m \<Longrightarrow> \<exists>h'. h_Sum pmac_ops h pre = Some (h', pre @ pmac_spec c m) \<and> pmac_good c h'"
    using pmac_Sum_absorbed [of c h m pre] by (auto simp: pmac_ops_def)
  show "pmac_good c h \<Longrightarrow> length (pmac_spec c m) = 16" using pmac_spec_length by (simp add: pmac_good_def)
  show "h_Size pmac_ops h = 16" by (simp add: pmac_ops_def pmac_Size_def block_Size_def)
  show "h_BlockSize pmac_ops h = 16" by (simp add: pmac_ops_def pmac_BlockSize_def block_Size_def)
  show "pmac_absorbed c h m \<Longrightarrow> pmac_good c h" using pmac_absorbed_open by (auto simp: pmac_open_def)
  show "pmac_fits n \<Longrightarrow> k \<le> n \<Longrightarrow> pmac_fits k" "pmac_fits 16" by (simp_all add: pmac_fits_def)
qed

lemma pmac_New_absorbed:
  assumes "cipher_ok c"
  shows "\<exists>d. pmac_New c = Some d \<and> pmac_absorbed c d [] \<and> pm_l d = map (pmac_L c) [0..<31] \<and> Dbl (pm_lInv d) = hd (pm_l d)"
proof -
  have L: "l_table 31 (bc_Encrypt c zero_block) = map (pmac_L c) [0..<31]" unfolding l_table_nth by (rule map_cong [OF refl]) (simp only: pmac_L_Dbl [OF assms])
  have "Dbl (halve (pmac_L c 0)) = pmac_L c 0" using Dbl_halve length_pmac_L [OF assms] by simp
  moreover have "hd (map (pmac_L c) [0..<31]) = pmac_L c 0" "map (pmac_L c) [0..<31] ! 0 = pmac_L c 0" by (simp_all add: hd_map)
  ultimately show ?thesis
    using assms L
    by (auto simp: pmac_New_def Let_def block_Encrypt_def precomputedBlocks_def pmac_absorbed_def pmac_fits_def at_block_def pmac_open_def
        pmac_good_def pmac_offset_def block_Size_def cipher_ok_def)
qed

lemma pmac_Writes_absorbed:
  "pmac_absorbed c d m \<Longrightarrow> pmac_fits (length (m @ concat ps)) \<Longrightarrow> \<exists>d'. pmac_Writes d ps = Some d' \<and> pmac_absorbed c d' (m @ concat ps)"
proof (induction ps arbitrary: d m)
  case (Cons p ps)
  have "pmac_fits (length (m @ p))" using Cons.prems(2) by (simp add: pmac_fits_def)
  then obtain d' where "pmac_Write d p = Some d'" "pmac_absorbed c d' (m @ p)" using pmac_Write_absorbed [OF Cons.prems(1)] by blast
  then show ?case using Cons.IH [of d' "m @ p"] Cons.prems(2) by simp
qed simp

section \<open>Properties\<close>

text \<open>
  C26: streaming PMAC.  A new digest holds the encryption of zero multiplied by the powers of \<open>x\<close>, and the inverse it computes by shifting right
  doubles back to the first of them.  Any series of writes of up to \<open>2 ^ 31\<close> blocks in all does not panic, and \<^verbatim>\<open>Sum\<close> then appends the
  code that the one-shot definition gives to the concatenation; until the next reset the digest refuses to be used again.
\<close>

theorem pmac_streaming:
  assumes "cipher_ok c" and "length (concat ps) \<le> 16 * 2 ^ 31"
  shows "\<exists>d d' d''. pmac_New c = Some d \<and> pm_l d = map (\<lambda>i. (Dbl ^^ i) (bc_Encrypt c zero_block)) [0..<31] \<and> Dbl (pm_lInv d) = hd (pm_l d) \<and>
    pmac_Writes d ps = Some d' \<and> pmac_Sum d' pre = Some (d'', pre @ pmac_spec c (concat ps)) \<and>
    pmac_Write d'' q = None \<and> pmac_Sum d'' pre' = None"
proof -
  obtain d where d: "pmac_New c = Some d" "pmac_absorbed c d []" "pm_l d = map (pmac_L c) [0..<31]" "Dbl (pm_lInv d) = hd (pm_l d)"
    using pmac_New_absorbed [OF assms(1)] by blast
  obtain d' where d': "pmac_Writes d ps = Some d'" "pmac_absorbed c d' (concat ps)"
    using pmac_Writes_absorbed [OF d(2), of ps] assms(2) by (auto simp: pmac_fits_def)
  obtain d'' where d'': "pmac_Sum d' pre = Some (d'', pre @ pmac_spec c (concat ps))" "pm_finished d''"
    using pmac_Sum_absorbed [OF d'(2)] by blast
  have "pm_l d = map (\<lambda>i. (Dbl ^^ i) (bc_Encrypt c zero_block)) [0..<31]" unfolding d(3) by (rule map_cong [OF refl]) (simp only: pmac_L_Dbl [OF assms(1)])
  then show ?thesis using d(1,4) d'(1) d'' by (auto simp: pmac_Write_def pmac_Sum_def)
qed

theorem pmac_streaming_witness:
  "\<exists>d d' d''. pmac_New (rotate_cipher [5, 250]) = Some d \<and> pmac_Writes d [replicate 20 1, [2], replicate 30 3] = Some d' \<and>
    pmac_Sum d' [9] = Some (d'', 9 # pmac_spec (rotate_cipher [5, 250]) (replicate 20 1 @ [2] @ replicate 30 3)) \<and>
    pmac_Write d'' [1] = None"
  using pmac_streaming [OF rotate_cipher_ok [of "[5, 250]"], of "[replicate 20 1, [2], replicate 30 3]" "[9]" "[1]" "[]"] by auto

end
