(* ===== verification/Siv_Cipher.thy ===== *)
theory Siv_Cipher
  imports Siv_Cmac Siv_Pmac
begin

text \<open>
  The authenticated encryption SIV, \<^verbatim>\<open>miscreant.go/siv.go\<close>, and its wrapper \<^verbatim>\<open>aead.go\<close>.  The cipher works with any hash that keeps the
  contract \<open>mac_hash\<close>; the interface value that holds a CMAC or a PMAC digest does.  A panic is \<open>None\<close>.  \<^verbatim>\<open>aes.NewCipher\<close> and the source of
  random bytes are parameters; counter mode is Go's \<^verbatim>\<open>cipher.NewCTR\<close>, modelled here.
\<close>

section \<open>The hash of the cipher\<close>

text \<open>A value of the interface \<^verbatim>\<open>hash.Hash\<close>: one of the two digests.\<close>

datatype mac_alg = CMAC | PMAC

datatype hash = HCmac cmac | HPmac pmac

definition hash_iface :: "hash hash_ops" where
  "hash_iface = \<lparr>
     h_Reset = (\<lambda>h. case h of HCmac d \<Rightarrow> HCmac (cmac_Reset d) | HPmac d \<Rightarrow> HPmac (pmac_Reset d)),
     h_Write = (\<lambda>h p. case h of HCmac d \<Rightarrow> Some (HCmac (cmac_Write d p)) | HPmac d \<Rightarrow> map_option HPmac (pmac_Write d p)),
     h_Sum = (\<lambda>h pre. case h of HCmac d \<Rightarrow> Some (map_prod HCmac id (cmac_Sum d pre)) | HPmac d \<Rightarrow> map_option (map_prod HPmac id) (pmac_Sum d pre)),
     h_Size = (\<lambda>h. case h of HCmac d \<Rightarrow> cmac_Size d | HPmac d \<Rightarrow> pmac_Size d),
     h_BlockSize = (\<lambda>h. case h of HCmac d \<Rightarrow> cmac_BlockSize d | HPmac d \<Rightarrow> pmac_BlockSize d)\<rparr>"

section \<open>Counter mode\<close>

text \<open>\<^verbatim>\<open>cipher.NewCTR\<close> and \<^verbatim>\<open>XORKeyStream\<close>: the counter is a big-endian number that wraps around.\<close>

fun incr_le :: "bytes \<Rightarrow> bytes" where
  "incr_le [] = []"
| "incr_le (x # xs) = (if x + 1 = 0 then 0 # incr_le xs else (x + 1) # xs)"

definition ctr_incr :: "bytes \<Rightarrow> bytes" where
  "ctr_incr iv = rev (incr_le (rev iv))"

fun keystream :: "block_cipher \<Rightarrow> nat \<Rightarrow> bytes \<Rightarrow> bytes" where
  "keystream c 0 iv = []"
| "keystream c (Suc n) iv = bc_Encrypt c iv @ keystream c n (ctr_incr iv)"

definition XORKeyStream :: "block_cipher \<Rightarrow> bytes \<Rightarrow> bytes \<Rightarrow> bytes" where
  "XORKeyStream c iv src = xor_into src (take (length src) (keystream c ((length src + 15) div 16) iv))"

section \<open>The cipher\<close>

definition MaxAssociatedDataItems :: nat where
  "MaxAssociatedDataItems = 126"

datatype siv_error = ErrKeySize | ErrNotAuthentic | ErrTooManyAssociatedDataItems | ErrCipher

record 'h Cipher =
  sv_h :: 'h
  sv_b :: block_cipher
  sv_tmp1 :: bytes
  sv_tmp2 :: bytes

definition NewAESCMACSIV :: "(bytes \<Rightarrow> block_cipher option) \<Rightarrow> bytes \<Rightarrow> (siv_error + hash Cipher) option" where
  "NewAESCMACSIV aes_NewCipher key =
     (let n = length key
      in if n \<noteq> 32 \<and> n \<noteq> 64 then Some (Inl ErrKeySize)
         else case aes_NewCipher (take (n div 2) key) of
           None \<Rightarrow> Some (Inl ErrCipher)
         | Some macBlock \<Rightarrow>
             (case aes_NewCipher (drop (n div 2) key) of
                None \<Rightarrow> Some (Inl ErrCipher)
              | Some ctrBlock \<Rightarrow>
                  (case cmac_New macBlock of
                     None \<Rightarrow> None
                   | Some h \<Rightarrow> Some (Inr \<lparr>sv_h = HCmac h, sv_b = ctrBlock, sv_tmp1 = zero_block, sv_tmp2 = zero_block\<rparr>))))"

definition NewAESPMACSIV :: "(bytes \<Rightarrow> block_cipher option) \<Rightarrow> bytes \<Rightarrow> (siv_error + hash Cipher) option" where
  "NewAESPMACSIV aes_NewCipher key =
     (let n = length key
      in if n \<noteq> 32 \<and> n \<noteq> 64 then Some (Inl ErrKeySize)
         else case aes_NewCipher (take (n div 2) key) of
           None \<Rightarrow> Some (Inl ErrCipher)
         | Some macBlock \<Rightarrow>
             (case aes_NewCipher (drop (n div 2) key) of
                None \<Rightarrow> Some (Inl ErrCipher)
              | Some ctrBlock \<Rightarrow>
                  (case pmac_New macBlock of
                     None \<Rightarrow> None
                   | Some h \<Rightarrow> Some (Inr \<lparr>sv_h = HPmac h, sv_b = ctrBlock, sv_tmp1 = zero_block, sv_tmp2 = zero_block\<rparr>))))"

definition Overhead :: "'h hash_ops \<Rightarrow> 'h Cipher \<Rightarrow> nat" where
  "Overhead ops c = h_Size ops (sv_h c)"

definition zeroIVBits :: "bytes \<Rightarrow> bytes" where
  "zeroIVBits iv =
     (let iv = iv[length iv - 8 := iv ! (length iv - 8) AND 0x7f]
      in iv[length iv - 4 := iv ! (length iv - 4) AND 0x7f])"

text \<open>The loop of \<^verbatim>\<open>s2v\<close> over the associated data.\<close>

fun s2v_items :: "'h hash_ops \<Rightarrow> bytes list \<Rightarrow> 'h \<Rightarrow> bytes \<Rightarrow> bytes \<Rightarrow> ('h \<times> bytes \<times> bytes) option" where
  "s2v_items ops [] h tmp d = Some (h, tmp, d)"
| "s2v_items ops (v # s) h tmp d = do {
     h \<leftarrow> h_Write ops h v;
     (h, sum) \<leftarrow> h_Sum ops h [];
     let tmp = fst (copy_at tmp 0 sum);
     s2v_items ops s (h_Reset ops h) tmp (xor_into (Dbl d) tmp) }"

definition s2v :: "'h hash_ops \<Rightarrow> 'h Cipher \<Rightarrow> bytes list \<Rightarrow> bytes \<Rightarrow> ('h Cipher \<times> bytes) option" where
  "s2v ops c s sn = do {
     let h = h_Reset ops (sv_h c);
     let tmp = Clear (sv_tmp1 c);
     h \<leftarrow> h_Write ops h tmp;
     (h, sum) \<leftarrow> h_Sum ops h [];
     let d = fst (copy_at (sv_tmp2 c) 0 sum);
     (h, tmp, d) \<leftarrow> s2v_items ops s (h_Reset ops h) tmp d;
     let tmp = Clear tmp;
     (h, tmp, d) \<leftarrow>
       (if h_BlockSize ops h \<le> length sn
        then let n = length sn - length d in do { h \<leftarrow> h_Write ops h (take n sn); Some (h, fst (copy_at tmp 0 (drop n sn)), d) }
        else Some (h, (fst (copy_at tmp 0 sn))[length sn := 0x80], Dbl d));
     h \<leftarrow> h_Write ops h (xor_into tmp d);
     (h, sum) \<leftarrow> h_Sum ops h [];
     Some (c\<lparr>sv_h := h\<rparr>, sum) }"

definition Seal :: "'h hash_ops \<Rightarrow> 'h Cipher \<Rightarrow> bytes \<Rightarrow> bytes \<Rightarrow> bytes list \<Rightarrow> ('h Cipher \<times> (siv_error + bytes)) option" where
  "Seal ops c dst plaintext data =
     (if MaxAssociatedDataItems < length data then Some (c, Inl ErrTooManyAssociatedDataItems)
      else do {
        (c, iv) \<leftarrow> s2v ops c data plaintext;
        Some (c, Inr (dst @ iv @ XORKeyStream (sv_b c) (zeroIVBits iv) plaintext)) })"

definition Open :: "'h hash_ops \<Rightarrow> 'h Cipher \<Rightarrow> bytes \<Rightarrow> bytes \<Rightarrow> bytes list \<Rightarrow> ('h Cipher \<times> (siv_error + bytes)) option" where
  "Open ops c dst ciphertext data =
     (if MaxAssociatedDataItems < length data then Some (c, Inl ErrTooManyAssociatedDataItems)
      else if length ciphertext < Overhead ops c then Some (c, Inl ErrNotAuthentic)
      else let n = Overhead ops c;
               iv = zeroIVBits (fst (copy_at (take n (sv_tmp1 c)) 0 ciphertext));
               c = c\<lparr>sv_tmp1 := iv @ drop n (sv_tmp1 c)\<rparr>;
               out = XORKeyStream (sv_b c) iv (drop (length iv) ciphertext)
        in do {
          (c, expected) \<leftarrow> s2v ops c data out;
          Some (c, if take (length iv) ciphertext = expected then Inr (dst @ out) else Inl ErrNotAuthentic) })"

section \<open>The wrapper\<close>

definition minimumRandomNonceSize :: int where
  "minimumRandomNonceSize = 16"

record aead =
  ad_c :: "hash Cipher"
  ad_nonceSize :: int

text \<open>\<open>read_full\<close> is \<^verbatim>\<open>io.ReadFull(rand.Reader, ...)\<close> for a number of bytes.\<close>

definition GenerateKey :: "(int \<Rightarrow> bytes option) \<Rightarrow> int \<Rightarrow> bytes option" where
  "GenerateKey read_full n = (if n \<noteq> 32 \<and> n \<noteq> 64 then None else read_full n)"

definition GenerateNonce :: "(int \<Rightarrow> bytes option) \<Rightarrow> int \<Rightarrow> bytes option" where
  "GenerateNonce read_full nonceSize = (if nonceSize < minimumRandomNonceSize then None else read_full nonceSize)"

definition NewAEAD :: "(bytes \<Rightarrow> block_cipher option) \<Rightarrow> string \<Rightarrow> bytes \<Rightarrow> int \<Rightarrow> (siv_error + aead) option" where
  "NewAEAD aes_NewCipher alg key nonceSize =
     (if alg = ''AES-SIV'' \<or> alg = ''AES-CMAC-SIV'' then
        (case NewAESCMACSIV aes_NewCipher key of
           None \<Rightarrow> None
         | Some (Inl err) \<Rightarrow> Some (Inl err)
         | Some (Inr c) \<Rightarrow> Some (Inr \<lparr>ad_c = c, ad_nonceSize = nonceSize\<rparr>))
      else if alg = ''AES-PMAC-SIV'' then
        (case NewAESPMACSIV aes_NewCipher key of
           None \<Rightarrow> None
         | Some (Inl err) \<Rightarrow> Some (Inl err)
         | Some (Inr c) \<Rightarrow> Some (Inr \<lparr>ad_c = c, ad_nonceSize = nonceSize\<rparr>))
      else None)"

definition aead_NonceSize :: "aead \<Rightarrow> int" where
  "aead_NonceSize a = ad_nonceSize a"

definition aead_Overhead :: "aead \<Rightarrow> nat" where
  "aead_Overhead a = Overhead hash_iface (ad_c a)"

definition aead_items :: "bytes \<Rightarrow> bytes option \<Rightarrow> bytes list" where
  "aead_items nonce data = (case data of None \<Rightarrow> [nonce] | Some data \<Rightarrow> [data, nonce])"

definition aead_Seal :: "aead \<Rightarrow> bytes \<Rightarrow> bytes \<Rightarrow> bytes \<Rightarrow> bytes option \<Rightarrow> (aead \<times> bytes) option" where
  "aead_Seal a dst nonce plaintext data =
     (if int (length nonce) \<noteq> ad_nonceSize a \<and> 0 \<le> ad_nonceSize a then None
      else case Seal hash_iface (ad_c a) dst plaintext (aead_items nonce data) of
             None \<Rightarrow> None
           | Some (c, Inl err) \<Rightarrow> None
           | Some (c, Inr out) \<Rightarrow> Some (a\<lparr>ad_c := c\<rparr>, out))"

definition aead_Open :: "aead \<Rightarrow> bytes \<Rightarrow> bytes \<Rightarrow> bytes \<Rightarrow> bytes option \<Rightarrow> (aead \<times> (siv_error + bytes)) option" where
  "aead_Open a dst nonce ciphertext data =
     (if int (length nonce) \<noteq> ad_nonceSize a \<and> 0 \<le> ad_nonceSize a then None
      else case Open hash_iface (ad_c a) dst ciphertext (aead_items nonce data) of
             None \<Rightarrow> None
           | Some (c, r) \<Rightarrow> Some (a\<lparr>ad_c := c\<rparr>, r))"

section \<open>The construction\<close>

text \<open>
  \<open>S2V\<close> and SIV as RFC 5297 defines them, apart from the code: the doubling is \<open>gf_double\<close>, and the counter starts at the synthetic IV masked with
  \<open>1^64 0 1^31 0 1^31\<close>.
\<close>

definition S2V :: "(bytes \<Rightarrow> bytes) \<Rightarrow> bytes list \<Rightarrow> bytes \<Rightarrow> bytes" where
  "S2V mac s sn =
     (let d = foldl (\<lambda>d v. xor_into (gf_double d) (mac v)) (mac zero_block) s;
          n = length sn - 16
      in mac (if 16 \<le> length sn then take n sn @ xor_into (drop n sn) d
              else xor_into (sn @ 0x80 # replicate (15 - length sn) 0) (gf_double d)))"

definition counter_mask :: bytes where
  "counter_mask = replicate 8 0xff @ [0x7f, 0xff, 0xff, 0xff] @ [0x7f, 0xff, 0xff, 0xff]"

definition siv_encrypt :: "(bytes \<Rightarrow> bytes) \<Rightarrow> block_cipher \<Rightarrow> bytes list \<Rightarrow> bytes \<Rightarrow> bytes" where
  "siv_encrypt mac b s p = (let v = S2V mac s p in v @ XORKeyStream b (map2 (AND) v counter_mask) p)"

text \<open>The key cipher of a hash and the code it computes.\<close>

definition mac_of :: "mac_alg \<Rightarrow> block_cipher \<Rightarrow> bytes \<Rightarrow> bytes" where
  "mac_of alg k = (case alg of CMAC \<Rightarrow> cmac_spec k | PMAC \<Rightarrow> pmac_spec k)"

definition hash_good :: "mac_alg \<Rightarrow> block_cipher \<Rightarrow> hash \<Rightarrow> bool" where
  "hash_good alg k h = (case h of HCmac d \<Rightarrow> alg = CMAC \<and> cmac_good k d | HPmac d \<Rightarrow> alg = PMAC \<and> pmac_good k d)"

definition hash_absorbed :: "mac_alg \<Rightarrow> block_cipher \<Rightarrow> hash \<Rightarrow> bytes \<Rightarrow> bool" where
  "hash_absorbed alg k h m = (case h of HCmac d \<Rightarrow> alg = CMAC \<and> cmac_absorbed k d m | HPmac d \<Rightarrow> alg = PMAC \<and> pmac_absorbed k d m)"

definition hash_fits :: "mac_alg \<Rightarrow> nat \<Rightarrow> bool" where
  "hash_fits alg n = (case alg of CMAC \<Rightarrow> True | PMAC \<Rightarrow> pmac_fits n)"

interpretation siv_hash: mac_hash hash_iface "hash_good alg k" "hash_absorbed alg k" "mac_of alg k" "hash_fits alg" for alg k
proof unfold_locales
  fix h m p pre n i
  show "hash_absorbed alg k (h_Reset hash_iface h) []" if "hash_good alg k h"
    using that cmac_Reset_absorbed pmac_Reset_absorbed by (auto simp: hash_iface_def hash_good_def hash_absorbed_def split: hash.splits)
  show "\<exists>h'. h_Write hash_iface h p = Some h' \<and> hash_absorbed alg k h' (m @ p)" if w: "hash_absorbed alg k h m" "hash_fits alg (length (m @ p))"
  proof (cases h)
    case (HCmac d)
    then show ?thesis using w cmac_Write_absorbed by (simp add: hash_iface_def hash_absorbed_def)
  next
    case (HPmac d)
    then obtain d' where "pmac_Write d p = Some d'" "pmac_absorbed k d' (m @ p)" and "alg = PMAC"
      using w pmac_Write_absorbed [of k d m p] by (auto simp: hash_absorbed_def hash_fits_def)
    then show ?thesis using HPmac by (simp add: hash_iface_def hash_absorbed_def)
  qed
  show "\<exists>h'. h_Sum hash_iface h pre = Some (h', pre @ mac_of alg k m) \<and> hash_good alg k h'" if a: "hash_absorbed alg k h m"
  proof (cases h)
    case (HCmac d)
    then show ?thesis
      using a cmac_Sum_absorbed [of k d m pre] by (cases "cmac_Sum d pre") (simp add: hash_iface_def hash_absorbed_def hash_good_def mac_of_def)
  next
    case (HPmac d)
    then obtain d' where "pmac_Sum d pre = Some (d', pre @ pmac_spec k m)" "pmac_good k d'" and "alg = PMAC"
      using a pmac_Sum_absorbed [of k d m pre] by (auto simp: hash_absorbed_def)
    then show ?thesis using HPmac by (simp add: hash_iface_def hash_good_def mac_of_def)
  qed
  show "length (mac_of alg k m) = 16" if "hash_good alg k h"
    using that cmac_spec_length pmac_spec_length by (auto simp: hash_good_def mac_of_def cmac_good_def pmac_good_def split: hash.splits)
  show "h_Size hash_iface h = 16" by (simp add: hash_iface_def cmac_Size_def pmac_Size_def block_Size_def split: hash.split)
  show "h_BlockSize hash_iface h = 16" if "hash_good alg k h"
    using that
    by (auto simp: hash_iface_def hash_good_def cmac_BlockSize_def pmac_BlockSize_def block_Size_def cmac_good_def cipher_ok_def split: hash.splits)
  show "hash_good alg k h" if "hash_absorbed alg k h m"
    using that cmac_absorbed_good pmac_absorbed_open by (auto simp: hash_absorbed_def hash_good_def pmac_open_def split: hash.splits)
  show "hash_fits alg i" if "hash_fits alg n" "i \<le> n" using that by (auto simp: hash_fits_def pmac_fits_def split: mac_alg.splits)
  show "hash_fits alg 16" by (simp add: hash_fits_def pmac_fits_def split: mac_alg.split)
qed

section \<open>Counter mode is an involution\<close>

lemma length_incr_le [simp]: "length (incr_le xs) = length xs"
  by (induction xs) auto

lemma length_ctr_incr [simp]: "length (ctr_incr iv) = length iv"
  by (simp add: ctr_incr_def)

lemma length_keystream: "cipher_ok c \<Longrightarrow> length iv = 16 \<Longrightarrow> length (keystream c n iv) = 16 * n"
  by (induction n arbitrary: iv) (simp_all add: cipher_length)

lemma length_XORKeyStream [simp]: "length (XORKeyStream c iv src) = length src"
  by (simp add: XORKeyStream_def)

lemma XORKeyStream_involution:
  assumes "cipher_ok c" and "length iv = 16"
  shows "XORKeyStream c iv (XORKeyStream c iv src) = src"
  using xor_into_cancel length_keystream [OF assms] by (simp add: XORKeyStream_def)

lemma length_zeroIVBits [simp]: "length (zeroIVBits iv) = length iv"
  by (simp add: zeroIVBits_def Let_def)

lemma zeroIVBits_mask:
  assumes "length iv = 16"
  shows "map2 (AND) iv counter_mask = zeroIVBits iv"
proof (rule nth_equalityI)
  fix i
  assume "i < length (map2 (AND) iv counter_mask)"
  then have i: "i < 16"
    using assms by (simp add: counter_mask_def)
  have "x AND 0xff = x" for x :: byte
  proof -
    have "(0xff :: byte) = - 1"
      by simp
    then show ?thesis
      by (simp only: and.right_neutral)
  qed
  moreover have "counter_mask ! i = (if i = 8 \<or> i = 12 then 0x7f else 0xff)"
    using i by (auto simp: counter_mask_def nth_append nth_Cons split: nat.splits)
  ultimately show "map2 (AND) iv counter_mask ! i = zeroIVBits iv ! i"
    using i assms by (simp add: counter_mask_def [THEN arg_cong [of _ _ length]] zeroIVBits_def Let_def nth_list_update)
qed (simp add: assms counter_mask_def)

section \<open>The code computes the construction\<close>

context mac_hash
begin

lemma copy_mac: "length tmp = 16 \<Longrightarrow> length x = 16 \<Longrightarrow> fst (copy_at tmp 0 x) = x"
  by (simp add: splice_at_def)

lemma mac_once:
  assumes "good h" and "fits (length v)"
  shows "\<exists>h' h''. h_Write ops (h_Reset ops h) v = Some h' \<and> h_Sum ops h' [] = Some (h'', mac v) \<and> good h''"
proof -
  obtain h' where "h_Write ops (h_Reset ops h) v = Some h'" "absorbed h' v" using Write_law [OF Reset_law [OF assms(1)], of v] assms(2) by auto
  then show ?thesis using Sum_law [of h' v "[]"] by auto
qed

lemma s2v_items_law:
  assumes "good h" and "length tmp = 16" and "length d = 16" and "\<forall>v \<in> set s. fits (length v)"
  shows "\<exists>h' tmp'. s2v_items ops s (h_Reset ops h) tmp d = Some (h_Reset ops h', tmp', foldl (\<lambda>d v. xor_into (gf_double d) (mac v)) d s) \<and>
    good h' \<and> length tmp' = 16"
  using assms
proof (induction s arbitrary: h tmp d)
  case (Cons v s)
  obtain h' h'' where h: "h_Write ops (h_Reset ops h) v = Some h'" "h_Sum ops h' [] = Some (h'', mac v)" "good h''"
    using mac_once [OF Cons.prems(1), of v] Cons.prems(4) by auto
  have len: "length (mac v) = 16" by (rule mac_length [OF h(3)])
  show ?case
    using h Cons.IH [OF h(3) len, of "xor_into (gf_double d) (mac v)"] Cons.prems copy_mac [OF Cons.prems(2) len] len Dbl_gf_double [OF Cons.prems(3)] by (simp add: Let_def)
qed auto

lemma length_s2v_fold: "good h \<Longrightarrow> length d = 16 \<Longrightarrow> length (foldl (\<lambda>d v. xor_into (gf_double d) (mac v)) d s) = 16"
  by (induction s arbitrary: d) auto

lemma s2v_law:
  assumes h: "good (sv_h c)" and tmp: "length (sv_tmp1 c) = 16" "length (sv_tmp2 c) = 16"
    and fit: "\<forall>v \<in> set s. fits (length v)" "fits (length sn)"
  shows "\<exists>h'. s2v ops c s sn = Some (c\<lparr>sv_h := h'\<rparr>, S2V mac s sn) \<and> good h'"
proof -
  obtain h1 h2 where 1: "h_Write ops (h_Reset ops (sv_h c)) zero_block = Some h1" "h_Sum ops h1 [] = Some (h2, mac zero_block)" "good h2"
    using mac_once [OF h, of zero_block] fits_block by auto
  have len: "length (mac m) = 16" for m by (rule mac_length [OF h])
  define d where "d = foldl (\<lambda>d v. xor_into (gf_double d) (mac v)) (mac zero_block) s"
  have dlen: "length d = 16" unfolding d_def by (rule length_s2v_fold [OF h len])
  obtain h3 tmp where 2: "s2v_items ops s (h_Reset ops h2) zero_block (mac zero_block) = Some (h_Reset ops h3, tmp, d)" "good h3" "length tmp = 16"
    using s2v_items_law [OF 1(3) _ len fit(1), of zero_block zero_block] unfolding d_def by auto
  have bs: "h_BlockSize ops (h_Reset ops h3) = 16" using Size_law(2,3) Reset_law [OF 2(2)] by blast
  have start: "s2v ops c s sn = do {
      (h, tmp, d) \<leftarrow>
        (if 16 \<le> length sn
         then let n = length sn - 16 in do { h \<leftarrow> h_Write ops (h_Reset ops h3) (take n sn); Some (h, drop n sn, d) }
         else Some (h_Reset ops h3, sn @ 0x80 # replicate (15 - length sn) 0, Dbl d));
      h \<leftarrow> h_Write ops h (xor_into tmp d);
      (h, sum) \<leftarrow> h_Sum ops h [];
      Some (c\<lparr>sv_h := h\<rparr>, sum) }"
  proof -
    have pad: "(fst (copy_at zero_block 0 sn))[length sn := 0x80] = sn @ 0x80 # replicate (15 - length sn) 0" if "length sn < 16"
    proof -
      have "drop (length sn) zero_block = 0 # replicate (15 - length sn) 0"
        using that by (simp add: zero_block_def block_Size_def Suc_diff_Suc [symmetric] flip: replicate_Suc)
      then show ?thesis using that by (simp add: splice_at_def list_update_append)
    qed
    have "fst (copy_at zero_block 0 (drop (length sn - 16) sn)) = drop (length sn - 16) sn" if "16 \<le> length sn"
      using that by (intro copy_mac) simp_all
    then show ?thesis
      using 1 2 tmp dlen bs pad copy_mac [OF tmp(2) len] unfolding s2v_def by (simp add: Let_def Clear_zero)
  qed
  show ?thesis
  proof (cases "16 \<le> length sn")
    case True
    let ?n = "length sn - 16"
    let ?t = "xor_into (drop ?n sn) d"
    have "fits (length ([] @ take ?n sn))" using fit(2) fits_mono by simp
    then obtain h4 where 3: "h_Write ops (h_Reset ops h3) (take ?n sn) = Some h4" "absorbed h4 (take ?n sn)"
      using Write_law [OF Reset_law [OF 2(2)], of "take ?n sn"] by auto
    have "fits (length (take ?n sn @ ?t))" using fit(2) True by simp
    then obtain h5 where 4: "h_Write ops h4 ?t = Some h5" "absorbed h5 (take ?n sn @ ?t)" using Write_law [OF 3(2)] by blast
    obtain h6 where "h_Sum ops h5 [] = Some (h6, mac (take ?n sn @ ?t))" "good h6" using Sum_law [OF 4(2), of "[]"] by auto
    then show ?thesis using start 3 4 True by (intro exI [of _ h6]) (simp add: S2V_def Let_def d_def)
  next
    case False
    let ?t = "xor_into (sn @ 0x80 # replicate (15 - length sn) 0) (Dbl d)"
    have "fits (length ([] @ ?t))" using fits_block False by simp
    then obtain h4 where 3: "h_Write ops (h_Reset ops h3) ?t = Some h4" "absorbed h4 ?t"
      using Write_law [OF Reset_law [OF 2(2)], of ?t] by auto
    obtain h5 where "h_Sum ops h4 [] = Some (h5, mac ?t)" "good h5" using Sum_law [OF 3(2), of "[]"] by auto
    then show ?thesis using start 3 False by (intro exI [of _ h5]) (simp add: S2V_def Let_def d_def Dbl_gf_double [OF dlen, unfolded d_def])
  qed
qed

lemma length_S2V: "good h \<Longrightarrow> length (S2V mac data p) = 16"
  by (simp add: S2V_def Let_def mac_length)

lemma siv_encrypt_code:
  assumes "good h"
  shows "siv_encrypt mac b s p = S2V mac s p @ XORKeyStream b (zeroIVBits (S2V mac s p)) p"
  using zeroIVBits_mask [OF length_S2V [OF assms]] by (simp add: siv_encrypt_def Let_def)

definition ready :: "'h Cipher \<Rightarrow> bool" where
  "ready c \<longleftrightarrow> good (sv_h c) \<and> length (sv_tmp1 c) = 16 \<and> length (sv_tmp2 c) = 16 \<and> cipher_ok (sv_b c)"

lemma Seal_law:
  assumes "ready c" and "length data \<le> 126" and "\<forall>v \<in> set data. fits (length v)" and "fits (length p)"
  shows "\<exists>c'. Seal ops c dst p data = Some (c', Inr (dst @ siv_encrypt mac (sv_b c) data p)) \<and> ready c' \<and> sv_b c' = sv_b c"
proof -
  obtain h where h: "s2v ops c data p = Some (c\<lparr>sv_h := h\<rparr>, S2V mac data p)" "good h"
    using s2v_law [of c data p] assms by (auto simp: ready_def)
  then show ?thesis
    using assms(1,2) by (intro exI [of _ "c\<lparr>sv_h := h\<rparr>"]) (simp add: Seal_def MaxAssociatedDataItems_def siv_encrypt_code [OF h(2)] Let_def ready_def)
qed

lemma Open_law:
  assumes "ready c" and "length data \<le> 126" and "\<forall>v \<in> set data. fits (length v)" and "fits (length ct)" and "16 \<le> length ct"
    and out: "out = XORKeyStream (sv_b c) (zeroIVBits (take 16 ct)) (drop 16 ct)"
  shows "\<exists>c'. Open ops c dst ct data = Some (c', if take 16 ct = S2V mac data out then Inr (dst @ out) else Inl ErrNotAuthentic) \<and>
    ready c' \<and> sv_b c' = sv_b c"
proof -
  let ?iv = "zeroIVBits (take 16 ct)" and ?c = "c\<lparr>sv_tmp1 := zeroIVBits (take 16 ct)\<rparr>"
  have n: "Overhead ops c = 16" by (simp add: Overhead_def Size_law)
  have tmp: "length (sv_tmp1 c) = 16" using assms(1) by (simp add: ready_def)
  have "fst (copy_at (take 16 (sv_tmp1 c)) 0 ct) = take 16 ct" using tmp assms(5) by (simp add: copy_at_def Let_def)
  moreover have "fits (length out)" using assms(4) out fits_mono by simp
  then obtain h where h: "s2v ops ?c data out = Some (?c\<lparr>sv_h := h\<rparr>, S2V mac data out)" "good h"
    using s2v_law [of ?c data out] assms by (auto simp: ready_def)
  ultimately show ?thesis
    using assms(1,2,5) n tmp out
    by (intro exI [of _ "?c\<lparr>sv_h := h\<rparr>"]) (simp add: Open_def MaxAssociatedDataItems_def Let_def ready_def)
qed

lemma Open_Seal:
  assumes "ready c" and "length data \<le> 126" and "\<forall>v \<in> set data. fits (length v)" and "fits (16 + length p)"
  shows "\<exists>c'. Open ops c dst (siv_encrypt mac (sv_b c) data p) data = Some (c', Inr (dst @ p)) \<and> ready c' \<and> sv_b c' = sv_b c"
proof -
  let ?v = "S2V mac data p"
  have len: "length ?v = 16" using assms(1) length_S2V by (auto simp: ready_def)
  have "XORKeyStream (sv_b c) (zeroIVBits ?v) (XORKeyStream (sv_b c) (zeroIVBits ?v) p) = p"
    using assms(1) len by (intro XORKeyStream_involution) (auto simp: ready_def)
  then show ?thesis
    using Open_law [OF assms(1-3), of "siv_encrypt mac (sv_b c) data p" p] assms(1,4) len by (auto simp: siv_encrypt_code ready_def)
qed

lemma Open_only_sealed:
  assumes "ready c" and "length data \<le> 126" and "\<forall>v \<in> set data. fits (length v)" and "fits (length ct)"
    and op: "Open ops c dst ct data = Some (c', Inr r)"
  shows "\<exists>p. r = dst @ p \<and> ct = siv_encrypt mac (sv_b c) data p"
proof (cases "16 \<le> length ct")
  case False
  then show ?thesis using op assms(2) by (simp add: Open_def MaxAssociatedDataItems_def Overhead_def Size_law)
next
  case True
  define out where "out = XORKeyStream (sv_b c) (zeroIVBits (take 16 ct)) (drop 16 ct)"
  from Open_law [OF assms(1-4) True out_def, of dst] op have r: "r = dst @ out" and v: "take 16 ct = S2V mac data out"
    by (auto split: if_splits)
  have "XORKeyStream (sv_b c) (zeroIVBits (take 16 ct)) out = drop 16 ct"
    unfolding out_def using assms(1) True by (intro XORKeyStream_involution) (auto simp: ready_def)
  then have "ct = siv_encrypt mac (sv_b c) data out" using v assms(1) siv_encrypt_code [of "sv_h c" "sv_b c" data out] by (simp add: ready_def) (metis append_take_drop_id)
  then show ?thesis using r by blast
qed

end

section \<open>Keys and nonces\<close>

text \<open>What \<^verbatim>\<open>aes.NewCipher\<close> documents: a cipher for every key of a supported size.\<close>

definition aes_ok :: "(bytes \<Rightarrow> block_cipher option) \<Rightarrow> bool" where
  "aes_ok aes \<longleftrightarrow> (\<forall>k. length k \<in> {16, 32} \<longrightarrow> (\<exists>c. aes k = Some c \<and> cipher_ok c))"

definition aead_ready :: "mac_alg \<Rightarrow> block_cipher \<Rightarrow> block_cipher \<Rightarrow> int \<Rightarrow> aead \<Rightarrow> bool" where
  "aead_ready alg k b ns a \<longleftrightarrow> mac_hash.ready (hash_good alg k) (ad_c a) \<and> sv_b (ad_c a) = b \<and> ad_nonceSize a = ns"

definition alg_name :: "mac_alg \<Rightarrow> string \<Rightarrow> bool" where
  "alg_name alg name = (case alg of CMAC \<Rightarrow> name = ''AES-SIV'' \<or> name = ''AES-CMAC-SIV'' | PMAC \<Rightarrow> name = ''AES-PMAC-SIV'')"

definition nonce_ok :: "int \<Rightarrow> bytes \<Rightarrow> bool" where
  "nonce_ok ns nonce \<longleftrightarrow> ns < 0 \<or> int (length nonce) = ns"

definition items_fit :: "mac_alg \<Rightarrow> bytes \<Rightarrow> bytes option \<Rightarrow> bool" where
  "items_fit alg nonce data \<longleftrightarrow> list_all (\<lambda>v. hash_fits alg (length v)) (aead_items nonce data)"

lemma items_fitD: "items_fit alg nonce data \<Longrightarrow> \<forall>v \<in> set (aead_items nonce data). hash_fits alg (length v)"
  by (simp add: items_fit_def list_all_iff)

lemma items_few: "length (aead_items nonce data) \<le> 126"
  by (simp add: aead_items_def split: option.split)

lemma NewAEAD_ready:
  assumes "aes_ok aes" and "length key \<in> {32, 64}" and "alg_name alg name"
  shows "\<exists>k b a. aes (take (length key div 2) key) = Some k \<and> aes (drop (length key div 2) key) = Some b \<and>
    NewAEAD aes name key ns = Some (Inr a) \<and> aead_ready alg k b ns a"
proof -
  have "length (take (length key div 2) key) \<in> {16, 32}" "length (drop (length key div 2) key) \<in> {16, 32}" using assms(2) by auto
  then obtain k b where kb: "aes (take (length key div 2) key) = Some k" "cipher_ok k" "aes (drop (length key div 2) key) = Some b" "cipher_ok b"
    using assms(1) unfolding aes_ok_def by meson
  have n: "length key = 32 \<or> length key = 64" using assms(2) by auto
  obtain d where d: "cmac_New k = Some d" "cmac_good k d" using cmac_New_absorbed [OF kb(2)] cmac_absorbed_good by blast
  obtain e where e: "pmac_New k = Some e" "pmac_good k e" using pmac_New_absorbed [OF kb(2)] pmac_absorbed_open pmac_open_def by blast
  show ?thesis
  proof (cases alg)
    case CMAC
    then have "NewAEAD aes name key ns = Some (Inr \<lparr>ad_c = \<lparr>sv_h = HCmac d, sv_b = b, sv_tmp1 = zero_block, sv_tmp2 = zero_block\<rparr>, ad_nonceSize = ns\<rparr>)"
      using assms(3) kb d n by (auto simp: NewAEAD_def NewAESCMACSIV_def Let_def alg_name_def)
    then show ?thesis using kb d CMAC by (auto simp: aead_ready_def siv_hash.ready_def hash_good_def)
  next
    case PMAC
    then have "NewAEAD aes name key ns = Some (Inr \<lparr>ad_c = \<lparr>sv_h = HPmac e, sv_b = b, sv_tmp1 = zero_block, sv_tmp2 = zero_block\<rparr>, ad_nonceSize = ns\<rparr>)"
      using assms(3) kb e n by (auto simp: NewAEAD_def NewAESPMACSIV_def Let_def alg_name_def)
    then show ?thesis using kb e PMAC by (auto simp: aead_ready_def siv_hash.ready_def hash_good_def)
  qed
qed

lemma aead_Seal_law:
  assumes "aead_ready alg k b ns a" and "nonce_ok ns nonce" and "items_fit alg nonce data" and "hash_fits alg (length p)"
  shows "\<exists>a'. aead_Seal a dst nonce p data = Some (a', dst @ siv_encrypt (mac_of alg k) b (aead_items nonce data) p) \<and> aead_ready alg k b ns a'"
  using siv_hash.Seal_law [of alg k "ad_c a", OF _ items_few items_fitD [OF assms(3)] assms(4), of dst] assms(1,2)
  by (auto simp: aead_ready_def aead_Seal_def nonce_ok_def)

lemma aead_Open_law:
  assumes "aead_ready alg k b ns a" and "nonce_ok ns nonce" and "items_fit alg nonce data" and "hash_fits alg (16 + length p)"
  shows "\<exists>a'. aead_Open a dst nonce (siv_encrypt (mac_of alg k) b (aead_items nonce data) p) data = Some (a', Inr (dst @ p)) \<and> aead_ready alg k b ns a'"
  using siv_hash.Open_Seal [of alg k "ad_c a", OF _ items_few items_fitD [OF assms(3)] assms(4), of dst] assms(1,2)
  by (auto simp: aead_ready_def aead_Open_def nonce_ok_def)

lemma aead_Overhead_16: "aead_Overhead a = 16"
  using siv_hash.Size_law(1) by (simp add: aead_Overhead_def Overhead_def)

lemma rotate_aes_ok: "aes_ok (Some \<circ> rotate_cipher)"
  by (simp add: aes_ok_def rotate_cipher_ok)

lemma length_siv_encrypt: "aead_ready alg k b ns a \<Longrightarrow> length (siv_encrypt (mac_of alg k) b s p) = 16 + length p"
  using siv_hash.length_S2V [of alg k] by (auto simp: aead_ready_def siv_encrypt_def Let_def siv_hash.ready_def)

section \<open>Properties\<close>

text \<open>
  C11: sealing and opening.  Given block ciphers \<open>k\<close> and \<open>b\<close> for the two halves of a key of 32 or 64 bytes, \<^verbatim>\<open>NewAEAD\<close> returns an instance for each of
  the three names, which authenticates with \<open>k\<close> and encrypts with \<open>b\<close>, and in every state that it can reach \<^verbatim>\<open>Seal\<close> does not panic for a nonce of the right size and appends
  the ciphertext that RFC 5297 defines over the one-shot code (with the doubling and the counter mask of the standard, not those of the code), longer than the plaintext by the overhead; \<^verbatim>\<open>Open\<close> of that ciphertext with the same
  nonce and data, in every such state, appends the plaintext.
\<close>

theorem siv_roundtrip:
  assumes "aes_ok aes" and "length key \<in> {32, 64}" and "alg_name alg name"
    and "nonce_ok ns nonce" and "items_fit alg nonce data" and "hash_fits alg (16 + length p)"
  shows "\<exists>k b. aes (take (length key div 2) key) = Some k \<and> aes (drop (length key div 2) key) = Some b \<and>
    (\<exists>a. NewAEAD aes name key ns = Some (Inr a) \<and> aead_ready alg k b ns a) \<and>
    (\<forall>a. aead_ready alg k b ns a \<longrightarrow>
      (let ct = siv_encrypt (mac_of alg k) b (aead_items nonce data) p in
        length ct = length p + aead_Overhead a \<and>
        (\<exists>a'. aead_Seal a dst nonce p data = Some (a', dst @ ct) \<and> aead_ready alg k b ns a') \<and>
        (\<exists>a'. aead_Open a dst' nonce ct data = Some (a', Inr (dst' @ p)) \<and> aead_ready alg k b ns a')))"
proof -
  obtain k b where new: "aes (take (length key div 2) key) = Some k" "aes (drop (length key div 2) key) = Some b"
      "\<exists>a. NewAEAD aes name key ns = Some (Inr a) \<and> aead_ready alg k b ns a"
    using NewAEAD_ready [OF assms(1-3)] by blast
  have "hash_fits alg (length p)" using siv_hash.fits_mono [OF assms(6)] by simp
  then show ?thesis
    using aead_Overhead_16 new aead_Seal_law [OF _ assms(4,5)] aead_Open_law [OF _ assms(4-6)] length_siv_encrypt
    by (intro exI [of _ k] exI [of _ b]) (simp add: Let_def add.commute)
qed

theorem siv_roundtrip_witness:
  "\<exists>a a' a'' ct. NewAEAD (Some \<circ> rotate_cipher) ''AES-PMAC-SIV'' (replicate 32 7) 2 = Some (Inr a) \<and>
    aead_Seal a [1] [8, 9] [4, 5, 6] (Some [2]) = Some (a', 1 # ct) \<and> length ct = 19 \<and>
    aead_Open a' [] [8, 9] ct (Some [2]) = Some (a'', Inr [4, 5, 6])"
proof -
  have fit: "items_fit PMAC [8, 9] (Some [2])" "nonce_ok 2 [8, 9]" "hash_fits PMAC (16 + length [4, 5, 6])" "alg_name PMAC ''AES-PMAC-SIV''"
    by (simp_all add: items_fit_def aead_items_def hash_fits_def pmac_fits_def nonce_ok_def alg_name_def)
  obtain k b a where a: "NewAEAD (Some \<circ> rotate_cipher) ''AES-PMAC-SIV'' (replicate 32 7) 2 = Some (Inr a)" "aead_ready PMAC k b 2 a"
    and all: "\<forall>a. aead_ready PMAC k b 2 a \<longrightarrow>
      (let ct = siv_encrypt (mac_of PMAC k) b (aead_items [8, 9] (Some [2])) [4, 5, 6] in
        length ct = length [4 :: byte, 5, 6] + aead_Overhead a \<and>
        (\<exists>a'. aead_Seal a [1] [8, 9] [4, 5, 6] (Some [2]) = Some (a', [1] @ ct) \<and> aead_ready PMAC k b 2 a') \<and>
        (\<exists>a'. aead_Open a [] [8, 9] ct (Some [2]) = Some (a', Inr ([] @ [4, 5, 6])) \<and> aead_ready PMAC k b 2 a'))"
    using siv_roundtrip [OF rotate_aes_ok _ fit(4) fit(2,1,3), of "replicate 32 7" "[1]" "[]"] by auto
  define ct where "ct = siv_encrypt (mac_of PMAC k) b (aead_items [8, 9] (Some [2])) [4, 5, 6]"
  obtain a' where a': "aead_Seal a [1] [8, 9] [4, 5, 6] (Some [2]) = Some (a', 1 # ct)" "aead_ready PMAC k b 2 a'"
    using all a(2) by (auto simp: Let_def ct_def)
  have "length ct = 19" using all [rule_format, OF a(2)] aead_Overhead_16 [of a] by (auto simp: Let_def ct_def)
  moreover obtain a'' where "aead_Open a' [] [8, 9] ct (Some [2]) = Some (a'', Inr [4, 5, 6])"
    using all [rule_format, OF a'(2)] by (auto simp: Let_def ct_def)
  ultimately show ?thesis using a(1) a'(1) by blast
qed

text \<open>
  C27: only what was sealed opens.  If \<^verbatim>\<open>Open\<close> accepts a ciphertext then it returns its argument followed by a plaintext for which \<^verbatim>\<open>Seal\<close>, with the same key,
  nonce and data, produces exactly this ciphertext.
\<close>

theorem siv_opens_only_sealed:
  assumes "aead_ready alg k b ns a" and "items_fit alg nonce data" and "hash_fits alg (length ct)"
    and "aead_Open a dst nonce ct data = Some (a', Inr r)"
  shows "\<exists>p a''. r = dst @ p \<and> length ct = length p + aead_Overhead a \<and> aead_Seal a dst' nonce p data = Some (a'', dst' @ ct)"
proof -
  have nonce: "nonce_ok ns nonce" using assms(1,4) by (auto simp: aead_Open_def nonce_ok_def aead_ready_def split: if_splits)
  obtain c' where op: "Open hash_iface (ad_c a) dst ct (aead_items nonce data) = Some (c', Inr r)"
    using assms(4) by (auto simp: aead_Open_def split: if_splits option.splits prod.splits)
  have ready: "mac_hash.ready (hash_good alg k) (ad_c a)" "sv_b (ad_c a) = b" using assms(1) by (simp_all add: aead_ready_def)
  obtain p where p: "r = dst @ p" "ct = siv_encrypt (mac_of alg k) b (aead_items nonce data) p"
    using siv_hash.Open_only_sealed [OF ready(1) items_few items_fitD [OF assms(2)] assms(3) op] ready(2) by auto
  have len: "length ct = 16 + length p" using length_siv_encrypt [OF assms(1)] p(2) by simp
  then have "hash_fits alg (length p)" using siv_hash.fits_mono [OF assms(3)] by simp
  then have "\<exists>a''. aead_Seal a dst' nonce p data = Some (a'', dst' @ ct)"
    using aead_Seal_law [OF assms(1) nonce assms(2), of p dst'] p(2) by auto
  then show ?thesis using p(1) len aead_Overhead_16 [of a] by (auto simp: add.commute)
qed

theorem siv_opens_only_sealed_witness:
  "\<exists>a a' a'' ct p. NewAEAD (Some \<circ> rotate_cipher) ''AES-SIV'' (replicate 64 7) (-1) = Some (Inr a) \<and>
    aead_Open a [1] [] ct None = Some (a', Inr (1 # p)) \<and> aead_Seal a [] [] p None = Some (a'', ct)"
proof -
  have fit: "items_fit CMAC [] None" "nonce_ok (-1) []" "hash_fits CMAC n" "alg_name CMAC ''AES-SIV''" for n
    by (simp_all add: items_fit_def aead_items_def hash_fits_def nonce_ok_def alg_name_def)
  obtain k b a where a: "NewAEAD (Some \<circ> rotate_cipher) ''AES-SIV'' (replicate 64 7) (-1) = Some (Inr a)" "aead_ready CMAC k b (-1) a"
    using NewAEAD_ready [OF rotate_aes_ok _ fit(4), of "replicate 64 7" "-1"] by auto
  obtain a' where o: "aead_Open a [1] [] (siv_encrypt (mac_of CMAC k) b (aead_items [] None) [7]) None = Some (a', Inr [1, 7])"
    using aead_Open_law [OF a(2) fit(2,1,3), of "[1]" "[7]"] by auto
  from siv_opens_only_sealed [OF a(2) fit(1,3) o, of "[]"] o a(1) show ?thesis by auto
qed

end
