(* ===== verification/Quic_Frames.thy ===== *)
theory Quic_Frames
  imports Prelude
begin

text \<open>
  QUIC frames, \<^verbatim>\<open>quic-go/internal/wire\<close>: the frame parser and the frames whose files are part of the repository (STREAM, RESET_STREAM and
  RESET_STREAM_AT, STOP_SENDING, MAX_STREAM_DATA, STREAM_DATA_BLOCKED, NEW_CONNECTION_ID, PING, HANDSHAKE_DONE), with
  the connection IDs of \<^verbatim>\<open>internal/protocol/connection_id.go\<close>.  What these files call and the repository does not hold is in the record
  \<open>wire_env\<close>: the variable-length integers of \<^verbatim>\<open>quicvarint\<close>, the numbers of the frame types and the tests on them, the other parsers, and the
  sizes of the frame buffers.  The locale \<open>quic_wire\<close> has what RFC 9000 says of these.  Numbers of 62 bits are \<open>nat\<close>; the buffer pool is
  left out but for its capacity.
\<close>

section \<open>Environment\<close>

datatype wire_error =
    IoEOF | IoUnexpectedEOF | ErrOverflowsOffset | ErrReliableSize nat nat | ErrRetirePriorTo nat nat | ErrZeroLength
  | ErrInvalidConnectionIDLen | errUnknownFrameType | ErrEmptyFrame | ErrConnIDLen nat | ErrOther

record frame_types =
  FrameTypePing :: nat
  FrameTypeResetStream :: nat
  FrameTypeStopSending :: nat
  FrameTypeMaxStreamData :: nat
  FrameTypeStreamDataBlocked :: nat
  FrameTypeNewConnectionID :: nat
  FrameTypeHandshakeDone :: nat
  FrameTypeResetStreamAt :: nat
  FrameTypeAckFrequency :: nat
  FrameTypeImmediateAck :: nat

record ('o, 'lvl) wire_env =
  vi_Parse :: "bytes \<Rightarrow> wire_error + nat \<times> nat"
  vi_Append :: "bytes \<Rightarrow> nat \<Rightarrow> bytes"
  vi_Len :: "nat \<Rightarrow> nat"
  w_ft :: frame_types
  w_isValidRFC9000 :: "nat \<Rightarrow> bool"
  w_IsDatagramFrameType :: "nat \<Rightarrow> bool"
  w_isAllowedAtEncLevel :: "nat \<Rightarrow> 'lvl \<Rightarrow> bool"
  w_parseOther :: "nat \<Rightarrow> bytes \<Rightarrow> (wire_error + 'o \<times> nat) option"
  w_MinStreamFrameBufferSize :: nat
  w_bufferCap :: nat
  w_MaxByteCount :: nat
  w_MaxConnIDLen :: nat

section \<open>Connection IDs\<close>

definition maxConnectionIDLen :: nat where
  "maxConnectionIDLen = 20"

record ConnectionID =
  ci_b :: bytes
  ci_l :: byte

definition ConnectionID_zero :: ConnectionID where
  "ConnectionID_zero = \<lparr>ci_b = replicate 20 0, ci_l = 0\<rparr>"

text \<open>\<^verbatim>\<open>ParseConnectionID\<close>; \<open>None\<close> is the panic.\<close>

definition ParseConnectionID :: "bytes \<Rightarrow> ConnectionID option" where
  "ParseConnectionID b =
     (if maxConnectionIDLen < length b then None
      else let l = of_nat (length b) :: byte
        in Some \<lparr>ci_b = fst (copy_at (take (unat l) (replicate 20 0)) 0 b) @ drop (unat l) (replicate 20 0), ci_l = l\<rparr>)"

definition ConnectionID_Len :: "ConnectionID \<Rightarrow> nat" where
  "ConnectionID_Len c = unat (ci_l c)"

definition ConnectionID_Bytes :: "ConnectionID \<Rightarrow> bytes" where
  "ConnectionID_Bytes c = take (unat (ci_l c)) (ci_b c)"

text \<open>\<^verbatim>\<open>GenerateConnectionID\<close>: \<open>rand\<close> stands for \<^verbatim>\<open>rand.Read\<close>; lengths above 20 panic.\<close>

definition GenerateConnectionID :: "(nat \<Rightarrow> bytes option) \<Rightarrow> nat \<Rightarrow> (ConnectionID \<times> bool) option" where
  "GenerateConnectionID rand l =
     (if 20 < l then None
      else case rand l of
        None \<Rightarrow> Some (ConnectionID_zero\<lparr>ci_l := of_nat l\<rparr>, False)
      | Some r \<Rightarrow> Some (\<lparr>ci_b = r @ replicate (20 - l) 0, ci_l = of_nat l\<rparr>, True))"

definition GenerateConnectionIDForInitial :: "nat \<Rightarrow> (nat \<Rightarrow> bytes option) \<Rightarrow> (ConnectionID \<times> bool) option" where
  "GenerateConnectionIDForInitial MinConnectionIDLenInitial rand =
     (case rand 1 of
        None \<Rightarrow> Some (ConnectionID_zero, False)
      | Some r \<Rightarrow>
          GenerateConnectionID rand
            (MinConnectionIDLenInitial + unat (r ! 0) mod (maxConnectionIDLen - MinConnectionIDLenInitial + 1)))"

text \<open>\<^verbatim>\<open>ReadConnectionID\<close> from a reader that holds \<open>r\<close>: the connection ID, the unread bytes and the error.\<close>

definition ReadConnectionID :: "bytes \<Rightarrow> nat \<Rightarrow> ConnectionID \<times> bytes \<times> wire_error option" where
  "ReadConnectionID r l =
     (if l = 0 then (ConnectionID_zero, r, None)
      else if maxConnectionIDLen < l then (ConnectionID_zero, r, Some ErrInvalidConnectionIDLen)
      else let got = take l r; c = \<lparr>ci_b = got @ drop (length got) (replicate 20 0), ci_l = of_nat l\<rparr>
        in (c, drop l r, if length got < l then Some IoEOF else None))"

section \<open>Frames\<close>

record StreamFrame =
  sf_StreamID :: nat
  sf_Offset :: nat
  sf_Data :: bytes
  sf_Fin :: bool
  sf_DataLenPresent :: bool

record ResetStreamFrame =
  rs_StreamID :: nat
  rs_ErrorCode :: nat
  rs_FinalSize :: nat
  rs_ReliableSize :: nat

record StopSendingFrame =
  ss_StreamID :: nat
  ss_ErrorCode :: nat

record MaxStreamDataFrame =
  ms_StreamID :: nat
  ms_MaximumStreamData :: nat

record StreamDataBlockedFrame =
  sb_StreamID :: nat
  sb_MaximumStreamData :: nat

record NewConnectionIDFrame =
  nc_SequenceNumber :: nat
  nc_RetirePriorTo :: nat
  nc_ConnectionID :: ConnectionID
  nc_StatelessResetToken :: bytes

datatype 'o frame =
    Ping | HandshakeDone | ImmediateAck
  | Stream StreamFrame
  | ResetStream ResetStreamFrame
  | StopSending StopSendingFrame
  | MaxStreamData MaxStreamDataFrame
  | StreamDataBlocked StreamDataBlockedFrame
  | NewConnectionID NewConnectionIDFrame
  | OtherFrame 'o

definition replaceUnexpectedEOF :: "wire_error \<Rightarrow> wire_error" where
  "replaceUnexpectedEOF e = (if e = IoUnexpectedEOF then IoEOF else e)"

text \<open>
  The step that all parsers repeat: a number is parsed at the head of the bytes, an error is passed on, and the parser goes on behind it.
\<close>

definition with_varint ::
  "('o, 'lvl) wire_env \<Rightarrow> bytes \<Rightarrow> (nat \<Rightarrow> bytes \<Rightarrow> wire_error + 'a) \<Rightarrow> wire_error + 'a" where
  "with_varint E b k =
     (case vi_Parse E b of
        Inl err \<Rightarrow> Inl (replaceUnexpectedEOF err)
      | Inr (v, l) \<Rightarrow> k v (drop l b))"

subsection \<open>STREAM\<close>

definition DataLen :: "StreamFrame \<Rightarrow> nat" where
  "DataLen f = length (sf_Data f)"

definition stream_body ::
  "('o, 'lvl) wire_env \<Rightarrow> nat \<Rightarrow> bool \<Rightarrow> bool \<Rightarrow> nat \<Rightarrow> nat \<Rightarrow> nat \<Rightarrow> bytes \<Rightarrow> wire_error + StreamFrame \<times> nat" where
  "stream_body E startLen fin hasDataLen streamID offset dataLen b =
     (if w_MinStreamFrameBufferSize E \<le> dataLen \<and> w_bufferCap E < dataLen then Inl IoEOF
      else let frame = \<lparr>sf_StreamID = streamID, sf_Offset = offset, sf_Data = take dataLen b, sf_Fin = fin, sf_DataLenPresent = hasDataLen\<rparr>
        in if w_MaxByteCount E < sf_Offset frame + DataLen frame then Inl ErrOverflowsOffset
           else Inr (frame, startLen - length b + dataLen))"

definition ParseStreamFrame :: "('o, 'lvl) wire_env \<Rightarrow> bytes \<Rightarrow> nat \<Rightarrow> wire_error + StreamFrame \<times> nat" where
  "ParseStreamFrame E b typ =
     (let startLen = length b; hasOffset = typ AND 0b100 > 0; fin = typ AND 0b1 > 0; hasDataLen = typ AND 0b10 > 0
      in with_varint E b (\<lambda>streamID b.
           let rest = (\<lambda>offset b.
             if hasDataLen then
               with_varint E b (\<lambda>dataLen b. if length b < dataLen then Inl IoEOF else stream_body E startLen fin hasDataLen streamID offset dataLen b)
             else stream_body E startLen fin hasDataLen streamID offset (length b) b)
           in if hasOffset then with_varint E b rest else rest 0 b))"

definition StreamFrame_Append :: "('o, 'lvl) wire_env \<Rightarrow> StreamFrame \<Rightarrow> bytes \<Rightarrow> wire_error + bytes" where
  "StreamFrame_Append E f b =
     (if length (sf_Data f) = 0 \<and> \<not> sf_Fin f then Inl ErrEmptyFrame
      else let typ = 0x8 :: byte;
               typ = (if sf_Fin f then typ XOR 0b1 else typ);
               hasOffset = sf_Offset f \<noteq> 0;
               typ = (if sf_DataLenPresent f then typ XOR 0b10 else typ);
               typ = (if hasOffset then typ XOR 0b100 else typ);
               b = b @ [typ];
               b = vi_Append E b (sf_StreamID f);
               b = (if hasOffset then vi_Append E b (sf_Offset f) else b);
               b = (if sf_DataLenPresent f then vi_Append E b (DataLen f) else b)
        in Inr (b @ sf_Data f))"

definition StreamFrame_Length :: "('o, 'lvl) wire_env \<Rightarrow> StreamFrame \<Rightarrow> nat" where
  "StreamFrame_Length E f =
     1 + vi_Len E (sf_StreamID f) + (if sf_Offset f \<noteq> 0 then vi_Len E (sf_Offset f) else 0) +
     (if sf_DataLenPresent f then vi_Len E (DataLen f) else 0) + DataLen f"

definition MaxDataLen :: "('o, 'lvl) wire_env \<Rightarrow> StreamFrame \<Rightarrow> nat \<Rightarrow> nat" where
  "MaxDataLen E f maxSize =
     (let headerLen = 1 + vi_Len E (sf_StreamID f) + (if sf_Offset f \<noteq> 0 then vi_Len E (sf_Offset f) else 0) +
            (if sf_DataLenPresent f then 1 else 0)
      in if maxSize < headerLen then 0
         else let maxDataLen = maxSize - headerLen
           in if sf_DataLenPresent f \<and> vi_Len E maxDataLen \<noteq> 1 then maxDataLen - 1 else maxDataLen)"

text \<open>
  \<^verbatim>\<open>MaybeSplitOffFrame\<close>: the frame afterwards, the frame split off and whether splitting was required; \<open>None\<close> is the panic of a slice that does not fit
  into the buffer.
\<close>

definition MaybeSplitOffFrame :: "('o, 'lvl) wire_env \<Rightarrow> StreamFrame \<Rightarrow> nat \<Rightarrow> (StreamFrame \<times> StreamFrame option \<times> bool) option" where
  "MaybeSplitOffFrame E f maxSize =
     (if StreamFrame_Length E f \<le> maxSize then Some (f, None, False)
      else let n = MaxDataLen E f maxSize
        in if n = 0 then Some (f, None, True)
           else let data = sf_Data f
             in if length data < n \<or> w_bufferCap E < length data - n then None
                else Some (f\<lparr>sf_Data := drop n data, sf_Offset := sf_Offset f + n\<rparr>,
                       Some \<lparr>sf_StreamID = sf_StreamID f, sf_Offset = sf_Offset f, sf_Data = take n data, sf_Fin = False,
                             sf_DataLenPresent = sf_DataLenPresent f\<rparr>, True))"

subsection \<open>RESET_STREAM, RESET_STREAM_AT\<close>

definition parseResetStreamFrame :: "('o, 'lvl) wire_env \<Rightarrow> bytes \<Rightarrow> bool \<Rightarrow> wire_error + ResetStreamFrame \<times> nat" where
  "parseResetStreamFrame E b isResetStreamAt =
     (let startLen = length b
      in with_varint E b (\<lambda>streamID b. with_varint E b (\<lambda>errorCode b. with_varint E b (\<lambda>finalSize b.
           let fin = (\<lambda>reliableSize b.
             if finalSize < reliableSize then Inl (ErrReliableSize reliableSize finalSize)
             else Inr (\<lparr>rs_StreamID = streamID, rs_ErrorCode = errorCode, rs_FinalSize = finalSize, rs_ReliableSize = reliableSize\<rparr>,
                       startLen - length b))
           in if isResetStreamAt then with_varint E b fin else fin 0 b))))"

definition ResetStreamFrame_Append :: "('o, 'lvl) wire_env \<Rightarrow> ResetStreamFrame \<Rightarrow> bytes \<Rightarrow> wire_error + bytes" where
  "ResetStreamFrame_Append E f b =
     (let b = (if rs_ReliableSize f = 0 then vi_Append E b (FrameTypeResetStream (w_ft E)) else vi_Append E b (FrameTypeResetStreamAt (w_ft E)));
          b = vi_Append E b (rs_StreamID f);
          b = vi_Append E b (rs_ErrorCode f);
          b = vi_Append E b (rs_FinalSize f);
          b = (if 0 < rs_ReliableSize f then vi_Append E b (rs_ReliableSize f) else b)
      in Inr b)"

definition ResetStreamFrame_Length :: "('o, 'lvl) wire_env \<Rightarrow> ResetStreamFrame \<Rightarrow> nat" where
  "ResetStreamFrame_Length E f =
     1 + (if 0 < rs_ReliableSize f then vi_Len E (rs_ReliableSize f) else 0) + vi_Len E (rs_StreamID f) + vi_Len E (rs_ErrorCode f) +
     vi_Len E (rs_FinalSize f)"

subsection \<open>STOP_SENDING, MAX_STREAM_DATA, STREAM_DATA_BLOCKED\<close>

definition parseStopSendingFrame :: "('o, 'lvl) wire_env \<Rightarrow> bytes \<Rightarrow> wire_error + StopSendingFrame \<times> nat" where
  "parseStopSendingFrame E b =
     (let startLen = length b
      in with_varint E b (\<lambda>streamID b. with_varint E b (\<lambda>errorCode b.
           Inr (\<lparr>ss_StreamID = streamID, ss_ErrorCode = errorCode\<rparr>, startLen - length b))))"

definition StopSendingFrame_Length :: "('o, 'lvl) wire_env \<Rightarrow> StopSendingFrame \<Rightarrow> nat" where
  "StopSendingFrame_Length E f = 1 + (vi_Len E (ss_StreamID f) + vi_Len E (ss_ErrorCode f))"

definition StopSendingFrame_Append :: "('o, 'lvl) wire_env \<Rightarrow> StopSendingFrame \<Rightarrow> bytes \<Rightarrow> wire_error + bytes" where
  "StopSendingFrame_Append E f b =
     Inr (vi_Append E (vi_Append E (b @ [of_nat (FrameTypeStopSending (w_ft E))]) (ss_StreamID f)) (ss_ErrorCode f))"

definition parseMaxStreamDataFrame :: "('o, 'lvl) wire_env \<Rightarrow> bytes \<Rightarrow> wire_error + MaxStreamDataFrame \<times> nat" where
  "parseMaxStreamDataFrame E b =
     (let startLen = length b
      in with_varint E b (\<lambda>sid b. with_varint E b (\<lambda>offset b.
           Inr (\<lparr>ms_StreamID = sid, ms_MaximumStreamData = offset\<rparr>, startLen - length b))))"

definition MaxStreamDataFrame_Append :: "('o, 'lvl) wire_env \<Rightarrow> MaxStreamDataFrame \<Rightarrow> bytes \<Rightarrow> wire_error + bytes" where
  "MaxStreamDataFrame_Append E f b =
     Inr (vi_Append E (vi_Append E (b @ [of_nat (FrameTypeMaxStreamData (w_ft E))]) (ms_StreamID f)) (ms_MaximumStreamData f))"

definition MaxStreamDataFrame_Length :: "('o, 'lvl) wire_env \<Rightarrow> MaxStreamDataFrame \<Rightarrow> nat" where
  "MaxStreamDataFrame_Length E f = 1 + (vi_Len E (ms_StreamID f) + vi_Len E (ms_MaximumStreamData f))"

text \<open>The parser of STREAM_DATA_BLOCKED adds the length of the last number instead of moving behind it.\<close>

definition parseStreamDataBlockedFrame :: "('o, 'lvl) wire_env \<Rightarrow> bytes \<Rightarrow> wire_error + StreamDataBlockedFrame \<times> nat" where
  "parseStreamDataBlockedFrame E b =
     (let startLen = length b
      in with_varint E b (\<lambda>sid b.
           case vi_Parse E b of
             Inl err \<Rightarrow> Inl (replaceUnexpectedEOF err)
           | Inr (offset, l) \<Rightarrow> Inr (\<lparr>sb_StreamID = sid, sb_MaximumStreamData = offset\<rparr>, startLen - length b + l)))"

definition StreamDataBlockedFrame_Append :: "('o, 'lvl) wire_env \<Rightarrow> StreamDataBlockedFrame \<Rightarrow> bytes \<Rightarrow> wire_error + bytes" where
  "StreamDataBlockedFrame_Append E f b =
     Inr (vi_Append E (vi_Append E (b @ [0x15]) (sb_StreamID f)) (sb_MaximumStreamData f))"

definition StreamDataBlockedFrame_Length :: "('o, 'lvl) wire_env \<Rightarrow> StreamDataBlockedFrame \<Rightarrow> nat" where
  "StreamDataBlockedFrame_Length E f = 1 + (vi_Len E (sb_StreamID f) + vi_Len E (sb_MaximumStreamData f))"

subsection \<open>NEW_CONNECTION_ID\<close>

text \<open>The part behind the two numbers; a panic of \<^verbatim>\<open>ParseConnectionID\<close> cannot happen, because the length has been tested.\<close>

definition newConnectionID_body :: "('o, 'lvl) wire_env \<Rightarrow> nat \<Rightarrow> nat \<Rightarrow> nat \<Rightarrow> bytes \<Rightarrow> wire_error + NewConnectionIDFrame \<times> nat" where
  "newConnectionID_body E startLen seq ret b =
     (if seq < ret then Inl (ErrRetirePriorTo ret seq)
      else case b of
        [] \<Rightarrow> Inl IoEOF
      | x # b \<Rightarrow>
          (let connIDLen = unat x
           in if connIDLen = 0 then Inl ErrZeroLength
              else if w_MaxConnIDLen E < connIDLen then Inl ErrInvalidConnectionIDLen
              else if length b < connIDLen then Inl IoEOF
              else case ParseConnectionID (take connIDLen b) of
                None \<Rightarrow> Inl ErrOther
              | Some c \<Rightarrow>
                  (let b = drop connIDLen b
                   in if length b < 16 then Inl IoEOF
                      else Inr (\<lparr>nc_SequenceNumber = seq, nc_RetirePriorTo = ret, nc_ConnectionID = c, nc_StatelessResetToken = take 16 b\<rparr>,
                                startLen - length b + 16))))"

definition parseNewConnectionIDFrame :: "('o, 'lvl) wire_env \<Rightarrow> bytes \<Rightarrow> wire_error + NewConnectionIDFrame \<times> nat" where
  "parseNewConnectionIDFrame E b =
     (let startLen = length b
      in with_varint E b (\<lambda>seq b. with_varint E b (\<lambda>ret b. newConnectionID_body E startLen seq ret b)))"

definition NewConnectionIDFrame_Append :: "('o, 'lvl) wire_env \<Rightarrow> NewConnectionIDFrame \<Rightarrow> bytes \<Rightarrow> wire_error + bytes" where
  "NewConnectionIDFrame_Append E f b =
     (let b = b @ [of_nat (FrameTypeNewConnectionID (w_ft E))];
          b = vi_Append E b (nc_SequenceNumber f);
          b = vi_Append E b (nc_RetirePriorTo f);
          connIDLen = ConnectionID_Len (nc_ConnectionID f)
      in if w_MaxConnIDLen E < connIDLen then Inl (ErrConnIDLen connIDLen)
         else Inr (b @ [of_nat connIDLen] @ ConnectionID_Bytes (nc_ConnectionID f) @ nc_StatelessResetToken f))"

definition NewConnectionIDFrame_Length :: "('o, 'lvl) wire_env \<Rightarrow> NewConnectionIDFrame \<Rightarrow> nat" where
  "NewConnectionIDFrame_Length E f =
     1 + (vi_Len E (nc_SequenceNumber f) + vi_Len E (nc_RetirePriorTo f) + 1 + ConnectionID_Len (nc_ConnectionID f)) + 16"

subsection \<open>PING, HANDSHAKE_DONE\<close>

definition PingFrame_Append :: "('o, 'lvl) wire_env \<Rightarrow> bytes \<Rightarrow> wire_error + bytes" where
  "PingFrame_Append E b = Inr (b @ [of_nat (FrameTypePing (w_ft E))])"

definition PingFrame_Length :: nat where
  "PingFrame_Length = 1"

definition HandshakeDoneFrame_Append :: "('o, 'lvl) wire_env \<Rightarrow> bytes \<Rightarrow> wire_error + bytes" where
  "HandshakeDoneFrame_Append E b = Inr (b @ [of_nat (FrameTypeHandshakeDone (w_ft E))])"

definition HandshakeDoneFrame_Length :: nat where
  "HandshakeDoneFrame_Length = 1"

section \<open>The frame parser\<close>

record FrameParser =
  fp_ackDelayExponent :: byte
  fp_supportsDatagrams :: bool
  fp_supportsResetStreamAt :: bool
  fp_supportsAckFrequency :: bool

definition NewFrameParser :: "bool \<Rightarrow> bool \<Rightarrow> bool \<Rightarrow> FrameParser" where
  "NewFrameParser supportsDatagrams supportsResetStreamAt supportsAckFrequency =
     \<lparr>fp_ackDelayExponent = 0, fp_supportsDatagrams = supportsDatagrams, fp_supportsResetStreamAt = supportsResetStreamAt,
      fp_supportsAckFrequency = supportsAckFrequency\<rparr>"

definition SetAckDelayExponent :: "byte \<Rightarrow> FrameParser \<Rightarrow> FrameParser" where
  "SetAckDelayExponent exp p = p\<lparr>fp_ackDelayExponent := exp\<rparr>"

datatype type_error = TypeEOF | TypeEncoding wire_error | TypeUnknown nat | TypeNotAllowed nat

definition type_valid :: "('o, 'lvl) wire_env \<Rightarrow> FrameParser \<Rightarrow> nat \<Rightarrow> bool" where
  "type_valid E p ft \<longleftrightarrow>
     w_isValidRFC9000 E ft \<or> fp_supportsDatagrams p \<and> w_IsDatagramFrameType E ft \<or>
     fp_supportsResetStreamAt p \<and> ft = FrameTypeResetStreamAt (w_ft E) \<or>
     fp_supportsAckFrequency p \<and> (ft = FrameTypeAckFrequency (w_ft E) \<or> ft = FrameTypeImmediateAck (w_ft E))"

text \<open>The loop of \<^verbatim>\<open>ParseType\<close>; it ends when every parse moves on, otherwise it need not: \<open>None\<close>.\<close>

partial_function (option) ParseType_from ::
  "('o, 'lvl) wire_env \<Rightarrow> FrameParser \<Rightarrow> 'lvl \<Rightarrow> nat \<Rightarrow> bytes \<Rightarrow> (nat \<times> (type_error + nat)) option" where
  "ParseType_from E p encLevel parsed b =
     (if length b = 0 then Some (parsed, Inl TypeEOF)
      else case vi_Parse E b of
        Inl err \<Rightarrow> Some (parsed, Inl (TypeEncoding err))
      | Inr (typ, l) \<Rightarrow>
          if typ = 0 then ParseType_from E p encLevel (parsed + l) (drop l b)
          else if \<not> type_valid E p typ then Some (parsed + l, Inl (TypeUnknown typ))
          else if \<not> w_isAllowedAtEncLevel E typ encLevel then Some (parsed + l, Inl (TypeNotAllowed typ))
          else Some (parsed + l, Inr typ))"

declare ParseType_from.simps [code]

definition ParseType :: "('o, 'lvl) wire_env \<Rightarrow> FrameParser \<Rightarrow> bytes \<Rightarrow> 'lvl \<Rightarrow> (nat \<times> (type_error + nat)) option" where
  "ParseType E p b encLevel = ParseType_from E p encLevel 0 b"

text \<open>A \<^verbatim>\<open>qerr.TransportError\<close> of code \<^verbatim>\<open>FrameEncodingError\<close>: the type of the frame and the error.\<close>

type_synonym 'a frame_result = "(nat \<times> wire_error) + 'a"

definition transport :: "nat \<Rightarrow> wire_error + 'a \<Rightarrow> 'a frame_result" where
  "transport frameType r = (case r of Inl err \<Rightarrow> Inl (frameType, err) | Inr x \<Rightarrow> Inr x)"

definition fp_ParseStreamFrame :: "('o, 'lvl) wire_env \<Rightarrow> nat \<Rightarrow> bytes \<Rightarrow> (StreamFrame \<times> nat) frame_result" where
  "fp_ParseStreamFrame E frameType data = transport frameType (ParseStreamFrame E data frameType)"

definition as_frame :: "('f \<Rightarrow> 'o frame) \<Rightarrow> wire_error + 'f \<times> nat \<Rightarrow> wire_error + 'o frame \<times> nat" where
  "as_frame c r = (case r of Inl err \<Rightarrow> Inl err | Inr (f, l) \<Rightarrow> Inr (c f, l))"

definition ParseLessCommonFrame :: "('o, 'lvl) wire_env \<Rightarrow> nat \<Rightarrow> bytes \<Rightarrow> ('o frame \<times> nat) frame_result" where
  "ParseLessCommonFrame E frameType data =
     (let ft = w_ft E
      in transport frameType
        (if frameType = FrameTypePing ft then Inr (Ping, 0)
         else if frameType = FrameTypeResetStream ft then as_frame ResetStream (parseResetStreamFrame E data False)
         else if frameType = FrameTypeStopSending ft then as_frame StopSending (parseStopSendingFrame E data)
         else if frameType = FrameTypeMaxStreamData ft then as_frame MaxStreamData (parseMaxStreamDataFrame E data)
         else if frameType = FrameTypeStreamDataBlocked ft then as_frame StreamDataBlocked (parseStreamDataBlockedFrame E data)
         else if frameType = FrameTypeNewConnectionID ft then as_frame NewConnectionID (parseNewConnectionIDFrame E data)
         else if frameType = FrameTypeHandshakeDone ft then Inr (HandshakeDone, 0)
         else if frameType = FrameTypeResetStreamAt ft then as_frame ResetStream (parseResetStreamFrame E data True)
         else if frameType = FrameTypeImmediateAck ft then Inr (ImmediateAck, 0)
         else case w_parseOther E frameType data of
           Some r \<Rightarrow> as_frame OtherFrame r
         | None \<Rightarrow> Inl errUnknownFrameType))"

text \<open>Appending and measuring any of the frames that the files at hand define.\<close>

fun frame_Append :: "('o, 'lvl) wire_env \<Rightarrow> 'o frame \<Rightarrow> bytes \<Rightarrow> (wire_error + bytes) option" where
  "frame_Append E Ping b = Some (PingFrame_Append E b)"
| "frame_Append E HandshakeDone b = Some (HandshakeDoneFrame_Append E b)"
| "frame_Append E (Stream f) b = Some (StreamFrame_Append E f b)"
| "frame_Append E (ResetStream f) b = Some (ResetStreamFrame_Append E f b)"
| "frame_Append E (StopSending f) b = Some (StopSendingFrame_Append E f b)"
| "frame_Append E (MaxStreamData f) b = Some (MaxStreamDataFrame_Append E f b)"
| "frame_Append E (StreamDataBlocked f) b = Some (StreamDataBlockedFrame_Append E f b)"
| "frame_Append E (NewConnectionID f) b = Some (NewConnectionIDFrame_Append E f b)"
| "frame_Append E _ b = None"

fun frame_Length :: "('o, 'lvl) wire_env \<Rightarrow> 'o frame \<Rightarrow> nat" where
  "frame_Length E Ping = PingFrame_Length"
| "frame_Length E HandshakeDone = HandshakeDoneFrame_Length"
| "frame_Length E (Stream f) = StreamFrame_Length E f"
| "frame_Length E (ResetStream f) = ResetStreamFrame_Length E f"
| "frame_Length E (StopSending f) = StopSendingFrame_Length E f"
| "frame_Length E (MaxStreamData f) = MaxStreamDataFrame_Length E f"
| "frame_Length E (StreamDataBlocked f) = StreamDataBlockedFrame_Length E f"
| "frame_Length E (NewConnectionID f) = NewConnectionIDFrame_Length E f"
| "frame_Length E _ = 0"

text \<open>The parser for a frame of a type: STREAM frames have their own.\<close>

definition parse_frame :: "('o, 'lvl) wire_env \<Rightarrow> nat \<Rightarrow> bytes \<Rightarrow> ('o frame \<times> nat) frame_result" where
  "parse_frame E ft data =
     (if 8 \<le> ft \<and> ft < 16 then (case fp_ParseStreamFrame E ft data of Inl e \<Rightarrow> Inl e | Inr (f, l) \<Rightarrow> Inr (Stream f, l))
      else ParseLessCommonFrame E ft data)"

section \<open>Frames that can be sent\<close>

definition conn_id_ok :: "ConnectionID \<Rightarrow> bool" where
  "conn_id_ok c \<longleftrightarrow> ConnectionID_Len c \<le> 20 \<and> length (ci_b c) = 20 \<and> drop (ConnectionID_Len c) (ci_b c) = replicate (20 - ConnectionID_Len c) 0"

text \<open>The frames that can be sent before the bytes \<open>rest\<close>: without a length field nothing follows.\<close>

fun frame_ok :: "('o, 'lvl) wire_env \<Rightarrow> bytes \<Rightarrow> 'o frame \<Rightarrow> bool" where
  "frame_ok E rest Ping = True"
| "frame_ok E rest HandshakeDone = True"
| "frame_ok E rest (Stream f) \<longleftrightarrow>
     sf_StreamID f < 2 ^ 62 \<and> sf_Offset f + DataLen f < 2 ^ 62 \<and> (sf_Data f \<noteq> [] \<or> sf_Fin f) \<and>
     (DataLen f < w_MinStreamFrameBufferSize E \<or> DataLen f \<le> w_bufferCap E) \<and> (sf_DataLenPresent f \<or> rest = [])"
| "frame_ok E rest (ResetStream f) \<longleftrightarrow>
     rs_StreamID f < 2 ^ 62 \<and> rs_ErrorCode f < 2 ^ 62 \<and> rs_FinalSize f < 2 ^ 62 \<and> rs_ReliableSize f \<le> rs_FinalSize f"
| "frame_ok E rest (StopSending f) \<longleftrightarrow> ss_StreamID f < 2 ^ 62 \<and> ss_ErrorCode f < 2 ^ 62"
| "frame_ok E rest (MaxStreamData f) \<longleftrightarrow> ms_StreamID f < 2 ^ 62 \<and> ms_MaximumStreamData f < 2 ^ 62"
| "frame_ok E rest (StreamDataBlocked f) \<longleftrightarrow> sb_StreamID f < 2 ^ 62 \<and> sb_MaximumStreamData f < 2 ^ 62"
| "frame_ok E rest (NewConnectionID f) \<longleftrightarrow>
     nc_SequenceNumber f < 2 ^ 62 \<and> nc_RetirePriorTo f \<le> nc_SequenceNumber f \<and> conn_id_ok (nc_ConnectionID f) \<and>
     0 < ConnectionID_Len (nc_ConnectionID f) \<and> length (nc_StatelessResetToken f) = 16"
| "frame_ok E rest _ = False"

definition stream_type :: "StreamFrame \<Rightarrow> nat" where
  "stream_type f = 8 + (if sf_Fin f then 1 else 0) + (if sf_DataLenPresent f then 2 else 0) + (if sf_Offset f \<noteq> 0 then 4 else 0)"

fun frame_type :: "('o, 'lvl) wire_env \<Rightarrow> 'o frame \<Rightarrow> nat" where
  "frame_type E Ping = FrameTypePing (w_ft E)"
| "frame_type E HandshakeDone = FrameTypeHandshakeDone (w_ft E)"
| "frame_type E (Stream f) = stream_type f"
| "frame_type E (ResetStream f) = (if rs_ReliableSize f = 0 then FrameTypeResetStream (w_ft E) else FrameTypeResetStreamAt (w_ft E))"
| "frame_type E (StopSending f) = FrameTypeStopSending (w_ft E)"
| "frame_type E (MaxStreamData f) = FrameTypeMaxStreamData (w_ft E)"
| "frame_type E (StreamDataBlocked f) = FrameTypeStreamDataBlocked (w_ft E)"
| "frame_type E (NewConnectionID f) = FrameTypeNewConnectionID (w_ft E)"
| "frame_type E _ = 0"

lemma ParseConnectionID_Bytes:
  assumes "conn_id_ok c"
  shows "ParseConnectionID (ConnectionID_Bytes c) = Some c" "length (ConnectionID_Bytes c) = ConnectionID_Len c"
proof -
  have l: "unat (ci_l c) \<le> 20" "length (ci_b c) = 20" "drop (unat (ci_l c)) (ci_b c) = replicate (20 - unat (ci_l c)) 0"
    using assms by (auto simp: conn_id_ok_def ConnectionID_Len_def)
  then show len: "length (ConnectionID_Bytes c) = ConnectionID_Len c" by (simp add: ConnectionID_Bytes_def ConnectionID_Len_def)
  have "ci_b c = take (unat (ci_l c)) (ci_b c) @ replicate (20 - unat (ci_l c)) 0" using l(3) append_take_drop_id by metis
  then have "\<lparr>ci_b = take (unat (ci_l c)) (ci_b c) @ replicate (20 - unat (ci_l c)) 0, ci_l = ci_l c\<rparr> = c" by (cases c) simp
  then show "ParseConnectionID (ConnectionID_Bytes c) = Some c"
    using l len by (simp add: ParseConnectionID_def Let_def maxConnectionIDLen_def ConnectionID_Bytes_def ConnectionID_Len_def splice_at_def min_def)
qed

section \<open>What RFC 9000 says of the environment\<close>

locale quic_wire =
  fixes E :: "('o, 'lvl) wire_env" and enc :: "nat \<Rightarrow> bytes"
  assumes Append_law: "v < 2 ^ 62 \<Longrightarrow> vi_Append E b v = b @ enc v"
    and Parse_law: "v < 2 ^ 62 \<Longrightarrow> vi_Parse E (enc v @ rest) = Inr (v, length (enc v))"
    and Parse_range: "vi_Parse E b = Inr (v, l) \<Longrightarrow> v < 2 ^ 62 \<and> 0 < l \<and> l \<le> length b"
    and Len_law: "v < 2 ^ 62 \<Longrightarrow> vi_Len E v = length (enc v)"
    and enc_length: "v < 2 ^ 62 \<Longrightarrow> length (enc v) = (if v < 64 then 1 else if v < 16384 then 2 else if v < 2 ^ 30 then 4 else 8)"
    and enc_small: "v < 64 \<Longrightarrow> enc v = [of_nat v]"
    and type_numbers: "FrameTypePing (w_ft E) = 0x01" "FrameTypeResetStream (w_ft E) = 0x04" "FrameTypeStopSending (w_ft E) = 0x05"
      "FrameTypeMaxStreamData (w_ft E) = 0x11" "FrameTypeStreamDataBlocked (w_ft E) = 0x15" "FrameTypeNewConnectionID (w_ft E) = 0x18"
      "FrameTypeHandshakeDone (w_ft E) = 0x1e" "FrameTypeResetStreamAt (w_ft E) = 0x24"
    and limits: "w_MaxByteCount E = 2 ^ 62 - 1" "w_MaxConnIDLen E = 20"
begin

lemma with_varint_enc: "v < 2 ^ 62 \<Longrightarrow> with_varint E (enc v @ r) k = k v r"
  by (simp add: with_varint_def Parse_law)

lemma type_byte: "v < 64 \<Longrightarrow> [of_nat v] = enc v"
  by (simp add: enc_small)

text \<open>Each frame is its type followed by a body, and the parser reads the body back.\<close>

definition sent :: "'o frame \<Rightarrow> bytes \<Rightarrow> bytes \<Rightarrow> bool" where
  "sent f body rest \<longleftrightarrow>
     (\<forall>b. frame_Append E f b = Some (Inr (b @ of_nat (frame_type E f) # body))) \<and> length body + 1 = frame_Length E f \<and>
     parse_frame E (frame_type E f) (body @ rest) = Inr (f, length body)"

lemma sentI:
  assumes "\<And>b. frame_Append E f b = Some (Inr (b @ of_nat (frame_type E f) # body))" and "length body + 1 = frame_Length E f"
    and "parse_frame E (frame_type E f) (body @ rest) = Inr (f, length body)"
  shows "sent f body rest"
  using assms by (simp add: sent_def)

lemmas parse_rules = parse_frame_def ParseLessCommonFrame_def transport_def as_frame_def type_numbers with_varint_enc Let_def

lemma sent_plain: "sent Ping [] rest" "sent HandshakeDone [] rest"
  by (rule sentI; simp add: PingFrame_Append_def HandshakeDoneFrame_Append_def PingFrame_Length_def HandshakeDoneFrame_Length_def parse_rules)+

lemma sent_two:
  "frame_ok E rest (StopSending f) \<Longrightarrow> sent (StopSending f) (enc (ss_StreamID f) @ enc (ss_ErrorCode f)) rest"
  "frame_ok E rest (MaxStreamData g) \<Longrightarrow> sent (MaxStreamData g) (enc (ms_StreamID g) @ enc (ms_MaximumStreamData g)) rest"
  "frame_ok E rest (StreamDataBlocked h) \<Longrightarrow> sent (StreamDataBlocked h) (enc (sb_StreamID h) @ enc (sb_MaximumStreamData h)) rest"
  by (rule sentI; simp add: StopSendingFrame_Append_def StopSendingFrame_Length_def parseStopSendingFrame_def MaxStreamDataFrame_Append_def
      MaxStreamDataFrame_Length_def parseMaxStreamDataFrame_def StreamDataBlockedFrame_Append_def StreamDataBlockedFrame_Length_def
      parseStreamDataBlockedFrame_def Parse_law Append_law Len_law parse_rules)+

lemma sent_reset:
  assumes "frame_ok E rest (ResetStream f)"
  shows "sent (ResetStream f) (enc (rs_StreamID f) @ enc (rs_ErrorCode f) @ enc (rs_FinalSize f) @
    (if 0 < rs_ReliableSize f then enc (rs_ReliableSize f) else [])) rest"
proof -
  have "rs_ReliableSize f < 2 ^ 62" using assms by simp
  then show ?thesis
    using assms
    by (intro sentI; cases "rs_ReliableSize f = 0")
      (simp_all add: ResetStreamFrame_Append_def ResetStreamFrame_Length_def parseResetStreamFrame_def Append_law Len_law enc_small parse_rules)
qed

lemma sent_new_connection_id:
  assumes "frame_ok E rest (NewConnectionID f)"
  shows "sent (NewConnectionID f) (enc (nc_SequenceNumber f) @ enc (nc_RetirePriorTo f) @
    of_nat (ConnectionID_Len (nc_ConnectionID f)) # ConnectionID_Bytes (nc_ConnectionID f) @ nc_StatelessResetToken f) rest"
proof -
  have ok: "conn_id_ok (nc_ConnectionID f)" and r: "nc_RetirePriorTo f < 2 ^ 62" using assms by auto
  note c = ParseConnectionID_Bytes [OF ok]
  have l: "ConnectionID_Len (nc_ConnectionID f) \<le> 20" using ok by (simp add: conn_id_ok_def)
  have u: "unat (of_nat (ConnectionID_Len (nc_ConnectionID f)) :: byte) = ConnectionID_Len (nc_ConnectionID f)"
    by (simp add: ConnectionID_Len_def)
  show ?thesis
    using assms r l u c
    by (intro sentI)
      (simp_all add: NewConnectionIDFrame_Append_def NewConnectionIDFrame_Length_def parseNewConnectionIDFrame_def newConnectionID_body_def
        Append_law Len_law limits parse_rules)
qed

lemma stream_type_flags:
  "stream_type f AND 0b100 > 0 \<longleftrightarrow> sf_Offset f \<noteq> 0" "stream_type f AND 0b1 > 0 \<longleftrightarrow> sf_Fin f" "stream_type f AND 0b10 > 0 \<longleftrightarrow> sf_DataLenPresent f"
  "8 \<le> stream_type f" "stream_type f < 16" "stream_type f mod 2 = Suc 0 \<longleftrightarrow> sf_Fin f"
  by (cases "sf_Offset f = 0"; cases "sf_Fin f"; cases "sf_DataLenPresent f"; simp add: stream_type_def)+

lemma stream_type_byte:
  "(let typ = 0x8 :: byte; typ = (if sf_Fin f then typ XOR 0b1 else typ); typ = (if sf_DataLenPresent f then typ XOR 0b10 else typ)
    in if sf_Offset f \<noteq> 0 then typ XOR 0b100 else typ) = of_nat (stream_type f)"
  by (cases "sf_Offset f = 0"; cases "sf_Fin f"; cases "sf_DataLenPresent f"; simp add: stream_type_def)

lemma stream_body_ok:
  assumes "DataLen f < w_MinStreamFrameBufferSize E \<or> DataLen f \<le> w_bufferCap E" and "sf_Offset f + DataLen f < 2 ^ 62"
  shows "stream_body E n (sf_Fin f) (sf_DataLenPresent f) (sf_StreamID f) (sf_Offset f) (DataLen f) (sf_Data f @ rest) =
    Inr (f, n - length (sf_Data f @ rest) + DataLen f)"
proof -
  have "\<not> (w_MinStreamFrameBufferSize E \<le> DataLen f \<and> w_bufferCap E < DataLen f)" using assms(1) by linarith
  moreover have "\<not> w_MaxByteCount E < sf_Offset f + DataLen f" using assms(2) limits by simp
  ultimately show ?thesis by (cases f) (auto simp: stream_body_def DataLen_def)
qed

lemma sent_stream:
  assumes "frame_ok E rest (Stream f)"
  shows "sent (Stream f) (enc (sf_StreamID f) @ (if sf_Offset f \<noteq> 0 then enc (sf_Offset f) else []) @
    (if sf_DataLenPresent f then enc (DataLen f) else []) @ sf_Data f) rest"
proof (rule sentI)
  have v: "sf_StreamID f < 2 ^ 62" "sf_Offset f < 2 ^ 62" "DataLen f < 2 ^ 62" using assms by auto
  have some: "\<not> (length (sf_Data f) = 0 \<and> \<not> sf_Fin f)" using assms by auto
  show "frame_Append E (Stream f) b = Some (Inr (b @ of_nat (frame_type E (Stream f)) # enc (sf_StreamID f) @
      (if sf_Offset f \<noteq> 0 then enc (sf_Offset f) else []) @ (if sf_DataLenPresent f then enc (DataLen f) else []) @ sf_Data f))" for b
    using some v stream_type_byte [of f] unfolding StreamFrame_Append_def frame_Append.simps Let_def by (auto simp: Append_law)
  show "length (enc (sf_StreamID f) @ (if sf_Offset f \<noteq> 0 then enc (sf_Offset f) else []) @
      (if sf_DataLenPresent f then enc (DataLen f) else []) @ sf_Data f) + 1 = frame_Length E (Stream f)"
    using v by (simp add: StreamFrame_Length_def Len_law DataLen_def)
  have lim: "DataLen f < w_MinStreamFrameBufferSize E \<or> DataLen f \<le> w_bufferCap E" "sf_Offset f + DataLen f < 2 ^ 62" using assms by auto
  have none: "\<not> sf_DataLenPresent f \<Longrightarrow> rest = []" using assms by auto
  note body = stream_body_ok [OF lim]
  show "parse_frame E (frame_type E (Stream f)) ((enc (sf_StreamID f) @ (if sf_Offset f \<noteq> 0 then enc (sf_Offset f) else []) @
      (if sf_DataLenPresent f then enc (DataLen f) else []) @ sf_Data f) @ rest) =
    Inr (Stream f, length (enc (sf_StreamID f) @ (if sf_Offset f \<noteq> 0 then enc (sf_Offset f) else []) @
      (if sf_DataLenPresent f then enc (DataLen f) else []) @ sf_Data f))"
  proof (cases "sf_DataLenPresent f")
    case True
    have "\<not> length (sf_Data f @ rest) < DataLen f" by (simp add: DataLen_def)
    then show ?thesis
      using True v body [of _ rest]
      by (cases "sf_Offset f = 0")
        (simp_all add: parse_frame_def fp_ParseStreamFrame_def transport_def ParseStreamFrame_def stream_type_flags with_varint_enc Let_def DataLen_def)
  next
    case False
    then show ?thesis
      using v body [of _ "[]"] none
      by (cases "sf_Offset f = 0")
        (simp_all add: parse_frame_def fp_ParseStreamFrame_def transport_def ParseStreamFrame_def stream_type_flags with_varint_enc Let_def DataLen_def)
  qed
qed

lemma frame_sent:
  assumes "frame_ok E rest f"
  shows "\<exists>body. sent f body rest"
proof (cases f)
  case (Stream g)
  then show ?thesis using sent_stream assms by blast
next
  case (ResetStream g)
  then show ?thesis using sent_reset assms by blast
next
  case (StopSending g)
  then show ?thesis using sent_two(1) assms by blast
next
  case (MaxStreamData g)
  then show ?thesis using sent_two(2) assms by blast
next
  case (StreamDataBlocked g)
  then show ?thesis using sent_two(3) assms by blast
next
  case (NewConnectionID g)
  then show ?thesis using sent_new_connection_id assms by blast
qed (use sent_plain assms in auto)

lemma frame_type_small: "frame_ok E rest f \<Longrightarrow> 0 < frame_type E f \<and> frame_type E f < 64"
proof (cases f)
  case (Stream g)
  then show ?thesis using stream_type_flags(4,5) [of g] by simp
qed (auto simp: type_numbers)

text \<open>Padding is skipped.\<close>

lemma ParseType_padding:
  assumes "0 < ft" and "ft < 64" and "type_valid E p ft" and "w_isAllowedAtEncLevel E ft lvl"
  shows "ParseType_from E p lvl n (replicate k 0 @ of_nat ft # rest) = Some (n + k + 1, Inr ft)"
proof (induction k arbitrary: n)
  case 0
  have "vi_Parse E (of_nat ft # rest) = Inr (ft, 1)" using Parse_law [of ft rest] enc_small [of ft] assms(2) by simp
  then show ?case using assms by (subst ParseType_from.simps) simp
next
  case (Suc k)
  have "vi_Parse E (0 # replicate k 0 @ of_nat ft # rest) = Inr (0, 1)"
    using Parse_law [of 0 "replicate k 0 @ of_nat ft # rest"] enc_small [of 0] by simp
  then show ?case using Suc.IH [of "n + 1"] by (subst ParseType_from.simps) simp
qed

text \<open>Splitting: the first \<open>m\<close> bytes of a frame as a frame of their own.\<close>

definition prefix_frame :: "nat \<Rightarrow> StreamFrame \<Rightarrow> StreamFrame" where
  "prefix_frame m f = f\<lparr>sf_Data := take m (sf_Data f), sf_Fin := False\<rparr>"

definition header_size :: "StreamFrame \<Rightarrow> nat" where
  "header_size f = 1 + vi_Len E (sf_StreamID f) + (if sf_Offset f \<noteq> 0 then vi_Len E (sf_Offset f) else 0)"

lemma small_Len: "m < 16384 \<Longrightarrow> vi_Len E m = (if m < 64 then 1 else 2)"
  using Len_law [of m] enc_length [of m] by simp

lemma prefix_Length:
  assumes "m \<le> DataLen f" and "DataLen f < 16384"
  shows "StreamFrame_Length E (prefix_frame m f) =
    header_size f + (if sf_DataLenPresent f then if m < 64 then 1 else 2 else 0) + m"
  using assms small_Len [of m] by (simp add: StreamFrame_Length_def prefix_frame_def header_size_def DataLen_def min_absorb2)

lemma MaxDataLen_exact:
  assumes small: "DataLen f < 16384" and big: "maxSize < StreamFrame_Length E f"
  shows "MaxDataLen E f maxSize < DataLen f \<or> MaxDataLen E f maxSize = 0"
    and "0 < m \<Longrightarrow> m \<le> DataLen f \<Longrightarrow> StreamFrame_Length E (prefix_frame m f) \<le> maxSize \<longleftrightarrow> m \<le> MaxDataLen E f maxSize"
proof -
  have len: "StreamFrame_Length E f = header_size f + (if sf_DataLenPresent f then if DataLen f < 64 then 1 else 2 else 0) + DataLen f"
    using small small_Len [of "DataLen f"] by (simp add: StreamFrame_Length_def header_size_def)
  have max: "MaxDataLen E f maxSize =
    (let h = header_size f + (if sf_DataLenPresent f then 1 else 0)
     in if maxSize < h then 0 else if sf_DataLenPresent f \<and> 64 \<le> maxSize - h then maxSize - h - 1 else maxSize - h)"
  proof -
    let ?h = "header_size f + (if sf_DataLenPresent f then 1 else 0)"
    have "maxSize - ?h < 16384" if "sf_DataLenPresent f" using big len small that by (auto split: if_splits)
    then show ?thesis using small_Len [of "maxSize - ?h"] by (auto simp: MaxDataLen_def header_size_def Let_def)
  qed
  show "MaxDataLen E f maxSize < DataLen f \<or> MaxDataLen E f maxSize = 0"
    using big len max by (cases "sf_DataLenPresent f") (auto simp: Let_def split: if_splits)
  show "StreamFrame_Length E (prefix_frame m f) \<le> maxSize \<longleftrightarrow> m \<le> MaxDataLen E f maxSize" if "0 < m" "m \<le> DataLen f"
    unfolding prefix_Length [OF that(2) small] max
    using that by (cases "sf_DataLenPresent f") (auto simp: Let_def split: if_splits)
qed

lemma split_law:
  assumes small: "DataLen f < 16384" and cap: "DataLen f \<le> w_bufferCap E" and big: "maxSize < StreamFrame_Length E f"
  shows "MaybeSplitOffFrame E f maxSize =
    (let n = MaxDataLen E f maxSize
     in Some (if n = 0 then (f, None, True)
        else (f\<lparr>sf_Data := drop n (sf_Data f), sf_Offset := sf_Offset f + n\<rparr>, Some (prefix_frame n f), True)))"
proof -
  have "MaxDataLen E f maxSize < DataLen f \<or> MaxDataLen E f maxSize = 0" by (rule MaxDataLen_exact(1) [OF small big])
  moreover have "prefix_frame n f = \<lparr>sf_StreamID = sf_StreamID f, sf_Offset = sf_Offset f, sf_Data = take n (sf_Data f), sf_Fin = False,
      sf_DataLenPresent = sf_DataLenPresent f\<rparr>" for n
    by (cases f) (simp add: prefix_frame_def)
  ultimately show ?thesis using big cap by (auto simp: MaybeSplitOffFrame_def Let_def DataLen_def)
qed

end

section \<open>The variable-length integers of RFC 9000\<close>

text \<open>Big-endian numbers whose first two bits tell the length: 1, 2, 4 or 8 bytes.\<close>

fun be_bytes :: "nat \<Rightarrow> nat \<Rightarrow> bytes" where
  "be_bytes 0 v = []"
| "be_bytes (Suc n) v = be_bytes n (v div 256) @ [of_nat (v mod 256)]"

definition be_value :: "bytes \<Rightarrow> nat" where
  "be_value bs = foldl (\<lambda>v b. v * 256 + unat b) 0 bs"

definition rfc_enc :: "nat \<Rightarrow> bytes" where
  "rfc_enc v =
     (if v < 2 ^ 6 then be_bytes 1 v
      else if v < 2 ^ 14 then be_bytes 2 (v + 1 * 2 ^ 14)
      else if v < 2 ^ 30 then be_bytes 4 (v + 2 * 2 ^ 30)
      else be_bytes 8 (v + 3 * 2 ^ 62))"

definition rfc_parse :: "bytes \<Rightarrow> wire_error + nat \<times> nat" where
  "rfc_parse b =
     (case b of
        [] \<Rightarrow> Inl IoEOF
      | x # _ \<Rightarrow>
          (let l = 2 ^ (unat x div 64)
           in if length b < l then Inl IoUnexpectedEOF else Inr (be_value (take l b) mod 2 ^ (8 * l - 2), l)))"

lemma length_be_bytes [simp]: "length (be_bytes n v) = n"
  by (induction n arbitrary: v) auto

lemma be_value_bytes: "be_value (be_bytes n v) = v mod 256 ^ n"
proof (induction n arbitrary: v)
  case (Suc n)
  have "v mod 256 ^ Suc n = v mod 256 + 256 * (v div 256 mod 256 ^ n)" by (simp add: mod_mult2_eq)
  moreover have "unat (of_nat (v mod 256) :: byte) = v mod 256" by (simp add: unsigned_of_nat take_bit_eq_mod)
  ultimately show ?case using Suc by (simp add: be_value_def)
qed (simp add: be_value_def)

lemma be_bytes_Cons: "be_bytes (Suc n) v = of_nat (v div 256 ^ n mod 256) # be_bytes n v"
proof (induction n arbitrary: v)
  case (Suc n)
  have "be_bytes (Suc (Suc n)) v = be_bytes (Suc n) (v div 256) @ [of_nat (v mod 256)]" by simp
  also have "\<dots> = of_nat (v div 256 div 256 ^ n mod 256) # be_bytes n (v div 256) @ [of_nat (v mod 256)]" unfolding Suc by simp
  also have "\<dots> = of_nat (v div 256 ^ Suc n mod 256) # be_bytes (Suc n) v" by (simp add: div_mult2_eq)
  finally show ?case .
qed simp

lemma rfc_parse_be:
  assumes v: "v < 2 ^ (8 * 2 ^ t - 2)" and t: "t < 4"
  shows "rfc_parse (be_bytes (2 ^ t) (v + t * 2 ^ (8 * 2 ^ t - 2)) @ rest) = Inr (v, 2 ^ t)"
proof -
  define l :: nat where "l = 2 ^ t"
  define w where "w = v + t * 2 ^ (8 * l - 2)"
  obtain n where n: "l = Suc n" unfolding l_def by (cases "(2 :: nat) ^ t") auto
  have p: "(256 :: nat) ^ n * 64 = 2 ^ (8 * l - 2)"
  proof -
    have "(256 :: nat) ^ n = 2 ^ (8 * n)" by (simp add: power_mult)
    then have "(256 :: nat) ^ n * 64 = 2 ^ (8 * n + 6)" by (simp add: power_add)
    then show ?thesis by (simp add: n)
  qed
  have lt: "w < 256 ^ l"
  proof -
    have "w < 2 ^ (8 * l - 2) + t * 2 ^ (8 * l - 2)" using v unfolding w_def l_def by simp
    also have "\<dots> = (t + 1) * 2 ^ (8 * l - 2)" by simp
    also have "\<dots> \<le> 4 * 2 ^ (8 * l - 2)" using t by (intro mult_right_mono) simp_all
    also have "\<dots> = 256 ^ l" using p n by simp
    finally show ?thesis .
  qed
  have "w div 256 ^ n div 64 = w div 2 ^ (8 * l - 2)" by (simp add: div_mult2_eq [symmetric] p)
  also have "\<dots> = t" using v unfolding w_def l_def by simp
  finally have q: "w div 256 ^ n div 64 = t" .
  have "w div 256 ^ n < 256" using lt n by (simp add: less_mult_imp_div_less mult.commute)
  then have u: "unat (of_nat (w div 256 ^ n mod 256) :: byte) div 64 = t" using q by (simp add: unsigned_of_nat take_bit_eq_mod)
  have val: "be_value (be_bytes l w) mod 2 ^ (8 * l - 2) = v" using lt v unfolding be_value_bytes by (simp add: w_def l_def)
  have bs: "be_bytes l w = of_nat (w div 256 ^ n mod 256) # be_bytes n w" unfolding n by (rule be_bytes_Cons)
  have "rfc_parse (be_bytes l w @ rest) = Inr (be_value (take l (be_bytes l w @ rest)) mod 2 ^ (8 * l - 2), l)"
    unfolding bs using u by (simp add: rfc_parse_def Let_def l_def [symmetric] n)
  then show ?thesis using val by (simp add: l_def [symmetric] w_def)
qed

lemma rfc_parse_enc:
  assumes "v < 2 ^ 62"
  shows "rfc_parse (rfc_enc v @ rest) = Inr (v, length (rfc_enc v))"
  using assms rfc_parse_be [of v 0 rest] rfc_parse_be [of v 1 rest] rfc_parse_be [of v 2 rest] rfc_parse_be [of v 3 rest]
  unfolding rfc_enc_def by simp

text \<open>An environment with these numbers, for any of the other parts.\<close>

definition rfc_types :: frame_types where
  "rfc_types = \<lparr>FrameTypePing = 0x01, FrameTypeResetStream = 0x04, FrameTypeStopSending = 0x05, FrameTypeMaxStreamData = 0x11,
     FrameTypeStreamDataBlocked = 0x15, FrameTypeNewConnectionID = 0x18, FrameTypeHandshakeDone = 0x1e, FrameTypeResetStreamAt = 0x24,
     FrameTypeAckFrequency = 0xaf, FrameTypeImmediateAck = 0x1f\<rparr>"

definition rfc_env ::
  "(nat \<Rightarrow> bool) \<Rightarrow> (nat \<Rightarrow> bool) \<Rightarrow> (nat \<Rightarrow> 'lvl \<Rightarrow> bool) \<Rightarrow> (nat \<Rightarrow> bytes \<Rightarrow> (wire_error + 'o \<times> nat) option) \<Rightarrow> nat \<Rightarrow> nat \<Rightarrow> ('o, 'lvl) wire_env" where
  "rfc_env valid datagram allowed others minsize cap = \<lparr>
     vi_Parse = rfc_parse, vi_Append = (\<lambda>b v. b @ rfc_enc v), vi_Len = (\<lambda>v. length (rfc_enc v)), w_ft = rfc_types,
     w_isValidRFC9000 = valid, w_IsDatagramFrameType = datagram, w_isAllowedAtEncLevel = allowed, w_parseOther = others,
     w_MinStreamFrameBufferSize = minsize, w_bufferCap = cap, w_MaxByteCount = 2 ^ 62 - 1, w_MaxConnIDLen = 20\<rparr>"

interpretation rfc_wire: quic_wire "rfc_env valid datagram allowed others minsize cap" rfc_enc
  for valid datagram allowed others minsize cap
proof unfold_locales
  let ?E = "rfc_env valid datagram allowed others minsize cap"
  show "v < 2 ^ 62 \<Longrightarrow> vi_Parse ?E (rfc_enc v @ rest) = Inr (v, length (rfc_enc v))" for v rest
    by (simp add: rfc_env_def rfc_parse_enc)
  show "v < 2 ^ 62 \<and> 0 < l \<and> l \<le> length b" if p: "vi_Parse ?E b = Inr (v, l)" for b v l
  proof -
    obtain x b' where b: "b = x # b'" using p by (cases b) (simp_all add: rfc_env_def rfc_parse_def)
    have t: "unat x div 64 \<le> 3" using unat_lt_pow8 [of x] by linarith
    from p b have l: "l = 2 ^ (unat x div 64)" "l \<le> length b" "v = be_value (take l b) mod 2 ^ (8 * l - 2)"
      by (auto simp: rfc_env_def rfc_parse_def Let_def split: if_splits)
    have "l \<le> 2 ^ 3" unfolding l(1) using t by (intro power_increasing) simp_all
    then have "(2 :: nat) ^ (8 * l - 2) \<le> 2 ^ 62" by (intro power_increasing) simp_all
    moreover have "v < 2 ^ (8 * l - 2)" unfolding l(3) by simp
    ultimately show ?thesis using l(1,2) by (auto intro: less_le_trans)
  qed
qed (simp_all add: rfc_env_def rfc_enc_def rfc_types_def)

section \<open>Properties\<close>

text \<open>
  C12: frames survive the wire.  Under the number format and the type numbers of RFC 9000, appending a frame that can be sent writes as many bytes as
  \<^verbatim>\<open>Length\<close> says; behind any padding and before any bytes that may follow, \<^verbatim>\<open>ParseType\<close> finds its type, and the parser that the type
  selects returns the same frame and the number of bytes of its body.
\<close>

theorem frame_roundtrip:
  assumes "quic_wire E enc" and "frame_ok E rest f" and "type_valid E p (frame_type E f)" and "w_isAllowedAtEncLevel E (frame_type E f) lvl"
  shows "\<exists>bs. frame_Append E f b = Some (Inr (b @ bs)) \<and> length bs = frame_Length E f \<and>
    ParseType E p (replicate k 0 @ bs @ rest) lvl = Some (k + 1, Inr (frame_type E f)) \<and>
    parse_frame E (frame_type E f) (drop (k + 1) (replicate k 0 @ bs @ rest)) = Inr (f, length bs - 1)"
proof -
  obtain body where body: "quic_wire.sent E f body rest" using quic_wire.frame_sent [OF assms(1,2)] by blast
  have t: "0 < frame_type E f" "frame_type E f < 64" using quic_wire.frame_type_small [OF assms(1,2)] by auto
  from body show ?thesis
    using quic_wire.ParseType_padding [OF assms(1) t assms(3,4), of 0 k "body @ rest"]
    by (intro exI [of _ "of_nat (frame_type E f) # body"]) (auto simp: quic_wire.sent_def [OF assms(1)] ParseType_def)
qed

theorem frame_roundtrip_witness:
  "let E = rfc_env (\<lambda>t. t < 0x1f) (\<lambda>t. False) (\<lambda>t (lvl :: unit). True) (\<lambda>t b. None :: (wire_error + unit \<times> nat) option) 128 1452;
       f = Stream \<lparr>sf_StreamID = 1000, sf_Offset = 70, sf_Data = [1, 2, 3], sf_Fin = True, sf_DataLenPresent = True\<rparr>
   in \<exists>bs. frame_Append E f [9] = Some (Inr (9 # bs)) \<and> length bs = 9 \<and>
     ParseType E (NewFrameParser False False False) ([0, 0] @ bs @ [7]) () = Some (3, Inr 15) \<and>
     parse_frame E 15 (drop 3 ([0, 0] @ bs @ [7])) = Inr (f, 8)"
proof -
  let ?E = "rfc_env (\<lambda>t. t < 0x1f) (\<lambda>t. False) (\<lambda>t (lvl :: unit). True) (\<lambda>t b. None :: (wire_error + unit \<times> nat) option) 128 1452"
  let ?f = "Stream \<lparr>sf_StreamID = 1000, sf_Offset = 70, sf_Data = [1, 2, 3], sf_Fin = True, sf_DataLenPresent = True\<rparr>"
  have t: "frame_type ?E ?f = 15" by (simp add: stream_type_def)
  have l: "frame_Length ?E ?f = 9" by (simp add: StreamFrame_Length_def rfc_env_def rfc_enc_def DataLen_def)
  have ok: "frame_ok ?E [7] ?f" by (simp add: rfc_env_def DataLen_def)
  have v: "type_valid ?E (NewFrameParser False False False) (frame_type ?E ?f)" unfolding t by (simp add: type_valid_def rfc_env_def)
  have a: "w_isAllowedAtEncLevel ?E (frame_type ?E ?f) ()" by (simp add: rfc_env_def)
  from frame_roundtrip [OF rfc_wire.quic_wire_axioms ok v a, of "[9]" 2] show ?thesis
    unfolding t l Let_def by (auto simp: numeral_2_eq_2)
qed

text \<open>
  C24: splitting a STREAM frame.  For frames below 16384 bytes that fit the buffer, a frame that is not larger than the limit is left alone.  Otherwise, if even
  one byte does not fit, nothing is split off; else the part split off is not empty, starts at the offset of the frame, has no FIN, is not larger than the
  limit and the longest such part; the frame keeps the rest at the offset where the part ends, which is not empty, and its FIN.
\<close>

theorem stream_split:
  assumes "quic_wire E enc" and "DataLen f < 16384" and "DataLen f \<le> w_bufferCap E"
  shows "case MaybeSplitOffFrame E f maxSize of
      None \<Rightarrow> False
    | Some (f', None, required) \<Rightarrow> f' = f \<and> required = (maxSize < StreamFrame_Length E f) \<and>
        (required \<longrightarrow> list_all (\<lambda>m. maxSize < StreamFrame_Length E (f\<lparr>sf_Data := take m (sf_Data f), sf_Fin := False\<rparr>)) [1..<DataLen f + 1])
    | Some (f', Some g, required) \<Rightarrow> required \<and> maxSize < StreamFrame_Length E f \<and>
        sf_Data f = sf_Data g @ sf_Data f' \<and> sf_Data g \<noteq> [] \<and> sf_Data f' \<noteq> [] \<and>
        sf_StreamID g = sf_StreamID f \<and> sf_StreamID f' = sf_StreamID f \<and>
        sf_Offset g = sf_Offset f \<and> sf_Offset f' = sf_Offset f + DataLen g \<and> \<not> sf_Fin g \<and> sf_Fin f' = sf_Fin f \<and>
        StreamFrame_Length E g \<le> maxSize \<and>
        list_all (\<lambda>m. maxSize < StreamFrame_Length E (f\<lparr>sf_Data := take m (sf_Data f), sf_Fin := False\<rparr>)) [DataLen g + 1..<DataLen f + 1]"
proof (cases "maxSize < StreamFrame_Length E f")
  case False
  then show ?thesis by (simp add: MaybeSplitOffFrame_def)
next
  case True
  note split = quic_wire.split_law [OF assms True]
  note exact = quic_wire.MaxDataLen_exact [OF assms(1,2) True]
  note pf = quic_wire.prefix_frame_def [OF assms(1)]
  define n where "n = MaxDataLen E f maxSize"
  have fit: "StreamFrame_Length E (quic_wire.prefix_frame m f) \<le> maxSize \<longleftrightarrow> m \<le> n" if "0 < m" "m \<le> DataLen f" for m
    using exact(2) [OF that] by (simp add: n_def)
  show ?thesis
  proof (cases "n = 0")
    case zero: True
    have "maxSize < StreamFrame_Length E (f\<lparr>sf_Data := take m (sf_Data f), sf_Fin := False\<rparr>)" if "0 < m" "m \<le> DataLen f" for m
      using fit [OF that] zero that unfolding pf by simp
    then show ?thesis using zero split True by (auto simp: n_def Let_def list_all_iff)
  next
    case pos: False
    then have lt: "n < DataLen f" using exact(1) by (simp add: n_def)
    have "maxSize < StreamFrame_Length E (f\<lparr>sf_Data := take m (sf_Data f), sf_Fin := False\<rparr>)" if "n < m" "m \<le> DataLen f" for m
      using fit [of m] that unfolding pf by simp
    then have "list_all (\<lambda>m. maxSize < StreamFrame_Length E (f\<lparr>sf_Data := take m (sf_Data f), sf_Fin := False\<rparr>)) [n + 1..<DataLen f + 1]"
      by (auto simp: list_all_iff simp del: upt_Suc)
    moreover have "StreamFrame_Length E (f\<lparr>sf_Data := take n (sf_Data f), sf_Fin := False\<rparr>) \<le> maxSize" using fit [of n] pos lt unfolding pf by simp
    moreover have "sf_Data f \<noteq> []" using lt by (auto simp: DataLen_def)
    ultimately show ?thesis
      using pos lt split True unfolding pf by (simp add: n_def [symmetric] Let_def DataLen_def min_absorb2 del: upt_Suc)
  qed
qed

theorem stream_split_witness:
  "let E = rfc_env (\<lambda>t. True) (\<lambda>t. False) (\<lambda>t (lvl :: unit). True) (\<lambda>t b. None :: (wire_error + unit \<times> nat) option) 128 1452;
       f = \<lparr>sf_StreamID = 5, sf_Offset = 0, sf_Data = [1, 2, 3, 4, 5], sf_Fin = True, sf_DataLenPresent = True\<rparr>
   in \<exists>f' g. MaybeSplitOffFrame E f 6 = Some (f', Some g, True) \<and> sf_Data g @ sf_Data f' = [1, 2, 3, 4, 5] \<and> sf_Offset f' = DataLen g \<and>
     StreamFrame_Length E g \<le> 6"
proof -
  let ?E = "rfc_env (\<lambda>t. True) (\<lambda>t. False) (\<lambda>t (lvl :: unit). True) (\<lambda>t b. None :: (wire_error + unit \<times> nat) option) 128 1452"
  let ?f = "\<lparr>sf_StreamID = 5, sf_Offset = 0, sf_Data = [1, 2, 3, 4, 5], sf_Fin = True, sf_DataLenPresent = True\<rparr>"
  have n: "MaxDataLen ?E ?f 6 = 3" "StreamFrame_Length ?E ?f = 8" "w_bufferCap ?E = 1452"
    by (simp_all add: MaxDataLen_def StreamFrame_Length_def DataLen_def rfc_env_def rfc_enc_def)
  obtain f' g where s: "MaybeSplitOffFrame ?E ?f 6 = Some (f', Some g, True)" unfolding MaybeSplitOffFrame_def Let_def n by simp
  have small: "DataLen ?f < 16384" "DataLen ?f \<le> w_bufferCap ?E" by (simp_all add: DataLen_def rfc_env_def)
  from stream_split [OF rfc_wire.quic_wire_axioms small, of 6] s show ?thesis unfolding Let_def by auto
qed

text \<open>
  The limit of 16384 bytes is needed: the size of the length field is reckoned as one or two bytes, so that for longer frames the part split off can exceed
  the limit.
\<close>

lemma MaxDataLen_too_long:
  "let E = rfc_env (\<lambda>t. True) (\<lambda>t. False) (\<lambda>t (lvl :: unit). True) (\<lambda>t b. None :: (wire_error + unit \<times> nat) option) 128 30000;
       f = \<lparr>sf_StreamID = 5, sf_Offset = 0, sf_Data = replicate 20000 0, sf_Fin = True, sf_DataLenPresent = True\<rparr>;
       n = MaxDataLen E f 17000
   in n = 16996 \<and> StreamFrame_Length E (f\<lparr>sf_Data := take n (sf_Data f)\<rparr>) = 17002"
  by (simp add: MaxDataLen_def StreamFrame_Length_def DataLen_def rfc_env_def rfc_enc_def Let_def)

end
