(* ===== verification/Quic_Header.thy ===== *)
theory Quic_Header
  imports Quic_Frames
begin

text \<open>
  QUIC packet headers, \<^verbatim>\<open>quic-go/internal/wire/header.go\<close>: the version-independent part of long headers, and the functions that read a single field of a
  packet without parsing the header.  The property says that these shortcuts agree with the parser.  The version numbers and the test for
  supported versions (\<^verbatim>\<open>internal/protocol/version.go\<close>) are in the record \<open>header_env\<close>.  The part of the header behind the packet number is not in the
  repository.
\<close>

section \<open>Environment\<close>

record header_env =
  he_Version1 :: u32
  he_Version2 :: u32
  he_IsSupportedVersion :: "u32 \<Rightarrow> bool"

datatype PacketType = PacketTypeNone | PacketTypeInitial | PacketTypeRetry | PacketTypeHandshake | PacketType0RTT

datatype header_error =
    HdrEOF | HdrNotLong | HdrNotQUIC | HdrInvalidConnectionIDLen | HdrUnsupportedVersion | HdrVarint wire_error | HdrTooShort nat nat | HdrPacketNumberLen nat

text \<open>\<^verbatim>\<open>binary.BigEndian.Uint32\<close>.\<close>

definition Uint32 :: "bytes \<Rightarrow> u32" where
  "Uint32 b = of_nat (be_value (take 4 b))"

section \<open>Fields of a packet\<close>

definition IsPotentialQUICPacket :: "byte \<Rightarrow> bool" where
  "IsPotentialQUICPacket firstByte \<longleftrightarrow> firstByte AND 0x40 > 0"

definition IsLongHeaderPacket :: "byte \<Rightarrow> bool" where
  "IsLongHeaderPacket firstByte \<longleftrightarrow> firstByte AND 0x80 > 0"

text \<open>\<^verbatim>\<open>wire.ParseConnectionID\<close>; \<open>None\<close> is the panic for a configured length above 20.\<close>

definition wire_ParseConnectionID :: "('o, 'lvl) wire_env \<Rightarrow> bytes \<Rightarrow> nat \<Rightarrow> (header_error + ConnectionID) option" where
  "wire_ParseConnectionID E data shortHeaderConnIDLen =
     (if length data = 0 then Some (Inl HdrEOF)
      else if \<not> IsLongHeaderPacket (data ! 0) then
        (if length data < shortHeaderConnIDLen + 1 then Some (Inl HdrEOF)
         else map_option Inr (ParseConnectionID (take shortHeaderConnIDLen (drop 1 data))))
      else if length data < 6 then Some (Inl HdrEOF)
      else let destConnIDLen = unat (data ! 5)
        in if w_MaxConnIDLen E < destConnIDLen then Some (Inl HdrInvalidConnectionIDLen)
           else if length data < 6 + destConnIDLen then Some (Inl HdrEOF)
           else map_option Inr (ParseConnectionID (take destConnIDLen (drop 6 data))))"

definition ParseArbitraryLenConnectionIDs :: "bytes \<Rightarrow> header_error + nat \<times> bytes \<times> bytes" where
  "ParseArbitraryLenConnectionIDs data =
     (let startLen = length data
      in if length data < 6 then Inl HdrEOF
         else let data = drop 5 data; destConnIDLen = unat (data ! 0); data = drop 1 data
           in if length data < destConnIDLen + 1 then Inl HdrEOF
              else let destConnID = take destConnIDLen data; data = drop destConnIDLen data; srcConnIDLen = unat (data ! 0); data = drop 1 data
                in if length data < srcConnIDLen then Inl HdrEOF
                   else Inr (startLen - length data + srcConnIDLen, destConnID, take srcConnIDLen data))"

definition ParseVersion :: "bytes \<Rightarrow> header_error + u32" where
  "ParseVersion data = (if length data < 5 then Inl HdrEOF else Inr (Uint32 (drop 1 data)))"

definition IsVersionNegotiationPacket :: "bytes \<Rightarrow> bool" where
  "IsVersionNegotiationPacket b \<longleftrightarrow>
     5 \<le> length b \<and> IsLongHeaderPacket (b ! 0) \<and> b ! 1 = 0 \<and> b ! 2 = 0 \<and> b ! 3 = 0 \<and> b ! 4 = 0"

definition Is0RTTPacket :: "header_env \<Rightarrow> bytes \<Rightarrow> bool" where
  "Is0RTTPacket H b =
     (if length b < 5 then False
      else if \<not> IsLongHeaderPacket (b ! 0) then False
      else let v = Uint32 (drop 1 b)
        in if v = he_Version1 H then drop_bit 4 (b ! 0) AND 0b11 = 0b01
           else if v = he_Version2 H then drop_bit 4 (b ! 0) AND 0b11 = 0b10
           else False)"

section \<open>The header\<close>

record Header =
  hd_typeByte :: byte
  hd_Type :: PacketType
  hd_Version :: u32
  hd_SrcConnectionID :: ConnectionID
  hd_DestConnectionID :: ConnectionID
  hd_Length :: nat
  hd_Token :: bytes
  hd_parsedLen :: nat

definition Header_new :: "byte \<Rightarrow> Header" where
  "Header_new t = \<lparr>hd_typeByte = t, hd_Type = PacketTypeNone, hd_Version = 0, hd_SrcConnectionID = ConnectionID_zero,
     hd_DestConnectionID = ConnectionID_zero, hd_Length = 0, hd_Token = [], hd_parsedLen = 0\<rparr>"

text \<open>The packet type, which the versions number differently.\<close>

definition packet_type :: "header_env \<Rightarrow> u32 \<Rightarrow> byte \<Rightarrow> PacketType" where
  "packet_type H v typeByte =
     (let t = drop_bit 4 typeByte AND 0b11
      in if v = he_Version2 H
         then (if t = 0b00 then PacketTypeRetry else if t = 0b01 then PacketTypeInitial else if t = 0b10 then PacketType0RTT else PacketTypeHandshake)
         else (if t = 0b00 then PacketTypeInitial else if t = 0b01 then PacketType0RTT else if t = 0b10 then PacketTypeHandshake else PacketTypeRetry))"

text \<open>The last part of \<^verbatim>\<open>parseLongHeader\<close>: the length.\<close>

definition parse_length :: "('o, 'lvl) wire_env \<Rightarrow> nat \<Rightarrow> Header \<Rightarrow> bytes \<Rightarrow> Header \<times> nat \<times> header_error option" where
  "parse_length E startLen h b =
     (case vi_Parse E b of
        Inl err \<Rightarrow> (h, 0, Some (HdrVarint err))
      | Inr (pl, n) \<Rightarrow> (h\<lparr>hd_Length := pl\<rparr>, startLen - length b + n, None))"

text \<open>The part behind the connection IDs: the type, and the token of Retry and Initial packets.\<close>

definition parse_typed :: "('o, 'lvl) wire_env \<Rightarrow> header_env \<Rightarrow> nat \<Rightarrow> Header \<Rightarrow> bytes \<Rightarrow> Header \<times> nat \<times> header_error option" where
  "parse_typed E H startLen h b =
     (if hd_Version h = 0 then (h, startLen - length b, None)
      else if \<not> he_IsSupportedVersion H (hd_Version h) then (h, startLen - length b, Some HdrUnsupportedVersion)
      else let h = h\<lparr>hd_Type := packet_type H (hd_Version h) (hd_typeByte h)\<rparr>
        in if hd_Type h = PacketTypeRetry then
             (if length b \<le> 16 then (h, startLen - length b, Some HdrEOF)
              else let tokenLen = length b - 16
                in (h\<lparr>hd_Token := take tokenLen b\<rparr>, startLen - length b + tokenLen + 16, None))
           else if hd_Type h = PacketTypeInitial then
             (case vi_Parse E b of
                Inl err \<Rightarrow> (h, startLen - length b, Some (HdrVarint err))
              | Inr (tokenLen, n) \<Rightarrow>
                  (let b = drop n b
                   in if length b < tokenLen then (h, startLen - length b, Some HdrEOF)
                      else parse_length E startLen (h\<lparr>hd_Token := take tokenLen b\<rparr>) (drop tokenLen b)))
           else parse_length E startLen h b)"

text \<open>\<^verbatim>\<open>parseLongHeader\<close>: the header, the bytes parsed and the error.  \<open>None\<close> is a panic of
  \<^verbatim>\<open>protocol.ParseConnectionID\<close>.\<close>

definition parseLongHeader :: "('o, 'lvl) wire_env \<Rightarrow> header_env \<Rightarrow> Header \<Rightarrow> bytes \<Rightarrow> (Header \<times> nat \<times> header_error option) option" where
  "parseLongHeader E H h b =
     (let startLen = length b
      in if length b < 5 then Some (h, 0, Some HdrEOF)
         else let h = h\<lparr>hd_Version := Uint32 b\<rparr>
           in if hd_Version h \<noteq> 0 \<and> hd_typeByte h AND 0x40 = 0 then Some (h, startLen - length b, Some HdrNotQUIC)
              else let destConnIDLen = unat (b ! 4)
                in if w_MaxConnIDLen E < destConnIDLen then Some (h, startLen - length b, Some HdrInvalidConnectionIDLen)
                   else let b = drop 5 b
                     in if length b < destConnIDLen + 1 then Some (h, startLen - length b, Some HdrEOF)
                        else case ParseConnectionID (take destConnIDLen b) of
                          None \<Rightarrow> None
                        | Some dest \<Rightarrow>
                            (let h = h\<lparr>hd_DestConnectionID := dest\<rparr>; srcConnIDLen = unat (b ! destConnIDLen)
                             in if w_MaxConnIDLen E < srcConnIDLen then Some (h, startLen - length b, Some HdrInvalidConnectionIDLen)
                                else let b = drop (destConnIDLen + 1) b
                                  in if length b < srcConnIDLen then Some (h, startLen - length b, Some HdrEOF)
                                     else case ParseConnectionID (take srcConnIDLen b) of
                                       None \<Rightarrow> None
                                     | Some src \<Rightarrow>
                                         Some (parse_typed E H startLen (h\<lparr>hd_SrcConnectionID := src\<rparr>) (drop srcConnIDLen b))))"

definition parseHeader :: "('o, 'lvl) wire_env \<Rightarrow> header_env \<Rightarrow> bytes \<Rightarrow> (Header option \<times> header_error option) option" where
  "parseHeader E H b =
     (case b of
        [] \<Rightarrow> Some (None, Some HdrEOF)
      | typeByte # b \<Rightarrow>
          (case parseLongHeader E H (Header_new typeByte) b of
             None \<Rightarrow> None
           | Some (h, l, err) \<Rightarrow> Some (Some (h\<lparr>hd_parsedLen := l + 1\<rparr>), err)))"

text \<open>\<^verbatim>\<open>ParsePacket\<close>: the header, the packet and what follows it, or the error with the header of an unsupported version.\<close>

definition ParsePacket ::
  "('o, 'lvl) wire_env \<Rightarrow> header_env \<Rightarrow> bytes \<Rightarrow> ((header_error \<times> Header option) + Header \<times> bytes \<times> bytes) option" where
  "ParsePacket E H data =
     (if length data = 0 \<or> \<not> IsLongHeaderPacket (data ! 0) then Some (Inl (HdrNotLong, None))
      else case parseHeader E H data of
        None \<Rightarrow> None
      | Some (hdr, Some err) \<Rightarrow> Some (Inl (err, if err = HdrUnsupportedVersion then hdr else None))
      | Some (None, None) \<Rightarrow> None
      | Some (Some hdr, None) \<Rightarrow>
          (if length data < hd_parsedLen hdr + hd_Length hdr
           then Some (Inl (HdrTooShort (length data - hd_parsedLen hdr) (hd_Length hdr), None))
           else let packetLen = hd_parsedLen hdr + hd_Length hdr in Some (Inr (hdr, take packetLen data, drop packetLen data))))"

text \<open>\<^verbatim>\<open>readPacketNumber\<close>; an index beyond the data panics.\<close>

definition readPacketNumber :: "bytes \<Rightarrow> nat \<Rightarrow> (header_error + nat) option" where
  "readPacketNumber data pnLen =
     (if pnLen \<in> {1, 2, 3, 4} then (if length data < pnLen then None else Some (Inr (be_value (take pnLen data))))
      else Some (Inl (HdrPacketNumberLen pnLen)))"

section \<open>Facts\<close>

lemma be_value_zero: "be_value bs = 0 \<longleftrightarrow> (\<forall>b \<in> set bs. b = 0)"
proof -
  have "foldl (\<lambda>v b. v * 256 + unat b) n bs = 0 \<longleftrightarrow> n = 0 \<and> (\<forall>b \<in> set bs. b = 0)" for n
    by (induction bs arbitrary: n) (auto simp: unat_eq_0)
  then show ?thesis by (simp add: be_value_def)
qed

lemma be_value_bound: "be_value bs < 256 ^ length bs"
proof -
  have "foldl (\<lambda>v b. v * 256 + unat b) n bs < (n + 1) * 256 ^ length bs" for n
  proof (induction bs arbitrary: n)
    case (Cons b bs)
    have "Suc (unat b) \<le> 256" using unat_lt_pow8 [of b] by (rule Suc_leI)
    then have "n * 256 + unat b + 1 \<le> (n + 1) * 256" by (simp only: add_mult_distrib)
    then have "(n * 256 + unat b + 1) * 256 ^ length bs \<le> (n + 1) * 256 * 256 ^ length bs" by (rule mult_right_mono) simp
    with Cons [of "n * 256 + unat b"]
    have "foldl (\<lambda>v b. v * 256 + unat b) (n * 256 + unat b) bs < (n + 1) * 256 * 256 ^ length bs" by (rule less_le_trans)
    then show ?case by (simp only: foldl_Cons list.size power_Suc mult.assoc add_0_right add_Suc_right)
  qed simp
  from this [of 0] show ?thesis by (simp add: be_value_def)
qed

lemma Uint32_zero: "4 \<le> length b \<Longrightarrow> Uint32 b = 0 \<longleftrightarrow> b ! 0 = 0 \<and> b ! 1 = 0 \<and> b ! 2 = 0 \<and> b ! 3 = 0"
proof -
  assume l: "4 \<le> length b"
  have "be_value (take 4 b) < 2 ^ 32" using be_value_bound [of "take 4 b"] l by simp
  then have "unat (Uint32 b) = be_value (take 4 b)" unfolding Uint32_def unsigned_of_nat by (simp add: take_bit_nat_eq_self)
  then have "Uint32 b = 0 \<longleftrightarrow> be_value (take 4 b) = 0" by (metis unat_0 unsigned_0 word_unat_eq_iff)
  moreover have "take 4 b = [b ! 0, b ! 1, b ! 2, b ! 3]" using l by (intro nth_equalityI) (auto simp: less_Suc_eq numeral_eq_Suc)
  ultimately show ?thesis by (simp add: be_value_zero)
qed

lemma ParseConnectionID_inv:
  assumes "ParseConnectionID b = Some c"
  shows "ConnectionID_Bytes c = b" "conn_id_ok c" "ConnectionID_Len c = length b"
proof -
  have len: "length b \<le> 20" using assms by (auto simp: ParseConnectionID_def maxConnectionIDLen_def split: if_splits)
  then have u: "unat (of_nat (length b) :: byte) = length b" by (simp add: unsigned_of_nat take_bit_nat_eq_self)
  have "c = \<lparr>ci_b = b @ replicate (20 - length b) 0, ci_l = of_nat (length b)\<rparr>"
    using assms len u by (auto simp: ParseConnectionID_def Let_def maxConnectionIDLen_def splice_at_def min_def)
  then show "ConnectionID_Bytes c = b" "conn_id_ok c" "ConnectionID_Len c = length b"
    using len u by (simp_all add: ConnectionID_Bytes_def conn_id_ok_def ConnectionID_Len_def)
qed

lemma ParseConnectionID_short: "length b \<le> 20 \<Longrightarrow> \<exists>c. ParseConnectionID b = Some c"
  by (simp add: ParseConnectionID_def maxConnectionIDLen_def Let_def)

context quic_wire
begin

lemma parse_length_ok:
  assumes "parse_length E n h b = (h', l, None)" and "length b \<le> n"
  shows "l \<le> n \<and> (\<exists>pl. h' = h\<lparr>hd_Length := pl\<rparr>)"
  using assms Parse_range [of b] by (auto simp: parse_length_def split: sum.splits)

lemma parse_typed_ok:
  assumes "parse_typed E H n h b = (h', l, None)" and "length b \<le> n"
  shows "l \<le> n \<and> (\<exists>pl tok. h' = h\<lparr>hd_Type := (if hd_Version h = 0 then hd_Type h else packet_type H (hd_Version h) (hd_typeByte h)),
    hd_Length := pl, hd_Token := tok\<rparr>) \<and> (hd_Version h \<noteq> 0 \<longrightarrow> he_IsSupportedVersion H (hd_Version h))"
proof (cases "hd_Version h = 0")
  case True
  then have "h' = h" "l \<le> n" using assms by (auto simp: parse_typed_def)
  then show ?thesis using True by (cases h) auto
next
  case False
  let ?h = "h\<lparr>hd_Type := packet_type H (hd_Version h) (hd_typeByte h)\<rparr>"
  have sup: "he_IsSupportedVersion H (hd_Version h)" using assms False by (auto simp: parse_typed_def split: if_splits)
  consider (retry) "hd_Type ?h = PacketTypeRetry" | (initial) "hd_Type ?h = PacketTypeInitial"
    | (plain) "hd_Type ?h \<noteq> PacketTypeRetry" "hd_Type ?h \<noteq> PacketTypeInitial" by blast
  then have "l \<le> n \<and> (\<exists>pl tok. h' = ?h\<lparr>hd_Length := pl, hd_Token := tok\<rparr>)"
  proof cases
    case retry
    then have "l \<le> n" "\<exists>tok. h' = ?h\<lparr>hd_Token := tok\<rparr>" using assms False sup by (auto simp: parse_typed_def Let_def split: if_splits)
    moreover have "?h\<lparr>hd_Token := tok\<rparr> = ?h\<lparr>hd_Length := hd_Length h, hd_Token := tok\<rparr>" for tok by (cases h) simp
    ultimately show ?thesis by metis
  next
    case initial
    then obtain tl k where v: "vi_Parse E b = Inr (tl, k)"
      using assms(1) False sup by (auto simp: parse_typed_def Let_def split: sum.splits)
    then have "parse_length E n (?h\<lparr>hd_Token := take tl (drop k b)\<rparr>) (drop tl (drop k b)) = (h', l, None)"
      using assms(1) False sup initial by (auto simp: parse_typed_def Let_def split: if_splits)
    moreover have "length (drop tl (drop k b)) \<le> n" using assms(2) by simp
    ultimately obtain pl where "l \<le> n" "h' = ?h\<lparr>hd_Token := take tl (drop k b), hd_Length := pl\<rparr>"
      using parse_length_ok by blast
    moreover have "?h\<lparr>hd_Token := tok, hd_Length := pl\<rparr> = ?h\<lparr>hd_Length := pl, hd_Token := tok\<rparr>" for tok by simp
    ultimately show ?thesis by metis
  next
    case plain
    then have "parse_length E n ?h b = (h', l, None)" using assms(1) False sup by (auto simp: parse_typed_def Let_def)
    from parse_length_ok [OF this assms(2)] obtain pl where "l \<le> n" "h' = ?h\<lparr>hd_Length := pl\<rparr>" by auto
    moreover have "?h\<lparr>hd_Length := pl\<rparr> = ?h\<lparr>hd_Length := pl, hd_Token := hd_Token h\<rparr>" by (cases h) simp
    ultimately show ?thesis by metis
  qed
  then show ?thesis using False sup by auto
qed

lemma parseLongHeader_ok:
  assumes "parseLongHeader E H h b = Some (h', l, None)"
  shows "\<exists>dest src d s pl tok.
    5 \<le> length b \<and> d = unat (b ! 4) \<and> d \<le> 20 \<and> 5 + d + 1 \<le> length b \<and> s = unat (b ! (5 + d)) \<and> s \<le> 20 \<and> 5 + d + 1 + s \<le> length b \<and>
    ParseConnectionID (take d (drop 5 b)) = Some dest \<and> ParseConnectionID (take s (drop (5 + d + 1) b)) = Some src \<and> l \<le> length b \<and>
    h' = h\<lparr>hd_Version := Uint32 b, hd_DestConnectionID := dest, hd_SrcConnectionID := src,
      hd_Type := (if Uint32 b = 0 then hd_Type h else packet_type H (Uint32 b) (hd_typeByte h)), hd_Length := pl, hd_Token := tok\<rparr> \<and>
    (Uint32 b \<noteq> 0 \<longrightarrow> he_IsSupportedVersion H (Uint32 b))"
proof -
  define d s where "d = unat (b ! 4)" and "s = unat (b ! (5 + d))"
  have l5: "5 \<le> length b" using assms by (auto simp: parseLongHeader_def Let_def split: if_splits)
  have d: "d \<le> 20" "5 + d + 1 \<le> length b"
    using assms l5 by (auto simp: parseLongHeader_def Let_def d_def limits split: if_splits)
  obtain dest where dest: "ParseConnectionID (take d (drop 5 b)) = Some dest" using ParseConnectionID_short [of "take d (drop 5 b)"] d by auto
  have nth: "drop 5 b ! d = b ! (5 + d)" using l5 by simp
  have s: "s \<le> 20" "5 + d + 1 + s \<le> length b"
    using assms l5 d dest nth by (auto simp: parseLongHeader_def Let_def d_def [symmetric] s_def limits split: if_splits)
  obtain src where src: "ParseConnectionID (take s (drop (5 + d + 1) b)) = Some src"
    using ParseConnectionID_short [of "take s (drop (5 + d + 1) b)"] s by auto
  have s': "unat (b ! (d + 5)) = s" "drop s (drop (d + 6) b) = drop (d + (s + 6)) b" by (simp_all add: s_def ac_simps)
  let ?h = "h\<lparr>hd_Version := Uint32 b, hd_DestConnectionID := dest, hd_SrcConnectionID := src\<rparr>"
  have "parse_typed E H (length b) ?h (drop (5 + d + 1 + s) b) = (h', l, None)"
    using assms l5 d dest nth s src s'
    by (auto simp: parseLongHeader_def Let_def d_def [symmetric] limits add.commute add.left_commute split: if_splits)
  from parse_typed_ok [OF this] obtain pl tok where "l \<le> length b"
    "h' = ?h\<lparr>hd_Type := (if hd_Version ?h = 0 then hd_Type ?h else packet_type H (hd_Version ?h) (hd_typeByte ?h)), hd_Length := pl, hd_Token := tok\<rparr>"
    "hd_Version ?h \<noteq> 0 \<longrightarrow> he_IsSupportedVersion H (hd_Version ?h)"
    by auto
  then show ?thesis
    using l5 d dest s src d_def s_def
    by (intro exI [of _ dest] exI [of _ src] exI [of _ d] exI [of _ s] exI [of _ pl] exI [of _ tok] conjI) simp_all
qed

end

section \<open>Properties\<close>

definition versions_ok :: "header_env \<Rightarrow> bool" where
  "versions_ok H \<longleftrightarrow> he_Version1 H \<noteq> 0 \<and> he_Version2 H \<noteq> 0 \<and> he_Version1 H \<noteq> he_Version2 H \<and>
     (\<forall>v. he_IsSupportedVersion H v \<longrightarrow> v = he_Version1 H \<or> v = he_Version2 H)"

lemma type_0RTT:
  assumes "versions_ok H" and "he_IsSupportedVersion H v"
  shows "packet_type H v t = PacketType0RTT \<longleftrightarrow> (if v = he_Version1 H then drop_bit 4 t AND 0b11 = 0b01 else drop_bit 4 t AND 0b11 = 0b10)"
  using assms by (auto simp: packet_type_def versions_ok_def Let_def)

text \<open>
  C23: the shortcuts agree with the parser.  When \<^verbatim>\<open>ParsePacket\<close> accepts the bytes of a datagram, it cuts them into the packet, of the length that the header
  says, and what follows; and the functions that read one field of a packet return what the header holds: the connection IDs, in the form of
  QUIC version 1 and in the version-independent form, the version, whether the packet negotiates the version, and whether it is a 0-RTT
  packet.
\<close>

theorem header_shortcuts_agree:
  assumes "quic_wire E enc" and "versions_ok H" and "ParsePacket E H data = Some (Inr (hdr, packet, rest))"
  shows "data = packet @ rest \<and> length packet = hd_parsedLen hdr + hd_Length hdr \<and>
    wire_ParseConnectionID E data n = Some (Inr (hd_DestConnectionID hdr)) \<and>
    (\<exists>k. ParseArbitraryLenConnectionIDs data =
      Inr (k, ConnectionID_Bytes (hd_DestConnectionID hdr), ConnectionID_Bytes (hd_SrcConnectionID hdr))) \<and>
    ParseVersion data = Inr (hd_Version hdr) \<and> (IsVersionNegotiationPacket data \<longleftrightarrow> hd_Version hdr = 0) \<and>
    (Is0RTTPacket H data \<longleftrightarrow> hd_Type hdr = PacketType0RTT)"
proof -
  have long: "data \<noteq> []" "IsLongHeaderPacket (data ! 0)" using assms(3) by (auto simp: ParsePacket_def split: if_splits)
  then obtain t b where data: "data = t # b" by (cases data) auto
  from assms(3) long have ph: "parseHeader E H data = Some (Some hdr, None)" and len: "hd_parsedLen hdr + hd_Length hdr \<le> length data"
    and cut: "packet = take (hd_parsedLen hdr + hd_Length hdr) data" "rest = drop (hd_parsedLen hdr + hd_Length hdr) data"
    by (auto simp: ParsePacket_def Let_def split: if_splits option.splits prod.splits)
  from ph data obtain h l where plh: "parseLongHeader E H (Header_new t) b = Some (h, l, None)" and hdr: "hdr = h\<lparr>hd_parsedLen := l + 1\<rparr>"
    by (auto simp: parseHeader_def split: option.splits prod.splits)
  obtain dest src d s pl tok where b: "5 \<le> length b" "d = unat (b ! 4)" "d \<le> 20" "5 + d + 1 \<le> length b" "s = unat (b ! (5 + d))" "s \<le> 20"
      "5 + d + 1 + s \<le> length b"
    and ids: "ParseConnectionID (take d (drop 5 b)) = Some dest" "ParseConnectionID (take s (drop (5 + d + 1) b)) = Some src"
    and h: "h = (Header_new t)\<lparr>hd_Version := Uint32 b, hd_DestConnectionID := dest, hd_SrcConnectionID := src,
      hd_Type := (if Uint32 b = 0 then hd_Type (Header_new t) else packet_type H (Uint32 b) (hd_typeByte (Header_new t))), hd_Length := pl, hd_Token := tok\<rparr>"
    and sup: "Uint32 b \<noteq> 0 \<longrightarrow> he_IsSupportedVersion H (Uint32 b)"
    using quic_wire.parseLongHeader_ok [OF assms(1) plh] by blast
  have fields: "hd_Version hdr = Uint32 b" "hd_DestConnectionID hdr = dest" "hd_SrcConnectionID hdr = src"
    "hd_Type hdr = (if Uint32 b = 0 then PacketTypeNone else packet_type H (Uint32 b) t)"
    using hdr h by (simp_all add: Header_new_def)
  have longt: "IsLongHeaderPacket t" using long data by simp
  have "data = packet @ rest \<and> length packet = hd_parsedLen hdr + hd_Length hdr" using cut len by simp
  moreover have "wire_ParseConnectionID E data n = Some (Inr dest)"
    using longt b ids(1) quic_wire.limits(2) [OF assms(1)] by (simp add: wire_ParseConnectionID_def data Let_def)
  moreover have "\<exists>k. ParseArbitraryLenConnectionIDs data = Inr (k, ConnectionID_Bytes dest, ConnectionID_Bytes src)"
    using b ParseConnectionID_inv(1) [OF ids(1)] ParseConnectionID_inv(1) [OF ids(2)]
    by (auto simp: ParseArbitraryLenConnectionIDs_def data Let_def add.commute)
  moreover have "ParseVersion data = Inr (Uint32 b)" using b(1) by (simp add: ParseVersion_def data)
  moreover have "IsVersionNegotiationPacket data \<longleftrightarrow> Uint32 b = 0"
    using b(1) longt Uint32_zero [of b] by (auto simp: IsVersionNegotiationPacket_def data numeral_eq_Suc)
  moreover have "Is0RTTPacket H data \<longleftrightarrow> hd_Type hdr = PacketType0RTT"
  proof (cases "Uint32 b = 0")
    case True
    then show ?thesis using assms(2) b(1) longt fields(4) by (auto simp: Is0RTTPacket_def data Let_def versions_ok_def)
  next
    case False
    then have v: "he_IsSupportedVersion H (Uint32 b)" using sup by simp
    have "Uint32 b = he_Version1 H \<or> Uint32 b = he_Version2 H" using v assms(2) by (simp add: versions_ok_def)
    then show ?thesis
      using False b(1) longt type_0RTT [OF assms(2) v, of t] fields(4) assms(2) by (auto simp: Is0RTTPacket_def data Let_def versions_ok_def)
  qed
  ultimately show ?thesis using fields by simp
qed

theorem header_shortcuts_agree_witness:
  "let E = rfc_env (\<lambda>t. True) (\<lambda>t. False) (\<lambda>t (lvl :: unit). True) (\<lambda>t b. None :: (wire_error + unit \<times> nat) option) 128 1452;
       H = \<lparr>he_Version1 = 1, he_Version2 = 0x6b3343cf, he_IsSupportedVersion = (\<lambda>v. v = 1 \<or> v = 0x6b3343cf)\<rparr>;
       data = [0xd0, 0, 0, 0, 1, 2, 7, 8, 0, 3, 1, 2, 3, 99]
   in \<exists>hdr. ParsePacket E H data = Some (Inr (hdr, take 13 data, [99])) \<and> hd_Type hdr = PacketType0RTT \<and> Is0RTTPacket H data \<and>
     wire_ParseConnectionID E data 0 = Some (Inr (hd_DestConnectionID hdr))"
proof -
  let ?E = "rfc_env (\<lambda>t. True) (\<lambda>t. False) (\<lambda>t (lvl :: unit). True) (\<lambda>t b. None :: (wire_error + unit \<times> nat) option) 128 1452"
  let ?H = "\<lparr>he_Version1 = 1, he_Version2 = 0x6b3343cf, he_IsSupportedVersion = (\<lambda>v. v = 1 \<or> v = 0x6b3343cf)\<rparr> :: header_env"
  let ?data = "[0xd0, 0, 0, 0, 1, 2, 7, 8, 0, 3, 1, 2, 3, 99] :: bytes"
  have v: "versions_ok ?H" by (simp add: versions_ok_def)
  let ?hdr = "\<lparr>hd_typeByte = 0xd0, hd_Type = PacketType0RTT, hd_Version = 1, hd_SrcConnectionID = \<lparr>ci_b = replicate 20 0, ci_l = 0\<rparr>,
    hd_DestConnectionID = \<lparr>ci_b = [7, 8] @ replicate 18 0, ci_l = 2\<rparr>, hd_Length = 3, hd_Token = [], hd_parsedLen = 10\<rparr>"
  have vp: "vi_Parse ?E [3, 1, 2, 3, 99] = Inr (3, 1)" "w_MaxConnIDLen ?E = 20"
    by (simp_all add: rfc_env_def rfc_parse_def be_value_def)
  have ids: "ParseConnectionID [7, 8] = Some \<lparr>ci_b = [7, 8] @ replicate 18 0, ci_l = 2\<rparr>"
    "ParseConnectionID [] = Some \<lparr>ci_b = replicate 20 0, ci_l = 0\<rparr>" by code_simp+
  have u: "Uint32 (drop 1 ?data) = 1" "packet_type ?H 1 0xd0 = PacketType0RTT" "IsLongHeaderPacket (?data ! 0)"
    by (simp_all add: Uint32_def be_value_def packet_type_def IsLongHeaderPacket_def)
  have "parse_typed ?E ?H (length (drop 1 ?data)) (?hdr\<lparr>hd_Type := PacketTypeNone, hd_Length := 0, hd_parsedLen := 0\<rparr>) [3, 1, 2, 3, 99] =
      (?hdr\<lparr>hd_parsedLen := 0\<rparr>, 9, None)"
    using vp u by (simp add: parse_typed_def parse_length_def)
  then have "parseLongHeader ?E ?H (Header_new 0xd0) (drop 1 ?data) = Some (?hdr\<lparr>hd_parsedLen := 0\<rparr>, 9, None)"
    using vp(2) ids u by (simp add: parseLongHeader_def Let_def Header_new_def ConnectionID_zero_def)
  then have p: "ParsePacket ?E ?H ?data = Some (Inr (?hdr, take 13 ?data, [99]))" "hd_Type ?hdr = PacketType0RTT"
    using u(3) by (simp_all add: ParsePacket_def parseHeader_def)
  from header_shortcuts_agree [OF rfc_wire.quic_wire_axioms v p(1), of 0] p show ?thesis unfolding Let_def by blast
qed

end
