(* ===== verification/Quic_Mtu.thy ===== *)
theory Quic_Mtu
  imports Prelude
begin

text \<open>
  The discovery of the path MTU, \<^verbatim>\<open>quic-go/mtu_discoverer.go\<close>: a binary search by probe packets, of which some may be lost for other reasons than their size.
  \<^verbatim>\<open>protocol.InvalidByteCount\<close>, a constant of a file that is not in the repository, is the parameter \<open>nv\<close>; of it the theorems assume only that it is not a size
  from the start to the maximum, whether it is negative or above the maximum.  The smoothed round trip time is an argument.  Sizes and
  times are \<open>int\<close>; sizes are not negative, so that the division rounds down.  A panic is \<open>None\<close>.  The log is left out.
\<close>

section \<open>The code\<close>

definition maxMTUDiff :: int where
  "maxMTUDiff = 20"

definition mtuProbeDelay :: int where
  "mtuProbeDelay = 5"

definition maxLostMTUProbes :: nat where
  "maxLostMTUProbes = 3"

record mtuFinder =
  mf_lastProbeTime :: int
  mf_inFlight :: int
  mf_min :: int
  mf_lost :: "int list"
  mf_lastProbeWasLost :: bool
  mf_generation :: "8 word"

definition mtu_init :: "int \<Rightarrow> int \<Rightarrow> int \<Rightarrow> mtuFinder \<Rightarrow> mtuFinder" where
  "mtu_init nv start maxSize f = f\<lparr>mf_min := start, mf_lost := map (\<lambda>i. if i = 0 then maxSize else nv) [0..<maxLostMTUProbes]\<rparr>"

definition newMTUDiscoverer :: "int \<Rightarrow> int \<Rightarrow> int \<Rightarrow> mtuFinder" where
  "newMTUDiscoverer nv start maxSize =
     mtu_init nv start maxSize
       \<lparr>mf_lastProbeTime = 0, mf_inFlight = nv, mf_min = 0, mf_lost = replicate maxLostMTUProbes 0, mf_lastProbeWasLost = False, mf_generation = 0\<rparr>"

text \<open>\<^verbatim>\<open>max\<close>: the value before the first that is invalid; \<open>prev\<close> is \<^verbatim>\<open>lost[i-1]\<close>.\<close>

primrec max_loop :: "int \<Rightarrow> int option \<Rightarrow> int list \<Rightarrow> int option" where
  "max_loop nv prev [] = prev"
| "max_loop nv prev (v # vs) = (if v = nv then prev else max_loop nv (Some v) vs)"

definition mtu_max :: "int \<Rightarrow> mtuFinder \<Rightarrow> int option" where
  "mtu_max nv f = max_loop nv None (mf_lost f)"

definition mtu_done :: "int \<Rightarrow> mtuFinder \<Rightarrow> bool option" where
  "mtu_done nv f = map_option (\<lambda>m. m - mf_min f \<le> maxMTUDiff + 1) (mtu_max nv f)"

definition mtu_Start :: "int \<Rightarrow> mtuFinder \<Rightarrow> mtuFinder" where
  "mtu_Start now f = f\<lparr>mf_lastProbeTime := now\<rparr>"

definition ShouldSendProbe :: "int \<Rightarrow> int \<Rightarrow> int \<Rightarrow> mtuFinder \<Rightarrow> bool option" where
  "ShouldSendProbe nv smoothedRTT now f =
     (if mf_lastProbeTime f = 0 then Some False
      else if mf_inFlight f \<noteq> nv then Some False
      else map_option (\<lambda>d. \<not> d \<and> \<not> now < mf_lastProbeTime f + mtuProbeDelay * smoothedRTT) (mtu_done nv f))"

text \<open>\<^verbatim>\<open>GetPing\<close> returns the size of the probe and the generation that its handler keeps.\<close>

definition GetPing :: "int \<Rightarrow> int \<Rightarrow> mtuFinder \<Rightarrow> (mtuFinder \<times> 8 word \<times> int) option" where
  "GetPing nv now f =
     (let upper = (if mf_lastProbeWasLost f then Some (mf_lost f ! 0) else mtu_max nv f)
      in map_option (\<lambda>m. let sz = (mf_min f + m) div 2 in (f\<lparr>mf_lastProbeTime := now, mf_inFlight := sz\<rparr>, mf_generation f, sz)) upper)"

definition CurrentSize :: "mtuFinder \<Rightarrow> int" where
  "CurrentSize f = mf_min f"

definition mtu_Reset :: "int \<Rightarrow> int \<Rightarrow> int \<Rightarrow> int \<Rightarrow> mtuFinder \<Rightarrow> mtuFinder" where
  "mtu_Reset nv now start maxSize f =
     mtu_init nv start maxSize (f\<lparr>mf_generation := mf_generation f + 1, mf_lastProbeTime := now, mf_lastProbeWasLost := False, mf_inFlight := nv\<rparr>)"

text \<open>The first value above the size; without one the index stays 0.\<close>

definition first_above :: "int \<Rightarrow> int list \<Rightarrow> nat option" where
  "first_above sz lost = (let i = length (takeWhile (\<lambda>v. \<not> sz < v) lost) in if i < length lost then Some i else None)"

definition OnAcked :: "int \<Rightarrow> 8 word \<Rightarrow> mtuFinder \<Rightarrow> mtuFinder option" where
  "OnAcked nv generation f =
     (if generation \<noteq> mf_generation f then Some f
      else let sz = mf_inFlight f
        in if sz = nv then None
           else let j = (case first_above sz (mf_lost f) of None \<Rightarrow> 0 | Some i \<Rightarrow> i)
             in Some (f\<lparr>mf_inFlight := nv, mf_min := sz, mf_lastProbeWasLost := False,
                  mf_lost := (if 0 < j then map (\<lambda>i. if i + j < length (mf_lost f) then mf_lost f ! (i + j) else nv) [0..<length (mf_lost f)] else mf_lost f)\<rparr>))"

definition OnLost :: "int \<Rightarrow> 8 word \<Rightarrow> mtuFinder \<Rightarrow> mtuFinder option" where
  "OnLost nv generation f =
     (if generation \<noteq> mf_generation f then Some f
      else let sz = mf_inFlight f
        in if sz = nv then None
           else Some (f\<lparr>mf_lastProbeWasLost := True, mf_inFlight := nv,
                  mf_lost := (case first_above sz (mf_lost f) of
                                None \<Rightarrow> mf_lost f
                              | Some i \<Rightarrow> take (length (mf_lost f)) (take i (mf_lost f) @ sz # drop i (mf_lost f)))\<rparr>))"

section \<open>The search\<close>

text \<open>A probe is sent and acknowledged or lost.\<close>

definition probe_round :: "int \<Rightarrow> int \<Rightarrow> bool \<Rightarrow> mtuFinder \<Rightarrow> mtuFinder option" where
  "probe_round nv now acked f =
     (case GetPing nv now f of None \<Rightarrow> None | Some (f, g, s) \<Rightarrow> if acked then OnAcked nv g f else OnLost nv g f)"

text \<open>The size of the probe, and the values of \<^verbatim>\<open>lost\<close> that are valid.\<close>

definition probe_size :: "mtuFinder \<Rightarrow> int list \<Rightarrow> int" where
  "probe_size f vs = (mf_min f + (if mf_lastProbeWasLost f then hd vs else last vs)) div 2"

definition mtu_ok :: "int \<Rightarrow> mtuFinder \<Rightarrow> int list \<Rightarrow> bool" where
  "mtu_ok nv f vs \<longleftrightarrow>
     mf_lost f = vs @ replicate (maxLostMTUProbes - length vs) nv \<and> vs \<noteq> [] \<and> length vs \<le> maxLostMTUProbes \<and> sorted vs \<and> 0 \<le> mf_min f \<and> mf_inFlight f = nv \<and>
     (\<forall>v \<in> set vs. mf_min f \<le> v) \<and> (nv < mf_min f \<or> (\<forall>v \<in> set vs. v < nv))"

lemma max_loop_valid: "vs \<noteq> [] \<Longrightarrow> \<forall>v \<in> set vs. v \<noteq> nv \<Longrightarrow> max_loop nv p (vs @ replicate k nv) = Some (last vs)"
proof (induction vs arbitrary: p)
  case (Cons v vs)
  have "max_loop nv (Some v) (replicate k nv) = Some v"
    by (cases k) simp_all
  then show ?case
    using Cons by (cases "vs = []") auto
qed simp

lemma mtu_ok_length: "mtu_ok nv f vs \<Longrightarrow> vs \<noteq> [] \<and> length vs \<le> 3"
  by (simp add: mtu_ok_def maxLostMTUProbes_def)

lemma mtu_ok_valid: "mtu_ok nv f vs \<Longrightarrow> \<forall>v \<in> set vs. v \<noteq> nv"
  by (fastforce simp: mtu_ok_def)

lemma mtu_max_ok:
  assumes "mtu_ok nv f vs"
  shows "mtu_max nv f = Some (last vs)"
  using max_loop_valid [OF _ mtu_ok_valid [OF assms]] assms by (simp add: mtu_max_def mtu_ok_def)

lemma mtu_done_ok: "mtu_ok nv f vs \<Longrightarrow> mtu_done nv f = Some (last vs - mf_min f \<le> maxMTUDiff + 1)"
  by (simp add: mtu_done_def mtu_max_ok)

lemma GetPing_ok:
  assumes "mtu_ok nv f vs"
  shows "GetPing nv now f = Some (f\<lparr>mf_lastProbeTime := now, mf_inFlight := probe_size f vs\<rparr>, mf_generation f, probe_size f vs)"
proof -
  have "mf_lost f ! 0 = hd vs"
    using assms by (auto simp: mtu_ok_def hd_conv_nth nth_append)
  then show ?thesis
    using mtu_max_ok [OF assms] by (simp add: GetPing_def probe_size_def Let_def)
qed

text \<open>While the search goes on, a probe is not smaller than the current size and smaller than the maximum; after an acknowledgement it is larger.\<close>

lemma probe_between:
  assumes ok: "mtu_ok nv f vs" and going: "mtu_done nv f = Some False"
  shows "mf_min f \<le> probe_size f vs" "probe_size f vs < last vs" "probe_size f vs \<noteq> nv" "\<not> mf_lastProbeWasLost f \<Longrightarrow> mf_min f < probe_size f vs"
proof -
  have gap: "mf_min f + 21 < last vs" and vs: "vs \<noteq> []" "mf_min f \<le> hd vs" "nv < mf_min f \<or> last vs < nv"
    using ok going mtu_done_ok [OF ok] by (auto simp: maxMTUDiff_def mtu_ok_def)
  have "hd vs \<le> last vs"
    using ok vs(1) by (cases vs) (auto simp: mtu_ok_def)
  then show "mf_min f \<le> probe_size f vs" "probe_size f vs < last vs" "probe_size f vs \<noteq> nv" "\<not> mf_lastProbeWasLost f \<Longrightarrow> mf_min f < probe_size f vs"
    using gap vs by (auto simp: probe_size_def)
qed

lemma first_above_ok:
  assumes "mtu_ok nv f vs" and "sz < last vs"
  shows "first_above sz (mf_lost f) = Some (length (takeWhile (\<lambda>v. v \<le> sz) vs))" "length (takeWhile (\<lambda>v. v \<le> sz) vs) < length vs"
proof -
  have "last vs \<in> set vs" "\<not> last vs \<le> sz"
    using assms by (auto simp: mtu_ok_def)
  then have tw: "takeWhile (\<lambda>v. v \<le> sz) (vs @ ws) = takeWhile (\<lambda>v. v \<le> sz) vs" for ws
    by (intro takeWhile_append1)
  show less: "length (takeWhile (\<lambda>v. v \<le> sz) vs) < length vs"
    using \<open>last vs \<in> set vs\<close> \<open>\<not> last vs \<le> sz\<close> length_takeWhile_le [of "\<lambda>v. v \<le> sz" vs] takeWhile_eq_all_conv [of "\<lambda>v. v \<le> sz" vs]
    by (metis le_neq_implies_less takeWhile_eq_take take_all order_refl)
  then show "first_above sz (mf_lost f) = Some (length (takeWhile (\<lambda>v. v \<le> sz) vs))"
    using assms(1) by (simp add: first_above_def mtu_ok_def tw not_less Let_def)
qed

lemma dropWhile_above: "sorted (vs :: int list) \<Longrightarrow> v \<in> set (dropWhile (\<lambda>v. v \<le> s) vs) \<Longrightarrow> s < v"
  by (induction vs) (auto split: if_splits)

lemma sorted_le_last: "sorted (vs :: int list) \<Longrightarrow> v \<in> set vs \<Longrightarrow> v \<le> last vs"
  by (cases vs rule: rev_cases) (auto simp: sorted_append)

lemma mtu_split:
  assumes ok: "mtu_ok nv f vs" and s: "s < last vs" and a: "a = takeWhile (\<lambda>v. v \<le> s) vs" and d: "d = dropWhile (\<lambda>v. v \<le> s) vs"
  shows "vs = a @ d" "\<forall>v \<in> set d. s < v" "\<forall>v \<in> set a. v \<le> s" "d \<noteq> []" "last d = last vs" "first_above s (mf_lost f) = Some (length a)"
    "mf_lost f = (a @ d) @ replicate (3 - length (a @ d)) nv" "length (a @ d) \<le> 3"
proof -
  show vs: "vs = a @ d"
    by (simp add: a d)
  show "\<forall>v \<in> set d. s < v"
    using ok dropWhile_above [of vs _ s] by (auto simp: mtu_ok_def d)
  show "\<forall>v \<in> set a. v \<le> s"
    by (auto simp: a dest: set_takeWhileD)
  show "first_above s (mf_lost f) = Some (length a)"
    using first_above_ok [OF ok s] by (simp add: a)
  show "mf_lost f = (a @ d) @ replicate (3 - length (a @ d)) nv" "length (a @ d) \<le> 3"
    using ok by (simp_all add: vs [symmetric] mtu_ok_def maxLostMTUProbes_def)
  have "length a < length vs"
    using first_above_ok [OF ok s] by (simp add: a)
  then show "d \<noteq> []" "last d = last vs"
    using vs by auto
qed

lemma acked_round:
  assumes ok: "mtu_ok nv f vs" and going: "mtu_done nv f = Some False" and s: "s = probe_size f vs" and d: "d = dropWhile (\<lambda>v. v \<le> s) vs"
  obtains f' where "probe_round nv now True f = Some f'" "mf_min f' = s" "\<not> mf_lastProbeWasLost f'" "mtu_ok nv f' d" "last d = last vs"
proof -
  define a where "a = takeWhile (\<lambda>v. v \<le> s) vs"
  note between = probe_between [OF ok going, folded s]
  note split = mtu_split [OF ok between(2) a_def d]
  define lost' where "lost' = (if 0 < length a then map (\<lambda>i. if i + length a < length (mf_lost f) then mf_lost f ! (i + length a) else nv) [0..<length (mf_lost f)] else mf_lost f)"
  have lost': "lost' = d @ replicate (3 - length d) nv"
  proof (rule nth_equalityI)
    show "length lost' = length (d @ replicate (3 - length d) nv)"
      using split(7,8) by (simp add: lost'_def)
    show "lost' ! i = (d @ replicate (3 - length d) nv) ! i" if "i < length lost'" for i
      using that split(7,8) by (auto simp: lost'_def nth_append)
  qed
  define f' where "f' = f\<lparr>mf_lastProbeTime := now, mf_inFlight := nv, mf_min := s, mf_lastProbeWasLost := False, mf_lost := lost'\<rparr>"
  have "sorted d" "0 \<le> s" "nv < s \<or> (\<forall>v \<in> set d. v < nv)"
    using ok split(1) between(1) by (auto simp: mtu_ok_def sorted_append)
  then have "mtu_ok nv f' d"
    using lost' split by (auto simp: mtu_ok_def f'_def maxLostMTUProbes_def less_imp_le)
  moreover have "probe_round nv now True f = Some f'"
    using between(3) split(6) by (simp add: probe_round_def GetPing_ok [OF ok] OnAcked_def f'_def lost'_def s [symmetric] Let_def)
  ultimately show ?thesis
    using that [of f'] split(5) by (simp add: f'_def)
qed

lemma lost_round:
  assumes ok: "mtu_ok nv f vs" and going: "mtu_done nv f = Some False" and s: "s = probe_size f vs"
    and a: "a = takeWhile (\<lambda>v. v \<le> s) vs" and d: "d = dropWhile (\<lambda>v. v \<le> s) vs"
  obtains f' where "probe_round nv now False f = Some f'" "mf_min f' = mf_min f" "mf_lastProbeWasLost f'" "mtu_ok nv f' (take 3 (a @ s # d))"
proof -
  note between = probe_between [OF ok going, folded s]
  note split = mtu_split [OF ok between(2) a d]
  define f' where "f' = f\<lparr>mf_lastProbeTime := now, mf_inFlight := nv, mf_lastProbeWasLost := True,
    mf_lost := take 3 (take (length a) (mf_lost f) @ s # drop (length a) (mf_lost f))\<rparr>"
  define w where "w = take 3 (a @ s # d)"
  have "mf_lost f' = w @ replicate (3 - length w) nv" "w \<noteq> []" "length w \<le> 3"
    using split(8) by (auto simp: f'_def split(7) take_Cons' min_def w_def)
  moreover have "sorted (a @ s # d)" "\<forall>v \<in> set (a @ s # d). mf_min f \<le> v" "nv < mf_min f \<or> (\<forall>v \<in> set (a @ s # d). v < nv)"
    using ok split(1-3) between last_in_set [OF split(4)] by (auto simp: mtu_ok_def sorted_append less_imp_le intro: order_less_trans)
  then have "sorted w" "\<forall>v \<in> set w. mf_min f \<le> v" "nv < mf_min f \<or> (\<forall>v \<in> set w. v < nv)"
    unfolding w_def by (blast intro: sorted_wrt_take dest: in_set_takeD)+
  moreover have "mf_min f' = mf_min f" "mf_inFlight f' = nv" "0 \<le> mf_min f"
    using ok by (simp_all add: f'_def mtu_ok_def)
  ultimately have "mtu_ok nv f' w"
    unfolding mtu_ok_def maxLostMTUProbes_def by simp
  moreover have "probe_round nv now False f = Some f'"
    using between(3) split(6-8) by (simp add: probe_round_def GetPing_ok [OF ok] OnLost_def f'_def s [symmetric] Let_def)
  ultimately show ?thesis
    using that [of f'] by (simp add: f'_def w_def)
qed

section \<open>The search ends\<close>

text \<open>How far the search has to go: the interval, the lost values inside it, and the losses of probes of the current size.\<close>

definition mtu_measure :: "mtuFinder \<Rightarrow> int list \<Rightarrow> nat" where
  "mtu_measure f vs =
     (nat (last vs - mf_min f) * 4 + (3 - length (filter (\<lambda>v. mf_min f < v \<and> v < last vs) vs))) * 5 +
     (if mf_lastProbeWasLost f then 4 - length (filter (\<lambda>v. v \<le> mf_min f) vs) else 0)"

text \<open>A step makes the interval smaller, or keeps it and has more lost values inside, or keeps both and has fewer probes of the current size before it.\<close>

lemma measure_less:
  fixes D D' c c' p p' :: nat
  assumes "D' < D \<or> D' = D \<and> (c < c' \<or> c' = c \<and> p' < p)" and "c' \<le> 2" "p' \<le> 4"
  shows "(D' * 4 + (3 - c')) * 5 + p' < (D * 4 + (3 - c)) * 5 + p"
  using assms by auto

lemma filter_inside: "vs \<noteq> [] \<Longrightarrow> length vs \<le> 3 \<Longrightarrow> length (filter (\<lambda>v :: int. m < v \<and> v < last vs) vs) \<le> 2"
  by (cases vs rule: rev_cases) (auto intro: order_trans [OF length_filter_le])

lemma acked_measure:
  assumes ok: "mtu_ok nv f vs" and going: "mtu_done nv f = Some False" and s: "s = probe_size f vs" and d: "d = dropWhile (\<lambda>v. v \<le> s) vs"
    and f': "mf_min f' = s" "\<not> mf_lastProbeWasLost f'" "mtu_ok nv f' d" "last d = last vs"
  shows "mtu_measure f' d < mtu_measure f vs"
proof -
  note between = probe_between [OF ok going, folded s]
  define a where "a = takeWhile (\<lambda>v. v \<le> s) vs"
  note split = mtu_split [OF ok between(2) a_def d]
  have inside: "length (filter (\<lambda>v. s < v \<and> v < last vs) d) \<le> 2"
    using f'(3,4) filter_inside [of d s] by (simp add: mtu_ok_def maxLostMTUProbes_def)
  show ?thesis
  proof (cases "mf_min f < s")
    case True
    then have "nat (last d - mf_min f') < nat (last vs - mf_min f)"
      using between f' by simp
    then show ?thesis
      unfolding mtu_measure_def using inside f' by (intro measure_less) auto
  next
    case False
    then have m: "mf_min f = s" and l: "mf_lastProbeWasLost f"
      using between by auto
    have "filter (\<lambda>v. s < v \<and> v < last vs) vs = filter (\<lambda>v. s < v \<and> v < last vs) d"
      using split(1,3) by (subst split(1)) (auto simp: filter_empty_conv)
    moreover have "length (filter (\<lambda>v. v \<le> s) vs) \<le> 3"
      using mtu_ok_length [OF ok] length_filter_le [of "\<lambda>v. v \<le> s" vs] by linarith
    ultimately show ?thesis
      unfolding mtu_measure_def using inside f' m l by (intro measure_less) auto
  qed
qed

lemma lost_measure:
  assumes ok: "mtu_ok nv f vs" and going: "mtu_done nv f = Some False" and s: "s = probe_size f vs"
    and a: "a = takeWhile (\<lambda>v. v \<le> s) vs" and d: "d = dropWhile (\<lambda>v. v \<le> s) vs"
    and f': "mf_min f' = mf_min f" "mf_lastProbeWasLost f'" "mtu_ok nv f' (take 3 (a @ s # d))"
  shows "mtu_measure f' (take 3 (a @ s # d)) < mtu_measure f vs"
proof -
  note between = probe_between [OF ok going, folded s]
  note split = mtu_split [OF ok between(2) a d]
  define x w where "x = a @ s # d" and "w = take 3 x"
  have w: "w = (if length x = 4 then butlast x else x)" "w \<noteq> []" "length w \<le> 3"
    using split(8) by (auto simp: w_def x_def butlast_conv_take)
  have x: "x \<noteq> []" "last x = last vs" "\<forall>v \<in> set x. v \<le> last vs"
    using split(1-5) ok less_imp_le [OF between(2)] last_in_set [OF split(4)] by (auto simp: x_def mtu_ok_def sorted_append dest: sorted_le_last)
  have count: "length (filter P w) = length (filter P vs) + (if P s then 1 else 0)" if "\<not> P (last vs)" for P
  proof -
    have "filter P w = filter P x"
      using w(1) x(1,2) that append_butlast_last_id [of x] filter_append [of P "butlast x" "[last x]"] by auto
    then show ?thesis
      by (simp add: x_def split(1))
  qed
  have inside: "length (filter (\<lambda>v. mf_min f < v \<and> v < last w) w) \<le> 2"
    by (intro filter_inside w)
  have e: "length (filter (\<lambda>v. v \<le> mf_min f) vs) \<le> 3"
    using mtu_ok_length [OF ok] length_filter_le [of "\<lambda>v. v \<le> mf_min f" vs] by linarith
  have "last w \<in> set w" "last w \<in> set x"
    using last_in_set [OF w(2)] w(1) by (auto dest: in_set_butlastD split: if_splits)
  then have "last w \<le> last vs" "mf_min f \<le> last w"
    using x(3) f'(1,3) by (auto simp: mtu_ok_def w_def [symmetric] x_def [symmetric])
  then consider "last w < last vs" | "last w = last vs" "mf_min f < s" | "last w = last vs" "s = mf_min f" "mf_lastProbeWasLost f"
    using between by linarith
  then have "mtu_measure f' w < mtu_measure f vs"
  proof cases
    case 1
    then show ?thesis
      unfolding mtu_measure_def using inside f' \<open>mf_min f \<le> last w\<close> by (intro measure_less) auto
  next
    case 2
    then show ?thesis
      unfolding mtu_measure_def using inside f' count [of "\<lambda>v. mf_min f < v \<and> v < last vs"] between by (intro measure_less) auto
  next
    case 3
    then show ?thesis
      unfolding mtu_measure_def using inside f' e count [of "\<lambda>v. mf_min f < v \<and> v < last vs"] count [of "\<lambda>v. v \<le> mf_min f"] between
      by (intro measure_less) auto
  qed
  then show ?thesis
    by (simp add: w_def x_def)
qed

text \<open>Probes are sent, with the times and outcomes given, until the search is done.\<close>

fun mtu_run :: "int \<Rightarrow> (int \<times> bool) list \<Rightarrow> mtuFinder \<Rightarrow> mtuFinder option" where
  "mtu_run nv [] f = Some f"
| "mtu_run nv ((now, acked) # os) f =
     (case mtu_done nv f of
        None \<Rightarrow> None
      | Some True \<Rightarrow> Some f
      | Some False \<Rightarrow> (case probe_round nv now acked f of None \<Rightarrow> None | Some f' \<Rightarrow> mtu_run nv os f'))"

lemma mtu_new_ok: "0 \<le> start \<Longrightarrow> start \<le> m \<Longrightarrow> nv \<notin> {start..m} \<Longrightarrow> mtu_ok nv (newMTUDiscoverer nv start m) [m]"
  by (auto simp: mtu_ok_def newMTUDiscoverer_def mtu_init_def maxLostMTUProbes_def upt_rec numeral_3_eq_3 not_le)

lemma round_measure:
  assumes "mtu_ok nv f vs" and "mtu_done nv f = Some False"
  obtains f' vs' where "probe_round nv now acked f = Some f'" "mtu_ok nv f' vs'" "mtu_measure f' vs' < mtu_measure f vs"
proof (cases acked)
  case True
  obtain f' where f': "probe_round nv now True f = Some f'" "mf_min f' = probe_size f vs" "\<not> mf_lastProbeWasLost f'"
    "mtu_ok nv f' (dropWhile (\<lambda>v. v \<le> probe_size f vs) vs)" "last (dropWhile (\<lambda>v. v \<le> probe_size f vs) vs) = last vs"
    by (rule acked_round [OF assms refl refl])
  show ?thesis
    using that [OF _ f'(4) acked_measure [OF assms refl refl f'(2-5)]] f'(1) True by simp
next
  case False
  obtain f' where f': "probe_round nv now False f = Some f'" "mf_min f' = mf_min f" "mf_lastProbeWasLost f'"
    "mtu_ok nv f' (take 3 (takeWhile (\<lambda>v. v \<le> probe_size f vs) vs @ probe_size f vs # dropWhile (\<lambda>v. v \<le> probe_size f vs) vs))"
    by (rule lost_round [OF assms refl refl refl])
  show ?thesis
    using that [OF _ f'(4) lost_measure [OF assms refl refl refl f'(2-4)]] f'(1) False by simp
qed

lemma run_done: "mtu_ok nv f vs \<Longrightarrow> mtu_measure f vs \<le> length os \<Longrightarrow> \<exists>f'. mtu_run nv os f = Some f' \<and> mtu_done nv f' = Some True"
proof (induction os arbitrary: f vs)
  case Nil
  have "vs \<noteq> []" "mf_min f \<le> last vs"
    using Nil.prems(1) by (auto simp: mtu_ok_def)
  then show ?case
    using Nil mtu_done_ok [OF Nil.prems(1)] filter_inside [of vs "mf_min f"] mtu_ok_length [OF Nil.prems(1)] by (auto simp: mtu_measure_def)
next
  case (Cons o' os)
  obtain now acked where o': "o' = (now, acked)"
    by (cases o')
  show ?case
  proof (cases "mtu_done nv f = Some False")
    case True
    obtain f' vs' where "probe_round nv now acked f = Some f'" "mtu_ok nv f' vs'" "mtu_measure f' vs' < mtu_measure f vs"
      by (rule round_measure [OF Cons.prems(1) True])
    then show ?thesis
      using Cons.IH [of f' vs'] Cons.prems(2) True by (simp add: o')
  next
    case False
    then show ?thesis
      using mtu_done_ok [OF Cons.prems(1)] by (auto simp: o')
  qed
qed

section \<open>Resilience\<close>

text \<open>
  The outcomes are those of a path on which packets up to \<open>K\<close> bytes get through: larger probes are lost, and of the others at most \<open>k\<close>.
\<close>

fun within_path :: "int \<Rightarrow> int \<Rightarrow> nat \<Rightarrow> (int \<times> bool) list \<Rightarrow> mtuFinder \<Rightarrow> bool" where
  "within_path nv K k [] f = True"
| "within_path nv K k ((now, acked) # os) f =
     (case (mtu_done nv f, GetPing nv now f, probe_round nv now acked f) of
        (Some False, Some (_, _, s), Some f') \<Rightarrow>
          if s \<le> K then (if acked then within_path nv K k os f' else 0 < k \<and> within_path nv K (k - 1) os f')
          else \<not> acked \<and> within_path nv K k os f'
      | _ \<Rightarrow> True)"

lemma take3_above:
  assumes "sorted (x :: int list)" and "x \<noteq> []" and "K < last x" and "length (filter (\<lambda>v. v \<le> K) x) \<le> 2"
  shows "K < last (take 3 x)" "length (filter (\<lambda>v. v \<le> K) (take 3 x)) \<le> length (filter (\<lambda>v. v \<le> K) x)"
proof -
  have "filter (\<lambda>v. v \<le> K) x = filter (\<lambda>v. v \<le> K) (take 3 x) @ filter (\<lambda>v. v \<le> K) (drop 3 x)"
    by (metis append_take_drop_id filter_append)
  then show le: "length (filter (\<lambda>v. v \<le> K) (take 3 x)) \<le> length (filter (\<lambda>v. v \<le> K) x)"
    by simp
  show "K < last (take 3 x)"
  proof (rule ccontr)
    assume low: "\<not> K < last (take 3 x)"
    then have long: "3 < length x"
      using assms(3) by (cases "length x \<le> 3") auto
    have "v \<le> K" if "v \<in> set (take 3 x)" for v
      using sorted_le_last [OF sorted_wrt_take [OF assms(1)] that] low by linarith
    then have "filter (\<lambda>v. v \<le> K) (take 3 x) = take 3 x"
      by (simp add: filter_id_conv)
    then show False
      using le assms(4) long by simp
  qed
qed

lemma run_resilient:
  assumes "mtu_ok nv f vs" and "mf_min f \<le> K" and "K < last vs" and "length (filter (\<lambda>v. v \<le> K) vs) + k \<le> 2" and "within_path nv K k os f"
  shows "\<exists>f' vs'. mtu_run nv os f = Some f' \<and> mtu_ok nv f' vs' \<and> mf_min f \<le> mf_min f' \<and> mf_min f' \<le> K \<and> K < last vs'"
  using assms
proof (induction os arbitrary: f vs k)
  case (Cons o' os)
  obtain now acked where o': "o' = (now, acked)"
    by (cases o')
  show ?case
  proof (cases "mtu_done nv f = Some False")
    case True
    define s a d where "s = probe_size f vs" and "a = takeWhile (\<lambda>v. v \<le> s) vs" and "d = dropWhile (\<lambda>v. v \<le> s) vs"
    note between = probe_between [OF Cons.prems(1) True, folded s_def]
    note split = mtu_split [OF Cons.prems(1) between(2) a_def d_def]
    have ping: "GetPing nv now f = Some (f\<lparr>mf_lastProbeTime := now, mf_inFlight := s\<rparr>, mf_generation f, s)"
      by (simp add: GetPing_ok [OF Cons.prems(1)] s_def)
    show ?thesis
    proof (cases acked)
      case True
      obtain f' where f': "probe_round nv now True f = Some f'" "mf_min f' = s" "mtu_ok nv f' d" "last d = last vs"
        by (rule acked_round [OF Cons.prems(1) \<open>mtu_done nv f = Some False\<close> s_def d_def])
      have "s \<le> K" "within_path nv K k os f'"
        using Cons.prems(5) True \<open>mtu_done nv f = Some False\<close> ping f'(1) by (auto simp: o' split: if_splits)
      moreover have "length (filter (\<lambda>v. v \<le> K) d) + k \<le> 2"
        using Cons.prems(4) split(1) by auto
      ultimately show ?thesis
        using Cons.IH [OF f'(3), of k] f' Cons.prems(3) True \<open>mtu_done nv f = Some False\<close> between(1) by (auto simp: o' intro: order_trans)
    next
      case False
      obtain f' where f': "probe_round nv now False f = Some f'" "mf_min f' = mf_min f" "mtu_ok nv f' (take 3 (a @ s # d))"
        by (rule lost_round [OF Cons.prems(1) \<open>mtu_done nv f = Some False\<close> s_def a_def d_def])
      define k' where "k' = (if s \<le> K then k - 1 else k)"
      have w: "within_path nv K k' os f'" "s \<le> K \<longrightarrow> 0 < k"
        using Cons.prems(5) False \<open>mtu_done nv f = Some False\<close> ping f'(1) by (auto simp: o' k'_def split: if_splits)
      have n: "length (filter (\<lambda>v. v \<le> K) (a @ s # d)) + k' \<le> 2"
        using Cons.prems(4) [unfolded split(1)] w(2) by (auto simp: k'_def)
      have "sorted (a @ d)"
        using Cons.prems(1) unfolding split(1) [symmetric] by (simp add: mtu_ok_def)
      then have "sorted (a @ s # d)" "K < last (a @ s # d)"
        using Cons.prems(3) split(2-5) by (auto simp: sorted_append less_imp_le)
      then have "K < last (take 3 (a @ s # d))" "length (filter (\<lambda>v. v \<le> K) (take 3 (a @ s # d))) + k' \<le> 2"
        using take3_above [of "a @ s # d" K] n by auto
      then show ?thesis
        using Cons.IH [OF f'(3), of k'] f' Cons.prems(2) w(1) False \<open>mtu_done nv f = Some False\<close> by (auto simp: o')
    qed
  next
    case False
    then show ?thesis
      using mtu_done_ok [OF Cons.prems(1)] Cons.prems by (auto simp: o')
  qed
qed auto



text \<open>
  C38: for any value of \<^verbatim>\<open>InvalidByteCount\<close> that is not a size from the start to the maximum, the discovery ends: after at most \<open>20 * (max - start) + 15\<close> probes, whichever of them are lost, it is done.
\<close>

theorem mtu_discovery_ends:
  assumes "0 \<le> start" and "start \<le> m" and "nv \<notin> {start..m}" and "20 * (m - start) + 15 \<le> int (length os)"
  shows "\<exists>f. mtu_run nv os (newMTUDiscoverer nv start m) = Some f \<and> mtu_done nv f = Some True"
proof (rule run_done)
  show "mtu_ok nv (newMTUDiscoverer nv start m) [m]"
    using assms by (intro mtu_new_ok) auto
  show "mtu_measure (newMTUDiscoverer nv start m) [m] \<le> length os"
    using assms by (simp add: mtu_measure_def newMTUDiscoverer_def mtu_init_def)
qed

theorem mtu_discovery_ends_witness:
  "\<exists>f. mtu_run (- 1) (replicate 1000 (1, False)) (newMTUDiscoverer (- 1) 1200 1225) = Some f \<and> mtu_done (- 1) f = Some True"
  by (rule mtu_discovery_ends) simp_all

section \<open>Resets\<close>

text \<open>What becomes of a probe from before a reset is ignored.\<close>

lemma stale_probe_ignored: "g \<noteq> mf_generation f \<Longrightarrow> OnAcked nv g f = Some f \<and> OnLost nv g f = Some f"
  by (simp add: OnAcked_def OnLost_def)

lemma reset_restarts:
  assumes "0 \<le> start" and "start \<le> m" and "nv \<notin> {start..m}"
  shows "mtu_ok nv (mtu_Reset nv now start m f) [m]" "mf_generation (mtu_Reset nv now start m f) \<noteq> mf_generation f"
  using assms by (auto simp: mtu_Reset_def mtu_ok_def mtu_init_def maxLostMTUProbes_def upt_rec numeral_3_eq_3 not_le)

end
