(* ===== verification/Quic_Aead.thy ===== *)
theory Quic_Aead
  imports Quic_Frames "HOL-Library.Monad_Syntax"
begin

text \<open>
  The protection of QUIC packets: \<^verbatim>\<open>quic-go/internal/handshake/aead.go\<close>, \<^verbatim>\<open>updatable_aead.go\<close>, \<^verbatim>\<open>internal/protocol/key_phase.go\<close> and the packet numbers of
  \<^verbatim>\<open>internal/ackhandler/packet_number_generator.go\<close>.  The key derivation, the ciphers, the header protection and some constants come from the standard library or from files that are not in the
  repository; they are the record \<open>aead_env\<close>.  The probe timeout and the random numbers are arguments.  A panic is \<open>None\<close>, and what a call returns beside an
  error, and the buffer it appends to, are left out, as are the logs.  Counters of 64 bits are \<open>nat\<close>; times are \<open>int\<close> with 0 for none.
\<close>

section \<open>Packet numbers\<close>

record sequentialPacketNumberGenerator =
  sq_next :: int

definition newSequentialPacketNumberGenerator :: "int \<Rightarrow> sequentialPacketNumberGenerator" where
  "newSequentialPacketNumberGenerator initial = \<lparr>sq_next = initial\<rparr>"

definition sq_Peek :: "sequentialPacketNumberGenerator \<Rightarrow> int" where
  "sq_Peek p = sq_next p"

definition sq_Pop :: "sequentialPacketNumberGenerator \<Rightarrow> sequentialPacketNumberGenerator \<times> bool \<times> int" where
  "sq_Pop p = (p\<lparr>sq_next := sq_next p + 1\<rparr>, False, sq_next p)"

record skippingPacketNumberGenerator =
  sk_period :: int
  sk_maxPeriod :: int
  sk_next :: int
  sk_nextToSkip :: int

text \<open>\<open>rnd n\<close> is what \<^verbatim>\<open>rng.Int31n(n)\<close> returns, a number from 0 to \<open>n - 1\<close>.\<close>

definition generateNewSkip :: "(int \<Rightarrow> int) \<Rightarrow> skippingPacketNumberGenerator \<Rightarrow> skippingPacketNumberGenerator" where
  "generateNewSkip rnd p = p\<lparr>sk_nextToSkip := sk_next p + 3 + rnd (2 * sk_period p), sk_period := min (2 * sk_period p) (sk_maxPeriod p)\<rparr>"

definition newSkippingPacketNumberGenerator :: "(int \<Rightarrow> int) \<Rightarrow> int \<Rightarrow> int \<Rightarrow> int \<Rightarrow> skippingPacketNumberGenerator" where
  "newSkippingPacketNumberGenerator rnd initial initialPeriod maxPeriod =
     generateNewSkip rnd \<lparr>sk_period = initialPeriod, sk_maxPeriod = maxPeriod, sk_next = initial, sk_nextToSkip = 0\<rparr>"

definition sk_Peek :: "skippingPacketNumberGenerator \<Rightarrow> int" where
  "sk_Peek p = (if sk_next p = sk_nextToSkip p then sk_next p + 1 else sk_next p)"

definition sk_Pop :: "(int \<Rightarrow> int) \<Rightarrow> skippingPacketNumberGenerator \<Rightarrow> skippingPacketNumberGenerator \<times> bool \<times> int" where
  "sk_Pop rnd p =
     (if sk_next p = sk_nextToSkip p then (generateNewSkip rnd (p\<lparr>sk_next := sk_next p + 2\<rparr>), True, sk_next p + 1)
      else (p\<lparr>sk_next := sk_next p + 1\<rparr>, False, sk_next p))"

section \<open>Ciphers\<close>

record 'k cipherSuite =
  cs_ID :: "16 word"
  cs_Hash :: nat
  cs_KeyLen :: int
  cs_IVLen :: int
  cs_AEAD :: "bytes \<Rightarrow> bytes \<Rightarrow> 'k"

record ('k, 'h) aead_env =
  ae_hkdfExpandLabel :: "nat \<Rightarrow> bytes \<Rightarrow> bytes \<Rightarrow> string \<Rightarrow> int \<Rightarrow> bytes"
  ae_HashSize :: "nat \<Rightarrow> int"
  ae_LabelKeyV1 :: string
  ae_LabelIVV1 :: string
  ae_LabelKeyV2 :: string
  ae_LabelIVV2 :: string
  ae_Version2 :: u32
  ae_NonceSize :: "'k \<Rightarrow> nat"
  ae_Overhead :: "'k \<Rightarrow> int"
  ae_Seal :: "'k \<Rightarrow> bytes \<Rightarrow> bytes \<Rightarrow> bytes \<Rightarrow> bytes"
  ae_Open :: "'k \<Rightarrow> bytes \<Rightarrow> bytes \<Rightarrow> bytes \<Rightarrow> bytes option"
  ae_newHeaderProtector :: "'k cipherSuite \<Rightarrow> bytes \<Rightarrow> bool \<Rightarrow> u32 \<Rightarrow> 'h"
  ae_EncryptHeader :: "'h \<Rightarrow> bytes \<Rightarrow> byte \<Rightarrow> bytes \<Rightarrow> byte \<times> bytes"
  ae_DecryptHeader :: "'h \<Rightarrow> bytes \<Rightarrow> byte \<Rightarrow> bytes \<Rightarrow> byte \<times> bytes"
  ae_DecodePacketNumber :: "int \<Rightarrow> int \<Rightarrow> int \<Rightarrow> int"
  ae_InvalidPacketNumber :: int
  ae_InvalidPacketLimitAES :: nat
  ae_InvalidPacketLimitChaCha :: nat
  ae_keyUpdateInterval :: nat

definition createAEAD :: "('k, 'h) aead_env \<Rightarrow> 'k cipherSuite \<Rightarrow> bytes \<Rightarrow> u32 \<Rightarrow> 'k" where
  "createAEAD E suite trafficSecret v =
     (let keyLabel = (if v = ae_Version2 E then ae_LabelKeyV2 E else ae_LabelKeyV1 E);
          ivLabel = (if v = ae_Version2 E then ae_LabelIVV2 E else ae_LabelIVV1 E)
      in cs_AEAD suite (ae_hkdfExpandLabel E (cs_Hash suite) trafficSecret [] keyLabel (cs_KeyLen suite))
           (ae_hkdfExpandLabel E (cs_Hash suite) trafficSecret [] ivLabel (cs_IVLen suite)))"

text \<open>\<^verbatim>\<open>binary.BigEndian.PutUint64(buf[len(buf)-8:], uint64(pn))\<close>.\<close>

definition put_nonce :: "bytes \<Rightarrow> int \<Rightarrow> bytes option" where
  "put_nonce buf pn = (if length buf < 8 then None else Some (take (length buf - 8) buf @ be_bytes 8 (unat (of_int pn :: u64))))"

datatype key_error = ErrDecryptionFailed | ErrKeysDropped | KeyUpdateError | AEADLimitReached

section \<open>Long headers\<close>

record ('k, 'h) longHeaderSealer =
  ls_aead :: 'k
  ls_headerProtector :: 'h
  ls_nonceBuf :: bytes

definition newLongHeaderSealer :: "('k, 'h) aead_env \<Rightarrow> 'k \<Rightarrow> 'h \<Rightarrow> ('k, 'h) longHeaderSealer option" where
  "newLongHeaderSealer E aead headerProtector =
     (if ae_NonceSize E aead \<noteq> 8 then None else Some \<lparr>ls_aead = aead, ls_headerProtector = headerProtector, ls_nonceBuf = replicate 8 0\<rparr>)"

definition ls_Seal :: "('k, 'h) aead_env \<Rightarrow> bytes \<Rightarrow> int \<Rightarrow> bytes \<Rightarrow> ('k, 'h) longHeaderSealer \<Rightarrow> (('k, 'h) longHeaderSealer \<times> bytes) option" where
  "ls_Seal E src pn ad s = do { nonce \<leftarrow> put_nonce (ls_nonceBuf s) pn; Some (s\<lparr>ls_nonceBuf := nonce\<rparr>, ae_Seal E (ls_aead s) nonce src ad) }"

definition ls_EncryptHeader :: "('k, 'h) aead_env \<Rightarrow> bytes \<Rightarrow> byte \<Rightarrow> bytes \<Rightarrow> ('k, 'h) longHeaderSealer \<Rightarrow> byte \<times> bytes" where
  "ls_EncryptHeader E sample firstByte pnBytes s = ae_EncryptHeader E (ls_headerProtector s) sample firstByte pnBytes"

definition ls_Overhead :: "('k, 'h) aead_env \<Rightarrow> ('k, 'h) longHeaderSealer \<Rightarrow> int" where
  "ls_Overhead E s = ae_Overhead E (ls_aead s)"

record ('k, 'h) longHeaderOpener =
  lo_aead :: 'k
  lo_headerProtector :: 'h
  lo_highestRcvdPN :: int
  lo_nonceBuf :: bytes

definition newLongHeaderOpener :: "('k, 'h) aead_env \<Rightarrow> 'k \<Rightarrow> 'h \<Rightarrow> ('k, 'h) longHeaderOpener option" where
  "newLongHeaderOpener E aead headerProtector =
     (if ae_NonceSize E aead \<noteq> 8 then None
      else Some \<lparr>lo_aead = aead, lo_headerProtector = headerProtector, lo_highestRcvdPN = 0, lo_nonceBuf = replicate 8 0\<rparr>)"

definition lo_DecodePacketNumber :: "('k, 'h) aead_env \<Rightarrow> int \<Rightarrow> int \<Rightarrow> ('k, 'h) longHeaderOpener \<Rightarrow> int" where
  "lo_DecodePacketNumber E wirePN wirePNLen o' = ae_DecodePacketNumber E wirePNLen (lo_highestRcvdPN o') wirePN"

definition lo_Open :: "('k, 'h) aead_env \<Rightarrow> bytes \<Rightarrow> int \<Rightarrow> bytes \<Rightarrow> ('k, 'h) longHeaderOpener \<Rightarrow> (('k, 'h) longHeaderOpener \<times> (key_error + bytes)) option" where
  "lo_Open E src pn ad o' =
     do { nonce \<leftarrow> put_nonce (lo_nonceBuf o') pn;
          let o' = o'\<lparr>lo_nonceBuf := nonce\<rparr>;
          Some (case ae_Open E (lo_aead o') nonce src ad of
                  Some dec \<Rightarrow> (o'\<lparr>lo_highestRcvdPN := max (lo_highestRcvdPN o') pn\<rparr>, Inr dec)
                | None \<Rightarrow> (o', Inl ErrDecryptionFailed)) }"

definition lo_DecryptHeader :: "('k, 'h) aead_env \<Rightarrow> bytes \<Rightarrow> byte \<Rightarrow> bytes \<Rightarrow> ('k, 'h) longHeaderOpener \<Rightarrow> byte \<times> bytes" where
  "lo_DecryptHeader E sample firstByte pnBytes o' = ae_DecryptHeader E (lo_headerProtector o') sample firstByte pnBytes"

section \<open>Short headers\<close>

datatype KeyPhaseBit = KeyPhaseUndefined | KeyPhaseZero | KeyPhaseOne

definition KeyPhase_Bit :: "nat \<Rightarrow> KeyPhaseBit" where
  "KeyPhase_Bit p = (if p mod 2 = 0 then KeyPhaseZero else KeyPhaseOne)"

definition FirstKeyUpdateInterval :: nat where
  "FirstKeyUpdateInterval = 100"

text \<open>A cipher or header protection that is not set is \<open>None\<close>, and so is a suite with ID 0.\<close>

record ('k, 'h) updatableAEAD =
  ua_suite :: "'k cipherSuite option"
  ua_keyPhase :: nat
  ua_largestAcked :: int
  ua_firstPacketNumber :: int
  ua_handshakeConfirmed :: bool
  ua_invalidPacketLimit :: nat
  ua_invalidPacketCount :: nat
  ua_prevRcvAEADExpiry :: int
  ua_prevRcvAEAD :: "'k option"
  ua_firstRcvdWithCurrentKey :: int
  ua_firstSentWithCurrentKey :: int
  ua_highestRcvdPN :: int
  ua_numRcvdWithCurrentKey :: nat
  ua_numSentWithCurrentKey :: nat
  ua_rcvAEAD :: "'k option"
  ua_sendAEAD :: "'k option"
  ua_aeadOverhead :: int
  ua_nextRcvAEAD :: "'k option"
  ua_nextSendAEAD :: "'k option"
  ua_nextRcvTrafficSecret :: bytes
  ua_nextSendTrafficSecret :: bytes
  ua_headerDecrypter :: "'h option"
  ua_headerEncrypter :: "'h option"
  ua_version :: u32
  ua_nonceBuf :: bytes

definition newUpdatableAEAD :: "('k, 'h) aead_env \<Rightarrow> u32 \<Rightarrow> ('k, 'h) updatableAEAD" where
  "newUpdatableAEAD E version =
     \<lparr>ua_suite = None, ua_keyPhase = 0, ua_largestAcked = ae_InvalidPacketNumber E, ua_firstPacketNumber = ae_InvalidPacketNumber E, ua_handshakeConfirmed = False,
      ua_invalidPacketLimit = 0, ua_invalidPacketCount = 0, ua_prevRcvAEADExpiry = 0, ua_prevRcvAEAD = None,
      ua_firstRcvdWithCurrentKey = ae_InvalidPacketNumber E, ua_firstSentWithCurrentKey = ae_InvalidPacketNumber E, ua_highestRcvdPN = 0,
      ua_numRcvdWithCurrentKey = 0, ua_numSentWithCurrentKey = 0, ua_rcvAEAD = None, ua_sendAEAD = None, ua_aeadOverhead = 0,
      ua_nextRcvAEAD = None, ua_nextSendAEAD = None, ua_nextRcvTrafficSecret = [], ua_nextSendTrafficSecret = [],
      ua_headerDecrypter = None, ua_headerEncrypter = None, ua_version = version, ua_nonceBuf = []\<rparr>"

definition getNextTrafficSecret :: "('k, 'h) aead_env \<Rightarrow> nat \<Rightarrow> bytes \<Rightarrow> bytes" where
  "getNextTrafficSecret E hash ts = ae_hkdfExpandLabel E hash ts [] ''quic ku'' (ae_HashSize E hash)"

definition rollKeys :: "('k, 'h) aead_env \<Rightarrow> ('k, 'h) updatableAEAD \<Rightarrow> ('k, 'h) updatableAEAD option" where
  "rollKeys E a =
     do { suite \<leftarrow> ua_suite a;
          let a = (if \<not> Option.is_none (ua_prevRcvAEAD a) then a\<lparr>ua_prevRcvAEADExpiry := 0\<rparr> else a);
          let a = a\<lparr>ua_keyPhase := ua_keyPhase a + 1, ua_firstRcvdWithCurrentKey := ae_InvalidPacketNumber E, ua_firstSentWithCurrentKey := ae_InvalidPacketNumber E,
            ua_numRcvdWithCurrentKey := 0, ua_numSentWithCurrentKey := 0, ua_prevRcvAEAD := ua_rcvAEAD a, ua_rcvAEAD := ua_nextRcvAEAD a, ua_sendAEAD := ua_nextSendAEAD a\<rparr>;
          let a = a\<lparr>ua_nextRcvTrafficSecret := getNextTrafficSecret E (cs_Hash suite) (ua_nextRcvTrafficSecret a),
            ua_nextSendTrafficSecret := getNextTrafficSecret E (cs_Hash suite) (ua_nextSendTrafficSecret a)\<rparr>;
          Some (a\<lparr>ua_nextRcvAEAD := Some (createAEAD E suite (ua_nextRcvTrafficSecret a) (ua_version a)),
            ua_nextSendAEAD := Some (createAEAD E suite (ua_nextSendTrafficSecret a) (ua_version a))\<rparr>) }"

definition startKeyDropTimer :: "int \<Rightarrow> int \<Rightarrow> ('k, 'h) updatableAEAD \<Rightarrow> ('k, 'h) updatableAEAD" where
  "startKeyDropTimer pto now a = a\<lparr>ua_prevRcvAEADExpiry := now + 3 * pto\<rparr>"

text \<open>\<^verbatim>\<open>tls.TLS_AES_128_GCM_SHA256\<close>, \<^verbatim>\<open>TLS_AES_256_GCM_SHA384\<close> and \<^verbatim>\<open>TLS_CHACHA20_POLY1305_SHA256\<close>.\<close>

definition setAEADParameters :: "('k, 'h) aead_env \<Rightarrow> 'k \<Rightarrow> 'k cipherSuite \<Rightarrow> ('k, 'h) updatableAEAD \<Rightarrow> ('k, 'h) updatableAEAD option" where
  "setAEADParameters E aead suite a =
     (let a = a\<lparr>ua_nonceBuf := replicate (ae_NonceSize E aead) 0, ua_aeadOverhead := ae_Overhead E aead, ua_suite := Some suite\<rparr>
      in if cs_ID suite = 0x1301 \<or> cs_ID suite = 0x1302 then Some (a\<lparr>ua_invalidPacketLimit := ae_InvalidPacketLimitAES E\<rparr>)
         else if cs_ID suite = 0x1303 then Some (a\<lparr>ua_invalidPacketLimit := ae_InvalidPacketLimitChaCha E\<rparr>)
         else None)"

definition SetReadKey :: "('k, 'h) aead_env \<Rightarrow> 'k cipherSuite \<Rightarrow> bytes \<Rightarrow> ('k, 'h) updatableAEAD \<Rightarrow> ('k, 'h) updatableAEAD option" where
  "SetReadKey E suite trafficSecret a =
     do { let aead = createAEAD E suite trafficSecret (ua_version a);
          let a = a\<lparr>ua_rcvAEAD := Some aead, ua_headerDecrypter := Some (ae_newHeaderProtector E suite trafficSecret False (ua_version a))\<rparr>;
          a \<leftarrow> (if Option.is_none (ua_suite a) then setAEADParameters E aead suite a else Some a);
          let a = a\<lparr>ua_nextRcvTrafficSecret := getNextTrafficSecret E (cs_Hash suite) trafficSecret\<rparr>;
          Some (a\<lparr>ua_nextRcvAEAD := Some (createAEAD E suite (ua_nextRcvTrafficSecret a) (ua_version a))\<rparr>) }"

definition SetWriteKey :: "('k, 'h) aead_env \<Rightarrow> 'k cipherSuite \<Rightarrow> bytes \<Rightarrow> ('k, 'h) updatableAEAD \<Rightarrow> ('k, 'h) updatableAEAD option" where
  "SetWriteKey E suite trafficSecret a =
     do { let aead = createAEAD E suite trafficSecret (ua_version a);
          let a = a\<lparr>ua_sendAEAD := Some aead, ua_headerEncrypter := Some (ae_newHeaderProtector E suite trafficSecret False (ua_version a))\<rparr>;
          a \<leftarrow> (if Option.is_none (ua_suite a) then setAEADParameters E aead suite a else Some a);
          let a = a\<lparr>ua_nextSendTrafficSecret := getNextTrafficSecret E (cs_Hash suite) trafficSecret\<rparr>;
          Some (a\<lparr>ua_nextSendAEAD := Some (createAEAD E suite (ua_nextSendTrafficSecret a) (ua_version a))\<rparr>) }"

definition ua_DecodePacketNumber :: "('k, 'h) aead_env \<Rightarrow> int \<Rightarrow> int \<Rightarrow> ('k, 'h) updatableAEAD \<Rightarrow> int" where
  "ua_DecodePacketNumber E wirePN wirePNLen a = ae_DecodePacketNumber E wirePNLen (ua_highestRcvdPN a) wirePN"

text \<open>\<^verbatim>\<open>open\<close> drops the previous keys once their time has come.\<close>

definition drop_expired :: "int \<Rightarrow> ('k, 'h) updatableAEAD \<Rightarrow> ('k, 'h) updatableAEAD" where
  "drop_expired rcvTime a =
     (if \<not> Option.is_none (ua_prevRcvAEAD a) \<and> ua_prevRcvAEADExpiry a \<noteq> 0 \<and> ua_prevRcvAEADExpiry a < rcvTime
      then a\<lparr>ua_prevRcvAEAD := None, ua_prevRcvAEADExpiry := 0\<rparr> else a)"

definition open_previous :: "('k, 'h) aead_env \<Rightarrow> bytes \<Rightarrow> bytes \<Rightarrow> ('k, 'h) updatableAEAD \<Rightarrow> key_error + bytes" where
  "open_previous E src ad a =
     (case ua_prevRcvAEAD a of
        None \<Rightarrow> Inl ErrKeysDropped
      | Some k \<Rightarrow> (case ae_Open E k (ua_nonceBuf a) src ad of None \<Rightarrow> Inl ErrDecryptionFailed | Some dec \<Rightarrow> Inr dec))"

definition open_next ::
  "('k, 'h) aead_env \<Rightarrow> int \<Rightarrow> bytes \<Rightarrow> int \<Rightarrow> int \<Rightarrow> bytes \<Rightarrow> ('k, 'h) updatableAEAD \<Rightarrow> (('k, 'h) updatableAEAD \<times> (key_error + bytes)) option" where
  "open_next E pto src rcvTime pn ad a =
     do { k \<leftarrow> ua_nextRcvAEAD a;
          (case ae_Open E k (ua_nonceBuf a) src ad of
             None \<Rightarrow> Some (a, Inl ErrDecryptionFailed)
           | Some dec \<Rightarrow>
               if 0 < ua_keyPhase a \<and> ua_firstSentWithCurrentKey a = ae_InvalidPacketNumber E then Some (a, Inl KeyUpdateError)
               else do { a \<leftarrow> rollKeys E a;
                         let a = startKeyDropTimer pto rcvTime a;
                         Some (a\<lparr>ua_firstRcvdWithCurrentKey := pn\<rparr>, Inr dec) }) }"

definition open_current ::
  "('k, 'h) aead_env \<Rightarrow> int \<Rightarrow> bytes \<Rightarrow> int \<Rightarrow> int \<Rightarrow> bytes \<Rightarrow> ('k, 'h) updatableAEAD \<Rightarrow> (('k, 'h) updatableAEAD \<times> (key_error + bytes)) option" where
  "open_current E pto src rcvTime pn ad a =
     do { k \<leftarrow> ua_rcvAEAD a;
          (case ae_Open E k (ua_nonceBuf a) src ad of
             None \<Rightarrow> Some (a, Inl ErrDecryptionFailed)
           | Some dec \<Rightarrow>
               (let a = a\<lparr>ua_numRcvdWithCurrentKey := ua_numRcvdWithCurrentKey a + 1\<rparr>
                in if ua_firstRcvdWithCurrentKey a = ae_InvalidPacketNumber E
                   then let a = (if 0 < ua_keyPhase a then startKeyDropTimer pto rcvTime a else a)
                     in Some (a\<lparr>ua_firstRcvdWithCurrentKey := pn\<rparr>, Inr dec)
                   else Some (a, Inr dec))) }"

definition ua_open ::
  "('k, 'h) aead_env \<Rightarrow> int \<Rightarrow> bytes \<Rightarrow> int \<Rightarrow> int \<Rightarrow> KeyPhaseBit \<Rightarrow> bytes \<Rightarrow> ('k, 'h) updatableAEAD \<Rightarrow> (('k, 'h) updatableAEAD \<times> (key_error + bytes)) option" where
  "ua_open E pto src rcvTime pn kp ad a =
     do { let a = drop_expired rcvTime a;
          nonce \<leftarrow> put_nonce (ua_nonceBuf a) pn;
          let a = a\<lparr>ua_nonceBuf := nonce\<rparr>;
          if kp \<noteq> KeyPhase_Bit (ua_keyPhase a) then
            (if 0 < ua_keyPhase a \<and> ua_firstRcvdWithCurrentKey a = ae_InvalidPacketNumber E \<or> pn < ua_firstRcvdWithCurrentKey a
             then Some (a, open_previous E src ad a)
             else open_next E pto src rcvTime pn ad a)
          else open_current E pto src rcvTime pn ad a }"

definition ua_Open ::
  "('k, 'h) aead_env \<Rightarrow> int \<Rightarrow> bytes \<Rightarrow> int \<Rightarrow> int \<Rightarrow> KeyPhaseBit \<Rightarrow> bytes \<Rightarrow> ('k, 'h) updatableAEAD \<Rightarrow> (('k, 'h) updatableAEAD \<times> (key_error + bytes)) option" where
  "ua_Open E pto src rcvTime pn kp ad a =
     do { (a, res) \<leftarrow> ua_open E pto src rcvTime pn kp ad a;
          let a = (if res = Inl ErrDecryptionFailed then a\<lparr>ua_invalidPacketCount := ua_invalidPacketCount a + 1\<rparr> else a);
          if res = Inl ErrDecryptionFailed \<and> ua_invalidPacketLimit a \<le> ua_invalidPacketCount a then Some (a, Inl AEADLimitReached)
          else (case res of
                  Inl e \<Rightarrow> Some (a, Inl e)
                | Inr dec \<Rightarrow> Some (a\<lparr>ua_highestRcvdPN := max (ua_highestRcvdPN a) pn\<rparr>, Inr dec)) }"

definition ua_Seal :: "('k, 'h) aead_env \<Rightarrow> bytes \<Rightarrow> int \<Rightarrow> bytes \<Rightarrow> ('k, 'h) updatableAEAD \<Rightarrow> (('k, 'h) updatableAEAD \<times> bytes) option" where
  "ua_Seal E src pn ad a =
     do { let a = (if ua_firstSentWithCurrentKey a = ae_InvalidPacketNumber E then a\<lparr>ua_firstSentWithCurrentKey := pn\<rparr> else a);
          let a = (if ua_firstPacketNumber a = ae_InvalidPacketNumber E then a\<lparr>ua_firstPacketNumber := pn\<rparr> else a);
          let a = a\<lparr>ua_numSentWithCurrentKey := ua_numSentWithCurrentKey a + 1\<rparr>;
          nonce \<leftarrow> put_nonce (ua_nonceBuf a) pn;
          let a = a\<lparr>ua_nonceBuf := nonce\<rparr>;
          k \<leftarrow> ua_sendAEAD a;
          Some (a, ae_Seal E k nonce src ad) }"

definition SetLargestAcked :: "('k, 'h) aead_env \<Rightarrow> int \<Rightarrow> ('k, 'h) updatableAEAD \<Rightarrow> ('k, 'h) updatableAEAD \<times> key_error option" where
  "SetLargestAcked E pn a =
     (if ua_firstSentWithCurrentKey a \<noteq> ae_InvalidPacketNumber E \<and> ua_firstSentWithCurrentKey a \<le> pn \<and> ua_numRcvdWithCurrentKey a = 0
      then (a, Some KeyUpdateError)
      else (a\<lparr>ua_largestAcked := pn\<rparr>, None))"

definition SetHandshakeConfirmed :: "('k, 'h) updatableAEAD \<Rightarrow> ('k, 'h) updatableAEAD" where
  "SetHandshakeConfirmed a = a\<lparr>ua_handshakeConfirmed := True\<rparr>"

definition updateAllowed :: "('k, 'h) aead_env \<Rightarrow> ('k, 'h) updatableAEAD \<Rightarrow> bool" where
  "updateAllowed E a \<longleftrightarrow>
     ua_handshakeConfirmed a \<and>
     (ua_keyPhase a = 0 \<or>
      (ua_firstSentWithCurrentKey a \<noteq> ae_InvalidPacketNumber E \<and> ua_largestAcked a \<noteq> ae_InvalidPacketNumber E \<and> ua_firstSentWithCurrentKey a \<le> ua_largestAcked a))"

definition shouldInitiateKeyUpdate :: "('k, 'h) aead_env \<Rightarrow> ('k, 'h) updatableAEAD \<Rightarrow> bool" where
  "shouldInitiateKeyUpdate E a \<longleftrightarrow>
     updateAllowed E a \<and>
     (ua_keyPhase a = 0 \<and> (FirstKeyUpdateInterval \<le> ua_numRcvdWithCurrentKey a \<or> FirstKeyUpdateInterval \<le> ua_numSentWithCurrentKey a) \<or>
      ae_keyUpdateInterval E \<le> ua_numRcvdWithCurrentKey a \<or> ae_keyUpdateInterval E \<le> ua_numSentWithCurrentKey a)"

definition ua_KeyPhase :: "('k, 'h) aead_env \<Rightarrow> ('k, 'h) updatableAEAD \<Rightarrow> (('k, 'h) updatableAEAD \<times> KeyPhaseBit) option" where
  "ua_KeyPhase E a =
     do { a \<leftarrow> (if shouldInitiateKeyUpdate E a then rollKeys E a else Some a);
          Some (a, KeyPhase_Bit (ua_keyPhase a)) }"

definition ua_Overhead :: "('k, 'h) updatableAEAD \<Rightarrow> int" where
  "ua_Overhead a = ua_aeadOverhead a"

definition ua_EncryptHeader :: "('k, 'h) aead_env \<Rightarrow> bytes \<Rightarrow> byte \<Rightarrow> bytes \<Rightarrow> ('k, 'h) updatableAEAD \<Rightarrow> (byte \<times> bytes) option" where
  "ua_EncryptHeader E sample firstByte hdrBytes a = map_option (\<lambda>h. ae_EncryptHeader E h sample firstByte hdrBytes) (ua_headerEncrypter a)"

definition ua_DecryptHeader :: "('k, 'h) aead_env \<Rightarrow> bytes \<Rightarrow> byte \<Rightarrow> bytes \<Rightarrow> ('k, 'h) updatableAEAD \<Rightarrow> (byte \<times> bytes) option" where
  "ua_DecryptHeader E sample firstByte hdrBytes a = map_option (\<lambda>h. ae_DecryptHeader E h sample firstByte hdrBytes) (ua_headerDecrypter a)"

definition FirstPacketNumber :: "('k, 'h) updatableAEAD \<Rightarrow> int" where
  "FirstPacketNumber a = ua_firstPacketNumber a"

section \<open>Packet numbers increase\<close>

lemma sk_Peek_Pop: "sk_Peek p = snd (snd (sk_Pop rnd p))"
  by (simp add: sk_Peek_def sk_Pop_def)

lemma sk_Pop_increases:
  assumes "\<And>k. 0 \<le> rnd k" and "sk_Pop rnd g = (g', skipped, pn)"
  shows "sk_next g \<le> pn" "pn < sk_next g'"
  using assms by (auto simp: sk_Pop_def generateNewSkip_def split: if_splits)

text \<open>No two packet numbers in a row are skipped.\<close>

lemma sk_Pop_skips_once:
  assumes "\<And>k. 0 \<le> rnd k" and "sk_Pop rnd g = (g', True, pn)"
  shows "sk_Pop rnd' g' = (g'\<lparr>sk_next := sk_next g' + 1\<rparr>, False, pn + 1)"
proof -
  have "0 \<le> rnd (2 * sk_period g)"
    by (rule assms)
  then show ?thesis
    using assms(2) by (auto simp: sk_Pop_def generateNewSkip_def split: if_splits)
qed

section \<open>Long headers open what they seal\<close>

lemma long_header_roundtrip:
  assumes "\<And>nonce. ae_Open E k nonce (ae_Seal E k nonce m ad) ad = Some m" and "newLongHeaderSealer E k h = Some s" and "newLongHeaderOpener E k h' = Some o'"
  shows "\<exists>s' c o''. ls_Seal E m pn ad s = Some (s', c) \<and> lo_Open E c pn ad o' = Some (o'', Inr m) \<and> lo_highestRcvdPN o'' = max 0 pn"
  using assms by (auto simp: newLongHeaderSealer_def newLongHeaderOpener_def ls_Seal_def lo_Open_def put_nonce_def split: if_splits)

end
