(* ===== verification/Quic_Key_Update.thy ===== *)
theory Quic_Key_Update
  imports Quic_Aead
begin

text \<open>
  Two endpoints that protect their packets with \<open>updatableAEAD\<close> and update the keys as they go, over a network that loses, repeats, reorders and invents packets.
  The hypothesis \<open>packet_ciphers\<close> is what the key updates rely on: a suite of TLS 1.3, and that a key opens what was sealed with it.  Nothing is assumed of the key derivation: keys of
  different phases need not differ.  What is excluded is a delivered packet of a phase before the previous one, or a forged one, that one of the three keys of the receiver opens by chance.
\<close>

section \<open>Keys\<close>

definition traffic_secret :: "('k, 'h) aead_env \<Rightarrow> 'k cipherSuite \<Rightarrow> bytes \<Rightarrow> nat \<Rightarrow> bytes" where
  "traffic_secret E suite ts n = (getNextTrafficSecret E (cs_Hash suite) ^^ n) ts"

definition phase_key :: "('k, 'h) aead_env \<Rightarrow> 'k cipherSuite \<Rightarrow> u32 \<Rightarrow> bytes \<Rightarrow> nat \<Rightarrow> 'k" where
  "phase_key E suite v ts n = createAEAD E suite (traffic_secret E suite ts n) v"

lemma next_traffic_secret: "getNextTrafficSecret E (cs_Hash suite) (traffic_secret E suite ts n) = traffic_secret E suite ts (Suc n)"
  by (simp add: traffic_secret_def)

datatype side = Client | Server

fun peer :: "side \<Rightarrow> side" where
  "peer Client = Server"
| "peer Server = Client"

lemma peer_simps [simp]: "peer (peer x) = x" "peer x \<noteq> x" "x \<noteq> peer x"
  by (cases x; simp)+

lemma other_side: "z \<noteq> x \<longleftrightarrow> z = peer x"
  by (cases x; cases z) auto

definition nonce_of :: "nat \<Rightarrow> int \<Rightarrow> bytes" where
  "nonce_of N pn = replicate (N - 8) 0 @ be_bytes 8 (unat (of_int pn :: u64))"

text \<open>What is relied on of the ciphers: a suite of TLS 1.3, nonces that hold a packet number, and that a key opens what was sealed with it.\<close>

definition packet_ciphers :: "('k, 'h) aead_env \<Rightarrow> 'k cipherSuite \<Rightarrow> u32 \<Rightarrow> (side \<Rightarrow> bytes) \<Rightarrow> bool" where
  "packet_ciphers E suite v ts \<longleftrightarrow>
     cs_ID suite \<in> {0x1301, 0x1302, 0x1303} \<and> 8 \<le> ae_NonceSize E (phase_key E suite v (ts Server) 0) \<and> ae_InvalidPacketNumber E < 0 \<and>
     (\<forall>x i pn m ad. let k = phase_key E suite v (ts x) i; nonce = nonce_of (ae_NonceSize E (phase_key E suite v (ts Server) 0)) pn
        in ae_Open E k nonce (ae_Seal E k nonce m ad) ad = Some m)"

lemma packet_ciphersD:
  assumes "packet_ciphers E suite v ts"
  shows suite_known: "cs_ID suite \<in> {0x1301, 0x1302, 0x1303}" and nonce_size: "8 \<le> ae_NonceSize E (phase_key E suite v (ts Server) 0)"
    and invalid_number: "ae_InvalidPacketNumber E < 0"
    and open_seal: "ae_Open E (phase_key E suite v (ts x) i) (nonce_of (ae_NonceSize E (phase_key E suite v (ts Server) 0)) pn)
      (ae_Seal E (phase_key E suite v (ts x) i) (nonce_of (ae_NonceSize E (phase_key E suite v (ts Server) 0)) pn) m ad) ad = Some m"
  using assms unfolding packet_ciphers_def Let_def by blast+

section \<open>The network\<close>

text \<open>A packet, with its plaintext and its key phase, which the receiver does not see.\<close>

record packet =
  pk_pn :: int
  pk_kp :: KeyPhaseBit
  pk_ad :: bytes
  pk_ct :: bytes
  pk_data :: bytes
  pk_phase :: nat

record ('k, 'h) endpoint =
  ep_aead :: "('k, 'h) updatableAEAD"
  ep_gen :: skippingPacketNumberGenerator
  ep_sent :: "packet list"
  ep_rcvd :: "packet list"

definition send_packet :: "('k, 'h) aead_env \<Rightarrow> (int \<Rightarrow> int) \<Rightarrow> bytes \<Rightarrow> bytes \<Rightarrow> ('k, 'h) endpoint \<Rightarrow> ('k, 'h) endpoint option" where
  "send_packet E rnd d ad ep =
     do { (a, kp) \<leftarrow> ua_KeyPhase E (ep_aead ep);
          let (g, _, pn) = sk_Pop rnd (ep_gen ep);
          (a, ct) \<leftarrow> ua_Seal E d pn ad a;
          Some (ep\<lparr>ep_aead := a, ep_gen := g,
            ep_sent := \<lparr>pk_pn = pn, pk_kp = kp, pk_ad = ad, pk_ct = ct, pk_data = d, pk_phase = ua_keyPhase a\<rparr> # ep_sent ep\<rparr>) }"

text \<open>\<open>acked\<close> is the largest packet number that a payload acknowledges; it is handled once the packet is open.\<close>

definition receive_packet ::
  "('k, 'h) aead_env \<Rightarrow> (bytes \<Rightarrow> int option) \<Rightarrow> int \<Rightarrow> int \<Rightarrow> packet \<Rightarrow> ('k, 'h) endpoint \<Rightarrow> (('k, 'h) endpoint \<times> (key_error + bytes)) option" where
  "receive_packet E acked pto now p ep =
     do { (a, res) \<leftarrow> ua_Open E pto (pk_ct p) now (pk_pn p) (pk_kp p) (pk_ad p) (ep_aead ep);
          (case res of
             Inl e \<Rightarrow> Some (ep\<lparr>ep_aead := a\<rparr>, Inl e)
           | Inr d \<Rightarrow>
               (case acked d of
                  None \<Rightarrow> Some (ep\<lparr>ep_aead := a, ep_rcvd := p # ep_rcvd ep\<rparr>, Inr d)
                | Some n \<Rightarrow>
                    (case SetLargestAcked E n a of
                       (a, None) \<Rightarrow> Some (ep\<lparr>ep_aead := a, ep_rcvd := p # ep_rcvd ep\<rparr>, Inr d)
                     | (a, Some e) \<Rightarrow> Some (ep\<lparr>ep_aead := a, ep_rcvd := p # ep_rcvd ep\<rparr>, Inl e)))) }"

text \<open>The keys as the handshake leaves them: a client sets the key to read first, a server the key to write.\<close>

definition established :: "('k, 'h) aead_env \<Rightarrow> 'k cipherSuite \<Rightarrow> u32 \<Rightarrow> (side \<Rightarrow> bytes) \<Rightarrow> side \<Rightarrow> ('k, 'h) updatableAEAD option" where
  "established E suite v ts x =
     (case x of
        Client \<Rightarrow> do { a \<leftarrow> SetReadKey E suite (ts Server) (newUpdatableAEAD E v); SetWriteKey E suite (ts Client) a }
      | Server \<Rightarrow> do { a \<leftarrow> SetWriteKey E suite (ts Server) (newUpdatableAEAD E v); SetReadKey E suite (ts Client) a })"

type_synonym ('k, 'h) network = "side \<Rightarrow> ('k, 'h) endpoint"

text \<open>
  A packet that none of the three keys opens which the receiver may try, those of its own phase, the one before and the next.  A forged packet is one of this kind, and so is a packet of a phase
  that is over for longer: that a key opens what was sealed with another one is what the ciphers make improbable, and is excluded of the packets that are delivered.
\<close>

definition unreadable :: "('k, 'h) aead_env \<Rightarrow> 'k cipherSuite \<Rightarrow> u32 \<Rightarrow> (side \<Rightarrow> bytes) \<Rightarrow> side \<Rightarrow> nat \<Rightarrow> packet \<Rightarrow> bool" where
  "unreadable E suite v ts x ph p \<longleftrightarrow>
     list_all (\<lambda>i. ae_Open E (phase_key E suite v (ts (peer x)) i) (nonce_of (ae_NonceSize E (phase_key E suite v (ts Server) 0)) (pk_pn p)) (pk_ct p) (pk_ad p) = None)
       [ph - 1, ph, Suc ph]"

definition deliverable :: "('k, 'h) aead_env \<Rightarrow> 'k cipherSuite \<Rightarrow> u32 \<Rightarrow> (side \<Rightarrow> bytes) \<Rightarrow> side \<Rightarrow> ('k, 'h) network \<Rightarrow> packet \<Rightarrow> bool" where
  "deliverable E suite v ts x n p \<longleftrightarrow>
     p \<in> set (ep_sent (n (peer x))) \<and> (Suc (pk_phase p) < ua_keyPhase (ep_aead (n x)) \<longrightarrow> unreadable E suite v ts x (ua_keyPhase (ep_aead (n x))) p)"

inductive reachable ::
  "('k, 'h) aead_env \<Rightarrow> 'k cipherSuite \<Rightarrow> u32 \<Rightarrow> (side \<Rightarrow> bytes) \<Rightarrow> (bytes \<Rightarrow> int option) \<Rightarrow> ('k, 'h) network \<Rightarrow> bool"
  for E suite v ts acked where
  start: "(\<And>x. established E suite v ts x = Some (ep_aead (n x))) \<Longrightarrow> (\<And>x. 0 \<le> sk_next (ep_gen (n x))) \<Longrightarrow> (\<And>x. ep_sent (n x) = [] \<and> ep_rcvd (n x) = []) \<Longrightarrow>
    reachable E suite v ts acked n"
| confirm: "reachable E suite v ts acked n \<Longrightarrow> reachable E suite v ts acked (n(x := (n x)\<lparr>ep_aead := SetHandshakeConfirmed (ep_aead (n x))\<rparr>))"
| poll: "reachable E suite v ts acked n \<Longrightarrow> ua_KeyPhase E (ep_aead (n x)) = Some (a, kp) \<Longrightarrow> reachable E suite v ts acked (n(x := (n x)\<lparr>ep_aead := a\<rparr>))"
| send: "reachable E suite v ts acked n \<Longrightarrow> (\<And>k. 0 \<le> rnd k) \<Longrightarrow> acked d = None \<or> (\<exists>q \<in> set (ep_rcvd (n x)). acked d = Some (pk_pn q)) \<Longrightarrow>
    send_packet E rnd d ad (n x) = Some ep \<Longrightarrow> reachable E suite v ts acked (n(x := ep))"
| deliver: "reachable E suite v ts acked n \<Longrightarrow> deliverable E suite v ts x n p \<Longrightarrow> receive_packet E acked pto now p (n x) = Some (ep, res) \<Longrightarrow>
    reachable E suite v ts acked (n(x := ep))"
| forge: "reachable E suite v ts acked n \<Longrightarrow> unreadable E suite v ts x (ua_keyPhase (ep_aead (n x))) p \<Longrightarrow>
    receive_packet E acked pto now p (n x) = Some (ep, res) \<Longrightarrow> reachable E suite v ts acked (n(x := ep))"

section \<open>The invariant\<close>

text \<open>The keys of an endpoint belong to its phase, and the previous one is kept until the peer has confirmed the phase.\<close>

definition keys_ok :: "('k, 'h) aead_env \<Rightarrow> 'k cipherSuite \<Rightarrow> u32 \<Rightarrow> (side \<Rightarrow> bytes) \<Rightarrow> side \<Rightarrow> ('k, 'h) updatableAEAD \<Rightarrow> bool" where
  "keys_ok E suite v ts x a \<longleftrightarrow>
     (let ph = ua_keyPhase a; me = ts x; you = ts (peer x); N = ae_NonceSize E (phase_key E suite v (ts Server) 0)
      in ua_suite a = Some suite \<and> ua_version a = v \<and> length (ua_nonceBuf a) = N \<and> take (N - 8) (ua_nonceBuf a) = replicate (N - 8) 0 \<and>
         ua_rcvAEAD a = Some (phase_key E suite v you ph) \<and> ua_nextRcvAEAD a = Some (phase_key E suite v you (Suc ph)) \<and> ua_nextRcvTrafficSecret a = traffic_secret E suite you (Suc ph) \<and>
         ua_sendAEAD a = Some (phase_key E suite v me ph) \<and> ua_nextSendAEAD a = Some (phase_key E suite v me (Suc ph)) \<and> ua_nextSendTrafficSecret a = traffic_secret E suite me (Suc ph) \<and>
         (ua_prevRcvAEAD a = None \<and> ua_prevRcvAEADExpiry a = 0 \<or> 0 < ph \<and> ua_prevRcvAEAD a = Some (phase_key E suite v you (ph - 1))) \<and>
         (0 < ph \<and> ua_firstRcvdWithCurrentKey a = ae_InvalidPacketNumber E \<longrightarrow> ua_prevRcvAEAD a \<noteq> None \<and> ua_prevRcvAEADExpiry a = 0))"

definition sealed_ok :: "('k, 'h) aead_env \<Rightarrow> 'k cipherSuite \<Rightarrow> u32 \<Rightarrow> (side \<Rightarrow> bytes) \<Rightarrow> side \<Rightarrow> packet \<Rightarrow> bool" where
  "sealed_ok E suite v ts x p \<longleftrightarrow>
     0 \<le> pk_pn p \<and> pk_kp p = KeyPhase_Bit (pk_phase p) \<and>
     pk_ct p = ae_Seal E (phase_key E suite v (ts x) (pk_phase p)) (nonce_of (ae_NonceSize E (phase_key E suite v (ts Server) 0)) (pk_pn p)) (pk_data p) (pk_ad p)"

text \<open>What an endpoint remembers of its phase \<open>ph\<close>: the first packet sent, \<open>fs\<close>, and the first one received, \<open>fr\<close>.\<close>

definition log_ok :: "int \<Rightarrow> nat \<Rightarrow> int \<Rightarrow> int \<Rightarrow> int \<Rightarrow> packet list \<Rightarrow> packet list \<Rightarrow> bool" where
  "log_ok iv ph fs fr nxt sent rcvd \<longleftrightarrow>
     0 \<le> nxt \<and> (\<forall>p \<in> set sent. pk_pn p < nxt \<and> pk_phase p \<le> ph) \<and>
     (\<forall>p \<in> set sent. \<forall>q \<in> set sent. pk_phase p < pk_phase q \<longrightarrow> pk_pn p < pk_pn q) \<and>
     (fs = iv \<longleftrightarrow> (\<forall>p \<in> set sent. pk_phase p \<noteq> ph)) \<and> (fs \<noteq> iv \<longrightarrow> (\<forall>p \<in> set sent. pk_phase p < ph \<longrightarrow> pk_pn p < fs)) \<and>
     (\<forall>q \<in> set rcvd. pk_phase q \<le> ph) \<and>
     (fr = iv \<longleftrightarrow> (\<forall>q \<in> set rcvd. pk_phase q \<noteq> ph)) \<and> (fr \<noteq> iv \<longrightarrow> (\<exists>q \<in> set rcvd. pk_pn q = fr \<and> pk_phase q = ph))"

text \<open>
  Between an endpoint and its peer: acknowledgements are those of packets received by then, and the peer is a phase ahead only after it knows that its packets of this phase
  arrived, and from a packet of this phase.
\<close>

definition link_ok :: "int \<Rightarrow> (bytes \<Rightarrow> int option) \<Rightarrow> nat \<Rightarrow> int \<Rightarrow> packet list \<Rightarrow> packet list \<Rightarrow> nat \<Rightarrow> packet list \<Rightarrow> packet list \<Rightarrow> bool" where
  "link_ok iv acked ph la sent rcvd ph' sent' rcvd' \<longleftrightarrow>
     set rcvd \<subseteq> set sent' \<and>
     (\<forall>q \<in> set sent. \<forall>n. acked (pk_data q) = Some n \<longrightarrow> (\<exists>r \<in> set rcvd. pk_pn r = n \<and> pk_phase r \<le> pk_phase q)) \<and>
     (la = iv \<or> (\<exists>t \<in> set rcvd'. pk_pn t = la \<and> (\<exists>s \<in> set sent'. pk_phase t \<le> pk_phase s))) \<and>
     ph \<le> Suc ph' \<and>
     (ph' = Suc ph \<and> 0 < ph \<longrightarrow> (\<exists>r \<in> set rcvd. pk_phase r = ph) \<and> (\<exists>s \<in> set sent. pk_phase s = ph))"

definition end_ok ::
  "('k, 'h) aead_env \<Rightarrow> 'k cipherSuite \<Rightarrow> u32 \<Rightarrow> (side \<Rightarrow> bytes) \<Rightarrow> (bytes \<Rightarrow> int option) \<Rightarrow> side \<Rightarrow> ('k, 'h) endpoint \<Rightarrow> ('k, 'h) endpoint \<Rightarrow> bool" where
  "end_ok E suite v ts acked x me you \<longleftrightarrow>
     keys_ok E suite v ts x (ep_aead me) \<and> (\<forall>p \<in> set (ep_sent me). sealed_ok E suite v ts x p) \<and>
     log_ok (ae_InvalidPacketNumber E) (ua_keyPhase (ep_aead me)) (ua_firstSentWithCurrentKey (ep_aead me)) (ua_firstRcvdWithCurrentKey (ep_aead me))
       (sk_next (ep_gen me)) (ep_sent me) (ep_rcvd me) \<and>
     link_ok (ae_InvalidPacketNumber E) acked (ua_keyPhase (ep_aead me)) (ua_largestAcked (ep_aead me)) (ep_sent me) (ep_rcvd me)
       (ua_keyPhase (ep_aead you)) (ep_sent you) (ep_rcvd you)"

definition conn_ok ::
  "('k, 'h) aead_env \<Rightarrow> 'k cipherSuite \<Rightarrow> u32 \<Rightarrow> (side \<Rightarrow> bytes) \<Rightarrow> (bytes \<Rightarrow> int option) \<Rightarrow> ('k, 'h) network \<Rightarrow> bool" where
  "conn_ok E suite v ts acked n \<longleftrightarrow> (\<forall>x. end_ok E suite v ts acked x (n x) (n (peer x)))"

lemma all_sides: "(\<forall>z. P z) \<longleftrightarrow> P x \<and> P (peer x)"
  by (metis other_side)

lemma conn_ok_update:
  "conn_ok E suite v ts acked (n(x := e)) \<longleftrightarrow> end_ok E suite v ts acked x e (n (peer x)) \<and> end_ok E suite v ts acked (peer x) (n (peer x)) e"
  unfolding conn_ok_def all_sides [of _ x] by simp

lemma conn_okD:
  assumes "conn_ok E suite v ts acked n"
  shows "end_ok E suite v ts acked x (n x) (n (peer x))" "end_ok E suite v ts acked (peer x) (n (peer x)) (n x)"
  using assms all_sides [of "\<lambda>x. end_ok E suite v ts acked x (n x) (n (peer x))" x] by (simp_all add: conn_ok_def)

section \<open>Rolling the keys\<close>

lemma rollKeys_ok:
  assumes "keys_ok E suite v ts x a"
  obtains a' where "rollKeys E a = Some a'" "keys_ok E suite v ts x a'" "ua_keyPhase a' = Suc (ua_keyPhase a)" "ua_largestAcked a' = ua_largestAcked a"
    "ua_firstSentWithCurrentKey a' = ae_InvalidPacketNumber E" "ua_firstRcvdWithCurrentKey a' = ae_InvalidPacketNumber E" "ua_prevRcvAEAD a' \<noteq> None"
    "ua_nonceBuf a' = ua_nonceBuf a" "ua_handshakeConfirmed a' = ua_handshakeConfirmed a" "ua_numRcvdWithCurrentKey a' = 0"
  using assms by (auto simp: rollKeys_def keys_ok_def Let_def next_traffic_secret simp flip: phase_key_def)

lemma log_ok_roll: "log_ok iv ph fs fr nxt sent rcvd \<Longrightarrow> log_ok iv (Suc ph) iv iv nxt sent rcvd"
  by (auto simp: log_ok_def)

text \<open>When an endpoint in phase \<open>ph\<close> may go on to the next phase.\<close>

definition may_roll :: "nat \<Rightarrow> nat \<Rightarrow> packet list \<Rightarrow> packet list \<Rightarrow> bool" where
  "may_roll ph ph' sent' rcvd' \<longleftrightarrow>
     ph \<le> ph' \<and> (ph' = ph \<longrightarrow> ph = 0 \<or> (\<exists>r \<in> set rcvd'. pk_phase r = ph) \<and> (\<exists>s \<in> set sent'. pk_phase s = ph))"

lemma link_ok_roll:
  assumes "may_roll ph ph' sent' rcvd'"
  shows "link_ok iv acked ph la sent rcvd ph' sent' rcvd' \<Longrightarrow> link_ok iv acked ph' la' sent' rcvd' ph sent rcvd \<Longrightarrow> link_ok iv acked (Suc ph) la sent rcvd ph' sent' rcvd'"
    "link_ok iv acked ph' la' sent' rcvd' ph sent rcvd \<Longrightarrow> link_ok iv acked ph' la' sent' rcvd' (Suc ph) sent rcvd"
  using assms by (auto simp: link_ok_def may_roll_def)

lemma roll_end:
  assumes me: "end_ok E suite v ts acked x me you" and you: "end_ok E suite v ts acked (peer x) you me"
    and may: "may_roll (ua_keyPhase (ep_aead me)) (ua_keyPhase (ep_aead you)) (ep_sent you) (ep_rcvd you)" and roll: "rollKeys E (ep_aead me) = Some a"
  shows "end_ok E suite v ts acked x (me\<lparr>ep_aead := a\<rparr>) you" "end_ok E suite v ts acked (peer x) you (me\<lparr>ep_aead := a\<rparr>)"
proof -
  have "keys_ok E suite v ts x (ep_aead me)"
    using me by (simp add: end_ok_def)
  then obtain "keys_ok E suite v ts x a" "ua_keyPhase a = Suc (ua_keyPhase (ep_aead me))" "ua_largestAcked a = ua_largestAcked (ep_aead me)"
      "ua_firstSentWithCurrentKey a = ae_InvalidPacketNumber E" "ua_firstRcvdWithCurrentKey a = ae_InvalidPacketNumber E"
    using roll by (auto elim: rollKeys_ok)
  then show "end_ok E suite v ts acked x (me\<lparr>ep_aead := a\<rparr>) you" "end_ok E suite v ts acked (peer x) you (me\<lparr>ep_aead := a\<rparr>)"
    using me you link_ok_roll [OF may] log_ok_roll by (auto simp: end_ok_def)
qed

text \<open>An update that an endpoint starts on its own is allowed: a packet of this phase has arrived at the peer, who has answered in it.\<close>

lemma update_may_roll:
  assumes me: "end_ok E suite v ts acked x me you" and you: "end_ok E suite v ts acked (peer x) you me" and allowed: "updateAllowed E (ep_aead me)"
  shows "may_roll (ua_keyPhase (ep_aead me)) (ua_keyPhase (ep_aead you)) (ep_sent you) (ep_rcvd you)"
proof (cases "ua_keyPhase (ep_aead me) = 0")
  case False
  define ph where "ph = ua_keyPhase (ep_aead me)"
  have fs: "ua_firstSentWithCurrentKey (ep_aead me) \<noteq> ae_InvalidPacketNumber E" "ua_largestAcked (ep_aead me) \<noteq> ae_InvalidPacketNumber E"
      "ua_firstSentWithCurrentKey (ep_aead me) \<le> ua_largestAcked (ep_aead me)"
    using allowed False by (auto simp: updateAllowed_def)
  obtain t s where t: "t \<in> set (ep_rcvd you)" "pk_pn t = ua_largestAcked (ep_aead me)" "s \<in> set (ep_sent you)" "pk_phase t \<le> pk_phase s"
    using me fs(2) by (auto simp: end_ok_def link_ok_def)
  have "t \<in> set (ep_sent me)"
    using you t(1) by (auto simp: end_ok_def link_ok_def)
  then have "pk_phase t = ph"
    using me fs t(2) by (fastforce simp: end_ok_def log_ok_def ph_def)
  moreover have "pk_phase t \<le> ua_keyPhase (ep_aead you)" "pk_phase s \<le> ua_keyPhase (ep_aead you)"
    using you t by (auto simp: end_ok_def log_ok_def)
  ultimately show ?thesis
    using t by (auto simp: may_roll_def ph_def)
qed (simp add: may_roll_def)

lemma poll_end:
  assumes me: "end_ok E suite v ts acked x me you" and you: "end_ok E suite v ts acked (peer x) you me"
  obtains a where "ua_KeyPhase E (ep_aead me) = Some (a, KeyPhase_Bit (ua_keyPhase a))" "end_ok E suite v ts acked x (me\<lparr>ep_aead := a\<rparr>) you"
    "end_ok E suite v ts acked (peer x) you (me\<lparr>ep_aead := a\<rparr>)"
proof (cases "shouldInitiateKeyUpdate E (ep_aead me)")
  case True
  have "keys_ok E suite v ts x (ep_aead me)"
    using me by (simp add: end_ok_def)
  then obtain a where a: "rollKeys E (ep_aead me) = Some a"
    by (auto elim: rollKeys_ok)
  moreover have "may_roll (ua_keyPhase (ep_aead me)) (ua_keyPhase (ep_aead you)) (ep_sent you) (ep_rcvd you)"
    using True by (intro update_may_roll [OF me you]) (simp add: shouldInitiateKeyUpdate_def)
  ultimately show ?thesis
    using True roll_end [OF me you] by (intro that [of a]) (auto simp: ua_KeyPhase_def)
next
  case False
  then show ?thesis
    using me you by (intro that [of "ep_aead me"]) (auto simp: ua_KeyPhase_def)
qed

section \<open>Sending\<close>

lemma put_nonce_ok:
  assumes "8 \<le> N" and "length buf = N" and "take (N - 8) buf = replicate (N - 8) 0"
  shows "put_nonce buf pn = Some (nonce_of N pn)"
  using assms by (simp add: put_nonce_def nonce_of_def)

lemma nonce_of_ok [simp]: "8 \<le> N \<Longrightarrow> length (nonce_of N pn) = N" "take (N - 8) (nonce_of N pn) = replicate (N - 8) 0"
  by (simp_all add: nonce_of_def)

lemma log_ok_send:
  assumes "log_ok iv ph fs fr nxt sent rcvd" and "iv < 0" and "nxt \<le> pk_pn p" and "pk_pn p < nxt'" and "pk_phase p = ph"
  shows "log_ok iv ph (if fs = iv then pk_pn p else fs) fr nxt' (p # sent) rcvd"
  using assms unfolding log_ok_def by force

lemma link_ok_send:
  assumes "acked (pk_data p) = None \<or> (\<exists>q \<in> set rcvd. acked (pk_data p) = Some (pk_pn q))" and "pk_phase p = ph" and "\<forall>q \<in> set rcvd. pk_phase q \<le> ph"
  shows "link_ok iv acked ph la sent rcvd ph' sent' rcvd' \<Longrightarrow> link_ok iv acked ph la (p # sent) rcvd ph' sent' rcvd'"
    "link_ok iv acked ph' la' sent' rcvd' ph sent rcvd \<Longrightarrow> link_ok iv acked ph' la' sent' rcvd' ph (p # sent) rcvd"
  using assms by (auto simp: link_ok_def)

lemma ua_Seal_ok:
  assumes ciphers: "packet_ciphers E suite v ts" and keys: "keys_ok E suite v ts x a"
  obtains a' where "ua_Seal E d pn ad a = Some (a', ae_Seal E (phase_key E suite v (ts x) (ua_keyPhase a)) (nonce_of (ae_NonceSize E (phase_key E suite v (ts Server) 0)) pn) d ad)"
    "keys_ok E suite v ts x a'" "ua_keyPhase a' = ua_keyPhase a" "ua_largestAcked a' = ua_largestAcked a"
    "ua_firstSentWithCurrentKey a' = (if ua_firstSentWithCurrentKey a = ae_InvalidPacketNumber E then pn else ua_firstSentWithCurrentKey a)"
    "ua_firstRcvdWithCurrentKey a' = ua_firstRcvdWithCurrentKey a"
proof -
  define N where "N = ae_NonceSize E (phase_key E suite v (ts Server) 0)"
  note N = nonce_size [OF ciphers, folded N_def]
  define a1 where "a1 = (if ua_firstSentWithCurrentKey a = ae_InvalidPacketNumber E then a\<lparr>ua_firstSentWithCurrentKey := pn\<rparr> else a)"
  define a2 where "a2 = (if ua_firstPacketNumber a1 = ae_InvalidPacketNumber E then a1\<lparr>ua_firstPacketNumber := pn\<rparr> else a1)"
  define a' where "a' = a2\<lparr>ua_numSentWithCurrentKey := ua_numSentWithCurrentKey a2 + 1, ua_nonceBuf := nonce_of N pn\<rparr>"
  have a2: "ua_nonceBuf a2 = ua_nonceBuf a" "ua_sendAEAD a2 = Some (phase_key E suite v (ts x) (ua_keyPhase a))" "keys_ok E suite v ts x a2"
    using keys by (auto simp: a2_def a1_def keys_ok_def Let_def)
  have "put_nonce (ua_nonceBuf a) pn = Some (nonce_of N pn)"
    using keys by (intro put_nonce_ok [OF N]) (auto simp: keys_ok_def Let_def N_def)
  then have "ua_Seal E d pn ad a = Some (a', ae_Seal E (phase_key E suite v (ts x) (ua_keyPhase a)) (nonce_of N pn) d ad)"
    using a2 by (simp add: ua_Seal_def a'_def flip: a1_def a2_def)
  moreover have "keys_ok E suite v ts x a'"
    using a2(3) N by (simp add: a'_def keys_ok_def Let_def flip: N_def)
  ultimately show ?thesis
    by (intro that [of a']) (simp_all add: a'_def a2_def a1_def N_def)
qed

lemma send_end:
  assumes ciphers: "packet_ciphers E suite v ts" and me: "end_ok E suite v ts acked x me you" and you: "end_ok E suite v ts acked (peer x) you me"
    and rnd: "\<And>k. 0 \<le> rnd k" and ack: "acked d = None \<or> (\<exists>q \<in> set (ep_rcvd me). acked d = Some (pk_pn q))"
  obtains ep where "send_packet E rnd d ad me = Some ep" "end_ok E suite v ts acked x ep you" "end_ok E suite v ts acked (peer x) you ep"
proof -
  define N iv where "N = ae_NonceSize E (phase_key E suite v (ts Server) 0)" and "iv = ae_InvalidPacketNumber E"
  have N: "8 \<le> N" and iv: "iv < 0"
    using nonce_size [OF ciphers] invalid_number [OF ciphers] by (simp_all add: N_def iv_def)
  obtain a where a: "ua_KeyPhase E (ep_aead me) = Some (a, KeyPhase_Bit (ua_keyPhase a))" "end_ok E suite v ts acked x (me\<lparr>ep_aead := a\<rparr>) you"
      "end_ok E suite v ts acked (peer x) you (me\<lparr>ep_aead := a\<rparr>)"
    by (rule poll_end [OF me you])
  obtain g skipped pn where g: "sk_Pop rnd (ep_gen me) = (g, skipped, pn)"
    by (cases "sk_Pop rnd (ep_gen me)")
  note pn = sk_Pop_increases [OF rnd g]
  have keys: "keys_ok E suite v ts x a"
    using a(2) by (simp add: end_ok_def)
  define ct where "ct = ae_Seal E (phase_key E suite v (ts x) (ua_keyPhase a)) (nonce_of N pn) d ad"
  define p where "p = \<lparr>pk_pn = pn, pk_kp = KeyPhase_Bit (ua_keyPhase a), pk_ad = ad, pk_ct = ct, pk_data = d, pk_phase = ua_keyPhase a\<rparr>"
  obtain a' where a': "ua_Seal E d pn ad a = Some (a', ct)" "keys_ok E suite v ts x a'" "ua_keyPhase a' = ua_keyPhase a" "ua_largestAcked a' = ua_largestAcked a"
      "ua_firstSentWithCurrentKey a' = (if ua_firstSentWithCurrentKey a = iv then pn else ua_firstSentWithCurrentKey a)" "ua_firstRcvdWithCurrentKey a' = ua_firstRcvdWithCurrentKey a"
    by (rule ua_Seal_ok [OF ciphers keys, of d pn ad, folded N_def iv_def, folded ct_def])
  have pp: "pk_pn p = pn" "pk_data p = d" "pk_phase p = ua_keyPhase a"
    by (simp_all add: p_def)
  define ep where "ep = me\<lparr>ep_aead := a', ep_gen := g, ep_sent := p # ep_sent me\<rparr>"
  have send: "send_packet E rnd d ad me = Some ep"
    by (simp add: send_packet_def a(1) g a' p_def ep_def)
  have "sealed_ok E suite v ts x p"
    using pn(1) a(2) by (auto simp: sealed_ok_def p_def ct_def N_def end_ok_def log_ok_def)
  moreover have "log_ok iv (ua_keyPhase a) (ua_firstSentWithCurrentKey a') (ua_firstRcvdWithCurrentKey a) (sk_next g) (p # ep_sent me) (ep_rcvd me)"
    using a(2) iv pn unfolding a'(5) pp(1) [symmetric] by (intro log_ok_send [where nxt = "sk_next (ep_gen me)"]) (simp_all add: end_ok_def iv_def pp)
  moreover have "\<forall>q \<in> set (ep_rcvd me). pk_phase q \<le> ua_keyPhase a"
    using a(2) by (simp add: end_ok_def log_ok_def)
  ultimately show ?thesis
    using a(2,3) a'(2-4,6) link_ok_send [of acked p "ep_rcvd me" "ua_keyPhase a"] ack by (intro that [OF send]) (simp_all add: end_ok_def ep_def pp iv_def)
qed

section \<open>Receiving\<close>

text \<open>What does not change the phase, nor what is remembered of it, keeps the invariant.\<close>

definition same_phase :: "('k, 'h) updatableAEAD \<Rightarrow> ('k, 'h) updatableAEAD \<Rightarrow> bool" where
  "same_phase a a' \<longleftrightarrow>
     ua_keyPhase a' = ua_keyPhase a \<and> ua_largestAcked a' = ua_largestAcked a \<and> ua_firstSentWithCurrentKey a' = ua_firstSentWithCurrentKey a \<and>
     ua_firstRcvdWithCurrentKey a' = ua_firstRcvdWithCurrentKey a"

lemma quiet_end:
  assumes "end_ok E suite v ts acked x me you" "end_ok E suite v ts acked (peer x) you me" "keys_ok E suite v ts x a" "same_phase (ep_aead me) a"
  shows "end_ok E suite v ts acked x (me\<lparr>ep_aead := a\<rparr>) you" "end_ok E suite v ts acked (peer x) you (me\<lparr>ep_aead := a\<rparr>)"
  using assms by (simp_all add: end_ok_def same_phase_def)

lemma acked_packet:
  assumes "end_ok E suite v ts acked x you me" and "p \<in> set (ep_sent you)" and "acked (pk_data p) = Some n"
  obtains r where "r \<in> set (ep_rcvd you)" "r \<in> set (ep_sent me)" "pk_pn r = n" "pk_phase r \<le> pk_phase p"
proof -
  have "\<forall>q \<in> set (ep_sent you). \<forall>n. acked (pk_data q) = Some n \<longrightarrow> (\<exists>r \<in> set (ep_rcvd you). pk_pn r = n \<and> pk_phase r \<le> pk_phase q)"
      "set (ep_rcvd you) \<subseteq> set (ep_sent me)"
    using assms(1) by (simp_all add: end_ok_def link_ok_def)
  then show ?thesis
    using assms(2,3) that by blast
qed

lemma log_ok_receive:
  assumes "log_ok iv ph fs fr nxt sent rcvd" and "iv < pk_pn p" and "pk_phase p \<le> ph"
  shows "log_ok iv ph fs (if pk_phase p = ph \<and> fr = iv then pk_pn p else fr) nxt sent (p # rcvd)"
  using assms by (auto simp: log_ok_def)

lemma receive_end:
  assumes ciphers: "packet_ciphers E suite v ts" and me: "end_ok E suite v ts acked x me you" and you: "end_ok E suite v ts acked (peer x) you me"
    and p: "p \<in> set (ep_sent you)" "pk_phase p \<le> ua_keyPhase (ep_aead me)"
    and a: "keys_ok E suite v ts x a" "ua_keyPhase a = ua_keyPhase (ep_aead me)" "ua_firstSentWithCurrentKey a = ua_firstSentWithCurrentKey (ep_aead me)"
      "ua_firstRcvdWithCurrentKey a = (if pk_phase p = ua_keyPhase (ep_aead me) \<and> ua_firstRcvdWithCurrentKey (ep_aead me) = ae_InvalidPacketNumber E
         then pk_pn p else ua_firstRcvdWithCurrentKey (ep_aead me))"
      "ua_largestAcked a = (case acked (pk_data p) of None \<Rightarrow> ua_largestAcked (ep_aead me) | Some n \<Rightarrow> n)"
  shows "end_ok E suite v ts acked x (me\<lparr>ep_aead := a, ep_rcvd := p # ep_rcvd me\<rparr>) you" "end_ok E suite v ts acked (peer x) you (me\<lparr>ep_aead := a, ep_rcvd := p # ep_rcvd me\<rparr>)"
proof -
  define iv where "iv = ae_InvalidPacketNumber E"
  have "iv < pk_pn p"
    using you p(1) invalid_number [OF ciphers] by (auto simp: end_ok_def sealed_ok_def iv_def)
  then have log: "log_ok iv (ua_keyPhase a) (ua_firstSentWithCurrentKey a) (ua_firstRcvdWithCurrentKey a) (sk_next (ep_gen me)) (ep_sent me) (p # ep_rcvd me)"
    using me p(2) unfolding a(2-4) iv_def by (intro log_ok_receive) (simp_all add: end_ok_def)
  have "ua_largestAcked a = iv \<or> (\<exists>t \<in> set (ep_rcvd you). pk_pn t = ua_largestAcked a \<and> (\<exists>s \<in> set (ep_sent you). pk_phase t \<le> pk_phase s))"
  proof (cases "acked (pk_data p)")
    case (Some n)
    then obtain r where "r \<in> set (ep_rcvd you)" "pk_pn r = n" "pk_phase r \<le> pk_phase p"
      by (rule acked_packet [where acked = acked, OF you p(1)])
    then show ?thesis
      using Some p(1) a(5) by auto
  qed (use me a(5) in \<open>auto simp: end_ok_def link_ok_def iv_def\<close>)
  then show "end_ok E suite v ts acked x (me\<lparr>ep_aead := a, ep_rcvd := p # ep_rcvd me\<rparr>) you"
    using me a(1,2) p(1) log by (auto simp: end_ok_def link_ok_def iv_def)
  show "end_ok E suite v ts acked (peer x) you (me\<lparr>ep_aead := a, ep_rcvd := p # ep_rcvd me\<rparr>)"
    using you a(2) by (auto simp: end_ok_def link_ok_def)
qed

lemma drop_expired_ok:
  assumes "keys_ok E suite v ts x a"
  shows "keys_ok E suite v ts x (drop_expired now a)" "same_phase a (drop_expired now a)" "ua_nonceBuf (drop_expired now a) = ua_nonceBuf a"
    "ua_numRcvdWithCurrentKey (drop_expired now a) = ua_numRcvdWithCurrentKey a"
  using assms by (auto simp: drop_expired_def keys_ok_def same_phase_def Let_def)

text \<open>The state in which \<^verbatim>\<open>open\<close> chooses a key.\<close>

definition prepared :: "('k, 'h) aead_env \<Rightarrow> 'k cipherSuite \<Rightarrow> u32 \<Rightarrow> (side \<Rightarrow> bytes) \<Rightarrow> int \<Rightarrow> int \<Rightarrow> ('k, 'h) updatableAEAD \<Rightarrow> ('k, 'h) updatableAEAD" where
  "prepared E suite v ts now pn a = (drop_expired now a)\<lparr>ua_nonceBuf := nonce_of (ae_NonceSize E (phase_key E suite v (ts Server) 0)) pn\<rparr>"

lemma prepared_ok:
  assumes "packet_ciphers E suite v ts" and "keys_ok E suite v ts x a"
  shows "keys_ok E suite v ts x (prepared E suite v ts now pn a)" "same_phase a (prepared E suite v ts now pn a)"
    "ua_nonceBuf (prepared E suite v ts now pn a) = nonce_of (ae_NonceSize E (phase_key E suite v (ts Server) 0)) pn"
proof -
  define N where "N = ae_NonceSize E (phase_key E suite v (ts Server) 0)"
  note N = nonce_size [OF assms(1), folded N_def]
  show "keys_ok E suite v ts x (prepared E suite v ts now pn a)"
    using drop_expired_ok(1) [OF assms(2), of now] N by (simp add: prepared_def keys_ok_def Let_def flip: N_def)
qed (use drop_expired_ok [OF assms(2)] in \<open>simp_all add: prepared_def same_phase_def\<close>)

lemma ua_open_prepared:
  assumes "packet_ciphers E suite v ts" and "keys_ok E suite v ts x a"
  shows "ua_open E pto src now pn kp ad a =
    (let a' = prepared E suite v ts now pn a
     in if kp \<noteq> KeyPhase_Bit (ua_keyPhase a) then
          (if 0 < ua_keyPhase a \<and> ua_firstRcvdWithCurrentKey a = ae_InvalidPacketNumber E \<or> pn < ua_firstRcvdWithCurrentKey a
           then Some (a', open_previous E src ad a') else open_next E pto src now pn ad a')
        else open_current E pto src now pn ad a')"
proof -
  have "put_nonce (ua_nonceBuf (drop_expired now a)) pn = Some (nonce_of (ae_NonceSize E (phase_key E suite v (ts Server) 0)) pn)"
    using drop_expired_ok(1) [OF assms(2), of now] by (intro put_nonce_ok [OF nonce_size [OF assms(1)]]) (auto simp: keys_ok_def Let_def)
  then show ?thesis
    using drop_expired_ok(2) [OF assms(2), of now] by (simp add: ua_open_def same_phase_def prepared_def Let_def)
qed

text \<open>What becomes of the result of \<^verbatim>\<open>open\<close>.\<close>

lemma receive_error:
  assumes "ua_open E pto (pk_ct p) now (pk_pn p) (pk_kp p) (pk_ad p) (ep_aead me) = Some (a, Inl e)" and "keys_ok E suite v ts x a" and "same_phase (ep_aead me) a"
    and "end_ok E suite v ts acked x me you" and "end_ok E suite v ts acked (peer x) you me"
  obtains ep e' where "receive_packet E acked pto now p me = Some (ep, Inl e')" "end_ok E suite v ts acked x ep you" "end_ok E suite v ts acked (peer x) you ep"
    "e' = e \<or> e = ErrDecryptionFailed \<and> e' = AEADLimitReached"
proof -
  define a' where "a' = (if e = ErrDecryptionFailed then a\<lparr>ua_invalidPacketCount := ua_invalidPacketCount a + 1\<rparr> else a)"
  define e' where "e' = (if e = ErrDecryptionFailed \<and> ua_invalidPacketLimit a' \<le> ua_invalidPacketCount a' then AEADLimitReached else e)"
  have "receive_packet E acked pto now p me = Some (me\<lparr>ep_aead := a'\<rparr>, Inl e')"
    by (simp add: receive_packet_def ua_Open_def assms(1) a'_def e'_def)
  moreover have "keys_ok E suite v ts x a'" "same_phase (ep_aead me) a'"
    using assms(2,3) by (auto simp: a'_def keys_ok_def same_phase_def)
  ultimately show ?thesis
    using quiet_end [OF assms(4,5)] by (intro that) (auto simp: e'_def split: if_splits)
qed

lemma receive_opened:
  assumes ciphers: "packet_ciphers E suite v ts" and me: "end_ok E suite v ts acked x me you" and you: "end_ok E suite v ts acked (peer x) you me"
    and p: "p \<in> set (ep_sent you)" "pk_phase p \<le> ua_keyPhase (ep_aead me)"
    and opened: "ua_open E pto (pk_ct p) now (pk_pn p) (pk_kp p) (pk_ad p) b = Some (a, Inr (pk_data p))"
    and a: "keys_ok E suite v ts x a" "ua_keyPhase a = ua_keyPhase (ep_aead me)" "ua_firstSentWithCurrentKey a = ua_firstSentWithCurrentKey (ep_aead me)"
      "ua_firstRcvdWithCurrentKey a = (if pk_phase p = ua_keyPhase (ep_aead me) \<and> ua_firstRcvdWithCurrentKey (ep_aead me) = ae_InvalidPacketNumber E
         then pk_pn p else ua_firstRcvdWithCurrentKey (ep_aead me))" "ua_largestAcked a = ua_largestAcked (ep_aead me)"
    and fresh: "pk_phase p = ua_keyPhase a \<Longrightarrow> ua_firstSentWithCurrentKey a = ae_InvalidPacketNumber E \<or> 0 < ua_numRcvdWithCurrentKey a"
  shows "\<exists>ep. receive_packet E acked pto now p (me\<lparr>ep_aead := b\<rparr>) = Some (ep, Inr (pk_data p)) \<and> end_ok E suite v ts acked x ep you \<and> end_ok E suite v ts acked (peer x) you ep"
proof -
  define a1 where "a1 = a\<lparr>ua_highestRcvdPN := max (ua_highestRcvdPN a) (pk_pn p)\<rparr>"
  define a2 where "a2 = (case acked (pk_data p) of None \<Rightarrow> a1 | Some n \<Rightarrow> a1\<lparr>ua_largestAcked := n\<rparr>)"
  have ack: "SetLargestAcked E n a1 = (a1\<lparr>ua_largestAcked := n\<rparr>, None)" if n: "acked (pk_data p) = Some n" for n
  proof -
    obtain r where r: "r \<in> set (ep_sent me)" "pk_pn r = n" "pk_phase r \<le> pk_phase p"
      by (rule acked_packet [where acked = acked, OF you p(1) n])
    then have "pk_phase p < ua_keyPhase a \<and> ua_firstSentWithCurrentKey a \<noteq> ae_InvalidPacketNumber E \<longrightarrow> n < ua_firstSentWithCurrentKey a"
      using me a(2,3) by (auto simp: end_ok_def log_ok_def)
    then show ?thesis
      using fresh p(2) a(2) by (cases "pk_phase p = ua_keyPhase a") (auto simp: SetLargestAcked_def a1_def)
  qed
  have "receive_packet E acked pto now p (me\<lparr>ep_aead := b\<rparr>) = Some (me\<lparr>ep_aead := a2, ep_rcvd := p # ep_rcvd me\<rparr>, Inr (pk_data p))"
    by (simp add: receive_packet_def ua_Open_def opened a2_def ack flip: a1_def split: option.split)
  moreover have "keys_ok E suite v ts x a2"
    using a(1) by (auto simp: a2_def a1_def keys_ok_def split: option.split)
  moreover have "ua_largestAcked a2 = (case acked (pk_data p) of None \<Rightarrow> ua_largestAcked (ep_aead me) | Some n \<Rightarrow> n)"
    using a(5) by (simp add: a2_def a1_def split: option.split)
  moreover have "ua_keyPhase a2 = ua_keyPhase a" "ua_firstSentWithCurrentKey a2 = ua_firstSentWithCurrentKey a" "ua_firstRcvdWithCurrentKey a2 = ua_firstRcvdWithCurrentKey a"
    by (simp_all add: a2_def a1_def split: option.split)
  ultimately show ?thesis
    using receive_end [OF ciphers me you p, of a2] a(2-4) by (intro exI conjI) auto
qed

text \<open>A packet of an earlier phase has a smaller number than those of the current one.\<close>

lemma older_packet:
  assumes me: "end_ok E suite v ts acked x me you" and you: "end_ok E suite v ts acked (peer x) you me"
    and p: "p \<in> set (ep_sent you)" "pk_phase p < ua_keyPhase (ep_aead me)"
  shows "0 < ua_keyPhase (ep_aead me) \<and> ua_firstRcvdWithCurrentKey (ep_aead me) = ae_InvalidPacketNumber E \<or> pk_pn p < ua_firstRcvdWithCurrentKey (ep_aead me)"
proof (cases "ua_firstRcvdWithCurrentKey (ep_aead me) = ae_InvalidPacketNumber E")
  case False
  then obtain q where q: "q \<in> set (ep_rcvd me)" "pk_pn q = ua_firstRcvdWithCurrentKey (ep_aead me)" "pk_phase q = ua_keyPhase (ep_aead me)"
    using me by (auto simp: end_ok_def log_ok_def)
  then have "q \<in> set (ep_sent you)"
    using me by (auto simp: end_ok_def link_ok_def)
  moreover have "\<forall>p \<in> set (ep_sent you). \<forall>q \<in> set (ep_sent you). pk_phase p < pk_phase q \<longrightarrow> pk_pn p < pk_pn q"
    using you by (simp add: end_ok_def log_ok_def)
  ultimately show ?thesis
    using p q by (metis (no_types))
qed (use p in simp)

text \<open>A packet of the current phase, of the one before and of the next.\<close>

lemma bit_parity: "KeyPhase_Bit i = KeyPhase_Bit j \<longleftrightarrow> even i = even j"
  by (auto simp: KeyPhase_Bit_def even_iff_mod_2_eq_zero)

lemma sealed_open:
  assumes ciphers: "packet_ciphers E suite v ts" and p: "sealed_ok E suite v ts x p"
  shows "ae_Open E (phase_key E suite v (ts x) (pk_phase p)) (nonce_of (ae_NonceSize E (phase_key E suite v (ts Server) 0)) (pk_pn p)) (pk_ct p) (pk_ad p) = Some (pk_data p)"
  using p open_seal [OF ciphers] by (simp add: sealed_ok_def)

lemma open_current_ok:
  assumes ciphers: "packet_ciphers E suite v ts" and sealed: "sealed_ok E suite v ts (peer x) p" and keys: "keys_ok E suite v ts x a"
    and a: "pk_phase p = ua_keyPhase a" "ua_nonceBuf a = nonce_of (ae_NonceSize E (phase_key E suite v (ts Server) 0)) (pk_pn p)"
  obtains a' where "open_current E pto (pk_ct p) now (pk_pn p) (pk_ad p) a = Some (a', Inr (pk_data p))" "keys_ok E suite v ts x a'" "ua_keyPhase a' = ua_keyPhase a"
    "ua_firstSentWithCurrentKey a' = ua_firstSentWithCurrentKey a" "ua_largestAcked a' = ua_largestAcked a" "0 < ua_numRcvdWithCurrentKey a'"
    "ua_firstRcvdWithCurrentKey a' = (if ua_firstRcvdWithCurrentKey a = ae_InvalidPacketNumber E then pk_pn p else ua_firstRcvdWithCurrentKey a)"
proof -
  define a1 where "a1 = a\<lparr>ua_numRcvdWithCurrentKey := ua_numRcvdWithCurrentKey a + 1\<rparr>"
  define a2 where "a2 = (if 0 < ua_keyPhase a1 then startKeyDropTimer pto now a1 else a1)"
  define a' where "a' = (if ua_firstRcvdWithCurrentKey a1 = ae_InvalidPacketNumber E then a2\<lparr>ua_firstRcvdWithCurrentKey := pk_pn p\<rparr> else a1)"
  have "ua_rcvAEAD a = Some (phase_key E suite v (ts (peer x)) (ua_keyPhase a))"
    using keys by (simp add: keys_ok_def Let_def)
  then have "open_current E pto (pk_ct p) now (pk_pn p) (pk_ad p) a = Some (a', Inr (pk_data p))"
    using a sealed_open [OF ciphers sealed] by (simp add: open_current_def a'_def a2_def a1_def Let_def)
  moreover have "ae_InvalidPacketNumber E \<noteq> pk_pn p"
    using sealed invalid_number [OF ciphers] by (simp add: sealed_ok_def)
  then have "keys_ok E suite v ts x a'"
    using keys by (auto simp: a'_def a2_def a1_def keys_ok_def Let_def startKeyDropTimer_def)
  ultimately show ?thesis
    by (intro that [of a']) (simp_all add: a'_def a2_def a1_def startKeyDropTimer_def)
qed

lemma receive_current:
  assumes ciphers: "packet_ciphers E suite v ts" and me: "end_ok E suite v ts acked x me you" and you: "end_ok E suite v ts acked (peer x) you me"
    and p: "p \<in> set (ep_sent you)" "pk_phase p = ua_keyPhase (ep_aead me)"
  shows "\<exists>ep. receive_packet E acked pto now p me = Some (ep, Inr (pk_data p)) \<and> end_ok E suite v ts acked x ep you \<and> end_ok E suite v ts acked (peer x) you ep"
proof -
  have keys: "keys_ok E suite v ts x (ep_aead me)" and sealed: "sealed_ok E suite v ts (peer x) p"
    using me you p(1) by (simp_all add: end_ok_def)
  define a where "a = prepared E suite v ts now (pk_pn p) (ep_aead me)"
  note a = prepared_ok [OF ciphers keys, of now "pk_pn p", folded a_def]
  have opn: "ua_open E pto (pk_ct p) now (pk_pn p) (pk_kp p) (pk_ad p) (ep_aead me) = open_current E pto (pk_ct p) now (pk_pn p) (pk_ad p) a"
    using sealed p(2) by (simp add: ua_open_prepared [OF ciphers keys] sealed_ok_def a_def)
  have ph: "pk_phase p = ua_keyPhase a"
    using a(2) p(2) by (simp add: same_phase_def)
  obtain a' where a': "open_current E pto (pk_ct p) now (pk_pn p) (pk_ad p) a = Some (a', Inr (pk_data p))" "keys_ok E suite v ts x a'" "ua_keyPhase a' = ua_keyPhase a"
      "ua_firstSentWithCurrentKey a' = ua_firstSentWithCurrentKey a" "ua_largestAcked a' = ua_largestAcked a" "0 < ua_numRcvdWithCurrentKey a'"
      "ua_firstRcvdWithCurrentKey a' = (if ua_firstRcvdWithCurrentKey a = ae_InvalidPacketNumber E then pk_pn p else ua_firstRcvdWithCurrentKey a)"
    by (rule open_current_ok [OF ciphers sealed a(1) ph a(3)])
  then show ?thesis
    using receive_opened [OF ciphers me you p(1), of pto now "ep_aead me" a'] a(2) opn p(2) by (simp add: same_phase_def)
qed

lemma receive_previous:
  assumes ciphers: "packet_ciphers E suite v ts" and me: "end_ok E suite v ts acked x me you" and you: "end_ok E suite v ts acked (peer x) you me"
    and p: "p \<in> set (ep_sent you)" "Suc (pk_phase p) = ua_keyPhase (ep_aead me)"
  obtains (opened) ep where "receive_packet E acked pto now p me = Some (ep, Inr (pk_data p))" "end_ok E suite v ts acked x ep you" "end_ok E suite v ts acked (peer x) you ep"
    | (dropped) ep where "receive_packet E acked pto now p me = Some (ep, Inl ErrKeysDropped)" "end_ok E suite v ts acked x ep you" "end_ok E suite v ts acked (peer x) you ep"
      "ua_firstRcvdWithCurrentKey (ep_aead me) \<noteq> ae_InvalidPacketNumber E"
proof -
  have keys: "keys_ok E suite v ts x (ep_aead me)" and sealed: "sealed_ok E suite v ts (peer x) p"
    using me you p(1) by (simp_all add: end_ok_def)
  have older: "0 < ua_keyPhase (ep_aead me) \<and> ua_firstRcvdWithCurrentKey (ep_aead me) = ae_InvalidPacketNumber E \<or> pk_pn p < ua_firstRcvdWithCurrentKey (ep_aead me)"
    by (rule older_packet [OF me you p(1)]) (use p(2) in simp)
  have kp: "pk_kp p \<noteq> KeyPhase_Bit (ua_keyPhase (ep_aead me))"
    using sealed unfolding p(2) [symmetric] by (simp add: sealed_ok_def bit_parity)
  define a where "a = prepared E suite v ts now (pk_pn p) (ep_aead me)"
  note a = prepared_ok [OF ciphers keys, of now "pk_pn p", folded a_def]
  have opn: "ua_open E pto (pk_ct p) now (pk_pn p) (pk_kp p) (pk_ad p) (ep_aead me) = Some (a, open_previous E (pk_ct p) (pk_ad p) a)"
    using older kp unfolding ua_open_prepared [OF ciphers keys] a_def by (simp only: Let_def simp_thms if_True)
  show ?thesis
  proof (cases "ua_prevRcvAEAD a")
    case None
    then have "open_previous E (pk_ct p) (pk_ad p) a = Inl ErrKeysDropped" "ua_firstRcvdWithCurrentKey (ep_aead me) \<noteq> ae_InvalidPacketNumber E"
      using a(1,2) p(2) by (auto simp: open_previous_def keys_ok_def same_phase_def Let_def)
    then show ?thesis
      using receive_error [where acked = acked, OF _ a(1,2) me you, of pto p now ErrKeysDropped] opn dropped by auto
  next
    case (Some k)
    have "ua_keyPhase a = Suc (pk_phase p)"
      using a(2) p(2) by (simp add: same_phase_def)
    then have "k = phase_key E suite v (ts (peer x)) (pk_phase p)"
      using a(1) Some by (simp add: keys_ok_def Let_def)
    then have "open_previous E (pk_ct p) (pk_ad p) a = Inr (pk_data p)"
      using Some a(3) sealed_open [OF ciphers sealed] by (simp add: open_previous_def)
    then show ?thesis
      using receive_opened [OF ciphers me you p(1), of pto now "ep_aead me" a] a opn p(2) opened by (auto simp: same_phase_def)
  qed
qed

text \<open>A packet of the next phase: the peer has gone on, which it does only when this endpoint has received and sent packets of the current phase.\<close>

lemma newer_packet:
  assumes ciphers: "packet_ciphers E suite v ts" and me: "end_ok E suite v ts acked x me you" and you: "end_ok E suite v ts acked (peer x) you me"
    and p: "p \<in> set (ep_sent you)" "pk_phase p = Suc (ua_keyPhase (ep_aead me))"
  shows "ua_keyPhase (ep_aead you) = Suc (ua_keyPhase (ep_aead me))" "\<not> pk_pn p < ua_firstRcvdWithCurrentKey (ep_aead me)"
    "0 < ua_keyPhase (ep_aead me) \<longrightarrow> ua_firstRcvdWithCurrentKey (ep_aead me) \<noteq> ae_InvalidPacketNumber E \<and> ua_firstSentWithCurrentKey (ep_aead me) \<noteq> ae_InvalidPacketNumber E"
proof -
  have "ua_keyPhase (ep_aead you) \<le> Suc (ua_keyPhase (ep_aead me))" "pk_phase p \<le> ua_keyPhase (ep_aead you)"
    using you p(1) by (auto simp: end_ok_def link_ok_def log_ok_def)
  then show ph: "ua_keyPhase (ep_aead you) = Suc (ua_keyPhase (ep_aead me))"
    using p(2) by simp
  show "0 < ua_keyPhase (ep_aead me) \<longrightarrow> ua_firstRcvdWithCurrentKey (ep_aead me) \<noteq> ae_InvalidPacketNumber E \<and> ua_firstSentWithCurrentKey (ep_aead me) \<noteq> ae_InvalidPacketNumber E"
    using me ph by (fastforce simp: end_ok_def link_ok_def log_ok_def)
  show "\<not> pk_pn p < ua_firstRcvdWithCurrentKey (ep_aead me)"
  proof (cases "ua_firstRcvdWithCurrentKey (ep_aead me) = ae_InvalidPacketNumber E")
    case True
    then show ?thesis
      using you p(1) invalid_number [OF ciphers] by (auto simp: end_ok_def sealed_ok_def)
  next
    case False
    then obtain q where q: "q \<in> set (ep_rcvd me)" "pk_pn q = ua_firstRcvdWithCurrentKey (ep_aead me)" "pk_phase q = ua_keyPhase (ep_aead me)"
      using me by (auto simp: end_ok_def log_ok_def)
    have "set (ep_rcvd me) \<subseteq> set (ep_sent you)" "\<forall>p \<in> set (ep_sent you). \<forall>q \<in> set (ep_sent you). pk_phase p < pk_phase q \<longrightarrow> pk_pn p < pk_pn q"
      using me you by (simp_all add: end_ok_def link_ok_def log_ok_def)
    then have "pk_pn q < pk_pn p"
      using p q by (metis lessI subsetD)
    then show ?thesis
      using q(2) by simp
  qed
qed

lemma receive_next:
  assumes ciphers: "packet_ciphers E suite v ts" and me: "end_ok E suite v ts acked x me you" and you: "end_ok E suite v ts acked (peer x) you me"
    and p: "p \<in> set (ep_sent you)" "pk_phase p = Suc (ua_keyPhase (ep_aead me))"
  shows "\<exists>ep. receive_packet E acked pto now p me = Some (ep, Inr (pk_data p)) \<and> end_ok E suite v ts acked x ep you \<and> end_ok E suite v ts acked (peer x) you ep"
proof -
  have keys: "keys_ok E suite v ts x (ep_aead me)" and sealed: "sealed_ok E suite v ts (peer x) p"
    using me you p(1) by (simp_all add: end_ok_def)
  note newer = newer_packet [OF ciphers me you p]
  define a where "a = prepared E suite v ts now (pk_pn p) (ep_aead me)"
  note a = prepared_ok [OF ciphers keys, of now "pk_pn p", folded a_def]
  define me' where "me' = me\<lparr>ep_aead := a\<rparr>"
  have ends: "end_ok E suite v ts acked x me' you" "end_ok E suite v ts acked (peer x) you me'"
    using quiet_end [OF me you a(1,2)] by (simp_all add: me'_def)
  obtain b where b: "rollKeys E a = Some b" "keys_ok E suite v ts x b" "ua_keyPhase b = Suc (ua_keyPhase a)" "ua_largestAcked b = ua_largestAcked a"
      "ua_firstSentWithCurrentKey b = ae_InvalidPacketNumber E" "ua_firstRcvdWithCurrentKey b = ae_InvalidPacketNumber E" "ua_prevRcvAEAD b \<noteq> None"
    by (rule rollKeys_ok [OF a(1)])
  define c where "c = (startKeyDropTimer pto now b)\<lparr>ua_firstRcvdWithCurrentKey := pk_pn p\<rparr>"
  have kp: "pk_kp p \<noteq> KeyPhase_Bit (ua_keyPhase (ep_aead me))"
    using sealed by (simp add: sealed_ok_def bit_parity p(2))
  have opn: "ua_open E pto (pk_ct p) now (pk_pn p) (pk_kp p) (pk_ad p) (ep_aead me) = open_next E pto (pk_ct p) now (pk_pn p) (pk_ad p) a"
    using kp newer(2,3) unfolding ua_open_prepared [OF ciphers keys] a_def by (auto simp: Let_def)
  have "ua_nextRcvAEAD a = Some (phase_key E suite v (ts (peer x)) (pk_phase p))"
    using a(1,2) p(2) by (simp add: keys_ok_def same_phase_def Let_def)
  then have "open_next E pto (pk_ct p) now (pk_pn p) (pk_ad p) a = Some (c, Inr (pk_data p))"
    using a(2,3) newer(3) sealed_open [OF ciphers sealed] b(1) by (auto simp: open_next_def same_phase_def c_def Let_def)
  moreover have "may_roll (ua_keyPhase (ep_aead me')) (ua_keyPhase (ep_aead you)) (ep_sent you) (ep_rcvd you)"
    using newer(1) a(2) by (simp add: may_roll_def me'_def same_phase_def)
  then have "end_ok E suite v ts acked x (me'\<lparr>ep_aead := b\<rparr>) you" "end_ok E suite v ts acked (peer x) you (me'\<lparr>ep_aead := b\<rparr>)"
    using roll_end [OF ends] b(1) by (simp_all add: me'_def)
  moreover have "ae_InvalidPacketNumber E \<noteq> pk_pn p"
    using sealed invalid_number [OF ciphers] by (simp add: sealed_ok_def)
  then have "keys_ok E suite v ts x c"
    using b(2,3,6,7) by (auto simp: c_def keys_ok_def Let_def startKeyDropTimer_def)
  ultimately show ?thesis
    using receive_opened [OF ciphers, of acked x "me\<lparr>ep_aead := b\<rparr>" you p pto now "ep_aead me" c] opn p a(2) b(3-6)
    by (simp add: me'_def same_phase_def c_def startKeyDropTimer_def)
qed

text \<open>A packet of a phase that is long over, or one that nobody sealed, is turned down and changes nothing.\<close>

lemma receive_unreadable:
  assumes ciphers: "packet_ciphers E suite v ts" and me: "end_ok E suite v ts acked x me you" and you: "end_ok E suite v ts acked (peer x) you me"
    and unreadable: "unreadable E suite v ts x (ua_keyPhase (ep_aead me)) p"
  obtains ep e where "receive_packet E acked pto now p me = Some (ep, Inl e)" "e \<noteq> KeyUpdateError" "end_ok E suite v ts acked x ep you" "end_ok E suite v ts acked (peer x) you ep"
proof -
  have shut: "ae_Open E (phase_key E suite v (ts (peer x)) i) (nonce_of (ae_NonceSize E (phase_key E suite v (ts Server) 0)) (pk_pn p)) (pk_ct p) (pk_ad p) = None"
    if "i \<in> {ua_keyPhase (ep_aead me) - 1, ua_keyPhase (ep_aead me), Suc (ua_keyPhase (ep_aead me))}" for i
    using unreadable that by (auto simp: unreadable_def)
  have keys: "keys_ok E suite v ts x (ep_aead me)"
    using me by (simp add: end_ok_def)
  define a where "a = prepared E suite v ts now (pk_pn p) (ep_aead me)"
  note a = prepared_ok [OF ciphers keys, of now "pk_pn p", folded a_def]
  have "open_current E pto (pk_ct p) now (pk_pn p) (pk_ad p) a = Some (a, Inl ErrDecryptionFailed)"
    using a shut by (simp add: open_current_def keys_ok_def same_phase_def Let_def)
  moreover have "open_next E pto (pk_ct p) now (pk_pn p) (pk_ad p) a = Some (a, Inl ErrDecryptionFailed)"
    using a shut by (simp add: open_next_def keys_ok_def same_phase_def Let_def)
  moreover have "ua_prevRcvAEAD a = None \<or> ua_prevRcvAEAD a = Some (phase_key E suite v (ts (peer x)) (ua_keyPhase (ep_aead me) - 1))"
    using a(1,2) by (auto simp: keys_ok_def same_phase_def Let_def)
  then have "open_previous E (pk_ct p) (pk_ad p) a = Inl ErrKeysDropped \<or> open_previous E (pk_ct p) (pk_ad p) a = Inl ErrDecryptionFailed"
    using a(3) shut by (elim disjE) (simp_all add: open_previous_def)
  ultimately have "\<exists>e. ua_open E pto (pk_ct p) now (pk_pn p) (pk_kp p) (pk_ad p) (ep_aead me) = Some (a, Inl e) \<and> (e = ErrKeysDropped \<or> e = ErrDecryptionFailed)"
    unfolding ua_open_prepared [OF ciphers keys] a_def [symmetric] by (auto simp: Let_def)
  then obtain e where e: "ua_open E pto (pk_ct p) now (pk_pn p) (pk_kp p) (pk_ad p) (ep_aead me) = Some (a, Inl e)" "e = ErrKeysDropped \<or> e = ErrDecryptionFailed"
    by blast
  obtain ep e' where "receive_packet E acked pto now p me = Some (ep, Inl e')" "end_ok E suite v ts acked x ep you" "end_ok E suite v ts acked (peer x) you ep"
      "e' = e \<or> e = ErrDecryptionFailed \<and> e' = AEADLimitReached"
    by (rule receive_error [OF e(1) a(1,2) me you])
  then show ?thesis
    using e(2) by (intro that) auto
qed

lemma receive_sent:
  assumes ciphers: "packet_ciphers E suite v ts" and me: "end_ok E suite v ts acked x me you" and you: "end_ok E suite v ts acked (peer x) you me" and p: "p \<in> set (ep_sent you)"
    and stale: "Suc (pk_phase p) < ua_keyPhase (ep_aead me) \<Longrightarrow> unreadable E suite v ts x (ua_keyPhase (ep_aead me)) p"
  obtains ep res where "receive_packet E acked pto now p me = Some (ep, res)" "end_ok E suite v ts acked x ep you" "end_ok E suite v ts acked (peer x) you ep" "res \<noteq> Inl KeyUpdateError"
    "res = Inr (pk_data p) \<or>
     Suc (pk_phase p) = ua_keyPhase (ep_aead me) \<and> res = Inl ErrKeysDropped \<and> ua_firstRcvdWithCurrentKey (ep_aead me) \<noteq> ae_InvalidPacketNumber E \<or>
     Suc (pk_phase p) < ua_keyPhase (ep_aead me)"
proof -
  have sealed: "sealed_ok E suite v ts (peer x) p" and "pk_phase p \<le> ua_keyPhase (ep_aead you)" "ua_keyPhase (ep_aead you) \<le> Suc (ua_keyPhase (ep_aead me))"
    using you p by (auto simp: end_ok_def log_ok_def link_ok_def)
  then consider "pk_phase p = Suc (ua_keyPhase (ep_aead me))" | "pk_phase p = ua_keyPhase (ep_aead me)" | "Suc (pk_phase p) = ua_keyPhase (ep_aead me)" | "Suc (pk_phase p) < ua_keyPhase (ep_aead me)"
    by linarith
  then show ?thesis
  proof cases
    case 1
    show ?thesis
      using receive_next [OF ciphers me you p 1] by (auto intro: that)
  next
    case 2
    show ?thesis
      using receive_current [OF ciphers me you p 2] by (auto intro: that)
  next
    case 3
    show ?thesis
      using ciphers me you p 3 by (cases rule: receive_previous [of E suite v ts acked x me you p pto now]) (use 3 in \<open>auto intro: that\<close>)
  next
    case 4
    obtain ep e where "receive_packet E acked pto now p me = Some (ep, Inl e)" "e \<noteq> KeyUpdateError" "end_ok E suite v ts acked x ep you" "end_ok E suite v ts acked (peer x) you ep"
      by (rule receive_unreadable [OF ciphers me you stale [OF 4]])
    then show ?thesis
      using 4 by (auto intro: that)
  qed
qed

section \<open>Reachable states\<close>

lemma start_ok:
  assumes ciphers: "packet_ciphers E suite v ts" and "established E suite v ts x = Some (ep_aead me)" and "0 \<le> sk_next (ep_gen me)" and "ep_sent me = []" "ep_rcvd me = []"
    and "established E suite v ts (peer x) = Some (ep_aead you)"
  shows "end_ok E suite v ts acked x me you"
proof -
  have new: "keys_ok E suite v ts x a \<and> ua_keyPhase a = 0 \<and> ua_firstSentWithCurrentKey a = ae_InvalidPacketNumber E \<and> ua_firstRcvdWithCurrentKey a = ae_InvalidPacketNumber E \<and>
      ua_largestAcked a = ae_InvalidPacketNumber E" if "established E suite v ts x = Some a" for x a
    using that suite_known [OF ciphers] nonce_size [OF ciphers]
    by (cases x) (auto simp: established_def SetReadKey_def SetWriteKey_def setAEADParameters_def newUpdatableAEAD_def keys_ok_def Let_def phase_key_def traffic_secret_def)
  show ?thesis
    using new [OF assms(2)] new [OF assms(6)] assms(3-5) by (simp add: end_ok_def log_ok_def link_ok_def)
qed

lemma reachable_ok:
  assumes "reachable E suite v ts acked n" and ciphers: "packet_ciphers E suite v ts"
  shows "conn_ok E suite v ts acked n"
  using assms(1)
proof induction
  case (start n)
  then show ?case
    unfolding conn_ok_def by (auto intro!: start_ok [OF ciphers])
next
  case (confirm n x)
  have "keys_ok E suite v ts x (SetHandshakeConfirmed (ep_aead (n x)))" "same_phase (ep_aead (n x)) (SetHandshakeConfirmed (ep_aead (n x)))"
    using conn_okD(1) [OF confirm.IH, of x] by (simp_all add: end_ok_def keys_ok_def same_phase_def SetHandshakeConfirmed_def)
  then show ?case
    unfolding conn_ok_update using quiet_end [OF conn_okD [OF confirm.IH, of x]] by simp
next
  case (poll n x a kp)
  obtain b where "ua_KeyPhase E (ep_aead (n x)) = Some (b, KeyPhase_Bit (ua_keyPhase b))" "end_ok E suite v ts acked x ((n x)\<lparr>ep_aead := b\<rparr>) (n (peer x))"
      "end_ok E suite v ts acked (peer x) (n (peer x)) ((n x)\<lparr>ep_aead := b\<rparr>)"
    by (rule poll_end [OF conn_okD [OF poll.IH, of x]])
  then show ?case
    unfolding conn_ok_update using poll.hyps by simp
next
  case (send n rnd d x ad ep)
  obtain ep' where "send_packet E rnd d ad (n x) = Some ep'" "end_ok E suite v ts acked x ep' (n (peer x))" "end_ok E suite v ts acked (peer x) (n (peer x)) ep'"
    by (rule send_end [OF ciphers conn_okD [OF send.IH, of x] send.hyps(2,3)])
  then show ?case
    unfolding conn_ok_update using send.hyps by simp
next
  case (deliver n x p pto now ep res)
  obtain ep' res' where "receive_packet E acked pto now p (n x) = Some (ep', res')" "end_ok E suite v ts acked x ep' (n (peer x))" "end_ok E suite v ts acked (peer x) (n (peer x)) ep'"
    by (rule receive_sent [OF ciphers conn_okD [OF deliver.IH, of x]]) (use deliver.hyps(2) in \<open>auto simp: deliverable_def\<close>)
  then show ?case
    unfolding conn_ok_update using deliver.hyps by simp
next
  case (forge n x p pto now ep res)
  obtain ep' e where "receive_packet E acked pto now p (n x) = Some (ep', Inl e)" "end_ok E suite v ts acked x ep' (n (peer x))" "end_ok E suite v ts acked (peer x) (n (peer x)) ep'"
    by (rule receive_unreadable [OF ciphers conn_okD [OF forge.IH, of x] forge.hyps(2)])
  then show ?case
    unfolding conn_ok_update using forge.hyps by simp
qed

text \<open>An endpoint can always send.\<close>

lemma send_possible:
  assumes "packet_ciphers E suite v ts" and "reachable E suite v ts acked n" and "\<forall>k. 0 \<le> rnd k" and "acked d = None \<or> (\<exists>q \<in> set (ep_rcvd (n x)). acked d = Some (pk_pn q))"
  shows "\<exists>ep. send_packet E rnd d ad (n x) = Some ep"
proof -
  obtain ep where "send_packet E rnd d ad (n x) = Some ep"
    by (rule send_end [OF assms(1) conn_okD [OF reachable_ok [OF assms(2,1)], of x], where rnd = rnd and d = d and ad = ad]) (use assms(3,4) in auto)
  then show ?thesis
    by blast
qed

text \<open>
  C21: whatever packets two endpoints exchange, and whichever are lost, repeated, reordered or forged, the key phases of the endpoints differ by at most one.  This is for runs in which a forged packet, or one that
  arrives two key phases late, is not opened by one of the three keys that the receiver holds (its current, previous and next one); of the key derivation nothing is assumed.
\<close>

theorem key_phases_in_step:
  assumes "packet_ciphers E suite v ts" and "reachable E suite v ts acked n"
  shows "ua_keyPhase (ep_aead (n x)) \<le> ua_keyPhase (ep_aead (n (peer x))) + 1"
  using conn_okD(1) [OF reachable_ok [OF assms(2,1)], of x] by (simp add: end_ok_def link_ok_def)

text \<open>
  C10: a packet that one endpoint has sent is never the cause of a key update error at the other, neither on opening it nor on handling its acknowledgement.  If it is
  of the receiver's key phase or a later one it is opened; if it is of the phase before it is opened too, unless the receiver has had a packet of the current phase and dropped the old keys.
  A packet of a still older phase is assumed not to be opened by one of the three keys that the receiver holds.
\<close>

theorem key_update_no_false_alarm:
  assumes "packet_ciphers E suite v ts" and "reachable E suite v ts acked n" and "deliverable E suite v ts x n p"
  shows "\<exists>ep res. receive_packet E acked pto now p (n x) = Some (ep, res) \<and> res \<noteq> Inl KeyUpdateError \<and>
    (ua_keyPhase (ep_aead (n x)) \<le> pk_phase p \<longrightarrow> res = Inr (pk_data p)) \<and>
    (ua_keyPhase (ep_aead (n x)) = pk_phase p + 1 \<longrightarrow>
      res = Inr (pk_data p) \<or> res = Inl ErrKeysDropped \<and> ua_firstRcvdWithCurrentKey (ep_aead (n x)) \<noteq> ae_InvalidPacketNumber E)"
  by (rule receive_sent [OF assms(1) conn_okD [OF reachable_ok [OF assms(2,1)], of x], of p pto now]) (use assms(3) in \<open>auto simp: deliverable_def\<close>)

section \<open>An example\<close>

text \<open>A cipher that writes its key in front of the text, which no real one does, and a key derivation that returns as many bytes as it is asked for.\<close>

definition sample_hkdf :: "nat \<Rightarrow> bytes \<Rightarrow> bytes \<Rightarrow> string \<Rightarrow> int \<Rightarrow> bytes" where
  "sample_hkdf h secret ctx label len = take (nat len) ((if label = ''quic ku'' then [1] else []) @ secret @ replicate (nat len) 0)"

lemma sample_hkdf_length: "length (sample_hkdf h secret ctx label len) = nat len"
  by (simp add: sample_hkdf_def)

definition sample_aead :: "(bytes, unit) aead_env" where
  "sample_aead =
     \<lparr>ae_hkdfExpandLabel = sample_hkdf, ae_HashSize = (\<lambda>h. 32),
      ae_LabelKeyV1 = ''quic key'', ae_LabelIVV1 = ''quic iv'', ae_LabelKeyV2 = ''quicv2 key'', ae_LabelIVV2 = ''quicv2 iv'', ae_Version2 = 0x6b3343cf,
      ae_NonceSize = (\<lambda>k. 8), ae_Overhead = (\<lambda>k. int (length k) + 1),
      ae_Seal = (\<lambda>k nonce m ad. k @ 1 # m), ae_Open = (\<lambda>k nonce c ad. if take (length k + 1) c = k @ [1] then Some (drop (length k + 1) c) else None),
      ae_newHeaderProtector = (\<lambda>s t b v. ()), ae_EncryptHeader = (\<lambda>h s b bs. (b, bs)), ae_DecryptHeader = (\<lambda>h s b bs. (b, bs)),
      ae_DecodePacketNumber = (\<lambda>l h w. w), ae_InvalidPacketNumber = -1, ae_InvalidPacketLimitAES = 100, ae_InvalidPacketLimitChaCha = 100, ae_keyUpdateInterval = 1\<rparr>"

definition sample_suite :: "bytes cipherSuite" where
  "sample_suite = \<lparr>cs_ID = 0x1301, cs_Hash = 5, cs_KeyLen = 16, cs_IVLen = 12, cs_AEAD = (\<lambda>key iv. key)\<rparr>"

definition sample_secret :: "side \<Rightarrow> bytes" where
  "sample_secret x = (case x of Client \<Rightarrow> [7] | Server \<Rightarrow> [8])"

lemma sample_ciphers: "packet_ciphers sample_aead sample_suite 1 sample_secret"
  by (simp add: packet_ciphers_def sample_aead_def sample_suite_def Let_def)

definition sample_network :: "side \<Rightarrow> (bytes, unit) endpoint" where
  "sample_network x =
     \<lparr>ep_aead = the (established sample_aead sample_suite 1 sample_secret x), ep_gen = newSkippingPacketNumberGenerator (\<lambda>k. 0) 0 2 8, ep_sent = [], ep_rcvd = []\<rparr>"

text \<open>The client, its handshake confirmed, sends a packet in phase 0 and one in phase 1.\<close>

primrec sample_client :: "nat \<Rightarrow> (bytes, unit) endpoint" where
  "sample_client 0 = (sample_network Client)\<lparr>ep_aead := SetHandshakeConfirmed (ep_aead (sample_network Client))\<rparr>"
| "sample_client (Suc k) = the (send_packet sample_aead (\<lambda>k. 0) [1, 2, 3] [] (sample_client k))"

lemma sample_reachable: "reachable sample_aead sample_suite 1 sample_secret (\<lambda>d. None) (sample_network(Client := sample_client k))"
proof (induction k)
  case 0
  have "reachable sample_aead sample_suite 1 sample_secret (\<lambda>d. None) sample_network"
  proof (rule start)
    show "established sample_aead sample_suite 1 sample_secret x = Some (ep_aead (sample_network x))" for x
      by (cases x) (simp_all add: sample_network_def established_def SetReadKey_def SetWriteKey_def setAEADParameters_def newUpdatableAEAD_def sample_suite_def Let_def)
  qed (simp_all add: sample_network_def newSkippingPacketNumberGenerator_def generateNewSkip_def)
  from confirm [OF this, of Client] show ?case
    unfolding sample_client.simps .
next
  case (Suc k)
  obtain ep where ep: "send_packet sample_aead (\<lambda>k. 0) [1, 2, 3] [] (sample_client k) = Some ep"
    using send_possible [OF sample_ciphers Suc, where rnd = "\<lambda>k. 0" and d = "[1, 2, 3]" and x = Client and ad = "[]"] by auto
  have "reachable sample_aead sample_suite 1 sample_secret (\<lambda>d. None) ((sample_network(Client := sample_client k))(Client := ep))"
    by (rule send [OF Suc, where rnd = "\<lambda>k. 0" and d = "[1, 2, 3]" and ad = "[]"]) (use ep in simp_all)
  then show ?case
    by (simp only: fun_upd_upd sample_client.simps ep option.sel)
qed

lemmas sample_simps = send_packet_def ua_KeyPhase_def shouldInitiateKeyUpdate_def updateAllowed_def rollKeys_def ua_Seal_def put_nonce_def sk_Pop_def generateNewSkip_def
  newSkippingPacketNumberGenerator_def sample_network_def established_def SetReadKey_def SetWriteKey_def setAEADParameters_def newUpdatableAEAD_def SetHandshakeConfirmed_def
  FirstKeyUpdateInterval_def Let_def sample_suite_def sample_aead_def

lemma sample_second:
  "\<exists>p ps. ep_sent (sample_client 2) = p # ps \<and> pk_data p = [1, 2, 3]" "ua_keyPhase (ep_aead (sample_client 2)) = 1" "ua_keyPhase (ep_aead (sample_network Server)) = 0"
  by (simp_all add: numeral_2_eq_2 sample_simps)

theorem key_phases_in_step_witness:
  "ua_keyPhase (ep_aead (sample_client 2)) = 1 \<and>
   ua_keyPhase (ep_aead ((sample_network(Client := sample_client 2)) Client)) \<le> ua_keyPhase (ep_aead ((sample_network(Client := sample_client 2)) (peer Client))) + 1"
  using key_phases_in_step [OF sample_ciphers sample_reachable, of 2 Client] sample_second(2) by blast

theorem key_update_no_false_alarm_witness:
  "\<exists>ep res. receive_packet sample_aead (\<lambda>d. None) 5 10 (hd (ep_sent (sample_client 2))) (sample_network Server) = Some (ep, res) \<and> res = Inr [1, 2, 3]"
  using key_update_no_false_alarm [OF sample_ciphers sample_reachable [of 2], of Server "hd (ep_sent (sample_client 2))" 5 10] sample_second(1,3) by (auto simp: deliverable_def)

end
