(* ===== verification/Spec2Isabelle.thy ===== *)
theory Spec2Isabelle
  imports Prelude Protowire Protowire_Fields Xdr Simple_Lru Lru_Cache Two_Queue Ldb_Keys Ldb_Bloom Ldb_Session_Record Ldb_Tables Ldb_Version Ldb_Staging Ldb_Refs Ldb_Merge Ldb_Recovery Ldb_Db_Iter Ldb_Table_Find Ldb_Lookup Snappy Siv_Cipher Quic_Header Quic_Mtu Quic_Key_Update
begin

text \<open>
  Verification of the Go code of EtherMesh.

  \<^bold>\<open>The program.\<close>  EtherMesh is an Android application around Syncthing.  The Java and Kotlin sources start the native process and talk to it; the Go
  sources of Syncthing itself are a submodule whose files are not in the repository.  The Go code that is there is the module cache
  \<^verbatim>\<open>src/syncthing/pkg/mod\<close>, the libraries that the native process is made of, and several of them only in part.  This development models the
  libraries that carry Syncthing's data: its database (goleveldb), its caches (golang-lru), its messages (protowire, xdr), the
  encryption of file names (miscreant) and its transport (quic-go).  Paths below are relative to that directory.

  \<^bold>\<open>How the parts interact.\<close>  The database keeps its entries in table files, arranged in levels.  A version (\<^verbatim>\<open>version.go\<close>) is an immutable
  set of tables; a lookup walks it (\<open>Ldb_Version\<close>) over the searches of \<open>Ldb_Tables\<close>, in the key order of \<open>Ldb_Keys\<close>, with the bloom filter
  of \<open>Ldb_Bloom\<close> in front of each table, which the reader of a table (\<open>Ldb_Reader\<close>) searches block by block, and iterators (\<open>Ldb_Iterator\<close>, \<open>Ldb_Db_Iter\<close>) show a snapshot of it.  A change of the tables is a manifest
  record (\<open>Ldb_Session_Record\<close>), which the staging (\<open>Ldb_Staging\<close>) turns into the next version, which the session (\<open>Ldb_Session\<close>) writes to the
  manifest and makes current, telling the reference loop (\<open>Ldb_Refs\<close>), which removes the files that no version needs any more.  Such a change is the outcome of a compaction
  (\<open>Ldb_Compaction\<close>), which merges tables into new ones.  The other parts stand on their own.

  \<^bold>\<open>Theories.\<close>
    \<^item> \<open>Prelude\<close>: words, byte lists, the variable-length integers of Go's \<^verbatim>\<open>encoding/binary\<close>, and the locale \<open>varint_codec\<close>, which the
      standard library's codec and that of protowire interpret.
    \<^item> \<open>Protowire\<close>, \<open>Protowire_Fields\<close>: \<^verbatim>\<open>google.golang.org/protobuf/encoding/protowire/wire.go\<close>.  Every \<^verbatim>\<open>Append\<close>, \<^verbatim>\<open>Consume\<close> and \<^verbatim>\<open>Size\<close> function; the
      unrolled varint reader equals the loop it unrolls, values, tags and groups survive a round trip, and the field parser skips exactly an encoded
      tree of fields, within the recursion limit of 10000 of the source.
    \<^item> \<open>Xdr\<close>: \<^verbatim>\<open>calmh/xdr/marshaller.go\<close>, \<^verbatim>\<open>common.go\<close>.  A marshaller is its buffer, offset and error; any series of calls refines the XDR
      encoding of the items.
    \<^item> \<open>Simple_Lru\<close>, \<open>Lru_Cache\<close>, \<open>Two_Queue\<close>: \<^verbatim>\<open>golang-lru/v2/lru.go\<close> and \<^verbatim>\<open>2q.go\<close>.  The list package is a parameter with the contract
      \<open>simplelru\<close>.  A method is one atomic step; both caches refine a bounded map, and the callbacks see what is dropped.
    \<^item> \<open>Ldb_Keys\<close>: \<^verbatim>\<open>comparer/bytes_comparer.go\<close>, \<^verbatim>\<open>util/range.go\<close>, with the contract \<open>comparer\<close>.  \<open>Ldb_Bloom\<close>: \<^verbatim>\<open>filter/bloom.go\<close>, \<^verbatim>\<open>util/hash.go\<close>;
      no false negatives.
    \<^item> \<open>Ldb_Session_Record\<close>: \<^verbatim>\<open>session_record.go\<close>; round trip, failing writers, and records that end inside one of their strings.
    \<^item> \<open>Ldb_Tables\<close>: \<^verbatim>\<open>table.go\<close>; bisection against a linear scan, closure of the level 0 scan.  \<open>Ldb_Version\<close>: \<^verbatim>\<open>version.go\<close>; a lookup finds the
      newest visible entry of any tables with the contract \<open>table_store\<close>, whose searches may be turned down by a filter.  \<open>Ldb_Staging\<close>: \<^verbatim>\<open>version.go\<close>; staging refines the application of records to sets of
      tables, panics on a negative level and on nothing else, and the insertion by binary search equals sorting.
    \<^item> \<open>Ldb_Refs\<close>: \<^verbatim>\<open>session_util.go\<close> (\<^verbatim>\<open>refLoop\<close>) as a state machine over the messages of the session; an invariant by rule induction: the files of
      live versions are kept.
    \<^item> \<open>Ldb_Session\<close>, \<open>Ldb_Recovery\<close>: \<^verbatim>\<open>session.go\<close> and the rest of \<^verbatim>\<open>session_util.go\<close>, over a storage with the contract \<open>manifest_store\<close>; the
      manifest mirrors the session through commits, failures and restarts, and recovery restores it.
    \<^item> \<open>Ldb_Compaction\<close>, \<open>Ldb_Merge\<close>: the table writer of \<^verbatim>\<open>table.go\<close> and the compaction of \<^verbatim>\<open>db_compaction.go\<close>, an attempt that is repeated until it
      succeeds and resumes at the last complete table, over the contract \<open>compaction_store\<close>; the new tables hold exactly the entries that survive, whichever
      calls failed, readers see no difference, and it ends when failures are finitely many, closing and removing never fail, no table is corrupted, the database stays open and keys parse (\<open>steady_store\<close>).
    \<^item> \<open>Ldb_Iterator\<close>, \<open>Ldb_Db_Iter\<close>: \<^verbatim>\<open>iterator/iter.go\<close>, \<^verbatim>\<open>array_iter.go\<close>, \<^verbatim>\<open>db_iter.go\<close>; the iterator a user gets refines a cursor over the live
      entries of the snapshot, for any raw iterator with the contract \<open>iterator\<close>.
    \<^item> \<open>Ldb_Block\<close>, \<open>Ldb_Block_Iter\<close>, \<open>Ldb_Block_Format\<close>: the blocks of \<^verbatim>\<open>table/reader.go\<close>; \<open>block_layout\<close> is what a block holds, and on a
      well-formed block, a decidable property of its bytes, the iterator refines a cursor over the entries of its range.  \<open>Ldb_Reader\<close>, \<open>Ldb_Table_Find\<close>:
      the rest of \<^verbatim>\<open>table/reader.go\<close>, a table behind a block cache; a search finds the first entry that is not below the key, or nothing if the filter turns the key down.  \<open>Ldb_Lookup\<close>: \<^verbatim>\<open>tOps.open\<close>, \<^verbatim>\<open>find\<close> and \<^verbatim>\<open>findKey\<close> of \<^verbatim>\<open>table.go\<close>; table
      files with filters that cover their blocks are a \<open>table_store\<close>, so a lookup in a version finds the newest visible entry of its files.  The coding of internal keys has the contract \<open>key_bytes\<close>.
    \<^item> \<open>Snappy\<close>: \<^verbatim>\<open>golang/snappy/decode_other.go\<close>, the decoder of compressed blocks, with the format as a datatype of elements; it accepts exactly the
      encodings of elements that fill the destination.
    \<^item> \<open>Siv_Block\<close>, \<open>Siv_Cmac\<close>, \<open>Siv_Pmac\<close>, \<open>Siv_Cipher\<close>: \<^verbatim>\<open>miscreant.go/block\<close>, \<^verbatim>\<open>cmac\<close>, \<^verbatim>\<open>pmac\<close>, \<^verbatim>\<open>siv.go\<close>, \<^verbatim>\<open>aead.go\<close>; the digests equal their
      one-shot definitions for every split of the message, the cipher computes the ciphertext of RFC 5297, with doubling in the field and the mask of the counter defined on their own, and opens exactly what it seals.  The contract \<open>mac_hash\<close> is what the
      cipher needs of a digest, \<open>block_buffer\<close> what both digests do with a buffer.
    \<^item> \<open>Quic_Frames\<close>, \<open>Quic_Header\<close>: \<^verbatim>\<open>quic-go/internal/wire\<close> (the frame parser, nine frames, long headers) and \<^verbatim>\<open>internal/protocol/connection_id.go\<close>, over
      the contract \<open>quic_wire\<close> of RFC 9000; round trips, splitting of STREAM frames, and the shortcuts that read one field of a packet.
    \<^item> \<open>Quic_Mtu\<close>: \<^verbatim>\<open>quic-go/mtu_discoverer.go\<close>; the search for the path MTU ends, stays within what the path carries, and bears two accidental losses, for any
      \<^verbatim>\<open>InvalidByteCount\<close> that is not a size in question.
    \<^item> \<open>Quic_Aead\<close>, \<open>Quic_Key_Update\<close>: \<^verbatim>\<open>internal/handshake/aead.go\<close>, \<^verbatim>\<open>updatable_aead.go\<close>, \<^verbatim>\<open>internal/ackhandler/packet_number_generator.go\<close>; two endpoints over a
      network that loses, repeats, reorders and forges packets as an inductive set of reachable states; their key phases stay within one of each other, and genuine
      packets cause no key update error.  Of the ciphers only that a key opens what it sealed is assumed; a forged packet, or one that comes two phases late, is one that the receiver's three keys do not open.

  \<^bold>\<open>Conventions.\<close>  A panic is \<open>None\<close> and an error is a value (\<open>Inl\<close>, or the error field of a result).  Code that the repository does not hold is an
  argument, most often a record of functions, and what is relied on is a locale with an instance that shows it can be met.  Integers are words where
  they wrap in reach of the code (hashes, varints, counters of 32 bits); sequence numbers, file numbers and offsets of 63 bits are \<open>int\<close> or \<open>nat\<close>,
  with their bounds in the hypotheses where they matter.  A float64 ratio is the rational number it denotes, with the rounding written out; a NaN, which the range checks of \<^verbatim>\<open>New2QParams\<close> let through, is not among them.  Slices are
  values: aliasing between arguments is not covered, such as \<^verbatim>\<open>Seal\<close> writing over its plaintext.  Loops are total functions with a measure; where a loop depends on a parameter it is a partial
  function with the value \<open>None\<close> for not ending, and the lemmas show that it ends under the contract.  There is no fuel.

  \<^bold>\<open>Not modelled.\<close>  The Java and Kotlin application; Syncthing itself (no files); tables of text and time zone data, system call bindings,
  generated code; libraries that only do input and output (file system notification, metrics, database bindings, command line, test support); in goleveldb
  the writing of table blocks, which is not in the repository, the goroutines that wait for compaction commands, and transactions; in quic-go the connection, its streams and the frames whose files are missing.  \<^verbatim>\<open>PROJECT.json\<close> lists every part.
\<close>

end
